(* ===== verification/Prelude.thy ===== *)
theory Prelude
  imports Main "HOL-Library.Word"
begin

text \<open>
  Shared vocabulary of the development.

  \<^item> machine types of the Go sources as words (\<open>u8\<close>, \<open>u16\<close>, \<open>u32\<close>, \<open>u64\<close>, \<open>i64\<close>);
    a Go \<open>string\<close> is an Isabelle \<open>string\<close> (a list of 8-bit characters) and a \<open>[]byte\<close> is a
    list of 8-bit words;
  \<^item> the big-endian packing of \<open>encoding/binary\<close> on lists of bytes, with its two round trips;
  \<^item> \<open>bindE\<close>, the early return on an error, for results of the sum type \<open>'e + 'a\<close>;
  \<^item> association lists used as Go maps whose \<open>len\<close> is read (lookup \<open>map_of\<close>, insertion
    \<open>aput\<close>, deletion \<open>adel\<close>), with the invariant that their keys are distinct.
\<close>

unbundle bit_operations_syntax

named_theorems wire_simps "unfolding rules of the wire components"
named_theorems proc_simps "unfolding rules of the process components"

type_synonym u8 = "8 word"
type_synonym u16 = "16 word"
type_synonym u32 = "32 word"
type_synonym u64 = "64 word"
type_synonym i64 = "64 word"
type_synonym bytes = "u8 list"

subsection \<open>Strings and bytes\<close>

definition char_byte :: "char \<Rightarrow> u8" where
  "char_byte c = of_nat (of_char c)"

definition byte_char :: "u8 \<Rightarrow> char" where
  "byte_char b = char_of (unat b)"

definition bytes_of_string :: "string \<Rightarrow> bytes" where
  "bytes_of_string s = map char_byte s"

definition string_of_bytes :: "bytes \<Rightarrow> string" where
  "string_of_bytes bs = map byte_char bs"

lemma unat_byte_less [simp]: "unat (b :: u8) < 256"
  using unsigned_less [of b, where ?'a = nat] by simp

lemma unat_of_nat_byte: "unat (of_nat n :: u8) = n mod 256"
  by (simp add: unat_of_nat take_bit_eq_mod)

lemma byte_char_char_byte [simp]: "byte_char (char_byte c) = c"
proof -
  have "(of_char c :: nat) < 2 ^ 8"
    by simp
  then show ?thesis
    by (simp add: byte_char_def char_byte_def unat_of_nat take_bit_nat_eq_self)
qed

lemma char_byte_byte_char [simp]: "char_byte (byte_char b) = b"
proof -
  have "unat b < 256" by simp
  then show ?thesis
    by (simp add: byte_char_def char_byte_def)
qed

lemma string_of_bytes_of_string [simp]: "string_of_bytes (bytes_of_string s) = s"
  by (simp add: string_of_bytes_def bytes_of_string_def comp_def)

lemma bytes_of_string_of_bytes [simp]: "bytes_of_string (string_of_bytes bs) = bs"
  by (simp add: string_of_bytes_def bytes_of_string_def comp_def)

lemma length_bytes_of_string [simp]: "length (bytes_of_string s) = length s"
  by (simp add: bytes_of_string_def)

lemma length_string_of_bytes [simp]: "length (string_of_bytes bs) = length bs"
  by (simp add: string_of_bytes_def)

subsection \<open>Big-endian packing (encoding/binary)\<close>

primrec put_be :: "nat \<Rightarrow> nat \<Rightarrow> bytes" where
  "put_be 0 x = []"
| "put_be (Suc n) x = put_be n (x div 256) @ [of_nat x]"

definition get_be :: "bytes \<Rightarrow> nat" where
  "get_be bs = foldl (\<lambda>acc b. acc * 256 + unat b) 0 bs"

lemma put_be_numeral:
  "put_be (numeral k) x = put_be (pred_numeral k) (x div 256) @ [of_nat x]"
  by (subst numeral_eq_Suc) (rule put_be.simps(2))

lemma length_put_be [simp]: "length (put_be n x) = n"
  by (induction n arbitrary: x) auto

lemma get_be_Nil [simp]: "get_be [] = 0"
  by (simp add: get_be_def)

lemma get_be_snoc: "get_be (bs @ [b]) = get_be bs * 256 + unat b"
  by (simp add: get_be_def)

lemma get_be_bound: "get_be bs < 256 ^ length bs"
proof (induction bs rule: rev_induct)
  case Nil
  then show ?case by simp
next
  case (snoc b bs)
  have "unat b < 256" by simp
  with snoc have "get_be bs * 256 + unat b < 256 * 256 ^ length bs" by linarith
  then show ?case by (simp add: get_be_snoc)
qed

lemma get_put_be: "x < 256 ^ n \<Longrightarrow> get_be (put_be n x) = x"
proof (induction n arbitrary: x)
  case 0
  then show ?case by simp
next
  case (Suc n)
  have "x div 256 < 256 ^ n"
    using Suc.prems by (simp add: less_mult_imp_div_less mult.commute)
  then have "get_be (put_be n (x div 256)) = x div 256" by (rule Suc.IH)
  then show ?case by (simp add: get_be_snoc unat_of_nat_byte)
qed

lemma put_get_be: "length bs = n \<Longrightarrow> put_be n (get_be bs) = bs"
proof (induction n arbitrary: bs)
  case 0
  then show ?case by simp
next
  case (Suc n)
  then obtain cs c where bs: "bs = cs @ [c]" and len: "length cs = n"
    by (cases bs rule: rev_cases) auto
  have c: "unat c < 256" by simp
  have "(get_be cs * 256 + unat c) div 256 = get_be cs"
    using c by simp
  moreover have "(of_nat (get_be cs * 256 + unat c) :: u8) = c"
    unfolding word_unat_eq_iff unat_of_nat_byte using c by simp
  ultimately show ?case
    using Suc.IH [OF len] by (simp add: bs get_be_snoc)
qed

subsection \<open>Results: early return on an error\<close>

fun bindE :: "'e + 'a \<Rightarrow> ('a \<Rightarrow> 'e + 'b) \<Rightarrow> 'e + 'b" where
  "bindE (Inl e) f = Inl e"
| "bindE (Inr x) f = f x"

lemma bindE_Inr_iff: "bindE m f = Inr y \<longleftrightarrow> (\<exists>x. m = Inr x \<and> f x = Inr y)"
  by (cases m) auto

lemma bindE_Inl_iff: "bindE m f = Inl e \<longleftrightarrow> m = Inl e \<or> (\<exists>x. m = Inr x \<and> f x = Inl e)"
  by (cases m) auto

subsection \<open>Go maps as association lists\<close>

definition adel :: "'k \<Rightarrow> ('k \<times> 'v) list \<Rightarrow> ('k \<times> 'v) list" where
  "adel k m = filter (\<lambda>p. fst p \<noteq> k) m"

definition aput :: "'k \<Rightarrow> 'v \<Rightarrow> ('k \<times> 'v) list \<Rightarrow> ('k \<times> 'v) list" where
  "aput k v m = (k, v) # adel k m"

definition akeys :: "('k \<times> 'v) list \<Rightarrow> 'k list" where
  "akeys m = map fst m"

lemma map_of_adel: "map_of (adel k m) k' = (if k' = k then None else map_of m k')"
  by (induction m) (auto simp: adel_def)

lemma map_of_aput: "map_of (aput k v m) k' = (if k' = k then Some v else map_of m k')"
  by (simp add: aput_def map_of_adel)

lemma akeys_adel: "set (akeys (adel k m)) = set (akeys m) - {k}"
  by (auto simp: akeys_def adel_def)

lemma akeys_aput: "set (akeys (aput k v m)) = insert k (set (akeys m))"
  by (auto simp: akeys_def aput_def adel_def)

lemma distinct_akeys_adel: "distinct (akeys m) \<Longrightarrow> distinct (akeys (adel k m))"
  by (induction m) (auto simp: akeys_def adel_def)

lemma distinct_akeys_aput: "distinct (akeys m) \<Longrightarrow> distinct (akeys (aput k v m))"
  using distinct_akeys_adel [of m k] akeys_adel [of k m]
  by (auto simp: aput_def akeys_def)

lemma adel_absent: "map_of m k = None \<Longrightarrow> adel k m = m"
  by (induction m) (auto simp: adel_def split: if_splits)

lemma length_adel_le: "length (adel k m) \<le> length m"
  by (simp add: adel_def)

lemma length_aput_absent: "map_of m k = None \<Longrightarrow> length (aput k v m) = Suc (length m)"
  by (simp add: aput_def adel_absent)

lemma length_adel_present:
  "distinct (akeys m) \<Longrightarrow> map_of m k = Some v \<Longrightarrow> Suc (length (adel k m)) = length m"
proof (induction m)
  case Nil
  then show ?case by simp
next
  case (Cons p m)
  show ?case
  proof (cases "fst p = k")
    case True
    with Cons.prems have "map_of m k = None"
      by (auto simp: akeys_def map_of_eq_None_iff)
    with True show ?thesis using adel_absent [of m k] by (simp add: adel_def)
  next
    case False
    with Cons.prems have "map_of m k = Some v"
      by (cases p) auto
    with Cons False show ?thesis by (auto simp: akeys_def adel_def)
  qed
qed

lemma map_of_akeys: "map_of m k \<noteq> None \<longleftrightarrow> k \<in> set (akeys m)"
  by (simp add: akeys_def map_of_eq_None_iff)

lemmas amap_simps = map_of_adel map_of_aput akeys_adel akeys_aput

end
