(* ===== verification/WireFrame.thy ===== *)
theory WireFrame
  imports Prelude
begin

text \<open>
  The transport's frame layer: \<^verbatim>\<open>internal/wire/frame.go\<close> (the fixed 32-byte header, its
  encoder and decoder, the length-prefixed packet) and \<^verbatim>\<open>internal/wire/codec.go\<close> (the
  per-kind contract \<open>validateFrame\<close>, the drain preamble, the codec that reads and writes
  frames over a connection, the legacy protocol pin).

  A connection's inbound side is the list of bytes that arrive before it ends; its outbound
  side is the writer's answers to successive \<open>Write\<close> calls. Deadlines and the SCM_RIGHTS path
  are not in this theory.
\<close>

subsection \<open>Errors\<close>

datatype wire_error =
    ErrFrameTooLarge
  | ErrFrameTruncated
  | ErrProtocolVersion
  | ErrInvalidFrame
  | EOF
  | ErrUnexpectedEOF
  | ErrShortWrite
  | ErrConn
  | PanicPreamblePeeked

subsection \<open>Frames (frame.go)\<close>

definition ProtocolVersion :: u16 where "ProtocolVersion = 3"

definition DefaultMaxFrame :: int where "DefaultMaxFrame = 4194304"

definition frameHeaderSize :: nat where "frameHeaderSize = 32"

definition framePrefixSize :: nat where "framePrefixSize = 4"

definition frameMagic :: bytes where
  "frameMagic = [0x44, 0x4B, 0x53, 0x31]"

type_synonym FrameKind = u8
type_synonym FrameFlags = u8

definition FrameHello :: FrameKind where "FrameHello = 1"
definition FrameHelloAck :: FrameKind where "FrameHelloAck = 2"
definition FrameRequest :: FrameKind where "FrameRequest = 3"
definition FrameResponse :: FrameKind where "FrameResponse = 4"
definition FrameCancel :: FrameKind where "FrameCancel = 5"
definition FrameEvent :: FrameKind where "FrameEvent = 6"
definition FrameStream :: FrameKind where "FrameStream = 7"
definition FrameGoAway :: FrameKind where "FrameGoAway = 8"
definition FrameWindow :: FrameKind where "FrameWindow = 9"
definition FrameAck :: FrameKind where "FrameAck = 10"
definition FrameLifecycle :: FrameKind where "FrameLifecycle = 11"

definition FlagEnd :: FrameFlags where "FlagEnd = 1"

lemmas FrameKind_defs = FrameHello_def FrameHelloAck_def FrameRequest_def FrameResponse_def
  FrameCancel_def FrameEvent_def FrameStream_def FrameGoAway_def FrameWindow_def FrameAck_def
  FrameLifecycle_def

record Frame =
  Kind :: FrameKind
  Flags :: FrameFlags
  ID :: u64
  Sequence :: u32
  DeadlineUnixMilli :: i64
  Op :: string
  Tenant :: string
  Payload :: bytes

definition kind_valid :: "FrameKind \<Rightarrow> bool" where
  "kind_valid k \<longleftrightarrow> FrameHello \<le> k \<and> k \<le> FrameLifecycle"

text \<open>\<open>frame.Flags &^ FlagEnd\<close>: the flags outside \<open>FlagEnd\<close>.\<close>

definition stray_flags :: "FrameFlags \<Rightarrow> FrameFlags" where
  "stray_flags fl = fl AND NOT FlagEnd"

definition EncodeFrame :: "Frame \<Rightarrow> wire_error + bytes" where
  "EncodeFrame f =
    (if \<not> kind_valid (Kind f) then Inl ErrInvalidFrame
     else if stray_flags (Flags f) \<noteq> 0 then Inl ErrInvalidFrame
     else if 65535 < length (Op f) then Inl ErrInvalidFrame
     else if 65535 < length (Tenant f) then Inl ErrInvalidFrame
     else if sint (DeadlineUnixMilli f) < 0 then Inl ErrInvalidFrame
     else Inr (frameMagic @ put_be 2 (unat ProtocolVersion) @ [Kind f] @ [Flags f]
       @ put_be 8 (unat (ID f)) @ put_be 4 (unat (Sequence f))
       @ put_be 8 (unat (DeadlineUnixMilli f))
       @ put_be 2 (length (Op f)) @ put_be 2 (length (Tenant f))
       @ bytes_of_string (Op f) @ bytes_of_string (Tenant f) @ Payload f))"

text \<open>\<open>body[a:b]\<close>, for \<open>a \<le> b \<le> len(body)\<close>.\<close>

definition slice_of :: "nat \<Rightarrow> nat \<Rightarrow> 'a list \<Rightarrow> 'a list" where
  "slice_of a b xs = take (b - a) (drop a xs)"

definition DecodeFrame :: "bytes \<Rightarrow> wire_error + Frame" where
  "DecodeFrame body =
    (if length body < frameHeaderSize then Inl ErrInvalidFrame
     else if slice_of 0 4 body \<noteq> frameMagic then Inl ErrInvalidFrame
     else if get_be (slice_of 4 6 body) \<noteq> unat ProtocolVersion then Inl ErrProtocolVersion
     else let kind = body ! 6 in
       if \<not> kind_valid kind then Inl ErrInvalidFrame
     else let flags = body ! 7 in
       if stray_flags flags \<noteq> 0 then Inl ErrInvalidFrame
     else let deadline = get_be (slice_of 20 28 body) in
       if deadline > 2 ^ 63 - 1 then Inl ErrInvalidFrame
     else let opLength = get_be (slice_of 28 30 body); tenantLength = get_be (slice_of 30 32 body) in
       if frameHeaderSize + opLength + tenantLength > length body then Inl ErrInvalidFrame
     else let off = frameHeaderSize; off' = off + opLength; off'' = off' + tenantLength in
       Inr \<lparr> Kind = kind, Flags = flags,
         ID = of_nat (get_be (slice_of 8 16 body)),
         Sequence = of_nat (get_be (slice_of 16 20 body)),
         DeadlineUnixMilli = of_nat deadline,
         Op = string_of_bytes (slice_of off off' body),
         Tenant = string_of_bytes (slice_of off' off'' body),
         Payload = drop off'' body \<rparr>)"

definition EncodePacket :: "Frame \<Rightarrow> wire_error + bytes" where
  "EncodePacket f = bindE (EncodeFrame f) (\<lambda>body.
    if int (length body) > DefaultMaxFrame then Inl ErrFrameTooLarge
    else Inr (put_be 4 (length body) @ body))"

definition DecodePacket :: "bytes \<Rightarrow> wire_error + Frame" where
  "DecodePacket packet =
    (if length packet < framePrefixSize then Inl ErrFrameTruncated
     else let declared = get_be (slice_of 0 framePrefixSize packet) in
       if int declared > DefaultMaxFrame then Inl ErrFrameTooLarge
     else let body = drop framePrefixSize packet in
       if length body < declared then Inl ErrFrameTruncated
     else if length body > declared then Inl ErrInvalidFrame
     else DecodeFrame body)"

subsection \<open>The per-kind contract (codec.go)\<close>

definition sessionGenerationBytes :: nat where "sessionGenerationBytes = 16"

definition validateFrame :: "Frame \<Rightarrow> wire_error option" where
  "validateFrame f =
    (if \<not> kind_valid (Kind f) then Some ErrInvalidFrame
     else if stray_flags (Flags f) \<noteq> 0 then Some ErrInvalidFrame
     else
       let bare = DeadlineUnixMilli f = 0 \<and> Op f = '''' \<and> Tenant f = ''''; bad =
        (if Kind f = FrameHello \<or> Kind f = FrameHelloAck then
           Flags f \<noteq> FlagEnd \<or> ID f \<noteq> 0 \<or> Sequence f \<noteq> 0 \<or> \<not> bare \<or> Payload f = []
         else if Kind f = FrameRequest then
           ID f = 0 \<or> Sequence f \<noteq> 0 \<or> sint (DeadlineUnixMilli f) < 0 \<or> Op f = '''' \<or> Tenant f \<noteq> ''''
         else if Kind f = FrameResponse then
           Flags f \<noteq> FlagEnd \<or> ID f = 0 \<or> Sequence f \<noteq> 0 \<or> \<not> bare \<or> Payload f = []
         else if Kind f = FrameCancel then
           Flags f \<noteq> FlagEnd \<or> ID f = 0 \<or> Sequence f \<noteq> 0 \<or> \<not> bare \<or> Payload f \<noteq> []
         else if Kind f = FrameEvent then
           Flags f \<noteq> FlagEnd \<or> ID f \<noteq> 0 \<or> Sequence f \<noteq> 0 \<or> DeadlineUnixMilli f \<noteq> 0 \<or> Op f = ''''
             \<or> Tenant f \<noteq> ''''
         else if Kind f = FrameStream then
           ID f = 0 \<or> \<not> bare
         else if Kind f = FrameGoAway then
           Flags f \<noteq> FlagEnd \<or> ID f \<noteq> 0 \<or> Sequence f \<noteq> 0 \<or> \<not> bare \<or> Payload f \<noteq> []
         else if Kind f = FrameWindow then
           Flags f \<noteq> 0 \<or> Sequence f = 0 \<or> \<not> bare \<or> Payload f \<noteq> []
         else if Kind f = FrameAck then
           Flags f \<noteq> FlagEnd \<or> ID f = 0 \<or> Sequence f \<noteq> 0 \<or> \<not> bare
             \<or> length (Payload f) \<noteq> sessionGenerationBytes
         else if Kind f = FrameLifecycle then
           Flags f \<noteq> FlagEnd \<or> ID f \<noteq> 0 \<or> Sequence f \<noteq> 0 \<or> \<not> bare \<or> Payload f = []
         else False)
       in if bad then Some ErrInvalidFrame else None)"

definition encodeValidFrame :: "Frame \<Rightarrow> wire_error + bytes" where
  "encodeValidFrame f = (case validateFrame f of Some e \<Rightarrow> Inl e | None \<Rightarrow> EncodeFrame f)"

definition decodeValidFrame :: "bytes \<Rightarrow> wire_error + Frame" where
  "decodeValidFrame body = bindE (DecodeFrame body) (\<lambda>f.
    case validateFrame f of Some e \<Rightarrow> Inl e | None \<Rightarrow> Inr f)"

subsection \<open>The codec over a connection (codec.go)\<close>

definition drainPreamble :: bytes where "drainPreamble = [0x44, 0x52]"

definition maxFrameCeiling :: int where "maxFrameCeiling = 0x4452 * 2 ^ 16 - 1"

definition legacyProtocolVersion :: u16 where "legacyProtocolVersion = ProtocolVersion - 1"

record Codec =
  MaxFrame :: int
  peeked :: "bytes option"
  admitsLegacy :: bool
  legacy :: bool

definition NewCodec :: Codec where
  "NewCodec = \<lparr> MaxFrame = DefaultMaxFrame, peeked = None, admitsLegacy = False, legacy = False \<rparr>"

definition codec_limit :: "Codec \<Rightarrow> int" where
  "codec_limit c = (if MaxFrame c \<le> 0 then DefaultMaxFrame else MaxFrame c)"

text \<open>\<open>io.ReadFull\<close> of \<open>n\<close> bytes from the bytes that will still arrive.\<close>

definition ReadFull :: "nat \<Rightarrow> bytes \<Rightarrow> (wire_error + bytes) \<times> bytes" where
  "ReadFull n input =
    (if n \<le> length input then (Inr (take n input), drop n input)
     else if input = [] then (Inl EOF, [])
     else (Inl ErrUnexpectedEOF, []))"

definition PeekPreamble :: "Codec \<Rightarrow> bytes \<Rightarrow> (wire_error + bool) \<times> Codec \<times> bytes" where
  "PeekPreamble c input =
    (if peeked c \<noteq> None then (Inl PanicPreamblePeeked, c, input)
     else case ReadFull 2 input of
       (Inl ErrUnexpectedEOF, rest) \<Rightarrow> (Inl ErrFrameTruncated, c, rest)
     | (Inl e, rest) \<Rightarrow> (Inl e, c, rest)
     | (Inr head, rest) \<Rightarrow>
         if head = drainPreamble then (Inr True, c, rest)
         else (Inr False, c\<lparr>peeked := Some head\<rparr>, rest))"

definition set_version :: "u16 \<Rightarrow> bytes \<Rightarrow> bytes" where
  "set_version v body = slice_of 0 4 body @ put_be 2 (unat v) @ drop 6 body"

definition codec_decode :: "Codec \<Rightarrow> bytes \<Rightarrow> (wire_error + Frame) \<times> Codec" where
  "codec_decode c body =
    (let version = get_be (slice_of 4 6 body);
         c' = (if admitsLegacy c
               then c\<lparr>admitsLegacy := False, legacy := (version = unat legacyProtocolVersion)\<rparr>
               else c)
     in if legacy c'
        then if version \<noteq> unat legacyProtocolVersion then (Inl ErrProtocolVersion, c')
             else (decodeValidFrame (set_version ProtocolVersion body), c')
        else (decodeValidFrame body, c'))"

definition protocol :: "Codec \<Rightarrow> u16" where
  "protocol c = (if legacy c then legacyProtocolVersion else ProtocolVersion)"

definition ReadFrame :: "Codec \<Rightarrow> bytes \<Rightarrow> (wire_error + Frame) \<times> Codec \<times> bytes" where
  "ReadFrame c0 input =
    (let pk = (case peeked c0 of None \<Rightarrow> [] | Some p \<Rightarrow> p);
         c = c0\<lparr>peeked := None\<rparr>;
         n = length pk
     in case ReadFull (4 - n) input of
       (Inl e, rest) \<Rightarrow>
         (Inl (if e = ErrUnexpectedEOF \<or> (0 < n \<and> e = EOF) then ErrFrameTruncated else e), c, rest)
     | (Inr tail4, rest) \<Rightarrow>
         let bodyLength = get_be (pk @ tail4) in
         if int bodyLength > codec_limit c then (Inl ErrFrameTooLarge, c, rest)
         else if bodyLength < frameHeaderSize then (Inl ErrInvalidFrame, c, rest)
         else case ReadFull bodyLength rest of
           (Inl e, rest') \<Rightarrow>
             (Inl (if e = EOF \<or> e = ErrUnexpectedEOF then ErrFrameTruncated else e), c, rest')
         | (Inr body, rest') \<Rightarrow> (case codec_decode c body of (r, c') \<Rightarrow> (r, c', rest')))"

definition uint32Length :: "int \<Rightarrow> wire_error + u32" where
  "uint32Length value = (if value < 0 \<or> value > 2 ^ 32 - 1 then Inl ErrInvalidFrame else Inr (of_int value))"

text \<open>The packet \<open>writeFrame\<close> hands to the connection.\<close>

definition frame_packet :: "Codec \<Rightarrow> Frame \<Rightarrow> wire_error + bytes" where
  "frame_packet c f = bindE (encodeValidFrame f) (\<lambda>enc.
    let body = set_version (protocol c) enc in
    if int (length body) > codec_limit c then Inl ErrFrameTooLarge
    else bindE (uint32Length (int (length body))) (\<lambda>bodyLength.
      Inr (put_be 4 (unat bodyLength) @ body)))"

text \<open>
  One answer of the connection's \<open>Write(p)\<close>: how many bytes it took (at most \<open>len(p)\<close>, the
  \<open>io.Writer\<close> contract) and whether it failed. A list of answers that has ended stands for a
  connection that fails.
\<close>

type_synonym write_answer = "nat \<times> bool"

fun writeFull :: "write_answer list \<Rightarrow> bytes \<Rightarrow> bytes \<times> wire_error option" where
  "writeFull as [] = ([], None)"
| "writeFull [] p = ([], Some ErrConn)"
| "writeFull ((k, failed) # as) p =
     (let n = min k (length p) in
      if failed then (take n p, Some ErrConn)
      else if n = 0 then ([], Some ErrShortWrite)
      else case writeFull as (drop n p) of (out, e) \<Rightarrow> (take n p @ out, e))"

record write_result =
  started :: bool
  complete :: bool
  write_err :: "wire_error option"
  written :: bytes

definition writeFrame :: "Codec \<Rightarrow> write_answer list \<Rightarrow> Frame \<Rightarrow> write_result" where
  "writeFrame c as f =
    (case frame_packet c f of
       Inl e \<Rightarrow> \<lparr> started = False, complete = False, write_err = Some e, written = [] \<rparr>
     | Inr packet \<Rightarrow>
         (case writeFull as packet of
            (out, None) \<Rightarrow> \<lparr> started = True, complete = True, write_err = None, written = out \<rparr>
          | (out, Some e) \<Rightarrow>
              \<lparr> started = (out \<noteq> []), complete = (length out = length packet),
                write_err = Some e, written = out \<rparr>))"

subsection \<open>Slices and fixed-width fields\<close>

lemma length_slice [simp]: "length (slice_of a b xs) = min (b - a) (length xs - a)"
  by (simp add: slice_of_def)

lemma slice_append_slice:
  assumes "a \<le> b" "b \<le> c"
  shows "slice_of a b xs @ slice_of b c xs = slice_of a c xs"
proof -
  have "slice_of a c xs = take ((b - a) + (c - b)) (drop a xs)"
    using assms by (simp add: slice_of_def)
  also have "\<dots> = slice_of a b xs @ slice_of b c xs"
    using assms by (simp only: take_add slice_of_def drop_drop) simp
  finally show ?thesis by simp
qed

lemma slice_append_drop: "a \<le> b \<Longrightarrow> slice_of a b xs @ drop b xs = drop a xs"
  by (metis append_take_drop_id drop_drop le_add_diff_inverse2 slice_of_def)

lemma slice_single: "a < length xs \<Longrightarrow> slice_of a (Suc a) xs = [xs ! a]"
  by (simp add: slice_of_def take_Suc_conv_app_nth hd_drop_conv_nth take_Suc)

lemma slice_append1: "b \<le> length xs \<Longrightarrow> slice_of a b (xs @ ys) = slice_of a b xs"
  by (simp add: slice_of_def)

lemma slice_append2: "length xs \<le> a \<Longrightarrow> slice_of a b (xs @ ys) = slice_of (a - length xs) (b - length xs) ys"
  by (simp add: slice_of_def)

lemma slice_Cons: "0 < a \<Longrightarrow> slice_of a b (x # xs) = slice_of (a - 1) (b - 1) xs"
  by (cases a; cases b) (simp_all add: slice_of_def)

lemma slice_all: "length xs = n \<Longrightarrow> slice_of 0 n xs = xs"
  by (simp add: slice_of_def)

lemma sint_nonneg_unat: "0 \<le> sint (w :: i64) \<longleftrightarrow> unat w \<le> 2 ^ 63 - 1"
proof -
  have x: "0 \<le> uint w" "uint w < 2 ^ 64"
    using unsigned_less [of w, where ?'a = int] by simp_all
  have "(0 \<le> sint w) = (\<not> odd (uint w div 2 ^ 63))"
    by (simp add: sint_uint signed_take_bit_nonnegative_iff bit_iff_odd)
  also have "\<dots> = (uint w < 2 ^ 63)"
  proof (cases "uint w < 2 ^ 63")
    case True
    then show ?thesis using x by simp
  next
    case False
    then have "uint w div 2 ^ 63 = 1" using x by (simp add: div_pos_geq)
    with False show ?thesis by simp
  qed
  also have "\<dots> = (unat w \<le> 2 ^ 63 - 1)"
    by (simp flip: nat_uint_eq add: nat_le_iff) linarith
  finally show ?thesis .
qed

lemma header_split:
  assumes "32 \<le> length b"
  shows "b = slice_of 0 4 b @ slice_of 4 6 b @ [b ! 6] @ [b ! 7] @ slice_of 8 16 b @ slice_of 16 20 b
    @ slice_of 20 28 b @ slice_of 28 30 b @ slice_of 30 32 b @ drop 32 b"
proof -
  have "[b ! 6] = slice_of 6 7 b" "[b ! 7] = slice_of 7 8 b"
    using assms slice_single [of 6 b] slice_single [of 7 b] by (simp_all add: eval_nat_numeral)
  then show ?thesis
    by (simp add: slice_append_drop)
qed

lemma unat_put_u64: "get_be (put_be 8 (unat (w :: u64))) = unat w"
  using unsigned_less [of w, where ?'a = nat] by (simp add: get_put_be)

lemma unat_put_u32: "get_be (put_be 4 (unat (w :: u32))) = unat w"
  using unsigned_less [of w, where ?'a = nat] by (simp add: get_put_be)

lemma unat_put_u16: "get_be (put_be 2 (unat (w :: u16))) = unat w"
  using unsigned_less [of w, where ?'a = nat] by (simp add: get_put_be)

lemma put_u64_get: "length bs = 8 \<Longrightarrow> put_be 8 (unat (of_nat (get_be bs) :: u64)) = bs"
  using get_be_bound [of bs] by (simp add: unat_of_nat take_bit_nat_eq_self put_get_be)

lemma put_u32_get: "length bs = 4 \<Longrightarrow> put_be 4 (unat (of_nat (get_be bs) :: u32)) = bs"
  using get_be_bound [of bs] by (simp add: unat_of_nat take_bit_nat_eq_self put_get_be)

lemma unat_of_nat_u64: "n < 2 ^ 64 \<Longrightarrow> unat (of_nat n :: u64) = n"
  by (simp add: unat_of_nat take_bit_nat_eq_self)

subsection \<open>The header layout\<close>

text \<open>The frames \<open>EncodeFrame\<close> accepts.\<close>

definition frame_ok :: "Frame \<Rightarrow> bool" where
  "frame_ok f \<longleftrightarrow> kind_valid (Kind f) \<and> stray_flags (Flags f) = 0 \<and> length (Op f) \<le> 65535
    \<and> length (Tenant f) \<le> 65535 \<and> 0 \<le> sint (DeadlineUnixMilli f)"

lemma EncodeFrame_Inr_iff:
  "EncodeFrame f = Inr body \<longleftrightarrow> frame_ok f \<and>
     body = frameMagic @ put_be 2 (unat ProtocolVersion) @ [Kind f] @ [Flags f]
       @ put_be 8 (unat (ID f)) @ put_be 4 (unat (Sequence f))
       @ put_be 8 (unat (DeadlineUnixMilli f))
       @ put_be 2 (length (Op f)) @ put_be 2 (length (Tenant f))
       @ bytes_of_string (Op f) @ bytes_of_string (Tenant f) @ Payload f"
  by (auto simp: EncodeFrame_def frame_ok_def)

lemma length_frameMagic [simp]: "length frameMagic = 4"
  by (simp add: frameMagic_def)

lemma DecodeFrame_EncodeFrame:
  assumes "EncodeFrame f = Inr body"
  shows "DecodeFrame body = Inr f"
proof -
  note slice_simps = slice_append1 slice_append2 slice_Cons slice_all drop_Cons'
  from assms have ok: "frame_ok f" and body: "body = frameMagic @ put_be 2 (unat ProtocolVersion) @ [Kind f] @ [Flags f]
       @ put_be 8 (unat (ID f)) @ put_be 4 (unat (Sequence f))
       @ put_be 8 (unat (DeadlineUnixMilli f))
       @ put_be 2 (length (Op f)) @ put_be 2 (length (Tenant f))
       @ bytes_of_string (Op f) @ bytes_of_string (Tenant f) @ Payload f"
    by (simp_all add: EncodeFrame_Inr_iff)
  have "get_be (put_be 2 (length (Op f))) = length (Op f)" "get_be (put_be 2 (length (Tenant f))) = length (Tenant f)"
    using ok by (simp_all add: frame_ok_def get_put_be)
  moreover have "unat (DeadlineUnixMilli f) \<le> 2 ^ 63 - 1"
    using ok sint_nonneg_unat by (simp add: frame_ok_def)
  ultimately show ?thesis
    using ok unfolding body
    by (simp add: DecodeFrame_def Let_def slice_simps frameHeaderSize_def nth_append frame_ok_def
      unat_put_u64 unat_put_u32 unat_put_u16)
qed

lemma EncodeFrame_DecodeFrame:
  assumes "DecodeFrame body = Inr f"
  shows "EncodeFrame f = Inr body"
proof -
  let ?ol = "get_be (slice_of 28 30 body)" and ?tl = "get_be (slice_of 30 32 body)"
  let ?dl = "get_be (slice_of 20 28 body)"
  from assms have len: "32 \<le> length body" "32 + ?ol + ?tl \<le> length body"
    and magic: "slice_of 0 4 body = frameMagic"
    and ver: "get_be (slice_of 4 6 body) = unat ProtocolVersion"
    and ok: "kind_valid (body ! 6)" "stray_flags (body ! 7) = 0"
    and dl: "?dl \<le> 2 ^ 63 - 1"
    and f: "f = \<lparr> Kind = body ! 6, Flags = body ! 7,
         ID = of_nat (get_be (slice_of 8 16 body)),
         Sequence = of_nat (get_be (slice_of 16 20 body)),
         DeadlineUnixMilli = of_nat ?dl,
         Op = string_of_bytes (slice_of 32 (32 + ?ol) body),
         Tenant = string_of_bytes (slice_of (32 + ?ol) (32 + ?ol + ?tl) body),
         Payload = drop (32 + ?ol + ?tl) body \<rparr>"
    by (simp_all add: DecodeFrame_def Let_def frameHeaderSize_def split: if_splits)
  have verb: "slice_of 4 6 body = put_be 2 (unat ProtocolVersion)"
    using put_get_be [of "slice_of 4 6 body" 2] len(1) ver by simp
  have bounds: "?ol < 65536" "?tl < 65536" "?dl < 2 ^ 64"
    using get_be_bound [of "slice_of 28 30 body"] get_be_bound [of "slice_of 30 32 body"]
      get_be_bound [of "slice_of 20 28 body"] len(1) by simp_all
  have udl: "unat (of_nat ?dl :: i64) = ?dl" using bounds(3) by (rule unat_of_nat_u64)
  have frame: "frame_ok f"
    using ok bounds dl len(2) udl by (simp add: f frame_ok_def sint_nonneg_unat del: unat_of_nat)
  have tail: "drop 32 body = slice_of 32 (32 + ?ol) body @ slice_of (32 + ?ol) (32 + ?ol + ?tl) body
      @ drop (32 + ?ol + ?tl) body"
    by (simp add: slice_append_drop)
  have lens: "length (slice_of 32 (32 + ?ol) body) = ?ol"
      "length (slice_of (32 + ?ol) (32 + ?ol + ?tl) body) = ?tl"
    using len(2) by simp_all
  have fixed: "length (slice_of 8 16 body) = 8" "length (slice_of 16 20 body) = 4"
      "length (slice_of 20 28 body) = 8" "length (slice_of 28 30 body) = 2"
      "length (slice_of 30 32 body) = 2"
    using len(1) by simp_all
  have "body = frameMagic @ put_be 2 (unat ProtocolVersion) @ [Kind f] @ [Flags f]
       @ put_be 8 (unat (ID f)) @ put_be 4 (unat (Sequence f))
       @ put_be 8 (unat (DeadlineUnixMilli f))
       @ put_be 2 (length (Op f)) @ put_be 2 (length (Tenant f))
       @ bytes_of_string (Op f) @ bytes_of_string (Tenant f) @ Payload f"
    using len(1) lens
    by (subst header_split [OF len(1)], subst tail)
      (simp add: f magic verb put_u64_get put_u32_get udl put_get_be fixed del: unat_of_nat length_slice)
  with frame show ?thesis by (simp only: EncodeFrame_Inr_iff)
qed

lemma EncodeFrame_prefix:
  assumes "EncodeFrame f = Inr body"
  shows "32 \<le> length body" "slice_of 4 6 body = put_be 2 (unat ProtocolVersion)"
  using assms by (auto simp: EncodeFrame_Inr_iff slice_append1 slice_append2 slice_all)

subsection \<open>Reading back what was written\<close>

lemma slice_set_version: "6 \<le> length body \<Longrightarrow> slice_of 4 6 (set_version v body) = put_be 2 (unat v)"
  by (simp add: set_version_def slice_append1 slice_append2 slice_all)

lemma length_set_version [simp]: "6 \<le> length body \<Longrightarrow> length (set_version v body) = length body"
  by (simp add: set_version_def)

lemma set_version_twice: "6 \<le> length body \<Longrightarrow> set_version v (set_version w body) = set_version v body"
  by (simp add: set_version_def slice_append1 slice_all drop_append)

lemma set_version_same:
  "6 \<le> length body \<Longrightarrow> slice_of 4 6 body = put_be 2 (unat v) \<Longrightarrow> set_version v body = body"
proof -
  assume len: "6 \<le> length body" and ver: "slice_of 4 6 body = put_be 2 (unat v)"
  have "set_version v body = slice_of 0 4 body @ slice_of 4 6 body @ drop 6 body"
    by (simp add: set_version_def ver)
  also have "\<dots> = body" by (simp add: slice_append_drop)
  finally show ?thesis .
qed

lemma frame_packet_Inr:
  assumes "frame_packet c f = Inr packet"
  obtains enc where "validateFrame f = None" "EncodeFrame f = Inr enc"
    "packet = put_be 4 (length enc) @ set_version (protocol c) enc"
    "int (length enc) \<le> codec_limit c" "length enc < 2 ^ 32" "32 \<le> length enc"
proof -
  from assms obtain enc where enc: "encodeValidFrame f = Inr enc"
    by (auto simp: frame_packet_def bindE_Inr_iff)
  then have v: "validateFrame f = None" and e: "EncodeFrame f = Inr enc"
    by (auto simp: encodeValidFrame_def split: option.splits)
  note len = EncodeFrame_prefix(1) [OF e]
  from assms len have "int (length enc) \<le> codec_limit c" "length enc < 2 ^ 32"
    and "packet = put_be 4 (unat (of_int (int (length enc)) :: u32)) @ set_version (protocol c) enc"
    by (auto simp: frame_packet_def enc bindE_Inr_iff uint32Length_def Let_def split: if_splits)
  with len v e that show ?thesis
    by (simp add: unat_of_nat take_bit_nat_eq_self)
qed

lemma decode_written:
  assumes "EncodeFrame f = Inr enc" "validateFrame f = None" 
    and "admitsLegacy c \<or> legacy c = legacy w"
  shows "codec_decode c (set_version (protocol w) enc)
    = (Inr f, c\<lparr>admitsLegacy := False, legacy := legacy w\<rparr>)"
proof -
  note pre = EncodeFrame_prefix [OF assms(1)]
  have len: "6 \<le> length enc" using pre(1) by simp
  have dec: "decodeValidFrame enc = Inr f"
    using DecodeFrame_EncodeFrame [OF assms(1)] assms(2) by (simp add: decodeValidFrame_def)
  have restore: "set_version ProtocolVersion (set_version v enc) = enc" for v
    using len pre(2) by (simp add: set_version_twice set_version_same)
  have same: "set_version ProtocolVersion enc = enc"
    using len pre(2) by (simp add: set_version_same)
  have ne: "unat ProtocolVersion \<noteq> unat legacyProtocolVersion"
    by (simp add: ProtocolVersion_def legacyProtocolVersion_def)
  show ?thesis
    using assms(3) len dec restore same ne pre(2)
    by (cases "legacy w"; cases "admitsLegacy c")
      (simp_all add: codec_decode_def Let_def protocol_def slice_set_version unat_put_u16)
qed

text \<open>
  The two places a reader can stand before a packet: nothing read yet, or the two bytes
  \<open>PeekPreamble\<close> stashed.
\<close>

definition read_ready :: "Codec \<Rightarrow> bytes \<Rightarrow> bytes \<Rightarrow> bool" where
  "read_ready c wire input \<longleftrightarrow>
    peeked c = None \<and> input = wire \<or> peeked c = Some (take 2 wire) \<and> input = drop 2 wire \<and> 2 \<le> length wire"

lemma ReadFrame_prefix:
  assumes "read_ready c (put_be 4 n @ rest) input" and that: "n < 2 ^ 32"
  shows "ReadFrame c input =
    (let c' = c\<lparr>peeked := None\<rparr> in
     if int n > codec_limit c then (Inl ErrFrameTooLarge, c', rest)
     else if n < frameHeaderSize then (Inl ErrInvalidFrame, c', rest)
     else case ReadFull n rest of
       (Inl e, rest') \<Rightarrow> (Inl (if e = EOF \<or> e = ErrUnexpectedEOF then ErrFrameTruncated else e), c', rest')
     | (Inr body, rest') \<Rightarrow> (case codec_decode c' body of (r, c'') \<Rightarrow> (r, c'', rest')))"
proof -
  have n: "get_be (put_be 4 n) = n" using that by (simp add: get_put_be)
  have split: "take 2 (put_be 4 n) @ take 2 (drop 2 (put_be 4 n)) = put_be 4 n"
    by (metis append_take_drop_id length_drop length_put_be order_refl take_all diff_self_eq_0 numeral_Bit0 add_diff_cancel_right')
  have lim: "codec_limit (c\<lparr>peeked := None\<rparr>) = codec_limit c"
    by (simp add: codec_limit_def)
  from assms(1) show ?thesis
    unfolding read_ready_def
    by (elim disjE conjE) (simp_all add: ReadFrame_def ReadFull_def Let_def n split lim)
qed

lemma ReadFrame_frame_packet:
  assumes w: "frame_packet w f = Inr packet"
    and lim: "codec_limit w \<le> codec_limit r"
    and era: "admitsLegacy r \<or> legacy r = legacy w"
    and rdy: "read_ready r (packet @ rest) input"
  shows "ReadFrame r input = (Inr f, r\<lparr>peeked := None, admitsLegacy := False, legacy := legacy w\<rparr>, rest)"
proof -
  obtain enc where v: "validateFrame f = None" and e: "EncodeFrame f = Inr enc"
    and p: "packet = put_be 4 (length enc) @ set_version (protocol w) enc"
    and b: "int (length enc) \<le> codec_limit w" "length enc < 2 ^ 32" "32 \<le> length enc"
    by (rule frame_packet_Inr [OF w])
  have rdy': "read_ready r (put_be 4 (length enc) @ (set_version (protocol w) enc @ rest)) input"
    using rdy by (simp add: p)
  have full: "ReadFull (length enc) (set_version (protocol w) enc @ rest)
    = (Inr (set_version (protocol w) enc), rest)"
    using b(3) by (simp add: ReadFull_def)
  have "codec_decode (r\<lparr>peeked := None\<rparr>) (set_version (protocol w) enc)
    = (Inr f, r\<lparr>peeked := None, admitsLegacy := False, legacy := legacy w\<rparr>)"
    using decode_written [OF e v, of "r\<lparr>peeked := None\<rparr>" w] era by simp
  with b lim full show ?thesis
    by (simp add: ReadFrame_prefix [OF rdy' b(2)] Let_def frameHeaderSize_def)
qed

lemma put_be_Suc_Suc:
  "put_be (Suc (Suc n)) x = put_be n (x div 65536) @ [of_nat (x div 256), of_nat x]"
  by (simp add: div_mult2_eq [symmetric])

lemma take2_put_be4: "take 2 (put_be 4 x) = put_be 2 (x div 65536)"
proof -
  have "put_be 4 x = put_be (Suc (Suc 2)) x" by simp
  then show ?thesis by (simp only: put_be_Suc_Suc) simp
qed

lemma preamble_free:
  assumes "x < 0x44520000"
  shows "take 2 (put_be 4 x) \<noteq> drainPreamble"
proof
  assume "take 2 (put_be 4 x) = drainPreamble"
  then have "get_be (put_be 2 (x div 65536)) = get_be drainPreamble"
    by (simp add: take2_put_be4)
  moreover have "x div 65536 < 0x4452" using assms by simp
  ultimately show False
    by (simp add: get_put_be) (simp add: drainPreamble_def get_be_def)
qed

lemma PeekPreamble_frame_packet:
  assumes w: "frame_packet w f = Inr packet"
    and ceil: "codec_limit w \<le> maxFrameCeiling"
    and r: "peeked r = None"
  shows "PeekPreamble r (packet @ rest) = (Inr False, r\<lparr>peeked := Some (take 2 packet)\<rparr>, drop 2 packet @ rest)"
proof -
  obtain enc where p: "packet = put_be 4 (length enc) @ set_version (protocol w) enc"
    and b: "int (length enc) \<le> codec_limit w"
    by (rule frame_packet_Inr [OF w])
  have "length enc < 0x44520000" using b ceil by (simp add: maxFrameCeiling_def)
  then have "take 2 packet \<noteq> drainPreamble" by (simp add: p preamble_free)
  then show ?thesis
    using r by (simp add: PeekPreamble_def ReadFull_def p)
qed

lemma peek_then_read:
  assumes "frame_packet w f = Inr packet"
    and "codec_limit w \<le> maxFrameCeiling" and "codec_limit w \<le> codec_limit r"
    and "peeked r = None" and "admitsLegacy r \<or> legacy r = legacy w"
  shows "ReadFrame (r\<lparr>peeked := Some (take 2 packet)\<rparr>) (drop 2 packet @ rest)
    = (Inr f, r\<lparr>admitsLegacy := False, legacy := legacy w\<rparr>, rest)"
proof -
  let ?r = "r\<lparr>peeked := Some (take 2 packet)\<rparr>"
  have unpeeked: "r\<lparr>peeked := None\<rparr> = r" using assms(4) by simp
  have lim: "codec_limit ?r = codec_limit r" by (simp add: codec_limit_def)
  obtain enc where "packet = put_be 4 (length enc) @ set_version (protocol w) enc"
    by (rule frame_packet_Inr [OF assms(1)])
  then have "2 \<le> length packet" by simp
  then have "read_ready ?r (packet @ rest) (drop 2 packet @ rest)"
    by (simp add: read_ready_def)
  then show ?thesis
    using ReadFrame_frame_packet [OF assms(1), of ?r rest "drop 2 packet @ rest"] assms(3-5) unpeeked lim
    by simp
qed

lemma PeekPreamble_drain:
  "peeked r = None \<Longrightarrow> PeekPreamble r (drainPreamble @ rest) = (Inr True, r, rest)"
  by (simp add: PeekPreamble_def ReadFull_def drainPreamble_def)

lemma writeFull_prefix:
  "writeFull as p = (out, e) \<Longrightarrow> \<exists>rest. p = out @ rest \<and> (e = None \<longrightarrow> rest = [])"
proof (induction as p arbitrary: out e rule: writeFull.induct)
  case (3 k failed as v va)
  show ?case
  proof (cases "failed \<or> min k (length (v # va)) = 0")
    case True
    with "3.prems" show ?thesis
      by (auto simp: Let_def split: if_splits) (metis append_take_drop_id)+
  next
    case False
    let ?n = "min k (length (v # va))"
    obtain o' where o': "writeFull as (drop ?n (v # va)) = (o', e)" and out: "out = take ?n (v # va) @ o'"
      using "3.prems" False by (auto simp: Let_def split: prod.splits if_splits)
    from "3.IH" [OF refl _ _ o'] False obtain rest where "drop ?n (v # va) = o' @ rest" "e = None \<longrightarrow> rest = []"
      by auto
    then show ?thesis using out by (metis append.assoc append_take_drop_id)
  qed
qed auto

lemma ReadFrame_truncated:
  assumes "n < 2 ^ 32" "32 \<le> n" "int n \<le> codec_limit r" "peeked r = None"
    and "put_be 4 n @ body = out @ missing" "missing \<noteq> []" "length body = n"
  shows "fst (ReadFrame r out) \<in> {Inl EOF, Inl ErrFrameTruncated}"
proof (cases "length out < 4")
  case True
  then show ?thesis using assms(4)
    by (auto simp: ReadFrame_def ReadFull_def Let_def)
next
  case False
  then obtain part where out: "out = put_be 4 n @ part"
    using assms(5) by (metis append_eq_append_conv_if length_put_be not_less append_take_drop_id)
  with assms(5,6,7) have part: "length part < n"
    by (metis append.assoc append_Nil2 append_self_conv length_append less_add_same_cancel1 length_greater_0_conv same_append_eq)
  have rdy: "read_ready r (put_be 4 n @ part) out" using assms(4) out by (simp add: read_ready_def)
  show ?thesis
    using assms(1-3) part
    by (auto simp: ReadFrame_prefix [OF rdy assms(1)] Let_def ReadFull_def frameHeaderSize_def)
qed

subsection \<open>Streams of packets\<close>

text \<open>
  The contract a reader has with a packet format: a packet is not empty, and reading a stream
  that starts with a packet gives its message and leaves what follows it. A loop that reads
  message after message then recovers every sent message in order, and no stream is the
  concatenation of two different message lists.
\<close>

primrec read_many :: "(bytes \<Rightarrow> ('f \<times> bytes) option) \<Rightarrow> nat \<Rightarrow> bytes \<Rightarrow> ('f list \<times> bytes) option" where
  "read_many rd 0 input = Some ([], input)"
| "read_many rd (Suc n) input =
     (case rd input of None \<Rightarrow> None
      | Some (f, rest) \<Rightarrow> map_option (\<lambda>(fs, left). (f # fs, left)) (read_many rd n rest))"

locale packet_format =
  fixes sends :: "'f \<Rightarrow> bytes \<Rightarrow> bool"
    and rd :: "bytes \<Rightarrow> ('f \<times> bytes) option"
  assumes reads_back: "sends f p \<Longrightarrow> rd (p @ rest) = Some (f, rest)"
    and nonempty: "sends f p \<Longrightarrow> p \<noteq> []"
begin

lemma read_many_sent:
  "list_all2 sends fs ps \<Longrightarrow> read_many rd (length fs) (concat ps @ rest) = Some (fs, rest)"
  by (induction fs ps rule: list_all2_induct) (simp_all add: reads_back)

lemma sent_unambiguous:
  "list_all2 sends fs ps \<Longrightarrow> list_all2 sends gs qs \<Longrightarrow> concat ps = concat qs \<Longrightarrow> fs = gs"
proof (induction fs ps arbitrary: gs qs rule: list_all2_induct)
  case Nil
  then show ?case using nonempty by (cases gs; cases qs) auto
next
  case (Cons f fs p ps)
  note outer = Cons
  have "p @ concat ps \<noteq> []" using nonempty [OF Cons.hyps(1)] by simp
  with Cons.prems obtain g gs' q qs' where g: "gs = g # gs'" "qs = q # qs'"
      "sends g q" "list_all2 sends gs' qs'"
    by (cases gs; cases qs) auto
  have "Some (f, concat ps) = Some (g, concat qs')"
    using reads_back [OF Cons.hyps(1), of "concat ps"] reads_back [OF g(3), of "concat qs'"]
      Cons.prems(2) g(2) by simp
  then show ?case using Cons.IH [OF g(4)] g(1) by simp
qed

end

definition codec_read :: "int \<Rightarrow> bytes \<Rightarrow> (Frame \<times> bytes) option" where
  "codec_read m input =
    (case ReadFrame (NewCodec\<lparr>MaxFrame := m\<rparr>) input of (Inr f, _, rest) \<Rightarrow> Some (f, rest) | _ \<Rightarrow> None)"

interpretation frames: packet_format
  "\<lambda>f p. frame_packet (NewCodec\<lparr>MaxFrame := m\<rparr>) f = Inr p" "codec_read m" for m
proof
  fix f p rest
  assume sent: "frame_packet (NewCodec\<lparr>MaxFrame := m\<rparr>) f = Inr p"
  show "codec_read m (p @ rest) = Some (f, rest)"
    using ReadFrame_frame_packet [OF sent order_refl, of rest "p @ rest"]
    by (simp add: codec_read_def read_ready_def NewCodec_def)
  obtain enc where "p = put_be 4 (length enc) @ set_version (protocol (NewCodec\<lparr>MaxFrame := m\<rparr>)) enc"
    by (rule frame_packet_Inr [OF sent])
  then have "4 \<le> length p" by simp
  then show "p \<noteq> []" by auto
qed

subsection \<open>Properties\<close>

text \<open>
  C8: the frame encoder and decoder are inverse bijections between the frames the encoder
  accepts and the bodies the decoder accepts: a body decodes to a frame exactly when that
  frame encodes to that body. No two bodies carry one frame, no frame has two encodings.
\<close>

theorem frame_codec_bijection: "DecodeFrame body = Inr f \<longleftrightarrow> EncodeFrame f = Inr body"
  using DecodeFrame_EncodeFrame EncodeFrame_DecodeFrame by blast

text \<open>
  The same for length-prefixed packets, the size cap included: \<open>DecodePacket\<close> accepts
  exactly the packets \<open>EncodePacket\<close> produces and returns the encoded frame.
\<close>

lemma packet_codec_bijection: "DecodePacket packet = Inr f \<longleftrightarrow> EncodePacket f = Inr packet"
proof
  assume d: "DecodePacket packet = Inr f"
  let ?n = "get_be (slice_of 0 4 packet)" and ?body = "drop 4 packet"
  from d have len: "4 \<le> length packet" "length ?body = ?n" "int ?n \<le> DefaultMaxFrame"
    and dec: "DecodeFrame ?body = Inr f"
    by (auto simp: DecodePacket_def Let_def framePrefixSize_def split: if_splits)
  have "packet = slice_of 0 4 packet @ ?body" by (simp add: slice_append_drop)
  moreover have "slice_of 0 4 packet = put_be 4 ?n"
    using put_get_be [of "slice_of 0 4 packet" 4] len(1) by simp
  ultimately show "EncodePacket f = Inr packet"
    using EncodeFrame_DecodeFrame [OF dec] len(2,3) by (simp add: EncodePacket_def)
next
  assume e: "EncodePacket f = Inr packet"
  then obtain body where b: "EncodeFrame f = Inr body" "int (length body) \<le> DefaultMaxFrame"
      "packet = put_be 4 (length body) @ body"
    by (auto simp: EncodePacket_def bindE_Inr_iff split: if_splits)
  then have "get_be (put_be 4 (length body)) = length body"
    by (simp add: get_put_be DefaultMaxFrame_def)
  with b show "DecodePacket packet = Inr f"
    by (simp add: DecodePacket_def framePrefixSize_def slice_append1 slice_all DecodeFrame_EncodeFrame)
qed

text \<open>
  C7: the drain preamble cannot be confused with a frame. Whatever frame a peer writes under a
  cap both constructors admit, a reader that first peeks for the preamble sees none, and its
  next \<open>ReadFrame\<close> returns exactly that frame, leaves exactly the bytes after it and settles the
  protocol era of the session to the writer's.
\<close>

theorem drain_preamble_unambiguous:
  assumes "frame_packet w f = Inr packet"
    and "codec_limit w \<le> maxFrameCeiling" and "codec_limit w \<le> codec_limit r"
    and "peeked r = None" and "admitsLegacy r \<or> legacy r = legacy w"
  shows "case PeekPreamble r (packet @ rest) of (drain, r', input') \<Rightarrow>
    drain = Inr False \<and>
    ReadFrame r' input' = (Inr f, r\<lparr>admitsLegacy := False, legacy := legacy w\<rparr>, rest)"
  using PeekPreamble_frame_packet [OF assms(1,2,4)] peek_then_read [OF assms] by simp

definition hello_example :: Frame where
  "hello_example = \<lparr> Kind = FrameHello, Flags = FlagEnd, ID = 0, Sequence = 0, DeadlineUnixMilli = 0,
     Op = [], Tenant = [], Payload = [0x7B, 0x7D] \<rparr>"

definition hello_packet :: bytes where
  "hello_packet = [0, 0, 0, 34, 0x44, 0x4B, 0x53, 0x31, 0, 3, 1, 1, 0, 0, 0, 0, 0, 0, 0, 0,
     0, 0, 0, 0, 0, 0, 0, 0, 0, 0, 0, 0, 0, 0, 0, 0, 0x7B, 0x7D]"

lemmas packet_eval = frame_packet_def encodeValidFrame_def validateFrame_def EncodeFrame_def
  kind_valid_def FrameKind_defs stray_flags_def FlagEnd_def hello_example_def hello_packet_def
  frameMagic_def ProtocolVersion_def set_version_def protocol_def codec_limit_def uint32Length_def
  NewCodec_def DefaultMaxFrame_def slice_of_def put_be_numeral bytes_of_string_def

lemma hello_packet_eq: "frame_packet NewCodec hello_example = Inr hello_packet"
  by (simp add: packet_eval)

theorem drain_preamble_unambiguous_witness:
  "frame_packet NewCodec hello_example = Inr hello_packet \<and>
   (case PeekPreamble (NewCodec\<lparr>admitsLegacy := True\<rparr>) (hello_packet @ [1, 2]) of (drain, r', input') \<Rightarrow>
     drain = Inr False \<and> ReadFrame r' input' = (Inr hello_example, NewCodec, [1, 2]))"
  using drain_preamble_unambiguous [OF hello_packet_eq, of "NewCodec\<lparr>admitsLegacy := True\<rparr>" "[1, 2]"]
    hello_packet_eq
  by (simp add: NewCodec_def codec_limit_def DefaultMaxFrame_def maxFrameCeiling_def)

text \<open>
  What \<open>writeFrame\<close> reports about a write is what happened to the packet: \<open>complete\<close> is exactly
  that every byte of it reached the connection, \<open>started\<close> exactly that some byte did, and a packet
  that is not complete cannot dispatch at the peer, whose read of everything that arrived ends in
  an end-of-stream or truncation error.
\<close>

lemma partial_write_never_dispatches:
  assumes "frame_packet w f = Inr packet" and "codec_limit w \<le> codec_limit r" and "peeked r = None"
  shows "(complete (writeFrame w as f) \<longleftrightarrow> written (writeFrame w as f) = packet)
    \<and> (started (writeFrame w as f) \<longleftrightarrow> written (writeFrame w as f) \<noteq> [])
    \<and> (\<not> complete (writeFrame w as f) \<longrightarrow>
         fst (ReadFrame r (written (writeFrame w as f))) \<in> {Inl EOF, Inl ErrFrameTruncated})"
proof -
  obtain enc where p: "packet = put_be 4 (length enc) @ set_version (protocol w) enc"
    and b: "int (length enc) \<le> codec_limit w" "length enc < 2 ^ 32" "32 \<le> length enc"
    by (rule frame_packet_Inr [OF assms(1)])
  obtain out e where out: "writeFull as packet = (out, e)" by fastforce
  obtain missing where m: "packet = out @ missing" "e = None \<longrightarrow> missing = []"
    using writeFull_prefix [OF out] by blast
  have "4 \<le> length packet" by (simp add: p)
  then have ne: "packet \<noteq> []" by auto
  have res: "writeFrame w as f = (case e of
      None \<Rightarrow> \<lparr> started = True, complete = True, write_err = None, written = out \<rparr>
    | Some x \<Rightarrow> \<lparr> started = (out \<noteq> []), complete = (length out = length packet),
        write_err = Some x, written = out \<rparr>)"
    by (simp add: writeFrame_def assms(1) out)
  have complete: "complete (writeFrame w as f) \<longleftrightarrow> missing = []"
      "started (writeFrame w as f) \<longleftrightarrow> out \<noteq> []" "written (writeFrame w as f) = out"
    using m ne by (auto simp: res split: option.splits)
  moreover have "fst (ReadFrame r out) \<in> {Inl EOF, Inl ErrFrameTruncated}" if "missing \<noteq> []"
    using ReadFrame_truncated [OF b(2,3) _ assms(3), of "set_version (protocol w) enc" out missing]
      m(1) p b assms(2) that by simp
  ultimately show ?thesis using m(1) by auto
qed

text \<open>
  A session's byte stream determines its frames. Reading as many frames as were written from
  the concatenation of their packets returns those frames in order and leaves what follows, and
  two different frame sequences are never the same bytes.
\<close>

lemma frame_stream_unambiguous:
  assumes "list_all2 (\<lambda>f p. frame_packet (NewCodec\<lparr>MaxFrame := m\<rparr>) f = Inr p) fs ps"
    and "list_all2 (\<lambda>f p. frame_packet (NewCodec\<lparr>MaxFrame := m\<rparr>) f = Inr p) gs qs"
  shows "read_many (codec_read m) (length fs) (concat ps @ rest) = Some (fs, rest)
    \<and> (concat ps = concat qs \<longrightarrow> fs = gs)"
  using frames.read_many_sent [OF assms(1)] frames.sent_unambiguous [OF assms] by blast

end
