(* ===== verification/WireRuntime.thy ===== *)
theory WireRuntime
  imports WireFrame
begin

text \<open>
  \<^verbatim>\<open>internal/wire/runtime.go\<close>, \<^verbatim>\<open>internal/wire/stream.go\<close> and the error tables of
  \<^verbatim>\<open>internal/wire/session.go\<close>: the sentinels of the transport, the phases a runtime publishes,
  the stable response codes with the two translations between codes and sentinels, the terminal
  response, the ordered stream sequence.

  A Go error value is modelled by the list of sentinels that \<open>errors.Is\<close> finds in its tree:
  \<open>fmt.Errorf("%w: %w", a, b)\<close> and \<open>errors.Join(a, b)\<close> append, an error of no sentinel is the
  empty list, and a nil error is \<open>None\<close>. Message texts are kept only where the code sends them.
\<close>

subsection \<open>Errors\<close>

datatype sentinel =
    ErrQueueFull
  | ErrFlowControl
  | ErrHandshake
  | ErrServerStarted
  | ErrBuildMismatch
  | ErrDraining
  | ErrDuplicateID
  | ErrStreamOrder
  | ErrSessionCapacity
  | ErrHandoffReplay
  | ErrPermissionDenied
  | ErrNotReady
  | InvalidFrame
  | InvalidFrameSidecar
  | PeerGoAway
  | StreamClosed
  | DeadlineExceeded
  | Canceled
  | ErrCallDone
  | ErrCancelSettlement
  | ErrClientAbort
  | ErrClientClosing
  | NetClosed
  | IoEOF
  | FrameTooLarge
  | ProtocolMismatch

type_synonym goerr = "sentinel list"

definition errors_Is :: "goerr \<Rightarrow> sentinel \<Rightarrow> bool" where
  "errors_Is e s \<longleftrightarrow> s \<in> set e"

definition errors_Join :: "goerr option \<Rightarrow> goerr option \<Rightarrow> goerr option" where
  "errors_Join a b = (case a of None \<Rightarrow> b | Some x \<Rightarrow> (case b of None \<Rightarrow> a | Some y \<Rightarrow> Some (x @ y)))"

subsection \<open>Phases\<close>

datatype Phase =
    PhaseStarting
  | PhaseReady
  | PhaseDraining
  | PhaseFailed
  | PhaseOther string

record PhaseSnapshot =
  ps_Sequence :: u64
  ps_Phase :: Phase

subsection \<open>Response codes\<close>

datatype ResponseCode =
    ResponseCodeRuntimeStarting
  | ResponseCodeRuntimeDraining
  | ResponseCodeBuildMismatch
  | ResponseCodeSessionCapacity
  | ResponseCodeHandshake
  | ResponseCodePermissionDenied
  | ResponseCodeHandoffReplay
  | ResponseCodeDeadlineExceeded
  | ResponseCodeOther string

text \<open>The empty code \<open>""\<close>.\<close>

abbreviation no_code :: ResponseCode where
  "no_code \<equiv> ResponseCodeOther []"

fun responseCodeCause :: "ResponseCode \<Rightarrow> goerr option" where
  "responseCodeCause ResponseCodeRuntimeStarting = Some [ErrNotReady]"
| "responseCodeCause ResponseCodeRuntimeDraining = Some [ErrDraining]"
| "responseCodeCause ResponseCodeBuildMismatch = Some [ErrBuildMismatch]"
| "responseCodeCause ResponseCodeSessionCapacity = Some [ErrSessionCapacity]"
| "responseCodeCause ResponseCodeHandshake = Some [ErrHandshake]"
| "responseCodeCause ResponseCodePermissionDenied = Some [ErrPermissionDenied]"
| "responseCodeCause ResponseCodeHandoffReplay = Some [ErrHandoffReplay]"
| "responseCodeCause ResponseCodeDeadlineExceeded = Some [DeadlineExceeded]"
| "responseCodeCause (ResponseCodeOther s) = None"

definition rejectionCode :: "goerr option \<Rightarrow> ResponseCode option" where
  "rejectionCode err = (case err of None \<Rightarrow> None | Some e \<Rightarrow>
    (if errors_Is e ErrNotReady then Some ResponseCodeRuntimeStarting
     else if errors_Is e ErrDraining then Some ResponseCodeRuntimeDraining
     else if errors_Is e ErrPermissionDenied then Some ResponseCodePermissionDenied
     else if errors_Is e ErrBuildMismatch then Some ResponseCodeBuildMismatch
     else if errors_Is e ErrHandoffReplay then Some ResponseCodeHandoffReplay
     else if errors_Is e ErrSessionCapacity then Some ResponseCodeSessionCapacity
     else None))"

definition terminalCode :: "goerr \<Rightarrow> ResponseCode" where
  "terminalCode e = (if errors_Is e DeadlineExceeded then ResponseCodeDeadlineExceeded else no_code)"

subsection \<open>Responses\<close>

text \<open>
  \<open>Err\<close> is the handler error's text; its sentinels are kept beside it so that the text can be
  told from the empty one: an error is never printed as the empty string.
\<close>

record Response =
  Rejected :: bool
  Ack :: bool
  Code :: ResponseCode
  Reason :: "goerr option"
  Err :: "goerr option"
  RespPayload :: "bytes option"

subsection \<open>Stream sequences (stream.go)\<close>

record streamSequence =
  next_seq :: u32
  exhausted :: bool

definition zeroSequence :: streamSequence where
  "zeroSequence = \<lparr> next_seq = 0, exhausted = False \<rparr>"

definition seq_take :: "streamSequence \<Rightarrow> (goerr + u32) \<times> streamSequence" where
  "seq_take s =
    (if exhausted s then (Inl [ErrStreamOrder], s)
     else (Inr (next_seq s),
       if next_seq s = 0xFFFFFFFF then s\<lparr>exhausted := True\<rparr> else s\<lparr>next_seq := next_seq s + 1\<rparr>))"

text \<open>The bounded stream: what was offered and not yet taken, in order, and whether it is closed.\<close>

record 'a boundedStream =
  stream_values :: "'a list"
  stream_closed :: bool

definition newBoundedStream :: "'a boundedStream" where
  "newBoundedStream = \<lparr> stream_values = [], stream_closed = False \<rparr>"

text \<open>\<open>offer\<close>, once it does not block: a closed stream refuses, an open one appends.\<close>

definition stream_offer :: "'a \<Rightarrow> 'a boundedStream \<Rightarrow> goerr option \<times> 'a boundedStream" where
  "stream_offer v s =
    (if stream_closed s then (Some [StreamClosed], s)
     else (None, s\<lparr>stream_values := stream_values s @ [v]\<rparr>))"

definition stream_close :: "'a boundedStream \<Rightarrow> 'a boundedStream" where
  "stream_close s = s\<lparr>stream_closed := True\<rparr>"

subsection \<open>Lemmas\<close>

text \<open>How many values a sequence has handed out; \<open>2 ^ 32\<close> once it is exhausted.\<close>

definition taken :: "streamSequence \<Rightarrow> nat" where
  "taken s = (if exhausted s then 2 ^ 32 else unat (next_seq s))"

lemma taken_zero [simp]: "taken zeroSequence = 0"
  by (simp add: taken_def zeroSequence_def)

lemma seq_take_Inr:
  assumes "seq_take s = (Inr v, s')"
  shows "unat v = taken s" "taken s' = Suc (taken s)"
proof -
  show "unat v = taken s" using assms by (auto simp: seq_take_def taken_def split: if_splits)
  show "taken s' = Suc (taken s)"
  proof (cases "next_seq s = 0xFFFFFFFF")
    case True
    with assms show ?thesis by (auto simp: seq_take_def taken_def split: if_splits)
  next
    case False
    then have "unat (next_seq s + 1) = Suc (unat (next_seq s))"
      by unat_arith auto
    with False assms show ?thesis by (auto simp: seq_take_def taken_def split: if_splits)
  qed
qed

lemma seq_take_Inl: "seq_take s = (Inl e, s') \<Longrightarrow> e = [ErrStreamOrder] \<and> s' = s \<and> taken s = 2 ^ 32"
  by (auto simp: seq_take_def taken_def split: if_splits)

lemma rejectionCode_cause:
  "rejectionCode (Some e) = Some code \<Longrightarrow> \<exists>s. responseCodeCause code = Some [s] \<and> errors_Is e s"
  by (auto simp: rejectionCode_def split: if_splits)

end
