(* ===== verification/WireSession.thy ===== *)
theory WireSession
  imports WireRuntime
begin

text \<open>
  One accepted session of the server, \<^verbatim>\<open>internal/wire/session.go\<close> and
  \<^verbatim>\<open>internal/wire/handoff.go\<close>: request admission with its duplicate-id window, cancellation,
  request streams, terminal responses and their acknowledgement, the broker-handoff nonce guard,
  the routing of one request to a verb, a refusal or the product.

  Each handler is the code's critical section as one function on the session state. A handler
  that sends waits for the write loop; the write loop's answer is an argument. What a handler
  does outside the state (a response to write, a descriptor to close, the goroutine that executes
  an admitted request) is the list of its effects. The goroutine that executes a request has two
  more transitions: the terminal response is about to be written (\<open>beforeWrite\<close>), and the
  deferred cleanup. \<open>sess_step\<close> interleaves all of them.
\<close>

subsection \<open>State\<close>

record Chunk =
  ch_Sequence :: u32
  ch_Payload :: bytes
  ch_End :: bool

record requestState =
  inbound :: "Chunk boundedStream"
  inputSequence :: streamSequence
  inputEnded :: bool
  transportErr :: "goerr option"
  terminalSent :: bool
  terminalAcked :: bool
  sidecar :: "nat option"
  canceled :: bool

record session =
  current :: bool
  sess_legacy :: bool
  generation :: bytes
  active :: "(u64 \<times> requestState) list"
  seen :: "u64 list"
  watermark :: u64
  admitted :: nat
  handoffAttempts :: nat
  handoffNonces :: "bytes list"

definition new_session :: "bool \<Rightarrow> bool \<Rightarrow> bytes \<Rightarrow> session" where
  "new_session cur leg gen = \<lparr> current = cur, sess_legacy = leg, generation = gen, active = [],
     seen = [], watermark = 0, admitted = 0, handoffAttempts = 0, handoffNonces = [] \<rparr>"

datatype effect =
    SendResponse u64 Response
  | CloseDescriptor nat
  | StartExecute u64

subsection \<open>Request state\<close>

definition new_request :: "nat option \<Rightarrow> bool \<Rightarrow> requestState" where
  "new_request sc ended =
    (let st = \<lparr> inbound = newBoundedStream, inputSequence = zeroSequence, inputEnded = False,
       transportErr = None, terminalSent = False, terminalAcked = False, sidecar = sc,
       canceled = False \<rparr>
     in if ended then st\<lparr>inputEnded := True, inbound := stream_close (inbound st)\<rparr> else st)"

text \<open>\<open>requestState.close\<close>: cancels, ends the input and releases the descriptor it still holds.\<close>

definition request_close :: "requestState \<Rightarrow> requestState \<times> effect list" where
  "request_close st =
    (st\<lparr>canceled := True, inputEnded := True, sidecar := None, inbound := stream_close (inbound st)\<rparr>,
     case sidecar st of None \<Rightarrow> [] | Some fd \<Rightarrow> [CloseDescriptor fd])"

definition takeSidecar :: "requestState \<Rightarrow> nat option \<times> requestState" where
  "takeSidecar st = (sidecar st, st\<lparr>sidecar := None\<rparr>)"

subsection \<open>Admission\<close>

definition brokerHandoffOp :: string where "brokerHandoffOp = ''daemon.broker-handoff.v1''"
definition drainControlOp :: string where "drainControlOp = ''daemon.control.drain''"
definition healthOp :: string where "healthOp = ''daemon.health''"
definition reservedOpPrefix :: string where "reservedOpPrefix = ''daemon.''"

text \<open>
  The loop that raises the watermark over the ids already seen. It ends because every turn
  deletes an id from \<open>seen\<close>. The increment wraps at the width of \<open>uint64\<close>, as Go's does.
\<close>

function advance :: "u64 list \<Rightarrow> u64 \<Rightarrow> u64 list \<times> u64" where
  "advance sn w =
    (let nxt = w + 1 in
     if nxt \<in> set sn then advance (removeAll nxt sn) nxt else (sn, w))"
  by pat_completeness auto
termination
  by (relation "measure (\<lambda>(sn, w). length sn)") (auto intro: length_removeAll_less)

declare advance.simps [simp del]

definition sendRejected :: "u64 \<Rightarrow> goerr \<Rightarrow> effect" where
  "sendRejected i reason = SendResponse i \<lparr> Rejected = True, Ack = False, Code = no_code,
     Reason = Some reason, Err = None, RespPayload = None \<rparr>"

definition inboundQueue :: "nat \<Rightarrow> nat" where
  "inboundQueue concurrency = 2 * concurrency"

definition close_sidecar :: "nat option \<Rightarrow> effect list" where
  "close_sidecar sc = (case sc of None \<Rightarrow> [] | Some fd \<Rightarrow> [CloseDescriptor fd])"

text \<open>
  \<open>receiveRequest\<close>: \<open>wr\<close> is the write loop's answer to a rejection it sends. The deferred close
  of the descriptor runs on every return that did not move it into the request.
\<close>

definition receiveRequest ::
  "nat \<Rightarrow> goerr option \<Rightarrow> Frame \<Rightarrow> nat option \<Rightarrow> session \<Rightarrow> goerr option \<times> session \<times> effect list" where
  "receiveRequest concurrency wr f sc s =
    (if ID f = 0 \<or> Op f = [] \<or> Sequence f \<noteq> 0 then
       (Some [InvalidFrame], s, close_sidecar sc)
     else if Op f = brokerHandoffOp \<and> (Flags f \<noteq> FlagEnd \<or> sc = None) then
       (Some [InvalidFrameSidecar], s, close_sidecar sc)
     else if Op f \<noteq> brokerHandoffOp \<and> sc \<noteq> None then
       (Some [InvalidFrameSidecar], s, close_sidecar sc)
     else if ID f \<le> watermark s then
       (Some [ErrDuplicateID], s, close_sidecar sc)
     else if ID f \<in> set (seen s) then
       (Some [ErrDuplicateID], s, close_sidecar sc)
     else let queueLimit = inboundQueue concurrency in
     if unat (ID f - watermark s) > queueLimit then
       (wr, s, sendRejected (ID f) [ErrQueueFull] # close_sidecar sc)
     else let (sn, w) = advance (ID f # seen s) (watermark s);
              s' = s\<lparr>seen := sn, watermark := w\<rparr> in
     if length (active s') \<ge> queueLimit then
       (wr, s', sendRejected (ID f) [ErrQueueFull] # close_sidecar sc)
     else
       (None, s'\<lparr>active := aput (ID f) (new_request sc (Flags f AND FlagEnd \<noteq> 0)) (active s'),
                 admitted := Suc (admitted s')\<rparr>,
        [StartExecute (ID f)]))"

subsection \<open>The other inbound frames\<close>

definition put_request :: "u64 \<Rightarrow> requestState \<Rightarrow> session \<Rightarrow> session" where
  "put_request i st s = s\<lparr>active := aput i st (active s)\<rparr>"

definition receiveCancel :: "Frame \<Rightarrow> session \<Rightarrow> goerr option \<times> session \<times> effect list" where
  "receiveCancel f s =
    (case map_of (active s) (ID f) of
       None \<Rightarrow> (None, s, [])
     | Some st \<Rightarrow> (case request_close st of (st', es) \<Rightarrow> (None, put_request (ID f) st' s, es)))"

text \<open>A stream violation is recorded on its request, which is closed; the session goes on.\<close>

definition fail_stream :: "u64 \<Rightarrow> goerr \<Rightarrow> requestState \<Rightarrow> session \<Rightarrow> goerr option \<times> session \<times> effect list" where
  "fail_stream i e st s =
    (case request_close (st\<lparr>transportErr := Some e\<rparr>) of (st', es) \<Rightarrow> (None, put_request i st' s, es))"

definition receiveStream :: "Frame \<Rightarrow> session \<Rightarrow> goerr option \<times> session \<times> effect list" where
  "receiveStream f s =
    (case map_of (active s) (ID f) of
       None \<Rightarrow> (None, s, [])
     | Some st \<Rightarrow>
         if inputEnded st then fail_stream (ID f) [ErrStreamOrder] st s
         else (case seq_take (inputSequence st) of
           (Inl e, q) \<Rightarrow> fail_stream (ID f) e (st\<lparr>inputSequence := q\<rparr>) s
         | (Inr expected, q) \<Rightarrow>
             let st1 = st\<lparr>inputSequence := q\<rparr> in
             if Sequence f \<noteq> expected then fail_stream (ID f) [ErrStreamOrder] st1 s
             else let isEnd = (Flags f AND FlagEnd \<noteq> 0);
                      st2 = (if isEnd then st1\<lparr>inputEnded := True\<rparr> else st1);
                      chunk = \<lparr> ch_Sequence = Sequence f, ch_Payload = Payload f, ch_End = isEnd \<rparr>
               in (case stream_offer chunk (inbound st2) of
                    (Some e, b) \<Rightarrow>
                      ((if errors_Is e StreamClosed then None else Some e), put_request (ID f) st2 s, [])
                  | (None, b) \<Rightarrow>
                      let b' = (if isEnd then stream_close b else b)
                      in (None, put_request (ID f) (st2\<lparr>inbound := b'\<rparr>) s, []))))"

definition receiveAck :: "Frame \<Rightarrow> session \<Rightarrow> goerr option \<times> session \<times> effect list" where
  "receiveAck f s =
    (if Payload f \<noteq> generation s then (Some [InvalidFrame], s, [])
     else case map_of (active s) (ID f) of
       None \<Rightarrow> (Some [InvalidFrame], s, [])
     | Some st \<Rightarrow>
         if \<not> terminalSent st \<or> terminalAcked st then (Some [InvalidFrame], s, [])
         else (None, put_request (ID f) (st\<lparr>terminalAcked := True\<rparr>) s, []))"

text \<open>One turn of \<open>readLoop\<close>.\<close>

definition readLoop_frame ::
  "nat \<Rightarrow> goerr option \<Rightarrow> Frame \<Rightarrow> nat option \<Rightarrow> session \<Rightarrow> goerr option \<times> session \<times> effect list" where
  "readLoop_frame concurrency wr f sc s =
    (if Kind f = FrameRequest then receiveRequest concurrency wr f sc s
     else if Kind f \<in> {FrameCancel, FrameStream, FrameAck, FrameGoAway} then
       if sc \<noteq> None then (Some [InvalidFrameSidecar], s, close_sidecar sc)
       else if Kind f = FrameCancel then receiveCancel f s
       else if Kind f = FrameStream then receiveStream f s
       else if Kind f = FrameAck then receiveAck f s
       else (Some [PeerGoAway], s, [])
     else (Some [InvalidFrame], s, close_sidecar sc))"

subsection \<open>Executing an admitted request\<close>

text \<open>
  Who answers a request. \<open>RouteProduct\<close> is the default branch past the phase gate, where the
  handler runs under the concurrency semaphore.
\<close>

datatype route =
    RouteHealth
  | RouteHandoff
  | RouteDrain
  | RouteProduct
  | RouteRefuse goerr

definition dispatch_route :: "session \<Rightarrow> goerr option \<Rightarrow> string \<Rightarrow> route" where
  "dispatch_route s gatePhase oper =
    (if sess_legacy s \<and> oper \<noteq> healthOp then RouteRefuse [ErrPermissionDenied]
     else if oper = healthOp then RouteHealth
     else if oper = brokerHandoffOp then RouteHandoff
     else if oper = drainControlOp then RouteDrain
     else if take (length reservedOpPrefix) oper = reservedOpPrefix then RouteRefuse [ErrPermissionDenied]
     else if \<not> current s then RouteRefuse [ErrBuildMismatch]
     else case gatePhase of Some e \<Rightarrow> RouteRefuse e | None \<Rightarrow> RouteProduct)"

text \<open>
  The terminal response of one request: the handler's own error gives way to the request
  context's, and both to a transport error recorded on the request; what remains is a typed
  rejection, a failure or the marshalled value (\<open>None\<close> when it does not marshal).
\<close>

definition terminal_response ::
  "goerr option \<Rightarrow> goerr option \<Rightarrow> goerr option \<Rightarrow> bytes option \<Rightarrow> Response" where
  "terminal_response handlerErr ctxErr transport payload =
    (let err1 = (case ctxErr of Some e \<Rightarrow> Some e | None \<Rightarrow> handlerErr);
         err2 = (case transport of Some e \<Rightarrow> Some e | None \<Rightarrow> err1)
     in case rejectionCode err2 of
          Some code \<Rightarrow> \<lparr> Rejected = True, Ack = True, Code = code, Reason = err2, Err = None,
            RespPayload = None \<rparr>
        | None \<Rightarrow>
            (case err2 of
               Some e \<Rightarrow> \<lparr> Rejected = False, Ack = True, Code = terminalCode e, Reason = None,
                 Err = Some e, RespPayload = None \<rparr>
             | None \<Rightarrow>
                 (case payload of
                    Some p \<Rightarrow> \<lparr> Rejected = False, Ack = True, Code = no_code, Reason = None,
                      Err = None, RespPayload = Some p \<rparr>
                  | None \<Rightarrow> \<lparr> Rejected = False, Ack = True, Code = no_code, Reason = None,
                      Err = Some [], RespPayload = None \<rparr>)))"

text \<open>\<open>sendAdmittedResponse\<close>'s \<open>beforeWrite\<close>: the terminal is marked sent before it is written.\<close>

definition mark_terminalSent :: "u64 \<Rightarrow> session \<Rightarrow> session" where
  "mark_terminalSent i s =
    (case map_of (active s) i of
       None \<Rightarrow> s
     | Some st \<Rightarrow> put_request i (st\<lparr>terminalSent := True\<rparr>) s)"

text \<open>The deferred cleanup of \<open>execute\<close>.\<close>

definition finish_request :: "u64 \<Rightarrow> session \<Rightarrow> session \<times> effect list" where
  "finish_request i s =
    (case map_of (active s) i of
       None \<Rightarrow> (s, [])
     | Some st \<Rightarrow>
         (s\<lparr>active := adel i (active s), admitted := admitted s - 1\<rparr>, snd (request_close st)))"

subsection \<open>The broker handoff (handoff.go)\<close>

definition brokerHandoffNonceBytes :: nat where "brokerHandoffNonceBytes = 32"
definition brokerHandoffMaximumAttempts :: nat where "brokerHandoffMaximumAttempts = 256"

definition reserveHandoffNonce :: "bytes \<Rightarrow> session \<Rightarrow> goerr option \<times> session" where
  "reserveHandoffNonce nonce s =
    (let key = take brokerHandoffNonceBytes
       (nonce @ replicate (brokerHandoffNonceBytes - length nonce) 0) in
     if key \<in> set (handoffNonces s) then (Some [ErrHandoffReplay], s)
     else if handoffAttempts s \<ge> brokerHandoffMaximumAttempts then (Some [ErrSessionCapacity], s)
     else (None, s\<lparr>handoffNonces := key # handoffNonces s, handoffAttempts := Suc (handoffAttempts s)\<rparr>))"

subsection \<open>The session as a transition system\<close>

definition request_cancel :: "u64 \<Rightarrow> session \<Rightarrow> session" where
  "request_cancel i s = s\<lparr>active := map (\<lambda>(k, st). (k, if k = i then st\<lparr>canceled := True\<rparr> else st)) (active s)\<rparr>"

definition session_stop :: "session \<Rightarrow> session" where
  "session_stop s = s\<lparr>active := map (\<lambda>(k, st). (k, fst (request_close st))) (active s)\<rparr>"

datatype label = Received Frame | Internal

inductive sess_step :: "nat \<Rightarrow> session \<Rightarrow> label \<Rightarrow> session \<Rightarrow> bool" for concurrency where
  step_frame: "readLoop_frame concurrency wr f sc s = (e, s', es) \<Longrightarrow> sess_step concurrency s (Received f) s'"
| step_terminal: "sess_step concurrency s Internal (mark_terminalSent i s)"
| step_finish: "finish_request i s = (s', es) \<Longrightarrow> sess_step concurrency s Internal s'"
| step_handoff: "reserveHandoffNonce nonce s = (e, s') \<Longrightarrow> sess_step concurrency s Internal s'"
| step_take: "map_of (active s) i = Some st \<Longrightarrow>
    sess_step concurrency s Internal (put_request i (snd (takeSidecar st)) s)"
| step_cancel: "sess_step concurrency s Internal (request_cancel i s)"
| step_stop: "sess_step concurrency s Internal (session_stop s)"

inductive sess_run :: "nat \<Rightarrow> session \<Rightarrow> label list \<Rightarrow> session \<Rightarrow> bool" for concurrency where
  run_nil: "sess_run concurrency s [] s"
| run_cons: "sess_step concurrency s l s' \<Longrightarrow> sess_run concurrency s' ls s'' \<Longrightarrow>
    sess_run concurrency s (l # ls) s''"

text \<open>The ids a session will never admit again.\<close>

definition consumed :: "session \<Rightarrow> u64 \<Rightarrow> bool" where
  "consumed s i \<longleftrightarrow> i \<le> watermark s \<or> i \<in> set (seen s)"

definition acks_ordered :: "requestState \<Rightarrow> bool" where
  "acks_ordered st \<longleftrightarrow> (terminalAcked st \<longrightarrow> terminalSent st)"

definition window_inv :: "nat \<Rightarrow> u64 list \<Rightarrow> u64 \<Rightarrow> bool" where
  "window_inv lim sn w \<longleftrightarrow> distinct sn \<and> w + 1 \<notin> set sn
    \<and> (\<forall>x\<in>set sn. w < x \<and> unat x \<le> unat w + lim)"

definition sess_inv :: "nat \<Rightarrow> session \<Rightarrow> bool" where
  "sess_inv c s \<longleftrightarrow> distinct (akeys (active s))
    \<and> length (active s) \<le> inboundQueue c \<and> admitted s = length (active s)
    \<and> window_inv (inboundQueue c) (seen s) (watermark s)
    \<and> (\<forall>i\<in>set (akeys (active s)). consumed s i)
    \<and> (\<forall>st\<in>snd ` set (active s). acks_ordered st)
    \<and> distinct (handoffNonces s) \<and> length (handoffNonces s) = handoffAttempts s
    \<and> handoffAttempts s \<le> brokerHandoffMaximumAttempts"

lemma advance_window:
  assumes "advance sn w = (sn', w')" "\<forall>x\<in>set sn. w < x" "distinct sn"
  shows "w \<le> w' \<and> w' + 1 \<notin> set sn' \<and> distinct sn' \<and> (\<forall>x\<in>set sn'. w' < x) \<and> set sn' \<subseteq> set sn
    \<and> (\<forall>x. (x \<le> w' \<or> x \<in> set sn') = (x \<le> w \<or> x \<in> set sn))"
  using assms
proof (induction sn w rule: advance.induct)
  case (1 sn w)
  show ?case
  proof (cases "w + 1 \<in> set sn")
    case False
    then show ?thesis using "1.prems" by (simp add: advance.simps [of sn w] Let_def)
  next
    case True
    have lt: "w < w + 1" using True "1.prems"(2) by blast
    have grow: "w + 1 < x" if "x \<in> set (removeAll (w + 1) sn)" for x
    proof -
      have "w < x" "x \<noteq> w + 1" using that "1.prems"(2) by auto
      with lt show ?thesis by unat_arith
    qed
    have le: "x \<le> w + 1 \<longleftrightarrow> x \<le> w \<or> x = w + 1" for x
      using lt by unat_arith
    have step: "advance (removeAll (w + 1) sn) (w + 1) = (sn', w')"
      using "1.prems"(1) True by (simp add: advance.simps [of sn w] Let_def)
    have IH: "w + 1 \<le> w' \<and> w' + 1 \<notin> set sn' \<and> distinct sn' \<and> (\<forall>x\<in>set sn'. w' < x)
        \<and> set sn' \<subseteq> set (removeAll (w + 1) sn)
        \<and> (\<forall>x. (x \<le> w' \<or> x \<in> set sn') = (x \<le> w + 1 \<or> x \<in> set (removeAll (w + 1) sn)))"
      using "1.IH" [OF refl True step] grow "1.prems"(3) by (simp add: distinct_removeAll)
    have "w \<le> w'" using IH lt by unat_arith
    moreover have "\<forall>x. (x \<le> w' \<or> x \<in> set sn') = (x \<le> w \<or> x \<in> set sn)"
      using IH le True by auto
    ultimately show ?thesis using IH by auto
  qed
qed

lemma window_advance:
  assumes inv: "window_inv lim sn w" and adv: "advance (i # sn) w = (sn', w')"
    and fresh: "w < i" "i \<notin> set sn" and near: "unat (i - w) \<le> lim"
  shows "window_inv lim sn' w'" "\<And>x. (x \<le> w' \<or> x \<in> set sn') = (x \<le> w \<or> x = i \<or> x \<in> set sn)" "w \<le> w'"
proof -
  have "unat i \<le> unat w + lim" using near fresh(1) by unat_arith
  then have bound: "\<forall>x\<in>set (i # sn). unat x \<le> unat w + lim"
    using inv by (auto simp: window_inv_def)
  have pre: "\<forall>x\<in>set (i # sn). w < x" "distinct (i # sn)"
    using inv fresh by (auto simp: window_inv_def)
  note A = advance_window [OF adv pre]
  from A show "w \<le> w'" by simp
  then have "unat w \<le> unat w'" by (simp add: word_le_nat_alt)
  with A bound show "window_inv lim sn' w'" by (fastforce simp: window_inv_def)
  from A show "\<And>x. (x \<le> w' \<or> x \<in> set sn') = (x \<le> w \<or> x = i \<or> x \<in> set sn)" by auto
qed

lemma window_bounded: "window_inv lim sn w \<Longrightarrow> length sn \<le> lim"
proof -
  assume inv: "window_inv lim sn w"
  have "unat ` set sn \<subseteq> {unat w <.. unat w + lim}"
    using inv by (auto simp: window_inv_def word_less_nat_alt)
  then have "card (unat ` set sn) \<le> lim"
    using card_mono [of "{unat w <.. unat w + lim}"] by fastforce
  moreover have "card (unat ` set sn) = length sn"
    using inv inj_on_subset [of unat UNIV "set sn"]
    by (simp add: card_image distinct_card window_inv_def inj_on_def word_unat_eq_iff)
  ultimately show ?thesis by simp
qed


subsection \<open>Every transition keeps the invariant\<close>

lemma new_session_inv: "sess_inv c (new_session cur leg gen)"
  by (simp add: sess_inv_def new_session_def window_inv_def akeys_def)

lemma sess_inv_put:
  assumes "sess_inv c s" "map_of (active s) i = Some st" "acks_ordered st'"
  shows "sess_inv c (put_request i st' s)"
proof -
  have d: "distinct (akeys (active s))" using assms(1) by (simp add: sess_inv_def)
  have i: "i \<in> set (akeys (active s))" using assms(2) map_of_akeys [of "active s" i] by simp
  have "length (aput i st' (active s)) = length (active s)"
    using length_adel_present [OF d assms(2)] by (simp add: aput_def)
  moreover have "\<forall>st\<in>snd ` set (aput i st' (active s)). acks_ordered st"
    using assms(1,3) by (auto simp: sess_inv_def aput_def adel_def)
  ultimately show ?thesis
    using assms(1) d i
    by (simp add: sess_inv_def put_request_def distinct_akeys_aput akeys_aput insert_absorb consumed_def)
qed

lemma acks_active: "sess_inv c s \<Longrightarrow> map_of (active s) i = Some st \<Longrightarrow> acks_ordered st"
  by (force simp: sess_inv_def dest: map_of_SomeD)

lemma request_close_acks [simp]: "acks_ordered (fst (request_close st)) = acks_ordered st"
  by (simp add: request_close_def acks_ordered_def)

lemma receiveRequest_inv:
  assumes inv: "sess_inv c s" and r: "receiveRequest c wr f sc s = (e, s', es)"
  shows "sess_inv c s' \<and> (\<forall>x. consumed s x \<longrightarrow> consumed s' x)"
proof (cases "s' = s")
  case True
  then show ?thesis using inv by simp
next
  case False
  let ?q = "inboundQueue c"
  obtain sn w where adv: "advance (ID f # seen s) (watermark s) = (sn, w)" by fastforce
  from False r have fresh: "watermark s < ID f" "ID f \<notin> set (seen s)"
    and near: "unat (ID f - watermark s) \<le> ?q"
    by (auto simp: receiveRequest_def Let_def not_le split: if_splits)
  from False r adv fresh near have s': "s' = s\<lparr>seen := sn, watermark := w\<rparr> \<or>
      length (active s) < ?q \<and>
      s' = s\<lparr>seen := sn, watermark := w,
        active := aput (ID f) (new_request sc (Flags f AND FlagEnd \<noteq> 0)) (active s),
        admitted := Suc (admitted s)\<rparr>"
    by (auto simp: receiveRequest_def Let_def not_le split: if_splits)
  have win: "window_inv ?q (seen s) (watermark s)" using inv by (simp add: sess_inv_def)
  note W = window_advance [OF win adv fresh near]
  have mono: "x \<le> w \<or> x \<in> set sn" if "x \<le> watermark s \<or> x = ID f \<or> x \<in> set (seen s)" for x
    using W(2) [of x] that by blast
  have notactive: "map_of (active s) (ID f) = None"
    using inv fresh map_of_akeys [of "active s" "ID f"]
    by (auto simp: sess_inv_def consumed_def)
  have new: "acks_ordered (new_request sc b)" for b
    by (simp add: new_request_def acks_ordered_def Let_def)
  from s' show ?thesis
  proof (elim disjE conjE)
    assume "s' = s\<lparr>seen := sn, watermark := w\<rparr>"
    then show ?thesis using inv W(1) mono by (auto simp: sess_inv_def consumed_def)
  next
    assume room: "length (active s) < ?q" and s': "s' = s\<lparr>seen := sn, watermark := w,
        active := aput (ID f) (new_request sc (Flags f AND FlagEnd \<noteq> 0)) (active s),
        admitted := Suc (admitted s)\<rparr>"
    have "\<forall>st\<in>snd ` set (active s'). acks_ordered st"
      using inv new by (auto simp: s' sess_inv_def aput_def adel_def)
    moreover have "\<forall>i\<in>set (akeys (active s')). consumed s' i"
      using inv mono by (auto simp: s' sess_inv_def consumed_def akeys_aput)
    ultimately show ?thesis
      using inv W(1) mono room notactive
      by (simp add: sess_inv_def s' distinct_akeys_aput length_aput_absent consumed_def)
  qed
qed

lemma put_request_consumed [simp]: "consumed (put_request i st s) = consumed s"
  by (simp add: consumed_def put_request_def fun_eq_iff)

lemma acks_upd [simp]:
  "acks_ordered (st\<lparr>inputSequence := q\<rparr>) = acks_ordered st"
  "acks_ordered (st\<lparr>inputEnded := b\<rparr>) = acks_ordered st"
  "acks_ordered (st\<lparr>transportErr := t\<rparr>) = acks_ordered st"
  "acks_ordered (st\<lparr>inbound := ib\<rparr>) = acks_ordered st"
  "acks_ordered (st\<lparr>sidecar := fd\<rparr>) = acks_ordered st"
  "acks_ordered (st\<lparr>canceled := b\<rparr>) = acks_ordered st"
  "acks_ordered (st\<lparr>terminalSent := True\<rparr>)"
  by (simp_all add: acks_ordered_def)

text \<open>A handler that only touches one request of the session.\<close>

definition touches :: "u64 \<Rightarrow> session \<Rightarrow> session \<Rightarrow> bool" where
  "touches i s s' \<longleftrightarrow> s' = s \<or>
    (\<exists>st st'. map_of (active s) i = Some st \<and> (acks_ordered st \<longrightarrow> acks_ordered st') \<and> s' = put_request i st' s)"

lemma touches_put [intro]:
  "map_of (active s) i = Some st \<Longrightarrow> (acks_ordered st \<Longrightarrow> acks_ordered st') \<Longrightarrow> touches i s (put_request i st' s)"
  by (auto simp: touches_def)

lemma touches_refl [simp]: "touches i s s"
  by (simp add: touches_def)

lemma touches_inv:
  "touches i s s' \<Longrightarrow> sess_inv c s \<Longrightarrow> sess_inv c s' \<and> consumed s' = consumed s"
  using sess_inv_put acks_active by (fastforce simp: touches_def)

lemma fail_stream_touches:
  assumes "map_of (active s) i = Some st0" "acks_ordered st0 \<Longrightarrow> acks_ordered st"
  shows "touches i s (fst (snd (fail_stream i x st s)))"
  using assms touches_put [of s i st0 "fst (request_close (st\<lparr>transportErr := Some x\<rparr>))"]
  by (simp add: fail_stream_def case_prod_beta)

lemma receiveCancel_touches: "touches (ID f) s (fst (snd (receiveCancel f s)))"
  by (auto simp: receiveCancel_def request_close_def split: option.split)

lemma receiveStream_touches: "touches (ID f) s (fst (snd (receiveStream f s)))"
  by (auto simp: receiveStream_def Let_def split: option.split sum.split prod.split
      intro!: fail_stream_touches)

lemma receiveAck_touches: "touches (ID f) s (fst (snd (receiveAck f s)))"
  by (auto simp: receiveAck_def acks_ordered_def split: option.split)

lemma readLoop_frame_inv:
  assumes "sess_inv c s" "readLoop_frame c wr f sc s = (e, s', es)"
  shows "sess_inv c s' \<and> (\<forall>x. consumed s x \<longrightarrow> consumed s' x)"
proof -
  have "s' = fst (snd (readLoop_frame c wr f sc s))" using assms(2) by simp
  then have "s' = fst (snd (receiveRequest c wr f sc s)) \<or> s' = s \<or> s' = fst (snd (receiveCancel f s))
      \<or> s' = fst (snd (receiveStream f s)) \<or> s' = fst (snd (receiveAck f s))"
    by (simp add: readLoop_frame_def)
  then have "s' = fst (snd (receiveRequest c wr f sc s)) \<or> touches (ID f) s s'"
    using receiveCancel_touches [of f s] receiveStream_touches [of f s] receiveAck_touches [of f s]
    by (elim disjE) simp_all
  then show ?thesis
    using receiveRequest_inv [OF assms(1)] touches_inv [OF _ assms(1)] by (metis prod.collapse)
qed

lemma mark_terminalSent_inv:
  "sess_inv c s \<Longrightarrow> sess_inv c (mark_terminalSent i s) \<and> consumed (mark_terminalSent i s) = consumed s"
  by (rule touches_inv) (auto simp: mark_terminalSent_def split: option.split)

lemma finish_request_inv:
  assumes inv: "sess_inv c s" and r: "finish_request i s = (s', es)"
  shows "sess_inv c s' \<and> consumed s' = consumed s"
proof (cases "map_of (active s) i")
  case None
  then show ?thesis using assms by (simp add: finish_request_def)
next
  case (Some st)
  then have s': "s' = s\<lparr>active := adel i (active s), admitted := admitted s - 1\<rparr>"
    using r by (simp add: finish_request_def)
  have "Suc (length (adel i (active s))) = length (active s)"
    using inv Some by (simp add: sess_inv_def length_adel_present)
  moreover have "\<forall>st\<in>snd ` set (adel i (active s)). acks_ordered st"
    using inv by (auto simp: sess_inv_def adel_def)
  ultimately show ?thesis
    using inv by (auto simp: s' sess_inv_def consumed_def distinct_akeys_adel akeys_adel fun_eq_iff)
qed

lemma reserveHandoffNonce_inv:
  "sess_inv c s \<Longrightarrow> reserveHandoffNonce n s = (e, s') \<Longrightarrow> sess_inv c s' \<and> consumed s' = consumed s"
  by (auto simp: reserveHandoffNonce_def Let_def sess_inv_def consumed_def fun_eq_iff split: if_splits)

lemma map_active_inv:
  assumes "sess_inv c s" "\<And>k st. acks_ordered st \<Longrightarrow> acks_ordered (g k st)"
  shows "sess_inv c (s\<lparr>active := map (\<lambda>(k, st). (k, g k st)) (active s)\<rparr>)"
    and "consumed (s\<lparr>active := map (\<lambda>(k, st). (k, g k st)) (active s)\<rparr>) = consumed s"
proof -
  have "akeys (map (\<lambda>(k, st). (k, g k st)) m) = akeys m" for m :: "(u64 \<times> requestState) list"
    by (induction m) (auto simp: akeys_def)
  then show "sess_inv c (s\<lparr>active := map (\<lambda>(k, st). (k, g k st)) (active s)\<rparr>)"
    using assms by (auto simp: sess_inv_def consumed_def)
  show "consumed (s\<lparr>active := map (\<lambda>(k, st). (k, g k st)) (active s)\<rparr>) = consumed s"
    by (simp add: consumed_def fun_eq_iff)
qed

lemma sess_step_inv:
  assumes "sess_step c s l s'" "sess_inv c s"
  shows "sess_inv c s' \<and> (\<forall>x. consumed s x \<longrightarrow> consumed s' x)"
  using assms
proof (induction rule: sess_step.induct)
  case (step_take s i st)
  then show ?case
    using sess_inv_put [of c s i st "snd (takeSidecar st)"] acks_active [of c s i st]
    by (simp add: takeSidecar_def acks_ordered_def)
next
  case (step_cancel s i)
  then show ?case
    using map_active_inv [of c s "\<lambda>k st. if k = i then st\<lparr>canceled := True\<rparr> else st"]
    by (simp add: request_cancel_def acks_ordered_def)
next
  case (step_stop s)
  then show ?case
    using map_active_inv [of c s "\<lambda>k st. fst (request_close st)"] by (simp add: session_stop_def)
qed (use readLoop_frame_inv mark_terminalSent_inv finish_request_inv reserveHandoffNonce_inv in
    \<open>(blast | metis)+\<close>)

lemma sess_run_inv:
  "sess_run c s ls s' \<Longrightarrow> sess_inv c s \<Longrightarrow> sess_inv c s' \<and> (\<forall>x. consumed s x \<longrightarrow> consumed s' x)"
  by (induction rule: sess_run.induct) (use sess_step_inv in blast)+

lemma receiveRequest_admits:
  assumes "receiveRequest c wr f sc s = (e, s', es)" "StartExecute i \<in> set es"
  shows "i = ID f" "\<not> consumed s (ID f)" "map_of (active s') i = Some (new_request sc (Flags f AND FlagEnd \<noteq> 0))"
  using assms
  by (auto simp: receiveRequest_def Let_def close_sidecar_def sendRejected_def consumed_def map_of_aput not_le
      split: if_splits option.splits prod.splits)

lemma consumed_refused:
  assumes "consumed s (ID f)" "receiveRequest c wr f sc s = (e, s', es)"
  shows "s' = s \<and> e \<noteq> None \<and> (\<forall>i. StartExecute i \<notin> set es)"
  using assms
  by (auto simp: receiveRequest_def consumed_def close_sidecar_def split: if_splits option.splits)

text \<open>What a step leaves alone.\<close>

lemma touches_window: "touches i s s' \<Longrightarrow> watermark s' = watermark s \<and> handoffNonces s' = handoffNonces s"
  by (auto simp: touches_def put_request_def)

lemma advance_gap: "w + 1 \<notin> set sn \<Longrightarrow> advance sn w = (sn, w)"
  by (simp add: advance.simps [of sn w])

lemma receiveRequest_gap:
  assumes "ID f \<noteq> watermark s + 1" "watermark s + 1 \<notin> set (seen s)"
  shows "watermark (fst (snd (receiveRequest c wr f sc s))) = watermark s"
  using assms advance_gap [of "watermark s" "ID f # seen s"] by (simp add: receiveRequest_def Let_def)

lemma receiveRequest_nonces: "handoffNonces (fst (snd (receiveRequest c wr f sc s))) = handoffNonces s"
  by (simp add: receiveRequest_def Let_def case_prod_beta)

lemma readLoop_frame_cases:
  "fst (snd (readLoop_frame c wr f sc s)) = fst (snd (receiveRequest c wr f sc s))
   \<or> touches (ID f) s (fst (snd (readLoop_frame c wr f sc s)))"
  using receiveCancel_touches [of f s] receiveStream_touches [of f s] receiveAck_touches [of f s]
  by (simp add: readLoop_frame_def)

lemma mark_terminalSent_touches: "touches i s (mark_terminalSent i s)"
  by (auto simp: mark_terminalSent_def split: option.split)

lemma sess_step_gap:
  assumes "sess_step c s l s'" "sess_inv c s" "\<And>f. l = Received f \<Longrightarrow> ID f \<noteq> watermark s + 1"
  shows "watermark s' = watermark s"
  using assms
proof (induction rule: sess_step.induct)
  case (step_frame wr f sc s e s' es)
  then have "watermark s + 1 \<notin> set (seen s)" by (simp add: sess_inv_def window_inv_def)
  with step_frame receiveRequest_gap [of f s c wr sc] readLoop_frame_cases [of c wr f sc s]
  show ?case using touches_window by fastforce
next
  case (step_terminal s i)
  then show ?case using mark_terminalSent_touches touches_window by blast
qed (auto simp: finish_request_def reserveHandoffNonce_def put_request_def request_cancel_def
    session_stop_def Let_def split: option.splits if_splits)

lemma sess_run_gap:
  assumes "sess_run c s ls s'" "sess_inv c s" "\<forall>f. Received f \<in> set ls \<longrightarrow> ID f \<noteq> watermark s + 1"
  shows "watermark s' = watermark s"
  using assms
proof (induction rule: sess_run.induct)
  case (run_cons s l s' ls s'')
  then have "watermark s' = watermark s" by (intro sess_step_gap) auto
  then show ?case using run_cons sess_step_inv by auto
qed simp

lemma sess_step_nonces:
  assumes "sess_step c s l s'"
  shows "set (handoffNonces s) \<subseteq> set (handoffNonces s')"
  using assms
proof (induction rule: sess_step.induct)
  case (step_frame wr f sc s e s' es)
  then show ?case
    using receiveRequest_nonces [of c wr f sc s] readLoop_frame_cases [of c wr f sc s] touches_window
    by fastforce
next
  case (step_terminal s i)
  then show ?case using touches_window [OF mark_terminalSent_touches [of i s]] by simp
qed (auto simp: finish_request_def reserveHandoffNonce_def put_request_def request_cancel_def
    session_stop_def Let_def split: option.splits if_splits)

lemma sess_run_nonces: "sess_run c s ls s' \<Longrightarrow> set (handoffNonces s) \<subseteq> set (handoffNonces s')"
  by (induction rule: sess_run.induct) (use sess_step_nonces in blast)+

subsection \<open>Properties\<close>

definition request_example :: "u64 \<Rightarrow> string \<Rightarrow> Frame" where
  "request_example i oper = \<lparr> Kind = FrameRequest, Flags = FlagEnd, ID = i, Sequence = 0,
     DeadlineUnixMilli = 0, Op = oper, Tenant = [], Payload = [] \<rparr>"

text \<open>
  On every run of a session from its start, at most \<open>2 * concurrency\<close> requests are active,
  the server's in-flight count of the session is the number of active requests, the ids remembered
  beyond the watermark number at most \<open>2 * concurrency\<close> and lie inside the window above it, no
  active request has an acknowledged terminal that was never sent, and at most 256 distinct
  handoff nonces are remembered.
\<close>

lemma session_bounded:
  assumes "sess_run c (new_session cur leg gen) ls s"
  shows "length (active s) \<le> 2 * c \<and> distinct (akeys (active s)) \<and> admitted s = length (active s)
    \<and> length (seen s) \<le> 2 * c
    \<and> (\<forall>x\<in>set (seen s). watermark s < x \<and> unat x \<le> unat (watermark s) + 2 * c)
    \<and> (\<forall>st\<in>snd ` set (active s). terminalAcked st \<longrightarrow> terminalSent st)
    \<and> distinct (handoffNonces s) \<and> length (handoffNonces s) \<le> 256"
proof -
  have inv: "sess_inv c s" using sess_run_inv [OF assms new_session_inv] by simp
  then have "window_inv (inboundQueue c) (seen s) (watermark s)" by (simp add: sess_inv_def)
  then have "length (seen s) \<le> inboundQueue c" by (rule window_bounded)
  with inv show ?thesis
    by (auto simp: sess_inv_def window_inv_def acks_ordered_def inboundQueue_def
        brokerHandoffMaximumAttempts_def)
qed

lemma sess_run_frame:
  "readLoop_frame c wr f sc s = (e, s', es) \<Longrightarrow> sess_run c s [Received f] s'"
  by (rule run_cons [OF step_frame run_nil])

definition one_active :: session where
  "one_active = (new_session True False [7])\<lparr>active := [(1, new_request None True)], watermark := 1,
     admitted := 1\<rparr>"

lemma first_request:
  "receiveRequest 2 None (request_example 1 ''ping'') None (new_session True False [7])
     = (None, one_active, [StartExecute 1])"
proof -
  have "advance [1] 0 = ([], 1)" by (simp add: advance.simps)
  then show ?thesis
    by (simp add: receiveRequest_def request_example_def new_session_def one_active_def FlagEnd_def
      brokerHandoffOp_def inboundQueue_def aput_def adel_def)
qed

lemma first_run: "sess_run 2 (new_session True False [7]) [Received (request_example 1 ''ping'')] one_active"
  using first_request
  by (intro sess_run_frame [where wr = None and sc = None]) (simp add: readLoop_frame_def request_example_def)

text \<open>
  C4: a request id is dispatched at most once per session. Once a request with some id was
  admitted, every later request frame with that id, after any frames and internal steps in
  between, is refused with an error, starts nothing and leaves the session as it was.
\<close>

theorem request_id_admitted_once:
  assumes "sess_run c (new_session cur leg gen) ls s"
    and "receiveRequest c wr f sc s = (e, s1, es)" and "StartExecute (ID f) \<in> set es"
    and "sess_run c s1 ls' s2"
    and "ID g = ID f" and "receiveRequest c wr' g sc' s2 = (e', s3, es')"
  shows "e' \<noteq> None \<and> s3 = s2 \<and> (\<forall>i. StartExecute i \<notin> set es')"
proof -
  have inv: "sess_inv c s" using sess_run_inv [OF assms(1) new_session_inv] by simp
  have s1: "sess_inv c s1" using receiveRequest_inv [OF inv assms(2)] by simp
  have "ID f \<in> set (akeys (active s1))"
    using receiveRequest_admits(3) [OF assms(2,3)] map_of_akeys [of "active s1" "ID f"] by simp
  then have "consumed s1 (ID f)" using s1 by (simp add: sess_inv_def)
  then have "consumed s2 (ID g)" using sess_run_inv [OF assms(4) s1] assms(5) by simp
  then show ?thesis using consumed_refused [OF _ assms(6)] by blast
qed

theorem request_id_admitted_once_witness:
  "\<exists>e' es'. receiveRequest 2 None (request_example 1 ''pong'') None one_active = (Some e', one_active, es')
     \<and> StartExecute 1 \<notin> set es'"
proof -
  obtain e' s3 es' where r': "receiveRequest 2 None (request_example 1 ''pong'') None one_active = (e', s3, es')"
    by (metis prod.collapse)
  have "e' \<noteq> None \<and> s3 = one_active \<and> (\<forall>i. StartExecute i \<notin> set es')"
    by (rule request_id_admitted_once [OF run_nil first_request _ run_nil _ r'])
      (simp_all add: request_example_def)
  then show ?thesis using r' by auto
qed

text \<open>
  A client that numbers its requests without a gap is never refused by the id window: when
  every id up to the watermark has arrived, the next id is admitted whenever fewer than
  \<open>2 * concurrency\<close> requests are active, and the watermark moves onto it.
\<close>

lemma contiguous_ids_admitted:
  assumes "seen s = []" and "ID f = watermark s + 1" and "watermark s < ID f"
    and "Op f \<noteq> []" and "Op f \<noteq> brokerHandoffOp" and "Sequence f = 0"
    and "length (active s) < inboundQueue c"
  shows "\<exists>s'. receiveRequest c wr f None s = (None, s', [StartExecute (ID f)])
    \<and> watermark s' = ID f \<and> seen s' = [] \<and> map_of (active s') (ID f) \<noteq> None"
proof -
  have "ID f \<noteq> 0" using assms(3) by auto
  moreover have "unat (ID f - watermark s) \<le> inboundQueue c" using assms(2,7) by simp
  moreover have "advance [ID f] (watermark s) = ([], ID f)"
    using assms(2) by (simp add: advance.simps)
  ultimately show ?thesis
    using assms by (simp add: receiveRequest_def Let_def map_of_aput)
qed

lemma id_gap_rejects:
  assumes "sess_run c (new_session cur leg gen) ls s"
    and "sess_run c s ls' s'"
    and "\<forall>g. Received g \<in> set ls' \<longrightarrow> ID g \<noteq> watermark s + 1"
    and "unat (watermark s) + 2 * c < unat (ID f)"
    and "Op f \<noteq> []" and "Op f \<noteq> brokerHandoffOp" and "Sequence f = 0"
  shows "watermark s' = watermark s" "receiveRequest c wr f None s' = (wr, s', [sendRejected (ID f) [ErrQueueFull]])"
proof -
  have inv: "sess_inv c s" using sess_run_inv [OF assms(1) new_session_inv] by simp
  have inv': "sess_inv c s'" using sess_run_inv [OF assms(2) inv] by simp
  show w: "watermark s' = watermark s" using sess_run_gap [OF assms(2) inv assms(3)] .
  have far: "unat (watermark s') + inboundQueue c < unat (ID f)"
    using assms(4) w by (simp add: inboundQueue_def)
  have "ID f \<noteq> 0" using far by auto
  moreover have "watermark s' < ID f" using far by (simp add: word_less_nat_alt)
  moreover have "ID f \<notin> set (seen s')"
    using inv' far by (auto simp: sess_inv_def window_inv_def)
  moreover have "inboundQueue c < unat (ID f - watermark s')"
    using far by unat_arith
  ultimately show "receiveRequest c wr f None s' = (wr, s', [sendRejected (ID f) [ErrQueueFull]])"
    using w assms(5-7) by (simp add: receiveRequest_def close_sidecar_def Let_def not_le leD)
qed

text \<open>
  A gap in the ids is never forgiven. If the id after the watermark never arrives, the
  watermark never moves again, whatever else the session receives and finishes; from then on
  every request whose id is more than \<open>2 * concurrency\<close> above it is answered with
  \<open>queue at capacity\<close> and not dispatched, even on a session with no active request.
\<close>

lemma id_gap_wedges_session:
  assumes "sess_run c (new_session cur leg gen) ls s"
    and "sess_run c s ls' s'"
    and "\<forall>g. Received g \<in> set ls' \<longrightarrow> ID g \<noteq> watermark s + 1"
    and "unat (watermark s) + 2 * c < unat (ID f)"
    and "Op f \<noteq> []" and "Op f \<noteq> brokerHandoffOp" and "Sequence f = 0"
  shows "watermark s' = watermark s
    \<and> receiveRequest c wr f None s' = (wr, s', [sendRejected (ID f) [ErrQueueFull]])"
  using id_gap_rejects [OF assms] by blast

definition drained :: session where
  "drained = one_active\<lparr>active := [], admitted := 0\<rparr>"

lemma drained_run: "sess_run 2 one_active [Internal] drained"
proof -
  have "finish_request 1 one_active = (drained, [])"
    by (simp add: finish_request_def one_active_def drained_def adel_def request_close_def new_request_def)
  then show ?thesis by (rule run_cons [OF step_finish run_nil])
qed

text \<open>
  No passed descriptor leaks. Whatever frame a descriptor arrives with, the read loop either
  closes it or hands it to the request it admits, and never both; the request's cleanup then closes
  a descriptor the handoff did not take.
\<close>

lemma descriptor_owned_or_closed:
  assumes "readLoop_frame c wr f (Some fd) s = (e, s', es)"
  shows "(CloseDescriptor fd \<in> set es \<and> StartExecute (ID f) \<notin> set es
        \<or> CloseDescriptor fd \<notin> set es \<and> (\<exists>st. map_of (active s') (ID f) = Some st \<and> sidecar st = Some fd))
    \<and> (map_of (active s'') i = Some st'' \<and> sidecar st'' = Some fd'
        \<longrightarrow> CloseDescriptor fd' \<in> set (snd (finish_request i s'')))"
proof
  show "CloseDescriptor fd \<in> set es \<and> StartExecute (ID f) \<notin> set es
      \<or> CloseDescriptor fd \<notin> set es \<and> (\<exists>st. map_of (active s') (ID f) = Some st \<and> sidecar st = Some fd)"
    using assms
    by (auto simp: readLoop_frame_def receiveRequest_def Let_def close_sidecar_def sendRejected_def
        map_of_aput new_request_def split: if_splits prod.splits)
  show "map_of (active s'') i = Some st'' \<and> sidecar st'' = Some fd'
      \<longrightarrow> CloseDescriptor fd' \<in> set (snd (finish_request i s''))"
    by (simp add: finish_request_def request_close_def)
qed

text \<open>
  A handoff nonce is single-use for the life of its session: once it was reserved, a later
  reservation of it is refused as a replay and changes nothing.
\<close>

lemma handoff_nonce_single_use:
  assumes "reserveHandoffNonce nonce s = (None, s1)" and "sess_run c s1 ls s2"
  shows "reserveHandoffNonce nonce s2 = (Some [ErrHandoffReplay], s2)"
proof -
  let ?key = "take brokerHandoffNonceBytes (nonce @ replicate (brokerHandoffNonceBytes - length nonce) 0)"
  have "?key \<in> set (handoffNonces s1)"
    using assms(1) by (auto simp: reserveHandoffNonce_def Let_def split: if_splits)
  then have "?key \<in> set (handoffNonces s2)" using sess_run_nonces [OF assms(2)] by blast
  then show ?thesis by (simp add: reserveHandoffNonce_def)
qed

text \<open>
  The repair verbs sit below every gate. A request reaches the product exactly on a session
  of the current protocol whose schema is accepted, under an operation outside the reserved
  prefix, while the phase gate is open; health is answered on every session, and drain on every
  session of the current protocol, whatever schema it presented and whatever the phase.
\<close>

lemma dispatch_gates:
  "(dispatch_route s gate oper = RouteProduct \<longleftrightarrow>
      \<not> sess_legacy s \<and> current s \<and> gate = None
      \<and> take (length reservedOpPrefix) oper \<noteq> reservedOpPrefix)
   \<and> dispatch_route s gate healthOp = RouteHealth
   \<and> (dispatch_route s gate drainControlOp = RouteDrain \<longleftrightarrow> \<not> sess_legacy s)"
  by (auto simp: dispatch_route_def healthOp_def drainControlOp_def brokerHandoffOp_def
      reservedOpPrefix_def split: option.splits)

text \<open>
  A rejection proves the product did not run. When the product's handler reports no transport
  sentinel as its own error (\<open>handleBusiness\<close> returns none), a request whose terminal response is
  marked rejected was never routed to the product, and the rejection's code unwraps at the client
  to a sentinel of the error the server refused with.
\<close>

lemma rejected_never_dispatched:
  assumes "dispatch_route s gate oper = r"
    and "handlerErr = (case r of RouteRefuse e \<Rightarrow> Some e | _ \<Rightarrow> h)"
    and "rejectionCode h = None" and "rejectionCode ctxErr = None" and "rejectionCode transport = None"
    and "Rejected (terminal_response handlerErr ctxErr transport payload)"
  shows "r \<noteq> RouteProduct \<and>
    (\<exists>e x. r = RouteRefuse e \<and> x \<in> set e
       \<and> responseCodeCause (Code (terminal_response handlerErr ctxErr transport payload)) = Some [x])"
proof -
  let ?err = "case transport of Some e \<Rightarrow> Some e | None \<Rightarrow> (case ctxErr of Some e \<Rightarrow> Some e | None \<Rightarrow> handlerErr)"
  have rej: "rejectionCode ?err \<noteq> None"
    and code: "rejectionCode ?err = Some (Code (terminal_response handlerErr ctxErr transport payload))"
    using assms(6) by (auto simp: terminal_response_def Let_def split: option.splits)
  then have own: "transport = None" "ctxErr = None" "?err = handlerErr"
    using assms(4,5) by (auto split: option.splits)
  then obtain e where e: "r = RouteRefuse e" "handlerErr = Some e"
    using assms(2,3) rej by (cases r) auto
  then show ?thesis
    using code own rejectionCode_cause [of e] by (auto simp: errors_Is_def)
qed

end
