(* ===== verification/WireClient.thy ===== *)
theory WireClient
  imports WireSession
begin

text \<open>
  One persistent client session, \<^verbatim>\<open>internal/wire/client.go\<close>: opening a call, the transport's
  classification of what happened to its request, the demultiplexing of responses and stream
  chunks by id, cancellation, the session's failure and its graceful close.

  The call objects are a map from id to state (a caller keeps its handle after the call left
  \<open>pending\<close>); \<open>pending\<close> is the map's key list of the same name. A closed channel is a flag, and
  closing a closed channel is the value \<open>Panic\<close>, so that the panic Go raises there is a result of
  the model: \<open>ready\<close> of a call and \<open>pendingDone\<close> of the session are such channels. The write loop's
  answer to a frame is an argument of the operations that send one; \<open>writeLoop_turn\<close> and
  \<open>fate_select\<close> compute it from the codec's \<open>writeFrame\<close>.

  Each operation is composed of the critical sections the source has (\<open>open_alloc\<close>, \<open>open_add\<close>,
  \<open>open_end\<close>; \<open>pending_call\<close>, \<open>mark_ended\<close>, \<open>settle_call\<close>, \<open>removePending\<close>; \<open>fail_take\<close>,
  \<open>fail_settle\<close>). Here they run one after the other; \<open>WireRace\<close> interleaves them.
\<close>

subsection \<open>Outcomes\<close>

datatype Outcome =
    Delivered
  | PreSendFailure
  | OutcomeRejected
  | PostSendFailure
  | DeliveryUnknown

definition Replayable :: "Outcome \<Rightarrow> bool" where
  "Replayable oc \<longleftrightarrow> oc = PreSendFailure \<or> oc = OutcomeRejected"

record Result =
  res_Outcome :: Outcome
  res_Response :: "Response option"

definition Rejection :: "Result \<Rightarrow> (ResponseCode \<times> goerr option) option" where
  "Rejection r =
    (case res_Response r of
       Some resp \<Rightarrow> if res_Outcome r \<noteq> OutcomeRejected \<or> \<not> Rejected resp then None
         else Some (Code resp, Reason resp)
     | None \<Rightarrow> None)"

definition Terminal :: "Result \<Rightarrow> (ResponseCode \<times> goerr) option" where
  "Terminal r =
    (case res_Response r of
       Some resp \<Rightarrow> (case Err resp of None \<Rightarrow> None | Some e \<Rightarrow> Some (Code resp, e))
     | None \<Rightarrow> None)"

subsection \<open>State\<close>

record ClientCall =
  responseStream :: bool
  call_inbound :: "Chunk boundedStream"
  sendSequence :: streamSequence
  sendEnded :: bool
  call_canceled :: bool
  receiveSequence :: streamSequence
  receiveEnded :: bool
  finishOnce :: bool
  ready :: bool
  terminal :: "(Result \<times> goerr option) option"

record Client =
  nextID :: u64
  calls :: "u64 \<Rightarrow> ClientCall option"
  pending :: "u64 list"
  pendingDone :: bool
  client_err :: "goerr option"
  closing :: bool
  goAwayStarted :: bool
  goAway :: bool
  writerClosed :: bool
  events :: "(string \<times> bytes) boundedStream"
  peer_session :: bytes
  phase :: PhaseSnapshot

definition NewClient_state :: "bytes \<Rightarrow> PhaseSnapshot \<Rightarrow> Client" where
  "NewClient_state sess ph = \<lparr> nextID = 0, calls = (\<lambda>_. None), pending = [], pendingDone = True,
     client_err = None, closing = False, goAwayStarted = False, goAway = False, writerClosed = False,
     events = newBoundedStream, peer_session = sess, phase = ph \<rparr>"

datatype 'a step_result = Done 'a | Panic

fun step_bind :: "'a step_result \<Rightarrow> ('a \<Rightarrow> 'b step_result) \<Rightarrow> 'b step_result" where
  "step_bind Panic g = Panic"
| "step_bind (Done x) g = g x"

subsection \<open>What the write loop answers\<close>

datatype frameSendState = frameNotSent | frameDeliveryUnknown | frameCommitted

fun goerr_of_wire :: "wire_error \<Rightarrow> goerr" where
  "goerr_of_wire ErrFrameTooLarge = [FrameTooLarge]"
| "goerr_of_wire ErrInvalidFrame = [InvalidFrame]"
| "goerr_of_wire ErrProtocolVersion = [ProtocolMismatch]"
| "goerr_of_wire EOF = [IoEOF]"
| "goerr_of_wire e = []"

text \<open>
  One turn of \<open>writeLoop\<close>: a frame whose caller's context has ended is not written; otherwise the
  codec's report decides. The third component is whether the session survives.
\<close>

definition writeLoop_turn ::
  "Codec \<Rightarrow> write_answer list \<Rightarrow> goerr option \<Rightarrow> Frame \<Rightarrow> frameSendState \<times> goerr option \<times> bool \<times> bytes" where
  "writeLoop_turn c as ctxErr f =
    (case ctxErr of
       Some e \<Rightarrow> (frameNotSent, Some e, errors_Is e Canceled \<or> errors_Is e DeadlineExceeded, [])
     | None \<Rightarrow>
         let r = writeFrame c as f;
             st = (if complete r then frameCommitted
                   else if started r then frameDeliveryUnknown else frameNotSent)
         in (case write_err r of
               None \<Rightarrow> (st, None, True, written r)
             | Some e \<Rightarrow> (st, Some (goerr_of_wire e),
                 e = ErrFrameTooLarge \<or> e = ErrInvalidFrame, written r)))"

text \<open>
  \<open>sendFrameState\<close>: the select over the outbound queue has three answers, and only the first hands
  the frame to the write loop, whose result then comes back on \<open>done\<close>.
\<close>

datatype send_select = Enqueued "frameSendState \<times> goerr option" | CallerDone goerr | SessionDone

definition sessionErr :: "Client \<Rightarrow> goerr option" where
  "sessionErr c = client_err c"

definition sendFrameState :: "send_select \<Rightarrow> bool \<Rightarrow> Client \<Rightarrow> frameSendState \<times> goerr option" where
  "sendFrameState sel duringClose c =
    (if writerClosed c then (frameNotSent, sessionErr c)
     else if goAwayStarted c \<and> \<not> duringClose then (frameNotSent, Some [ErrClientClosing])
     else case sel of
       Enqueued r \<Rightarrow> r
     | CallerDone e \<Rightarrow> (frameNotSent, Some e)
     | SessionDone \<Rightarrow> (frameNotSent, sessionErr c))"

text \<open>\<open>closeWriter\<close>: what every frame still queued when the writer stops is answered.\<close>

definition closeWriter :: "Client \<Rightarrow> (frameSendState \<times> goerr option) \<times> Client" where
  "closeWriter c = ((frameDeliveryUnknown, sessionErr c), c\<lparr>writerClosed := True\<rparr>)"

subsection \<open>Opening a call\<close>

definition addPending :: "u64 \<Rightarrow> Client \<Rightarrow> goerr option \<times> Client" where
  "addPending i c =
    (if closing c then (Some [ErrClientClosing], c)
     else case client_err c of
       Some e \<Rightarrow> (Some e, c)
     | None \<Rightarrow> (None, c\<lparr>pendingDone := (if pending c = [] then False else pendingDone c),
                       pending := i # removeAll i (pending c)\<rparr>))"

definition removePending :: "u64 \<Rightarrow> Client \<Rightarrow> Client step_result" where
  "removePending i c =
    (if i \<notin> set (pending c) then Done c
     else let ps = removeAll i (pending c) in
       if ps = [] then
         if pendingDone c then Panic else Done (c\<lparr>pending := ps, pendingDone := True\<rparr>)
       else Done (c\<lparr>pending := ps\<rparr>))"

definition new_call :: "bool \<Rightarrow> bool \<Rightarrow> ClientCall" where
  "new_call endInput stream = \<lparr> responseStream = stream, call_inbound = newBoundedStream,
     sendSequence = zeroSequence, sendEnded = endInput, call_canceled = False,
     receiveSequence = zeroSequence, receiveEnded = False, finishOnce = False, ready = False,
     terminal = None \<rparr>"

definition request_frame :: "u64 \<Rightarrow> string \<Rightarrow> bytes \<Rightarrow> bool \<Rightarrow> i64 \<Rightarrow> Frame" where
  "request_frame i oper payload endInput deadline = \<lparr> Kind = FrameRequest,
     Flags = (if endInput then FlagEnd else 0), ID = i, Sequence = 0, DeadlineUnixMilli = deadline,
     Op = oper, Tenant = [], Payload = payload \<rparr>"

text \<open>
  \<open>open\<close>. It takes the next id, admits the call under the session's lock, sends the request with no
  lock held, and on an error takes the call back under the lock. \<open>send\<close> is what \<open>sendFrame\<close> answers
  for the request frame it is given. A failure is the \<open>OpenError\<close>'s outcome; success is the call's id.
\<close>

definition open_alloc :: "Client \<Rightarrow> u64 \<times> Client" where
  "open_alloc c = (nextID c + 1, c\<lparr>nextID := nextID c + 1\<rparr>)"

definition open_add :: "u64 \<Rightarrow> bool \<Rightarrow> bool \<Rightarrow> Client \<Rightarrow> goerr option \<times> Client" where
  "open_add i endInput stream c =
    (case addPending i c of
       (Some e, c') \<Rightarrow> (Some e, c')
     | (None, c') \<Rightarrow> (None, c'\<lparr>calls := (calls c')(i \<mapsto> new_call endInput stream)\<rparr>))"

definition open_outcome :: "frameSendState \<Rightarrow> Outcome" where
  "open_outcome st = (case st of frameDeliveryUnknown \<Rightarrow> DeliveryUnknown
     | frameCommitted \<Rightarrow> PostSendFailure | frameNotSent \<Rightarrow> PreSendFailure)"

definition open_end ::
  "u64 \<Rightarrow> frameSendState \<times> goerr option \<Rightarrow> Client \<Rightarrow> ((Outcome \<times> goerr) + u64) \<times> Client step_result" where
  "open_end i answer c =
    (case answer of
       (st, Some e) \<Rightarrow> (Inl (open_outcome st, e), removePending i c)
     | (st, None) \<Rightarrow> (Inr i, Done c))"

definition open_call ::
  "(Frame \<Rightarrow> frameSendState \<times> goerr option) \<Rightarrow> string \<Rightarrow> bytes \<Rightarrow> bool \<Rightarrow> bool \<Rightarrow> i64 \<Rightarrow> Client
    \<Rightarrow> ((Outcome \<times> goerr) + u64) \<times> Client step_result" where
  "open_call send oper payload endInput stream deadline c =
    (if oper = [] then (Inl (PreSendFailure, []), Done c)
     else case open_alloc c of (i, c1) \<Rightarrow>
     case open_add i endInput stream c1 of
       (Some e, c2) \<Rightarrow> (Inl (PreSendFailure, e), Done c2)
     | (None, c2) \<Rightarrow> open_end i (send (request_frame i oper payload endInput deadline)) c2)"

lemmas open_defs = open_call_def open_alloc_def open_add_def open_end_def open_outcome_def addPending_def

subsection \<open>Settling a call\<close>

text \<open>
  \<open>ClientCall.finish\<close>: the body runs under \<open>finishOnce\<close>, and its last statement closes \<open>ready\<close>,
  which panics when \<open>ready\<close> is closed already.
\<close>

definition finished :: "Result \<Rightarrow> goerr option \<Rightarrow> ClientCall \<Rightarrow> ClientCall" where
  "finished r e call = call\<lparr>finishOnce := True, terminal := Some (r, e), receiveEnded := True,
     sendEnded := True, call_inbound := stream_close (call_inbound call), ready := True\<rparr>"

definition finish_call :: "Result \<Rightarrow> goerr option \<Rightarrow> ClientCall \<Rightarrow> ClientCall step_result" where
  "finish_call r e call =
    (if finishOnce call then Done call
     else if ready call then Panic
     else Done (finished r e call))"

definition set_call :: "u64 \<Rightarrow> ClientCall \<Rightarrow> Client \<Rightarrow> Client" where
  "set_call i call c = c\<lparr>calls := (calls c)(i \<mapsto> call)\<rparr>"

definition pending_call :: "u64 \<Rightarrow> Client \<Rightarrow> ClientCall option" where
  "pending_call i c = (if i \<in> set (pending c) then calls c i else None)"

text \<open>A critical section on one call object, which its holder reaches whether or not it is still pending.\<close>

definition on_call :: "u64 \<Rightarrow> (ClientCall \<Rightarrow> ClientCall step_result) \<Rightarrow> Client \<Rightarrow> Client step_result" where
  "on_call i g c =
    (case calls c i of None \<Rightarrow> Done c
     | Some call \<Rightarrow> step_bind (g call) (\<lambda>call'. Done (set_call i call' c)))"

definition end_receive :: "ClientCall \<Rightarrow> ClientCall" where
  "end_receive call = call\<lparr>receiveEnded := True, call_inbound := stream_close (call_inbound call)\<rparr>"

definition mark_ended :: "u64 \<Rightarrow> Client \<Rightarrow> Client step_result" where
  "mark_ended i = on_call i (\<lambda>call. Done (end_receive call))"

definition settle_call :: "u64 \<Rightarrow> Result \<Rightarrow> goerr option \<Rightarrow> Client \<Rightarrow> Client step_result" where
  "settle_call i r e = on_call i (finish_call r e)"

definition response_result :: "Response \<Rightarrow> Result" where
  "response_result response =
    \<lparr> res_Outcome = (if Rejected response then OutcomeRejected else Delivered), res_Response = Some response \<rparr>"

text \<open>
  \<open>receiveResponse\<close>: \<open>decoded\<close> is the strictly decoded response of the frame's payload (\<open>None\<close>
  when it does not decode) and \<open>ackErr\<close> the answer of the send of the acknowledgement.
\<close>

definition client_receiveResponse ::
  "Response option \<Rightarrow> goerr option \<Rightarrow> Frame \<Rightarrow> Client \<Rightarrow> goerr option \<times> Client step_result" where
  "client_receiveResponse decoded ackErr f c =
    (case decoded of
       None \<Rightarrow> (Some [InvalidFrame], Done c)
     | Some response \<Rightarrow>
         let err = (if Ack response then ackErr else None) in
         (case pending_call (ID f) c of
            None \<Rightarrow> (err, Done c)
          | Some call \<Rightarrow>
              (err, step_bind (mark_ended (ID f) c) (\<lambda>c1.
                    step_bind (settle_call (ID f) (response_result response) None c1)
                      (removePending (ID f))))))"

text \<open>\<open>receiveStream\<close>: the sequence check under the call's lock, then the offer to the bounded stream.\<close>

definition stream_admit :: "Frame \<Rightarrow> ClientCall \<Rightarrow> (goerr + Chunk) \<times> ClientCall" where
  "stream_admit f call =
    (if \<not> responseStream call then (Inl [ErrFlowControl], call)
     else if receiveEnded call then (Inl [ErrStreamOrder], call)
     else (case seq_take (receiveSequence call) of
       (Inl e, q) \<Rightarrow> (Inl e, call)
     | (Inr expected, q) \<Rightarrow>
         let call1 = call\<lparr>receiveSequence := q\<rparr> in
         if Sequence f \<noteq> expected then (Inl [ErrStreamOrder], call1)
         else let isEnd = (Flags f AND FlagEnd \<noteq> 0) in
           (Inr \<lparr> ch_Sequence = Sequence f, ch_Payload = Payload f, ch_End = isEnd \<rparr>,
            if isEnd then call1\<lparr>receiveEnded := True\<rparr> else call1)))"

definition stream_deliver :: "Chunk \<Rightarrow> ClientCall \<Rightarrow> goerr option \<times> ClientCall" where
  "stream_deliver chunk call =
    (case stream_offer chunk (call_inbound call) of
       (Some e, b) \<Rightarrow> ((if errors_Is e StreamClosed then None else Some e), call)
     | (None, b) \<Rightarrow> (None, call\<lparr>call_inbound := (if ch_End chunk then stream_close b else b)\<rparr>))"

definition client_receiveStream :: "Frame \<Rightarrow> Client \<Rightarrow> goerr option \<times> Client" where
  "client_receiveStream f c =
    (case pending_call (ID f) c of
       None \<Rightarrow> (None, c)
     | Some call \<Rightarrow>
         (case stream_admit f call of
            (Inl e, call1) \<Rightarrow> (Some e, set_call (ID f) call1 c)
          | (Inr chunk, call1) \<Rightarrow>
              (case stream_deliver chunk call1 of (err, call2) \<Rightarrow> (err, set_call (ID f) call2 c))))"

definition receiveLifecycle :: "PhaseSnapshot option \<Rightarrow> Client \<Rightarrow> goerr option \<times> Client" where
  "receiveLifecycle decoded c =
    (case decoded of
       None \<Rightarrow> (Some [InvalidFrame], c)
     | Some snap \<Rightarrow>
         if ps_Phase snap = PhaseOther [] then (Some [InvalidFrame], c) else (None, c\<lparr>phase := snap\<rparr>))"

text \<open>
  \<open>Client.fail\<close>: only the first failure counts (\<open>sync.Once\<close>). Under the session's lock it records the
  error and takes every pending call; with the lock released it settles them one by one.
\<close>

definition fail_take :: "goerr \<Rightarrow> Client \<Rightarrow> (u64 list \<times> Client) step_result" where
  "fail_take e c =
    (if pending c \<noteq> [] \<and> pendingDone c then Panic
     else Done (pending c, c\<lparr>client_err := Some e, pending := [],
       pendingDone := (if pending c \<noteq> [] then True else pendingDone c)\<rparr>))"

definition close_events :: "Client \<Rightarrow> Client" where
  "close_events c = c\<lparr>events := stream_close (events c)\<rparr>"

definition lost_result :: Result where
  "lost_result = \<lparr> res_Outcome = PostSendFailure, res_Response = None \<rparr>"

definition fail_settle :: "goerr \<Rightarrow> u64 \<Rightarrow> Client \<Rightarrow> Client step_result" where
  "fail_settle e i c = step_bind (mark_ended i c) (settle_call i lost_result (Some e))"

primrec settle_all :: "goerr \<Rightarrow> u64 list \<Rightarrow> Client \<Rightarrow> Client step_result" where
  "settle_all e [] c = Done c"
| "settle_all e (i # is) c = step_bind (fail_settle e i c) (settle_all e is)"

definition client_fail :: "goerr \<Rightarrow> Client \<Rightarrow> Client step_result" where
  "client_fail e c =
    (case client_err c of
       Some _ \<Rightarrow> Done c
     | None \<Rightarrow> step_bind (fail_take e c) (\<lambda>(ids, c1). settle_all e ids (close_events c1)))"

subsection \<open>The read loop\<close>

text \<open>
  One frame of \<open>readLoop\<close>; the second component is whether the loop goes on. \<open>resp\<close> and \<open>snap\<close>
  are the strictly decoded payloads of a response and of a lifecycle frame.
\<close>

definition failing :: "goerr option \<times> Client step_result \<Rightarrow> Client step_result \<times> bool" where
  "failing r = (case r of
     (None, c) \<Rightarrow> (c, True)
   | (Some e, Panic) \<Rightarrow> (Panic, False)
   | (Some e, Done c) \<Rightarrow> (client_fail e c, False))"

definition client_readLoop_frame ::
  "Response option \<Rightarrow> PhaseSnapshot option \<Rightarrow> goerr option \<Rightarrow> Frame \<Rightarrow> Client \<Rightarrow> Client step_result \<times> bool" where
  "client_readLoop_frame resp snap ackErr f c =
    (if Kind f = FrameResponse then failing (client_receiveResponse resp ackErr f c)
     else if Kind f = FrameStream then failing (apsnd Done (client_receiveStream f c))
     else if Kind f = FrameEvent then
       (case stream_offer (Op f, Payload f) (events c) of
          (None, b) \<Rightarrow> (Done (c\<lparr>events := b\<rparr>), True)
        | (Some e, b) \<Rightarrow>
            if errors_Is e StreamClosed \<and> client_err c \<noteq> None then (Done c, False)
            else (client_fail e c, False))
     else if Kind f = FrameLifecycle then failing (apsnd Done (receiveLifecycle snap c))
     else if Kind f = FrameGoAway then
       if \<not> closing c then (client_fail [IoEOF] c, False)
       else (Done (c\<lparr>goAway := True\<rparr>), False)
     else (client_fail [InvalidFrame] c, False))"

subsection \<open>Ending the session\<close>

text \<open>\<open>Abort\<close>.\<close>

definition client_abort :: "goerr option \<Rightarrow> Client \<Rightarrow> Client step_result" where
  "client_abort cause c = client_fail (case cause of None \<Rightarrow> [ErrClientAbort] | Some e \<Rightarrow> ErrClientAbort # e) c"

text \<open>
  \<open>close\<close> in the order it acts: no further call is admitted; once no call is pending the go-away
  is sent and the session torn down with \<open>io.EOF\<close>. When the caller's context ends first the session
  fails with that.
\<close>

definition begin_close :: "Client \<Rightarrow> Client" where
  "begin_close c = c\<lparr>closing := True\<rparr>"

definition finish_close :: "goerr option \<Rightarrow> Client \<Rightarrow> Client step_result" where
  "finish_close parentErr c =
    (case parentErr of
       Some e \<Rightarrow> client_fail e c
     | None \<Rightarrow> client_fail [IoEOF] (c\<lparr>goAwayStarted := True\<rparr>))"

subsection \<open>Sending on a call\<close>

definition takeSendSequence :: "bool \<Rightarrow> ClientCall \<Rightarrow> (goerr + u32) \<times> ClientCall" where
  "takeSendSequence isEnd call =
    (if ready call then (Inl [ErrCallDone], call)
     else if call_canceled call then (Inl [ErrCallDone], call)
     else if sendEnded call then (Inl [], call)
     else case seq_take (sendSequence call) of
       (Inl e, q) \<Rightarrow> (Inl e, call)
     | (Inr n, q) \<Rightarrow>
         (Inr n, (let call' = call\<lparr>sendSequence := q\<rparr> in if isEnd then call'\<lparr>sendEnded := True\<rparr> else call')))"

definition call_cancel :: "u64 \<Rightarrow> Client \<Rightarrow> Client" where
  "call_cancel i c =
    (case calls c i of None \<Rightarrow> c
     | Some call \<Rightarrow> set_call i (call\<lparr>call_canceled := True, sendEnded := True\<rparr>) c)"

subsection \<open>The server's response stream (\<open>sendValue\<close>)\<close>

fun stream_frames :: "u64 \<Rightarrow> streamSequence \<Rightarrow> bytes list \<Rightarrow> goerr + Frame list" where
  "stream_frames i q [] = Inr []"
| "stream_frames i q (p # ps) =
    (case seq_take q of
       (Inl e, q') \<Rightarrow> Inl e
     | (Inr cur, q') \<Rightarrow> bindE (stream_frames i q' ps) (\<lambda>fs.
         Inr (\<lparr> Kind = FrameStream, Flags = 0, ID = i, Sequence = cur, DeadlineUnixMilli = 0,
                Op = [], Tenant = [], Payload = p \<rparr> # fs)))"

primrec client_streams :: "Frame list \<Rightarrow> Client \<Rightarrow> goerr option \<times> Client" where
  "client_streams [] c = (None, c)"
| "client_streams (f # fs) c =
    (case client_receiveStream f c of (Some e, c') \<Rightarrow> (Some e, c') | (None, c') \<Rightarrow> client_streams fs c')"

subsection \<open>The session as a transition system\<close>

definition client_inv :: "Client \<Rightarrow> bool" where
  "client_inv c \<longleftrightarrow> (pendingDone c \<longleftrightarrow> pending c = []) \<and> distinct (pending c)
    \<and> (\<forall>i\<in>set (pending c). \<exists>call. calls c i = Some call \<and> terminal call = None)
    \<and> (client_err c \<noteq> None \<longrightarrow> pending c = [])
    \<and> (\<forall>i call. calls c i = Some call \<longrightarrow> i \<le> nextID c)"

text \<open>The once-guard and the \<open>ready\<close> channel of a call agree with its having a result.\<close>

definition once_ok :: "ClientCall \<Rightarrow> bool" where
  "once_ok call \<longleftrightarrow> (finishOnce call \<longleftrightarrow> terminal call \<noteq> None) \<and> (ready call \<longleftrightarrow> terminal call \<noteq> None)"

definition once_inv :: "Client \<Rightarrow> bool" where
  "once_inv c \<longleftrightarrow> (\<forall>i call. calls c i = Some call \<longrightarrow> once_ok call)"

definition session_inv :: "Client \<Rightarrow> bool" where
  "session_inv c \<longleftrightarrow> client_inv c \<and> once_inv c"

text \<open>What later steps may do to an earlier client: no settled call is settled again.\<close>

definition extends :: "Client \<Rightarrow> Client \<Rightarrow> bool" where
  "extends c c' \<longleftrightarrow> (\<forall>i call r. calls c i = Some call \<and> terminal call = Some r \<longrightarrow>
     (\<exists>call'. calls c' i = Some call' \<and> terminal call' = Some r))"

lemma extends_refl [simp]: "extends c c"
  by (simp add: extends_def)

lemma extends_trans: "extends a b \<Longrightarrow> extends b c \<Longrightarrow> extends a c"
  unfolding extends_def by meson

lemma step_bind_Done: "step_bind a g = Done y \<longleftrightarrow> (\<exists>x. a = Done x \<and> g x = Done y)"
  by (cases a) simp_all

lemma NewClient_inv: "session_inv (NewClient_state sess ph)"
  by (simp add: session_inv_def client_inv_def once_inv_def NewClient_state_def)

lemma new_call_ok [simp]: "once_ok (new_call e st)" "terminal (new_call e st) = None"
  by (simp_all add: once_ok_def new_call_def)

lemma end_receive_simps [simp]:
  "terminal (end_receive call) = terminal call" "once_ok (end_receive call) \<longleftrightarrow> once_ok call"
  "stream_closed (call_inbound (end_receive call))"
  by (simp_all add: end_receive_def once_ok_def stream_close_def)

lemma finished_simps [simp]:
  "terminal (finished r e call) = Some (r, e)" "once_ok (finished r e call)"
  "stream_closed (call_inbound (finished r e call))"
  by (simp_all add: finished_def once_ok_def stream_close_def)

lemma finish_call_open: "once_ok call \<Longrightarrow> terminal call = None \<Longrightarrow> finish_call r e call = Done (finished r e call)"
  by (simp add: finish_call_def once_ok_def)

lemma finish_call_settled: "once_ok call \<Longrightarrow> terminal call \<noteq> None \<Longrightarrow> finish_call r e call = Done call"
  by (simp add: finish_call_def once_ok_def)

lemma set_call_simps [simp]:
  "calls (set_call i call c) = (calls c)(i \<mapsto> call)" "pending (set_call i call c) = pending c"
  "pendingDone (set_call i call c) = pendingDone c" "client_err (set_call i call c) = client_err c"
  "nextID (set_call i call c) = nextID c"
  by (simp_all add: set_call_def)

lemma set_call_same [simp]: "calls c i = Some call \<Longrightarrow> set_call i call c = c"
  by (simp add: set_call_def fun_upd_idem)

lemma set_call_twice [simp]: "set_call i b (set_call i a c) = set_call i b c"
  by (simp add: set_call_def)

lemma mark_ended_eq: "calls c i = Some call \<Longrightarrow> mark_ended i c = Done (set_call i (end_receive call) c)"
  by (simp add: mark_ended_def on_call_def)

lemma settle_call_eq:
  "calls c i = Some call \<Longrightarrow> once_ok call \<Longrightarrow> terminal call = None \<Longrightarrow>
    settle_call i r e c = Done (set_call i (finished r e call) c)"
  by (simp add: settle_call_def on_call_def finish_call_open)

lemma removePending_step:
  assumes "pendingDone c \<longleftrightarrow> pending c = []"
  shows "\<exists>c'. removePending i c = Done c' \<and> calls c' = calls c \<and> pending c' = removeAll i (pending c)
    \<and> (pendingDone c' \<longleftrightarrow> pending c' = []) \<and> client_err c' = client_err c \<and> nextID c' = nextID c"
  using assms by (auto simp: removePending_def Let_def)

lemma open_call_step:
  assumes inv: "session_inv c" and lt: "nextID c < nextID c + 1"
    and r: "open_call send oper payload e st d c = (res, out)"
  shows "\<exists>c'. out = Done c' \<and> session_inv c' \<and> extends c c'"
proof -
  let ?i = "nextID c + 1"
  have fresh: "calls c ?i = None"
    using inv lt by (cases "calls c ?i") (auto simp: session_inv_def client_inv_def leD)
  have grow: "i \<le> ?i" if "i \<le> nextID c" for i using that lt by auto
  show ?thesis
  proof (cases "oper = [] \<or> closing c \<or> client_err c \<noteq> None")
    case True
    then show ?thesis
      using inv r grow
      by (fastforce simp: open_defs session_inv_def client_inv_def once_inv_def extends_def
        split: if_splits option.splits)
  next
    case False
    define c3 where "c3 = c\<lparr>nextID := ?i, pendingDone := False, pending := ?i # removeAll ?i (pending c),
      calls := (calls c)(?i \<mapsto> new_call e st)\<rparr>"
    have add: "open_add ?i e st (c\<lparr>nextID := ?i\<rparr>) = (None, c3)"
      using False inv by (auto simp: open_add_def addPending_def session_inv_def client_inv_def c3_def)
    have i3: "session_inv c3"
      using inv False grow by (auto simp: c3_def session_inv_def client_inv_def once_inv_def distinct_removeAll)
    have e3: "extends c c3" using fresh by (auto simp: c3_def extends_def)
    obtain c4 where c4: "removePending ?i c3 = Done c4" "calls c4 = calls c3"
      "pending c4 = removeAll ?i (pending c3)" "pendingDone c4 \<longleftrightarrow> pending c4 = []"
      "client_err c4 = client_err c3" "nextID c4 = nextID c3"
      using removePending_step [of c3 ?i] i3 by (auto simp: session_inv_def client_inv_def)
    have "session_inv c4" using i3 c4 by (auto simp: session_inv_def client_inv_def once_inv_def distinct_removeAll)
    moreover have "extends c c4" using e3 c4 by (simp add: extends_def)
    moreover have "out = Done c3 \<or> out = Done c4"
      using r False c4(1) add by (auto simp: open_call_def open_alloc_def open_end_def split: prod.splits option.splits)
    ultimately show ?thesis using i3 e3 by blast
  qed
qed

lemma set_call_step:
  assumes "session_inv c" "calls c i = Some call" "terminal call = None \<or> terminal call' = terminal call"
    and "i \<in> set (pending c) \<Longrightarrow> terminal call' = None" and "once_ok call'"
  shows "session_inv (set_call i call' c)" "extends c (set_call i call' c)"
  using assms by (auto simp: session_inv_def client_inv_def once_inv_def extends_def)

lemma pending_call_inv:
  assumes "session_inv c" "pending_call i c = Some call"
  shows "i \<in> set (pending c)" "calls c i = Some call" "terminal call = None" "once_ok call"
  using assms by (auto simp: pending_call_def session_inv_def client_inv_def once_inv_def split: if_splits)

lemma response_settles:
  assumes "session_inv c" "pending_call i c = Some call"
  shows "step_bind (mark_ended i c) (\<lambda>c1. step_bind (settle_call i r None c1) (removePending i))
    = removePending i (set_call i (finished r None (end_receive call)) c)"
proof -
  note p = pending_call_inv [OF assms]
  have "settle_call i r None (set_call i (end_receive call) c)
    = Done (set_call i (finished r None (end_receive call)) (set_call i (end_receive call) c))"
    by (rule settle_call_eq) (use p in simp_all)
  then show ?thesis using p by (simp add: mark_ended_eq)
qed

lemma client_receiveResponse_step:
  assumes inv: "session_inv c" and r: "client_receiveResponse decoded ackErr f c = (err, out)"
  shows "\<exists>c'. out = Done c' \<and> session_inv c' \<and> extends c c'"
proof (cases "\<exists>response call. decoded = Some response \<and> pending_call (ID f) c = Some call")
  case False
  then show ?thesis using inv r
    by (auto simp: client_receiveResponse_def Let_def split: option.splits)
next
  case True
  then obtain response call where d: "decoded = Some response" "pending_call (ID f) c = Some call" by blast
  note p = pending_call_inv [OF inv d(2)]
  let ?c1 = "set_call (ID f) (finished (response_result response) None (end_receive call)) c"
  have d1: "pendingDone ?c1 \<longleftrightarrow> pending ?c1 = []" using inv by (simp add: session_inv_def client_inv_def)
  obtain c' where c': "removePending (ID f) ?c1 = Done c'" "calls c' = calls ?c1"
      "pending c' = removeAll (ID f) (pending ?c1)" "pendingDone c' \<longleftrightarrow> pending c' = []"
      "client_err c' = client_err ?c1" "nextID c' = nextID ?c1"
    using removePending_step [OF d1] by blast
  have "session_inv c'"
    using inv c' p by (auto simp: session_inv_def client_inv_def once_inv_def distinct_removeAll)
  moreover have "extends c c'" using c' p by (auto simp: extends_def)
  moreover have "out = Done c'"
    using r d(1) c'(1) by (simp add: client_receiveResponse_def Let_def d(2) response_settles [OF inv d(2)])
  ultimately show ?thesis by blast
qed

lemma stream_admit_keeps: "stream_admit f call = (r, call') \<Longrightarrow>
    terminal call' = terminal call \<and> (once_ok call' \<longleftrightarrow> once_ok call)"
  by (auto simp: stream_admit_def Let_def once_ok_def split: if_splits sum.splits prod.splits)

lemma stream_deliver_keeps: "stream_deliver chunk call = (r, call') \<Longrightarrow>
    terminal call' = terminal call \<and> (once_ok call' \<longleftrightarrow> once_ok call)"
  by (auto simp: stream_deliver_def once_ok_def split: option.splits prod.splits)

lemma client_receiveStream_keeps:
  assumes "client_receiveStream f c = (err, c')" "pending_call (ID f) c = Some call"
  shows "\<exists>call'. c' = set_call (ID f) call' c \<and> terminal call' = terminal call \<and> (once_ok call' \<longleftrightarrow> once_ok call)"
  using assms
  by (fastforce simp: client_receiveStream_def split: sum.splits prod.splits
      dest: stream_admit_keeps stream_deliver_keeps)

lemma client_receiveStream_step:
  assumes inv: "session_inv c" and r: "client_receiveStream f c = (err, c')"
  shows "session_inv c' \<and> extends c c'"
proof (cases "pending_call (ID f) c")
  case None
  then show ?thesis using assms by (simp add: client_receiveStream_def)
next
  case (Some call)
  note p = pending_call_inv [OF inv Some]
  then show ?thesis
    using client_receiveStream_keeps [OF r Some] set_call_step [OF inv p(2)] by auto
qed

lemma fail_settle_eq:
  assumes "calls c i = Some call" "once_ok call" "terminal call = None"
  shows "fail_settle e i c = Done (set_call i (finished lost_result (Some e) (end_receive call)) c)"
proof -
  have "settle_call i lost_result (Some e) (set_call i (end_receive call) c)
    = Done (set_call i (finished lost_result (Some e) (end_receive call)) (set_call i (end_receive call) c))"
    by (rule settle_call_eq) (use assms in simp_all)
  then show ?thesis using assms by (simp add: fail_settle_def mark_ended_eq)
qed

lemma settle_all_eq:
  assumes "distinct ids" "\<forall>i\<in>set ids. \<exists>call. calls c i = Some call \<and> once_ok call \<and> terminal call = None"
  shows "settle_all e ids c = Done (c\<lparr>calls := (\<lambda>i. if i \<in> set ids
    then map_option (\<lambda>call. finished lost_result (Some e) (end_receive call)) (calls c i) else calls c i)\<rparr>)"
  using assms
proof (induction ids arbitrary: c)
  case (Cons i ids)
  then obtain call where call: "calls c i = Some call" "once_ok call" "terminal call = None" by auto
  let ?c1 = "set_call i (finished lost_result (Some e) (end_receive call)) c"
  have "settle_all e ids ?c1 = Done (?c1\<lparr>calls := (\<lambda>i. if i \<in> set ids
    then map_option (\<lambda>call. finished lost_result (Some e) (end_receive call)) (calls ?c1 i) else calls ?c1 i)\<rparr>)"
    by (rule Cons.IH) (use Cons.prems in auto)
  moreover have "?c1\<lparr>calls := (\<lambda>i. if i \<in> set ids
      then map_option (\<lambda>call. finished lost_result (Some e) (end_receive call)) (calls ?c1 i) else calls ?c1 i)\<rparr>
    = c\<lparr>calls := (\<lambda>k. if k \<in> set (i # ids)
      then map_option (\<lambda>call. finished lost_result (Some e) (end_receive call)) (calls c k) else calls c k)\<rparr>"
    using Cons.prems(1) call(1) by (auto simp: set_call_def fun_eq_iff)
  ultimately show ?case using fail_settle_eq [OF call] by simp
qed simp

lemma client_fail_eq:
  assumes inv: "session_inv c" and "client_err c = None"
  shows "client_fail e c = Done (c\<lparr>client_err := Some e, pending := [], events := stream_close (events c),
    pendingDone := True, calls := (\<lambda>i. if i \<in> set (pending c)
      then map_option (\<lambda>call. finished lost_result (Some e) (end_receive call)) (calls c i) else calls c i)\<rparr>)"
proof -
  define c1 where "c1 = c\<lparr>client_err := Some e, pending := [], pendingDone := True\<rparr>"
  have "fail_take e c = Done (pending c, c1)"
    using inv by (auto simp: fail_take_def session_inv_def client_inv_def c1_def)
  moreover have "settle_all e (pending c) (close_events c1) = Done ((close_events c1)\<lparr>calls := (\<lambda>i. if i \<in> set (pending c)
    then map_option (\<lambda>call. finished lost_result (Some e) (end_receive call)) (calls (close_events c1) i)
    else calls (close_events c1) i)\<rparr>)"
    by (rule settle_all_eq)
      (use inv in \<open>fastforce simp: close_events_def c1_def session_inv_def client_inv_def once_inv_def\<close>)+
  ultimately show ?thesis using assms(2) by (simp add: client_fail_def close_events_def c1_def cong: if_cong)
qed

lemma client_fail_step:
  assumes inv: "session_inv c"
  shows "\<exists>c'. client_fail e c = Done c' \<and> session_inv c' \<and> extends c c'"
proof (cases "client_err c")
  case (Some x)
  then show ?thesis using inv by (simp add: client_fail_def)
next
  case None
  define c' where "c' = c\<lparr>client_err := Some e, pending := [], events := stream_close (events c),
    pendingDone := True, calls := (\<lambda>i. if i \<in> set (pending c)
      then map_option (\<lambda>call. finished lost_result (Some e) (end_receive call)) (calls c i) else calls c i)\<rparr>"
  have "session_inv c'" using inv
    by (auto simp: c'_def session_inv_def client_inv_def once_inv_def split: if_splits)
  moreover have "extends c c'"
    using inv by (fastforce simp: c'_def session_inv_def client_inv_def extends_def)
  ultimately show ?thesis using client_fail_eq [OF inv None, of e] by (auto simp: c'_def)
qed

lemma call_cancel_step: "session_inv c \<Longrightarrow> session_inv (call_cancel i c) \<and> extends c (call_cancel i c)"
  by (auto simp: call_cancel_def session_inv_def client_inv_def once_inv_def once_ok_def extends_def split: option.splits)

lemma takeSendSequence_keeps: "takeSendSequence isEnd call = (r, call') \<Longrightarrow>
    terminal call' = terminal call \<and> (once_ok call' \<longleftrightarrow> once_ok call)"
  by (auto simp: takeSendSequence_def Let_def once_ok_def split: if_splits sum.splits prod.splits)

lemma failing_step:
  assumes "\<exists>c'. snd r = Done c' \<and> session_inv c' \<and> extends c c'"
  shows "\<exists>c'. fst (failing r) = Done c' \<and> session_inv c' \<and> extends c c'"
proof -
  obtain err c1 where r: "r = (err, Done c1)" and c1: "session_inv c1" "extends c c1"
    using assms by (cases r) auto
  show ?thesis
  proof (cases err)
    case None
    then show ?thesis using r c1 by (simp add: failing_def)
  next
    case (Some e)
    then show ?thesis
      using r c1 client_fail_step [OF c1(1), of e] extends_trans by (auto simp: failing_def)
  qed
qed

lemma receiveLifecycle_step:
  "session_inv c \<Longrightarrow> session_inv (snd (receiveLifecycle snap c)) \<and> extends c (snd (receiveLifecycle snap c))"
  by (auto simp: receiveLifecycle_def session_inv_def client_inv_def once_inv_def extends_def split: option.splits)

lemma events_step: "session_inv c \<Longrightarrow> session_inv (c\<lparr>events := b\<rparr>) \<and> extends c (c\<lparr>events := b\<rparr>)"
  by (simp add: session_inv_def client_inv_def once_inv_def extends_def)

lemma client_readLoop_frame_step:
  assumes inv: "session_inv c"
  shows "\<exists>c'. fst (client_readLoop_frame resp snap ackErr f c) = Done c' \<and> session_inv c' \<and> extends c c'"
proof -
  have resp: "\<exists>c'. fst (failing (client_receiveResponse resp ackErr f c)) = Done c' \<and> session_inv c' \<and> extends c c'"
    by (rule failing_step) (metis client_receiveResponse_step [OF inv] prod.collapse)
  have strm: "\<exists>c'. fst (failing (apsnd Done (client_receiveStream f c))) = Done c' \<and> session_inv c' \<and> extends c c'"
    by (rule failing_step) (metis client_receiveStream_step [OF inv] prod.collapse snd_apsnd)
  have life: "\<exists>c'. fst (failing (apsnd Done (receiveLifecycle snap c))) = Done c' \<and> session_inv c' \<and> extends c c'"
    by (rule failing_step) (use receiveLifecycle_step [OF inv] in simp)
  have other: "session_inv (c\<lparr>goAway := True\<rparr>) \<and> extends c (c\<lparr>goAway := True\<rparr>)"
    using inv by (simp add: session_inv_def client_inv_def once_inv_def extends_def)
  show ?thesis
    using resp strm life other inv client_fail_step [OF inv] events_step [OF inv]
    by (simp add: client_readLoop_frame_def stream_offer_def)
qed

text \<open>
  Every operation of the session, with whatever the transport answers. \<open>None\<close> is a panic. A
  session whose id counter would wrap opens no further call in this relation.
\<close>

definition returned :: "Client step_result \<Rightarrow> Client option" where
  "returned out = (case out of Done c \<Rightarrow> Some c | Panic \<Rightarrow> None)"

inductive client_step :: "Client \<Rightarrow> Client option \<Rightarrow> bool" where
  open_step: "nextID c < nextID c + 1 \<Longrightarrow> open_call send oper payload e st d c = (res, out) \<Longrightarrow>
    client_step c (returned out)"
| read_step: "client_readLoop_frame resp snap ackErr f c = (out, go) \<Longrightarrow> client_step c (returned out)"
| fail_step: "client_step c (returned (client_fail e c))"
| abort_step: "client_step c (returned (client_abort cause c))"
| cancel_step: "client_step c (Some (call_cancel i c))"
| send_step: "calls c i = Some call \<Longrightarrow> takeSendSequence isEnd call = (res, call') \<Longrightarrow>
    client_step c (Some (set_call i call' c))"
| begin_close_step: "client_step c (Some (begin_close c))"
| finish_close_step: "client_step c (returned (finish_close parentErr c))"
| writer_step: "client_step c (Some (snd (closeWriter c)))"

inductive client_run :: "Client \<Rightarrow> Client option \<Rightarrow> bool" where
  crun_nil: "client_run c (Some c)"
| crun_step: "client_run c (Some c') \<Longrightarrow> client_step c' r \<Longrightarrow> client_run c r"

lemma client_step_ok:
  assumes "client_step c r" "session_inv c"
  shows "\<exists>c'. r = Some c' \<and> session_inv c' \<and> extends c c'"
  using assms
proof (induction rule: client_step.induct)
  case (open_step c send oper payload e st d res out)
  then show ?case using open_call_step [of c send oper payload e st d res out] by (auto simp: returned_def)
next
  case (read_step resp snap ackErr f c out go)
  then show ?case using client_readLoop_frame_step [of c resp snap ackErr f] by (auto simp: returned_def)
next
  case (fail_step c e)
  then show ?case using client_fail_step [of c e] by (auto simp: returned_def)
next
  case (abort_step c cause)
  obtain e where e: "client_abort cause c = client_fail e c" by (auto simp: client_abort_def)
  then show ?case using client_fail_step [OF abort_step, of e] by (auto simp: returned_def)
next
  case (send_step c i call isEnd res call')
  have "terminal call' = terminal call \<and> (once_ok call' \<longleftrightarrow> once_ok call)"
    using send_step(2) takeSendSequence_keeps by blast
  moreover have "once_ok call" "terminal call = None" if "i \<in> set (pending c)"
    using send_step(1,3) that by (auto simp: session_inv_def client_inv_def once_inv_def)
  moreover have "once_ok call" using send_step(1,3) by (auto simp: session_inv_def once_inv_def)
  ultimately show ?case
    using set_call_step [OF send_step(3,1), of call'] by simp
next
  case (cancel_step c i)
  then show ?case using call_cancel_step by blast
next
  case (finish_close_step c parentErr)
  have "session_inv (c\<lparr>goAwayStarted := True\<rparr>)" using finish_close_step by (simp add: session_inv_def client_inv_def once_inv_def)
  then have "\<exists>c'. client_fail [IoEOF] (c\<lparr>goAwayStarted := True\<rparr>) = Done c' \<and> session_inv c' \<and> extends c c'"
    using client_fail_step by (fastforce simp: extends_def)
  then show ?case
    using client_fail_step [OF finish_close_step, of "the parentErr"]
    by (cases parentErr) (auto simp: finish_close_def returned_def)
qed (simp_all add: session_inv_def client_inv_def once_inv_def extends_def begin_close_def closeWriter_def)

lemma client_run_ok:
  "client_run c r \<Longrightarrow> session_inv c \<Longrightarrow> \<exists>c'. r = Some c' \<and> session_inv c' \<and> extends c c'"
proof (induction rule: client_run.induct)
  case (crun_step c c' r)
  then show ?case using client_step_ok extends_trans by fastforce
qed simp


subsection \<open>Response streams\<close>

lemma stream_frames_total:
  "taken q + length ps \<le> 2 ^ 32 \<Longrightarrow> \<exists>fs. stream_frames i q ps = Inr fs \<and> length fs = length ps"
proof (induction ps arbitrary: q)
  case Nil
  then show ?case by simp
next
  case (Cons p ps)
  obtain r q' where t: "seq_take q = (r, q')" by fastforce
  with Cons.prems obtain n where n: "r = Inr n"
    using seq_take_Inl [of q] by (cases r) auto
  have "taken q' + length ps \<le> 2 ^ 32" using Cons.prems seq_take_Inr(2) [of q n q'] t n by simp
  then obtain fs where "stream_frames i q' ps = Inr fs \<and> length fs = length ps" using Cons.IH by blast
  then show ?case using t n by simp
qed

text \<open>A call that is still receiving a response stream.\<close>

definition receiving :: "u64 \<Rightarrow> Client \<Rightarrow> ClientCall \<Rightarrow> bool" where
  "receiving i c call \<longleftrightarrow> pending_call i c = Some call \<and> responseStream call \<and> \<not> receiveEnded call
    \<and> \<not> stream_closed (call_inbound call)"

definition chunks_from :: "nat \<Rightarrow> bytes list \<Rightarrow> Chunk list" where
  "chunks_from n ps = map (\<lambda>(k, p). \<lparr> ch_Sequence = of_nat k, ch_Payload = p, ch_End = False \<rparr>)
     (zip [n..<n + length ps] ps)"

lemma chunks_from_Cons:
  "chunks_from n (p # ps) = \<lparr> ch_Sequence = of_nat n, ch_Payload = p, ch_End = False \<rparr> # chunks_from (Suc n) ps"
proof -
  have "[n..<n + length (p # ps)] = n # [Suc n..<Suc n + length ps]"
    using upt_conv_Cons [of n "n + length (p # ps)"] by (simp del: upt_Suc)
  then show ?thesis by (simp add: chunks_from_def del: upt_Suc)
qed

lemma client_streams_deliver:
  assumes "stream_frames i q ps = Inr fs" "receiving i c call" "receiveSequence call = q"
  shows "\<exists>c' call'. client_streams fs c = (None, c') \<and> receiving i c' call'
    \<and> stream_values (call_inbound call') = stream_values (call_inbound call) @ chunks_from (taken q) ps"
  using assms
proof (induction ps arbitrary: q fs c call)
  case Nil
  then show ?case by (auto simp: chunks_from_def)
next
  case (Cons p ps)
  obtain n q' fs' where t: "seq_take q = (Inr n, q')" and fs': "stream_frames i q' ps = Inr fs'"
    and fs: "fs = \<lparr> Kind = FrameStream, Flags = 0, ID = i, Sequence = n, DeadlineUnixMilli = 0,
                Op = [], Tenant = [], Payload = p \<rparr> # fs'"
    using Cons.prems(1) by (auto simp: bindE_Inr_iff split: prod.splits sum.splits)
  define call1 where "call1 = call\<lparr>receiveSequence := q',
    call_inbound := (call_inbound call)\<lparr>stream_values := stream_values (call_inbound call)
      @ [\<lparr> ch_Sequence = n, ch_Payload = p, ch_End = False \<rparr>]\<rparr>\<rparr>"
  have step: "client_receiveStream (hd fs) c = (None, set_call i call1 c)"
    using Cons.prems(2,3) t
    by (simp add: fs client_receiveStream_def stream_admit_def stream_deliver_def receiving_def Let_def
        stream_offer_def call1_def)
  have r1: "receiving i (set_call i call1 c) call1"
    using Cons.prems(2) by (auto simp: receiving_def pending_call_def set_call_def call1_def split: if_splits)
  obtain c' call' where ih: "client_streams fs' (set_call i call1 c) = (None, c')" "receiving i c' call'"
      "stream_values (call_inbound call') = stream_values (call_inbound call1) @ chunks_from (taken q') ps"
    using Cons.IH [OF fs' r1] by (auto simp: call1_def)
  have "n = of_nat (taken q)" using seq_take_Inr(1) [OF t] by (metis of_nat_unat ucast_id)
  then show ?case
    using ih step seq_take_Inr(2) [OF t] fs by (auto simp: chunks_from_Cons call1_def)
qed

subsection \<open>Properties\<close>

definition fresh_client :: Client where
  "fresh_client = NewClient_state [] \<lparr> ps_Sequence = 0, ps_Phase = PhaseReady \<rparr>"

definition one_call :: Client where
  "one_call = fresh_client\<lparr>nextID := 1, pendingDone := False, pending := [1],
     calls := [1 \<mapsto> new_call True True]\<rparr>"

lemma one_call_open:
  "open_call (\<lambda>_. (frameCommitted, None)) ''ping'' [] True True 0 fresh_client = (Inr 1, Done one_call)"
  by (simp add: open_defs fresh_client_def NewClient_state_def one_call_def)

lemma one_call_run: "client_run fresh_client (Some one_call)"
  using crun_step [OF crun_nil, of fresh_client "returned (Done one_call)"]
    open_step [OF _ one_call_open]
  by (simp add: returned_def fresh_client_def NewClient_state_def)

definition ok_response :: Response where
  "ok_response = \<lparr> Rejected = False, Ack = False, Code = no_code, Reason = None, Err = None,
     RespPayload = Some [] \<rparr>"

definition response_example :: Frame where
  "response_example = \<lparr> Kind = FrameResponse, Flags = FlagEnd, ID = 1, Sequence = 0,
     DeadlineUnixMilli = 0, Op = [], Tenant = [], Payload = [] \<rparr>"

text \<open>
  C12: a broken session leaves no caller waiting. The first failure of a reachable session settles
  every pending call with that error and the non-replayable outcome \<open>PostSendFailure\<close>, leaves
  nothing pending, and every later call is refused before a frame is sent.
\<close>

theorem session_failure_settles_all:
  assumes "client_run (NewClient_state sess ph) (Some c)" and "client_err c = None"
  shows "\<exists>c'. client_fail e c = Done c' \<and> pending c' = [] \<and> pendingDone c'
    \<and> (\<forall>i\<in>set (pending c). \<exists>call'. calls c' i = Some call' \<and> stream_closed (call_inbound call')
         \<and> terminal call' = Some (\<lparr> res_Outcome = PostSendFailure, res_Response = None \<rparr>, Some e))
    \<and> (oper \<noteq> [] \<longrightarrow> (\<exists>err c''. pending c'' = []
         \<and> open_call send oper payload en st d c' = (Inl (PreSendFailure, err), Done c'')))"
proof -
  have inv: "session_inv c" using client_run_ok [OF assms(1) NewClient_inv] by simp
  define c' where "c' = c\<lparr>client_err := Some e, pending := [], events := stream_close (events c),
    pendingDone := True, calls := (\<lambda>i. if i \<in> set (pending c)
      then map_option (\<lambda>call. finished lost_result (Some e) (end_receive call)) (calls c i) else calls c i)\<rparr>"
  have c': "client_fail e c = Done c'" using client_fail_eq [OF inv assms(2)] by (simp add: c'_def)
  have "\<exists>call'. calls c' i = Some call' \<and> stream_closed (call_inbound call')
      \<and> terminal call' = Some (\<lparr> res_Outcome = PostSendFailure, res_Response = None \<rparr>, Some e)"
    if i: "i \<in> set (pending c)" for i
  proof -
    obtain call where "calls c i = Some call" using inv i by (auto simp: session_inv_def client_inv_def)
    then show ?thesis using i by (simp add: c'_def lost_result_def)
  qed
  then show ?thesis
    using c' by (auto simp: open_defs c'_def)
qed

theorem session_failure_settles_all_witness:
  "\<exists>c' call'. client_fail [NetClosed] one_call = Done c' \<and> calls c' 1 = Some call'
     \<and> terminal call' = Some (\<lparr> res_Outcome = PostSendFailure, res_Response = None \<rparr>, Some [NetClosed])"
  using session_failure_settles_all [OF one_call_run [unfolded fresh_client_def], of "[NetClosed]"
      "''ping''" "\<lambda>_. (frameCommitted, None)" "[]" True True 0]
  by (auto simp: one_call_def fresh_client_def NewClient_state_def)

lemma open_truthful:
  assumes "writeLoop_turn cdc as ctxErr (request_frame (nextID c + 1) oper payload en d) = (st, err, alive, w)"
    and "open_call (\<lambda>_. (st, err)) oper payload en strm d c = (Inl (oc, e), out)"
    and "oper \<noteq> []" and "\<not> closing c" and "client_err c = None"
  shows "(Replayable oc \<longrightarrow> w = [])
    \<and> (oc = DeliveryUnknown \<longrightarrow> (\<exists>packet. w \<noteq> [] \<and> length w < length packet \<and> take (length w) packet = w
        \<and> frame_packet cdc (request_frame (nextID c + 1) oper payload en d) = Inr packet))
    \<and> (oc = PostSendFailure \<longrightarrow> frame_packet cdc (request_frame (nextID c + 1) oper payload en d) = Inr w)"
proof -
  define f where "f = request_frame (nextID c + 1) oper payload en d"
  have oc: "oc = (case st of frameDeliveryUnknown \<Rightarrow> DeliveryUnknown | frameCommitted \<Rightarrow> PostSendFailure
      | frameNotSent \<Rightarrow> PreSendFailure)"
    using assms(2-5) by (auto simp: open_defs split: option.splits frameSendState.splits)
  show ?thesis
  proof (cases ctxErr)
    case (Some x)
    then show ?thesis using assms(1) oc by (simp add: writeLoop_turn_def)
  next
    case None
    show ?thesis
    proof (cases "frame_packet cdc f")
      case (Inl x)
      then show ?thesis
        using assms(1) oc None by (auto simp: writeLoop_turn_def writeFrame_def Let_def f_def Replayable_def)
    next
      case (Inr packet)
      obtain o1 e1 where o1: "writeFull as packet = (o1, e1)" by fastforce
      obtain missing where m: "packet = o1 @ missing" "e1 = None \<longrightarrow> missing = []"
        using writeFull_prefix [OF o1] by blast
      show ?thesis
        using assms(1) oc None Inr o1 m
        by (cases e1) (auto simp: writeLoop_turn_def writeFrame_def Let_def f_def [symmetric] Replayable_def
            split: if_splits)
    qed
  qed
qed

text \<open>
  What can become of a request frame: the write loop takes it and the codec reports on it, or it is still queued when
  the writer stops and \<open>closeWriter\<close> answers it in the session state \<open>cw\<close>, or the caller's context or the session ends
  before it is queued. \<open>open_sent\<close> is an open with the bytes of its frame that reached the connection; \<open>cs\<close> is the
  session when the frame is sent, which other goroutines may have changed since the call was admitted.
\<close>

datatype send_fate =
    TakenByWriter "write_answer list" "goerr option"
  | LeftInQueue Client
  | CallerLeft goerr
  | SessionLeft

fun fate_select :: "Codec \<Rightarrow> send_fate \<Rightarrow> Frame \<Rightarrow> send_select \<times> bytes" where
  "fate_select cdc (TakenByWriter as ctxErr) f =
    (case writeLoop_turn cdc as ctxErr f of (st, err, alive, w) \<Rightarrow> (Enqueued (st, err), w))"
| "fate_select cdc (LeftInQueue cw) f = (Enqueued (fst (closeWriter cw)), [])"
| "fate_select cdc (CallerLeft e) f = (CallerDone e, [])"
| "fate_select cdc SessionLeft f = (SessionDone, [])"

definition sent_bytes :: "Codec \<Rightarrow> send_fate \<Rightarrow> Client \<Rightarrow> Frame \<Rightarrow> bytes" where
  "sent_bytes cdc fate cs f = (if writerClosed cs \<or> goAwayStarted cs then [] else snd (fate_select cdc fate f))"

definition open_sent :: "Codec \<Rightarrow> send_fate \<Rightarrow> Client \<Rightarrow> string \<Rightarrow> bytes \<Rightarrow> bool \<Rightarrow> bool \<Rightarrow> i64 \<Rightarrow> Client
    \<Rightarrow> (((Outcome \<times> goerr) + u64) \<times> Client step_result) \<times> bytes" where
  "open_sent cdc fate cs oper payload en strm d c =
    (open_call (\<lambda>f. sendFrameState (fst (fate_select cdc fate f)) False cs) oper payload en strm d c,
     if oper = [] \<or> fst (open_add (nextID c + 1) en strm c) \<noteq> None then []
     else sent_bytes cdc fate cs (request_frame (nextID c + 1) oper payload en d))"

text \<open>
  C9: the outcome a failed open reports is the truth about the wire, whatever became of its frame. A replayable outcome
  means that no byte of the request reached the connection; \<open>DeliveryUnknown\<close> that some but not all of its packet did, or
  that the frame was still queued when the writer stopped, and then no byte of it did; \<open>PostSendFailure\<close> that the whole
  packet did.
\<close>

theorem open_outcome_truthful:
  assumes "open_sent cdc fate cs oper payload en strm d c = ((Inl (oc, e), out), w)"
  shows "(Replayable oc \<longrightarrow> w = [])
    \<and> (oc = DeliveryUnknown \<longrightarrow> (\<exists>packet. w \<noteq> [] \<and> length w < length packet \<and> take (length w) packet = w
          \<and> frame_packet cdc (request_frame (nextID c + 1) oper payload en d) = Inr packet)
        \<or> (\<exists>cw. fate = LeftInQueue cw \<and> w = []))
    \<and> (oc = PostSendFailure \<longrightarrow> frame_packet cdc (request_frame (nextID c + 1) oper payload en d) = Inr w)
    \<and> oc \<noteq> Delivered"
proof -
  define f where "f = request_frame (nextID c + 1) oper payload en d"
  define send where "send = (\<lambda>f. sendFrameState (fst (fate_select cdc fate f)) False cs)"
  have o: "open_call send oper payload en strm d c = (Inl (oc, e), out)"
    and w: "w = (if oper = [] \<or> fst (open_add (nextID c + 1) en strm c) \<noteq> None then [] else sent_bytes cdc fate cs f)"
    using assms by (auto simp: open_sent_def send_def f_def)
  show ?thesis
  proof (cases "oper \<noteq> [] \<and> \<not> closing c \<and> client_err c = None \<and> \<not> writerClosed cs \<and> \<not> goAwayStarted cs")
    case False
    have "oc = PreSendFailure \<and> w = []"
      using False o unfolding w
      by (auto simp: open_defs send_def sendFrameState_def sent_bytes_def split: option.splits if_splits)
    then show ?thesis by (simp add: Replayable_def)
  next
    case True
    then have w': "w = snd (fate_select cdc fate f)"
      unfolding w by (auto simp: open_add_def addPending_def sent_bytes_def)
    show ?thesis
    proof (cases fate)
      case (TakenByWriter as ctxErr)
      obtain st err alive w0 where t: "writeLoop_turn cdc as ctxErr f = (st, err, alive, w0)" by (metis prod_cases4)
      have "send f = (st, err)" using TakenByWriter t True by (simp add: send_def sendFrameState_def)
      then have o': "open_call (\<lambda>_. (st, err)) oper payload en strm d c = (Inl (oc, e), out)"
        using o by (auto simp: open_call_def open_alloc_def f_def split: if_splits prod.splits option.splits)
      have "oc \<noteq> Delivered"
        using o' by (auto simp: open_defs split: if_splits option.splits frameSendState.splits)
      then show ?thesis
        using open_truthful [OF t [unfolded f_def] o'] True w' TakenByWriter t by (simp add: f_def)
    next
      case (LeftInQueue cw)
      then have "w = []" "oc = DeliveryUnknown"
        using True w' o by (auto simp: open_defs send_def sendFrameState_def closeWriter_def split: option.splits)
      then show ?thesis using LeftInQueue by (simp add: Replayable_def)
    next
      case (CallerLeft x)
      then have "w = []" "oc = PreSendFailure"
        using True w' o by (auto simp: open_defs send_def sendFrameState_def split: option.splits)
      then show ?thesis by (simp add: Replayable_def)
    next
      case SessionLeft
      then have "w = []" "oc = PreSendFailure"
        using True w' o by (auto simp: open_defs send_def sendFrameState_def split: option.splits)
      then show ?thesis by (simp add: Replayable_def)
    qed
  qed
qed

definition request_packet :: bytes where
  "request_packet = [0, 0, 0, 36] @ frameMagic @ [0, 3, 3, 1] @ [0, 0, 0, 0, 0, 0, 0, 1, 0, 0, 0, 0, 0, 0, 0, 0,
     0, 0, 0, 0, 0, 4, 0, 0] @ [112, 105, 110, 103]"

lemma request_packet_eq: "frame_packet NewCodec (request_frame 1 ''ping'' [] True 0) = Inr request_packet"
  by (simp add: packet_eval request_frame_def request_packet_def char_byte_def)

theorem open_outcome_truthful_witness:
  "fst (fst (open_sent NewCodec (TakenByWriter [(10, True)] None) fresh_client ''ping'' [] True True 0 fresh_client))
     = Inl (DeliveryUnknown, [])
   \<and> frame_packet NewCodec (request_frame 1 ''ping'' [] True 0) = Inr request_packet
   \<and> take 10 request_packet \<noteq> [] \<and> length (take 10 request_packet) < length request_packet
   \<and> fst (fst (open_sent NewCodec (LeftInQueue (fresh_client\<lparr>client_err := Some [NetClosed]\<rparr>)) fresh_client
        ''ping'' [] True True 0 fresh_client)) = Inl (DeliveryUnknown, [NetClosed])"
proof -
  have t: "writeLoop_turn NewCodec [(10, True)] None (request_frame 1 ''ping'' [] True 0)
    = (frameDeliveryUnknown, Some [], False, take 10 request_packet)"
    by (simp add: writeLoop_turn_def writeFrame_def request_packet_eq Let_def) (simp add: request_packet_def)
  have o: "open_sent NewCodec (TakenByWriter [(10, True)] None) fresh_client ''ping'' [] True True 0 fresh_client
      = ((Inl (DeliveryUnknown, []), Done (fresh_client\<lparr>nextID := 1, pendingDone := True,
          calls := [1 \<mapsto> new_call True True]\<rparr>)), take 10 request_packet)"
    by (simp add: open_sent_def open_defs removePending_def fresh_client_def NewClient_state_def t
        sendFrameState_def sent_bytes_def)
  have q: "fst (fst (open_sent NewCodec (LeftInQueue (fresh_client\<lparr>client_err := Some [NetClosed]\<rparr>)) fresh_client
        ''ping'' [] True True 0 fresh_client)) = Inl (DeliveryUnknown, [NetClosed])"
    by (simp add: open_sent_def open_defs removePending_def fresh_client_def NewClient_state_def
        sendFrameState_def closeWriter_def sessionErr_def)
  show ?thesis
    using o q open_outcome_truthful [OF o] request_packet_eq
    by (auto simp: fresh_client_def NewClient_state_def)
qed

text \<open>
  Response streams arrive whole and in order. The server numbers the chunks of a stream from
  zero; the client delivers them to the caller in that order with those numbers, none lost,
  duplicated or reordered. The server can number exactly the streams of at most \<open>2 ^ 32\<close> chunks.
\<close>

lemma response_stream_delivered:
  assumes "receiving i c call" and "receiveSequence call = zeroSequence" and "length ps \<le> 2 ^ 32"
  shows "\<exists>fs c' call'. stream_frames i zeroSequence ps = Inr fs \<and> client_streams fs c = (None, c')
    \<and> receiving i c' call'
    \<and> map ch_Payload (stream_values (call_inbound call'))
        = map ch_Payload (stream_values (call_inbound call)) @ ps
    \<and> map ch_Sequence (stream_values (call_inbound call'))
        = map ch_Sequence (stream_values (call_inbound call)) @ map of_nat [0..<length ps]"
proof -
  obtain fs where fs: "stream_frames i zeroSequence ps = Inr fs"
    using stream_frames_total [of zeroSequence ps i] assms(3) by auto
  from client_streams_deliver [OF fs assms(1,2)]
  obtain c' call' where "client_streams fs c = (None, c')" "receiving i c' call'"
    "stream_values (call_inbound call') = stream_values (call_inbound call) @ chunks_from 0 ps" by auto
  moreover have "map ch_Payload (chunks_from 0 ps) = ps" "map ch_Sequence (chunks_from 0 ps) = map of_nat [0..<length ps]"
    by (auto simp: chunks_from_def intro: nth_equalityI)
  ultimately show ?thesis using fs by auto
qed

text \<open>
  C13: one call whose caller's context ended before its frame was written wedges the session. The call
  fails as replayable and the session stays up, but its id is spent: the server's watermark never
  passes it, so every request numbered more than \<open>2 * concurrency\<close> above it is answered
  \<open>queue at capacity\<close>, with no request active and for as long as the session lives.
\<close>

theorem expired_call_wedges_session:
  assumes "sess_run conc (new_session cur leg gen) ls s" and "watermark s = nextID c"
    and "sess_run conc s ls' s'" and "\<forall>g. Received g \<in> set ls' \<longrightarrow> ID g \<noteq> nextID c + 1"
    and "oper \<noteq> []" and "\<not> closing c" and "client_err c = None" and "client_inv c"
    and "writeLoop_turn cdc as (Some [Canceled]) (request_frame (nextID c + 1) oper payload en d) = (st, err, alive, w)"
    and "unat (nextID c) + 2 * conc < unat (ID f)"
    and "Op f \<noteq> []" and "Op f \<noteq> brokerHandoffOp" and "Sequence f = 0"
  shows "alive \<and> w = []
    \<and> (\<exists>c'. open_call (\<lambda>_. (st, err)) oper payload en strm d c = (Inl (PreSendFailure, [Canceled]), Done c')
        \<and> nextID c' = nextID c + 1 \<and> client_err c' = None)
    \<and> receiveRequest conc wr f None s' = (wr, s', [sendRejected (ID f) [ErrQueueFull]])"
proof -
  have turn: "st = frameNotSent" "err = Some [Canceled]" "alive" "w = []"
    using assms(9) by (auto simp: writeLoop_turn_def errors_Is_def)
  have "pendingDone c \<longleftrightarrow> pending c = []" using assms(8) by (simp add: client_inv_def)
  then have "\<exists>c'. open_call (\<lambda>_. (st, err)) oper payload en strm d c = (Inl (PreSendFailure, [Canceled]), Done c')
        \<and> nextID c' = nextID c + 1 \<and> client_err c' = None"
    using assms(5-7) turn by (auto simp: open_defs removePending_def Let_def)
  moreover have "receiveRequest conc wr f None s' = (wr, s', [sendRejected (ID f) [ErrQueueFull]])"
    by (rule id_gap_rejects [OF assms(1,3) _ _ assms(11-13)]) (use assms(2,4,10) in simp_all)
  ultimately show ?thesis using turn by blast
qed

theorem expired_call_wedges_session_witness:
  "active drained = [] \<and> receiveRequest 2 None (request_example 6 ''ping'') None drained
     = (None, drained, [sendRejected 6 [ErrQueueFull]])"
  using expired_call_wedges_session [OF first_run _ drained_run, of one_call "''ping''" NewCodec "[]" "[]" True 0
      frameNotSent "Some [Canceled]" True "[]" "request_example 6 ''ping''" False None]
  by (simp add: request_example_def one_active_def drained_def brokerHandoffOp_def one_call_def fresh_client_def
      NewClient_state_def NewClient_inv client_inv_def new_call_def writeLoop_turn_def errors_Is_def)

end
