(* ===== verification/WireServer.thy ===== *)
theory WireServer
  imports WireClient
begin

text \<open>
  The serving side's admission, \<^verbatim>\<open>internal/wire/server.go\<close> and \<^verbatim>\<open>internal/wire/hello.go\<close>: server
  construction, the gate walks of an accepted, a handed-off and a parent-minted connection, the
  slots they draw, the drain by preamble and by verb, the phase gate; and both ends of the
  handshake.

  A gate walk is a function of the bytes the peer sends, the environment's answers
  (\<open>admit_env\<close>) and the server state at the points where the code takes the server's lock. What it
  does to the connection is a list of effects, and \<open>effect_bytes\<close> is what those put on the wire.
  The JSON encoding of the handshake payloads is the record \<open>json\<close> of encoders and decoders; a
  property that relies on it names the round trip it needs.
\<close>

subsection \<open>Handshake payloads (hello.go)\<close>

record helloIdentity =
  hi_Protocol :: u16
  hi_Schema :: string
  hi_Nonce :: bytes

record legacyHello =
  lh_Protocol :: u16
  lh_Lane :: string
  lh_Schema :: string
  lh_Nonce :: bytes

record helloAck =
  ha_Protocol :: u16
  ha_Schema :: string
  ha_Session :: bytes
  ha_Phase :: Phase
  ha_Rejected :: bool
  ha_Code :: ResponseCode
  ha_Reason :: "goerr option"

record json =
  encHello :: "helloIdentity \<Rightarrow> bytes"
  decHello :: "bytes \<Rightarrow> helloIdentity option"
  decLegacyHello :: "bytes \<Rightarrow> legacyHello option"
  encAck :: "helloAck \<Rightarrow> bytes"
  decAck :: "bytes \<Rightarrow> helloAck option"

definition Own :: "string list \<Rightarrow> string" where
  "Own s = s ! 0"

fun Accepts :: "string list \<Rightarrow> string \<Rightarrow> bool" where
  "Accepts s digest = (digest \<noteq> [] \<and> list_ex (\<lambda>accepted. accepted = digest) s)"

record WireIdentity =
  wi_Protocol :: u16
  wi_Schema :: string
  wi_Session :: bytes
  wi_Phase :: Phase

datatype handshake_error =
    HandshakeFailed goerr
  | HandshakeRejection ResponseCode "goerr option"
  | HandshakeDraining

definition legacyControlLane :: string where "legacyControlLane = ''control''"

definition readLegacyHello :: "json \<Rightarrow> bytes \<Rightarrow> goerr + helloIdentity" where
  "readLegacyHello j payload =
    (case decLegacyHello j payload of
       None \<Rightarrow> Inl [ErrHandshake]
     | Some hello \<Rightarrow>
         if lh_Protocol hello \<noteq> legacyProtocolVersion \<or> lh_Lane hello \<noteq> legacyControlLane
         then Inl [ProtocolMismatch]
         else Inr \<lparr> hi_Protocol = ProtocolVersion, hi_Schema = [], hi_Nonce = lh_Nonce hello \<rparr>)"

definition readClientHello ::
  "json \<Rightarrow> Codec \<Rightarrow> bytes \<Rightarrow> (goerr + helloIdentity) \<times> Codec \<times> bytes" where
  "readClientHello j c input =
    (case ReadFrame c input of
       (Inl e, c', rest) \<Rightarrow> (Inl (ErrHandshake # goerr_of_wire e), c', rest)
     | (Inr f, c', rest) \<Rightarrow>
         if Kind f \<noteq> FrameHello then (Inl [ErrHandshake], c', rest)
         else if legacy c' then (readLegacyHello j (Payload f), c', rest)
         else (case decHello j (Payload f) of
             None \<Rightarrow> Inl [ErrHandshake]
           | Some hello \<Rightarrow>
               if hi_Protocol hello \<noteq> ProtocolVersion then Inl [ProtocolMismatch] else Inr hello, c', rest))"

definition handshake_frame :: "FrameKind \<Rightarrow> bytes \<Rightarrow> Frame" where
  "handshake_frame k payload = \<lparr> Kind = k, Flags = FlagEnd, ID = 0, Sequence = 0, DeadlineUnixMilli = 0,
     Op = [], Tenant = [], Payload = payload \<rparr>"

text \<open>
  The client's judgement of an acknowledgement, the part of \<open>clientHandshake\<close> after it is decoded.
\<close>

definition judge_ack :: "helloAck \<Rightarrow> handshake_error + WireIdentity" where
  "judge_ack ack =
    (if ha_Protocol ack \<noteq> ProtocolVersion then Inl (HandshakeFailed [ProtocolMismatch])
     else if ha_Schema ack = [] then Inl (HandshakeFailed [ErrHandshake])
     else if ha_Rejected ack then
       if ha_Session ack \<noteq> [] \<or> ha_Code ack = no_code \<or> ha_Reason ack = None
       then Inl (HandshakeFailed [ErrHandshake])
       else if ha_Code ack \<noteq> ResponseCodeSessionCapacity \<and> ha_Code ack \<noteq> ResponseCodeHandshake
       then Inl (HandshakeFailed [ErrHandshake])
       else Inl (HandshakeRejection (ha_Code ack) (ha_Reason ack))
     else if ha_Code ack \<noteq> no_code \<or> ha_Reason ack \<noteq> None then Inl (HandshakeFailed [ErrHandshake])
     else if length (ha_Session ack) \<noteq> sessionGenerationBytes then Inl (HandshakeFailed [ErrHandshake])
     else if ha_Phase ack = PhaseOther [] then Inl (HandshakeFailed [ErrHandshake])
     else Inr \<lparr> wi_Protocol = ha_Protocol ack, wi_Schema = ha_Schema ack, wi_Session = ha_Session ack,
                wi_Phase = ha_Phase ack \<rparr>)"

text \<open>
  \<open>clientHandshake\<close>: \<open>as\<close> are the connection's answers to the write of the hello, \<open>input\<close> the
  bytes the server sends. The third component is what the hello put on the wire.
\<close>

definition clientHandshake ::
  "json \<Rightarrow> Codec \<Rightarrow> write_answer list \<Rightarrow> helloIdentity \<Rightarrow> bytes \<Rightarrow> (handshake_error + WireIdentity) \<times> bytes" where
  "clientHandshake j c as hello input =
    (let w = writeFrame c as (handshake_frame FrameHello (encHello j hello)) in
     case write_err w of
       Some e \<Rightarrow> (Inl (HandshakeFailed (ErrHandshake # goerr_of_wire e)), written w)
     | None \<Rightarrow>
         (case PeekPreamble c input of
            (Inl e, c1, rest) \<Rightarrow> Inl (HandshakeFailed (ErrHandshake # goerr_of_wire e))
          | (Inr True, c1, rest) \<Rightarrow> Inl HandshakeDraining
          | (Inr False, c1, rest) \<Rightarrow>
              (case ReadFrame c1 rest of
                 (Inl e, _) \<Rightarrow> Inl (HandshakeFailed (ErrHandshake # goerr_of_wire e))
               | (Inr f, _) \<Rightarrow>
                   if Kind f \<noteq> FrameHelloAck then Inl (HandshakeFailed [ErrHandshake])
                   else (case decAck j (Payload f) of
                           None \<Rightarrow> Inl (HandshakeFailed [ErrHandshake])
                         | Some ack \<Rightarrow> judge_ack ack)), written w))"

subsection \<open>The server (server.go)\<close>

record Server =
  srv_schemas :: "string list"
  srv_concurrency :: nat
  srv_maxFrame :: int
  pendingInUse :: nat
  sessionInUse :: nat
  lastSession :: u64
  srv_started :: bool
  intakeClosed :: bool
  srv_sessions :: "u64 list"
  rt_phase :: PhaseSnapshot

definition defaultConcurrency :: nat where "defaultConcurrency = 8"

text \<open>\<open>NewServer\<close>: \<open>None\<close> is a refused configuration. The runtime's phase comes with the runtime.\<close>

definition NewServer :: "PhaseSnapshot option \<Rightarrow> string list \<Rightarrow> int \<Rightarrow> int \<Rightarrow> Server option" where
  "NewServer rt schemas concurrency maxFrame =
    (case rt of
       None \<Rightarrow> None
     | Some ph \<Rightarrow>
         if schemas = [] \<or> Own schemas = [] then None
         else if maxFrame > maxFrameCeiling then None
         else Some \<lparr> srv_schemas = schemas,
                srv_concurrency = (if concurrency \<le> 0 then defaultConcurrency else nat concurrency),
                srv_maxFrame = (if maxFrame > 0 then maxFrame else DefaultMaxFrame),
                pendingInUse = 0, sessionInUse = 0, lastSession = 0, srv_started = False,
                intakeClosed = False, srv_sessions = [], rt_phase = ph \<rparr>)"

definition pending_cap :: "Server \<Rightarrow> nat" where
  "pending_cap s = 2 * srv_concurrency s + 2"

definition draining :: "Server \<Rightarrow> bool" where
  "draining s \<longleftrightarrow> intakeClosed s \<or> ps_Phase (rt_phase s) = PhaseDraining"

definition gatePhase :: "Server \<Rightarrow> goerr option" where
  "gatePhase s =
    (if intakeClosed s then Some [ErrDraining]
     else case ps_Phase (rt_phase s) of
       PhaseReady \<Rightarrow> None
     | PhaseStarting \<Rightarrow> Some [ErrNotReady]
     | _ \<Rightarrow> Some [ErrDraining])"

definition acquirePending :: "Server \<Rightarrow> Server option" where
  "acquirePending s = (if pendingInUse s < pending_cap s then Some (s\<lparr>pendingInUse := Suc (pendingInUse s)\<rparr>) else None)"

definition releasePending :: "Server \<Rightarrow> Server" where
  "releasePending s = s\<lparr>pendingInUse := pendingInUse s - 1\<rparr>"

definition acquireSlot :: "Server \<Rightarrow> Server option" where
  "acquireSlot s = (if sessionInUse s < srv_concurrency s then Some (s\<lparr>sessionInUse := Suc (sessionInUse s)\<rparr>) else None)"

definition releaseSlot :: "Server \<Rightarrow> Server" where
  "releaseSlot s = s\<lparr>sessionInUse := sessionInUse s - 1\<rparr>"

subsection \<open>Gate walks\<close>

text \<open>What happens to one connection.\<close>

datatype conn_effect =
    AckWritten helloAck
  | PreambleWritten
  | ConnClosed
  | RuntimeDrain
  | SessionServed session string

text \<open>
  The environment's answers in one walk: the errors of the two \<open>SetDeadline\<close> calls, of reading the
  peer's credentials, of drawing the generation, of writing the acknowledgement and of clearing the
  deadline; the generation drawn; and the error of waiting for the drained phase.
\<close>

record admit_env =
  deadlineErr :: "goerr option"
  deadlineErr2 :: "goerr option"
  peerErr :: "goerr option"
  randErr :: "goerr option"
  ackErr :: "goerr option"
  clearErr :: "goerr option"
  generation_drawn :: bytes

definition reject_ack :: "Server \<Rightarrow> ResponseCode \<Rightarrow> goerr \<Rightarrow> helloAck" where
  "reject_ack s code cause = \<lparr> ha_Protocol = ProtocolVersion, ha_Schema = Own (srv_schemas s), ha_Session = [],
     ha_Phase = ps_Phase (rt_phase s), ha_Rejected = True, ha_Code = code, ha_Reason = Some cause \<rparr>"

definition rejectHandshake :: "Server \<Rightarrow> ResponseCode \<Rightarrow> goerr \<Rightarrow> conn_effect list" where
  "rejectHandshake s code cause = [AckWritten (reject_ack s code cause), ConnClosed]"

definition admit_ack :: "Server \<Rightarrow> Codec \<Rightarrow> bytes \<Rightarrow> helloAck" where
  "admit_ack s c gen = \<lparr> ha_Protocol = protocol c, ha_Schema = Own (srv_schemas s), ha_Session = gen,
     ha_Phase = ps_Phase (rt_phase s), ha_Rejected = False, ha_Code = no_code, ha_Reason = None \<rparr>"

definition admitSession ::
  "admit_env \<Rightarrow> Codec \<Rightarrow> helloIdentity \<Rightarrow> Server \<Rightarrow> goerr option \<times> conn_effect list \<times> Server" where
  "admitSession env c hello s =
    (if intakeClosed s then (Some [ErrDraining], [PreambleWritten, ConnClosed], s)
     else case acquireSlot s of
       None \<Rightarrow> (Some [ErrSessionCapacity], rejectHandshake s ResponseCodeSessionCapacity [ErrSessionCapacity], s)
     | Some s1 \<Rightarrow>
         (case randErr env of
            Some e \<Rightarrow> (Some (ErrHandshake # e), [ConnClosed], releaseSlot s1)
          | None \<Rightarrow>
         (case ackErr env of
            Some e \<Rightarrow> (Some (ErrHandshake # e), [ConnClosed], releaseSlot s1)
          | None \<Rightarrow>
         (let ack = AckWritten (admit_ack s1 c (generation_drawn env)) in
          case clearErr env of
            Some e \<Rightarrow> (Some e, [ack, ConnClosed], releaseSlot s1)
          | None \<Rightarrow>
              let i = lastSession s1 + 1;
                  sess = new_session (Accepts (srv_schemas s1) (hi_Schema hello)) (legacy c) (generation_drawn env)
              in (None, [ack, SessionServed sess (hi_Schema hello)],
                  s1\<lparr>lastSession := i, srv_sessions := i # srv_sessions s1\<rparr>)))))"

definition admitPreambleDrain :: "admit_env \<Rightarrow> goerr option \<Rightarrow> goerr option \<times> conn_effect list" where
  "admitPreambleDrain env drainErr =
    (case peerErr env of
       Some e \<Rightarrow> (Some e, [ConnClosed])
     | None \<Rightarrow> (drainErr, [RuntimeDrain, ConnClosed]))"

text \<open>
  \<open>startConnection\<close>. \<open>s0\<close> is the server state when the handshake is judged and \<open>s\<close> the state when
  \<open>admitSession\<close> takes the lock; the code lets go of it in between.
\<close>

definition startConnection ::
  "json \<Rightarrow> admit_env \<Rightarrow> goerr option \<Rightarrow> bytes \<Rightarrow> Server \<Rightarrow> Server \<Rightarrow> goerr option \<times> conn_effect list \<times> Server" where
  "startConnection j env drainErr input s0 s =
    (let c0 = NewCodec\<lparr>MaxFrame := srv_maxFrame s0, admitsLegacy := True\<rparr> in
     case deadlineErr env of
       Some e \<Rightarrow> (Some e, [ConnClosed], s)
     | None \<Rightarrow>
     (case PeekPreamble c0 input of
       (Inl e, c1, rest) \<Rightarrow> (Some (goerr_of_wire e), [ConnClosed], s)
     | (Inr True, c1, rest) \<Rightarrow> (case admitPreambleDrain env drainErr of (r, es) \<Rightarrow> (r, es, s))
     | (Inr False, c1, rest) \<Rightarrow>
     (case readClientHello j c1 rest of
       (Inl e, c2, rest') \<Rightarrow> (Some e, rejectHandshake s0 ResponseCodeHandshake e, s)
     | (Inr hello, c2, rest') \<Rightarrow>
         if hi_Nonce hello \<noteq> [] then
           (Some [ErrHandshake], rejectHandshake s0 ResponseCodeHandshake [ErrHandshake], s)
         else (case deadlineErr2 env of
           Some e \<Rightarrow> (Some e, [ConnClosed], s)
         | None \<Rightarrow>
             if draining s0 then (Some [ErrDraining], [PreambleWritten, ConnClosed], s)
             else (case peerErr env of
               Some e \<Rightarrow> (Some e, [ConnClosed], s)
             | None \<Rightarrow> admitSession env c2 hello s)))))"

definition spawnedNonceBytes :: nat where "spawnedNonceBytes = 32"

definition startMinted ::
  "json \<Rightarrow> admit_env \<Rightarrow> bytes \<Rightarrow> bytes \<Rightarrow> Server \<Rightarrow> Server \<Rightarrow> goerr option \<times> conn_effect list \<times> Server" where
  "startMinted j env nonce input s0 s =
    (let c0 = NewCodec\<lparr>MaxFrame := srv_maxFrame s0\<rparr> in
     case deadlineErr env of
       Some e \<Rightarrow> (Some e, [ConnClosed], s)
     | None \<Rightarrow>
     (case PeekPreamble c0 input of
       (Inl e, c1, rest) \<Rightarrow> (Some (goerr_of_wire e), [ConnClosed], s)
     | (Inr True, c1, rest) \<Rightarrow> (Some [ErrHandshake], [ConnClosed], s)
     | (Inr False, c1, rest) \<Rightarrow>
     (case readClientHello j c1 rest of
       (Inl e, c2, rest') \<Rightarrow> (Some e, rejectHandshake s0 ResponseCodeHandshake e, s)
     | (Inr hello, c2, rest') \<Rightarrow>
         if hi_Nonce hello \<noteq> nonce then
           (Some [ErrHandshake], rejectHandshake s0 ResponseCodeHandshake [ErrHandshake], s)
         else (case deadlineErr2 env of
           Some e \<Rightarrow> (Some e, [ConnClosed], s)
         | None \<Rightarrow>
             if draining s0 then (Some [ErrDraining], [PreambleWritten, ConnClosed], s)
             else admitSession env c2 hello s))))"

text \<open>
  \<open>AdoptHandoff\<close> and \<open>AdoptMinted\<close> draw a pending slot, walk the gates and give the slot back;
  \<open>ended\<close> is whether the serving context is over.
\<close>

definition AdoptHandoff ::
  "json \<Rightarrow> admit_env \<Rightarrow> goerr option \<Rightarrow> bool \<Rightarrow> bytes \<Rightarrow> Server \<Rightarrow> goerr option \<times> conn_effect list \<times> Server" where
  "AdoptHandoff j env drainErr ended input s =
    (if intakeClosed s \<or> \<not> srv_started s \<or> ended then (Some [ErrDraining], [ConnClosed], s)
     else case acquirePending s of
       None \<Rightarrow> (Some [ErrSessionCapacity], [ConnClosed], s)
     | Some s1 \<Rightarrow>
         (case startConnection j env drainErr input s1 s1 of (r, es, s2) \<Rightarrow> (r, es, releasePending s2)))"

definition AdoptMinted ::
  "json \<Rightarrow> admit_env \<Rightarrow> bytes \<Rightarrow> bool \<Rightarrow> bytes \<Rightarrow> Server \<Rightarrow> goerr option \<times> conn_effect list \<times> Server" where
  "AdoptMinted j env nonce ended input s =
    (if length nonce \<noteq> spawnedNonceBytes then (Some [], [ConnClosed], s)
     else if intakeClosed s \<or> \<not> srv_started s \<or> ended then (Some [ErrDraining], [ConnClosed], s)
     else case acquirePending s of
       None \<Rightarrow> (Some [ErrSessionCapacity], [ConnClosed], s)
     | Some s1 \<Rightarrow>
         (case startMinted j env nonce input s1 s1 of (r, es, s2) \<Rightarrow> (r, es, releasePending s2)))"

definition CloseIntake :: "Server \<Rightarrow> Server" where
  "CloseIntake s = s\<lparr>intakeClosed := True\<rparr>"

definition Serve_start :: "Server \<Rightarrow> goerr option \<times> Server" where
  "Serve_start s = (if srv_started s then (Some [ErrServerStarted], s) else (None, s\<lparr>srv_started := True\<rparr>))"

text \<open>
  \<open>executeDrain\<close>: after \<open>Runtime.Drain\<close> it waits for the phase stream. The list holds what each
  \<open>WaitPhase\<close> answers; \<open>None\<close> is the wait that has not been answered yet.
\<close>

fun executeDrain :: "PhaseSnapshot \<Rightarrow> (goerr + PhaseSnapshot) list \<Rightarrow> (goerr + unit) option" where
  "executeDrain snap answers =
    (if ps_Phase snap = PhaseDraining \<or> ps_Phase snap = PhaseFailed then Some (Inr ())
     else case answers of
       [] \<Rightarrow> None
     | Inl e # _ \<Rightarrow> Some (Inl e)
     | Inr snap' # rest \<Rightarrow> executeDrain snap' rest)"

text \<open>What an effect puts on the wire under a codec.\<close>

definition effect_bytes :: "json \<Rightarrow> Codec \<Rightarrow> conn_effect \<Rightarrow> bytes" where
  "effect_bytes j c e =
    (case e of
       AckWritten a \<Rightarrow>
         (case frame_packet c (handshake_frame FrameHelloAck (encAck j a)) of Inr p \<Rightarrow> p | Inl _ \<Rightarrow> [])
     | PreambleWritten \<Rightarrow> drainPreamble
     | _ \<Rightarrow> [])"

declare executeDrain.simps [simp del]

subsection \<open>Slots\<close>

text \<open>
  The contract of a counted channel used as a pool: an acquisition takes one of the free slots or
  is refused because there is none, a release gives one back.
\<close>

locale slot_pool =
  fixes in_use cap :: "'s \<Rightarrow> nat"
    and acquire :: "'s \<Rightarrow> 's option"
    and release :: "'s \<Rightarrow> 's"
  assumes acquire_Some: "acquire s = Some s' \<Longrightarrow> in_use s < cap s \<and> in_use s' = Suc (in_use s) \<and> cap s' = cap s"
    and acquire_None: "acquire s = None \<Longrightarrow> cap s \<le> in_use s"
    and release_one: "in_use (release s) = in_use s - 1 \<and> cap (release s) = cap s"
begin

lemma refused_iff_full: "acquire s = None \<longleftrightarrow> cap s \<le> in_use s"
  using acquire_Some acquire_None by (cases "acquire s") fastforce+

lemma acquire_bounded: "acquire s = Some s' \<Longrightarrow> in_use s' \<le> cap s'"
  using acquire_Some by fastforce

lemma release_bounded: "in_use s \<le> cap s \<Longrightarrow> in_use (release s) \<le> cap (release s)"
  using release_one by (metis diff_le_self le_trans)

lemma acquire_release: "acquire s = Some s' \<Longrightarrow> in_use (release s') = in_use s"
  using acquire_Some [of s s'] release_one by simp

end

interpretation pending: slot_pool pendingInUse pending_cap acquirePending releasePending
  by unfold_locales (auto simp: acquirePending_def releasePending_def pending_cap_def split: if_splits)

interpretation slots: slot_pool sessionInUse srv_concurrency acquireSlot releaseSlot
  by unfold_locales (auto simp: acquireSlot_def releaseSlot_def split: if_splits)

lemma acquireSlot_fields:
  "acquireSlot s = Some s' \<Longrightarrow> s' = s\<lparr>sessionInUse := sessionInUse s'\<rparr>"
  by (auto simp: acquireSlot_def split: if_splits)

text \<open>The three things \<open>admitSession\<close> can do to the server.\<close>

lemma admitSession_cases:
  assumes "admitSession env c hello s = (r, es, s')"
  shows "s' = s \<or> (\<exists>s1. acquireSlot s = Some s1 \<and> (s' = releaseSlot s1 \<or>
    \<not> intakeClosed s \<and> s' = s1\<lparr>lastSession := lastSession s1 + 1, srv_sessions := (lastSession s1 + 1) # srv_sessions s1\<rparr>))"
  using assms by (auto simp: admitSession_def Let_def split: if_splits option.splits)

inductive server_step :: "Server \<Rightarrow> Server \<Rightarrow> bool" where
  step_accept: "acquirePending s = Some s' \<Longrightarrow> server_step s s'"
| step_settle: "server_step s (releasePending s)"
| step_admit: "admitSession env c hello s = (r, es, s') \<Longrightarrow> server_step s s'"
| step_session_end: "server_step s (releaseSlot s)"
| step_remove: "server_step s (s\<lparr>srv_sessions := removeAll i (srv_sessions s)\<rparr>)"
| step_close_intake: "server_step s (CloseIntake s)"
| step_serve: "Serve_start s = (r, s') \<Longrightarrow> server_step s s'"
| step_phase: "server_step s (s\<lparr>rt_phase := ph\<rparr>)"

definition server_inv :: "Server \<Rightarrow> bool" where
  "server_inv s \<longleftrightarrow> pendingInUse s \<le> pending_cap s \<and> sessionInUse s \<le> srv_concurrency s"

lemma server_step_inv: "server_step s s' \<Longrightarrow> server_inv s \<Longrightarrow> server_inv s' \<and> srv_concurrency s' = srv_concurrency s"
proof (induction rule: server_step.induct)
  case (step_admit env c hello s r es s')
  from admitSession_cases [OF step_admit(1)] consider "s' = s"
    | s1 where "acquireSlot s = Some s1" "s' = releaseSlot s1"
    | s1 where "acquireSlot s = Some s1" "s' = s1\<lparr>lastSession := lastSession s1 + 1,
        srv_sessions := (lastSession s1 + 1) # srv_sessions s1\<rparr>"
    by blast
  then show ?case
  proof cases
    case 2
    then show ?thesis
      using step_admit(2) by (simp add: server_inv_def releaseSlot_def pending_cap_def acquireSlot_def split: if_splits) auto
  next
    case 3
    then show ?thesis
      using step_admit(2) by (simp add: server_inv_def pending_cap_def acquireSlot_def split: if_splits) auto
  qed (use step_admit(2) in simp)
next
  case (step_accept s s')
  then show ?case by (auto simp: server_inv_def acquirePending_def pending_cap_def split: if_splits)
qed (auto simp: server_inv_def releasePending_def releaseSlot_def CloseIntake_def Serve_start_def pending_cap_def
    split: if_splits)

lemma server_steps_inv:
  "server_step\<^sup>*\<^sup>* s s' \<Longrightarrow> server_inv s \<Longrightarrow> server_inv s' \<and> srv_concurrency s' = srv_concurrency s"
  by (induction rule: rtranclp_induct) (auto dest: server_step_inv)

lemma closed_step:
  "server_step s s' \<Longrightarrow> intakeClosed s \<Longrightarrow>
    intakeClosed s' \<and> lastSession s' = lastSession s \<and> set (srv_sessions s') \<subseteq> set (srv_sessions s)"
proof (induction rule: server_step.induct)
  case (step_admit env c hello s r es s')
  then show ?case by (auto simp: admitSession_def)
qed (auto simp: acquirePending_def releasePending_def releaseSlot_def CloseIntake_def Serve_start_def
    split: if_splits)

lemma closed_steps:
  "server_step\<^sup>*\<^sup>* s s' \<Longrightarrow> intakeClosed s \<Longrightarrow>
    intakeClosed s' \<and> lastSession s' = lastSession s \<and> set (srv_sessions s') \<subseteq> set (srv_sessions s)"
  by (induction rule: rtranclp_induct) (auto dest: closed_step)

subsection \<open>The drain wait\<close>

definition settledPhase :: "PhaseSnapshot \<Rightarrow> bool" where
  "settledPhase snap \<longleftrightarrow> ps_Phase snap = PhaseDraining \<or> ps_Phase snap = PhaseFailed"

text \<open>The wait follows the phase stream to its first settled snapshot or its first error.\<close>

lemma executeDrain_follows:
  "\<not> settledPhase snap \<Longrightarrow> \<forall>x\<in>set snaps. \<not> settledPhase x \<Longrightarrow>
    executeDrain snap (map Inr snaps @ Inl e # rest) = Some (Inl e)
    \<and> executeDrain snap (map Inr snaps) = None
    \<and> (settledPhase final \<longrightarrow> executeDrain snap (map Inr snaps @ Inr final # rest) = Some (Inr ()))"
proof (induction snaps arbitrary: snap)
  case Nil
  then show ?case by (simp add: executeDrain.simps settledPhase_def)
next
  case (Cons x xs)
  then have "executeDrain snap (Inr x # ys) = executeDrain x ys" for ys
    by (subst executeDrain.simps) (simp add: settledPhase_def)
  then show ?case using Cons by simp
qed

subsection \<open>Gate walks over bytes\<close>

text \<open>An environment in which no call fails and the generation has its size.\<close>

definition clear_env :: "admit_env \<Rightarrow> bool" where
  "clear_env env \<longleftrightarrow> deadlineErr env = None \<and> deadlineErr2 env = None \<and> peerErr env = None \<and> randErr env = None
    \<and> ackErr env = None \<and> clearErr env = None \<and> length (generation_drawn env) = sessionGenerationBytes"

definition server_codec :: "Server \<Rightarrow> Codec" where
  "server_codec s = NewCodec\<lparr>MaxFrame := srv_maxFrame s\<rparr>"

lemma server_codec_simps [simp]:
  "peeked (server_codec s) = None" "admitsLegacy (server_codec s) = False" "legacy (server_codec s) = False"
  "protocol (server_codec s) = ProtocolVersion"
  by (simp_all add: server_codec_def NewCodec_def protocol_def)

lemma hello_read:
  assumes j: "decHello j (encHello j h) = Some h" and p: "frame_packet cc (handshake_frame FrameHello (encHello j h)) = Inr packet"
    and lim: "codec_limit cc \<le> maxFrameCeiling" "codec_limit cc \<le> codec_limit r"
    and r: "peeked r = None" "admitsLegacy r \<or> \<not> legacy r" "\<not> legacy cc"
    and v: "hi_Protocol h = ProtocolVersion"
  shows "PeekPreamble r (packet @ rest) = (Inr False, r\<lparr>peeked := Some (take 2 packet)\<rparr>, drop 2 packet @ rest)"
    and "readClientHello j (r\<lparr>peeked := Some (take 2 packet)\<rparr>) (drop 2 packet @ rest)
      = (Inr h, r\<lparr>admitsLegacy := False, legacy := False\<rparr>, rest)"
proof -
  show "PeekPreamble r (packet @ rest) = (Inr False, r\<lparr>peeked := Some (take 2 packet)\<rparr>, drop 2 packet @ rest)"
    by (rule PeekPreamble_frame_packet [OF p lim(1) r(1)])
  have "ReadFrame (r\<lparr>peeked := Some (take 2 packet)\<rparr>) (drop 2 packet @ rest)
      = (Inr (handshake_frame FrameHello (encHello j h)), r\<lparr>admitsLegacy := False, legacy := legacy cc\<rparr>, rest)"
    by (rule peek_then_read [OF p lim r(1)]) (use r in auto)
  then show "readClientHello j (r\<lparr>peeked := Some (take 2 packet)\<rparr>) (drop 2 packet @ rest)
      = (Inr h, r\<lparr>admitsLegacy := False, legacy := False\<rparr>, rest)"
    using j r(3) v by (simp add: readClientHello_def handshake_frame_def )
qed

lemma startConnection_hello:
  assumes j: "decHello j (encHello j h) = Some h" and p: "frame_packet cc (handshake_frame FrameHello (encHello j h)) = Inr packet"
    and lim: "codec_limit cc \<le> maxFrameCeiling" "codec_limit cc \<le> codec_limit (server_codec s0)" "\<not> legacy cc"
    and h: "hi_Protocol h = ProtocolVersion" "hi_Nonce h = []" and env: "clear_env env"
  shows "startConnection j env dErr packet s0 s =
    (if draining s0 then (Some [ErrDraining], [PreambleWritten, ConnClosed], s)
     else admitSession env (server_codec s0) h s)"
proof -
  let ?r = "NewCodec\<lparr>MaxFrame := srv_maxFrame s0, admitsLegacy := True\<rparr>"
  have l: "codec_limit cc \<le> codec_limit ?r" "peeked ?r = None" "admitsLegacy ?r \<or> \<not> legacy ?r"
    using lim(2) by (simp_all add: codec_limit_def server_codec_def NewCodec_def split: if_splits)
  have c: "?r\<lparr>admitsLegacy := False, legacy := False\<rparr> = server_codec s0"
    by (simp add: server_codec_def NewCodec_def)
  show ?thesis
    using hello_read [OF j p lim(1) l lim(3) h(1), of "[]"] h(2) env c
    by (simp add: startConnection_def clear_env_def Let_def)
qed

lemma ack_judged:
  assumes j: "decAck j (encAck j ack) = Some ack" and a: "frame_packet sc (handshake_frame FrameHelloAck (encAck j ack)) = Inr packet"
    and lim: "codec_limit sc \<le> maxFrameCeiling" "codec_limit sc \<le> codec_limit cc"
    and c: "peeked cc = None" "\<not> legacy cc" "\<not> legacy sc"
    and w: "write_err (writeFrame cc as (handshake_frame FrameHello (encHello j h))) = None"
  shows "fst (clientHandshake j cc as h (packet @ rest)) = judge_ack ack"
proof -
  have "ReadFrame (cc\<lparr>peeked := Some (take 2 packet)\<rparr>) (drop 2 packet @ rest)
      = (Inr (handshake_frame FrameHelloAck (encAck j ack)), cc\<lparr>admitsLegacy := False, legacy := legacy sc\<rparr>, rest)"
    by (rule peek_then_read [OF a lim c(1)]) (use c in auto)
  then show ?thesis
    using PeekPreamble_frame_packet [OF a lim(1) c(1), of rest] w j
    by (simp add: clientHandshake_def Let_def handshake_frame_def )
qed

lemma preamble_judged:
  assumes "peeked cc = None" "write_err (writeFrame cc as (handshake_frame FrameHello (encHello j h))) = None"
  shows "fst (clientHandshake j cc as h (drainPreamble @ rest)) = Inl HandshakeDraining"
  using assms PeekPreamble_drain [of cc rest] by (simp add: clientHandshake_def Let_def)

lemma rejectHandshake_not_served [simp]: "SessionServed sess sch \<notin> set (rejectHandshake s code cause)"
  by (simp add: rejectHandshake_def)

lemma startMinted_served:
  assumes "startMinted j env nonce input s0 s = (r, es, s')" and "SessionServed sess sch \<in> set es"
  shows "\<exists>c1 rest hello c2 rest'. PeekPreamble (server_codec s0) input = (Inr False, c1, rest)
    \<and> readClientHello j c1 rest = (Inr hello, c2, rest') \<and> hi_Nonce hello = nonce \<and> \<not> draining s0"
proof -
  obtain p c1 rest where peek: "PeekPreamble (server_codec s0) input = (p, c1, rest)" by (metis prod_cases3)
  obtain h c2 rest' where read: "readClientHello j c1 rest = (h, c2, rest')" by (metis prod_cases3)
  have "p = Inr False"
    using assms peek by (cases p) (auto simp: startMinted_def server_codec_def Let_def split: option.splits bool.splits)
  moreover from this obtain hello where "h = Inr hello" "hi_Nonce hello = nonce" "\<not> draining s0"
    using assms peek read
    by (cases h) (auto simp: startMinted_def server_codec_def Let_def split: option.splits if_splits)
  ultimately show ?thesis using peek read by blast
qed

lemma startConnection_served:
  assumes "startConnection j env dErr input s0 s = (r, es, s')" and "SessionServed sess sch \<in> set es"
  shows "\<exists>c1 rest hello c2 rest'. PeekPreamble ((server_codec s0)\<lparr>admitsLegacy := True\<rparr>) input = (Inr False, c1, rest)
    \<and> readClientHello j c1 rest = (Inr hello, c2, rest') \<and> hi_Nonce hello = [] \<and> \<not> draining s0"
proof -
  let ?c = "NewCodec\<lparr>MaxFrame := srv_maxFrame s0, admitsLegacy := True\<rparr>"
  have c: "(server_codec s0)\<lparr>admitsLegacy := True\<rparr> = ?c" by (simp add: server_codec_def)
  obtain p c1 rest where peek: "PeekPreamble ?c input = (p, c1, rest)" by (metis prod_cases3)
  obtain h c2 rest' where read: "readClientHello j c1 rest = (h, c2, rest')" by (metis prod_cases3)
  have "p = Inr False"
    using assms peek
    by (cases p) (auto simp: startConnection_def admitPreambleDrain_def Let_def split: option.splits bool.splits)
  moreover from this obtain hello where "h = Inr hello" "hi_Nonce hello = []" "\<not> draining s0"
    using assms peek read
    by (cases h) (auto simp: startConnection_def Let_def split: option.splits if_splits)
  ultimately show ?thesis using peek read c by auto
qed

subsection \<open>Properties\<close>

text \<open>
  C3: both ends agree on the outcome of a handshake. A current client's hello reaches the server as
  sent; the server refuses with the preamble while it drains, with a capacity rejection when no
  session slot is free, and otherwise acknowledges and serves a session. The client concludes
  exactly that from the bytes the server wrote: draining, the typed capacity rejection, or the
  server's identity with the generation the session was created with. The schema of the hello
  decides none of this; it only sets whether the session may dispatch product requests.
\<close>

theorem handshake_agreement:
  assumes "decHello j (encHello j h) = Some h" and "hi_Protocol h = ProtocolVersion" and "hi_Nonce h = []" and "clear_env env"
    and "codec_limit cc = codec_limit (server_codec s)" and "codec_limit cc \<le> maxFrameCeiling"
    and "peeked cc = None" and "\<not> legacy cc"
    and "Own (srv_schemas s) \<noteq> []" and "ps_Phase (rt_phase s) \<noteq> PhaseOther []"
    and "frame_packet cc (handshake_frame FrameHello (encHello j h)) = Inr packet"
    and "\<forall>a. AckWritten a \<in> set es \<longrightarrow> decAck j (encAck j a) = Some a
      \<and> (\<exists>p. frame_packet (server_codec s) (handshake_frame FrameHelloAck (encAck j a)) = Inr p)"
    and "write_err (writeFrame cc as (handshake_frame FrameHello (encHello j h))) = None"
    and "startConnection j env dErr packet s s = (r, es, s')"
  shows "fst (clientHandshake j cc as h (concat (map (effect_bytes j (server_codec s)) es))) =
      (if draining s then Inl HandshakeDraining
       else if srv_concurrency s \<le> sessionInUse s
         then Inl (HandshakeRejection ResponseCodeSessionCapacity (Some [ErrSessionCapacity]))
       else Inr \<lparr> wi_Protocol = ProtocolVersion, wi_Schema = Own (srv_schemas s),
           wi_Session = generation_drawn env, wi_Phase = ps_Phase (rt_phase s) \<rparr>)
    \<and> (\<forall>sess sch. SessionServed sess sch \<in> set es \<longleftrightarrow>
         \<not> draining s \<and> sessionInUse s < srv_concurrency s \<and> sch = hi_Schema h
         \<and> sess = new_session (Accepts (srv_schemas s) (hi_Schema h)) False (generation_drawn env))"
proof -
  have walk: "(r, es, s') = (if draining s then (Some [ErrDraining], [PreambleWritten, ConnClosed], s)
      else admitSession env (server_codec s) h s)"
    using startConnection_hello [OF assms(1,11,6) _ assms(8,2,3,4), of s dErr s] assms(5,14) by simp
  have lims: "codec_limit (server_codec s) \<le> maxFrameCeiling" "codec_limit (server_codec s) \<le> codec_limit cc"
    using assms(5,6) by simp_all
  have judged: "fst (clientHandshake j cc as h (effect_bytes j (server_codec s) (AckWritten ack) @ rest)) = judge_ack ack"
    if written: "AckWritten ack \<in> set es" for ack rest
  proof -
    obtain p where p: "frame_packet (server_codec s) (handshake_frame FrameHelloAck (encAck j ack)) = Inr p"
      and rt: "decAck j (encAck j ack) = Some ack" using assms(12) written by blast
    then show ?thesis
      using ack_judged [OF rt p lims assms(7,8) _ assms(13)] by (simp add: effect_bytes_def)
  qed
  consider (drain) "draining s" | (full) "\<not> draining s" "srv_concurrency s \<le> sessionInUse s"
    | (served) "\<not> draining s" "sessionInUse s < srv_concurrency s" by fastforce
  then show ?thesis
  proof cases
    case drain
    then have "es = [PreambleWritten, ConnClosed]" using walk by simp
    then show ?thesis
      using drain preamble_judged [OF assms(7,13), of "[]"] by (auto simp: effect_bytes_def)
  next
    case full
    then have open': "\<not> intakeClosed s" by (simp add: draining_def)
    have "es = [AckWritten (reject_ack s ResponseCodeSessionCapacity [ErrSessionCapacity]), ConnClosed]"
      using full open' walk by (simp add: admitSession_def acquireSlot_def rejectHandshake_def)
    then show ?thesis
      using full judged [of "reject_ack s ResponseCodeSessionCapacity [ErrSessionCapacity]"] assms(9)
      by (simp add: judge_ack_def reject_ack_def)
  next
    case served
    then have open': "\<not> intakeClosed s" by (simp add: draining_def)
    let ?ack = "admit_ack (s\<lparr>sessionInUse := Suc (sessionInUse s)\<rparr>) (server_codec s) (generation_drawn env)"
    have "es = [AckWritten ?ack,
        SessionServed (new_session (Accepts (srv_schemas s) (hi_Schema h)) False (generation_drawn env)) (hi_Schema h)]"
      using served open' walk assms(4) by (simp add: admitSession_def acquireSlot_def clear_env_def Let_def)
    then show ?thesis
      using served judged [of ?ack] assms(4,9,10) by (auto simp: judge_ack_def admit_ack_def clear_env_def)
  qed
qed

lemma handshake_packet_exists:
  assumes "k = FrameHello \<or> k = FrameHelloAck" "payload \<noteq> []" "int (length payload) + 32 \<le> codec_limit c"
    "length payload < 1000"
  shows "\<exists>p. frame_packet c (handshake_frame k payload) = Inr p \<and> length p < 1036"
proof -
  have v: "validateFrame (handshake_frame k payload) = None"
    using assms(1,2) by (auto simp: validateFrame_def handshake_frame_def kind_valid_def FrameKind_defs stray_flags_def
        FlagEnd_def)
  obtain enc where e: "EncodeFrame (handshake_frame k payload) = Inr enc" "length enc = 32 + length payload"
    using assms(1) by (auto simp: EncodeFrame_def handshake_frame_def kind_valid_def FrameKind_defs stray_flags_def
        FlagEnd_def frameMagic_def bytes_of_string_def Let_def)
  show ?thesis
    using v e assms(3,4) by (simp add: frame_packet_def encodeValidFrame_def set_version_def slice_of_def uint32Length_def Let_def)
qed

definition hello_sent :: helloIdentity where
  "hello_sent = \<lparr> hi_Protocol = ProtocolVersion, hi_Schema = ''app-1'', hi_Nonce = [] \<rparr>"

definition ready_server :: Server where
  "ready_server = \<lparr> srv_schemas = [''app-2'', ''app-1''], srv_concurrency = 8, srv_maxFrame = DefaultMaxFrame,
     pendingInUse = 0, sessionInUse = 0, lastSession = 0, srv_started = False, intakeClosed = False,
     srv_sessions = [], rt_phase = \<lparr> ps_Sequence = 1, ps_Phase = PhaseReady \<rparr> \<rparr>"

definition calm_env :: admit_env where
  "calm_env = \<lparr> deadlineErr = None, deadlineErr2 = None, peerErr = None, randErr = None, ackErr = None,
     clearErr = None, generation_drawn = replicate 16 7 \<rparr>"

definition ack_sent :: helloAck where
  "ack_sent = admit_ack ready_server NewCodec (replicate 16 7)"

text \<open>The JSON texts of that hello and its acknowledgement.\<close>

definition example_json :: json where
  "example_json = \<lparr> encHello = (\<lambda>_. bytes_of_string ''{\"protocol\":3,\"schema\":\"app-1\"}''),
     decHello = (\<lambda>_. Some hello_sent), decLegacyHello = (\<lambda>_. None),
     encAck = (\<lambda>_. bytes_of_string ''{\"protocol\":3,\"schema\":\"app-2\",\"session\":\"BwcHBwcHBwcHBwcHBwcHBw==\",\"phase\":\"runtime_ready\"}''),
     decAck = (\<lambda>_. Some ack_sent) \<rparr>"

lemma ready_server_new:
  "NewServer (Some \<lparr> ps_Sequence = 1, ps_Phase = PhaseReady \<rparr>) [''app-2'', ''app-1''] 0 0 = Some ready_server"
  by (simp add: NewServer_def ready_server_def Own_def defaultConcurrency_def maxFrameCeiling_def)

theorem handshake_agreement_witness:
  "\<exists>packet es s'. startConnection example_json calm_env None packet ready_server ready_server = (None, es, s')
     \<and> fst (clientHandshake example_json NewCodec [(2000, False)] hello_sent
         (concat (map (effect_bytes example_json (server_codec ready_server)) es)))
       = Inr \<lparr> wi_Protocol = 3, wi_Schema = ''app-2'', wi_Session = replicate 16 7, wi_Phase = PhaseReady \<rparr>"
proof -
  have lim: "codec_limit NewCodec = codec_limit (server_codec ready_server)" "codec_limit NewCodec \<le> maxFrameCeiling"
    by (simp_all add: codec_limit_def NewCodec_def server_codec_def ready_server_def DefaultMaxFrame_def maxFrameCeiling_def)
  obtain packet where p: "frame_packet NewCodec (handshake_frame FrameHello (encHello example_json hello_sent)) = Inr packet"
      and len: "length packet < 1036"
    using handshake_packet_exists [of FrameHello "encHello example_json hello_sent" NewCodec]
    by (auto simp: example_json_def bytes_of_string_def codec_limit_def NewCodec_def DefaultMaxFrame_def)
  have fits: "\<exists>p. frame_packet (server_codec ready_server) (handshake_frame FrameHelloAck (encAck example_json a)) = Inr p" for a
    using handshake_packet_exists [of FrameHelloAck "encAck example_json a" "server_codec ready_server"]
    by (auto simp: example_json_def bytes_of_string_def codec_limit_def NewCodec_def DefaultMaxFrame_def server_codec_def
        ready_server_def)
  have sent: "write_err (writeFrame NewCodec [(2000, False)] (handshake_frame FrameHello (encHello example_json hello_sent))) = None"
    using len by (cases packet) (simp_all add: writeFrame_def p)
  have ack: "admit_ack (ready_server\<lparr>sessionInUse := Suc 0\<rparr>) (server_codec ready_server) (replicate 16 7) = ack_sent"
    by (simp add: ack_sent_def admit_ack_def ready_server_def protocol_def NewCodec_def)
  have dec: "decHello example_json (encHello example_json hello_sent) = Some hello_sent" by (simp add: example_json_def)
  have env: "clear_env calm_env" by (simp add: clear_env_def calm_env_def sessionGenerationBytes_def)
  obtain es s' where walk: "startConnection example_json calm_env None packet ready_server ready_server = (None, es, s')"
    and acks: "\<forall>a. AckWritten a \<in> set es \<longrightarrow> a = ack_sent"
    using startConnection_hello [OF dec p lim(2) _ _ _ _ env, of ready_server None ready_server] lim ack
    by (auto simp: NewCodec_def hello_sent_def draining_def ready_server_def admitSession_def acquireSlot_def calm_env_def
        Let_def)
  have rt: "\<forall>a. AckWritten a \<in> set es \<longrightarrow> decAck example_json (encAck example_json a) = Some a
      \<and> (\<exists>p. frame_packet (server_codec ready_server) (handshake_frame FrameHelloAck (encAck example_json a)) = Inr p)"
    using acks fits by (auto simp: example_json_def)
  show ?thesis
    using handshake_agreement [OF dec _ _ env lim _ _ _ _ p rt sent walk] walk
    by (auto simp: hello_sent_def NewCodec_def ready_server_def Own_def draining_def calm_env_def ProtocolVersion_def)
qed

text \<open>
  Who may drain the daemon with the frozen preamble. On an accepted or handed-off connection the
  runtime is drained exactly when the first two bytes are the preamble and the peer can be
  identified, whatever bytes, protocol or schema follow and whatever phase the server is in; the
  connection is answered with nothing and closed. On a parent-minted session the preamble never
  drains.
\<close>

lemma preamble_drain_authority:
  assumes "deadlineErr env = None"
  shows "startConnection j env dErr (drainPreamble @ rest) s0 s =
      (case peerErr env of Some e \<Rightarrow> (Some e, [ConnClosed], s) | None \<Rightarrow> (dErr, [RuntimeDrain, ConnClosed], s))
    \<and> (startConnection j env dErr input s0 s = (r, es, s') \<and> RuntimeDrain \<in> set es \<longrightarrow>
        take 2 input = drainPreamble \<and> peerErr env = None)
    \<and> (startMinted j env nonce input s0 s = (r', es', s'') \<longrightarrow> RuntimeDrain \<notin> set es')"
proof -
  have admit: "RuntimeDrain \<notin> set (fst (snd (admitSession env c h s)))" for c h
    by (auto simp: admitSession_def rejectHandshake_def Let_def split: option.splits)
  have drain: "startConnection j env dErr (drainPreamble @ rest) s0 s =
      (case peerErr env of Some e \<Rightarrow> (Some e, [ConnClosed], s) | None \<Rightarrow> (dErr, [RuntimeDrain, ConnClosed], s))"
    using assms PeekPreamble_drain [of "NewCodec\<lparr>MaxFrame := srv_maxFrame s0, admitsLegacy := True\<rparr>" rest]
    by (simp add: startConnection_def admitPreambleDrain_def NewCodec_def Let_def split: option.splits)
  have only: "take 2 input = drainPreamble \<and> peerErr env = None"
    if w: "startConnection j env dErr input s0 s = (r, es, s')" and d: "RuntimeDrain \<in> set es"
  proof -
    let ?c = "NewCodec\<lparr>MaxFrame := srv_maxFrame s0, admitsLegacy := True\<rparr>"
    obtain p c1 rest1 where peek: "PeekPreamble ?c input = (p, c1, rest1)" by (cases "PeekPreamble ?c input")
    have "p = Inr True"
      using w d admit assms peek
      by (auto simp: startConnection_def rejectHandshake_def Let_def
          split: sum.splits bool.splits option.splits if_splits prod.splits) (metis fst_conv snd_conv)+
    then show ?thesis
      using w d peek assms
      by (auto simp: startConnection_def admitPreambleDrain_def PeekPreamble_def ReadFull_def Let_def
          split: option.splits if_splits wire_error.splits)
  qed
  have minted: "RuntimeDrain \<notin> set es'" if w: "startMinted j env nonce input s0 s = (r', es', s'')"
    using w admit
    by (auto simp: startMinted_def rejectHandshake_def Let_def
        split: sum.splits bool.splits option.splits if_splits prod.splits) (metis fst_conv snd_conv)+
  show ?thesis using drain only minted by blast
qed

text \<open>
  Nonces separate the two kinds of session. A minted connection is served only to a peer whose
  hello carries exactly the nonce of its mint; an accepted one only to a peer whose hello carries no
  nonce, so a minted hello replayed on the public socket is refused.
\<close>

lemma session_nonce_separation:
  assumes "SessionServed sess sch \<in> set es"
  shows "(startMinted j env nonce input s0 s = (r, es, s') \<longrightarrow>
       (\<exists>c1 rest hello c2 rest'. PeekPreamble (server_codec s0) input = (Inr False, c1, rest)
          \<and> readClientHello j c1 rest = (Inr hello, c2, rest') \<and> hi_Nonce hello = nonce \<and> \<not> draining s0))
    \<and> (startConnection j env dErr input s0 s = (r, es, s') \<longrightarrow>
       (\<exists>c1 rest hello c2 rest'. PeekPreamble ((server_codec s0)\<lparr>admitsLegacy := True\<rparr>) input = (Inr False, c1, rest)
          \<and> readClientHello j c1 rest = (Inr hello, c2, rest') \<and> hi_Nonce hello = [] \<and> \<not> draining s0))"
  using startMinted_served [of j env nonce input s0 s r es s' sess sch]
    startConnection_served [of j env dErr input s0 s r es s' sess sch] assms by blast

text \<open>The walk of \<open>hello_sent\<close> on \<open>ready_server\<close>.\<close>

lemma example_walk:
  obtains packet es s' sess where
    "startConnection example_json calm_env None packet ready_server ready_server = (None, es, s')"
    "SessionServed sess ''app-1'' \<in> set es"
proof -
  have lim: "codec_limit NewCodec \<le> maxFrameCeiling" "codec_limit NewCodec \<le> codec_limit (server_codec ready_server)"
    by (simp_all add: codec_limit_def NewCodec_def server_codec_def ready_server_def DefaultMaxFrame_def maxFrameCeiling_def)
  obtain packet where p: "frame_packet NewCodec (handshake_frame FrameHello (encHello example_json hello_sent)) = Inr packet"
    using handshake_packet_exists [of FrameHello "encHello example_json hello_sent" NewCodec]
    by (auto simp: example_json_def bytes_of_string_def codec_limit_def NewCodec_def DefaultMaxFrame_def)
  have dec: "decHello example_json (encHello example_json hello_sent) = Some hello_sent" by (simp add: example_json_def)
  have env: "clear_env calm_env" by (simp add: clear_env_def calm_env_def sessionGenerationBytes_def)
  obtain es s' sess where "startConnection example_json calm_env None packet ready_server ready_server = (None, es, s')"
      "SessionServed sess ''app-1'' \<in> set es"
    using startConnection_hello [OF dec p lim _ _ _ env, of None ready_server]
    by (auto simp: NewCodec_def hello_sent_def draining_def ready_server_def admitSession_def acquireSlot_def calm_env_def
        Let_def)
  then show ?thesis using that by blast
qed

text \<open>
  A server's slots bound it and a closed intake is final. From a new server, through any
  interleaving of accepts, admissions, session ends, phase changes and drains, the pending and
  session slots in use stay within \<open>2 * concurrency + 2\<close> and \<open>concurrency\<close>; once intake is closed it stays
  closed and no session is ever added again.
\<close>

lemma server_slots_bounded:
  assumes "NewServer rt schemas conc mf = Some s0" and "server_step\<^sup>*\<^sup>* s0 s" and "server_step\<^sup>*\<^sup>* s s'"
  shows "pendingInUse s' \<le> 2 * srv_concurrency s0 + 2 \<and> sessionInUse s' \<le> srv_concurrency s0
    \<and> 0 < srv_concurrency s0
    \<and> (intakeClosed s \<longrightarrow> intakeClosed s' \<and> lastSession s' = lastSession s
         \<and> set (srv_sessions s') \<subseteq> set (srv_sessions s))"
proof -
  have s0: "server_inv s0" "0 < srv_concurrency s0"
    using assms(1) by (auto simp: NewServer_def server_inv_def defaultConcurrency_def split: option.splits if_splits)
  have "server_inv s' \<and> srv_concurrency s' = srv_concurrency s0"
    using server_steps_inv [OF rtranclp_trans [OF assms(2,3)] s0(1)] .
  then show ?thesis
    using s0(2) closed_steps [OF assms(3)] by (simp add: server_inv_def pending_cap_def)
qed

end
