(* ===== verification/StateFile.thy ===== *)
theory StateFile
  imports Prelude
begin

text \<open>
  The durable state file, \<^verbatim>\<open>internal/state\<close>: the frozen frame (magic, schema, envelope of identity
  cores, payload), its scanner, and \<open>Load\<close>, \<open>Peek\<close> and \<open>Store\<close> over one path of a file system.

  The file system is the contents at the bound path and the contents moved aside. The payload type
  is a parameter, and so are the JSON encodings of the envelope and of the payload, the fields of
  \<open>codec\<close>; \<open>codec_ok\<close> says of a value that decoding its encoding gives it back. What the
  operating system answers to a read, a write or a rename is an argument.
\<close>

subsection \<open>The frame (frame.go)\<close>

type_synonym Schema = u32

record Core =
  core_PID :: int
  core_Start :: u64
  core_Boot :: u64
  core_Generation :: u64
  core_Session :: int

definition magic :: bytes where
  "magic = bytes_of_string [CHR ''d'', CHR ''k'', CHR ''s'', CHR ''t'', CHR ''a'', CHR ''t'', CHR ''e'', CHR 0x0A]"

definition schemaAt :: nat where "schemaAt = 8"
definition envLenAt :: nat where "envLenAt = schemaAt + 4"
definition payLenAt :: nat where "payLenAt = envLenAt + 8"
definition headerLen :: nat where "headerLen = payLenAt + 8"

lemmas frame_offsets = schemaAt_def envLenAt_def payLenAt_def headerLen_def

record 'a codec =
  encEnv :: "Core list \<Rightarrow> bytes"
  decEnv :: "bytes \<Rightarrow> Core list option"
  encPay :: "'a \<Rightarrow> bytes"
  decPay :: "bytes \<Rightarrow> 'a option"

definition frame :: "'a codec \<Rightarrow> Schema \<Rightarrow> Core list \<Rightarrow> bytes \<Rightarrow> bytes" where
  "frame j schema cores payload =
    (let env = encEnv j cores in
     magic @ put_be 4 (unat schema) @ put_be 8 (length env) @ put_be 8 (length payload) @ env @ payload)"

definition field_of :: "nat \<Rightarrow> nat \<Rightarrow> bytes \<Rightarrow> nat" where
  "field_of at width raw = get_be (take width (drop at raw))"

text \<open>\<open>scan\<close>: a nil payload is the empty one, which no payload decodes from.\<close>

definition scan :: "'a codec \<Rightarrow> bytes \<Rightarrow> Schema \<times> Core list \<times> bytes" where
  "scan j raw =
    (if length raw < headerLen \<or> take (length magic) raw \<noteq> magic then (0, [], [])
     else let schema = of_nat (field_of schemaAt 4 raw);
              envLen = field_of envLenAt 8 raw;
              payLen = field_of payLenAt 8 raw;
              rest = drop headerLen raw
     in if envLen > length rest then (schema, [], [])
        else case decEnv j (take envLen rest) of
          None \<Rightarrow> (schema, [], [])
        | Some cores \<Rightarrow>
            let rest' = drop envLen rest in
            if payLen \<noteq> length rest' then (schema, cores, []) else (schema, cores, rest'))"

subsection \<open>The file (state.go, durable.go)\<close>

datatype state_error = ErrUnbound | ErrIO

record fs =
  contents :: "bytes option"
  archives :: "bytes list"

record 'a Loaded =
  Value :: 'a
  Cores :: "Core list"
  Archived :: bool

text \<open>
  \<open>decode_file\<close> is the decision \<open>Load\<close> and \<open>Peek\<close> share: the value when the schema is this one and
  the payload decodes, and the cores either way. \<open>json.Unmarshal\<close> refuses an empty payload.
\<close>

definition decode_file :: "'a codec \<Rightarrow> Schema \<Rightarrow> bytes \<Rightarrow> 'a option \<times> Core list" where
  "decode_file j schema raw =
    (case scan j raw of (sc, cores, payload) \<Rightarrow>
       (if sc = schema \<and> payload \<noteq> [] then decPay j payload else None, cores))"

text \<open>
  How a rename that publishes a file ends: before it nothing has changed; after it the change is
  made even when the sync of the directory, which follows, fails.
\<close>

datatype write_end = Published | FailedBefore | FailedAfter

definition archive :: "write_end \<Rightarrow> bytes \<Rightarrow> fs \<Rightarrow> state_error option \<times> fs" where
  "archive we raw w =
    (case we of
       Published \<Rightarrow> (None, w\<lparr>contents := None, archives := raw # archives w\<rparr>)
     | FailedBefore \<Rightarrow> (Some ErrIO, w)
     | FailedAfter \<Rightarrow> (Some ErrIO, w\<lparr>contents := None, archives := raw # archives w\<rparr>))"

text \<open>
  \<open>Load\<close>: \<open>readErr\<close> is the file system refusing the read; \<open>zero\<close> is the zero value of the payload
  type.
\<close>

definition Load ::
  "'a codec \<Rightarrow> string \<Rightarrow> Schema \<Rightarrow> 'a \<Rightarrow> bool \<Rightarrow> write_end \<Rightarrow> fs \<Rightarrow> (state_error + 'a Loaded) \<times> fs" where
  "Load j path schema zero readErr we w =
    (if path = [] then (Inl ErrUnbound, w)
     else if readErr then (Inl ErrIO, w)
     else case contents w of
       None \<Rightarrow> (Inr \<lparr> Value = zero, Cores = [], Archived = False \<rparr>, w)
     | Some raw \<Rightarrow>
         (case decode_file j schema raw of
            (Some v, cores) \<Rightarrow> (Inr \<lparr> Value = v, Cores = cores, Archived = False \<rparr>, w)
          | (None, cores) \<Rightarrow>
              (case archive we raw w of
                 (Some e, w') \<Rightarrow> (Inl e, w')
               | (None, w') \<Rightarrow> (Inr \<lparr> Value = zero, Cores = cores, Archived = True \<rparr>, w'))))"

definition Peek :: "'a codec \<Rightarrow> string \<Rightarrow> Schema \<Rightarrow> 'a \<Rightarrow> bool \<Rightarrow> fs \<Rightarrow> state_error + ('a Loaded \<times> bool)" where
  "Peek j path schema zero readErr w =
    (if path = [] then Inl ErrUnbound
     else if readErr then Inl ErrIO
     else case contents w of
       None \<Rightarrow> Inr (\<lparr> Value = zero, Cores = [], Archived = False \<rparr>, False)
     | Some raw \<Rightarrow>
         (case decode_file j schema raw of
            (Some v, cores) \<Rightarrow> Inr (\<lparr> Value = v, Cores = cores, Archived = False \<rparr>, True)
          | (None, cores) \<Rightarrow> Inr (\<lparr> Value = zero, Cores = cores, Archived = False \<rparr>, False)))"

text \<open>
  A write goes to a temporary beside the file, which is synced and renamed into place.
\<close>

definition bound_write :: "write_end \<Rightarrow> bytes \<Rightarrow> fs \<Rightarrow> state_error option \<times> fs" where
  "bound_write we raw w =
    (case we of
       Published \<Rightarrow> (None, w\<lparr>contents := Some raw\<rparr>)
     | FailedBefore \<Rightarrow> (Some ErrIO, w)
     | FailedAfter \<Rightarrow> (Some ErrIO, w\<lparr>contents := Some raw\<rparr>))"

definition Store :: "'a codec \<Rightarrow> string \<Rightarrow> Schema \<Rightarrow> ('a \<Rightarrow> Core list) \<Rightarrow> write_end \<Rightarrow> 'a \<Rightarrow> fs \<Rightarrow> state_error option \<times> fs" where
  "Store j path schema coresOf we v w =
    (if path = [] then (Some ErrUnbound, w)
     else bound_write we (frame j schema (coresOf v) (encPay j v)) w)"

subsection \<open>Scanning\<close>

text \<open>A value whose encodings round trip and fit the frame's length fields.\<close>

definition codec_ok :: "'a codec \<Rightarrow> ('a \<Rightarrow> Core list) \<Rightarrow> 'a \<Rightarrow> bool" where
  "codec_ok j coresOf v \<longleftrightarrow> decPay j (encPay j v) = Some v \<and> encPay j v \<noteq> [] \<and> length (encPay j v) < 2 ^ 64
    \<and> decEnv j (encEnv j (coresOf v)) = Some (coresOf v) \<and> length (encEnv j (coresOf v)) < 2 ^ 64"

lemma length_magic [simp]: "length magic = 8"
  by (simp add: magic_def bytes_of_string_def)

lemma length_frame: "length (frame j schema cores payload) = headerLen + length (encEnv j cores) + length payload"
  by (simp add: frame_def frame_offsets Let_def)

lemma frame_fields:
  assumes "length (encEnv j cores) < 2 ^ 64" "length payload < 2 ^ 64" "headerLen \<le> n"
  shows "take (length magic) (take n (frame j schema cores payload)) = magic"
    and "field_of schemaAt 4 (take n (frame j schema cores payload)) = unat schema"
    and "field_of envLenAt 8 (take n (frame j schema cores payload)) = length (encEnv j cores)"
    and "field_of payLenAt 8 (take n (frame j schema cores payload)) = length payload"
    and "drop headerLen (take n (frame j schema cores payload)) = take (n - headerLen) (encEnv j cores @ payload)"
proof -
  have n: "28 \<le> n" using assms(3) by (simp add: frame_offsets)
  have s: "get_be (put_be 4 (unat schema)) = unat schema"
    using unsigned_less [of schema, where ?'a = nat] by (simp add: get_put_be)
  have e: "get_be (put_be 8 (length (encEnv j cores))) = length (encEnv j cores)"
    using assms(1) by (simp add: get_put_be)
  have p: "get_be (put_be 8 (length payload)) = length payload"
    using assms(2) by (simp add: get_put_be)
  show "take (length magic) (take n (frame j schema cores payload)) = magic"
    using n by (simp add: frame_def Let_def min_def)
  show "field_of schemaAt 4 (take n (frame j schema cores payload)) = unat schema"
    using n s by (simp add: frame_def field_of_def frame_offsets Let_def take_drop min_def)
  show "field_of envLenAt 8 (take n (frame j schema cores payload)) = length (encEnv j cores)"
    using n e by (simp add: frame_def field_of_def frame_offsets Let_def take_drop min_def)
  show "field_of payLenAt 8 (take n (frame j schema cores payload)) = length payload"
    using n p by (simp add: frame_def field_of_def frame_offsets Let_def take_drop min_def)
  show "drop headerLen (take n (frame j schema cores payload)) = take (n - headerLen) (encEnv j cores @ payload)"
    using n by (simp add: frame_def frame_offsets Let_def drop_take)
qed

lemma scan_torn:
  assumes "length (encEnv j cores) < 2 ^ 64" "length payload < 2 ^ 64" "decEnv j (encEnv j cores) = Some cores"
  shows "scan j (take n (frame j schema cores payload)) =
    (if n < headerLen then (0, [], [])
     else if n < headerLen + length (encEnv j cores) then (schema, [], [])
     else if n < headerLen + length (encEnv j cores) + length payload then (schema, cores, [])
     else (schema, cores, payload))"
proof (cases "n < headerLen")
  case True
  then have "length (take n (frame j schema cores payload)) < headerLen" by simp
  then show ?thesis using True by (simp only: scan_def simp_thms if_True)
next
  case False
  note f = frame_fields [OF assms(1,2), of n schema]
  have len: "headerLen \<le> length (take n (frame j schema cores payload))"
    using False by (simp add: length_frame)
  show ?thesis
    using False len assms(3) f by (simp add: scan_def Let_def not_less) (auto simp: min_def)
qed

lemma scan_frame:
  assumes "length (encEnv j cores) < 2 ^ 64" "length payload < 2 ^ 64" "decEnv j (encEnv j cores) = Some cores"
  shows "scan j (frame j schema cores payload) = (schema, cores, payload)"
  using scan_torn [OF assms, of "length (frame j schema cores payload)" schema] by (simp add: length_frame)

lemma decode_stored:
  "codec_ok j coresOf v \<Longrightarrow> decode_file j schema (frame j schema (coresOf v) (encPay j v)) = (Some v, coresOf v)"
  by (simp add: codec_ok_def decode_file_def scan_frame)

lemma Load_stored:
  assumes "codec_ok j coresOf v" "path \<noteq> []"
    and "contents w = Some (frame j schema (coresOf v) (encPay j v))"
  shows "Load j path schema zero False we w = (Inr \<lparr> Value = v, Cores = coresOf v, Archived = False \<rparr>, w)"
  using assms by (simp add: Load_def decode_stored)

subsection \<open>Properties\<close>

text \<open>
  A torn state file never yields a wrong core. Whatever prefix of a written file survives, the
  scanner returns exactly the recorded cores when the envelope is whole and none otherwise, the
  payload only when it is whole, and the schema as soon as the header is.
\<close>

lemma torn_file_cores:
  assumes "length (encEnv j cores) < 2 ^ 64" and "length payload < 2 ^ 64"
    and "decEnv j (encEnv j cores) = Some cores"
  shows "scan j (take n (frame j schema cores payload)) =
    (if n < headerLen then (0, [], [])
     else if n < headerLen + length (encEnv j cores) then (schema, [], [])
     else if n < headerLen + length (encEnv j cores) + length payload then (schema, cores, [])
     else (schema, cores, payload))"
  by (rule scan_torn [OF assms])

definition core_example :: Core where
  "core_example = \<lparr> core_PID = 42, core_Start = 7, core_Boot = 9, core_Generation = 5, core_Session = 0 \<rparr>"

definition example_codec :: "nat codec" where
  "example_codec = \<lparr>
     encEnv = (\<lambda>cores. if cores = [] then bytes_of_string ''{\"cores\":[]}''
       else bytes_of_string ''{\"cores\":[{\"pid\":42,\"start\":7,\"boot\":9,\"generation\":5}]}''),
     decEnv = (\<lambda>raw. if raw = bytes_of_string ''{\"cores\":[]}'' then Some [] else Some [core_example]),
     encPay = (\<lambda>n. bytes_of_string (replicate (Suc n) CHR ''1'')),
     decPay = (\<lambda>raw. if raw = [] then None else Some (length raw - 1)) \<rparr>"

text \<open>
  A store is all or nothing, and what was stored is what is read. A published write is loaded
  back whole, with the cores of its value and nothing moved aside; a write that ended early leaves
  the file as it was or published, never anything else.
\<close>

lemma store_then_load:
  assumes "codec_ok j coresOf v" and "path \<noteq> []" and "Store j path schema coresOf we v w = (e, w')"
  shows "(e = None \<longrightarrow> Load j path schema zero False we' w' = (Inr \<lparr> Value = v, Cores = coresOf v, Archived = False \<rparr>, w')
      \<and> Peek j path schema zero False w' = Inr (\<lparr> Value = v, Cores = coresOf v, Archived = False \<rparr>, True))
    \<and> (w' = w \<or> Load j path schema zero False we' w' = (Inr \<lparr> Value = v, Cores = coresOf v, Archived = False \<rparr>, w'))
    \<and> archives w' = archives w"
proof -
  consider "w' = w" "e \<noteq> None" | "contents w' = Some (frame j schema (coresOf v) (encPay j v))" "archives w' = archives w"
    using assms(2,3) by (auto simp: Store_def bound_write_def split: write_end.splits)
  then show ?thesis
    using Load_stored [OF assms(1,2), of w' schema] assms(1,2) by cases (auto simp: Peek_def decode_stored)
qed

text \<open>
  An era that cannot read a file still gets its processes. A file written under any other
  schema, by any payload encoding that shares the frozen envelope, is moved aside unchanged and
  its cores are returned; a reader that does not own the file gets the same cores and moves nothing.
\<close>

lemma foreign_era_cores:
  assumes "codec_ok j' coresOf' v'" and "decEnv j (encEnv j' (coresOf' v')) = Some (coresOf' v')"
    and "schema' \<noteq> schema" and "path \<noteq> []"
    and "Store j' path schema' coresOf' Published v' w = (None, w')"
  shows "Load j path schema zero False Published w' =
      (Inr \<lparr> Value = zero, Cores = coresOf' v', Archived = True \<rparr>,
       \<lparr> contents = None, archives = the (contents w') # archives w \<rparr>)
    \<and> Peek j path schema zero False w' = Inr (\<lparr> Value = zero, Cores = coresOf' v', Archived = False \<rparr>, False)"
proof -
  let ?raw = "frame j' schema' (coresOf' v') (encPay j' v')"
  have w': "contents w' = Some ?raw" "archives w' = archives w" "\<And>c a. w'\<lparr>contents := c, archives := a\<rparr> = \<lparr> contents = c, archives = a \<rparr>"
    using assms(4,5) by (auto simp: Store_def bound_write_def)
  define j'' where "j'' = j\<lparr>encEnv := encEnv j'\<rparr>"
  have same: "scan j = scan j''" "frame j'' schema' (coresOf' v') (encPay j' v') = ?raw"
    by (simp_all add: j''_def scan_def frame_def fun_eq_iff Let_def)
  have "scan j ?raw = (schema', coresOf' v', encPay j' v')"
    using scan_frame [of j'' "coresOf' v'" "encPay j' v'" schema'] assms(1,2) same
    by (simp add: codec_ok_def j''_def)
  then have "decode_file j schema ?raw = (None, coresOf' v')" using assms(3) by (simp add: decode_file_def)
  then show ?thesis using w' assms(4) by (simp add: Load_def Peek_def archive_def)
qed

end
