(* ===== verification/ProcStore.thy ===== *)
theory ProcStore
  imports StateFile
begin

text \<open>
  The durable record store of owned processes, \<^verbatim>\<open>internal/proc\<close>: process identity (identity.go),
  the record file behind its one writer (store.go), the owner block (owner.go), adoption of a
  running process (adopt.go) and the spawn of a suspended child (spawn.go).

  Everything the store does to its file goes through one writer goroutine, so the operations are
  functions on the state \<open>Store\<close>: the file system under the record path, the writer's value, the
  generation and the policy. What the operating system answers to a write, a read and a move aside
  is the record \<open>io\<close>. The JSON codec of the record file is the parameter \<open>j\<close>.
\<close>

subsection \<open>Identity (identity.go)\<close>

record identity =
  id_pid :: int
  id_start :: u64
  id_boot :: u64

definition matches :: "identity \<Rightarrow> identity \<Rightarrow> bool" where
  "matches a b \<longleftrightarrow> id_pid a = id_pid b \<and> id_start a = id_start b \<and> id_boot a = id_boot b"

definition crossBoot :: "identity \<Rightarrow> u64 \<Rightarrow> bool" where
  "crossBoot i boot \<longleftrightarrow> id_boot i \<noteq> boot"

definition unsafe :: "int \<Rightarrow> identity \<Rightarrow> bool" where
  "unsafe self i \<longleftrightarrow> id_pid i \<le> 1 \<or> id_pid i = self"

text \<open>\<open>mintGeneration\<close> from the eight bytes the random source gave, or its failure.\<close>

definition mintGeneration :: "bytes option \<Rightarrow> u64 option" where
  "mintGeneration raw =
    (case raw of
       None \<Rightarrow> None
     | Some bs \<Rightarrow> let generation = of_nat (get_be bs) in if generation = 0 then None else Some generation)"

subsection \<open>Records (store.go)\<close>

definition recordSchema :: Schema where "recordSchema = 1"

type_synonym ShutdownPolicy = u8

definition TerminateOwned :: ShutdownPolicy where "TerminateOwned = 0"
definition PreserveOwned :: ShutdownPolicy where "PreserveOwned = 1"

definition policy_valid :: "ShutdownPolicy \<Rightarrow> bool" where
  "policy_valid p \<longleftrightarrow> p = TerminateOwned \<or> p = PreserveOwned"

record rec =
  rec_PID :: int
  rec_Start :: u64
  rec_Boot :: u64
  rec_Generation :: u64
  rec_Session :: int
  rec_Comm :: string
  rec_Policy :: ShutdownPolicy

definition rec_id :: "rec \<Rightarrow> identity" where
  "rec_id r = \<lparr> id_pid = rec_PID r, id_start = rec_Start r, id_boot = rec_Boot r \<rparr>"

record Owner =
  own_PID :: int
  own_Start :: u64
  own_Boot :: u64
  own_Generation :: u64
  own_Build :: string

record records =
  Live :: "rec list"
  rs_Owner :: "Owner option"

definition no_records :: records where
  "no_records = \<lparr> Live = [], rs_Owner = None \<rparr>"

definition core_of :: "rec \<Rightarrow> Core" where
  "core_of r = \<lparr> core_PID = rec_PID r, core_Start = rec_Start r, core_Boot = rec_Boot r,
     core_Generation = rec_Generation r, core_Session = rec_Session r \<rparr>"

definition records_Cores :: "records \<Rightarrow> Core list" where
  "records_Cores v = map core_of (Live v)"

definition rescued :: "Core list \<Rightarrow> records" where
  "rescued cores = \<lparr> Live = map (\<lambda>c. \<lparr> rec_PID = core_PID c, rec_Start = core_Start c, rec_Boot = core_Boot c,
     rec_Generation = core_Generation c, rec_Session = core_Session c, rec_Comm = [],
     rec_Policy = PreserveOwned \<rparr>) cores, rs_Owner = None \<rparr>"

definition retained :: "records \<Rightarrow> identity \<Rightarrow> records" where
  "retained v i = v\<lparr>Live := filter (\<lambda>r. \<not> matches (rec_id r) i) (Live v)\<rparr>"

definition holds :: "records \<Rightarrow> identity \<Rightarrow> bool" where
  "holds v i \<longleftrightarrow> list_ex (\<lambda>r. matches (rec_id r) i) (Live v)"

record io =
  io_write :: write_end
  io_read :: bool
  io_archive :: write_end

record Store =
  st_fs :: fs
  st_value :: records
  st_generation :: u64
  st_policy :: ShutdownPolicy
  st_archived :: bool

datatype store_error = StoreClosed | StorePersist | StoreObserve | StoreAbsent | StoreLate | StoreUnsettled
  | StorePolicy | StoreGeneration

text \<open>One writer operation: persist \<open>next\<close>, then re-read the file.\<close>

definition write_verified ::
  "records codec \<Rightarrow> string \<Rightarrow> io \<Rightarrow> records \<Rightarrow> fs \<Rightarrow> (store_error + records) \<times> fs" where
  "write_verified j path ans next w =
    (case StateFile.Store j path recordSchema records_Cores (io_write ans) next w of
       (Some e, w1) \<Rightarrow> (Inl StorePersist, w1)
     | (None, w1) \<Rightarrow>
         (case Load j path recordSchema no_records (io_read ans) (io_archive ans) w1 of
            (Inl e, w2) \<Rightarrow> (Inl StoreObserve, w2)
          | (Inr l, w2) \<Rightarrow> (Inr (Value l), w2)))"

definition add_op :: "records codec \<Rightarrow> string \<Rightarrow> io \<Rightarrow> rec \<Rightarrow> Store \<Rightarrow> store_error option \<times> Store" where
  "add_op j path ans r s =
    (let next0 = retained (st_value s) (rec_id r); next = next0\<lparr>Live := Live next0 @ [r]\<rparr> in
     case write_verified j path ans next (st_fs s) of
       (Inl e, w) \<Rightarrow> (Some e, s\<lparr>st_fs := w\<rparr>)
     | (Inr v, w) \<Rightarrow>
         if \<not> holds v (rec_id r) then (Some StoreAbsent, s\<lparr>st_fs := w\<rparr>)
         else (None, s\<lparr>st_fs := w, st_value := v\<rparr>))"

datatype RecordFate = RecordRemoved | RecordAbandoned

definition retire_op :: "records codec \<Rightarrow> string \<Rightarrow> io \<Rightarrow> identity \<Rightarrow> Store \<Rightarrow> RecordFate \<times> Store" where
  "retire_op j path ans i s =
    (case write_verified j path ans (retained (st_value s) i) (st_fs s) of
       (Inl e, w) \<Rightarrow> (RecordAbandoned, s\<lparr>st_fs := w\<rparr>)
     | (Inr v, w) \<Rightarrow>
         (if holds v i then RecordAbandoned else RecordRemoved, s\<lparr>st_fs := w, st_value := v\<rparr>))"

text \<open>
  \<open>sendContext\<close>: a closed store or an ended context refuses the operation before it reaches the
  writer.
\<close>

record send =
  send_closed :: bool
  send_expired :: bool

definition refused :: "send \<Rightarrow> bool" where
  "refused c \<longleftrightarrow> send_closed c \<or> send_expired c"

definition retireContext :: "records codec \<Rightarrow> string \<Rightarrow> send \<Rightarrow> io \<Rightarrow> identity \<Rightarrow> Store \<Rightarrow> RecordFate \<times> Store" where
  "retireContext j path c ans i s = (if refused c then (RecordAbandoned, s) else retire_op j path ans i s)"

text \<open>\<open>retireBounded\<close>: \<open>late\<close> is whether the caller's context ends before the writer replies.\<close>

definition retireBounded ::
  "records codec \<Rightarrow> string \<Rightarrow> send \<Rightarrow> io \<Rightarrow> bool \<Rightarrow> identity \<Rightarrow> Store \<Rightarrow> store_error option \<times> Store" where
  "retireBounded j path c ans late i s =
    (case retireContext j path c ans i s of (fate, s') \<Rightarrow>
       (if late \<or> fate \<noteq> RecordRemoved then Some StoreUnsettled else None, s'))"

text \<open>
  \<open>add\<close>: when the caller's deadline beats the writer's reply the record is rolled back, under a
  budget of its own.
\<close>

definition store_add ::
  "records codec \<Rightarrow> string \<Rightarrow> send \<Rightarrow> io \<Rightarrow> bool \<Rightarrow> send \<Rightarrow> io \<Rightarrow> rec \<Rightarrow> Store \<Rightarrow> store_error option \<times> Store" where
  "store_add j path c ans late c' ans' r s =
    (if refused c then (Some StoreClosed, s)
     else case add_op j path ans r s of (res, s1) \<Rightarrow>
       if late then (Some StoreLate, snd (retireBounded j path c' ans' False (rec_id r) s1))
       else (res, s1))"

text \<open>\<open>openLocked\<close>, under the lock.\<close>

definition openLocked ::
  "records codec \<Rightarrow> string \<Rightarrow> ShutdownPolicy \<Rightarrow> bytes option \<Rightarrow> io \<Rightarrow> fs \<Rightarrow> (store_error + Store) \<times> fs" where
  "openLocked j path policy random ans w =
    (case mintGeneration random of
       None \<Rightarrow> (Inl StoreGeneration, w)
     | Some generation \<Rightarrow>
     (case Load j path recordSchema no_records (io_read ans) (io_archive ans) w of
       (Inl e, w1) \<Rightarrow> (Inl StoreObserve, w1)
     | (Inr l, w1) \<Rightarrow>
         let value0 = (if Archived l then rescued (Cores l) else Value l) in
         if \<not> list_all (\<lambda>r. policy_valid (rec_Policy r)) (Live value0) then (Inl StorePolicy, w1)
         else let value = (if policy = PreserveOwned
                then value0\<lparr>Live := map (\<lambda>r. r\<lparr>rec_Policy := PreserveOwned\<rparr>) (Live value0)\<rparr> else value0) in
           if Archived l \<or> policy = PreserveOwned then
             (case StateFile.Store j path recordSchema records_Cores (io_write ans) value w1 of
                (Some e, w2) \<Rightarrow> (Inl StorePersist, w2)
              | (None, w2) \<Rightarrow> (Inr \<lparr> st_fs = w2, st_value = value, st_generation = generation,
                  st_policy = policy, st_archived = Archived l \<rparr>, w2))
           else (Inr \<lparr> st_fs = w1, st_value = value, st_generation = generation, st_policy = policy,
                  st_archived = False \<rparr>, w1)))"

subsection \<open>The owner block (owner.go)\<close>

definition wellFormed :: "Owner \<Rightarrow> bool" where
  "wellFormed ow \<longleftrightarrow> own_PID ow > 0 \<and> own_Start ow > 0 \<and> own_Boot ow > 0 \<and> own_Generation ow > 0 \<and> own_Build ow \<noteq> []"

definition currentOwner :: "int \<Rightarrow> u64 option \<Rightarrow> u64 option \<Rightarrow> string \<Rightarrow> Store \<Rightarrow> Owner option" where
  "currentOwner pid start boot build s =
    (case start of None \<Rightarrow> None | Some st \<Rightarrow> (case boot of None \<Rightarrow> None | Some b \<Rightarrow>
       Some \<lparr> own_PID = pid, own_Start = st, own_Boot = b, own_Generation = st_generation s, own_Build = build \<rparr>))"

definition RecordOwner ::
  "records codec \<Rightarrow> string \<Rightarrow> bool \<Rightarrow> io \<Rightarrow> Owner \<Rightarrow> Store \<Rightarrow> store_error option \<times> Store" where
  "RecordOwner j path closed ans owner s =
    (if closed then (Some StoreClosed, s)
     else case write_verified j path ans ((st_value s)\<lparr>rs_Owner := Some owner\<rparr>) (st_fs s) of
       (Inl e, w) \<Rightarrow> (Some e, s\<lparr>st_fs := w\<rparr>)
     | (Inr v, w) \<Rightarrow>
         if rs_Owner v \<noteq> Some owner then (Some StoreAbsent, s\<lparr>st_fs := w\<rparr>)
         else (None, s\<lparr>st_fs := w, st_value := v\<rparr>))"

text \<open>\<open>ReadOwner\<close>; the outer \<open>None\<close> is a read the file system refused.\<close>

definition ReadOwner :: "records codec \<Rightarrow> string \<Rightarrow> bool \<Rightarrow> fs \<Rightarrow> Owner option option" where
  "ReadOwner j path readErr w =
    (case Peek j path recordSchema no_records readErr w of
       Inl e \<Rightarrow> None
     | Inr (l, ok) \<Rightarrow>
         (if \<not> ok then Some None
          else case rs_Owner (Value l) of
            None \<Rightarrow> Some None
          | Some owner \<Rightarrow> if wellFormed owner then Some (Some owner) else Some None))"

subsection \<open>Spawn and adoption (spawn.go, adopt.go)\<close>

record procInfo =
  pi_start :: u64
  pi_comm :: string
  pi_group :: int
  pi_session :: int
  pi_zombie :: bool
  pi_stopped :: bool
  pi_exiting :: bool

text \<open>What one spawn does to the child, in order.\<close>

datatype spawn_event =
    Started int
  | RecordWritten rec
  | Released int
  | Killed int
  | Reaped int

text \<open>
  The environment of one spawn: the command's validity, the pid of the suspended child, what the
  probes answer, how the record write goes, whether the release and the wait of an aborted child
  fail.
\<close>

record spawn_env =
  se_valid :: bool
  se_started :: "int option"
  se_boot :: "u64 option"
  se_probe :: "procInfo option"
  se_send :: send
  se_io :: io
  se_late :: bool
  se_send2 :: send
  se_io2 :: io
  se_releaseErr :: bool
  se_waitErr :: bool

datatype spawn_error = SpawnRefused | SpawnAborted bool

text \<open>
  \<open>abortSpawn\<close>: the flag of \<open>SpawnAborted\<close> is whether the child was not proven reaped. \<open>Killed\<close> is the call that sends
  \<open>SIGKILL\<close>; an error of that call decides nothing in the code, it is only joined to the report of a failed wait.
\<close>

definition abortSpawn :: "spawn_env \<Rightarrow> int \<Rightarrow> spawn_error \<times> spawn_event list" where
  "abortSpawn env pid =
    (SpawnAborted (se_waitErr env), Killed pid # (if se_waitErr env then [] else [Reaped pid]))"

definition spawn_record :: "spawn_env \<Rightarrow> bool \<Rightarrow> int \<Rightarrow> u64 \<Rightarrow> procInfo \<Rightarrow> Store \<Rightarrow> rec" where
  "spawn_record env session pid boot info s = \<lparr> rec_PID = pid, rec_Start = pi_start info, rec_Boot = boot,
     rec_Generation = st_generation s, rec_Session = (if session then pid else 0), rec_Comm = pi_comm info,
     rec_Policy = st_policy s \<rparr>"

definition spawn ::
  "records codec \<Rightarrow> string \<Rightarrow> spawn_env \<Rightarrow> bool \<Rightarrow> Store \<Rightarrow> (spawn_error + rec) \<times> spawn_event list \<times> Store" where
  "spawn j path env session s =
    (if \<not> se_valid env then (Inl SpawnRefused, [], s)
     else case se_started env of
       None \<Rightarrow> (Inl SpawnRefused, [], s)
     | Some pid \<Rightarrow>
         let abort = (\<lambda>es s. case abortSpawn env pid of (e, es') \<Rightarrow> (Inl e, es @ es', s)) in
         (case se_boot env of
            None \<Rightarrow> abort [Started pid] s
          | Some boot \<Rightarrow>
         (case se_probe env of
            None \<Rightarrow> abort [Started pid] s
          | Some info \<Rightarrow>
              if \<not> pi_stopped info then abort [Started pid] s
              else if session \<and> pi_session info \<noteq> pid then abort [Started pid] s
              else let r = spawn_record env session pid boot info s in
              (case store_add j path (se_send env) (se_io env) (se_late env) (se_send2 env) (se_io2 env) r s of
                 (Some e, s1) \<Rightarrow> abort [Started pid] s1
               | (None, s1) \<Rightarrow>
                   if se_releaseErr env then
                     (case abortSpawn env pid of (e, es') \<Rightarrow>
                        (Inl e, [Started pid, RecordWritten r] @ es',
                         if se_waitErr env then s1
                         else snd (retireBounded j path (se_send2 env) (se_io2 env) False (rec_id r) s1)))
                   else (Inr r, [Started pid, RecordWritten r, Released pid], s1)))))"

definition Adopt ::
  "records codec \<Rightarrow> string \<Rightarrow> spawn_env \<Rightarrow> int \<Rightarrow> Store \<Rightarrow> (store_error option + rec) \<times> Store" where
  "Adopt j path env pid s =
    (if pid \<le> 1 then (Inl None, s)
     else case se_boot env of
       None \<Rightarrow> (Inl None, s)
     | Some boot \<Rightarrow>
     (case se_probe env of
       None \<Rightarrow> (Inl None, s)
     | Some info \<Rightarrow>
         let r = spawn_record env (pi_session info = pid) pid boot info s in
         (case store_add j path (se_send env) (se_io env) (se_late env) (se_send2 env) (se_io2 env) r s of
            (Some e, s1) \<Rightarrow> (Inl (Some e), s1)
          | (None, s1) \<Rightarrow> (Inr r, s1))))"

subsection \<open>Lemmas\<close>

text \<open>What a value looks like on disk, and what the operations write.\<close>

definition record_image :: "records codec \<Rightarrow> records \<Rightarrow> bytes" where
  "record_image j v = frame j recordSchema (records_Cores v) (encPay j v)"

definition with_record :: "records \<Rightarrow> rec \<Rightarrow> records" where
  "with_record v r = (retained v (rec_id r))\<lparr>Live := Live (retained v (rec_id r)) @ [r]\<rparr>"

lemma matches_iff: "matches a b \<longleftrightarrow> a = b"
  by (auto simp: matches_def)

lemma holds_iff: "holds v i \<longleftrightarrow> (\<exists>r\<in>set (Live v). rec_id r = i)"
  by (auto simp: holds_def list_ex_iff matches_iff)

lemma holds_with_record [simp]: "holds (with_record v r) (rec_id r)"
  by (simp add: holds_iff with_record_def)

lemma Live_with_record:
  "set (Live (with_record v r)) = insert r {x \<in> set (Live v). rec_id x \<noteq> rec_id r}"
  by (auto simp: with_record_def retained_def matches_iff)

lemma Live_retained: "set (Live (retained v i)) = {x \<in> set (Live v). rec_id x \<noteq> i}"
  by (auto simp: retained_def matches_iff)

lemma owner_kept [simp]: "rs_Owner (with_record v r) = rs_Owner v" "rs_Owner (retained v i) = rs_Owner v"
  by (simp_all add: with_record_def retained_def)

lemma not_holds_retained [simp]: "\<not> holds (retained v i) i"
  by (auto simp: holds_iff Live_retained)

lemma write_verified_eq:
  assumes "codec_ok j records_Cores v" "path \<noteq> []"
  shows "write_verified j path ans v w =
    (case io_write ans of
       Published \<Rightarrow> (if io_read ans then Inl StoreObserve else Inr v, w\<lparr>contents := Some (record_image j v)\<rparr>)
     | FailedBefore \<Rightarrow> (Inl StorePersist, w)
     | FailedAfter \<Rightarrow> (Inl StorePersist, w\<lparr>contents := Some (record_image j v)\<rparr>))"
proof (cases "io_write ans")
  case Published
  have "Load j path recordSchema no_records False (io_archive ans) (w\<lparr>contents := Some (record_image j v)\<rparr>)
      = (Inr \<lparr> Value = v, Cores = records_Cores v, Archived = False \<rparr>, w\<lparr>contents := Some (record_image j v)\<rparr>)"
    by (rule Load_stored [OF assms]) (simp add: record_image_def)
  then show ?thesis
    using Published assms(2)
    by (simp add: write_verified_def Store_def bound_write_def record_image_def [symmetric]) (simp add: Load_def)
qed (use assms(2) in \<open>simp_all add: write_verified_def Store_def bound_write_def record_image_def\<close>)

lemma add_op_eq:
  assumes "codec_ok j records_Cores (with_record (st_value s) r)" "path \<noteq> []"
  shows "add_op j path ans r s =
    (case io_write ans of
       Published \<Rightarrow>
         if io_read ans then (Some StoreObserve, s\<lparr>st_fs := (st_fs s)\<lparr>contents := Some (record_image j (with_record (st_value s) r))\<rparr>\<rparr>)
         else (None, s\<lparr>st_fs := (st_fs s)\<lparr>contents := Some (record_image j (with_record (st_value s) r))\<rparr>,
                  st_value := with_record (st_value s) r\<rparr>)
     | FailedBefore \<Rightarrow> (Some StorePersist, s)
     | FailedAfter \<Rightarrow> (Some StorePersist, s\<lparr>st_fs := (st_fs s)\<lparr>contents := Some (record_image j (with_record (st_value s) r))\<rparr>\<rparr>))"
  using assms
  by (auto simp: add_op_def Let_def with_record_def [symmetric] write_verified_eq split: write_end.splits)

lemma retire_op_eq:
  assumes "codec_ok j records_Cores (retained (st_value s) i)" "path \<noteq> []"
  shows "retire_op j path ans i s =
    (case io_write ans of
       Published \<Rightarrow>
         if io_read ans then (RecordAbandoned, s\<lparr>st_fs := (st_fs s)\<lparr>contents := Some (record_image j (retained (st_value s) i))\<rparr>\<rparr>)
         else (RecordRemoved, s\<lparr>st_fs := (st_fs s)\<lparr>contents := Some (record_image j (retained (st_value s) i))\<rparr>,
                  st_value := retained (st_value s) i\<rparr>)
     | FailedBefore \<Rightarrow> (RecordAbandoned, s)
     | FailedAfter \<Rightarrow> (RecordAbandoned, s\<lparr>st_fs := (st_fs s)\<lparr>contents := Some (record_image j (retained (st_value s) i))\<rparr>\<rparr>))"
  using assms by (auto simp: retire_op_def write_verified_eq split: write_end.splits)

lemma Peek_image:
  assumes "codec_ok j records_Cores v" "path \<noteq> []" "contents w = Some (record_image j v)"
  shows "Peek j path recordSchema no_records False w = Inr (\<lparr> Value = v, Cores = records_Cores v, Archived = False \<rparr>, True)"
  using assms by (simp add: Peek_def record_image_def decode_stored)

lemma store_add_disk:
  assumes "codec_ok j records_Cores (with_record (st_value s) r)" "path \<noteq> []"
    and "store_add j path c ans late c' ans' r s = (None, s')"
  shows "contents (st_fs s') = Some (record_image j (with_record (st_value s) r))"
    and "st_value s' = with_record (st_value s) r"
  using assms by (auto simp: store_add_def add_op_eq split: if_splits write_end.splits)

subsection \<open>Properties\<close>

text \<open>
  A recorded process is on disk. When \<open>add\<close> succeeds, a reader of the file that shares nothing
  with the store sees the new record and every other record the store held, and the owner block;
  when it fails, the writer still holds every record it held.
\<close>

lemma record_add_durable:
  assumes "codec_ok j records_Cores (with_record (st_value s) r)" and "path \<noteq> []"
    and "store_add j path c ans False c' ans' r s = (res, s')"
  shows "(res = None \<longrightarrow> (\<exists>v. Peek j path recordSchema no_records False (st_fs s')
          = Inr (\<lparr> Value = v, Cores = map core_of (Live v), Archived = False \<rparr>, True)
        \<and> st_value s' = v \<and> rs_Owner v = rs_Owner (st_value s)
        \<and> set (Live v) = insert r {x \<in> set (Live (st_value s)). rec_id x \<noteq> rec_id r}))
    \<and> (res \<noteq> None \<longrightarrow> st_value s' = st_value s)"
proof -
  have "\<exists>v. Peek j path recordSchema no_records False (st_fs s')
          = Inr (\<lparr> Value = v, Cores = map core_of (Live v), Archived = False \<rparr>, True)
        \<and> st_value s' = v \<and> rs_Owner v = rs_Owner (st_value s)
        \<and> set (Live v) = insert r {x \<in> set (Live (st_value s)). rec_id x \<noteq> rec_id r}" if "res = None"
    using store_add_disk [OF assms(1,2)] that assms(3) Peek_image [OF assms(1,2), of "st_fs s'"]
    by (auto simp: Live_with_record records_Cores_def)
  moreover have "st_value s' = st_value s" if "res \<noteq> None"
    using that assms by (auto simp: store_add_def add_op_eq split: if_splits write_end.splits)
  ultimately show ?thesis by blast
qed

definition rec_example :: rec where
  "rec_example = \<lparr> rec_PID = 42, rec_Start = 7, rec_Boot = 9, rec_Generation = 5, rec_Session = 0, rec_Comm = [],
     rec_Policy = TerminateOwned \<rparr>"

definition owner_example :: Owner where
  "owner_example = \<lparr> own_PID = 42, own_Start = 7, own_Boot = 9, own_Generation = 5, own_Build = ''v1'' \<rparr>"

text \<open>A codec of the record files of at most one process \<open>rec_example\<close>, in their JSON texts.\<close>

definition rec_codec :: "records codec" where
  "rec_codec = \<lparr>
     encEnv = (\<lambda>cores. bytes_of_string (if cores = [] then ''{\"cores\":[]}''
       else ''{\"cores\":[{\"pid\":42,\"start\":7,\"boot\":9,\"generation\":5}]}'')),
     decEnv = (\<lambda>raw. Some (if raw = bytes_of_string ''{\"cores\":[]}'' then [] else [core_of rec_example])),
     encPay = (\<lambda>v. bytes_of_string (if Live v \<noteq> [] then ''{\"live\":[{\"pid\":42}]}''
       else if rs_Owner v \<noteq> None then ''{\"live\":[],\"owner\":{\"pid\":42}}'' else ''{\"live\":[]}'')),
     decPay = (\<lambda>raw. Some (if raw = bytes_of_string ''{\"live\":[{\"pid\":42}]}'' then no_records\<lparr>Live := [rec_example]\<rparr>
       else if raw = bytes_of_string ''{\"live\":[]}'' then no_records
       else no_records\<lparr>rs_Owner := Some owner_example\<rparr>)) \<rparr>"

lemma bytes_of_string_inject [simp]: "bytes_of_string a = bytes_of_string b \<longleftrightarrow> a = b"
  by (metis string_of_bytes_of_string)

lemma rec_codec_ok:
  "codec_ok rec_codec records_Cores no_records" "codec_ok rec_codec records_Cores (no_records\<lparr>Live := [rec_example]\<rparr>)"
  "codec_ok rec_codec records_Cores (no_records\<lparr>rs_Owner := Some owner_example\<rparr>)"
  by (simp_all add: codec_ok_def rec_codec_def no_records_def records_Cores_def) (simp_all add: bytes_of_string_def)

definition calm_io :: io where "calm_io = \<lparr> io_write = Published, io_read = False, io_archive = Published \<rparr>"
definition open_send :: send where "open_send = \<lparr> send_closed = False, send_expired = False \<rparr>"

definition empty_store :: Store where
  "empty_store = \<lparr> st_fs = \<lparr> contents = None, archives = [] \<rparr>, st_value = no_records, st_generation = 5,
     st_policy = TerminateOwned, st_archived = False \<rparr>"

lemma with_record_example: "with_record (st_value empty_store) rec_example = no_records\<lparr>Live := [rec_example]\<rparr>"
  by (simp add: with_record_def retained_def empty_store_def no_records_def)

text \<open>
  A removed record is gone and nothing else is. \<open>RecordRemoved\<close> means that an independent reader
  of the file no longer sees the identity and still sees every other record and the owner; any
  other ending of the retirement keeps the writer's records.
\<close>

lemma record_retire_exact:
  assumes "codec_ok j records_Cores (retained (st_value s) i)" and "path \<noteq> []"
    and "retireContext j path c ans i s = (fate, s')"
  shows "(fate = RecordRemoved \<longrightarrow> (\<exists>v. Peek j path recordSchema no_records False (st_fs s')
          = Inr (\<lparr> Value = v, Cores = map core_of (Live v), Archived = False \<rparr>, True)
        \<and> st_value s' = v \<and> \<not> holds v i \<and> rs_Owner v = rs_Owner (st_value s)
        \<and> set (Live v) = {x \<in> set (Live (st_value s)). rec_id x \<noteq> i}))
    \<and> (fate = RecordAbandoned \<longrightarrow> st_value s' = st_value s)"
proof -
  have "\<exists>v. Peek j path recordSchema no_records False (st_fs s')
          = Inr (\<lparr> Value = v, Cores = map core_of (Live v), Archived = False \<rparr>, True)
        \<and> st_value s' = v \<and> \<not> holds v i \<and> rs_Owner v = rs_Owner (st_value s)
        \<and> set (Live v) = {x \<in> set (Live (st_value s)). rec_id x \<noteq> i}" if "fate = RecordRemoved"
    using that assms Peek_image [OF assms(1,2), of "st_fs s'"]
    by (auto simp: retireContext_def retire_op_eq Live_retained records_Cores_def split: if_splits write_end.splits)
  moreover have "st_value s' = st_value s" if "fate = RecordAbandoned"
    using that assms by (auto simp: retireContext_def retire_op_eq split: if_splits write_end.splits)
  ultimately show ?thesis by blast
qed

definition one_record_store :: Store where
  "one_record_store = empty_store\<lparr>st_value := no_records\<lparr>Live := [rec_example]\<rparr>\<rparr>"

text \<open>
  C10: opening a store never forgets a recorded process. When the file is readable, the opened store
  holds exactly its records, under the stronger of the two policies; when it belongs to another
  era, the store holds one record per extracted core, each under \<open>PreserveOwned\<close>, and that is
  already on disk in a form this era reads.
\<close>

theorem open_keeps_records:
  assumes "openLocked j path policy random ans w = (Inr s, w')" and "path \<noteq> []"
    and "contents w = Some raw" and "codec_ok j records_Cores (st_value s)"
  shows "(case decode_file j recordSchema raw of
      (Some v, cores) \<Rightarrow>
        map core_of (Live (st_value s)) = map core_of (Live v) \<and> rs_Owner (st_value s) = rs_Owner v
        \<and> (\<forall>r\<in>set (Live (st_value s)). policy = PreserveOwned \<longrightarrow> rec_Policy r = PreserveOwned)
    | (None, cores) \<Rightarrow>
        map core_of (Live (st_value s)) = cores \<and> st_archived s
        \<and> (\<forall>r\<in>set (Live (st_value s)). rec_Policy r = PreserveOwned)
        \<and> Peek j path recordSchema no_records False w'
            = Inr (\<lparr> Value = st_value s, Cores = cores, Archived = False \<rparr>, True))
    \<and> st_generation s \<noteq> 0"
proof -
  have gen: "st_generation s \<noteq> 0"
    using assms(1) by (auto simp: openLocked_def mintGeneration_def Let_def split: option.splits sum.splits if_splits prod.splits)
  have core_pol: "map core_of (map (\<lambda>r. r\<lparr>rec_Policy := p\<rparr>) rs) = map core_of rs" for p rs
    by (simp add: core_of_def)
  have core_res: "map core_of (Live (rescued cores)) = cores" for cores
    by (induction cores) (simp_all add: rescued_def core_of_def)
  show ?thesis
  proof (cases "fst (decode_file j recordSchema raw)")
    case (Some v)
    then obtain cores where d: "decode_file j recordSchema raw = (Some v, cores)" by (cases "decode_file j recordSchema raw") auto
    show ?thesis
      using assms(1-3) d gen core_pol
      by (auto simp: openLocked_def Load_def Let_def split: option.splits if_splits prod.splits)
  next
    case None
    then obtain cores where d: "decode_file j recordSchema raw = (None, cores)" by (cases "decode_file j recordSchema raw") auto
    have v: "st_value s = rescued cores" "st_archived s" "w' = w'"
      and disk: "contents w' = Some (record_image j (st_value s))"
      using assms(1-3) d
      by (auto simp: openLocked_def Load_def archive_def Let_def Store_def bound_write_def record_image_def rescued_def
          split: option.splits if_splits prod.splits write_end.splits)
    have "\<forall>r\<in>set (Live (st_value s)). rec_Policy r = PreserveOwned" by (auto simp: v(1) rescued_def)
    moreover have "records_Cores (st_value s) = cores" using core_res by (simp add: records_Cores_def v(1))
    ultimately show ?thesis
      using d gen v core_res Peek_image [OF assms(4,2) disk] by simp
  qed
qed

text \<open>
  The move aside and the rescue are two steps, and a crash between them loses the processes. After
  the file of another era was moved aside, and before its cores are written back, the record path
  names no file: the next open finds nothing to reclaim although the old file recorded live
  processes. The same state is left by a move aside whose directory sync fails.
\<close>

lemma rescue_crash_window:
  assumes "contents w = Some raw" and "decode_file j recordSchema raw = (None, cores)"
    and "path \<noteq> []" and "mintGeneration random = Some gen"
  shows "\<exists>w1. snd (Load j path recordSchema no_records False Published w) = w1
    \<and> snd (Load j path recordSchema no_records False FailedAfter w) = w1
    \<and> archives w1 = raw # archives w
    \<and> openLocked j path TerminateOwned random ans w1 =
        (if io_read ans then (Inl StoreObserve, w1)
         else (Inr \<lparr> st_fs = w1, st_value = no_records, st_generation = gen, st_policy = TerminateOwned,
                st_archived = False \<rparr>, w1))"
  using assms by (auto simp: Load_def archive_def openLocked_def no_records_def TerminateOwned_def PreserveOwned_def)

definition foreign_raw :: bytes where
  "foreign_raw = frame rec_codec 2 [core_of rec_example] []"

lemma foreign_raw_decodes: "decode_file rec_codec recordSchema foreign_raw = (None, [core_of rec_example])"
proof -
  have "scan rec_codec foreign_raw = (2, [core_of rec_example], [])"
    unfolding foreign_raw_def by (rule scan_frame) (simp_all add: rec_codec_def bytes_of_string_def)
  then show ?thesis by (simp add: decode_file_def recordSchema_def)
qed

theorem open_keeps_records_witness:
  "\<exists>s w'. openLocked rec_codec ''r'' TerminateOwned (Some [1]) calm_io \<lparr> contents = Some (record_image rec_codec (no_records\<lparr>Live := [rec_example]\<rparr>)), archives = [] \<rparr> = (Inr s, w')
    \<and> map core_of (Live (st_value s)) = [core_of rec_example]"
proof -
  let ?v = "no_records\<lparr>Live := [rec_example]\<rparr>"
  let ?w = "\<lparr> contents = Some (record_image rec_codec ?v), archives = [] \<rparr>"
  have d: "decode_file rec_codec recordSchema (record_image rec_codec ?v) = (Some ?v, records_Cores ?v)"
    using decode_stored [OF rec_codec_ok(2)] by (simp add: record_image_def)
  have pol: "rec_Policy rec_example = 0" by (simp add: rec_example_def TerminateOwned_def)
  let ?s = "\<lparr> st_fs = ?w, st_value = ?v, st_generation = 1, st_policy = TerminateOwned, st_archived = False \<rparr>"
  have o: "openLocked rec_codec ''r'' TerminateOwned (Some [1]) calm_io ?w = (Inr ?s, ?w)"
    using d by (simp add: openLocked_def mintGeneration_def get_be_def Load_def calm_io_def policy_valid_def pol
        TerminateOwned_def PreserveOwned_def)
  have "st_value ?s = ?v" by simp
  then show ?thesis
    using open_keeps_records [OF o, of "record_image rec_codec ?v"] rec_codec_ok(2) d o by auto
qed

text \<open>
  The owner block is read back as recorded. After \<open>RecordOwner\<close> succeeds, the lock-free reader
  returns that owner when it is well formed and none when it is not; later record writes keep it.
\<close>

lemma owner_read_back:
  assumes "codec_ok j records_Cores ((st_value s)\<lparr>rs_Owner := Some owner\<rparr>)" and "path \<noteq> []"
    and "RecordOwner j path closed ans owner s = (None, s')"
  shows "ReadOwner j path False (st_fs s') = Some (if wellFormed owner then Some owner else None)
    \<and> Live (st_value s') = Live (st_value s)
    \<and> (codec_ok j records_Cores (with_record (st_value s') r) \<and> store_add j path c ans2 False c' ans' r s' = (None, s'') \<longrightarrow>
        ReadOwner j path False (st_fs s'') = ReadOwner j path False (st_fs s'))"
proof -
  let ?v = "(st_value s)\<lparr>rs_Owner := Some owner\<rparr>"
  have disk: "contents (st_fs s') = Some (record_image j ?v)" and v: "st_value s' = ?v"
    using assms by (auto simp: RecordOwner_def write_verified_eq split: if_splits write_end.splits)
  have read: "ReadOwner j path False (st_fs s') = Some (if wellFormed owner then Some owner else None)"
    using Peek_image [OF assms(1,2) disk] by (simp add: ReadOwner_def)
  have "ReadOwner j path False (st_fs s'') = Some (if wellFormed owner then Some owner else None)"
    if ok: "codec_ok j records_Cores (with_record (st_value s') r)" and a: "store_add j path c ans2 False c' ans' r s' = (None, s'')"
  proof -
    from Peek_image [OF ok assms(2) store_add_disk(1) [OF ok assms(2) a]] show ?thesis by (simp add: ReadOwner_def v)
  qed
  then show ?thesis using read v by simp
qed

text \<open>
  C6: no child runs unrecorded. If a spawn continues its suspended child, the child's identity was
  written before that and is on disk for an independent reader, tagged with this store's
  generation; if the spawn fails after the child was started, the child was killed without ever
  running, and either reaped or reported as not proven reaped.
\<close>

theorem spawn_recorded_before_run:
  assumes "spawn j path env session s = (res, es, s')" and "path \<noteq> []"
    and "\<forall>r. res = Inr r \<longrightarrow> codec_ok j records_Cores (with_record (st_value s) r)"
  shows "(Released pid \<in> set es \<longrightarrow> (\<exists>r v. res = Inr r \<and> es = [Started pid, RecordWritten r, Released pid]
         \<and> rec_PID r = pid \<and> rec_Generation r = st_generation s
         \<and> Peek j path recordSchema no_records False (st_fs s')
             = Inr (\<lparr> Value = v, Cores = map core_of (Live v), Archived = False \<rparr>, True) \<and> r \<in> set (Live v)))
    \<and> (Started pid \<in> set es \<and> Released pid \<notin> set es \<longrightarrow>
         Killed pid \<in> set es \<and> (Reaped pid \<in> set es \<longleftrightarrow> res = Inl (SpawnAborted False)) \<and> (\<exists>e. res = Inl e))"
proof (cases "\<exists>p r. es = [Started p, RecordWritten r, Released p]")
  case True
  then obtain p r where es: "es = [Started p, RecordWritten r, Released p]" by blast
  then have res: "res = Inr r" and r: "rec_PID r = p" "rec_Generation r = st_generation s"
    and add: "store_add j path (se_send env) (se_io env) (se_late env) (se_send2 env) (se_io2 env) r s = (None, s')"
    using assms(1) by (auto simp: spawn_def abortSpawn_def spawn_record_def Let_def split: if_splits option.splits prod.splits)
  have ok: "codec_ok j records_Cores (with_record (st_value s) r)" using assms(3) res by blast
  have "r \<in> set (Live (with_record (st_value s) r))" by (simp add: with_record_def)
  then show ?thesis
    using es res r Peek_image [OF ok assms(2) store_add_disk(1) [OF ok assms(2) add]] by (auto simp: records_Cores_def)
next
  case False
  have "\<exists>e. res = Inl e" "\<forall>p. Released p \<notin> set es"
    "\<forall>p. Started p \<in> set es \<longrightarrow> Killed p \<in> set es \<and> (Reaped p \<in> set es \<longleftrightarrow> res = Inl (SpawnAborted False))"
    using assms(1) False
    by (auto simp: spawn_def abortSpawn_def Let_def split: if_splits option.splits prod.splits)
  then show ?thesis by blast
qed

definition calm_spawn :: spawn_env where
  "calm_spawn = \<lparr> se_valid = True, se_started = Some 42, se_boot = Some 9,
     se_probe = Some \<lparr> pi_start = 7, pi_comm = [], pi_group = 1, pi_session = 1, pi_zombie = False, pi_stopped = True,
       pi_exiting = False \<rparr>,
     se_send = open_send, se_io = calm_io, se_late = False, se_send2 = open_send, se_io2 = calm_io,
     se_releaseErr = False, se_waitErr = False \<rparr>"

theorem spawn_recorded_before_run_witness:
  "\<exists>s' v. spawn rec_codec ''r'' calm_spawn False empty_store
       = (Inr rec_example, [Started 42, RecordWritten rec_example, Released 42], s')
     \<and> Peek rec_codec ''r'' recordSchema no_records False (st_fs s')
         = Inr (\<lparr> Value = v, Cores = map core_of (Live v), Archived = False \<rparr>, True) \<and> rec_example \<in> set (Live v)"
proof -
  have r: "spawn_record calm_spawn False 42 9 (the (se_probe calm_spawn)) empty_store = rec_example"
    by (simp add: spawn_record_def calm_spawn_def empty_store_def rec_example_def)
  have ok: "codec_ok rec_codec records_Cores (with_record (st_value empty_store) rec_example)"
    using rec_codec_ok(2) by (simp add: with_record_example)
  obtain s' where "store_add rec_codec ''r'' open_send calm_io False open_send calm_io rec_example empty_store = (None, s')"
    using add_op_eq [OF ok, of "''r''" calm_io] by (simp add: store_add_def refused_def open_send_def calm_io_def)
  then have sp: "spawn rec_codec ''r'' calm_spawn False empty_store
      = (Inr rec_example, [Started 42, RecordWritten rec_example, Released 42], s')"
    using r by (simp add: spawn_def calm_spawn_def Let_def)
  show ?thesis using spawn_recorded_before_run [OF sp, of 42] ok sp by auto
qed

end
