(* ===== verification/Float64.thy ===== *)
theory Float64
  imports Prelude Complex_Main "HOL-Library.Log_Nat"
begin

text \<open>
  The floating point of Go as far as the deadline arithmetic uses it: \<open>float64\<close> values that are not
  negative, rounded to the nearest with ties to even, from the subnormal numbers up. The largest
  value the program forms is a duration below \<open>2 ^ 63\<close>, so there is no overflow.

  A rounded value is a rational number; \<open>rnd64\<close> is monotone and leaves its own values unchanged,
  which is what every bound on a fraction of a duration rests on.
\<close>

named_theorems budget_simps "unfolding rules of the deadline arithmetic"

subsection \<open>Rounding\<close>

definition exponent :: "rat \<Rightarrow> int" where
  "exponent x = (case quotient_of x of (a, b) \<Rightarrow>
     let e = bitlen a - bitlen b in if x < 2 powi e then e - 1 else e)"

definition unit_exponent :: "rat \<Rightarrow> int" where
  "unit_exponent x = max (exponent x) (- 1022) - 52"

definition round_even :: "rat \<Rightarrow> int" where
  "round_even y =
    (let n = \<lfloor>y\<rfloor>; r = y - of_int n in
     if r < 1 / 2 then n else if r > 1 / 2 then n + 1 else if even n then n else n + 1)"

definition rnd64 :: "rat \<Rightarrow> rat" where
  "rnd64 x = (if x \<le> 0 then 0 else of_int (round_even (x / 2 powi unit_exponent x)) * 2 powi unit_exponent x)"

text \<open>A \<open>float64\<close> argument: not a number, an infinity, or a finite value.\<close>

datatype float64 = NaN | PosInf | NegInf | Fin rat

subsection \<open>Rounding to an integer\<close>

lemma round_even_int [simp]: "round_even (of_int n) = n"
  by (simp add: round_even_def)

lemma round_even_bounds: "y - 1 / 2 \<le> of_int (round_even y) \<and> of_int (round_even y) \<le> y + 1 / 2"
  by (auto simp: round_even_def Let_def) linarith+

lemma round_even_floor: "round_even y = \<lfloor>y\<rfloor> \<or> round_even y = \<lfloor>y\<rfloor> + 1"
  by (auto simp: round_even_def Let_def)

lemma round_even_mono: "y \<le> z \<Longrightarrow> round_even y \<le> round_even z"
proof (cases "\<lfloor>y\<rfloor> = \<lfloor>z\<rfloor>")
  case True
  assume "y \<le> z"
  then show ?thesis using True by (auto simp: round_even_def Let_def)
next
  case False
  assume "y \<le> z"
  then have "\<lfloor>y\<rfloor> + 1 \<le> \<lfloor>z\<rfloor>" using False floor_mono [of y z] by linarith
  then show ?thesis using round_even_floor [of y] round_even_floor [of z] by linarith
qed

lemma round_even_le_int: "y \<le> of_int n \<Longrightarrow> round_even y \<le> n"
  using round_even_mono [of y "of_int n"] by simp

lemma int_le_round_even: "of_int n \<le> y \<Longrightarrow> n \<le> round_even y"
  using round_even_mono [of "of_int n" y] by simp

subsection \<open>Powers of two\<close>

lemma two_powi_pos [simp]: "(0 :: rat) < 2 powi e"
  by (simp add: power_int_def)

lemma two_powi_nz [simp]: "(2 :: rat) powi e \<noteq> 0"
  using two_powi_pos [of e] by linarith

lemma two_powi_add: "(2 :: rat) powi (a + b) = 2 powi a * 2 powi b"
  by (simp add: power_int_add)

lemma two_powi_le: "a \<le> b \<Longrightarrow> (2 :: rat) powi a \<le> 2 powi b"
  by (simp add: power_int_increasing)

lemma two_powi_less_imp: "(2 :: rat) powi a < 2 powi b \<Longrightarrow> a < b"
  using two_powi_le [of b a] by linarith

lemma two_powi_nonneg: "0 \<le> d \<Longrightarrow> (2 :: rat) powi d = of_int (2 ^ nat d)"
  by (simp add: power_int_def)

lemma two_powi_div: "(2 :: rat) powi a / 2 powi b = 2 powi (a - b)"
  by (simp add: power_int_diff)

lemma exponent_bounds:
  assumes "0 < x"
  shows "2 powi exponent x \<le> x \<and> x < 2 powi (exponent x + 1)"
proof -
  obtain a b where q: "quotient_of x = (a, b)" by fastforce
  have x: "x = of_int a / of_int b" and b: "0 < b"
    using quotient_of_div [OF q] quotient_of_denom_pos [OF q] by auto
  then have a: "0 < a" using assms by (simp add: zero_less_divide_iff)
  define la lb where "la = bitlen a" and "lb = bitlen b"
  have ab: "2 ^ nat (la - 1) \<le> a" "a < 2 ^ nat la" "2 ^ nat (lb - 1) \<le> b" "b < 2 ^ nat lb"
    and pos: "1 \<le> la" "1 \<le> lb"
    using bitlen_bounds [OF a] bitlen_bounds [OF b] a b bitlen_nonneg [of a] bitlen_nonneg [of b]
      bitlen_eq_zero_iff [of a] bitlen_eq_zero_iff [of b] unfolding la_def lb_def by auto
  have p: "(2 :: rat) powi n = 2 ^ nat n" if "0 \<le> n" for n using that by (simp add: power_int_def)
  have "of_int (2 ^ nat (la - 1)) \<le> (of_int a :: rat)" "of_int a < (of_int (2 ^ nat la) :: rat)"
    "of_int (2 ^ nat (lb - 1)) \<le> (of_int b :: rat)" "of_int b < (of_int (2 ^ nat lb) :: rat)"
    unfolding of_int_le_iff of_int_less_iff using ab by auto
  then have r: "2 powi (la - 1) \<le> (of_int a :: rat)" "(of_int a :: rat) < 2 powi la"
    "2 powi (lb - 1) \<le> (of_int b :: rat)" "(of_int b :: rat) < 2 powi lb"
    using pos by (simp_all add: p)
  have bp: "(0 :: rat) < of_int b" using b by simp
  have up: "x < 2 powi (la - lb + 1)"
  proof -
    have "2 powi (la - lb + 1) * (of_int b :: rat) \<ge> 2 powi (la - lb + 1) * 2 powi (lb - 1)"
      using r(3) by (simp add: mult_left_mono)
    then have "(of_int a :: rat) < 2 powi (la - lb + 1) * of_int b"
      using r(2) by (simp flip: two_powi_add)
    then show ?thesis using bp by (simp add: x pos_divide_less_eq)
  qed
  have low: "2 powi (la - lb - 1) < x"
  proof -
    have "2 powi (la - lb - 1) * (of_int b :: rat) < 2 powi (la - lb - 1) * 2 powi lb"
      using r(4) by simp
    then have "2 powi (la - lb - 1) * (of_int b :: rat) < of_int a"
      using r(1) by (simp flip: two_powi_add)
    then show ?thesis using bp by (simp add: x pos_less_divide_eq)
  qed
  show ?thesis
    using up low by (auto simp: exponent_def q la_def lb_def Let_def)
qed

lemma exponent_mono: "0 < x \<Longrightarrow> x \<le> y \<Longrightarrow> exponent x \<le> exponent y"
proof -
  assume "0 < x" "x \<le> y"
  then have "2 powi exponent x < (2 :: rat) powi (exponent y + 1)"
    using exponent_bounds [of x] exponent_bounds [of y] by linarith
  then show ?thesis using two_powi_less_imp by fastforce
qed

subsection \<open>Rounding is monotone and idempotent\<close>

lemma scaled_upper:
  assumes "0 < x"
  shows "x / 2 powi unit_exponent x \<le> of_int (2 ^ 53)"
proof -
  have "x < 2 powi (max (exponent x) (- 1022) + 1)"
    using exponent_bounds [OF assms] two_powi_le [of "exponent x + 1" "max (exponent x) (- 1022) + 1"] by simp
  then have "x / 2 powi unit_exponent x < 2 powi (max (exponent x) (- 1022) + 1) / 2 powi unit_exponent x"
    by (simp add: divide_strict_right_mono)
  also have "\<dots> = 2 powi 53" by (simp add: two_powi_div unit_exponent_def)
  finally show ?thesis by (simp add: two_powi_nonneg)
qed

lemma rnd64_nonneg [simp]: "0 \<le> rnd64 x"
proof (cases "x \<le> 0")
  case False
  then have "0 \<le> round_even (x / 2 powi unit_exponent x)" by (intro int_le_round_even) simp
  then show ?thesis using False by (simp add: rnd64_def)
qed (simp add: rnd64_def)

lemma rnd64_zero [simp]: "rnd64 0 = 0"
  by (simp add: rnd64_def)

lemma rnd64_upper: "0 < x \<Longrightarrow> rnd64 x \<le> 2 powi (unit_exponent x + 53)"
proof -
  assume x: "0 < x"
  have "rnd64 x \<le> of_int (2 ^ 53) * 2 powi unit_exponent x"
    using round_even_le_int [OF scaled_upper [OF x]] x
    by (simp add: rnd64_def mult_right_mono del: of_int_power of_int_numeral)
  then show ?thesis by (simp add: two_powi_add two_powi_nonneg mult.commute)
qed

lemma rnd64_lower:
  assumes "0 < x" and "- 1022 \<le> exponent x"
  shows "2 powi (unit_exponent x + 52) \<le> rnd64 x"
proof -
  have "2 powi (unit_exponent x + 52) \<le> x" using exponent_bounds [OF assms(1)] assms(2) by (simp add: unit_exponent_def max_def)
  then have "of_int (2 ^ 52) \<le> x / 2 powi unit_exponent x"
    by (simp add: pos_le_divide_eq two_powi_add two_powi_nonneg mult.commute)
  then have "2 ^ 52 \<le> round_even (x / 2 powi unit_exponent x)" by (rule int_le_round_even)
  then have "of_int (2 ^ 52) * 2 powi unit_exponent x \<le> of_int (round_even (x / 2 powi unit_exponent x)) * (2 :: rat) powi unit_exponent x"
    by (intro mult_right_mono) (simp_all only: of_int_le_iff two_powi_pos less_imp_le)
  then show ?thesis using assms(1) by (simp add: rnd64_def two_powi_add two_powi_nonneg mult.commute)
qed

lemma rnd64_mono: "x \<le> y \<Longrightarrow> rnd64 x \<le> rnd64 y"
proof (cases "x \<le> 0")
  case True
  assume "x \<le> y"
  then show ?thesis using True rnd64_nonneg [of y] by (simp add: rnd64_def)
next
  case False
  assume le: "x \<le> y"
  then have x: "0 < x" and y: "0 < y" using False by auto
  show ?thesis
  proof (cases "unit_exponent x = unit_exponent y")
    case True
    have "x / 2 powi unit_exponent y \<le> y / 2 powi unit_exponent y" using le by (simp add: divide_right_mono)
    then show ?thesis using round_even_mono x y by (simp add: rnd64_def True mult_right_mono)
  next
    case False
    then have u: "unit_exponent x < unit_exponent y" and ey: "- 1022 \<le> exponent y"
      using exponent_mono [OF x le] by (auto simp: unit_exponent_def)
    have "rnd64 x \<le> 2 powi (unit_exponent x + 53)" by (rule rnd64_upper [OF x])
    also have "\<dots> \<le> 2 powi (unit_exponent y + 52)" using u by (intro two_powi_le) simp
    also have "\<dots> \<le> rnd64 y" by (rule rnd64_lower [OF y ey])
    finally show ?thesis .
  qed
qed

lemma rnd64_multiple:
  assumes "unit_exponent x \<le> e" and "x = of_int k * 2 powi e" and "0 < x"
  shows "rnd64 x = x"
proof -
  have "x / 2 powi unit_exponent x = of_int k * 2 powi (e - unit_exponent x)"
    by (simp add: assms(2) two_powi_div flip: times_divide_eq_right)
  also have "\<dots> = of_int (k * 2 ^ nat (e - unit_exponent x))"
    using assms(1) by (simp add: two_powi_nonneg)
  finally have "round_even (x / 2 powi unit_exponent x) = k * 2 ^ nat (e - unit_exponent x)"
    by (simp only: round_even_int)
  moreover have "of_int (k * 2 ^ nat (e - unit_exponent x)) * 2 powi unit_exponent x = x"
  proof -
    have "(of_int (2 ^ nat (e - unit_exponent x)) :: rat) = 2 powi (e - unit_exponent x)"
      using assms(1) by (simp add: two_powi_nonneg)
    then have "of_int (k * 2 ^ nat (e - unit_exponent x)) * 2 powi unit_exponent x
        = of_int k * (2 powi (e - unit_exponent x) * (2 :: rat) powi unit_exponent x)"
      by (simp only: of_int_mult mult.assoc)
    also have "2 powi (e - unit_exponent x) * (2 :: rat) powi unit_exponent x = 2 powi e" by (simp flip: two_powi_add)
    finally show ?thesis using assms(2) by simp
  qed
  ultimately show ?thesis using assms(3) by (simp add: rnd64_def del: of_int_mult of_int_power)
qed

lemma exponent_less: "0 < x \<Longrightarrow> x < 2 powi e \<Longrightarrow> exponent x < e"
  using exponent_bounds [of x] two_powi_less_imp [of "exponent x" e] by linarith

text \<open>A multiple of a unit with at most 53 significant bits is a \<open>float64\<close>.\<close>

lemma rnd64_exact:
  assumes "x = of_int k * 2 powi e" and "0 < k" and "k \<le> 2 ^ 53" and "- 1074 \<le> e"
  shows "rnd64 x = x"
proof (cases "k = 2 ^ 53")
  case True
  have x: "x = of_int 2 * 2 powi (e + 52)" using True by (simp add: assms(1) two_powi_add two_powi_nonneg)
  have p: "0 < x" using assms(1,2) by simp
  have "x < 2 powi (e + 54)" by (simp add: x two_powi_add two_powi_nonneg)
  then have "exponent x < e + 54" by (rule exponent_less [OF p])
  then have "unit_exponent x \<le> e + 52" using assms(4) by (auto simp: unit_exponent_def)
  then show ?thesis using rnd64_multiple x p by blast
next
  case False
  then have "k < 2 ^ 53" using assms(3) by simp
  then have "(of_int k :: rat) < of_int (2 ^ 53)" by (simp only: of_int_less_iff)
  then have "x < 2 powi (e + 53)" by (simp add: assms(1) two_powi_add two_powi_nonneg mult.commute)
  then have "exponent x < e + 53" using assms(1,2) by (intro exponent_less) simp_all
  then have "unit_exponent x \<le> e" using assms(4) by (auto simp: unit_exponent_def)
  then show ?thesis using rnd64_multiple [of x e k] assms(1,2) by simp
qed

lemma rnd64_idem [simp]: "rnd64 (rnd64 x) = rnd64 x"
proof (cases "0 < rnd64 x")
  case True
  then have x: "0 < x" by (simp add: rnd64_def split: if_splits)
  define k where "k = round_even (x / 2 powi unit_exponent x)"
  have r: "rnd64 x = of_int k * 2 powi unit_exponent x" using x by (simp add: rnd64_def k_def)
  have "(0 :: rat) < of_int k" using True two_powi_pos [of "unit_exponent x"] unfolding r zero_less_mult_iff by linarith
  then have "0 < k" by simp
  moreover have "k \<le> 2 ^ 53" unfolding k_def by (rule round_even_le_int [OF scaled_upper [OF x]])
  ultimately show ?thesis using rnd64_exact [OF r] by (simp add: unit_exponent_def)
next
  case False
  then have "rnd64 x = 0" using rnd64_nonneg [of x] by linarith
  then show ?thesis by simp
qed

lemma rnd64_int: "0 \<le> n \<Longrightarrow> n \<le> 2 ^ 53 \<Longrightarrow> rnd64 (of_int n) = of_int n"
  by (cases "n = 0") (use rnd64_exact [of "of_int n" n 0] in auto)

lemma rnd64_below:
  assumes "rnd64 s = s" and "s < rnd64 x"
  shows "s \<le> x"
  using rnd64_mono [of x s] assms by linarith

text \<open>The relative error of a normal number.\<close>

lemma rnd64_error:
  assumes "2 powi (- 1022) \<le> x"
  shows "\<bar>rnd64 x - x\<bar> \<le> x / 2 ^ 53"
proof -
  have x: "0 < x" using assms two_powi_pos [of "- 1022"] by linarith
  let ?u = "2 powi unit_exponent x :: rat"
  have "2 powi (- 1022) < (2 :: rat) powi (exponent x + 1)" using exponent_bounds [OF x] assms by linarith
  then have "- 1022 < exponent x + 1" by (rule two_powi_less_imp)
  then have ue: "unit_exponent x = exponent x - 52" by (simp add: unit_exponent_def max_def)
  have "\<bar>of_int (round_even (x / ?u)) - x / ?u\<bar> \<le> 1 / 2" using round_even_bounds [of "x / ?u"] unfolding abs_le_iff by linarith
  then have "\<bar>of_int (round_even (x / ?u)) - x / ?u\<bar> * ?u \<le> 1 / 2 * ?u" by (intro mult_right_mono) simp_all
  moreover have "\<bar>of_int (round_even (x / ?u)) - x / ?u\<bar> * ?u = \<bar>rnd64 x - x\<bar>"
    using x abs_mult_pos [of ?u "of_int (round_even (x / ?u)) - x / ?u"] by (simp add: rnd64_def left_diff_distrib)
  moreover have "1 / 2 * ?u \<le> x / 2 ^ 53"
    using exponent_bounds [OF x] by (simp add: ue power_int_diff)
  ultimately show ?thesis by linarith
qed

end
