(* ===== verification/ProcReap.thy ===== *)
theory ProcReap
  imports ProcStore Float64
begin

text \<open>
  The reap ladder, \<^verbatim>\<open>internal/proc/reap.go\<close>, with the observation functions it shares
  (observe.go, preserve.go) and the two kinds of hold it signals through (hold_linux.go,
  hold_darwin.go).

  The ladder runs against a \<open>world\<close>: the process table at every instant, the boot session, the
  answers of calls that can fail, the clock and the end of the caller's context. Each call to the
  outside takes one instant, so the table may change arbitrarily between any two calls. A process
  carries a serial number of its own beside the kernel start stamp the code reads, so that a reused
  PID is a different process even when its stamp is the same. The loops are partial functions:
  \<open>None\<close> is a loop that never ends. Every signal delivered is an event of the result.
\<close>

subsection \<open>The world\<close>

record process =
  pr_serial :: nat
  pr_info :: procInfo

record groupMember =
  gm_pid :: int
  gm_info :: procInfo

datatype errno = EPERM | EOTHER

record world =
  w_table :: "nat \<Rightarrow> int \<Rightarrow> process option"
  w_boot :: u64
  w_bootErr :: "nat \<Rightarrow> bool"
  w_probeErr :: "nat \<Rightarrow> bool"
  w_holdErr :: "nat \<Rightarrow> bool"
  w_sigErr :: "nat \<Rightarrow> errno option"
  w_groupGone :: "nat \<Rightarrow> int \<Rightarrow> bool"
  w_members :: "nat \<Rightarrow> int \<Rightarrow> groupMember list option"
  w_ended :: "nat \<Rightarrow> bool"
  w_now :: "nat \<Rightarrow> int"
  w_deadline :: int
  w_self :: int

datatype signal = SIGTERM | SIGKILL

datatype event = Signalled nat signal nat | GroupSignalled nat signal int

datatype Reap = reapUndetermined | ReapAbsent | ReapCrossBoot | ReapReused | ReapTerminated

datatype reap_error = BootFailed | UnsafeIdentity | HoldFailed | ProbeFailed | SignalFailed errno
  | ContextEnded | ErrUnsettled | NoSessionIdentity | EnumerateFailed | InvalidGroup

type_synonym verdict = "reap_error + Reap"

datatype probe_answer = NoProc | ProbeError | Info procInfo

definition probe :: "world \<Rightarrow> nat \<Rightarrow> int \<Rightarrow> probe_answer" where
  "probe w t pid =
    (if w_probeErr w t then ProbeError
     else case w_table w t pid of None \<Rightarrow> NoProc | Some p \<Rightarrow> Info (pr_info p))"

definition seen_as :: "identity \<Rightarrow> u64 \<Rightarrow> procInfo \<Rightarrow> identity" where
  "seen_as i boot info = \<lparr> id_pid = id_pid i, id_start = pi_start info, id_boot = boot \<rparr>"

subsection \<open>Observation (observe.go)\<close>

definition observe :: "world \<Rightarrow> identity \<Rightarrow> nat \<Rightarrow> (reap_error + Reap \<times> bool) \<times> nat" where
  "observe w i t =
    (if w_bootErr w t then (Inl BootFailed, t + 1)
     else if crossBoot i (w_boot w) then (Inr (ReapCrossBoot, True), t + 1)
     else (case probe w (t + 1) (id_pid i) of
         NoProc \<Rightarrow> Inr (ReapAbsent, True)
       | ProbeError \<Rightarrow> Inl ProbeFailed
       | Info info \<Rightarrow>
           if \<not> matches i (seen_as i (w_boot w) info) then Inr (ReapReused, True)
           else if pi_zombie info then Inr (ReapAbsent, True)
           else Inr (reapUndetermined, False), t + 2))"

subsection \<open>Holds (hold_linux.go, hold_darwin.go)\<close>

datatype held = PidfdHold "nat option" | PidHold

definition hold :: "bool \<Rightarrow> world \<Rightarrow> nat \<Rightarrow> int \<Rightarrow> held option" where
  "hold pidfd w t pid =
    (if \<not> pidfd then Some PidHold
     else if w_holdErr w t then None
     else Some (PidfdHold (map_option pr_serial (w_table w t pid))))"

text \<open>
  \<open>heldGone\<close>: \<open>Inr True\<close> is \<open>ESRCH\<close>. A pidfd reaches only the process it was opened on; a bare PID
  reaches whatever it names.
\<close>

definition target_of :: "held \<Rightarrow> world \<Rightarrow> nat \<Rightarrow> int \<Rightarrow> nat option" where
  "target_of h w t pid =
    (case h of
       PidHold \<Rightarrow> map_option pr_serial (w_table w t pid)
     | PidfdHold None \<Rightarrow> None
     | PidfdHold (Some n) \<Rightarrow>
         (case w_table w t pid of None \<Rightarrow> None | Some p \<Rightarrow> if pr_serial p = n then Some n else None))"

definition heldGone :: "held \<Rightarrow> world \<Rightarrow> nat \<Rightarrow> int \<Rightarrow> signal \<Rightarrow> (reap_error + bool) \<times> event list" where
  "heldGone h w t pid sig =
    (case target_of h w t pid of
       None \<Rightarrow> (Inr True, [])
     | Some n \<Rightarrow>
         (case w_sigErr w t of
            Some e \<Rightarrow> (Inl (SignalFailed e), [])
          | None \<Rightarrow> (Inr False, [Signalled t sig n])))"

subsection \<open>The single-process ladder (reap.go)\<close>

definition SettleGrace :: int where "SettleGrace = 5000000000"

definition termShare :: rat where "termShare = rnd64 (6 / 10)"

definition proc_fractionOf :: "int \<Rightarrow> rat \<Rightarrow> int" where
  "proc_fractionOf left share = (if left \<le> 0 then 0 else \<lfloor>rnd64 (share * rnd64 (of_int left))\<rfloor>)"

definition graceShare :: "world \<Rightarrow> nat \<Rightarrow> int" where
  "graceShare w t = (let left = w_deadline w - w_now w t in max 0 (min (proc_fractionOf left termShare) (left - SettleGrace)))"

partial_function (option) awaitSettlement :: "world \<Rightarrow> identity \<Rightarrow> nat \<Rightarrow> (verdict \<times> nat) option" where
  "awaitSettlement w i t =
    (case probe w t (id_pid i) of
       NoProc \<Rightarrow> Some (Inr ReapTerminated, t + 1)
     | ProbeError \<Rightarrow> Some (Inl ProbeFailed, t + 1)
     | Info info \<Rightarrow>
         if \<not> matches i (seen_as i (w_boot w) info) \<or> pi_zombie info then Some (Inr ReapTerminated, t + 1)
         else if w_ended w (t + 1) then Some (Inl ErrUnsettled, t + 2)
         else awaitSettlement w i (t + 3))"

text \<open>
  The grace loop of \<open>reapOrphan\<close>: \<open>Inl\<close> is a verdict reached during grace, \<open>Inr ()\<close> the grace used up.
\<close>

partial_function (option) graceLoop :: "world \<Rightarrow> identity \<Rightarrow> int \<Rightarrow> nat \<Rightarrow> ((verdict + unit) \<times> nat) option" where
  "graceLoop w i grace t =
    (if w_ended w t then Some (Inl (Inl ContextEnded), t + 1)
     else case probe w (t + 1) (id_pid i) of
       NoProc \<Rightarrow> Some (Inl (Inr ReapTerminated), t + 2)
     | ProbeError \<Rightarrow> Some (Inl (Inl ProbeFailed), t + 2)
     | Info info \<Rightarrow>
         if \<not> matches i (seen_as i (w_boot w) info) then Some (Inl (Inr ReapReused), t + 2)
         else if pi_zombie info then Some (Inl (Inr ReapTerminated), t + 2)
         else if grace \<le> w_now w (t + 2) then Some (Inr (), t + 3)
         else graceLoop w i grace (t + 3))"

definition reapOrphan ::
  "world \<Rightarrow> identity \<Rightarrow> held \<Rightarrow> nat \<Rightarrow> (verdict \<times> event list \<times> nat) option" where
  "reapOrphan w i h t =
    (case heldGone h w t (id_pid i) SIGTERM of
       (Inl e, es) \<Rightarrow> Some (Inl e, es, t + 1)
     | (Inr True, es) \<Rightarrow> Some (Inr ReapAbsent, es, t + 1)
     | (Inr False, es) \<Rightarrow>
         (case graceLoop w i (w_now w (t + 1) + graceShare w (t + 1)) (t + 2) of
            None \<Rightarrow> None
          | Some (Inl v, t1) \<Rightarrow> Some (v, es, t1)
          | Some (Inr used, t1) \<Rightarrow>
              (case heldGone h w t1 (id_pid i) SIGKILL of
                 (Inl e, es') \<Rightarrow> Some (Inl e, es @ es', t1 + 1)
               | (Inr True, es') \<Rightarrow> Some (Inr ReapTerminated, es @ es', t1 + 1)
               | (Inr False, es') \<Rightarrow>
                   (case awaitSettlement w i (t1 + 1) of
                      None \<Rightarrow> None
                    | Some (v, t2) \<Rightarrow> Some (v, es @ es', t2)))))"

subsection \<open>Dedicated sessions\<close>

text \<open>\<open>verifiedMembers\<close>: the re-verification of each enumerated member, one probe each.\<close>

primrec verify_each :: "world \<Rightarrow> int \<Rightarrow> groupMember list \<Rightarrow> nat \<Rightarrow> (reap_error + groupMember list) \<times> nat" where
  "verify_each w session [] t = (Inr [], t)"
| "verify_each w session (m # ms) t =
    (if w_ended w t then (Inl ErrUnsettled, t + 1)
     else case probe w (t + 1) (gm_pid m) of
       ProbeError \<Rightarrow> (Inl ProbeFailed, t + 2)
     | NoProc \<Rightarrow> verify_each w session ms (t + 2)
     | Info info \<Rightarrow>
         if pi_start (gm_info m) \<noteq> pi_start info \<or> pi_session info \<noteq> session \<or> pi_zombie info
         then verify_each w session ms (t + 2)
         else (case verify_each w session ms (t + 2) of
                 (Inl e, t') \<Rightarrow> (Inl e, t')
               | (Inr kept, t') \<Rightarrow> (Inr (\<lparr> gm_pid = gm_pid m, gm_info = info \<rparr> # kept), t')))"

definition verifiedMembers :: "world \<Rightarrow> int \<Rightarrow> nat \<Rightarrow> (reap_error + groupMember list) \<times> nat" where
  "verifiedMembers w session t =
    (if w_ended w t then (Inl ErrUnsettled, t + 1)
     else case w_members w (t + 1) session of
       None \<Rightarrow> (Inl EnumerateFailed, t + 2)
     | Some ms \<Rightarrow> verify_each w session ms (t + 2))"

text \<open>\<open>signalSessionGroups\<close>, the loop over the sorted distinct groups.\<close>

fun signal_groups ::
  "world \<Rightarrow> int \<Rightarrow> signal \<Rightarrow> int list \<Rightarrow> bool \<Rightarrow> nat \<Rightarrow> (reap_error + bool) \<times> event list \<times> nat" where
  "signal_groups w session sig [] allGone t = (Inr allGone, [], t)"
| "signal_groups w session sig (g # gs) allGone t =
    (if w_ended w t then (Inl ErrUnsettled, [], t + 1)
     else if w_groupGone w (t + 1) g then signal_groups w session sig gs allGone (t + 2)
     else case w_sigErr w (t + 1) of
       Some EOTHER \<Rightarrow> (Inl (SignalFailed EOTHER), [], t + 2)
     | Some EPERM \<Rightarrow>
         (case verifiedMembers w session (t + 2) of
            (Inl e, t') \<Rightarrow> (Inl e, [], t')
          | (Inr remaining, t') \<Rightarrow>
              if remaining \<noteq> [] then (Inl (SignalFailed EPERM), [], t') else (Inr True, [], t'))
     | None \<Rightarrow>
         (case signal_groups w session sig gs False (t + 2) of
            (r, es, t') \<Rightarrow> (r, GroupSignalled (t + 1) sig g # es, t')))"

definition signalSessionGroups ::
  "world \<Rightarrow> int \<Rightarrow> groupMember list \<Rightarrow> signal \<Rightarrow> nat \<Rightarrow> (reap_error + bool) \<times> event list \<times> nat" where
  "signalSessionGroups w session members sig t =
    (if list_ex (\<lambda>m. pi_group (gm_info m) \<le> 1) members then (Inl InvalidGroup, [], t)
     else signal_groups w session sig (sort (remdups (map (\<lambda>m. pi_group (gm_info m)) members))) True t)"

partial_function (option) awaitSessionSettlement ::
  "world \<Rightarrow> int \<Rightarrow> event list \<Rightarrow> nat \<Rightarrow> (verdict \<times> event list \<times> nat) option" where
  "awaitSessionSettlement w session es t =
    (case verifiedMembers w session t of
       (Inl e, t1) \<Rightarrow> Some (Inl e, es, t1)
     | (Inr members, t1) \<Rightarrow>
         if members = [] then Some (Inr ReapTerminated, es, t1)
         else if w_ended w t1 then Some (Inl ErrUnsettled, es, t1 + 1)
         else (case signalSessionGroups w session members SIGKILL (t1 + 1) of
             (Inl e, es', t2) \<Rightarrow> Some (Inl e, es @ es', t2)
           | (Inr settled, es', t2) \<Rightarrow>
               if settled then Some (Inr ReapTerminated, es @ es', t2)
               else awaitSessionSettlement w session (es @ es') (t2 + 1)))"

partial_function (option) sessionGrace :: "world \<Rightarrow> int \<Rightarrow> int \<Rightarrow> nat \<Rightarrow> ((verdict + unit) \<times> nat) option" where
  "sessionGrace w session grace t =
    (if w_ended w t then Some (Inl (Inl ContextEnded), t + 1)
     else case verifiedMembers w session (t + 1) of
       (Inl e, t1) \<Rightarrow> Some (Inl (Inl e), t1)
     | (Inr members, t1) \<Rightarrow>
         if members = [] then Some (Inl (Inr ReapTerminated), t1)
         else if grace \<le> w_now w t1 then Some (Inr (), t1 + 1)
         else sessionGrace w session grace (t1 + 1))"

definition settleSession :: "world \<Rightarrow> int \<Rightarrow> int \<Rightarrow> nat \<Rightarrow> (verdict \<times> event list \<times> nat) option" where
  "settleSession w session termGrace t =
    (case verifiedMembers w session t of
       (Inl e, t1) \<Rightarrow> Some (Inl e, [], t1)
     | (Inr members, t1) \<Rightarrow>
         if members = [] then Some (Inr ReapAbsent, [], t1)
         else (case signalSessionGroups w session members SIGTERM t1 of
             (Inl e, es, t2) \<Rightarrow> Some (Inl e, es, t2)
           | (Inr True, es, t2) \<Rightarrow> Some (Inr ReapAbsent, es, t2)
           | (Inr False, es, t2) \<Rightarrow>
               (case sessionGrace w session (w_now w t2 + termGrace) (t2 + 1) of
                  None \<Rightarrow> None
                | Some (Inl v, t3) \<Rightarrow> Some (v, es, t3)
                | Some (Inr used, t3) \<Rightarrow> awaitSessionSettlement w session es t3)))"

definition reapSession ::
  "world \<Rightarrow> identity \<Rightarrow> int \<Rightarrow> probe_answer \<Rightarrow> int \<Rightarrow> nat \<Rightarrow> (verdict \<times> event list \<times> nat) option" where
  "reapSession w i session leader termGrace t =
    (if session \<le> 1 \<or> session \<noteq> id_pid i then Some (Inl NoSessionIdentity, [], t)
     else case leader of
       ProbeError \<Rightarrow> Some (Inl ProbeFailed, [], t)
     | Info info \<Rightarrow>
         if \<not> matches i (seen_as i (w_boot w) info) then Some (Inr ReapReused, [], t)
         else settleSession w session termGrace t
     | NoProc \<Rightarrow> settleSession w session termGrace t)"

definition reapIdentityWithGrace ::
  "bool \<Rightarrow> world \<Rightarrow> identity \<Rightarrow> int \<Rightarrow> int \<Rightarrow> nat \<Rightarrow> (verdict \<times> event list \<times> nat) option" where
  "reapIdentityWithGrace pidfd w i session termGrace t =
    (if w_bootErr w t then Some (Inl BootFailed, [], t + 1)
     else if crossBoot i (w_boot w) then Some (Inr ReapCrossBoot, [], t + 1)
     else if unsafe (w_self w) i then Some (Inl UnsafeIdentity, [], t + 1)
     else if session \<noteq> 0 then reapSession w i session (probe w (t + 1) (id_pid i)) termGrace (t + 2)
     else (case hold pidfd w (t + 1) (id_pid i) of
         None \<Rightarrow> Some (Inl HoldFailed, [], t + 2)
       | Some h \<Rightarrow>
           (case probe w (t + 2) (id_pid i) of
              NoProc \<Rightarrow> Some (Inr ReapAbsent, [], t + 3)
            | ProbeError \<Rightarrow> Some (Inl ProbeFailed, [], t + 3)
            | Info info \<Rightarrow>
                if \<not> matches i (seen_as i (w_boot w) info) then Some (Inr ReapReused, [], t + 3)
                else if pi_zombie info then Some (Inr ReapAbsent, [], t + 3)
                else reapOrphan w i h (t + 3))))"

definition reapIdentity ::
  "bool \<Rightarrow> world \<Rightarrow> identity \<Rightarrow> int \<Rightarrow> nat \<Rightarrow> (verdict \<times> event list \<times> nat) option" where
  "reapIdentity pidfd w i session t =
    reapIdentityWithGrace pidfd w i session (graceShare w t) (t + 1)"

subsection \<open>Observing a recorded scope (preserve.go)\<close>

record ScopeObservation =
  so_Identity :: identity
  so_Session :: int
  so_Members :: "identity list"
  so_Reap :: Reap
  so_Excluded :: bool
  so_Uncertain :: bool

definition scope_complete :: "ScopeObservation \<Rightarrow> bool" where
  "scope_complete s \<longleftrightarrow> \<not> so_Uncertain s
    \<and> list_all (\<lambda>m. so_Excluded s \<and> matches (so_Identity s) m) (so_Members s)
    \<and> (so_Reap s \<noteq> reapUndetermined \<or> so_Excluded s)"

definition member_identity :: "u64 \<Rightarrow> groupMember \<Rightarrow> identity" where
  "member_identity boot m = \<lparr> id_pid = gm_pid m, id_start = pi_start (gm_info m), id_boot = boot \<rparr>"

definition inspectScope :: "bool \<Rightarrow> world \<Rightarrow> identity \<Rightarrow> int \<Rightarrow> nat \<Rightarrow> (reap_error + identity list \<times> Reap) \<times> nat" where
  "inspectScope released w i session t =
    (if w_ended w t then (Inl ContextEnded, t + 1)
     else if released then (Inl ErrUnsettled, t + 1)
     else case observe w i (t + 1) of
       (Inl e, t1) \<Rightarrow> (Inl e, t1)
     | (Inr (reap, settled), t1) \<Rightarrow>
         let own = (if settled then [] else [i]) in
         if session = 0 \<or> reap = ReapCrossBoot then
           (if w_ended w t1 then (Inl ContextEnded, t1 + 1)
            else (Inr (own, if own = [] then reap else reapUndetermined), t1 + 1))
         else if session \<le> 1 \<or> session \<noteq> id_pid i then (Inl NoSessionIdentity, t1)
         else (case verifiedMembers w session t1 of
             (Inl e, t2) \<Rightarrow> (Inl e, t2)
           | (Inr ms, t2) \<Rightarrow>
               let members = own @ filter (\<lambda>m. settled \<or> \<not> matches m i) (map (member_identity (id_boot i)) ms) in
               if w_ended w t2 then (Inl ContextEnded, t2 + 1)
               else (Inr (sort_key id_pid members, if members = [] then reap else reapUndetermined), t2 + 1)))"

definition observeScope :: "bool \<Rightarrow> world \<Rightarrow> identity \<Rightarrow> int \<Rightarrow> nat \<Rightarrow> (reap_error option \<times> ScopeObservation) \<times> nat" where
  "observeScope released w i session t =
    (case inspectScope released w i session t of
       (Inl e, t') \<Rightarrow> ((Some ErrUnsettled, \<lparr> so_Identity = i, so_Session = session, so_Members = [],
           so_Reap = reapUndetermined, so_Excluded = False, so_Uncertain = True \<rparr>), t')
     | (Inr (ms, reap), t') \<Rightarrow> ((None, \<lparr> so_Identity = i, so_Session = session, so_Members = ms,
           so_Reap = reap, so_Excluded = False, so_Uncertain = False \<rparr>), t'))"

subsection \<open>Recovery of prior generations\<close>

text \<open>
  \<open>recoverOne\<close> up to the retirement: the verdict under which the record may be retired, and the
  signals sent to reach it.
\<close>

definition recover_verdict ::
  "bool \<Rightarrow> bool \<Rightarrow> ShutdownPolicy \<Rightarrow> world \<Rightarrow> rec \<Rightarrow> nat \<Rightarrow> (verdict \<times> event list \<times> nat) option" where
  "recover_verdict pidfd released policy w r t =
    (if policy = PreserveOwned \<or> rec_Policy r = PreserveOwned then
       (case observeScope released w (rec_id r) (rec_Session r) t of
          ((Some e, scope), t') \<Rightarrow> Some (Inl e, [], t')
        | ((None, scope), t') \<Rightarrow>
            Some (if scope_complete scope then Inr (so_Reap scope) else Inl ErrUnsettled, [], t'))
     else reapIdentity pidfd w (rec_id r) (rec_Session r) t)"

text \<open>
  \<open>Recover\<close>: the reclaimed records, the errors, every signal with the record it was sent for, the store afterwards, and
  whether the snapshot of the live records failed. At an instant \<open>c\<close> says whether the writer takes an operation, \<open>ans\<close> is
  what the file system answers it, and \<open>late\<close> whether the caller's context has ended and the select takes that arm: then the
  fate reported is \<open>RecordAbandoned\<close> whatever the writer does.
\<close>

record recovery =
  rc_reclaimed :: "(rec \<times> Reap \<times> RecordFate) list"
  rc_errors :: "(int \<times> reap_error) list"
  rc_events :: "(rec \<times> event) list"
  rc_store :: Store
  rc_failed :: bool

definition recover_fate :: "world \<Rightarrow> (nat \<Rightarrow> bool) \<Rightarrow> nat \<Rightarrow> RecordFate \<Rightarrow> RecordFate" where
  "recover_fate w late t fate = (if w_ended w t \<and> late t then RecordAbandoned else fate)"

fun recover_all ::
  "records codec \<Rightarrow> string \<Rightarrow> (nat \<Rightarrow> send) \<Rightarrow> (nat \<Rightarrow> io) \<Rightarrow> (nat \<Rightarrow> bool) \<Rightarrow> bool \<Rightarrow> world \<Rightarrow> rec list \<Rightarrow> recovery \<Rightarrow> nat
    \<Rightarrow> recovery option" where
  "recover_all j path c ans late pidfd w [] acc t = Some acc"
| "recover_all j path c ans late pidfd w (r # rs) acc t =
    (if rec_Generation r = st_generation (rc_store acc) then recover_all j path c ans late pidfd w rs acc t
     else case recover_verdict pidfd (send_closed (c t)) (st_policy (rc_store acc)) w r t of
       None \<Rightarrow> None
     | Some (Inl e, es, t') \<Rightarrow>
         recover_all j path c ans late pidfd w rs
           (acc\<lparr>rc_errors := rc_errors acc @ [(rec_PID r, e)], rc_events := rc_events acc @ map (Pair r) es\<rparr>) t'
     | Some (Inr reap, es, t') \<Rightarrow>
         (case retireContext j path (c t') (ans t') (rec_id r) (rc_store acc) of (fate, s') \<Rightarrow>
            recover_all j path c ans late pidfd w rs
              (acc\<lparr>rc_reclaimed := rc_reclaimed acc @ [(r, reap, recover_fate w late (t' + 1) fate)],
                   rc_events := rc_events acc @ map (Pair r) es, rc_store := s'\<rparr>) (t' + 1)))"

text \<open>The snapshot fails when the writer does not take it, or the store or the context ended before its answer was read.\<close>

definition recover_snapshot :: "(nat \<Rightarrow> send) \<Rightarrow> world \<Rightarrow> Store \<Rightarrow> nat \<Rightarrow> rec list option" where
  "recover_snapshot c w s t =
    (if refused (c t) \<or> w_ended w (t + 1) \<or> send_closed (c (t + 1)) then None else Some (Live (st_value s)))"

definition Recover ::
  "records codec \<Rightarrow> string \<Rightarrow> (nat \<Rightarrow> send) \<Rightarrow> (nat \<Rightarrow> io) \<Rightarrow> (nat \<Rightarrow> bool) \<Rightarrow> bool \<Rightarrow> world \<Rightarrow> Store \<Rightarrow> nat
    \<Rightarrow> recovery option" where
  "Recover j path c ans late pidfd w s t =
    (let start = \<lparr> rc_reclaimed = [], rc_errors = [], rc_events = [], rc_store = s, rc_failed = False \<rparr> in
     case recover_snapshot c w s t of
       None \<Rightarrow> Some (start\<lparr>rc_failed := True\<rparr>)
     | Some live \<Rightarrow> recover_all j path c ans late pidfd w live start (t + 2))"

subsection \<open>Time only moves forward\<close>

lemma probe_Info: "probe w t pid = Info info \<Longrightarrow> \<exists>p. w_table w t pid = Some p \<and> pr_info p = info"
  by (auto simp: probe_def split: if_splits option.splits)

lemma probe_NoProc: "probe w t pid = NoProc \<Longrightarrow> w_table w t pid = None"
  by (auto simp: probe_def split: if_splits option.splits)

lemma seen_matches: "matches i (seen_as i boot info) \<longleftrightarrow> pi_start info = id_start i \<and> id_boot i = boot"
  by (auto simp: matches_def seen_as_def)

definition alive :: "world \<Rightarrow> nat \<Rightarrow> identity \<Rightarrow> bool" where
  "alive w u i \<longleftrightarrow> (\<exists>p. w_table w u (id_pid i) = Some p \<and> pi_start (pr_info p) = id_start i \<and> \<not> pi_zombie (pr_info p))"

lemma not_alive_NoProc: "probe w u (id_pid i) = NoProc \<Longrightarrow> \<not> alive w u i"
  using probe_NoProc by (auto simp: alive_def)

lemma not_alive_Info:
  "probe w u (id_pid i) = Info info \<Longrightarrow> id_boot i = w_boot w \<Longrightarrow>
    \<not> matches i (seen_as i (w_boot w) info) \<or> pi_zombie info \<Longrightarrow> \<not> alive w u i"
  using probe_Info by (fastforce simp: alive_def seen_matches)

text \<open>What the two loops of the single-process ladder return.\<close>

lemma observe_settled:
  assumes "observe w i t = (Inr (reap, True), t')"
  shows "id_boot i \<noteq> w_boot w \<or> (\<exists>u\<ge>t. u < t' \<and> \<not> alive w u i)"
proof (cases "probe w (t + 1) (id_pid i)")
  case NoProc
  then show ?thesis using assms not_alive_NoProc [OF NoProc]
    by (auto simp: observe_def crossBoot_def split: if_splits intro!: exI [of _ "t + 1"])
next
  case ProbeError
  then show ?thesis using assms by (auto simp: observe_def crossBoot_def split: if_splits)
next
  case (Info info)
  then show ?thesis using assms not_alive_Info [OF Info]
    by (auto simp: observe_def crossBoot_def split: if_splits intro!: exI [of _ "t + 1"])
qed

lemma observe_time: "observe w i t = (r, t') \<Longrightarrow> t < t'"
  by (auto simp: observe_def split: if_splits)

lemma awaitSettlement_spec:
  assumes "awaitSettlement w i t = Some r" "id_boot i = w_boot w"
  shows "t < snd r \<and> (\<forall>v. fst r = Inr v \<longrightarrow> v = ReapTerminated \<and> (\<exists>u\<ge>t. u < snd r \<and> \<not> alive w u i))"
proof -
  let ?P = "\<lambda>w i t r. id_boot i = w_boot w \<longrightarrow>
    t < snd r \<and> (\<forall>v. fst r = Inr v \<longrightarrow> v = ReapTerminated \<and> (\<exists>u\<ge>t. u < snd r \<and> \<not> alive w u i))"
  have "?P w i t r"
    using assms(1)
  proof (rule awaitSettlement.raw_induct [where P = ?P, rotated], intro impI, goal_cases)
  case (1 f w i t r)
  show ?case
  proof (cases "probe w t (id_pid i)")
    case NoProc
    then show ?thesis using 1(2) not_alive_NoProc [OF NoProc] by auto
  next
    case ProbeError
    then show ?thesis using 1(2) by auto
  next
    case (Info info)
    show ?thesis
    proof (cases "\<not> matches i (seen_as i (w_boot w) info) \<or> pi_zombie info")
      case True
      then have "\<not> alive w t i" by (rule not_alive_Info [OF Info 1(4)])
      then show ?thesis using Info True 1(2) by auto
    next
      case False
      show ?thesis
      proof (cases "w_ended w (t + 1)")
        case True
        then show ?thesis using Info False 1(2) by auto
      next
        case running: False
        then have "f w i (t + 3) = Some r" using Info False 1(2) by simp
        then have ih: "?P w i (t + 3) r" by (rule 1(1))
        show ?thesis
        proof (intro conjI allI impI)
          show "t < snd r" using ih 1(4) by simp
          fix v assume "fst r = Inr v"
          then obtain u where "v = ReapTerminated" "t + 3 \<le> u" "u < snd r" "\<not> alive w u i" using ih 1(4) by blast
          then show "v = ReapTerminated" "\<exists>u\<ge>t. u < snd r \<and> \<not> alive w u i" by (auto intro: exI [of _ u])
        qed
      qed
    qed
  qed
  qed
  with assms(2) show ?thesis by blast
qed

lemma graceLoop_spec:
  assumes "graceLoop w i grace t = Some r" "id_boot i = w_boot w"
  shows "t < snd r \<and> (\<forall>v. fst r = Inl (Inr v) \<longrightarrow> v \<noteq> reapUndetermined \<and> v \<noteq> ReapCrossBoot \<and> (\<exists>u\<ge>t. u < snd r \<and> \<not> alive w u i))"
proof -
  let ?P = "\<lambda>w i grace t r. id_boot i = w_boot w \<longrightarrow>
    t < snd r \<and> (\<forall>v. fst r = Inl (Inr v) \<longrightarrow> v \<noteq> reapUndetermined \<and> v \<noteq> ReapCrossBoot \<and> (\<exists>u\<ge>t. u < snd r \<and> \<not> alive w u i))"
  have "?P w i grace t r"
    using assms(1)
  proof (rule graceLoop.raw_induct [where P = ?P, rotated], intro impI, goal_cases)
  case (1 f w i grace t r)
  show ?case
  proof (cases "w_ended w t")
    case True
    then show ?thesis using 1(2) by auto
  next
    case running: False
    show ?thesis
    proof (cases "probe w (t + 1) (id_pid i)")
      case NoProc
      then have "\<not> alive w (t + 1) i" by (rule not_alive_NoProc)
      then show ?thesis using NoProc 1(2) running by (auto intro!: exI [of _ "Suc t"])
    next
      case ProbeError
      then show ?thesis using 1(2) running by auto
    next
      case (Info info)
      show ?thesis
      proof (cases "\<not> matches i (seen_as i (w_boot w) info) \<or> pi_zombie info")
        case True
        then have "\<not> alive w (t + 1) i" by (rule not_alive_Info [OF Info 1(4)])
        then show ?thesis using Info True 1(2) running by (auto split: if_splits intro!: exI [of _ "Suc t"])
      next
        case False
        show ?thesis
        proof (cases "grace \<le> w_now w (t + 2)")
          case True
          then show ?thesis using Info False running 1(2) by auto
        next
          case left: False
          then have "f w i grace (t + 3) = Some r" using Info False running 1(2) by simp
          then have ih: "?P w i grace (t + 3) r" by (rule 1(1))
          show ?thesis
          proof (intro conjI allI impI)
            show "t < snd r" using ih 1(4) by simp
            fix v assume "fst r = Inl (Inr v)"
            then obtain u where "v \<noteq> reapUndetermined" "v \<noteq> ReapCrossBoot" "t + 3 \<le> u" "u < snd r" "\<not> alive w u i"
              using ih 1(4) by blast
            then show "v \<noteq> reapUndetermined" "v \<noteq> ReapCrossBoot" "\<exists>u\<ge>t. u < snd r \<and> \<not> alive w u i"
              by (auto intro: exI [of _ u])
          qed
        qed
      qed
    qed
  qed
  qed
  with assms(2) show ?thesis by blast
qed

subsection \<open>Termination\<close>

definition context_ends :: "world \<Rightarrow> bool" where
  "context_ends w \<longleftrightarrow> (\<exists>T. \<forall>t\<ge>T. w_ended w t)"

lemma awaitSettlement_total:
  assumes "\<forall>t\<ge>T. w_ended w t"
  shows "\<exists>r. awaitSettlement w i t = Some r"
proof (induction "T - t" arbitrary: t rule: less_induct)
  case less
  show ?case
  proof (cases "T \<le> t + 1")
    case True
    then show ?thesis using assms by (subst awaitSettlement.simps) (auto split: probe_answer.splits)
  next
    case False
    then have "\<exists>r. awaitSettlement w i (t + 3) = Some r" using less [of "t + 3"] by simp
    then show ?thesis by (subst awaitSettlement.simps) (auto split: probe_answer.splits)
  qed
qed

lemma graceLoop_total:
  assumes "\<forall>t\<ge>T. w_ended w t"
  shows "\<exists>r. graceLoop w i grace t = Some r"
proof (induction "T - t" arbitrary: t rule: less_induct)
  case less
  show ?case
  proof (cases "T \<le> t")
    case True
    then show ?thesis using assms by (subst graceLoop.simps) auto
  next
    case False
    then have "\<exists>r. graceLoop w i grace (t + 3) = Some r" using less [of "t + 3"] by simp
    then show ?thesis by (subst graceLoop.simps) (auto split: probe_answer.splits)
  qed
qed

lemma verify_each_time: "verify_each w session ms t = (r, t') \<Longrightarrow> t \<le> t'"
proof (induction ms arbitrary: t r t')
  case (Cons m ms)
  obtain r1 t1 where v: "verify_each w session ms (t + 2) = (r1, t1)" by fastforce
  then have "t + 2 \<le> t1" by (rule Cons.IH)
  then show ?case using Cons.prems v by (auto split: if_splits probe_answer.splits sum.splits)
qed simp

lemma verifiedMembers_time: "verifiedMembers w session t = (r, t') \<Longrightarrow> t < t'"
  using verify_each_time by (fastforce simp: verifiedMembers_def split: if_splits option.splits)

lemma signal_groups_time: "signal_groups w session sig gs b t = (r, es, t') \<Longrightarrow> t \<le> t'"
proof (induction gs arbitrary: b t r es t')
  case (Cons g gs)
  obtain r1 es1 t1 where a: "signal_groups w session sig gs b (t + 2) = (r1, es1, t1)" by (metis prod_cases3)
  obtain r2 es2 t2 where f: "signal_groups w session sig gs False (t + 2) = (r2, es2, t2)" by (metis prod_cases3)
  obtain r3 t3 where v: "verifiedMembers w session (t + 2) = (r3, t3)" by fastforce
  have "t + 2 \<le> t1" "t + 2 \<le> t2" "t + 2 < t3" using Cons.IH a f verifiedMembers_time v by blast+
  then show ?case
    using Cons.prems a f v by (auto split: if_splits option.splits errno.splits sum.splits)
qed simp

lemma signalSessionGroups_time: "signalSessionGroups w session ms sig t = (r, es, t') \<Longrightarrow> t \<le> t'"
  using signal_groups_time by (fastforce simp: signalSessionGroups_def split: if_splits)

lemma awaitSessionSettlement_total:
  assumes "\<forall>t\<ge>T. w_ended w t"
  shows "\<exists>r. awaitSessionSettlement w session es t = Some r"
proof (induction "T - t" arbitrary: es t rule: less_induct)
  case less
  show ?case
  proof (cases "T \<le> t")
    case True
    then have "verifiedMembers w session t = (Inl ErrUnsettled, t + 1)" using assms by (simp add: verifiedMembers_def)
    then show ?thesis by (subst awaitSessionSettlement.simps) simp
  next
    case False
    obtain r1 t1 where v: "verifiedMembers w session t = (r1, t1)" by fastforce
    have "t < t1" using verifiedMembers_time [OF v] .
    have rec: "\<exists>r. awaitSessionSettlement w session es' (t2 + 1) = Some r"
      if "signalSessionGroups w session ms SIGKILL (t1 + 1) = (x, y, t2)" for ms x y t2 es'
      using less [of "t2 + 1"] signalSessionGroups_time [OF that] \<open>t < t1\<close> False by simp
    show ?thesis using v rec
      by (subst awaitSessionSettlement.simps) (auto split: sum.splits prod.splits)
  qed
qed

lemma sessionGrace_total:
  assumes "\<forall>t\<ge>T. w_ended w t"
  shows "\<exists>r. sessionGrace w session grace t = Some r"
proof (induction "T - t" arbitrary: t rule: less_induct)
  case less
  show ?case
  proof (cases "T \<le> t")
    case True
    then show ?thesis using assms by (subst sessionGrace.simps) simp
  next
    case False
    obtain r1 t1 where v: "verifiedMembers w session (t + 1) = (r1, t1)" by fastforce
    then have "\<exists>r. sessionGrace w session grace (t1 + 1) = Some r"
      using less [of "t1 + 1"] verifiedMembers_time [OF v] False by simp
    then show ?thesis using v by (subst sessionGrace.simps) (auto split: sum.splits)
  qed
qed

lemma settleSession_total:
  assumes "\<forall>t\<ge>T. w_ended w t"
  shows "settleSession w session termGrace t \<noteq> None"
proof -
  obtain r t1 where v: "verifiedMembers w session t = (r, t1)" by fastforce
  show ?thesis
  proof (cases r)
    case (Inl e)
    then show ?thesis using v by (simp add: settleSession_def)
  next
    case (Inr ms)
    obtain r2 es t2 where s: "signalSessionGroups w session ms SIGTERM t1 = (r2, es, t2)" by (metis prod_cases3)
    obtain g t3 where g: "sessionGrace w session (w_now w t2 + termGrace) (t2 + 1) = Some (g, t3)"
      using sessionGrace_total [OF assms] by fastforce
    obtain a where a: "awaitSessionSettlement w session es t3 = Some a"
      using awaitSessionSettlement_total [OF assms] by blast
    obtain x y z where "a = (x, y, z)" by (cases a)
    then show ?thesis using v s g a Inr by (cases r2; cases g) (simp_all add: settleSession_def split: bool.splits)
  qed
qed

lemma reapOrphan_total:
  assumes "\<forall>t\<ge>T. w_ended w t"
  shows "reapOrphan w i h t \<noteq> None"
proof -
  obtain r es where h: "heldGone h w t (id_pid i) SIGTERM = (r, es)" by fastforce
  obtain g t1 where g: "graceLoop w i (w_now w (t + 1) + graceShare w (t + 1)) (t + 2) = Some (g, t1)"
    using graceLoop_total [OF assms] by fastforce
  obtain r' es' where h': "heldGone h w t1 (id_pid i) SIGKILL = (r', es')" by fastforce
  obtain v t2 where a: "awaitSettlement w i (t1 + 1) = Some (v, t2)"
    using awaitSettlement_total [OF assms] by fastforce
  show ?thesis
  proof (cases "r = Inr False")
    case True
    then show ?thesis
      using h g h' a by (cases g; cases r') (simp_all add: reapOrphan_def split: bool.splits)
  next
    case False
    then show ?thesis using h by (cases r) (simp_all add: reapOrphan_def split: bool.splits)
  qed
qed

subsection \<open>What a pidfd reaches\<close>

text \<open>
  The kernel's side: a process that is in the table at two instants is there in between, and its
  start stamp never changes.
\<close>

definition persistent :: "world \<Rightarrow> int \<Rightarrow> bool" where
  "persistent w pid \<longleftrightarrow> (\<forall>t1 t2 t3 p1 p3. t1 \<le> t2 \<and> t2 \<le> t3 \<and> w_table w t1 pid = Some p1 \<and> w_table w t3 pid = Some p3
    \<and> pr_serial p1 = pr_serial p3 \<longrightarrow>
    (\<exists>p2. w_table w t2 pid = Some p2 \<and> pr_serial p2 = pr_serial p1 \<and> pi_start (pr_info p2) = pi_start (pr_info p3)))"

text \<open>
  The recorded instance already existed at \<open>t\<close>: whatever carries its stamp later is the process that
  had the PID then.
\<close>

definition born :: "world \<Rightarrow> nat \<Rightarrow> identity \<Rightarrow> bool" where
  "born w t i \<longleftrightarrow> (\<forall>u\<ge>t. \<forall>p. w_table w u (id_pid i) = Some p \<and> pi_start (pr_info p) = id_start i \<longrightarrow>
    (\<exists>q. w_table w t (id_pid i) = Some q \<and> pr_serial q = pr_serial p))"

lemma heldGone_event:
  assumes "heldGone h w u pid sig = (r, es)" "e \<in> set es"
  shows "\<exists>n. e = Signalled u sig n \<and> target_of h w u pid = Some n"
  using assms by (auto simp: heldGone_def split: option.splits)

lemma pidfd_target:
  assumes "hold True w t pid = Some h" "target_of h w u pid = Some n"
  shows "(\<exists>p0. w_table w t pid = Some p0 \<and> pr_serial p0 = n) \<and> (\<exists>p. w_table w u pid = Some p \<and> pr_serial p = n)"
  using assms by (auto simp: hold_def target_of_def split: if_splits option.splits)

lemma pidfd_target_exact:
  assumes "hold True w t pid = Some h" "target_of h w u pid = Some n" "persistent w pid"
    and "probe w (t + 1) pid = Info info" "t < u"
  shows "\<exists>p. w_table w u pid = Some p \<and> pr_serial p = n \<and> pi_start (pr_info p) = pi_start info"
proof -
  obtain p0 p where p: "w_table w t pid = Some p0" "pr_serial p0 = n" "w_table w u pid = Some p" "pr_serial p = n"
    using pidfd_target [OF assms(1,2)] by blast
  then obtain p2 where "w_table w (t + 1) pid = Some p2" "pi_start (pr_info p2) = pi_start (pr_info p)"
    using assms(3,5) unfolding persistent_def by (metis Suc_eq_plus1 Suc_leI le_add1)
  then show ?thesis using p probe_Info [OF assms(4)] by auto
qed

lemma reapOrphan_events:
  assumes "reapOrphan w i h t = Some (v, es, t')" "e \<in> set es" "id_boot i = w_boot w"
  shows "\<exists>u sig n. t \<le> u \<and> e = Signalled u sig n \<and> target_of h w u (id_pid i) = Some n"
proof -
  obtain r es1 where h1: "heldGone h w t (id_pid i) SIGTERM = (r, es1)" by fastforce
  have first: ?thesis if "e \<in> set es1" using heldGone_event [OF h1 that] by blast
  show ?thesis
  proof (cases "r = Inr False")
    case False
    then have "es = es1" using assms(1) h1 by (cases r) (auto simp: reapOrphan_def split: bool.splits)
    then show ?thesis using first assms(2) by simp
  next
    case True
    obtain g t1 where g: "graceLoop w i (w_now w (t + 1) + graceShare w (t + 1)) (t + 2) = Some (g, t1)"
      using assms(1) h1 True by (auto simp: reapOrphan_def split: option.splits)
    have "t \<le> t1" using graceLoop_spec [OF g assms(3)] by simp
    obtain r' es2 where h2: "heldGone h w t1 (id_pid i) SIGKILL = (r', es2)" by fastforce
    have second: ?thesis if "e \<in> set es2" using heldGone_event [OF h2 that] \<open>t \<le> t1\<close> by blast
    have "set es \<subseteq> set es1 \<union> set es2"
      using assms(1) h1 h2 True g
      by (cases g; cases r') (auto simp: reapOrphan_def split: bool.splits option.splits)
    then show ?thesis using first second assms(2) by blast
  qed
qed

text \<open>The branch of the ladder that can signal one process.\<close>

lemma reapIdentity_single:
  assumes "reapIdentityWithGrace pidfd w i 0 g t = Some (v, es, t')"
  obtains (early) "es = []" | (orphan) h info where "hold pidfd w (t + 1) (id_pid i) = Some h"
    "probe w (t + 2) (id_pid i) = Info info" "pi_start info = id_start i" "id_boot i = w_boot w"
    "\<not> unsafe (w_self w) i" "\<not> pi_zombie info" "reapOrphan w i h (t + 3) = Some (v, es, t')"
  using assms
  by (auto simp: reapIdentityWithGrace_def seen_matches crossBoot_def split: if_splits option.splits probe_answer.splits)

lemma born_later:
  assumes "born w t i" "persistent w (id_pid i)" "t \<le> t'"
  shows "born w t' i"
  unfolding born_def
proof (intro allI impI)
  fix u p assume u: "t' \<le> u" "w_table w u (id_pid i) = Some p \<and> pi_start (pr_info p) = id_start i"
  then obtain q where "w_table w t (id_pid i) = Some q" "pr_serial q = pr_serial p"
    using assms(1,3) unfolding born_def by (meson le_trans)
  then show "\<exists>q. w_table w t' (id_pid i) = Some q \<and> pr_serial q = pr_serial p"
    using assms(2,3) u unfolding persistent_def by metis
qed

lemma pidfd_gone:
  assumes "hold True w t (id_pid i) = Some h" "target_of h w u (id_pid i) = None" "born w t i" "t \<le> u"
  shows "\<not> alive w u i"
proof
  assume "alive w u i"
  then obtain p where p: "w_table w u (id_pid i) = Some p" "pi_start (pr_info p) = id_start i" by (auto simp: alive_def)
  then obtain q where "w_table w t (id_pid i) = Some q" "pr_serial q = pr_serial p"
    using assms(3,4) unfolding born_def by blast
  then show False using assms(1,2) p by (auto simp: hold_def target_of_def split: if_splits)
qed

lemma heldGone_True: "heldGone h w u pid sig = (Inr True, es) \<Longrightarrow> target_of h w u pid = None"
  by (auto simp: heldGone_def split: option.splits)

lemma reapOrphan_verdict:
  assumes "reapOrphan w i h t = Some (Inr v, es, t')" "id_boot i = w_boot w"
    and gone: "\<And>u. t \<le> u \<Longrightarrow> target_of h w u (id_pid i) = None \<Longrightarrow> \<not> alive w u i"
  shows "v \<noteq> reapUndetermined \<and> v \<noteq> ReapCrossBoot \<and> (\<exists>u\<ge>t. u < t' \<and> \<not> alive w u i)"
proof -
  obtain r es1 where h1: "heldGone h w t (id_pid i) SIGTERM = (r, es1)" by fastforce
  show ?thesis
  proof (cases "r = Inr False")
    case False
    then have "r = Inr True" "v = ReapAbsent" "t' = t + 1"
      using assms(1) h1 by (cases r; auto simp: reapOrphan_def split: bool.splits)+
    then show ?thesis using gone [of t] heldGone_True h1 by auto
  next
    case True
    obtain g t1 where g: "graceLoop w i (w_now w (t + 1) + graceShare w (t + 1)) (t + 2) = Some (g, t1)"
      using assms(1) h1 True by (auto simp: reapOrphan_def split: option.splits)
    have gs: "t + 2 < t1" "\<And>v. g = Inl (Inr v) \<Longrightarrow> v \<noteq> reapUndetermined \<and> v \<noteq> ReapCrossBoot
        \<and> (\<exists>u\<ge>t + 2. u < t1 \<and> \<not> alive w u i)"
      using graceLoop_spec [OF g assms(2)] by auto
    show ?thesis
    proof (cases g)
      case (Inl x)
      then have "x = Inr v" "t' = t1" using assms(1) h1 True g by (auto simp: reapOrphan_def)
      then obtain u where "v \<noteq> reapUndetermined" "v \<noteq> ReapCrossBoot" "t + 2 \<le> u" "u < t'" "\<not> alive w u i"
        using gs(2) Inl by blast
      then show ?thesis by (auto intro: exI [of _ u])
    next
      case (Inr x)
      obtain r' es2 where h2: "heldGone h w t1 (id_pid i) SIGKILL = (r', es2)" by fastforce
      have "r' = Inr True \<and> v = ReapTerminated \<and> t' = t1 + 1 \<or> awaitSettlement w i (t1 + 1) = Some (Inr v, t')"
        using assms(1) h1 True g Inr h2
        by (cases r') (auto simp: reapOrphan_def split: bool.splits option.splits)
      then show ?thesis
      proof
        assume "r' = Inr True \<and> v = ReapTerminated \<and> t' = t1 + 1"
        then show ?thesis using gone [of t1] heldGone_True h2 gs(1) by (auto intro: exI [of _ t1])
      next
        assume "awaitSettlement w i (t1 + 1) = Some (Inr v, t')"
        from awaitSettlement_spec [OF this assms(2)] obtain u where "v = ReapTerminated" "t1 + 1 \<le> u" "u < t'" "\<not> alive w u i"
          by auto
        then show ?thesis using gs(1) by (auto intro: exI [of _ u])
      qed
    qed
  qed
qed

lemma verify_each_members:
  "verify_each w session ms t = (Inr vs, t') \<Longrightarrow> m \<in> set vs \<Longrightarrow>
    \<exists>u p. u < t' \<and> w_table w u (gm_pid m) = Some p \<and> pr_info p = gm_info m \<and> pi_session (gm_info m) = session
      \<and> \<not> pi_zombie (gm_info m)"
proof (induction ms arbitrary: t vs t')
  case (Cons x xs)
  obtain r1 t1 where v: "verify_each w session xs (t + 2) = (r1, t1)" by fastforce
  have "t + 2 \<le> t1" using verify_each_time [OF v] .
  show ?case
  proof (cases "m \<in> set (case r1 of Inr ys \<Rightarrow> ys | Inl _ \<Rightarrow> [])")
    case True
    then obtain ys where "r1 = Inr ys" "m \<in> set ys" by (cases r1) auto
    then have "\<exists>u p. u < t1 \<and> w_table w u (gm_pid m) = Some p \<and> pr_info p = gm_info m \<and> pi_session (gm_info m) = session
        \<and> \<not> pi_zombie (gm_info m)" using Cons.IH v by blast
    moreover have "t' = t1" using Cons.prems(1) v \<open>r1 = Inr ys\<close>
      by (auto split: if_splits probe_answer.splits)
    ultimately show ?thesis by simp
  next
    case False
    have pr: "\<exists>info. probe w (t + 1) (gm_pid x) = Info info \<and> m = \<lparr> gm_pid = gm_pid x, gm_info = info \<rparr>
        \<and> pi_session info = session \<and> \<not> pi_zombie info" and t': "t' = t1"
      using Cons.prems v False by (auto split: if_splits probe_answer.splits sum.splits)
    then obtain info where i: "probe w (t + 1) (gm_pid x) = Info info" "m = \<lparr> gm_pid = gm_pid x, gm_info = info \<rparr>"
        "pi_session info = session" "\<not> pi_zombie info" by blast
    obtain p where "w_table w (t + 1) (gm_pid x) = Some p" "pr_info p = info" using probe_Info [OF i(1)] by blast
    then show ?thesis using i t' \<open>t + 2 \<le> t1\<close> by (intro exI [of _ "t + 1"] exI [of _ p]) simp
  qed
qed simp

lemma verifiedMembers_members:
  "verifiedMembers w session t = (Inr vs, t') \<Longrightarrow> m \<in> set vs \<Longrightarrow>
    \<exists>u p. u < t' \<and> w_table w u (gm_pid m) = Some p \<and> pr_info p = gm_info m \<and> pi_session (gm_info m) = session
      \<and> \<not> pi_zombie (gm_info m)"
  using verify_each_members by (fastforce simp: verifiedMembers_def split: if_splits option.splits)

lemma signal_groups_events:
  "signal_groups w session sig gs b t = (r, es, t') \<Longrightarrow> e \<in> set es \<Longrightarrow> \<exists>u g. t \<le> u \<and> e = GroupSignalled u sig g \<and> g \<in> set gs"
proof (induction gs arbitrary: b t r es t')
  case (Cons g gs)
  obtain r1 es1 t1 where a: "signal_groups w session sig gs b (t + 2) = (r1, es1, t1)" by (metis prod_cases3)
  obtain r2 es2 t2 where f: "signal_groups w session sig gs False (t + 2) = (r2, es2, t2)" by (metis prod_cases3)
  have "es = es1 \<or> es = [] \<or> es = GroupSignalled (t + 1) sig g # es2"
    using Cons.prems(1) a f by (auto split: if_splits option.splits errno.splits prod.splits sum.splits)
  moreover have "\<exists>u g'. t \<le> u \<and> e = GroupSignalled u sig g' \<and> g' \<in> set (g # gs)" if "e \<in> set es1 \<or> e \<in> set es2"
    using that Cons.IH [OF a] Cons.IH [OF f] by fastforce
  ultimately show ?case using Cons.prems(2) by fastforce
qed simp

text \<open>A process group is signalled only on the authority of a verified member.\<close>

definition group_authorized :: "world \<Rightarrow> int \<Rightarrow> event \<Rightarrow> bool" where
  "group_authorized w session e \<longleftrightarrow> (\<exists>u sig g. e = GroupSignalled u sig g \<and> g > 1 \<and>
    (\<exists>u' pid p. u' < u \<and> w_table w u' pid = Some p \<and> pi_session (pr_info p) = session \<and> pi_group (pr_info p) = g
      \<and> \<not> pi_zombie (pr_info p)))"

lemma signalSessionGroups_authorized:
  assumes v: "verifiedMembers w session t = (Inr ms, t1)" and "t1 \<le> t2"
    and s: "signalSessionGroups w session ms sig t2 = (r, es, t')" and e: "e \<in> set es"
  shows "group_authorized w session e"
proof -
  have big: "\<forall>m\<in>set ms. pi_group (gm_info m) > 1"
    using s e by (auto simp: signalSessionGroups_def list_ex_iff split: if_splits)
  then have "signal_groups w session sig (sort (remdups (map (\<lambda>m. pi_group (gm_info m)) ms))) True t2 = (r, es, t')"
    using s e by (auto simp: signalSessionGroups_def split: if_splits)
  from signal_groups_events [OF this e] obtain u m where u: "t2 \<le> u" "e = GroupSignalled u sig (pi_group (gm_info m))" "m \<in> set ms"
    by auto
  from verifiedMembers_members [OF v u(3)] obtain u' p where "u' < t1" "w_table w u' (gm_pid m) = Some p"
      "pr_info p = gm_info m" "pi_session (gm_info m) = session" "\<not> pi_zombie (gm_info m)" by blast
  moreover have "u' < u" using \<open>u' < t1\<close> assms(2) u(1) by simp
  moreover have "pi_group (gm_info m) > 1" using big u(3) by blast
  ultimately show ?thesis using u(2) unfolding group_authorized_def by metis
qed

lemma awaitSessionSettlement_spec:
  assumes "awaitSessionSettlement w session es t = Some r" "\<forall>e\<in>set es. group_authorized w session e"
  shows "(\<forall>e\<in>set (fst (snd r)). group_authorized w session e) \<and> fst r \<noteq> Inr reapUndetermined"
proof -
  let ?P = "\<lambda>w session es t r. (\<forall>e\<in>set es. group_authorized w session e) \<longrightarrow>
    (\<forall>e\<in>set (fst (snd r)). group_authorized w session e) \<and> fst r \<noteq> Inr reapUndetermined"
  have "?P w session es t r"
    using assms(1)
  proof (rule awaitSessionSettlement.raw_induct [where P = ?P, rotated], intro impI, goal_cases)
    case (1 f w session es t r)
    obtain m t1 where v: "verifiedMembers w session t = (m, t1)" by fastforce
    show ?case
    proof (cases m)
      case (Inl e)
      then show ?thesis using 1(2,4) v by auto
    next
      case (Inr ms)
      obtain r1 es1 t2 where s: "signalSessionGroups w session ms SIGKILL (t1 + 1) = (r1, es1, t2)" by (metis prod_cases3)
      have auth: "\<forall>e\<in>set es1. group_authorized w session e"
        using signalSessionGroups_authorized [OF v [unfolded Inr] _ s] by simp
      then have all: "\<forall>e\<in>set (es @ es1). group_authorized w session e" using 1(4) by auto
      show ?thesis
      proof (cases "ms = [] \<or> w_ended w t1 \<or> r1 \<noteq> Inr False")
        case True
        then show ?thesis using 1(2,4) v Inr s all
          by (cases r1) (auto split: if_splits)
      next
        case False
        then have "f w session (es @ es1) (t2 + 1) = Some r" using 1(2) v Inr s by simp
        from 1(1) [OF this] all show ?thesis by blast
      qed
    qed
  qed
  then show ?thesis using assms(2) by blast
qed

lemma sessionGrace_verdict: "sessionGrace w session grace t = Some r \<Longrightarrow> fst r \<noteq> Inl (Inr reapUndetermined)"
proof -
  let ?P = "\<lambda>w session grace t r. fst r \<noteq> Inl (Inr reapUndetermined)"
  show "sessionGrace w session grace t = Some r \<Longrightarrow> fst r \<noteq> Inl (Inr reapUndetermined)"
  proof (rule sessionGrace.raw_induct [where P = ?P, rotated], assumption, goal_cases)
    case (1 f w session grace t r)
    then show ?case by (auto split: if_splits sum.splits prod.splits)
  qed
qed

lemma settleSession_spec:
  assumes "settleSession w session termGrace t = Some (v, es, t')"
  shows "(\<forall>e\<in>set es. group_authorized w session e) \<and> v \<noteq> Inr reapUndetermined"
proof -
  obtain m t1 where vm: "verifiedMembers w session t = (m, t1)" by fastforce
  show ?thesis
  proof (cases m)
    case (Inl e)
    then show ?thesis using assms vm by (auto simp: settleSession_def)
  next
    case (Inr ms)
    obtain r1 es1 t2 where s: "signalSessionGroups w session ms SIGTERM t1 = (r1, es1, t2)" by (metis prod_cases3)
    have auth: "\<forall>e\<in>set es1. group_authorized w session e"
      using signalSessionGroups_authorized [OF vm [unfolded Inr] order_refl s] by simp
    show ?thesis
    proof (cases "ms = [] \<or> r1 \<noteq> Inr False")
      case True
      then show ?thesis using assms vm Inr s auth
        by (cases r1) (auto simp: settleSession_def split: if_splits bool.splits)
    next
      case False
      then obtain g t3 where g: "sessionGrace w session (w_now w t2 + termGrace) (t2 + 1) = Some (g, t3)"
        using assms vm Inr s by (auto simp: settleSession_def split: option.splits)
      show ?thesis
      proof (cases g)
        case (Inl x)
        then show ?thesis using assms vm Inr s False g auth sessionGrace_verdict [OF g] by (auto simp: settleSession_def)
      next
        case (Inr y)
        then have "awaitSessionSettlement w session es1 t3 = Some (v, es, t')"
          using assms vm \<open>m = Inr ms\<close> s False g by (simp add: settleSession_def)
        from awaitSessionSettlement_spec [OF this auth] show ?thesis by simp
      qed
    qed
  qed
qed

subsection \<open>Properties\<close>

lemma reap_signals_exact:
  assumes "persistent w (id_pid i)" and "reapIdentity True w i 0 t = Some (v, es, t')"
    and "Signalled u sig n \<in> set es"
  shows "id_boot i = w_boot w \<and> id_pid i > 1 \<and> id_pid i \<noteq> w_self w
    \<and> (\<exists>p. w_table w u (id_pid i) = Some p \<and> pr_serial p = n \<and> pi_start (pr_info p) = id_start i)"
proof -
  have g: "reapIdentityWithGrace True w i 0 (graceShare w t) (t + 1) = Some (v, es, t')"
    using assms(2) by (simp add: reapIdentity_def)
  show ?thesis
    using g
  proof (cases rule: reapIdentity_single)
    case early
    then show ?thesis using assms(3) by simp
  next
    case (orphan h info)
    have u: "t + 4 \<le> u" "target_of h w u (id_pid i) = Some n"
      using reapOrphan_events [OF orphan(7) assms(3) orphan(4)] by auto
    have pr: "probe w (t + 1 + 1 + 1) (id_pid i) = Info info" using orphan(2) by (simp add: numeral_eq_Suc)
    have "hold True w (t + 1 + 1) (id_pid i) = Some h" using orphan(1) by simp
    from pidfd_target_exact [OF this u(2) assms(1) pr] show ?thesis
      using orphan(3-5) u(1) by (auto simp: unsafe_def)
  qed
qed

text \<open>
  C1: through a pidfd, the ladder signals the recorded instance or nobody. Whatever the process table
  does between the ladder's calls, every signal it delivers reaches a process that at that instant
  has the recorded PID and the recorded start stamp, in the recorded boot session, and is neither
  PID 1 nor this process.
\<close>

theorem reap_signals_exact_instance:
  assumes "persistent w (id_pid i)" and "reapIdentity True w i 0 t = Some (v, es, t')"
    and "Signalled u sig n \<in> set es"
  shows "id_boot i = w_boot w \<and> id_pid i > 1 \<and> id_pid i \<noteq> w_self w
    \<and> (\<exists>p. w_table w u (id_pid i) = Some p \<and> pr_serial p = n \<and> pi_start (pr_info p) = id_start i)"
  using reap_signals_exact [OF assms] .

definition quiet_world :: world where
  "quiet_world = \<lparr> w_table = (\<lambda>t pid. if pid = 42 \<and> t < 9 then Some \<lparr> pr_serial = 1, pr_info = \<lparr> pi_start = 7, pi_comm = [],
       pi_group = 42, pi_session = 42, pi_zombie = False, pi_stopped = False, pi_exiting = False \<rparr> \<rparr> else None),
     w_boot = 9, w_bootErr = (\<lambda>_. False), w_probeErr = (\<lambda>_. False), w_holdErr = (\<lambda>_. False), w_sigErr = (\<lambda>_. None),
     w_groupGone = (\<lambda>_ _. False),
     w_members = (\<lambda>t _. Some (if t < 9 then [\<lparr> gm_pid = 42, gm_info = \<lparr> pi_start = 7, pi_comm = [], pi_group = 42,
       pi_session = 42, pi_zombie = False, pi_stopped = False, pi_exiting = False \<rparr> \<rparr>] else [])),
     w_ended = (\<lambda>t. 100 \<le> t), w_now = int, w_deadline = 100, w_self = 5 \<rparr>"

definition quiet_identity :: identity where
  "quiet_identity = \<lparr> id_pid = 42, id_start = 7, id_boot = 9 \<rparr>"

lemma quiet_persistent: "persistent quiet_world pid"
  by (auto simp: persistent_def quiet_world_def split: if_splits)

lemmas reap_eval = reapIdentity_def reapIdentityWithGrace_def graceShare_def crossBoot_def unsafe_def hold_def probe_def
  matches_def seen_as_def reapOrphan_def heldGone_def target_of_def graceLoop.simps awaitSettlement.simps SettleGrace_def
  quiet_identity_def quiet_world_def Let_def

lemma quiet_reap:
  "reapIdentity True quiet_world quiet_identity 0 0 = Some (Inr ReapTerminated, [Signalled 4 SIGTERM 1], 10)"
  by (simp add: reap_eval)

theorem reap_signals_exact_instance_witness:
  "reapIdentity True quiet_world quiet_identity 0 0 = Some (Inr ReapTerminated, [Signalled 4 SIGTERM 1], 10)
   \<and> (\<exists>p. w_table quiet_world 4 42 = Some p \<and> pr_serial p = 1 \<and> pi_start (pr_info p) = 7)"
  using reap_signals_exact_instance [OF _ quiet_reap, of 4 SIGTERM 1] quiet_reap quiet_persistent
  by (simp add: quiet_identity_def)

lemma reap_verdict_gone:
  assumes "pidfd \<longrightarrow> persistent w (id_pid i) \<and> born w t i" and "reapIdentity pidfd w i 0 t = Some (Inr v, es, t')"
  shows "v \<noteq> reapUndetermined \<and> (v = ReapCrossBoot \<longrightarrow> id_boot i \<noteq> w_boot w \<and> es = [])
    \<and> (v \<noteq> ReapCrossBoot \<longrightarrow> (\<exists>u\<ge>t. u < t' \<and> \<not> alive w u i))"
proof (cases "id_boot i = w_boot w")
  case False
  then show ?thesis
    using assms(2) by (auto simp: reapIdentity_def reapIdentityWithGrace_def crossBoot_def split: if_splits)
next
  case True
  have g: "reapIdentityWithGrace pidfd w i 0 (graceShare w t) (t + 1) = Some (Inr v, es, t')"
    using assms(2) by (simp add: reapIdentity_def)
  then obtain h where h: "hold pidfd w (t + 2) (id_pid i) = Some h"
    using True by (auto simp: reapIdentityWithGrace_def crossBoot_def split: if_splits option.splits)
  have away: "\<not> alive w u i" if "target_of h w u (id_pid i) = None" "t + 2 \<le> u" for u
  proof (cases pidfd)
    case True
    then have "born w (t + 2) i" using born_later [of w t i "t + 2"] assms(1) by simp
    then show ?thesis using pidfd_gone [of w "t + 2" i h u] h True that by simp
  next
    case False
    then show ?thesis using h that by (auto simp: hold_def target_of_def alive_def)
  qed
  show ?thesis
  proof (cases "probe w (t + 3) (id_pid i)")
    case NoProc
    then have "v = ReapAbsent" "t' = t + 4" using g True h
      by (auto simp: reapIdentityWithGrace_def crossBoot_def numeral_eq_Suc split: if_splits)
    then show ?thesis using not_alive_NoProc [OF NoProc] by (auto intro!: exI [of _ "t + 3"])
  next
    case ProbeError
    then show ?thesis using g True h
      by (auto simp: reapIdentityWithGrace_def crossBoot_def numeral_eq_Suc split: if_splits)
  next
    case (Info info)
    show ?thesis
    proof (cases "\<not> matches i (seen_as i (w_boot w) info) \<or> pi_zombie info")
      case bad: True
      then have "v = ReapReused \<or> v = ReapAbsent" "t' = t + 4" using g True h Info
        by (auto simp: reapIdentityWithGrace_def crossBoot_def numeral_eq_Suc split: if_splits)
      moreover have "\<not> alive w (t + 3) i" using not_alive_Info [OF Info True bad] .
      ultimately show ?thesis by (auto intro!: exI [of _ "t + 3"])
    next
      case False
      then have "reapOrphan w i h (t + 4) = Some (Inr v, es, t')" using g True h Info
        by (auto simp: reapIdentityWithGrace_def crossBoot_def numeral_eq_Suc split: if_splits)
      from reapOrphan_verdict [OF this True] away
      obtain u where "v \<noteq> reapUndetermined" "v \<noteq> ReapCrossBoot" "t + 4 \<le> u" "u < t'" "\<not> alive w u i" by auto
      then show ?thesis by (auto intro: exI [of _ u])
    qed
  qed
qed

lemma reap_verdict_proof:
  assumes "persistent w (id_pid i)" and "born w t i" and "reapIdentity True w i 0 t = Some (Inr v, es, t')"
  shows "v \<noteq> reapUndetermined \<and> (v = ReapCrossBoot \<longrightarrow> id_boot i \<noteq> w_boot w \<and> es = [])
    \<and> (v \<noteq> ReapCrossBoot \<longrightarrow> (\<exists>u\<ge>t. u < t' \<and> \<not> alive w u i))"
  using reap_verdict_gone [of True] assms by blast

text \<open>
  C2: a verdict of the ladder is a proof. When the single-process ladder answers without an error,
  the answer is not undetermined; \<open>ReapCrossBoot\<close> means the record is of another boot and nothing was
  signalled; every other answer means that at some instant while the ladder ran the recorded
  instance was not a live process.
\<close>

theorem reap_verdict_is_proof:
  assumes "persistent w (id_pid i)" and "born w t i" and "reapIdentity True w i 0 t = Some (Inr v, es, t')"
  shows "v \<noteq> reapUndetermined \<and> (v = ReapCrossBoot \<longrightarrow> id_boot i \<noteq> w_boot w \<and> es = [])
    \<and> (v \<noteq> ReapCrossBoot \<longrightarrow> (\<exists>u\<ge>t. u < t' \<and> \<not> alive w u i))"
  using reap_verdict_proof [OF assms] .

theorem reap_verdict_is_proof_witness:
  "reapIdentity True quiet_world quiet_identity 0 0 = Some (Inr ReapTerminated, [Signalled 4 SIGTERM 1], 10)
   \<and> (\<exists>u<10. \<not> alive quiet_world u quiet_identity)"
proof -
  have "born quiet_world 0 quiet_identity" by (auto simp: born_def quiet_world_def split: if_splits)
  then show ?thesis
    using reap_verdict_is_proof [OF quiet_persistent _ quiet_reap] quiet_reap by auto
qed

lemma reap_total:
  assumes "\<exists>T. \<forall>u\<ge>T. w_ended w u"
  shows "\<exists>v es t'. reapIdentity pidfd w i session t = Some (v, es, t')"
proof -
  obtain T where T: "\<forall>u\<ge>T. w_ended w u" using assms by blast
  have "reapIdentity pidfd w i session t \<noteq> None"
    using reapOrphan_total [OF T] settleSession_total [OF T]
    by (auto simp: reapIdentity_def reapIdentityWithGrace_def reapSession_def split: option.splits probe_answer.splits)
  then show ?thesis by auto
qed

text \<open>
  The ladder always comes back. Once the caller's context ends and stays ended, every reap
  returns, with or without a dedicated session and whatever else the world does.
\<close>

lemma reap_returns:
  assumes "\<exists>T. \<forall>u\<ge>T. w_ended w u"
  shows "\<exists>v es t'. reapIdentity pidfd w i session t = Some (v, es, t')"
  using reap_total [OF assms] .

text \<open>
  A dedicated session is signalled only through groups that are its own. Every group the session
  ladder signals is numbered above 1 and had a live member that an earlier probe saw in exactly the
  recorded session; the session recorded is that of the process itself, and its leader was either
  gone or the recorded instance.
\<close>

lemma session_signals_authorized:
  assumes "reapIdentity pidfd w i session t = Some (v, es, t')" and "session \<noteq> 0" and "e \<in> set es"
  shows "session = id_pid i \<and> session > 1 \<and> id_boot i = w_boot w
    \<and> (\<exists>u sig g. e = GroupSignalled u sig g \<and> g > 1 \<and>
        (\<exists>u' pid p. u' < u \<and> w_table w u' pid = Some p \<and> pi_session (pr_info p) = session
          \<and> pi_group (pr_info p) = g \<and> \<not> pi_zombie (pr_info p)))
    \<and> (\<exists>u. probe w u (id_pid i) = NoProc \<or> (\<exists>info. probe w u (id_pid i) = Info info \<and> pi_start info = id_start i))"
proof -
  have "reapSession w i session (probe w (t + 2) (id_pid i)) (graceShare w t) (t + 3) = Some (v, es, t')
      \<and> id_boot i = w_boot w"
    using assms
    by (auto simp: reapIdentity_def reapIdentityWithGrace_def crossBoot_def numeral_eq_Suc split: if_splits)
  moreover from this assms(3) have "session = id_pid i" "session > 1"
      "settleSession w session (graceShare w t) (t + 3) = Some (v, es, t')"
      "probe w (t + 2) (id_pid i) = NoProc \<or> (\<exists>info. probe w (t + 2) (id_pid i) = Info info \<and> pi_start info = id_start i)"
    by (auto simp: reapSession_def seen_matches split: if_splits probe_answer.splits)
  moreover from settleSession_spec [OF this(3)] assms(3) have "group_authorized w session e" by blast
  ultimately show ?thesis unfolding group_authorized_def by blast
qed

lemma quiet_session_reap:
  "reapIdentity True quiet_world quiet_identity 42 0
     = Some (Inr ReapTerminated, [GroupSignalled 8 SIGTERM 42], 13)"
  by (simp add: reap_eval reapSession_def settleSession_def verifiedMembers_def signalSessionGroups_def sessionGrace.simps)

lemma reapIdentity_verdict:
  assumes "reapIdentity pidfd w i session t = Some (Inr v, es, t')"
  shows "v \<noteq> reapUndetermined"
proof (cases "session = 0")
  case False
  then show ?thesis
    using assms
    by (auto simp: reapIdentity_def reapIdentityWithGrace_def reapSession_def dest: settleSession_spec
        split: if_splits probe_answer.splits)
next
  case True
  show ?thesis
  proof (cases "id_boot i = w_boot w")
    case False
    then show ?thesis
      using assms by (auto simp: reapIdentity_def reapIdentityWithGrace_def crossBoot_def split: if_splits option.splits probe_answer.splits)
  next
    case boot: True
    have "v \<noteq> reapUndetermined" if ro: "reapOrphan w i h u = Some (Inr v, es, t')" for h u
    proof -
      obtain r es1 where h1: "heldGone h w u (id_pid i) SIGTERM = (r, es1)" by fastforce
      show ?thesis
      proof (cases "r = Inr False")
        case False
        then show ?thesis using ro h1 by (cases r) (auto simp: reapOrphan_def split: bool.splits)
      next
        case True
        obtain g t1 where g: "graceLoop w i (w_now w (u + 1) + graceShare w (u + 1)) (u + 2) = Some (g, t1)"
          using ro h1 True by (auto simp: reapOrphan_def split: option.splits)
        obtain r' es2 where h2: "heldGone h w t1 (id_pid i) SIGKILL = (r', es2)" by fastforce
        show ?thesis
          using ro h1 True g h2 graceLoop_spec [OF g boot] awaitSettlement_spec [OF _ boot, of "t1 + 1"]
          by (cases g; cases r') (auto simp: reapOrphan_def split: bool.splits option.splits)
      qed
    qed
    then show ?thesis
      using assms True by (auto simp: reapIdentity_def reapIdentityWithGrace_def split: if_splits option.splits probe_answer.splits)
  qed
qed

text \<open>What one recovered record contributes.\<close>

lemma recover_verdict_spec:
  assumes "recover_verdict pidfd released policy w r t = Some (v, es, t')"
  shows "v \<noteq> Inr reapUndetermined"
    and "policy = PreserveOwned \<or> rec_Policy r = PreserveOwned \<Longrightarrow> es = []"
proof -
  obtain oe scope t1 where o: "observeScope released w (rec_id r) (rec_Session r) t = ((oe, scope), t1)" by (metis prod.exhaust)
  have ex: "\<not> so_Excluded scope"
    using o by (auto simp: observeScope_def split: sum.splits prod.splits)
  show "v \<noteq> Inr reapUndetermined"
    using assms o ex
    by (cases oe) (auto simp: recover_verdict_def scope_complete_def dest: reapIdentity_verdict split: if_splits)
  show "es = []" if "policy = PreserveOwned \<or> rec_Policy r = PreserveOwned"
    using assms o that by (cases oe) (auto simp: recover_verdict_def split: if_splits)
qed

lemma retireContext_fixed:
  "retireContext j path c ans i s = (fate, s') \<Longrightarrow> st_generation s' = st_generation s \<and> st_policy s' = st_policy s"
  by (auto simp: retireContext_def retire_op_def split: if_splits prod.splits sum.splits)

subsection \<open>When a session is gone\<close>

text \<open>
  What the session ladder establishes of the world: at some instant the members of the session were listed, and each of them
  was later seen gone, changed or a zombie, or was seen in a group to which the kernel then answered that it has no process.
\<close>

definition member_alive :: "world \<Rightarrow> nat \<Rightarrow> int \<Rightarrow> groupMember \<Rightarrow> bool" where
  "member_alive w u session m \<longleftrightarrow> (\<exists>p. w_table w u (gm_pid m) = Some p \<and> pi_start (pr_info p) = pi_start (gm_info m)
    \<and> pi_session (pr_info p) = session \<and> \<not> pi_zombie (pr_info p))"

definition member_gone :: "world \<Rightarrow> nat \<Rightarrow> int \<Rightarrow> groupMember \<Rightarrow> bool" where
  "member_gone w u session m \<longleftrightarrow> (\<exists>u'>u. \<not> member_alive w u' session m
    \<or> (\<exists>p u''. u' < u'' \<and> w_table w u' (gm_pid m) = Some p \<and> w_groupGone w u'' (pi_group (pr_info p))))"

definition members_gone :: "world \<Rightarrow> int \<Rightarrow> nat \<Rightarrow> bool" where
  "members_gone w session t \<longleftrightarrow> (\<exists>u\<ge>t. \<exists>ms. w_members w u session = Some ms \<and> (\<forall>m\<in>set ms. member_gone w u session m))"

lemma members_gone_mono: "members_gone w session t' \<Longrightarrow> t \<le> t' \<Longrightarrow> members_gone w session t"
  unfolding members_gone_def by (meson order_trans)

lemma verify_each_listed:
  "verify_each w session ms t = (Inr vs, t') \<Longrightarrow> m \<in> set ms \<Longrightarrow>
    (\<exists>u\<ge>t. \<not> member_alive w u session m)
    \<or> (\<exists>u\<ge>t. u < t' \<and> (\<exists>p. w_table w u (gm_pid m) = Some p \<and> (\<exists>v\<in>set vs. gm_info v = pr_info p)))"
proof (induction ms arbitrary: t vs t')
  case (Cons x xs)
  obtain r1 t1 where v: "verify_each w session xs (t + 2) = (r1, t1)" by fastforce
  obtain ys where ys: "r1 = Inr ys" "t' = t1" "set ys \<subseteq> set vs"
    using Cons.prems(1) v subset_insertI by (cases r1) (fastforce split: if_splits probe_answer.splits)+
  have t1: "t + 2 \<le> t1" using verify_each_time [OF v] .
  show ?case
  proof (cases "m = x")
    case False
    then have "m \<in> set xs" using Cons.prems(2) by simp
    from Cons.IH [OF v [unfolded ys(1)] this] show ?thesis
      using ys by (meson add_leD1 order_trans subsetD)
  next
    case True
    show ?thesis
    proof (cases "probe w (t + 1) (gm_pid x)")
      case NoProc
      then have "\<not> member_alive w (t + 1) session m" using probe_NoProc True by (auto simp: member_alive_def)
      then show ?thesis by (auto intro: exI [of _ "t + 1"])
    next
      case ProbeError
      then show ?thesis using Cons.prems(1) by (auto split: if_splits)
    next
      case (Info info)
      obtain p where p: "w_table w (t + 1) (gm_pid x) = Some p" "pr_info p = info" using probe_Info [OF Info] by blast
      show ?thesis
      proof (cases "pi_start (gm_info x) \<noteq> pi_start info \<or> pi_session info \<noteq> session \<or> pi_zombie info")
        case bad: True
        then have "\<not> member_alive w (t + 1) session m" using True p by (auto simp: member_alive_def)
        then show ?thesis by (auto intro: exI [of _ "t + 1"])
      next
        case False
        then have "\<lparr> gm_pid = gm_pid x, gm_info = info \<rparr> \<in> set vs"
          using Cons.prems(1) v ys Info by (auto split: if_splits)
        then show ?thesis using True p t1 ys(2)
          by (intro disjI2 exI [of _ "t + 1"]) (auto intro!: bexI [of _ "\<lparr> gm_pid = gm_pid x, gm_info = info \<rparr>"])
      qed
    qed
  qed
qed simp

lemma verifiedMembers_listed:
  assumes "verifiedMembers w session t = (Inr vs, t')"
  obtains ms where "w_members w (t + 1) session = Some ms"
    "\<And>m. m \<in> set ms \<Longrightarrow> (\<exists>u>t + 1. \<not> member_alive w u session m)
      \<or> (\<exists>u>t + 1. u < t' \<and> (\<exists>p. w_table w u (gm_pid m) = Some p \<and> (\<exists>v\<in>set vs. gm_info v = pr_info p)))"
proof -
  obtain ms where ms: "w_members w (t + 1) session = Some ms" "verify_each w session ms (t + 2) = (Inr vs, t')"
    using assms by (auto simp: verifiedMembers_def split: if_splits option.splits)
  have "(\<exists>u>t + 1. \<not> member_alive w u session m)
      \<or> (\<exists>u>t + 1. u < t' \<and> (\<exists>p. w_table w u (gm_pid m) = Some p \<and> (\<exists>v\<in>set vs. gm_info v = pr_info p)))" if "m \<in> set ms" for m
    using verify_each_listed [OF ms(2) that] by (metis Suc_1 Suc_eq_plus1 add_Suc_right Suc_le_eq)
  then show ?thesis using that ms(1) by blast
qed

lemma verifiedMembers_groups_gone:
  assumes "verifiedMembers w session t = (Inr vs, t1)" and "\<And>v. v \<in> set vs \<Longrightarrow> \<exists>u\<ge>t1. w_groupGone w u (pi_group (gm_info v))"
  shows "members_gone w session t"
proof -
  obtain ms where ms: "w_members w (t + 1) session = Some ms" "\<And>m. m \<in> set ms \<Longrightarrow> (\<exists>u>t + 1. \<not> member_alive w u session m)
      \<or> (\<exists>u>t + 1. u < t1 \<and> (\<exists>p. w_table w u (gm_pid m) = Some p \<and> (\<exists>v\<in>set vs. gm_info v = pr_info p)))"
    using verifiedMembers_listed [OF assms(1)] by blast
  have "member_gone w (t + 1) session m" if "m \<in> set ms" for m
    using ms(2) [OF that]
  proof
    assume "\<exists>u>t + 1. u < t1 \<and> (\<exists>p. w_table w u (gm_pid m) = Some p \<and> (\<exists>v\<in>set vs. gm_info v = pr_info p))"
    then obtain u p v where u: "t + 1 < u" "u < t1" "w_table w u (gm_pid m) = Some p" "v \<in> set vs" "gm_info v = pr_info p" by blast
    from assms(2) [OF u(4)] obtain u'' where "t1 \<le> u''" "w_groupGone w u'' (pi_group (pr_info p))" using u(5) by auto
    then have "u < u''" using u(2) by simp
    then show ?thesis using u(1,3) \<open>w_groupGone w u'' (pi_group (pr_info p))\<close> unfolding member_gone_def by blast
  qed (auto simp: member_gone_def)
  then show ?thesis using ms(1) unfolding members_gone_def by (intro exI [of _ "t + 1"]) auto
qed

lemma verifiedMembers_none: "verifiedMembers w session t = (Inr [], t') \<Longrightarrow> members_gone w session t"
  by (erule verifiedMembers_groups_gone) simp

lemma signal_groups_gone:
  "signal_groups w session sig gs b t = (Inr True, es, t') \<Longrightarrow>
    (b \<and> (\<forall>g\<in>set gs. \<exists>u\<ge>t. w_groupGone w u g)) \<or> members_gone w session t"
proof (induction gs arbitrary: b t es t')
  case (Cons g gs)
  have step: "members_gone w session t" if "members_gone w session (t + 2)" using members_gone_mono [OF that] by simp
  consider (gone) "w_groupGone w (t + 1) g" "signal_groups w session sig gs b (t + 2) = (Inr True, es, t')"
    | (refused) "verifiedMembers w session (t + 2) = (Inr [], t')"
    | (sent) es1 where "signal_groups w session sig gs False (t + 2) = (Inr True, es1, t')"
    using Cons.prems by (auto split: if_splits option.splits errno.splits prod.splits sum.splits)
  then show ?case
  proof cases
    case gone
    have "\<exists>u\<ge>t. w_groupGone w u g'" if "\<exists>u\<ge>t + 2. w_groupGone w u g'" for g' using that add_leD1 by blast
    then show ?thesis using Cons.IH [OF gone(2)] step gone(1) by (auto intro: exI [of _ "t + 1"])
  next
    case refused
    then show ?thesis using verifiedMembers_none step by blast
  next
    case sent
    then show ?thesis using Cons.IH [OF sent] step by blast
  qed
qed simp

lemma signalSessionGroups_gone:
  assumes v: "verifiedMembers w session t = (Inr ms, t1)" and "t1 \<le> t2"
    and s: "signalSessionGroups w session ms sig t2 = (Inr True, es, t')"
  shows "members_gone w session t"
proof -
  have "signal_groups w session sig (sort (remdups (map (\<lambda>m. pi_group (gm_info m)) ms))) True t2 = (Inr True, es, t')"
    using s by (auto simp: signalSessionGroups_def split: if_splits)
  from signal_groups_gone [OF this] show ?thesis
  proof
    assume "True \<and> (\<forall>g\<in>set (sort (remdups (map (\<lambda>m. pi_group (gm_info m)) ms))). \<exists>u\<ge>t2. w_groupGone w u g)"
    then show ?thesis using verifiedMembers_groups_gone [OF v] assms(2) by (auto dest: order_trans)
  next
    assume "members_gone w session t2"
    moreover have "t \<le> t1" using verifiedMembers_time [OF v] by simp
    ultimately show ?thesis using members_gone_mono assms(2) by (meson order_trans)
  qed
qed

lemma awaitSessionSettlement_gone:
  assumes "awaitSessionSettlement w session es t = Some r" and "fst r = Inr v"
  shows "members_gone w session t"
proof -
  let ?P = "\<lambda>w session es t r. (\<exists>v. fst r = Inr v) \<longrightarrow> members_gone w session t"
  have "?P w session es t r"
    using assms(1)
  proof (rule awaitSessionSettlement.raw_induct [where P = ?P, rotated], intro impI, goal_cases)
    case (1 f w session es t r)
    obtain m t1 where vm: "verifiedMembers w session t = (m, t1)" by fastforce
    show ?case
    proof (cases m)
      case (Inl e)
      then show ?thesis using 1(2,4) vm by auto
    next
      case (Inr ms)
      obtain r1 es1 t2 where s: "signalSessionGroups w session ms SIGKILL (t1 + 1) = (r1, es1, t2)" by (metis prod_cases3)
      consider (none) "ms = []" | (settled) "r1 = Inr True" | (again) "f w session (es @ es1) (t2 + 1) = Some r"
        using 1(2,4) vm Inr s by (cases r1) (auto split: if_splits)
      then show ?thesis
      proof cases
        case none
        then show ?thesis using verifiedMembers_none vm Inr by blast
      next
        case settled
        then show ?thesis using signalSessionGroups_gone [OF vm [unfolded Inr] _ s [unfolded settled]] by simp
      next
        case again
        have "t \<le> t2 + 1" using verifiedMembers_time [OF vm] signalSessionGroups_time [OF s] by simp
        then show ?thesis using 1(1) [OF again] 1(4) members_gone_mono by blast
      qed
    qed
  qed
  then show ?thesis using assms(2) by simp
qed

lemma sessionGrace_gone:
  assumes "sessionGrace w session grace t = Some r" and "fst r = Inl (Inr v)"
  shows "members_gone w session t"
proof -
  let ?P = "\<lambda>w session grace t r. (\<exists>v. fst r = Inl (Inr v)) \<longrightarrow> members_gone w session t"
  have "?P w session grace t r"
    using assms(1)
  proof (rule sessionGrace.raw_induct [where P = ?P, rotated], intro impI, goal_cases)
    case (1 f w session grace t r)
    obtain m t1 where vm: "verifiedMembers w session (t + 1) = (m, t1)" by fastforce
    have up: "t + 1 \<le> t1" using verifiedMembers_time [OF vm] by simp
    show ?case
    proof (cases m)
      case (Inl e)
      then show ?thesis using 1(2,4) vm by (auto split: if_splits)
    next
      case (Inr ms)
      consider (none) "ms = []" | (again) "f w session grace (t1 + 1) = Some r"
        using 1(2,4) vm Inr by (auto split: if_splits)
      then show ?thesis
      proof cases
        case none
        then have "members_gone w session (t + 1)" using verifiedMembers_none vm Inr by blast
        then show ?thesis by (rule members_gone_mono) simp
      next
        case again
        have "t \<le> t1 + 1" using up by simp
        then show ?thesis using 1(1) [OF again] 1(4) members_gone_mono by blast
      qed
    qed
  qed
  then show ?thesis using assms(2) by simp
qed

lemma sessionGrace_time:
  assumes "sessionGrace w session grace t = Some r"
  shows "t < snd r"
proof -
  let ?P = "\<lambda>w session grace t r. t < snd r"
  show "?P w session grace t r"
    using assms
  proof (rule sessionGrace.raw_induct [where P = ?P, rotated], goal_cases)
    case (1 f w session grace t r)
    obtain m t1 where vm: "verifiedMembers w session (t + 1) = (m, t1)" by fastforce
    have up: "t + 1 < t1" using verifiedMembers_time [OF vm] .
    consider "t < snd r" | "f w session grace (t1 + 1) = Some r"
      using 1(2) vm up by (cases m) (auto split: if_splits)
    then show ?case using 1(1) [of w session grace "t1 + 1" r] up by cases auto
  qed
qed

lemma settleSession_gone:
  assumes "settleSession w session termGrace t = Some (Inr v, es, t')"
  shows "members_gone w session t"
proof -
  obtain m t1 where vm: "verifiedMembers w session t = (m, t1)" by fastforce
  then obtain ms where ms: "m = Inr ms" using assms by (cases m) (auto simp: settleSession_def)
  note vm = vm [unfolded ms]
  obtain r1 es1 t2 where s: "signalSessionGroups w session ms SIGTERM t1 = (r1, es1, t2)" by (metis prod_cases3)
  have up: "t \<le> t2" using verifiedMembers_time [OF vm] signalSessionGroups_time [OF s] by simp
  consider (none) "ms = []" | (settled) "r1 = Inr True"
    | (grace) t3 where "sessionGrace w session (w_now w t2 + termGrace) (t2 + 1) = Some (Inl (Inr v), t3)"
    | (kill) u t3 where "sessionGrace w session (w_now w t2 + termGrace) (t2 + 1) = Some (Inr u, t3)"
        "awaitSessionSettlement w session es1 t3 = Some (Inr v, es, t')"
    using assms vm s by (cases r1) (auto simp: settleSession_def split: if_splits bool.splits option.splits sum.splits)
  then show ?thesis
  proof cases
    case none
    then show ?thesis using verifiedMembers_none vm by blast
  next
    case settled
    then show ?thesis using signalSessionGroups_gone [OF vm order_refl s [unfolded settled]] by simp
  next
    case grace
    then have "members_gone w session (t2 + 1)" using sessionGrace_gone by fastforce
    then show ?thesis using members_gone_mono up by (meson le_add1 order_trans)
  next
    case kill
    have "t2 + 1 \<le> t3" using sessionGrace_time [OF kill(1)] by simp
    moreover have "members_gone w session t3" using awaitSessionSettlement_gone [OF kill(2)] by simp
    ultimately show ?thesis using members_gone_mono up by (meson le_add1 order_trans)
  qed
qed

subsection \<open>What recovery may do to a record\<close>

text \<open>
  The recorded process is gone. Without a dedicated session it was not alive at some instant from \<open>t\<close> on; with one, the
  leader's PID names another process, or the members of the session are gone.
\<close>

definition record_gone :: "world \<Rightarrow> rec \<Rightarrow> nat \<Rightarrow> bool" where
  "record_gone w r t \<longleftrightarrow> id_boot (rec_id r) \<noteq> w_boot w
    \<or> (rec_Session r = 0 \<and> (\<exists>u\<ge>t. \<not> alive w u (rec_id r)))
    \<or> (rec_Session r \<noteq> 0 \<and> (members_gone w (rec_Session r) t
        \<or> (\<exists>u\<ge>t. \<exists>p. w_table w u (rec_PID r) = Some p \<and> pi_start (pr_info p) \<noteq> id_start (rec_id r))))"

text \<open>
  A signal of the single-process ladder: it goes to what the PID names, an earlier probe of the same run saw the recorded
  instance alive under that PID, and through a pidfd what it reaches has the recorded start stamp.
\<close>

definition reaches :: "bool \<Rightarrow> world \<Rightarrow> identity \<Rightarrow> nat \<Rightarrow> event \<Rightarrow> bool" where
  "reaches pidfd w i t e \<longleftrightarrow> (\<exists>u sig n p. e = Signalled u sig n \<and> id_boot i = w_boot w \<and> id_pid i > 1 \<and> id_pid i \<noteq> w_self w
    \<and> w_table w u (id_pid i) = Some p \<and> pr_serial p = n \<and> (pidfd \<longrightarrow> pi_start (pr_info p) = id_start i)
    \<and> (\<exists>u0\<ge>t. u0 < u \<and> alive w u0 i))"

definition record_signalled :: "bool \<Rightarrow> world \<Rightarrow> rec \<Rightarrow> nat \<Rightarrow> event \<Rightarrow> bool" where
  "record_signalled pidfd w r t e \<longleftrightarrow>
    (if rec_Session r = 0 then reaches pidfd w (rec_id r) t e
     else rec_Session r = rec_PID r \<and> rec_Session r > 1 \<and> group_authorized w (rec_Session r) e)"

lemma target_of_table: "target_of h w u pid = Some n \<Longrightarrow> \<exists>p. w_table w u pid = Some p \<and> pr_serial p = n"
  by (auto simp: target_of_def split: held.splits option.splits if_splits)

lemma reap_reaches:
  assumes "pidfd \<longrightarrow> persistent w (id_pid i)" and "reapIdentity pidfd w i 0 t = Some (v, es, t')" and "e \<in> set es"
  shows "reaches pidfd w i t e"
proof -
  have g: "reapIdentityWithGrace pidfd w i 0 (graceShare w t) (t + 1) = Some (v, es, t')"
    using assms(2) by (simp add: reapIdentity_def)
  show ?thesis
    using g
  proof (cases rule: reapIdentity_single)
    case early
    then show ?thesis using assms(3) by simp
  next
    case (orphan h info)
    obtain u sig n where u: "t + 4 \<le> u" "e = Signalled u sig n" "target_of h w u (id_pid i) = Some n"
      using reapOrphan_events [OF orphan(7) assms(3) orphan(4)] by auto
    obtain p where p: "w_table w u (id_pid i) = Some p" "pr_serial p = n" using target_of_table [OF u(3)] by blast
    have "alive w (t + 3) i" using probe_Info [OF orphan(2)] orphan(3,6) by (auto simp: alive_def numeral_eq_Suc)
    moreover have "pi_start (pr_info p) = id_start i" if pidfd
      using reap_signals_exact [of w i t v es t' u sig n] assms that u(2) p(1) by auto
    moreover have "id_pid i > 1" "id_pid i \<noteq> w_self w" using orphan(5) by (auto simp: unsafe_def)
    moreover have "\<exists>u0\<ge>t. u0 < u \<and> alive w u0 i" by (rule exI [of _ "t + 3"]) (use u(1) calculation(1) in simp)
    ultimately show ?thesis
      unfolding reaches_def using u(2) p orphan(4) by blast
  qed
qed

lemma rec_id_simps [simp]: "id_pid (rec_id r) = rec_PID r"
  by (simp add: rec_id_def)

lemma reap_record_gone:
  assumes "pidfd \<longrightarrow> persistent w (rec_PID r) \<and> born w t (rec_id r)"
    and "reapIdentity pidfd w (rec_id r) (rec_Session r) t = Some (Inr v, es, t')"
  shows "record_gone w r t"
proof (cases "rec_Session r = 0")
  case True
  then show ?thesis
    using reap_verdict_gone [of pidfd w "rec_id r" t v es t'] assms by (cases "v = ReapCrossBoot") (auto simp: record_gone_def)
next
  case False
  show ?thesis
  proof (cases "id_boot (rec_id r) = w_boot w")
    case boot: True
    have rs: "reapSession w (rec_id r) (rec_Session r) (probe w (t + 2) (rec_PID r)) (graceShare w t) (t + 3) = Some (Inr v, es, t')"
      using assms(2) False boot
      by (auto simp: reapIdentity_def reapIdentityWithGrace_def crossBoot_def numeral_eq_Suc split: if_splits)
    then consider (reused) info where "probe w (t + 2) (rec_PID r) = Info info" "pi_start info \<noteq> id_start (rec_id r)"
      | (settled) "settleSession w (rec_Session r) (graceShare w t) (t + 3) = Some (Inr v, es, t')"
      using boot by (auto simp: reapSession_def seen_matches split: if_splits probe_answer.splits)
    then show ?thesis
    proof cases
      case reused
      then show ?thesis using False probe_Info [OF reused(1)] unfolding record_gone_def by (metis le_add1)
    next
      case settled
      then have "members_gone w (rec_Session r) t" using settleSession_gone members_gone_mono by (meson le_add1)
      then show ?thesis using False by (simp add: record_gone_def)
    qed
  qed (simp add: record_gone_def)
qed

lemma reap_record_signalled:
  assumes "pidfd \<longrightarrow> persistent w (rec_PID r)"
    and "reapIdentity pidfd w (rec_id r) (rec_Session r) t = Some (v, es, t')" and "e \<in> set es"
  shows "record_signalled pidfd w r t e"
proof (cases "rec_Session r = 0")
  case True
  then show ?thesis using reap_reaches [of pidfd w "rec_id r" t v es t' e] assms by (simp add: record_signalled_def)
next
  case False
  note a = session_signals_authorized [OF assms(2) False assms(3)]
  then have "group_authorized w (rec_Session r) e" unfolding group_authorized_def by (elim conjE)
  then show ?thesis using a False by (simp add: record_signalled_def)
qed

lemma inspectScope_gone:
  assumes "inspectScope released w i session t = (Inr ([], reap), t')" "reap \<noteq> reapUndetermined"
  shows "id_boot i \<noteq> w_boot w \<or> (session = 0 \<and> (\<exists>u\<ge>t. \<not> alive w u i)) \<or> (session \<noteq> 0 \<and> members_gone w session t)"
proof -
  obtain reap1 settled t1 where o: "observe w i (t + 1) = (Inr (reap1, settled), t1)"
    using assms(1) by (auto simp: inspectScope_def split: if_splits prod.splits sum.splits)
  have settled: "settled"
    using assms(1) o by (auto simp: inspectScope_def Let_def sort_key_def split: if_splits prod.splits sum.splits)
  have seen: "id_boot i \<noteq> w_boot w \<or> (\<exists>u\<ge>t. \<not> alive w u i)"
    using observe_settled [OF o [unfolded settled[THEN eqTrueI]]] by (auto intro: Suc_leD)
  have t1: "t \<le> t1" using observe_time [OF o] by simp
  show ?thesis
  proof (cases "session = 0 \<or> reap1 = ReapCrossBoot")
    case True
    have "id_boot i \<noteq> w_boot w" if "reap1 = ReapCrossBoot"
      using o that by (auto simp: observe_def crossBoot_def split: if_splits probe_answer.splits)
    then show ?thesis using True seen by blast
  next
    case False
    then obtain ms t2 where vm: "verifiedMembers w session t1 = (Inr ms, t2)"
      "sort_key id_pid (map (member_identity (id_boot i)) ms) = []"
      using assms(1) o settled by (auto simp: inspectScope_def Let_def split: if_splits prod.splits sum.splits)
    then have "ms = []" by (metis length_sort list.map_disc_iff list.size(3) length_0_conv)
    then have "members_gone w session t1" using verifiedMembers_none vm(1) by blast
    then show ?thesis using False members_gone_mono t1 by blast
  qed
qed

lemma awaitSessionSettlement_time:
  assumes "awaitSessionSettlement w session es t = Some r"
  shows "t \<le> snd (snd r)"
proof -
  let ?P = "\<lambda>w session es t r. t \<le> snd (snd r)"
  show "?P w session es t r"
    using assms
  proof (rule awaitSessionSettlement.raw_induct [where P = ?P, rotated], goal_cases)
    case (1 f w session es t r)
    obtain m t1 where vm: "verifiedMembers w session t = (m, t1)" by fastforce
    obtain r1 es1 t2 where s: "signalSessionGroups w session (projr m) SIGKILL (t1 + 1) = (r1, es1, t2)" by (metis prod_cases3)
    have up: "t < t1" "t1 + 1 \<le> t2" using verifiedMembers_time [OF vm] signalSessionGroups_time [OF s] by auto
    consider "t \<le> snd (snd r)" | "f w session (es @ es1) (t2 + 1) = Some r"
      using 1(2) vm s up by (cases m; cases r1) (auto split: if_splits)
    then show ?case using 1(1) [of w session "es @ es1" "t2 + 1" r] up by cases auto
  qed
qed

lemma settleSession_time:
  assumes "settleSession w session g t = Some (v, es, t')"
  shows "t \<le> t'"
proof -
  obtain m t1 where vm: "verifiedMembers w session t = (m, t1)" by fastforce
  obtain r1 es1 t2 where s: "signalSessionGroups w session (projr m) SIGTERM t1 = (r1, es1, t2)" by (metis prod_cases3)
  have up: "t < t1" "t1 \<le> t2" using verifiedMembers_time [OF vm] signalSessionGroups_time [OF s] by auto
  show ?thesis
  proof (cases "\<exists>ms. m = Inr ms \<and> ms \<noteq> [] \<and> r1 = Inr False")
    case False
    then show ?thesis using assms vm s up by (cases m; cases r1) (auto simp: settleSession_def split: if_splits bool.splits)
  next
    case True
    then obtain q t3 where q: "sessionGrace w session (w_now w t2 + g) (t2 + 1) = Some (q, t3)"
      using assms vm s by (auto simp: settleSession_def split: option.splits)
    have "t2 + 1 < t3" using sessionGrace_time [OF q] by simp
    then show ?thesis
      using assms vm s True q up awaitSessionSettlement_time [of w session es1 t3] by (cases q) (fastforce simp: settleSession_def)+
  qed
qed

lemma reap_time:
  assumes "reapIdentity pidfd w i 0 t = Some (v, es, t')"
  shows "t < t'"
proof (cases "\<exists>h. id_boot i = w_boot w \<and> reapOrphan w i h (t + 4) = Some (v, es, t')")
  case False
  then show ?thesis
    using assms
    by (auto simp: reapIdentity_def reapIdentityWithGrace_def crossBoot_def seen_matches numeral_eq_Suc
        split: if_splits option.splits probe_answer.splits)
next
  case True
  then obtain h where boot: "id_boot i = w_boot w" and ro: "reapOrphan w i h (t + 4) = Some (v, es, t')" by blast
  obtain r es1 where h1: "heldGone h w (t + 4) (id_pid i) SIGTERM = (r, es1)" by fastforce
  show ?thesis
  proof (cases "r = Inr False")
    case False
    then show ?thesis using ro h1 by (cases r) (auto simp: reapOrphan_def split: bool.splits)
  next
    case run: True
    obtain g t1 where g: "graceLoop w i (w_now w (t + 4 + 1) + graceShare w (t + 4 + 1)) (t + 4 + 2) = Some (g, t1)"
      using ro h1 run by (auto simp: reapOrphan_def split: option.splits)
    have "t < t1" using graceLoop_spec [OF g boot] by simp
    moreover have "t1 \<le> t'"
      using ro h1 run g awaitSettlement_spec [OF _ boot, of "t1 + 1"]
      by (auto simp: reapOrphan_def split: sum.splits prod.splits bool.splits option.splits)
    ultimately show ?thesis by simp
  qed
qed

lemma reapIdentity_time:
  assumes "reapIdentity pidfd w i session t = Some (v, es, t')"
  shows "t \<le> t'"
proof (cases "session = 0")
  case True
  then show ?thesis using reap_time assms by fastforce
next
  case False
  then show ?thesis
    using assms settleSession_time
    by (fastforce simp: reapIdentity_def reapIdentityWithGrace_def reapSession_def split: if_splits probe_answer.splits)
qed

lemma observeScope_time:
  assumes "observeScope released w i session t = (r, t')"
  shows "t < t'"
proof -
  obtain q t1 where q: "observe w i (t + 1) = (q, t1)" by fastforce
  obtain m t2 where m: "verifiedMembers w session t1 = (m, t2)" by fastforce
  have "t < t1" "t1 < t2" using observe_time [OF q] verifiedMembers_time [OF m] by auto
  then show ?thesis
    using assms q m
    by (auto simp: observeScope_def inspectScope_def Let_def split: sum.splits if_splits prod.splits)
qed

text \<open>What one record contributes to a recovery.\<close>

lemma recover_verdict_record:
  assumes "recover_verdict pidfd released policy w r t = Some (v, es, t')"
    and "pidfd \<longrightarrow> persistent w (rec_PID r) \<and> born w t (rec_id r)"
  shows "v = Inr reap \<Longrightarrow> record_gone w r t"
    and "e \<in> set es \<Longrightarrow> policy \<noteq> PreserveOwned \<and> rec_Policy r \<noteq> PreserveOwned \<and> record_signalled pidfd w r t e"
    and "t \<le> t'"
proof -
  let ?keep = "policy = PreserveOwned \<or> rec_Policy r = PreserveOwned"
  have reap: "reapIdentity pidfd w (rec_id r) (rec_Session r) t = Some (v, es, t')" if "\<not> ?keep"
    using assms(1) that by (simp add: recover_verdict_def)
  show "v = Inr reap \<Longrightarrow> record_gone w r t"
  proof (cases ?keep)
    case True
    assume "v = Inr reap"
    then obtain ms where "inspectScope released w (rec_id r) (rec_Session r) t = (Inr ([], reap), t')" "reap \<noteq> reapUndetermined"
      using assms(1) True
      by (cases "inspectScope released w (rec_id r) (rec_Session r) t")
        (auto simp: recover_verdict_def observeScope_def scope_complete_def list.pred_set split: sum.splits if_splits)
    then show ?thesis using inspectScope_gone by (fastforce simp: record_gone_def)
  qed (use reap assms(2) reap_record_gone in blast)
  show "e \<in> set es \<Longrightarrow> policy \<noteq> PreserveOwned \<and> rec_Policy r \<noteq> PreserveOwned \<and> record_signalled pidfd w r t e"
    using recover_verdict_spec(2) [OF assms(1)] reap reap_record_signalled assms(2) by (cases ?keep) auto
  show "t \<le> t'"
    using reap reapIdentity_time less_imp_le [OF observeScope_time] assms(1)
    by (cases ?keep) (auto simp: recover_verdict_def split: prod.splits option.splits)
qed

definition recovery_ok :: "bool \<Rightarrow> world \<Rightarrow> nat \<Rightarrow> Store \<Rightarrow> rec list \<Rightarrow> recovery \<Rightarrow> bool" where
  "recovery_ok pidfd w t s rs rc \<longleftrightarrow> st_generation (rc_store rc) = st_generation s \<and> st_policy (rc_store rc) = st_policy s
    \<and> (\<forall>(r, reap, fate)\<in>set (rc_reclaimed rc). r \<in> set rs \<and> rec_Generation r \<noteq> st_generation s \<and> reap \<noteq> reapUndetermined
        \<and> record_gone w r t)
    \<and> (\<forall>(r, e)\<in>set (rc_events rc). r \<in> set rs \<and> rec_Generation r \<noteq> st_generation s \<and> st_policy s \<noteq> PreserveOwned
        \<and> rec_Policy r \<noteq> PreserveOwned \<and> record_signalled pidfd w r t e)"

lemma record_gone_mono: "record_gone w r t' \<Longrightarrow> t \<le> t' \<Longrightarrow> record_gone w r t"
  unfolding record_gone_def using members_gone_mono order_trans by blast

lemma record_signalled_mono: "record_signalled pidfd w r t' e \<Longrightarrow> t \<le> t' \<Longrightarrow> record_signalled pidfd w r t e"
  unfolding record_signalled_def reaches_def by (auto split: if_splits) (meson order_trans)+

lemma recover_all_ok:
  "recover_all j path c ans late pidfd w rs acc u = Some rc \<Longrightarrow> t \<le> u \<Longrightarrow> set rs \<subseteq> set live \<Longrightarrow>
    pidfd \<longrightarrow> (\<forall>r\<in>set live. persistent w (rec_PID r) \<and> born w t (rec_id r)) \<Longrightarrow>
    recovery_ok pidfd w t s live acc \<Longrightarrow> recovery_ok pidfd w t s live rc"
proof (induction rs arbitrary: acc u)
  case (Cons r rs)
  have acc: "st_generation (rc_store acc) = st_generation s" "st_policy (rc_store acc) = st_policy s"
    using Cons.prems(5) by (simp_all add: recovery_ok_def)
  show ?case
  proof (cases "rec_Generation r = st_generation s")
    case True
    then show ?thesis using Cons acc by simp
  next
    case False
    then obtain v es t1 where v: "recover_verdict pidfd (send_closed (c u)) (st_policy s) w r u = Some (v, es, t1)"
      using Cons.prems(1) acc by (auto split: option.splits)
    have r: "r \<in> set live" using Cons.prems(3) by simp
    have known: "pidfd \<longrightarrow> persistent w (rec_PID r) \<and> born w u (rec_id r)"
      using Cons.prems(2,4) r born_later [of w t "rec_id r" u] by auto
    note rv = recover_verdict_record [OF v known]
    have es: "\<forall>e\<in>set es. st_policy s \<noteq> PreserveOwned \<and> rec_Policy r \<noteq> PreserveOwned \<and> record_signalled pidfd w r t e"
      using rv(2) record_signalled_mono Cons.prems(2) by blast
    have t1: "t \<le> t1" using rv(3) Cons.prems(2) by simp
    show ?thesis
    proof (cases v)
      case (Inl e)
      let ?acc = "acc\<lparr>rc_errors := rc_errors acc @ [(rec_PID r, e)], rc_events := rc_events acc @ map (Pair r) es\<rparr>"
      have "recovery_ok pidfd w t s live ?acc" using Cons.prems(5) es r False by (auto simp: recovery_ok_def)
      moreover have "recover_all j path c ans late pidfd w rs ?acc t1 = Some rc"
        using Cons.prems(1) False acc v Inl by simp
      ultimately show ?thesis using Cons.IH t1 Cons.prems(3,4) by simp
    next
      case (Inr reap)
      obtain fate s1 where ret: "retireContext j path (c t1) (ans t1) (rec_id r) (rc_store acc) = (fate, s1)" by fastforce
      let ?acc = "acc\<lparr>rc_reclaimed := rc_reclaimed acc @ [(r, reap, recover_fate w late (t1 + 1) fate)],
        rc_events := rc_events acc @ map (Pair r) es, rc_store := s1\<rparr>"
      have "record_gone w r t" "reap \<noteq> reapUndetermined"
        using rv(1) [OF Inr] record_gone_mono Cons.prems(2) recover_verdict_spec(1) [OF v] Inr by auto
      then have "recovery_ok pidfd w t s live ?acc"
        using Cons.prems(5) retireContext_fixed [OF ret] acc es r False by (auto simp: recovery_ok_def)
      moreover have "recover_all j path c ans late pidfd w rs ?acc (t1 + 1) = Some rc"
        using Cons.prems(1) False acc v Inr ret by simp
      ultimately show ?thesis using Cons.IH [of ?acc "t1 + 1"] t1 Cons.prems(3,4) by simp
    qed
  qed
qed simp


definition prior_store :: Store where
  "prior_store = empty_store\<lparr>st_value := no_records\<lparr>Live := [rec_example]\<rparr>, st_generation := 6\<rparr>"

definition prior_world :: world where
  "prior_world = quiet_world\<lparr>w_table := (\<lambda>t. w_table quiet_world (t - 2))\<rparr>"


end
