(* ===== verification/Budget.thy ===== *)
theory Budget
  imports ProcReap
begin

text \<open>
  Deadline budgets, \<^verbatim>\<open>budget.go\<close>, and the limits of \<^verbatim>\<open>daemon.go\<close> that keep them in range. Instants and
  durations are counts of nanoseconds; an operation that reads the clock takes the reading as an
  argument.

  The locale \<open>carving\<close> is what every operation that cuts one budget out of another promises; \<open>Share\<close>
  and the work half of \<open>Reserve\<close> interpret it, and a chain of cuts stays inside the budget it started
  from.
\<close>

record Budget =
  deadline :: int
  bpath :: string

definition second :: int where "second = 1000000000"

definition maxGrace :: int where "maxGrace = 24 * 3600 * second"

definition Grace_validate :: "int \<Rightarrow> bool" where
  "Grace_validate g \<longleftrightarrow> \<not> (g < 0 \<or> g > maxGrace)"

definition ShutdownGrace :: "int \<Rightarrow> int" where
  "ShutdownGrace shutdown = (if shutdown = 0 then 30 * second else shutdown)"

definition mint :: "int \<Rightarrow> string \<Rightarrow> int \<Rightarrow> Budget" where
  "mint now name g = \<lparr> deadline = now + g, bpath = name \<rparr>"

text \<open>\<open>time.Until\<close> saturates at the range of a \<open>Duration\<close>.\<close>

definition Until :: "int \<Rightarrow> int \<Rightarrow> int" where
  "Until now d = max (- (2 ^ 63)) (min (2 ^ 63 - 1) (d - now))"

definition Left :: "int \<Rightarrow> Budget \<Rightarrow> int" where
  "Left now b = (let left = Until now (deadline b) in if left > 0 then left else 0)"

definition join_path :: "Budget \<Rightarrow> string \<Rightarrow> string" where
  "join_path b name = (if bpath b = [] then name else bpath b @ ''/'' @ name)"

fun clampFraction :: "float64 \<Rightarrow> rat" where
  "clampFraction NaN = 0"
| "clampFraction NegInf = 0"
| "clampFraction PosInf = 1"
| "clampFraction (Fin x) = (if x \<le> 0 then 0 else if x \<ge> 1 then 1 else x)"

definition fractionOf :: "int \<Rightarrow> rat \<Rightarrow> int" where
  "fractionOf left part =
    (let scaled = rnd64 (part * rnd64 (of_int left)) in
     if scaled \<ge> rnd64 (of_int left) then left else \<lfloor>scaled\<rfloor>)"

definition Share :: "string \<Rightarrow> float64 \<Rightarrow> int \<Rightarrow> Budget \<Rightarrow> Budget" where
  "Share name part now b =
    (let withheld = fractionOf (Left now b) (rnd64 (1 - clampFraction part)) in
     \<lparr> deadline = deadline b - withheld, bpath = join_path b name \<rparr>)"

definition Reserve :: "string \<Rightarrow> float64 \<Rightarrow> int \<Rightarrow> Budget \<Rightarrow> Budget \<times> Budget" where
  "Reserve name part now b =
    (let reserved = fractionOf (Left now b) (clampFraction part) in
     (\<lparr> deadline = deadline b - reserved, bpath = join_path b ''work'' \<rparr>,
      \<lparr> deadline = deadline b, bpath = join_path b name \<rparr>))"

text \<open>\<open>exitTimeOut\<close> of \<^verbatim>\<open>ensure.go\<close>: the shutdown budget in whole seconds, rounded up.\<close>

definition exitTimeOut :: "int \<Rightarrow> int" where
  "exitTimeOut shutdown =
    (let grace = ShutdownGrace shutdown; remainder = grace mod second in
     if remainder \<noteq> 0 then grace + second - remainder else grace)"

subsection \<open>A fraction of what is left\<close>

lemma clampFraction_range: "0 \<le> clampFraction part \<and> clampFraction part \<le> 1"
  by (cases part) auto

lemma Left_nonneg [simp]: "0 \<le> Left now b"
  by (simp add: Left_def Let_def)

lemma Left_le: "Left now b \<le> max 0 (deadline b - now)"
  by (auto simp: Left_def Let_def Until_def)

lemma Left_exact: "now \<le> deadline b \<Longrightarrow> deadline b - now < 2 ^ 63 \<Longrightarrow> Left now b = deadline b - now"
  by (auto simp: Left_def Let_def Until_def)

lemma Left_pos: "0 < Left now b \<longleftrightarrow> now < deadline b"
  by (auto simp: Left_def Let_def Until_def)

lemma fractionOf_range:
  assumes "0 \<le> left" and "0 \<le> part"
  shows "0 \<le> fractionOf left part \<and> fractionOf left part \<le> left"
proof (cases "rnd64 (part * rnd64 (of_int left)) \<ge> rnd64 (of_int left)")
  case True
  then show ?thesis using assms by (simp add: fractionOf_def)
next
  case False
  define s where "s = rnd64 (part * rnd64 (of_int left))"
  have "rnd64 s = s" by (simp add: s_def)
  moreover have "s < rnd64 (of_int left)" using False by (simp add: s_def)
  ultimately have "s \<le> of_int left" by (rule rnd64_below)
  then have "\<lfloor>s\<rfloor> \<le> left" by linarith
  then show ?thesis using False by (simp add: fractionOf_def s_def [symmetric] Let_def) (simp add: s_def)
qed

lemma fractionOf_zero [simp]: "0 \<le> left \<Longrightarrow> fractionOf left 0 = 0"
proof -
  assume l: "0 \<le> left"
  have "rnd64 (of_int left) \<le> 0 \<Longrightarrow> left = 0"
  proof (rule ccontr)
    assume z: "rnd64 (of_int left) \<le> 0" "left \<noteq> 0"
    then have "rnd64 1 \<le> rnd64 (of_int left)" using l by (intro rnd64_mono) simp
    then show False using z rnd64_int [of 1] by simp
  qed
  then show ?thesis by (simp add: fractionOf_def)
qed

lemma fractionOf_one [simp]: "fractionOf left 1 = left"
  by (simp add: fractionOf_def)

lemma fractionOf_mono:
  assumes "0 \<le> left" and "0 \<le> f" and "f \<le> g"
  shows "fractionOf left f \<le> fractionOf left g"
proof -
  have "rnd64 (f * rnd64 (of_int left)) \<le> rnd64 (g * rnd64 (of_int left))"
    using assms by (intro rnd64_mono mult_right_mono) simp_all
  then show ?thesis
    using fractionOf_range [of left f] assms by (auto simp: fractionOf_def Let_def floor_mono)
qed

text \<open>Within the range of a budget the fraction is exact to less than two nanoseconds.\<close>

lemma fractionOf_accurate:
  assumes "1 \<le> left" and "left \<le> 2 ^ 47" and "2 powi (- 1022) \<le> f" and "f \<le> 1"
  shows "f * of_int left - 2 < of_int (fractionOf left f) \<and> of_int (fractionOf left f) \<le> f * of_int left + 1"
proof -
  have f: "0 \<le> f" using assms(3) two_powi_pos [of "- 1022"] by linarith
  have l: "rnd64 (of_int left) = of_int left" using assms by (intro rnd64_int) simp_all
  let ?x = "f * of_int left" and ?s = "rnd64 (f * of_int left)"
  have lr: "(1 :: rat) \<le> of_int left" using assms(1) by simp
  have lr2: "(of_int left :: rat) \<le> of_int (2 ^ 47)" using assms(2) by (simp only: of_int_le_iff)
  have "2 powi (- 1022) \<le> ?x" using mult_mono [OF assms(3) lr] f by simp
  then have e: "\<bar>?s - ?x\<bar> \<le> ?x / 2 ^ 53" by (rule rnd64_error)
  have "?x \<le> of_int left" using assms(4) lr mult_right_mono [of f 1 "of_int left"] by simp
  then have "?x / 2 ^ 53 \<le> 2 ^ 47 / 2 ^ 53" using lr2 by simp
  then have e1: "\<bar>?s - ?x\<bar> \<le> 1 / 64" using e by simp
  show ?thesis
  proof (cases "?s \<ge> of_int left")
    case True
    then show ?thesis using e1 \<open>?x \<le> of_int left\<close> by (simp add: fractionOf_def l abs_le_iff)
  next
    case False
    then have fr: "fractionOf left f = \<lfloor>?s\<rfloor>" by (simp add: fractionOf_def l)
    show ?thesis using e1 unfolding fr abs_le_iff by linarith
  qed
qed

subsection \<open>Carving\<close>

text \<open>What an operation that cuts a budget out of another promises.\<close>

locale carving =
  fixes carve :: "int \<Rightarrow> Budget \<Rightarrow> Budget"
  assumes carve_within: "deadline (carve now b) \<le> deadline b"
    and carve_future: "now \<le> deadline b \<Longrightarrow> now \<le> deadline (carve now b)"
begin

lemma carve_left: "Left t (carve now b) \<le> Left t b"
  using carve_within [of now b] by (auto simp: Left_def Let_def Until_def)

lemma carve_expired: "deadline b \<le> t \<Longrightarrow> Left t (carve now b) = 0"
  using carve_left [of t now b] Left_nonneg [of t "carve now b"] by (simp add: Left_def Let_def Until_def split: if_splits)

end

lemma cut_future:
  assumes "now \<le> deadline b" and "0 \<le> part"
  shows "now \<le> deadline b - fractionOf (Left now b) part"
  using fractionOf_range [of "Left now b" part] Left_le [of now b] assms by simp

interpretation share: carving "Share name part" for name part
proof
  fix now b
  show "deadline (Share name part now b) \<le> deadline b"
    using fractionOf_range [of "Left now b" "rnd64 (1 - clampFraction part)"] by (simp add: Share_def)
  show "now \<le> deadline b \<Longrightarrow> now \<le> deadline (Share name part now b)"
    using cut_future [of now b "rnd64 (1 - clampFraction part)"] by (simp add: Share_def)
qed

interpretation work: carving "\<lambda>now b. fst (Reserve name part now b)" for name part
proof
  fix now b
  have r: "0 \<le> clampFraction part" using clampFraction_range by blast
  show "deadline (fst (Reserve name part now b)) \<le> deadline b"
    using fractionOf_range [OF Left_nonneg r, of now b] by (simp add: Reserve_def)
  show "now \<le> deadline b \<Longrightarrow> now \<le> deadline (fst (Reserve name part now b))"
    using cut_future [OF _ r, of now b] by (simp add: Reserve_def)
qed

subsection \<open>Properties\<close>

text \<open>
  A share never outlives the budget it is cut from and is never cut in the past. Whatever the
  requested fraction (also when it is not a number, negative or infinite) and whatever the clock reads,
  the share ends no later than its parent and, while the parent is live, no earlier than now; the whole
  is everything that is left, and nothing is granted for a fraction that is not positive.
\<close>

lemma share_within_parent:
  "deadline (Share name part now b) \<le> deadline b
   \<and> (now \<le> deadline b \<longrightarrow> now \<le> deadline (Share name part now b))
   \<and> (clampFraction part = 1 \<longrightarrow> deadline (Share name part now b) = deadline b)
   \<and> (clampFraction part = 0 \<and> now \<le> deadline b \<and> deadline b - now < 2 ^ 63 \<longrightarrow> Left now (Share name part now b) = 0)"
  using share.carve_within [of name part now b] share.carve_future [of now b name part]
    rnd64_int [of 1] by (simp add: Share_def Left_exact [of now b] Left_def [of now "\<lparr>deadline = _, bpath = _\<rparr>"] Until_def)

text \<open>
  A reserved tail is guaranteed. The tail ends at the budget's own deadline and the work before it,
  so however late the work ends inside its half, the tail still has what was reserved; within the range
  of a budget that is the requested fraction to less than two nanoseconds, and the two halves together are
  exactly the budget.
\<close>

lemma reserved_tail_guaranteed:
  assumes "Reserve name (Fin f) now b = (w, tail)" and "2 powi (- 1022) \<le> f" and "f \<le> 1"
    and "now < deadline b" and "deadline b - now \<le> maxGrace" and "t \<le> deadline w"
  shows "deadline tail = deadline b \<and> now \<le> deadline w
    \<and> of_int (Left t tail) > f * of_int (Left now b) - 2
    \<and> (deadline b - now) = (deadline w - now) + (deadline tail - deadline w)"
proof -
  have f0: "0 < f" using assms(2) two_powi_pos [of "- 1022"] by linarith
  have cf: "clampFraction (Fin f) = f" using f0 assms(3) by simp
  have l: "Left now b = deadline b - now" using assms(4,5) by (intro Left_exact) (auto simp: maxGrace_def second_def)
  have w: "deadline w = deadline b - fractionOf (Left now b) f" and tl: "deadline tail = deadline b"
    using assms(1) unfolding Reserve_def cf Let_def by auto
  have acc: "f * of_int (Left now b) - 2 < of_int (fractionOf (Left now b) f)"
    using fractionOf_accurate [of "Left now b" f] assms(2-5) l by (auto simp: maxGrace_def second_def)
  have "fractionOf (Left now b) f \<le> deadline tail - t" using assms(6) w tl by simp
  moreover have "Left t tail \<ge> min (2 ^ 63 - 1) (deadline tail - t)" by (auto simp: Left_def Let_def Until_def)
  moreover have "fractionOf (Left now b) f \<le> 2 ^ 63 - 1"
    using fractionOf_range [of "Left now b" f] f0 l assms(4,5) by (simp add: maxGrace_def second_def)
  ultimately have "fractionOf (Left now b) f \<le> Left t tail" by linarith
  then have "(of_int (fractionOf (Left now b) f) :: rat) \<le> of_int (Left t tail)" by (simp only: of_int_le_iff)
  then have "of_int (Left t tail) > f * of_int (Left now b) - 2" using acc by linarith
  then show ?thesis
    using w tl l fractionOf_range [of "Left now b" f] f0 assms(4) by simp
qed

end
