(* ===== verification/Lifecycle.thy ===== *)
theory Lifecycle
  imports WireServer Budget "HOL-Library.Multiset"
begin

text \<open>
  The daemon's own life, \<^verbatim>\<open>serve.go\<close>: the runtime that publishes phases to the wire server, the
  shutdown ladder and the whole of \<open>Serve\<close> as the sequence of its effects.

  The runtime is used by several goroutines at once (every drain trigger, the product's reports, the
  one that runs \<open>Serve\<close>), so its operations are the steps of \<open>rt_step\<close>, one per critical section. The
  channel that announces a change is its number: publishing closes the current one and opens the next.
\<close>

subsection \<open>The serve runtime\<close>

record 'p serveRuntime =
  sr_snapshot :: PhaseSnapshot
  sr_changed :: nat
  sr_product :: "'p option"
  sr_detail :: bytes
  sr_maxDetail :: int
  sr_stopped :: bool

definition newServeRuntime :: "int \<Rightarrow> 'p serveRuntime" where
  "newServeRuntime maxDetail =
    \<lparr> sr_snapshot = \<lparr> ps_Sequence = 1, ps_Phase = PhaseStarting \<rparr>, sr_changed = 0, sr_product = None, sr_detail = [],
      sr_maxDetail = maxDetail, sr_stopped = False \<rparr>"

definition publish :: "Phase \<Rightarrow> 'p serveRuntime \<Rightarrow> 'p serveRuntime" where
  "publish ph r =
    (if ps_Phase (sr_snapshot r) = PhaseDraining \<or> ps_Phase (sr_snapshot r) = PhaseFailed then r
     else r\<lparr>sr_snapshot := \<lparr> ps_Sequence = ps_Sequence (sr_snapshot r) + 1, ps_Phase = ph \<rparr>,
            sr_changed := Suc (sr_changed r)\<rparr>)"

definition signal_stop :: "'p serveRuntime \<Rightarrow> 'p serveRuntime" where
  "signal_stop r = r\<lparr>sr_stopped := True\<rparr>"

definition rt_Drain :: "'p serveRuntime \<Rightarrow> 'p serveRuntime" where
  "rt_Drain r = signal_stop (publish PhaseDraining r)"

definition mount :: "'p \<Rightarrow> 'p serveRuntime \<Rightarrow> 'p serveRuntime" where
  "mount product r = r\<lparr>sr_product := Some product\<rparr>"

definition rt_ready :: "'p \<Rightarrow> 'p serveRuntime \<Rightarrow> 'p serveRuntime" where
  "rt_ready product r = publish PhaseReady (mount product r)"

definition rt_fail :: "'p serveRuntime \<Rightarrow> 'p serveRuntime" where
  "rt_fail r = publish PhaseFailed r"

definition rt_report :: "bytes \<Rightarrow> 'p serveRuntime \<Rightarrow> 'p serveRuntime" where
  "rt_report detail r = (if int (length detail) > sr_maxDetail r then r else r\<lparr>sr_detail := detail\<rparr>)"

text \<open>One turn of \<open>WaitPhase\<close>: the snapshot, or the channel it goes on to wait for.\<close>

definition WaitPhase_turn :: "'p serveRuntime \<Rightarrow> u64 \<Rightarrow> nat + PhaseSnapshot" where
  "WaitPhase_turn r after =
    (if ps_Sequence (sr_snapshot r) > after then Inr (sr_snapshot r) else Inl (sr_changed r))"

definition channel_closed :: "'p serveRuntime \<Rightarrow> nat \<Rightarrow> bool" where
  "channel_closed r c \<longleftrightarrow> c < sr_changed r"

subsection \<open>Its goroutines\<close>

datatype serve_pc = PcStart | PcMounted | PcReady | PcFailed

record 'p rt_sys =
  rs_pc :: serve_pc
  rs_draining :: nat
  rs_rt :: "'p serveRuntime"

definition rt_init :: "int \<Rightarrow> 'p rt_sys" where
  "rt_init maxDetail = \<lparr> rs_pc = PcStart, rs_draining = 0, rs_rt = newServeRuntime maxDetail \<rparr>"

text \<open>
  \<open>rs_draining\<close> counts the callers of \<open>Drain\<close> that have published and not yet signalled.
\<close>

inductive rt_step :: "'p rt_sys \<Rightarrow> 'p rt_sys \<Rightarrow> bool" where
  step_mount: "rs_pc s = PcStart \<Longrightarrow> rt_step s (s\<lparr>rs_pc := PcMounted, rs_rt := mount p (rs_rt s)\<rparr>)"
| step_ready: "rs_pc s = PcMounted \<Longrightarrow> rt_step s (s\<lparr>rs_pc := PcReady, rs_rt := publish PhaseReady (rs_rt s)\<rparr>)"
| step_fail: "rs_pc s = PcStart \<Longrightarrow> rt_step s (s\<lparr>rs_pc := PcFailed, rs_rt := rt_fail (rs_rt s)\<rparr>)"
| step_drain: "rt_step s (s\<lparr>rs_draining := Suc (rs_draining s), rs_rt := publish PhaseDraining (rs_rt s)\<rparr>)"
| step_signal: "rs_draining s = Suc n \<Longrightarrow> rt_step s (s\<lparr>rs_draining := n, rs_rt := signal_stop (rs_rt s)\<rparr>)"
| step_report: "rt_step s (s\<lparr>rs_rt := rt_report detail (rs_rt s)\<rparr>)"

inductive_cases rt_stepE: "rt_step s s'"

definition rt_settled :: "'p serveRuntime \<Rightarrow> bool" where
  "rt_settled r \<longleftrightarrow> settledPhase (sr_snapshot r)"

text \<open>The invariant of the runtime.\<close>

fun pc_phases :: "serve_pc \<Rightarrow> Phase set" where
  "pc_phases PcStart = {PhaseStarting, PhaseDraining}"
| "pc_phases PcMounted = {PhaseStarting, PhaseDraining}"
| "pc_phases PcReady = {PhaseReady, PhaseDraining}"
| "pc_phases PcFailed = {PhaseFailed, PhaseDraining}"

definition rt_inv :: "'p rt_sys \<Rightarrow> bool" where
  "rt_inv s \<longleftrightarrow>
    ps_Phase (sr_snapshot (rs_rt s)) \<in> pc_phases (rs_pc s)
    \<and> (rs_pc s \<in> {PcMounted, PcReady} \<longleftrightarrow> sr_product (rs_rt s) \<noteq> None)
    \<and> (sr_stopped (rs_rt s) \<or> 0 < rs_draining s \<longrightarrow> rt_settled (rs_rt s))
    \<and> ps_Sequence (sr_snapshot (rs_rt s)) = of_nat (Suc (sr_changed (rs_rt s)))
    \<and> sr_changed (rs_rt s) \<le> (case ps_Phase (sr_snapshot (rs_rt s)) of PhaseStarting \<Rightarrow> 0 | PhaseReady \<Rightarrow> 1 | _ \<Rightarrow> 2)
    \<and> (sr_maxDetail (rs_rt s) \<ge> 0 \<longrightarrow> int (length (sr_detail (rs_rt s))) \<le> sr_maxDetail (rs_rt s))"

lemmas rt_defs = publish_def signal_stop_def mount_def rt_fail_def rt_report_def rt_settled_def settledPhase_def

lemma rt_inv_init: "rt_inv (rt_init maxDetail)"
  by (simp add: rt_inv_def rt_init_def newServeRuntime_def rt_defs)

lemma rt_inv_step: "rt_step s s' \<Longrightarrow> rt_inv s \<Longrightarrow> rt_inv s'"
  by (erule rt_stepE) (cases "rs_pc s"; auto simp: rt_inv_def rt_defs split: Phase.splits)+

lemma rt_inv_reachable: "rt_step\<^sup>*\<^sup>* (rt_init maxDetail) s \<Longrightarrow> rt_inv s"
  by (induction rule: rtranclp_induct) (auto intro: rt_inv_init rt_inv_step)

text \<open>What one step keeps.\<close>

lemma rt_step_monotone:
  assumes "rt_step s s'"
  shows "sr_changed (rs_rt s) \<le> sr_changed (rs_rt s')
    \<and> (sr_changed (rs_rt s) = sr_changed (rs_rt s') \<longrightarrow> sr_snapshot (rs_rt s') = sr_snapshot (rs_rt s))
    \<and> (rt_settled (rs_rt s) \<longrightarrow> sr_snapshot (rs_rt s') = sr_snapshot (rs_rt s))
    \<and> (sr_stopped (rs_rt s) \<longrightarrow> sr_stopped (rs_rt s'))
    \<and> (rt_inv s \<and> sr_product (rs_rt s) \<noteq> None \<longrightarrow> sr_product (rs_rt s') = sr_product (rs_rt s))"
  using assms by (cases rule: rt_step.cases) (auto simp: rt_defs rt_inv_def)

lemma rt_steps_monotone:
  "rt_step\<^sup>*\<^sup>* s s' \<Longrightarrow> rt_inv s \<Longrightarrow> rt_inv s' \<and> sr_changed (rs_rt s) \<le> sr_changed (rs_rt s')
    \<and> (sr_changed (rs_rt s) = sr_changed (rs_rt s') \<longrightarrow> sr_snapshot (rs_rt s') = sr_snapshot (rs_rt s))
    \<and> (rt_settled (rs_rt s) \<longrightarrow> sr_snapshot (rs_rt s') = sr_snapshot (rs_rt s))
    \<and> (sr_stopped (rs_rt s) \<longrightarrow> sr_stopped (rs_rt s'))
    \<and> (sr_product (rs_rt s) \<noteq> None \<longrightarrow> sr_product (rs_rt s') = sr_product (rs_rt s))"
proof (induction rule: rtranclp_induct)
  case base
  then show ?case by simp
next
  case (step y z)
  have iy: "rt_inv y" and iz: "rt_inv z" using step rt_inv_step by blast+
  show ?case using step.IH [OF step.prems] rt_step_monotone [OF step.hyps(2)] iy iz
    by (auto simp: rt_settled_def)
qed

lemma rt_sequence:
  assumes "rt_inv s"
  shows "unat (ps_Sequence (sr_snapshot (rs_rt s))) = Suc (sr_changed (rs_rt s)) \<and> sr_changed (rs_rt s) \<le> 2"
proof -
  have "sr_changed (rs_rt s) \<le> 2" using assms by (auto simp: rt_inv_def split: Phase.splits)
  moreover from this have "unat (of_nat (Suc (sr_changed (rs_rt s))) :: u64) = Suc (sr_changed (rs_rt s))"
    by (simp only: unat_of_nat) (simp add: take_bit_nat_eq_self)
  ultimately show ?thesis using assms by (simp add: rt_inv_def)
qed


lemma executeDrain_settled: "settledPhase snap \<Longrightarrow> executeDrain snap answers = Some (Inr ())"
  by (subst executeDrain.simps) (simp add: settledPhase_def)

subsection \<open>Properties of the runtime\<close>

text \<open>
  The phase stream of a daemon. Whatever the goroutines do, snapshots only move forward, at most
  twice, and a drain or a failure is final; once ready has been published the product stays mounted,
  so a dispatched request always finds it; and when a caller of \<open>Drain\<close> has published, every later
  snapshot is final, so the server's drain verb answers at once.
\<close>

lemma serve_phase_stream:
  assumes "rt_step\<^sup>*\<^sup>* (rt_init maxDetail) s" and "rt_step\<^sup>*\<^sup>* s s'"
  shows "ps_Sequence (sr_snapshot (rs_rt s)) \<le> ps_Sequence (sr_snapshot (rs_rt s'))
    \<and> ps_Sequence (sr_snapshot (rs_rt s')) \<le> 3
    \<and> (ps_Sequence (sr_snapshot (rs_rt s)) = ps_Sequence (sr_snapshot (rs_rt s')) \<or> rt_settled (rs_rt s)
        \<longrightarrow> sr_snapshot (rs_rt s') = sr_snapshot (rs_rt s))
    \<and> (ps_Phase (sr_snapshot (rs_rt s)) = PhaseReady \<longrightarrow>
        (\<exists>p. sr_product (rs_rt s) = Some p \<and> sr_product (rs_rt s') = Some p))
    \<and> (0 < rs_draining s \<or> sr_stopped (rs_rt s) \<longrightarrow> executeDrain (sr_snapshot (rs_rt s')) [] = Some (Inr ()))"
proof -
  have i: "rt_inv s" by (rule rt_inv_reachable [OF assms(1)])
  note m = rt_steps_monotone [OF assms(2) i]
  then have i': "rt_inv s'" by blast
  note n = rt_sequence [OF i] rt_sequence [OF i']
  have "unat (ps_Sequence (sr_snapshot (rs_rt s))) \<le> unat (ps_Sequence (sr_snapshot (rs_rt s')))"
    "unat (ps_Sequence (sr_snapshot (rs_rt s'))) \<le> unat (3 :: u64)"
    using m n by simp_all
  then have seq: "ps_Sequence (sr_snapshot (rs_rt s)) \<le> ps_Sequence (sr_snapshot (rs_rt s'))"
    "ps_Sequence (sr_snapshot (rs_rt s')) \<le> 3"
    by (simp_all only: word_le_nat_alt)
  have "ps_Sequence (sr_snapshot (rs_rt s)) = ps_Sequence (sr_snapshot (rs_rt s')) \<Longrightarrow>
      sr_changed (rs_rt s) = sr_changed (rs_rt s')"
    using n by simp
  then have same: "ps_Sequence (sr_snapshot (rs_rt s)) = ps_Sequence (sr_snapshot (rs_rt s')) \<or> rt_settled (rs_rt s)
      \<Longrightarrow> sr_snapshot (rs_rt s') = sr_snapshot (rs_rt s)"
    using m by blast
  have "sr_product (rs_rt s) \<noteq> None" if "ps_Phase (sr_snapshot (rs_rt s)) = PhaseReady"
    using i that by (cases "rs_pc s") (auto simp: rt_inv_def)
  then have prod: "\<exists>p. sr_product (rs_rt s) = Some p \<and> sr_product (rs_rt s') = Some p"
    if "ps_Phase (sr_snapshot (rs_rt s)) = PhaseReady"
    using m that by force
  have ack: "executeDrain (sr_snapshot (rs_rt s')) [] = Some (Inr ())" if "0 < rs_draining s \<or> sr_stopped (rs_rt s)"
  proof -
    have "rt_settled (rs_rt s)" using i that by (auto simp: rt_inv_def)
    then show ?thesis using same executeDrain_settled by (metis rt_settled_def)
  qed
  show ?thesis using seq same prod ack by blast
qed

lemma drain_run:
  "rt_step\<^sup>*\<^sup>* (rt_init 10 :: nat rt_sys) ((rt_init 10)\<lparr>rs_draining := 1, rs_rt := publish PhaseDraining (newServeRuntime 10)\<rparr>)"
  using step_drain [of "rt_init 10"] by (auto simp: rt_init_def)

text \<open>
  A waiter on the phase stream misses nothing. When a turn of \<open>WaitPhase\<close> goes on to wait, then at
  any later instant at which a newer phase has been published the channel it waits on is closed and its
  next turn returns that phase; and a closed channel always means a newer phase.
\<close>

lemma phase_waiter_woken:
  assumes "rt_step\<^sup>*\<^sup>* (rt_init maxDetail) s" and "rt_step\<^sup>*\<^sup>* s s'" and "WaitPhase_turn (rs_rt s) after = Inl c"
  shows "(after < ps_Sequence (sr_snapshot (rs_rt s')) \<longrightarrow>
      channel_closed (rs_rt s') c \<and> WaitPhase_turn (rs_rt s') after = Inr (sr_snapshot (rs_rt s')))
    \<and> (channel_closed (rs_rt s') c \<longrightarrow> ps_Sequence (sr_snapshot (rs_rt s)) < ps_Sequence (sr_snapshot (rs_rt s')))
    \<and> \<not> channel_closed (rs_rt s) c"
proof -
  have i: "rt_inv s" by (rule rt_inv_reachable [OF assms(1)])
  note m = rt_steps_monotone [OF assms(2) i]
  then have i': "rt_inv s'" by blast
  note n = rt_sequence [OF i] rt_sequence [OF i']
  have c: "c = sr_changed (rs_rt s)" and le: "ps_Sequence (sr_snapshot (rs_rt s)) \<le> after"
    using assms(3) by (auto simp: WaitPhase_turn_def split: if_splits)
  show ?thesis
    using n le c by (auto simp: WaitPhase_turn_def channel_closed_def word_less_nat_alt word_le_nat_alt)
qed

subsection \<open>The shutdown ladder\<close>

datatype Stage = StageIntake | StageRequests | StageProductDrain | StageProductClose | StageChildren

record Drained =
  dr_Settled :: "Stage list"
  dr_Abandoned :: "Stage list"
  dr_Archived :: string

definition childrenShare :: float64 where "childrenShare = Fin (rnd64 (15 / 100))"

definition childrenCeiling :: float64 where "childrenCeiling = Fin (1 / 2)"

definition requestsShare :: float64 where "requestsShare = Fin (rnd64 (40 / 95))"

definition drainShare :: float64 where "drainShare = Fin (rnd64 (30 / 55))"

definition closeShare :: float64 where "closeShare = Fin 1"

definition requestsCancelReserve :: float64 where "requestsCancelReserve = Fin (rnd64 (1 / 3))"

text \<open>Comparison and division of \<open>float64\<close> values that are not negative.\<close>

fun fmin :: "float64 \<Rightarrow> float64 \<Rightarrow> float64" where
  "fmin (Fin x) (Fin y) = Fin (min x y)"
| "fmin PosInf y = y"
| "fmin x PosInf = x"
| "fmin _ _ = NaN"

fun fmax :: "float64 \<Rightarrow> float64 \<Rightarrow> float64" where
  "fmax (Fin x) (Fin y) = Fin (max x y)"
| "fmax PosInf (Fin _) = PosInf"
| "fmax (Fin _) PosInf = PosInf"
| "fmax PosInf PosInf = PosInf"
| "fmax _ _ = NaN"

definition fdiv :: "rat \<Rightarrow> rat \<Rightarrow> float64" where
  "fdiv x y = (if y = 0 then (if x = 0 then NaN else PosInf) else Fin (rnd64 (x / y)))"

definition childrenReserve :: "int \<Rightarrow> Budget \<Rightarrow> float64" where
  "childrenReserve now b =
    fmax childrenShare (fmin (fdiv (rnd64 (of_int SettleGrace)) (rnd64 (of_int (Left now b)))) childrenCeiling)"

text \<open>
  One run of a stage: the reading of the clock before it starts, the reading taken when the work returned
  (if it did) with the work's verdict, the instant at which the select ends, and which arm it takes
  when both are ready.
\<close>

record stage_run =
  sg_check :: int
  sg_return :: "int option"
  sg_err :: bool
  sg_select :: int
  sg_timerWins :: bool

definition runStage :: "Budget \<Rightarrow> stage_run \<Rightarrow> bool" where
  "runStage b e =
    (if Left (sg_check e) b \<le> 0 then False
     else case sg_return e of
       None \<Rightarrow> False
     | Some t \<Rightarrow>
         if t \<le> sg_select e \<and> \<not> (deadline b \<le> sg_select e \<and> sg_timerWins e) then Left t b > 0 else False)"

definition provenStage :: "Budget \<Rightarrow> stage_run \<Rightarrow> bool" where
  "provenStage b e \<longleftrightarrow> runStage b e \<and> \<not> sg_err e"

text \<open>
  The polls of the requests stage: what \<open>InFlight\<close> answers at each, what the clock reads when the select is
  entered, which arm wakes it once the deadline passes during the wait, and the verdict of \<open>Settle\<close>.
\<close>

record requests_run =
  rq_carve :: int
  rq_inflight :: "nat \<Rightarrow> int"
  rq_now :: "nat \<Rightarrow> int"
  rq_done :: "nat \<Rightarrow> bool"
  rq_settled :: bool

partial_function (option) awaitInFlight :: "Budget \<Rightarrow> requests_run \<Rightarrow> nat \<Rightarrow> (bool \<times> nat) option" where
  "awaitInFlight b e n =
    (if rq_inflight e n \<le> 0 then Some (True, n)
     else if deadline b \<le> rq_now e n \<or> (deadline b \<le> rq_now e (n + 1) \<and> rq_done e n) then Some (False, n)
     else awaitInFlight b e (n + 1))"

text \<open>The verdict, and whether the handlers still in flight were cancelled.\<close>

definition settleRequests :: "Budget \<Rightarrow> requests_run \<Rightarrow> (bool \<times> bool) option" where
  "settleRequests b e =
    (case Reserve ''cancel'' requestsCancelReserve (rq_carve e) b of (work, tail) \<Rightarrow>
     (case awaitInFlight work e 0 of
        None \<Rightarrow> None
      | Some (True, n) \<Rightarrow> Some (rq_settled e, False)
      | Some (False, n) \<Rightarrow>
          (case awaitInFlight tail e (n + 1) of
             None \<Rightarrow> None
           | Some (False, n') \<Rightarrow> Some (False, True)
           | Some (True, n') \<Rightarrow> Some (rq_settled e, True))))"

record ladder_run =
  le_mint :: int
  le_reserveLeft :: int
  le_reserve :: int
  le_closeIntake :: bool
  le_requestsShare :: int
  le_requests :: requests_run
  le_drainShare :: int
  le_drain :: stage_run
  le_closeShare :: int
  le_close :: stage_run
  le_children :: stage_run

definition stage :: "Stage \<Rightarrow> bool \<Rightarrow> Drained \<Rightarrow> Drained" where
  "stage s settled d =
    (if settled then d\<lparr>dr_Settled := dr_Settled d @ [s]\<rparr> else d\<lparr>dr_Abandoned := dr_Abandoned d @ [s]\<rparr>)"

definition ladder_budget :: "int \<Rightarrow> ladder_run \<Rightarrow> Budget" where
  "ladder_budget shutdown e = mint (le_mint e) ''shutdown'' shutdown"

definition ladder_split :: "int \<Rightarrow> ladder_run \<Rightarrow> Budget \<times> Budget" where
  "ladder_split shutdown e =
    (let b = ladder_budget shutdown e in Reserve ''children'' (childrenReserve (le_reserveLeft e) b) (le_reserve e) b)"

definition runShutdownLadder :: "int \<Rightarrow> bool \<Rightarrow> ladder_run \<Rightarrow> Drained option" where
  "runShutdownLadder shutdown product e =
    (case ladder_split shutdown e of (work, children) \<Rightarrow>
     let d0 = stage StageIntake (le_closeIntake e) \<lparr> dr_Settled = [], dr_Abandoned = [], dr_Archived = [] \<rparr> in
     case settleRequests (Share ''requests'' requestsShare (le_requestsShare e) work) (le_requests e) of
       None \<Rightarrow> None
     | Some (settled, cancelled) \<Rightarrow>
         let d1 = stage StageRequests settled d0;
             d2 = (if product
                   then stage StageProductClose (runStage (Share ''close'' closeShare (le_closeShare e) work) (le_close e))
                         (stage StageProductDrain (runStage (Share ''drain'' drainShare (le_drainShare e) work) (le_drain e)) d1)
                   else d1) in
         Some (stage StageChildren (provenStage children (le_children e)) d2))"

subsection \<open>Lemmas on the ladder\<close>

lemma runStage_intime:
  "runStage b e \<Longrightarrow> \<exists>t. sg_return e = Some t \<and> t < deadline b \<and> sg_check e < deadline b"
  using Left_pos [of _ b] by (auto simp: runStage_def not_le split: if_splits option.splits)

lemma awaitInFlight_returns:
  assumes "\<And>n. m \<le> n \<Longrightarrow> deadline b \<le> rq_now e n"
  shows "\<exists>r n'. awaitInFlight b e n = Some (r, n')"
proof (induction "m - n" arbitrary: n rule: less_induct)
  case less
  show ?case
  proof (cases "m \<le> n")
    case True
    then show ?thesis using assms [of n] by (subst awaitInFlight.simps) auto
  next
    case False
    then have "\<exists>r n'. awaitInFlight b e (n + 1) = Some (r, n')" by (intro less) simp
    then show ?thesis by (subst awaitInFlight.simps) auto
  qed
qed

lemma awaitInFlight_spec:
  assumes "awaitInFlight b e n = Some r"
  shows "n \<le> snd r \<and> (\<forall>k. n \<le> k \<and> k < snd r \<longrightarrow> rq_now e k < deadline b)
    \<and> (if fst r then rq_inflight e (snd r) \<le> 0
       else 0 < rq_inflight e (snd r) \<and> (deadline b \<le> rq_now e (snd r) \<or> deadline b \<le> rq_now e (snd r + 1)))"
proof -
  let ?P = "\<lambda>b e n r. n \<le> snd r \<and> (\<forall>k. n \<le> k \<and> k < snd r \<longrightarrow> rq_now e k < deadline b)
    \<and> (if fst r then rq_inflight e (snd r) \<le> 0
       else 0 < rq_inflight e (snd r) \<and> (deadline b \<le> rq_now e (snd r) \<or> deadline b \<le> rq_now e (snd r + 1)))"
  show "?P b e n r"
    using assms
  proof (rule awaitInFlight.raw_induct [where P = ?P, rotated], goal_cases)
    case (1 f b e n r)
    show ?case
    proof (cases "rq_inflight e n \<le> 0 \<or> deadline b \<le> rq_now e n \<or> (deadline b \<le> rq_now e (n + 1) \<and> rq_done e n)")
      case True
      then show ?thesis using 1(2) by (auto split: if_splits)
    next
      case False
      then have "f b e (n + 1) = Some r" using 1(2) by auto
      then have p: "?P b e (n + 1) r" by (rule 1(1))
      moreover have "rq_now e k < deadline b" if "n \<le> k" "k < snd r" for k
        using that False p by (cases "k = n") auto
      ultimately show ?thesis by (auto split: if_splits)
    qed
  qed
qed

text \<open>
  A settled verdict on the requests: nothing was in flight at some poll, and on a clock that does not run back every
  earlier poll but the last began its wait before the budget was over.
\<close>

lemma settleRequests_spec:
  assumes "settleRequests b e = Some (True, cancelled)" and "\<And>k. rq_now e k \<le> rq_now e (Suc k)"
  shows "rq_settled e \<and> (\<exists>n. rq_inflight e n \<le> 0 \<and> (\<forall>k. Suc k < n \<longrightarrow> rq_now e k < deadline b))"
proof -
  obtain work tail where r: "Reserve ''cancel'' requestsCancelReserve (rq_carve e) b = (work, tail)" by fastforce
  have dw: "deadline work \<le> deadline b" "deadline tail = deadline b"
    using work.carve_within [of "''cancel''" requestsCancelReserve "rq_carve e" b] r by (auto simp: Reserve_def Let_def)
  obtain a n where a: "awaitInFlight work e 0 = Some (a, n)" using assms(1) r by (auto simp: settleRequests_def split: option.splits)
  have early: "rq_now e k < deadline b" if "k < n" for k using awaitInFlight_spec [OF a] dw(1) that by fastforce
  show ?thesis
  proof (cases a)
    case True
    then have "rq_inflight e n \<le> 0" using awaitInFlight_spec [OF a] by simp
    moreover have "rq_settled e" using assms(1) r a True by (simp add: settleRequests_def)
    ultimately show ?thesis using early Suc_lessD by blast
  next
    case False
    then obtain n' where t: "awaitInFlight tail e (n + 1) = Some (True, n')" and s: "rq_settled e"
      using assms(1) r a by (auto simp: settleRequests_def split: option.splits prod.splits bool.splits)
    note n' = awaitInFlight_spec [OF t]
    have "rq_now e k < deadline b" if "Suc k < n'" for k
    proof (cases "k \<le> n")
      case True
      then show ?thesis
        using early [of k] n' assms(2) [of n] dw(2) that by (cases "k = n") (fastforce dest: spec [of _ "n + 1"])+
    next
      case False
      then show ?thesis using n' dw(2) that by simp
    qed
    then show ?thesis using n' s by auto
  qed
qed

lemma settleRequests_returns:
  assumes "\<And>n. m \<le> n \<Longrightarrow> deadline b \<le> rq_now e n"
  shows "\<exists>r. settleRequests b e = Some r"
proof -
  obtain work tail where r: "Reserve ''cancel'' requestsCancelReserve (rq_carve e) b = (work, tail)" by fastforce
  have dw: "deadline work \<le> deadline b" "deadline tail \<le> deadline b"
    using work.carve_within [of "''cancel''" requestsCancelReserve "rq_carve e" b] r by (auto simp: Reserve_def Let_def)
  then have "\<exists>a n. awaitInFlight work e 0 = Some (a, n)" "\<And>n. \<exists>a n'. awaitInFlight tail e n = Some (a, n')"
    using awaitInFlight_returns [of m work e] awaitInFlight_returns [of m tail e] assms by (meson order_trans)+
  then show ?thesis by (fastforce simp: settleRequests_def r split: option.splits bool.splits)
qed

subsection \<open>Serve\<close>

datatype serve_event =
    NotifySignals | StateDirCreated | IncumbentProbed | StoreOpened | OwnerRecorded | ChildrenRecovered
  | SocketRemoved | Bound | SocketRestricted | ListenerClosed | ServerStarted | StartCalled | FailedPublished
  | ReadyPublished | DrainPublished | LadderRun | ServeCancelled | ServeJoined | StoreClosed
  | NotifyParked | StopTriggers | StopForwarder | SignalAwaited | StopParked

datatype serve_error =
    ConfigError | StartRequired | PathError | StateDirError | BuildError | ErrBusy | ProbeIncumbentError | OpenError
  | OwnerError | ListenError | ChmodError | ServerError | StartError | ServeError

datatype dial_result = DialAccepted | DialAbsent | DialFailed

definition probeIncumbent :: "dial_result \<Rightarrow> serve_error option" where
  "probeIncumbent d = (case d of DialAccepted \<Rightarrow> Some ErrBusy | DialAbsent \<Rightarrow> None | DialFailed \<Rightarrow> Some ProbeIncumbentError)"

datatype open_result = OpenOk | OpenLockBusy | OpenFailed

text \<open>
  What the calls of one run answer: configuration and paths, the probe, the store, the socket, the
  product's start, which of the stop and the server's own return comes first, the ladder.
\<close>

record serve_run =
  sv_valid :: bool
  sv_start :: bool
  sv_paths :: bool
  sv_stateDir :: bool
  sv_build :: bool
  sv_dial :: dial_result
  sv_open :: open_result
  sv_owner :: bool
  sv_archived :: string
  sv_listen :: bool
  sv_chmod :: bool
  sv_server :: bool
  sv_startOk :: bool
  sv_serveFirst :: bool
  sv_serveErr :: bool
  sv_ladder :: ladder_run

definition no_drained :: Drained where
  "no_drained = \<lparr> dr_Settled = [], dr_Abandoned = [], dr_Archived = [] \<rparr>"

definition park_events :: "serve_event list" where
  "park_events = [NotifyParked, StopTriggers, StopForwarder, SignalAwaited, StopParked]"

text \<open>The part after the server has been built, with the effects so far.\<close>

definition serve_out :: "serve_run \<Rightarrow> serve_event list \<Rightarrow> Drained \<Rightarrow> (Drained \<times> serve_error list \<times> serve_event list)" where
  "serve_out e es d =
    (let errs = (if sv_startOk e then [] else [StartError]) @ (if sv_serveErr e then [ServeError] else []);
         es1 = es @ [LadderRun, ServeCancelled] @ (if sv_startOk e \<and> sv_serveFirst e then [] else [ServeJoined]) in
     if dr_Abandoned d = [] then (d, errs, es1 @ [StoreClosed, StopForwarder, StopTriggers])
     else (d, errs, es1 @ park_events @ [StopForwarder, StopTriggers]))"

definition serve_body :: "int \<Rightarrow> serve_run \<Rightarrow> serve_event list \<Rightarrow> (Drained \<times> serve_error list \<times> serve_event list) option" where
  "serve_body shutdown e es =
    (let es1 = es @ [ServerStarted, StartCalled] @
           (if \<not> sv_startOk e then [FailedPublished]
            else if sv_serveFirst e then [ReadyPublished, DrainPublished] else [ReadyPublished]) in
     case runShutdownLadder (ShutdownGrace shutdown) (sv_startOk e) (sv_ladder e) of
       None \<Rightarrow> None
     | Some d \<Rightarrow> Some (serve_out e es1 (d\<lparr>dr_Archived := sv_archived e\<rparr>)))"

definition Serve :: "int \<Rightarrow> serve_run \<Rightarrow> (Drained \<times> serve_error list \<times> serve_event list) option" where
  "Serve shutdown e =
    (let stop = (\<lambda>err es. Some (no_drained, [err], es @ [StopTriggers]));
         up = [NotifySignals] in
     if \<not> sv_valid e \<or> \<not> Grace_validate shutdown then Some (no_drained, [ConfigError], [])
     else if \<not> sv_start e then Some (no_drained, [StartRequired], [])
     else if \<not> sv_paths e then stop PathError up
     else if \<not> sv_stateDir e then stop StateDirError up
     else if \<not> sv_build e then stop BuildError (up @ [StateDirCreated])
     else case probeIncumbent (sv_dial e) of
       Some err \<Rightarrow> stop err (up @ [StateDirCreated, IncumbentProbed])
     | None \<Rightarrow>
       let es = up @ [StateDirCreated, IncumbentProbed] in
       if sv_open e = OpenLockBusy then stop ErrBusy es
       else if sv_open e = OpenFailed then stop OpenError es
       else if \<not> sv_owner e then stop OwnerError (es @ [StoreOpened, StoreClosed])
       else let es1 = es @ [StoreOpened, OwnerRecorded, ChildrenRecovered, SocketRemoved] in
       if \<not> sv_listen e then stop ListenError (es1 @ [StoreClosed])
       else if \<not> sv_chmod e then stop ChmodError (es1 @ [Bound, ListenerClosed, StoreClosed])
       else if \<not> sv_server e then stop ServerError (es1 @ [Bound, SocketRestricted, ListenerClosed, StoreClosed])
       else serve_body shutdown e (es1 @ [Bound, SocketRestricted]))"

subsection \<open>Reading a sequence of effects\<close>

primrec before :: "serve_event \<Rightarrow> serve_event \<Rightarrow> serve_event list \<Rightarrow> bool" where
  "before a b [] = True"
| "before a b (x # es) = (x \<noteq> b \<and> (x = a \<or> before a b es))"

text \<open>The lock on the record store, and whether some signal registration is in force.\<close>

fun lock_next :: "bool \<Rightarrow> serve_event \<Rightarrow> bool" where
  "lock_next h StoreOpened = True"
| "lock_next h StoreClosed = False"
| "lock_next h x = h"

definition lock_held :: "serve_event list \<Rightarrow> bool" where
  "lock_held es = foldl lock_next False es"

fun signals_next :: "bool \<times> bool \<Rightarrow> serve_event \<Rightarrow> bool \<times> bool" where
  "signals_next (a, b) NotifySignals = (True, b)"
| "signals_next (a, b) StopTriggers = (False, b)"
| "signals_next (a, b) NotifyParked = (a, True)"
| "signals_next (a, b) StopParked = (a, False)"
| "signals_next s x = s"

definition signals_armed :: "serve_event list \<Rightarrow> bool" where
  "signals_armed es = (case foldl signals_next (False, False) es of (a, b) \<Rightarrow> a \<or> b)"

text \<open>Every occurrence of an effect happens in a state that satisfies a predicate on the effects before it.\<close>

primrec each_at :: "(serve_event list \<Rightarrow> bool) \<Rightarrow> serve_event set \<Rightarrow> serve_event list \<Rightarrow> serve_event list \<Rightarrow> bool" where
  "each_at P evs past [] = True"
| "each_at P evs past (x # es) = ((x \<in> evs \<longrightarrow> P past) \<and> each_at P evs (past @ [x]) es)"

lemma before_iff: "before a b es \<longleftrightarrow> (\<forall>pre post. es = pre @ b # post \<longrightarrow> a \<in> set pre)"
proof (induction es)
  case Nil
  then show ?case by simp
next
  case (Cons x es)
  show ?case
  proof
    assume "before a b (x # es)"
    then show "\<forall>pre post. x # es = pre @ b # post \<longrightarrow> a \<in> set pre"
      using Cons by (auto simp: Cons_eq_append_conv)
  next
    assume r: "\<forall>pre post. x # es = pre @ b # post \<longrightarrow> a \<in> set pre"
    have "x \<noteq> b" using r [rule_format, of "[]" es] by auto
    moreover have "before a b es" if "x \<noteq> a"
    proof -
      have "a \<in> set pre" if "es = pre @ b # post" for pre post
        using r [rule_format, of "x # pre" post] that \<open>x \<noteq> a\<close> by simp
      then show ?thesis using Cons by blast
    qed
    ultimately show "before a b (x # es)" by auto
  qed
qed

lemma each_at_iff: "each_at P evs past es \<longleftrightarrow> (\<forall>pre x post. es = pre @ x # post \<and> x \<in> evs \<longrightarrow> P (past @ pre))"
proof (induction es arbitrary: past)
  case Nil
  then show ?case by simp
next
  case (Cons y es)
  have "(\<forall>pre x post. y # es = pre @ x # post \<and> x \<in> evs \<longrightarrow> P (past @ pre)) \<longleftrightarrow>
      (y \<in> evs \<longrightarrow> P past) \<and> (\<forall>pre x post. es = pre @ x # post \<and> x \<in> evs \<longrightarrow> P (past @ y # pre))"
    by (fastforce simp: Cons_eq_append_conv)
  then show ?case using Cons [of "past @ [y]"] by simp
qed

lemmas serve_eval = lock_held_def signals_armed_def park_events_def

text \<open>The effects of a run that reached the server.\<close>

definition served_events :: "serve_run \<Rightarrow> bool \<Rightarrow> serve_event list" where
  "served_events e abandoned =
    [NotifySignals, StateDirCreated, IncumbentProbed, StoreOpened, OwnerRecorded, ChildrenRecovered, SocketRemoved,
     Bound, SocketRestricted, ServerStarted, StartCalled] @
    (if \<not> sv_startOk e then [FailedPublished] else if sv_serveFirst e then [ReadyPublished, DrainPublished] else [ReadyPublished]) @
    [LadderRun, ServeCancelled] @ (if sv_startOk e \<and> sv_serveFirst e then [] else [ServeJoined]) @
    (if abandoned then park_events else [StoreClosed]) @ [StopForwarder, StopTriggers]"

text \<open>The effects of a run that ended before.\<close>

definition early_events :: "serve_event list list" where
  "early_events =
    (let up = [NotifySignals]; es = up @ [StateDirCreated, IncumbentProbed];
         es1 = es @ [StoreOpened, OwnerRecorded, ChildrenRecovered, SocketRemoved] in
     [] # map (\<lambda>es. es @ [StopTriggers])
       [up, up @ [StateDirCreated], es, es @ [StoreOpened, StoreClosed], es1 @ [StoreClosed],
        es1 @ [Bound, ListenerClosed, StoreClosed], es1 @ [Bound, SocketRestricted, ListenerClosed, StoreClosed]])"

lemma Serve_cases:
  assumes "Serve shutdown e = Some (d, errs, es)"
  obtains (early) "dr_Abandoned d = []" "errs \<noteq> []" "es \<in> set early_events"
  | (served) d0 where "runShutdownLadder (ShutdownGrace shutdown) (sv_startOk e) (sv_ladder e) = Some d0"
      "d = d0\<lparr>dr_Archived := sv_archived e\<rparr>" "es = served_events e (dr_Abandoned d0 \<noteq> [])"
proof -
  have "(dr_Abandoned d = [] \<and> errs \<noteq> [] \<and> es \<in> set early_events) \<or>
      (\<exists>d0. runShutdownLadder (ShutdownGrace shutdown) (sv_startOk e) (sv_ladder e) = Some d0
        \<and> d = d0\<lparr>dr_Archived := sv_archived e\<rparr> \<and> es = served_events e (dr_Abandoned d0 \<noteq> []))"
  proof (cases "\<exists>es'. serve_body shutdown e es' = Some (d, errs, es) \<and> es' = [NotifySignals, StateDirCreated, IncumbentProbed,
      StoreOpened, OwnerRecorded, ChildrenRecovered, SocketRemoved, Bound, SocketRestricted]")
    case True
    then show ?thesis by (auto simp: serve_body_def serve_out_def served_events_def Let_def split: option.splits)
  next
    case False
    then show ?thesis using assms
      by (auto simp: Serve_def early_events_def no_drained_def Let_def split: if_splits option.splits)
  qed
  then show ?thesis using early served by blast
qed

lemma Serve_grace:
  assumes "Serve shutdown e = Some (d, errs, es)" and "LadderRun \<in> set es"
  shows "ShutdownGrace shutdown \<le> maxGrace"
proof -
  have "Grace_validate shutdown" using assms by (auto simp: Serve_def Let_def split: if_splits)
  then show ?thesis by (simp add: Grace_validate_def ShutdownGrace_def maxGrace_def second_def)
qed

subsection \<open>What the ladder proves\<close>

lemma ladder_split_deadlines:
  assumes "ladder_split shutdown e = (w, c)"
  shows "deadline c = le_mint e + shutdown \<and> deadline w \<le> deadline c"
  using assms work.carve_within [of "''children''" "childrenReserve (le_reserveLeft e) (ladder_budget shutdown e)" "le_reserve e"
      "ladder_budget shutdown e"]
  by (auto simp: ladder_split_def Reserve_def ladder_budget_def mint_def Let_def)

definition tally :: "(Stage \<times> bool) list \<Rightarrow> Drained" where
  "tally v = \<lparr> dr_Settled = map fst (filter snd v), dr_Abandoned = map fst (filter (Not \<circ> snd) v), dr_Archived = [] \<rparr>"

lemma stage_tally: "stage s b (tally v) = tally (v @ [(s, b)])"
  by (simp add: stage_def tally_def)

lemma tally_Nil: "\<lparr> dr_Settled = [], dr_Abandoned = [], dr_Archived = [] \<rparr> = tally []"
  by (simp add: tally_def)

lemma tally_Abandoned: "dr_Abandoned (tally v) = [] \<longleftrightarrow> list_all snd v"
  by (auto simp: tally_def filter_empty_conv list_all_iff)

lemma runShutdownLadder_parts:
  assumes "runShutdownLadder shutdown product e = Some d"
  obtains w c settled cancelled where "ladder_split shutdown e = (w, c)"
    "settleRequests (Share ''requests'' requestsShare (le_requestsShare e) w) (le_requests e) = Some (settled, cancelled)"
    "d = tally ([(StageIntake, le_closeIntake e), (StageRequests, settled)]
        @ (if product then [(StageProductDrain, runStage (Share ''drain'' drainShare (le_drainShare e) w) (le_drain e)),
             (StageProductClose, runStage (Share ''close'' closeShare (le_closeShare e) w) (le_close e))] else [])
        @ [(StageChildren, provenStage c (le_children e))])"
proof -
  obtain w c where s: "ladder_split shutdown e = (w, c)" by fastforce
  then obtain settled cancelled where r: "settleRequests (Share ''requests'' requestsShare (le_requestsShare e) w) (le_requests e)
      = Some (settled, cancelled)"
    using assms by (auto simp: runShutdownLadder_def Let_def split: option.splits)
  show ?thesis
    using that [OF s r] assms s r
    by (cases product) (simp_all add: runShutdownLadder_def Let_def tally_Nil stage_tally)
qed

lemma mset_tally: "mset (dr_Settled (tally v) @ dr_Abandoned (tally v)) = mset (map fst v)"
  unfolding tally_def by (induction v) auto

text \<open>A share of the fraction \<open>q\<close> ends when \<open>q\<close> of what is left has passed, to less than three nanoseconds.\<close>

lemma Share_end:
  assumes "1 / 4 \<le> q" and "q \<le> 3 / 4" and "deadline b - now \<le> maxGrace"
  shows "of_int (deadline (Share name (Fin (rnd64 q)) now b) - now) < q * of_int (deadline b - now) + 3"
proof (cases "now < deadline b")
  case False
  then have "Left now b = 0" using Left_le [of now b] Left_nonneg [of now b] by simp
  then have d: "deadline (Share name (Fin (rnd64 q)) now b) = deadline b"
    using fractionOf_range [of 0 "rnd64 (1 - clampFraction (Fin (rnd64 q)))"] by (simp add: Share_def)
  have "(of_int (deadline b - now) :: rat) \<le> 0" using False by simp
  then have "1 * of_int (deadline b - now) \<le> q * of_int (deadline b - now)"
    using assms(2) by (intro mult_right_mono_neg) simp_all
  then show ?thesis unfolding d by simp
next
  case True
  define L where "L = deadline b - now"
  have l: "Left now b = L" using True assms(3) by (auto simp: L_def maxGrace_def second_def intro: Left_exact)
  have lr: "(1 :: rat) \<le> of_int L" using True by (simp add: L_def)
  have "L \<le> 2 ^ 47" using assms(3) by (simp add: L_def maxGrace_def second_def)
  then have lr2: "(of_int L :: rat) \<le> of_int (2 ^ 47)" by (simp only: of_int_le_iff)
  have tiny: "2 powi (- 1022) \<le> (1 / 8 :: rat)" using two_powi_le [of "- 1022" "- 3"] by (simp add: power_int_minus)
  have "\<bar>rnd64 q - q\<bar> \<le> q / 2 ^ 53" by (rule rnd64_error) (use tiny assms(1) in linarith)
  moreover have "q / 2 ^ 53 \<le> 1 / 2 ^ 53" using assms(2) by (intro divide_right_mono) simp_all
  ultimately have eq: "\<bar>rnd64 q - q\<bar> \<le> 1 / 2 ^ 53" by linarith
  then have c: "1 / 8 \<le> rnd64 q" "rnd64 q \<le> 7 / 8" using assms(1,2) unfolding abs_le_iff by (simp, simp)
  define g where "g = rnd64 (1 - rnd64 q)"
  have "\<bar>g - (1 - rnd64 q)\<bar> \<le> (1 - rnd64 q) / 2 ^ 53" unfolding g_def by (rule rnd64_error) (use tiny c in linarith)
  moreover have "(1 - rnd64 q) / 2 ^ 53 \<le> 1 / 2 ^ 53" using c by (intro divide_right_mono) simp_all
  ultimately have eg: "\<bar>g - (1 - rnd64 q)\<bar> \<le> 1 / 2 ^ 53" by linarith
  have g: "1 - q - 2 / 2 ^ 53 \<le> g" "1 / 16 \<le> g" "g \<le> 1"
    using eq eg c unfolding abs_le_iff by (simp, simp, simp)
  have "g * of_int L - 2 < of_int (fractionOf L g)"
    using fractionOf_accurate [of L g] True \<open>L \<le> 2 ^ 47\<close> tiny g
    by (simp add: L_def)
  moreover have "(1 - q - 2 / 2 ^ 53) * of_int L \<le> g * of_int L" using g(1) lr by (intro mult_right_mono) simp_all
  moreover have "2 / 2 ^ 53 * of_int L \<le> (1 :: rat)" using lr2 by simp
  ultimately have "(1 - q) * of_int L - 3 < of_int (fractionOf L g)" by (simp add: algebra_simps)
  moreover have "deadline (Share name (Fin (rnd64 q)) now b) = deadline b - fractionOf L g"
    using c by (simp add: Share_def l g_def)
  ultimately show ?thesis by (simp add: L_def algebra_simps)
qed

subsection \<open>Properties of the lifecycle\<close>

text \<open>
  C14: the program order of a daemon. In every run of \<open>Serve\<close> children are recovered, the socket removed and
  bound and the product started only while the record store's lock is held, in that order and after the
  owner record; the product is announced only after its start returned; a signal registration is in force
  from before the lock is taken until the process parks or leaves; and \<open>Serve\<close> returns with the lock
  still held exactly when the ladder abandoned a stage, in which case it has parked.
\<close>

theorem serve_program_order:
  assumes "Serve shutdown e = Some (d, errs, es)"
  shows "each_at lock_held {OwnerRecorded, ChildrenRecovered, SocketRemoved, Bound, ServerStarted, StartCalled,
      ReadyPublished, LadderRun, ServeJoined} [] es
    \<and> before OwnerRecorded ChildrenRecovered es \<and> before ChildrenRecovered Bound es \<and> before SocketRestricted ServerStarted es
    \<and> before StartCalled ReadyPublished es
    \<and> each_at signals_armed {StoreOpened, Bound, StartCalled, LadderRun, ServeCancelled, SignalAwaited} [] es
    \<and> (lock_held es \<longleftrightarrow> dr_Abandoned d \<noteq> []) \<and> (SignalAwaited \<in> set es \<longleftrightarrow> dr_Abandoned d \<noteq> [])"
  using assms
proof (cases rule: Serve_cases)
  case early
  let ?ok = "\<lambda>es. each_at lock_held {OwnerRecorded, ChildrenRecovered, SocketRemoved, Bound, ServerStarted, StartCalled,
      ReadyPublished, LadderRun, ServeJoined} [] es
    \<and> before OwnerRecorded ChildrenRecovered es \<and> before ChildrenRecovered Bound es \<and> before SocketRestricted ServerStarted es
    \<and> before StartCalled ReadyPublished es
    \<and> each_at signals_armed {StoreOpened, Bound, StartCalled, LadderRun, ServeCancelled, SignalAwaited} [] es
    \<and> \<not> lock_held es \<and> SignalAwaited \<notin> set es"
  have "list_all ?ok early_events" by (simp add: early_events_def serve_eval)
  then show ?thesis using early by (simp add: list_all_iff)
next
  case (served d0)
  have "each_at lock_held {OwnerRecorded, ChildrenRecovered, SocketRemoved, Bound, ServerStarted, StartCalled,
      ReadyPublished, LadderRun, ServeJoined} [] (served_events e a)" for a
    by (cases "sv_startOk e"; cases "sv_serveFirst e"; cases a) (simp_all add: served_events_def serve_eval)
  moreover have "before OwnerRecorded ChildrenRecovered (served_events e a) \<and> before ChildrenRecovered Bound (served_events e a)
      \<and> before SocketRestricted ServerStarted (served_events e a) \<and> before StartCalled ReadyPublished (served_events e a)" for a
    by (cases "sv_startOk e"; cases "sv_serveFirst e"; cases a) (simp_all add: served_events_def serve_eval)
  moreover have "each_at signals_armed {StoreOpened, Bound, StartCalled, LadderRun, ServeCancelled, SignalAwaited} []
      (served_events e a)" for a
    by (cases "sv_startOk e"; cases "sv_serveFirst e"; cases a) (simp_all add: served_events_def serve_eval)
  moreover have "(lock_held (served_events e a) \<longleftrightarrow> a) \<and> (SignalAwaited \<in> set (served_events e a) \<longleftrightarrow> a)" for a
    by (cases "sv_startOk e"; cases "sv_serveFirst e"; cases a) (simp_all add: served_events_def serve_eval)
  ultimately show ?thesis using served by simp
qed

text \<open>
  C15: releasing the lock proves the shutdown, stage by stage in its share. When a daemon that ran its ladder on a clock that
  does not run back releases the record store, then the intake was closed; every terminal was acknowledged, no request was in
  flight at some poll, and every poll before it but the last began its wait within the requests' \<open>40 / 95\<close> of the work time
  left when their share was cut; the product's drain returned within \<open>30 / 55\<close> of the work time left when its share was cut,
  its close before the work's deadline (the shares are exact to three nanoseconds); and the settlement of the children
  returned without an error before the shutdown budget ended. Every stage is reported exactly once.
\<close>

theorem released_lock_is_proof:
  assumes "Serve shutdown e = Some (d, errs, es)" and "LadderRun \<in> set es"
    and "ladder_split (ShutdownGrace shutdown) (sv_ladder e) = (w, c)"
    and "le_mint (sv_ladder e) \<le> le_requestsShare (sv_ladder e)" and "le_mint (sv_ladder e) \<le> le_drainShare (sv_ladder e)"
    and "\<And>k. rq_now (le_requests (sv_ladder e)) k \<le> rq_now (le_requests (sv_ladder e)) (Suc k)"
  shows "mset (dr_Settled d @ dr_Abandoned d)
      = mset ([StageIntake, StageRequests] @ (if sv_startOk e then [StageProductDrain, StageProductClose] else []) @ [StageChildren])
    \<and> (StoreClosed \<in> set es \<longrightarrow>
        le_closeIntake (sv_ladder e) \<and> rq_settled (le_requests (sv_ladder e))
        \<and> (\<exists>n. rq_inflight (le_requests (sv_ladder e)) n \<le> 0
            \<and> (\<forall>k. Suc k < n \<longrightarrow> of_int (rq_now (le_requests (sv_ladder e)) k - le_requestsShare (sv_ladder e))
                 < 40 / 95 * of_int (deadline w - le_requestsShare (sv_ladder e)) + (3 :: rat)))
        \<and> (sv_startOk e \<longrightarrow>
            (\<exists>t. sg_return (le_drain (sv_ladder e)) = Some t \<and> t < deadline w
              \<and> of_int (t - le_drainShare (sv_ladder e)) < 30 / 55 * of_int (deadline w - le_drainShare (sv_ladder e)) + (3 :: rat))
            \<and> (\<exists>t. sg_return (le_close (sv_ladder e)) = Some t \<and> t < deadline w))
        \<and> (\<exists>t. sg_return (le_children (sv_ladder e)) = Some t \<and> t < le_mint (sv_ladder e) + ShutdownGrace shutdown)
        \<and> \<not> sg_err (le_children (sv_ladder e)))"
  using assms(1)
proof (cases rule: Serve_cases)
  case early
  have "list_all (\<lambda>es. LadderRun \<notin> set es) early_events" by (simp add: early_events_def)
  then show ?thesis using assms(2) early by (simp add: list_all_iff)
next
  case (served d0)
  let ?l = "sv_ladder e" and ?g = "ShutdownGrace shutdown"
  let ?req = "Share ''requests'' requestsShare (le_requestsShare ?l) w" and ?drain = "Share ''drain'' drainShare (le_drainShare ?l) w"
    and ?close = "Share ''close'' closeShare (le_closeShare ?l) w"
  obtain settled cancelled where p:
    "settleRequests ?req (le_requests ?l) = Some (settled, cancelled)"
    "d0 = tally ([(StageIntake, le_closeIntake ?l), (StageRequests, settled)]
        @ (if sv_startOk e then [(StageProductDrain, runStage ?drain (le_drain ?l)),
             (StageProductClose, runStage ?close (le_close ?l))] else [])
        @ [(StageChildren, provenStage c (le_children ?l))])"
    using runShutdownLadder_parts [OF served(1)] assms(3) by (metis prod.inject)
  have dc: "deadline c = le_mint ?l + ?g" "deadline w \<le> deadline c" using ladder_split_deadlines [OF assms(3)] by auto
  have "?g \<le> maxGrace" using assms(1,2) by (rule Serve_grace)
  then have left: "deadline w - le_requestsShare ?l \<le> maxGrace" "deadline w - le_drainShare ?l \<le> maxGrace"
    using dc assms(4,5) by linarith+
  have re: "of_int (deadline ?req - le_requestsShare ?l) < 40 / 95 * of_int (deadline w - le_requestsShare ?l) + (3 :: rat)"
    unfolding requestsShare_def by (rule Share_end) (use left in simp_all)
  have de: "of_int (deadline ?drain - le_drainShare ?l) < 30 / 55 * of_int (deadline w - le_drainShare ?l) + (3 :: rat)"
    unfolding drainShare_def by (rule Share_end) (use left in simp_all)
  have once: "mset (dr_Settled d @ dr_Abandoned d)
      = mset ([StageIntake, StageRequests] @ (if sv_startOk e then [StageProductDrain, StageProductClose] else []) @ [StageChildren])"
    using mset_tally by (simp add: served(2) p(2) del: mset_append)
  show ?thesis
  proof (intro conjI [OF once] impI)
    assume "StoreClosed \<in> set es"
    then have "dr_Abandoned d0 = []" using served(3) by (auto simp: served_events_def park_events_def split: if_splits)
    then have clean: "settled" "le_closeIntake ?l" "provenStage c (le_children ?l)"
      "sv_startOk e \<Longrightarrow> runStage ?drain (le_drain ?l)" "sv_startOk e \<Longrightarrow> runStage ?close (le_close ?l)"
      using p(2) by (auto simp: tally_Abandoned split: if_splits)
    obtain n where n: "rq_settled (le_requests ?l)" "rq_inflight (le_requests ?l) n \<le> 0"
      "\<And>k. Suc k < n \<Longrightarrow> rq_now (le_requests ?l) k < deadline ?req"
      using settleRequests_spec [of ?req "le_requests ?l" cancelled] p(1) clean(1) assms(6) by auto
    have polls: "of_int (rq_now (le_requests ?l) k - le_requestsShare ?l)
        < 40 / 95 * of_int (deadline w - le_requestsShare ?l) + (3 :: rat)" if "Suc k < n" for k
    proof -
      have "rq_now (le_requests ?l) k - le_requestsShare ?l \<le> deadline ?req - le_requestsShare ?l" using n(3) [OF that] by simp
      then have "(of_int (rq_now (le_requests ?l) k - le_requestsShare ?l) :: rat) \<le> of_int (deadline ?req - le_requestsShare ?l)"
        by (simp only: of_int_le_iff)
      then show ?thesis using re by linarith
    qed
    have drained: "\<exists>t. sg_return (le_drain ?l) = Some t \<and> t < deadline w
        \<and> of_int (t - le_drainShare ?l) < 30 / 55 * of_int (deadline w - le_drainShare ?l) + (3 :: rat)" if ok: "sv_startOk e"
    proof -
      obtain t where t: "sg_return (le_drain ?l) = Some t" "t < deadline ?drain" using runStage_intime [OF clean(4) [OF ok]] by blast
      then have "t < deadline w" using share.carve_within [of "''drain''" drainShare "le_drainShare ?l" w] by linarith
      moreover have "(of_int (t - le_drainShare ?l) :: rat) \<le> of_int (deadline ?drain - le_drainShare ?l)"
        using t(2) by (simp only: of_int_le_iff)
      ultimately show ?thesis using t(1) de by fastforce
    qed
    have closed: "\<exists>t. sg_return (le_close ?l) = Some t \<and> t < deadline w" if "sv_startOk e"
      using runStage_intime [OF clean(5) [OF that]] share.carve_within [of "''close''" closeShare "le_closeShare ?l" w]
      by (meson order_less_le_trans)
    have kids: "(\<exists>t. sg_return (le_children ?l) = Some t \<and> t < deadline c) \<and> \<not> sg_err (le_children ?l)"
      using runStage_intime clean(3) by (auto simp: provenStage_def)
    show "le_closeIntake ?l \<and> rq_settled (le_requests ?l)
        \<and> (\<exists>n. rq_inflight (le_requests ?l) n \<le> 0 \<and> (\<forall>k. Suc k < n \<longrightarrow> of_int (rq_now (le_requests ?l) k - le_requestsShare ?l)
                 < 40 / 95 * of_int (deadline w - le_requestsShare ?l) + (3 :: rat)))
        \<and> (sv_startOk e \<longrightarrow>
            (\<exists>t. sg_return (le_drain ?l) = Some t \<and> t < deadline w
              \<and> of_int (t - le_drainShare ?l) < 30 / 55 * of_int (deadline w - le_drainShare ?l) + (3 :: rat))
            \<and> (\<exists>t. sg_return (le_close ?l) = Some t \<and> t < deadline w))
        \<and> (\<exists>t. sg_return (le_children ?l) = Some t \<and> t < le_mint ?l + ?g) \<and> \<not> sg_err (le_children ?l)"
      using clean(2) n(1,2) polls drained closed kids unfolding dc(1) by blast
  qed
qed

text \<open>A run in which everything settles at once.\<close>

definition calm_stage :: stage_run where
  "calm_stage = \<lparr> sg_check = 0, sg_return = Some 0, sg_err = False, sg_select = 0, sg_timerWins = False \<rparr>"

definition calm_ladder :: ladder_run where
  "calm_ladder = \<lparr> le_mint = 0, le_reserveLeft = 0, le_reserve = 0, le_closeIntake = True, le_requestsShare = 0,
     le_requests = \<lparr> rq_carve = 0, rq_inflight = (\<lambda>_. 0), rq_now = int, rq_done = (\<lambda>_. False), rq_settled = True \<rparr>,
     le_drainShare = 0, le_drain = calm_stage, le_closeShare = 0, le_close = calm_stage, le_children = calm_stage \<rparr>"

definition calm_serve :: serve_run where
  "calm_serve = \<lparr> sv_valid = True, sv_start = True, sv_paths = True, sv_stateDir = True, sv_build = True, sv_dial = DialAbsent,
     sv_open = OpenOk, sv_owner = True, sv_archived = [], sv_listen = True, sv_chmod = True, sv_server = True,
     sv_startOk = True, sv_serveFirst = False, sv_serveErr = False, sv_ladder = calm_ladder \<rparr>"

lemma half_open:
  assumes "0 \<le> f" and "f \<le> 1 / 2" and "3 \<le> left" and "left \<le> 2 ^ 47"
  shows "2 * fractionOf left f \<le> left + 2 \<and> fractionOf left f < left"
proof -
  have "2 powi (- 1022) \<le> (1 / 2 :: rat)" using two_powi_le [of "- 1022" "- 1"] by simp
  then have "of_int (fractionOf left (1 / 2)) \<le> (1 / 2 :: rat) * of_int left + 1"
    using fractionOf_accurate [of left "1 / 2"] assms by simp
  moreover have "fractionOf left f \<le> fractionOf left (1 / 2)" using assms by (intro fractionOf_mono) simp_all
  then have "of_int (fractionOf left f) \<le> (of_int (fractionOf left (1 / 2)) :: rat)" by (simp only: of_int_le_iff)
  moreover have "(3 :: rat) \<le> of_int left" using assms(3) by simp
  ultimately have "(of_int (2 * fractionOf left f) :: rat) \<le> of_int (left + 2)" by simp
  then have "2 * fractionOf left f \<le> left + 2" by (simp only: of_int_le_iff)
  then show ?thesis using assms(3) by linarith
qed

lemma Share_open:
  assumes "1 / 2 \<le> clampFraction part" and "3 \<le> Left now b" and "Left now b \<le> 2 ^ 47"
  shows "now < deadline (Share name part now b)"
proof -
  have "rnd64 (1 - clampFraction part) \<le> rnd64 (1 / 2)" using assms(1) by (intro rnd64_mono) simp
  moreover have "rnd64 (1 / 2) = (1 / 2 :: rat)" using rnd64_exact [of "1 / 2" 1 "- 1"] by simp
  ultimately have "fractionOf (Left now b) (rnd64 (1 - clampFraction part)) < Left now b"
    using assms half_open [of "rnd64 (1 - clampFraction part)" "Left now b"] by simp
  moreover have "Left now b \<le> deadline b - now" using Left_le [of now b] assms(2) by linarith
  ultimately show ?thesis by (simp add: Share_def)
qed

lemma childrenReserve_range:
  "rnd64 (15 / 100) \<le> clampFraction (childrenReserve now b) \<and> clampFraction (childrenReserve now b) \<le> 1 / 2"
proof -
  have "rnd64 (15 / 100) \<le> rnd64 (1 / 2)" by (intro rnd64_mono) simp
  moreover have "rnd64 (1 / 2) = (1 / 2 :: rat)" using rnd64_exact [of "1 / 2" 1 "- 1"] by simp
  moreover have "0 < rnd64 (15 / 100)"
    using rnd64_mono [of "1 / 8" "15 / 100"] rnd64_exact [of "1 / 8" 1 "- 3"] by (simp add: power_int_minus)
  ultimately show ?thesis
    using rnd64_int [of SettleGrace]
    by (auto simp: childrenReserve_def childrenShare_def childrenCeiling_def fdiv_def SettleGrace_def min_def max_def)
qed

lemma ladder_work_open:
  assumes "le_reserve e = le_mint e" and "3 \<le> shutdown" and "shutdown \<le> maxGrace"
  shows "shutdown - 2 \<le> 2 * (deadline (fst (ladder_split shutdown e)) - le_mint e)"
proof -
  let ?b = "ladder_budget shutdown e" and ?f = "clampFraction (childrenReserve (le_reserveLeft e) (ladder_budget shutdown e))"
  have b: "deadline ?b = le_mint e + shutdown" by (simp add: ladder_budget_def mint_def)
  then have l: "Left (le_reserve e) ?b = shutdown"
    using assms by (subst Left_exact) (auto simp: maxGrace_def second_def)
  have "0 \<le> ?f" "?f \<le> 1 / 2"
    using childrenReserve_range [of "le_reserveLeft e" ?b] rnd64_nonneg [of "15 / 100"] by (linarith, blast)
  then have "2 * fractionOf shutdown ?f \<le> shutdown + 2"
    using half_open [of ?f shutdown] assms(2,3) by (simp add: maxGrace_def second_def)
  then show ?thesis using b l by (simp add: ladder_split_def Reserve_def Let_def)
qed

lemma drainShare_half: "1 / 2 \<le> clampFraction drainShare"
proof -
  have "rnd64 (1 / 2) = (1 / 2 :: rat)" using rnd64_exact [of "1 / 2" 1 "- 1"] by simp
  then have "1 / 2 \<le> rnd64 (30 / 55)" using rnd64_mono [of "1 / 2" "30 / 55"] by simp
  then show ?thesis by (simp add: drainShare_def)
qed

lemma calm_work_open:
  "0 < deadline (Share ''drain'' drainShare 0 (fst (ladder_split (30 * second) calm_ladder)))
    \<and> 0 < deadline (Share ''close'' closeShare 0 (fst (ladder_split (30 * second) calm_ladder)))"
proof -
  let ?w = "fst (ladder_split (30 * second) calm_ladder)"
  have "30 * second - 2 \<le> 2 * deadline ?w"
    using ladder_work_open [of calm_ladder "30 * second"] by (simp add: calm_ladder_def maxGrace_def second_def)
  moreover have "deadline ?w \<le> 30 * second"
    using ladder_split_deadlines [of "30 * second" calm_ladder ?w "snd (ladder_split (30 * second) calm_ladder)"]
    by (simp add: calm_ladder_def)
  ultimately have "3 \<le> Left 0 ?w" "Left 0 ?w \<le> 2 ^ 47" by (auto simp: Left_def Until_def second_def Let_def)
  then show ?thesis using drainShare_half by (intro conjI Share_open) (auto simp: closeShare_def)
qed

lemma calm_Serve:
  "Serve 0 calm_serve = Some (\<lparr> dr_Settled = [StageIntake, StageRequests, StageProductDrain, StageProductClose, StageChildren],
     dr_Abandoned = [], dr_Archived = [] \<rparr>, [], served_events calm_serve False)"
proof -
  obtain w c where s: "ladder_split (30 * second) calm_ladder = (w, c)" by fastforce
  have "deadline c = 30 * second" using ladder_split_deadlines [OF s] by (simp add: calm_ladder_def)
  then have kids: "provenStage c calm_stage"
    by (simp add: provenStage_def runStage_def calm_stage_def Left_def Until_def second_def)
  have st: "runStage (Share n f 0 w) calm_stage" if "0 < deadline (Share n f 0 w)" for n f
    using that Left_pos [of 0 "Share n f 0 w"] by (simp add: runStage_def calm_stage_def not_le)
  have req: "settleRequests b (le_requests calm_ladder) = Some (True, False)" for b
    by (simp add: settleRequests_def calm_ladder_def awaitInFlight.simps split: prod.splits)
  have "runShutdownLadder (30 * second) True calm_ladder = Some \<lparr> dr_Settled =
      [StageIntake, StageRequests, StageProductDrain, StageProductClose, StageChildren], dr_Abandoned = [], dr_Archived = [] \<rparr>"
    using calm_work_open s kids st req by (simp add: runShutdownLadder_def stage_def) (simp add: calm_ladder_def)
  then show ?thesis
    by (simp add: Serve_def calm_serve_def serve_body_def serve_out_def served_events_def ShutdownGrace_def Grace_validate_def
        maxGrace_def second_def probeIncumbent_def)
qed

theorem serve_program_order_witness:
  "before ChildrenRecovered Bound (served_events calm_serve False) \<and> \<not> lock_held (served_events calm_serve False)"
  using serve_program_order [OF calm_Serve] by simp

theorem released_lock_is_proof_witness:
  "\<exists>t. sg_return (le_drain calm_ladder) = Some t
     \<and> of_int t < 30 / 55 * of_int (deadline (fst (ladder_split (30 * second) calm_ladder))) + (3 :: rat)"
proof -
  have ev: "LadderRun \<in> set (served_events calm_serve False)" "StoreClosed \<in> set (served_events calm_serve False)"
    by (simp_all add: served_events_def)
  obtain w c where s: "ladder_split (30 * second) calm_ladder = (w, c)" by fastforce
  have f: "sv_ladder calm_serve = calm_ladder" "sv_startOk calm_serve" "ShutdownGrace 0 = 30 * second"
    by (simp_all add: calm_serve_def ShutdownGrace_def)
  have l: "le_mint calm_ladder = 0" "le_requestsShare calm_ladder = 0" "le_drainShare calm_ladder = 0"
    "rq_now (le_requests calm_ladder) k \<le> rq_now (le_requests calm_ladder) (Suc k)" for k
    by (simp_all add: calm_ladder_def)
  show ?thesis
    using released_lock_is_proof [OF calm_Serve ev(1), unfolded f(1,3), OF s _ _ l(4)] ev(2) f(2) l(1-3) s by auto
qed

text \<open>
  The shutdown ladder always ends. Once the clock that the requests stage polls has passed the
  shutdown deadline, the ladder returns with a verdict for every stage, whatever handlers, product and
  children do.
\<close>

lemma shutdown_ladder_returns:
  assumes "\<And>n. m \<le> n \<Longrightarrow> le_mint e + shutdown \<le> rq_now (le_requests e) n"
  shows "\<exists>d. runShutdownLadder shutdown product e = Some d"
proof -
  obtain w c where s: "ladder_split shutdown e = (w, c)" by fastforce
  let ?b = "Share ''requests'' requestsShare (le_requestsShare e) w"
  have "deadline ?b \<le> le_mint e + shutdown"
    using ladder_split_deadlines [OF s] share.carve_within [of "''requests''" requestsShare "le_requestsShare e" w] by linarith
  then have "\<And>n. m \<le> n \<Longrightarrow> deadline ?b \<le> rq_now (le_requests e) n" using assms order_trans by blast
  then obtain r where "settleRequests ?b (le_requests e) = Some r" using settleRequests_returns by blast
  then show ?thesis using s by (cases r) (simp add: runShutdownLadder_def Let_def)
qed

definition stuck_ladder :: ladder_run where
  "stuck_ladder = calm_ladder\<lparr>le_requests := \<lparr> rq_carve = 0, rq_inflight = (\<lambda>_. 1), rq_now = int, rq_done = (\<lambda>_. False), rq_settled = True \<rparr>\<rparr>"

lemma childrenReserve_value:
  assumes "1 \<le> Left now b" and "Left now b \<le> maxGrace"
  shows "min (of_int SettleGrace / of_int (Left now b) - 1 / of_int (Left now b)) (1 / 2) \<le> clampFraction (childrenReserve now b)"
proof -
  let ?L = "of_int (Left now b) :: rat" and ?S = "of_int SettleGrace :: rat"
  have L: "1 \<le> ?L" using assms(1) by simp
  have rl: "rnd64 ?L = ?L" using assms by (intro rnd64_int) (auto simp: maxGrace_def second_def)
  have rs: "rnd64 ?S = ?S" by (intro rnd64_int) (simp_all add: SettleGrace_def)
  have q: "2 powi (- 1022) \<le> ?S / ?L"
  proof -
    have "?L \<le> of_int maxGrace" using assms(2) by (simp only: of_int_le_iff)
    then have "?S / of_int maxGrace \<le> ?S / ?L" using L by (intro divide_left_mono) (auto simp: SettleGrace_def)
    moreover have "2 powi (- 1022) \<le> (2 :: rat) powi (- 20)" by (intro two_powi_le) simp
    moreover have "(2 :: rat) powi (- 20) \<le> ?S / of_int maxGrace"
      by (simp add: power_int_minus SettleGrace_def maxGrace_def second_def)
    ultimately show ?thesis by linarith
  qed
  have "\<bar>rnd64 (?S / ?L) - ?S / ?L\<bar> \<le> ?S / ?L / 2 ^ 53" by (rule rnd64_error [OF q])
  moreover have "?S / ?L / 2 ^ 53 \<le> 1 / ?L"
  proof -
    have "?S / 2 ^ 53 / ?L \<le> 1 / ?L" using L by (intro divide_right_mono) (simp_all add: SettleGrace_def)
    then show ?thesis by (simp add: mult.commute)
  qed
  ultimately have "?S / ?L - 1 / ?L \<le> rnd64 (?S / ?L)" by linarith
  moreover have "clampFraction (childrenReserve now b) = max (rnd64 (15 / 100)) (min (rnd64 (?S / ?L)) (1 / 2))"
  proof -
    have "rnd64 (15 / 100) \<le> rnd64 1" by (intro rnd64_mono) simp
    then have "rnd64 (15 / 100) \<le> 1" using rnd64_int [of 1] by simp
    then show ?thesis
      using L rnd64_nonneg [of "15 / 100"] rnd64_nonneg [of "?S / ?L"]
      by (auto simp: childrenReserve_def childrenShare_def childrenCeiling_def fdiv_def rl rs min_def max_def intro: antisym)
  qed
  ultimately show ?thesis by linarith
qed

lemma rnd64_fifteen: "15 / 100 - 1 / 2 ^ 53 \<le> rnd64 (15 / 100)"
proof -
  have "2 powi (- 1022) \<le> (2 :: rat) powi (- 4)" by (intro two_powi_le) simp
  then have "2 powi (- 1022) \<le> (15 / 100 :: rat)" by (simp add: power_int_minus)
  then have "\<bar>rnd64 (15 / 100) - 15 / 100\<bar> \<le> (15 / 100 :: rat) / 2 ^ 53" by (rule rnd64_error)
  then show ?thesis unfolding abs_le_iff by simp
qed

lemma scaled_grace:
  fixes s x y f :: rat
  assumes "min (s / x - 1 / x) (1 / 2) \<le> f" and "0 \<le> y" and "y \<le> x" and "0 < x"
  shows "min (s * (y / x)) (y / 2) - 1 \<le> f * y"
proof (cases "s / x - 1 / x \<le> 1 / 2")
  case True
  then have "(s / x - 1 / x) * y \<le> f * y" using assms(1,2) by (intro mult_right_mono) simp_all
  then have "s * (y / x) - y / x \<le> f * y" by (simp add: left_diff_distrib)
  moreover have "y / x \<le> 1" using assms(3,4) by simp
  ultimately show ?thesis by linarith
next
  case False
  then have "1 / 2 * y \<le> f * y" using assms(1,2) by (intro mult_right_mono) simp_all
  then show ?thesis by linarith
qed

text \<open>
  C16: the settlement of the children has its slice whatever the work does, and however much time passes between the clock
  readings of the ladder. \<open>L1\<close> is what is left of the budget when the size of the slice is computed, \<open>L2\<close> when it is
  reserved. The work ends before the shutdown deadline by at least 15 percent of \<open>L2\<close>, and by the settle grace scaled by
  \<open>L2 / L1\<close> or half of \<open>L2\<close> (each to three nanoseconds), so a work stage that stops at its own deadline leaves that much
  for the children; at least half of \<open>L2\<close> (to a nanosecond) stays for the work, and no share of the work outlives it.
\<close>

theorem children_tail_guaranteed:
  assumes "ladder_split shutdown e = (w, c)" and "shutdown \<le> maxGrace"
    and "le_mint e \<le> le_reserveLeft e" and "le_reserveLeft e \<le> le_reserve e" and "le_reserve e + 3 \<le> le_mint e + shutdown"
    and "L1 = le_mint e + shutdown - le_reserveLeft e" and "L2 = le_mint e + shutdown - le_reserve e"
  shows "deadline c = le_mint e + shutdown
    \<and> of_int (deadline c - deadline w) > 15 / 100 * of_int L2 - (3 :: rat)
    \<and> of_int (deadline c - deadline w) > min (of_int SettleGrace * (of_int L2 / of_int L1)) (of_int L2 / 2) - (3 :: rat)
    \<and> L2 - 2 \<le> 2 * (deadline w - le_reserve e)
    \<and> deadline (Share name part t w) \<le> deadline w"
proof -
  let ?b = "ladder_budget shutdown e"
  let ?f = "clampFraction (childrenReserve (le_reserveLeft e) ?b)"
  have b: "deadline ?b = le_mint e + shutdown" by (simp add: ladder_budget_def mint_def)
  have l1: "Left (le_reserveLeft e) ?b = L1" and l2: "Left (le_reserve e) ?b = L2"
    using assms(2-7) by (subst Left_exact; simp add: b maxGrace_def second_def)+
  have wc: "deadline w = deadline ?b - fractionOf L2 ?f" "deadline c = deadline ?b"
    using assms(1) l2 by (auto simp: ladder_split_def Reserve_def Let_def)
  have r: "3 \<le> L2" "L2 \<le> L1" "L1 \<le> maxGrace" using assms(2-7) by simp_all
  then have s47: "L2 \<le> 2 ^ 47" by (simp add: maxGrace_def second_def)
  have f: "15 / 100 - 1 / 2 ^ 53 \<le> ?f" "0 \<le> ?f" "?f \<le> 1 / 2"
    using childrenReserve_range [of "le_reserveLeft e" ?b] rnd64_fifteen rnd64_nonneg [of "15 / 100"] by linarith+
  have "2 powi (- 1022) \<le> (2 :: rat) powi (- 4)" by (intro two_powi_le) simp
  then have "2 powi (- 1022) \<le> ?f" using f(1) by (simp add: power_int_minus)
  then have acc: "?f * of_int L2 - 2 < of_int (fractionOf L2 ?f)"
    using fractionOf_accurate [of L2 ?f] f(3) r(1) s47 by simp
  have sh: "(3 :: rat) \<le> of_int L2" "(of_int L2 :: rat) \<le> of_int (2 ^ 47)" "(of_int L2 :: rat) \<le> of_int L1"
    using r s47 by (simp, simp only: of_int_le_iff, simp only: of_int_le_iff)
  have "(15 / 100 - 1 / 2 ^ 53) * of_int L2 \<le> ?f * of_int L2" using f(1) sh by (intro mult_right_mono) simp_all
  then have fifteen: "15 / 100 * of_int L2 - 1 \<le> ?f * of_int L2" using sh(2) by (simp add: left_diff_distrib)
  have "min (of_int SettleGrace / of_int L1 - 1 / of_int L1) (1 / 2) \<le> ?f"
    using childrenReserve_value [of "le_reserveLeft e" ?b] l1 r by simp
  then have settle: "min (of_int SettleGrace * (of_int L2 / of_int L1)) (of_int L2 / 2) - 1 \<le> ?f * of_int L2"
    by (rule scaled_grace) (use sh in simp_all)
  have "2 * fractionOf L2 ?f \<le> L2 + 2" using half_open [of ?f L2] f(2,3) r(1) s47 by simp
  then have "L2 - 2 \<le> 2 * (deadline w - le_reserve e)" using wc(1) b assms(7) by simp
  then show ?thesis
    using acc fifteen settle wc b share.carve_within [of name part t w] by simp
qed

theorem children_tail_guaranteed_witness:
  "of_int (deadline (snd (ladder_split (30 * second) (calm_ladder\<lparr>le_reserveLeft := second, le_reserve := 2 * second\<rparr>)))
      - deadline (fst (ladder_split (30 * second) (calm_ladder\<lparr>le_reserveLeft := second, le_reserve := 2 * second\<rparr>))))
     > (42 / 10 * of_int second - 3 :: rat)"
  using children_tail_guaranteed [OF prod.collapse [symmetric], of "30 * second"
      "calm_ladder\<lparr>le_reserveLeft := second, le_reserve := 2 * second\<rparr>" "29 * second" "28 * second" "[]" NaN 0]
  by (simp add: calm_ladder_def maxGrace_def second_def)

text \<open>
  The verdict on a stage is safe but not exact. A settled verdict means the work returned with time
  left; yet the work can return with time left and be reported as abandoned, because when the select finds
  both the work and the timer ready it may take the timer.
\<close>

lemma stage_verdict_race:
  "(runStage b g \<longrightarrow> (\<exists>t. sg_return g = Some t \<and> 0 < Left t b))
   \<and> (\<exists>g'. sg_return g' = Some 99 \<and> 0 < Left 99 \<lparr> deadline = 100, bpath = [] \<rparr> \<and> \<not> sg_err g'
        \<and> runStage \<lparr> deadline = 100, bpath = [] \<rparr> (g'\<lparr>sg_timerWins := False\<rparr>)
        \<and> \<not> runStage \<lparr> deadline = 100, bpath = [] \<rparr> g')"
proof
  show "runStage b g \<longrightarrow> (\<exists>t. sg_return g = Some t \<and> 0 < Left t b)"
    by (auto simp: runStage_def split: if_splits option.splits)
  let ?g = "\<lparr> sg_check = 0, sg_return = Some 99, sg_err = False, sg_select = 100, sg_timerWins = True \<rparr>"
  show "\<exists>g'. sg_return g' = Some 99 \<and> 0 < Left 99 \<lparr> deadline = 100, bpath = [] \<rparr> \<and> \<not> sg_err g'
        \<and> runStage \<lparr> deadline = 100, bpath = [] \<rparr> (g'\<lparr>sg_timerWins := False\<rparr>)
        \<and> \<not> runStage \<lparr> deadline = 100, bpath = [] \<rparr> g'"
    by (rule exI [of _ ?g]) (simp add: runStage_def Left_def Until_def)
qed

end
