(* ===== verification/Version.thy ===== *)
theory Version
  imports Prelude
begin

text \<open>
  Build versions, \<^verbatim>\<open>version/version.go\<close>: classification of a build string as a release triple or a
  development stamp, the order on builds, equality of spellings, the development stamp itself.

  A Go string is its bytes, so a space outside ASCII is the byte sequence that encodes it.
\<close>

subsection \<open>Strings\<close>

text \<open>The encodings of the characters \<open>unicode.IsSpace\<close> accepts.\<close>

definition space_codes :: "string list" where
  "space_codes = [[CHR 0x09], [CHR 0x0A], [CHR 0x0B], [CHR 0x0C], [CHR 0x0D], [CHR 0x20],
     [CHR 0xC2, CHR 0x85], [CHR 0xC2, CHR 0xA0], [CHR 0xE1, CHR 0x9A, CHR 0x80],
     [CHR 0xE2, CHR 0x80, CHR 0x80], [CHR 0xE2, CHR 0x80, CHR 0x81], [CHR 0xE2, CHR 0x80, CHR 0x82],
     [CHR 0xE2, CHR 0x80, CHR 0x83], [CHR 0xE2, CHR 0x80, CHR 0x84], [CHR 0xE2, CHR 0x80, CHR 0x85],
     [CHR 0xE2, CHR 0x80, CHR 0x86], [CHR 0xE2, CHR 0x80, CHR 0x87], [CHR 0xE2, CHR 0x80, CHR 0x88],
     [CHR 0xE2, CHR 0x80, CHR 0x89], [CHR 0xE2, CHR 0x80, CHR 0x8A], [CHR 0xE2, CHR 0x80, CHR 0xA8],
     [CHR 0xE2, CHR 0x80, CHR 0xA9], [CHR 0xE2, CHR 0x80, CHR 0xAF], [CHR 0xE2, CHR 0x81, CHR 0x9F],
     [CHR 0xE3, CHR 0x80, CHR 0x80]]"

definition has_prefix :: "string \<Rightarrow> string \<Rightarrow> bool" where
  "has_prefix p s \<longleftrightarrow> take (length p) s = p"

definition leading_space :: "string \<Rightarrow> nat" where
  "leading_space s = (case find (\<lambda>p. has_prefix p s) space_codes of None \<Rightarrow> 0 | Some p \<Rightarrow> length p)"

function trim_left :: "string \<Rightarrow> string" where
  "trim_left s = (if leading_space s = 0 \<or> s = [] then s else trim_left (drop (leading_space s) s))"
  by pat_completeness auto

termination
  by (relation "measure length") (auto simp: leading_space_def split: option.splits)

definition trailing_space :: "string \<Rightarrow> nat" where
  "trailing_space s = (case find (\<lambda>p. has_prefix (rev p) (rev s)) space_codes of None \<Rightarrow> 0 | Some p \<Rightarrow> length p)"

function trim_right :: "string \<Rightarrow> string" where
  "trim_right s = (if trailing_space s = 0 \<or> s = [] then s else trim_right (take (length s - trailing_space s) s))"
  by pat_completeness auto

termination
  by (relation "measure length") (auto simp: trailing_space_def split: option.splits)

declare trim_left.simps [simp del] trim_right.simps [simp del]

definition TrimSpace :: "string \<Rightarrow> string" where
  "TrimSpace s = trim_right (trim_left s)"

definition CutPrefix :: "string \<Rightarrow> string \<Rightarrow> string option" where
  "CutPrefix s p = (if has_prefix p s then Some (drop (length p) s) else None)"

definition is_digit :: "char \<Rightarrow> bool" where
  "is_digit c \<longleftrightarrow> c \<in> set ''0123456789''"

definition digit_val :: "char \<Rightarrow> nat" where
  "digit_val c = of_char c - 48"

definition dec_val :: "string \<Rightarrow> nat" where
  "dec_val s = foldl (\<lambda>n c. n * 10 + digit_val c) 0 s"

text \<open>\<open>strconv.ParseInt(s, 10, 64)\<close>: an optional sign, digits, and the range of an \<open>int64\<close>.\<close>

definition in_int64 :: "int \<Rightarrow> bool" where
  "in_int64 n \<longleftrightarrow> - (2 ^ 63) \<le> n \<and> n < 2 ^ 63"

definition ParseInt :: "string \<Rightarrow> int option" where
  "ParseInt s =
    (let (neg, ds) = (case s of c # cs \<Rightarrow> if c = CHR ''-'' then (True, cs) else if c = CHR ''+'' then (False, cs) else (False, s)
                       | [] \<Rightarrow> (False, []))
     in if ds = [] \<or> \<not> list_all is_digit ds then None
        else let n = (if neg then - int (dec_val ds) else int (dec_val ds)) in
          if in_int64 n then Some n else None)"

subsection \<open>Classification\<close>

datatype Version =
    Release int int int
  | Dev int

definition devSentinelPrefix :: string where "devSentinelPrefix = ''9999.''"

definition parseDevSentinel :: "string \<Rightarrow> int option" where
  "parseDevSentinel s =
    (case CutPrefix s devSentinelPrefix of
       None \<Rightarrow> None
     | Some rest \<Rightarrow>
         if CHR ''.'' \<notin> set rest then None
         else ParseInt (takeWhile (\<lambda>c. c \<noteq> CHR ''.'') rest))"

text \<open>The match of \<^verbatim>\<open>^v?(\d+)\.(\d+)\.(\d+)\<close>: the three digit runs.\<close>

definition number :: "string \<Rightarrow> (string \<times> string) option" where
  "number s = (let ds = takeWhile is_digit s in if ds = [] then None else Some (ds, dropWhile is_digit s))"

definition dot :: "string \<Rightarrow> string option" where
  "dot s = (case s of c # cs \<Rightarrow> if c = CHR ''.'' then Some cs else None | [] \<Rightarrow> None)"

definition strip_v :: "string \<Rightarrow> string" where
  "strip_v s = (case s of c # cs \<Rightarrow> if c = CHR ''v'' then cs else s | [] \<Rightarrow> [])"

definition releaseTriple :: "string \<Rightarrow> (string \<times> string \<times> string) option" where
  "releaseTriple s =
    (case number (strip_v s) of None \<Rightarrow> None | Some (a, s1) \<Rightarrow>
     (case dot s1 of None \<Rightarrow> None | Some s2 \<Rightarrow>
     (case number s2 of None \<Rightarrow> None | Some (b, s3) \<Rightarrow>
     (case dot s3 of None \<Rightarrow> None | Some s4 \<Rightarrow>
     (case number s4 of None \<Rightarrow> None | Some (c, s5) \<Rightarrow> Some (a, b, c))))))"

definition parseRelease :: "string \<Rightarrow> Version option" where
  "parseRelease s =
    (case releaseTriple s of None \<Rightarrow> None | Some (a, b, c) \<Rightarrow>
     (case ParseInt a of None \<Rightarrow> None | Some x \<Rightarrow>
     (case ParseInt b of None \<Rightarrow> None | Some y \<Rightarrow>
     (case ParseInt c of None \<Rightarrow> None | Some z \<Rightarrow> Some (Release x y z)))))"

definition Parse :: "string \<Rightarrow> Version" where
  "Parse s =
    (let t = TrimSpace s in
     case parseDevSentinel t of
       Some nanos \<Rightarrow> Dev nanos
     | None \<Rightarrow> (case parseRelease t of Some r \<Rightarrow> r | None \<Rightarrow> Dev 0))"

subsection \<open>Order\<close>

fun newer :: "Version \<Rightarrow> Version \<Rightarrow> bool" where
  "newer (Release a b c) (Release a' b' c') =
    (if a \<noteq> a' then a > a' else if b \<noteq> b' then b > b' else c > c')"
| "newer (Release a b c) (Dev n) = False"
| "newer (Dev n) (Release a b c) = True"
| "newer (Dev n) (Dev n') = (n > n')"

definition Newer :: "string \<Rightarrow> string \<Rightarrow> bool" where
  "Newer a b = newer (Parse a) (Parse b)"

definition canonicalVersion :: "string \<Rightarrow> string" where
  "canonicalVersion s = strip_v (TrimSpace s)"

definition Equal :: "string \<Rightarrow> string \<Rightarrow> bool" where
  "Equal a b \<longleftrightarrow> canonicalVersion a = canonicalVersion b"

text \<open>\<open>fmt\<close> of a decimal integer.\<close>

fun show_nat :: "nat \<Rightarrow> string" where
  "show_nat n = (if n < 10 then [char_of (48 + n)] else show_nat (n div 10) @ [char_of (48 + n mod 10)])"

declare show_nat.simps [simp del]

definition show_int :: "int \<Rightarrow> string" where
  "show_int i = (if i < 0 then CHR ''-'' # show_nat (nat (- i)) else show_nat (nat i))"

definition DevString :: "int \<Rightarrow> string" where
  "DevString nanos = devSentinelPrefix @ show_int nanos @ ''.0-dev''"

definition Resolve :: "string \<Rightarrow> int \<Rightarrow> bool \<Rightarrow> string" where
  "Resolve stamped mtime ok = (if stamped \<noteq> ''dev'' then stamped else if \<not> ok then ''dev'' else DevString mtime)"

subsection \<open>The order is linear\<close>

instantiation Version :: linorder
begin

definition less_Version :: "Version \<Rightarrow> Version \<Rightarrow> bool" where
  "less_Version a b \<longleftrightarrow> newer b a"

definition less_eq_Version :: "Version \<Rightarrow> Version \<Rightarrow> bool" where
  "less_eq_Version a b \<longleftrightarrow> a = b \<or> newer b a"

instance
proof
  fix x y z :: Version
  show "x < y \<longleftrightarrow> x \<le> y \<and> \<not> y \<le> x"
    by (cases x; cases y) (auto simp: less_Version_def less_eq_Version_def split: if_splits)
  show "x \<le> x" by (simp add: less_eq_Version_def)
  show "x \<le> y \<Longrightarrow> y \<le> z \<Longrightarrow> x \<le> z"
    by (cases x; cases y; cases z) (auto simp: less_eq_Version_def split: if_splits)
  show "x \<le> y \<Longrightarrow> y \<le> x \<Longrightarrow> x = y"
    by (cases x; cases y) (auto simp: less_eq_Version_def split: if_splits)
  show "x \<le> y \<or> y \<le> x"
    by (cases x; cases y) (auto simp: less_eq_Version_def)
qed

end

lemma Newer_iff: "Newer a b \<longleftrightarrow> Parse b < Parse a"
  by (simp add: Newer_def less_Version_def)

subsection \<open>Decimal numbers\<close>

lemma digit_char: "n < 10 \<Longrightarrow> is_digit (char_of (48 + n :: nat))"
proof -
  assume "n < 10"
  then have "n = 0 \<or> n = 1 \<or> n = 2 \<or> n = 3 \<or> n = 4 \<or> n = 5 \<or> n = 6 \<or> n = 7 \<or> n = 8 \<or> n = 9" by presburger
  then show ?thesis by (elim disjE) (simp_all add: is_digit_def char_of_def bit_0)
qed

lemma digit_val_char: "n < 10 \<Longrightarrow> digit_val (char_of (48 + n :: nat)) = n"
  by (simp add: digit_val_def)

lemma dec_val_snoc: "dec_val (s @ [c]) = dec_val s * 10 + digit_val c"
  by (simp add: dec_val_def)

lemma show_nat_digits: "list_all is_digit (show_nat n) \<and> show_nat n \<noteq> [] \<and> dec_val (show_nat n) = n"
proof (induction n rule: show_nat.induct)
  case (1 n)
  show ?case
  proof (cases "n < 10")
    case True
    then show ?thesis
      using digit_char digit_val_char by (subst (1 2 3) show_nat.simps) (simp add: dec_val_def)
  next
    case False
    have "n mod 10 < 10" by simp
    then show ?thesis
      using 1 [OF False] False digit_char [of "n mod 10"] digit_val_char [of "n mod 10"]
      by (subst (1 2 3) show_nat.simps) (simp add: dec_val_snoc)
  qed
qed

lemma not_digit_head: "list_all is_digit (c # cs) \<Longrightarrow> c \<noteq> CHR ''-'' \<and> c \<noteq> CHR ''+'' \<and> c \<noteq> CHR ''.'' \<and> c \<noteq> CHR ''v''"
  by (auto simp: is_digit_def)

lemma ParseInt_digits:
  assumes "list_all is_digit s" "s \<noteq> []" "in_int64 (int (dec_val s))"
  shows "ParseInt s = Some (int (dec_val s))"
proof -
  obtain c cs where s: "s = c # cs" using assms(2) by (cases s) auto
  then have "c \<noteq> CHR ''-''" "c \<noteq> CHR ''+''" using not_digit_head assms(1) by auto
  then show ?thesis using assms s by (simp add: ParseInt_def)
qed

lemma ParseInt_show_int: "in_int64 i \<Longrightarrow> ParseInt (show_int i) = Some i"
proof (cases "i < 0")
  case True
  assume r: "in_int64 i"
  have "list_all is_digit (show_nat (nat (- i)))" "show_nat (nat (- i)) \<noteq> []" "dec_val (show_nat (nat (- i))) = nat (- i)"
    using show_nat_digits by auto
  then show ?thesis using True r by (simp add: show_int_def ParseInt_def)
next
  case False
  assume r: "in_int64 i"
  show ?thesis
    using ParseInt_digits [of "show_nat (nat i)"] show_nat_digits [of "nat i"] False r by (simp add: show_int_def)
qed

lemma show_int_no_dot: "CHR ''.'' \<notin> set (show_int i)"
proof -
  have "CHR ''.'' \<notin> set (show_nat n)" for n
  proof -
    have "\<not> is_digit (CHR ''.'')" by (simp add: is_digit_def)
    then show ?thesis using show_nat_digits [of n] by (auto simp: list_all_iff)
  qed
  then show ?thesis by (simp add: show_int_def)
qed

lemma takeWhile_show_int: "takeWhile (\<lambda>c. c \<noteq> CHR ''.'') (show_int i @ CHR ''.'' # s) = show_int i"
proof -
  have "\<And>x. x \<in> set (show_int i) \<Longrightarrow> x \<noteq> CHR ''.''" using show_int_no_dot by auto
  then show ?thesis by (simp add: takeWhile_append2)
qed

subsection \<open>Trimming\<close>

lemma space_codes_ends:
  assumes "p \<in> set space_codes" and "c \<in> set ''0123456789vd''"
  shows "p \<noteq> [] \<and> hd p \<noteq> c \<and> last p \<noteq> c"
proof -
  have "list_all (\<lambda>p. p \<noteq> [] \<and> hd p \<notin> set ''0123456789vd'' \<and> last p \<notin> set ''0123456789vd'') space_codes"
    by code_simp
  then show ?thesis using assms by (auto simp: list_all_iff)
qed

lemma has_prefix_Cons: "p \<noteq> [] \<Longrightarrow> has_prefix p (c # s) \<Longrightarrow> hd p = c"
  by (cases p) (auto simp: has_prefix_def)

lemma no_leading_space: "c \<in> set ''0123456789vd'' \<Longrightarrow> leading_space (c # s) = 0"
proof -
  assume c: "c \<in> set ''0123456789vd''"
  have "find (\<lambda>p. has_prefix p (c # s)) space_codes = None"
    unfolding find_None_iff using space_codes_ends [OF _ c] has_prefix_Cons by blast
  then show ?thesis by (simp add: leading_space_def)
qed

lemma no_trailing_space: "c \<in> set ''0123456789vd'' \<Longrightarrow> trailing_space (s @ [c]) = 0"
proof -
  assume c: "c \<in> set ''0123456789vd''"
  have "find (\<lambda>p. has_prefix (rev p) (rev (s @ [c]))) space_codes = None"
    unfolding find_None_iff
  proof (safe, goal_cases)
    case (1 p)
    have "hd (rev p) = c" using has_prefix_Cons [of "rev p" c "rev s"] 1 space_codes_ends [OF 1(1) c] by simp
    then show ?case using space_codes_ends [OF 1(1) c] by (simp add: hd_rev)
  qed
  then show ?thesis by (simp add: trailing_space_def)
qed

lemma TrimSpace_id:
  assumes "c \<in> set ''0123456789vd''" "c' \<in> set ''0123456789vd''"
  shows "TrimSpace (c # s @ [c']) = c # s @ [c']"
proof -
  have "trim_left (c # s @ [c']) = c # s @ [c']"
    using no_leading_space [OF assms(1)] by (subst trim_left.simps) simp
  moreover have "trim_right ((c # s) @ [c']) = (c # s) @ [c']"
    using no_trailing_space [OF assms(2), of "c # s"] by (subst trim_right.simps) simp
  ultimately show ?thesis by (simp add: TrimSpace_def)
qed

lemma Parse_DevString: "in_int64 t \<Longrightarrow> Parse (DevString t) = Dev t"
proof -
  assume t: "in_int64 t"
  have "DevString t = CHR ''9'' # (''999.'' @ show_int t @ ''.0-de'') @ [CHR ''v'']"
    by (simp add: DevString_def devSentinelPrefix_def)
  moreover have "CHR ''9'' \<in> set ''0123456789vd''" "CHR ''v'' \<in> set ''0123456789vd''" by simp_all
  ultimately have trim: "TrimSpace (DevString t) = DevString t" using TrimSpace_id by metis
  have "parseDevSentinel (DevString t) = Some t"
    using ParseInt_show_int [OF t] takeWhile_show_int [of t "''0-dev''"]
    by (simp add: parseDevSentinel_def CutPrefix_def has_prefix_def DevString_def devSentinelPrefix_def)
  then show ?thesis by (simp add: Parse_def trim)
qed

subsection \<open>Spellings\<close>

lemma Parse_canonical:
  assumes "\<not> has_prefix devSentinelPrefix (canonicalVersion a)"
  shows "Parse a = (case parseRelease (TrimSpace a) of Some r \<Rightarrow> r | None \<Rightarrow> Dev 0)"
proof -
  have "\<not> has_prefix devSentinelPrefix (TrimSpace a)"
  proof
    assume p: "has_prefix devSentinelPrefix (TrimSpace a)"
    then obtain cs where "TrimSpace a = CHR ''9'' # cs"
      by (cases "TrimSpace a") (auto simp: has_prefix_def devSentinelPrefix_def)
    then have "canonicalVersion a = TrimSpace a" by (simp add: canonicalVersion_def strip_v_def)
    then show False using p assms by simp
  qed
  then show ?thesis by (simp add: Parse_def parseDevSentinel_def CutPrefix_def)
qed

lemma releaseTriple_cong: "strip_v s = strip_v t \<Longrightarrow> releaseTriple s = releaseTriple t"
  by (simp add: releaseTriple_def)

subsection \<open>Properties\<close>

text \<open>
  Builds are linearly ordered. Newer-than is irreflexive and transitive, and any two builds that
  are not classified the same are ordered one way; every development build is newer than every
  release.
\<close>

lemma version_order:
  "\<not> Newer a a \<and> (Newer a b \<and> Newer b c \<longrightarrow> Newer a c) \<and> (Newer a b \<or> Newer b a \<or> Parse a = Parse b)
    \<and> (Parse a = Dev n \<and> Parse b = Release x y z \<longrightarrow> Newer a b)"
  by (auto simp: Newer_iff less_Version_def [of "Release x y z"])

text \<open>
  A development stamp is read back exactly, and stamps order by time. Any stamp of an \<open>int64\<close>
  nanosecond count, the largest and the negative ones included, is classified as that count, so the
  later of two development builds is the newer.
\<close>

lemma dev_stamp_order:
  assumes "in_int64 s" and "in_int64 t"
  shows "Parse (DevString t) = Dev t \<and> (Newer (DevString s) (DevString t) \<longleftrightarrow> s > t)
    \<and> Parse (Resolve ''dev'' t True) = Dev t"
  using Parse_DevString [OF assms(1)] Parse_DevString [OF assms(2)] by (simp add: Newer_def Resolve_def)

text \<open>
  C17: equal spellings are the same build, except for tagged development stamps. Two spellings that
  \<open>Equal\<close> identifies are classified alike, so neither is newer, unless their common form is a
  development stamp; there \<open>Equal\<close> identifies a stamp with its tagged spelling although the stamp is
  classified as newer.
\<close>

theorem equal_builds_not_newer:
  assumes "Equal a b" and "\<not> has_prefix devSentinelPrefix (canonicalVersion a)"
  shows "Parse a = Parse b \<and> \<not> Newer a b \<and> \<not> Newer b a
    \<and> Equal ''9999.5.0-dev'' ''v9999.5.0-dev'' \<and> Newer ''9999.5.0-dev'' ''v9999.5.0-dev''"
proof -
  have "strip_v (TrimSpace a) = strip_v (TrimSpace b)" using assms(1) by (simp add: Equal_def canonicalVersion_def)
  then have "parseRelease (TrimSpace a) = parseRelease (TrimSpace b)"
    using releaseTriple_cong [of "TrimSpace a" "TrimSpace b"] by (simp add: parseRelease_def)
  moreover have "\<not> has_prefix devSentinelPrefix (canonicalVersion b)"
    using assms by (simp add: Equal_def)
  ultimately have same: "Parse a = Parse b"
    using Parse_canonical [OF assms(2)] Parse_canonical [of b] by simp
  have t1: "TrimSpace ''9999.5.0-dev'' = ''9999.5.0-dev''"
    using TrimSpace_id [of "CHR ''9''" "CHR ''v''" "''999.5.0-de''"] by simp
  have t2: "TrimSpace ''v9999.5.0-dev'' = ''v9999.5.0-dev''"
    using TrimSpace_id [of "CHR ''v''" "CHR ''v''" "''9999.5.0-de''"] by simp
  have "ParseInt ''5'' = Some 5" "ParseInt ''9999'' = Some 9999" "ParseInt ''0'' = Some 0"
    by (simp_all add: ParseInt_def is_digit_def dec_val_def digit_val_def in_int64_def)
  moreover have "parseDevSentinel ''9999.5.0-dev'' = ParseInt ''5''" "parseDevSentinel ''v9999.5.0-dev'' = None"
    by (simp_all add: parseDevSentinel_def CutPrefix_def has_prefix_def devSentinelPrefix_def)
  moreover have "releaseTriple ''v9999.5.0-dev'' = Some (''9999'', ''5'', ''0'')"
    by (simp add: releaseTriple_def number_def is_digit_def dot_def strip_v_def)
  ultimately have p1: "Parse ''9999.5.0-dev'' = Dev 5" and p2: "Parse ''v9999.5.0-dev'' = Release 9999 5 0"
    by (simp_all add: Parse_def t1 t2 parseRelease_def)
  show ?thesis
    using same p1 p2 by (simp add: Newer_iff Equal_def canonicalVersion_def t1 t2 strip_v_def less_Version_def)
qed

theorem equal_builds_not_newer_witness: "Parse ''v1.2.3'' = Parse ''1.2.3''"
proof -
  have "TrimSpace ''v1.2.3'' = ''v1.2.3''" "TrimSpace ''1.2.3'' = ''1.2.3''"
    using TrimSpace_id [of "CHR ''v''" "CHR ''3''" "''1.2.''"] TrimSpace_id [of "CHR ''1''" "CHR ''3''" "''.2.''"] by simp_all
  then have "Equal ''v1.2.3'' ''1.2.3''" "\<not> has_prefix devSentinelPrefix (canonicalVersion ''v1.2.3'')"
    by (simp_all add: Equal_def canonicalVersion_def strip_v_def has_prefix_def devSentinelPrefix_def)
  then show ?thesis using equal_builds_not_newer by blast
qed

end
