(* ===== verification/Control.thy ===== *)
theory Control
  imports Budget WireRuntime
begin

text \<open>
  What a client can observe of a daemon and the verbs that act on one: \<^verbatim>\<open>decide.go\<close>, \<^verbatim>\<open>health.go\<close>, \<^verbatim>\<open>control.go\<close>, \<^verbatim>\<open>client.go\<close>, the
  session side of \<^verbatim>\<open>business.go\<close> and \<^verbatim>\<open>waitready.go\<close>, \<open>Terminate\<close> and \<open>inventoryClear\<close> of \<^verbatim>\<open>ensure.go\<close>, and the executable
  inventory \<^verbatim>\<open>internal/proc/inventory.go\<close>.

  The record \<open>boundary\<close> holds what the socket, the owner record, the process table and the service layer answer at each
  instant; the process table and the clock are the \<open>world\<close> of \<open>ProcReap\<close>, so the signals of a termination are the ladder's
  own. A derived context is its deadline: it has ended when the clock has passed it or its parent has ended. Every function
  returns its result, the effects in order, and the instant at which it returned.
\<close>

subsection \<open>Errors and health\<close>

datatype root_error = ErrAbsent | RootDraining | RootNotReady | RootCapacity | ErrProtocolMismatch | ErrWrongIncumbent
  | RootUnsettled | ErrUnrecorded | RootDeadline | RootCanceled | ErrIncomplete | ErrUnpinned | ErrSelfPin | ErrPeerMismatch
  | ErrCameUpWrong | ErrService | WireDraining | WireNotReady | NoListener | RootOther

type_synonym rerr = "root_error list"

definition Is :: "rerr \<Rightarrow> root_error \<Rightarrow> bool" where
  "Is e s \<longleftrightarrow> s \<in> set e"

record Health =
  he_Phase :: Phase
  he_Protocol :: u16
  he_Generation :: u64
  he_PID :: int
  he_Build :: string

text \<open>A phase of the wire that this build does not know is the invalid one, \<open>PhaseOther []\<close>.\<close>

definition phaseFromWire :: "Phase \<Rightarrow> Phase" where
  "phaseFromWire p = (case p of PhaseOther x \<Rightarrow> PhaseOther [] | _ \<Rightarrow> p)"

definition healthFromReport :: "Health \<Rightarrow> Health" where
  "healthFromReport report = report\<lparr>he_Phase := phaseFromWire (he_Phase report)\<rparr>"

text \<open>
  \<open>classifyWire\<close>. \<open>NoListener\<close> stands for \<^verbatim>\<open>ENOENT\<close>, \<^verbatim>\<open>os.ErrNotExist\<close> and \<^verbatim>\<open>ECONNREFUSED\<close>; \<open>RootDeadline\<close> for both deadline errors
  that \<open>spent\<close> looks for.
\<close>

definition classifyWire :: "rerr \<Rightarrow> rerr" where
  "classifyWire e =
    (if Is e WireDraining then [RootDraining]
     else if Is e WireNotReady then [RootNotReady]
     else if Is e RootCapacity \<or> Is e ErrProtocolMismatch then e
     else if Is e NoListener then ErrAbsent # e
     else e)"

datatype Action = ActionNothing | ActionStarted | ActionUpgraded | ActionRestarted | actionObserve

definition phase_known :: "Phase \<Rightarrow> bool" where
  "phase_known p \<longleftrightarrow> p = PhaseStarting \<or> p = PhaseReady \<or> p = PhaseDraining \<or> p = PhaseFailed"

definition complete :: "Health \<Rightarrow> bool" where
  "complete h \<longleftrightarrow> phase_known (he_Phase h) \<and> he_Protocol h = ProtocolVersion \<and> he_Build h \<noteq> [] \<and> he_Generation h \<noteq> 0"

definition decide :: "Health \<Rightarrow> string \<Rightarrow> rerr + Action" where
  "decide h want =
    (if \<not> complete h then Inl [ErrIncomplete]
     else if he_Build h \<noteq> want then Inr ActionUpgraded
     else if he_Phase h = PhaseFailed then Inr ActionRestarted
     else if he_Phase h = PhaseReady then Inr ActionNothing
     else Inr actionObserve)"

definition frameEnvelopeReserve :: int where "frameEnvelopeReserve = 4096"

definition maxFramedBytes :: "int \<Rightarrow> int" where
  "maxFramedBytes maxFrame =
    (let m = (if maxFrame \<le> 0 then DefaultMaxFrame else maxFrame); usable = m - frameEnvelopeReserve in
     if usable \<le> 0 then 0 else usable * 3 div 4)"

subsection \<open>Boundaries\<close>

datatype drain_answer = DrainRejected rerr | DrainUnsent rerr | DrainLanded

datatype exec_error = ErrNoProcess | errForeignProcess | errUnresolvedExecutable | ExecFailed

record boundary =
  bd_world :: world
  bd_acquire :: "nat \<Rightarrow> rerr + int"
  bd_health :: "nat \<Rightarrow> rerr + Health"
  bd_failed :: "nat \<Rightarrow> bool"
  bd_drain :: "nat \<Rightarrow> drain_answer"
  bd_owner :: "nat \<Rightarrow> rerr + Owner option"
  bd_program :: "string option"
  bd_resolved :: "nat \<Rightarrow> (string option) option"
  bd_pids :: "nat \<Rightarrow> int list option"
  bd_exec :: "nat \<Rightarrow> int \<Rightarrow> exec_error + string"
  bd_reach :: "nat \<Rightarrow> rerr option"
  bd_apply :: "nat \<Rightarrow> rerr option"
  bd_remove :: "nat \<Rightarrow> rerr option"
  bd_ready :: "nat \<Rightarrow> rerr option"
  bd_probeErr :: "nat \<Rightarrow> rerr"

datatype effect =
    DrainSent nat identity Health
  | Sent event
  | ServiceApplied nat
  | ServiceRemoved nat

type_synonym 'a outcome = "((rerr + 'a) \<times> effect list \<times> nat) option"

text \<open>A context derived with a deadline.\<close>

definition derive :: "int \<Rightarrow> world \<Rightarrow> world" where
  "derive d w = w\<lparr>w_deadline := min d (w_deadline w), w_ended := (\<lambda>t. d \<le> w_now w t \<or> w_ended w t)\<rparr>"

definition with_ctx :: "world \<Rightarrow> boundary \<Rightarrow> boundary" where
  "with_ctx w b = b\<lparr>bd_world := w\<rparr>"

definition ctx_left :: "world \<Rightarrow> nat \<Rightarrow> int" where
  "ctx_left w t = Until (w_now w t) (w_deadline w)"

definition spent :: "world \<Rightarrow> nat \<Rightarrow> rerr \<Rightarrow> bool" where
  "spent w t e \<longleftrightarrow> ctx_left w t \<le> 0 \<and> Is e RootDeadline"

text \<open>The context of a share of what the context has left.\<close>

definition share_ctx :: "rat \<Rightarrow> world \<Rightarrow> nat \<Rightarrow> world" where
  "share_ctx part w t =
    (let n = w_now w t; b = mint n [] (ctx_left w t) in derive (deadline (Share [] (Fin part) n b)) w)"

subsection \<open>The pinned session (control.go, business.go)\<close>

definition ProbeIdentity :: "world \<Rightarrow> int \<Rightarrow> nat \<Rightarrow> (unit + identity option) \<times> nat" where
  "ProbeIdentity w pid t =
    (case probe w t pid of
       NoProc \<Rightarrow> (Inr None, t + 1)
     | ProbeError \<Rightarrow> (Inl (), t + 1)
     | Info info \<Rightarrow>
         if w_bootErr w (t + 1) then (Inl (), t + 2)
         else (Inr (Some \<lparr> id_pid = pid, id_start = pi_start info, id_boot = w_boot w \<rparr>), t + 2))"

definition assemblePin :: "boundary \<Rightarrow> int \<Rightarrow> nat \<Rightarrow> (rerr + identity \<times> Health) \<times> nat" where
  "assemblePin b peer t =
    (if peer = w_self (bd_world b) then (Inl [ErrSelfPin], t)
     else case ProbeIdentity (bd_world b) peer t of
       (Inl e, t1) \<Rightarrow> (Inl (bd_probeErr b t1), t1)
     | (Inr None, t1) \<Rightarrow> (Inl [RootOther], t1)
     | (Inr (Some pinned), t1) \<Rightarrow>
         (case bd_health b t1 of
            Inl e \<Rightarrow> (Inl e, t1 + 1)
          | Inr report \<Rightarrow>
              if he_PID report \<noteq> peer then (Inl [ErrPeerMismatch], t1 + 1) else (Inr (pinned, report), t1 + 1)))"

text \<open>\<open>ask\<close>: one retry, on a session that failed.\<close>

primrec ask :: "nat \<Rightarrow> boundary \<Rightarrow> nat \<Rightarrow> (rerr + identity \<times> Health) \<times> nat" where
  "ask 0 b t =
    (case bd_acquire b t of
       Inl e \<Rightarrow> (Inl e, t + 1)
     | Inr peer \<Rightarrow> (case assemblePin b peer (t + 1) of (Inr r, t1) \<Rightarrow> (Inr r, t1) | (Inl e, t1) \<Rightarrow> (Inl (classifyWire e), t1 + 1)))"
| "ask (Suc n) b t =
    (case bd_acquire b t of
       Inl e \<Rightarrow> (Inl e, t + 1)
     | Inr peer \<Rightarrow>
         (case assemblePin b peer (t + 1) of
            (Inr r, t1) \<Rightarrow> (Inr r, t1)
          | (Inl e, t1) \<Rightarrow> if \<not> bd_failed b t1 then (Inl (classifyWire e), t1 + 1) else ask n b (t1 + 1)))"

definition pinned :: "boundary \<Rightarrow> nat \<Rightarrow> (rerr + identity \<times> Health) \<times> nat" where
  "pinned b t = ask 1 b t"

subsection \<open>Settling one identity\<close>

record Expect =
  ex_Build :: string
  ex_Generation :: u64

definition mismatch :: "Expect \<Rightarrow> string \<Rightarrow> u64 \<Rightarrow> bool" where
  "mismatch x build generation \<longleftrightarrow>
    (ex_Build x \<noteq> [] \<and> ex_Build x \<noteq> build) \<or> (ex_Generation x \<noteq> 0 \<and> ex_Generation x \<noteq> generation)"

partial_function (option) observeGone :: "world \<Rightarrow> identity \<Rightarrow> nat \<Rightarrow> ((rerr + Reap) \<times> nat) option" where
  "observeGone w i t =
    (case observe w i t of (r, t1) \<Rightarrow>
     (case r of
        Inr (reap, settled) \<Rightarrow>
          if settled then Some (Inr reap, t1)
          else if w_ended w t1 then Some (Inl [RootUnsettled, RootDeadline], t1 + 1)
          else if w_ended w (t1 + 1) then Some (Inl [RootUnsettled, RootDeadline], t1 + 2)
          else observeGone w i (t1 + 2)
      | Inl e \<Rightarrow>
          if w_ended w t1 then Some (Inl [RootUnsettled, RootDeadline, RootOther], t1 + 1)
          else if w_ended w (t1 + 1) then Some (Inl [RootUnsettled, RootDeadline, RootOther], t1 + 2)
          else observeGone w i (t1 + 2)))"

definition owner_identity :: "Owner \<Rightarrow> identity" where
  "owner_identity own = \<lparr> id_pid = own_PID own, id_start = own_Start own, id_boot = own_Boot own \<rparr>"

text \<open>\<open>dispatchDrain\<close>: the refusal, and the effect when the verb may have reached the wire.\<close>

definition dispatchDrain :: "boundary \<Rightarrow> identity \<Rightarrow> Health \<Rightarrow> nat \<Rightarrow> rerr option \<times> effect list" where
  "dispatchDrain b i h t =
    (case bd_drain b t of
       DrainRejected e \<Rightarrow> (Some e, [])
     | DrainUnsent e \<Rightarrow> (Some e, [])
     | DrainLanded \<Rightarrow> (None, [DrainSent t i h]))"

definition Drain :: "boundary \<Rightarrow> Expect \<Rightarrow> nat \<Rightarrow> (Health \<times> Reap) outcome" where
  "Drain b x t =
    (case pinned b t of
       (Inl e, t1) \<Rightarrow> Some (Inl e, [], t1)
     | (Inr (i, report), t1) \<Rightarrow>
         let before = healthFromReport report in
         if mismatch x (he_Build before) (he_Generation before) then Some (Inl [ErrWrongIncumbent], [], t1)
         else (case dispatchDrain b i before t1 of
             (Some e, es) \<Rightarrow> Some (Inl e, es, t1 + 1)
           | (None, es) \<Rightarrow>
               (case observeGone (bd_world b) i (t1 + 1) of
                  None \<Rightarrow> None
                | Some (Inl e, t2) \<Rightarrow> Some (Inl e, es, t2)
                | Some (Inr reap, t2) \<Rightarrow> Some (Inr (before, reap), es, t2))))"

definition owner_health :: "Owner \<Rightarrow> Health" where
  "owner_health own = \<lparr> he_Phase = PhaseOther [], he_Protocol = 0, he_Generation = own_Generation own, he_PID = own_PID own,
     he_Build = own_Build own \<rparr>"

definition Settle :: "boundary \<Rightarrow> Expect \<Rightarrow> nat \<Rightarrow> (Health \<times> Reap) outcome" where
  "Settle b x t =
    (case bd_owner b t of
       Inl e \<Rightarrow> Some (Inl e, [], t + 1)
     | Inr None \<Rightarrow> Some (Inl [ErrUnrecorded], [], t + 1)
     | Inr (Some own) \<Rightarrow>
         if mismatch x (own_Build own) (own_Generation own) then Some (Inl [ErrWrongIncumbent], [], t + 1)
         else (case observeGone (bd_world b) (owner_identity own) (t + 1) of
             None \<Rightarrow> None
           | Some (Inl e, t2) \<Rightarrow> Some (Inl e, [], t2)
           | Some (Inr reap, t2) \<Rightarrow> Some (Inr (owner_health own, reap), [], t2)))"

record incumbent =
  in_build :: string
  in_generation :: u64

definition pin :: "string \<Rightarrow> u64 \<Rightarrow> incumbent option" where
  "pin build generation = (if build = [] \<or> generation = 0 then None else Some \<lparr> in_build = build, in_generation = generation \<rparr>)"

definition expect :: "incumbent \<Rightarrow> Expect" where
  "expect n = \<lparr> ex_Build = in_build n, ex_Generation = in_generation n \<rparr>"

definition reap_rerr :: "reap_error \<Rightarrow> rerr" where
  "reap_rerr e = (case e of ErrUnsettled \<Rightarrow> [RootUnsettled] | ContextEnded \<Rightarrow> [RootDeadline] | _ \<Rightarrow> [RootOther])"

definition Terminate :: "bool \<Rightarrow> boundary \<Rightarrow> Expect \<Rightarrow> nat \<Rightarrow> (Health \<times> Reap) outcome" where
  "Terminate pidfd b x t =
    (case pin (ex_Build x) (ex_Generation x) of
       None \<Rightarrow> Some (Inl [ErrUnpinned], [], t)
     | Some target \<Rightarrow>
         (case bd_owner b t of
            Inl e \<Rightarrow> Some (Inl e, [], t + 1)
          | Inr None \<Rightarrow> Some (Inl [ErrUnrecorded], [], t + 1)
          | Inr (Some own) \<Rightarrow>
              if mismatch (expect target) (own_Build own) (own_Generation own) then Some (Inl [ErrWrongIncumbent], [], t + 1)
              else (case reapIdentity pidfd (bd_world b) (owner_identity own) 0 (t + 1) of
                  None \<Rightarrow> None
                | Some (Inl e, es, t2) \<Rightarrow> Some (Inl (reap_rerr e), map Sent es, t2)
                | Some (Inr reap, es, t2) \<Rightarrow> Some (Inr (owner_health own, reap), map Sent es, t2))))"

subsection \<open>The executable inventory (inventory.go)\<close>

text \<open>
  \<open>executableMatcher\<close>: the query itself and, when it resolves, what it resolves to. The outer option is the failure to
  resolve, the inner one the query that names no file.
\<close>

definition executableMatcher :: "string \<Rightarrow> string option option \<Rightarrow> (string \<Rightarrow> bool) option" where
  "executableMatcher path resolved =
    (case resolved of
       None \<Rightarrow> None
     | Some None \<Rightarrow> Some (\<lambda>candidate. candidate = path)
     | Some (Some r) \<Rightarrow> Some (\<lambda>candidate. candidate = path \<or> candidate = r))"

record report =
  rp_Matched :: "(identity \<times> string) list"
  rp_Unnameable :: "identity list"

text \<open>One process of the scan: nothing, a failure of the whole inventory, an unnameable process, a matched one.\<close>

datatype scanned = ScanSkip | ScanError | ScanUnnameable identity | ScanMatched identity string

datatype execRead = execResolved string | execSkipped | execUnnamed

definition readExecutable :: "exec_error + string \<Rightarrow> execRead option" where
  "readExecutable r =
    (case r of
       Inl ErrNoProcess \<Rightarrow> Some execSkipped
     | Inl errForeignProcess \<Rightarrow> Some execSkipped
     | Inl errUnresolvedExecutable \<Rightarrow> Some execUnnamed
     | Inl ExecFailed \<Rightarrow> None
     | Inr path \<Rightarrow> Some (execResolved path))"

definition scan_skips :: "(string \<Rightarrow> bool) \<Rightarrow> execRead \<Rightarrow> bool" where
  "scan_skips keep r = (case r of execSkipped \<Rightarrow> True | execResolved path \<Rightarrow> \<not> keep path | execUnnamed \<Rightarrow> False)"

definition scan_pid :: "boundary \<Rightarrow> (string \<Rightarrow> bool) \<Rightarrow> int \<Rightarrow> nat \<Rightarrow> scanned \<times> nat" where
  "scan_pid b matches_query pid t =
    (case readExecutable (bd_exec b t pid) of
       None \<Rightarrow> (ScanError, t + 1)
     | Some before \<Rightarrow>
         if scan_skips matches_query before then (ScanSkip, t + 1)
         else (case ProbeIdentity (bd_world b) pid (t + 1) of
             (Inl e, t1) \<Rightarrow> (ScanError, t1)
           | (Inr None, t1) \<Rightarrow> (ScanSkip, t1)
           | (Inr (Some i), t1) \<Rightarrow>
               (case before of
                  execResolved path \<Rightarrow>
                    (case readExecutable (bd_exec b t1 pid) of
                       None \<Rightarrow> (ScanError, t1 + 1)
                     | Some after \<Rightarrow>
                         if scan_skips (\<lambda>p. p = path) after then (ScanSkip, t1 + 1)
                         else (case ProbeIdentity (bd_world b) pid (t1 + 1) of
                             (Inl e, t2) \<Rightarrow> (ScanError, t2)
                           | (Inr None, t2) \<Rightarrow> (ScanSkip, t2)
                           | (Inr (Some i'), t2) \<Rightarrow> if matches i i' then (ScanMatched i path, t2) else (ScanSkip, t2)))
                | _ \<Rightarrow> (ScanUnnameable i, t1))))"

primrec scan_pids :: "boundary \<Rightarrow> (string \<Rightarrow> bool) \<Rightarrow> int list \<Rightarrow> nat \<Rightarrow> report option \<times> nat" where
  "scan_pids b q [] t = (Some \<lparr> rp_Matched = [], rp_Unnameable = [] \<rparr>, t)"
| "scan_pids b q (pid # pids) t =
    (case scan_pid b q pid t of (sc, t1) \<Rightarrow>
     if sc = ScanError then (None, t1)
     else (case scan_pids b q pids t1 of
        (None, t2) \<Rightarrow> (None, t2)
      | (Some r, t2) \<Rightarrow>
          (Some (case sc of
             ScanUnnameable i \<Rightarrow> r\<lparr>rp_Unnameable := i # rp_Unnameable r\<rparr>
           | ScanMatched i p \<Rightarrow> r\<lparr>rp_Matched := (i, p) # rp_Matched r\<rparr>
           | _ \<Rightarrow> r), t2)))"

definition ExecutableIdentities :: "boundary \<Rightarrow> string \<Rightarrow> nat \<Rightarrow> report option \<times> nat" where
  "ExecutableIdentities b path t =
    (case executableMatcher path (bd_resolved b t) of
       None \<Rightarrow> (None, t + 1)
     | Some q \<Rightarrow>
         (case bd_pids b (t + 1) of
            None \<Rightarrow> (None, t + 2)
          | Some pids \<Rightarrow>
              (case scan_pids b q pids (t + 2) of
                 (None, t1) \<Rightarrow> (None, t1)
               | (Some r, t1) \<Rightarrow>
                   (Some \<lparr> rp_Matched = sort_key (id_pid \<circ> fst) (rp_Matched r), rp_Unnameable = sort_key id_pid (rp_Unnameable r) \<rparr>, t1))))"

subsection \<open>Absence without a record\<close>

text \<open>The zero identity names nobody.\<close>

definition no_identity :: identity where
  "no_identity = \<lparr> id_pid = 0, id_start = 0, id_boot = 0 \<rparr>"

definition departed :: "boundary \<Rightarrow> identity \<Rightarrow> nat \<Rightarrow> rerr option \<times> nat" where
  "departed b i t =
    (if i = no_identity then (None, t)
     else case observe (bd_world b) i t of
       (Inl e, t1) \<Rightarrow> (Some [RootOther], t1)
     | (Inr (reap, settled), t1) \<Rightarrow> (if settled then None else Some [RootUnsettled], t1))"

definition inventoryClear :: "boundary \<Rightarrow> identity \<Rightarrow> nat \<Rightarrow> rerr option \<times> nat" where
  "inventoryClear b observed t =
    (case bd_program b of
       None \<Rightarrow> (None, t)
     | Some program \<Rightarrow>
         (case ExecutableIdentities b program t of
            (None, t1) \<Rightarrow> (Some [RootOther], t1)
          | (Some found, t1) \<Rightarrow>
              if rp_Matched found \<noteq> [] \<or> list_ex (\<lambda>husk. matches husk observed) (rp_Unnameable found) then (Some [RootUnsettled], t1)
              else departed b observed t1))"

definition of_clear :: "rerr option \<times> nat \<Rightarrow> unit outcome" where
  "of_clear r = (case r of (None, t) \<Rightarrow> Some (Inr (), [], t) | (Some e, t) \<Rightarrow> Some (Inl e, [], t))"

subsection \<open>Readiness (waitready.go)\<close>

definition wait_failed :: "boundary \<Rightarrow> rerr \<Rightarrow> nat \<Rightarrow> (rerr + Health) \<times> nat" where
  "wait_failed b e t = (Inl (if Is e WireDraining \<or> bd_failed b t then RootDraining # e else e), t + 1)"

definition waitReadyOnce :: "boundary \<Rightarrow> nat \<Rightarrow> (rerr + Health) \<times> nat" where
  "waitReadyOnce b t =
    (case bd_acquire b t of
       Inl e \<Rightarrow> (Inl e, t + 1)
     | Inr peer \<Rightarrow>
         (case bd_ready b (t + 1) of
            Some e \<Rightarrow> wait_failed b e (t + 2)
          | None \<Rightarrow>
              (case bd_health b (t + 2) of
                 Inr report \<Rightarrow> (Inr (healthFromReport report), t + 3)
               | Inl e \<Rightarrow> wait_failed b e (t + 3))))"

partial_function (option) WaitReady :: "boundary \<Rightarrow> nat \<Rightarrow> ((rerr + Health) \<times> nat) option" where
  "WaitReady b t =
    (case waitReadyOnce b t of (r, t1) \<Rightarrow>
     (case r of
        Inr h \<Rightarrow> Some (Inr h, t1)
      | Inl e \<Rightarrow>
          if spent (bd_world b) t1 e then Some (Inl (e @ [RootDeadline]), t1 + 1)
          else if \<not> Is e ErrAbsent \<and> \<not> Is e RootDraining then Some (Inl e, t1 + 1)
          else if w_ended (bd_world b) (t1 + 1) then Some (Inl (e @ [RootDeadline]), t1 + 2)
          else WaitReady b (t1 + 2)))"


subsection \<open>Time and context\<close>

lemma derive_simps [simp]:
  "w_table (derive d w) = w_table w" "w_boot (derive d w) = w_boot w" "w_self (derive d w) = w_self w"
  "w_bootErr (derive d w) = w_bootErr w" "w_probeErr (derive d w) = w_probeErr w" "w_now (derive d w) = w_now w"
  "w_ended (derive d w) t \<longleftrightarrow> d \<le> w_now w t \<or> w_ended w t"
  by (simp_all add: derive_def)

lemma alive_derive [simp]: "alive (derive d w) = alive w"
  by (auto simp: alive_def fun_eq_iff)

lemma persistent_derive [simp]: "persistent (derive d w) = persistent w"
  by (simp add: persistent_def fun_eq_iff)

lemma born_derive [simp]: "born (derive d w) = born w"
  by (simp add: born_def fun_eq_iff)

lemma share_ctx_derive: "\<exists>d. share_ctx part w t = derive d w"
  by (auto simp: share_ctx_def Let_def)

lemma with_ctx_simps [simp]:
  "bd_world (with_ctx w b) = w" "bd_acquire (with_ctx w b) = bd_acquire b" "bd_health (with_ctx w b) = bd_health b"
  "bd_failed (with_ctx w b) = bd_failed b" "bd_drain (with_ctx w b) = bd_drain b" "bd_owner (with_ctx w b) = bd_owner b"
  "bd_probeErr (with_ctx w b) = bd_probeErr b"
  by (simp_all add: with_ctx_def)

text \<open>The identity is known not to run: it is of another boot, or some instant of the interval saw it not alive.\<close>

definition gone :: "world \<Rightarrow> identity \<Rightarrow> nat \<Rightarrow> nat \<Rightarrow> bool" where
  "gone w i t t' \<longleftrightarrow> id_boot i \<noteq> w_boot w \<or> (\<exists>u\<ge>t. u < t' \<and> \<not> alive w u i)"

lemma gone_mono: "gone w i t t' \<Longrightarrow> s \<le> t \<Longrightarrow> t' \<le> s' \<Longrightarrow> gone w i s s'"
  unfolding gone_def by (meson le_trans less_le_trans)

lemma gone_derive [simp]: "gone (derive d w) = gone w"
  by (auto simp: gone_def fun_eq_iff)

lemma observeGone_spec:
  assumes "observeGone w i t = Some r"
  shows "t < snd r \<and> (\<forall>reap. fst r = Inr reap \<longrightarrow> gone w i t (snd r))"
  using assms
proof (rule observeGone.raw_induct [where P = "\<lambda>w i t r. t < snd r \<and> (\<forall>reap. fst r = Inr reap \<longrightarrow> gone w i t (snd r))", rotated], goal_cases)
  case (1 f w i t r)
  obtain q t1 where q: "observe w i t = (q, t1)" by fastforce
  have t: "t < t1" using observe_time [OF q] .
  have rec: "t < snd r \<and> (\<forall>reap. fst r = Inr reap \<longrightarrow> gone w i t (snd r))" if "f w i (t1 + 2) = Some r"
    using 1(1) [OF that] t gone_mono [of w i "t1 + 2" "snd r" t "snd r"] by auto
  show ?case
  proof (cases q)
    case (Inl e)
    then show ?thesis using 1(2) q t rec by (auto split: if_splits)
  next
    case (Inr p)
    obtain reap settled where p: "p = (reap, settled)" by fastforce
    show ?thesis
    proof (cases settled)
      case True
      then have "gone w i t t1" using observe_settled [of w i t reap t1] q Inr p by (simp add: gone_def)
      then show ?thesis using 1(2) q Inr p True t by auto
    next
      case False
      then show ?thesis using 1(2) q Inr p t rec by (auto split: if_splits)
    qed
  qed
qed

lemma observeGone_total:
  assumes "\<forall>t\<ge>T. w_ended w t"
  shows "\<exists>r. observeGone w i t = Some r"
proof (induction "T - t" arbitrary: t rule: less_induct)
  case less
  obtain q t1 where q: "observe w i t = (q, t1)" by fastforce
  show ?case
  proof (cases "T \<le> t1")
    case True
    then show ?thesis using assms q by (subst observeGone.simps) (auto split: sum.splits)
  next
    case False
    then have "\<exists>r. observeGone w i (t1 + 2) = Some r" using less [of "t1 + 2"] observe_time [OF q] by simp
    then show ?thesis using q by (subst observeGone.simps) (auto split: sum.splits)
  qed
qed

subsection \<open>The pinned session\<close>

lemma ProbeIdentity_spec:
  assumes "ProbeIdentity w pid t = (r, t')"
  shows "t < t' \<and> (\<forall>i. r = Inr (Some i) \<longrightarrow> id_pid i = pid \<and> id_boot i = w_boot w
    \<and> (\<exists>p. w_table w t pid = Some p \<and> pi_start (pr_info p) = id_start i))"
  using assms by (auto simp: ProbeIdentity_def dest!: probe_Info split: probe_answer.splits if_splits)

text \<open>What a pin says: the process had the PID the peer attested on its session, at an instant of the attach, and is not the caller.\<close>

definition attested :: "world \<Rightarrow> identity \<Rightarrow> Health \<Rightarrow> nat \<Rightarrow> nat \<Rightarrow> bool" where
  "attested w i h t t' \<longleftrightarrow> he_PID h = id_pid i \<and> id_pid i \<noteq> w_self w \<and> id_boot i = w_boot w
    \<and> (\<exists>u\<ge>t. u < t' \<and> (\<exists>p. w_table w u (id_pid i) = Some p \<and> pi_start (pr_info p) = id_start i))"

lemma attested_mono: "attested w i h t t' \<Longrightarrow> s \<le> t \<Longrightarrow> t' \<le> s' \<Longrightarrow> attested w i h s s'"
  unfolding attested_def by (meson le_trans less_le_trans)

lemma attested_derive [simp]: "attested (derive d w) = attested w"
  by (auto simp: attested_def fun_eq_iff)

lemma attested_report [simp]: "attested w i (healthFromReport h) = attested w i h"
  by (auto simp: attested_def healthFromReport_def fun_eq_iff)

lemma assemblePin_spec:
  assumes "assemblePin b peer t = (r, t')"
  shows "t \<le> t' \<and> (\<forall>i h. r = Inr (i, h) \<longrightarrow> attested (bd_world b) i h t t')"
proof -
  obtain q t1 where q: "ProbeIdentity (bd_world b) peer t = (q, t1)" by fastforce
  show ?thesis
    using assms q ProbeIdentity_spec [OF q] unfolding assemblePin_def
    by (auto simp: attested_def split: if_splits sum.splits option.splits)
qed

lemma ask_spec:
  assumes "ask n b t = (r, t')"
  shows "t < t' \<and> (\<forall>i h. r = Inr (i, h) \<longrightarrow> attested (bd_world b) i h t t')"
  using assms
proof (induction n arbitrary: t)
  case 0
  show ?case
  proof (cases "bd_acquire b t")
    case (Inl e)
    then show ?thesis using 0 by auto
  next
    case (Inr peer)
    obtain q t1 where q: "assemblePin b peer (t + 1) = (q, t1)" by fastforce
    show ?thesis
      using 0 Inr q assemblePin_spec [OF q] attested_mono [of "bd_world b" _ _ "t + 1" t1 t t1]
      by (cases q) auto
  qed
next
  case (Suc n)
  show ?case
  proof (cases "bd_acquire b t")
    case (Inl e)
    then show ?thesis using Suc(2) by auto
  next
    case (Inr peer)
    obtain q t1 where q: "assemblePin b peer (t + 1) = (q, t1)" by fastforce
    have t1: "t < t1" using assemblePin_spec [OF q] by simp
    have ?thesis if "ask n b (t1 + 1) = (r, t')"
      using Suc(1) [OF that] t1 attested_mono [of "bd_world b" _ _ "t1 + 1" t' t t'] by auto
    then show ?thesis
      using Suc(2) Inr q assemblePin_spec [OF q] attested_mono [of "bd_world b" _ _ "t + 1" t1 t t1]
      by (cases q) (auto split: if_splits)
  qed
qed

lemmas pinned_spec = ask_spec [of 1, folded pinned_def]


subsection \<open>The verbs\<close>

lemma Drain_spec:
  assumes "Drain b x t = Some (r, es, t')"
  shows "t < t' \<and> (\<forall>e\<in>set es. \<exists>u i h. e = DrainSent u i h \<and> t \<le> u \<and> attested (bd_world b) i h t u
      \<and> \<not> mismatch x (he_Build h) (he_Generation h))
    \<and> (\<forall>h reap. r = Inr (h, reap) \<longrightarrow> (\<exists>i. attested (bd_world b) i h t t' \<and> \<not> mismatch x (he_Build h) (he_Generation h)
        \<and> gone (bd_world b) i t t'))"
proof -
  obtain q t1 where q: "pinned b t = (q, t1)" by fastforce
  note ps = pinned_spec [OF q]
  show ?thesis
  proof (cases q)
    case (Inl e)
    then show ?thesis using assms q ps by (auto simp: Drain_def)
  next
    case (Inr p)
    obtain i report where p: "p = (i, report)" by fastforce
    let ?h = "healthFromReport report"
    have at: "t < t1" "attested (bd_world b) i ?h t t1" using ps Inr p by auto
    show ?thesis
    proof (cases "mismatch x (he_Build ?h) (he_Generation ?h)")
      case True
      then show ?thesis using assms q Inr p at by (auto simp: Drain_def)
    next
      case False
      obtain d es1 where d: "dispatchDrain b i ?h t1 = (d, es1)" by fastforce
      have es1: "set es1 \<subseteq> {DrainSent t1 i ?h}" using d by (auto simp: dispatchDrain_def split: drain_answer.splits)
      show ?thesis
      proof (cases d)
        case (Some e)
        then show ?thesis using assms q Inr p False d at es1 by (auto simp: Drain_def)
      next
        case None
        obtain g t2 where g: "observeGone (bd_world b) i (t1 + 1) = Some (g, t2)"
          using assms q Inr p False d None by (auto simp: Drain_def split: option.splits)
        have gs: "t1 + 1 < t2" "\<And>reap. g = Inr reap \<Longrightarrow> gone (bd_world b) i (t1 + 1) t2" using observeGone_spec [OF g] by auto
        have "es = es1" "t' = t2" "(\<exists>e. g = Inl e \<and> r = Inl e) \<or> (\<exists>reap. g = Inr reap \<and> r = Inr (?h, reap))"
          using assms q Inr p False d None g by (auto simp: Drain_def split: sum.splits)
        then show ?thesis
          using at es1 gs False gone_mono [of "bd_world b" i "t1 + 1" t2 t t2] attested_mono [of "bd_world b" i ?h t t1 t t2]
          by auto
      qed
    qed
  qed
qed

lemma Settle_spec:
  assumes "Settle b x t = Some (r, es, t')"
  shows "t < t' \<and> es = [] \<and> (\<forall>y. r = Inr y \<longrightarrow> (\<exists>own. bd_owner b t = Inr (Some own)
    \<and> \<not> mismatch x (own_Build own) (own_Generation own) \<and> gone (bd_world b) (owner_identity own) t t'))"
proof (cases "\<exists>own. bd_owner b t = Inr (Some own) \<and> \<not> mismatch x (own_Build own) (own_Generation own)")
  case False
  then show ?thesis using assms by (auto simp: Settle_def split: sum.splits option.splits if_splits)
next
  case True
  then obtain own where own: "bd_owner b t = Inr (Some own)" "\<not> mismatch x (own_Build own) (own_Generation own)" by blast
  then obtain g where g: "observeGone (bd_world b) (owner_identity own) (t + 1) = Some (g, t')"
      "es = []" "\<And>y. r = Inr y \<Longrightarrow> \<exists>reap. g = Inr reap"
    using assms by (auto simp: Settle_def split: sum.splits option.splits)
  then show ?thesis
    using observeGone_spec [OF g(1)] own gone_mono [of "bd_world b" "owner_identity own" "t + 1" t' t t'] by fastforce
qed

text \<open>A record read before \<open>u\<close> names the exact process that the signal reaches.\<close>

definition signal_exact :: "boundary \<Rightarrow> string \<Rightarrow> u64 \<Rightarrow> nat \<Rightarrow> nat \<Rightarrow> nat \<Rightarrow> bool" where
  "signal_exact b build generation t u n \<longleftrightarrow>
    (\<exists>v own. t \<le> v \<and> v < u \<and> bd_owner b v = Inr (Some own) \<and> own_Build own = build \<and> own_Generation own = generation
      \<and> own_Boot own = w_boot (bd_world b) \<and> own_PID own > 1 \<and> own_PID own \<noteq> w_self (bd_world b)
      \<and> (\<exists>p. w_table (bd_world b) u (own_PID own) = Some p \<and> pr_serial p = n \<and> pi_start (pr_info p) = own_Start own))"

definition worlds_ok :: "boundary \<Rightarrow> bool" where
  "worlds_ok b \<longleftrightarrow> (\<forall>pid. persistent (bd_world b) pid)
    \<and> (\<forall>v own. bd_owner b v = Inr (Some own) \<longrightarrow> born (bd_world b) v (owner_identity own))"

lemma expect_mismatch:
  assumes "pin (ex_Build x) (ex_Generation x) = Some target"
  shows "mismatch (expect target) build generation \<longleftrightarrow> build \<noteq> ex_Build x \<or> generation \<noteq> ex_Generation x"
  using assms by (auto simp: pin_def expect_def mismatch_def split: if_splits)

lemma reap_events_later:
  assumes "reapIdentity pidfd w i 0 t = Some (v, es, t')" "e \<in> set es"
  shows "\<exists>u sig n. e = Signalled u sig n \<and> t < u"
proof -
  have g: "reapIdentityWithGrace pidfd w i 0 (graceShare w t) (t + 1) = Some (v, es, t')"
    using assms(1) by (simp add: reapIdentity_def)
  then show ?thesis
  proof (cases rule: reapIdentity_single)
    case early
    then show ?thesis using assms(2) by simp
  next
    case (orphan h info)
    then show ?thesis using reapOrphan_events [OF orphan(7) assms(2) orphan(4)] by auto
  qed
qed

lemma Terminate_spec:
  assumes "Terminate True b x t = Some (r, es, t')" and ok: "worlds_ok b"
  shows "t \<le> t' \<and> (\<forall>e\<in>set es. \<exists>u sig n. e = Sent (Signalled u sig n) \<and> signal_exact b (ex_Build x) (ex_Generation x) t u n)
    \<and> (es \<noteq> [] \<longrightarrow> ex_Build x \<noteq> [] \<and> ex_Generation x \<noteq> 0)
    \<and> (\<forall>y. r = Inr y \<longrightarrow> (\<exists>own. bd_owner b t = Inr (Some own) \<and> own_Build own = ex_Build x
         \<and> own_Generation own = ex_Generation x \<and> gone (bd_world b) (owner_identity own) t t'))"
proof (cases "\<exists>target own. pin (ex_Build x) (ex_Generation x) = Some target \<and> bd_owner b t = Inr (Some own)
    \<and> \<not> mismatch (expect target) (own_Build own) (own_Generation own)")
  case False
  then show ?thesis using assms(1) by (auto simp: Terminate_def split: sum.splits option.splits if_splits)
next
  case True
  then obtain target own where own: "pin (ex_Build x) (ex_Generation x) = Some target" "bd_owner b t = Inr (Some own)"
      "\<not> mismatch (expect target) (own_Build own) (own_Generation own)" by blast
  then have eq: "own_Build own = ex_Build x" "own_Generation own = ex_Generation x" "ex_Build x \<noteq> []" "ex_Generation x \<noteq> 0"
    using expect_mismatch [OF own(1)] by (auto simp: pin_def split: if_splits)
  let ?i = "owner_identity own"
  obtain v es1 where g: "reapIdentity True (bd_world b) ?i 0 (t + 1) = Some (v, es1, t')" "es = map Sent es1"
      "\<And>y. r = Inr y \<Longrightarrow> \<exists>reap. v = Inr reap"
    using assms(1) own by (auto simp: Terminate_def split: sum.splits option.splits)
  have pers: "persistent (bd_world b) (id_pid ?i)" and born: "born (bd_world b) t ?i"
    using ok own(2) by (auto simp: worlds_ok_def)
  have "\<exists>u sig n. e = Sent (Signalled u sig n) \<and> signal_exact b (ex_Build x) (ex_Generation x) t u n" if e: "e \<in> set es" for e
  proof -
    obtain e1 where e1: "e1 \<in> set es1" "e = Sent e1" using e g(2) by auto
    obtain u sig n where u: "e1 = Signalled u sig n" "t + 1 < u" using reap_events_later [OF g(1) e1(1)] by blast
    have "signal_exact b (ex_Build x) (ex_Generation x) t u n"
      unfolding signal_exact_def
      using reap_signals_exact [OF pers g(1) e1(1) [unfolded u(1)]] own(2) eq u(2)
      by (intro exI [of _ t] exI [of _ own]) (auto simp: owner_identity_def)
    then show ?thesis using e1(2) u(1) by blast
  qed
  moreover have "gone (bd_world b) ?i t t'" if r: "r = Inr y" for y
  proof -
    obtain reap where "v = Inr reap" using g(3) [OF r] by blast
    then have "reapIdentity True (bd_world b) ?i 0 (t + 1) = Some (Inr reap, es1, t')" using g(1) by simp
    from reap_verdict_proof [OF pers born_later [OF born pers] this] show ?thesis
      unfolding gone_def by (cases "reap = ReapCrossBoot") (auto dest: Suc_leD)
  qed
  ultimately show ?thesis using own(2) eq reap_time [OF g(1)] by auto
qed

lemma Terminate_gone:
  assumes "Terminate pidfd b x t = Some (r, es, t')" and ok: "pidfd \<longrightarrow> worlds_ok b"
  shows "t \<le> t' \<and> (\<forall>y. r = Inr y \<longrightarrow> (\<exists>own. bd_owner b t = Inr (Some own) \<and> own_Build own = ex_Build x
         \<and> own_Generation own = ex_Generation x \<and> gone (bd_world b) (owner_identity own) t t'))"
proof (cases "\<exists>target own. pin (ex_Build x) (ex_Generation x) = Some target \<and> bd_owner b t = Inr (Some own)
    \<and> \<not> mismatch (expect target) (own_Build own) (own_Generation own)")
  case False
  then show ?thesis using assms(1) by (auto simp: Terminate_def split: sum.splits option.splits if_splits)
next
  case True
  then obtain target own where own: "pin (ex_Build x) (ex_Generation x) = Some target" "bd_owner b t = Inr (Some own)"
      "\<not> mismatch (expect target) (own_Build own) (own_Generation own)" by blast
  let ?i = "owner_identity own"
  obtain v es1 where g: "reapIdentity pidfd (bd_world b) ?i 0 (t + 1) = Some (v, es1, t')" "\<And>y. r = Inr y \<Longrightarrow> \<exists>reap. v = Inr reap"
    using assms(1) own by (auto simp: Terminate_def split: sum.splits option.splits)
  have pb: "pidfd \<longrightarrow> persistent (bd_world b) (id_pid ?i) \<and> born (bd_world b) (t + 1) ?i"
    using ok own(2) born_later [of "bd_world b" t ?i "t + 1"] by (auto simp: worlds_ok_def)
  have "gone (bd_world b) ?i t t'" if r: "r = Inr y" for y
  proof -
    obtain reap where "v = Inr reap" using g(2) [OF r] by blast
    then have "reapIdentity pidfd (bd_world b) ?i 0 (t + 1) = Some (Inr reap, es1, t')" using g(1) by simp
    from reap_verdict_gone [OF pb this] show ?thesis
      unfolding gone_def by (cases "reap = ReapCrossBoot") (auto dest: Suc_leD)
  qed
  then show ?thesis using own expect_mismatch [OF own(1)] reap_time [OF g(1)] by auto
qed

subsection \<open>The inventory\<close>

lemma scan_pid_time: "scan_pid b q pid t = (sc, t') \<Longrightarrow> t < t'"
  unfolding scan_pid_def
  by (auto dest!: ProbeIdentity_spec split: option.splits if_splits sum.splits prod.splits execRead.splits)

lemma scan_pids_time: "scan_pids b q pids t = (r, t') \<Longrightarrow> t \<le> t'"
proof (induction pids arbitrary: t r t')
  case (Cons pid pids)
  obtain sc t1 where sc: "scan_pid b q pid t = (sc, t1)" by fastforce
  obtain r2 t2 where r2: "scan_pids b q pids t1 = (r2, t2)" by fastforce
  have "t < t1" "t1 \<le> t2" using scan_pid_time [OF sc] Cons(1) [OF r2] by auto
  then show ?case using Cons(2) sc r2 by (auto split: if_splits option.splits)
qed simp

text \<open>One process keeps its PID, its instance and what reading its executable answers, throughout an interval.\<close>

definition steady :: "boundary \<Rightarrow> identity \<Rightarrow> exec_error + string \<Rightarrow> nat \<Rightarrow> nat \<Rightarrow> bool" where
  "steady b i ex t t' \<longleftrightarrow> id_boot i = w_boot (bd_world b) \<and> (\<forall>u\<ge>t. u < t' \<longrightarrow> bd_exec b u (id_pid i) = ex
    \<and> (\<exists>p. w_table (bd_world b) u (id_pid i) = Some p \<and> pi_start (pr_info p) = id_start i))"

lemma steady_mono: "steady b i ex t t' \<Longrightarrow> t \<le> s \<Longrightarrow> s' \<le> t' \<Longrightarrow> steady b i ex s s'"
  by (auto simp: steady_def)

lemma steady_probe:
  assumes "ProbeIdentity (bd_world b) (id_pid i) u = (r, u')" "steady b i ex t t'" "t \<le> u" "u < t'"
  shows "r = Inl () \<or> r = Inr (Some i)"
  using assms by (auto simp: ProbeIdentity_def probe_def steady_def split: option.splits if_splits)

lemma scan_pid_matched:
  assumes "scan_pid b q (id_pid i) t = (sc, t')" "steady b i (Inr path) t t'" "q path" "sc \<noteq> ScanError"
  shows "sc = ScanMatched i path"
proof -
  have t: "t < t'" using scan_pid_time [OF assms(1)] .
  obtain r1 t1 where r1: "ProbeIdentity (bd_world b) (id_pid i) (t + 1) = (r1, t1)" by fastforce
  obtain r2 t2 where r2: "ProbeIdentity (bd_world b) (id_pid i) (t1 + 1) = (r2, t2)" by fastforce
  have e0: "bd_exec b t (id_pid i) = Inr path" using assms(2) t by (simp add: steady_def)
  have t1: "t + 1 < t1" "t1 + 1 < t2" using ProbeIdentity_spec [OF r1] ProbeIdentity_spec [OF r2] by simp_all
  have le1: "t1 \<le> t'"
    using assms(1,3) e0 r1 r2 t1
    by (auto simp: scan_pid_def readExecutable_def scan_skips_def split: sum.splits option.splits if_splits)
  then have "r1 = Inl () \<or> r1 = Inr (Some i)" using steady_probe [OF r1 assms(2)] t1 by simp
  then have r1': "r1 = Inr (Some i)" using assms(1,3,4) e0 r1 by (auto simp: scan_pid_def readExecutable_def scan_skips_def)
  have "t1 < t'"
    using assms(1,3) e0 r1 r1' r2 t1
    by (auto simp: scan_pid_def readExecutable_def scan_skips_def split: sum.splits option.splits if_splits exec_error.splits)
  then have e1: "bd_exec b t1 (id_pid i) = Inr path" using assms(2) t1 by (simp add: steady_def)
  have le2: "t2 \<le> t'"
    using assms(1,3) e0 e1 r1 r1' r2 by (auto simp: scan_pid_def readExecutable_def scan_skips_def split: sum.splits option.splits if_splits)
  then have "r2 = Inl () \<or> r2 = Inr (Some i)" using steady_probe [OF r2 assms(2)] t1 by simp
  then show ?thesis
    using assms(1,3,4) e0 e1 r1 r1' r2 by (auto simp: scan_pid_def readExecutable_def scan_skips_def matches_def)
qed

lemma scan_pid_unnameable:
  assumes "scan_pid b q (id_pid i) t = (sc, t')" "steady b i (Inl errUnresolvedExecutable) t t'" "sc \<noteq> ScanError"
  shows "sc = ScanUnnameable i"
proof -
  have t: "t < t'" using scan_pid_time [OF assms(1)] .
  obtain r1 t1 where r1: "ProbeIdentity (bd_world b) (id_pid i) (t + 1) = (r1, t1)" by fastforce
  have e0: "bd_exec b t (id_pid i) = Inl errUnresolvedExecutable" using assms(2) t by (simp add: steady_def)
  have t1: "t + 1 < t1" using ProbeIdentity_spec [OF r1] by simp
  have "t1 = t'"
    using assms(1) e0 r1 by (auto simp: scan_pid_def readExecutable_def scan_skips_def split: sum.splits option.splits)
  then have "r1 = Inl () \<or> r1 = Inr (Some i)" using steady_probe [OF r1 assms(2)] t1 by simp
  then show ?thesis using assms(1,3) e0 r1 by (auto simp: scan_pid_def readExecutable_def scan_skips_def)
qed

lemma scan_pid_sound:
  assumes "scan_pid b q pid t = (ScanMatched i path, t')"
  shows "q path \<and> id_pid i = pid \<and> id_boot i = w_boot (bd_world b) \<and> bd_exec b t pid = Inr path
    \<and> (\<exists>p. w_table (bd_world b) (t + 1) pid = Some p \<and> pi_start (pr_info p) = id_start i)"
proof -
  obtain r1 t1 where r1: "ProbeIdentity (bd_world b) pid (t + 1) = (r1, t1)" by fastforce
  show ?thesis
    using assms r1 ProbeIdentity_spec [OF r1]
    by (auto simp: scan_pid_def readExecutable_def scan_skips_def
        split: option.splits if_splits sum.splits prod.splits execRead.splits exec_error.splits)
qed

lemma scan_pids_complete:
  assumes "scan_pids b q pids t = (Some r, t')" "id_pid i \<in> set pids" "steady b i ex t t'"
  shows "(\<forall>path. ex = Inr path \<and> q path \<longrightarrow> (i, path) \<in> set (rp_Matched r))
    \<and> (ex = Inl errUnresolvedExecutable \<longrightarrow> i \<in> set (rp_Unnameable r))"
  using assms
proof (induction pids arbitrary: t r t')
  case (Cons pid pids)
  obtain sc t1 where sc: "scan_pid b q pid t = (sc, t1)" by fastforce
  obtain r2 where r2: "scan_pids b q pids t1 = (Some r2, t')" and ne: "sc \<noteq> ScanError"
    and r: "r = (case sc of ScanUnnameable i \<Rightarrow> r2\<lparr>rp_Unnameable := i # rp_Unnameable r2\<rparr>
           | ScanMatched i p \<Rightarrow> r2\<lparr>rp_Matched := (i, p) # rp_Matched r2\<rparr> | _ \<Rightarrow> r2)"
    using Cons(2) sc by (auto split: if_splits option.splits prod.splits)
  have keep: "set (rp_Matched r2) \<subseteq> set (rp_Matched r)" "set (rp_Unnameable r2) \<subseteq> set (rp_Unnameable r)"
    using r by (auto split: scanned.splits)
  have ts: "t < t1" "t1 \<le> t'" using scan_pid_time [OF sc] scan_pids_time [OF r2] by auto
  show ?case
  proof (cases "pid = id_pid i")
    case True
    have st: "steady b i ex t t1" using steady_mono [OF Cons(4)] ts by simp
    show ?thesis
      using scan_pid_matched [OF sc [unfolded True]] scan_pid_unnameable [OF sc [unfolded True]] st ne r by auto
  next
    case False
    then show ?thesis
      using Cons(1) [OF r2 _ steady_mono [OF Cons(4)]] Cons(3) ts keep by auto
  qed
qed simp

lemma scan_pids_sound:
  assumes "scan_pids b q pids t = (Some r, t')" "(i, path) \<in> set (rp_Matched r)"
  shows "q path \<and> id_boot i = w_boot (bd_world b) \<and> (\<exists>u\<ge>t. u < t' \<and> bd_exec b u (id_pid i) = Inr path
    \<and> (\<exists>p. w_table (bd_world b) (u + 1) (id_pid i) = Some p \<and> pi_start (pr_info p) = id_start i))"
  using assms
proof (induction pids arbitrary: t r t')
  case (Cons pid pids)
  obtain sc t1 where sc: "scan_pid b q pid t = (sc, t1)" by fastforce
  obtain r2 where r2: "scan_pids b q pids t1 = (Some r2, t')"
    and r: "(i, path) \<in> set (rp_Matched r2) \<or> sc = ScanMatched i path"
    using Cons(2,3) sc by (auto split: if_splits option.splits prod.splits scanned.splits)
  have ts: "t < t1" "t1 \<le> t'" using scan_pid_time [OF sc] scan_pids_time [OF r2] by auto
  from r show ?case
  proof
    assume "(i, path) \<in> set (rp_Matched r2)"
    from Cons(1) [OF r2 this] show ?thesis using ts by (meson le_trans less_imp_le)
  next
    assume "sc = ScanMatched i path"
    from scan_pid_sound [OF sc [unfolded this]] show ?thesis using ts by (auto intro!: exI [of _ t])
  qed
qed simp

lemma ExecutableIdentities_scan:
  assumes "ExecutableIdentities b path t = (Some r, t')"
  obtains q pids r' where "executableMatcher path (bd_resolved b t) = Some q" "bd_pids b (t + 1) = Some pids"
    "scan_pids b q pids (t + 2) = (Some r', t')" "set (rp_Matched r) = set (rp_Matched r')"
    "set (rp_Unnameable r) = set (rp_Unnameable r')" "sorted (map (id_pid \<circ> fst) (rp_Matched r))"
  using assms unfolding ExecutableIdentities_def
  by (auto split: option.splits prod.splits)

lemma executableMatcher_form:
  "executableMatcher path res = Some q \<Longrightarrow> q p \<longleftrightarrow> p = path \<or> res = Some (Some p)"
  by (auto simp: executableMatcher_def split: option.splits)

text \<open>
  The executable inventory neither misses nor invents. When it answers, every process on the list it was given that
  stays one instance and keeps running the queried executable (under the path as written or as it resolves) is reported
  with exactly its instance and path, and every one that stays unnameable is reported as unnameable; every process it
  does report was seen with that PID, start stamp and boot while its executable read as the queried one; and the report
  is in order of PID.
\<close>

lemma inventory_exact:
  assumes "ExecutableIdentities b path t = (Some r, t')" and "bd_pids b (t + 1) = Some pids"
  shows "(\<forall>i p. id_pid i \<in> set pids \<and> (p = path \<or> bd_resolved b t = Some (Some p)) \<and> steady b i (Inr p) t t'
      \<longrightarrow> (i, p) \<in> set (rp_Matched r))
    \<and> (\<forall>i. id_pid i \<in> set pids \<and> steady b i (Inl errUnresolvedExecutable) t t' \<longrightarrow> i \<in> set (rp_Unnameable r))
    \<and> (\<forall>i p. (i, p) \<in> set (rp_Matched r) \<longrightarrow> (p = path \<or> bd_resolved b t = Some (Some p))
      \<and> id_boot i = w_boot (bd_world b) \<and> (\<exists>u\<ge>t. u < t' \<and> bd_exec b u (id_pid i) = Inr p
        \<and> (\<exists>pr. w_table (bd_world b) (u + 1) (id_pid i) = Some pr \<and> pi_start (pr_info pr) = id_start i)))
    \<and> sorted (map (id_pid \<circ> fst) (rp_Matched r))"
proof -
  obtain q r' where q: "executableMatcher path (bd_resolved b t) = Some q"
      "scan_pids b q pids (t + 2) = (Some r', t')" and sets: "set (rp_Matched r) = set (rp_Matched r')"
      "set (rp_Unnameable r) = set (rp_Unnameable r')" "sorted (map (id_pid \<circ> fst) (rp_Matched r))"
    using assms(2) by (auto intro: ExecutableIdentities_scan [OF assms(1)])
  have later: "steady b i ex (t + 2) t'" if "steady b i ex t t'" for i ex using steady_mono [OF that] by simp
  show ?thesis
  proof (intro conjI allI impI sets(3))
    fix i p
    { assume "id_pid i \<in> set pids \<and> (p = path \<or> bd_resolved b t = Some (Some p)) \<and> steady b i (Inr p) t t'"
      then show "(i, p) \<in> set (rp_Matched r)"
        using scan_pids_complete [OF q(2) _ later] executableMatcher_form [OF q(1)] sets(1) by blast }
    { assume "id_pid i \<in> set pids \<and> steady b i (Inl errUnresolvedExecutable) t t'"
      then show "i \<in> set (rp_Unnameable r)" using scan_pids_complete [OF q(2) _ later] sets(2) by blast }
    { assume m: "(i, p) \<in> set (rp_Matched r)"
      note sound = scan_pids_sound [OF q(2) m [unfolded sets(1)]]
      then show "p = path \<or> bd_resolved b t = Some (Some p)" "id_boot i = w_boot (bd_world b)"
        using executableMatcher_form [OF q(1)] by blast+
      show "\<exists>u\<ge>t. u < t' \<and> bd_exec b u (id_pid i) = Inr p
        \<and> (\<exists>pr. w_table (bd_world b) (u + 1) (id_pid i) = Some pr \<and> pi_start (pr_info pr) = id_start i)"
        using sound by (meson add_leD1) }
  qed
qed

text \<open>A machine on which the daemon of \<open>quiet_identity\<close> serves until instant 9, with PID 43 running something else.\<close>

definition quiet_boundary :: boundary where
  "quiet_boundary = \<lparr> bd_world = quiet_world, bd_acquire = (\<lambda>t. if t < 3 then Inr 42 else Inl [ErrAbsent]),
     bd_health = (\<lambda>_. Inr \<lparr> he_Phase = PhaseReady, he_Protocol = ProtocolVersion, he_Generation = 3, he_PID = 42, he_Build = ''v1'' \<rparr>),
     bd_failed = (\<lambda>_. False), bd_drain = (\<lambda>_. DrainLanded),
     bd_owner = (\<lambda>_. Inr (Some \<lparr> own_PID = 42, own_Start = 7, own_Boot = 9, own_Generation = 3, own_Build = ''v1'' \<rparr>)),
     bd_program = Some ''/bin/d'', bd_resolved = (\<lambda>_. Some (Some ''/opt/d'')), bd_pids = (\<lambda>_. Some [42]),
     bd_exec = (\<lambda>_ _. Inr ''/opt/d''), bd_reach = (\<lambda>_. None), bd_apply = (\<lambda>_. None), bd_remove = (\<lambda>_. None),
     bd_ready = (\<lambda>_. None), bd_probeErr = (\<lambda>_. [RootOther]) \<rparr>"

lemma quiet_inventory:
  "ExecutableIdentities quiet_boundary ''/bin/d'' 0 = (Some \<lparr> rp_Matched = [(quiet_identity, ''/opt/d'')], rp_Unnameable = [] \<rparr>, 8)"
  by (simp add: ExecutableIdentities_def executableMatcher_def quiet_boundary_def scan_pid_def readExecutable_def scan_skips_def
      ProbeIdentity_def probe_def quiet_world_def quiet_identity_def matches_def)

text \<open>What the absence gate proves.\<close>

definition cleared :: "boundary \<Rightarrow> identity \<Rightarrow> nat \<Rightarrow> nat \<Rightarrow> bool" where
  "cleared b observed t t' \<longleftrightarrow> bd_program b = None \<or>
    (\<exists>program s r v. bd_program b = Some program \<and> t \<le> s \<and> v \<le> t' \<and> ExecutableIdentities b program s = (Some r, v)
      \<and> rp_Matched r = [] \<and> \<not> list_ex (\<lambda>husk. matches husk observed) (rp_Unnameable r)
      \<and> (observed = no_identity \<or> gone (bd_world b) observed s t'))"

lemma cleared_mono: "cleared b i t t' \<Longrightarrow> s \<le> t \<Longrightarrow> t' \<le> s' \<Longrightarrow> cleared b i s s'"
  unfolding cleared_def by (meson gone_mono le_trans order_refl)

lemma ExecutableIdentities_time: "ExecutableIdentities b path t = (r, t') \<Longrightarrow> t < t'"
  unfolding ExecutableIdentities_def
  by (auto dest!: scan_pids_time split: option.splits prod.splits)

lemma departed_spec:
  assumes "departed b i t = (r, t')"
  shows "t \<le> t' \<and> (r = None \<longrightarrow> i = no_identity \<or> gone (bd_world b) i t t')"
proof (cases "i = no_identity")
  case True
  then show ?thesis using assms by (simp add: departed_def)
next
  case False
  obtain q t1 where q: "observe (bd_world b) i t = (q, t1)" by fastforce
  show ?thesis
    using assms False q observe_time [OF q] observe_settled [of "bd_world b" i t _ t1]
    by (auto simp: departed_def gone_def split: sum.splits if_splits)
qed

lemma inventoryClear_spec:
  assumes "inventoryClear b i t = (r, t')"
  shows "t \<le> t' \<and> (r = None \<longrightarrow> cleared b i t t')"
proof (cases "bd_program b")
  case None
  then show ?thesis using assms by (simp add: inventoryClear_def cleared_def)
next
  case (Some program)
  obtain f t1 where f: "ExecutableIdentities b program t = (f, t1)" by fastforce
  have t1: "t < t1" using ExecutableIdentities_time [OF f] .
  show ?thesis
  proof (cases "\<exists>found. f = Some found \<and> rp_Matched found = [] \<and> \<not> list_ex (\<lambda>husk. matches husk i) (rp_Unnameable found)")
    case False
    then show ?thesis using assms Some f t1 by (auto simp: inventoryClear_def split: option.splits if_splits)
  next
    case True
    then obtain found where found: "f = Some found" "rp_Matched found = []" "\<not> list_ex (\<lambda>husk. matches husk i) (rp_Unnameable found)" by blast
    then have d: "departed b i t1 = (r, t')" using assms Some f by (simp add: inventoryClear_def)
    have "t \<le> t'" using departed_spec [OF d] t1 by simp
    moreover have "cleared b i t t'" if "r = None"
      using departed_spec [OF d] that t1 found f Some gone_mono [of "bd_world b" i t1 t' t t'] unfolding cleared_def
      by (intro disjI2 exI [of _ program] exI [of _ t] exI [of _ found] exI [of _ t1]) auto
    ultimately show ?thesis by simp
  qed
qed

subsection \<open>Readiness\<close>

lemma waitReadyOnce_time: "waitReadyOnce b t = (r, t') \<Longrightarrow> t < t'"
  unfolding waitReadyOnce_def by (auto simp: wait_failed_def split: sum.splits option.splits)

lemma WaitReady_time:
  assumes "WaitReady b t = Some r"
  shows "t < snd r"
  using assms
proof (rule WaitReady.raw_induct [where P = "\<lambda>b t r. t < snd r", rotated], goal_cases)
  case (1 f b t r)
  obtain q t1 where q: "waitReadyOnce b t = (q, t1)" by fastforce
  have rec: "t < snd r" if "f b (t1 + 2) = Some r" using 1(1) [OF that] waitReadyOnce_time [OF q] by simp
  show ?case
    by (cases q) (use 1(2) q rec waitReadyOnce_time [OF q] in \<open>auto split: if_splits\<close>)
qed

lemma WaitReady_total:
  assumes "\<forall>t\<ge>T. w_ended (bd_world b) t"
  shows "\<exists>r. WaitReady b t = Some r"
proof (induction "T - t" arbitrary: t rule: less_induct)
  case less
  obtain q t1 where q: "waitReadyOnce b t = (q, t1)" by fastforce
  show ?case
  proof (cases "T \<le> t1")
    case True
    then show ?thesis using assms q by (subst WaitReady.simps) (auto split: sum.splits)
  next
    case False
    then have "\<exists>r. WaitReady b (t1 + 2) = Some r" using less [of "t1 + 2"] waitReadyOnce_time [OF q] by simp
    then show ?thesis using q by (subst WaitReady.simps) (auto split: sum.splits)
  qed
qed

end
