(* ===== verification/Converge.thy ===== *)
theory Converge
  imports Control
begin

text \<open>
  The two ladders of a client, \<open>Ensure\<close> of \<^verbatim>\<open>ensure.go\<close> and \<open>Stop\<close> of \<^verbatim>\<open>stop.go\<close>, over the observation of
  \<^verbatim>\<open>internal/converge/converge.go\<close>: what is on the socket and in the owner record is observed, the incumbent it names is
  evicted and its departure proven, and only then is the service applied or removed.
\<close>

subsection \<open>Eviction (ensure.go)\<close>

definition evictDrainShare :: rat where "evictDrainShare = 1 / 2"

definition proveSettleShare :: rat where "proveSettleShare = 1 / 2"

definition proveReproofShare :: rat where "proveReproofShare = 1 / 2"

definition observeShare :: rat where "observeShare = 1 / 4"

definition minPassSlice :: int where "minPassSlice = 10000000"

text \<open>The two shares of \<open>prove\<close> are cut from one budget, the second when the first has been spent.\<close>

definition prove :: "bool \<Rightarrow> boundary \<Rightarrow> incumbent \<Rightarrow> identity \<Rightarrow> nat \<Rightarrow> unit outcome" where
  "prove pidfd b target observed t =
    (let w = bd_world b; budget = mint (w_now w t) ''prove'' (ctx_left w t) in
     case Settle (with_ctx (derive (deadline (Share ''settle'' (Fin proveSettleShare) (w_now w t) budget)) w) b) (expect target) (t + 1) of
       None \<Rightarrow> None
     | Some (Inr r, es, t1) \<Rightarrow> Some (Inr (), es, t1)
     | Some (Inl e, es, t1) \<Rightarrow>
         if Is e ErrUnrecorded then of_clear (inventoryClear b observed t1)
         else if Is e RootUnsettled then
           (case Terminate pidfd (with_ctx (derive (deadline (Share ''reproof'' (Fin proveReproofShare) (w_now w t1) budget)) w) b)
                   (expect target) (t1 + 1) of
              None \<Rightarrow> None
            | Some (r, es', t2) \<Rightarrow> Some (map_sum id (\<lambda>_. ()) r, es @ es', t2))
         else Some (Inl e, es, t1))"

definition evict :: "bool \<Rightarrow> boundary \<Rightarrow> Health \<Rightarrow> identity \<Rightarrow> nat \<Rightarrow> unit outcome" where
  "evict pidfd b before observed t =
    (case pin (he_Build before) (he_Generation before) of
       None \<Rightarrow> Some (Inl [ErrUnpinned], [], t)
     | Some target \<Rightarrow>
         let w = share_ctx evictDrainShare (bd_world b) t in
         (case Drain (with_ctx w b) (expect target) (t + 1) of
            None \<Rightarrow> None
          | Some (Inr r, es, t1) \<Rightarrow> Some (Inr (), es, t1)
          | Some (Inl e, es, t1) \<Rightarrow>
              if Is e ErrAbsent \<or> Is e RootDraining \<or> Is e RootUnsettled \<or> spent w t1 e
              then (case prove pidfd b target observed (t1 + 1) of
                      None \<Rightarrow> None
                    | Some (r, es', t2) \<Rightarrow> Some (r, es @ es', t2))
              else Some (Inl e, es, t1)))"

subsection \<open>Observing the world (converge.go, stop.go)\<close>

record World =
  wo_Attach :: "rerr option"
  wo_Health :: Health
  wo_Pinned :: identity
  wo_Owner :: "Owner option"

definition no_health :: Health where
  "no_health = \<lparr> he_Phase = PhaseOther [], he_Protocol = 0, he_Generation = 0, he_PID = 0, he_Build = [] \<rparr>"

definition Observed :: "World \<Rightarrow> identity" where
  "Observed wo =
    (if wo_Pinned wo \<noteq> no_identity then wo_Pinned wo
     else case wo_Owner wo of None \<Rightarrow> no_identity | Some own \<Rightarrow> owner_identity own)"

definition observe_world :: "boundary \<Rightarrow> nat \<Rightarrow> (rerr + World) \<times> nat" where
  "observe_world b t =
    (case pinned b t of (r, t1) \<Rightarrow>
     (case bd_owner b t1 of
        Inl e \<Rightarrow> (Inl e, t1 + 1)
      | Inr own \<Rightarrow>
          (Inr (case r of
             Inl e \<Rightarrow> \<lparr> wo_Attach = Some e, wo_Health = no_health, wo_Pinned = no_identity, wo_Owner = own \<rparr>
           | Inr (i, h) \<Rightarrow> \<lparr> wo_Attach = None, wo_Health = h, wo_Pinned = i, wo_Owner = own \<rparr>), t1 + 1)))"

definition terminateRecorded :: "bool \<Rightarrow> boundary \<Rightarrow> World \<Rightarrow> nat \<Rightarrow> unit outcome" where
  "terminateRecorded pidfd b wo t =
    (case wo_Owner wo of
       None \<Rightarrow> of_clear (inventoryClear b (Observed wo) t)
     | Some own \<Rightarrow>
         (case pin (own_Build own) (own_Generation own) of
            None \<Rightarrow> Some (Inl [ErrUnpinned], [], t)
          | Some target \<Rightarrow>
              (case Terminate pidfd b (expect target) t of
                 None \<Rightarrow> None
               | Some (r, es, t1) \<Rightarrow> Some (map_sum id (\<lambda>_. ()) r, es, t1))))"

definition proveRecorded :: "bool \<Rightarrow> boundary \<Rightarrow> World \<Rightarrow> nat \<Rightarrow> unit outcome" where
  "proveRecorded pidfd b wo t =
    (case wo_Owner wo of
       None \<Rightarrow> of_clear (inventoryClear b (Observed wo) t)
     | Some own \<Rightarrow>
         (case pin (own_Build own) (own_Generation own) of
            None \<Rightarrow> Some (Inl [ErrUnpinned], [], t)
          | Some target \<Rightarrow> prove pidfd b target (Observed wo) t))"

subsection \<open>Ensure\<close>

partial_function (option) settle_loop ::
  "boundary \<Rightarrow> string \<Rightarrow> Budget \<Rightarrow> nat \<Rightarrow> ((rerr + World \<times> Action) \<times> nat) option" where
  "settle_loop b want observing t =
    (case observe_world b t of (r, t1) \<Rightarrow>
     (case r of
        Inl e \<Rightarrow> Some (Inl e, t1)
      | Inr wo \<Rightarrow>
          (case wo_Attach wo of
             Some e \<Rightarrow>
               if spent (bd_world b) t1 e then Some (Inl (e @ [RootDeadline]), t1 + 1)
               else if Is e ErrAbsent \<or> Is e RootDraining then Some (Inr (wo, ActionStarted), t1 + 1)
               else if Is e ErrProtocolMismatch then Some (Inr (wo, ActionRestarted), t1 + 1)
               else Some (Inl e, t1 + 1)
           | None \<Rightarrow>
               (case decide (healthFromReport (wo_Health wo)) want of
                  Inl e \<Rightarrow> Some (Inl e, t1)
                | Inr action \<Rightarrow>
                    if action \<noteq> actionObserve then Some (Inr (wo, action), t1)
                    else if Left (w_now (bd_world b) t1) observing \<le> 0 then Some (Inr (wo, ActionRestarted), t1 + 1)
                    else if w_ended (bd_world b) (t1 + 1) then Some (Inl [RootDeadline], t1 + 2)
                    else settle_loop b want observing (t1 + 2)))))"

definition ensure_settle :: "boundary \<Rightarrow> string \<Rightarrow> nat \<Rightarrow> ((rerr + World \<times> Action) \<times> nat) option" where
  "ensure_settle b want t =
    (let w = bd_world b; n = w_now w t; observing = Share ''observe'' (Fin observeShare) n (mint n ''ensure'' (ctx_left w t)) in
     settle_loop b want observing (t + 1))"

record Ensured =
  en_Before :: Health
  en_Did :: Action
  en_After :: Health

text \<open>The removal of what the observation found, before the service is applied.\<close>

definition displace :: "bool \<Rightarrow> boundary \<Rightarrow> World \<Rightarrow> nat \<Rightarrow> unit outcome" where
  "displace pidfd b wo t =
    (case wo_Attach wo of
       None \<Rightarrow> evict pidfd b (healthFromReport (wo_Health wo)) (Observed wo) t
     | Some e \<Rightarrow>
         if Is e ErrProtocolMismatch then terminateRecorded pidfd b wo t else proveRecorded pidfd b wo t)"

definition apply_and_wait :: "boundary \<Rightarrow> string \<Rightarrow> World \<Rightarrow> Action \<Rightarrow> effect list \<Rightarrow> nat \<Rightarrow> Ensured outcome" where
  "apply_and_wait b want wo action es t =
    (case bd_apply b t of
       Some e \<Rightarrow> Some (Inl e, es @ [ServiceApplied t], t + 1)
     | None \<Rightarrow>
         (case WaitReady b (t + 1) of
            None \<Rightarrow> None
          | Some (Inl e, t1) \<Rightarrow> Some (Inl e, es @ [ServiceApplied t], t1)
          | Some (Inr after, t1) \<Rightarrow>
              if he_Build after \<noteq> want \<or> he_Phase after \<noteq> PhaseReady then Some (Inl [ErrCameUpWrong], es @ [ServiceApplied t], t1)
              else Some (Inr \<lparr> en_Before = healthFromReport (wo_Health wo), en_Did = action, en_After = after \<rparr>, es @ [ServiceApplied t], t1)))"

definition ensureOnce :: "bool \<Rightarrow> boundary \<Rightarrow> string \<Rightarrow> bool \<Rightarrow> nat \<Rightarrow> Ensured outcome" where
  "ensureOnce pidfd b want replaced t =
    (case ensure_settle b want t of
       None \<Rightarrow> None
     | Some (Inl e, t1) \<Rightarrow> Some (Inl e, [], t1)
     | Some (Inr (wo, action), t1) \<Rightarrow>
         let before = healthFromReport (wo_Health wo) in
         if action = ActionNothing \<and> \<not> replaced then
           Some (Inr \<lparr> en_Before = before, en_Did = ActionNothing, en_After = before \<rparr>, [], t1)
         else (case bd_reach b t1 of
             Some e \<Rightarrow> Some (Inl e, [], t1 + 1)
           | None \<Rightarrow>
               let action' = (if wo_Attach wo = None \<and> action = ActionNothing then ActionRestarted else action) in
               (case displace pidfd b wo (t1 + 1) of
                  None \<Rightarrow> None
                | Some (Inl e, es, t2) \<Rightarrow> Some (Inl e, es, t2)
                | Some (Inr u, es, t2) \<Rightarrow> apply_and_wait b want wo action' es t2)))"

definition moved :: "rerr \<Rightarrow> bool" where
  "moved e \<longleftrightarrow> Is e ErrWrongIncumbent"

partial_function (option) Ensure :: "bool \<Rightarrow> boundary \<Rightarrow> string \<Rightarrow> bool \<Rightarrow> effect list \<Rightarrow> nat \<Rightarrow> Ensured outcome" where
  "Ensure pidfd b want replaced acc t =
    (case ensureOnce pidfd b want replaced t of
       None \<Rightarrow> None
     | Some (r, es, t1) \<Rightarrow>
         (case r of
            Inr ensured \<Rightarrow> Some (Inr ensured, acc @ es, t1)
          | Inl e \<Rightarrow>
              if \<not> moved e then Some (Inl e, acc @ es, t1)
              else if w_ended (bd_world b) t1 then Some (Inl (e @ [RootDeadline]), acc @ es, t1 + 1)
              else if ctx_left (bd_world b) (t1 + 1) < minPassSlice then Some (Inl (e @ [RootDeadline]), acc @ es, t1 + 2)
              else Ensure pidfd b want replaced (acc @ es) (t1 + 2)))"

subsection \<open>Stop\<close>

definition stopOnce :: "bool \<Rightarrow> boundary \<Rightarrow> nat \<Rightarrow> unit outcome" where
  "stopOnce pidfd b t =
    (case observe_world b t of
       (Inl e, t1) \<Rightarrow> Some (Inl e, [], t1)
     | (Inr wo, t1) \<Rightarrow>
         (case wo_Attach wo of
            None \<Rightarrow> evict pidfd b (healthFromReport (wo_Health wo)) (Observed wo) t1
          | Some e \<Rightarrow>
              if spent (bd_world b) t1 e then Some (Inl (e @ [RootDeadline]), [], t1 + 1)
              else if Is e ErrAbsent \<or> Is e RootDraining then proveRecorded pidfd b wo (t1 + 1)
              else if Is e ErrProtocolMismatch then terminateRecorded pidfd b wo (t1 + 1)
              else Some (Inl e, [], t1 + 1)))"

partial_function (option) Stop :: "bool \<Rightarrow> boundary \<Rightarrow> effect list \<Rightarrow> nat \<Rightarrow> unit outcome" where
  "Stop pidfd b acc t =
    (case stopOnce pidfd b t of
       None \<Rightarrow> None
     | Some (r, es, t1) \<Rightarrow>
         (case r of
            Inr u \<Rightarrow>
              (case bd_remove b t1 of
                 Some e \<Rightarrow> Some (Inl e, acc @ es @ [ServiceRemoved t1], t1 + 1)
               | None \<Rightarrow> Some (Inr (), acc @ es @ [ServiceRemoved t1], t1 + 1))
          | Inl e \<Rightarrow>
              if \<not> moved e then Some (Inl e, acc @ es, t1)
              else if w_ended (bd_world b) t1 then Some (Inl (e @ [RootDeadline]), acc @ es, t1 + 1)
              else if ctx_left (bd_world b) (t1 + 1) < minPassSlice then Some (Inl (e @ [RootDeadline]), acc @ es, t1 + 2)
              else Stop pidfd b (acc @ es) (t1 + 2)))"


subsection \<open>What an observation entitles a ladder to\<close>

text \<open>The observation names this build and generation, and both are stated.\<close>

definition names :: "World \<Rightarrow> string \<Rightarrow> u64 \<Rightarrow> bool" where
  "names wo build generation \<longleftrightarrow> build \<noteq> [] \<and> generation \<noteq> 0
    \<and> ((wo_Attach wo = None \<and> he_Build (wo_Health wo) = build \<and> he_Generation (wo_Health wo) = generation)
      \<or> (\<exists>own. wo_Owner wo = Some own \<and> own_Build own = build \<and> own_Generation own = generation))"

text \<open>An effect of an eviction is addressed to what the observation named.\<close>

definition addressed :: "boundary \<Rightarrow> World \<Rightarrow> nat \<Rightarrow> effect \<Rightarrow> bool" where
  "addressed b wo t e \<longleftrightarrow>
    (\<exists>u i h. e = DrainSent u i h \<and> t \<le> u \<and> names wo (he_Build h) (he_Generation h) \<and> attested (bd_world b) i h t u)
    \<or> (\<exists>u sig n build generation. e = Sent (Signalled u sig n) \<and> names wo build generation
        \<and> signal_exact b build generation t u n)"

text \<open>
  Departure is proven: the drained process is gone, or the recorded one, or the inventory is clear and the process the
  observation pinned has departed.
\<close>

definition displaced :: "boundary \<Rightarrow> World \<Rightarrow> nat \<Rightarrow> nat \<Rightarrow> bool" where
  "displaced b wo t t' \<longleftrightarrow>
    (\<exists>i h. attested (bd_world b) i h t t' \<and> names wo (he_Build h) (he_Generation h) \<and> gone (bd_world b) i t t')
    \<or> (\<exists>v own. t \<le> v \<and> v < t' \<and> bd_owner b v = Inr (Some own) \<and> names wo (own_Build own) (own_Generation own)
        \<and> gone (bd_world b) (owner_identity own) t t')
    \<or> cleared b (Observed wo) t t'"

lemma signal_exact_mono: "signal_exact b build generation t u n \<Longrightarrow> s \<le> t \<Longrightarrow> signal_exact b build generation s u n"
  unfolding signal_exact_def by (elim exE conjE) (rule exI, rule exI, intro conjI; (assumption | simp | blast))

lemma addressed_mono: "addressed b wo t e \<Longrightarrow> s \<le> t \<Longrightarrow> addressed b wo s e"
  unfolding addressed_def
  by (elim disjE exE conjE) (auto intro: attested_mono signal_exact_mono)

lemma displaced_mono:
  assumes "displaced b wo t t'" "s \<le> t" "t' \<le> s'"
  shows "displaced b wo s s'"
proof -
  consider i h where "attested (bd_world b) i h t t'" "names wo (he_Build h) (he_Generation h)" "gone (bd_world b) i t t'"
    | v own where "t \<le> v" "v < t'" "bd_owner b v = Inr (Some own)" "names wo (own_Build own) (own_Generation own)"
        "gone (bd_world b) (owner_identity own) t t'"
    | "cleared b (Observed wo) t t'"
    using assms(1) unfolding displaced_def by blast
  then show ?thesis
    unfolding displaced_def
    by cases (use assms(2,3) attested_mono gone_mono cleared_mono in \<open>meson le_trans less_le_trans\<close>)+
qed

lemma signal_exact_ctx [simp]: "signal_exact (with_ctx (derive d (bd_world b)) b) = signal_exact b"
  by (simp add: signal_exact_def fun_eq_iff)

lemma worlds_ok_ctx [simp]: "worlds_ok (with_ctx (derive d (bd_world b)) b) = worlds_ok b"
  by (simp add: worlds_ok_def)

lemma pin_Some: "pin build generation = Some target \<longleftrightarrow>
    build \<noteq> [] \<and> generation \<noteq> 0 \<and> target = \<lparr> in_build = build, in_generation = generation \<rparr>"
  by (auto simp: pin_def)

lemma expect_simps [simp]: "ex_Build (expect target) = in_build target" "ex_Generation (expect target) = in_generation target"
  by (simp_all add: expect_def)

lemma expect_complete:
  "in_build target \<noteq> [] \<Longrightarrow> in_generation target \<noteq> 0 \<Longrightarrow>
    \<not> mismatch (expect target) build generation \<longleftrightarrow> build = in_build target \<and> generation = in_generation target"
  by (auto simp: expect_def mismatch_def)

lemma of_clear_spec:
  assumes "of_clear (inventoryClear b (Observed wo) t) = Some (r, es, t')"
  shows "t \<le> t' \<and> es = [] \<and> (r = Inr () \<longrightarrow> displaced b wo t t')"
proof -
  obtain q t1 where q: "inventoryClear b (Observed wo) t = (q, t1)" by fastforce
  then show ?thesis
    using assms inventoryClear_spec [OF q] by (auto simp: of_clear_def displaced_def split: option.splits)
qed

text \<open>The contract of every step that removes an incumbent.\<close>

definition evict_ok :: "boundary \<Rightarrow> World \<Rightarrow> nat \<Rightarrow> rerr + unit \<Rightarrow> effect list \<Rightarrow> nat \<Rightarrow> bool" where
  "evict_ok b wo t r es t' \<longleftrightarrow> t \<le> t' \<and> (\<forall>e\<in>set es. addressed b wo t e) \<and> (r = Inr () \<longrightarrow> displaced b wo t t')"

lemma evict_ok_mono: "evict_ok b wo t r es t' \<Longrightarrow> s \<le> t \<Longrightarrow> evict_ok b wo s r es t'"
  unfolding evict_ok_def using addressed_mono displaced_mono by auto

lemma evict_ok_append:
  "\<forall>e\<in>set es. addressed b wo s e \<Longrightarrow> s \<le> t \<Longrightarrow> evict_ok b wo t r es' t' \<Longrightarrow> evict_ok b wo s r (es @ es') t'"
  using evict_ok_mono [of b wo t r es' t' s] by (auto simp: evict_ok_def)

lemma evict_ok_error: "t \<le> t' \<Longrightarrow> \<forall>e\<in>set es. addressed b wo t e \<Longrightarrow> evict_ok b wo t (Inl e') es t'"
  by (simp add: evict_ok_def)

text \<open>A boundary under a derived context is the same machine.\<close>

definition same_machine :: "boundary \<Rightarrow> boundary \<Rightarrow> bool" where
  "same_machine b b' \<longleftrightarrow> b' = b \<or> (\<exists>d. b' = with_ctx (derive d (bd_world b)) b)"

lemma same_machine_intros [simp]: "same_machine b b" "same_machine b (with_ctx (derive d (bd_world b)) b)"
  by (auto simp: same_machine_def)

lemma terminate_ok:
  assumes "Terminate True b' (expect target) t = Some (r, es, t')" "worlds_ok b" "same_machine b b'"
    and "names wo (in_build target) (in_generation target)"
  shows "evict_ok b wo t (map_sum id (\<lambda>_. ()) r) es t'"
proof -
  have eqs: "bd_owner b' = bd_owner b" "gone (bd_world b') = gone (bd_world b)" "signal_exact b' = signal_exact b" "worlds_ok b'"
    using assms(2,3) by (auto simp: same_machine_def)
  have spec: "t \<le> t'" "\<forall>e\<in>set es. \<exists>u sig n. e = Sent (Signalled u sig n) \<and> signal_exact b (in_build target) (in_generation target) t u n"
      "\<And>y. r = Inr y \<Longrightarrow> \<exists>own. bd_owner b t = Inr (Some own) \<and> own_Build own = in_build target
         \<and> own_Generation own = in_generation target \<and> gone (bd_world b) (owner_identity own) t t'"
    using Terminate_spec [OF assms(1) eqs(4)] eqs by auto
  have "displaced b wo t t'" if r: "r = Inr y" for y
  proof -
    obtain own where own: "bd_owner b t = Inr (Some own)" "own_Build own = in_build target"
        "own_Generation own = in_generation target" "gone (bd_world b) (owner_identity own) t t'"
      using spec(3) [OF r] by blast
    moreover have "t < t'"
      using assms(1) own(1) r eqs(1)
      by (auto simp: Terminate_def dest!: reap_time split: option.splits if_splits sum.splits)
    ultimately show ?thesis using assms(4) unfolding displaced_def by auto
  qed
  then show ?thesis using spec(1,2) assms(4) by (cases r) (auto simp: evict_ok_def addressed_def)
qed

lemma prove_ok:
  assumes "prove True b target (Observed wo) t = Some (r, es, t')" "worlds_ok b"
    and "names wo (in_build target) (in_generation target)"
  shows "evict_ok b wo t r es t'"
proof -
  let ?w = "bd_world b"
  let ?budget = "mint (w_now ?w t) ''prove'' (ctx_left ?w t)"
  let ?d = "deadline (Share ''settle'' (Fin proveSettleShare) (w_now ?w t) ?budget)"
  obtain q es1 t1 where q: "Settle (with_ctx (derive ?d ?w) b) (expect target) (t + 1) = Some (q, es1, t1)"
    using assms(1) by (auto simp: prove_def Let_def split: option.splits)
  have s: "t + 1 < t1" "es1 = []" "\<And>y. q = Inr y \<Longrightarrow> \<exists>own. bd_owner b (t + 1) = Inr (Some own)
      \<and> \<not> mismatch (expect target) (own_Build own) (own_Generation own) \<and> gone ?w (owner_identity own) (t + 1) t1"
    using Settle_spec [OF q] by auto
  have nz: "in_build target \<noteq> []" "in_generation target \<noteq> 0" using assms(3) by (auto simp: names_def)
  show ?thesis
  proof (cases q)
    case (Inr y)
    then have r: "r = Inr ()" "es = []" "t' = t1" using assms(1) q s(2) by (auto simp: prove_def Let_def)
    obtain own where own: "bd_owner b (t + 1) = Inr (Some own)" "own_Build own = in_build target"
        "own_Generation own = in_generation target" "gone ?w (owner_identity own) (t + 1) t1"
      using s(3) [OF Inr] expect_complete [OF nz] by blast
    have "gone ?w (owner_identity own) t t1" using gone_mono [OF own(4)] by simp
    then have "displaced b wo t t1"
      unfolding displaced_def using own assms(3) s(1) by (intro disjI2 disjI1 exI [of _ "t + 1"] exI [of _ own]) auto
    then show ?thesis using r s(1) by (simp add: evict_ok_def)
  next
    case (Inl e)
    consider "Is e ErrUnrecorded" | "\<not> Is e ErrUnrecorded" "Is e RootUnsettled" | "\<not> Is e ErrUnrecorded" "\<not> Is e RootUnsettled" by blast
    then show ?thesis
    proof cases
      case 1
      then have "of_clear (inventoryClear b (Observed wo) t1) = Some (r, es, t')" using assms(1) q Inl by (simp add: prove_def Let_def)
      from of_clear_spec [OF this] have "evict_ok b wo t1 r es t'" by (simp add: evict_ok_def)
      then show ?thesis using evict_ok_mono s(1) by simp
    next
      case 2
      let ?d' = "deadline (Share ''reproof'' (Fin proveReproofShare) (w_now ?w t1) ?budget)"
      obtain q' where "Terminate True (with_ctx (derive ?d' ?w) b) (expect target) (t1 + 1) = Some (q', es, t')"
          "r = map_sum id (\<lambda>_. ()) q'"
        using assms(1) q Inl 2 s(2) by (auto simp: prove_def Let_def split: option.splits)
      then show ?thesis using evict_ok_mono [OF terminate_ok [OF _ assms(2) _ assms(3)], of _ "t1 + 1" q' es t' t] s(1) by simp
    next
      case 3
      then show ?thesis using assms(1) q Inl s(1,2) by (auto simp: prove_def Let_def intro: evict_ok_error)
    qed
  qed
qed

lemma evict_evicts:
  assumes "evict True b (healthFromReport (wo_Health wo)) (Observed wo) t = Some (r, es, t')" "worlds_ok b" "wo_Attach wo = None"
  shows "evict_ok b wo t r es t'"
proof (cases "pin (he_Build (wo_Health wo)) (he_Generation (wo_Health wo))")
  case None
  then show ?thesis using assms(1) by (auto simp: evict_def healthFromReport_def intro: evict_ok_error)
next
  case (Some target)
  have tgt: "names wo (in_build target) (in_generation target)" "in_build target \<noteq> []" "in_generation target \<noteq> 0"
    using Some assms(3) by (auto simp: pin_Some names_def)
  let ?w = "share_ctx evictDrainShare (bd_world b) t"
  obtain d where d: "?w = derive d (bd_world b)" using share_ctx_derive by blast
  obtain q es1 t1 where q: "Drain (with_ctx ?w b) (expect target) (t + 1) = Some (q, es1, t1)"
    using assms(1) Some by (auto simp: evict_def Let_def healthFromReport_def split: option.splits)
  note spec = Drain_spec [OF q [unfolded d]]
  have t1: "t + 1 < t1" using spec by simp
  have es1: "\<forall>e\<in>set es1. addressed b wo t e"
  proof
    fix e assume "e \<in> set es1"
    then obtain u i h where e: "e = DrainSent u i h" "t + 1 \<le> u" "attested (bd_world b) i h (t + 1) u"
        "\<not> mismatch (expect target) (he_Build h) (he_Generation h)"
      using spec by fastforce
    then have "names wo (he_Build h) (he_Generation h)" using expect_complete [OF tgt(2,3)] tgt(1) by simp
    then show "addressed b wo t e" using e attested_mono [OF e(3), of t u] unfolding addressed_def by auto
  qed
  show ?thesis
  proof (cases q)
    case (Inr y)
    obtain h reap where y: "y = (h, reap)" by fastforce
    have r: "r = Inr ()" "es = es1" "t' = t1"
      using assms(1) Some q Inr by (auto simp: evict_def Let_def healthFromReport_def)
    obtain i where i: "attested (bd_world b) i h (t + 1) t1" "\<not> mismatch (expect target) (he_Build h) (he_Generation h)"
        "gone (bd_world b) i (t + 1) t1"
      using spec Inr y by auto
    have "names wo (he_Build h) (he_Generation h)" using i(2) expect_complete [OF tgt(2,3)] tgt(1) by simp
    then have "displaced b wo t t1"
      using attested_mono [OF i(1), of t t1] gone_mono [OF i(3), of t t1] unfolding displaced_def by auto
    then show ?thesis using r es1 t1 by (simp add: evict_ok_def)
  next
    case (Inl e)
    show ?thesis
    proof (cases "Is e ErrAbsent \<or> Is e RootDraining \<or> Is e RootUnsettled \<or> spent ?w t1 e")
      case True
      then obtain es2 where "prove True b target (Observed wo) (t1 + 1) = Some (r, es2, t')" "es = es1 @ es2"
        using assms(1) Some q Inl by (auto simp: evict_def Let_def healthFromReport_def split: option.splits)
      then show ?thesis using evict_ok_append [OF es1 _ prove_ok [OF _ assms(2) tgt(1)], of "t1 + 1"] t1 by simp
    next
      case False
      then show ?thesis
        using assms(1) Some q Inl es1 t1 by (auto simp: evict_def Let_def healthFromReport_def intro!: evict_ok_error)
    qed
  qed
qed

lemma terminateRecorded_evicts:
  assumes "terminateRecorded True b wo t = Some (r, es, t')" "worlds_ok b"
  shows "evict_ok b wo t r es t'"
proof (cases "wo_Owner wo")
  case None
  then show ?thesis using assms(1) of_clear_spec [of b wo t r es t'] by (simp add: terminateRecorded_def evict_ok_def)
next
  case (Some own)
  show ?thesis
  proof (cases "pin (own_Build own) (own_Generation own)")
    case None
    then show ?thesis using assms(1) Some by (auto simp: terminateRecorded_def intro: evict_ok_error)
  next
    case (Some target)
    then have "names wo (in_build target) (in_generation target)" using \<open>wo_Owner wo = Some own\<close> by (auto simp: pin_Some names_def)
    moreover obtain q where "Terminate True b (expect target) t = Some (q, es, t')" "r = map_sum id (\<lambda>_. ()) q"
      using assms(1) Some \<open>wo_Owner wo = Some own\<close> by (auto simp: terminateRecorded_def split: option.splits)
    ultimately show ?thesis using terminate_ok assms(2) by simp
  qed
qed

lemma proveRecorded_evicts:
  assumes "proveRecorded True b wo t = Some (r, es, t')" "worlds_ok b"
  shows "evict_ok b wo t r es t'"
proof (cases "wo_Owner wo")
  case None
  then show ?thesis using assms(1) of_clear_spec [of b wo t r es t'] by (simp add: proveRecorded_def evict_ok_def)
next
  case (Some own)
  show ?thesis
  proof (cases "pin (own_Build own) (own_Generation own)")
    case None
    then show ?thesis using assms(1) Some by (auto simp: proveRecorded_def intro: evict_ok_error)
  next
    case (Some target)
    then have "names wo (in_build target) (in_generation target)" using \<open>wo_Owner wo = Some own\<close> by (auto simp: pin_Some names_def)
    moreover have "prove True b target (Observed wo) t = Some (r, es, t')"
      using assms(1) Some \<open>wo_Owner wo = Some own\<close> by (simp add: proveRecorded_def)
    ultimately show ?thesis using prove_ok assms(2) by simp
  qed
qed

lemma displace_evicts:
  assumes "displace True b wo t = Some (r, es, t')" "worlds_ok b"
  shows "evict_ok b wo t r es t'"
  using assms evict_evicts [of b wo t r es t'] terminateRecorded_evicts proveRecorded_evicts
  by (auto simp: displace_def split: option.splits if_splits)

subsection \<open>The ladders\<close>

lemma observe_world_time: "observe_world b t = (r, t') \<Longrightarrow> t < t'"
  unfolding observe_world_def by (auto dest!: pinned_spec split: prod.splits sum.splits)

text \<open>The observation on which \<open>settle\<close> decides, and what its decision says.\<close>

definition decided :: "string \<Rightarrow> World \<Rightarrow> Action \<Rightarrow> bool" where
  "decided want wo action \<longleftrightarrow> action \<noteq> actionObserve \<and> (action = ActionNothing \<longrightarrow>
     wo_Attach wo = None \<and> decide (healthFromReport (wo_Health wo)) want = Inr ActionNothing)"

lemma settle_loop_spec:
  assumes "settle_loop b want observing t = Some r"
  shows "t < snd r \<and> (\<forall>wo action. fst r = Inr (wo, action) \<longrightarrow>
    decided want wo action \<and> (\<exists>s s'. t \<le> s \<and> s' \<le> snd r \<and> observe_world b s = (Inr wo, s')))"
  using assms
proof (rule settle_loop.raw_induct [where P = "\<lambda>b want observing t r. t < snd r \<and> (\<forall>wo action. fst r = Inr (wo, action) \<longrightarrow>
    decided want wo action \<and> (\<exists>s s'. t \<le> s \<and> s' \<le> snd r \<and> observe_world b s = (Inr wo, s')))", rotated], goal_cases)
  case (1 f b want observing t r)
  obtain q t1 where q: "observe_world b t = (q, t1)" by fastforce
  have t1: "t < t1" using observe_world_time [OF q] .
  have rec: ?case if "f b want observing (t1 + 2) = Some r"
    using 1(1) [OF that] t1 by (meson le_trans less_imp_le less_trans trans_less_add1)
  show ?case
  proof (cases q)
    case (Inl e)
    then show ?thesis using 1(2) q t1 by auto
  next
    case (Inr wo)
    have here: ?thesis if "snd r = t1 \<or> snd r = t1 + 1" "fst r = Inr (wo, action)" "decided want wo action" for action
      using that q Inr t1 by auto
    have err: ?thesis if "t1 \<le> snd r" "fst r = Inl e" for e using that t1 by auto
    show ?thesis
    proof (cases "wo_Attach wo")
      case (Some e)
      then show ?thesis
        using 1(2) q Inr here [of ActionStarted] here [of ActionRestarted] err
        by (auto simp: decided_def split: if_splits)
    next
      case None
      show ?thesis
      proof (cases "decide (healthFromReport (wo_Health wo)) want")
        case (Inl e)
        then show ?thesis using 1(2) q Inr None err by auto
      next
        case action: (Inr action)
        show ?thesis
          using 1(2) q Inr None action here [of action] here [of ActionRestarted] err rec
          by (auto simp: decided_def split: if_splits)
      qed
    qed
  qed
qed

text \<open>
  Every effect of a ladder rests on an observation it made: an eviction is addressed to what the observation named, and the
  service moves only when departure has been proven since.
\<close>

definition justified :: "boundary \<Rightarrow> nat \<Rightarrow> effect \<Rightarrow> bool" where
  "justified b t e \<longleftrightarrow> (\<exists>s wo s'. t \<le> s \<and> observe_world b s = (Inr wo, s')
    \<and> (addressed b wo s' e \<or> (\<exists>u. (e = ServiceApplied u \<or> e = ServiceRemoved u) \<and> displaced b wo s' u)))"

lemma justified_mono: "justified b t e \<Longrightarrow> s \<le> t \<Longrightarrow> justified b s e"
  unfolding justified_def by (elim exE conjE) (rule exI, rule exI, rule exI, intro conjI; (assumption | simp))

lemma evict_justified:
  assumes "evict_ok b wo t1 r es t'" "observe_world b s = (Inr wo, s')" "t \<le> s" "s' \<le> t1" "e \<in> set es"
  shows "justified b t e"
  using assms addressed_mono [of b wo t1 e s'] unfolding justified_def evict_ok_def by blast

lemma service_justified:
  assumes "evict_ok b wo t1 (Inr ()) es t'" "observe_world b s = (Inr wo, s')" "t \<le> s" "s' \<le> t1"
  shows "justified b t (ServiceApplied t') \<and> justified b t (ServiceRemoved t')"
  using assms displaced_mono [of b wo t1 t' s' t'] unfolding justified_def evict_ok_def by blast

lemma apply_and_wait_effects:
  assumes "apply_and_wait b want wo action es t = Some (r, es', t')"
  shows "t < t' \<and> es' = es @ [ServiceApplied t]"
  using assms WaitReady_time [of b "t + 1"]
  by (auto simp: apply_and_wait_def split: option.splits sum.splits if_splits prod.splits)

lemma ensureOnce_justified:
  assumes "ensureOnce True b want replaced t = Some (r, es, t')" "worlds_ok b"
  shows "t < t' \<and> (\<forall>e\<in>set es. justified b t e)"
proof -
  obtain q t1 where q: "ensure_settle b want t = Some (q, t1)" using assms(1) by (auto simp: ensureOnce_def split: option.splits)
  note spec = settle_loop_spec [OF q [unfolded ensure_settle_def Let_def]]
  have t1: "t < t1" using spec by simp
  show ?thesis
  proof (cases q)
    case (Inl e)
    then show ?thesis using assms(1) q t1 by (auto simp: ensureOnce_def)
  next
    case (Inr p)
    obtain wo action where p: "p = (wo, action)" by fastforce
    obtain s s' where obs: "t + 1 \<le> s" "s' \<le> t1" "observe_world b s = (Inr wo, s')" using spec Inr p by auto
    show ?thesis
    proof (cases "(action = ActionNothing \<and> \<not> replaced) \<or> bd_reach b t1 \<noteq> None")
      case True
      then show ?thesis using assms(1) q Inr p t1 by (auto simp: ensureOnce_def Let_def split: if_splits option.splits)
    next
      case False
      then have "action \<noteq> ActionNothing \<or> replaced" "bd_reach b t1 = None" by auto
      moreover define a where "a = (if wo_Attach wo = None \<and> action = ActionNothing then ActionRestarted else action)"
      ultimately obtain d es1 t2 where d: "displace True b wo (t1 + 1) = Some (d, es1, t2)"
          "(\<exists>e. d = Inl e \<and> es = es1 \<and> t' = t2) \<or> (d = Inr () \<and> apply_and_wait b want wo a es1 t2 = Some (r, es, t'))"
        using assms(1) q Inr p by (auto simp: ensureOnce_def Let_def split: option.splits sum.splits)
      note ev = displace_evicts [OF d(1) assms(2)]
      have es1: "\<forall>e\<in>set es1. justified b t e" using evict_justified [OF ev obs(3)] obs(1,2) by simp
      have t2: "t < t2" using ev t1 by (simp add: evict_ok_def)
      from d(2) show ?thesis
      proof (elim disjE exE conjE)
        assume "d = Inr ()" and a: "apply_and_wait b want wo a es1 t2 = Some (r, es, t')"
        then have "justified b t (ServiceApplied t2)" using service_justified [OF _ obs(3)] ev obs(1,2) by simp
        then show ?thesis using apply_and_wait_effects [OF a] es1 t2 by auto
      qed (use es1 t2 in simp)
    qed
  qed
qed

lemma stopOnce_justified:
  assumes "stopOnce True b t = Some (r, es, t')" "worlds_ok b"
  shows "t < t' \<and> (\<forall>e\<in>set es. justified b t e) \<and> (r = Inr () \<longrightarrow> justified b t (ServiceRemoved t'))"
proof -
  obtain q t1 where q: "observe_world b t = (q, t1)" by fastforce
  have t1: "t < t1" using observe_world_time [OF q] .
  show ?thesis
  proof (cases q)
    case (Inl e)
    then show ?thesis using assms(1) q t1 by (auto simp: stopOnce_def)
  next
    case (Inr wo)
    have ok: ?thesis if "evict_ok b wo t2 r es t'" "t1 \<le> t2" for t2
    proof -
      have "t < t'" using that t1 by (simp add: evict_ok_def)
      then show ?thesis
        using evict_justified [OF that(1) q [unfolded Inr]] service_justified [OF _ q [unfolded Inr]] that by auto
    qed
    show ?thesis
    proof (cases "wo_Attach wo")
      case None
      then show ?thesis using assms q Inr ok [OF evict_evicts] by (auto simp: stopOnce_def)
    next
      case (Some e)
      then show ?thesis
        using assms q Inr t1 ok [OF proveRecorded_evicts] ok [OF terminateRecorded_evicts]
        by (auto simp: stopOnce_def split: if_splits)
    qed
  qed
qed

lemma Ensure_justified:
  assumes "Ensure True b want replaced acc t = Some r" "worlds_ok b"
  shows "\<forall>e\<in>set (fst (snd r)). e \<in> set acc \<or> justified b t e"
proof -
  let ?P = "\<lambda>pidfd b want replaced acc t r. pidfd \<and> worlds_ok b \<longrightarrow> (\<forall>e\<in>set (fst (snd r)). e \<in> set acc \<or> justified b t e)"
  have "?P True b want replaced acc t r"
    using assms(1)
  proof (rule Ensure.raw_induct [where P = ?P, rotated], intro impI, goal_cases)
    case (1 f pidfd b want replaced acc t r)
    then have ok: "worlds_ok b" and pidfd by auto
    obtain q es t1 where q: "ensureOnce True b want replaced t = Some (q, es, t1)"
      using 1(2) \<open>pidfd\<close> by (auto split: option.splits)
    note j = ensureOnce_justified [OF q ok]
    have rec: ?case if "f pidfd b want replaced (acc @ es) (t1 + 2) = Some r"
      using 1(1) [OF that] ok \<open>pidfd\<close> j justified_mono [of b "t1 + 2" _ t] by auto
    show ?case
      by (cases q) (use 1(2) q \<open>pidfd\<close> j rec in \<open>auto split: if_splits\<close>)
  qed
  then show ?thesis using assms(2) by simp
qed

lemma Stop_justified:
  assumes "Stop True b acc t = Some r" "worlds_ok b"
  shows "\<forall>e\<in>set (fst (snd r)). e \<in> set acc \<or> justified b t e"
proof -
  let ?P = "\<lambda>pidfd b acc t r. pidfd \<and> worlds_ok b \<longrightarrow> (\<forall>e\<in>set (fst (snd r)). e \<in> set acc \<or> justified b t e)"
  have "?P True b acc t r"
    using assms(1)
  proof (rule Stop.raw_induct [where P = ?P, rotated], intro impI, goal_cases)
    case (1 f pidfd b acc t r)
    then have ok: "worlds_ok b" and pidfd by auto
    obtain q es t1 where q: "stopOnce True b t = Some (q, es, t1)"
      using 1(2) \<open>pidfd\<close> by (auto split: option.splits)
    note j = stopOnce_justified [OF q ok]
    have rec: ?case if "f pidfd b (acc @ es) (t1 + 2) = Some r"
      using 1(1) [OF that] ok \<open>pidfd\<close> j justified_mono [of b "t1 + 2" _ t] by auto
    show ?case
      by (cases q) (use 1(2) q \<open>pidfd\<close> j rec in \<open>auto split: if_splits option.splits\<close>)
  qed
  then show ?thesis using assms(2) by simp
qed

subsection \<open>What a result says\<close>

lemma assemblePin_health:
  assumes "assemblePin b peer t = (Inr (i, h), t')"
  shows "\<exists>u\<ge>t. u < t' \<and> bd_health b u = Inr h"
proof -
  obtain q t1 where q: "ProbeIdentity (bd_world b) peer t = (q, t1)" by fastforce
  have "bd_health b t1 = Inr h" "t' = t1 + 1"
    using assms q by (auto simp: assemblePin_def split: if_splits sum.splits option.splits)
  then show ?thesis using ProbeIdentity_spec [OF q] by (auto intro!: exI [of _ t1])
qed

lemma ask_health:
  assumes "ask n b t = (Inr (i, h), t')"
  shows "\<exists>u\<ge>t. u < t' \<and> bd_health b u = Inr h"
  using assms
proof (induction n arbitrary: t)
  case 0
  then obtain peer where "assemblePin b peer (t + 1) = (Inr (i, h), t')" by (auto split: sum.splits prod.splits)
  from assemblePin_health [OF this] show ?case by (meson add_leD1)
next
  case (Suc n)
  obtain peer where peer: "bd_acquire b t = Inr peer" using Suc(2) by (cases "bd_acquire b t") auto
  obtain q t1 where q: "assemblePin b peer (t + 1) = (q, t1)" by fastforce
  have t1: "t < t1" using assemblePin_spec [OF q] by simp
  show ?case
  proof (cases q)
    case (Inl e)
    then have "ask n b (t1 + 1) = (Inr (i, h), t')" using Suc(2) peer q by (auto split: if_splits)
    from Suc(1) [OF this] show ?thesis using t1 by (meson add_leD1 le_trans less_imp_le)
  next
    case (Inr p)
    then have "assemblePin b peer (t + 1) = (Inr (i, h), t')" using Suc(2) peer q by simp
    from assemblePin_health [OF this] show ?thesis by (meson add_leD1)
  qed
qed

lemma observe_world_health:
  assumes "observe_world b t = (Inr wo, t')" "wo_Attach wo = None"
  shows "\<exists>u\<ge>t. u < t' \<and> bd_health b u = Inr (wo_Health wo)"
proof -
  obtain q t1 where q: "pinned b t = (q, t1)" by fastforce
  obtain i h where "q = Inr (i, h)" "wo_Health wo = h" "t' = t1 + 1"
    using assms q by (auto simp: observe_world_def split: sum.splits)
  then show ?thesis using ask_health [of 1 b t i h t1] q by (auto simp: pinned_def)
qed

lemma WaitReady_health:
  assumes "WaitReady b t = Some r"
  shows "\<forall>h. fst r = Inr h \<longrightarrow> (\<exists>u\<ge>t. u < snd r \<and> (\<exists>report. bd_health b u = Inr report \<and> h = healthFromReport report))"
  using assms
proof (rule WaitReady.raw_induct [where P = "\<lambda>b t r. \<forall>h. fst r = Inr h \<longrightarrow>
    (\<exists>u\<ge>t. u < snd r \<and> (\<exists>report. bd_health b u = Inr report \<and> h = healthFromReport report))", rotated], goal_cases)
  case (1 f b t r)
  obtain q t1 where q: "waitReadyOnce b t = (q, t1)" by fastforce
  have t1: "t < t1" using waitReadyOnce_time [OF q] .
  show ?case
  proof (cases q)
    case (Inr h)
    then have "r = (Inr h, t1)" using 1(2) q by simp
    moreover have "bd_health b (t + 2) = Inr report \<and> h = healthFromReport report \<and> t1 = t + 3"
      if "bd_health b (t + 2) = Inr report" for report
      using q Inr that by (auto simp: waitReadyOnce_def wait_failed_def split: sum.splits option.splits)
    moreover have "\<exists>report. bd_health b (t + 2) = Inr report"
      using q Inr by (auto simp: waitReadyOnce_def wait_failed_def split: sum.splits option.splits)
    ultimately show ?thesis by (auto intro!: exI [of _ "t + 2"])
  next
    case (Inl e)
    have rec: ?thesis if "f b (t1 + 2) = Some r"
      using 1(1) [OF that] t1 by (meson add_leD1 le_trans less_imp_le)
    then show ?thesis using 1(2) q Inl by (auto split: if_splits)
  qed
qed

definition ensured_ok :: "boundary \<Rightarrow> string \<Rightarrow> bool \<Rightarrow> nat \<Rightarrow> Ensured \<Rightarrow> effect list \<Rightarrow> nat \<Rightarrow> bool" where
  "ensured_ok b want replaced t en es t' \<longleftrightarrow>
    he_Build (en_After en) = want \<and> he_Phase (en_After en) = PhaseReady \<and> en_Did en \<noteq> actionObserve
    \<and> (if en_Did en = ActionNothing
       then \<not> replaced \<and> en_Before en = en_After en \<and> complete (en_After en)
         \<and> (\<exists>u\<ge>t. u < t' \<and> (\<exists>report. bd_health b u = Inr report \<and> en_After en = healthFromReport report))
       else (\<exists>v u. ServiceApplied v \<in> set es \<and> t \<le> v \<and> v < u \<and> u < t'
         \<and> (\<exists>report. bd_health b u = Inr report \<and> en_After en = healthFromReport report)))"

lemma apply_and_wait_ok:
  assumes "apply_and_wait b want wo action es s = Some (Inr en, es', t')" "t \<le> s" "action \<noteq> ActionNothing" "action \<noteq> actionObserve"
  shows "ensured_ok b want replaced t en es' t'"
proof -
  obtain after where w: "WaitReady b (s + 1) = Some (Inr after, t')" "he_Build after = want" "he_Phase after = PhaseReady"
      "en_After en = after" "en_Did en = action" "es' = es @ [ServiceApplied s]"
    using assms(1) by (auto simp: apply_and_wait_def split: option.splits sum.splits if_splits prod.splits)
  obtain u report where "s + 1 \<le> u" "u < t'" "bd_health b u = Inr report" "after = healthFromReport report"
    using WaitReady_health [OF w(1)] by auto
  then have "\<exists>v u. ServiceApplied v \<in> set es' \<and> t \<le> v \<and> v < u \<and> u < t'
      \<and> (\<exists>report. bd_health b u = Inr report \<and> en_After en = healthFromReport report)"
    using w assms(2) by (intro exI [of _ s] exI [of _ u]) auto
  then show ?thesis using w assms(3,4) by (simp add: ensured_ok_def)
qed

lemma decide_nothing: "decide h want = Inr ActionNothing \<longleftrightarrow> complete h \<and> he_Build h = want \<and> he_Phase h = PhaseReady"
  by (auto simp: decide_def)

lemma ensureOnce_ok:
  assumes "ensureOnce pidfd b want replaced t = Some (Inr en, es, t')" "t0 \<le> t"
    and mono: "\<And>wo r es t2 u. displace pidfd b wo u = Some (r, es, t2) \<Longrightarrow> u \<le> t2"
  shows "ensured_ok b want replaced t0 en es t'"
proof -
  obtain q t1 where q: "ensure_settle b want t = Some (q, t1)" using assms(1) by (auto simp: ensureOnce_def split: option.splits)
  note spec = settle_loop_spec [OF q [unfolded ensure_settle_def Let_def]]
  obtain wo action where p: "q = Inr (wo, action)" using assms(1) q by (cases q) (auto simp: ensureOnce_def)
  obtain s s' where obs: "t + 1 \<le> s" "s' \<le> t1" "observe_world b s = (Inr wo, s')" and dec: "decided want wo action"
    using spec p by auto
  have t1: "t < t1" using spec by simp
  show ?thesis
  proof (cases "action = ActionNothing \<and> \<not> replaced")
    case True
    then have en: "en = \<lparr> en_Before = healthFromReport (wo_Health wo), en_Did = ActionNothing, en_After = healthFromReport (wo_Health wo) \<rparr>"
        "t' = t1"
      using assms(1) q p by (auto simp: ensureOnce_def Let_def)
    have d: "wo_Attach wo = None" "complete (healthFromReport (wo_Health wo))" "he_Build (healthFromReport (wo_Health wo)) = want"
        "he_Phase (healthFromReport (wo_Health wo)) = PhaseReady"
      using dec True by (auto simp: decided_def decide_nothing)
    obtain u where "s \<le> u" "u < s'" "bd_health b u = Inr (wo_Health wo)" using observe_world_health [OF obs(3) d(1)] by blast
    then show ?thesis using en d True obs assms(2) unfolding ensured_ok_def by (auto intro!: exI [of _ u])
  next
    case False
    define a where "a = (if wo_Attach wo = None \<and> action = ActionNothing then ActionRestarted else action)"
    have a: "a \<noteq> ActionNothing" "a \<noteq> actionObserve" using dec by (auto simp: a_def decided_def)
    obtain es1 t2 where d: "displace pidfd b wo (t1 + 1) = Some (Inr (), es1, t2)" "apply_and_wait b want wo a es1 t2 = Some (Inr en, es, t')"
      using assms(1) q p False by (auto simp: ensureOnce_def Let_def a_def split: option.splits sum.splits if_splits prod.splits)
    show ?thesis using apply_and_wait_ok [OF d(2) _ a] mono [OF d(1)] t1 assms(2) by simp
  qed
qed

subsection \<open>The ladders return\<close>

lemma Terminate_time: "Terminate pidfd b x t = Some (r, es, t') \<Longrightarrow> t \<le> t'"
  unfolding Terminate_def by (auto dest!: reap_time split: option.splits sum.splits if_splits prod.splits)

lemma inventory_time: "of_clear (inventoryClear b i t) = Some (r, es, t') \<Longrightarrow> t \<le> t'"
  using inventoryClear_spec [of b i t] unfolding of_clear_def by (auto split: prod.splits option.splits)

lemma prove_time:
  assumes "prove pidfd b target i t = Some (r, es, t')"
  shows "t \<le> t'"
proof -
  let ?w = "bd_world b"
  obtain q es1 t1 where q: "Settle (with_ctx (derive (deadline (Share ''settle'' (Fin proveSettleShare) (w_now ?w t)
      (mint (w_now ?w t) ''prove'' (ctx_left ?w t)))) ?w) b) (expect target) (t + 1) = Some (q, es1, t1)"
    using assms by (auto simp del: not_None_eq simp: prove_def Let_def split: option.splits)
  have "t < t1" using Settle_spec [OF q] by simp
  then show ?thesis
    using assms q by (auto simp: prove_def Let_def dest!: inventory_time Terminate_time split: sum.splits option.splits if_splits)
qed

lemma evict_time:
  assumes "evict pidfd b h i t = Some (r, es, t')"
  shows "t \<le> t'"
proof (cases "pin (he_Build h) (he_Generation h)")
  case None
  then show ?thesis using assms by (simp add: evict_def)
next
  case (Some target)
  obtain q es1 t1 where q: "Drain (with_ctx (share_ctx evictDrainShare (bd_world b) t) b) (expect target) (t + 1) = Some (q, es1, t1)"
    using assms Some by (auto simp del: not_None_eq simp: evict_def Let_def split: option.splits)
  have "t < t1" using Drain_spec [OF q] by simp
  then show ?thesis
    using assms q Some by (auto simp: evict_def Let_def dest!: prove_time split: sum.splits option.splits if_splits)
qed

lemma terminateRecorded_time: "terminateRecorded pidfd b wo t = Some (r, es, t') \<Longrightarrow> t \<le> t'"
  unfolding terminateRecorded_def by (auto dest!: inventory_time Terminate_time split: option.splits)

lemma proveRecorded_time: "proveRecorded pidfd b wo t = Some (r, es, t') \<Longrightarrow> t \<le> t'"
  unfolding proveRecorded_def by (auto dest!: inventory_time prove_time split: option.splits)

lemma displace_time: "displace pidfd b wo t = Some (r, es, t') \<Longrightarrow> t \<le> t'"
  unfolding displace_def by (auto dest!: evict_time terminateRecorded_time proveRecorded_time split: option.splits if_splits)

lemma Terminate_total:
  assumes "\<forall>t\<ge>T. w_ended (bd_world b) t"
  shows "Terminate pidfd b x t \<noteq> None"
proof -
  have "\<exists>v es t'. reapIdentity pidfd (bd_world b) i 0 u = Some (v, es, t')" for i u using reap_total assms by blast
  then have "reapIdentity pidfd (bd_world b) i 0 u \<noteq> None" for i u by (metis option.distinct(1))
  then show ?thesis by (auto simp del: not_None_eq simp: Terminate_def split: option.splits sum.splits)
qed

lemma Settle_total:
  assumes "\<forall>t\<ge>T. w_ended (bd_world b) t"
  shows "Settle b x t \<noteq> None"
proof -
  have "observeGone (bd_world b) i u \<noteq> None" for i u using observeGone_total [OF assms, of i u] by auto
  then show ?thesis by (auto simp del: not_None_eq simp: Settle_def split: option.splits sum.splits)
qed

lemma Drain_total:
  assumes "\<forall>t\<ge>T. w_ended (bd_world b) t"
  shows "Drain b x t \<noteq> None"
proof -
  have "observeGone (bd_world b) i u \<noteq> None" for i u using observeGone_total [OF assms, of i u] by auto
  then show ?thesis by (auto simp del: not_None_eq simp: Drain_def Let_def split: option.splits sum.splits prod.splits)
qed

lemma of_clear_total [simp]: "of_clear r \<noteq> None"
  by (auto simp: of_clear_def split: prod.splits option.splits)

lemma prove_total:
  assumes "\<forall>t\<ge>T. w_ended (bd_world b) t"
  shows "prove pidfd b target i t \<noteq> None"
proof -
  have "Settle (with_ctx (derive d (bd_world b)) b) x u \<noteq> None" "Terminate pidfd (with_ctx (derive d (bd_world b)) b) x u \<noteq> None" for d x u
    by (rule Settle_total [of T] Terminate_total [of T], use assms in simp)+
  then show ?thesis by (auto simp del: not_None_eq simp: prove_def Let_def split: option.splits sum.splits)
qed

lemma evict_total:
  assumes "\<forall>t\<ge>T. w_ended (bd_world b) t"
  shows "evict pidfd b h i t \<noteq> None"
proof -
  obtain d where d: "share_ctx evictDrainShare (bd_world b) t = derive d (bd_world b)" using share_ctx_derive by blast
  have "Drain (with_ctx (derive d (bd_world b)) b) x u \<noteq> None" for x u
    by (rule Drain_total [of T]) (use assms in simp)
  then show ?thesis using prove_total [OF assms, of pidfd] d by (auto simp del: not_None_eq simp: evict_def Let_def split: option.splits sum.splits)
qed

lemma terminateRecorded_total:
  "\<forall>t\<ge>T. w_ended (bd_world b) t \<Longrightarrow> terminateRecorded pidfd b wo t \<noteq> None"
  using Terminate_total [of T b pidfd] by (auto simp del: not_None_eq simp: terminateRecorded_def split: option.splits)

lemma proveRecorded_total:
  "\<forall>t\<ge>T. w_ended (bd_world b) t \<Longrightarrow> proveRecorded pidfd b wo t \<noteq> None"
  using prove_total [of T b pidfd] by (auto simp del: not_None_eq simp: proveRecorded_def split: option.splits)

lemma settle_loop_total:
  assumes "\<forall>t\<ge>T. w_ended (bd_world b) t"
  shows "\<exists>r. settle_loop b want observing t = Some r"
proof (induction "T - t" arbitrary: t rule: less_induct)
  case less
  obtain q t1 where q: "observe_world b t = (q, t1)" by fastforce
  show ?case
  proof (cases "T \<le> t1")
    case True
    then show ?thesis using assms q by (subst settle_loop.simps) (auto split: sum.splits option.splits)
  next
    case False
    then have "\<exists>r. settle_loop b want observing (t1 + 2) = Some r" using less [of "t1 + 2"] observe_world_time [OF q] by simp
    then show ?thesis using q by (subst settle_loop.simps) (auto split: sum.splits option.splits)
  qed
qed

lemma ensureOnce_total:
  assumes "\<forall>t\<ge>T. w_ended (bd_world b) t"
  shows "ensureOnce pidfd b want replaced t \<noteq> None"
proof -
  have "ensure_settle b want t \<noteq> None" using settle_loop_total [OF assms] by (auto simp: ensure_settle_def Let_def)
  moreover have "displace pidfd b wo u \<noteq> None" for wo u
    using evict_total [OF assms, of pidfd] terminateRecorded_total [OF assms, of pidfd] proveRecorded_total [OF assms, of pidfd]
    by (auto simp del: not_None_eq simp: displace_def split: option.splits)
  moreover have "WaitReady b u \<noteq> None" for u using WaitReady_total [OF assms, of u] by auto
  then have "apply_and_wait b want wo a es u \<noteq> None" for wo a es u by (auto simp del: not_None_eq simp: apply_and_wait_def split: option.splits sum.splits)
  ultimately show ?thesis by (auto simp del: not_None_eq simp: ensureOnce_def Let_def split: option.splits sum.splits)
qed

lemma stopOnce_total:
  assumes "\<forall>t\<ge>T. w_ended (bd_world b) t"
  shows "stopOnce pidfd b t \<noteq> None"
  using evict_total [OF assms, of pidfd] terminateRecorded_total [OF assms, of pidfd] proveRecorded_total [OF assms, of pidfd]
  by (auto simp del: not_None_eq simp: stopOnce_def split: option.splits sum.splits prod.splits)

lemma ensureOnce_time:
  assumes "ensureOnce pidfd b want replaced t = Some (r, es, t')"
  shows "t < t'"
proof -
  obtain q t1 where q: "ensure_settle b want t = Some (q, t1)" using assms by (auto simp: ensureOnce_def split: option.splits)
  have "t < t1" using settle_loop_spec [OF q [unfolded ensure_settle_def Let_def]] by simp
  then show ?thesis
    using assms q
    by (auto simp: ensureOnce_def Let_def dest!: displace_time apply_and_wait_effects split: option.splits sum.splits if_splits)
qed

lemma stopOnce_time:
  assumes "stopOnce pidfd b t = Some (r, es, t')"
  shows "t < t'"
proof -
  obtain q t1 where q: "observe_world b t = (q, t1)" by fastforce
  show ?thesis
    using assms q observe_world_time [OF q]
    by (auto simp: stopOnce_def dest!: evict_time terminateRecorded_time proveRecorded_time split: sum.splits option.splits if_splits)
qed

lemma Ensure_total:
  assumes "\<forall>t\<ge>T. w_ended (bd_world b) t"
  shows "\<exists>r. Ensure pidfd b want replaced acc t = Some r"
proof (induction "T - t" arbitrary: t acc rule: less_induct)
  case less
  obtain q es t1 where q: "ensureOnce pidfd b want replaced t = Some (q, es, t1)"
    using ensureOnce_total [OF assms, of pidfd want replaced t] by auto
  show ?case
  proof (cases "T \<le> t1")
    case True
    then show ?thesis using assms q by (subst Ensure.simps) (auto split: sum.splits)
  next
    case False
    then have "\<exists>r. Ensure pidfd b want replaced (acc @ es) (t1 + 2) = Some r" using less [of "t1 + 2"] ensureOnce_time [OF q] by simp
    then show ?thesis using q by (subst Ensure.simps) (auto split: sum.splits)
  qed
qed

lemma Stop_total:
  assumes "\<forall>t\<ge>T. w_ended (bd_world b) t"
  shows "\<exists>r. Stop pidfd b acc t = Some r"
proof (induction "T - t" arbitrary: t acc rule: less_induct)
  case less
  obtain q es t1 where q: "stopOnce pidfd b t = Some (q, es, t1)" using stopOnce_total [OF assms, of pidfd t] by auto
  show ?case
  proof (cases "T \<le> t1")
    case True
    then show ?thesis using assms q by (subst Stop.simps) (auto split: sum.splits option.splits)
  next
    case False
    then have "\<exists>r. Stop pidfd b (acc @ es) (t1 + 2) = Some r" using less [of "t1 + 2"] stopOnce_time [OF q] by simp
    then show ?thesis using q by (subst Stop.simps) (auto split: sum.splits option.splits)
  qed
qed

subsection \<open>A foreign incumbent is replaced\<close>

text \<open>
  A machine on which a daemon of another protocol, recorded as build \<open>v1\<close>, leaves when it is signalled; the service then
  starts build \<open>v2\<close>.
\<close>

definition foreign_world :: world where
  "foreign_world = quiet_world\<lparr>w_table := (\<lambda>t pid. if pid = 42 \<and> t < 12 then Some \<lparr> pr_serial = 1, pr_info = \<lparr> pi_start = 7, pi_comm = [],
       pi_group = 42, pi_session = 42, pi_zombie = False, pi_stopped = False, pi_exiting = False \<rparr> \<rparr> else None)\<rparr>"

definition foreign_boundary :: boundary where
  "foreign_boundary = quiet_boundary\<lparr>bd_world := foreign_world, bd_acquire := (\<lambda>t. if t < 12 then Inl [ErrProtocolMismatch] else Inr 43),
     bd_health := (\<lambda>_. Inr \<lparr> he_Phase = PhaseReady, he_Protocol = ProtocolVersion, he_Generation = 4, he_PID = 43, he_Build = ''v2'' \<rparr>)\<rparr>"

definition foreign_owner :: Owner where
  "foreign_owner = \<lparr> own_PID = 42, own_Start = 7, own_Boot = 9, own_Generation = 3, own_Build = ''v1'' \<rparr>"

lemma foreign_ok: "worlds_ok foreign_boundary"
  by (auto simp: worlds_ok_def persistent_def born_def foreign_boundary_def foreign_world_def quiet_boundary_def owner_identity_def
      split: if_splits)

lemma foreign_fields:
  "bd_world foreign_boundary = foreign_world" "bd_owner foreign_boundary t = Inr (Some foreign_owner)"
  "bd_acquire foreign_boundary t = (if t < 12 then Inl [ErrProtocolMismatch] else Inr 43)" "bd_ready foreign_boundary t = None"
  "bd_reach foreign_boundary t = None" "bd_apply foreign_boundary t = None" "bd_remove foreign_boundary t = None"
  "bd_health foreign_boundary t = Inr \<lparr> he_Phase = PhaseReady, he_Protocol = ProtocolVersion, he_Generation = 4, he_PID = 43, he_Build = ''v2'' \<rparr>"
  by (simp_all add: foreign_boundary_def quiet_boundary_def foreign_owner_def)

definition foreign_seen :: World where
  "foreign_seen = \<lparr> wo_Attach = Some [ErrProtocolMismatch], wo_Health = no_health, wo_Pinned = no_identity, wo_Owner = Some foreign_owner \<rparr>"

lemma foreign_observe: "t < 12 \<Longrightarrow> observe_world foreign_boundary t = (Inr foreign_seen, t + 2)"
  by (simp add: observe_world_def pinned_def foreign_fields foreign_seen_def)

lemma foreign_terminate:
  "terminateRecorded True foreign_boundary foreign_seen 5 = Some (Inr (), [Sent (Signalled 10 SIGTERM 1)], 14)"
  "terminateRecorded True foreign_boundary foreign_seen 3 = Some (Inr (), [Sent (Signalled 8 SIGTERM 1)], 14)"
  by (simp_all add: terminateRecorded_def foreign_seen_def pin_def foreign_owner_def Terminate_def foreign_fields expect_def mismatch_def
      owner_identity_def reap_eval foreign_world_def)

lemma foreign_settle: "ensure_settle foreign_boundary want 0 = Some (Inr (foreign_seen, ActionRestarted), 4)"
  by (simp add: ensure_settle_def Let_def settle_loop.simps foreign_observe) (simp add: foreign_seen_def spent_def Is_def)

lemma foreign_ensure:
  "Ensure True foreign_boundary ''v2'' False [] 0 = Some (Inr \<lparr> en_Before = healthFromReport no_health, en_Did = ActionRestarted,
     en_After = \<lparr> he_Phase = PhaseReady, he_Protocol = ProtocolVersion, he_Generation = 4, he_PID = 43, he_Build = ''v2'' \<rparr> \<rparr>,
     [Sent (Signalled 10 SIGTERM 1), ServiceApplied 14], 18)"
proof -
  have att: "wo_Attach foreign_seen = Some [ErrProtocolMismatch]" "wo_Health foreign_seen = no_health" by (simp_all add: foreign_seen_def)
  have "ensureOnce True foreign_boundary ''v2'' False 0 = Some (Inr \<lparr> en_Before = healthFromReport no_health, en_Did = ActionRestarted,
     en_After = \<lparr> he_Phase = PhaseReady, he_Protocol = ProtocolVersion, he_Generation = 4, he_PID = 43, he_Build = ''v2'' \<rparr> \<rparr>,
     [Sent (Signalled 10 SIGTERM 1), ServiceApplied 14], 18)"
    by (simp add: ensureOnce_def foreign_settle Let_def foreign_fields displace_def att Is_def foreign_terminate apply_and_wait_def
        WaitReady.simps waitReadyOnce_def) (simp add: healthFromReport_def phaseFromWire_def)
  then show ?thesis by (subst Ensure.simps) simp
qed

lemma foreign_stop: "Stop True foreign_boundary [] 0 = Some (Inr (), [Sent (Signalled 8 SIGTERM 1), ServiceRemoved 14], 15)"
proof -
  have att: "wo_Attach foreign_seen = Some [ErrProtocolMismatch]" by (simp add: foreign_seen_def)
  have "stopOnce True foreign_boundary 0 = Some (Inr (), [Sent (Signalled 8 SIGTERM 1)], 14)"
    using foreign_observe [of 0] foreign_terminate(2) by (simp add: stopOnce_def att spent_def Is_def numeral_3_eq_3)
  then show ?thesis by (subst Stop.simps) (simp add: foreign_fields)
qed





lemma ensured_ok_more:
  "ensured_ok b want replaced t en es t' \<Longrightarrow> set es \<subseteq> set es' \<Longrightarrow> ensured_ok b want replaced t en es' t'"
  unfolding ensured_ok_def by (cases "en_Did en = ActionNothing") (simp, (simp, blast))

lemma Ensure_ok:
  assumes "Ensure pidfd b want replaced acc t = Some r"
  shows "\<forall>t0\<le>t. \<forall>en. fst r = Inr en \<longrightarrow> ensured_ok b want replaced t0 en (fst (snd r)) (snd (snd r))"
  using assms
proof (rule Ensure.raw_induct [where P = "\<lambda>pidfd b want replaced acc t r. \<forall>t0\<le>t. \<forall>en. fst r = Inr en \<longrightarrow>
    ensured_ok b want replaced t0 en (fst (snd r)) (snd (snd r))", rotated], intro allI impI, goal_cases)
  case (1 f pidfd b want replaced acc t r t0 en)
  obtain q es t1 where q: "ensureOnce pidfd b want replaced t = Some (q, es, t1)" using 1(2) by (auto split: option.splits)
  have rec: ?case if "f pidfd b want replaced (acc @ es) (t1 + 2) = Some r"
    using 1(1) [OF that] 1(4,5) ensureOnce_time [OF q] by simp
  show ?case
  proof (cases q)
    case (Inl e)
    then show ?thesis using 1(2,5) q rec by (auto split: if_splits)
  next
    case (Inr en')
    then have "ensured_ok b want replaced t0 en' es t1" using ensureOnce_ok [OF _ 1(4) displace_time] q by simp
    moreover have "r = (Inr en', acc @ es, t1)" "en' = en" using 1(2,5) q Inr by auto
    ultimately show ?thesis using ensured_ok_more [of b want replaced t0 en es t1 "acc @ es"] by simp
  qed
qed

text \<open>
  C20: what \<open>Ensure\<close> reports is what it saw. A success reports the wanted build in its ready phase, as a session of this run
  answered it. It reports \<open>ActionNothing\<close> only when no bytes were replaced, and then the report before is the report
  after and names a complete identity; for every other action the LaunchAgent was applied and the report was read
  after that.
\<close>

theorem ensure_reports_truth:
  assumes "Ensure pidfd b want replaced acc t = Some (Inr en, es, t')"
  shows "he_Build (en_After en) = want \<and> he_Phase (en_After en) = PhaseReady \<and> en_Did en \<noteq> actionObserve
    \<and> (if en_Did en = ActionNothing
       then \<not> replaced \<and> en_Before en = en_After en \<and> complete (en_After en)
         \<and> (\<exists>u\<ge>t. u < t' \<and> (\<exists>report. bd_health b u = Inr report \<and> en_After en = healthFromReport report))
       else (\<exists>v u. ServiceApplied v \<in> set es \<and> t \<le> v \<and> v < u \<and> u < t'
         \<and> (\<exists>report. bd_health b u = Inr report \<and> en_After en = healthFromReport report)))"
proof -
  have "ensured_ok b want replaced t en es t'" using Ensure_ok [OF assms] by simp
  then show ?thesis unfolding ensured_ok_def .
qed

theorem ensure_reports_truth_witness:
  "\<exists>v u. ServiceApplied v \<in> set [Sent (Signalled 10 SIGTERM 1), ServiceApplied 14] \<and> v < u \<and> u < 18
    \<and> (\<exists>report. bd_health foreign_boundary u = Inr report)"
  using ensure_reports_truth [OF foreign_ensure] by auto

text \<open>
  C21: the ladders come back. Once the caller's context ends and stays ended, \<open>Ensure\<close> and \<open>Stop\<close> return, whatever the socket,
  the record, the process table and the service layer answer, with or without pidfds.
\<close>

theorem ladders_return:
  assumes "\<exists>T. \<forall>u\<ge>T. w_ended (bd_world b) u"
  shows "(\<exists>r es t'. Ensure pidfd b want replaced acc t = Some (r, es, t')) \<and> (\<exists>r es t'. Stop pidfd b acc t = Some (r, es, t'))"
  using assms Ensure_total [of _ b pidfd want replaced acc t] Stop_total [of _ b pidfd acc t] by (metis prod_cases3)

theorem ladders_return_witness:
  "(\<exists>r es t'. Ensure False quiet_boundary ''v2'' True [] 0 = Some (r, es, t')) \<and> (\<exists>r es t'. Stop False quiet_boundary [] 0 = Some (r, es, t'))"
  by (rule ladders_return) (auto simp: quiet_boundary_def quiet_world_def)

end
