(* ===== verification/Names.thy ===== *)
theory Names
  imports Prelude "HOL-Library.Char_ord" "HOL-Library.List_Lexorder"
begin

text \<open>
  Paths and labels: the part of \<^verbatim>\<open>path/filepath\<close> the sources use (\<open>Clean\<close>, \<open>Join\<close>, \<open>Base\<close>, \<open>IsAbs\<close> on a slash-separated
  system) and the one rule a label must pass, \<^verbatim>\<open>internal/label/label.go\<close>.
\<close>

subsection \<open>Paths\<close>

text \<open>The elements of a path: the runs between slashes.\<close>

fun elems :: "string \<Rightarrow> string list" where
  "elems [] = [[]]"
| "elems (c # s) =
    (if c = CHR ''/'' then [] # elems s
     else case elems s of [] \<Rightarrow> [[c]] | e # es \<Rightarrow> (c # e) # es)"

fun join :: "string list \<Rightarrow> string" where
  "join [] = []"
| "join [e] = e"
| "join (e # es) = e @ CHR ''/'' # join es"

definition IsAbs :: "string \<Rightarrow> bool" where
  "IsAbs p \<longleftrightarrow> (case p of [] \<Rightarrow> False | c # s \<Rightarrow> c = CHR ''/'')"

text \<open>One element of \<open>Clean\<close>, on the elements kept so far, the last one first.\<close>

definition clean_elem :: "bool \<Rightarrow> string list \<Rightarrow> string \<Rightarrow> string list" where
  "clean_elem rooted out e =
    (if e = [] \<or> e = ''.'' then out
     else if e = ''..'' then
       (if out \<noteq> [] \<and> hd out \<noteq> ''..'' then tl out else if rooted then out else e # out)
     else e # out)"

definition Clean :: "string \<Rightarrow> string" where
  "Clean p =
    (if p = [] then ''.''
     else let rooted = IsAbs p; out = join (rev (foldl (clean_elem rooted) [] (elems p))) in
       if rooted then CHR ''/'' # out else if out = [] then ''.'' else out)"

definition Join :: "string list \<Rightarrow> string" where
  "Join es = (let parts = filter (\<lambda>e. e \<noteq> []) es in if parts = [] then [] else Clean (join parts))"

definition Base :: "string \<Rightarrow> string" where
  "Base p =
    (if p = [] then ''.''
     else let q = rev (dropWhile (\<lambda>c. c = CHR ''/'') (rev p)) in
       if q = [] then ''/'' else rev (takeWhile (\<lambda>c. c \<noteq> CHR ''/'') (rev q)))"

subsection \<open>Labels (label.go)\<close>

definition label_char :: "char \<Rightarrow> bool" where
  "label_char c \<longleftrightarrow> (CHR ''a'' \<le> c \<and> c \<le> CHR ''z'') \<or> (CHR ''A'' \<le> c \<and> c \<le> CHR ''Z'')
    \<or> (CHR ''0'' \<le> c \<and> c \<le> CHR ''9'') \<or> c = CHR ''.'' \<or> c = CHR ''-''"

fun contains :: "string \<Rightarrow> string \<Rightarrow> bool" where
  "contains [] sub \<longleftrightarrow> sub = []"
| "contains (c # s) sub \<longleftrightarrow> take (length sub) (c # s) = sub \<or> contains s sub"

definition label_Validate :: "string \<Rightarrow> bool" where
  "label_Validate l \<longleftrightarrow>
    \<not> (l = [] \<or> Base l \<noteq> l \<or> l = ''.'' \<or> l = ''..'' \<or> hd l = CHR ''.'' \<or> last l = CHR ''.'' \<or> contains l ''..'')
    \<and> list_all label_char l"

subsection \<open>Clean paths\<close>

definition component :: "string \<Rightarrow> bool" where
  "component e \<longleftrightarrow> e \<noteq> [] \<and> CHR ''/'' \<notin> set e \<and> e \<noteq> ''.'' \<and> e \<noteq> ''..''"

lemma elems_not_Nil [simp]: "elems s \<noteq> []"
  by (induction s) (auto split: list.splits)

lemma elems_noslash: "CHR ''/'' \<notin> set e \<Longrightarrow> elems e = [e]"
  by (induction e) auto

lemma elems_append: "CHR ''/'' \<notin> set e \<Longrightarrow> elems (e @ CHR ''/'' # s) = e # elems s"
  by (induction e) auto

lemma elems_join: "es \<noteq> [] \<Longrightarrow> list_all (\<lambda>e. CHR ''/'' \<notin> set e) es \<Longrightarrow> elems (join es) = es"
  by (induction es rule: join.induct) (auto simp: elems_noslash elems_append)

lemma elems_members: "e \<in> set (elems s) \<Longrightarrow> CHR ''/'' \<notin> set e"
  by (induction s arbitrary: e) (auto split: if_splits list.splits)

lemma clean_elem_component: "component e \<Longrightarrow> clean_elem rooted out e = e # out"
  by (auto simp: clean_elem_def component_def)

lemma clean_components: "list_all component es \<Longrightarrow> foldl (clean_elem rooted) out es = rev es @ out"
  by (induction es arbitrary: out) (auto simp: clean_elem_component)

lemma clean_rooted: "list_all component out \<Longrightarrow> list_all (\<lambda>e. CHR ''/'' \<notin> set e) es \<Longrightarrow>
    list_all component (foldl (clean_elem True) out es)"
proof (induction es arbitrary: out)
  case (Cons e es)
  have "list_all component (clean_elem True out e)"
    using Cons(2,3) by (auto simp: clean_elem_def component_def list_all_iff dest: list.set_sel(2))
  then show ?case using Cons by simp
qed simp

text \<open>A clean absolute path is the list of its components.\<close>

definition rooted_path :: "string list \<Rightarrow> string" where
  "rooted_path es = CHR ''/'' # join es"

lemma Clean_rooted_path:
  assumes "list_all component es"
  shows "Clean (rooted_path es) = rooted_path es"
proof (cases es)
  case Nil
  then show ?thesis by (simp add: Clean_def rooted_path_def IsAbs_def clean_elem_def Let_def)
next
  case Cons
  have "list_all (\<lambda>e. CHR ''/'' \<notin> set e) es" using assms by (auto simp: list_all_iff component_def)
  then have "elems (rooted_path es) = [] # es" using elems_join Cons by (simp add: rooted_path_def)
  moreover have "clean_elem True [] [] = []" by (simp add: clean_elem_def)
  ultimately show ?thesis
    using assms clean_components [OF assms, of True "[]"] by (simp add: Clean_def rooted_path_def IsAbs_def Let_def)
qed

lemma Clean_absolute:
  assumes "IsAbs p"
  obtains es where "list_all component es" "Clean p = rooted_path es"
proof -
  have "list_all component (foldl (clean_elem True) [] (elems p))"
    using clean_rooted [of "[]" "elems p"] elems_members by (auto simp: list_all_iff)
  then have "list_all component (rev (foldl (clean_elem True) [] (elems p)))" by (simp add: list_all_iff)
  moreover have "Clean p = rooted_path (rev (foldl (clean_elem True) [] (elems p)))"
    using assms by (auto simp: Clean_def rooted_path_def IsAbs_def split: list.splits)
  ultimately show ?thesis using that by blast
qed

lemma rooted_path_inj:
  assumes "list_all component es" "list_all component fs" "rooted_path es = rooted_path fs"
  shows "es = fs"
proof -
  have ns: "list_all (\<lambda>e. CHR ''/'' \<notin> set e) xs" "join xs = [] \<longleftrightarrow> xs = []" if "list_all component xs" for xs
  proof -
    show "list_all (\<lambda>e. CHR ''/'' \<notin> set e) xs" using that by (auto simp: list_all_iff component_def)
    show "join xs = [] \<longleftrightarrow> xs = []" using that by (cases xs rule: join.cases) (auto simp: component_def)
  qed
  have "join es = join fs" using assms(3) by (simp add: rooted_path_def)
  then show ?thesis using elems_join ns assms(1,2) by (metis)
qed

lemma join_snoc: "es \<noteq> [] \<Longrightarrow> join (es @ [e]) = join es @ CHR ''/'' # e"
  by (induction es rule: join.induct) auto

lemma label_component:
  assumes "label_Validate l"
  shows "component l"
proof -
  have "CHR ''/'' \<notin> set l" using assms by (auto simp: label_Validate_def list_all_iff label_char_def less_eq_char_def)
  then show ?thesis using assms by (auto simp: label_Validate_def component_def)
qed

text \<open>Joining one component below a clean absolute directory.\<close>

lemma Join_component:
  assumes "list_all component es" "component e"
  shows "Join [rooted_path es, e] = rooted_path (es @ [e])"
proof -
  have ne: "rooted_path es \<noteq> []" "e \<noteq> []" using assms(2) by (auto simp: rooted_path_def component_def)
  have all: "list_all component (es @ [e])" using assms by simp
  have "Join [rooted_path es, e] = Clean (rooted_path es @ CHR ''/'' # e)" using ne by (simp add: Join_def Let_def)
  also have "\<dots> = rooted_path (es @ [e])"
  proof (cases "es = []")
    case True
    have "elems (''//'' @ e) = [[], [], e]" using assms(2) by (simp add: elems_noslash component_def)
    then have "Clean (''//'' @ e) = rooted_path [e]"
      using clean_elem_component [OF assms(2)] by (simp add: Clean_def IsAbs_def rooted_path_def Let_def clean_elem_def)
    then show ?thesis using True by (simp add: rooted_path_def)
  next
    case False
    then have "rooted_path es @ CHR ''/'' # e = rooted_path (es @ [e])" by (simp add: rooted_path_def join_snoc)
    then show ?thesis using Clean_rooted_path [OF all] by simp
  qed
  finally show ?thesis .
qed

text \<open>
  A label cannot leave the directory it is joined into. Below every absolute directory, as \<open>Clean\<close> returns it, joining
  a valid label names a direct child of that directory, is already in the form \<open>Clean\<close> returns, and distinct labels name
  distinct children.
\<close>

lemma label_confined:
  assumes "IsAbs dir" and "label_Validate l" and "label_Validate l'"
  shows "Clean (Join [Clean dir, l]) = Join [Clean dir, l]
    \<and> (\<exists>es. Clean dir = rooted_path es \<and> Join [Clean dir, l] = rooted_path (es @ [l]) \<and> list_all component (es @ [l]))
    \<and> (Join [Clean dir, l] = Join [Clean dir, l'] \<longrightarrow> l = l')"
proof -
  obtain es where es: "list_all component es" "Clean dir = rooted_path es" using Clean_absolute [OF assms(1)] by blast
  have c: "component l" "component l'" using label_component assms(2,3) by auto
  note j = Join_component [OF es(1) c(1)] Join_component [OF es(1) c(2)]
  have all: "list_all component (es @ [l])" "list_all component (es @ [l'])" using es(1) c by auto
  show ?thesis
    using Clean_rooted_path [OF all(1)] rooted_path_inj [OF all] j es(2) all(1) by auto
qed

end
