(* ===== verification/Ownership.thy ===== *)
theory Ownership
  imports ProcReap
begin

text \<open>
  The ownership scope, \<^verbatim>\<open>own.go\<close> and \<^verbatim>\<open>ownership_natural.go\<close>: admission of the verbs that start processes, what
  each registers, the settlement of a scope, and the lease of a natural drain.

  Every operation here runs under the scope's mutex, so it is one function on the state \<open>Owned\<close>, and the
  relation \<open>own_step\<close> lets the goroutines interleave them. A pointer is a number: a child, an adopted process
  and a lease are named by theirs, a reservation by its position.
\<close>

subsection \<open>State\<close>

record reservation =
  rv_verb :: string
  rv_child :: "nat option"
  rv_tracked :: "nat option"
  rv_unproven :: bool
  rv_done :: bool

record NaturalDrain =
  nd_producers :: "nat list"
  nd_generation :: u64
  nd_admissions :: u64
  nd_serial :: u64
  nd_committed :: bool

text \<open>
  How an adopted process left the scope: its \<open>Stop\<close> returned the verdict of the reap ladder, or its caller released it on an
  exit proof of its own.
\<close>

datatype adopted_end = Stopped Reap | ReleasedByCaller

text \<open>
  \<open>ow_exits\<close> is the terminal the driver of a child has put on its \<open>Done\<close> channel, \<open>ow_ended\<close> the end of an adopted process.
  Both are written once.
\<close>

record Owned =
  ow_policy :: ShutdownPolicy
  ow_generation :: u64
  ow_closed :: bool
  ow_released :: bool
  ow_drain :: "nat option"
  ow_drains :: "NaturalDrain list"
  ow_admissions :: u64
  ow_reservations :: "nat \<Rightarrow> reservation"
  ow_reserved :: nat
  ow_starting :: "nat list"
  ow_children :: "nat list"
  ow_tracked :: "nat list"
  ow_exits :: "nat \<Rightarrow> Reap option"
  ow_ended :: "nat \<Rightarrow> adopted_end option"

datatype own_error = ErrScopeSettling | ErrDrainBusy | NotPreserving | NotProducer | ErrUnsettledScope | ErrStoreClose

definition no_reservation :: reservation where
  "no_reservation = \<lparr> rv_verb = [], rv_child = None, rv_tracked = None, rv_unproven = False, rv_done = False \<rparr>"

definition newOwned :: "ShutdownPolicy \<Rightarrow> u64 \<Rightarrow> Owned" where
  "newOwned policy generation =
    \<lparr> ow_policy = policy, ow_generation = generation, ow_closed = False, ow_released = False, ow_drain = None, ow_drains = [],
      ow_admissions = 0, ow_reservations = (\<lambda>_. no_reservation), ow_reserved = 0, ow_starting = [], ow_children = [], ow_tracked = [],
      ow_exits = (\<lambda>_. None), ow_ended = (\<lambda>_. None) \<rparr>"

subsection \<open>Admission\<close>

definition reserve :: "string \<Rightarrow> Owned \<Rightarrow> own_error + (nat \<times> Owned)" where
  "reserve verb s =
    (if ow_closed s then Inl ErrScopeSettling
     else if ow_drain s \<noteq> None then Inl ErrDrainBusy
     else let r = ow_reserved s in
       Inr (r, s\<lparr>ow_admissions := ow_admissions s + 1, ow_reserved := Suc r,
                 ow_reservations := (ow_reservations s)(r := no_reservation\<lparr>rv_verb := verb\<rparr>),
                 ow_starting := r # ow_starting s\<rparr>))"

definition change :: "nat \<Rightarrow> (reservation \<Rightarrow> reservation) \<Rightarrow> Owned \<Rightarrow> Owned" where
  "change r f s = s\<lparr>ow_reservations := (ow_reservations s)(r := f (ow_reservations s r))\<rparr>"

definition resolve :: "nat \<Rightarrow> Owned \<Rightarrow> Owned" where
  "resolve r s =
    (if r \<notin> set (ow_starting s) then s
     else change r (\<lambda>v. v\<lparr>rv_done := True\<rparr>) (s\<lparr>ow_starting := filter (\<lambda>x. x \<noteq> r) (ow_starting s)\<rparr>))"

definition hold_child :: "nat \<Rightarrow> nat \<Rightarrow> Owned \<Rightarrow> Owned" where
  "hold_child r c s =
    resolve r (change r (\<lambda>v. v\<lparr>rv_child := Some c\<rparr>) (s\<lparr>ow_children := List.insert c (ow_children s)\<rparr>))"

definition track :: "nat \<Rightarrow> nat \<Rightarrow> Owned \<Rightarrow> Owned" where
  "track r x s =
    resolve r (change r (\<lambda>v. v\<lparr>rv_tracked := Some x\<rparr>) (s\<lparr>ow_tracked := List.insert x (ow_tracked s)\<rparr>))"

definition mark_unproven :: "nat \<Rightarrow> Owned \<Rightarrow> Owned" where
  "mark_unproven r s = change r (\<lambda>v. v\<lparr>rv_unproven := True\<rparr>) s"

definition abandon :: "nat \<Rightarrow> Owned \<Rightarrow> Owned" where
  "abandon r s = (if rv_unproven (ow_reservations s r) then s else resolve r s)"

text \<open>The driver of a child publishes its terminal; \<open>Stop\<close> or \<open>Release\<close> of an adopted process succeeds.\<close>

definition publish_terminal :: "nat \<Rightarrow> Reap \<Rightarrow> Owned \<Rightarrow> Owned" where
  "publish_terminal c reap s = s\<lparr>ow_exits := (ow_exits s)(c \<mapsto> reap)\<rparr>"

definition end_adopted :: "nat \<Rightarrow> adopted_end \<Rightarrow> Owned \<Rightarrow> Owned" where
  "end_adopted x how s = s\<lparr>ow_ended := (ow_ended s)(x \<mapsto> how)\<rparr>"

text \<open>\<open>releaseOnExit\<close>, with the terminal it received.\<close>

definition releaseOnExit :: "nat \<Rightarrow> Reap \<Rightarrow> Owned \<Rightarrow> Owned" where
  "releaseOnExit c reap s =
    (if reap = reapUndetermined then s else s\<lparr>ow_children := filter (\<lambda>x. x \<noteq> c) (ow_children s)\<rparr>)"

definition untrack :: "nat \<Rightarrow> Owned \<Rightarrow> Owned" where
  "untrack x s = s\<lparr>ow_tracked := filter (\<lambda>y. y \<noteq> x) (ow_tracked s)\<rparr>"

subsection \<open>The natural drain\<close>

record NaturalProof =
  np_drain :: nat
  np_generation :: u64
  np_admissions :: u64
  np_serial :: u64

definition BeginNaturalDrain :: "nat list \<Rightarrow> Owned \<Rightarrow> own_error + (nat \<times> Owned)" where
  "BeginNaturalDrain producers s =
    (if ow_policy s \<noteq> PreserveOwned then Inl NotPreserving
     else if ow_closed s \<or> ow_drain s \<noteq> None then Inl ErrDrainBusy
     else if \<not> list_all (\<lambda>p. p \<in> set (ow_children s)) producers then Inl NotProducer
     else let d = length (ow_drains s) in
       Inr (d, s\<lparr>ow_drains := ow_drains s @ [\<lparr> nd_producers = producers, nd_generation = ow_generation s,
                   nd_admissions = ow_admissions s, nd_serial = 0, nd_committed = False \<rparr>],
                 ow_drain := Some d\<rparr>))"

text \<open>Whether a lease is the one in force and not yet consumed.\<close>

definition lease :: "nat \<Rightarrow> Owned \<Rightarrow> bool" where
  "lease d s \<longleftrightarrow> ow_drain s = Some d \<and> \<not> nd_committed (ow_drains s ! d)"

text \<open>The end of a successful \<open>Wait\<close>.\<close>

definition mint_proof :: "nat \<Rightarrow> Owned \<Rightarrow> own_error + (NaturalProof \<times> Owned)" where
  "mint_proof d s =
    (if \<not> lease d s \<or> ow_starting s \<noteq> [] then Inl ErrDrainBusy
     else let nd = (ow_drains s ! d)\<lparr>nd_serial := nd_serial (ow_drains s ! d) + 1\<rparr> in
       Inr (\<lparr> np_drain = d, np_generation = nd_generation nd, np_admissions = nd_admissions nd, np_serial = nd_serial nd \<rparr>,
            s\<lparr>ow_drains := (ow_drains s)[d := nd]\<rparr>))"

definition Commit :: "nat \<Rightarrow> NaturalProof \<Rightarrow> Owned \<Rightarrow> own_error + Owned" where
  "Commit d p s =
    (let nd = ow_drains s ! d in
     if \<not> lease d s \<or> np_drain p \<noteq> d \<or> np_serial p = 0 \<or> np_serial p \<noteq> nd_serial nd \<or> np_generation p \<noteq> nd_generation nd
        \<or> np_admissions p \<noteq> nd_admissions nd \<or> ow_admissions s \<noteq> nd_admissions nd \<or> ow_starting s \<noteq> []
     then Inl ErrDrainBusy
     else Inr (s\<lparr>ow_drains := (ow_drains s)[d := nd\<lparr>nd_committed := True\<rparr>], ow_closed := True\<rparr>))"

definition Abort :: "nat \<Rightarrow> Owned \<Rightarrow> own_error + Owned" where
  "Abort d s = (if \<not> lease d s \<or> ow_closed s then Inl ErrDrainBusy else Inr (s\<lparr>ow_drain := None\<rparr>))"

subsection \<open>Closing\<close>

text \<open>What \<open>settle\<close> and \<open>settleNatural\<close> do under the mutex before they wait.\<close>

definition close_admission :: "Owned \<Rightarrow> own_error + Owned" where
  "close_admission s =
    (if ow_policy s = PreserveOwned \<and> (case ow_drain s of None \<Rightarrow> False | Some d \<Rightarrow> \<not> nd_committed (ow_drains s ! d))
     then Inl ErrDrainBusy else Inr (s\<lparr>ow_closed := True\<rparr>))"

subsection \<open>Interleaving\<close>

inductive own_step :: "Owned \<Rightarrow> Owned \<Rightarrow> bool" where
  step_reserve: "reserve verb s = Inr (r, s') \<Longrightarrow> own_step s s'"
| step_hold: "r \<in> set (ow_starting s) \<Longrightarrow> own_step s (hold_child r c s)"
| step_track: "r \<in> set (ow_starting s) \<Longrightarrow> own_step s (track r x s)"
| step_unproven: "r \<in> set (ow_starting s) \<Longrightarrow> ow_policy s = PreserveOwned \<Longrightarrow> own_step s (mark_unproven r s)"
| step_abandon: "own_step s (abandon r s)"
| step_terminal: "ow_exits s c = None \<Longrightarrow> own_step s (publish_terminal c reap s)"
| step_exit: "ow_exits s c = Some reap \<Longrightarrow> own_step s (releaseOnExit c reap s)"
| step_ended: "ow_ended s x = None \<Longrightarrow> (\<And>reap. how = Stopped reap \<Longrightarrow> reap \<noteq> reapUndetermined) \<Longrightarrow> own_step s (end_adopted x how s)"
| step_untrack: "ow_ended s x \<noteq> None \<Longrightarrow> own_step s (untrack x s)"
| step_begin: "BeginNaturalDrain producers s = Inr (d, s') \<Longrightarrow> own_step s s'"
| step_proof: "mint_proof d s = Inr (p, s') \<Longrightarrow> own_step s s'"
| step_commit: "Commit d p s = Inr s' \<Longrightarrow> own_step s s'"
| step_abort: "Abort d s = Inr s' \<Longrightarrow> own_step s s'"
| step_close: "close_admission s = Inr s' \<Longrightarrow> own_step s s'"

inductive_cases own_stepE: "own_step s s'"

subsection \<open>The invariant\<close>

definition own_inv :: "Owned \<Rightarrow> bool" where
  "own_inv s \<longleftrightarrow>
    (\<forall>r. r \<in> set (ow_starting s) \<longleftrightarrow> r < ow_reserved s \<and> \<not> rv_done (ow_reservations s r))
    \<and> (\<forall>d. ow_drain s = Some d \<longrightarrow> d < length (ow_drains s))
    \<and> (\<forall>c\<in>set (ow_children s). \<exists>r < ow_reserved s. rv_child (ow_reservations s r) = Some c)
    \<and> (\<forall>x\<in>set (ow_tracked s). \<exists>r < ow_reserved s. rv_tracked (ow_reservations s r) = Some x)
    \<and> (\<forall>r. rv_child (ow_reservations s r) \<noteq> None \<or> rv_tracked (ow_reservations s r) \<noteq> None \<longrightarrow> r < ow_reserved s \<and> r \<notin> set (ow_starting s))
    \<and> (ow_policy s \<noteq> PreserveOwned \<longrightarrow> (\<forall>r. \<not> rv_unproven (ow_reservations s r)))"

lemmas own_defs = reserve_def change_def resolve_def hold_child_def track_def mark_unproven_def abandon_def releaseOnExit_def
  untrack_def publish_terminal_def end_adopted_def BeginNaturalDrain_def lease_def mint_proof_def Commit_def Abort_def close_admission_def Let_def

lemma own_inv_init: "own_inv (newOwned policy generation)"
  by (simp add: own_inv_def newOwned_def no_reservation_def)

lemma inv_reserve:
  assumes "own_inv s" and "reserve verb s = Inr (r, s')"
  shows "own_inv s'"
proof -
  have s': "s' = s\<lparr>ow_admissions := ow_admissions s + 1, ow_reserved := Suc (ow_reserved s),
      ow_reservations := (ow_reservations s)(ow_reserved s := no_reservation\<lparr>rv_verb := verb\<rparr>),
      ow_starting := ow_reserved s # ow_starting s\<rparr>"
    using assms(2) by (auto simp: reserve_def Let_def split: if_splits)
  have keep: "\<exists>r < Suc (ow_reserved s). P (((ow_reservations s)(ow_reserved s := x)) r)"
    if "\<exists>r < ow_reserved s. P (ow_reservations s r)" for P x
    using that by (metis fun_upd_apply less_SucI less_irrefl)
  show ?thesis
    using assms(1) keep [of "\<lambda>v. rv_child v = Some _"] keep [of "\<lambda>v. rv_tracked v = Some _"]
    unfolding own_inv_def s' by (simp add: no_reservation_def less_Suc_eq) blast
qed

lemma inv_resolve: "own_inv s \<Longrightarrow> own_inv (resolve r s)"
  by (auto simp: own_inv_def resolve_def change_def)

lemma registered_keep:
  assumes "own_inv s" and "r \<in> set (ow_starting s)"
  shows "c \<in> set (ow_children s) \<Longrightarrow> \<exists>q < ow_reserved s. q \<noteq> r \<and> rv_child (ow_reservations s q) = Some c"
    and "x \<in> set (ow_tracked s) \<Longrightarrow> \<exists>q < ow_reserved s. q \<noteq> r \<and> rv_tracked (ow_reservations s q) = Some x"
  using assms unfolding own_inv_def by (metis option.distinct(1))+

lemma inv_hold:
  assumes "own_inv s" and "r \<in> set (ow_starting s)"
  shows "own_inv (hold_child r c s)"
proof -
  have "\<exists>q < ow_reserved s. rv_child (ow_reservations (hold_child r c s) q) = Some c'" if "c' \<in> set (ow_children (hold_child r c s))" for c'
    using that assms registered_keep(1) [OF assms, of c'] unfolding own_inv_def
    by (auto simp: hold_child_def resolve_def change_def)
  moreover have "\<exists>q < ow_reserved s. rv_tracked (ow_reservations (hold_child r c s) q) = Some x" if "x \<in> set (ow_tracked s)" for x
    using that assms registered_keep(2) [OF assms, of x] by (auto simp: hold_child_def resolve_def change_def)
  ultimately show ?thesis
    using assms by (simp add: own_inv_def hold_child_def resolve_def change_def) blast
qed

lemma inv_track:
  assumes "own_inv s" and "r \<in> set (ow_starting s)"
  shows "own_inv (track r x s)"
proof -
  have "\<exists>q < ow_reserved s. rv_tracked (ow_reservations (track r x s) q) = Some x'" if "x' \<in> set (ow_tracked (track r x s))" for x'
    using that assms registered_keep(2) [OF assms, of x'] unfolding own_inv_def
    by (auto simp: track_def resolve_def change_def)
  moreover have "\<exists>q < ow_reserved s. rv_child (ow_reservations (track r x s) q) = Some c" if "c \<in> set (ow_children s)" for c
    using that assms registered_keep(1) [OF assms, of c] by (auto simp: track_def resolve_def change_def)
  ultimately show ?thesis
    using assms by (simp add: own_inv_def track_def resolve_def change_def) blast
qed

lemma inv_step: "own_step s s' \<Longrightarrow> own_inv s \<Longrightarrow> own_inv s'"
proof (induction rule: own_step.induct)
  case (step_reserve verb s r s')
  then show ?case by (rule inv_reserve [rotated])
next
  case (step_hold r s c)
  then show ?case by (simp add: inv_hold)
next
  case (step_track r s x)
  then show ?case by (simp add: inv_track)
next
  case (step_unproven r s)
  then show ?case by (auto simp: own_inv_def mark_unproven_def change_def)
next
  case (step_abandon s r)
  then show ?case by (simp add: abandon_def inv_resolve)
next
  case (step_exit s c reap)
  then show ?case by (auto simp: own_inv_def releaseOnExit_def)
next
  case (step_untrack s x)
  then show ?case by (auto simp: own_inv_def untrack_def)
qed (auto simp: own_inv_def own_defs split: if_splits)

lemma inv_reachable: "own_step\<^sup>*\<^sup>* (newOwned policy generation) s \<Longrightarrow> own_inv s"
  by (induction rule: rtranclp_induct) (auto intro: own_inv_init inv_step)


subsection \<open>What a step keeps\<close>

lemma child_fixed:
  "own_step s s' \<Longrightarrow> own_inv s \<Longrightarrow> rv_child (ow_reservations s r) = Some c \<Longrightarrow> rv_child (ow_reservations s' r) = Some c"
  by (erule own_stepE) (auto simp: own_inv_def own_defs split: if_splits)

lemma tracked_fixed:
  "own_step s s' \<Longrightarrow> own_inv s \<Longrightarrow> rv_tracked (ow_reservations s r) = Some c \<Longrightarrow> rv_tracked (ow_reservations s' r) = Some c"
  by (erule own_stepE) (auto simp: own_inv_def own_defs split: if_splits)

lemma registered_step:
  "own_step s s' \<Longrightarrow> own_inv s \<Longrightarrow> c \<in> set (ow_children s') \<Longrightarrow>
     c \<in> set (ow_children s) \<or> (\<exists>r\<in>set (ow_starting s). rv_child (ow_reservations s' r) = Some c)"
  by (erule own_stepE) (auto simp: own_inv_def own_defs split: if_splits)

lemma adopted_step:
  "own_step s s' \<Longrightarrow> own_inv s \<Longrightarrow> c \<in> set (ow_tracked s') \<Longrightarrow>
     c \<in> set (ow_tracked s) \<or> (\<exists>r\<in>set (ow_starting s). rv_tracked (ow_reservations s' r) = Some c)"
  by (erule own_stepE) (auto simp: own_inv_def own_defs split: if_splits)

text \<open>What is registered leaves the scope only with a proven end, and an end is not taken back.\<close>

definition proven_exit :: "Owned \<Rightarrow> nat \<Rightarrow> bool" where
  "proven_exit s c \<longleftrightarrow> (\<exists>reap. ow_exits s c = Some reap \<and> reap \<noteq> reapUndetermined)"

definition proven_end :: "Owned \<Rightarrow> nat \<Rightarrow> bool" where
  "proven_end s x \<longleftrightarrow> ow_ended s x = Some ReleasedByCaller \<or> (\<exists>reap. ow_ended s x = Some (Stopped reap) \<and> reap \<noteq> reapUndetermined)"

definition ended_inv :: "Owned \<Rightarrow> bool" where
  "ended_inv s \<longleftrightarrow> (\<forall>r c. rv_child (ow_reservations s r) = Some c \<longrightarrow> c \<in> set (ow_children s) \<or> proven_exit s c)
    \<and> (\<forall>r x. rv_tracked (ow_reservations s r) = Some x \<longrightarrow> x \<in> set (ow_tracked s) \<or> proven_end s x)
    \<and> (\<forall>x. ow_ended s x \<noteq> None \<longrightarrow> proven_end s x)"

lemma ended_init: "ended_inv (newOwned policy generation)"
  by (simp add: ended_inv_def newOwned_def no_reservation_def)

lemma ended_invD:
  assumes "ended_inv s"
  shows "rv_child (ow_reservations s r) = Some c \<Longrightarrow> c \<in> set (ow_children s) \<or> proven_exit s c"
    and "rv_tracked (ow_reservations s r) = Some x \<Longrightarrow> x \<in> set (ow_tracked s) \<or> proven_end s x"
    and "ow_ended s x \<noteq> None \<Longrightarrow> proven_end s x"
  using assms unfolding ended_inv_def by blast+

lemma ended_same:
  assumes "ended_inv s" "ow_exits s' = ow_exits s" "ow_ended s' = ow_ended s"
    and "\<And>r c. rv_child (ow_reservations s' r) = Some c \<Longrightarrow> c \<in> set (ow_children s') \<or> proven_exit s c"
    and "\<And>r x. rv_tracked (ow_reservations s' r) = Some x \<Longrightarrow> x \<in> set (ow_tracked s') \<or> proven_end s x"
  shows "ended_inv s'"
proof -
  have "proven_exit s' = proven_exit s" "proven_end s' = proven_end s"
    using assms(2,3) by (simp_all add: proven_exit_def proven_end_def fun_eq_iff)
  then show ?thesis using assms unfolding ended_inv_def by simp
qed

lemma ended_kept:
  assumes "ended_inv s" "ow_exits s' = ow_exits s" "ow_ended s' = ow_ended s" "ow_reservations s' = ow_reservations s"
    "ow_children s' = ow_children s" "ow_tracked s' = ow_tracked s"
  shows "ended_inv s'"
  by (rule ended_same [OF assms(1)]) (use assms in \<open>auto simp: ended_inv_def\<close>)

lemma ended_step: "own_step s s' \<Longrightarrow> ended_inv s \<Longrightarrow> ended_inv s'"
proof (induction rule: own_step.induct)
  case (step_reserve verb s r s')
  show ?case by (rule ended_same [OF step_reserve(2)])
    (use step_reserve(1) in \<open>auto simp: reserve_def no_reservation_def Let_def split: if_splits dest: ended_invD [OF step_reserve(2)]\<close>)
next
  case (step_hold r s c)
  show ?case by (rule ended_same [OF step_hold(2)])
    (use step_hold in \<open>auto simp: hold_child_def resolve_def change_def split: if_splits dest: ended_invD [OF step_hold(2)]\<close>)
next
  case (step_track r s x)
  show ?case by (rule ended_same [OF step_track(2)])
    (use step_track in \<open>auto simp: track_def resolve_def change_def split: if_splits dest: ended_invD [OF step_track(2)]\<close>)
next
  case (step_unproven r s)
  show ?case by (rule ended_same [OF step_unproven(3)])
    (use step_unproven in \<open>auto simp: mark_unproven_def change_def split: if_splits dest: ended_invD [OF step_unproven(3)]\<close>)
next
  case (step_abandon s r)
  show ?case by (rule ended_same [OF step_abandon])
    (use step_abandon in \<open>auto simp: abandon_def resolve_def change_def split: if_splits dest: ended_invD [OF step_abandon]\<close>)
next
  case (step_terminal s c reap)
  have "proven_exit s c' \<Longrightarrow> proven_exit (publish_terminal c reap s) c'" "proven_end (publish_terminal c reap s) = proven_end s" for c'
    using step_terminal(1) by (auto simp: proven_exit_def proven_end_def publish_terminal_def fun_eq_iff)
  moreover have "ow_reservations (publish_terminal c reap s) = ow_reservations s" "ow_ended (publish_terminal c reap s) = ow_ended s"
      "ow_children (publish_terminal c reap s) = ow_children s" "ow_tracked (publish_terminal c reap s) = ow_tracked s"
    by (simp_all add: publish_terminal_def)
  ultimately show ?case using ended_invD [OF step_terminal(2)] unfolding ended_inv_def by metis
next
  case (step_exit s c reap)
  have "proven_exit s c" if "reap \<noteq> reapUndetermined" using step_exit(1) that by (simp add: proven_exit_def)
  then show ?case
    by (intro ended_same [OF step_exit(2)]) (auto simp: releaseOnExit_def dest: ended_invD [OF step_exit(2)] split: if_splits)
next
  case (step_ended s x how)
  have "proven_end s y \<Longrightarrow> proven_end (end_adopted x how s) y" "proven_exit (end_adopted x how s) = proven_exit s" for y
    using step_ended(1) by (auto simp: proven_exit_def proven_end_def end_adopted_def fun_eq_iff)
  moreover have "proven_end (end_adopted x how s) x"
    using step_ended(2) by (cases how) (auto simp: proven_end_def end_adopted_def)
  moreover have "y = x \<or> ow_ended s y \<noteq> None" if "ow_ended (end_adopted x how s) y \<noteq> None" for y
    using that by (auto simp: end_adopted_def split: if_splits)
  moreover have "ow_reservations (end_adopted x how s) = ow_reservations s" "ow_children (end_adopted x how s) = ow_children s"
      "ow_tracked (end_adopted x how s) = ow_tracked s"
    by (simp_all add: end_adopted_def)
  ultimately show ?case using ended_invD [OF step_ended(3)] unfolding ended_inv_def by metis
next
  case (step_untrack s x)
  have "proven_end s x" using step_untrack ended_invD(3) by blast
  then show ?case
    by (intro ended_same [OF step_untrack(2)]) (auto simp: untrack_def dest: ended_invD [OF step_untrack(2)])
next
  case (step_begin producers s d s')
  then show ?case by (auto simp: BeginNaturalDrain_def Let_def intro: ended_kept split: if_splits)
next
  case (step_proof d s p s')
  then show ?case by (auto simp: mint_proof_def Let_def intro: ended_kept split: if_splits)
next
  case (step_commit d p s s')
  then show ?case by (auto simp: Commit_def Let_def intro: ended_kept split: if_splits)
next
  case (step_abort d s s')
  then show ?case by (auto simp: Abort_def intro: ended_kept split: if_splits)
next
  case (step_close s s')
  then show ?case by (auto simp: close_admission_def intro: ended_kept split: if_splits)
qed

lemma ended_reachable: "own_step\<^sup>*\<^sup>* (newOwned policy generation) s \<Longrightarrow> ended_inv s"
  by (induction rule: rtranclp_induct) (auto intro: ended_init ended_step)

lemma proven_stays: "own_step s s' \<Longrightarrow> (proven_exit s c \<longrightarrow> proven_exit s' c) \<and> (proven_end s x \<longrightarrow> proven_end s' x)"
  by (erule own_stepE) (auto simp: proven_exit_def proven_end_def own_defs split: if_splits)

lemma proven_run: "own_step\<^sup>*\<^sup>* s s' \<Longrightarrow> (proven_exit s c \<longrightarrow> proven_exit s' c) \<and> (proven_end s x \<longrightarrow> proven_end s' x)"
  by (induction rule: rtranclp_induct) (use proven_stays in blast)+

lemma registered_before:
  "own_step s s' \<Longrightarrow> own_inv s \<Longrightarrow> ow_starting s = [] \<Longrightarrow> ow_closed s \<Longrightarrow>
    rv_child (ow_reservations s' r) = rv_child (ow_reservations s r) \<and> rv_tracked (ow_reservations s' r) = rv_tracked (ow_reservations s r)"
  by (erule own_stepE) (auto simp: own_defs split: if_splits)

text \<open>While admission is closed, or a lease is in force, no verb is admitted.\<close>

lemma shut_step:
  "own_step s s' \<Longrightarrow> ow_closed s \<or> (ow_drain s \<noteq> None \<and> ow_drain s' = ow_drain s) \<Longrightarrow>
     ow_reserved s' = ow_reserved s \<and> ow_admissions s' = ow_admissions s \<and> set (ow_starting s') \<subseteq> set (ow_starting s)
     \<and> (ow_closed s \<longrightarrow> ow_closed s')"
  by (erule own_stepE) (auto simp: own_defs split: if_splits)

lemma done_stays: "own_step s s' \<Longrightarrow> own_inv s \<Longrightarrow> r < ow_reserved s \<Longrightarrow> rv_done (ow_reservations s r) \<Longrightarrow> rv_done (ow_reservations s' r)"
  by (erule own_stepE) (auto simp: own_defs split: if_splits)

lemma closed_run:
  assumes "own_step\<^sup>*\<^sup>* s s'" and "own_inv s" and "ow_closed s"
  shows "own_inv s' \<and> ow_closed s' \<and> ow_reserved s' = ow_reserved s \<and> set (ow_starting s') \<subseteq> set (ow_starting s)
    \<and> (\<forall>c\<in>set (ow_children s'). c \<in> set (ow_children s) \<or> (\<exists>r\<in>set (ow_starting s). rv_child (ow_reservations s' r) = Some c))
    \<and> (\<forall>c\<in>set (ow_tracked s'). c \<in> set (ow_tracked s) \<or> (\<exists>r\<in>set (ow_starting s). rv_tracked (ow_reservations s' r) = Some c))"
  using assms
proof (induction rule: rtranclp_induct)
  case base
  then show ?case by simp
next
  case (step y z)
  have y: "own_inv y" "ow_closed y" "set (ow_starting y) \<subseteq> set (ow_starting s)" "ow_reserved y = ow_reserved s"
    using step by auto
  have z: "own_inv z" using inv_step [OF step.hyps(2) y(1)] .
  have "c \<in> set (ow_children s) \<or> (\<exists>r\<in>set (ow_starting s). rv_child (ow_reservations z r) = Some c)" if "c \<in> set (ow_children z)" for c
    using registered_step [OF step.hyps(2) y(1) that] step.IH [OF step.prems] child_fixed [OF step.hyps(2) y(1)] y(3) by blast
  moreover have "c \<in> set (ow_tracked s) \<or> (\<exists>r\<in>set (ow_starting s). rv_tracked (ow_reservations z r) = Some c)" if "c \<in> set (ow_tracked z)" for c
    using adopted_step [OF step.hyps(2) y(1) that] step.IH [OF step.prems] tracked_fixed [OF step.hyps(2) y(1)] y(3) by blast
  moreover have "ow_closed z \<and> ow_reserved z = ow_reserved s \<and> set (ow_starting z) \<subseteq> set (ow_starting s)"
    using shut_step [OF step.hyps(2)] y by auto
  ultimately show ?case using z by blast
qed

lemma registered_run:
  assumes "own_step\<^sup>*\<^sup>* s s'" and "own_inv s" and "ow_starting s = []" and "ow_closed s"
  shows "rv_child (ow_reservations s' r) = rv_child (ow_reservations s r) \<and> rv_tracked (ow_reservations s' r) = rv_tracked (ow_reservations s r)"
  using assms
proof (induction rule: rtranclp_induct)
  case (step y z)
  have "own_inv y" "ow_closed y" "ow_starting y = []" using closed_run [OF step.hyps(1) step.prems(1,3)] step.prems(2) by auto
  then show ?case using registered_before [OF step.hyps(2)] step by simp
qed simp

text \<open>A lease that is in force at both ends of a run was in force all along.\<close>

lemma lease_step:
  "own_step s s' \<Longrightarrow> own_inv s \<Longrightarrow> ow_drain s' = Some d \<Longrightarrow> d < length (ow_drains s) \<Longrightarrow> ow_drain s = Some d"
  by (erule own_stepE) (auto simp: own_inv_def own_defs split: if_splits)

lemma drains_grow: "own_step s s' \<Longrightarrow> length (ow_drains s) \<le> length (ow_drains s')"
  by (erule own_stepE) (auto simp: own_defs split: if_splits)

lemma lease_run:
  assumes "own_step\<^sup>*\<^sup>* s s'" and "own_inv s" and "d < length (ow_drains s)"
  shows "own_inv s' \<and> d < length (ow_drains s') \<and> (ow_drain s' = Some d \<longrightarrow> ow_drain s = Some d \<and> ow_reserved s' = ow_reserved s
    \<and> ow_admissions s' = ow_admissions s \<and> set (ow_starting s') \<subseteq> set (ow_starting s)
    \<and> (ow_starting s = [] \<longrightarrow> set (ow_children s') \<subseteq> set (ow_children s) \<and> set (ow_tracked s') \<subseteq> set (ow_tracked s)))"
  using assms
proof (induction rule: rtranclp_induct)
  case base
  then show ?case by simp
next
  case (step y z)
  have y: "own_inv y" "d < length (ow_drains y)" using step by auto
  have z: "own_inv z" "d < length (ow_drains z)"
    using inv_step [OF step.hyps(2) y(1)] drains_grow [OF step.hyps(2)] y(2) by auto
  have "ow_drain s = Some d \<and> ow_reserved z = ow_reserved s \<and> ow_admissions z = ow_admissions s \<and> set (ow_starting z) \<subseteq> set (ow_starting s)
      \<and> (ow_starting s = [] \<longrightarrow> set (ow_children z) \<subseteq> set (ow_children s) \<and> set (ow_tracked z) \<subseteq> set (ow_tracked s))"
    if dz: "ow_drain z = Some d"
  proof -
    have dy: "ow_drain y = Some d" using lease_step [OF step.hyps(2) y(1) dz y(2)] .
    note ih = step.IH [OF step.prems, THEN conjunct2, THEN conjunct2, THEN mp, OF dy]
    have "set (ow_children z) \<subseteq> set (ow_children y) \<and> set (ow_tracked z) \<subseteq> set (ow_tracked y)" if "ow_starting s = []"
    proof -
      have "ow_starting y = []" using ih that by simp
      then show ?thesis using registered_step [OF step.hyps(2) y(1)] adopted_step [OF step.hyps(2) y(1)] by auto
    qed
    moreover have "ow_reserved z = ow_reserved y \<and> ow_admissions z = ow_admissions y \<and> set (ow_starting z) \<subseteq> set (ow_starting y)"
      using shut_step [OF step.hyps(2)] dy dz by simp
    ultimately show ?thesis using ih by (metis order_trans)
  qed
  then show ?case using z by blast
qed

subsection \<open>Settlement\<close>

text \<open>
  The selects of \<open>settle\<close> under \<open>TerminateOwned\<close> (a scope under \<open>PreserveOwned\<close> settles through \<open>settleNatural\<close>): for each
  reservation, child and adopted process, whether the arm that is not the end of the context is taken, which it can be only
  when it is ready.
\<close>

record settle_run =
  se_waited :: "nat \<Rightarrow> bool"
  se_exit :: "nat \<Rightarrow> bool"
  se_stop :: "nat \<Rightarrow> bool"

datatype settle_fault = StillStarting nat | ChildUnsettled nat | AdoptedUnsettled nat

definition waited :: "settle_run \<Rightarrow> Owned \<Rightarrow> nat \<Rightarrow> bool" where
  "waited e s r \<longleftrightarrow> se_waited e r \<and> rv_done (ow_reservations s r)"

definition settle_children :: "settle_run \<Rightarrow> Owned \<Rightarrow> nat list \<Rightarrow> nat list \<Rightarrow> nat list" where
  "settle_children e s starting children =
    children @ List.map_filter (\<lambda>r. rv_child (ow_reservations s r)) (filter (waited e s) starting)"

definition settle_tracked :: "settle_run \<Rightarrow> Owned \<Rightarrow> nat list \<Rightarrow> nat list \<Rightarrow> nat list" where
  "settle_tracked e s starting tracked =
    tracked @ List.map_filter (\<lambda>r. rv_tracked (ow_reservations s r)) (filter (waited e s) starting)"

text \<open>
  The faults of \<open>settle\<close>, from the snapshot \<open>s1\<close> it took when it closed admission and the state \<open>s2\<close> its waits ended in: the
  terminal of a child is what its driver published, and a stop that succeeded has ended the adopted process.
\<close>

definition child_fault :: "settle_run \<Rightarrow> Owned \<Rightarrow> nat \<Rightarrow> bool" where
  "child_fault e s c \<longleftrightarrow> (case (if se_exit e c then ow_exits s c else None) of None \<Rightarrow> True | Some reap \<Rightarrow> reap = reapUndetermined)"

definition adopted_fault :: "settle_run \<Rightarrow> Owned \<Rightarrow> nat \<Rightarrow> bool" where
  "adopted_fault e s x \<longleftrightarrow> \<not> (se_stop e x \<and> ow_ended s x \<noteq> None)"

definition settle_faults :: "settle_run \<Rightarrow> Owned \<Rightarrow> Owned \<Rightarrow> settle_fault list" where
  "settle_faults e s1 s2 =
    map StillStarting (filter (\<lambda>r. \<not> waited e s2 r) (ow_starting s1))
    @ map ChildUnsettled (filter (child_fault e s2) (settle_children e s2 (ow_starting s1) (ow_children s1)))
    @ map AdoptedUnsettled (filter (adopted_fault e s2) (settle_tracked e s2 (ow_starting s1) (ow_tracked s1)))"

subsection \<open>Observation\<close>

definition Quiet :: "ScopeObservation \<Rightarrow> bool" where
  "Quiet sc \<longleftrightarrow> \<not> so_Uncertain sc
    \<and> list_all (\<lambda>m. \<not> (\<not> so_Excluded sc \<or> m \<noteq> so_Identity sc)) (so_Members sc)
    \<and> (so_Reap sc \<noteq> reapUndetermined \<or> so_Excluded sc)"

record OwnershipObservation =
  oo_Generation :: u64
  oo_Pending :: "string list"
  oo_Scopes :: "ScopeObservation list"
  oo_Uncertain :: bool

definition Complete :: "OwnershipObservation \<Rightarrow> bool" where
  "Complete ob \<longleftrightarrow> \<not> (oo_Generation ob = 0 \<or> oo_Uncertain ob \<or> oo_Pending ob \<noteq> []) \<and> \<not> list_ex (\<lambda>sc. \<not> Quiet sc) (oo_Scopes ob)"

text \<open>
  \<open>observe\<close>: the state at the first critical section, what the record store answers in between, the state at the
  second one. The names of the pending verbs are diagnostic; their order is not kept.
\<close>

definition owned_observe ::
  "nat option \<Rightarrow> Owned \<Rightarrow> u64 \<times> ScopeObservation list \<times> bool \<Rightarrow> Owned \<Rightarrow> own_error option \<times> OwnershipObservation" where
  "owned_observe drain s1 answer s2 =
    (case answer of (generation, scopes, err) \<Rightarrow>
     if (case drain of None \<Rightarrow> False | Some d \<Rightarrow> \<not> lease d s1)
     then (Some ErrDrainBusy, \<lparr> oo_Generation = 0, oo_Pending = [], oo_Scopes = [], oo_Uncertain = True \<rparr>)
     else let pending = map (\<lambda>r. rv_verb (ow_reservations s1 r)) (ow_starting s1);
              unproven = list_ex (\<lambda>r. rv_unproven (ow_reservations s1 r)) (ow_starting s1);
              ob = \<lparr> oo_Generation = generation, oo_Pending = pending, oo_Scopes = scopes, oo_Uncertain = err \<or> unproven \<rparr>;
              changed = (ow_admissions s2 \<noteq> ow_admissions s1 \<or> (case drain of None \<Rightarrow> False | Some d \<Rightarrow> \<not> lease d s2)) in
       if changed then (Some ErrDrainBusy, ob\<lparr>oo_Uncertain := True\<rparr>)
       else (if err then Some ErrUnsettledScope else None, ob))"

lemma set_map_filter: "set (List.map_filter f xs) = {y. \<exists>x\<in>set xs. f x = Some y}"
  by (induction xs) (auto simp: List.map_filter_def)

lemma set_settle_children: "set (settle_children e s starting children)
    = set children \<union> {c. \<exists>r\<in>set starting. waited e s r \<and> rv_child (ow_reservations s r) = Some c}"
  by (auto simp: settle_children_def set_map_filter)

lemma set_settle_tracked: "set (settle_tracked e s starting tracked)
    = set tracked \<union> {c. \<exists>r\<in>set starting. waited e s r \<and> rv_tracked (ow_reservations s r) = Some c}"
  by (auto simp: settle_tracked_def set_map_filter)

lemma Quiet_complete: "Quiet sc \<longleftrightarrow> scope_complete sc"
  by (auto simp: Quiet_def scope_complete_def matches_iff list_all_iff)

subsection \<open>Properties\<close>

text \<open>
  C22: settling a scope misses nothing. When \<open>settle\<close> under \<open>TerminateOwned\<close> reports no fault, then from the moment its waits
  ended no verb is starting and none will be admitted, and every child of every reservation the scope ever made, however it
  was interleaved with the settlement and whether or not the scope still held it, has published a proven end; every adopted
  process was stopped with a proven end or released by its caller.
\<close>

theorem settle_misses_nothing:
  assumes "own_step\<^sup>*\<^sup>* (newOwned policy generation) s" and "policy \<noteq> PreserveOwned" and "close_admission s = Inr s1"
    and "own_step\<^sup>*\<^sup>* s1 s2" and "settle_faults e s1 s2 = []" and "own_step\<^sup>*\<^sup>* s2 s3"
  shows "ow_starting s3 = [] \<and> reserve verb s3 = Inl ErrScopeSettling
    \<and> (\<forall>r c. rv_child (ow_reservations s3 r) = Some c \<longrightarrow> (\<exists>reap. ow_exits s3 c = Some reap \<and> reap \<noteq> reapUndetermined))
    \<and> (\<forall>r x. rv_tracked (ow_reservations s3 r) = Some x \<longrightarrow>
         ow_ended s3 x = Some ReleasedByCaller \<or> (\<exists>reap. ow_ended s3 x = Some (Stopped reap) \<and> reap \<noteq> reapUndetermined))"
proof -
  have i1: "own_inv s1" using inv_step [OF step_close [OF assms(3)]] inv_reachable [OF assms(1)] by blast
  have c1: "ow_closed s1" using assms(3) by (auto simp: close_admission_def split: if_splits)
  note r12 = closed_run [OF assms(4) i1 c1]
  then have i2: "own_inv s2" and c2: "ow_closed s2" by auto
  note r23 = closed_run [OF assms(6) i2 c2]
  have e2: "ended_inv s2"
    using ended_reachable assms(1,4) step_close [OF assms(3)] by (meson rtranclp.rtrancl_into_rtrancl rtranclp_trans)
  have wait: "waited e s2 r" if "r \<in> set (ow_starting s1)" for r
    using assms(5) that by (auto simp: settle_faults_def filter_empty_conv)
  have "r \<notin> set (ow_starting s2)" for r
    using r12 wait i2 by (auto simp: own_inv_def waited_def)
  then have st2: "ow_starting s2 = []" by (cases "ow_starting s2") auto
  have same: "rv_child (ow_reservations s3 r) = rv_child (ow_reservations s2 r)
      \<and> rv_tracked (ow_reservations s3 r) = rv_tracked (ow_reservations s2 r)" for r
    by (rule registered_run [OF assms(6) i2 st2 c2])
  have child: "proven_exit s2 c" if "c \<in> set (ow_children s2)" for c
  proof -
    have "c \<in> set (settle_children e s2 (ow_starting s1) (ow_children s1))"
      using r12 wait that unfolding set_settle_children by blast
    then have "\<not> child_fault e s2 c" using assms(5) by (auto simp: settle_faults_def filter_empty_conv)
    then show ?thesis by (auto simp: child_fault_def proven_exit_def split: option.splits if_splits)
  qed
  have adopted: "proven_end s2 x" if "x \<in> set (ow_tracked s2)" for x
  proof -
    have "x \<in> set (settle_tracked e s2 (ow_starting s1) (ow_tracked s1))"
      using r12 wait that unfolding set_settle_tracked by blast
    then have "\<not> adopted_fault e s2 x" using assms(5) by (auto simp: settle_faults_def filter_empty_conv)
    then show ?thesis using e2 by (auto simp: adopted_fault_def ended_inv_def)
  qed
  have "proven_exit s3 c" if "rv_child (ow_reservations s3 r) = Some c" for r c
    using that same e2 child proven_run [OF assms(6)] unfolding ended_inv_def by metis
  moreover have "proven_end s3 x" if "rv_tracked (ow_reservations s3 r) = Some x" for r x
    using that same e2 adopted proven_run [OF assms(6)] unfolding ended_inv_def by metis
  moreover have "ow_starting s3 = []" "ow_closed s3" using r23 st2 by auto
  ultimately show ?thesis unfolding proven_exit_def proven_end_def by (simp add: reserve_def)
qed

text \<open>A scope with one child that leaves while it is settled.\<close>

definition held_scope :: Owned where
  "held_scope = hold_child 0 7 (snd (projr (reserve ''Spawn'' (newOwned TerminateOwned 5))))"

lemma held_scope_reached: "own_step\<^sup>*\<^sup>* (newOwned TerminateOwned 5) held_scope"
proof -
  let ?s = "snd (projr (reserve ''Spawn'' (newOwned TerminateOwned 5)))"
  have "own_step (newOwned TerminateOwned 5) ?s"
    by (rule step_reserve [of "''Spawn''" _ 0]) (simp add: reserve_def newOwned_def)
  moreover have "own_step ?s held_scope"
    unfolding held_scope_def by (rule step_hold) (simp add: reserve_def newOwned_def)
  ultimately show ?thesis by (meson r_into_rtranclp rtranclp.rtrancl_into_rtrancl)
qed

theorem settle_misses_nothing_witness:
  "\<exists>reap. ow_exits (publish_terminal 7 ReapTerminated (held_scope\<lparr>ow_closed := True\<rparr>)) 7 = Some reap \<and> reap \<noteq> reapUndetermined"
proof -
  let ?e = "\<lparr> se_waited = (\<lambda>_. False), se_exit = (\<lambda>_. True), se_stop = (\<lambda>_. True) \<rparr>"
  let ?s1 = "held_scope\<lparr>ow_closed := True\<rparr>"
  let ?s2 = "publish_terminal 7 ReapTerminated ?s1"
  have st: "ow_starting held_scope = []" "ow_children held_scope = [7]" "ow_tracked held_scope = []" "ow_exits held_scope 7 = None"
    "rv_child (ow_reservations held_scope 0) = Some 7"
    by (simp_all add: held_scope_def own_defs newOwned_def no_reservation_def)
  have c: "close_admission held_scope = Inr ?s1"
    by (simp add: close_admission_def held_scope_def own_defs newOwned_def TerminateOwned_def PreserveOwned_def)
  have "own_step ?s1 ?s2" by (rule step_terminal) (use st(4) in simp)
  then have run: "own_step\<^sup>*\<^sup>* ?s1 ?s2" by (rule r_into_rtranclp)
  have f: "settle_faults ?e ?s1 ?s2 = []"
    using st by (simp add: settle_faults_def settle_children_def settle_tracked_def List.map_filter_def child_fault_def publish_terminal_def)
  have "rv_child (ow_reservations ?s2 0) = Some 7" using st(5) by (simp add: publish_terminal_def)
  moreover have "TerminateOwned \<noteq> PreserveOwned" by (simp add: TerminateOwned_def PreserveOwned_def)
  ultimately show ?thesis
    using settle_misses_nothing [OF held_scope_reached _ c run f rtranclp.rtrancl_refl] by blast
qed

text \<open>
  C23: a committed natural drain is sound. When \<open>Wait\<close> obtained its proof from a complete observation under the lease and
  \<open>Commit\<close> accepts that proof, then no verb was starting at the observation, every recorded scope was quiet apart from
  the paused producers, nothing was admitted, registered or adopted between the observation and the commit or ever
  after it, whatever the other goroutines did.
\<close>

theorem natural_commit_sound:
  assumes "own_step\<^sup>*\<^sup>* (newOwned policy generation) s1" and "own_step\<^sup>*\<^sup>* s1 s2"
    and "owned_observe (Some d) s1 answer s2 = (None, ob)" and "Complete ob"
    and "own_step\<^sup>*\<^sup>* s2 s3" and "mint_proof d s3 = Inr (p, s4)" and "own_step\<^sup>*\<^sup>* s4 s5" and "Commit d p s5 = Inr s6"
    and "own_step\<^sup>*\<^sup>* s6 s7"
  shows "ow_starting s1 = [] \<and> (\<forall>sc\<in>set (fst (snd answer)). scope_complete sc)
    \<and> ow_reserved s7 = ow_reserved s1 \<and> set (ow_children s7) \<subseteq> set (ow_children s1) \<and> set (ow_tracked s7) \<subseteq> set (ow_tracked s1)
    \<and> reserve verb s7 = Inl ErrScopeSettling"
proof -
  have i1: "own_inv s1" by (rule inv_reachable [OF assms(1)])
  obtain g scs err where a: "answer = (g, scs, err)" by (cases answer)
  have l1: "ow_drain s1 = Some d" and st1: "ow_starting s1 = []" and q: "\<forall>sc\<in>set scs. scope_complete sc"
    using assms(3,4) a by (auto simp: owned_observe_def Complete_def lease_def Let_def list_ex_iff Quiet_complete split: if_splits)
  have d1: "d < length (ow_drains s1)" using i1 l1 by (simp add: own_inv_def)
  have s34: "own_step s3 s4" by (rule step_proof [OF assms(6)])
  have "own_step\<^sup>*\<^sup>* s1 s5"
    using assms(2,5,7) s34 by (meson rtranclp.rtrancl_into_rtrancl rtranclp_trans)
  note r = lease_run [OF this i1 d1]
  have l5: "ow_drain s5 = Some d" and s6: "ow_closed s6" "ow_starting s6 = []" "ow_reserved s6 = ow_reserved s5"
      "ow_children s6 = ow_children s5" "ow_tracked s6 = ow_tracked s5"
    using assms(8) by (auto simp: Commit_def lease_def Let_def split: if_splits)
  have i6: "own_inv s6" using inv_step [OF step_commit [OF assms(8)]] r by blast
  note c = closed_run [OF assms(9) i6 s6(1)]
  have "ow_starting s5 = []" using r l5 st1 by simp
  then show ?thesis using r l5 st1 s6 c q a by (simp add: reserve_def) blast
qed

subsection \<open>Observing and retiring without signals (preserve.go)\<close>

fun observe_records :: "bool \<Rightarrow> world \<Rightarrow> identity list \<Rightarrow> rec list \<Rightarrow> nat \<Rightarrow> (ScopeObservation list \<times> bool) \<times> nat" where
  "observe_records released w excluded [] t = (([], False), t)"
| "observe_records released w excluded (r # rs) t =
    (case observeScope released w (rec_id r) (rec_Session r) t of ((e, sc), t1) \<Rightarrow>
     let sc' = (if list_ex (\<lambda>c. matches c (rec_id r)) excluded then sc\<lparr>so_Excluded := True\<rparr> else sc) in
     (case observe_records released w excluded rs t1 of ((scs, err), t2) \<Rightarrow> ((sc' # scs, err \<or> e \<noteq> None), t2)))"

text \<open>\<open>Store.Observe\<close>: the generation, the scopes and whether a scope could not be observed; nothing when the writer refuses.\<close>

definition Store_Observe ::
  "send \<Rightarrow> world \<Rightarrow> identity list \<Rightarrow> Store \<Rightarrow> nat \<Rightarrow> (u64 \<times> ScopeObservation list \<times> bool) option \<times> nat" where
  "Store_Observe c w excluded s t =
    (if refused c then (None, t)
     else case observe_records (send_closed c) w excluded (Live (st_value s)) t of ((scs, err), t') \<Rightarrow>
       (Some (st_generation s, scs, err), t'))"

definition retireQuietScope ::
  "records codec \<Rightarrow> string \<Rightarrow> send \<Rightarrow> io \<Rightarrow> bool \<Rightarrow> world \<Rightarrow> identity \<Rightarrow> int \<Rightarrow> Store \<Rightarrow> nat \<Rightarrow> bool \<times> Store \<times> nat" where
  "retireQuietScope j path c ans late w i session s t =
    (case observeScope (send_closed c) w i session t of ((e, sc), t1) \<Rightarrow>
     if e \<noteq> None \<or> \<not> scope_complete sc then (False, s, t1)
     else case retireBounded j path c ans late i s of (err, s') \<Rightarrow> (err = None, s', t1))"

fun retire_scopes ::
  "records codec \<Rightarrow> string \<Rightarrow> send \<Rightarrow> io \<Rightarrow> bool \<Rightarrow> world \<Rightarrow> ScopeObservation list \<Rightarrow> Store \<Rightarrow> nat \<Rightarrow> bool \<times> Store \<times> nat" where
  "retire_scopes j path c ans late w [] s t = (True, s, t)"
| "retire_scopes j path c ans late w (sc # scs) s t =
    (if \<not> scope_complete sc then
       (case retire_scopes j path c ans late w scs s t of (_, s', t') \<Rightarrow> (False, s', t'))
     else case retireQuietScope j path c ans late w (so_Identity sc) (so_Session sc) s t of (ok, s1, t1) \<Rightarrow>
       (case retire_scopes j path c ans late w scs s1 t1 of (ok', s', t') \<Rightarrow> (ok \<and> ok', s', t')))"

definition RetireQuiet ::
  "records codec \<Rightarrow> string \<Rightarrow> send \<Rightarrow> io \<Rightarrow> bool \<Rightarrow> world \<Rightarrow> Store \<Rightarrow> nat \<Rightarrow> bool \<times> Store \<times> nat" where
  "RetireQuiet j path c ans late w s t =
    (case Store_Observe c w [] s t of
       (None, t1) \<Rightarrow> (False, s, t1)
     | (Some (_, scs, err), t1) \<Rightarrow> if err then (False, s, t1) else retire_scopes j path c ans late w scs s t1)"

lemma observeScope_identity: "observeScope released w i session t = ((e, sc), t') \<Longrightarrow> so_Identity sc = i \<and> so_Session sc = session \<and> \<not> so_Excluded sc"
  by (auto simp: observeScope_def split: sum.splits prod.splits)

text \<open>A scope observed complete had no live leader at some instant, and no live member of its session was found.\<close>

lemma observeScope_quiet:
  assumes "observeScope released w i session t = ((e, sc), t')" and "scope_complete sc"
  shows "e = None \<and> so_Members sc = [] \<and> t \<le> t' \<and> (id_boot i \<noteq> w_boot w \<or> (\<exists>u\<ge>t. u < t' \<and> \<not> alive w u i))"
proof -
  obtain ms reap where ins: "inspectScope released w i session t = (Inr (ms, reap), t')" and e: "e = None"
    and sc: "so_Members sc = ms" "so_Reap sc = reap" "\<not> so_Excluded sc"
    using assms by (auto simp: observeScope_def scope_complete_def split: sum.splits prod.splits)
  have ms: "ms = []" using assms(2) sc by (cases ms) (auto simp: scope_complete_def)
  obtain ob t1 where o: "observe w i (t + 1) = (ob, t1)" by fastforce
  have "\<exists>reap. ob = Inr (reap, True)"
    using ins o ms by (auto simp: inspectScope_def Let_def split: if_splits sum.splits prod.splits)
  then obtain reap' where ob: "ob = Inr (reap', True)" by blast
  have t1: "t < t1" using o by (auto simp: observe_def split: if_splits)
  have "t1 \<le> t'"
    using ins o ob verifiedMembers_time [of w session t1] by (auto simp: inspectScope_def Let_def split: if_splits sum.splits prod.splits)
  moreover have "id_boot i \<noteq> w_boot w \<or> (\<exists>u\<ge>t + 1. u < t1 \<and> \<not> alive w u i)" using observe_settled o ob by blast
  ultimately show ?thesis using e sc ms t1 by (meson Suc_leD Suc_eq_plus1 le_trans less_le_trans less_imp_le add_leD1)
qed

definition retired :: "identity list \<Rightarrow> records \<Rightarrow> records" where
  "retired ids v = fold (\<lambda>i v. retained v i) ids v"

lemma Live_retired: "Live (retired ids v) = filter (\<lambda>r. rec_id r \<notin> set ids) (Live v)"
  unfolding retired_def
  by (induction ids arbitrary: v) (auto simp: retained_def matches_iff intro!: filter_cong)

lemma owner_retired: "rs_Owner (retired ids v) = rs_Owner v"
  unfolding retired_def by (induction ids arbitrary: v) auto

lemma retired_app: "retired ids2 (retired ids1 v) = retired (ids1 @ ids2) v"
  by (simp add: retired_def)

lemma retired_simps: "retired [] v = v" "retired [i] v = retained v i"
  by (simp_all add: retired_def)

lemma retireQuietScope_spec:
  assumes "codec_ok j records_Cores (retained (st_value s) i)" and "path \<noteq> []"
    and "retireQuietScope j path c ans late w i session s t = (ok, s', t')"
  shows "\<exists>ids. st_value s' = retired ids (st_value s) \<and> set ids \<subseteq> {i} \<and> (ok \<longrightarrow> ids = [i])
    \<and> (ids \<noteq> [] \<longrightarrow> id_boot i \<noteq> w_boot w \<or> (\<exists>u\<ge>t. u < t' \<and> \<not> alive w u i)) \<and> t \<le> t'"
proof -
  obtain e sc t1 where ob: "observeScope (send_closed c) w i session t = ((e, sc), t1)" by (metis prod.exhaust)
  have t1: "t \<le> t1"
    using ob verifiedMembers_time by (fastforce simp: observeScope_def inspectScope_def observe_def Let_def split: if_splits sum.splits prod.splits)
  show ?thesis
  proof (cases "e \<noteq> None \<or> \<not> scope_complete sc")
    case True
    then show ?thesis using assms(3) ob t1 by (intro exI [of _ "[]"]) (auto simp: retireQuietScope_def retired_simps)
  next
    case False
    obtain fate s1 where r: "retireContext j path c ans i s = (fate, s1)" by fastforce
    have s': "s' = s1" "t' = t1" "ok \<longrightarrow> fate = RecordRemoved"
      using assms(3) ob False r by (auto simp: retireQuietScope_def retireBounded_def split: if_splits)
    have q: "id_boot i \<noteq> w_boot w \<or> (\<exists>u\<ge>t. u < t1 \<and> \<not> alive w u i)" using observeScope_quiet [OF ob] False by blast
    have "st_value s1 = retained (st_value s) i \<or> (fate = RecordAbandoned \<and> st_value s1 = st_value s)"
      using r assms(1,2) by (auto simp: retireContext_def retire_op_eq split: if_splits write_end.splits)
    then show ?thesis
    proof
      assume "st_value s1 = retained (st_value s) i"
      then show ?thesis using s' q t1 by (intro exI [of _ "[i]"]) (auto simp: retired_simps)
    next
      assume "fate = RecordAbandoned \<and> st_value s1 = st_value s"
      then show ?thesis using s' t1 by (intro exI [of _ "[]"]) (auto simp: retired_simps)
    qed
  qed
qed

lemma retire_scopes_spec:
  assumes "\<And>ids. codec_ok j records_Cores (retired ids (st_value s))" and "path \<noteq> []"
    and "retire_scopes j path c ans late w scs s t = (ok, s', t')"
  shows "\<exists>ids. st_value s' = retired ids (st_value s) \<and> set ids \<subseteq> so_Identity ` set scs \<and> (ok \<longrightarrow> set ids = so_Identity ` set scs)
    \<and> (\<forall>i\<in>set ids. id_boot i \<noteq> w_boot w \<or> (\<exists>u\<ge>t. u < t' \<and> \<not> alive w u i)) \<and> t \<le> t'"
  using assms(1,3)
proof (induction scs arbitrary: s t ok s' t')
  case Nil
  then show ?case by (intro exI [of _ "[]"]) (auto simp: retired_simps)
next
  case (Cons sc scs)
  let ?i = "so_Identity sc"
  show ?case
  proof (cases "scope_complete sc")
    case False
    then obtain ok1 where r: "retire_scopes j path c ans late w scs s t = (ok1, s', t')" and nk: "\<not> ok"
      using Cons.prems(2) by (auto split: prod.splits)
    show ?thesis using Cons.IH [OF Cons.prems(1) r] nk by (auto simp: subset_iff)
  next
    case True
    obtain ok1 s1 t1 ok2 where q: "retireQuietScope j path c ans late w ?i (so_Session sc) s t = (ok1, s1, t1)"
      and r: "retire_scopes j path c ans late w scs s1 t1 = (ok2, s', t')" and okk: "ok \<longleftrightarrow> ok1 \<and> ok2"
      using Cons.prems(2) True by (auto split: prod.splits)
    have "codec_ok j records_Cores (retained (st_value s) ?i)" using Cons.prems(1) [of "[?i]"] by (simp add: retired_simps)
    from retireQuietScope_spec [OF this assms(2) q] obtain ids1 where a: "st_value s1 = retired ids1 (st_value s)" "set ids1 \<subseteq> {?i}"
        "ok1 \<longrightarrow> ids1 = [?i]" "ids1 \<noteq> [] \<longrightarrow> id_boot ?i \<noteq> w_boot w \<or> (\<exists>u\<ge>t. u < t1 \<and> \<not> alive w u ?i)" "t \<le> t1"
      by blast
    have "\<And>ids. codec_ok j records_Cores (retired ids (st_value s1))" unfolding a(1) retired_app by (rule Cons.prems(1))
    from Cons.IH [OF this r] obtain ids2 where b: "st_value s' = retired ids2 (st_value s1)" "set ids2 \<subseteq> so_Identity ` set scs"
        "ok2 \<longrightarrow> set ids2 = so_Identity ` set scs"
        "\<forall>i\<in>set ids2. id_boot i \<noteq> w_boot w \<or> (\<exists>u\<ge>t1. u < t' \<and> \<not> alive w u i)" "t1 \<le> t'"
      by blast
    have "\<forall>i\<in>set (ids1 @ ids2). id_boot i \<noteq> w_boot w \<or> (\<exists>u\<ge>t. u < t' \<and> \<not> alive w u i)"
    proof
      fix i assume "i \<in> set (ids1 @ ids2)"
      then consider "i = ?i" "ids1 \<noteq> []" | "i \<in> set ids2" using a(2) by (cases ids1) auto
      then show "id_boot i \<noteq> w_boot w \<or> (\<exists>u\<ge>t. u < t' \<and> \<not> alive w u i)"
        by cases (use a(4,5) b(4,5) in \<open>meson less_le_trans le_trans\<close>)+
    qed
    then show ?thesis
      using a(1,2,3,5) b(1,2,3,5) okk by (intro exI [of _ "ids1 @ ids2"]) (auto simp: retired_app)
  qed
qed

lemma observe_records_identities:
  "observe_records released w excluded rs t = ((scs, err), t') \<Longrightarrow> map so_Identity scs = map rec_id rs \<and> t \<le> t'"
proof (induction rs arbitrary: t scs err t')
  case (Cons r rs)
  obtain e sc t1 scs1 err1 where ob: "observeScope released w (rec_id r) (rec_Session r) t = ((e, sc), t1)"
    and r: "observe_records released w excluded rs t1 = ((scs1, err1), t')"
    using Cons.prems by (auto simp: Let_def split: prod.splits)
  have "t \<le> t1"
    using ob verifiedMembers_time by (fastforce simp: observeScope_def inspectScope_def observe_def Let_def split: if_splits sum.splits prod.splits)
  then show ?case using Cons.IH [OF r] observeScope_identity [OF ob] Cons.prems ob r by (auto simp: Let_def split: if_splits)
qed simp

text \<open>
  Retiring quiet scopes. \<open>RetireQuiet\<close> removes a record only when its process was, at some instant of the run, not live
  or is of another boot, keeps every other record as it is, and when it reports success no record is left.
\<close>

lemma retire_quiet_exact:
  assumes "\<And>ids. codec_ok j records_Cores (retired ids (st_value s))" and "path \<noteq> []"
    and "RetireQuiet j path c ans late w s t = (ok, s', t')"
  shows "set (Live (st_value s')) \<subseteq> set (Live (st_value s)) \<and> (ok \<longrightarrow> Live (st_value s') = [])
    \<and> (\<forall>r\<in>set (Live (st_value s)) - set (Live (st_value s')).
         id_boot (rec_id r) \<noteq> w_boot w \<or> (\<exists>u\<ge>t. u < t' \<and> \<not> alive w u (rec_id r)))"
proof (cases "s' = s \<and> \<not> ok")
  case True
  then show ?thesis by simp
next
  case False
  then obtain scs t1 where ob: "observe_records (send_closed c) w [] (Live (st_value s)) t = ((scs, False), t1)"
    and r: "retire_scopes j path c ans late w scs s t1 = (ok, s', t')"
    using assms(3) by (auto simp: RetireQuiet_def Store_Observe_def split: if_splits prod.splits option.splits)
  have ids: "so_Identity ` set scs = rec_id ` set (Live (st_value s))" and t1: "t \<le> t1"
    using observe_records_identities [OF ob] by (metis image_set)+
  obtain ids where i: "st_value s' = retired ids (st_value s)" "ok \<longrightarrow> set ids = so_Identity ` set scs"
      "\<forall>i\<in>set ids. id_boot i \<noteq> w_boot w \<or> (\<exists>u\<ge>t1. u < t' \<and> \<not> alive w u i)"
    using retire_scopes_spec [OF assms(1,2) r] by blast
  have "Live (st_value s') = []" if ok
    using that i(1,2) ids by (simp add: Live_retired filter_empty_conv)
  moreover have "id_boot (rec_id r) \<noteq> w_boot w \<or> (\<exists>u\<ge>t. u < t' \<and> \<not> alive w u (rec_id r))"
    if "r \<in> set (Live (st_value s)) - set (Live (st_value s'))" for r
    using that i(1,3) t1 by (auto simp: Live_retired) (meson le_trans)
  ultimately show ?thesis using i(1) by (auto simp: Live_retired)
qed

text \<open>A natural drain of an empty scope, and a store whose one process has left.\<close>

theorem natural_commit_sound_witness:
  "\<exists>s7. ow_closed s7 \<and> reserve ''Spawn'' s7 = Inl ErrScopeSettling"
proof -
  let ?s0 = "newOwned PreserveOwned 5"
  define s1 where "s1 = snd (projr (BeginNaturalDrain [] ?s0))"
  define s4 where "s4 = snd (projr (mint_proof 0 s1))"
  define p where "p = fst (projr (mint_proof 0 s1))"
  define s6 where "s6 = projr (Commit 0 p s4)"
  have b: "BeginNaturalDrain [] ?s0 = Inr (0, s1)" by (simp add: s1_def BeginNaturalDrain_def newOwned_def)
  have m: "mint_proof 0 s1 = Inr (p, s4)"
    by (simp add: s4_def p_def s1_def mint_proof_def lease_def BeginNaturalDrain_def newOwned_def Let_def)
  have c: "Commit 0 p s4 = Inr s6"
    by (simp add: s6_def s4_def p_def s1_def Commit_def mint_proof_def lease_def BeginNaturalDrain_def newOwned_def Let_def)
  have r1: "own_step\<^sup>*\<^sup>* ?s0 s1" using step_begin [OF b] by (rule r_into_rtranclp)
  define ob where "ob = \<lparr> oo_Generation = 5 :: u64, oo_Pending = [], oo_Scopes = [], oo_Uncertain = False \<rparr>"
  have o: "owned_observe (Some 0) s1 (5, [], False) s1 = (None, ob)" "Complete ob"
    by (simp_all add: owned_observe_def ob_def Complete_def s1_def lease_def BeginNaturalDrain_def newOwned_def Let_def)
  have "ow_closed s6"
    by (simp add: s6_def s4_def p_def s1_def Commit_def mint_proof_def lease_def BeginNaturalDrain_def newOwned_def Let_def)
  then show ?thesis
    using natural_commit_sound [OF r1 rtranclp.rtrancl_refl o rtranclp.rtrancl_refl m rtranclp.rtrancl_refl c rtranclp.rtrancl_refl]
    by blast
qed

definition gone_world :: world where
  "gone_world = quiet_world\<lparr>w_table := (\<lambda>_ _. None), w_members := (\<lambda>_ _. Some [])\<rparr>"

end
