(* ===== verification/Driver.thy ===== *)
theory Driver
  imports Ownership
begin

text \<open>
  The driver of one live child, \<^verbatim>\<open>internal/proc/driver.go\<close>, the natural waits of \<^verbatim>\<open>internal/proc/preserve.go\<close> and the bounded
  output of \<^verbatim>\<open>internal/proc/run.go\<close>.

  The driver's environment holds, beside the \<open>world\<close> of \<open>ProcReap\<close>, when the child's terminal is ready on its channel, when a
  demand is, and which arm a select takes when several are ready. A blocking select is a recursion over instants, so that
  one no arm of which is ever ready does not return.
\<close>

subsection \<open>State\<close>

text \<open>The terminal of a child, as far as its driver reads it: the error of a failed wait is read by \<open>abortSpawn\<close> alone, whose model has it.\<close>

record status =
  st_code :: int
  st_signal :: int

record Exit =
  ex_Code :: int
  ex_Signal :: int
  ex_Reap :: Reap
  ex_Record :: RecordFate

definition Proven :: "Reap \<Rightarrow> bool" where
  "Proven r \<longleftrightarrow> r \<noteq> reapUndetermined"

record drive_env =
  dv_world :: world
  dv_exited :: "nat \<Rightarrow> status option"
  dv_demand :: "nat \<Rightarrow> int option"
  dv_closed :: "nat \<Rightarrow> bool"
  dv_pick :: "nat \<Rightarrow> bool"

definition retireShare :: rat where "retireShare = rnd64 (4 / 10)"

text \<open>\<open>KillAfter\<close> on durations whose quotient is an \<^verbatim>\<open>int64\<close>.\<close>

definition KillAfter :: "int \<Rightarrow> int" where
  "KillAfter grace = \<lfloor>rnd64 (rnd64 (of_int grace) / termShare)\<rfloor>"

subsection \<open>Waiting for the terminal\<close>

text \<open>The select of an exit against a timer.\<close>

partial_function (option) exit_or_timer :: "drive_env \<Rightarrow> int \<Rightarrow> nat \<Rightarrow> (status option \<times> nat) option" where
  "exit_or_timer e until t =
    (case dv_exited e t of
       Some st \<Rightarrow> if until \<le> w_now (dv_world e) t \<and> \<not> dv_pick e t then Some (None, t + 1) else Some (Some st, t + 1)
     | None \<Rightarrow> if until \<le> w_now (dv_world e) t then Some (None, t + 1) else exit_or_timer e until (t + 1))"

definition terminateChild :: "drive_env \<Rightarrow> int \<Rightarrow> int \<Rightarrow> nat \<Rightarrow> (status \<times> Reap \<times> event list \<times> nat) option" where
  "terminateChild e pid deadline t =
    (let w = dv_world e in
     case dv_exited e t of
       Some st \<Rightarrow> Some (st, ReapAbsent, [], t + 1)
     | None \<Rightarrow>
         let es = snd (heldGone PidHold w (t + 1) pid SIGTERM);
             grace = proc_fractionOf (deadline - w_now w (t + 2)) termShare in
         (case exit_or_timer e (w_now w (t + 2) + grace) (t + 3) of
            None \<Rightarrow> None
          | Some (Some st, t1) \<Rightarrow> Some (st, ReapTerminated, es, t1)
          | Some (None, t1) \<Rightarrow>
              let es' = es @ snd (heldGone PidHold w t1 pid SIGKILL) in
              (case exit_or_timer e deadline (t1 + 1) of
                 None \<Rightarrow> None
               | Some (Some st, t2) \<Rightarrow> Some (st, ReapTerminated, es', t2)
               | Some (None, t2) \<Rightarrow> Some (\<lparr> st_code = - 1, st_signal = 0 \<rparr>, reapUndetermined, es', t2))))"

text \<open>\<open>awaitTerminal\<close>, with the demand the driver acted on.\<close>

partial_function (option) awaitTerminal ::
  "drive_env \<Rightarrow> int \<Rightarrow> nat \<Rightarrow> (status \<times> Reap \<times> int option \<times> event list \<times> nat) option" where
  "awaitTerminal e pid t =
    (case dv_demand e t of
       Some deadline \<Rightarrow>
         (case dv_exited e t of
            Some st \<Rightarrow>
              if dv_pick e t then Some (st, ReapAbsent, None, [], t + 1)
              else map_option (\<lambda>(st, reap, es, t1). (st, reap, Some deadline, es, t1)) (terminateChild e pid deadline (t + 1))
          | None \<Rightarrow> map_option (\<lambda>(st, reap, es, t1). (st, reap, Some deadline, es, t1)) (terminateChild e pid deadline (t + 1)))
     | None \<Rightarrow>
         (case dv_exited e t of
            Some st \<Rightarrow> Some (st, ReapAbsent, None, [], t + 1)
          | None \<Rightarrow> awaitTerminal e pid (t + 1)))"

text \<open>\<open>awaitNaturalScope\<close>, which observes under a context that never ends: the verdict with the demand that may have ended it, or \<open>Inl ()\<close> when the store closed.\<close>

definition background :: "world \<Rightarrow> world" where
  "background w = w\<lparr>w_ended := (\<lambda>_. False)\<rparr>"

partial_function (option) awaitNaturalScope ::
  "bool \<Rightarrow> drive_env \<Rightarrow> identity \<Rightarrow> int \<Rightarrow> nat \<Rightarrow> ((unit + Reap \<times> int option) \<times> nat) option" where
  "awaitNaturalScope released e i session t =
    (case observeScope released (background (dv_world e)) i session t of ((err, scope), t1) \<Rightarrow>
     (if err = None \<and> scope_complete scope then Some (Inr (so_Reap scope, None), t1)
      else case dv_demand e t1 of
        Some deadline \<Rightarrow>
          if dv_closed e t1 \<and> \<not> dv_pick e t1 then Some (Inl (), t1 + 1) else Some (Inr (ReapAbsent, Some deadline), t1 + 1)
      | None \<Rightarrow> if dv_closed e t1 then Some (Inl (), t1 + 1) else awaitNaturalScope released e i session (t1 + 1)))"

definition sessionDeadline :: "int option \<Rightarrow> int \<Rightarrow> int" where
  "sessionDeadline demanded now =
    (let grace = now + SettleGrace in
     case demanded of None \<Rightarrow> grace | Some d \<Rightarrow> if grace < d then grace else d)"

text \<open>A context with a deadline of its own and no parent.\<close>

definition deadline_world :: "int \<Rightarrow> world \<Rightarrow> world" where
  "deadline_world d w = w\<lparr>w_deadline := d, w_ended := (\<lambda>t. d \<le> w_now w t)\<rparr>"

definition settleSessionSurvivors ::
  "bool \<Rightarrow> drive_env \<Rightarrow> identity \<Rightarrow> int \<Rightarrow> int \<Rightarrow> nat \<Rightarrow> (Reap option \<times> event list \<times> nat) option" where
  "settleSessionSurvivors pidfd e i session deadline t =
    (let w = dv_world e in
     case reapIdentityWithGrace pidfd (deadline_world deadline w) i session (proc_fractionOf (deadline - w_now w t) termShare) (t + 1) of
       None \<Rightarrow> None
     | Some (Inl err, es, t1) \<Rightarrow> Some (None, es, t1)
     | Some (Inr outcome, es, t1) \<Rightarrow> Some (Some outcome, es, t1))"

record retire_env =
  rt_codec :: "records codec"
  rt_path :: string
  rt_send :: send
  rt_io :: io
  rt_late :: bool

text \<open>
  \<open>driveExit\<close>: what is published on the child, if anything, the store, the signals, and the demand acted on. The retirement
  runs on a budget of its own; when that ends first the fate is abandoned whatever the writer still does.
\<close>

definition retire_settled :: "retire_env \<Rightarrow> identity \<Rightarrow> Store \<Rightarrow> RecordFate \<times> Store" where
  "retire_settled a i s =
    (case retireContext (rt_codec a) (rt_path a) (rt_send a) (rt_io a) i s of (fate, s') \<Rightarrow>
     (if rt_late a then RecordAbandoned else fate, s'))"

definition publish_exit :: "retire_env \<Rightarrow> identity \<Rightarrow> status \<Rightarrow> Reap \<Rightarrow> bool \<Rightarrow> Store \<Rightarrow> Exit \<times> Store" where
  "publish_exit a i terminal reap settled s =
    (case (if settled then retire_settled a i s else (RecordAbandoned, s)) of (fate, s') \<Rightarrow>
     (\<lparr> ex_Code = st_code terminal, ex_Signal = st_signal terminal, ex_Reap = reap, ex_Record = fate \<rparr>, s'))"

definition drive_scope ::
  "bool \<Rightarrow> bool \<Rightarrow> retire_env \<Rightarrow> drive_env \<Rightarrow> identity \<Rightarrow> int \<Rightarrow> status \<Rightarrow> Reap \<Rightarrow> int option \<Rightarrow> Store \<Rightarrow> nat
    \<Rightarrow> (Exit \<times> Store \<times> event list \<times> nat) option" where
  "drive_scope pidfd preserve a e i session terminal reap demanded s t =
    (if Proven reap \<and> session \<noteq> 0 \<and> (\<not> preserve \<or> demanded \<noteq> None) then
       (case settleSessionSurvivors pidfd e i session (sessionDeadline demanded (w_now (dv_world e) t)) (t + 1) of
          None \<Rightarrow> None
        | Some (outcome, es, t1) \<Rightarrow>
            let reap' = (case outcome of None \<Rightarrow> reapUndetermined | Some r \<Rightarrow> if r \<noteq> ReapAbsent then r else reap) in
            (case publish_exit a i terminal reap' (outcome \<noteq> None) s of (x, s') \<Rightarrow> Some (x, s', es, t1)))
     else (case publish_exit a i terminal reap (Proven reap) s of (x, s') \<Rightarrow> Some (x, s', [], t)))"

definition driveExit ::
  "bool \<Rightarrow> bool \<Rightarrow> retire_env \<Rightarrow> drive_env \<Rightarrow> identity \<Rightarrow> int \<Rightarrow> Store \<Rightarrow> nat
    \<Rightarrow> (Exit option \<times> Store \<times> event list \<times> nat) option" where
  "driveExit pidfd released a e i session s t =
    (case awaitTerminal e (id_pid i) t of
       None \<Rightarrow> None
     | Some (terminal, reap, demanded, es, t1) \<Rightarrow>
         let preserve = (st_policy s = PreserveOwned) in
         if preserve \<and> demanded = None then
           (case awaitNaturalScope released e i session t1 of
              None \<Rightarrow> None
            | Some (Inl u, t2) \<Rightarrow> Some (None, s, es, t2)
            | Some (Inr (reap', demanded'), t2) \<Rightarrow>
                map_option (\<lambda>(x, s', es', t3). (Some x, s', es @ es', t3))
                  (drive_scope pidfd preserve a e i session terminal reap' demanded' s t2))
         else map_option (\<lambda>(x, s', es', t3). (Some x, s', es @ es', t3))
                (drive_scope pidfd preserve a e i session terminal reap demanded s t1))"

subsection \<open>Bounded output (run.go)\<close>

definition defaultRunLimit :: nat where "defaultRunLimit = 4 * 2 ^ 20"

definition runLimit :: "nat \<Rightarrow> nat" where
  "runLimit limit = (if limit = 0 then defaultRunLimit else limit)"

record streamResult =
  sr_data :: bytes
  sr_limited :: bool
  sr_err :: bool

text \<open>
  \<open>collectBounded\<close> on the reads that will return data, and whether the stream ends in an error other than the end of the
  file; the second component counts the calls of \<open>onCap\<close>.
\<close>

fun collect_reads :: "nat \<Rightarrow> bytes list \<Rightarrow> bytes \<Rightarrow> bool \<Rightarrow> nat \<Rightarrow> bytes \<times> bool \<times> nat" where
  "collect_reads limit [] data limited caps = (data, limited, caps)"
| "collect_reads limit (buf # bufs) data limited caps =
    (let remaining = min (limit - length data) (length buf) in
     if remaining < length buf \<and> \<not> limited
     then collect_reads limit bufs (data @ take remaining buf) True (caps + 1)
     else collect_reads limit bufs (data @ take remaining buf) limited caps)"

definition collectBounded :: "nat \<Rightarrow> bytes list \<Rightarrow> bool \<Rightarrow> streamResult \<times> nat" where
  "collectBounded limit bufs failed =
    (case collect_reads limit bufs [] False 0 of (data, limited, caps) \<Rightarrow>
     (\<lparr> sr_data = data, sr_limited = limited, sr_err = failed \<rparr>, caps))"

subsection \<open>What the waits return\<close>

lemma exit_or_timer_spec:
  assumes "exit_or_timer e until t = Some r"
  shows "t < snd r \<and> (\<forall>st. fst r = Some st \<longrightarrow> (\<exists>u\<ge>t. u < snd r \<and> dv_exited e u = Some st))
    \<and> (fst r = None \<longrightarrow> (\<exists>u\<ge>t. snd r = u + 1 \<and> until \<le> w_now (dv_world e) u))"
  using assms
proof (rule exit_or_timer.raw_induct [where P = "\<lambda>e until t r. t < snd r
    \<and> (\<forall>st. fst r = Some st \<longrightarrow> (\<exists>u\<ge>t. u < snd r \<and> dv_exited e u = Some st))
    \<and> (fst r = None \<longrightarrow> (\<exists>u\<ge>t. snd r = u + 1 \<and> until \<le> w_now (dv_world e) u))", rotated], goal_cases)
  case (1 f e until t r)
  have rec: ?case if "f e until (t + 1) = Some r" using 1(1) [OF that] by (auto dest: Suc_leD)
  show ?case
    by (cases "dv_exited e t") (use 1(2) rec in \<open>auto split: if_splits\<close>)
qed

lemma exit_or_timer_total:
  assumes "\<exists>u\<ge>t. until \<le> w_now (dv_world e) u"
  shows "\<exists>r. exit_or_timer e until t = Some r"
proof -
  obtain u where u: "t \<le> u" "until \<le> w_now (dv_world e) u" using assms by blast
  from u(1) show ?thesis
  proof (induction "u - t" arbitrary: t rule: less_induct)
    case less
    show ?case
    proof (cases "until \<le> w_now (dv_world e) t")
      case True
      then show ?thesis by (subst exit_or_timer.simps) (auto split: option.splits)
    next
      case False
      then have "t < u" using less(2) u(2) by (cases "t = u") auto
      then have "\<exists>r. exit_or_timer e until (t + 1) = Some r" using less(1) [of "t + 1"] by simp
      then show ?thesis by (subst exit_or_timer.simps) (auto split: option.splits)
    qed
  qed
qed

lemma terminateChild_spec:
  assumes "terminateChild e pid deadline t = Some (st, reap, es, t')"
  shows "t < t' \<and> (Proven reap \<longrightarrow> (\<exists>u\<ge>t. u < t' \<and> dv_exited e u = Some st))"
proof (cases "dv_exited e t")
  case (Some st')
  then show ?thesis using assms by (auto simp: terminateChild_def)
next
  case None
  let ?w = "dv_world e"
  obtain r1 t1 where r1: "exit_or_timer e (w_now ?w (t + 2) + proc_fractionOf (deadline - w_now ?w (t + 2)) termShare) (t + 3) = Some (r1, t1)"
    using assms None by (auto simp: terminateChild_def Let_def split: option.splits)
  note s1 = exit_or_timer_spec [OF r1]
  show ?thesis
  proof (cases r1)
    case (Some st1)
    then have "st = st1" "t' = t1" using assms None r1 by (auto simp: terminateChild_def Let_def)
    moreover obtain u where "t + 3 \<le> u" "u < t1" "dv_exited e u = Some st1" using s1 Some by auto
    ultimately show ?thesis using s1 by (auto intro: exI [of _ u])
  next
    case none: None
    obtain r2 t2 where r2: "exit_or_timer e deadline (t1 + 1) = Some (r2, t2)"
      using assms None r1 none by (auto simp: terminateChild_def Let_def split: option.splits)
    note s2 = exit_or_timer_spec [OF r2]
    have eq: "t' = t2" "case r2 of Some st2 \<Rightarrow> st = st2 | None \<Rightarrow> reap = reapUndetermined"
      using assms None r1 none r2 by (auto simp: terminateChild_def Let_def split: option.splits)
    show ?thesis
    proof (cases r2)
      case (Some st2)
      then obtain u where "t1 + 1 \<le> u" "u < t2" "dv_exited e u = Some st2" using s2 by auto
      then show ?thesis using eq Some s1 s2 by (auto intro: exI [of _ u])
    next
      case None
      then show ?thesis using eq s1 s2 by (auto simp: Proven_def)
    qed
  qed
qed

lemma awaitTerminal_spec:
  assumes "awaitTerminal e pid t = Some r"
  shows "t < snd (snd (snd (snd r))) \<and> (fst (snd (snd r)) = None \<longrightarrow> Proven (fst (snd r))) \<and> (Proven (fst (snd r)) \<longrightarrow>
    (\<exists>u\<ge>t. u < snd (snd (snd (snd r))) \<and> dv_exited e u = Some (fst r)))"
  using assms
proof (rule awaitTerminal.raw_induct [where P = "\<lambda>e pid t r. t < snd (snd (snd (snd r))) \<and> (fst (snd (snd r)) = None \<longrightarrow> Proven (fst (snd r))) \<and> (Proven (fst (snd r)) \<longrightarrow>
    (\<exists>u\<ge>t. u < snd (snd (snd (snd r))) \<and> dv_exited e u = Some (fst r)))", rotated], goal_cases)
  case (1 f e pid t r)
  have rec: ?case if "f e pid (t + 1) = Some r" using 1(1) [OF that] by (auto dest: Suc_leD)
  have demanded: ?case if m: "map_option (\<lambda>(st, reap, es, t1). (st, reap, Some d, es, t1)) (terminateChild e pid d (t + 1)) = Some r" for d
  proof -
    obtain st reap es t1 where tc: "terminateChild e pid d (t + 1) = Some (st, reap, es, t1)" "r = (st, reap, Some d, es, t1)"
      using m by auto
    then show ?thesis using terminateChild_spec [OF tc(1)] by (auto dest: Suc_leD)
  qed
  show ?case
  proof (cases "dv_exited e t")
    case (Some st)
    then show ?thesis using 1(2) demanded by (auto simp: Proven_def split: option.splits if_splits)
  next
    case None
    then show ?thesis using 1(2) demanded rec by (auto split: option.splits)
  qed
qed

lemma awaitNaturalScope_spec:
  assumes "awaitNaturalScope released e i session t = Some r"
  shows "t \<le> snd r \<and> (\<forall>reap d. fst r = Inr (reap, d) \<longrightarrow> Proven reap
    \<and> (d = None \<longrightarrow> (\<exists>u\<ge>t. \<exists>sc t1. observeScope released (background (dv_world e)) i session u = ((None, sc), t1) \<and> scope_complete sc)))"
  using assms
proof (rule awaitNaturalScope.raw_induct [where P = "\<lambda>released e i session t r. t \<le> snd r \<and> (\<forall>reap d. fst r = Inr (reap, d) \<longrightarrow> Proven reap
    \<and> (d = None \<longrightarrow> (\<exists>u\<ge>t. \<exists>sc t1. observeScope released (background (dv_world e)) i session u = ((None, sc), t1) \<and> scope_complete sc)))", rotated], goal_cases)
  case (1 f released e i session t r)
  obtain err scope t1 where ob: "observeScope released (background (dv_world e)) i session t = ((err, scope), t1)" by (metis prod.collapse)
  have t1: "t \<le> t1" using observeScope_time [OF ob] by simp
  have rec: ?case if "f released e i session (t1 + 1) = Some r"
    using 1(1) [OF that] t1 by (auto dest: Suc_leD) (meson Suc_leD le_trans)
  show ?case
  proof (cases "err = None \<and> scope_complete scope")
    case True
    then have "r = (Inr (so_Reap scope, None), t1)" using 1(2) ob by simp
    then show ?thesis using True ob t1 observeScope_identity [OF ob] by (auto simp: scope_complete_def Proven_def)
  next
    case False
    then show ?thesis using 1(2) ob rec t1 by (auto simp: Proven_def split: option.splits if_splits)
  qed
qed

subsection \<open>What is published\<close>

lemma session_verdict:
  assumes "reapIdentityWithGrace pidfd w i session g t = Some (Inr v, es, t')" "session \<noteq> 0"
  shows "Proven v"
  using assms unfolding Proven_def
  by (auto simp: reapIdentityWithGrace_def reapSession_def dest: settleSession_spec split: if_splits probe_answer.splits)

lemma retire_settled_spec:
  assumes "retire_settled a i s = (RecordRemoved, s')"
  shows "\<not> holds (st_value s') i"
  using assms
  by (auto simp: retire_settled_def retireContext_def retire_op_def split: if_splits sum.splits prod.splits)

text \<open>The leader's terminal was received, and where the child led a session its survivors were settled or observed gone.\<close>

definition settled_scope :: "bool \<Rightarrow> bool \<Rightarrow> drive_env \<Rightarrow> identity \<Rightarrow> int \<Rightarrow> bool \<Rightarrow> nat \<Rightarrow> bool" where
  "settled_scope pidfd released e i session preserve t \<longleftrightarrow> session = 0
    \<or> (\<exists>d g u v es t1. t \<le> u \<and> Proven v \<and> reapIdentityWithGrace pidfd (deadline_world d (dv_world e)) i session g u = Some (Inr v, es, t1))
    \<or> (preserve \<and> (\<exists>u\<ge>t. \<exists>sc t1. observeScope released (background (dv_world e)) i session u = ((None, sc), t1) \<and> scope_complete sc))"

lemma drive_scope_spec:
  assumes "drive_scope pidfd preserve a e i session terminal reap demanded s t = Some (x, s', es, t')"
  shows "ex_Code x = st_code terminal \<and> ex_Signal x = st_signal terminal
    \<and> (Proven (ex_Reap x) \<longrightarrow> Proven reap \<and> (session = 0 \<or> preserve \<and> demanded = None \<or>
        (\<exists>d g u v es t1. t \<le> u \<and> Proven v \<and> reapIdentityWithGrace pidfd (deadline_world d (dv_world e)) i session g u = Some (Inr v, es, t1))))
    \<and> (\<not> Proven (ex_Reap x) \<longrightarrow> ex_Record x = RecordAbandoned \<and> s' = s)
    \<and> (ex_Record x = RecordRemoved \<longrightarrow> \<not> holds (st_value s') i)"
proof (cases "Proven reap \<and> session \<noteq> 0 \<and> (\<not> preserve \<or> demanded \<noteq> None)")
  case False
  then have pe: "publish_exit a i terminal reap (Proven reap) s = (x, s')"
    using assms by (auto simp: drive_scope_def split: prod.splits)
  then show ?thesis
    using False retire_settled_spec by (auto simp: publish_exit_def split: if_splits prod.splits)
next
  case True
  let ?d = "sessionDeadline demanded (w_now (dv_world e) t)"
  obtain outcome es1 t1 where o: "settleSessionSurvivors pidfd e i session ?d (t + 1) = Some (outcome, es1, t1)"
    using assms True by (auto simp: drive_scope_def split: option.splits)
  define reap' where "reap' = (case outcome of None \<Rightarrow> reapUndetermined | Some r \<Rightarrow> if r \<noteq> ReapAbsent then r else reap)"
  have pe: "publish_exit a i terminal reap' (outcome \<noteq> None) s = (x, s')"
    using assms True o by (auto simp: drive_scope_def reap'_def Let_def split: prod.splits)
  show ?thesis
  proof (cases outcome)
    case None
    then show ?thesis using pe by (auto simp: publish_exit_def reap'_def Proven_def)
  next
    case (Some v)
    then obtain g where run: "reapIdentityWithGrace pidfd (deadline_world ?d (dv_world e)) i session g (t + 1 + 1) = Some (Inr v, es1, t1)"
      using o by (auto simp: settleSessionSurvivors_def Let_def split: option.splits sum.splits)
    have v: "Proven v" using session_verdict [OF run] True by simp
    then have "Proven reap'" using Some True by (simp add: reap'_def)
    moreover have "\<exists>d g u v es t1. t \<le> u \<and> Proven v \<and> reapIdentityWithGrace pidfd (deadline_world d (dv_world e)) i session g u = Some (Inr v, es, t1)"
      using run v le_add1 [of t 2] by (metis Suc_eq_plus1 le_SucI order_refl)
    ultimately show ?thesis
      using pe Some True retire_settled_spec by (auto simp: publish_exit_def split: prod.splits)
  qed
qed

text \<open>
  C26: a published exit is a proof or the record is kept. When the driver publishes a proven end, the child's own terminal was
  received and is the one published, and when the child led a session, that session was settled by the ladder without an
  error, or, under the preserving policy, was observed complete. When the end is not proven the record is abandoned
  untouched; and a record reported removed belongs to a proven end and is not in the store.
\<close>

theorem exit_proof_or_record:
  assumes "driveExit pidfd released a e i session s t = Some (Some x, s', es, t')"
  shows "(Proven (ex_Reap x) \<longrightarrow> (\<exists>u\<ge>t. dv_exited e u = Some \<lparr> st_code = ex_Code x, st_signal = ex_Signal x \<rparr>)
      \<and> settled_scope pidfd released e i session (st_policy s = PreserveOwned) t)
    \<and> (\<not> Proven (ex_Reap x) \<longrightarrow> ex_Record x = RecordAbandoned \<and> s' = s)
    \<and> (ex_Record x = RecordRemoved \<longrightarrow> Proven (ex_Reap x) \<and> \<not> holds (st_value s') i)"
proof -
  let ?p = "st_policy s = PreserveOwned"
  obtain terminal reap demanded es1 t1 where at: "awaitTerminal e (id_pid i) t = Some (terminal, reap, demanded, es1, t1)"
    using assms by (auto simp: driveExit_def split: option.splits)
  note ats = awaitTerminal_spec [OF at]
  obtain reap' demanded' es' t2 where ds: "drive_scope pidfd ?p a e i session terminal reap' demanded' s t2 = Some (x, s', es', t')"
      and t2: "t \<le> t2" and src: "reap' = reap \<and> demanded' = demanded \<and> \<not> (?p \<and> demanded = None)
        \<or> ?p \<and> demanded = None \<and> awaitNaturalScope released e i session t1 = Some (Inr (reap', demanded'), t2)"
  proof (cases "?p \<and> demanded = None")
    case False
    then show ?thesis using assms at ats that [of reap demanded t1] by (auto simp: driveExit_def Let_def)
  next
    case True
    then obtain r' d' t2 where n: "awaitNaturalScope released e i session t1 = Some (Inr (r', d'), t2)"
      using assms at by (auto simp: driveExit_def Let_def split: option.splits sum.splits)
    then show ?thesis
      using assms at ats True that [of r' d' t2] awaitNaturalScope_spec [OF n] by (auto simp: driveExit_def Let_def)
  qed
  note dss = drive_scope_spec [OF ds]
  have "\<exists>u\<ge>t. dv_exited e u = Some terminal" if "Proven (ex_Reap x)"
  proof -
    have "Proven reap" using src dss ats that by auto
    then show ?thesis using ats by auto
  qed
  moreover have "terminal = \<lparr> st_code = ex_Code x, st_signal = ex_Signal x \<rparr>" using dss by simp
  moreover have "settled_scope pidfd released e i session ?p t" if "Proven (ex_Reap x)"
  proof (cases "?p \<and> demanded' = None")
    case True
    then have n: "awaitNaturalScope released e i session t1 = Some (Inr (reap', demanded'), t2)" using src by blast
    obtain u sc t3 where "t1 \<le> u" "observeScope released (background (dv_world e)) i session u = ((None, sc), t3)" "scope_complete sc"
      using awaitNaturalScope_spec [OF n] True by auto
    then show ?thesis using True ats unfolding settled_scope_def by (metis fst_conv snd_conv le_trans less_imp_le)
  next
    case False
    then show ?thesis using dss that t2 unfolding settled_scope_def by (meson le_trans)
  qed
  ultimately show ?thesis using dss by (metis RecordFate.distinct(1))
qed

subsection \<open>The grace before the kill\<close>

lemma tiny: "1 / 2 \<le> x \<Longrightarrow> (2 :: rat) powi (- 1022) \<le> x"
proof -
  assume x: "1 / 2 \<le> x"
  have "(2 :: rat) powi (- 1022) \<le> 2 powi (- 1)" by (rule power_int_increasing) simp_all
  then show ?thesis using x by (simp add: power_int_minus)
qed

lemma rnd64_near:
  assumes "1 / 2 \<le> x"
  shows "x - x / 2 ^ 53 \<le> rnd64 x \<and> rnd64 x \<le> x + x / 2 ^ 53"
  using rnd64_error [OF tiny [OF assms]] by (simp only: abs_le_iff) linarith

lemma termShare_near: "59 / 100 < termShare \<and> termShare < 61 / 100"
  using rnd64_near [of "6 / 10"] unfolding termShare_def by simp

lemma KillAfter_range:
  assumes "1 \<le> grace" "grace \<le> 2 ^ 50"
  shows "of_int grace / termShare - 61 / 50 < of_int (KillAfter grace)
    \<and> of_int (KillAfter grace) \<le> of_int grace / termShare + 1 \<and> KillAfter grace \<le> 2 ^ 53 \<and> grace \<le> KillAfter grace"
proof -
  let ?q = "of_int grace / termShare"
  have s: "59 / 100 < termShare" "termShare < 61 / 100" using termShare_near by auto
  have g: "rnd64 (of_int grace) = of_int grace" using assms by (intro rnd64_int) simp_all
  have g1: "(1 :: rat) \<le> of_int grace" "(of_int grace :: rat) \<le> 2 ^ 50"
    using assms(1) of_int_le_iff [of grace "2 ^ 50", where ?'a = rat] assms(2) by simp_all
  have q1: "of_int grace * (100 / 61) \<le> ?q" using s g1 by (simp add: field_simps)
  have q2: "?q \<le> of_int grace * (100 / 59)" using s g1 by (simp add: field_simps)
  have q: "1 / 2 \<le> ?q" using q1 g1 by simp
  note r = rnd64_near [OF q]
  have k: "rnd64 ?q - 1 < of_int (KillAfter grace)" "of_int (KillAfter grace) \<le> rnd64 ?q"
    unfolding KillAfter_def g by linarith+
  have small: "?q / 2 ^ 53 \<le> 11 / 50" using q2 g1 by simp
  have "(of_int (KillAfter grace) :: rat) \<le> of_int (2 ^ 53)" using k(2) r q2 g1 small by simp
  moreover have "of_int grace - 1 < (of_int (KillAfter grace) :: rat)" using k(1) r q1 g1 small by (simp add: field_simps)
  ultimately have "KillAfter grace \<le> 2 ^ 53" "grace - 1 < KillAfter grace"
    using of_int_less_iff [of "grace - 1" "KillAfter grace", where ?'a = rat] by (simp_all only: of_int_le_iff)
  then show ?thesis using k r small by simp
qed

lemma grace_kept:
  assumes "0 \<le> grace" "grace \<le> 2 ^ 50" "0 \<le> late"
  shows "grace - 1 \<le> proc_fractionOf (KillAfter grace - late) termShare + late"
proof (cases "grace = 0 \<or> KillAfter grace - late \<le> 0")
  case True
  show ?thesis
  proof (cases "grace = 0")
    case True
    have "0 \<le> proc_fractionOf (KillAfter grace - late) termShare" by (simp add: proc_fractionOf_def)
    then show ?thesis using True assms(3) by linarith
  next
    case False
    then have "grace \<le> KillAfter grace" using KillAfter_range [of grace] assms by simp
    then show ?thesis using True False by (simp add: proc_fractionOf_def)
  qed
next
  case False
  let ?s = termShare and ?m = "KillAfter grace - late" and ?g = "of_int grace :: rat"
  let ?K = "of_int (KillAfter grace) :: rat" and ?l = "of_int late :: rat"
  have s: "59 / 100 < ?s" "?s < 61 / 100" using termShare_near by auto
  have g: "1 \<le> grace" using False assms(1) by simp
  note K = KillAfter_range [OF g assms(2)]
  have gr: "1 \<le> ?g" "?g \<le> 2 ^ 50" "0 \<le> ?l"
    using g of_int_le_iff [of grace "2 ^ 50", where ?'a = rat] assms(2,3) by simp_all
  have rm: "rnd64 (of_int ?m) = of_int ?m" using K False assms(3) by (intro rnd64_int) auto
  let ?x = "?s * of_int ?m"
  have frac: "proc_fractionOf ?m ?s = \<lfloor>rnd64 ?x\<rfloor>" using False rm by (simp add: proc_fractionOf_def)
  have m1: "(1 :: rat) \<le> of_int ?m" using False of_int_le_iff [of 1 ?m, where ?'a = rat] by simp
  have x: "1 / 2 \<le> ?x" using mult_mono [of "1 / 2" ?s 1 "of_int ?m"] s(1) m1 by simp
  have err: "?x - ?x / 2 ^ 53 \<le> rnd64 ?x" using rnd64_near [OF x] by simp
  have sK: "?g - ?s * (61 / 50) < ?s * ?K" "?s * ?K \<le> ?g + ?s" "0 \<le> ?s * ?l" "?s * ?l \<le> ?l"
  proof -
    have pos: "0 < ?s" using s by simp
    have "?s * (?g / ?s - 61 / 50) < ?s * ?K" using K pos by (intro mult_strict_left_mono) auto
    then show "?g - ?s * (61 / 50) < ?s * ?K" using pos by (simp add: right_diff_distrib)
    have "?s * ?K \<le> ?s * (?g / ?s + 1)" using K pos by (intro mult_left_mono) auto
    then show "?s * ?K \<le> ?g + ?s" using pos by (simp add: distrib_left)
    show "0 \<le> ?s * ?l" using pos gr by simp
    show "?s * ?l \<le> ?l" using mult_right_mono [of ?s 1 ?l] s gr by simp
  qed
  have xs: "?x = ?s * ?K - ?s * ?l" by (simp add: right_diff_distrib)
  have "?x \<le> 2 ^ 50 + 1" using xs sK gr s by linarith
  then have "?x / 2 ^ 53 \<le> 13 / 100" by simp
  then have "?g - 1 < rnd64 ?x + ?l" using err xs sK s by linarith
  then have "?g - 1 - ?l < rnd64 ?x" by linarith
  then have "grace - 1 - late \<le> \<lfloor>rnd64 ?x\<rfloor>" by (simp add: le_floor_iff)
  then show ?thesis using frac by simp
qed

text \<open>
  A demanded child keeps its grace. When a termination is demanded with the budget \<open>KillAfter grace\<close> from some instant on
  the clock, then however late the driver acts on it, the child is not sent \<open>SIGKILL\<close> before \<open>grace\<close>, less one nanosecond of
  rounding, has passed since that instant.
\<close>

lemma kill_waits_out_grace:
  assumes "0 \<le> grace" and "grace \<le> 2 ^ 50" and "asked \<le> w_now (dv_world e) (t + 2)"
    and "terminateChild e pid (asked + KillAfter grace) t = Some (st, reap, es, t')" and "Signalled u SIGKILL n \<in> set es"
  shows "\<exists>v\<ge>t. v < u \<and> asked + grace - 1 \<le> w_now (dv_world e) v"
proof -
  let ?w = "dv_world e" and ?d = "asked + KillAfter grace"
  have none: "dv_exited e t = None" using assms(4,5) by (cases "dv_exited e t") (auto simp: terminateChild_def)
  obtain r1 t1 where r1: "exit_or_timer e (w_now ?w (t + 2) + proc_fractionOf (?d - w_now ?w (t + 2)) termShare) (t + 3) = Some (r1, t1)"
    using assms(4) none by (auto simp: terminateChild_def Let_def split: option.splits)
  have term_es: "Signalled u SIGKILL n \<notin> set (snd (heldGone PidHold ?w x pid SIGTERM))" for x
    by (auto simp: heldGone_def split: option.splits)
  have "r1 = None" using assms(4,5) none r1 term_es by (cases r1) (auto simp: terminateChild_def Let_def)
  then have "u = t1"
    using assms(4,5) none r1 term_es
    by (auto simp: terminateChild_def Let_def heldGone_def split: option.splits)
  moreover obtain v where v: "t + 3 \<le> v" "t1 = v + 1"
      "w_now ?w (t + 2) + proc_fractionOf (?d - w_now ?w (t + 2)) termShare \<le> w_now ?w v"
    using exit_or_timer_spec [OF r1] \<open>r1 = None\<close> by auto
  moreover have "grace - 1 \<le> proc_fractionOf (?d - w_now ?w (t + 2)) termShare + (w_now ?w (t + 2) - asked)"
    using grace_kept [OF assms(1,2), of "w_now ?w (t + 2) - asked"] assms(3) by (simp add: algebra_simps)
  ultimately show ?thesis by (intro exI [of _ v]) auto
qed

subsection \<open>The driver returns\<close>

definition clock_runs :: "world \<Rightarrow> bool" where
  "clock_runs w \<longleftrightarrow> (\<forall>x. \<exists>T. \<forall>u\<ge>T. x \<le> w_now w u)"

lemma timer_fires: "clock_runs (dv_world e) \<Longrightarrow> \<exists>r. exit_or_timer e until t = Some r"
  using exit_or_timer_total [of t until e] unfolding clock_runs_def by (metis nat_le_linear)

lemma terminateChild_total:
  assumes "clock_runs (dv_world e)"
  shows "\<exists>r. terminateChild e pid deadline t = Some r"
proof -
  have "exit_or_timer e until u \<noteq> None" for until u using timer_fires [OF assms, of until u] by auto
  then show ?thesis
    by (auto simp del: not_None_eq simp: terminateChild_def Let_def split: option.splits)
qed

lemma awaitTerminal_total:
  assumes "clock_runs (dv_world e)" "\<exists>u\<ge>t. dv_exited e u \<noteq> None \<or> dv_demand e u \<noteq> None"
  shows "\<exists>r. awaitTerminal e pid t = Some r"
proof -
  obtain u where u: "t \<le> u" "dv_exited e u \<noteq> None \<or> dv_demand e u \<noteq> None" using assms(2) by blast
  have tc: "\<exists>r. map_option g (terminateChild e pid d x) = Some r" for d x and g :: "_ \<Rightarrow> status \<times> Reap \<times> int option \<times> event list \<times> nat"
    using terminateChild_total [OF assms(1), of pid d x] by (metis option.simps(9))
  from u(1) show ?thesis
  proof (induction "u - t" arbitrary: t rule: less_induct)
    case less
    show ?case
    proof (cases "dv_exited e t \<noteq> None \<or> dv_demand e t \<noteq> None")
      case True
      then show ?thesis
        using tc by (subst awaitTerminal.simps) (cases "dv_demand e t"; cases "dv_exited e t"; simp del: map_option_eq_Some)
    next
      case False
      then have "t < u" using less(2) u(2) by (cases "t = u") auto
      then have "\<exists>r. awaitTerminal e pid (t + 1) = Some r" using less(1) [of "t + 1"] by simp
      then show ?thesis using False by (subst awaitTerminal.simps) auto
    qed
  qed
qed

lemma survivors_total:
  assumes "clock_runs (dv_world e)"
  shows "settleSessionSurvivors pidfd e i session d t \<noteq> None"
proof -
  let ?w = "deadline_world d (dv_world e)"
  obtain T where T: "\<forall>u\<ge>T. w_ended ?w u" using assms by (auto simp: clock_runs_def deadline_world_def)
  have "reapIdentityWithGrace pidfd ?w i session g u \<noteq> None" for g u
    using reapOrphan_total [OF T] settleSession_total [OF T]
    by (auto simp: reapIdentityWithGrace_def reapSession_def split: option.splits probe_answer.splits)
  then show ?thesis by (auto simp del: not_None_eq simp: settleSessionSurvivors_def Let_def split: option.splits sum.splits)
qed

text \<open>
  What lets a natural wait end: nothing of the recorded scope is left and the system can be asked about it. A session is
  recorded under the PID of its leader.
\<close>

definition scope_gone :: "world \<Rightarrow> identity \<Rightarrow> int \<Rightarrow> nat \<Rightarrow> bool" where
  "scope_gone w i session u \<longleftrightarrow> \<not> w_bootErr w u \<and> \<not> w_probeErr w u \<and> \<not> alive w u i
    \<and> (session = 0 \<or> 1 < session \<and> session = id_pid i \<and> w_members w u session = Some [])"

lemma observe_gone:
  assumes "\<forall>u\<ge>t. scope_gone w i session u"
  shows "\<exists>reap. observe w i t = (Inr (reap, True), if crossBoot i (w_boot w) then t + 1 else t + 2) \<and> Proven reap"
  using assms [rule_format, of t] assms [rule_format, of "t + 1"]
  by (auto simp: scope_gone_def observe_def probe_def alive_def Proven_def matches_def seen_as_def crossBoot_def split: option.splits)

lemma observeScope_gone:
  assumes "\<forall>u\<ge>t. scope_gone w i session u"
  shows "\<exists>sc t'. observeScope False (background w) i session t = ((None, sc), t') \<and> scope_complete sc"
proof -
  let ?w = "background w"
  have g: "\<forall>u\<ge>t. scope_gone ?w i session u" using assms by (simp add: scope_gone_def background_def alive_def)
  then obtain reap t1 where o: "observe ?w i (t + 1) = (Inr (reap, True), t1)" "Proven reap" "t + 1 < t1"
    using observe_gone [of "t + 1" ?w i session] by auto
  have ended: "\<not> w_ended ?w u" for u by (simp add: background_def)
  have s: "session = 0 \<or> 1 < session \<and> session = id_pid i \<and> w_members ?w u session = Some []" if "t \<le> u" for u
    using g [rule_format, OF that] by (auto simp: scope_gone_def)
  have "verifiedMembers ?w session t1 = (Inr [], t1 + 2)" if "session \<noteq> 0"
    using s [of "t1 + 1"] o that ended by (auto simp: verifiedMembers_def)
  then show ?thesis
    using o s [of t1] ended by (auto simp: observeScope_def inspectScope_def scope_complete_def Let_def Proven_def)
qed

text \<open>The natural wait returns once the scope is gone for good, or a demand stands; nothing else ends it but the close of the store.\<close>

definition wait_ends :: "drive_env \<Rightarrow> identity \<Rightarrow> int \<Rightarrow> bool" where
  "wait_ends e i session \<longleftrightarrow> (\<exists>T. (\<forall>u\<ge>T. scope_gone (dv_world e) i session u) \<or> (\<forall>u\<ge>T. dv_demand e u \<noteq> None))"

lemma awaitNaturalScope_total:
  assumes "\<forall>u. \<not> dv_closed e u" and "wait_ends e i session"
  shows "\<exists>v. awaitNaturalScope False e i session t = Some v \<and> \<not> isl (fst v)"
proof -
  obtain T where T: "(\<forall>u\<ge>T. scope_gone (dv_world e) i session u) \<or> (\<forall>u\<ge>T. dv_demand e u \<noteq> None)"
    using assms(2) by (auto simp: wait_ends_def)
  show ?thesis
  proof (induction "T - t" arbitrary: t rule: less_induct)
    case less
    obtain err sc t1 where ob: "observeScope False (background (dv_world e)) i session t = ((err, sc), t1)" by (metis prod.collapse)
    have t1: "t < t1" using observeScope_time [OF ob] .
    show ?case
    proof (cases "err = None \<and> scope_complete sc \<or> dv_demand e t1 \<noteq> None")
      case True
      then show ?thesis using ob assms(1) by (subst awaitNaturalScope.simps) (auto split: option.splits)
    next
      case False
      have "t < T"
      proof (rule ccontr)
        assume "\<not> t < T"
        then have "\<forall>u\<ge>t. scope_gone (dv_world e) i session u" using T False t1
          by (metis le_trans less_imp_le linorder_not_less)
        then show False using observeScope_gone [of t "dv_world e" i session] ob False by auto
      qed
      then have "\<exists>v. awaitNaturalScope False e i session (t1 + 1) = Some v \<and> \<not> isl (fst v)" using less [of "t1 + 1"] t1 by simp
      then show ?thesis using ob False assms(1) by (subst awaitNaturalScope.simps) auto
    qed
  qed
qed

text \<open>
  C27: the driver publishes. Let the clock keep running and the child exit or its termination be demanded. The driver of a
  terminating store then publishes an exit, whether or not the process, its session or the record file cooperate. The driver
  of a preserving store, which signals nothing on its own, does when the store stays open and after the child's exit its
  scope is gone for good or a termination is demanded.
\<close>

theorem driver_publishes:
  assumes "clock_runs (dv_world e)" and "\<exists>u\<ge>t. dv_exited e u \<noteq> None \<or> dv_demand e u \<noteq> None"
    and "st_policy s = PreserveOwned \<Longrightarrow> \<not> released \<and> (\<forall>u. \<not> dv_closed e u) \<and> wait_ends e i session"
  shows "\<exists>x s' es t'. driveExit pidfd released a e i session s t = Some (Some x, s', es, t')"
proof -
  obtain terminal reap demanded es t1 where at: "awaitTerminal e (id_pid i) t = Some (terminal, reap, demanded, es, t1)"
    using awaitTerminal_total [OF assms(1,2), of "id_pid i"] by auto
  have scope: "\<exists>v. drive_scope pidfd preserve a e i session terminal reap demanded s u = Some v" for preserve reap demanded u
    using survivors_total [OF assms(1), of pidfd]
    by (auto simp del: not_None_eq simp: drive_scope_def Let_def split: option.splits prod.splits)
  show ?thesis
  proof (cases "st_policy s = PreserveOwned \<and> demanded = None")
    case True
    then have p: "\<not> released" "\<forall>u. \<not> dv_closed e u" "wait_ends e i session" using assms(3) by auto
    obtain n t2 where n: "awaitNaturalScope False e i session t1 = Some (n, t2)" "\<not> isl n"
      using awaitNaturalScope_total [OF p(2,3), of t1] by auto
    then obtain reap' demanded' where "n = Inr (reap', demanded')" by (cases n) auto
    then show ?thesis using at n True p(1) scope [of True reap' demanded' t2] by (auto simp: driveExit_def Let_def)
  next
    case False
    then show ?thesis using at scope [of "st_policy s = PreserveOwned" reap demanded t1] by (auto simp: driveExit_def Let_def)
  qed
qed

subsection \<open>Bounded output\<close>

lemma collect_reads_spec:
  assumes "collect_reads limit bufs data limited caps = (data', limited', caps')" "length data \<le> limit"
    and "limited \<longleftrightarrow> caps = 1" "caps \<le> 1"
  shows "data' = take limit (data @ concat bufs) \<and> (limited' \<longleftrightarrow> limited \<or> limit < length (data @ concat bufs))
    \<and> caps' = (if limited' then 1 else 0)"
  using assms
proof (induction bufs arbitrary: data limited caps)
  case Nil
  then show ?case by auto
next
  case (Cons buf bufs)
  let ?k = "min (limit - length data) (length buf)" and ?d = "data @ take (min (limit - length data) (length buf)) buf"
  have len: "length ?d \<le> limit" using Cons(3) by simp
  have app: "take limit (?d @ concat bufs) = take limit (data @ buf @ concat bufs)" if "\<not> ?k < length buf"
    using that by (simp add: min_def split: if_splits)
  have full: "length ?d = limit" if "?k < length buf" using that Cons(3) by (auto simp: min_def split: if_splits)
  show ?case
  proof (cases "?k < length buf")
    case True
    have "take limit (?d @ concat bufs) = take limit (data @ buf @ concat bufs)"
      using full [OF True] Cons(3) True by (simp add: min_def split: if_splits)
    moreover have "limit < length (data @ buf @ concat bufs)" using True Cons(3) by (auto simp: min_def split: if_splits)
    moreover have "collect_reads limit bufs ?d True (if limited then caps else caps + 1) = (data', limited', caps')"
      using Cons(2) True by (auto simp: Let_def split: if_splits)
    ultimately show ?thesis
      using Cons(1) [of ?d True "if limited then caps else caps + 1"] len Cons(4,5) by (auto split: if_splits)
  next
    case False
    then have "collect_reads limit bufs ?d limited caps = (data', limited', caps')" using Cons(2) by (auto simp: Let_def split: if_splits)
    then show ?thesis
      using Cons(1) [of ?d limited caps] len Cons(4,5) app [OF False] False by (auto simp: min_def split: if_splits)
  qed
qed

text \<open>The captured output is exactly the first bytes of the stream, whatever its reads were, and the cap is reported once.\<close>

lemma collectBounded_exact:
  "collectBounded limit bufs failed = (r, caps) \<Longrightarrow>
    sr_data r = take limit (concat bufs) \<and> (sr_limited r \<longleftrightarrow> limit < length (concat bufs)) \<and> caps = (if sr_limited r then 1 else 0)"
  using collect_reads_spec [of limit bufs "[]" False 0] by (auto simp: collectBounded_def split: prod.splits)

subsection \<open>A child that is terminated on demand\<close>

text \<open>
  The child of \<open>quiet_identity\<close> is asked to leave at instant 0 and its terminal is ready from instant 4 on; the second
  environment never sees it, so its child is killed.
\<close>

definition leaving :: drive_env where
  "leaving = \<lparr> dv_world = quiet_world, dv_exited = (\<lambda>t. if t < 4 then None else Some \<lparr> st_code = 0, st_signal = 0 \<rparr>),
     dv_demand = (\<lambda>t. if t = 0 then Some 90 else None), dv_closed = (\<lambda>_. False), dv_pick = (\<lambda>_. True) \<rparr>"

definition stuck :: drive_env where
  "stuck = leaving\<lparr>dv_exited := (\<lambda>_. None)\<rparr>"

definition calm_retire :: "records codec \<Rightarrow> retire_env" where
  "calm_retire j = \<lparr> rt_codec = j, rt_path = ''r'', rt_send = open_send, rt_io = calm_io, rt_late = False \<rparr>"

lemma leaving_terminal:
  "awaitTerminal leaving 42 0 = Some (\<lparr> st_code = 0, st_signal = 0 \<rparr>, ReapTerminated, Some 90, [Signalled 2 SIGTERM 1], 5)"
  by (simp add: awaitTerminal.simps terminateChild_def exit_or_timer.simps Let_def leaving_def heldGone_def target_of_def quiet_world_def)

lemma leaving_driven:
  "\<exists>s'. driveExit True False (calm_retire rec_codec) leaving quiet_identity 0 one_record_store 0
     = Some (Some \<lparr> ex_Code = 0, ex_Signal = 0, ex_Reap = ReapTerminated, ex_Record = RecordRemoved \<rparr>, s', [Signalled 2 SIGTERM 1], 5)"
proof -
  have "codec_ok rec_codec records_Cores (retained (st_value one_record_store) quiet_identity)"
    using rec_codec_ok(1) by (simp add: one_record_store_def retained_def no_records_def matches_def quiet_identity_def rec_example_def rec_id_def)
  then have "fst (retireContext rec_codec ''r'' open_send calm_io quiet_identity one_record_store) = RecordRemoved"
    using retire_op_eq [of rec_codec one_record_store quiet_identity "''r''" calm_io]
    by (simp add: retireContext_def refused_def open_send_def calm_io_def)
  then obtain s' where "retireContext rec_codec ''r'' open_send calm_io quiet_identity one_record_store = (RecordRemoved, s')"
    by (metis prod.collapse)
  moreover have "st_policy one_record_store \<noteq> PreserveOwned" by (simp add: one_record_store_def empty_store_def TerminateOwned_def PreserveOwned_def)
  moreover have "id_pid quiet_identity = 42" by (simp add: quiet_identity_def)
  ultimately show ?thesis
    using leaving_terminal
    by (simp add: driveExit_def Let_def drive_scope_def publish_exit_def retire_settled_def calm_retire_def Proven_def)
qed

theorem exit_proof_or_record_witness:
  "\<exists>s'. driveExit True False (calm_retire rec_codec) leaving quiet_identity 0 one_record_store 0
     = Some (Some \<lparr> ex_Code = 0, ex_Signal = 0, ex_Reap = ReapTerminated, ex_Record = RecordRemoved \<rparr>, s', [Signalled 2 SIGTERM 1], 5)
   \<and> \<not> holds (st_value s') quiet_identity"
proof -
  obtain s' where s': "driveExit True False (calm_retire rec_codec) leaving quiet_identity 0 one_record_store 0
     = Some (Some \<lparr> ex_Code = 0, ex_Signal = 0, ex_Reap = ReapTerminated, ex_Record = RecordRemoved \<rparr>, s', [Signalled 2 SIGTERM 1], 5)"
    using leaving_driven by blast
  then show ?thesis using exit_proof_or_record [OF s'] by auto
qed

lemma KillAfter_3: "KillAfter 3 = 5" "proc_fractionOf 5 termShare = 3"
  by code_simp+

text \<open>The rounding of \<open>KillAfter\<close> does reach the caller: twenty seconds are cut short by a nanosecond.\<close>

lemma KillAfter_short: "proc_fractionOf (KillAfter 20000000000) termShare = 19999999999"
  by code_simp

lemma stuck_killed:
  "terminateChild stuck 42 (2 + KillAfter 3) 0
     = Some (\<lparr> st_code = - 1, st_signal = 0 \<rparr>, reapUndetermined, [Signalled 1 SIGTERM 1, Signalled 6 SIGKILL 1], 8)"
  by (simp add: terminateChild_def exit_or_timer.simps Let_def stuck_def leaving_def heldGone_def target_of_def quiet_world_def KillAfter_3)

text \<open>A child of a preserving store that exits by itself at instant 4, in a system where nothing of it is left at instant 9.\<close>

definition departing :: drive_env where
  "departing = leaving\<lparr>dv_demand := (\<lambda>_. None)\<rparr>"

lemma departing_gone: "wait_ends departing quiet_identity 42"
  unfolding wait_ends_def
  by (rule exI [of _ 9]) (simp add: scope_gone_def departing_def leaving_def quiet_world_def quiet_identity_def alive_def)

theorem driver_publishes_witness:
  "(\<exists>x s' es t'. driveExit False True (calm_retire rec_codec) stuck quiet_identity 42 one_record_store 0 = Some (Some x, s', es, t'))
   \<and> (\<exists>x s' es t'. driveExit True False (calm_retire rec_codec) departing quiet_identity 42
        (one_record_store\<lparr>st_policy := PreserveOwned\<rparr>) 0 = Some (Some x, s', es, t'))"
proof -
  have "\<forall>u\<ge>nat \<bar>x\<bar>. x \<le> int u" for x by linarith
  then have clock: "clock_runs (dv_world stuck)" "clock_runs (dv_world departing)"
    by (auto simp: clock_runs_def stuck_def departing_def leaving_def quiet_world_def)
  have policy: "st_policy one_record_store \<noteq> PreserveOwned" by (simp add: one_record_store_def empty_store_def TerminateOwned_def PreserveOwned_def)
  have "\<exists>u\<ge>0. dv_exited stuck u \<noteq> None \<or> dv_demand stuck u \<noteq> None" by (auto simp: stuck_def leaving_def)
  note asked = driver_publishes [OF clock(1) this, where s = one_record_store]
  have "\<exists>u\<ge>0. dv_exited departing u \<noteq> None \<or> dv_demand departing u \<noteq> None"
    by (rule exI [of _ 4]) (simp add: departing_def leaving_def)
  note alone = driver_publishes [OF clock(2) this, where s = "one_record_store\<lparr>st_policy := PreserveOwned\<rparr>"]
  have "\<forall>u. \<not> dv_closed departing u" by (simp add: departing_def leaving_def)
  then show ?thesis using asked policy alone departing_gone by blast
qed

end
