(* ===== verification/Supervise.thy ===== *)
theory Supervise
  imports Names Driver
begin

text \<open>
  The supervisor of one label: \<^verbatim>\<open>supervise/service.go\<close>, \<^verbatim>\<open>supervise/supervisor.go\<close> and the verbs of \<^verbatim>\<open>supervise/control.go\<close>.

  The supervisor is one goroutine, so its loop is a relation whose steps are the arms of its select; each operation is a
  function of the state and of the answers it gets: the clock, the file system, the spawn, the driver's exit. A child is
  named by a number. The specification file is part of the state, because what a later supervisor resumes is what it
  holds. A nil dereference is the value \<open>None\<close>.
\<close>

subsection \<open>Services (service.go)\<close>

datatype RestartPolicy = restartPolicyUnset | RestartAlways | RestartOnFailure | NoRestart | RestartPolicyOther nat

record Service =
  sv_Label :: string
  sv_Program :: string
  sv_Args :: "string list"
  sv_LogPath :: string
  sv_Env :: "(string \<times> string) list"
  sv_RestartPolicy :: RestartPolicy
  sv_ExitTimeOut :: int

definition defaultExitTimeOut :: int where "defaultExitTimeOut = 20000000000"

definition NUL :: char where "NUL = CHR 0x00"

definition exact_path :: "string \<Rightarrow> bool" where
  "exact_path p \<longleftrightarrow> IsAbs p \<and> Clean p = p"

definition env_entry_ok :: "string \<times> string \<Rightarrow> bool" where
  "env_entry_ok kv \<longleftrightarrow> fst kv \<noteq> [] \<and> CHR ''='' \<notin> set (fst kv) \<and> NUL \<notin> set (fst kv) \<and> NUL \<notin> set (snd kv)"

definition Service_Validate :: "Service \<Rightarrow> bool" where
  "Service_Validate s \<longleftrightarrow> label_Validate (sv_Label s)
    \<and> sv_Program s \<noteq> [] \<and> exact_path (sv_Program s) \<and> exact_path (sv_LogPath s)
    \<and> sv_RestartPolicy s \<in> {RestartAlways, RestartOnFailure, NoRestart}
    \<and> 0 \<le> sv_ExitTimeOut s
    \<and> NUL \<notin> set (sv_Program s) \<and> NUL \<notin> set (sv_LogPath s)
    \<and> list_all (\<lambda>arg. NUL \<notin> set arg) (sv_Args s)
    \<and> list_all env_entry_ok (sv_Env s)"

text \<open>\<open>canonical\<close>: the copy of a valid service. Nil and empty are one value here.\<close>

definition canonical :: "Service \<Rightarrow> Service option" where
  "canonical s = (if Service_Validate s then Some s else None)"

definition env_equal :: "(string \<times> string) list \<Rightarrow> (string \<times> string) list \<Rightarrow> bool" where
  "env_equal a b \<longleftrightarrow> list_all (\<lambda>kv. map_of a (fst kv) = map_of b (fst kv)) (a @ b)"

definition service_equal :: "Service \<Rightarrow> Service \<Rightarrow> bool" where
  "service_equal s other \<longleftrightarrow> sv_Label s = sv_Label other \<and> sv_Program s = sv_Program other \<and> sv_LogPath s = sv_LogPath other
    \<and> sv_RestartPolicy s = sv_RestartPolicy other \<and> sv_ExitTimeOut s = sv_ExitTimeOut other
    \<and> sv_Args s = sv_Args other \<and> env_equal (sv_Env s) (sv_Env other)"

definition service_exitTimeOut :: "Service \<Rightarrow> int" where
  "service_exitTimeOut s = (if sv_ExitTimeOut s = 0 then defaultExitTimeOut else sv_ExitTimeOut s)"

text \<open>\<open>environment\<close>: the process environment with the entries of the service laid over it.\<close>

definition cut_entry :: "string \<Rightarrow> string \<times> string" where
  "cut_entry entry = (let k = takeWhile (\<lambda>c. c \<noteq> CHR ''='') entry in (k, drop (length k + 1) entry))"

definition merged :: "string list \<Rightarrow> Service \<Rightarrow> string \<Rightarrow> string option" where
  "merged environ s = (map_of (rev (map cut_entry environ))) ++ (map_of (sv_Env s))"

definition environment :: "string list \<Rightarrow> Service \<Rightarrow> string list" where
  "environment environ s =
    map (\<lambda>k. k @ CHR ''='' # the (merged environ s k))
      (sort (remdups (map (fst \<circ> cut_entry) environ @ map fst (sv_Env s))))"

subsection \<open>State\<close>

record supervisor =
  su_label :: string
  su_throttle :: int
  su_spec :: "Service option"
  su_desired :: "Service option"
  su_running :: Service
  su_child :: "nat option"
  su_started :: int
  su_restart :: "int option"
  su_unsettled :: bool
  su_returned :: bool

datatype sv_error = UnsettledChild | WrongLabel | BadProgram | BadService | ObserveFailed | PersistFailed | LogDirFailed
  | SpawnFailed | ForgetFailed

datatype cause = Resume | Policy | Verb

datatype sv_event =
    Attempt cause int
  | ChildStarted nat Service
  | ChildDemanded nat int
  | ChildExited nat Reap
  | Persisted Service
  | Forgotten
  | Unsynced

text \<open>A file operation can fail before it took effect or, in the sync that follows, after it did.\<close>

datatype file_op = FileDone | FileRefused | FileUnsynced

definition no_service :: Service where
  "no_service = \<lparr> sv_Label = [], sv_Program = [], sv_Args = [], sv_LogPath = [], sv_Env = [], sv_RestartPolicy = restartPolicyUnset,
     sv_ExitTimeOut = 0 \<rparr>"

record start_env =
  sn_now :: int
  sn_program :: bool
  sn_logdir :: bool
  sn_spawn :: "nat option"

record verb_env =
  ve_program :: bool
  ve_scope :: "ScopeObservation option"
  ve_now :: int
  ve_exit :: Exit
  ve_write :: file_op
  ve_forget :: file_op
  ve_start :: start_env

subsection \<open>Operations (supervisor.go)\<close>

definition sv_start :: "cause \<Rightarrow> start_env \<Rightarrow> supervisor \<Rightarrow> (sv_error option \<times> supervisor \<times> sv_event list) option" where
  "sv_start why e s =
    (if su_unsettled s then Some (Some UnsettledChild, s, [])
     else case su_desired s of
       None \<Rightarrow> None
     | Some service \<Rightarrow>
         let s1 = s\<lparr>su_started := sn_now e\<rparr>; es = [Attempt why (sn_now e)] in
         Some (if \<not> sn_program e then (Some BadProgram, s1, es)
           else if \<not> sn_logdir e then (Some LogDirFailed, s1, es)
           else case sn_spawn e of
             None \<Rightarrow> (Some SpawnFailed, s1, es)
           | Some c \<Rightarrow> (None, s1\<lparr>su_child := Some c, su_running := service\<rparr>, es @ [ChildStarted c service])))"

definition release :: "nat \<Rightarrow> Exit \<Rightarrow> supervisor \<Rightarrow> sv_error option \<times> supervisor" where
  "release c exit s =
    (let s1 = s\<lparr>su_child := None\<rparr>; s2 = (if \<not> Proven (ex_Reap exit) then s1\<lparr>su_unsettled := True\<rparr> else s1) in
     (if su_unsettled s2 then Some UnsettledChild else None, s2))"

definition sv_stop :: "int \<Rightarrow> Exit \<Rightarrow> supervisor \<Rightarrow> sv_error option \<times> supervisor \<times> sv_event list" where
  "sv_stop now exit s =
    (if su_unsettled s then (Some UnsettledChild, s, [])
     else case su_child s of
       None \<Rightarrow> (None, s, [])
     | Some c \<Rightarrow>
         (case release c exit s of (err, s1) \<Rightarrow>
          (err, s1, [ChildDemanded c (now + KillAfter (service_exitTimeOut (su_running s))), ChildExited c (ex_Reap exit)])))"

definition retry :: "int \<Rightarrow> supervisor \<Rightarrow> supervisor" where
  "retry now s =
    (case su_desired s of
       None \<Rightarrow> s
     | Some service \<Rightarrow>
         if sv_RestartPolicy service = NoRestart then s
         else s\<lparr>su_restart := Some (now + max 0 (su_throttle s - (now - su_started s)))\<rparr>)"

definition settled :: "int \<Rightarrow> nat \<Rightarrow> Exit \<Rightarrow> supervisor \<Rightarrow> supervisor \<times> sv_event list" where
  "settled now c exit s =
    (case release c exit s of (err, s1) \<Rightarrow>
     (case (err, su_desired s1) of
        (None, Some service) \<Rightarrow>
          let failed = (ex_Code exit \<noteq> 0 \<or> ex_Signal exit \<noteq> 0) in
          if sv_RestartPolicy service = RestartAlways \<or> (sv_RestartPolicy service = RestartOnFailure \<and> failed)
          then (retry now s1, [ChildExited c (ex_Reap exit)]) else (s1, [ChildExited c (ex_Reap exit)])
      | _ \<Rightarrow> (s1, [ChildExited c (ex_Reap exit)])))"

text \<open>The replacement of a child that is not live, or runs another specification, inside \<open>apply\<close>.\<close>

definition live :: "ScopeObservation \<Rightarrow> bool" where
  "live scope \<longleftrightarrow> list_ex (\<lambda>m. matches m (so_Identity scope)) (so_Members scope)"

definition replace_child :: "verb_env \<Rightarrow> Service \<Rightarrow> supervisor \<Rightarrow> sv_error option \<times> supervisor \<times> sv_event list" where
  "replace_child e service s =
    (if su_child s = None then (None, s, [])
     else case ve_scope e of
       None \<Rightarrow> (Some ObserveFailed, s, [])
     | Some scope \<Rightarrow>
         if \<not> live scope \<or> \<not> service_equal (su_running s) service then sv_stop (ve_now e) (ve_exit e) s else (None, s, []))"

definition sv_apply :: "verb_env \<Rightarrow> Service \<Rightarrow> supervisor \<Rightarrow> (sv_error option \<times> supervisor \<times> sv_event list) option" where
  "sv_apply e service s =
    (if su_unsettled s then Some (Some UnsettledChild, s, [])
     else if sv_Label service \<noteq> su_label s then Some (Some WrongLabel, s, [])
     else if \<not> ve_program e then Some (Some BadProgram, s, [])
     else if \<not> Service_Validate service then Some (Some BadService, s, [])
     else case replace_child e service s of
       (Some err, s1, es) \<Rightarrow> Some (Some err, s1, es)
     | (None, s1, es) \<Rightarrow>
         (case ve_write e of
            FileRefused \<Rightarrow> Some (Some PersistFailed, s1, es)
          | FileUnsynced \<Rightarrow> Some (Some PersistFailed, s1\<lparr>su_spec := Some service\<rparr>, es @ [Unsynced])
          | FileDone \<Rightarrow>
              let s2 = s1\<lparr>su_spec := Some service, su_desired := Some service, su_restart := None\<rparr> in
              if su_child s2 \<noteq> None then Some (None, s2, es @ [Persisted service])
              else map_option (\<lambda>(err, s3, es'). (err, s3, es @ Persisted service # es')) (sv_start Verb (ve_start e) s2)))"

definition sv_remove :: "verb_env \<Rightarrow> supervisor \<Rightarrow> sv_error option \<times> supervisor \<times> sv_event list" where
  "sv_remove e s =
    (case sv_stop (ve_now e) (ve_exit e) s of
       (Some err, s1, es) \<Rightarrow> (Some err, s1, es)
     | (None, s1, es) \<Rightarrow>
         (case ve_forget e of
            FileRefused \<Rightarrow> (Some ForgetFailed, s1, es)
          | FileUnsynced \<Rightarrow> (Some ForgetFailed, s1\<lparr>su_spec := None\<rparr>, es @ [Unsynced])
          | FileDone \<Rightarrow> (None, s1\<lparr>su_spec := None, su_desired := None, su_restart := None\<rparr>, es @ [Forgotten])))"

subsection \<open>Verbs (control.go)\<close>

record request =
  rq_Op :: string
  rq_Service :: "Service option"

definition request_Validate :: "request \<Rightarrow> bool" where
  "request_Validate r \<longleftrightarrow>
    (if rq_Op r = ''apply'' then (case rq_Service r of None \<Rightarrow> False | Some s \<Rightarrow> Service_Validate s)
     else if rq_Op r = ''print'' \<or> rq_Op r = ''remove'' then rq_Service r = None
     else False)"

record response =
  rs_Error :: "sv_error option"
  rs_Service :: "Service option"

definition handle :: "verb_env \<Rightarrow> request \<Rightarrow> supervisor \<Rightarrow> (response \<times> supervisor \<times> sv_event list) option" where
  "handle e asked s =
    (let answer = (\<lambda>(err, s', es). (\<lparr> rs_Error = err, rs_Service = (if err = None then su_desired s' else None) \<rparr>, s', es)) in
     if rq_Op asked = ''apply'' then
       (case rq_Service asked of None \<Rightarrow> None | Some service \<Rightarrow> map_option answer (sv_apply e service s))
     else if rq_Op asked = ''remove'' then Some (answer (sv_remove e s))
     else Some (answer (None, s, [])))"

subsection \<open>The loop\<close>

text \<open>After a step the loop returns when a child was left unsettled.\<close>

definition looped :: "supervisor \<Rightarrow> supervisor" where
  "looped s = (if su_unsettled s then s\<lparr>su_returned := True\<rparr> else s)"

definition restarted :: "start_env \<Rightarrow> int \<Rightarrow> supervisor \<Rightarrow> (supervisor \<times> sv_event list) option" where
  "restarted e later s =
    (case sv_start Policy e (s\<lparr>su_restart := None\<rparr>) of
       None \<Rightarrow> None
     | Some (err, s1, es) \<Rightarrow> Some (if err \<noteq> None then retry later s1 else s1, es))"

text \<open>
  A step is labelled with its events; \<open>None\<close> in place of a state is a crash of the process by a nil dereference. The exit of
  a child is read once: the channel is dropped with the child.
\<close>

inductive sup_step :: "supervisor \<Rightarrow> sv_event list \<Rightarrow> supervisor option \<Rightarrow> bool" where
  canceled: "\<not> su_returned s \<Longrightarrow> sv_stop now exit s = (err, s', es) \<Longrightarrow> sup_step s es (Some (s'\<lparr>su_returned := True\<rparr>))"
| verb: "\<not> su_returned s \<Longrightarrow> request_Validate asked \<Longrightarrow> handle e asked s = Some (r, s', es) \<Longrightarrow> sup_step s es (Some (looped s'))"
| verb_crash: "\<not> su_returned s \<Longrightarrow> request_Validate asked \<Longrightarrow> handle e asked s = None \<Longrightarrow> sup_step s [] None"
| exited: "\<not> su_returned s \<Longrightarrow> su_child s = Some c \<Longrightarrow> settled now c exit s = (s', es) \<Longrightarrow> sup_step s es (Some (looped s'))"
| fired: "\<not> su_returned s \<Longrightarrow> su_restart s = Some due \<Longrightarrow> due \<le> sn_now e \<Longrightarrow> restarted e later s = Some (s', es) \<Longrightarrow>
    sup_step s es (Some (looped s'))"
| fired_crash: "\<not> su_returned s \<Longrightarrow> su_restart s = Some due \<Longrightarrow> due \<le> sn_now e \<Longrightarrow> restarted e later s = None \<Longrightarrow> sup_step s [] None"

text \<open>\<open>load\<close> and the resumption in \<open>run\<close>, once the previous supervisor's child has been reclaimed.\<close>

definition load :: "string \<Rightarrow> int \<Rightarrow> Service option \<Rightarrow> supervisor option" where
  "load name throttle spec =
    (let s = \<lparr> su_label = name, su_throttle = throttle, su_spec = spec, su_desired = None, su_running = no_service, su_child = None,
       su_started = 0, su_restart = None, su_unsettled = False, su_returned = False \<rparr> in
     case spec of
       None \<Rightarrow> Some s
     | Some service \<Rightarrow>
         if \<not> Service_Validate service \<or> sv_Label service \<noteq> name then None else Some (s\<lparr>su_desired := Some service\<rparr>))"

definition sv_run :: "string \<Rightarrow> int \<Rightarrow> Service option \<Rightarrow> start_env \<Rightarrow> int \<Rightarrow> (supervisor \<times> sv_event list) option" where
  "sv_run name throttle spec e later =
    (case load name throttle spec of
       None \<Rightarrow> None
     | Some s \<Rightarrow>
         if su_desired s = None then Some (s, [])
         else (case sv_start Resume e s of
             None \<Rightarrow> None
           | Some (err, s1, es) \<Rightarrow> Some (if err \<noteq> None then retry later s1 else s1, es)))"

inductive sup_trace :: "string \<Rightarrow> int \<Rightarrow> Service option \<Rightarrow> sv_event list \<Rightarrow> supervisor option \<Rightarrow> bool" where
  started: "sv_run name throttle spec e later = Some (s, es) \<Longrightarrow> sup_trace name throttle spec es (Some s)"
| more: "sup_trace name throttle spec es (Some s) \<Longrightarrow> sup_step s es' r \<Longrightarrow> sup_trace name throttle spec (es @ es') r"

subsection \<open>The specification\<close>

text \<open>
  What a supervisor promises, as an automaton on events: one child at a time, running the applied service; a child whose
  end was not proven is the last one; a start of the policy waits out the throttle after the last attempt; a service is
  applied over a child only when the child runs that service, and removed only when there is none.
\<close>

record promise =
  pm_applied :: "Service option"
  pm_child :: "(nat \<times> Service) option"
  pm_stuck :: bool
  pm_last :: "int option"

fun promised :: "int \<Rightarrow> promise \<Rightarrow> sv_event \<Rightarrow> promise option" where
  "promised throttle p (Attempt why n) =
    (if \<not> pm_stuck p \<and> pm_child p = None \<and> pm_applied p \<noteq> None
        \<and> (why = Policy \<longrightarrow> (case pm_last p of None \<Rightarrow> False | Some m \<Rightarrow> m + throttle \<le> n))
     then Some (p\<lparr>pm_last := Some n\<rparr>) else None)"
| "promised throttle p (ChildStarted c service) =
    (if \<not> pm_stuck p \<and> pm_child p = None \<and> pm_applied p = Some service then Some (p\<lparr>pm_child := Some (c, service)\<rparr>) else None)"
| "promised throttle p (ChildDemanded c deadline) = (if map_option fst (pm_child p) = Some c then Some p else None)"
| "promised throttle p (ChildExited c reap) =
    (if map_option fst (pm_child p) = Some c then Some (p\<lparr>pm_child := None, pm_stuck := \<not> Proven reap\<rparr>) else None)"
| "promised throttle p (Persisted service) =
    (if \<not> pm_stuck p \<and> (case pm_child p of None \<Rightarrow> True | Some (c, running) \<Rightarrow> service_equal running service)
     then Some (p\<lparr>pm_applied := Some service\<rparr>) else None)"
| "promised throttle p Forgotten = (if \<not> pm_stuck p \<and> pm_child p = None then Some (p\<lparr>pm_applied := None\<rparr>) else None)"
| "promised throttle p Unsynced = Some p"

primrec promised_all :: "int \<Rightarrow> promise \<Rightarrow> sv_event list \<Rightarrow> promise option" where
  "promised_all throttle p [] = Some p"
| "promised_all throttle p (e # es) = (case promised throttle p e of None \<Rightarrow> None | Some p' \<Rightarrow> promised_all throttle p' es)"

definition no_promise :: "Service option \<Rightarrow> promise" where
  "no_promise spec = \<lparr> pm_applied = spec, pm_child = None, pm_stuck = False, pm_last = None \<rparr>"

subsection \<open>Simulation\<close>

definition sup_inv :: "supervisor \<Rightarrow> bool" where
  "sup_inv s \<longleftrightarrow> (su_child s \<noteq> None \<longrightarrow> su_restart s = None \<and> \<not> su_unsettled s \<and> su_desired s \<noteq> None)
    \<and> (su_restart s \<noteq> None \<longrightarrow> su_desired s \<noteq> None)"

text \<open>The promise a state has kept so far; \<open>att\<close> is the time of the last attempt, when there was one.\<close>

definition kept :: "supervisor \<Rightarrow> int option \<Rightarrow> promise" where
  "kept s att = \<lparr> pm_applied = su_desired s, pm_child = map_option (\<lambda>c. (c, su_running s)) (su_child s),
     pm_stuck = su_unsettled s, pm_last = att \<rparr>"

definition attempts_ok :: "supervisor \<Rightarrow> int option \<Rightarrow> bool" where
  "attempts_ok s att \<longleftrightarrow> (\<forall>m. att = Some m \<longrightarrow> su_started s = m) \<and> (su_child s \<noteq> None \<longrightarrow> att \<noteq> None)
    \<and> (\<forall>due. su_restart s = Some due \<longrightarrow> att \<noteq> None \<and> su_started s + su_throttle s \<le> due)"

lemma promised_all_append: "promised_all throttle p (xs @ ys) =
    (case promised_all throttle p xs of None \<Rightarrow> None | Some p' \<Rightarrow> promised_all throttle p' ys)"
  by (induction xs arbitrary: p) (auto split: option.splits)

definition sim :: "supervisor \<Rightarrow> int option \<Rightarrow> sv_event list \<Rightarrow> supervisor \<Rightarrow> bool" where
  "sim s att es s' \<longleftrightarrow> sup_inv s' \<and> su_throttle s' = su_throttle s
    \<and> (\<exists>att'. attempts_ok s' att' \<and> promised_all (su_throttle s) (kept s att) es = Some (kept s' att'))"

lemmas sv_defs = sup_inv_def attempts_ok_def sim_def kept_def

lemma sim_refl: "sup_inv s \<Longrightarrow> attempts_ok s att \<Longrightarrow> sim s att [] s"
  by (auto simp: sim_def)

lemma sim_trans:
  assumes "sim s att es s'" "\<And>att'. attempts_ok s' att' \<Longrightarrow> sup_inv s' \<Longrightarrow> sim s' att' es' s''"
  shows "sim s att (es @ es') s''"
  using assms unfolding sim_def by (auto simp: promised_all_append)

lemma sim_stop:
  assumes "sv_stop now exit s = (err, s', es)" "sup_inv s" "attempts_ok s att"
  shows "sim s att es s' \<and> su_child s' = None \<and> su_returned s' = su_returned s \<and> (err = None \<longrightarrow> \<not> su_unsettled s')
    \<and> su_desired s' = su_desired s \<and> su_spec s' = su_spec s"
  using assms
  by (auto simp: sv_stop_def release_def sv_defs Proven_def Let_def split: option.splits if_splits)

lemma sim_start:
  assumes "sv_start why e s = Some (err, s', es)" "sup_inv s" "attempts_ok s att" "su_child s = None" "su_restart s = None"
    and "why = Policy \<Longrightarrow> att \<noteq> None \<and> su_started s + su_throttle s \<le> sn_now e"
  shows "sim s att es s' \<and> su_desired s' = su_desired s \<and> su_spec s' = su_spec s \<and> su_restart s' = None
    \<and> (err = None \<longrightarrow> su_child s' \<noteq> None \<and> su_desired s = Some (su_running s'))"
  using assms
  by (auto simp: sv_start_def sv_defs Let_def split: option.splits if_splits)

lemma retry_ok:
  assumes "sup_inv s" "attempts_ok s (Some m)" "su_child s = None"
  shows "sup_inv (retry now s) \<and> attempts_ok (retry now s) (Some m) \<and> kept (retry now s) att = kept s att \<and> su_throttle (retry now s) = su_throttle s"
  using assms by (auto simp: retry_def sv_defs split: option.splits)

lemma service_equal_refl [simp]: "service_equal s s"
  by (simp add: service_equal_def env_equal_def list_all_iff)

lemma sim_replace:
  assumes "replace_child e service s = (err, s', es)" "sup_inv s" "attempts_ok s att" "\<not> su_unsettled s"
  shows "sim s att es s' \<and> su_desired s' = su_desired s \<and> su_spec s' = su_spec s
    \<and> (err = None \<longrightarrow> \<not> su_unsettled s' \<and> (su_child s' \<noteq> None \<longrightarrow> service_equal (su_running s') service))"
proof (cases "\<exists>scope. su_child s \<noteq> None \<and> ve_scope e = Some scope \<and> (\<not> live scope \<or> \<not> service_equal (su_running s) service)")
  case True
  then have "sv_stop (ve_now e) (ve_exit e) s = (err, s', es)" using assms(1) by (auto simp: replace_child_def)
  from sim_stop [OF this assms(2,3)] show ?thesis by simp
next
  case False
  then have "s' = s" "es = []" "err = None \<longrightarrow> su_child s = None \<or> service_equal (su_running s) service"
    using assms(1) by (auto simp: replace_child_def split: if_splits option.splits)
  then show ?thesis using assms(2-4) sim_refl by auto
qed

lemma sim_persist:
  assumes "sup_inv s" "attempts_ok s att" "\<not> su_unsettled s" "su_child s \<noteq> None \<longrightarrow> service_equal (su_running s) service"
  shows "sim s att [Persisted service] (s\<lparr>su_spec := Some service, su_desired := Some service, su_restart := None\<rparr>)"
  using assms by (auto simp: sv_defs split: option.splits)

lemma sim_apply:
  assumes "sv_apply e service s = Some (err, s', es)" "sup_inv s" "attempts_ok s att"
  shows "sim s att es s' \<and> (err = None \<longrightarrow> su_desired s' = Some service \<and> su_spec s' = Some service \<and> su_restart s' = None
    \<and> su_child s' \<noteq> None \<and> service_equal (su_running s') service)"
proof (cases "su_unsettled s \<or> sv_Label service \<noteq> su_label s \<or> \<not> ve_program e \<or> \<not> Service_Validate service")
  case True
  then show ?thesis using assms sim_refl by (auto simp: sv_apply_def split: if_splits)
next
  case False
  obtain err1 s1 es1 where rc: "replace_child e service s = (err1, s1, es1)" by (metis prod_cases3)
  have r: "sim s att es1 s1" "err1 = None \<Longrightarrow> \<not> su_unsettled s1 \<and> (su_child s1 \<noteq> None \<longrightarrow> service_equal (su_running s1) service)"
    using sim_replace [OF rc assms(2,3)] False by auto
  let ?s2 = "s1\<lparr>su_spec := Some service, su_desired := Some service, su_restart := None\<rparr>"
  have p: "sim s1 att' [Persisted service] ?s2" if "attempts_ok s1 att'" "sup_inv s1" "err1 = None" for att'
    using sim_persist [OF that(2,1)] r(2) [OF that(3)] by simp
  show ?thesis
  proof (cases "err1 = None \<and> ve_write e = FileDone")
    case fin: True
    have s2: "sim s att (es1 @ [Persisted service]) ?s2" using sim_trans [OF r(1) p] fin by blast
    show ?thesis
    proof (cases "su_child s1 = None")
      case child: False
      then have "err = None" "s' = ?s2" "es = es1 @ [Persisted service]"
        using assms(1) False rc fin by (auto simp: sv_apply_def Let_def)
      then show ?thesis using s2 r(2) child fin by auto
    next
      case True
      then obtain es3 where st: "sv_start Verb (ve_start e) ?s2 = Some (err, s', es3)" "es = (es1 @ [Persisted service]) @ es3"
        using assms(1) False rc fin by (auto simp: sv_apply_def Let_def)
      have "sim ?s2 att' es3 s'" if "attempts_ok ?s2 att'" "sup_inv ?s2" for att'
        using sim_start [OF st(1) that(2,1)] True by auto
      then have "sim s att es s'" using sim_trans [OF s2] st(2) by simp
      moreover obtain att' where "attempts_ok ?s2 att'" "sup_inv ?s2" using s2 by (auto simp: sim_def)
      from sim_start [OF st(1) this(2,1)] True have "su_desired s' = Some service" "su_spec s' = Some service" "su_restart s' = None"
          "err = None \<longrightarrow> su_child s' \<noteq> None \<and> su_running s' = service" by auto
      ultimately show ?thesis by auto
    qed
  next
    case nofin: False
    have "sim s att (es1 @ [Unsynced]) (s1\<lparr>su_spec := Some service\<rparr>)"
      by (rule sim_trans [OF r(1)]) (auto simp: sv_defs)
    then show ?thesis
      using assms(1) False rc nofin r(1) by (auto simp: sv_apply_def Let_def split: option.splits file_op.splits)
  qed
qed

lemma sim_remove:
  assumes "sv_remove e s = (err, s', es)" "sup_inv s" "attempts_ok s att"
  shows "sim s att es s' \<and> (err = None \<longrightarrow> su_desired s' = None \<and> su_spec s' = None \<and> su_restart s' = None \<and> su_child s' = None)"
proof -
  obtain err1 s1 es1 where st: "sv_stop (ve_now e) (ve_exit e) s = (err1, s1, es1)" by (metis prod_cases3)
  note r = sim_stop [OF st assms(2,3)]
  have "sim s att (es1 @ [Unsynced]) (s1\<lparr>su_spec := None\<rparr>)"
    by (rule sim_trans [of s att es1 s1]) (use r in \<open>auto simp: sv_defs\<close>)
  moreover have "sim s att (es1 @ [Forgotten]) (s1\<lparr>su_spec := None, su_desired := None, su_restart := None\<rparr>)" if "err1 = None"
    by (rule sim_trans [of s att es1 s1]) (use r that in \<open>auto simp: sv_defs\<close>)
  ultimately show ?thesis
    using assms(1) st r by (auto simp: sv_remove_def split: option.splits file_op.splits)
qed

lemma sim_settled:
  assumes "settled now c exit s = (s', es)" "sup_inv s" "attempts_ok s att" "su_child s = Some c"
  shows "sim s att es s'"
proof -
  obtain m where m: "att = Some m" using assms(3,4) by (auto simp: attempts_ok_def)
  obtain err s1 where rel: "release c exit s = (err, s1)" by fastforce
  have live: "\<not> su_unsettled s" using assms(2,4) by (auto simp: sup_inv_def)
  have one: "sim s att [ChildExited c (ex_Reap exit)] s1" "attempts_ok s1 (Some m)" "sup_inv s1" "su_child s1 = None" "su_throttle s1 = su_throttle s"
    using rel assms m by (auto simp: release_def sv_defs Proven_def Let_def split: if_splits)
  have two: "sim s att [ChildExited c (ex_Reap exit)] (retry now s1)"
    using rel assms m live retry_ok [OF one(3,2,4), of now "Some m"]
    by (auto simp: sim_def release_def Proven_def Let_def kept_def split: if_splits intro!: exI [of _ "Some m"])
  show ?thesis
    using assms(1) rel one(1) two by (auto simp: settled_def Let_def split: option.splits if_splits)
qed

lemma sim_restarted:
  assumes "restarted e later s = Some (s', es)" "sup_inv s" "attempts_ok s att" "su_restart s = Some due" "due \<le> sn_now e"
  shows "sim s att es s'"
proof -
  let ?s0 = "s\<lparr>su_restart := None\<rparr>"
  have c: "su_child s = None" using assms(2,4) by (auto simp: sup_inv_def)
  have ok: "sup_inv ?s0" "attempts_ok ?s0 att" "kept ?s0 att = kept s att" using assms(2,3) by (auto simp: sv_defs)
  have due: "att \<noteq> None \<and> su_started ?s0 + su_throttle ?s0 \<le> sn_now e" using assms(3-5) by (auto simp: attempts_ok_def)
  obtain err s1 where st: "sv_start Policy e ?s0 = Some (err, s1, es)" "s' = (if err \<noteq> None then retry later s1 else s1)"
    using assms(1) by (auto simp: restarted_def split: option.splits)
  note r = sim_start [OF st(1) ok(1,2)]
  have s1: "sim ?s0 att es s1" "err \<noteq> None \<longrightarrow> su_child s1 = None" using r c due st(1)
    by (auto simp: sv_start_def Let_def split: option.splits if_splits)
  then obtain att' where a: "attempts_ok s1 att'" "promised_all (su_throttle ?s0) (kept ?s0 att) es = Some (kept s1 att')" "sup_inv s1"
      "su_throttle s1 = su_throttle ?s0" by (auto simp: sim_def)
  have "att' \<noteq> None"
    using st(1) a(2) due
    by (auto simp: sv_start_def Let_def kept_def split: option.splits if_splits)
  then obtain m where "att' = Some m" by blast
  then show ?thesis
    using a st(2) retry_ok [of s1 m later "Some m"] s1(2) ok(3) by (auto simp: sim_def intro!: exI [of _ "Some m"])
qed

lemma sim_returned: "sim s att es s' \<Longrightarrow> sim s att es (s'\<lparr>su_returned := b\<rparr>)"
  by (auto simp: sv_defs)

lemma sim_looped: "sim s att es s' \<Longrightarrow> sim s att es (looped s')"
  using sim_returned [of s att es s' True] by (simp add: looped_def)

lemma sim_handle:
  assumes "handle e asked s = Some (r, s', es)" "sup_inv s" "attempts_ok s att"
  shows "sim s att es s'"
  using assms sim_apply [OF _ assms(2,3)] sim_remove [OF _ assms(2,3)] sim_refl [OF assms(2,3)]
  by (auto simp: handle_def Let_def split: if_splits option.splits prod.splits)

lemma start_defined: "sv_start why e s \<noteq> None \<longleftrightarrow> su_unsettled s \<or> su_desired s \<noteq> None"
  by (auto simp: sv_start_def Let_def split: option.splits)

lemma handle_defined:
  assumes "request_Validate asked"
  shows "handle e asked s \<noteq> None"
proof -
  have "sv_apply e service s \<noteq> None" for service
    using start_defined [of Verb "ve_start e"]
    by (auto simp del: not_None_eq simp: sv_apply_def Let_def split: option.splits prod.splits file_op.splits)
  then show ?thesis
    using assms by (auto simp del: not_None_eq simp: handle_def Let_def request_Validate_def split: option.splits if_splits)
qed

lemma step_sim:
  assumes "sup_step s es r" "sup_inv s" "attempts_ok s att"
  shows "\<exists>s'. r = Some s' \<and> sim s att es s'"
  using assms
proof (cases rule: sup_step.cases)
  case (canceled now exit err s')
  then show ?thesis using sim_stop [OF canceled(3) assms(2,3)] sim_returned by blast
next
  case (verb asked e r' s')
  then show ?thesis using sim_handle [OF verb(4) assms(2,3)] sim_looped by blast
next
  case (verb_crash asked e)
  then show ?thesis using handle_defined by blast
next
  case (exited c now exit s')
  then show ?thesis using sim_settled [OF exited(4) assms(2,3) exited(3)] sim_looped by blast
next
  case (fired due e later s')
  then show ?thesis using sim_restarted [OF fired(5) assms(2,3) fired(3,4)] sim_looped by blast
next
  case (fired_crash due e later)
  have "su_desired s \<noteq> None" using fired_crash(4) assms(2) by (auto simp: sup_inv_def)
  then have "sv_start Policy e (s\<lparr>su_restart := None\<rparr>) \<noteq> None" using start_defined by simp
  then have "restarted e later s \<noteq> None" by (auto simp: restarted_def split: option.splits)
  then show ?thesis using fired_crash by blast
qed

lemma run_sim:
  assumes "sv_run name throttle spec e later = Some (s, es)"
  shows "\<exists>att. sup_inv s \<and> su_throttle s = throttle \<and> attempts_ok s att \<and> promised_all throttle (no_promise spec) es = Some (kept s att)"
proof -
  obtain s0 where s0: "load name throttle spec = Some s0" using assms by (auto simp: sv_run_def split: option.splits)
  have ok: "sup_inv s0" "attempts_ok s0 None" "kept s0 None = no_promise spec" "su_throttle s0 = throttle" "su_desired s0 = spec"
      "su_child s0 = None" "su_restart s0 = None"
    using s0 by (auto simp: load_def Let_def sv_defs no_promise_def split: option.splits if_splits)
  show ?thesis
  proof (cases "spec = None")
    case True
    then show ?thesis using assms s0 ok by (auto simp: sv_run_def intro!: exI [of _ None])
  next
    case False
    obtain err s1 where st: "sv_start Resume e s0 = Some (err, s1, es)" "s = (if err \<noteq> None then retry later s1 else s1)"
      using assms s0 ok False by (auto simp: sv_run_def split: option.splits)
    note r = sim_start [OF st(1) ok(1,2,6,7)]
    have s1: "sim s0 None es s1" "err \<noteq> None \<longrightarrow> su_child s1 = None" using r st(1) ok(6)
      by (auto simp: sv_start_def Let_def split: option.splits if_splits)
    then obtain att' where a: "attempts_ok s1 att'" "promised_all throttle (no_promise spec) es = Some (kept s1 att')" "sup_inv s1"
        "su_throttle s1 = throttle" using ok by (auto simp: sim_def)
    have "att' \<noteq> None"
      using st(1) a(2) ok(5) False s0
      by (auto simp: sv_start_def Let_def kept_def no_promise_def load_def Let_def split: option.splits if_splits)
    then obtain m where "att' = Some m" by blast
    then show ?thesis using a st(2) retry_ok [of s1 m later "Some m"] s1(2) by (auto intro!: exI [of _ "Some m"])
  qed
qed

lemma trace_sim:
  assumes "sup_trace name throttle spec es r"
  shows "\<exists>s att. r = Some s \<and> sup_inv s \<and> su_throttle s = throttle \<and> attempts_ok s att
    \<and> promised_all throttle (no_promise spec) es = Some (kept s att)"
  using assms
proof induction
  case (started name throttle spec e later s es)
  then show ?case using run_sim by blast
next
  case (more name throttle spec es s es' r)
  then obtain att where a: "sup_inv s" "su_throttle s = throttle" "attempts_ok s att"
      "promised_all throttle (no_promise spec) es = Some (kept s att)" by auto
  obtain s' where s': "r = Some s'" "sim s att es' s'" using step_sim [OF more(2) a(1,3)] by blast
  then show ?case using a by (auto simp: sim_def promised_all_append)
qed

text \<open>
  C24: a supervisor keeps its promises. Every run, from the resumption of the persisted service through any sequence of verbs,
  exits, restarts and a cancellation, with any answers of the file system, the spawn and the clock, produces only events
  that the specification allows: at most one child at a time, started only for the applied service and only after the
  previous child's end was proven; no start by policy within the throttle of the last attempt; no service applied over a
  child of another one, none forgotten under a running child. And no run dereferences a nil.
\<close>

theorem supervisor_refines_promise:
  assumes "sup_trace name throttle spec es r"
  shows "promised_all throttle (no_promise spec) es \<noteq> None \<and> r \<noteq> None"
  using trace_sim [OF assms] by auto

text \<open>
  C25: an answered verb has taken effect. In every state a run reaches, an \<open>apply\<close> answered without an error leaves the service
  persisted, applied and running with no restart pending, and answers with it; a \<open>remove\<close> answered without an error leaves
  nothing persisted, applied, running or pending. A supervisor started later on the same file starts that service, or
  nothing.
\<close>

theorem verbs_take_effect:
  assumes "sup_trace name throttle spec es (Some s)" and "handle e asked s = Some (r, s', es')" and "rs_Error r = None"
    and "rq_Op asked = ''apply'' \<or> rq_Op asked = ''remove''" and "sn_program e' \<and> sn_logdir e' \<and> sn_spawn e' = Some c"
  shows "(\<forall>service. rq_Op asked = ''apply'' \<and> rq_Service asked = Some service \<longrightarrow>
      su_spec s' = Some service \<and> su_desired s' = Some service \<and> su_child s' \<noteq> None \<and> service_equal (su_running s') service
      \<and> su_restart s' = None \<and> rs_Service r = Some service
      \<and> (\<exists>s2 es2. sv_run (sv_Label service) throttle (su_spec s') e' later = Some (s2, es2) \<and> su_child s2 = Some c \<and> su_running s2 = service))
    \<and> (rq_Op asked = ''remove'' \<longrightarrow> su_spec s' = None \<and> su_desired s' = None \<and> su_child s' = None \<and> su_restart s' = None
      \<and> rs_Service r = None \<and> (\<exists>s2. sv_run name throttle (su_spec s') e' later = Some (s2, []) \<and> su_child s2 = None))"
proof -
  obtain att where a: "sup_inv s" "attempts_ok s att" using trace_sim [OF assms(1)] by auto
  have ap: "su_spec s' = Some service \<and> su_desired s' = Some service \<and> su_child s' \<noteq> None \<and> service_equal (su_running s') service
      \<and> su_restart s' = None \<and> rs_Service r = Some service \<and> Service_Validate service"
    if op: "rq_Op asked = ''apply''" "rq_Service asked = Some service" for service
  proof -
    obtain es2 where ap: "sv_apply e service s = Some (None, s', es2)" "rs_Service r = su_desired s'"
      using assms(2,3) op by (auto simp: handle_def Let_def)
    have "Service_Validate service" using ap(1) by (auto simp: sv_apply_def split: if_splits)
    then show ?thesis using sim_apply [OF ap(1) a] ap(2) by simp
  qed
  have rm: "su_spec s' = None \<and> su_desired s' = None \<and> su_child s' = None \<and> su_restart s' = None \<and> rs_Service r = None"
    if op: "rq_Op asked = ''remove''"
  proof -
    obtain es2 where rm: "sv_remove e s = (None, s', es2)" "rs_Service r = su_desired s'"
      using assms(2,3) op by (cases "sv_remove e s") (auto simp: handle_def Let_def)
    then show ?thesis using sim_remove [OF rm(1) a] by simp
  qed
  have "\<exists>s2 es2. sv_run (sv_Label service) throttle (Some service) e' later = Some (s2, es2) \<and> su_child s2 = Some c \<and> su_running s2 = service"
    if "Service_Validate service" for service
    using that assms(5) by (auto simp: sv_run_def load_def Let_def sv_start_def Let_def)
  moreover have "\<exists>s2. sv_run name throttle None e' later = Some (s2, []) \<and> su_child s2 = None"
    by (auto simp: sv_run_def load_def Let_def)
  ultimately show ?thesis using ap rm by auto
qed

text \<open>
  A failed \<open>apply\<close> may leave the previously applied service stopped, with nothing to start it again: its child is stopped
  before the new specification is written, and when that write is refused nothing is scheduled, whatever the policy.
\<close>

definition demo_service :: Service where
  "demo_service = \<lparr> sv_Label = ''d'', sv_Program = ''/bin/d'', sv_Args = [], sv_LogPath = ''/var/d'', sv_Env = [(''A'', ''1'')],
     sv_RestartPolicy = RestartAlways, sv_ExitTimeOut = 0 \<rparr>"

definition demo_start :: "nat \<Rightarrow> start_env" where
  "demo_start c = \<lparr> sn_now = 5, sn_program = True, sn_logdir = True, sn_spawn = Some c \<rparr>"

definition demo_scope :: ScopeObservation where
  "demo_scope = (let i = \<lparr> id_pid = 7, id_start = 3, id_boot = 1 \<rparr> in
     \<lparr> so_Identity = i, so_Session = 7, so_Members = [i], so_Reap = reapUndetermined, so_Excluded = False, so_Uncertain = False \<rparr>)"

definition demo_verb :: "file_op \<Rightarrow> verb_env" where
  "demo_verb w = \<lparr> ve_program = True, ve_scope = Some demo_scope, ve_now = 6,
     ve_exit = \<lparr> ex_Code = 0, ex_Signal = 15, ex_Reap = ReapTerminated, ex_Record = RecordRemoved \<rparr>,
     ve_write = w, ve_forget = FileDone, ve_start = demo_start 2 \<rparr>"

definition demo_request :: request where
  "demo_request = \<lparr> rq_Op = ''apply'', rq_Service = Some (demo_service\<lparr>sv_Args := [''x'']\<rparr>) \<rparr>"

lemma demo_valid: "Service_Validate demo_service" "Service_Validate (demo_service\<lparr>sv_Args := [''x'']\<rparr>)"
  by code_simp+

definition demo_run :: supervisor where
  "demo_run = \<lparr> su_label = ''d'', su_throttle = 10, su_spec = Some demo_service, su_desired = Some demo_service, su_running = demo_service,
     su_child = Some 1, su_started = 5, su_restart = None, su_unsettled = False, su_returned = False \<rparr>"

lemma demo_started: "sv_run ''d'' 10 (Some demo_service) (demo_start 1) 6 = Some (demo_run, [Attempt Resume 5, ChildStarted 1 demo_service])"
  using demo_valid(1) by (simp add: sv_run_def load_def sv_start_def demo_start_def demo_run_def Let_def) (simp add: demo_service_def)

lemmas demo_trace = sup_trace.started [OF demo_started]

lemma demo_refused:
  "handle (demo_verb FileRefused) demo_request demo_run = Some (\<lparr> rs_Error = Some PersistFailed, rs_Service = None \<rparr>, demo_run\<lparr>su_child := None\<rparr>,
     [ChildDemanded 1 (6 + KillAfter (service_exitTimeOut demo_service)), ChildExited 1 ReapTerminated])"
proof -
  have "sv_Label (demo_service\<lparr>sv_Args := [''x'']\<rparr>) = ''d''" "\<not> service_equal demo_service (demo_service\<lparr>sv_Args := [''x'']\<rparr>)"
    by (simp_all add: demo_service_def service_equal_def)
  then show ?thesis
    using demo_valid(2)
    by (simp add: handle_def demo_request_def demo_verb_def Let_def sv_apply_def demo_run_def replace_child_def sv_stop_def release_def Proven_def)
qed

lemma demo_applied:
  "\<exists>r s' es'. handle (demo_verb FileDone) demo_request demo_run = Some (r, s', es') \<and> rs_Error r = None"
proof -
  have "sv_Label (demo_service\<lparr>sv_Args := [''x'']\<rparr>) = ''d''" "\<not> service_equal demo_service (demo_service\<lparr>sv_Args := [''x'']\<rparr>)"
    by (simp_all add: demo_service_def service_equal_def)
  then show ?thesis
    using demo_valid(2)
    by (simp add: handle_def demo_request_def demo_verb_def Let_def sv_apply_def demo_run_def replace_child_def sv_stop_def release_def Proven_def
        sv_start_def demo_start_def)
qed

lemma failed_apply_strands_service:
  "\<exists>es s. sup_trace ''d'' 10 (Some demo_service) es (Some s) \<and> su_desired s = Some demo_service \<and> sv_RestartPolicy demo_service = RestartAlways
    \<and> su_child s = None \<and> su_restart s = None \<and> \<not> su_unsettled s \<and> \<not> su_returned s"
proof -
  have "request_Validate demo_request" using demo_valid(2) by (simp add: request_Validate_def demo_request_def)
  moreover have "\<not> su_returned demo_run" by (simp add: demo_run_def)
  ultimately have "sup_trace ''d'' 10 (Some demo_service) ([Attempt Resume 5, ChildStarted 1 demo_service]
      @ [ChildDemanded 1 (6 + KillAfter (service_exitTimeOut demo_service)), ChildExited 1 ReapTerminated]) (Some (looped (demo_run\<lparr>su_child := None\<rparr>)))"
    using sup_trace.more [OF demo_trace sup_step.verb [OF _ _ demo_refused]] by simp
  moreover have "su_desired (looped (demo_run\<lparr>su_child := None\<rparr>)) = Some demo_service \<and> sv_RestartPolicy demo_service = RestartAlways
      \<and> su_child (looped (demo_run\<lparr>su_child := None\<rparr>)) = None \<and> su_restart (looped (demo_run\<lparr>su_child := None\<rparr>)) = None
      \<and> \<not> su_unsettled (looped (demo_run\<lparr>su_child := None\<rparr>)) \<and> \<not> su_returned (looped (demo_run\<lparr>su_child := None\<rparr>))"
    by (simp add: looped_def demo_run_def) (simp add: demo_service_def)
  ultimately show ?thesis by blast
qed

theorem supervisor_refines_promise_witness:
  "promised_all 10 (no_promise (Some demo_service)) [Attempt Resume 5, ChildStarted 1 demo_service] \<noteq> None"
  using supervisor_refines_promise [OF demo_trace] by blast

theorem verbs_take_effect_witness:
  "\<exists>r s' es'. handle (demo_verb FileDone) demo_request demo_run = Some (r, s', es') \<and> rs_Error r = None
    \<and> su_spec s' = Some (demo_service\<lparr>sv_Args := [''x'']\<rparr>) \<and> su_child s' \<noteq> None"
proof -
  obtain r s' es' where h: "handle (demo_verb FileDone) demo_request demo_run = Some (r, s', es')" "rs_Error r = None"
    using demo_applied by blast
  then show ?thesis
    using verbs_take_effect [OF demo_trace h, of "demo_start 3" 3 0] by (auto simp: demo_request_def demo_start_def)
qed

subsection \<open>The environment of the service\<close>

lemma cut_entry_key: "CHR ''='' \<notin> set (fst (cut_entry entry))"
  by (auto simp: cut_entry_def Let_def dest: set_takeWhileD)

lemma merged_dom: "dom (merged environ s) = fst ` set (map cut_entry environ) \<union> fst ` set (sv_Env s)"
  by (auto simp: merged_def dom_map_of_conv_image_fst)

text \<open>
  The environment a service runs in is one assignment per variable, in order: the service's own value where it states
  one, otherwise the last one the supervisor's environment gives. No variable is lost and none is added, and the two
  sides of each assignment are read back by cutting at the first equals sign.
\<close>

lemma environment_overlay:
  assumes "Service_Validate s"
  shows "map_of (map cut_entry (environment environ s)) = map_of (rev (map cut_entry environ)) ++ map_of (sv_Env s)
    \<and> distinct (map (fst \<circ> cut_entry) (environment environ s)) \<and> sorted (map (fst \<circ> cut_entry) (environment environ s))"
proof -
  let ?keys = "sort (remdups (map (fst \<circ> cut_entry) environ @ map fst (sv_Env s)))"
  have noeq: "CHR ''='' \<notin> set k" if "k \<in> set ?keys" for k
  proof -
    from that consider entry where "k = fst (cut_entry entry)" | kv where "kv \<in> set (sv_Env s)" "k = fst kv" by auto
    then show ?thesis
    proof cases
      case 1
      then show ?thesis using cut_entry_key by simp
    next
      case 2
      then show ?thesis using assms by (auto simp: Service_Validate_def list_all_iff env_entry_ok_def)
    qed
  qed
  have cut: "cut_entry (k @ CHR ''='' # v) = (k, v)" if "CHR ''='' \<notin> set k" for k v
  proof -
    have "takeWhile (\<lambda>c. c \<noteq> CHR ''='') (k @ CHR ''='' # v) = k" using that by (induction k) auto
    then show ?thesis by (simp add: cut_entry_def)
  qed
  have entries: "map cut_entry (environment environ s) = map (\<lambda>k. (k, the (merged environ s k))) ?keys"
    using noeq cut by (auto simp: environment_def)
  have keys: "map (fst \<circ> cut_entry) (environment environ s) = ?keys"
    using arg_cong [OF entries, of "map fst"] by (simp add: comp_def)
  have set_keys: "set ?keys = dom (merged environ s)" by (auto simp: merged_dom image_comp)
  have "map_of (map cut_entry (environment environ s)) k = merged environ s k" for k
  proof (cases "k \<in> dom (merged environ s)")
    case True
    then show ?thesis using entries set_keys by (auto simp: map_of_map_restrict)
  next
    case False
    then show ?thesis using entries set_keys by (auto simp: map_of_map_restrict)
  qed
  then show ?thesis using keys by (auto simp: merged_def fun_eq_iff)
qed

end
