(* ===== verification/WireRace.thy ===== *)
theory WireRace
  imports WireClient
begin

text \<open>
  The goroutines of one client session, \<^verbatim>\<open>internal/wire/client.go\<close>, interleaved at the granularity of its locks. The
  shared state is the \<open>Client\<close> of \<open>WireClient\<close>; beside it stand the position of the read loop, the position of the one
  goroutine that runs the body of \<open>fail\<close> under \<open>failOnce\<close>, and the opens in flight. A transition is one critical section of
  the source (or one operation on an atomic or on a stream that has its own lock), so that \<open>fail\<close> may take and settle a
  call between any two sections of \<open>open\<close> or of \<open>receiveResponse\<close>.
\<close>

subsection \<open>Positions\<close>

text \<open>
  The read loop: between two frames; in \<open>receiveResponse\<close> with the call it looked up (\<open>None\<close> when the id was not pending),
  after the acknowledgement's send, after the receiving side was ended, after \<open>finish\<close>; in \<open>receiveStream\<close> before the
  sequence check and before the offer; about to call \<open>fail\<close>; returned.
\<close>

datatype reader =
    Reading
  | Responding u64 bool Response
  | Acked u64 bool Response "goerr option"
  | Ended u64 Response "goerr option"
  | Finished u64 "goerr option"
  | Streaming Frame
  | Offering u64 Chunk
  | ReaderFailing goerr
  | ReaderReturned

text \<open>\<open>fail\<close>: not entered, settling what it took (the calls left, and the one whose receiving side it has just ended), returned.\<close>

datatype failer =
    Unfailed
  | Settling goerr "u64 list"
  | Settling_one goerr u64 "u64 list"
  | Failed

record race =
  shared :: Client
  rd :: reader
  fl :: failer
  allocated :: "u64 list"
  sending :: "u64 list"
  opened :: "u64 list"

definition race_start :: "bytes \<Rightarrow> PhaseSnapshot \<Rightarrow> race" where
  "race_start sess ph = \<lparr> shared = NewClient_state sess ph, rd = Reading, fl = Unfailed,
     allocated = [], sending = [], opened = [] \<rparr>"

text \<open>A section that may panic, put back into the race.\<close>

definition put :: "race \<Rightarrow> Client step_result \<Rightarrow> race option" where
  "put r out = (case out of Panic \<Rightarrow> None | Done c \<Rightarrow> Some (r\<lparr>shared := c\<rparr>))"

definition after_error :: "goerr option \<Rightarrow> reader" where
  "after_error err = (case err of None \<Rightarrow> Reading | Some e \<Rightarrow> ReaderFailing e)"

text \<open>The body of \<open>fail\<close> up to the release of the session's lock and the closing of the event stream.\<close>

definition fail_enter :: "goerr \<Rightarrow> race \<Rightarrow> race option" where
  "fail_enter e r =
    (case fail_take e (shared r) of
       Panic \<Rightarrow> None
     | Done (ids, c) \<Rightarrow> Some (r\<lparr>shared := close_events c, fl := Settling e ids\<rparr>))"

subsection \<open>Transitions\<close>

text \<open>
  \<open>None\<close> is a panic. A session whose id counter would wrap allocates no further id in this relation. A goroutine that
  calls \<open>fail\<close> while another runs its body waits for it, as \<open>sync.Once\<close> makes it.
\<close>

inductive race_step :: "race \<Rightarrow> race option \<Rightarrow> bool" where
  alloc_step: "nextID (shared r) < nextID (shared r) + 1 \<Longrightarrow> open_alloc (shared r) = (i, c) \<Longrightarrow>
    race_step r (Some (r\<lparr>shared := c, allocated := i # allocated r\<rparr>))"
| refused_step: "i \<in> set (allocated r) \<Longrightarrow> open_add i en strm (shared r) = (Some e, c) \<Longrightarrow>
    race_step r (Some (r\<lparr>shared := c, allocated := removeAll i (allocated r)\<rparr>))"
| admitted_step: "i \<in> set (allocated r) \<Longrightarrow> open_add i en strm (shared r) = (None, c) \<Longrightarrow>
    race_step r (Some (r\<lparr>shared := c, allocated := removeAll i (allocated r), sending := i # sending r\<rparr>))"
| sent_step: "i \<in> set (sending r) \<Longrightarrow> open_end i (st, None) (shared r) = (Inr i, out) \<Longrightarrow>
    race_step r (put (r\<lparr>sending := removeAll i (sending r), opened := i # opened r\<rparr>) out)"
| unsent_step: "i \<in> set (sending r) \<Longrightarrow> open_end i (st, Some e) (shared r) = (Inl res, out) \<Longrightarrow>
    race_step r (put (r\<lparr>sending := removeAll i (sending r)\<rparr>) out)"
| response_step: "rd r = Reading \<Longrightarrow> Kind (f :: Frame) = FrameResponse \<Longrightarrow>
    race_step r (Some (r\<lparr>rd := (case decoded of None \<Rightarrow> ReaderFailing [InvalidFrame]
      | Some response \<Rightarrow> Responding (ID f) (ID f \<in> set (pending (shared r))) response)\<rparr>))"
| ack_step: "rd r = Responding i found response \<Longrightarrow>
    race_step r (Some (r\<lparr>rd := Acked i found response (if Ack response then ackErr else None)\<rparr>))"
| unknown_step: "rd r = Acked i False response err \<Longrightarrow> race_step r (Some (r\<lparr>rd := after_error err\<rparr>))"
| end_step: "rd r = Acked i True response err \<Longrightarrow>
    race_step r (put (r\<lparr>rd := Ended i response err\<rparr>) (mark_ended i (shared r)))"
| finish_step: "rd r = Ended i response err \<Longrightarrow>
    race_step r (put (r\<lparr>rd := Finished i err\<rparr>) (settle_call i (response_result response) None (shared r)))"
| remove_step: "rd r = Finished i err \<Longrightarrow>
    race_step r (put (r\<lparr>rd := after_error err\<rparr>) (removePending i (shared r)))"
| stream_step: "rd r = Reading \<Longrightarrow> Kind (f :: Frame) = FrameStream \<Longrightarrow>
    race_step r (Some (r\<lparr>rd := (if ID f \<in> set (pending (shared r)) then Streaming f else Reading)\<rparr>))"
| admit_step: "rd r = Streaming f \<Longrightarrow> calls (shared r) (ID f) = Some call \<Longrightarrow> stream_admit f call = (res, call') \<Longrightarrow>
    race_step r (Some (r\<lparr>shared := set_call (ID f) call' (shared r),
      rd := (case res of Inl e \<Rightarrow> ReaderFailing e | Inr chunk \<Rightarrow> Offering (ID f) chunk)\<rparr>))"
| offer_step: "rd r = Offering i chunk \<Longrightarrow> calls (shared r) i = Some call \<Longrightarrow> stream_deliver chunk call = (err, call') \<Longrightarrow>
    race_step r (Some (r\<lparr>shared := set_call i call' (shared r), rd := after_error err\<rparr>))"
| event_step: "rd r = Reading \<Longrightarrow> Kind (f :: Frame) = FrameEvent \<Longrightarrow> stream_offer (Op f, Payload f) (events (shared r)) = (err, b) \<Longrightarrow>
    race_step r (Some (r\<lparr>shared := (shared r)\<lparr>events := b\<rparr>,
      rd := (case err of None \<Rightarrow> Reading
        | Some e \<Rightarrow> if errors_Is e StreamClosed \<and> client_err (shared r) \<noteq> None then ReaderReturned else ReaderFailing e)\<rparr>))"
| lifecycle_step: "rd r = Reading \<Longrightarrow> Kind (f :: Frame) = FrameLifecycle \<Longrightarrow> receiveLifecycle snap (shared r) = (err, c) \<Longrightarrow>
    race_step r (Some (r\<lparr>shared := c, rd := after_error err\<rparr>))"
| goaway_step: "rd r = Reading \<Longrightarrow> Kind (f :: Frame) = FrameGoAway \<Longrightarrow>
    race_step r (Some (if closing (shared r) then r\<lparr>shared := (shared r)\<lparr>goAway := True\<rparr>, rd := ReaderReturned\<rparr>
      else r\<lparr>rd := ReaderFailing [IoEOF]\<rparr>))"
| other_step: "rd r = Reading \<Longrightarrow> race_step r (Some (r\<lparr>rd := ReaderFailing e\<rparr>))"
| reader_fail_step: "rd r = ReaderFailing e \<Longrightarrow> fl r = Unfailed \<Longrightarrow>
    race_step r (fail_enter e (r\<lparr>rd := ReaderReturned\<rparr>))"
| reader_late_step: "rd r = ReaderFailing e \<Longrightarrow> fl r = Failed \<Longrightarrow> race_step r (Some (r\<lparr>rd := ReaderReturned\<rparr>))"
| fail_enter_step: "fl r = Unfailed \<Longrightarrow> race_step r (fail_enter e r)"
| fail_mark_step: "fl r = Settling e ids \<Longrightarrow> i \<in> set ids \<Longrightarrow>
    race_step r (put (r\<lparr>fl := Settling_one e i (removeAll i ids)\<rparr>) (mark_ended i (shared r)))"
| fail_finish_step: "fl r = Settling_one e i ids \<Longrightarrow>
    race_step r (put (r\<lparr>fl := Settling e ids\<rparr>) (settle_call i lost_result (Some e) (shared r)))"
| fail_done_step: "fl r = Settling e [] \<Longrightarrow> race_step r (Some (r\<lparr>fl := Failed\<rparr>))"
| cancel_call_step: "race_step r (Some (r\<lparr>shared := call_cancel i (shared r)\<rparr>))"
| take_step: "calls (shared r) i = Some call \<Longrightarrow> takeSendSequence isEnd call = (res, call') \<Longrightarrow>
    race_step r (Some (r\<lparr>shared := set_call i call' (shared r)\<rparr>))"
| closing_step: "race_step r (Some (r\<lparr>shared := begin_close (shared r)\<rparr>))"
| going_step: "race_step r (Some (r\<lparr>shared := (shared r)\<lparr>goAwayStarted := True\<rparr>\<rparr>))"
| writer_stops_step: "race_step r (Some (r\<lparr>shared := snd (closeWriter (shared r))\<rparr>))"

inductive race_run :: "race \<Rightarrow> race option \<Rightarrow> bool" where
  rrun_nil: "race_run r (Some r)"
| rrun_step: "race_run r (Some r') \<Longrightarrow> race_step r' out \<Longrightarrow> race_run r out"

subsection \<open>The invariant\<close>

text \<open>The calls \<open>fail\<close> took and has not settled yet.\<close>

fun taken_calls :: "failer \<Rightarrow> u64 list" where
  "taken_calls (Settling e ids) = ids"
| "taken_calls (Settling_one e i ids) = i # ids"
| "taken_calls f = []"

definition settled_in :: "Client \<Rightarrow> u64 \<Rightarrow> bool" where
  "settled_in c i \<longleftrightarrow> (\<exists>call. calls c i = Some call \<and> terminal call \<noteq> None)"

text \<open>Where the reader holds a call, the call is an object of the session; after \<open>finish\<close> it is settled.\<close>

fun reader_ok :: "reader \<Rightarrow> Client \<Rightarrow> bool" where
  "reader_ok (Finished i err) c \<longleftrightarrow> settled_in c i"
| "reader_ok (Responding i found response) c \<longleftrightarrow> (found \<longrightarrow> calls c i \<noteq> None)"
| "reader_ok (Acked i found response err) c \<longleftrightarrow> (found \<longrightarrow> calls c i \<noteq> None)"
| "reader_ok (Ended i response err) c \<longleftrightarrow> calls c i \<noteq> None"
| "reader_ok _ c \<longleftrightarrow> True"

definition race_inv :: "race \<Rightarrow> bool" where
  "race_inv r \<longleftrightarrow> (pendingDone (shared r) \<longleftrightarrow> pending (shared r) = []) \<and> once_inv (shared r)
    \<and> (client_err (shared r) = None \<longleftrightarrow> fl r = Unfailed) \<and> (fl r \<noteq> Unfailed \<longrightarrow> pending (shared r) = [])
    \<and> (\<forall>i. calls (shared r) i \<noteq> None \<longrightarrow> i \<le> nextID (shared r))
    \<and> (\<forall>i\<in>set (allocated r). i \<le> nextID (shared r) \<and> calls (shared r) i = None)
    \<and> (\<forall>i\<in>set (pending (shared r)) \<union> set (sending r) \<union> set (opened r) \<union> set (taken_calls (fl r)). calls (shared r) i \<noteq> None)
    \<and> distinct (sending r) \<and> set (sending r) \<inter> set (opened r) = {}
    \<and> (\<forall>i\<in>set (sending r) \<union> set (opened r).
         settled_in (shared r) i \<or> i \<in> set (pending (shared r)) \<or> i \<in> set (taken_calls (fl r)))
    \<and> reader_ok (rd r) (shared r)"


text \<open>A section that leaves the admission state alone and only writes to call objects.\<close>

definition same_calls :: "Client \<Rightarrow> Client \<Rightarrow> bool" where
  "same_calls c c' \<longleftrightarrow> pending c' = pending c \<and> pendingDone c' = pendingDone c \<and> client_err c' = client_err c
    \<and> nextID c' = nextID c \<and> (\<forall>i. calls c' i = None \<longleftrightarrow> calls c i = None) \<and> once_inv c' \<and> extends c c'"

lemma settled_mono: "extends c c' \<Longrightarrow> settled_in c i \<Longrightarrow> settled_in c' i"
  unfolding extends_def settled_in_def by blast

lemma reader_ok_mono:
  assumes "extends c c'" "\<forall>i. calls c i \<noteq> None \<longrightarrow> calls c' i \<noteq> None" "reader_ok x c"
  shows "reader_ok x c'"
  using assms by (cases x) (auto intro: settled_mono)

lemma once_inv_set: "once_inv c \<Longrightarrow> once_ok call \<Longrightarrow> once_inv (set_call i call c)"
  by (simp add: once_inv_def)

lemma set_call_same_calls:
  assumes "once_inv c" "calls c i = Some call" "once_ok call'" "terminal call = None \<or> terminal call' = terminal call"
  shows "same_calls c (set_call i call' c)"
  using assms by (auto simp: same_calls_def once_inv_def extends_def)

lemma fields_same_calls:
  assumes "once_inv c" "calls c' = calls c" "pending c' = pending c" "pendingDone c' = pendingDone c"
    "client_err c' = client_err c" "nextID c' = nextID c"
  shows "same_calls c c'"
  using assms by (simp add: same_calls_def once_inv_def extends_def)

lemma mark_ended_same_calls:
  assumes "once_inv c"
  shows "\<exists>c'. mark_ended i c = Done c' \<and> same_calls c c'"
proof (cases "calls c i")
  case None
  then show ?thesis using assms by (simp add: mark_ended_def on_call_def fields_same_calls)
next
  case (Some call)
  then have "once_ok call" using assms by (auto simp: once_inv_def)
  then show ?thesis using Some set_call_same_calls [OF assms Some] by (simp add: mark_ended_eq)
qed

lemma settle_call_same_calls:
  assumes "once_inv c"
  shows "\<exists>c'. settle_call i r e c = Done c' \<and> same_calls c c' \<and> (calls c i \<noteq> None \<longrightarrow> settled_in c' i)"
proof (cases "calls c i")
  case None
  then show ?thesis using assms by (simp add: settle_call_def on_call_def fields_same_calls)
next
  case (Some call)
  then have ok: "once_ok call" using assms by (auto simp: once_inv_def)
  show ?thesis
  proof (cases "terminal call")
    case None
    then show ?thesis
      using Some ok set_call_same_calls [OF assms Some] by (simp add: settle_call_eq settled_in_def)
  next
    case (Some t)
    with ok have "finish_call r e call = Done call" by (simp add: finish_call_settled)
    then show ?thesis
      using \<open>calls c i = Some call\<close> Some assms
      by (auto simp: settle_call_def on_call_def fields_same_calls settled_in_def)
  qed
qed

lemma rd_shared: "r\<lparr>rd := x, shared := c\<rparr> = r\<lparr>shared := c, rd := x\<rparr>"
  by simp

lemma fl_shared: "r\<lparr>fl := x, shared := c\<rparr> = r\<lparr>shared := c, fl := x\<rparr>"
  by simp

text \<open>Such a section keeps the invariant, whatever position the reader moves to.\<close>

lemma same_calls_inv:
  assumes "race_inv r" "same_calls (shared r) c'" "reader_ok x c'"
  shows "race_inv (r\<lparr>shared := c', rd := x\<rparr>)"
  using assms by (auto simp: race_inv_def same_calls_def dest: settled_mono)

lemma same_calls_inv':
  assumes "race_inv r" "same_calls (shared r) c'"
  shows "race_inv (r\<lparr>shared := c'\<rparr>)"
proof -
  have "reader_ok (rd r) c'"
    by (rule reader_ok_mono [of "shared r"]) (use assms in \<open>simp_all add: race_inv_def same_calls_def\<close>)
  from same_calls_inv [OF assms this] show ?thesis by (simp add: race_inv_def)
qed

lemma flags_inv:
  assumes "race_inv r" "calls c' = calls (shared r)" "pending c' = pending (shared r)"
    "pendingDone c' = pendingDone (shared r)" "client_err c' = client_err (shared r)" "nextID c' = nextID (shared r)"
  shows "race_inv (r\<lparr>shared := c'\<rparr>) \<and> extends (shared r) c'"
proof -
  have "same_calls (shared r) c'" by (rule fields_same_calls) (use assms in \<open>simp_all add: race_inv_def\<close>)
  then show ?thesis using same_calls_inv' [OF assms(1)] by (simp add: same_calls_def)
qed

lemma reader_inv: "race_inv r \<Longrightarrow> reader_ok x (shared r) \<Longrightarrow> race_inv (r\<lparr>rd := x\<rparr>)"
  by (simp add: race_inv_def)

lemma after_error_ok [simp]: "reader_ok (after_error err) c"
  by (simp add: after_error_def split: option.splits)

lemma put_inv:
  assumes "out = Done c'" "race_inv (r\<lparr>shared := c'\<rparr>)" "extends c c'"
  shows "\<exists>r'. put r out = Some r' \<and> race_inv r' \<and> extends c (shared r')"
  using assms by (simp add: put_def)

lemma remove_inv:
  assumes inv: "race_inv r" and gone: "\<And>j. j \<in> set (sending r) \<union> set (opened r) \<Longrightarrow> j = i \<Longrightarrow> settled_in (shared r) j"
    and x: "reader_ok x (shared r)"
  shows "\<exists>c'. removePending i (shared r) = Done c' \<and> race_inv (r\<lparr>shared := c', rd := x\<rparr>) \<and> extends (shared r) c'"
proof -
  obtain c' where c': "removePending i (shared r) = Done c'" "calls c' = calls (shared r)"
    "pending c' = removeAll i (pending (shared r))" "pendingDone c' \<longleftrightarrow> pending c' = []"
    "client_err c' = client_err (shared r)" "nextID c' = nextID (shared r)"
    using removePending_step [of "shared r" i] inv by (auto simp: race_inv_def)
  have s: "settled_in c' j \<longleftrightarrow> settled_in (shared r) j" for j using c'(2) by (simp add: settled_in_def)
  have "reader_ok x c'" using x c'(2) by (cases x) (simp_all add: settled_in_def)
  then have "race_inv (r\<lparr>shared := c', rd := x\<rparr>)"
    using inv c' gone by (auto simp: race_inv_def once_inv_def s)
  then show ?thesis using c' by (auto simp: extends_def)
qed

lemma fail_enter_inv:
  assumes inv: "race_inv r" and "fl r = Unfailed"
  shows "\<exists>r'. fail_enter e r = Some r' \<and> race_inv r' \<and> extends (shared r) (shared r')"
proof -
  define c' where "c' = close_events ((shared r)\<lparr>client_err := Some e, pending := [], pendingDone := True\<rparr>)"
  have t: "fail_enter e r = Some (r\<lparr>shared := c', fl := Settling e (pending (shared r))\<rparr>)"
    using inv assms(2) by (auto simp: fail_enter_def fail_take_def race_inv_def c'_def)
  have c: "calls c' = calls (shared r)" "pending c' = []" "pendingDone c'" "client_err c' = Some e"
    "nextID c' = nextID (shared r)"
    by (simp_all add: c'_def close_events_def)
  have s: "settled_in c' j \<longleftrightarrow> settled_in (shared r) j" for j using c(1) by (simp add: settled_in_def)
  have "reader_ok (rd r) c' \<longleftrightarrow> reader_ok (rd r) (shared r)"
    using c(1) by (cases "rd r") (simp_all add: settled_in_def)
  then have "race_inv (r\<lparr>shared := c', fl := Settling e (pending (shared r))\<rparr>)"
    using inv assms(2) c by (auto simp: race_inv_def once_inv_def s)
  then show ?thesis using t c(1) by (simp add: extends_def)
qed

lemma alloc_inv:
  assumes inv: "race_inv r" and lt: "nextID (shared r) < nextID (shared r) + 1"
    and a: "open_alloc (shared r) = (i, c)"
  shows "race_inv (r\<lparr>shared := c, allocated := i # allocated r\<rparr>) \<and> extends (shared r) c"
proof -
  have i: "i = nextID (shared r) + 1" "c = (shared r)\<lparr>nextID := i\<rparr>" using a by (auto simp: open_alloc_def)
  have up: "k < i" if "k \<le> nextID (shared r)" for k using that lt i(1) by auto
  have "calls (shared r) i = None"
    using inv lt i(1) by (force simp: race_inv_def)
  moreover have "settled_in c j \<longleftrightarrow> settled_in (shared r) j" for j using i by (simp add: settled_in_def)
  moreover have "reader_ok (rd r) c \<longleftrightarrow> reader_ok (rd r) (shared r)"
    using i by (cases "rd r") (simp_all add: settled_in_def)
  ultimately show ?thesis
    using inv i(2) up by (auto simp: race_inv_def once_inv_def extends_def less_imp_le)
qed

lemma add_inv:
  assumes inv: "race_inv r" and a: "i \<in> set (allocated r)" and o: "open_add i en strm (shared r) = (res, c)"
  shows "extends (shared r) c \<and> (res \<noteq> None \<longrightarrow> race_inv (r\<lparr>shared := c, allocated := removeAll i (allocated r)\<rparr>))
    \<and> (res = None \<longrightarrow> race_inv (r\<lparr>shared := c, allocated := removeAll i (allocated r), sending := i # sending r\<rparr>))"
proof (cases res)
  case (Some e)
  then have "c = shared r" using o by (auto simp: open_add_def addPending_def split: if_splits option.splits)
  then show ?thesis using Some inv by (auto simp: race_inv_def)
next
  case None
  then have c: "c = (shared r)\<lparr>pendingDone := False, pending := i # removeAll i (pending (shared r)),
      calls := (calls (shared r))(i \<mapsto> new_call en strm)\<rparr>" and err: "client_err (shared r) = None"
    using o inv by (auto simp: open_add_def addPending_def race_inv_def split: if_splits option.splits)
  have none: "calls (shared r) i = None" using inv a by (simp add: race_inv_def)
  have "j \<noteq> i" if "j \<in> set (pending (shared r)) \<union> set (sending r) \<union> set (opened r)" for j
    using inv none that unfolding race_inv_def by blast
  then have fresh: "calls (shared r) i = None" "i \<notin> set (sending r)" "i \<notin> set (opened r)" "i \<notin> set (pending (shared r))"
    using none by auto
  have ext: "extends (shared r) c" using fresh(1) by (auto simp: c extends_def)
  have "reader_ok (rd r) c"
    by (rule reader_ok_mono [OF ext]) (use inv in \<open>auto simp: c race_inv_def\<close>)
  moreover have "settled_in c j \<longleftrightarrow> settled_in (shared r) j" if "j \<noteq> i" for j
    using that by (simp add: c settled_in_def)
  ultimately have "race_inv (r\<lparr>shared := c, allocated := removeAll i (allocated r), sending := i # sending r\<rparr>)"
    using inv a fresh err by (auto simp: race_inv_def once_inv_def c)
  then show ?thesis using None ext by simp
qed


lemma reader_step_inv:
  assumes "race_inv r" "same_calls (shared r) c'" "reader_ok x c'" "section_out = Done c'"
  shows "\<exists>r'. put (r\<lparr>rd := x\<rparr>) section_out = Some r' \<and> race_inv r' \<and> extends (shared r) (shared r')"
  using assms same_calls_inv [OF assms(1-3)] by (simp add: put_def same_calls_def rd_shared)

lemma race_step_ok:
  assumes "race_step r out" "race_inv r"
  shows "\<exists>r'. out = Some r' \<and> race_inv r' \<and> extends (shared r) (shared r')"
  using assms
proof (induction rule: race_step.induct)
  case (alloc_step r i c)
  then show ?case using alloc_inv by auto
next
  case (refused_step i r en strm e c)
  then show ?case using add_inv [of r i en strm "Some e" c] by auto
next
  case (admitted_step i r en strm c)
  then show ?case using add_inv [of r i en strm None c] by auto
next
  case (sent_step i r st out)
  then have "out = Done (shared r)" by (simp add: open_end_def)
  moreover have "race_inv (r\<lparr>sending := removeAll i (sending r), opened := i # opened r\<rparr>)"
    using sent_step(1,3) by (auto simp: race_inv_def distinct_removeAll)
  ultimately show ?case by (simp add: put_def)
next
  case (unsent_step i r st e res out)
  let ?r = "r\<lparr>sending := removeAll i (sending r)\<rparr>"
  have out: "out = removePending i (shared r)" using unsent_step(2) by (simp add: open_end_def)
  have "race_inv ?r" using unsent_step(1,3) by (auto simp: race_inv_def distinct_removeAll)
  moreover have "i \<notin> set (sending ?r) \<union> set (opened ?r)" using unsent_step(1,3) by (auto simp: race_inv_def)
  moreover have "reader_ok (rd ?r) (shared ?r)" using unsent_step(3) by (simp add: race_inv_def)
  ultimately show ?case using remove_inv [of ?r i "rd ?r"] out by (auto simp: put_def)
next
  case (response_step r f decoded)
  then show ?case by (auto intro!: reader_inv simp: race_inv_def split: option.splits)
next
  case (ack_step r i found response ackErr)
  then show ?case by (auto simp: race_inv_def)
next
  case (unknown_step r i response err)
  then show ?case by (auto intro!: reader_inv)
next
  case (end_step r i response err)
  have "once_inv (shared r)" using end_step by (simp add: race_inv_def)
  then obtain c' where c': "mark_ended i (shared r) = Done c'" "same_calls (shared r) c'"
    using mark_ended_same_calls by blast
  have "reader_ok (Ended i response err) c'" using end_step c'(2) by (auto simp: race_inv_def same_calls_def)
  then show ?case using reader_step_inv [OF end_step(2) c'(2) _ c'(1)] by blast
next
  case (finish_step r i response err)
  have "once_inv (shared r)" using finish_step by (simp add: race_inv_def)
  then obtain c' where c': "settle_call i (response_result response) None (shared r) = Done c'" "same_calls (shared r) c'"
    "calls (shared r) i \<noteq> None \<longrightarrow> settled_in c' i"
    using settle_call_same_calls by blast
  have "reader_ok (Finished i err) c'" using finish_step c'(3) by (auto simp: race_inv_def)
  then show ?case using reader_step_inv [OF finish_step(2) c'(2) _ c'(1)] by blast
next
  case (remove_step r i err)
  have "settled_in (shared r) i" using remove_step by (simp add: race_inv_def)
  then show ?case using remove_inv [OF remove_step(2), of i "after_error err"] by (auto simp: put_def rd_shared)
next
  case (stream_step r f)
  then show ?case by (auto intro!: reader_inv)
next
  case (admit_step r f call res call')
  have "once_ok call" using admit_step by (auto simp: race_inv_def once_inv_def)
  then have "same_calls (shared r) (set_call (ID f) call' (shared r))"
    using set_call_same_calls [OF _ admit_step(2)] stream_admit_keeps [OF admit_step(3)] admit_step(4)
    by (simp add: race_inv_def)
  then show ?case using same_calls_inv [OF admit_step(4)] by (auto simp: same_calls_def split: sum.splits)
next
  case (offer_step r i chunk call err call')
  have "once_ok call" using offer_step by (auto simp: race_inv_def once_inv_def)
  then have "same_calls (shared r) (set_call i call' (shared r))"
    using set_call_same_calls [OF _ offer_step(2)] stream_deliver_keeps [OF offer_step(3)] offer_step(4)
    by (simp add: race_inv_def)
  then show ?case using same_calls_inv [OF offer_step(4)] by (auto simp: same_calls_def)
next
  case (event_step r f err b)
  have "same_calls (shared r) ((shared r)\<lparr>events := b\<rparr>)"
    by (rule fields_same_calls) (use event_step in \<open>simp_all add: race_inv_def\<close>)
  then show ?case using same_calls_inv [OF event_step(4)] by (auto simp: same_calls_def split: option.splits)
next
  case (lifecycle_step r f snap err c)
  have "same_calls (shared r) c"
    by (rule fields_same_calls) (use lifecycle_step in \<open>auto simp: race_inv_def receiveLifecycle_def split: option.splits if_splits\<close>)
  then show ?case using same_calls_inv [OF lifecycle_step(4)] by (auto simp: same_calls_def)
next
  case (goaway_step r f)
  have "same_calls (shared r) ((shared r)\<lparr>goAway := True\<rparr>)"
    by (rule fields_same_calls) (use goaway_step in \<open>simp_all add: race_inv_def\<close>)
  then show ?case
    using same_calls_inv [OF goaway_step(3)] reader_inv [OF goaway_step(3)] by (auto simp: same_calls_def)
next
  case (other_step r e)
  then show ?case by (auto intro!: reader_inv)
next
  case (reader_fail_step r e)
  have "race_inv (r\<lparr>rd := ReaderReturned\<rparr>)" using reader_fail_step(3) by (auto intro!: reader_inv)
  then show ?case using fail_enter_inv [of "r\<lparr>rd := ReaderReturned\<rparr>" e] reader_fail_step(2) by simp
next
  case (reader_late_step r e)
  then show ?case by (auto intro!: reader_inv)
next
  case (fail_enter_step r e)
  then show ?case using fail_enter_inv by blast
next
  case (fail_mark_step r e ids i)
  have "once_inv (shared r)" using fail_mark_step by (simp add: race_inv_def)
  then obtain c' where c': "mark_ended i (shared r) = Done c'" "same_calls (shared r) c'"
    using mark_ended_same_calls by blast
  have "race_inv ((r\<lparr>shared := c'\<rparr>)\<lparr>fl := Settling_one e i (removeAll i ids)\<rparr>)"
    using same_calls_inv' [OF fail_mark_step(3) c'(2)] fail_mark_step(1,2) by (auto simp: race_inv_def)
  then show ?case using c' by (auto simp: put_def same_calls_def fl_shared)
next
  case (fail_finish_step r e i ids)
  have "once_inv (shared r)" using fail_finish_step by (simp add: race_inv_def)
  then obtain c' where c': "settle_call i lost_result (Some e) (shared r) = Done c'" "same_calls (shared r) c'"
    "calls (shared r) i \<noteq> None \<longrightarrow> settled_in c' i"
    using settle_call_same_calls by blast
  have "settled_in c' i" using c'(3) fail_finish_step by (auto simp: race_inv_def)
  then have "race_inv ((r\<lparr>shared := c'\<rparr>)\<lparr>fl := Settling e ids\<rparr>)"
    using same_calls_inv' [OF fail_finish_step(2) c'(2)] fail_finish_step(1) by (auto simp: race_inv_def)
  then show ?case using c' by (auto simp: put_def same_calls_def fl_shared)
next
  case (fail_done_step r e)
  then show ?case by (auto simp: race_inv_def)
next
  case (cancel_call_step r i)
  have "same_calls (shared r) (call_cancel i (shared r))"
    using cancel_call_step
    by (auto simp: call_cancel_def race_inv_def once_inv_def once_ok_def intro!: set_call_same_calls fields_same_calls
        split: option.splits)
  then show ?case using same_calls_inv' [OF cancel_call_step] by (auto simp: same_calls_def)
next
  case (take_step r i call isEnd res call')
  have "once_ok call" using take_step by (auto simp: race_inv_def once_inv_def)
  then have "same_calls (shared r) (set_call i call' (shared r))"
    using set_call_same_calls [OF _ take_step(1)] takeSendSequence_keeps [OF take_step(2)] take_step(3)
    by (simp add: race_inv_def)
  then show ?case using same_calls_inv' [OF take_step(3)] by (auto simp: same_calls_def)
qed (use flags_inv in \<open>auto simp: begin_close_def closeWriter_def\<close>)

lemma race_run_ok:
  "race_run r out \<Longrightarrow> race_inv r \<Longrightarrow> \<exists>r'. out = Some r' \<and> race_inv r' \<and> extends (shared r) (shared r')"
proof (induction rule: race_run.induct)
  case (rrun_step r r' out)
  then show ?case using race_step_ok extends_trans by fastforce
qed simp

lemma race_start_inv: "race_inv (race_start sess ph)"
  by (simp add: race_inv_def race_start_def NewClient_state_def once_inv_def)


subsection \<open>Properties\<close>

text \<open>
  C5: a client session never closes a channel twice and settles each call exactly once, in every interleaving of its
  callers, its read loop and its failure. From a fresh session, every run returns from every critical section (neither
  \<open>pendingDone\<close> nor the \<open>ready\<close> of a call is closed twice); a call that was settled keeps its result through every later
  step; \<open>ready\<close> is closed exactly for the calls with a result; the waiters for \<open>pendingDone\<close> are released exactly when
  nothing is pending; and once \<open>fail\<close> has returned every call a caller holds is settled.
\<close>

theorem client_settles_once:
  assumes "race_run (race_start sess ph) (Some r)" and "race_run r out"
  shows "\<exists>r'. out = Some r' \<and> (pendingDone (shared r') \<longleftrightarrow> pending (shared r') = [])
    \<and> (\<forall>i call t. calls (shared r) i = Some call \<and> terminal call = Some t \<longrightarrow>
         (\<exists>call'. calls (shared r') i = Some call' \<and> terminal call' = Some t))
    \<and> (\<forall>i call. calls (shared r') i = Some call \<longrightarrow> (ready call \<longleftrightarrow> terminal call \<noteq> None))
    \<and> (fl r' = Failed \<longrightarrow> (\<forall>i\<in>set (opened r'). \<exists>call. calls (shared r') i = Some call \<and> terminal call \<noteq> None))"
proof -
  have "race_inv r" using race_run_ok [OF assms(1) race_start_inv] by simp
  then obtain r' where r': "out = Some r'" "race_inv r'" "extends (shared r) (shared r')"
    using race_run_ok [OF assms(2)] by blast
  have "settled_in (shared r') i" if "fl r' = Failed" "i \<in> set (opened r')" for i
    using r'(2) that by (auto simp: race_inv_def)
  then show ?thesis
    using r' by (fastforce simp: race_inv_def extends_def once_inv_def once_ok_def settled_in_def)
qed

text \<open>
  The race the once-guard is for: the read loop looks call 1 up and ends its receiving side; the session fails and settles
  the call as lost; only then does the read loop finish it with the response.
\<close>

definition raced :: "ClientCall \<Rightarrow> reader \<Rightarrow> failer \<Rightarrow> race" where
  "raced call x y = \<lparr> shared = fresh_client\<lparr>nextID := 1, client_err := Some [NetClosed],
       events := stream_close newBoundedStream, calls := [1 \<mapsto> call]\<rparr>,
     rd = x, fl = y, allocated = [], sending = [], opened = [1] \<rparr>"

definition lost_call :: ClientCall where
  "lost_call = finished lost_result (Some [NetClosed]) (end_receive (end_receive (new_call True True)))"

lemma raced_run:
  "race_run (race_start [] \<lparr> ps_Sequence = 0, ps_Phase = PhaseReady \<rparr>) (Some (raced lost_call (Ended 1 ok_response None) Failed))"
proof -
  define r0 where "r0 = race_start [] \<lparr> ps_Sequence = 0, ps_Phase = PhaseReady \<rparr>"
  define r1 where "r1 = r0\<lparr>shared := fresh_client\<lparr>nextID := 1\<rparr>, allocated := [1]\<rparr>"
  define r2 where "r2 = r0\<lparr>shared := one_call, sending := [1]\<rparr>"
  define r3 where "r3 = r0\<lparr>shared := one_call, opened := [1]\<rparr>"
  define r6 where "r6 = r3\<lparr>shared := set_call 1 (end_receive (new_call True True)) one_call, rd := Ended 1 ok_response None\<rparr>"
  note defs = r0_def r1_def r2_def r3_def r6_def race_start_def fresh_client_def NewClient_state_def one_call_def
  have s1: "race_step r0 (Some r1)"
    using alloc_step [of r0 1 "fresh_client\<lparr>nextID := 1\<rparr>"] by (simp add: defs open_alloc_def)
  have s2: "race_step r1 (Some r2)"
    using admitted_step [of 1 r1 True True one_call] by (simp add: defs open_add_def addPending_def)
  have s3: "race_step r2 (Some r3)"
    using sent_step [of 1 r2 frameCommitted "Done one_call"] by (simp add: defs open_end_def put_def)
  have s4: "race_step r3 (Some (r3\<lparr>rd := Responding 1 True ok_response\<rparr>))"
    using response_step [of r3 response_example "Some ok_response"] by (simp add: defs response_example_def)
  have s5: "race_step (r3\<lparr>rd := Responding 1 True ok_response\<rparr>) (Some (r3\<lparr>rd := Acked 1 True ok_response None\<rparr>))"
    using ack_step [of "r3\<lparr>rd := Responding 1 True ok_response\<rparr>" 1 True ok_response None] by (simp add: ok_response_def)
  have s6: "race_step (r3\<lparr>rd := Acked 1 True ok_response None\<rparr>) (Some r6)"
    using end_step [of "r3\<lparr>rd := Acked 1 True ok_response None\<rparr>" 1 ok_response None]
    by (simp add: defs put_def mark_ended_def on_call_def)
  have s7: "race_step r6 (Some (raced (end_receive (new_call True True)) (Ended 1 ok_response None) (Settling [NetClosed] [1])))"
    using fail_enter_step [of r6 "[NetClosed]"]
    by (simp add: defs fail_enter_def fail_take_def close_events_def raced_def set_call_def)
  have s8: "race_step (raced (end_receive (new_call True True)) (Ended 1 ok_response None) (Settling [NetClosed] [1]))
      (Some (raced (end_receive (end_receive (new_call True True))) (Ended 1 ok_response None) (Settling_one [NetClosed] 1 [])))"
    using fail_mark_step [of "raced (end_receive (new_call True True)) (Ended 1 ok_response None) (Settling [NetClosed] [1])" "[NetClosed]" "[1]" 1]
    by (simp add: raced_def put_def mark_ended_def on_call_def set_call_def)
  have s9: "race_step (raced (end_receive (end_receive (new_call True True))) (Ended 1 ok_response None) (Settling_one [NetClosed] 1 []))
      (Some (raced lost_call (Ended 1 ok_response None) (Settling [NetClosed] [])))"
    using fail_finish_step [of "raced (end_receive (end_receive (new_call True True))) (Ended 1 ok_response None) (Settling_one [NetClosed] 1 [])" "[NetClosed]" 1 "[]"]
    by (simp add: raced_def put_def settle_call_def on_call_def set_call_def finish_call_open lost_call_def)
  have s10: "race_step (raced lost_call (Ended 1 ok_response None) (Settling [NetClosed] []))
      (Some (raced lost_call (Ended 1 ok_response None) Failed))"
    using fail_done_step [of "raced lost_call (Ended 1 ok_response None) (Settling [NetClosed] [])" "[NetClosed]"]
    by (simp add: raced_def)
  show ?thesis
    using rrun_step [OF rrun_step [OF rrun_step [OF rrun_step [OF rrun_step [OF rrun_step [OF rrun_step [OF rrun_step
      [OF rrun_step [OF rrun_step [OF rrun_nil s1] s2] s3] s4] s5] s6] s7] s8] s9] s10]
    by (simp add: r0_def)
qed

theorem client_settles_once_witness:
  "\<exists>r' call. put ((raced lost_call (Ended 1 ok_response None) Failed)\<lparr>rd := Finished 1 None\<rparr>)
        (settle_call 1 (response_result ok_response) None (shared (raced lost_call (Ended 1 ok_response None) Failed))) = Some r'
     \<and> calls (shared r') 1 = Some call \<and> terminal call = Some (lost_result, Some [NetClosed])"
proof -
  let ?r = "raced lost_call (Ended 1 ok_response None) Failed"
  let ?o = "put (?r\<lparr>rd := Finished 1 None\<rparr>) (settle_call 1 (response_result ok_response) None (shared ?r))"
  have "race_run ?r ?o"
    by (rule rrun_step [OF rrun_nil finish_step]) (simp add: raced_def)
  from client_settles_once [OF raced_run this] obtain r' where r': "?o = Some r'"
    and keep: "\<And>i call t. calls (shared ?r) i = Some call \<Longrightarrow> terminal call = Some t \<Longrightarrow>
      \<exists>call'. calls (shared r') i = Some call' \<and> terminal call' = Some t" by blast
  have "calls (shared ?r) 1 = Some lost_call" "terminal lost_call = Some (lost_result, Some [NetClosed])"
    by (simp_all add: raced_def lost_call_def)
  from keep [OF this] show ?thesis using r' by blast
qed

end
