(* ===== verification/Business.thy ===== *)
theory Business
  imports Control WireClient
begin

text \<open>
  The business lane, \<^verbatim>\<open>business.go\<close>: one session per lane, acquired on demand and retired when it breaks, and the classification
  of a call. Sessions are named by numbers. Every operation runs under the mutex of its lane, which an acquisition also
  holds while it attaches: \<open>bz_attempt\<close> is where that goroutine stands. The lanes of a client, the first of which is the
  link of its own verbs, interleave their operations; another lane's acquisition takes the session of the link over.
\<close>

subsection \<open>Contracts\<close>

record Contract =
  con_Schema :: string
  con_MaxFrame :: int
  con_Concurrency :: int

record Limits =
  lim_MaxFrame :: int
  lim_Concurrency :: int

definition Contract_validate :: "Contract \<Rightarrow> bool" where
  "Contract_validate c \<longleftrightarrow> con_Schema c \<noteq> []"

definition adopt :: "Contract \<Rightarrow> Limits \<Rightarrow> Limits option" where
  "adopt c conveyed =
    (if con_MaxFrame c \<noteq> 0 \<and> con_MaxFrame c \<noteq> lim_MaxFrame conveyed then None
     else if con_Concurrency c \<noteq> 0 \<and> con_Concurrency c \<noteq> lim_Concurrency conveyed then None
     else Some conveyed)"

subsection \<open>The lane\<close>

record Business =
  bz_contract :: Contract
  bz_attach :: bool
  bz_session :: "nat option"
  bz_peer :: int
  bz_single :: bool
  bz_closed :: bool
  bz_attempt :: "nat option"

datatype lane_error = ErrLaneClosed | ZeroBusiness | NoSchema | Denied rerr

datatype lane_event =
    Opened nat
  | Aborted nat
  | SessionClosed nat
  | Got nat nat

definition attachAttempts :: nat where "attachAttempts = 3"

text \<open>\<open>acquire\<close> up to its attach loop: a usable session, a refusal, or the first attempt.\<close>

definition acquire :: "(nat \<Rightarrow> bool) \<Rightarrow> Business \<Rightarrow> (lane_error + nat \<times> int) option \<times> Business \<times> lane_event list" where
  "acquire failed b =
    (let attaching = (\<lambda>b es.
           if bz_closed b then (Some (Inl ErrLaneClosed), b, es)
           else if \<not> bz_attach b then (Some (Inl ZeroBusiness), b, es)
           else (None, b\<lparr>bz_attempt := Some 1\<rparr>, es)) in
     case bz_session b of
       None \<Rightarrow> attaching b []
     | Some n \<Rightarrow>
         if bz_single b \<or> \<not> failed n then (Some (Inr (n, bz_peer b)), b, [])
         else attaching (b\<lparr>bz_session := None\<rparr>) [Aborted n])"

definition surrender :: "(nat \<Rightarrow> bool) \<Rightarrow> Business \<Rightarrow> (nat \<times> int) option \<times> Business" where
  "surrender failed b =
    (case bz_session b of
       None \<Rightarrow> (None, b)
     | Some n \<Rightarrow> if failed n then (None, b) else (Some (n, bz_peer b), b\<lparr>bz_session := None, bz_peer := 0\<rparr>))"

text \<open>
  The function \<open>attach\<close> of a lane: the link dials, a lane of \<open>Client.Business\<close> refuses without a schema, takes the
  session of the link over, or dials. \<open>dialled\<close> is what \<open>attachSocket\<close> answers.
\<close>

definition attach :: "(nat \<Rightarrow> bool) \<Rightarrow> nat \<Rightarrow> rerr + nat \<times> int \<Rightarrow> (nat \<Rightarrow> Business)
    \<Rightarrow> (lane_error + nat \<times> int) \<times> (nat \<Rightarrow> Business) \<times> lane_event list" where
  "attach failed i dialled lanes =
    (let fresh = (case dialled of Inl e \<Rightarrow> (Inl (Denied e), lanes, []) | Inr (n, p) \<Rightarrow> (Inr (n, p), lanes, [Opened n])) in
     if i = 0 then fresh
     else if \<not> Contract_validate (bz_contract (lanes i)) then (Inl NoSchema, lanes, [])
     else case surrender failed (lanes 0) of
       (Some s, link) \<Rightarrow> (Inr s, lanes(0 := link), [])
     | (None, link) \<Rightarrow> fresh)"

definition denial :: "lane_error \<Rightarrow> lane_error" where
  "denial e = (case e of Denied x \<Rightarrow> Denied (classifyWire x) | _ \<Rightarrow> e)"

definition at_capacity :: "lane_error \<Rightarrow> bool" where
  "at_capacity e = (case e of Denied x \<Rightarrow> Is x RootCapacity | _ \<Rightarrow> False)"

text \<open>One turn of the attach loop; \<open>slept\<close> is whether the backoff ran to its end.\<close>

definition attempt :: "(nat \<Rightarrow> bool) \<Rightarrow> nat \<Rightarrow> rerr + nat \<times> int \<Rightarrow> bool \<Rightarrow> nat \<Rightarrow> (nat \<Rightarrow> Business)
    \<Rightarrow> (lane_error + nat \<times> int) option \<times> (nat \<Rightarrow> Business) \<times> lane_event list" where
  "attempt failed i dialled slept k lanes =
    (case attach failed i dialled lanes of
       (Inr (n, p), l, es) \<Rightarrow> (Some (Inr (n, p)), l(i := (l i)\<lparr>bz_session := Some n, bz_peer := p, bz_attempt := None\<rparr>), es)
     | (Inl e, l, es) \<Rightarrow>
         if \<not> at_capacity (denial e) \<or> k = attachAttempts \<or> \<not> slept
         then (Some (Inl (denial e)), l(i := (l i)\<lparr>bz_attempt := None\<rparr>), es)
         else (None, l(i := (l i)\<lparr>bz_attempt := Some (k + 1)\<rparr>), es))"

definition retire :: "nat \<Rightarrow> Business \<Rightarrow> Business \<times> lane_event list" where
  "retire n b =
    (if bz_session b = Some n
     then (let b1 = b\<lparr>bz_session := None\<rparr> in if bz_single b then b1\<lparr>bz_closed := True\<rparr> else b1, [Aborted n])
     else (b, []))"

definition Close :: "Business \<Rightarrow> Business \<times> lane_event list" where
  "Close b = (b\<lparr>bz_session := None, bz_closed := True\<rparr>, case bz_session b of None \<Rightarrow> [] | Some n \<Rightarrow> [SessionClosed n])"

subsection \<open>The lanes of a client\<close>

definition prepared :: "Contract \<Rightarrow> Business" where
  "prepared c = \<lparr> bz_contract = c, bz_attach = True, bz_session = None, bz_peer = 0, bz_single = False, bz_closed = False,
     bz_attempt = None \<rparr>"

text \<open>\<open>Child.Business\<close> and \<open>BusinessOverConn\<close>: a lane over the one session it was given.\<close>

definition single_lane :: "Contract \<Rightarrow> nat \<Rightarrow> Business" where
  "single_lane c n = \<lparr> bz_contract = c, bz_attach = False, bz_session = Some n, bz_peer = 0, bz_single = True, bz_closed = False,
     bz_attempt = None \<rparr>"

definition zero_lane :: "Contract \<Rightarrow> Business" where
  "zero_lane c = (prepared c)\<lparr>bz_attach := False\<rparr>"

record lanes =
  ls_lane :: "nat \<Rightarrow> Business"
  ls_failed :: "nat \<Rightarrow> bool"

definition got :: "nat \<Rightarrow> (lane_error + nat \<times> int) option \<Rightarrow> lane_event list" where
  "got i r = (case r of Some (Inr (n, p)) \<Rightarrow> [Got i n] | _ \<Rightarrow> [])"

text \<open>
  The steps take the trace so far: a dialled session is a new one. Any caller may retire any session on any lane at any
  time the mutex is free, whatever the classification of its call was; a session may break at any time.
\<close>

inductive lane_step :: "lane_event list \<Rightarrow> lanes \<Rightarrow> lane_event list \<Rightarrow> lanes \<Rightarrow> bool" where
  acquiring: "bz_attempt (ls_lane s i) = None \<Longrightarrow> acquire (ls_failed s) (ls_lane s i) = (r, b, es') \<Longrightarrow>
    lane_step es s (es' @ got i r) (s\<lparr>ls_lane := (ls_lane s)(i := b)\<rparr>)"
| attempting: "bz_attempt (ls_lane s i) = Some k \<Longrightarrow> i = 0 \<or> bz_attempt (ls_lane s 0) = None \<Longrightarrow>
    (case dialled of Inl e \<Rightarrow> True | Inr (n, p) \<Rightarrow> Opened n \<notin> set es) \<Longrightarrow>
    attempt (ls_failed s) i dialled slept k (ls_lane s) = (r, l, es') \<Longrightarrow>
    lane_step es s (es' @ got i r) (s\<lparr>ls_lane := l\<rparr>)"
| retiring: "bz_attempt (ls_lane s i) = None \<Longrightarrow> retire n (ls_lane s i) = (b, es') \<Longrightarrow>
    lane_step es s es' (s\<lparr>ls_lane := (ls_lane s)(i := b)\<rparr>)"
| closing: "bz_attempt (ls_lane s i) = None \<Longrightarrow> Close (ls_lane s i) = (b, es') \<Longrightarrow>
    lane_step es s es' (s\<lparr>ls_lane := (ls_lane s)(i := b)\<rparr>)"
| over_conn: "i \<noteq> 0 \<Longrightarrow> ls_lane s i = zero_lane c \<Longrightarrow> Contract_validate c' \<Longrightarrow> Opened n \<notin> set es \<Longrightarrow>
    lane_step es s [Opened n] (s\<lparr>ls_lane := (ls_lane s)(i := single_lane c' n)\<rparr>)"
| broken: "lane_step es s [] (s\<lparr>ls_failed := (ls_failed s)(n := True)\<rparr>)"

inductive lane_run :: "lane_event list \<Rightarrow> lanes \<Rightarrow> lane_event list \<Rightarrow> lanes \<Rightarrow> bool" where
  lrun_nil: "lane_run es s [] s"
| lrun_step: "lane_run es s es' s' \<Longrightarrow> lane_step (es @ es') s' es'' s'' \<Longrightarrow> lane_run es s (es' @ es'') s''"

definition lanes_start :: "lanes \<Rightarrow> bool" where
  "lanes_start s \<longleftrightarrow> (\<exists>c. ls_lane s 0 = prepared c) \<and> (\<forall>i. \<exists>c. ls_lane s i = prepared c \<or> ls_lane s i = zero_lane c)"


subsection \<open>Every session is accounted for\<close>

definition lane_held :: "lanes \<Rightarrow> nat \<Rightarrow> nat option" where
  "lane_held s i = bz_session (ls_lane s i)"

definition ended :: "lane_event list \<Rightarrow> nat \<Rightarrow> nat" where
  "ended es n = count_list es (Aborted n) + count_list es (SessionClosed n)"

definition accounted :: "lane_event list \<Rightarrow> (nat \<Rightarrow> nat option) \<Rightarrow> bool" where
  "accounted es h \<longleftrightarrow> inj_on h (dom h)
    \<and> (\<forall>n. ended es n + of_bool (n \<in> ran h) = of_bool (Opened n \<in> set es))"

lemma ended_append [simp]: "ended (es @ es') n = ended es n + ended es' n"
  by (simp add: ended_def)

lemma ended_simps [simp]:
  "ended [] n = 0" "ended [Opened m] n = 0" "ended [Got i m] n = 0"
  "ended [Aborted m] n = (if m = n then 1 else 0)" "ended [SessionClosed m] n = (if m = n then 1 else 0)"
  by (auto simp: ended_def)

lemma accounted_got [simp]: "accounted (es @ [Got i n]) h = accounted es h"
  by (simp add: accounted_def)

lemma inj_dom_upd: "inj_on h (dom h) \<Longrightarrow> inj_on (h(i := None)) (dom (h(i := None)))"
  by (auto simp: inj_on_def dom_def)

lemma ran_drop: "inj_on h (dom h) \<Longrightarrow> h i = Some n \<Longrightarrow> ran (h(i := None)) = ran h - {n}"
  by (force simp: ran_def inj_on_def dom_def split: if_splits)

lemma accounted_end:
  assumes "accounted es h" "h i = Some n" "e = Aborted n \<or> e = SessionClosed n"
  shows "accounted (es @ [e]) (h(i := None))"
proof -
  have inj: "inj_on h (dom h)" and eq: "ended es m + of_bool (m \<in> ran h) = of_bool (Opened m \<in> set es)" for m
    using assms(1) by (simp_all add: accounted_def)
  have n: "n \<in> ran h" using assms(2) by (rule ranI)
  have "ended es m + ended [e] m + of_bool (m \<in> ran h - {n}) = of_bool (Opened m \<in> set es)" for m
    using eq [of m] assms(3) n by (cases "m = n") (auto split: if_splits simp: of_bool_def)
  moreover have "Opened m \<in> set (es @ [e]) \<longleftrightarrow> Opened m \<in> set es" for m using assms(3) by auto
  ultimately show ?thesis unfolding accounted_def ran_drop [OF inj assms(2)] using inj_dom_upd [OF inj] by simp
qed

lemma accounted_open:
  assumes "accounted es h" "h i = None" "Opened n \<notin> set es"
  shows "accounted (es @ [Opened n]) (h(i := Some n))"
proof -
  have inj: "inj_on h (dom h)" and eq: "ended es m + of_bool (m \<in> ran h) = of_bool (Opened m \<in> set es)" for m
    using assms(1) by (simp_all add: accounted_def)
  have no: "n \<notin> ran h" "ended es n = 0" using eq [of n] assms(3) by (auto split: if_splits)
  have "inj_on (h(i \<mapsto> n)) (dom (h(i \<mapsto> n)))" using inj no(1) by (auto simp: inj_on_def dom_def intro: ranI)
  moreover have "ended es m + of_bool (m \<in> insert n (ran h)) = of_bool (Opened m \<in> set (es @ [Opened n]))" for m
    using eq [of m] no by auto
  ultimately show ?thesis by (simp add: accounted_def assms(2))
qed

lemma accounted_move:
  assumes "accounted es h" "h j = Some n" "h i = None"
  shows "accounted es (h(j := None, i := Some n))"
proof -
  have inj: "inj_on h (dom h)" using assms(1) by (simp add: accounted_def)
  have "ran (h(j := None, i := Some n)) = ran h"
    using ran_drop [OF inj assms(2)] assms(2,3) by (auto intro: ranI)
  moreover have "inj_on (h(j := None, i := Some n)) (dom (h(j := None, i := Some n)))"
    using inj assms(2,3) by (auto simp: inj_on_def dom_def split: if_splits)
  ultimately show ?thesis using assms(1) by (simp add: accounted_def)
qed

definition lane_ok :: "Business \<Rightarrow> bool" where
  "lane_ok b \<longleftrightarrow> (bz_attempt b \<noteq> None \<longrightarrow> bz_session b = None \<and> \<not> bz_closed b) \<and> (bz_closed b \<longrightarrow> bz_session b = None)
    \<and> (\<forall>k. bz_attempt b = Some k \<longrightarrow> 1 \<le> k \<and> k \<le> attachAttempts)"

definition lanes_inv :: "lane_event list \<Rightarrow> lanes \<Rightarrow> bool" where
  "lanes_inv es s \<longleftrightarrow> accounted es (lane_held s) \<and> (\<forall>i. lane_ok (ls_lane s i))"

lemma lane_held_failed [simp]: "lane_held (s\<lparr>ls_failed := f\<rparr>) = lane_held s"
  by (auto simp: lane_held_def)

lemma lane_held_upd: "lane_held (s\<lparr>ls_lane := (ls_lane s)(i := b)\<rparr>) = (lane_held s)(i := bz_session b)"
  by (auto simp: lane_held_def)

lemma acquire_cases:
  assumes "acquire failed b = (r, b', es)" "lane_ok b"
  shows "lane_ok b' \<and> bz_contract b' = bz_contract b \<and> bz_closed b' = bz_closed b \<and> (bz_closed b \<longrightarrow> r = Some (Inl ErrLaneClosed))
    \<and> (bz_session b' = bz_session b \<and> es = [] \<or> (\<exists>n. bz_session b = Some n \<and> bz_session b' = None \<and> es = [Aborted n]))"
  using assms by (auto simp: acquire_def Let_def lane_ok_def attachAttempts_def split: option.splits if_splits)

lemma acquiring_inv:
  assumes "lanes_inv es s" "acquire (ls_failed s) (ls_lane s i) = (r, b, es')"
  shows "lanes_inv (es @ es' @ got i r) (s\<lparr>ls_lane := (ls_lane s)(i := b)\<rparr>)"
proof -
  have ok: "lane_ok (ls_lane s i)" and acc: "accounted es (lane_held s)" using assms(1) by (auto simp: lanes_inv_def)
  note a = acquire_cases [OF assms(2) ok]
  have g: "accounted (xs @ got i r) h = accounted xs h" for xs h
    by (auto simp: got_def split: option.splits sum.splits)
  have "accounted (es @ es') ((lane_held s)(i := bz_session b))"
    using a acc accounted_end [OF acc, of i] by (fastforce simp: lane_held_def [of s i, symmetric])
  then show ?thesis using a g [of "es @ es'"] assms(1) by (auto simp: lanes_inv_def lane_held_upd)
qed

lemma accounted_got_list [simp]: "accounted (xs @ got i r) h = accounted xs h"
  by (auto simp: got_def split: option.splits sum.splits)

lemma surrender_cases:
  assumes "surrender failed b = (r, b')"
  shows "r = None \<and> b' = b \<or> (\<exists>n p. r = Some (n, p) \<and> bz_session b = Some n \<and> b' = b\<lparr>bz_session := None, bz_peer := 0\<rparr>)"
  using assms by (auto simp: surrender_def split: option.splits if_splits)

lemma attach_cases:
  assumes "attach failed i dialled lanes = (r, l, es)"
  shows "(\<exists>e. r = Inl e) \<and> l = lanes \<and> es = []
    \<or> (\<exists>n p. r = Inr (n, p) \<and> l = lanes \<and> es = [Opened n] \<and> dialled = Inr (n, p))
    \<or> (\<exists>n p. r = Inr (n, p) \<and> i \<noteq> 0 \<and> bz_session (lanes 0) = Some n
         \<and> l = lanes(0 := (lanes 0)\<lparr>bz_session := None, bz_peer := 0\<rparr>) \<and> es = [])"
proof -
  obtain x link where s: "surrender failed (lanes 0) = (x, link)" by fastforce
  from surrender_cases [OF s] s assms show ?thesis
    by (auto simp: attach_def Let_def split: sum.splits if_splits option.splits)
qed

lemma attempting_inv:
  assumes inv: "lanes_inv es s" and k: "bz_attempt (ls_lane s i) = Some k" and free: "i = 0 \<or> bz_attempt (ls_lane s 0) = None"
    and fresh: "case dialled of Inl e \<Rightarrow> True | Inr (n, p) \<Rightarrow> Opened n \<notin> set es"
    and r: "attempt (ls_failed s) i dialled slept k (ls_lane s) = (r, l, es')"
  shows "lanes_inv (es @ es' @ got i r) (s\<lparr>ls_lane := l\<rparr>)"
proof -
  let ?L = "ls_lane s"
  have ok: "lane_ok (?L j)" for j using inv by (simp add: lanes_inv_def)
  have acc: "accounted es (lane_held s)" using inv by (simp add: lanes_inv_def)
  have free_i: "lane_held s i = None" "\<not> bz_closed (?L i)" "k \<le> attachAttempts" using ok [of i] k by (auto simp: lane_ok_def lane_held_def)
  have kept: "lanes_inv (es @ got i r) (s\<lparr>ls_lane := ?L(i := (?L i)\<lparr>bz_attempt := a\<rparr>)\<rparr>)"
    if "a = None \<or> a = Some (k + 1) \<and> k \<noteq> attachAttempts" for a
    using acc ok ok [of i] free_i that by (auto simp: lanes_inv_def lane_held_upd lane_ok_def lane_held_def [symmetric] attachAttempts_def fun_upd_idem)
  obtain ra l0 es0 where a: "attach (ls_failed s) i dialled ?L = (ra, l0, es0)" by (metis prod_cases3)
  from attach_cases [OF a] consider
      (refused) e where "ra = Inl e" "l0 = ?L" "es0 = []"
    | (dialled) n p where "ra = Inr (n, p)" "l0 = ?L" "es0 = [Opened n]" "dialled = Inr (n, p)"
    | (taken) n p where "ra = Inr (n, p)" "i \<noteq> 0" "bz_session (?L 0) = Some n"
        "l0 = ?L(0 := (?L 0)\<lparr>bz_session := None, bz_peer := 0\<rparr>)" "es0 = []"
    by blast
  then show ?thesis
  proof cases
    case refused
    then show ?thesis using r a kept by (auto simp: attempt_def split: if_splits)
  next
    case dialled
    then have l: "l = ?L(i := (?L i)\<lparr>bz_session := Some n, bz_peer := p, bz_attempt := None\<rparr>)" "es' = [Opened n]"
      using r a by (auto simp: attempt_def)
    have "accounted (es @ [Opened n]) ((lane_held s)(i := Some n))"
      using accounted_open [OF acc free_i(1)] fresh dialled(4) by simp
    then show ?thesis
      using ok free_i(2) accounted_got_list [of "es @ [Opened n]" i r] by (auto simp: l lanes_inv_def lane_held_upd lane_ok_def)
  next
    case taken
    then have l: "l = ?L(0 := (?L 0)\<lparr>bz_session := None, bz_peer := 0\<rparr>,
        i := (?L i)\<lparr>bz_session := Some n, bz_peer := p, bz_attempt := None\<rparr>)" "es' = []"
      using r a by (auto simp: attempt_def)
    have "lane_held (s\<lparr>ls_lane := l\<rparr>) = (lane_held s)(0 := None, i := Some n)" by (auto simp: lane_held_def l)
    moreover have "accounted es ((lane_held s)(0 := None, i := Some n))"
      using accounted_move [OF acc] taken free_i(1) by (simp add: lane_held_def)
    ultimately show ?thesis using ok ok [of 0] free_i(2) by (auto simp: l lanes_inv_def lane_ok_def)
  qed
qed

lemma retire_inv:
  assumes "lanes_inv es s" "bz_attempt (ls_lane s i) = None" "retire n (ls_lane s i) = (b, es')"
  shows "lanes_inv (es @ es') (s\<lparr>ls_lane := (ls_lane s)(i := b)\<rparr>)"
proof (cases "lane_held s i = Some n")
  case True
  have acc: "accounted es (lane_held s)" and ok: "lane_ok (ls_lane s j)" for j using assms(1) by (auto simp: lanes_inv_def)
  have "bz_session b = None" "es' = [Aborted n]" "lane_ok b"
    using assms(2,3) True ok [of i] by (auto simp: retire_def lane_held_def lane_ok_def Let_def split: if_splits)
  then show ?thesis using accounted_end [OF acc True] ok by (auto simp: lanes_inv_def lane_held_upd)
next
  case False
  then show ?thesis using assms by (auto simp: retire_def lane_held_def split: if_splits)
qed

lemma close_inv:
  assumes "lanes_inv es s" "bz_attempt (ls_lane s i) = None" "Close (ls_lane s i) = (b, es')"
  shows "lanes_inv (es @ es') (s\<lparr>ls_lane := (ls_lane s)(i := b)\<rparr>)"
proof -
  have acc: "accounted es (lane_held s)" and ok: "lane_ok (ls_lane s j)" for j using assms(1) by (auto simp: lanes_inv_def)
  have b: "bz_session b = None" "lane_ok b" using assms(2,3) by (auto simp: Close_def lane_ok_def)
  have "accounted (es @ es') ((lane_held s)(i := None))"
  proof (cases "lane_held s i")
    case None
    then have "(lane_held s)(i := None) = lane_held s" by auto
    then show ?thesis using acc assms(3) None by (simp add: Close_def lane_held_def)
  next
    case (Some n)
    then show ?thesis using accounted_end [OF acc Some] assms(3) by (auto simp: Close_def lane_held_def [of s i, symmetric])
  qed
  then show ?thesis using ok b by (auto simp: lanes_inv_def lane_held_upd)
qed

lemma lane_step_inv:
  assumes "lane_step es s es' s'" "lanes_inv es s"
  shows "lanes_inv (es @ es') s'"
  using assms
proof (cases rule: lane_step.cases)
  case (over_conn i c c' n)
  have "lane_held s i = None" "accounted es (lane_held s)" using over_conn assms(2) by (auto simp: lane_held_def zero_lane_def prepared_def lanes_inv_def)
  then have "accounted (es @ [Opened n]) ((lane_held s)(i := Some n))" using accounted_open over_conn by blast
  then show ?thesis using assms(2) over_conn by (auto simp: lanes_inv_def lane_held_upd single_lane_def lane_ok_def)
next
  case (broken n)
  then show ?thesis using assms(2) by (simp add: lanes_inv_def)
qed (use acquiring_inv attempting_inv retire_inv close_inv in \<open>simp; blast\<close>)+

lemma lane_run_inv: "lane_run es s es' s' \<Longrightarrow> lanes_inv es s \<Longrightarrow> lanes_inv (es @ es') s'"
  by (induction rule: lane_run.induct) (use lane_step_inv in force)+

lemma lanes_start_inv:
  assumes "lanes_start s"
  shows "lanes_inv [] s"
proof -
  have l: "lane_held s i = None" "lane_ok (ls_lane s i)" for i
  proof -
    obtain c where "ls_lane s i = prepared c \<or> ls_lane s i = zero_lane c" using assms by (auto simp: lanes_start_def)
    then show "lane_held s i = None" "lane_ok (ls_lane s i)" by (auto simp: prepared_def zero_lane_def lane_held_def lane_ok_def)
  qed
  then have "lane_held s = (\<lambda>_. None)" by auto
  then show ?thesis using l(2) by (simp add: lanes_inv_def accounted_def inj_on_def ran_def)
qed


subsection \<open>Properties of the lanes\<close>

lemma lane_closed_step:
  assumes "lane_step es s es' s'" "lanes_inv es s" "bz_closed (ls_lane s i)"
  shows "bz_closed (ls_lane s' i) \<and> (\<forall>n. Got i n \<notin> set es')"
  using assms
proof (cases rule: lane_step.cases)
  case (acquiring j r b es1)
  have "lane_ok (ls_lane s j)" using assms(2) by (simp add: lanes_inv_def)
  from acquire_cases [OF acquiring(4) this] show ?thesis using acquiring assms(3) by (auto simp: got_def split: option.splits sum.splits)
next
  case (attempting j k dialled slept r l es1)
  have j: "j \<noteq> i" using assms(2,3) attempting(3) by (auto simp: lanes_inv_def lane_ok_def)
  obtain ra l0 es0 where a: "attach (ls_failed s) j dialled (ls_lane s) = (ra, l0, es0)" by (metis prod_cases3)
  have "bz_closed (l0 i)" "\<forall>n. Got i n \<notin> set es0" using attach_cases [OF a] assms(3) by auto
  then show ?thesis
    using attempting a j by (auto simp: attempt_def got_def split: sum.splits if_splits prod.splits)
next
  case (retiring j n b)
  then show ?thesis using assms(3) by (auto simp: retire_def Let_def split: if_splits)
next
  case (closing j b)
  then show ?thesis using assms(3) by (auto simp: Close_def split: option.splits)
next
  case (over_conn j c c' n)
  then show ?thesis using assms(3) by (auto simp: zero_lane_def prepared_def)
qed auto

lemma lane_closed_run:
  assumes "lane_run es s es' s'" "lanes_inv es s" "bz_closed (ls_lane s i)"
  shows "bz_closed (ls_lane s' i) \<and> (\<forall>n. Got i n \<notin> set es')"
  using assms
proof (induction rule: lane_run.induct)
  case (lrun_step es s es' s' es'' s'')
  then show ?case using lane_closed_step [OF lrun_step(2) lane_run_inv [OF lrun_step(1)]] by auto
qed simp

text \<open>
  C40: no session is leaked and none is ended twice. Whatever the interleaving of acquisitions, takeovers of the link's
  session, retirements, closes and broken transports over the lanes of a client, every session that was opened is either
  held by exactly one lane and has not been ended, or is held by none and has been aborted or closed exactly once.
\<close>

theorem lane_sessions_accounted:
  assumes "lanes_start s" "lane_run [] s es s'" "Opened n \<in> set es"
  shows "(\<exists>!i. bz_session (ls_lane s' i) = Some n) \<and> ended es n = 0
    \<or> (\<forall>i. bz_session (ls_lane s' i) \<noteq> Some n) \<and> ended es n = 1"
proof -
  have acc: "inj_on (lane_held s') (dom (lane_held s'))" "ended es n + of_bool (n \<in> ran (lane_held s')) = 1"
    using lane_run_inv [OF assms(2) lanes_start_inv [OF assms(1)]] assms(3) by (simp_all add: lanes_inv_def accounted_def)
  show ?thesis
  proof (cases "n \<in> ran (lane_held s')")
    case True
    then obtain i where "lane_held s' i = Some n" by (auto simp: ran_def)
    then have "\<exists>!i. lane_held s' i = Some n" using acc(1) by (metis domI inj_onD)
    then show ?thesis using acc(2) True by (simp add: lane_held_def)
  next
    case False
    then show ?thesis using acc(2) by (auto simp: lane_held_def ran_def)
  qed
qed

text \<open>
  A closed lane stays closed. \<open>Close\<close> closes a lane, and so does the retirement of the session of a single-session
  lane. From then on no acquisition on it yields a session, and the next one answers \<open>ErrLaneClosed\<close> without effect.
\<close>

lemma closed_lane_refuses:
  assumes "lanes_start s" "lane_run [] s es s1" "lane_run (es @ ce) s1' es' s2"
    and "s1' = s1\<lparr>ls_lane := (ls_lane s1)(i := b)\<rparr>" "bz_attempt (ls_lane s1 i) = None"
    and "Close (ls_lane s1 i) = (b, ce) \<or> bz_single (ls_lane s1 i) \<and> bz_session (ls_lane s1 i) = Some m \<and> retire m (ls_lane s1 i) = (b, ce)"
  shows "(\<forall>n. Got i n \<notin> set es') \<and> acquire (ls_failed s2) (ls_lane s2 i) = (Some (Inl ErrLaneClosed), ls_lane s2 i, [])"
proof -
  have inv1: "lanes_inv es s1" using lane_run_inv [OF assms(2) lanes_start_inv [OF assms(1)]] by simp
  have inv: "lanes_inv (es @ ce) s1'" using close_inv [OF inv1 assms(5)] retire_inv [OF inv1 assms(5)] assms(4,6) by auto
  have "bz_closed (ls_lane s1' i)" using assms(4,6) by (auto simp: Close_def retire_def)
  then have "bz_closed (ls_lane s2 i)" "\<forall>n. Got i n \<notin> set es'" using lane_closed_run [OF assms(3) inv] by auto
  moreover have "lane_ok (ls_lane s2 i)" using lane_run_inv [OF assms(3) inv] by (simp add: lanes_inv_def)
  ultimately show ?thesis by (simp add: acquire_def lane_ok_def)
qed

definition demo_contract :: Contract where
  "demo_contract = \<lparr> con_Schema = ''s'', con_MaxFrame = 0, con_Concurrency = 0 \<rparr>"

definition demo_lanes :: lanes where
  "demo_lanes = \<lparr> ls_lane = (\<lambda>_. prepared demo_contract), ls_failed = (\<lambda>_. False) \<rparr>"

definition demo_taken :: lanes where
  "demo_taken = demo_lanes\<lparr>ls_lane := (ls_lane demo_lanes)(1 := (prepared demo_contract)\<lparr>bz_session := Some 7, bz_peer := 42\<rparr>)\<rparr>"

lemma demo_start: "lanes_start demo_lanes"
  by (auto simp: lanes_start_def demo_lanes_def)

text \<open>The link opens a session for a health report, then the first business lane takes it over.\<close>

lemma demo_takeover: "lane_run [] demo_lanes [Opened 7, Got 0 7, Got 1 7] demo_taken"
proof -
  let ?P = "prepared demo_contract"
  let ?l1 = "demo_lanes\<lparr>ls_lane := (ls_lane demo_lanes)(0 := ?P\<lparr>bz_attempt := Some 1\<rparr>)\<rparr>"
  let ?l2 = "demo_lanes\<lparr>ls_lane := (ls_lane demo_lanes)(0 := ?P\<lparr>bz_session := Some 7, bz_peer := 42\<rparr>)\<rparr>"
  let ?l3 = "?l2\<lparr>ls_lane := (ls_lane ?l2)(1 := ?P\<lparr>bz_attempt := Some 1\<rparr>)\<rparr>"
  note defs = demo_lanes_def demo_taken_def prepared_def acquire_def attempt_def attach_def surrender_def got_def Let_def
    Contract_validate_def demo_contract_def
  have s1: "lane_step [] demo_lanes [] ?l1"
    using acquiring [of demo_lanes 0 None "?P\<lparr>bz_attempt := Some 1\<rparr>" "[]" "[]"] by (simp add: defs)
  have s2: "lane_step [] ?l1 [Opened 7, Got 0 7] ?l2"
    using attempting [where s = ?l1 and i = 0 and k = 1 and dialled = "Inr (7, 42)" and es = "[]" and slept = False and r = "Some (Inr (7, 42))" and l = "ls_lane ?l2" and es' = "[Opened 7]"] by (simp add: defs)
  have s3: "lane_step [Opened 7, Got 0 7] ?l2 [] ?l3"
    using acquiring [of ?l2 1 None "?P\<lparr>bz_attempt := Some 1\<rparr>" "[]" "[Opened 7, Got 0 7]"] by (simp add: defs)
  have s4: "lane_step [Opened 7, Got 0 7] ?l3 [Got 1 7] demo_taken"
    using attempting [where s = ?l3 and i = 1 and k = 1 and dialled = "Inl []" and es = "[Opened 7, Got 0 7]" and slept = False and r = "Some (Inr (7, 42))" and l = "ls_lane demo_taken" and es' = "[]"]
    by (simp add: defs fun_eq_iff)
  have r1: "lane_run [] demo_lanes [] ?l1" using lrun_step [OF lrun_nil, of "[]" demo_lanes "[]" ?l1] s1 by simp
  have r2: "lane_run [] demo_lanes [Opened 7, Got 0 7] ?l2" using lrun_step [OF r1, of "[Opened 7, Got 0 7]" ?l2] s2 by simp
  have r3: "lane_run [] demo_lanes [Opened 7, Got 0 7] ?l3" using lrun_step [OF r2, of "[]" ?l3] s3 by simp
  show ?thesis using lrun_step [OF r3, of "[Got 1 7]" demo_taken] s4 by simp
qed

theorem lane_sessions_accounted_witness:
  "(\<exists>!i. bz_session (ls_lane demo_taken i) = Some 7) \<and> ended [Opened 7, Got 0 7, Got 1 7] 7 = 0"
  using lane_sessions_accounted [OF demo_start demo_takeover, of 7] by (simp add: ended_def)

subsection \<open>A call\<close>

record ProductError =
  pe_Code :: string
  pe_Message :: string

record businessEnvelope =
  env_Body :: bytes
  env_Error :: "ProductError option"

datatype call_failure =
    CallRefused lane_error
  | CallOversize
  | CallRejected ResponseCode rerr
  | CallTransport goerr
  | CallRemote ResponseCode goerr
  | CallUndecodable
  | CallProduct ProductError

text \<open>\<open>NoDeadline\<close> is the one failure that is not a \<open>callError\<close>.\<close>

datatype call_error = NoDeadline | callError Outcome call_failure

definition call_refused :: "call_failure \<Rightarrow> call_error" where
  "call_refused e = callError PreSendFailure e"

definition Undispatched :: "call_error \<Rightarrow> bool" where
  "Undispatched e = (case e of NoDeadline \<Rightarrow> False | callError oc f \<Rightarrow> Replayable oc)"

text \<open>The sentinels that \<open>classifyWire\<close> looks for in a rejection.\<close>

definition root_of_wire :: "goerr \<Rightarrow> rerr" where
  "root_of_wire e = (if errors_Is e ErrDraining then [WireDraining] else []) @ (if errors_Is e ErrNotReady then [WireNotReady] else [])
    @ (if errors_Is e ErrSessionCapacity then [RootCapacity] else []) @ (if errors_Is e ProtocolMismatch then [ErrProtocolMismatch] else [])"

definition session_retiring :: "bool \<Rightarrow> Outcome \<Rightarrow> bool" where
  "session_retiring failure outcome \<longleftrightarrow> failure \<or> outcome = DeliveryUnknown"

text \<open>What a call does to its lane once its session answered.\<close>

definition call_effect :: "bool \<Rightarrow> Outcome \<Rightarrow> nat \<Rightarrow> Business \<Rightarrow> Business \<times> lane_event list" where
  "call_effect failure outcome n b = (if session_retiring failure outcome then retire n b else (b, []))"

text \<open>
  \<open>Call\<close> once its session was acquired and answered: \<open>acquired\<close> is the result of \<open>acquire\<close>, \<open>answer\<close> that of the session's
  call, \<open>envelope\<close> the decoded payload of its response.
\<close>

definition Call :: "Contract \<Rightarrow> bool \<Rightarrow> nat \<Rightarrow> lane_error + nat \<Rightarrow> Result \<times> goerr option \<Rightarrow> businessEnvelope option
    \<Rightarrow> call_error + bytes" where
  "Call c dl len acquired answer envelope =
    (if \<not> dl then Inl NoDeadline
     else if maxFramedBytes (con_MaxFrame c) < int len then Inl (call_refused CallOversize)
     else case acquired of
       Inl e \<Rightarrow> Inl (call_refused (CallRefused e))
     | Inr n \<Rightarrow>
         (case answer of (result, err) \<Rightarrow>
          (case Rejection result of
             Some (code, reason) \<Rightarrow>
               Inl (callError (res_Outcome result) (CallRejected code (classifyWire (case responseCodeCause code of None \<Rightarrow> [] | Some e \<Rightarrow> root_of_wire e))))
           | None \<Rightarrow>
             (case err of
                Some e \<Rightarrow> Inl (callError (res_Outcome result) (CallTransport e))
              | None \<Rightarrow>
                (case Terminal result of
                   Some (code, msg) \<Rightarrow> Inl (callError (res_Outcome result) (CallRemote code msg))
                 | None \<Rightarrow>
                   (case envelope of
                      None \<Rightarrow> Inl (callError (res_Outcome result) CallUndecodable)
                    | Some env \<Rightarrow>
                        (case env_Error env of
                           Some pe \<Rightarrow> Inl (callError (res_Outcome result) (CallProduct pe))
                         | None \<Rightarrow> Inr (env_Body env))))))))"

text \<open>
  The session's own \<open>Call\<close> and \<open>Response\<close>: \<open>call\<close> is the call when the wait ends, \<open>waited\<close> the end of the context or of the
  session where the wait took that arm. A wait that has no arm to take goes on (\<open>None\<close>).
\<close>

definition Response_of :: "ClientCall \<Rightarrow> goerr option \<Rightarrow> (Result \<times> goerr option) option" where
  "Response_of call waited =
    (case waited of
       Some e \<Rightarrow> Some (\<lparr> res_Outcome = PostSendFailure, res_Response = None \<rparr>, Some e)
     | None \<Rightarrow> terminal call)"

definition wire_Call :: "(Outcome \<times> goerr) + u64 \<Rightarrow> Client \<Rightarrow> goerr option \<Rightarrow> (Result \<times> goerr option) option" where
  "wire_Call opened later waited =
    (case opened of
       Inl (oc, e) \<Rightarrow> Some (\<lparr> res_Outcome = oc, res_Response = None \<rparr>, Some e)
     | Inr i \<Rightarrow> (case calls later i of None \<Rightarrow> None | Some call \<Rightarrow> Response_of call waited))"

subsection \<open>Outcomes are honest\<close>

definition honest_terminal :: "(Result \<times> goerr option) option \<Rightarrow> bool" where
  "honest_terminal t \<longleftrightarrow> (\<forall>r e. t = Some (r, e) \<longrightarrow> res_Outcome r = PostSendFailure \<and> res_Response r = None
    \<or> (\<exists>resp. res_Response r = Some resp \<and> res_Outcome r = (if Rejected resp then OutcomeRejected else Delivered)))"

definition honest :: "Client \<Rightarrow> bool" where
  "honest c \<longleftrightarrow> (\<forall>i call. calls c i = Some call \<longrightarrow> honest_terminal (terminal call))"

lemma honest_None [simp]: "honest_terminal None"
  by (simp add: honest_terminal_def)

lemma honest_finish:
  "finish_call r e call = Done call' \<Longrightarrow> honest_terminal (terminal call) \<Longrightarrow> honest_terminal (Some (r, e)) \<Longrightarrow>
    honest_terminal (terminal call')"
  by (auto simp: finish_call_def split: if_splits)

lemma honest_set_call: "honest c \<Longrightarrow> honest_terminal (terminal call) \<Longrightarrow> honest (set_call i call c)"
  by (simp add: honest_def set_call_def)

lemma honest_calls: "honest c \<Longrightarrow> calls c' = calls c \<Longrightarrow> honest c'"
  by (simp add: honest_def)

lemma honest_on_call:
  assumes "on_call i g c = Done c'" "honest c"
    and "\<And>call call'. g call = Done call' \<Longrightarrow> honest_terminal (terminal call) \<Longrightarrow> honest_terminal (terminal call')"
  shows "honest c'"
  using assms by (fastforce simp: on_call_def step_bind_Done honest_def split: option.splits if_splits)

lemma honest_mark: "mark_ended i c = Done c' \<Longrightarrow> honest c \<Longrightarrow> honest c'"
  unfolding mark_ended_def by (erule honest_on_call) auto

lemma honest_settle: "settle_call i r e c = Done c' \<Longrightarrow> honest c \<Longrightarrow> honest_terminal (Some (r, e)) \<Longrightarrow> honest c'"
  unfolding settle_call_def by (erule honest_on_call) (auto intro: honest_finish)

lemma honest_settle_all: "settle_all e is c = Done c' \<Longrightarrow> honest c \<Longrightarrow> honest c'"
proof (induction "is" arbitrary: c)
  case (Cons i "is")
  have "honest_terminal (Some (lost_result, Some e))" by (simp add: honest_terminal_def lost_result_def)
  then show ?case
    using Cons honest_mark honest_settle by (fastforce simp: fail_settle_def step_bind_Done)
qed simp

lemma removePending_calls: "removePending i c = Done c' \<Longrightarrow> calls c' = calls c"
  by (auto simp: removePending_def Let_def split: if_splits)

lemma honest_open:
  assumes "honest c" "open_call send oper payload e st d c = (res, Done c')"
  shows "honest c'"
proof -
  let ?i = "nextID c + 1"
  have "calls c' = calls c \<or> calls c' = (calls c)(?i \<mapsto> new_call e st)"
    using assms(2) removePending_calls
    by (fastforce simp: open_defs split: if_splits option.splits prod.splits)
  then show ?thesis using assms(1) by (auto simp: honest_def new_call_def split: if_splits)
qed

lemma honest_fail:
  assumes "honest c" "client_fail e c = Done c'"
  shows "honest c'"
proof (cases "client_err c")
  case None
  then obtain ids c1 where "fail_take e c = Done (ids, c1)" "settle_all e ids (close_events c1) = Done c'"
    using assms(2) by (auto simp: client_fail_def step_bind_Done)
  moreover from this(1) have "honest (close_events c1)"
    using assms(1) by (auto simp: fail_take_def close_events_def honest_def split: if_splits)
  ultimately show ?thesis using honest_settle_all by blast
qed (use assms in \<open>simp add: client_fail_def\<close>)

lemma honest_response:
  assumes "honest c" "client_receiveResponse decoded ackErr f c = (err, Done c')"
  shows "honest c'"
proof (cases "\<exists>response call. decoded = Some response \<and> pending_call (ID f) c = Some call")
  case False
  then show ?thesis using assms by (auto simp: client_receiveResponse_def Let_def split: option.splits)
next
  case True
  then obtain response call where d: "decoded = Some response" "pending_call (ID f) c = Some call" by blast
  have "honest_terminal (Some (response_result response, None))"
    by (simp add: honest_terminal_def response_result_def)
  then show ?thesis
    using assms d honest_mark honest_settle
    by (fastforce simp: client_receiveResponse_def Let_def step_bind_Done intro: honest_calls dest: removePending_calls)
qed

lemma honest_stream:
  assumes "honest c" "client_receiveStream f c = (err, c')"
  shows "honest c'"
proof (cases "pending_call (ID f) c")
  case None
  then show ?thesis using assms by (simp add: client_receiveStream_def)
next
  case (Some call)
  then have h: "honest_terminal (terminal call)" using assms(1) by (auto simp: pending_call_def honest_def split: if_splits)
  then show ?thesis using assms(1) client_receiveStream_keeps [OF assms(2) Some] honest_set_call by auto
qed

lemma honest_failing:
  assumes "failing (err, Done c1) = (Done c', go)" "honest c1"
  shows "honest c'"
  using assms by (auto simp: failing_def honest_fail split: option.splits)

lemma honest_read:
  assumes "honest c" "client_readLoop_frame resp snap ackErr f c = (Done c', go)"
  shows "honest c'"
proof -
  consider (response) "failing (client_receiveResponse resp ackErr f c) = (Done c', go)"
    | (stream) "failing (apsnd Done (client_receiveStream f c)) = (Done c', go)"
    | (lifecycle) "failing (apsnd Done (receiveLifecycle snap c)) = (Done c', go)"
    | (fail) e where "client_fail e c = Done c'"
    | (calls) "calls c' = calls c"
    using assms(2) by (auto simp: client_readLoop_frame_def split: if_splits option.splits prod.splits)
  then show ?thesis
  proof cases
    case response
    then obtain err c1 where "client_receiveResponse resp ackErr f c = (err, Done c1)"
      by (cases "client_receiveResponse resp ackErr f c") (auto simp: failing_def split: option.splits step_result.splits)
    then show ?thesis using response honest_response [OF assms(1)] honest_failing by metis
  next
    case stream
    obtain err c1 where c1: "client_receiveStream f c = (err, c1)" by fastforce
    then show ?thesis using stream honest_failing [OF _ honest_stream [OF assms(1) c1]] by simp
  next
    case lifecycle
    have "honest (snd (receiveLifecycle snap c))"
      using assms(1) by (auto simp: receiveLifecycle_def honest_def split: option.splits)
    then show ?thesis using lifecycle honest_failing by (cases "receiveLifecycle snap c") auto
  qed (use assms(1) honest_fail honest_calls in blast)+
qed

lemma honest_step:
  assumes "client_step c r" "r = Some c'" "honest c"
  shows "honest c'"
  using assms
proof (cases rule: client_step.cases)
  case (open_step send oper payload e st d res out)
  then show ?thesis using assms honest_open by (auto simp: returned_def split: step_result.splits)
next
  case (read_step resp snap ackErr f out go)
  then show ?thesis using assms honest_read by (auto simp: returned_def split: step_result.splits)
next
  case (fail_step e)
  then show ?thesis using assms honest_fail by (auto simp: returned_def split: step_result.splits)
next
  case (abort_step cause)
  then show ?thesis using assms honest_fail by (auto simp: returned_def client_abort_def split: step_result.splits)
next
  case (cancel_step i)
  then show ?thesis using assms by (auto simp: call_cancel_def honest_def set_call_def split: option.splits if_splits)
next
  case (send_step i call isEnd res call')
  have "terminal call' = terminal call" using takeSendSequence_keeps [OF send_step(3)] by simp
  then show ?thesis using send_step assms(2,3) honest_set_call by (auto simp: honest_def [of c])
next
  case begin_close_step
  then show ?thesis using assms by (auto simp: begin_close_def honest_def)
next
  case (finish_close_step parentErr)
  have "honest (c\<lparr>goAwayStarted := True\<rparr>)" using assms(3) by (simp add: honest_def)
  then show ?thesis using finish_close_step assms honest_fail
    by (auto simp: returned_def finish_close_def split: step_result.splits option.splits)
next
  case writer_step
  then show ?thesis using assms by (auto simp: closeWriter_def honest_def)
qed


lemma honest_run: "client_run c r \<Longrightarrow> honest c \<Longrightarrow> r = Some c' \<Longrightarrow> honest c'"
  by (induction arbitrary: c' rule: client_run.induct) (auto intro: honest_step)

lemma NewClient_honest: "honest (NewClient_state sess ph)"
  by (simp add: honest_def NewClient_state_def)

text \<open>
  The opening of a unary call with what it puts on the connection: \<open>left\<close> is the arm that left the queue without the write
  loop, the end of the caller's context or of the session.
\<close>

definition open_on_wire :: "Codec \<Rightarrow> write_answer list \<Rightarrow> goerr option \<Rightarrow> goerr option option \<Rightarrow> string \<Rightarrow> bytes \<Rightarrow> i64 \<Rightarrow> Client
    \<Rightarrow> (((Outcome \<times> goerr) + u64) \<times> Client step_result) \<times> bytes" where
  "open_on_wire cdc as ctxErr left oper payload d c =
    (case writeLoop_turn cdc as ctxErr (request_frame (nextID c + 1) oper payload True d) of (st, err, up, w) \<Rightarrow>
     let sel = (case left of None \<Rightarrow> Enqueued (st, err) | Some None \<Rightarrow> SessionDone | Some (Some e) \<Rightarrow> CallerDone e);
         reached = (oper \<noteq> [] \<and> \<not> closing c \<and> client_err c = None \<and> \<not> writerClosed c \<and> \<not> goAwayStarted c \<and> left = None)
     in (open_call (\<lambda>_. sendFrameState sel False c) oper payload True False d c, if reached then w else []))"

lemma open_on_wire_truthful:
  assumes "open_on_wire cdc as ctxErr left oper payload d c = ((Inl (oc, e), out), w)" "Replayable oc"
  shows "w = []"
proof (rule ccontr)
  assume "w \<noteq> []"
  obtain st err up w0 where t: "writeLoop_turn cdc as ctxErr (request_frame (nextID c + 1) oper payload True d) = (st, err, up, w0)"
    by (metis prod_cases4)
  have r: "oper \<noteq> []" "\<not> closing c" "client_err c = None" "left = None" "w = w0" "\<not> writerClosed c" "\<not> goAwayStarted c"
    using assms(1) t \<open>w \<noteq> []\<close> by (auto simp: open_on_wire_def Let_def split: if_splits)
  then have "open_call (\<lambda>_. (st, err)) oper payload True False d c = (Inl (oc, e), out)"
    using assms(1) t by (simp add: open_on_wire_def Let_def sendFrameState_def)
  from open_truthful [OF t this r(1-3)] assms(2) r(5) \<open>w \<noteq> []\<close> show False by simp
qed

lemma open_on_wire_open:
  "open_on_wire cdc as ctxErr left oper payload d c = (r, w) \<Longrightarrow> \<exists>send. open_call send oper payload True False d c = r"
  by (auto simp: open_on_wire_def Let_def split: prod.splits)

lemma Call_undispatched:
  assumes "Call con dl len acquired answer envelope = Inl e" "Undispatched e"
  shows "maxFramedBytes (con_MaxFrame con) < int len \<or> (\<exists>x. acquired = Inl x) \<or> Replayable (res_Outcome (fst answer))"
  using assms
  by (auto simp: Call_def Undispatched_def call_refused_def split: if_splits sum.splits prod.splits option.splits)

text \<open>
  C39: \<open>Undispatched\<close> is a proof. When it holds of the error of a call, then the body was refused as oversize or no session
  was acquired, and nothing was opened; or not one byte of the request reached the connection; or the peer answered that
  request with a rejection. The session is any reachable one, its transport fails anywhere, and the wait ends by any arm.
\<close>

theorem undispatched_proves:
  assumes "client_run (NewClient_state sess ph) (Some c)"
    and "open_on_wire cdc as ctxErr left oper payload d c = ((opened, Done c1), w)" "nextID c < nextID c + 1"
    and "client_run c1 (Some later)" "wire_Call opened later waited = Some answer"
    and "Call con dl len acquired answer envelope = Inl e" "Undispatched e"
  shows "maxFramedBytes (con_MaxFrame con) < int len \<or> (\<exists>x. acquired = Inl x) \<or> w = []
    \<or> (\<exists>i call r err resp. opened = Inr i \<and> calls later i = Some call \<and> terminal call = Some (r, err)
        \<and> res_Response r = Some resp \<and> Rejected resp)"
proof (cases "maxFramedBytes (con_MaxFrame con) < int len \<or> (\<exists>x. acquired = Inl x)")
  case False
  then have rep: "Replayable (res_Outcome (fst answer))" using Call_undispatched [OF assms(6,7)] by blast
  show ?thesis
  proof (cases opened)
    case (Inl x)
    then obtain oc err where "opened = Inl (oc, err)" by (cases x) auto
    then show ?thesis using open_on_wire_truthful [of cdc as ctxErr left oper payload d c oc err] assms(2,5) rep
      by (auto simp: wire_Call_def)
  next
    case (Inr i)
    have "honest c" using honest_run [OF assms(1) NewClient_honest] by simp
    moreover obtain send where "open_call send oper payload True False d c = (opened, Done c1)"
      using open_on_wire_open [OF assms(2)] by blast
    ultimately have "honest c1" using honest_open by blast
    then have h: "honest later" using honest_run [OF assms(4)] by simp
    obtain call where call: "calls later i = Some call" "Response_of call waited = Some answer"
      using assms(5) Inr by (auto simp: wire_Call_def split: option.splits)
    then have "honest_terminal (terminal call)" "terminal call = Some answer"
      using h rep by (auto simp: honest_def Response_of_def Replayable_def split: option.splits)
    then show ?thesis using rep call(1) Inr by (cases answer) (auto simp: honest_terminal_def Replayable_def split: if_splits)
  qed
qed blast

definition busy_response :: Response where
  "busy_response = ok_response\<lparr>Rejected := True, Code := ResponseCodeRuntimeStarting\<rparr>"

definition unary_call :: Client where
  "unary_call = fresh_client\<lparr>nextID := 1, pendingDone := False, pending := [1], calls := [1 \<mapsto> new_call True False]\<rparr>"

definition unary_rejected :: Client where
  "unary_rejected = fresh_client\<lparr>nextID := 1, calls := [1 \<mapsto>
     finished \<lparr> res_Outcome = OutcomeRejected, res_Response = Some busy_response \<rparr> None (new_call True False)]\<rparr>"

lemma unary_open: "open_on_wire NewCodec [(40, False)] None None ''ping'' [] 0 fresh_client = ((Inr 1, Done unary_call), request_packet)"
  by (simp add: open_on_wire_def writeLoop_turn_def writeFrame_def request_packet_eq fresh_client_def NewClient_state_def Let_def
      open_defs sendFrameState_def unary_call_def)
    (simp add: request_packet_def)

lemma unary_run: "client_run unary_call (Some unary_rejected)"
proof -
  have "client_readLoop_frame (Some busy_response) None None response_example unary_call = (Done unary_rejected, True)"
    by (simp add: client_readLoop_frame_def response_example_def client_receiveResponse_def ok_response_def busy_response_def
        pending_call_def unary_call_def fresh_client_def NewClient_state_def removePending_def set_call_def
        unary_rejected_def mark_ended_def settle_call_def on_call_def end_receive_def response_result_def
        finish_call_def finished_def new_call_def stream_close_def failing_def Let_def)
  then show ?thesis using crun_step [OF crun_nil] read_step by (fastforce simp: returned_def)
qed

theorem undispatched_proves_witness:
  "\<exists>e. Call demo_contract True 0 (Inr 7) (\<lparr> res_Outcome = OutcomeRejected, res_Response = Some busy_response \<rparr>, None) None = Inl e
    \<and> Undispatched e \<and> (\<exists>r err resp. terminal (the (calls unary_rejected 1)) = Some (r, err) \<and> res_Response r = Some resp \<and> Rejected resp)"
proof -
  let ?a = "(\<lparr> res_Outcome = OutcomeRejected, res_Response = Some busy_response \<rparr>, None :: goerr option)"
  have w: "wire_Call (Inr 1) unary_rejected None = Some ?a"
    by (simp add: wire_Call_def unary_rejected_def Response_of_def)
  have c: "Call demo_contract True 0 (Inr 7) ?a None = Inl (callError OutcomeRejected (CallRejected ResponseCodeRuntimeStarting [RootNotReady]))"
    by (simp add: Call_def Rejection_def busy_response_def ok_response_def demo_contract_def maxFramedBytes_def DefaultMaxFrame_def
        frameEnvelopeReserve_def Let_def root_of_wire_def errors_Is_def classifyWire_def Is_def)
  have u: "Undispatched (callError OutcomeRejected (CallRejected ResponseCodeRuntimeStarting [RootNotReady]))"
    by (simp add: Undispatched_def Replayable_def)
  have "nextID fresh_client < nextID fresh_client + 1" by (simp add: fresh_client_def NewClient_state_def)
  from undispatched_proves [OF crun_nil [of fresh_client, unfolded fresh_client_def] unary_open [unfolded fresh_client_def] _ unary_run w c u] this c u
  show ?thesis by (auto simp: fresh_client_def request_packet_def demo_contract_def maxFramedBytes_def DefaultMaxFrame_def frameEnvelopeReserve_def Let_def)
qed

subsection \<open>The terminal\<close>

text \<open>A failure of a handler: the product error \<open>errors.As\<close> finds in it, or its text.\<close>

datatype handle_error = Carries ProductError | Plain string

definition productError :: "handle_error \<Rightarrow> ProductError" where
  "productError e = (case e of Carries p \<Rightarrow> p | Plain t \<Rightarrow> \<lparr> pe_Code = [], pe_Message = t \<rparr>)"

definition handleBusiness :: "handle_error + bytes \<Rightarrow> businessEnvelope" where
  "handleBusiness r = (case r of Inl e \<Rightarrow> \<lparr> env_Body = [], env_Error = Some (productError e) \<rparr> | Inr body \<Rightarrow> \<lparr> env_Body = body, env_Error = None \<rparr>)"

lemma Call_terminal:
  assumes "int len \<le> maxFramedBytes (con_MaxFrame con)" "\<not> Rejected resp" "Err resp = None"
  shows "Call con True len (Inr n) (\<lparr> res_Outcome = Delivered, res_Response = Some resp \<rparr>, None) (Some (handleBusiness r))
    = (case r of Inl e \<Rightarrow> Inl (callError Delivered (CallProduct (productError e))) | Inr body \<Rightarrow> Inr body)"
  using assms by (auto simp: Call_def handleBusiness_def Rejection_def Terminal_def split: sum.splits)

text \<open>The base64 of a body that \<open>Call\<close> admits leaves the envelope all but two bytes of its reserve.\<close>

definition base64_length :: "nat \<Rightarrow> nat" where
  "base64_length n = 4 * ((n + 2) div 3)"

definition MaxDetail :: "int \<Rightarrow> int" where
  "MaxDetail maxFrame = maxFramedBytes maxFrame"

lemma framed_fits:
  assumes "0 < m" "int n \<le> maxFramedBytes m" "0 < maxFramedBytes m"
  shows "int (base64_length n) + frameEnvelopeReserve \<le> m + 2"
proof -
  define u where "u = m - frameEnvelopeReserve"
  have u: "0 < u" "int n \<le> u * 3 div 4" using assms by (auto simp: maxFramedBytes_def u_def Let_def split: if_splits)
  have "4 * ((int n + 2) div 3) \<le> u + 2" using u by presburger
  then show ?thesis by (simp add: base64_length_def u_def zdiv_int add.commute)
qed

end
