(* ===== verification/DeployRecord.thy ===== *)
theory DeployRecord
  imports Names Control
begin

text \<open>
  The data of a deployment: \<^verbatim>\<open>deploy/record.go\<close>, \<^verbatim>\<open>deploy/generation.go\<close> and the candidate of \<^verbatim>\<open>deploy/deploy.go\<close>. A generation is what
  an inspection saw of the bytes at a path; the records name generations; the layout derives every path from the path of
  the application. The digests of proofs and bundles are built from length-prefixed fields.
\<close>

subsection \<open>Paths and layout\<close>

text \<open>\<open>filepath.Dir\<close>, \<open>strings.HasSuffix\<close> and \<open>strings.TrimSuffix\<close>.\<close>

definition Dir :: "string \<Rightarrow> string" where
  "Dir p = Clean (rev (dropWhile (\<lambda>c. c \<noteq> CHR ''/'') (rev p)))"

definition HasSuffix :: "string \<Rightarrow> string \<Rightarrow> bool" where
  "HasSuffix s suffix \<longleftrightarrow> length suffix \<le> length s \<and> drop (length s - length suffix) s = suffix"

definition TrimSuffix :: "string \<Rightarrow> string \<Rightarrow> string" where
  "TrimSuffix s suffix = (if HasSuffix s suffix then take (length s - length suffix) s else s)"

definition validAppPath :: "string \<Rightarrow> bool" where
  "validAppPath p \<longleftrightarrow> p \<noteq> [] \<and> IsAbs p \<and> Clean p = p \<and> HasSuffix (Base p) ''.app'' \<and> Base p \<noteq> ''.app''"

record layout =
  la_canonical :: string
  la_metadata :: string
  la_lock :: string
  la_swap :: string
  la_activation :: string
  la_removal :: string
  la_services :: string
  la_candidate :: string
  la_prior :: string
  la_removed :: string

definition metadataDir :: string where "metadataDir = ''.daemonkit-deploy''"

definition layoutFor :: "string \<Rightarrow> layout" where
  "layoutFor app =
    (let name = TrimSuffix (Base app) ''.app''; root = Dir app; metadata = Join [root, metadataDir, name] in
     \<lparr> la_canonical = app, la_metadata = metadata, la_lock = Join [metadata, ''deployment.lock''],
       la_swap = Join [metadata, ''swap.json''], la_activation = Join [metadata, ''activation.json''],
       la_removal = Join [metadata, ''removal.json''], la_services = Join [metadata, ''services.json''],
       la_candidate = Join [root, CHR ''.'' # name @ ''.daemonkit-candidate.app''],
       la_prior = Join [metadata, ''prior.app''], la_removed = Join [metadata, ''removed.app''] \<rparr>)"

text \<open>\<open>generationSlots\<close>: every place a whole generation can be.\<close>

definition generationSlots :: "layout \<Rightarrow> string list \<Rightarrow> string list" where
  "generationSlots l stages = [la_canonical l, la_prior l, la_candidate l, la_removed l] @ stages"

subsection \<open>Digests\<close>

definition hex_char :: "char \<Rightarrow> bool" where
  "hex_char c \<longleftrightarrow> (CHR ''0'' \<le> c \<and> c \<le> CHR ''9'') \<or> (CHR ''a'' \<le> c \<and> c \<le> CHR ''f'') \<or> (CHR ''A'' \<le> c \<and> c \<le> CHR ''F'')"

text \<open>\<open>hex.DecodeString\<close> succeeds on an even number of hexadecimal characters.\<close>

definition hex_decodes :: "string \<Rightarrow> bool" where
  "hex_decodes s \<longleftrightarrow> even (length s) \<and> list_all hex_char s"

definition validCDHash :: "string \<Rightarrow> bool" where
  "validCDHash s \<longleftrightarrow> (length s = 40 \<or> length s = 64) \<and> hex_decodes s"

definition validDigest :: "string \<Rightarrow> bool" where
  "validDigest s \<longleftrightarrow> length s = 64 \<and> hex_decodes s"

definition digest_field :: "bytes \<Rightarrow> bytes" where
  "digest_field value = put_be 8 (length value) @ value"

subsection \<open>Generations\<close>

record Generation =
  ge_Path :: string
  ge_Version :: string
  ge_TeamID :: string
  ge_SigningIdentifier :: string
  ge_DesignatedRequirement :: string
  ge_CDHash :: string
  ge_EntitlementsDigest :: string
  ge_BundleDigest :: string
  ge_FileID :: "string \<times> string"

definition Generation_validate :: "Generation \<Rightarrow> bool" where
  "Generation_validate g \<longleftrightarrow> validAppPath (ge_Path g) \<and> ge_Version g \<noteq> [] \<and> ge_TeamID g \<noteq> [] \<and> ge_SigningIdentifier g \<noteq> []
    \<and> ge_DesignatedRequirement g \<noteq> [] \<and> validCDHash (ge_CDHash g) \<and> validDigest (ge_EntitlementsDigest g)
    \<and> validDigest (ge_BundleDigest g) \<and> ge_FileID g \<noteq> ([], [])"

definition sameBytes :: "Generation \<Rightarrow> Generation \<Rightarrow> bool" where
  "sameBytes g other \<longleftrightarrow> g\<lparr>ge_Path := [], ge_FileID := ([], [])\<rparr> = other\<lparr>ge_Path := [], ge_FileID := ([], [])\<rparr>"

definition sameTree :: "Generation \<Rightarrow> Generation \<Rightarrow> bool" where
  "sameTree g other \<longleftrightarrow> ge_FileID g = ge_FileID other \<and> sameBytes g other"

record Candidate =
  ca_Source :: string
  ca_Version :: string
  ca_Digest :: string

definition zero_digest :: string where "zero_digest = replicate 64 (CHR ''0'')"

definition Candidate_validate :: "Candidate \<Rightarrow> bool" where
  "Candidate_validate c \<longleftrightarrow> validAppPath (ca_Source c) \<and> ca_Version c \<noteq> [] \<and> ca_Digest c \<noteq> zero_digest"

datatype deploy_error = ErrUntrusted | ErrVersion | ErrConfig | ErrConflict | ErrState | ErrNotFresh | ErrRestored | ErrLive
  | ErrPresent | ErrNotOwned | ErrExist | OfRoot root_error | DeployOther

type_synonym derr = "deploy_error list"

definition candidate_matches :: "Candidate \<Rightarrow> Generation \<Rightarrow> derr option" where
  "candidate_matches c g =
    (if ge_Version g \<noteq> ca_Version c then Some [ErrVersion]
     else if ge_BundleDigest g \<noteq> ca_Digest c then Some [ErrConflict] else None)"

subsection \<open>Records\<close>

record storedProof =
  sp_Build :: string
  sp_Generation :: u64
  sp_Digest :: string

record storedRuntime =
  sr_Absent :: bool
  sr_Generation :: u64
  sr_Digest :: string

record swapRecord =
  sw_Identity :: string
  sw_Schema :: int
  sw_Target :: string
  sw_Prior :: "Generation option"
  sw_Candidate :: Generation

record activationRecord =
  ac_Identity :: string
  ac_Schema :: int
  ac_Generation :: Generation
  ac_Readiness :: storedProof

record removalRecord =
  re_Identity :: string
  re_Schema :: int
  re_Generation :: Generation
  re_Runtime :: storedRuntime

definition swapIdentity :: string where "swapIdentity = ''daemonkit.deploy.swap.v1''"

definition activationIdentity :: string where "activationIdentity = ''daemonkit.deploy.activation.v1''"

definition removalIdentity :: string where "removalIdentity = ''daemonkit.deploy.removal.v1''"

definition deployRecordSchema :: int where "deployRecordSchema = 1"

definition swap_validate :: "swapRecord \<Rightarrow> bool" where
  "swap_validate r \<longleftrightarrow> sw_Identity r = swapIdentity \<and> sw_Schema r = deployRecordSchema \<and> sw_Target r = ge_Path (sw_Candidate r)
    \<and> Generation_validate (sw_Candidate r)
    \<and> (case sw_Prior r of None \<Rightarrow> True | Some p \<Rightarrow> ge_Path p = sw_Target r \<and> Generation_validate p)"

definition activation_validate :: "activationRecord \<Rightarrow> bool" where
  "activation_validate r \<longleftrightarrow> ac_Identity r = activationIdentity \<and> ac_Schema r = deployRecordSchema
    \<and> sp_Build (ac_Readiness r) \<noteq> [] \<and> sp_Generation (ac_Readiness r) \<noteq> 0 \<and> validDigest (sp_Digest (ac_Readiness r))
    \<and> Generation_validate (ac_Generation r)"

definition removal_validate :: "removalRecord \<Rightarrow> bool" where
  "removal_validate r \<longleftrightarrow> re_Identity r = removalIdentity \<and> re_Schema r = deployRecordSchema
    \<and> sr_Absent (re_Runtime r) \<and> validDigest (sr_Digest (re_Runtime r)) \<and> Generation_validate (re_Generation r)"

definition services_validate :: "string list \<Rightarrow> bool" where
  "services_validate labels \<longleftrightarrow> labels \<noteq> [] \<and> sorted labels \<and> [] \<notin> set labels \<and> length (remdups_adj labels) = length labels"

subsection \<open>Fields are recovered from their concatenation\<close>

lemma digest_field_nonempty [simp]: "digest_field v \<noteq> []"
proof
  assume "digest_field v = []"
  then have "length (digest_field v) = 0" by simp
  then show False by (simp add: digest_field_def)
qed

lemma digest_fields_inject:
  assumes "\<forall>v\<in>set xs \<union> set ys. length v < 2 ^ 64"
  shows "concat (map digest_field xs) = concat (map digest_field ys) \<longleftrightarrow> xs = ys"
  using assms
proof (induction xs arbitrary: ys)
  case Nil
  then show ?case by (cases ys) auto
next
  case (Cons x xs)
  show ?case
  proof (cases ys)
    case Nil
    then show ?thesis by simp
  next
    case c: (Cons y ys')
    have len: "length x < 256 ^ 8" "length y < 256 ^ 8" using Cons.prems c by auto
    have "x = y \<and> concat (map digest_field xs) = concat (map digest_field ys')"
      if eq: "concat (map digest_field (x # xs)) = concat (map digest_field ys)"
    proof -
      have "put_be 8 (length x) @ x @ concat (map digest_field xs) = put_be 8 (length y) @ y @ concat (map digest_field ys')"
        using eq c by (simp add: digest_field_def)
      then have p: "put_be 8 (length x) = put_be 8 (length y)" "x @ concat (map digest_field xs) = y @ concat (map digest_field ys')"
        using append_eq_append_conv [of "put_be 8 (length x)" "put_be 8 (length y)"] by (metis length_put_be)+
      then have "length x = length y" using get_put_be [OF len(1)] get_put_be [OF len(2)] by metis
      then show ?thesis using p(2) by simp
    qed
    then show ?thesis using Cons c by auto
  qed
qed

subsection \<open>The layout of an application\<close>

lemma elems_rooted: "es \<noteq> [] \<Longrightarrow> list_all component es \<Longrightarrow> elems (rooted_path es) = [] # es"
  using elems_join [of es] by (auto simp: rooted_path_def list_all_iff component_def)

lemma rooted_snoc: "es \<noteq> [] \<Longrightarrow> rooted_path (es @ [e]) = rooted_path es @ CHR ''/'' # e"
  by (simp add: rooted_path_def join_snoc)

lemma rooted_snoc_form: "\<exists>pre. rooted_path (es @ [e]) = pre @ CHR ''/'' # e \<and> (es = [] \<longrightarrow> pre = []) \<and> (es \<noteq> [] \<longrightarrow> pre = rooted_path es)"
  by (cases "es = []") (auto simp: rooted_snoc, simp add: rooted_path_def)

lemma Base_rooted:
  assumes "component e"
  shows "Base (rooted_path (es @ [e])) = e"
proof -
  obtain pre where pre: "rooted_path (es @ [e]) = pre @ CHR ''/'' # e" using rooted_snoc_form by blast
  have e: "e \<noteq> []" "CHR ''/'' \<notin> set e" using assms by (auto simp: component_def)
  then obtain c cs where r: "rev e = c # cs" by (cases "rev e") auto
  then have "c \<noteq> CHR ''/''" using e(2) by (metis list.set_intros(1) set_rev)
  have "takeWhile (\<lambda>c. c \<noteq> CHR ''/'') (rev e @ CHR ''/'' # rev pre) = rev e"
    using e(2) by (auto simp: takeWhile_append)
  then show ?thesis using pre r \<open>c \<noteq> CHR ''/''\<close> by (simp add: Base_def Let_def)
qed

lemma Dir_rooted:
  assumes "component e" "list_all component es"
  shows "Dir (rooted_path (es @ [e])) = rooted_path es"
proof -
  obtain pre where pre: "rooted_path (es @ [e]) = pre @ CHR ''/'' # e" "es = [] \<longrightarrow> pre = []" "es \<noteq> [] \<longrightarrow> pre = rooted_path es"
    using rooted_snoc_form by blast
  have "dropWhile (\<lambda>c. c \<noteq> CHR ''/'') (rev e @ CHR ''/'' # rev pre) = CHR ''/'' # rev pre"
    using assms(1) by (auto simp: dropWhile_append component_def)
  then have "Dir (rooted_path (es @ [e])) = Clean (pre @ ''/'')" by (simp add: Dir_def pre(1))
  also have "\<dots> = rooted_path es"
  proof (cases "es = []")
    case True
    then show ?thesis using pre(2) Clean_rooted_path [of "[]"] by (simp add: rooted_path_def)
  next
    case False
    have ns: "list_all (\<lambda>e. CHR ''/'' \<notin> set e) (es @ [[]])" using assms(2) by (auto simp: list_all_iff component_def)
    have "elems (rooted_path es @ ''/'') = [] # es @ [[]]"
      using elems_join [OF _ ns] rooted_snoc [OF False, of "[]"] by (simp add: rooted_path_def)
    moreover have "foldl (clean_elem True) [] ([] # es @ [[]]) = rev es"
      using clean_components [OF assms(2), of True "[]"] by (simp add: clean_elem_def)
    ultimately show ?thesis using False pre(3) by (simp add: Clean_def rooted_path_def IsAbs_def Let_def)
  qed
  finally show ?thesis .
qed

lemma Join_two:
  assumes "list_all component es" "component a" "component b"
  shows "Join [rooted_path es, a, b] = rooted_path (es @ [a, b])"
proof -
  have ns: "list_all (\<lambda>e. CHR ''/'' \<notin> set e) (es @ [a, b])" using assms by (auto simp: list_all_iff component_def)
  have cl: "foldl (clean_elem True) [] (es @ [a, b]) = rev (es @ [a, b])"
    using clean_components [of "es @ [a, b]" True "[]"] assms by simp
  have ne: "rooted_path es \<noteq> []" "a \<noteq> []" "b \<noteq> []" using assms by (auto simp: rooted_path_def component_def)
  have "elems (rooted_path es @ CHR ''/'' # a @ CHR ''/'' # b) = [] # (if es = [] then [[]] else []) @ es @ [a, b]"
  proof (cases "es = []")
    case True
    then show ?thesis using assms by (simp add: rooted_path_def elems_append elems_noslash component_def)
  next
    case False
    then have "rooted_path es @ CHR ''/'' # a @ CHR ''/'' # b = CHR ''/'' # join (es @ [a, b])"
      using join_snoc [OF False, of a] join_snoc [of "es @ [a]" b] by (simp add: rooted_path_def)
    then show ?thesis using elems_join [OF _ ns] False by simp
  qed
  moreover have "foldl (clean_elem True) [] ([] # (if es = [] then [[]] else []) @ es @ [a, b]) = rev (es @ [a, b])"
  proof -
    have "clean_elem True [] [] = []" by (simp add: clean_elem_def)
    then show ?thesis using cl by (cases "es = []") (simp_all del: foldl_append)
  qed
  moreover have "IsAbs (rooted_path es @ x)" "rooted_path es @ x \<noteq> []" for x by (simp_all add: rooted_path_def IsAbs_def)
  ultimately have "Clean (rooted_path es @ CHR ''/'' # a @ CHR ''/'' # b) = rooted_path (es @ [a, b])"
    unfolding Clean_def Let_def by (simp only: if_True if_False rev_rev_ident) (simp add: rooted_path_def)
  then show ?thesis using ne by (simp add: Join_def Let_def)
qed

lemma validAppPath_form:
  assumes "validAppPath app"
  obtains es name where "list_all component es" "app = rooted_path (es @ [name @ ''.app''])" "name \<noteq> []" "CHR ''/'' \<notin> set name"
    "TrimSuffix (Base app) ''.app'' = name" "Dir app = rooted_path es" "component (name @ ''.app'')"
proof -
  have v: "IsAbs app" "Clean app = app" "HasSuffix (Base app) ''.app''" "Base app \<noteq> ''.app''" using assms by (auto simp: validAppPath_def)
  obtain fs where fs: "list_all component fs" "app = rooted_path fs" using Clean_absolute [OF v(1)] v(2) by metis
  have "fs \<noteq> []"
  proof
    assume "fs = []"
    then have "Base app = ''/''" using fs by (simp add: rooted_path_def Base_def Let_def)
    then show False using v(3) by (simp add: HasSuffix_def)
  qed
  then obtain es e where e: "fs = es @ [e]" by (metis rev_exhaust)
  have c: "component e" "list_all component es" using fs(1) e by auto
  have b: "Base app = e" using Base_rooted [OF c(1)] fs(2) e by simp
  define name where "name = take (length e - 4) e"
  have "drop (length e - 4) e = ''.app''" using v(3) b by (simp add: HasSuffix_def numeral_eq_Suc)
  then have en: "e = name @ ''.app''" using append_take_drop_id [of "length e - 4" e] by (simp add: name_def)
  have "name \<noteq> []" using en v(4) b by auto
  moreover have "TrimSuffix (Base app) ''.app'' = name" using v(3) b name_def by (simp add: TrimSuffix_def numeral_eq_Suc)
  ultimately show ?thesis
    using that [of es name] c en fs(2) e Dir_rooted [OF c] by (auto simp: component_def)
qed

definition layout_paths :: "layout \<Rightarrow> string list" where
  "layout_paths l = [la_canonical l, la_metadata l, la_lock l, la_swap l, la_activation l, la_removal l, la_services l,
     la_candidate l, la_prior l, la_removed l]"

definition app_name :: "string \<Rightarrow> string" where
  "app_name app = TrimSuffix (Base app) ''.app''"

text \<open>The paths of a layout as components below the directory of the application.\<close>

lemma layout_components:
  assumes "validAppPath app" "app_name app \<noteq> ''.''" "app_name app \<noteq> ''..''"
  obtains es where "list_all component es" "Dir app = rooted_path es"
    "layout_paths (layoutFor app) = map (\<lambda>cs. rooted_path (es @ cs)) [[app_name app @ ''.app''], [metadataDir, app_name app],
       [metadataDir, app_name app, ''deployment.lock''], [metadataDir, app_name app, ''swap.json''],
       [metadataDir, app_name app, ''activation.json''], [metadataDir, app_name app, ''removal.json''],
       [metadataDir, app_name app, ''services.json''], [CHR ''.'' # app_name app @ ''.daemonkit-candidate.app''],
       [metadataDir, app_name app, ''prior.app''], [metadataDir, app_name app, ''removed.app'']]"
    "component (app_name app)" "component (app_name app @ ''.app'')" "component (CHR ''.'' # app_name app @ ''.daemonkit-candidate.app'')"
proof -
  obtain es name where f: "list_all component es" "app = rooted_path (es @ [name @ ''.app''])" "name \<noteq> []" "CHR ''/'' \<notin> set name"
      "TrimSuffix (Base app) ''.app'' = name" "Dir app = rooted_path es" "component (name @ ''.app'')"
    using validAppPath_form [OF assms(1)] by blast
  have n: "app_name app = name" using f(5) by (simp add: app_name_def)
  have c: "component name" "component metadataDir" "component (CHR ''.'' # name @ ''.daemonkit-candidate.app'')"
    using f(3,4) assms(2,3) n by (auto simp: component_def metadataDir_def)
  have md: "Join [rooted_path es, metadataDir, name] = rooted_path (es @ [metadataDir, name])" using Join_two [OF f(1) c(2,1)] .
  have all: "list_all component (es @ [metadataDir, name])" using f(1) c by simp
  have leaf: "Join [rooted_path (es @ [metadataDir, name]), x] = rooted_path (es @ [metadataDir, name, x])" if "component x" for x
    using Join_component [OF all that] by simp
  have cs: "component ''deployment.lock''" "component ''swap.json''" "component ''activation.json''" "component ''removal.json''"
      "component ''services.json''" "component ''prior.app''" "component ''removed.app''"
    by (simp_all add: component_def)
  have "layout_paths (layoutFor app) = map (\<lambda>cs. rooted_path (es @ cs)) [[name @ ''.app''], [metadataDir, name],
       [metadataDir, name, ''deployment.lock''], [metadataDir, name, ''swap.json''],
       [metadataDir, name, ''activation.json''], [metadataDir, name, ''removal.json''],
       [metadataDir, name, ''services.json''], [CHR ''.'' # name @ ''.daemonkit-candidate.app''],
       [metadataDir, name, ''prior.app''], [metadataDir, name, ''removed.app'']]"
    by (simp add: layoutFor_def layout_paths_def Let_def f(5,6) md leaf [OF cs(1)] leaf [OF cs(2)] leaf [OF cs(3)] leaf [OF cs(4)]
        leaf [OF cs(5)] leaf [OF cs(6)] leaf [OF cs(7)] Join_component [OF f(1) c(3)]) (rule f(2))
  then show ?thesis using that [OF f(1) f(6)] n c f(7) by simp
qed

text \<open>
  The paths of a deployment are ten different paths. For every application path that is accepted and whose name is
  neither a dot nor two dots, the canonical path, the slots, the records and the lock are pairwise different, and each is
  in the directory of the application or below the metadata directory of that name in it. A swap, a removal or a record
  write can therefore not hit another of the paths.
\<close>

lemma layout_shape:
  assumes "validAppPath app" "app_name app \<noteq> ''.''" "app_name app \<noteq> ''..''"
  shows "distinct (layout_paths (layoutFor app))
    \<and> (\<forall>p\<in>set (layout_paths (layoutFor app)). \<exists>es cs. Dir app = rooted_path es \<and> p = rooted_path (es @ cs) \<and> Clean p = p
        \<and> (length cs = 1 \<or> take 2 cs = [metadataDir, app_name app]))"
proof -
  obtain es where e: "list_all component es" "Dir app = rooted_path es"
    "layout_paths (layoutFor app) = map (\<lambda>cs. rooted_path (es @ cs)) [[app_name app @ ''.app''], [metadataDir, app_name app],
       [metadataDir, app_name app, ''deployment.lock''], [metadataDir, app_name app, ''swap.json''],
       [metadataDir, app_name app, ''activation.json''], [metadataDir, app_name app, ''removal.json''],
       [metadataDir, app_name app, ''services.json''], [CHR ''.'' # app_name app @ ''.daemonkit-candidate.app''],
       [metadataDir, app_name app, ''prior.app''], [metadataDir, app_name app, ''removed.app'']]" (is "_ = map _ ?css")
    and c: "component (app_name app)" "component (app_name app @ ''.app'')" "component (CHR ''.'' # app_name app @ ''.daemonkit-candidate.app'')"
    using layout_components [OF assms] by blast
  have md: "component metadataDir" by (simp add: component_def metadataDir_def)
  have comps: "list_all component (es @ cs)" if "cs \<in> set ?css" for cs
    using that e(1) c md by (auto simp: component_def)
  have "distinct ?css" by (auto dest: arg_cong [where f = length])
  moreover have "inj_on (\<lambda>cs. rooted_path (es @ cs)) (set ?css)"
  proof (rule inj_onI)
    fix x y
    assume "x \<in> set ?css" "y \<in> set ?css" "rooted_path (es @ x) = rooted_path (es @ y)"
    from rooted_path_inj [OF comps comps, OF this] show "x = y" by simp
  qed
  ultimately have "distinct (layout_paths (layoutFor app))" unfolding e(3) by (simp only: distinct_map)
  moreover have shape: "length cs = 1 \<or> take 2 cs = [metadataDir, app_name app]" if "cs \<in> set ?css" for cs
    using that by (auto simp: numeral_eq_Suc)
  moreover have "\<exists>cs\<in>set ?css. p = rooted_path (es @ cs)" if "p \<in> set (layout_paths (layoutFor app))" for p
    using that unfolding e(3) set_map by (rule imageE) (rule bexI)
  ultimately show ?thesis using e(2) comps Clean_rooted_path by metis
qed

text \<open>For the name of two dots the metadata directory is the install directory itself.\<close>

lemma layout_dots: "validAppPath ''/A/...app'' \<and> la_metadata (layoutFor ''/A/...app'') = ''/A'' \<and> la_lock (layoutFor ''/A/...app'') = ''/A/deployment.lock''"
  by code_simp

end
