(* ===== verification/Quiesce.thy ===== *)
theory Quiesce
  imports DeployRecord Version "HOL-Library.Signed_Division"
begin

unbundle bit_operations_syntax

text \<open>
  The quiesce ladder and the inventory gate of a deployment: \<^verbatim>\<open>deploy/quiesce.go\<close> and \<^verbatim>\<open>deploy/inventory.go\<close>, over the boundary of
  \<open>Control\<close>: the daemon is drained, settled or terminated by the client's own verbs, what still runs from the bundle is
  terminated by the reap ladder, and the gate is the executable inventory over every program of the deployment. What a
  generation slot carries is an answer of the file system at that instant.
\<close>

subsection \<open>What a slot carries (inventory.go)\<close>

text \<open>
  A file as the walk sees it: its path below the slot, whether it is regular, its permission bits, and the first bytes a read
  of it returns, \<open>None\<close> when it cannot be opened, read or closed. A slot is missing, unreadable, a plain file, or a tree,
  \<open>None\<close> when the walk fails.
\<close>

record file_view =
  fv_path :: string
  fv_regular :: bool
  fv_perm :: u32
  fv_head :: "bytes option"

datatype slot_view = SlotMissing | SlotFailed | SlotFile file_view | SlotTree "file_view list option"

definition machOMagics :: "nat list" where
  "machOMagics = [0xfeedface, 0xfeedfacf, 0xcafebabe, 0xcafebabf]"

definition isMachO :: "bytes option \<Rightarrow> bool option" where
  "isMachO head =
    (case head of
       None \<Rightarrow> None
     | Some bs \<Rightarrow>
         if length bs < 4 then Some False
         else (let header = take 4 bs in Some (get_be (rev header) \<in> set machOMagics \<or> get_be header \<in> set machOMagics)))"

definition execs :: "file_view \<Rightarrow> bool option" where
  "execs f = (if \<not> fv_regular f \<or> fv_perm f AND 0x49 = 0 then Some False else isMachO (fv_head f))"

definition slotFileExecutable :: "string \<Rightarrow> file_view \<Rightarrow> string list option" where
  "slotFileExecutable slot f = map_option (\<lambda>x. if x then [slot] else []) (execs f)"

primrec walk_executables :: "string \<Rightarrow> file_view list \<Rightarrow> string list option" where
  "walk_executables slot [] = Some []"
| "walk_executables slot (f # fs) =
    (case execs f of
       None \<Rightarrow> None
     | Some x \<Rightarrow> map_option (\<lambda>ps. (if x then [Join [slot, fv_path f]] else []) @ ps) (walk_executables slot fs))"

definition bundleExecutables :: "string \<Rightarrow> slot_view \<Rightarrow> string list option" where
  "bundleExecutables slot v =
    (case v of
       SlotMissing \<Rightarrow> Some []
     | SlotFailed \<Rightarrow> None
     | SlotFile f \<Rightarrow> slotFileExecutable slot f
     | SlotTree None \<Rightarrow> None
     | SlotTree (Some fs) \<Rightarrow> walk_executables slot fs)"

definition resolveExecutables :: "(string \<Rightarrow> string option) \<Rightarrow> string list \<Rightarrow> derr + string list" where
  "resolveExecutables evalSymlinks declared =
    (if list_all (\<lambda>p. IsAbs p \<and> Clean p = p \<and> evalSymlinks p \<noteq> None) declared then Inr (map (the \<circ> evalSymlinks) declared)
     else Inl [ErrConfig])"

subsection \<open>The deployment\<close>

record deployment =
  dp_boundary :: boundary
  dp_layout :: layout
  dp_agents :: "(string \<times> string) list"
  dp_hosts :: "string list"
  dp_grace :: int
  dp_stages :: "nat \<Rightarrow> string list option"
  dp_slot :: "nat \<Rightarrow> string \<Rightarrow> slot_view"
  dp_detail :: "nat \<Rightarrow> bytes"
  dp_sha :: "bytes \<Rightarrow> string"

definition lift_root :: "rerr \<Rightarrow> derr" where
  "lift_root e = map OfRoot e"

definition escalationReserve :: int where "escalationReserve = 2"

definition drainMargin :: int where "drainMargin = 4"

definition readinessReserve :: int where "readinessReserve = 4"

subsection \<open>Health without a pin (control.go, business.go)\<close>

primrec ask_health :: "nat \<Rightarrow> boundary \<Rightarrow> nat \<Rightarrow> (rerr + Health) \<times> nat" where
  "ask_health 0 b t =
    (case bd_acquire b t of
       Inl e \<Rightarrow> (Inl e, t + 1)
     | Inr peer \<Rightarrow> (case bd_health b (t + 1) of Inr report \<Rightarrow> (Inr report, t + 2) | Inl e \<Rightarrow> (Inl (classifyWire e), t + 3)))"
| "ask_health (Suc n) b t =
    (case bd_acquire b t of
       Inl e \<Rightarrow> (Inl e, t + 1)
     | Inr peer \<Rightarrow>
         (case bd_health b (t + 1) of
            Inr report \<Rightarrow> (Inr report, t + 2)
          | Inl e \<Rightarrow> if \<not> bd_failed b (t + 2) then (Inl (classifyWire e), t + 3) else ask_health n b (t + 3)))"

definition client_Health :: "boundary \<Rightarrow> nat \<Rightarrow> (rerr + Health) \<times> nat" where
  "client_Health b t = (case ask_health 1 b t of (r, t1) \<Rightarrow> (map_sum id healthFromReport r, t1))"

subsection \<open>Stopping the daemon\<close>

definition no_expect :: Expect where "no_expect = \<lparr> ex_Build = [], ex_Generation = 0 \<rparr>"

definition zero_health :: Health where
  "zero_health = \<lparr> he_Phase = PhaseOther [], he_Protocol = 0, he_Generation = 0, he_PID = 0, he_Build = [] \<rparr>"

definition recorded :: "(Expect \<Rightarrow> nat \<Rightarrow> (Health \<times> Reap) outcome) \<Rightarrow> boundary \<Rightarrow> nat
    \<Rightarrow> (Expect \<times> (rerr + Health \<times> Reap) \<times> effect list \<times> nat) option" where
  "recorded act b t =
    (case bd_owner b t of
       Inl e \<Rightarrow> Some (no_expect, Inl e, [], t + 1)
     | Inr None \<Rightarrow> Some (no_expect, Inr (zero_health, ReapAbsent), [], t + 1)
     | Inr (Some own) \<Rightarrow>
         (let x = \<lparr> ex_Build = own_Build own, ex_Generation = own_Generation own \<rparr> in
          map_option (\<lambda>r. (x, r)) (act x (t + 1))))"

definition drain :: "bool \<Rightarrow> boundary \<Rightarrow> nat \<Rightarrow> (Expect \<times> (rerr + Health \<times> Reap) \<times> effect list \<times> nat) option" where
  "drain pidfd b t =
    (case client_Health b t of
       (Inl e, t1) \<Rightarrow>
         if Is e RootDraining \<or> Is e ErrAbsent then recorded (Settle b) b t1
         else if Is e ErrProtocolMismatch then recorded (Terminate pidfd b) b t1
         else Some (no_expect, Inl e, [], t1)
     | (Inr h, t1) \<Rightarrow>
         (let x = \<lparr> ex_Build = he_Build h, ex_Generation = he_Generation h \<rparr> in
          map_option (\<lambda>r. (x, r)) (Drain b x t1)))"

definition timedOut :: "rerr \<Rightarrow> bool" where
  "timedOut e \<longleftrightarrow> Is e RootDeadline"

definition drain_ctx :: "deployment \<Rightarrow> nat \<Rightarrow> world" where
  "drain_ctx d t =
    (let w = bd_world (dp_boundary d); grace = dp_grace d in
     derive (w_now w t + min (ctx_left w t sdiv escalationReserve) (grace + grace sdiv drainMargin)) w)"

definition deploy_stop :: "bool \<Rightarrow> deployment \<Rightarrow> nat \<Rightarrow> (Health \<times> Reap) outcome" where
  "deploy_stop pidfd d t =
    (let b = dp_boundary d in
     case drain pidfd (with_ctx (drain_ctx d t) b) (t + 1) of
       None \<Rightarrow> None
     | Some (x, Inr y, es, t1) \<Rightarrow> Some (Inr y, es, t1)
     | Some (x, Inl e, es, t1) \<Rightarrow>
         if Is e RootUnsettled \<or> timedOut e
         then map_option (\<lambda>(r, es', t2). (r, es @ es', t2)) (Terminate pidfd b x t1)
         else Some (Inl e, es, t1))"

definition absenceProof :: "Reap \<Rightarrow> bool" where
  "absenceProof reap \<longleftrightarrow> reap = ReapAbsent \<or> reap = ReapCrossBoot \<or> reap = ReapReused \<or> reap = ReapTerminated"

subsection \<open>The inventory (inventory.go)\<close>

type_synonym LiveProcess = "identity \<times> string"

record Survivors =
  su_Live :: "LiveProcess list"
  su_Unnameable :: "LiveProcess list"

primrec inventory_scan :: "boundary \<Rightarrow> string list \<Rightarrow> nat \<Rightarrow> Survivors option \<times> nat" where
  "inventory_scan b [] t = (Some \<lparr> su_Live = [], su_Unnameable = [] \<rparr>, t)"
| "inventory_scan b (path # paths) t =
    (case ExecutableIdentities b path t of
       (None, t1) \<Rightarrow> (None, t1)
     | (Some r, t1) \<Rightarrow>
         (case inventory_scan b paths t1 of
            (None, t2) \<Rightarrow> (None, t2)
          | (Some found, t2) \<Rightarrow>
              (Some \<lparr> su_Live = rp_Matched r @ su_Live found,
                 su_Unnameable = map (\<lambda>i. (i, [])) (rp_Unnameable r) @ su_Unnameable found \<rparr>, t2)))"

definition Inventory :: "boundary \<Rightarrow> string list \<Rightarrow> nat \<Rightarrow> Survivors option \<times> nat" where
  "Inventory b paths t =
    (case inventory_scan b paths t of (r, t1) \<Rightarrow>
     (map_option (\<lambda>found. \<lparr> su_Live = remdups_adj (sort_key (id_pid \<circ> fst) (su_Live found)),
        su_Unnameable = remdups_adj (sort_key (id_pid \<circ> fst) (su_Unnameable found)) \<rparr>) r, t1))"

definition attributed :: "Survivors \<Rightarrow> identity list \<Rightarrow> LiveProcess list" where
  "attributed s known = filter (\<lambda>p. list_ex (\<lambda>i. matches (fst p) i) known) (su_Unnameable s)"

primrec carried_all :: "deployment \<Rightarrow> string list \<Rightarrow> nat \<Rightarrow> string list option \<times> nat" where
  "carried_all d [] t = (Some [], t)"
| "carried_all d (slot # slots) t =
    (case bundleExecutables slot (dp_slot d t slot) of
       None \<Rightarrow> (None, t + 1)
     | Some ps \<Rightarrow> (case carried_all d slots (t + 1) of (r, t1) \<Rightarrow> (map_option (\<lambda>qs. ps @ qs) r, t1)))"

definition ownedExecutables :: "deployment \<Rightarrow> nat \<Rightarrow> string list option \<times> nat" where
  "ownedExecutables d t =
    (case dp_stages d t of
       None \<Rightarrow> (None, t + 1)
     | Some stages \<Rightarrow>
         (case carried_all d (generationSlots (dp_layout d) stages) (t + 1) of (r, t1) \<Rightarrow>
          (map_option (\<lambda>ps. remdups_adj (sort ps)) r, t1)))"

definition executables :: "deployment \<Rightarrow> nat \<Rightarrow> string list option \<times> nat" where
  "executables d t =
    (case ownedExecutables d t of (r, t1) \<Rightarrow>
     (map_option (\<lambda>owned. remdups_adj (sort (map snd (dp_agents d) @ dp_hosts d @ owned))) r, t1))"

definition recordedIdentities :: "deployment \<Rightarrow> nat \<Rightarrow> identity list option \<times> nat" where
  "recordedIdentities d t =
    (case bd_owner (dp_boundary d) t of
       Inl e \<Rightarrow> (None, t + 1)
     | Inr None \<Rightarrow> (Some [], t + 1)
     | Inr (Some own) \<Rightarrow> (Some [owner_identity own], t + 1))"

definition survivors :: "deployment \<Rightarrow> string list \<Rightarrow> nat \<Rightarrow> LiveProcess list option \<times> nat" where
  "survivors d paths t =
    (case Inventory (dp_boundary d) paths t of
       (None, t1) \<Rightarrow> (None, t1)
     | (Some found, t1) \<Rightarrow>
         (case recordedIdentities d t1 of
            (None, t2) \<Rightarrow> (None, t2)
          | (Some known, t2) \<Rightarrow> (Some (su_Live found @ attributed found known), t2)))"

definition requireEmpty :: "deployment \<Rightarrow> nat \<Rightarrow> derr option \<times> nat" where
  "requireEmpty d t =
    (case executables d t of
       (None, t1) \<Rightarrow> (Some [DeployOther], t1)
     | (Some paths, t1) \<Rightarrow>
         (case survivors d paths t1 of
            (None, t2) \<Rightarrow> (Some [DeployOther], t2)
          | (Some remaining, t2) \<Rightarrow> (if remaining = [] then None else Some [ErrLive], t2)))"

subsection \<open>Quiesce\<close>

text \<open>Every survivor gets an equal share of what is left.\<close>

fun terminate_each :: "bool \<Rightarrow> boundary \<Rightarrow> LiveProcess list \<Rightarrow> nat \<Rightarrow> (derr option \<times> effect list \<times> nat) option" where
  "terminate_each pidfd b [] t = Some (None, [], t)"
| "terminate_each pidfd b ((i, exe) # rest) t =
    (let w = bd_world b; share = ctx_left w t sdiv int (length ((i, exe) # rest)) in
     case reapIdentity pidfd (derive (w_now w t + share) w) i 0 (t + 1) of
       None \<Rightarrow> None
     | Some (Inl e, es, t1) \<Rightarrow> Some (Some (lift_root (reap_rerr e)), map Sent es, t1)
     | Some (Inr reap, es, t1) \<Rightarrow>
         map_option (\<lambda>(r, es', t2). (r, map Sent es @ es', t2)) (terminate_each pidfd b rest t1))"

definition terminateSurvivors :: "bool \<Rightarrow> deployment \<Rightarrow> nat \<Rightarrow> (derr option \<times> effect list \<times> nat) option" where
  "terminateSurvivors pidfd d t =
    (case ownedExecutables d t of
       (None, t1) \<Rightarrow> Some (Some [DeployOther], [], t1)
     | (Some owned, t1) \<Rightarrow>
         (case survivors d owned t1 of
            (None, t2) \<Rightarrow> Some (Some [DeployOther], [], t2)
          | (Some ss, t2) \<Rightarrow> terminate_each pidfd (dp_boundary d) ss t2))"

record RuntimeProof =
  rp_absent :: bool
  rp_generation :: u64
  rp_digest :: string

text \<open>\<open>strconv.Itoa\<close> and \<open>FormatUint\<close>: decimal text.\<close>

definition dec_field :: "int \<Rightarrow> bytes" where
  "dec_field n = digest_field (bytes_of_string (show_int n))"

fun reap_code :: "Reap \<Rightarrow> int" where
  "reap_code reapUndetermined = 0"
| "reap_code ReapAbsent = 1"
| "reap_code ReapCrossBoot = 2"
| "reap_code ReapReused = 3"
| "reap_code ReapTerminated = 4"

definition runtime_fields :: "Health \<Rightarrow> Reap \<Rightarrow> bytes" where
  "runtime_fields before reap = concat [digest_field (bytes_of_string ''daemonkit.deploy.runtime.v1''), dec_field (he_PID before),
     digest_field (bytes_of_string (he_Build before)), dec_field (uint (he_Generation before)), dec_field (reap_code reap)]"

definition runtimeProof :: "deployment \<Rightarrow> Health \<times> Reap \<Rightarrow> RuntimeProof" where
  "runtimeProof d stopped = \<lparr> rp_absent = True, rp_generation = he_Generation (fst stopped),
     rp_digest = dp_sha d (runtime_fields (fst stopped) (snd stopped)) \<rparr>"

definition deploy_Quiesce :: "bool \<Rightarrow> deployment \<Rightarrow> nat \<Rightarrow> ((derr + RuntimeProof) \<times> effect list \<times> nat) option" where
  "deploy_Quiesce pidfd d t =
    (case deploy_stop pidfd d t of
       None \<Rightarrow> None
     | Some (Inl e, es, t1) \<Rightarrow> Some (Inl (lift_root e), es, t1)
     | Some (Inr stopped, es, t1) \<Rightarrow>
         if \<not> absenceProof (snd stopped) then Some (Inl [ErrConflict], es, t1)
         else (case terminateSurvivors pidfd d t1 of
             None \<Rightarrow> None
           | Some (Some e, es', t2) \<Rightarrow> Some (Inl e, es @ es', t2)
           | Some (None, es', t2) \<Rightarrow>
               (case requireEmpty d t2 of
                  (Some e, t3) \<Rightarrow> Some (Inl e, es @ es', t3)
                | (None, t3) \<Rightarrow> Some (Inr (runtimeProof d stopped), es @ es', t3))))"

subsection \<open>Readiness\<close>

definition unanswered :: "rerr \<Rightarrow> bool" where
  "unanswered e \<longleftrightarrow> Is e ErrAbsent \<or> Is e RootDraining \<or> timedOut e"

text \<open>
  \<open>awaitReady\<close>: the wait has the deadline less the grace, the attach that classifies it a clock of its own, which only the
  caller's cancellation cuts short: \<open>canceled\<close> is whether that is why the context ended.
\<close>

definition attach_ctx :: "(nat \<Rightarrow> bool) \<Rightarrow> int \<Rightarrow> world \<Rightarrow> nat \<Rightarrow> world" where
  "attach_ctx canceled grace w t = w\<lparr>w_deadline := w_now w t + grace, w_ended := (\<lambda>u. w_now w t + grace \<le> w_now w u \<or> canceled u)\<rparr>"

definition awaitReady :: "(nat \<Rightarrow> bool) \<Rightarrow> boundary \<Rightarrow> nat \<Rightarrow> ((derr + Health) \<times> nat) option" where
  "awaitReady canceled b t =
    (let w = bd_world b; grace = ctx_left w t sdiv readinessReserve in
     case WaitReady (with_ctx (derive (w_deadline w - grace) w) b) (t + 1) of
       None \<Rightarrow> None
     | Some (Inr h, t1) \<Rightarrow> Some (Inr h, t1)
     | Some (Inl e, t1) \<Rightarrow>
         if \<not> unanswered e then Some (Inl (lift_root e), t1)
         else (case client_Health (with_ctx (attach_ctx canceled grace w t1) b) t1 of
             (Inr h, t2) \<Rightarrow> Some (Inl [ErrConflict], t2)
           | (Inl e', t2) \<Rightarrow>
               Some (Inl (if canceled t2 then lift_root e' @ [OfRoot RootCanceled]
                 else if timedOut e' then OfRoot ErrAbsent # lift_root e' else lift_root e'), t2 + 1)))"

record ReadinessProof =
  ry_build :: string
  ry_generation :: u64
  ry_digest :: string

definition readiness_fields :: "Health \<Rightarrow> bytes \<Rightarrow> bytes" where
  "readiness_fields h detail = concat [digest_field (bytes_of_string ''daemonkit.deploy.readiness.v1''), dec_field (he_PID h),
     dec_field (uint (he_Protocol h)), digest_field (bytes_of_string (he_Build h)), dec_field (uint (he_Generation h)),
     digest_field detail]"

definition deploy_prove :: "(nat \<Rightarrow> bool) \<Rightarrow> deployment \<Rightarrow> nat \<Rightarrow> ((derr + ReadinessProof) \<times> nat) option" where
  "deploy_prove canceled d t =
    (case awaitReady canceled (dp_boundary d) t of
       None \<Rightarrow> None
     | Some (Inl e, t1) \<Rightarrow> Some (Inl e, t1)
     | Some (Inr h, t1) \<Rightarrow>
         if he_Phase h \<noteq> PhaseReady then Some (Inl [ErrConflict], t1)
         else if he_Build h = [] \<or> he_Generation h = 0 then Some (Inl [ErrConflict], t1)
         else Some (Inr \<lparr> ry_build = he_Build h, ry_generation = he_Generation h,
             ry_digest = dp_sha d (readiness_fields h (dp_detail d t1)) \<rparr>, t1))"

definition stored_readiness :: "ReadinessProof \<Rightarrow> storedProof" where
  "stored_readiness p = \<lparr> sp_Build = ry_build p, sp_Generation = ry_generation p, sp_Digest = ry_digest p \<rparr>"

definition stored_runtime :: "RuntimeProof \<Rightarrow> storedRuntime" where
  "stored_runtime p = \<lparr> sr_Absent = rp_absent p, sr_Generation = rp_generation p, sr_Digest = rp_digest p \<rparr>"

subsection \<open>What an inventory proves\<close>

text \<open>A process is on every list of processes taken during an interval.\<close>

definition listed :: "boundary \<Rightarrow> identity \<Rightarrow> nat \<Rightarrow> nat \<Rightarrow> bool" where
  "listed b i t t' \<longleftrightarrow> (\<forall>u pids. t \<le> u \<and> u < t' \<and> bd_pids b u = Some pids \<longrightarrow> id_pid i \<in> set pids)"

lemma listed_mono: "listed b i t t' \<Longrightarrow> t \<le> s \<Longrightarrow> s' \<le> t' \<Longrightarrow> listed b i s s'"
  unfolding listed_def by (meson le_trans less_le_trans)

lemma inventory_scan_time: "inventory_scan b paths t = (r, t') \<Longrightarrow> t \<le> t'"
proof (induction paths arbitrary: t r t')
  case (Cons path paths)
  obtain f t1 where f: "ExecutableIdentities b path t = (f, t1)" by fastforce
  obtain g t2 where g: "inventory_scan b paths t1 = (g, t2)" by fastforce
  have "t < t1" "t1 \<le> t2" using ExecutableIdentities_time [OF f] Cons(1) [OF g] by auto
  then show ?case using Cons(2) f g by (auto split: option.splits)
qed simp

lemma inventory_scan_complete:
  assumes "inventory_scan b paths t = (Some found, t')" "listed b i t t'"
  shows "(\<forall>p\<in>set paths. steady b i (Inr p) t t' \<longrightarrow> (i, p) \<in> set (su_Live found))
    \<and> (paths \<noteq> [] \<and> steady b i (Inl errUnresolvedExecutable) t t' \<longrightarrow> (i, []) \<in> set (su_Unnameable found))"
  using assms
proof (induction paths arbitrary: t found)
  case (Cons path paths)
  obtain r t1 g where s: "ExecutableIdentities b path t = (Some r, t1)" "inventory_scan b paths t1 = (Some g, t')"
      "found = \<lparr> su_Live = rp_Matched r @ su_Live g, su_Unnameable = map (\<lambda>i. (i, [])) (rp_Unnameable r) @ su_Unnameable g \<rparr>"
    using Cons(2) by (auto split: option.splits prod.splits)
  have t: "t < t1" "t1 \<le> t'" using ExecutableIdentities_time [OF s(1)] inventory_scan_time [OF s(2)] by auto
  obtain q pids r' where q: "executableMatcher path (bd_resolved b t) = Some q" "bd_pids b (t + 1) = Some pids"
      "scan_pids b q pids (t + 2) = (Some r', t1)" "set (rp_Matched r) = set (rp_Matched r')" "set (rp_Unnameable r) = set (rp_Unnameable r')"
    using ExecutableIdentities_scan [OF s(1)] by metis
  have t2: "t + 2 \<le> t1" using scan_pids_time [OF q(3)] .
  have on: "id_pid i \<in> set pids" using Cons(3) q(2) t t2 unfolding listed_def by (metis Suc_1 Suc_eq_plus1 add_Suc_right le_add1 less_le_trans lessI)
  have st: "steady b i ex (t + 2) t1" if "steady b i ex t t'" for ex using steady_mono [OF that] t by simp
  note c = scan_pids_complete [OF q(3) on]
  have q': "q path" using executableMatcher_form [OF q(1)] by simp
  have ih: "(\<forall>p\<in>set paths. steady b i (Inr p) t1 t' \<longrightarrow> (i, p) \<in> set (su_Live g))"
    using Cons.IH [OF s(2) listed_mono [OF Cons(3)]] t by simp
  show ?case using c [OF st] q' ih s(3) q(4,5) steady_mono [of b i _ t t' t1 t'] t by auto
qed simp

lemma Inventory_complete:
  assumes "Inventory b paths t = (Some found, t')" "listed b i t t'"
  shows "(\<forall>p\<in>set paths. steady b i (Inr p) t t' \<longrightarrow> (i, p) \<in> set (su_Live found))
    \<and> (paths \<noteq> [] \<and> steady b i (Inl errUnresolvedExecutable) t t' \<longrightarrow> (i, []) \<in> set (su_Unnameable found))"
proof -
  obtain g where g: "inventory_scan b paths t = (Some g, t')" "set (su_Live found) = set (su_Live g)"
      "set (su_Unnameable found) = set (su_Unnameable g)"
    using assms(1) by (auto simp: Inventory_def split: prod.splits)
  then show ?thesis using inventory_scan_complete [OF g(1) assms(2)] by simp
qed

lemma carried_all_time: "carried_all d slots t = (r, t') \<Longrightarrow> t \<le> t'"
proof (induction slots arbitrary: t r t')
  case (Cons slot slots)
  obtain q u where q: "carried_all d slots (t + 1) = (q, u)" by fastforce
  show ?case using Cons(2) Cons.IH [OF q] q by (cases "bundleExecutables slot (dp_slot d t slot)") auto
qed simp

lemma carried_all_spec:
  assumes "carried_all d slots t = (Some ps, t')"
  shows "t \<le> t' \<and> (\<forall>slot\<in>set slots. \<exists>v qs. t \<le> v \<and> v < t' \<and> bundleExecutables slot (dp_slot d v slot) = Some qs \<and> set qs \<subseteq> set ps)"
  using assms
proof (induction slots arbitrary: t ps)
  case (Cons slot slots)
  obtain qs rs where s: "bundleExecutables slot (dp_slot d t slot) = Some qs" "carried_all d slots (t + 1) = (Some rs, t')" "ps = qs @ rs"
    using Cons(2) by (auto split: option.splits prod.splits)
  note ih = Cons.IH [OF s(2)]
  have "\<exists>v qs. t \<le> v \<and> v < t' \<and> bundleExecutables x (dp_slot d v x) = Some qs \<and> set qs \<subseteq> set ps" if x: "x \<in> set (slot # slots)" for x
  proof (cases "x = slot")
    case True
    have "t < t'" using conjunct1 [OF ih] by simp
    then show ?thesis using s(1,3) True by (intro exI [of _ t] exI [of _ qs] conjI) simp_all
  next
    case False
    then have xs: "x \<in> set slots" using x by simp
    obtain v rs' where "t + 1 \<le> v" "v < t'" "bundleExecutables x (dp_slot d v x) = Some rs'" "set rs' \<subseteq> set rs"
      using bspec [OF conjunct2 [OF ih] xs] by (elim exE conjE)
    then show ?thesis using s(3) by (intro exI [of _ v] exI [of _ rs'] conjI) auto
  qed
  then show ?case using conjunct1 [OF ih] by simp
qed simp

subsection \<open>What the gate proves\<close>

text \<open>
  Between two instants the gate found the deployment empty: it read what every generation slot carries, and no process that
  is on every process list and runs one of these programs, an agent's or a declared host's throughout remains, nor one that
  nothing can name and that is the recorded owner.
\<close>

definition gate_empty :: "deployment \<Rightarrow> nat \<Rightarrow> nat \<Rightarrow> bool" where
  "gate_empty d t t' \<longleftrightarrow> (\<exists>paths u stages. t < u \<and> u < t' \<and> snd ` set (dp_agents d) \<union> set (dp_hosts d) \<subseteq> set paths
    \<and> dp_stages d t = Some stages
    \<and> (\<forall>slot\<in>set (generationSlots (dp_layout d) stages). \<exists>v qs. t \<le> v \<and> v < u
        \<and> bundleExecutables slot (dp_slot d v slot) = Some qs \<and> set qs \<subseteq> set paths)
    \<and> (\<forall>i. listed (dp_boundary d) i u t' \<longrightarrow> (\<forall>p\<in>set paths. \<not> steady (dp_boundary d) i (Inr p) u t')
        \<and> (\<forall>own. paths \<noteq> [] \<and> bd_owner (dp_boundary d) (t' - 1) = Inr (Some own) \<and> matches i (owner_identity own)
             \<longrightarrow> \<not> steady (dp_boundary d) i (Inl errUnresolvedExecutable) u t')))"

lemma executables_spec:
  assumes "executables d t = (Some paths, u)"
  shows "t < u \<and> snd ` set (dp_agents d) \<union> set (dp_hosts d) \<subseteq> set paths \<and> (\<exists>stages. dp_stages d t = Some stages
    \<and> (\<forall>slot\<in>set (generationSlots (dp_layout d) stages). \<exists>v qs. t \<le> v \<and> v < u
        \<and> bundleExecutables slot (dp_slot d v slot) = Some qs \<and> set qs \<subseteq> set paths))"
proof -
  obtain stages ps where s: "dp_stages d t = Some stages" "carried_all d (generationSlots (dp_layout d) stages) (t + 1) = (Some ps, u)"
      "paths = remdups_adj (sort (map snd (dp_agents d) @ dp_hosts d @ remdups_adj (sort ps)))"
    using assms by (auto simp: executables_def ownedExecutables_def split: option.splits prod.splits)
  note c = carried_all_spec [OF s(2)]
  have "set ps \<subseteq> set paths" "snd ` set (dp_agents d) \<union> set (dp_hosts d) \<subseteq> set paths" using s(3) by auto
  moreover have "\<exists>v qs. t \<le> v \<and> v < u \<and> bundleExecutables slot (dp_slot d v slot) = Some qs \<and> set qs \<subseteq> set paths"
    if sl: "slot \<in> set (generationSlots (dp_layout d) stages)" for slot
  proof -
    obtain v qs where v: "t + 1 \<le> v" "v < u" "bundleExecutables slot (dp_slot d v slot) = Some qs" "set qs \<subseteq> set ps"
      using bspec [OF conjunct2 [OF c] sl] by (elim exE conjE)
    moreover have "t \<le> v" "set qs \<subseteq> set paths" using v \<open>set ps \<subseteq> set paths\<close> by simp_all
    ultimately show ?thesis by (intro exI [of _ v] exI [of _ qs] conjI)
  qed
  ultimately show ?thesis using c s(1) by simp
qed

lemma survivors_complete:
  assumes "survivors d paths u = (Some [], t')"
  shows "u < t' \<and> (\<forall>i. listed (dp_boundary d) i u t' \<longrightarrow> (\<forall>p\<in>set paths. \<not> steady (dp_boundary d) i (Inr p) u t')
        \<and> (\<forall>own. paths \<noteq> [] \<and> bd_owner (dp_boundary d) (t' - 1) = Inr (Some own) \<and> matches i (owner_identity own)
             \<longrightarrow> \<not> steady (dp_boundary d) i (Inl errUnresolvedExecutable) u t'))"
proof -
  obtain found t1 known where s: "Inventory (dp_boundary d) paths u = (Some found, t1)" "recordedIdentities d t1 = (Some known, t')"
      "su_Live found = []" "attributed found known = []"
    using assms by (auto simp: survivors_def split: option.splits prod.splits)
  have t: "t' = t1 + 1" "\<And>own. bd_owner (dp_boundary d) t1 = Inr (Some own) \<Longrightarrow> known = [owner_identity own]"
    using s(2) by (auto simp: recordedIdentities_def split: sum.splits option.splits)
  obtain g where "inventory_scan (dp_boundary d) paths u = (g, t1)" using s(1) by (auto simp: Inventory_def split: prod.splits)
  from inventory_scan_time [OF this] have u: "u \<le> t1" .
  have c: "(\<forall>p\<in>set paths. \<not> steady (dp_boundary d) i (Inr p) u t1)
      \<and> (paths \<noteq> [] \<and> steady (dp_boundary d) i (Inl errUnresolvedExecutable) u t1 \<longrightarrow> (i, []) \<in> set (su_Unnameable found))"
    if "listed (dp_boundary d) i u t'" for i
    using Inventory_complete [OF s(1) listed_mono [OF that]] t u s(3) by auto
  have st: "steady (dp_boundary d) i ex u t1" if "steady (dp_boundary d) i ex u t'" for i ex using steady_mono [OF that] t by simp
  have at: "\<not> matches i (owner_identity own)" if "(i, []) \<in> set (su_Unnameable found)" "bd_owner (dp_boundary d) t1 = Inr (Some own)" for i own
    using s(4) t(2) [OF that(2)] that(1) by (auto simp: attributed_def filter_empty_conv)
  have "t' - 1 = t1" "u < t'" using u t(1) by auto
  show ?thesis unfolding \<open>t' - 1 = t1\<close>
  proof (intro conjI allI impI ballI notI \<open>u < t'\<close>)
    fix i p
    assume "listed (dp_boundary d) i u t'" "p \<in> set paths" "steady (dp_boundary d) i (Inr p) u t'"
    then show False using c st by blast
  next
    fix i own
    assume "listed (dp_boundary d) i u t'" "paths \<noteq> [] \<and> bd_owner (dp_boundary d) t1 = Inr (Some own) \<and> matches i (owner_identity own)"
      "steady (dp_boundary d) i (Inl errUnresolvedExecutable) u t'"
    then show False using c st at by blast
  qed
qed

lemma survivors_time: "survivors d paths t = (r, t') \<Longrightarrow> t \<le> t'"
proof -
  assume a: "survivors d paths t = (r, t')"
  obtain g t1 where g: "inventory_scan (dp_boundary d) paths t = (g, t1)" by fastforce
  obtain k t2 where k: "recordedIdentities d t1 = (k, t2)" by fastforce
  have "t1 \<le> t2" using k by (auto simp: recordedIdentities_def split: sum.splits option.splits)
  then show ?thesis using a g k inventory_scan_time [OF g]
    by (cases g; cases k) (auto simp: survivors_def Inventory_def)
qed

lemma requireEmpty_gate: "requireEmpty d t = (None, t') \<Longrightarrow> gate_empty d t t'"
proof -
  assume a: "requireEmpty d t = (None, t')"
  obtain paths u where s: "executables d t = (Some paths, u)" "survivors d paths u = (Some [], t')"
    using a by (auto simp: requireEmpty_def split: option.splits prod.splits if_splits)
  note x = executables_spec [OF s(1)] and c = survivors_complete [OF s(2)]
  obtain stages where st: "dp_stages d t = Some stages" "\<forall>slot\<in>set (generationSlots (dp_layout d) stages). \<exists>v qs. t \<le> v \<and> v < u
      \<and> bundleExecutables slot (dp_slot d v slot) = Some qs \<and> set qs \<subseteq> set paths"
    using x by (elim conjE exE)
  show ?thesis unfolding gate_empty_def
    by (intro exI [of _ paths] exI [of _ u] exI [of _ stages] conjI conjunct1 [OF x] conjunct1 [OF c]
        conjunct1 [OF conjunct2 [OF x]] st conjunct2 [OF c])
qed

text \<open>Nothing of the daemon is recorded, or the recorded or pinned process left.\<close>

definition incumbent_gone :: "boundary \<Rightarrow> nat \<Rightarrow> nat \<Rightarrow> bool" where
  "incumbent_gone b t t' \<longleftrightarrow> (\<exists>u\<ge>t. u < t' \<and> bd_owner b u = Inr None)
    \<or> (\<exists>u own. t \<le> u \<and> u < t' \<and> bd_owner b u = Inr (Some own) \<and> gone (bd_world b) (owner_identity own) t t')
    \<or> (\<exists>i h. attested (bd_world b) i h t t' \<and> gone (bd_world b) i t t')"

lemma gone_wider: "gone w i t t' \<Longrightarrow> s \<le> t \<Longrightarrow> t' \<le> s' \<Longrightarrow> bd_owner b u = Inr (Some own) \<Longrightarrow> i = owner_identity own
    \<Longrightarrow> s \<le> u \<Longrightarrow> u < s' \<Longrightarrow> w = bd_world b \<Longrightarrow> incumbent_gone b s s'"
  unfolding incumbent_gone_def by (blast intro: gone_mono)

lemma incumbent_gone_mono: "incumbent_gone b t t' \<Longrightarrow> s \<le> t \<Longrightarrow> t' \<le> s' \<Longrightarrow> incumbent_gone b s s'"
  unfolding incumbent_gone_def by (meson attested_mono gone_mono le_trans less_le_trans)

lemma incumbent_gone_ctx [simp]: "incumbent_gone (with_ctx (derive e (bd_world b)) b) = incumbent_gone b"
  by (simp add: incumbent_gone_def fun_eq_iff)

lemma ask_health_time: "ask_health n b t = (r, t') \<Longrightarrow> t < t'"
proof (induction n arbitrary: t)
  case 0
  then show ?case by (auto split: sum.splits)
next
  case (Suc n)
  then show ?case by (fastforce split: sum.splits if_splits dest: Suc.IH)
qed

lemma client_Health_time: "client_Health b t = (r, t') \<Longrightarrow> t < t'"
  unfolding client_Health_def using ask_health_time [of 1 b t] by (cases "ask_health 1 b t") auto

text \<open>An act on the owner of the record that returns only with this owner gone.\<close>

definition proves_gone :: "boundary \<Rightarrow> (Expect \<Rightarrow> nat \<Rightarrow> (Health \<times> Reap) outcome) \<Rightarrow> bool" where
  "proves_gone b act \<longleftrightarrow> (\<forall>x t r es t'. act x t = Some (r, es, t') \<longrightarrow> t \<le> t' \<and> (\<forall>y. r = Inr y \<longrightarrow> incumbent_gone b t (t' + 1)))"

lemma Settle_proves: "proves_gone b (Settle b)"
  unfolding proves_gone_def
proof (intro allI impI)
  fix x t r es t'
  assume "Settle b x t = Some (r, es, t')"
  note sp = Settle_spec [OF this]
  then show "t \<le> t' \<and> (\<forall>y. r = Inr y \<longrightarrow> incumbent_gone b t (t' + 1))"
    using gone_wider [of "bd_world b" _ t t' t "t' + 1" b t] by fastforce
qed

lemma Terminate_proves: "pidfd \<longrightarrow> worlds_ok b \<Longrightarrow> proves_gone b (Terminate pidfd b)"
  unfolding proves_gone_def
proof (intro allI impI)
  fix x t r es t'
  assume ok: "pidfd \<longrightarrow> worlds_ok b" and "Terminate pidfd b x t = Some (r, es, t')"
  note sp = Terminate_gone [OF this(2) ok]
  then show "t \<le> t' \<and> (\<forall>y. r = Inr y \<longrightarrow> incumbent_gone b t (t' + 1))"
    using gone_wider [of "bd_world b" _ t t' t "t' + 1" b t] by fastforce
qed

lemma recorded_proves:
  assumes "recorded act b t = Some (x, r, es, t')" "proves_gone b act"
  shows "t \<le> t' \<and> (\<forall>y. r = Inr y \<longrightarrow> incumbent_gone b t (t' + 1))"
proof (cases "\<exists>own. bd_owner b t = Inr (Some own)")
  case False
  then show ?thesis using assms(1) by (auto simp: recorded_def incumbent_gone_def split: sum.splits option.splits)
next
  case True
  then have "\<exists>x. act x (t + 1) = Some (r, es, t')" using assms(1) by (auto simp: recorded_def Let_def)
  then have "t + 1 \<le> t' \<and> (\<forall>y. r = Inr y \<longrightarrow> incumbent_gone b (t + 1) (t' + 1))" using assms(2) unfolding proves_gone_def by blast
  then show ?thesis using incumbent_gone_mono [of b "t + 1" "t' + 1" t "t' + 1"] by simp
qed

lemma drain_proves:
  assumes "drain pidfd b t = Some (x, r, es, t')" "pidfd \<longrightarrow> worlds_ok b"
  shows "t \<le> t' \<and> (\<forall>y. r = Inr y \<longrightarrow> incumbent_gone b t (t' + 1))"
proof -
  obtain h t1 where h: "client_Health b t = (h, t1)" by fastforce
  have t: "t < t1" using client_Health_time [OF h] .
  consider (rec) act where "recorded act b t1 = Some (x, r, es, t')" "proves_gone b act"
    | (none) e where "r = Inl e" "t' = t1" | (drained) "Drain b x t1 = Some (r, es, t')"
    using assms h Settle_proves Terminate_proves by (auto simp: drain_def Let_def split: sum.splits if_splits)
  then show ?thesis
  proof cases
    case rec
    from recorded_proves [OF this] show ?thesis using t incumbent_gone_mono [of b t1 "t' + 1" t "t' + 1"] by simp
  next
    case none
    then show ?thesis using t by simp
  next
    case drained
    note sp = Drain_spec [OF this]
    have "incumbent_gone b t1 t'" if "r = Inr y" for y using sp that unfolding incumbent_gone_def by (cases y) blast
    then show ?thesis using t sp incumbent_gone_mono [of b t1 t' t "t' + 1"] by simp
  qed
qed

lemma deploy_stop_proves:
  assumes "deploy_stop pidfd d t = Some (r, es, t')" "pidfd \<longrightarrow> worlds_ok (dp_boundary d)"
  shows "t \<le> t' \<and> (\<forall>y. r = Inr y \<longrightarrow> incumbent_gone (dp_boundary d) t (t' + 1))"
proof -
  let ?b = "dp_boundary d"
  obtain e where c: "drain_ctx d t = derive e (bd_world ?b)" by (auto simp: drain_ctx_def Let_def)
  have "drain pidfd (with_ctx (drain_ctx d t) ?b) (t + 1) \<noteq> None" using assms(1) by (auto simp: deploy_stop_def Let_def simp del: not_None_eq split: option.splits)
  then obtain x q es1 t1 where q: "drain pidfd (with_ctx (drain_ctx d t) ?b) (t + 1) = Some (x, q, es1, t1)" by auto
  have dp: "t + 1 \<le> t1 \<and> (\<forall>y. q = Inr y \<longrightarrow> incumbent_gone ?b (t + 1) (t1 + 1))"
    using drain_proves [OF q] assms(2) c by (simp add: worlds_ok_def)
  consider (ok) "q = r" "t' = t1" | (bad) e where "r = Inl e" "t' = t1" | (esc) es2 where "Terminate pidfd ?b x t1 = Some (r, es2, t')"
    using assms(1) q by (auto simp: deploy_stop_def Let_def split: sum.splits if_splits)
  then show ?thesis
  proof cases
    case ok
    then show ?thesis using dp incumbent_gone_mono [of ?b "t + 1" "t' + 1" t "t' + 1"] by simp
  next
    case bad
    then show ?thesis using dp by simp
  next
    case esc
    then have "t1 \<le> t' \<and> (\<forall>y. r = Inr y \<longrightarrow> incumbent_gone ?b t1 (t' + 1))"
      using Terminate_proves [OF assms(2)] unfolding proves_gone_def by blast
    then show ?thesis using dp incumbent_gone_mono [of ?b t1 "t' + 1" t "t' + 1"] by simp
  qed
qed

lemma terminate_each_time: "terminate_each pidfd b ps t = Some (r, es, t') \<Longrightarrow> t \<le> t'"
proof (induction pidfd b ps t arbitrary: r es t' rule: terminate_each.induct)
  case (2 pidfd b i exe rest t)
  let ?w = "derive (w_now (bd_world b) t + ctx_left (bd_world b) t sdiv int (length ((i, exe) # rest))) (bd_world b)"
  obtain v es1 t1 where v: "reapIdentity pidfd ?w i 0 (t + 1) = Some (v, es1, t1)"
    using 2(2) by (cases "reapIdentity pidfd ?w i 0 (t + 1)") (auto simp: Let_def)
  have t: "t < t1" using reap_time [OF v] by simp
  show ?case
  proof (cases v)
    case (Inl e)
    then show ?thesis using 2(2) v t by (auto simp: Let_def)
  next
    case (Inr reap)
    obtain es2 where "terminate_each pidfd b rest t1 = Some (r, es2, t')" using 2(2) v Inr by (auto simp: Let_def)
    from 2(1) [OF refl refl v [symmetric, THEN sym]] this t show ?thesis using Inr by fastforce
  qed
qed simp

lemma terminateSurvivors_time: "terminateSurvivors pidfd d t = Some (r, es, t') \<Longrightarrow> t \<le> t'"
proof -
  assume a: "terminateSurvivors pidfd d t = Some (r, es, t')"
  obtain o1 t1 where o: "ownedExecutables d t = (o1, t1)" by fastforce
  have "t \<le> t1"
  proof (cases "dp_stages d t")
    case (Some stages)
    obtain c where "carried_all d (generationSlots (dp_layout d) stages) (t + 1) = (c, t1)"
      using o Some by (auto simp: ownedExecutables_def split: prod.splits)
    from carried_all_time [OF this] show ?thesis by simp
  qed (use o in \<open>simp add: ownedExecutables_def\<close>)
  show ?thesis
  proof (cases o1)
    case None
    then show ?thesis using a o \<open>t \<le> t1\<close> by (simp add: terminateSurvivors_def)
  next
    case (Some owned)
    obtain ss t2 where ss: "survivors d owned t1 = (ss, t2)" by fastforce
    have "t1 \<le> t2" using survivors_time [OF ss] .
    then show ?thesis using a o Some ss \<open>t \<le> t1\<close> by (cases ss) (auto simp: terminateSurvivors_def dest: terminate_each_time)
  qed
qed

text \<open>
  C28: a quiesce is a proof. When it returns a proof, the daemon it found pinned or recorded left the process table during the
  call, or nothing was recorded, and after that the inventory gate found the deployment empty: no process that runs an
  agent's program, a declared host binary, or anything a generation slot carries stayed through the gate, nor the recorded
  owner itself with an executable nothing can name. The proof names absence and the generation that left.
\<close>

theorem quiesce_proves:
  assumes "deploy_Quiesce pidfd d t = Some (Inr proof, es, t')" "pidfd \<longrightarrow> worlds_ok (dp_boundary d)"
  shows "\<exists>t1 t2. t \<le> t1 \<and> t1 \<le> t2 \<and> incumbent_gone (dp_boundary d) t (t1 + 1) \<and> gate_empty d t2 t' \<and> rp_absent proof"
proof -
  obtain stopped es1 t1 where st: "deploy_stop pidfd d t = Some (Inr stopped, es1, t1)"
    using assms(1) by (auto simp: deploy_Quiesce_def split: option.splits sum.splits)
  obtain es2 t2 where te: "terminateSurvivors pidfd d t1 = Some (None, es2, t2)"
    using assms(1) st by (auto simp: deploy_Quiesce_def split: option.splits if_splits)
  have "requireEmpty d t2 = (None, t')" "proof = runtimeProof d stopped"
    using assms(1) st te by (auto simp: deploy_Quiesce_def split: option.splits if_splits prod.splits)
  then show ?thesis
    using deploy_stop_proves [OF st assms(2)] terminateSurvivors_time [OF te] requireEmpty_gate
    by (intro exI [of _ t1] exI [of _ t2]) (simp add: runtimeProof_def)
qed

text \<open>An installed application whose daemon never recorded itself.\<close>

definition idle_deployment :: deployment where
  "idle_deployment = \<lparr> dp_boundary = quiet_boundary\<lparr>bd_acquire := \<lambda>_. Inl [ErrAbsent], bd_owner := \<lambda>_. Inr None, bd_pids := \<lambda>_. Some []\<rparr>,
     dp_layout = layoutFor ''/A/B.app'', dp_agents = [(''a'', ''/A/B.app/d'')], dp_hosts = [], dp_grace = 10, dp_stages = (\<lambda>_. Some []),
     dp_slot = (\<lambda>_ slot. if slot = ''/A/B.app''
       then SlotTree (Some [\<lparr> fv_path = ''d'', fv_regular = True, fv_perm = 0x1ed, fv_head = Some [0xcf, 0xfa, 0xed, 0xfe] \<rparr>]) else SlotMissing),
     dp_detail = (\<lambda>_. []), dp_sha = (\<lambda>_. zero_digest) \<rparr>"

lemma idle_paths:
  "la_canonical (layoutFor ''/A/B.app'') = ''/A/B.app''" "la_prior (layoutFor ''/A/B.app'') = ''/A/.daemonkit-deploy/B/prior.app''"
  "la_candidate (layoutFor ''/A/B.app'') = ''/A/.B.daemonkit-candidate.app''"
  "la_removed (layoutFor ''/A/B.app'') = ''/A/.daemonkit-deploy/B/removed.app''" "Join [''/A/B.app'', ''d''] = ''/A/B.app/d''"
  by code_simp+

lemma idle_macho: "isMachO (Some [0xcf, 0xfa, 0xed, 0xfe]) = Some True" "(0x1ed :: u32) AND 0x49 \<noteq> 0"
  by (simp_all add: isMachO_def get_be_def machOMagics_def)

lemma idle_owned: "ownedExecutables idle_deployment t = (Some [''/A/B.app/d''], t + 5)"
  by (simp add: ownedExecutables_def generationSlots_def idle_deployment_def idle_paths bundleExecutables_def execs_def idle_macho)

lemma idle_survivors: "survivors idle_deployment [''/A/B.app/d''] t = (Some [], t + 3)"
  by (simp add: survivors_def Inventory_def ExecutableIdentities_def executableMatcher_def quiet_boundary_def idle_deployment_def
      recordedIdentities_def attributed_def)

lemma idle_agents: "dp_agents idle_deployment = [(''a'', ''/A/B.app/d'')]" "dp_hosts idle_deployment = []"
  by (simp_all add: idle_deployment_def)

theorem quiesce_proves_witness:
  "\<exists>t1 t2. incumbent_gone (dp_boundary idle_deployment) 0 (t1 + 1) \<and> gate_empty idle_deployment t2 19"
proof -
  have "deploy_stop False idle_deployment 0 = Some (Inr (zero_health, ReapAbsent), [], 3)"
    by (simp add: deploy_stop_def drain_def client_Health_def idle_deployment_def quiet_boundary_def with_ctx_def recorded_def Is_def Let_def)
  moreover have "terminateSurvivors False idle_deployment 3 = Some (None, [], 11)"
    by (simp add: terminateSurvivors_def idle_owned idle_survivors)
  moreover have "requireEmpty idle_deployment 11 = (None, 19)"
    using idle_agents by (simp add: requireEmpty_def executables_def idle_owned idle_survivors)
  ultimately have "deploy_Quiesce False idle_deployment 0 = Some (Inr (runtimeProof idle_deployment (zero_health, ReapAbsent)), [], 19)"
    by (simp add: deploy_Quiesce_def absenceProof_def)
  from quiesce_proves [OF this] show ?thesis by auto
qed

end
