(* ===== verification/Agent.thy ===== *)
theory Agent
  imports Names Version "HOL-Library.Multiset"
begin

text \<open>
  One LaunchAgent and its property list: \<^verbatim>\<open>launchd/agent.go\<close>, \<^verbatim>\<open>launchd/calendar.go\<close>, \<^verbatim>\<open>launchd/policy.go\<close>, \<^verbatim>\<open>launchd/restart.go\<close>, the
  plans of \<^verbatim>\<open>launchd/plan.go\<close> and the classification of what launchctl answered, \<^verbatim>\<open>launchd/launchctl.go\<close>. Strings are bytes, so
  the escaping of XML text decodes UTF-8 as \<open>xml.EscapeText\<close> does. The JSON of an agent and the hash are parameters.
\<close>

subsection \<open>Escaping\<close>

definition utf8_width :: "string \<Rightarrow> nat" where
  "utf8_width s =
    (let b = (\<lambda>k. if k < length s then of_char (s ! k) else (0 :: nat)); c = (\<lambda>k. 128 \<le> b k \<and> b k < 192) in
     if 0xC2 \<le> b 0 \<and> b 0 < 0xE0 \<and> c 1 then 2
     else if 0xE0 \<le> b 0 \<and> b 0 < 0xF0 \<and> c 1 \<and> c 2 \<and> (b 0 = 0xE0 \<longrightarrow> 0xA0 \<le> b 1) \<and> (b 0 = 0xED \<longrightarrow> b 1 < 0xA0) then 3
     else if 0xF0 \<le> b 0 \<and> b 0 < 0xF5 \<and> c 1 \<and> c 2 \<and> c 3 \<and> (b 0 = 0xF0 \<longrightarrow> 0x90 \<le> b 1) \<and> (b 0 = 0xF4 \<longrightarrow> b 1 < 0x90) then 4
     else 0)"

definition esc_fffd :: string where "esc_fffd = [CHR 0xEF, CHR 0xBF, CHR 0xBD]"

definition escape_ascii :: "char \<Rightarrow> string" where
  "escape_ascii c =
    (if c = CHR 0x22 then ''&#34;'' else if c = CHR 0x27 then ''&#39;'' else if c = CHR ''&'' then ''&amp;''
     else if c = CHR ''<'' then ''&lt;'' else if c = CHR ''>'' then ''&gt;'' else if c = CHR 0x09 then ''&#x9;''
     else if c = CHR 0x0A then ''&#xA;'' else if c = CHR 0x0D then ''&#xD;''
     else if of_char c < (32 :: nat) then esc_fffd else [c])"

function (sequential) xmlEscape :: "string \<Rightarrow> string" where
  "xmlEscape [] = []"
| "xmlEscape (c # s) =
    (if of_char c < (128 :: nat) then escape_ascii c @ xmlEscape s
     else let k = utf8_width (c # s) in
       if k = 0 then esc_fffd @ xmlEscape s
       else (if take 3 (c # s) = [CHR 0xEF, CHR 0xBF, CHR 0xBE] \<or> take 3 (c # s) = [CHR 0xEF, CHR 0xBF, CHR 0xBF]
             then esc_fffd else take k (c # s)) @ xmlEscape (drop (k - 1) s))"
  by pat_completeness auto

termination by (relation "measure length") auto

subsection \<open>Policies\<close>

datatype ProcessType = processTypeUnset | ProcessTypeAdaptive | ProcessTypeBackground | ProcessTypeInteractive | ProcessTypeStandard
  | ProcessTypeOther nat

fun plistValue :: "ProcessType \<Rightarrow> string option" where
  "plistValue processTypeUnset = Some []"
| "plistValue ProcessTypeAdaptive = Some ''Adaptive''"
| "plistValue ProcessTypeBackground = Some ''Background''"
| "plistValue ProcessTypeInteractive = Some ''Interactive''"
| "plistValue ProcessTypeStandard = Some ''Standard''"
| "plistValue (ProcessTypeOther n) = None"

definition Second :: int where "Second = 1000000000"

definition wholeSeconds :: "int \<Rightarrow> int option" where
  "wholeSeconds value = (if value = 0 then Some 0 else if value < Second \<or> value mod Second \<noteq> 0 then None else Some (value div Second))"

datatype AgentRestart = AgentRestartUnset | AgentRestartAlways | AgentRestartOnFailure | AgentNoRestart | AgentRestartOther nat

definition nl :: string where "nl = [CHR 0x0A]"

definition xml_lines :: "string list \<Rightarrow> string" where
  "xml_lines ls = concat (map (\<lambda>l. l @ nl) ls)"

fun restart_plist :: "AgentRestart \<Rightarrow> string option" where
  "restart_plist AgentRestartAlways = Some (xml_lines [''    <key>KeepAlive</key>'', ''    <true/>''])"
| "restart_plist AgentRestartOnFailure = Some (xml_lines [''    <key>KeepAlive</key>'', ''    <dict>'',
     ''        <key>SuccessfulExit</key>'', ''        <false/>'', ''    </dict>''])"
| "restart_plist AgentNoRestart = Some (xml_lines [''    <key>KeepAlive</key>'', ''    <false/>''])"
| "restart_plist AgentRestartUnset = None"
| "restart_plist (AgentRestartOther n) = None"

subsection \<open>Calendar and paths\<close>

record CalendarInterval =
  cal_Minute :: "int option"
  cal_Hour :: "int option"
  cal_Day :: "int option"
  cal_Weekday :: "int option"
  cal_Month :: "int option"

definition Daily :: "int \<Rightarrow> int \<Rightarrow> CalendarInterval" where
  "Daily hour minute = \<lparr> cal_Minute = Some minute, cal_Hour = Some hour, cal_Day = None, cal_Weekday = None, cal_Month = None \<rparr>"

definition calendar_fields :: "CalendarInterval \<Rightarrow> (string \<times> int option \<times> int \<times> int) list" where
  "calendar_fields c = [(''Minute'', cal_Minute c, 0, 59), (''Hour'', cal_Hour c, 0, 23), (''Day'', cal_Day c, 1, 31),
     (''Weekday'', cal_Weekday c, 0, 7), (''Month'', cal_Month c, 1, 12)]"

definition plistBody :: "CalendarInterval \<Rightarrow> string option" where
  "plistBody c =
    (let fs = calendar_fields c in
     if list_ex (\<lambda>(k, v, lo, hi). case v of None \<Rightarrow> False | Some x \<Rightarrow> x < lo \<or> hi < x) fs then None
     else if list_all (\<lambda>(k, v, lo, hi). v = None) fs then None
     else Some (concat (map (\<lambda>(k, v, lo, hi). case v of None \<Rightarrow> []
         | Some x \<Rightarrow> xml_lines [''            <key>'' @ k @ ''</key>'', ''            <integer>'' @ show_int x @ ''</integer>'']) fs)))"

primrec all_some :: "'a option list \<Rightarrow> 'a list option" where
  "all_some [] = Some []"
| "all_some (x # xs) = (case x of None \<Rightarrow> None | Some y \<Rightarrow> map_option ((#) y) (all_some xs))"

definition renderCalendarIntervals :: "CalendarInterval list \<Rightarrow> string list option" where
  "renderCalendarIntervals cs = all_some (map plistBody cs)"

definition exact_abs :: "string \<Rightarrow> bool" where
  "exact_abs p \<longleftrightarrow> IsAbs p \<and> Clean p = p"

definition canonicalWatchPaths :: "string list \<Rightarrow> string list option" where
  "canonicalWatchPaths ps = (if list_all exact_abs ps then Some (map xmlEscape ps) else None)"

text \<open>\<open>strings.Split\<close> at one character.\<close>

fun split_char :: "char \<Rightarrow> string \<Rightarrow> string list" where
  "split_char d [] = [[]]"
| "split_char d (c # s) =
    (if c = d then [] # split_char d s else case split_char d s of [] \<Rightarrow> [[c]] | e # es \<Rightarrow> (c # e) # es)"

definition bundle_char :: "char \<Rightarrow> bool" where
  "bundle_char c \<longleftrightarrow> (CHR ''a'' \<le> c \<and> c \<le> CHR ''z'') \<or> (CHR ''A'' \<le> c \<and> c \<le> CHR ''Z'') \<or> (CHR ''0'' \<le> c \<and> c \<le> CHR ''9'') \<or> c = CHR ''-''"

definition validBundleIdentifier :: "string \<Rightarrow> bool" where
  "validBundleIdentifier v \<longleftrightarrow> (let parts = split_char (CHR ''.'') v in
     2 \<le> length parts \<and> list_all (\<lambda>p. p \<noteq> [] \<and> hd p \<noteq> CHR ''-'' \<and> last p \<noteq> CHR ''-'' \<and> list_all bundle_char p) parts)"

definition canonicalAssociatedBundleIdentifiers :: "string list \<Rightarrow> string list option" where
  "canonicalAssociatedBundleIdentifiers vs =
    (let canonical = sort vs in
     if list_all validBundleIdentifier canonical \<and> length (remdups_adj canonical) = length canonical then Some canonical else None)"

subsection \<open>Agents\<close>

record Agent =
  ag_Label :: string
  ag_Program :: string
  ag_Args :: "string list"
  ag_LogPath :: string
  ag_Env :: "(string \<times> string) list"
  ag_Bundles :: "string list"
  ag_Restart :: AgentRestart
  ag_StartInterval :: int
  ag_ExitTimeOut :: int
  ag_WatchPaths :: "string list"
  ag_Calendar :: "CalendarInterval list"
  ag_ProcessType :: ProcessType

definition OwnerEnvKey :: string where "OwnerEnvKey = ''DAEMONKIT_AGENT_OWNER''"

definition ownerEnvValue :: string where "ownerEnvValue = ''daemonkit''"

definition ownerMarkerKey :: string where "ownerMarkerKey = ''<key>'' @ OwnerEnvKey @ ''</key>''"

definition plistHasOwnerMarker :: "string \<Rightarrow> bool" where
  "plistHasOwnerMarker data \<longleftrightarrow> contains data ownerMarkerKey"

text \<open>An environment is a map: its keys are distinct and the entries come out in the order of the keys.\<close>

definition renderEnv :: "Agent \<Rightarrow> (string \<times> string) list option" where
  "renderEnv a =
    (if OwnerEnvKey \<in> fst ` set (ag_Env a) then None
     else Some (map (\<lambda>(k, v). (xmlEscape k, xmlEscape v)) (sort_key fst (ag_Env a @ [(OwnerEnvKey, ownerEnvValue)]))))"

definition programPath :: "Agent \<Rightarrow> string option" where
  "programPath a = (if ag_Program a = [] \<or> \<not> exact_abs (ag_Program a) then None else Some (ag_Program a))"

definition plistPath :: "string option \<Rightarrow> string \<Rightarrow> string option" where
  "plistPath home label = map_option (\<lambda>h. Join [h, ''Library'', ''LaunchAgents'', label @ ''.plist'']) home"

definition string_array :: "string list \<Rightarrow> string" where
  "string_array vs = xml_lines (map (\<lambda>v. ''        <string>'' @ v @ ''</string>'') vs)"

definition keyed_array :: "string \<Rightarrow> string list \<Rightarrow> string" where
  "keyed_array key vs = (if vs = [] then [] else xml_lines [''    <key>'' @ key @ ''</key>'', ''    <array>''] @ string_array vs @ xml_lines [''    </array>''])"

definition keyed_integer :: "string \<Rightarrow> int \<Rightarrow> string" where
  "keyed_integer key n = (if n = 0 then [] else xml_lines [''    <key>'' @ key @ ''</key>'', ''    <integer>'' @ show_int n @ ''</integer>''])"

definition doctype :: string where
  "doctype = ''<!DOCTYPE plist PUBLIC '' @ [CHR 0x22] @ ''-//Apple//DTD PLIST 1.0//EN'' @ [CHR 0x22] @ '' '' @ [CHR 0x22]
     @ ''http://www.apple.com/DTDs/PropertyList-1.0.dtd'' @ [CHR 0x22] @ ''>''"

definition xml_head :: string where
  "xml_head = ''<?xml version='' @ [CHR 0x22] @ ''1.0'' @ [CHR 0x22] @ '' encoding='' @ [CHR 0x22] @ ''UTF-8'' @ [CHR 0x22] @ ''?>''"

definition env_lines :: "(string \<times> string) list \<Rightarrow> string" where
  "env_lines env = concat (map (\<lambda>(k, v). xml_lines [''        <key>'' @ k @ ''</key>'', ''        <string>'' @ v @ ''</string>'']) env)"

text \<open>The template, filled in.\<close>

definition plist_text :: "string \<Rightarrow> string list \<Rightarrow> string \<Rightarrow> (string \<times> string) list \<Rightarrow> string \<Rightarrow> int \<Rightarrow> int \<Rightarrow> string list \<Rightarrow> string list
    \<Rightarrow> string \<Rightarrow> string list \<Rightarrow> string" where
  "plist_text label args log env restart start exit watch calendar ptype bundles =
    xml_lines [xml_head, doctype, ''<plist version='' @ [CHR 0x22] @ ''1.0'' @ [CHR 0x22] @ ''>'', ''<dict>'', ''    <key>Label</key>'',
      ''    <string>'' @ label @ ''</string>'', ''    <key>ProgramArguments</key>'', ''    <array>'']
    @ string_array args @ xml_lines [''    </array>'', ''    <key>RunAtLoad</key>'', ''    <true/>''] @ restart @ nl
    @ keyed_integer ''StartInterval'' start @ keyed_array ''WatchPaths'' watch
    @ (if calendar = [] then [] else xml_lines [''    <key>StartCalendarInterval</key>'', ''    <array>'']
         @ concat (map (\<lambda>b. ''        <dict>'' @ nl @ b @ ''        </dict>'' @ nl) calendar) @ xml_lines [''    </array>''])
    @ nl @ xml_lines [''    <key>ThrottleInterval</key>'', ''    <integer>10</integer>'']
    @ keyed_integer ''ExitTimeOut'' exit
    @ (if ptype = [] then [] else nl @ xml_lines [''    <key>ProcessType</key>'', ''    <string>'' @ ptype @ ''</string>''])
    @ nl @ xml_lines [''    <key>StandardOutPath</key>'', ''    <string>'' @ log @ ''</string>'', ''    <key>StandardErrorPath</key>'',
      ''    <string>'' @ log @ ''</string>'']
    @ keyed_array ''AssociatedBundleIdentifiers'' bundles
    @ xml_lines [''    <key>EnvironmentVariables</key>'', ''    <dict>''] @ env_lines env @ xml_lines [''    </dict>'', ''</dict>'', ''</plist>'']"

definition Plist :: "Agent \<Rightarrow> string option" where
  "Plist a =
    (if \<not> label_Validate (ag_Label a) then None
     else case (restart_plist (ag_Restart a), wholeSeconds (ag_StartInterval a), wholeSeconds (ag_ExitTimeOut a),
       plistValue (ag_ProcessType a), canonicalAssociatedBundleIdentifiers (ag_Bundles a), canonicalWatchPaths (ag_WatchPaths a),
       renderCalendarIntervals (ag_Calendar a), programPath a, renderEnv a) of
       (Some restart, Some start, Some exit, Some ptype, Some bundles, Some watch, Some calendar, Some bin, Some env) \<Rightarrow>
         if \<not> exact_abs (ag_LogPath a) then None
         else Some (plist_text (xmlEscape (ag_Label a)) (xmlEscape bin # map xmlEscape (ag_Args a)) (xmlEscape (ag_LogPath a)) env
           restart start exit watch calendar ptype bundles)
     | _ \<Rightarrow> None)"

subsection \<open>Plans (plan.go)\<close>

text \<open>
  A plan is the agents in the order of their labels. \<open>resident\<close> is whether a program is a regular executable file now,
  \<open>payload\<close> the JSON of the agents of a plan, \<open>sha\<close> its hash.
\<close>

record Plan =
  pl_agents :: "Agent list"
  pl_digest :: bytes

definition canonical_agent :: "Agent \<Rightarrow> Agent" where
  "canonical_agent a = a\<lparr>ag_Bundles := sort (ag_Bundles a)\<rparr>"

definition canonicalPlanAgents :: "Agent list \<Rightarrow> Agent list option" where
  "canonicalPlanAgents agents =
    (if list_all (\<lambda>a. Plist a \<noteq> None) agents \<and> distinct (map ag_Label agents)
     then Some (sort_key ag_Label (map canonical_agent agents)) else None)"

definition desiredAgents :: "(string \<Rightarrow> bool) \<Rightarrow> Agent list \<Rightarrow> Agent list option" where
  "desiredAgents resident agents =
    (if list_all (\<lambda>a. Plist a \<noteq> None \<and> resident (ag_Program a)) agents \<and> distinct (map ag_Label agents)
     then Some (sort_key ag_Label (map canonical_agent agents)) else None)"

definition planFromAgents :: "(bytes \<Rightarrow> bytes) \<Rightarrow> (Agent list \<Rightarrow> bytes) \<Rightarrow> Agent list \<Rightarrow> Plan option" where
  "planFromAgents sha payload agents =
    (if list_all (\<lambda>a. Plist a \<noteq> None) agents then Some \<lparr> pl_agents = agents, pl_digest = sha (payload (map canonical_agent agents)) \<rparr> else None)"

definition NewPlan :: "(string \<Rightarrow> bool) \<Rightarrow> (bytes \<Rightarrow> bytes) \<Rightarrow> (Agent list \<Rightarrow> bytes) \<Rightarrow> Agent list \<Rightarrow> Plan option" where
  "NewPlan resident sha payload agents = Option.bind (desiredAgents resident agents) (planFromAgents sha payload)"

definition RestorePlan :: "(bytes \<Rightarrow> bytes) \<Rightarrow> (Agent list \<Rightarrow> bytes) \<Rightarrow> Agent list \<Rightarrow> bytes \<Rightarrow> Plan option" where
  "RestorePlan sha payload agents expected =
    Option.bind (canonicalPlanAgents agents) (\<lambda>canonical.
      case planFromAgents sha payload canonical of
        None \<Rightarrow> None
      | Some plan \<Rightarrow> if pl_digest plan \<noteq> expected then None else Some plan)"

subsection \<open>What launchctl answered (launchctl.go)\<close>

datatype launchctlOutcomeKind = launchctlLoaded | launchctlNotLoaded | launchctlRefused | launchctlInFlux | launchctlUnknown

text \<open>
  \<open>launchdReason\<close>: the first line of the form \<open>word failed: status: reason\<close> whose status is the one launchctl exited with.
\<close>

definition re_space :: "char \<Rightarrow> bool" where
  "re_space c \<longleftrightarrow> c = CHR 0x09 \<or> c = CHR 0x0A \<or> c = CHR 0x0C \<or> c = CHR 0x0D \<or> c = CHR '' ''"

definition line_reason :: "string \<Rightarrow> (string \<times> string) option" where
  "line_reason line =
    (let word = takeWhile (\<lambda>c. \<not> re_space c) line; rest = dropWhile (\<lambda>c. \<not> re_space c) line; tail = drop 9 rest;
         status = takeWhile is_digit tail; after = dropWhile is_digit tail in
     if word \<noteq> [] \<and> take 9 rest = '' failed: '' \<and> status \<noteq> [] \<and> take 2 after = '': '' \<and> drop 2 after \<noteq> []
     then Some (status, drop 2 after) else None)"

definition launchdReason :: "string \<Rightarrow> int \<Rightarrow> string" where
  "launchdReason out code =
    (case filter (\<lambda>(status, reason). status = show_int code) (List.map_filter line_reason (split_char (CHR 0x0A) out)) of
       [] \<Rightarrow> [] | (status, reason) # _ \<Rightarrow> TrimSpace reason)"

definition launchctlOutcome :: "string \<times> int \<times> bool \<Rightarrow> launchctlOutcomeKind" where
  "launchctlOutcome answer =
    (case answer of (out, code, err) \<Rightarrow>
     if \<not> err \<and> code = 0 then launchctlLoaded
     else if code = 3 \<or> code = 113 then launchctlNotLoaded
     else if code = 36 \<or> code = 37 then launchctlInFlux
     else if code = 5 then launchctlUnknown
     else if launchdReason out code \<noteq> [] then launchctlRefused else launchctlUnknown)"

definition kind_settled :: "launchctlOutcomeKind \<Rightarrow> bool" where
  "kind_settled k \<longleftrightarrow> k = launchctlLoaded \<or> k = launchctlNotLoaded"

subsection \<open>Escaped text has no markup\<close>

lemma xmlEscape_no_markup:
  "CHR ''<'' \<notin> set (xmlEscape s) \<and> CHR ''>'' \<notin> set (xmlEscape s)"
proof (induction s rule: xmlEscape.induct)
  case (2 c s)
  have high: "d \<noteq> CHR ''<'' \<and> d \<noteq> CHR ''>''" if "(128 :: nat) \<le> of_char d" for d using that by auto
  have ascii: "CHR ''<'' \<notin> set (escape_ascii c) \<and> CHR ''>'' \<notin> set (escape_ascii c)" by (simp add: escape_ascii_def esc_fffd_def)
  let ?k = "utf8_width (c # s)"
  have bytes: "(128 :: nat) \<le> of_char d" if c: "\<not> of_char c < (128 :: nat)" and d: "d \<in> set (take ?k (c # s))" for d
  proof -
    obtain k where k: "k < ?k" "k < length (c # s)" "d = (c # s) ! k" using d by (auto simp: in_set_conv_nth simp del: take_Suc_Cons)
    show ?thesis
    proof (cases k)
      case 0
      then show ?thesis using k c by simp
    next
      case (Suc j)
      then have "k = 1 \<or> k = 2 \<or> k = 3" using k(1) by (auto simp: utf8_width_def Let_def split: if_splits)
      then show ?thesis using k by (auto simp: utf8_width_def Let_def numeral_eq_Suc split: if_splits)
    qed
  qed
  show ?case
  proof (cases "of_char c < (128 :: nat)")
    case True
    then show ?thesis using 2(1) ascii by simp
  next
    case False
    have t: "CHR ''<'' \<notin> set (take ?k (c # s)) \<and> CHR ''>'' \<notin> set (take ?k (c # s))" using bytes [OF False] high by blast
    have f: "CHR ''<'' \<notin> set esc_fffd \<and> CHR ''>'' \<notin> set esc_fffd" by (simp add: esc_fffd_def)
    show ?thesis using False 2(2) [OF False refl] 2(3) [OF False refl] t f by (simp add: Let_def del: take_Suc_Cons)
  qed
qed simp

lemma contains_prefix: "contains (sub @ b) sub"
  by (cases sub; cases b) auto

lemma contains_append: "contains (a @ sub @ b) sub"
  by (induction a) (auto simp: contains_prefix)

lemma contains_form: "contains s sub \<longleftrightarrow> (\<exists>a b. s = a @ sub @ b)"
proof
  show "contains s sub \<Longrightarrow> \<exists>a b. s = a @ sub @ b"
  proof (induction s)
    case (Cons c s)
    show ?case
    proof (cases "take (length sub) (c # s) = sub")
      case True
      then have "c # s = [] @ sub @ drop (length sub) (c # s)" by (metis append_Nil append_take_drop_id)
      then show ?thesis by blast
    next
      case False
      then obtain a b where "s = a @ sub @ b" using Cons by auto
      then have "c # s = (c # a) @ sub @ b" by simp
      then show ?thesis by blast
    qed
  qed simp
qed (auto simp: contains_append)

lemma contains_middle: "contains x sub \<Longrightarrow> contains (a @ x @ b) sub"
  unfolding contains_form by (metis append.assoc)

lemma contains_concat: "x \<in> set xs \<Longrightarrow> contains x sub \<Longrightarrow> contains (concat xs) sub"
  by (metis contains_middle concat_append concat.simps(2) split_list)

lemma wire_marker: "xmlEscape OwnerEnvKey = OwnerEnvKey"
  by code_simp

text \<open>
  What daemonkit writes it recognises as its own. Every property list an agent renders to carries the marker of
  ownership, so a later \<open>Remove\<close> or \<open>Apply\<close> never takes it for a third party's file; and no label, argument, path or
  environment value can end its element, since escaped text has no angle bracket.
\<close>

lemma plist_marked:
  assumes "Plist a = Some body"
  shows "plistHasOwnerMarker body \<and> label_Validate (ag_Label a) \<and> OwnerEnvKey \<notin> fst ` set (ag_Env a)
    \<and> (\<forall>v. CHR ''<'' \<notin> set (xmlEscape v) \<and> CHR ''>'' \<notin> set (xmlEscape v))"
proof -
  obtain env pre post where t: "renderEnv a = Some env" "body = pre @ env_lines env @ post" "label_Validate (ag_Label a)"
    using assms unfolding Plist_def plist_text_def
    by (auto split: if_splits option.splits simp del: append_assoc simp add: append_assoc [symmetric])
  have env: "OwnerEnvKey \<notin> fst ` set (ag_Env a)" "(OwnerEnvKey, xmlEscape ownerEnvValue) \<in> set env"
    using t(1) wire_marker by (force simp: renderEnv_def split: if_splits)+
  let ?l = "xml_lines [''        <key>'' @ OwnerEnvKey @ ''</key>'', ''        <string>'' @ xmlEscape ownerEnvValue @ ''</string>'']"
  have "?l = ''        '' @ ownerMarkerKey @ nl @ ''        <string>'' @ xmlEscape ownerEnvValue @ ''</string>'' @ nl"
    by (simp add: xml_lines_def ownerMarkerKey_def)
  then have "contains ?l ownerMarkerKey" using contains_append by metis
  moreover have "?l \<in> set (map (\<lambda>(k, v). xml_lines [''        <key>'' @ k @ ''</key>'', ''        <string>'' @ v @ ''</string>'']) env)"
    using env(2) by force
  ultimately have "contains (env_lines env) ownerMarkerKey" unfolding env_lines_def by (rule contains_concat [rotated])
  then show ?thesis using t env(1) contains_middle xmlEscape_no_markup unfolding plistHasOwnerMarker_def by blast
qed

definition plain_agent :: Agent where
  "plain_agent = \<lparr> ag_Label = ''a'', ag_Program = ''/d'', ag_Args = [], ag_LogPath = ''/l'', ag_Env = [], ag_Bundles = [],
     ag_Restart = AgentNoRestart, ag_StartInterval = 0, ag_ExitTimeOut = 0, ag_WatchPaths = [], ag_Calendar = [], ag_ProcessType = processTypeUnset \<rparr>"

lemma plain_plist: "Plist plain_agent \<noteq> None"
proof -
  have "label_Validate ''a''" "exact_abs ''/d''" "exact_abs ''/l''" by code_simp+
  then show ?thesis
    by (simp add: Plist_def plain_agent_def wholeSeconds_def canonicalAssociatedBundleIdentifiers_def canonicalWatchPaths_def
        renderCalendarIntervals_def programPath_def renderEnv_def)
qed

subsection \<open>Plans are their agents\<close>

lemma sort_sort [simp]: "sort (sort xs) = sort xs"
  by (rule sort_key_id_if_sorted) simp

lemma canonical_agent_simps [simp]:
  "ag_Label (canonical_agent a) = ag_Label a" "canonical_agent (canonical_agent a) = canonical_agent a"
  by (simp_all add: canonical_agent_def)

lemma Plist_canonical [simp]: "Plist (canonical_agent a) = Plist a"
proof -
  have "canonicalAssociatedBundleIdentifiers (sort (ag_Bundles a)) = canonicalAssociatedBundleIdentifiers (ag_Bundles a)"
    by (simp add: canonicalAssociatedBundleIdentifiers_def)
  moreover have "renderEnv (canonical_agent a) = renderEnv a" "programPath (canonical_agent a) = programPath a"
    by (simp_all add: renderEnv_def programPath_def canonical_agent_def)
  moreover have "ag_Label (canonical_agent a) = ag_Label a" "ag_Args (canonical_agent a) = ag_Args a"
      "ag_LogPath (canonical_agent a) = ag_LogPath a" "ag_Bundles (canonical_agent a) = sort (ag_Bundles a)"
      "ag_Restart (canonical_agent a) = ag_Restart a" "ag_StartInterval (canonical_agent a) = ag_StartInterval a"
      "ag_ExitTimeOut (canonical_agent a) = ag_ExitTimeOut a" "ag_WatchPaths (canonical_agent a) = ag_WatchPaths a"
      "ag_Calendar (canonical_agent a) = ag_Calendar a" "ag_ProcessType (canonical_agent a) = ag_ProcessType a"
    by (simp_all add: canonical_agent_def)
  ultimately show ?thesis unfolding Plist_def by (simp only:)
qed

lemma label_map_canonical [simp]: "map ag_Label (map canonical_agent as) = map ag_Label as"
  by simp

text \<open>
  A plan survives being stored. The plan made from a set of agents does not depend on their order, and restoring it from
  the agents it lists and its digest gives the same plan, whether or not the programs are still there; with any other digest
  it is refused.
\<close>

lemma plan_restores:
  assumes "NewPlan resident sha payload agents = Some plan"
  shows "RestorePlan sha payload (pl_agents plan) (pl_digest plan) = Some plan
    \<and> (\<forall>expected. expected \<noteq> pl_digest plan \<longrightarrow> RestorePlan sha payload (pl_agents plan) expected = None)
    \<and> (\<forall>agents'. mset agents' = mset agents \<longrightarrow> NewPlan resident sha payload agents' = Some plan)"
proof -
  let ?c = "sort_key ag_Label (map canonical_agent agents)"
  have ok: "list_all (\<lambda>a. Plist a \<noteq> None \<and> resident (ag_Program a)) agents" "distinct (map ag_Label agents)"
      "planFromAgents sha payload ?c = Some plan"
    using assms by (auto simp: NewPlan_def desiredAgents_def bind_eq_Some_conv split: if_splits)
  have p: "pl_agents plan = ?c" using ok(3) by (auto simp: planFromAgents_def split: if_splits)
  have lab: "distinct (map ag_Label ?c)"
  proof -
    have "mset (map ag_Label ?c) = mset (map ag_Label agents)" by (simp add: image_mset.compositionality comp_def)
    then show ?thesis using ok(2) by (metis mset_eq_imp_distinct_iff)
  qed
  have "map canonical_agent ?c = ?c" by (rule map_idI) auto
  moreover have "sort_key ag_Label ?c = ?c" by (rule sort_key_id_if_sorted) (rule sorted_sort_key)
  moreover have "list_all (\<lambda>a. Plist a \<noteq> None) ?c" using ok(1) by (auto simp: list_all_iff)
  ultimately have can: "canonicalPlanAgents ?c = Some ?c" using lab by (simp add: canonicalPlanAgents_def)
  have "NewPlan resident sha payload agents' = Some plan" if m: "mset agents' = mset agents" for agents'
  proof -
    have "inj_on ag_Label (set (map canonical_agent agents'))"
      using lab m by (metis distinct_map mset_eq_setD mset_map mset_sort)
    then have "sort_key ag_Label (map canonical_agent agents') = ?c"
      using m by (intro sort_key_inj_key_eq) simp_all
    moreover have "list_all (\<lambda>a. Plist a \<noteq> None \<and> resident (ag_Program a)) agents'" "distinct (map ag_Label agents')"
      using ok(1,2) m by (auto simp: list_all_iff dest: mset_eq_setD) (metis mset_eq_imp_distinct_iff mset_map)
    ultimately show ?thesis using ok(3) by (simp add: NewPlan_def desiredAgents_def)
  qed
  then show ?thesis using can ok(3) p by (auto simp: RestorePlan_def)
qed

end
