(* ===== verification/Machine.thy ===== *)
theory Machine
  imports Quiesce Agent
begin

text \<open>
  The machine a deployment works on, and programs over it. The state is what the verbs of \<^verbatim>\<open>deploy/\<close> and \<^verbatim>\<open>launchd/\<close> read and
  change: the trees at the paths of the deployment, its records, the property lists of agents and the jobs launchd holds,
  with a log of what was moved, destroyed or started. While a verb holds the deployment lock nothing else changes them.
  Everything that can go wrong is an answer of the record \<open>machine\<close> at the instant of the call: a refused or unsynced
  write, a failed inspection, a crash before or after an effect. A program returns, fails with an error, or halts (the
  process crashed there, or a call never returned). The primitives on files are those of \<^verbatim>\<open>durable/fs.go\<close> and
  \<^verbatim>\<open>durable/write.go\<close>.
\<close>

subsection \<open>State\<close>

text \<open>A bundle: what codesign, its property list, the digest of its files and its inode say, and the files the inventory walks.\<close>

record tree =
  tr_version :: string
  tr_cdhash :: string
  tr_entitlements :: string
  tr_digest :: string
  tr_trusted :: bool
  tr_id :: "string \<times> string"
  tr_files :: "file_view list"

datatype node = Bundle tree | Plain file_view

text \<open>The contents of a record file: bytes that do not decode, or a value.\<close>

datatype 'a stored = Garbled | Stored 'a

datatype devent =
    GatePassed nat nat "string \<Rightarrow> node option"
  | SlotGate string "string \<Rightarrow> node option"
  | RenamedTo string string node
  | Destroyed string node
  | Staged string
  | Launchctl string string bool

record mstate =
  ms_tick :: nat
  ms_disk :: "string \<Rightarrow> node option"
  ms_stages :: "string list"
  ms_swap :: "swapRecord stored option"
  ms_activation :: "activationRecord stored option"
  ms_removal :: "removalRecord stored option"
  ms_services :: "string list stored option"
  ms_plists :: "string \<Rightarrow> (string \<times> bool) option"
  ms_jobs :: "string set"
  ms_log :: "devent list"

datatype fault = Calm | Refused | Unsynced | CrashBefore | CrashAfter

datatype program_stat = ProgramReady | ProgramMissing | ProgramUnfit

type_synonym jobs_answer = "(string \<times> int \<times> bool) \<times> string set"

record machine =
  mc_deployment :: deployment
  mc_agents :: "Agent list"
  mc_team :: string
  mc_signing :: string
  mc_requirement :: string
  mc_canceled :: "nat \<Rightarrow> bool"
  mc_fault :: "nat \<Rightarrow> fault"
  mc_left :: "nat \<Rightarrow> tree \<Rightarrow> tree option"
  mc_metadata :: "nat \<Rightarrow> derr option"
  mc_lock :: "nat \<Rightarrow> derr option"
  mc_inspect :: "nat \<Rightarrow> derr option"
  mc_unread :: "nat \<Rightarrow> bool"
  mc_unlisted :: "nat \<Rightarrow> bool"
  mc_unscanned :: "nat \<Rightarrow> string \<Rightarrow> bool"
  mc_temp :: "nat \<Rightarrow> (string \<times> string \<times> string) option"
  mc_copy :: "nat \<Rightarrow> tree \<Rightarrow> tree \<times> bool"
  mc_home :: "string option"
  mc_program :: "nat \<Rightarrow> string \<Rightarrow> program_stat"
  mc_launchctl :: "nat \<Rightarrow> string \<Rightarrow> string \<Rightarrow> string set \<Rightarrow> jobs_answer"
  mc_stamp :: "nat \<Rightarrow> int"
  mc_strangers :: "nat \<Rightarrow> bool"
  mc_record :: "nat \<Rightarrow> bool"

subsection \<open>Programs\<close>

datatype 'a res = Ret 'a | Fail derr | Halt

type_synonym 'a prog = "mstate \<Rightarrow> 'a res \<times> mstate"

definition ret :: "'a \<Rightarrow> 'a prog" where "ret x = (\<lambda>s. (Ret x, s))"

definition throw :: "derr \<Rightarrow> 'a prog" where "throw e = (\<lambda>s. (Fail e, s))"

definition bnd :: "'a prog \<Rightarrow> ('a \<Rightarrow> 'b prog) \<Rightarrow> 'b prog" where
  "bnd m f = (\<lambda>s. case m s of (Ret x, s') \<Rightarrow> f x s' | (Fail e, s') \<Rightarrow> (Fail e, s') | (Halt, s') \<Rightarrow> (Halt, s'))"

definition andThen :: "'a prog \<Rightarrow> 'b prog \<Rightarrow> 'b prog" where
  "andThen m n = bnd m (\<lambda>_. n)"

text \<open>Run a program for its error; run programs one after the other and join their errors, as \<open>errors.Join\<close> of calls does.\<close>

definition tried :: "'a prog \<Rightarrow> (derr + 'a) prog" where
  "tried m = (\<lambda>s. case m s of (Ret x, s') \<Rightarrow> (Ret (Inr x), s') | (Fail e, s') \<Rightarrow> (Ret (Inl e), s') | (Halt, s') \<Rightarrow> (Halt, s'))"

definition wrapped :: "(derr \<Rightarrow> derr) \<Rightarrow> 'a prog \<Rightarrow> 'a prog" where
  "wrapped f m = (\<lambda>s. case m s of (Fail e, s') \<Rightarrow> (Fail (f e), s') | r \<Rightarrow> r)"

primrec run_all :: "unit prog list \<Rightarrow> derr list prog" where
  "run_all [] = ret []"
| "run_all (m # ms) = bnd (tried m) (\<lambda>r. bnd (run_all ms) (\<lambda>es. ret (case r of Inl e \<Rightarrow> e # es | Inr _ \<Rightarrow> es)))"

definition joined :: "unit prog list \<Rightarrow> unit prog" where
  "joined ms = bnd (run_all ms) (\<lambda>es. if es = [] then ret () else throw (concat es))"

primrec each :: "('a \<Rightarrow> unit prog) \<Rightarrow> 'a list \<Rightarrow> unit prog" where
  "each f [] = ret ()"
| "each f (x # xs) = andThen (f x) (each f xs)"

definition tick :: "mstate \<Rightarrow> mstate" where "tick s = s\<lparr>ms_tick := ms_tick s + 1\<rparr>"

definition logged :: "devent \<Rightarrow> mstate \<Rightarrow> mstate" where "logged e s = s\<lparr>ms_log := e # ms_log s\<rparr>"

definition read_state :: "(mstate \<Rightarrow> 'a) \<Rightarrow> 'a prog" where "read_state f = (\<lambda>s. (Ret (f s), s))"

subsection \<open>Durable primitives\<close>

text \<open>One change of the file system: done, refused, done without the sync that makes it durable, or cut off by a crash.\<close>

definition change :: "machine \<Rightarrow> (mstate \<Rightarrow> mstate) \<Rightarrow> unit prog" where
  "change w f = (\<lambda>s.
    case mc_fault w (ms_tick s) of
      Calm \<Rightarrow> (Ret (), f (tick s))
    | Refused \<Rightarrow> (Fail [DeployOther], tick s)
    | Unsynced \<Rightarrow> (Fail [DeployOther], f (tick s))
    | CrashBefore \<Rightarrow> (Halt, tick s)
    | CrashAfter \<Rightarrow> (Halt, f (tick s)))"

definition moved_to :: "string \<Rightarrow> string \<Rightarrow> node \<Rightarrow> mstate \<Rightarrow> mstate" where
  "moved_to from to n s = logged (RenamedTo from to n) (s\<lparr>ms_disk := (ms_disk s)(to \<mapsto> n, from := None)\<rparr>)"

text \<open>
  \<open>Rename\<close> and \<open>RenameNew\<close>: a missing source and an occupied target are refused, the latter by \<open>RenameNew\<close> with its own error.
  rename(2) would replace an empty directory; every caller checks or clears the target under the deployment lock first.
\<close>

definition durable_Rename :: "machine \<Rightarrow> string \<Rightarrow> string \<Rightarrow> unit prog" where
  "durable_Rename w from to = (\<lambda>s.
    case ms_disk s from of
      None \<Rightarrow> (Fail [DeployOther], tick s)
    | Some n \<Rightarrow> if ms_disk s to \<noteq> None then (Fail [DeployOther], tick s) else change w (moved_to from to n) s)"

definition durable_RenameNew :: "machine \<Rightarrow> string \<Rightarrow> string \<Rightarrow> unit prog" where
  "durable_RenameNew w from to = (\<lambda>s.
    case ms_disk s from of
      None \<Rightarrow> (Fail [DeployOther], tick s)
    | Some n \<Rightarrow> if ms_disk s to \<noteq> None then (Fail [ErrExist], tick s) else change w (moved_to from to n) s)"

text \<open>What a removal that did not finish leaves: part of the tree under its inode, or nothing.\<close>

definition leftover :: "machine \<Rightarrow> nat \<Rightarrow> node \<Rightarrow> node option" where
  "leftover w t n = (case n of Plain f \<Rightarrow> Some (Plain f) | Bundle tr \<Rightarrow> map_option (\<lambda>l. Bundle (l\<lparr>tr_id := tr_id tr\<rparr>)) (mc_left w t tr))"

definition durable_RemoveTree :: "machine \<Rightarrow> string \<Rightarrow> unit prog" where
  "durable_RemoveTree w p = (\<lambda>s.
    case ms_disk s p of
      None \<Rightarrow> (Ret (), tick s)
    | Some n \<Rightarrow>
        (let gone = logged (Destroyed p n) ((tick s)\<lparr>ms_disk := (ms_disk s)(p := None)\<rparr>);
             part = logged (Destroyed p n) ((tick s)\<lparr>ms_disk := (ms_disk s)(p := leftover w (ms_tick s) n)\<rparr>) in
         case mc_fault w (ms_tick s) of
           Calm \<Rightarrow> (Ret (), gone)
         | Refused \<Rightarrow> (Fail [DeployOther], part)
         | Unsynced \<Rightarrow> (Fail [DeployOther], gone)
         | CrashBefore \<Rightarrow> (Halt, part)
         | CrashAfter \<Rightarrow> (Halt, gone)))"

text \<open>\<open>WriteFile\<close> and \<open>Remove\<close> on the four records: the field of the state is replaced, or cleared.\<close>

definition write_swap :: "machine \<Rightarrow> swapRecord \<Rightarrow> unit prog" where
  "write_swap w r = change w (\<lambda>s. s\<lparr>ms_swap := Some (Stored r)\<rparr>)"

definition write_activation :: "machine \<Rightarrow> activationRecord \<Rightarrow> unit prog" where
  "write_activation w r = change w (\<lambda>s. s\<lparr>ms_activation := Some (Stored r)\<rparr>)"

definition write_removal :: "machine \<Rightarrow> removalRecord \<Rightarrow> unit prog" where
  "write_removal w r = change w (\<lambda>s. s\<lparr>ms_removal := Some (Stored r)\<rparr>)"

definition write_services :: "machine \<Rightarrow> string list \<Rightarrow> unit prog" where
  "write_services w ls = change w (\<lambda>s. s\<lparr>ms_services := Some (Stored ls)\<rparr>)"

definition remove_swap :: "machine \<Rightarrow> unit prog" where
  "remove_swap w = (\<lambda>s. if ms_swap s = None then (Ret (), tick s) else change w (\<lambda>s. s\<lparr>ms_swap := None\<rparr>) s)"

definition remove_activation :: "machine \<Rightarrow> unit prog" where
  "remove_activation w = (\<lambda>s. if ms_activation s = None then (Ret (), tick s) else change w (\<lambda>s. s\<lparr>ms_activation := None\<rparr>) s)"

definition remove_removal :: "machine \<Rightarrow> unit prog" where
  "remove_removal w = (\<lambda>s. if ms_removal s = None then (Ret (), tick s) else change w (\<lambda>s. s\<lparr>ms_removal := None\<rparr>) s)"

definition remove_services :: "machine \<Rightarrow> unit prog" where
  "remove_services w = (\<lambda>s. if ms_services s = None then (Ret (), tick s) else change w (\<lambda>s. s\<lparr>ms_services := None\<rparr>) s)"

text \<open>\<open>readRecord\<close>: absence is an answer; a file that cannot be read, does not decode or does not validate is an error.\<close>

definition readRecord :: "machine \<Rightarrow> (mstate \<Rightarrow> 'a stored option) \<Rightarrow> ('a \<Rightarrow> bool) \<Rightarrow> 'a option prog" where
  "readRecord w field valid = (\<lambda>s.
    if mc_unread w (ms_tick s) then (Fail [DeployOther], tick s)
    else (case field s of
        None \<Rightarrow> (Ret None, tick s)
      | Some Garbled \<Rightarrow> (Fail [ErrState], tick s)
      | Some (Stored r) \<Rightarrow> (if valid r then Ret (Some r) else Fail [ErrState], tick s)))"

definition fileExists :: "string \<Rightarrow> bool prog" where
  "fileExists p = read_state (\<lambda>s. ms_disk s p \<noteq> None)"

lemma bnd_ret [simp]: "bnd (ret x) f = f x"
  by (simp add: bnd_def ret_def)

lemma bnd_throw [simp]: "bnd (throw e) f = throw e"
  by (simp add: bnd_def throw_def)

lemma bnd_assoc: "bnd (bnd m f) g = bnd m (\<lambda>x. bnd (f x) g)"
  by (auto simp: bnd_def fun_eq_iff split: prod.splits res.splits)

subsection \<open>What a program ensures\<close>

text \<open>
  \<open>wp m Q E s\<close>: run from \<open>s\<close> the program returns a value and a state in \<open>Q\<close>, or fails or halts in a state in \<open>E\<close>. A crash
  is a halt, so \<open>E\<close> speaks of every state a crash can leave.
\<close>

definition wp :: "'a prog \<Rightarrow> ('a \<Rightarrow> mstate \<Rightarrow> bool) \<Rightarrow> (mstate \<Rightarrow> bool) \<Rightarrow> mstate \<Rightarrow> bool" where
  "wp m Q E s = (case m s of (Ret x, s') \<Rightarrow> Q x s' | (Fail e, s') \<Rightarrow> E s' | (Halt, s') \<Rightarrow> E s')"

named_theorems wp_simps "what the constructs of programs ensure"

lemma wp_cong: "m s = m' s' \<Longrightarrow> wp m Q E s = wp m' Q E s'"
  by (simp add: wp_def)

lemma wp_weaken: "wp m Q E s \<Longrightarrow> (\<And>x s'. Q x s' \<Longrightarrow> Q' x s') \<Longrightarrow> (\<And>s'. E s' \<Longrightarrow> E' s') \<Longrightarrow> wp m Q' E' s"
  by (auto simp: wp_def split: prod.splits res.splits)

lemma wp_conj: "wp m Q E s \<Longrightarrow> wp m Q' E' s \<Longrightarrow> wp m (\<lambda>x s. Q x s \<and> Q' x s) (\<lambda>s. E s \<and> E' s) s"
  by (auto simp: wp_def split: prod.splits res.splits)

lemma wp_ret [wp_simps]: "wp (ret x) Q E s = Q x s"
  by (simp add: wp_def ret_def)

lemma wp_throw [wp_simps]: "wp (throw e) Q E s = E s"
  by (simp add: wp_def throw_def)

lemma wp_read [wp_simps]: "wp (read_state f) Q E s = Q (f s) s"
  by (simp add: wp_def read_state_def)

lemma wp_bnd [wp_simps]: "wp (bnd m f) Q E s = wp m (\<lambda>x. wp (f x) Q E) E s"
  by (auto simp: wp_def bnd_def split: prod.splits res.splits)

lemma wp_andThen [wp_simps]: "wp (andThen m n) Q E s = wp m (\<lambda>_. wp n Q E) E s"
  by (simp add: andThen_def wp_bnd)

lemma wp_tried: "wp (tried m) Q E s = (case m s of (Ret x, s') \<Rightarrow> Q (Inr x) s' | (Fail e, s') \<Rightarrow> Q (Inl e) s' | (Halt, s') \<Rightarrow> E s')"
  by (auto simp: wp_def tried_def split: prod.splits res.splits)

lemma wp_tried_rule: "wp m (\<lambda>x s'. Q (Inr x) s') (\<lambda>s'. (\<forall>e. Q (Inl e) s') \<and> E s') s \<Longrightarrow> wp (tried m) Q E s"
  unfolding wp_tried by (auto simp: wp_def split: prod.splits res.splits)

lemma wp_wrapped [wp_simps]: "wp (wrapped f m) Q E s = wp m Q E s"
  by (auto simp: wp_def wrapped_def split: prod.splits res.splits)

lemma wp_if: "wp (if b then m else n) Q E s = (if b then wp m Q E s else wp n Q E s)"
  by simp

lemma wp_exists [wp_simps]: "wp (fileExists p) Q E s = Q (ms_disk s p \<noteq> None) s"
  by (simp add: fileExists_def wp_read)

text \<open>What each program of a list keeps, the list keeps.\<close>

lemma wp_run_all:
  assumes "\<And>m s. m \<in> set ms \<Longrightarrow> I s \<Longrightarrow> wp m (\<lambda>_. I) I s" "I s"
  shows "wp (run_all ms) (\<lambda>_. I) I s"
  using assms
proof (induction ms arbitrary: s)
  case (Cons m ms)
  have "wp m (\<lambda>_. I) I s" using Cons.prems by simp
  then have "wp (tried m) (\<lambda>_. I) I s" by (intro wp_tried_rule) (erule wp_weaken, auto)
  moreover have "wp (run_all ms) (\<lambda>_. I) I s'" if "I s'" for s' using Cons that by simp
  ultimately show ?case unfolding run_all.simps wp_bnd wp_ret by (rule wp_weaken) simp_all
qed (simp add: wp_ret)

lemma wp_joined:
  assumes "\<And>m s. m \<in> set ms \<Longrightarrow> I s \<Longrightarrow> wp m (\<lambda>_. I) I s" "I s"
  shows "wp (joined ms) (\<lambda>_. I) I s"
proof -
  have "wp (run_all ms) (\<lambda>_. I) I s" by (rule wp_run_all) (use assms in auto)
  then show ?thesis by (simp add: joined_def wp_bnd) (erule wp_weaken, auto simp: wp_ret wp_throw)
qed

lemma wp_each:
  assumes "\<And>x s. x \<in> set xs \<Longrightarrow> I s \<Longrightarrow> wp (f x) (\<lambda>_. I) I s" "I s"
  shows "wp (each f xs) (\<lambda>_. I) I s"
  using assms
proof (induction xs arbitrary: s)
  case (Cons x xs)
  have "wp (f x) (\<lambda>_. I) I s" using Cons.prems by simp
  moreover have "wp (each f xs) (\<lambda>_. I) I s'" if "I s'" for s' using Cons that by simp
  ultimately show ?case unfolding each.simps wp_andThen by (rule wp_weaken)
qed (simp add: wp_ret)

lemma wp_change:
  assumes "Q () (f (tick s))" "E (tick s)" "E (f (tick s))"
  shows "wp (change w f) Q E s"
  using assms by (auto simp: wp_def change_def split: fault.splits)

subsection \<open>What a program keeps\<close>

text \<open>A condition a program keeps holds after it returned, failed or halted anywhere, when it held before.\<close>

definition keeps :: "(mstate \<Rightarrow> bool) \<Rightarrow> 'a prog \<Rightarrow> bool" where
  "keeps I m \<longleftrightarrow> (\<forall>s. I s \<longrightarrow> I (snd (m s)))"

named_theorems keeps_intros "introduction rules for conditions kept by programs"

lemma keeps_wp: "keeps I m \<longleftrightarrow> (\<forall>s. I s \<longrightarrow> wp m (\<lambda>_. I) I s)"
  unfolding keeps_def by (intro arg_cong [where f = All] ext) (auto simp: wp_def split: prod.splits res.splits)

lemma keepsD: "keeps I m \<Longrightarrow> I s \<Longrightarrow> wp m (\<lambda>_. I) I s"
  by (simp add: keeps_wp)

lemma keeps_outcome: "keeps I m \<Longrightarrow> I s \<Longrightarrow> m s = (r, s') \<Longrightarrow> I s'"
  unfolding keeps_def by (metis snd_conv)

lemma keeps_ret [keeps_intros]: "keeps I (ret x)"
  by (simp add: keeps_wp wp_ret)

lemma keeps_throw [keeps_intros]: "keeps I (throw e)"
  by (simp add: keeps_wp wp_throw)

lemma keeps_read [keeps_intros]: "keeps I (read_state f)"
  by (simp add: keeps_wp wp_read)

lemma keeps_bnd [keeps_intros]: "keeps I m \<Longrightarrow> (\<And>x. keeps I (f x)) \<Longrightarrow> keeps I (bnd m f)"
  unfolding keeps_wp wp_bnd by (blast intro: wp_weaken)

lemma keeps_andThen [keeps_intros]: "keeps I m \<Longrightarrow> keeps I n \<Longrightarrow> keeps I (andThen m n)"
  by (simp add: andThen_def keeps_bnd)

lemma keeps_tried [keeps_intros]: "keeps I m \<Longrightarrow> keeps I (tried m)"
  unfolding keeps_wp by (blast intro: wp_tried_rule wp_weaken)

lemma keeps_wrapped [keeps_intros]: "keeps I m \<Longrightarrow> keeps I (wrapped f m)"
  by (simp add: keeps_wp wp_wrapped)

lemma keeps_joined [keeps_intros]: "(\<And>m. m \<in> set ms \<Longrightarrow> keeps I m) \<Longrightarrow> keeps I (joined ms)"
  unfolding keeps_wp by (blast intro: wp_joined)

lemma keeps_each [keeps_intros]: "(\<And>x. x \<in> set xs \<Longrightarrow> keeps I (f x)) \<Longrightarrow> keeps I (each f xs)"
  unfolding keeps_wp by (blast intro: wp_each)

lemma keeps_if [keeps_intros]: "(b \<Longrightarrow> keeps I m) \<Longrightarrow> (\<not> b \<Longrightarrow> keeps I n) \<Longrightarrow> keeps I (if b then m else n)"
  by simp

lemma keeps_option [keeps_intros]: "keeps I m \<Longrightarrow> (\<And>x. keeps I (f x)) \<Longrightarrow> keeps I (case y of None \<Rightarrow> m | Some x \<Rightarrow> f x)"
  by (simp split: option.split)

lemma keeps_sum [keeps_intros]: "(\<And>x. keeps I (f x)) \<Longrightarrow> (\<And>x. keeps I (g x)) \<Longrightarrow> keeps I (case y of Inl x \<Rightarrow> f x | Inr x \<Rightarrow> g x)"
  by (simp split: sum.split)

lemma keeps_prod [keeps_intros]: "(\<And>a b. keeps I (f a b)) \<Longrightarrow> keeps I (case y of (a, b) \<Rightarrow> f a b)"
  by (simp split: prod.split)

lemma keeps_change: "(\<And>s. I s \<Longrightarrow> I (tick s)) \<Longrightarrow> (\<And>s. I s \<Longrightarrow> I (f s)) \<Longrightarrow> keeps I (change w f)"
  unfolding keeps_wp by (blast intro: wp_change)

lemma keeps_exists [keeps_intros]: "keeps I (fileExists p)"
  by (simp add: fileExists_def keeps_read)

lemma keeps_readRecord: "(\<And>s. I s \<Longrightarrow> I (tick s)) \<Longrightarrow> keeps I (readRecord w field valid)"
  by (auto simp: keeps_wp wp_def readRecord_def split: option.splits stored.splits)

end
