(* ===== verification/Launchd.thy ===== *)
theory Launchd
  imports Machine
begin

text \<open>
  Applying and removing one LaunchAgent: \<^verbatim>\<open>launchd/apply.go\<close>. launchd itself is a parameter: at each instant it answers a verb
  about a label and changes the jobs it holds. \<open>lawful_launchd\<close> is what its manual promises of the verbs. Nothing else writes
  the property list of a label during a call, so the file set aside by \<open>removePublished\<close> is the one this call published.
\<close>

subsection \<open>Calls\<close>

definition world_of :: "machine \<Rightarrow> world" where
  "world_of w = bd_world (dp_boundary (mc_deployment w))"

definition launchctl :: "machine \<Rightarrow> string \<Rightarrow> string \<Rightarrow> launchctlOutcomeKind prog" where
  "launchctl w verb label = (\<lambda>s.
    case mc_launchctl w (ms_tick s) verb label (ms_jobs s) of (answer, jobs) \<Rightarrow>
    let kind = launchctlOutcome answer; s' = logged (Launchctl verb label (kind = launchctlLoaded)) ((tick s)\<lparr>ms_jobs := jobs\<rparr>) in
    case mc_fault w (ms_tick s) of
      CrashBefore \<Rightarrow> (Halt, tick s)
    | CrashAfter \<Rightarrow> (Halt, s')
    | _ \<Rightarrow> (Ret kind, s'))"

definition read_plist :: "machine \<Rightarrow> string \<Rightarrow> (string \<times> bool) option prog" where
  "read_plist w path = (\<lambda>s. (if mc_unread w (ms_tick s) then Fail [DeployOther] else Ret (ms_plists s path), tick s))"

definition write_plist :: "machine \<Rightarrow> string \<Rightarrow> string \<Rightarrow> unit prog" where
  "write_plist w path body = change w (\<lambda>s. s\<lparr>ms_plists := (ms_plists s)(path \<mapsto> (body, True))\<rparr>)"

definition remove_plist :: "machine \<Rightarrow> string \<Rightarrow> unit prog" where
  "remove_plist w path = (\<lambda>s. if ms_plists s path = None then (Ret (), tick s)
     else change w (\<lambda>s. s\<lparr>ms_plists := (ms_plists s)(path := None)\<rparr>) s)"

definition make_directory :: "machine \<Rightarrow> unit prog" where
  "make_directory w = change w id"

definition plist_path :: "machine \<Rightarrow> string \<Rightarrow> string prog" where
  "plist_path w label = (case plistPath (mc_home w) label of None \<Rightarrow> throw [DeployOther] | Some p \<Rightarrow> ret p)"

definition stat_program :: "machine \<Rightarrow> Agent \<Rightarrow> program_stat prog" where
  "stat_program w a = (\<lambda>s. (Ret (case programPath a of None \<Rightarrow> ProgramUnfit | Some p \<Rightarrow> mc_program w (ms_tick s) p), tick s))"

definition validateProgramTree :: "machine \<Rightarrow> Agent \<Rightarrow> unit prog" where
  "validateProgramTree w a = bnd (stat_program w a) (\<lambda>st. if st = ProgramReady then ret () else throw [DeployOther])"

definition rendered :: "Agent \<Rightarrow> string prog" where
  "rendered a = (case Plist a of None \<Rightarrow> throw [DeployOther] | Some p \<Rightarrow> ret p)"

definition waitRetry :: "machine \<Rightarrow> unit prog" where
  "waitRetry w = (\<lambda>s. (if w_ended (world_of w) (ms_tick s) then Fail [OfRoot RootDeadline] else Ret (), tick s))"

subsection \<open>Attempts\<close>

definition bootstrapAttempts :: nat where "bootstrapAttempts = 3"

primrec settle_attempts :: "machine \<Rightarrow> launchctlOutcomeKind prog \<Rightarrow> nat \<Rightarrow> unit prog" where
  "settle_attempts w once 0 = throw [DeployOther]"
| "settle_attempts w once (Suc n) = bnd once (\<lambda>kind.
    if kind = launchctlLoaded then ret ()
    else if kind \<noteq> launchctlInFlux then throw [DeployOther]
    else if n = 0 then throw [DeployOther]
    else andThen (waitRetry w) (settle_attempts w once n))"

definition settle_launchctl :: "machine \<Rightarrow> launchctlOutcomeKind prog \<Rightarrow> unit prog" where
  "settle_launchctl w once = settle_attempts w once bootstrapAttempts"

definition kickstart :: "machine \<Rightarrow> string \<Rightarrow> unit prog" where
  "kickstart w label = settle_launchctl w (launchctl w ''kickstart'' label)"

definition loadOnce :: "machine \<Rightarrow> string \<Rightarrow> launchctlOutcomeKind prog" where
  "loadOnce w label =
    bnd (launchctl w ''bootout'' label) (\<lambda>bootout. if \<not> kind_settled bootout then ret bootout else
    bnd (launchctl w ''enable'' label) (\<lambda>enable. if enable \<noteq> launchctlLoaded then ret enable else
    bnd (launchctl w ''bootstrap'' label) (\<lambda>bootstrap. if bootstrap \<noteq> launchctlLoaded then ret bootstrap else
    launchctl w ''kickstart'' label)))"

definition reload :: "machine \<Rightarrow> string \<Rightarrow> unit prog" where
  "reload w label = settle_launchctl w (loadOnce w label)"

subsection \<open>Apply\<close>

definition launchd_verify :: "machine \<Rightarrow> Agent \<Rightarrow> bool prog" where
  "launchd_verify w a =
    bnd (stat_program w a) (\<lambda>st.
      if st = ProgramMissing then ret False
      else if st \<noteq> ProgramReady then throw [DeployOther]
      else bnd (rendered a) (\<lambda>want. bnd (plist_path w (ag_Label a)) (\<lambda>path. bnd (read_plist w path) (\<lambda>got.
        if got \<noteq> Some (want, True) then ret False
        else bnd (launchctl w ''print'' (ag_Label a)) (\<lambda>kind.
          if kind = launchctlNotLoaded then ret False
          else if kind \<noteq> launchctlLoaded then throw [DeployOther] else ret True)))))"

definition archiveForeignPlist :: "machine \<Rightarrow> string \<Rightarrow> unit prog" where
  "archiveForeignPlist w path =
    bnd (read_plist w path) (\<lambda>got.
      case got of
        None \<Rightarrow> ret ()
      | Some (body, private) \<Rightarrow>
          if plistHasOwnerMarker body then ret ()
          else change w (\<lambda>s. s\<lparr>ms_plists := (ms_plists s)
            (path := None, path @ ''.daemonkit-archived-'' @ show_int (mc_stamp w (ms_tick s)) \<mapsto> (body, private))\<rparr>))"

definition launchd_install :: "machine \<Rightarrow> Agent \<Rightarrow> unit prog" where
  "launchd_install w a =
    andThen (validateProgramTree w a) (bnd (rendered a) (\<lambda>plist. bnd (plist_path w (ag_Label a)) (\<lambda>path.
    andThen (make_directory w) (andThen (make_directory w) (andThen (archiveForeignPlist w path) (andThen (write_plist w path plist)
    (reload w (ag_Label a))))))))"

definition applier_apply :: "machine \<Rightarrow> Agent \<Rightarrow> unit prog" where
  "applier_apply w a = bnd (launchd_verify w a) (\<lambda>exact. if exact then kickstart w (ag_Label a) else launchd_install w a)"

definition canonicalAgent :: "machine \<Rightarrow> Agent \<Rightarrow> Agent prog" where
  "canonicalAgent w a = bnd (rendered a) (\<lambda>_. andThen (validateProgramTree w a) (ret (canonical_agent a)))"

definition launchd_Apply :: "machine \<Rightarrow> Agent \<Rightarrow> unit prog" where
  "launchd_Apply w a = bnd (canonicalAgent w a) (applier_apply w)"

definition launchd_Verify :: "machine \<Rightarrow> Agent \<Rightarrow> bool prog" where
  "launchd_Verify w a = launchd_verify w a"

subsection \<open>Remove\<close>

definition applier_remove :: "machine \<Rightarrow> string \<Rightarrow> unit prog" where
  "applier_remove w label =
    bnd (plist_path w label) (\<lambda>path. bnd (read_plist w path) (\<lambda>got.
      case got of
        None \<Rightarrow> ret ()
      | Some (body, private) \<Rightarrow>
          if \<not> plistHasOwnerMarker body then throw [ErrNotOwned]
          else bnd (launchctl w ''bootout'' label) (\<lambda>kind.
            if \<not> kind_settled kind then throw [DeployOther] else remove_plist w path)))"

definition launchd_Remove :: "machine \<Rightarrow> string \<Rightarrow> unit prog" where
  "launchd_Remove w label = (if \<not> label_Validate label then throw [DeployOther] else applier_remove w label)"

subsection \<open>A first install\<close>

definition applier_requireAbsent :: "machine \<Rightarrow> string \<Rightarrow> unit prog" where
  "applier_requireAbsent w label =
    bnd (plist_path w label) (\<lambda>path. bnd (read_plist w path) (\<lambda>got.
      if got \<noteq> None then throw [ErrPresent]
      else bnd (launchctl w ''print'' label) (\<lambda>kind.
        if kind = launchctlNotLoaded then ret () else if kind = launchctlLoaded then throw [ErrPresent] else throw [DeployOther])))"

definition launchd_RequireAbsent :: "machine \<Rightarrow> string \<Rightarrow> unit prog" where
  "launchd_RequireAbsent w label = (if \<not> label_Validate label then throw [DeployOther] else applier_requireAbsent w label)"

definition removePublished :: "machine \<Rightarrow> string \<Rightarrow> unit prog" where
  "removePublished w path =
    bnd (read_state (\<lambda>s. (ms_plists s path, path @ ''.daemonkit-removing-'' @ show_int (mc_stamp w (ms_tick s))))) (\<lambda>(got, aside).
      case got of
        None \<Rightarrow> ret ()
      | Some x \<Rightarrow> andThen (change w (\<lambda>s. s\<lparr>ms_plists := (ms_plists s)(path := None, aside \<mapsto> x)\<rparr>)) (remove_plist w aside))"

definition bootstrapFresh :: "machine \<Rightarrow> string \<Rightarrow> unit prog" where
  "bootstrapFresh w label =
    bnd (tried (settle_launchctl w (bnd (launchctl w ''enable'' label) (\<lambda>enable.
        if enable \<noteq> launchctlLoaded then ret enable else launchctl w ''bootstrap'' label)))) (\<lambda>r.
      case r of
        Inr _ \<Rightarrow> ret ()
      | Inl e \<Rightarrow> bnd (launchctl w ''print'' label) (\<lambda>kind. if kind = launchctlLoaded then throw (ErrPresent # e) else throw e))"

definition publish_new :: "machine \<Rightarrow> string \<Rightarrow> string \<Rightarrow> unit prog" where
  "publish_new w path plist =
    bnd (read_state (\<lambda>s. ms_plists s path)) (\<lambda>there.
      if there \<noteq> None then throw [ErrPresent, ErrExist]
      else bnd (tried (write_plist w path plist)) (\<lambda>r.
        case r of
          Inr _ \<Rightarrow> ret ()
        | Inl e \<Rightarrow> bnd (read_state (\<lambda>s. ms_plists s path)) (\<lambda>published.
            if published \<noteq> None then joined [throw e, removePublished w path] else throw e)))"

definition installFresh :: "machine \<Rightarrow> Agent \<Rightarrow> string \<Rightarrow> unit prog" where
  "installFresh w a path =
    andThen (validateProgramTree w a) (bnd (rendered a) (\<lambda>plist.
    andThen (make_directory w) (andThen (make_directory w) (andThen (publish_new w path plist)
    (bnd (tried (bootstrapFresh w (ag_Label a))) (\<lambda>r.
      case r of Inl e \<Rightarrow> joined [throw e, removePublished w path] | Inr _ \<Rightarrow> kickstart w (ag_Label a)))))))"

definition applier_applyFresh :: "machine \<Rightarrow> Agent \<Rightarrow> unit prog" where
  "applier_applyFresh w a =
    andThen (applier_requireAbsent w (ag_Label a)) (bnd (plist_path w (ag_Label a)) (installFresh w a))"

definition launchd_ApplyFresh :: "machine \<Rightarrow> Agent \<Rightarrow> unit prog" where
  "launchd_ApplyFresh w a = bnd (canonicalAgent w a) (applier_applyFresh w)"

subsection \<open>What launchd promises\<close>

definition lawful_launchd :: "machine \<Rightarrow> bool" where
  "lawful_launchd w \<longleftrightarrow> (\<forall>t verb label jobs answer jobs'. mc_launchctl w t verb label jobs = (answer, jobs') \<longrightarrow>
     jobs' - {label} = jobs - {label}
     \<and> (verb \<in> {''print'', ''enable'', ''kickstart''} \<longrightarrow> jobs' = jobs)
     \<and> (verb = ''bootout'' \<longrightarrow> jobs' \<subseteq> jobs \<and> (kind_settled (launchctlOutcome answer) \<longrightarrow> label \<notin> jobs'))
     \<and> (verb = ''print'' \<longrightarrow> (launchctlOutcome answer = launchctlLoaded \<longrightarrow> label \<in> jobs)
          \<and> (launchctlOutcome answer = launchctlNotLoaded \<longrightarrow> label \<notin> jobs))
     \<and> (verb = ''bootstrap'' \<and> launchctlOutcome answer = launchctlLoaded \<longrightarrow> label \<in> jobs'))"

subsection \<open>One label\<close>

definition aside_of :: "string \<Rightarrow> string \<Rightarrow> bool" where
  "aside_of p q \<longleftrightarrow> (\<exists>n. q = p @ ''.daemonkit-archived-'' @ show_int n \<or> q = p @ ''.daemonkit-removing-'' @ show_int n)"

text \<open>Between two states nothing changed but the job of one label, the file at its path and files set aside from it.\<close>

definition only_agent :: "string \<Rightarrow> string \<Rightarrow> mstate \<Rightarrow> mstate \<Rightarrow> bool" where
  "only_agent label p s s' \<longleftrightarrow> ms_jobs s' - {label} = ms_jobs s - {label}
    \<and> (\<forall>q. q \<noteq> p \<and> \<not> aside_of p q \<longrightarrow> ms_plists s' q = ms_plists s q)
    \<and> ms_disk s' = ms_disk s \<and> ms_stages s' = ms_stages s \<and> ms_swap s' = ms_swap s \<and> ms_activation s' = ms_activation s
    \<and> ms_removal s' = ms_removal s \<and> ms_services s' = ms_services s
    \<and> (\<exists>ext. ms_log s' = ext @ ms_log s \<and> (\<forall>e\<in>set ext. \<exists>verb ok. e = Launchctl verb label ok))"

lemma only_agent_refl [simp]: "only_agent label p s s"
  by (simp add: only_agent_def)

lemma only_agent_step:
  assumes "only_agent label p s0 s" "ms_jobs s' - {label} = ms_jobs s - {label}"
    "\<forall>q. q \<noteq> p \<and> \<not> aside_of p q \<longrightarrow> ms_plists s' q = ms_plists s q"
    "ms_disk s' = ms_disk s" "ms_stages s' = ms_stages s" "ms_swap s' = ms_swap s" "ms_activation s' = ms_activation s"
    "ms_removal s' = ms_removal s" "ms_services s' = ms_services s"
    "ms_log s' = ms_log s \<or> (\<exists>verb ok. ms_log s' = Launchctl verb label ok # ms_log s)"
  shows "only_agent label p s0 s'"
proof -
  obtain ext where ext: "ms_log s = ext @ ms_log s0" "\<forall>e\<in>set ext. \<exists>verb ok. e = Launchctl verb label ok"
    using assms(1) by (auto simp: only_agent_def)
  have "\<exists>ext. ms_log s' = ext @ ms_log s0 \<and> (\<forall>e\<in>set ext. \<exists>verb ok. e = Launchctl verb label ok)"
    using assms(10)
  proof (elim disjE exE)
    assume "ms_log s' = ms_log s"
    then show ?thesis using ext by auto
  next
    fix verb ok
    assume "ms_log s' = Launchctl verb label ok # ms_log s"
    then show ?thesis using ext by (intro exI [of _ "Launchctl verb label ok # ext"]) auto
  qed
  then show ?thesis using assms unfolding only_agent_def by simp
qed

lemma only_agent_tick [simp]: "only_agent label p s0 s \<Longrightarrow> only_agent label p s0 (tick s)"
  by (erule only_agent_step) (simp_all add: tick_def)

lemma only_agent_plists:
  "only_agent label p s0 s \<Longrightarrow> \<forall>q. q \<noteq> p \<and> \<not> aside_of p q \<longrightarrow> f q = ms_plists s q \<Longrightarrow> only_agent label p s0 (s\<lparr>ms_plists := f\<rparr>)"
  by (erule only_agent_step) simp_all

lemma keeps_plist_path: "(\<And>p. plistPath (mc_home w) label = Some p \<Longrightarrow> keeps I (f p)) \<Longrightarrow> keeps I (bnd (plist_path w label) f)"
  by (cases "plistPath (mc_home w) label") (auto simp: plist_path_def keeps_throw)

lemma keeps_rendered: "(\<And>b. Plist a = Some b \<Longrightarrow> keeps I (f b)) \<Longrightarrow> keeps I (bnd (rendered a) f)"
  by (cases "Plist a") (auto simp: rendered_def keeps_throw)

text \<open>The calls that change nothing but the clock.\<close>

lemma keeps_pure:
  assumes "\<And>s. I s \<Longrightarrow> I (tick s)"
  shows "keeps I (read_plist w path)" "keeps I (make_directory w)" "keeps I (stat_program w a)" "keeps I (validateProgramTree w a)"
    "keeps I (waitRetry w)"
proof -
  show 1: "keeps I (stat_program w a)" using assms by (simp add: keeps_def stat_program_def)
  show "keeps I (validateProgramTree w a)" unfolding validateProgramTree_def by (intro keeps_intros 1)
  show "keeps I (make_directory w)" unfolding make_directory_def by (rule keeps_change) (use assms in auto)
qed (use assms in \<open>simp_all add: keeps_def read_plist_def waitRetry_def\<close>)

lemma keeps_settle:
  assumes "keeps I once" "\<And>s. I s \<Longrightarrow> I (tick s)"
  shows "keeps I (settle_launchctl w once)"
proof -
  have "keeps I (settle_attempts w once n)" for n
    by (induction n) (auto intro!: keeps_intros assms keeps_pure)
  then show ?thesis by (simp add: settle_launchctl_def)
qed

lemma launchctl_cases:
  assumes "mc_launchctl w (ms_tick s) verb label (ms_jobs s) = (answer, jobs)"
    and "E (tick s)" and "E (logged (Launchctl verb label (launchctlOutcome answer = launchctlLoaded)) ((tick s)\<lparr>ms_jobs := jobs\<rparr>))"
    and "Q (launchctlOutcome answer) (logged (Launchctl verb label (launchctlOutcome answer = launchctlLoaded)) ((tick s)\<lparr>ms_jobs := jobs\<rparr>))"
  shows "wp (launchctl w verb label) Q E s"
  using assms by (auto simp: wp_def launchctl_def Let_def split: fault.splits)

lemma keeps_launchctl:
  assumes "lawful_launchd w"
  shows "keeps (only_agent label p s0) (launchctl w verb label)"
  unfolding keeps_wp
proof (intro allI impI)
  fix s
  assume o: "only_agent label p s0 s"
  obtain answer jobs where l: "mc_launchctl w (ms_tick s) verb label (ms_jobs s) = (answer, jobs)" by fastforce
  have "jobs - {label} = ms_jobs s - {label}" using assms l unfolding lawful_launchd_def by blast
  then have "only_agent label p s0 (logged (Launchctl verb label k) ((tick s)\<lparr>ms_jobs := jobs\<rparr>))" for k
    using o by (elim only_agent_step) (auto simp: tick_def logged_def)
  then show "wp (launchctl w verb label) (\<lambda>_. only_agent label p s0) (only_agent label p s0) s"
    using o l by (auto intro: launchctl_cases)
qed

lemma keeps_write_plist: "keeps (only_agent label p s0) (write_plist w p body)"
  unfolding write_plist_def by (rule keeps_change) (auto intro: only_agent_plists)

lemma keeps_remove_plist: "q = p \<or> aside_of p q \<Longrightarrow> keeps (only_agent label p s0) (remove_plist w q)"
proof -
  assume q: "q = p \<or> aside_of p q"
  have "keeps (only_agent label p s0) (change w (\<lambda>s. s\<lparr>ms_plists := (ms_plists s)(q := None)\<rparr>))"
    by (rule keeps_change) (use q in \<open>auto intro: only_agent_plists\<close>)
  then show ?thesis by (auto simp: keeps_def remove_plist_def)
qed

lemma keeps_archive: "keeps (only_agent label p s0) (archiveForeignPlist w p)"
  unfolding archiveForeignPlist_def
  by (intro keeps_intros keeps_pure keeps_change only_agent_tick) (auto intro!: only_agent_plists simp: aside_of_def)

lemma keeps_removePublished: "keeps (only_agent label p s0) (removePublished w p)"
proof -
  have "keeps (only_agent label p s0) (case got of None \<Rightarrow> ret ()
      | Some x \<Rightarrow> andThen (change w (\<lambda>s. s\<lparr>ms_plists := (ms_plists s)(p := None, aside \<mapsto> x)\<rparr>)) (remove_plist w aside))"
    if "aside_of p aside" for got aside
    by (intro keeps_intros keeps_change keeps_remove_plist only_agent_tick) (use that in \<open>auto intro!: only_agent_plists\<close>)
  then show ?thesis
    by (auto simp: removePublished_def keeps_def bnd_def read_state_def aside_of_def)
qed

lemmas keeps_agent_calls = keeps_intros keeps_pure keeps_settle keeps_launchctl keeps_write_plist keeps_remove_plist keeps_archive
  keeps_removePublished only_agent_tick keeps_plist_path keeps_rendered

lemma canonicalAgent_then: "bnd (canonicalAgent w a) f = bnd (rendered a) (\<lambda>_. andThen (validateProgramTree w a) (f (canonical_agent a)))"
  by (simp add: canonicalAgent_def bnd_assoc andThen_def)

lemma keeps_apply:
  assumes "lawful_launchd w" "plistPath (mc_home w) (ag_Label a) = Some p"
  shows "keeps (only_agent (ag_Label a) p s0) (launchd_Apply w a)"
proof -
  have path: "bnd (plist_path w (ag_Label a)) f = f p" for f :: "string \<Rightarrow> 'b prog" using assms(2) by (simp add: plist_path_def)
  have "keeps (only_agent (ag_Label a) p s0) (applier_apply w (canonical_agent a))"
    unfolding applier_apply_def launchd_verify_def launchd_install_def kickstart_def reload_def loadOnce_def canonical_agent_simps path
    by (intro keeps_agent_calls assms(1))
  then show ?thesis unfolding launchd_Apply_def canonicalAgent_then by (intro keeps_agent_calls)
qed

lemma keeps_remove:
  assumes "lawful_launchd w" "plistPath (mc_home w) label = Some p"
  shows "keeps (only_agent label p s0) (launchd_Remove w label)"
proof -
  have path: "bnd (plist_path w label) f = f p" for f :: "string \<Rightarrow> 'b prog" using assms(2) by (simp add: plist_path_def)
  show ?thesis unfolding launchd_Remove_def applier_remove_def path by (intro keeps_agent_calls assms(1) disjI1 refl)
qed

lemma keeps_applyFresh:
  assumes "lawful_launchd w" "plistPath (mc_home w) (ag_Label a) = Some p"
  shows "keeps (only_agent (ag_Label a) p s0) (launchd_ApplyFresh w a)"
proof -
  have path: "bnd (plist_path w (ag_Label a)) f = f p" for f :: "string \<Rightarrow> 'b prog" using assms(2) by (simp add: plist_path_def)
  have j: "keeps I (joined [throw e, m])" if "keeps I m" for I e m using that by (intro keeps_joined) (auto intro: keeps_throw)
  have "keeps (only_agent (ag_Label a) p s0) (applier_applyFresh w (canonical_agent a))"
    unfolding applier_applyFresh_def applier_requireAbsent_def installFresh_def publish_new_def bootstrapFresh_def kickstart_def
      canonical_agent_simps path
    by (intro keeps_agent_calls j assms(1))
  then show ?thesis unfolding launchd_ApplyFresh_def canonicalAgent_then by (intro keeps_agent_calls)
qed

subsection \<open>Jobs have their files\<close>

text \<open>A loaded job has a property list at its path, and what is at the path is ours.\<close>

definition backed :: "string \<Rightarrow> string \<Rightarrow> mstate \<Rightarrow> bool" where
  "backed label p s \<longleftrightarrow> (label \<in> ms_jobs s \<longrightarrow> ms_plists s p \<noteq> None) \<and> (\<forall>x. ms_plists s p = Some x \<longrightarrow> plistHasOwnerMarker (fst x))"

lemma backed_tick [simp]: "backed label p (tick s) = backed label p s"
  by (simp add: backed_def tick_def)

lemma launchctl_wp:
  assumes "lawful_launchd w"
    and "E (tick s)"
    and "\<And>kind jobs. jobs - {label} = ms_jobs s - {label} \<Longrightarrow> (verb \<in> {''print'', ''enable'', ''kickstart''} \<Longrightarrow> jobs = ms_jobs s)
      \<Longrightarrow> (verb = ''bootout'' \<Longrightarrow> jobs \<subseteq> ms_jobs s \<and> (kind_settled kind \<longrightarrow> label \<notin> jobs))
      \<Longrightarrow> (verb = ''print'' \<Longrightarrow> (kind = launchctlLoaded \<longrightarrow> label \<in> ms_jobs s) \<and> (kind = launchctlNotLoaded \<longrightarrow> label \<notin> ms_jobs s))
      \<Longrightarrow> (verb = ''bootstrap'' \<Longrightarrow> kind = launchctlLoaded \<Longrightarrow> label \<in> jobs)
      \<Longrightarrow> (let s' = logged (Launchctl verb label (kind = launchctlLoaded)) ((tick s)\<lparr>ms_jobs := jobs\<rparr>) in Q kind s' \<and> E s')"
  shows "wp (launchctl w verb label) Q E s"
proof -
  obtain answer jobs where l: "mc_launchctl w (ms_tick s) verb label (ms_jobs s) = (answer, jobs)" by fastforce
  have laws: "jobs - {label} = ms_jobs s - {label}" "verb \<in> {''print'', ''enable'', ''kickstart''} \<Longrightarrow> jobs = ms_jobs s"
      "verb = ''bootout'' \<Longrightarrow> jobs \<subseteq> ms_jobs s \<and> (kind_settled (launchctlOutcome answer) \<longrightarrow> label \<notin> jobs)"
      "verb = ''print'' \<Longrightarrow> (launchctlOutcome answer = launchctlLoaded \<longrightarrow> label \<in> ms_jobs s) \<and> (launchctlOutcome answer = launchctlNotLoaded \<longrightarrow> label \<notin> ms_jobs s)"
      "verb = ''bootstrap'' \<Longrightarrow> launchctlOutcome answer = launchctlLoaded \<Longrightarrow> label \<in> jobs"
    using assms(1) [unfolded lawful_launchd_def, rule_format, OF l] by simp_all
  note q = assms(3) [OF laws, unfolded Let_def]
  show ?thesis by (rule launchctl_cases [where E = E and Q = Q, OF l]) (simp_all only: assms(2) q)
qed

text \<open>With the file in place every call keeps it, and a load that returns without error leaves the job loaded.\<close>

definition placed :: "string \<Rightarrow> string \<Rightarrow> mstate \<Rightarrow> bool" where
  "placed p body s \<longleftrightarrow> ms_plists s p = Some (body, True)"

lemma placed_simps [simp]: "placed p body (tick s) = placed p body s" "placed p body (logged e s) = placed p body s"
  "placed p body (s\<lparr>ms_jobs := jobs\<rparr>) = placed p body s"
  by (simp_all add: placed_def tick_def logged_def)

lemma keeps_placed_launchctl: "keeps (placed p body) (launchctl w verb label)"
  by (auto simp: keeps_def launchctl_def Let_def split: prod.splits fault.splits)

lemma settle_ensures:
  assumes once: "\<And>s. I s \<Longrightarrow> wp once (\<lambda>kind s'. I s' \<and> (kind = launchctlLoaded \<longrightarrow> R s')) I s" and tk: "\<And>s. I s \<Longrightarrow> I (tick s)" and "I s"
  shows "wp (settle_launchctl w once) (\<lambda>_ s'. I s' \<and> R s') I s"
proof -
  have wait: "wp (waitRetry w) (\<lambda>_. I) I s" if "I s" for s using keepsD [OF keeps_pure(5)] tk that by blast
  have "wp (settle_attempts w once n) (\<lambda>_ s'. I s' \<and> R s') I s" if "I s" for n s
    using that
  proof (induction n arbitrary: s)
    case (Suc n)
    have "wp (andThen (waitRetry w) (settle_attempts w once n)) (\<lambda>_ s'. I s' \<and> R s') I s'" if "I s'" for s'
      unfolding wp_andThen by (rule wp_weaken [OF wait [OF that]]) (use Suc.IH in auto)
    then show ?case unfolding settle_attempts.simps wp_bnd
      by (intro wp_weaken [OF once [OF Suc.prems]]) (auto simp: wp_ret wp_throw)
  qed (simp add: wp_throw)
  then show ?thesis using assms(3) by (simp add: settle_launchctl_def)
qed

lemma logged_simps [simp]:
  "ms_disk (logged e s) = ms_disk s" "ms_jobs (logged e s) = ms_jobs s" "ms_plists (logged e s) = ms_plists s" "ms_swap (logged e s) = ms_swap s"
  "ms_activation (logged e s) = ms_activation s" "ms_removal (logged e s) = ms_removal s" "ms_services (logged e s) = ms_services s"
  "ms_stages (logged e s) = ms_stages s" "ms_log (logged e s) = e # ms_log s" "ms_tick (logged e s) = ms_tick s"
  by (simp_all add: logged_def)

lemma tick_simps [simp]:
  "ms_disk (tick s) = ms_disk s" "ms_jobs (tick s) = ms_jobs s" "ms_plists (tick s) = ms_plists s" "ms_swap (tick s) = ms_swap s"
  "ms_activation (tick s) = ms_activation s" "ms_removal (tick s) = ms_removal s" "ms_services (tick s) = ms_services s"
  "ms_stages (tick s) = ms_stages s" "ms_log (tick s) = ms_log s" "ms_tick (tick s) = ms_tick s + 1"
  by (simp_all add: tick_def)

lemma wp_post: "wp m Q E s \<Longrightarrow> (\<And>x s'. Q x s' \<Longrightarrow> Q' x s') \<Longrightarrow> wp m Q' E s"
  by (erule wp_weaken) auto

lemma launchctl_placed:
  assumes "lawful_launchd w" "placed p body s"
    and "\<And>kind s'. placed p body s' \<Longrightarrow> (verb \<in> {''print'', ''enable'', ''kickstart''} \<longrightarrow> ms_jobs s' = ms_jobs s) \<Longrightarrow>
      (verb = ''bootstrap'' \<and> kind = launchctlLoaded \<longrightarrow> label \<in> ms_jobs s') \<Longrightarrow>
      (verb = ''print'' \<and> kind = launchctlLoaded \<longrightarrow> label \<in> ms_jobs s') \<Longrightarrow> Q kind s'"
  shows "wp (launchctl w verb label) Q (placed p body) s"
  by (rule launchctl_wp [OF assms(1)]) (use assms(2,3) in \<open>auto simp: Let_def\<close>)

lemma loadOnce_ensures:
  assumes "lawful_launchd w" "placed p body s"
  shows "wp (loadOnce w label) (\<lambda>kind s'. placed p body s' \<and> (kind = launchctlLoaded \<longrightarrow> label \<in> ms_jobs s')) (placed p body) s"
proof -
  let ?Q = "\<lambda>kind s'. placed p body s' \<and> (kind = launchctlLoaded \<longrightarrow> label \<in> ms_jobs s')"
  have kick: "wp (launchctl w ''kickstart'' label) ?Q (placed p body) s'" if "placed p body s'" "label \<in> ms_jobs s'" for s'
    using that by (intro launchctl_placed [OF assms(1)]) auto
  have boot: "wp (bnd (launchctl w ''bootstrap'' label) (\<lambda>b. if b \<noteq> launchctlLoaded then ret b else launchctl w ''kickstart'' label)) ?Q (placed p body) s'"
    if "placed p body s'" for s'
    unfolding wp_bnd by (rule launchctl_placed [OF assms(1) that]) (auto simp: wp_ret kick)
  have "wp (bnd (launchctl w ''enable'' label) (\<lambda>e. if e \<noteq> launchctlLoaded then ret e
      else bnd (launchctl w ''bootstrap'' label) (\<lambda>b. if b \<noteq> launchctlLoaded then ret b else launchctl w ''kickstart'' label))) ?Q (placed p body) s'"
    if "placed p body s'" for s'
    unfolding wp_bnd [where m = "launchctl w ''enable'' label"] by (rule launchctl_placed [OF assms(1) that]) (auto simp: wp_ret boot)
  then show ?thesis unfolding loadOnce_def wp_bnd [where m = "launchctl w ''bootout'' label"]
    by (intro launchctl_placed [OF assms]) (auto simp: wp_ret kind_settled_def)
qed

lemma kickstart_placed:
  assumes "lawful_launchd w" "placed p body s" "label \<in> ms_jobs s"
  shows "wp (kickstart w label) (\<lambda>_ s'. placed p body s' \<and> label \<in> ms_jobs s') (placed p body) s"
proof -
  have "wp (kickstart w label) (\<lambda>_ s'. (placed p body s' \<and> label \<in> ms_jobs s') \<and> True) (\<lambda>s'. placed p body s' \<and> label \<in> ms_jobs s') s"
    unfolding kickstart_def
  proof (rule settle_ensures)
    fix s
    assume i: "placed p body s \<and> label \<in> ms_jobs s"
    show "wp (launchctl w ''kickstart'' label) (\<lambda>kind s'. (placed p body s' \<and> label \<in> ms_jobs s') \<and> (kind = launchctlLoaded \<longrightarrow> True))
        (\<lambda>s'. placed p body s' \<and> label \<in> ms_jobs s') s"
      by (rule launchctl_wp [OF assms(1)]) (use i in \<open>auto simp: Let_def\<close>)
  qed (use assms in auto)
  then show ?thesis by (rule wp_weaken) auto
qed

lemma wp_read_plist: "wp (read_plist w p) Q E s = (if mc_unread w (ms_tick s) then E (tick s) else Q (ms_plists s p) (tick s))"
  by (simp add: wp_def read_plist_def)

lemma wp_any: "(\<And>s'. wp n Q (\<lambda>_. True) s') \<Longrightarrow> wp (andThen m n) Q (\<lambda>_. True) s"
  unfolding wp_andThen by (auto simp: wp_def [of m] split: prod.splits res.splits)

lemma wp_any_bnd: "(\<And>x s'. wp (f x) Q (\<lambda>_. True) s') \<Longrightarrow> wp (bnd m f) Q (\<lambda>_. True) s"
  unfolding wp_bnd by (auto simp: wp_def [of m] split: prod.splits res.splits)

lemma install_ensures:
  assumes "lawful_launchd w" "Plist a = Some body" "plistPath (mc_home w) (ag_Label a) = Some p"
  shows "wp (launchd_install w a) (\<lambda>_ s'. placed p body s' \<and> ag_Label a \<in> ms_jobs s') (\<lambda>_. True) s"
proof -
  have path: "plist_path w (ag_Label a) = ret p" "rendered a = ret body" using assms(2,3) by (simp_all add: plist_path_def rendered_def)
  have load: "wp (reload w (ag_Label a)) (\<lambda>_ s'. placed p body s' \<and> ag_Label a \<in> ms_jobs s') (placed p body) s'" if "placed p body s'" for s'
    unfolding reload_def by (rule settle_ensures) (use loadOnce_ensures [OF assms(1)] that in auto)
  have w: "wp (andThen (write_plist w p body) (reload w (ag_Label a))) (\<lambda>_ s'. placed p body s' \<and> ag_Label a \<in> ms_jobs s') (\<lambda>_. True) s'" for s'
  proof -
    have "placed p body ((tick s')\<lparr>ms_plists := (ms_plists (tick s'))(p \<mapsto> (body, True))\<rparr>)" by (simp add: placed_def)
    from wp_weaken [OF load [OF this]] show ?thesis unfolding wp_andThen write_plist_def by (intro wp_change) auto
  qed
  show ?thesis unfolding launchd_install_def path bnd_ret by (intro wp_any w)
qed

lemma verify_ensures:
  assumes "lawful_launchd w" "Plist a = Some body" "plistPath (mc_home w) (ag_Label a) = Some p"
  shows "wp (launchd_verify w a) (\<lambda>exact s'. exact \<longrightarrow> placed p body s' \<and> ag_Label a \<in> ms_jobs s') (\<lambda>_. True) s"
proof -
  have path: "plist_path w (ag_Label a) = ret p" "rendered a = ret body" using assms(2,3) by (simp_all add: plist_path_def rendered_def)
  let ?Q = "\<lambda>exact s'. exact \<longrightarrow> placed p body s' \<and> ag_Label a \<in> ms_jobs s'"
  have pr: "wp (launchctl w ''print'' (ag_Label a)) (\<lambda>kind. wp (if kind = launchctlNotLoaded then ret False
      else if kind \<noteq> launchctlLoaded then throw [DeployOther] else ret True) ?Q (\<lambda>_. True)) (\<lambda>_. True) s'" if "placed p body s'" for s'
    by (rule wp_weaken [OF launchctl_placed [OF assms(1) that, where Q = "\<lambda>kind s''. kind = launchctlLoaded \<longrightarrow> placed p body s'' \<and> ag_Label a \<in> ms_jobs s''"]])
      (auto simp: wp_ret wp_throw)
  have rd: "wp (bnd (read_plist w p) (\<lambda>got. if got \<noteq> Some (body, True) then ret False else bnd (launchctl w ''print'' (ag_Label a)) (\<lambda>kind.
      if kind = launchctlNotLoaded then ret False else if kind \<noteq> launchctlLoaded then throw [DeployOther] else ret True))) ?Q (\<lambda>_. True) s'" for s'
  proof (cases "mc_unread w (ms_tick s') \<or> ms_plists s' p \<noteq> Some (body, True)")
    case True
    then show ?thesis by (auto simp: wp_def bnd_def read_plist_def ret_def)
  next
    case False
    then have "placed p body (tick s')" by (simp add: placed_def)
    from pr [OF this] show ?thesis using False by (simp add: wp_bnd wp_read_plist)
  qed
  show ?thesis unfolding launchd_verify_def path bnd_ret
    by (rule wp_any_bnd) (auto simp: wp_ret wp_throw rd)
qed

lemma apply_result:
  assumes "lawful_launchd w" "plistPath (mc_home w) (ag_Label a) = Some p" "launchd_Apply w a s = (r, s')"
  shows "only_agent (ag_Label a) p s s'
    \<and> (r = Ret () \<longrightarrow> (\<exists>body. Plist a = Some body \<and> ms_plists s' p = Some (body, True)) \<and> ag_Label a \<in> ms_jobs s')"
proof
  show "only_agent (ag_Label a) p s s'" using keeps_outcome [OF keeps_apply [OF assms(1,2)] only_agent_refl assms(3)] .
  show "r = Ret () \<longrightarrow> (\<exists>body. Plist a = Some body \<and> ms_plists s' p = Some (body, True)) \<and> ag_Label a \<in> ms_jobs s'"
  proof (cases "Plist a")
    case None
    then show ?thesis using assms(3) by (auto simp: launchd_Apply_def canonicalAgent_then rendered_def) (auto simp: throw_def)
  next
    case (Some body)
    let ?a = "canonical_agent a" and ?Q = "\<lambda>_ s'. placed p body s' \<and> ag_Label a \<in> ms_jobs s'"
    have a: "Plist ?a = Some body" "plistPath (mc_home w) (ag_Label ?a) = Some p" using Some assms(2) by simp_all
    have "wp (applier_apply w ?a) ?Q (\<lambda>_. True) s'" for s'
      unfolding applier_apply_def wp_bnd
    proof (rule wp_weaken [OF verify_ensures [OF assms(1) a]])
      fix exact s'
      assume "exact \<longrightarrow> placed p body s' \<and> ag_Label ?a \<in> ms_jobs s'"
      then show "wp (if exact then kickstart w (ag_Label ?a) else launchd_install w ?a) ?Q (\<lambda>_. True) s'"
        using wp_weaken [OF kickstart_placed [OF assms(1), of p body s' "ag_Label a"]] install_ensures [OF assms(1) a] by auto
    qed simp
    then have "wp (launchd_Apply w a) ?Q (\<lambda>_. True) s"
      unfolding launchd_Apply_def canonicalAgent_then by (intro wp_any_bnd wp_any)
    then show ?thesis using assms(3) Some by (auto simp: wp_def placed_def)
  qed
qed

text \<open>
  C38: an applied agent is exactly what was asked for. When \<open>Apply\<close> returns without an error the file at the path of the label is
  the rendered property list, private to its owner, and launchd holds the job; and however it ends, a crash included,
  nothing changed but the job of that label, its file and files set aside from it. The laws of launchd are a hypothesis.
\<close>

theorem apply_exact:
  assumes "lawful_launchd w" "plistPath (mc_home w) (ag_Label a) = Some p" "launchd_Apply w a s = (r, s')"
  shows "only_agent (ag_Label a) p s s'
    \<and> (r = Ret () \<longrightarrow> (\<exists>body. Plist a = Some body \<and> ms_plists s' p = Some (body, True)) \<and> ag_Label a \<in> ms_jobs s')"
  using apply_result [OF assms] .

text \<open>Removal keeps jobs backed at every point, and when it returns the job and its file are gone.\<close>

lemma remove_backed:
  assumes "lawful_launchd w" "plistPath (mc_home w) label = Some p" "backed label p s"
  shows "wp (launchd_Remove w label) (\<lambda>_ s'. label \<notin> ms_jobs s' \<and> ms_plists s' p = None) (backed label p) s"
proof -
  have path: "plist_path w label = ret p" using assms(2) by (simp add: plist_path_def)
  let ?Q = "\<lambda>_ s'. label \<notin> ms_jobs s' \<and> ms_plists s' p = None"
  have rm: "wp (remove_plist w p) ?Q (backed label p) s'" if "label \<notin> ms_jobs s'" "backed label p s'" for s'
  proof (cases "ms_plists s' p = None")
    case True
    then show ?thesis using that by (simp add: wp_def remove_plist_def)
  next
    case False
    have "wp (change w (\<lambda>s. s\<lparr>ms_plists := (ms_plists s)(p := None)\<rparr>)) ?Q (backed label p) s'"
      by (rule wp_change) (use that in \<open>auto simp: backed_def\<close>)
    then show ?thesis using False by (auto simp: wp_def remove_plist_def)
  qed
  have out: "wp (bnd (launchctl w ''bootout'' label) (\<lambda>kind. if \<not> kind_settled kind then throw [DeployOther] else remove_plist w p)) ?Q (backed label p) s'"
    if "backed label p s'" for s'
    unfolding wp_bnd by (rule launchctl_wp [OF assms(1)]) (use that rm in \<open>auto simp: Let_def wp_throw backed_def\<close>)
  show ?thesis unfolding launchd_Remove_def applier_remove_def path bnd_ret
    using assms(3) out by (auto simp: wp_throw wp_ret wp_bnd [where m = "read_plist w p"] wp_read_plist backed_def split: option.splits)
qed

lemma apply_backed:
  assumes "lawful_launchd w" "plistPath (mc_home w) (ag_Label a) = Some p"
  shows "keeps (backed (ag_Label a) p) (launchd_Apply w a)"
proof (cases "Plist a")
  case None
  then show ?thesis unfolding launchd_Apply_def canonicalAgent_then by (simp add: rendered_def keeps_throw)
next
  case (Some body)
  let ?l = "ag_Label a" and ?a = "canonical_agent a"
  have pb: "placed p body s \<Longrightarrow> backed ?l p s" for s using plist_marked [OF Some] by (auto simp: placed_def backed_def)
  have quiet: "keeps (backed ?l p) (launchctl w verb ?l)" if "verb \<in> {''print'', ''kickstart''}" for verb
    unfolding keeps_wp by (intro allI impI, rule launchctl_wp [OF assms(1)]) (use that in \<open>auto simp: Let_def backed_def\<close>)
  have path: "plist_path w ?l = ret p" "rendered a = ret body" "rendered ?a = ret body"
    using assms(2) Some by (simp_all add: plist_path_def rendered_def)
  have arch: "keeps (backed ?l p) (archiveForeignPlist w p)"
    by (auto simp: keeps_wp archiveForeignPlist_def wp_bnd wp_read_plist wp_ret backed_def split: option.splits)
  have load: "wp (reload w ?l) (\<lambda>_. backed ?l p) (backed ?l p) s" if "placed p body s" for s
  proof -
    have "wp (reload w ?l) (\<lambda>_ s'. placed p body s' \<and> ?l \<in> ms_jobs s') (placed p body) s"
      unfolding reload_def by (rule settle_ensures) (use loadOnce_ensures [OF assms(1)] that in auto)
    then show ?thesis by (rule wp_weaken) (use pb in auto)
  qed
  have wr: "keeps (backed ?l p) (andThen (write_plist w p body) (reload w ?l))"
    unfolding keeps_wp wp_andThen write_plist_def
    by (intro allI impI wp_change load) (auto simp: placed_def intro!: pb)
  have "keeps (backed ?l p) (applier_apply w ?a)"
    unfolding applier_apply_def launchd_verify_def launchd_install_def kickstart_def canonical_agent_simps path bnd_ret
    by (rule wr keeps_intros keeps_pure keeps_settle quiet arch | simp)+
  then show ?thesis unfolding launchd_Apply_def canonicalAgent_then path bnd_ret
    by (intro keeps_intros keeps_pure) simp_all
qed

subsection \<open>A first install takes nothing\<close>

definition no_bootout :: "mstate \<Rightarrow> mstate \<Rightarrow> bool" where
  "no_bootout s0 s \<longleftrightarrow> (\<exists>ext. ms_log s = ext @ ms_log s0 \<and> (\<forall>label ok. Launchctl ''bootout'' label ok \<notin> set ext))"

lemma no_bootout_tick [simp]: "no_bootout s0 (tick s) = no_bootout s0 s"
  by (simp add: no_bootout_def)

lemma no_bootout_launchctl: "verb \<noteq> ''bootout'' \<Longrightarrow> keeps (no_bootout s0) (launchctl w verb label)"
proof -
  assume v: "verb \<noteq> ''bootout''"
  have "no_bootout s0 (logged (Launchctl verb label k) s)" if n: "no_bootout s0 s" for k s
  proof -
    obtain ext where "ms_log s = ext @ ms_log s0" "\<forall>label ok. Launchctl ''bootout'' label ok \<notin> set ext" using n by (auto simp: no_bootout_def)
    then show ?thesis using v unfolding no_bootout_def by (intro exI [of _ "Launchctl verb label k # ext"]) auto
  qed
  moreover have "no_bootout s0 (s\<lparr>ms_jobs := j\<rparr>) = no_bootout s0 s" for s j by (simp add: no_bootout_def)
  ultimately show ?thesis by (auto simp: keeps_def launchctl_def Let_def split: prod.splits fault.splits)
qed

lemma no_bootout_plists: "no_bootout s0 (s\<lparr>ms_plists := f\<rparr>) = no_bootout s0 s"
  by (simp add: no_bootout_def)

lemma no_bootout_files:
  "keeps (no_bootout s0) (write_plist w p body)" "keeps (no_bootout s0) (remove_plist w q)" "keeps (no_bootout s0) (removePublished w p)"
proof -
  have c: "keeps (no_bootout s0) (change w (\<lambda>s. s\<lparr>ms_plists := f s\<rparr>))" for f by (rule keeps_change) (auto simp: no_bootout_plists)
  then show "keeps (no_bootout s0) (write_plist w p body)" by (simp add: write_plist_def)
  show r: "keeps (no_bootout s0) (remove_plist w q)" for q using c by (auto simp: keeps_def remove_plist_def)
  show "keeps (no_bootout s0) (removePublished w p)" unfolding removePublished_def by (intro keeps_intros c r)
qed

lemma no_bootout_applyFresh: "keeps (no_bootout s0) (launchd_ApplyFresh w a)"
proof -
  have p: "keeps (no_bootout s0) (plist_path w l)" for l by (simp add: plist_path_def keeps_intros split: option.split)
  have re: "keeps (no_bootout s0) (rendered a)" for a by (simp add: rendered_def keeps_intros split: option.split)
  have j: "keeps I (joined [throw e, m])" if "keeps I m" for I e m using that by (intro keeps_joined) (auto intro: keeps_throw)
  have "keeps (no_bootout s0) (applier_applyFresh w a)" for a
    unfolding applier_applyFresh_def applier_requireAbsent_def installFresh_def publish_new_def bootstrapFresh_def kickstart_def
    by (intro keeps_intros keeps_pure keeps_settle no_bootout_launchctl no_bootout_files p re j) simp_all
  then show ?thesis unfolding launchd_ApplyFresh_def canonicalAgent_def by (intro keeps_intros keeps_pure re) simp_all
qed

text \<open>
  A first install takes nothing away. Whatever \<open>ApplyFresh\<close> meets and however it ends, a crash included, it runs no
  bootout, and a label that is already held, by a file at its path or by a job launchd reports, is refused with the file and
  the jobs as they were.
\<close>

lemma apply_fresh_takes_nothing:
  assumes "lawful_launchd w" "plistPath (mc_home w) (ag_Label a) = Some p" "launchd_ApplyFresh w a s = (r, s')"
  shows "no_bootout s s' \<and> only_agent (ag_Label a) p s s'
    \<and> (ms_plists s p \<noteq> None \<or> ag_Label a \<in> ms_jobs s \<longrightarrow> r \<noteq> Ret () \<and> ms_plists s' p = ms_plists s p \<and> ms_jobs s' = ms_jobs s)"
proof -
  let ?l = "ag_Label a"
  have path: "bnd (plist_path w ?l) f = f p" for f :: "string \<Rightarrow> 'b prog" using assms(2) by (simp add: plist_path_def)
  have "no_bootout s s'" by (rule keeps_outcome [OF no_bootout_applyFresh _ assms(3)]) (simp add: no_bootout_def)
  moreover have "only_agent ?l p s s'" using keeps_outcome [OF keeps_applyFresh [OF assms(1,2)] only_agent_refl assms(3)] .
  moreover have "r \<noteq> Ret () \<and> ms_plists s' p = ms_plists s p \<and> ms_jobs s' = ms_jobs s" if held: "ms_plists s p \<noteq> None \<or> ?l \<in> ms_jobs s"
  proof -
    let ?I = "\<lambda>u. ms_plists u p = ms_plists s p \<and> ms_jobs u = ms_jobs s"
    have v: "keeps ?I (validateProgramTree w a)" by (rule keeps_pure) simp
    have pr: "wp (launchctl w ''print'' ?l) (\<lambda>kind. wp (if kind = launchctlNotLoaded then ret () else if kind = launchctlLoaded then throw [ErrPresent]
        else throw [DeployOther]) (\<lambda>_ _. False) ?I) ?I u" if "?I u" "?l \<in> ms_jobs s" for u
      by (rule launchctl_wp [OF assms(1)]) (use that in \<open>auto simp: Let_def wp_ret wp_throw\<close>)
    have ab: "wp (applier_requireAbsent w ?l) (\<lambda>_ _. False) ?I u" if "?I u" for u
      unfolding applier_requireAbsent_def path using that held pr
      by (auto simp: wp_bnd wp_read_plist wp_throw)
    have "wp (applier_applyFresh w (canonical_agent a)) (\<lambda>_ _. False) ?I u" if "?I u" for u
      unfolding applier_applyFresh_def canonical_agent_simps wp_andThen by (rule wp_weaken [OF ab [OF that]]) auto
    then have "wp (launchd_ApplyFresh w a) (\<lambda>_ _. False) ?I s"
      unfolding launchd_ApplyFresh_def canonicalAgent_then
      by (cases "Plist a") (auto simp: rendered_def wp_throw wp_andThen intro!: wp_weaken [OF keepsD [OF v]])
    then show ?thesis using assms(3) by (cases r) (auto simp: wp_def)
  qed
  ultimately show ?thesis by blast
qed

subsection \<open>A machine on which nothing fails\<close>

definition calm_launchctl :: "nat \<Rightarrow> string \<Rightarrow> string \<Rightarrow> string set \<Rightarrow> jobs_answer" where
  "calm_launchctl t verb label jobs =
    (if verb = ''bootstrap'' then (([], 0, False), insert label jobs)
     else if verb = ''bootout'' then (([], if label \<in> jobs then 0 else 3, False), jobs - {label})
     else if verb = ''print'' then (([], if label \<in> jobs then 0 else 113, False), jobs)
     else (([], 0, False), jobs))"

definition calm_machine :: machine where
  "calm_machine = \<lparr> mc_deployment = idle_deployment, mc_agents = [plain_agent], mc_team = ''T'', mc_signing = ''I'', mc_requirement = ''R'',
     mc_canceled = (\<lambda>_. False), mc_fault = (\<lambda>_. Calm), mc_left = (\<lambda>_ _. None), mc_metadata = (\<lambda>_. None), mc_lock = (\<lambda>_. None), mc_inspect = (\<lambda>_. None),
     mc_unread = (\<lambda>_. False), mc_unlisted = (\<lambda>_. False), mc_unscanned = (\<lambda>_ _. False), mc_temp = (\<lambda>_. None),
     mc_copy = (\<lambda>_ tr. (tr, True)), mc_home = Some ''/h'', mc_program = (\<lambda>_ _. ProgramReady), mc_launchctl = calm_launchctl,
     mc_stamp = (\<lambda>_. 1), mc_strangers = (\<lambda>_. False), mc_record = (\<lambda>_. False) \<rparr>"

definition bare_state :: mstate where
  "bare_state = \<lparr> ms_tick = 0, ms_disk = Map.empty, ms_stages = [], ms_swap = None, ms_activation = None, ms_removal = None, ms_services = None,
     ms_plists = Map.empty, ms_jobs = {}, ms_log = [] \<rparr>"

lemma calm_lawful: "lawful_launchd calm_machine"
  by (auto simp: lawful_launchd_def calm_machine_def calm_launchctl_def launchctlOutcome_def kind_settled_def split: if_splits)

lemma calm_path: "plistPath (mc_home calm_machine) (ag_Label plain_agent) = Some ''/h/Library/LaunchAgents/a.plist''"
  by (simp add: calm_machine_def plain_agent_def plistPath_def) code_simp

lemmas apply_eval = launchd_Apply_def canonicalAgent_def rendered_def validateProgramTree_def stat_program_def
  applier_apply_def launchd_verify_def plist_path_def launchd_install_def make_directory_def archiveForeignPlist_def write_plist_def
  reload_def settle_launchctl_def bootstrapAttempts_def loadOnce_def kickstart_def bnd_def andThen_def ret_def throw_def read_plist_def
  launchctl_def change_def calm_launchctl_def launchctlOutcome_def kind_settled_def

lemma calm_apply: "\<exists>s'. launchd_Apply calm_machine plain_agent bare_state = (Ret (), s')"
proof -
  obtain body where b: "Plist plain_agent = Some body" using plain_plist by auto
  have p: "programPath plain_agent = Some ''/d''" by code_simp
  have c: "canonical_agent plain_agent = plain_agent" by (simp add: canonical_agent_def plain_agent_def)
  have m: "mc_fault calm_machine t = Calm" "mc_unread calm_machine t = False" "mc_program calm_machine t q = ProgramReady"
      "mc_launchctl calm_machine = calm_launchctl" for t q by (simp_all add: calm_machine_def)
  have e: "ms_plists bare_state q = None" "ms_jobs bare_state = {}" for q by (simp_all add: bare_state_def)
  show ?thesis
    by (simp add: apply_eval b p c m e calm_path numeral_eq_Suc Let_def)
qed

theorem apply_exact_witness:
  "\<exists>s' body. launchd_Apply calm_machine plain_agent bare_state = (Ret (), s') \<and> Plist plain_agent = Some body
     \<and> ms_plists s' ''/h/Library/LaunchAgents/a.plist'' = Some (body, True) \<and> ag_Label plain_agent \<in> ms_jobs s'"
proof -
  obtain s' where "launchd_Apply calm_machine plain_agent bare_state = (Ret (), s')" using calm_apply by blast
  then show ?thesis using apply_exact [OF calm_lawful calm_path] by blast
qed

end
