(* ===== verification/Deploy.thy ===== *)
theory Deploy
  imports Launchd
begin

text \<open>
  The verbs of a deployment: \<^verbatim>\<open>deploy/deploy.go\<close>, \<^verbatim>\<open>deploy/swap.go\<close>, \<^verbatim>\<open>deploy/fresh.go\<close> and the inspection of \<^verbatim>\<open>deploy/generation.go\<close>, as programs
  over the machine. The quiesce ladder, the inventory gate and readiness are those of \<open>Quiesce\<close>, run on what the disk holds at
  that point; agents are applied and removed by \<open>Launchd\<close>. A crash may come at every change.
\<close>

subsection \<open>What the gate sees\<close>

definition slot_of :: "node option \<Rightarrow> slot_view" where
  "slot_of n = (case n of None \<Rightarrow> SlotMissing | Some (Plain f) \<Rightarrow> SlotFile f | Some (Bundle tr) \<Rightarrow> SlotTree (Some (tr_files tr)))"

definition staging :: "mstate \<Rightarrow> string list" where
  "staging s = filter (\<lambda>p. ms_disk s p \<noteq> None) (ms_stages s)"

definition seen_by :: "machine \<Rightarrow> mstate \<Rightarrow> deployment" where
  "seen_by w s = (mc_deployment w)\<lparr>dp_agents := map (\<lambda>a. (ag_Label a, ag_Program a)) (mc_agents w),
     dp_stages := (\<lambda>t. if mc_unlisted w t then None else Some (staging s)),
     dp_slot := (\<lambda>t p. if mc_unscanned w t p then SlotFailed else slot_of (ms_disk s p))\<rparr>"

abbreviation lay :: "machine \<Rightarrow> layout" where "lay w \<equiv> dp_layout (mc_deployment w)"

definition at_tick :: "nat \<Rightarrow> mstate \<Rightarrow> mstate" where "at_tick t s = s\<lparr>ms_tick := t\<rparr>"

definition gate_logged :: "nat \<Rightarrow> mstate \<Rightarrow> mstate" where
  "gate_logged t s = logged (GatePassed (ms_tick s) t (ms_disk s)) (at_tick t s)"

definition quiesce_now :: "machine \<Rightarrow> RuntimeProof prog" where
  "quiesce_now w = (\<lambda>s.
    case deploy_Quiesce False (seen_by w s) (ms_tick s) of
      None \<Rightarrow> (Halt, s)
    | Some (Inl e, es, t) \<Rightarrow> (Fail e, at_tick t s)
    | Some (Inr p, es, t) \<Rightarrow> (Ret p, gate_logged t s))"

definition require_empty :: "machine \<Rightarrow> unit prog" where
  "require_empty w = (\<lambda>s.
    case requireEmpty (seen_by w s) (ms_tick s) of
      (Some e, t) \<Rightarrow> (Fail e, at_tick t s)
    | (None, t) \<Rightarrow> (Ret (), gate_logged t s))"

definition prove_ready :: "machine \<Rightarrow> ReadinessProof prog" where
  "prove_ready w = (\<lambda>s.
    case deploy_prove (mc_canceled w) (seen_by w s) (ms_tick s) of
      None \<Rightarrow> (Halt, s)
    | Some (Inl e, t) \<Rightarrow> (Fail e, at_tick t s)
    | Some (Inr p, t) \<Rightarrow> (Ret p, at_tick t s))"

subsection \<open>Inspection (generation.go)\<close>

definition lower_char :: "char \<Rightarrow> char" where
  "lower_char c = (if CHR ''A'' \<le> c \<and> c \<le> CHR ''Z'' then char_of (of_char c + (32 :: nat)) else c)"

definition generation_of :: "machine \<Rightarrow> string \<Rightarrow> tree \<Rightarrow> Generation" where
  "generation_of w path tr = \<lparr> ge_Path = path, ge_Version = tr_version tr, ge_TeamID = mc_team w, ge_SigningIdentifier = mc_signing w,
     ge_DesignatedRequirement = mc_requirement w, ge_CDHash = map lower_char (tr_cdhash tr), ge_EntitlementsDigest = tr_entitlements tr,
     ge_BundleDigest = tr_digest tr, ge_FileID = tr_id tr \<rparr>"

definition deploy_inspect :: "machine \<Rightarrow> string \<Rightarrow> Generation prog" where
  "deploy_inspect w path = (\<lambda>s.
    (if \<not> validAppPath path then Fail [ErrConfig]
     else case ms_disk s path of
       None \<Rightarrow> Fail [ErrConflict]
     | Some (Plain f) \<Rightarrow> Fail [ErrConflict]
     | Some (Bundle tr) \<Rightarrow>
         (case mc_inspect w (ms_tick s) of
            Some e \<Rightarrow> Fail e
          | None \<Rightarrow>
              if \<not> tr_trusted tr then Fail [ErrUntrusted]
              else if \<not> validCDHash (tr_cdhash tr) then Fail [DeployOther]
              else Ret (generation_of w path tr)), tick s))"

definition attest :: "machine \<Rightarrow> Generation \<Rightarrow> unit prog" where
  "attest w expected = bnd (deploy_inspect w (ge_Path expected)) (\<lambda>current. if current \<noteq> expected then throw [ErrConflict] else ret ())"

subsection \<open>Services\<close>

definition appliedServices :: "machine \<Rightarrow> string list prog" where
  "appliedServices w = bnd (readRecord w ms_services services_validate) (\<lambda>r. ret (case r of None \<Rightarrow> [] | Some ls \<Rightarrow> ls))"

definition recordServices :: "machine \<Rightarrow> string list \<Rightarrow> unit prog" where
  "recordServices w labels = (if labels = [] then remove_services w else write_services w labels)"

primrec retire_labels :: "machine \<Rightarrow> string list \<Rightarrow> string list \<Rightarrow> string list \<Rightarrow> unit prog" where
  "retire_labels w desired [] kept = ret ()"
| "retire_labels w desired (label # labels) kept =
    (if label \<in> set desired then retire_labels w desired labels kept
     else andThen (launchd_Remove w label) (let kept' = filter (\<lambda>l. l \<noteq> label) kept in
       andThen (recordServices w kept') (retire_labels w desired labels kept')))"

definition deploy_converge :: "machine \<Rightarrow> Agent list \<Rightarrow> unit prog" where
  "deploy_converge w agents =
    (let desired = remdups_adj (sort (map ag_Label agents)) in
     bnd (appliedServices w) (\<lambda>previous.
       let kept = remdups_adj (sort (previous @ desired)) in
       andThen (recordServices w kept) (andThen (each (launchd_Apply w) agents) (andThen (retire_labels w desired previous kept)
         (recordServices w desired)))))"

definition retiresServices :: "machine \<Rightarrow> bool prog" where
  "retiresServices w = bnd (appliedServices w) (\<lambda>applied. ret (list_ex (\<lambda>l. l \<notin> ag_Label ` set (mc_agents w)) applied))"

definition quiesceAndConverge :: "machine \<Rightarrow> Agent list \<Rightarrow> RuntimeProof prog" where
  "quiesceAndConverge w agents = bnd (quiesce_now w) (\<lambda>proof. andThen (deploy_converge w agents) (ret proof))"

definition convergeAgents :: "machine \<Rightarrow> unit prog" where
  "convergeAgents w = bnd (retiresServices w) (\<lambda>retires.
    if \<not> retires then deploy_converge w (mc_agents w) else andThen (quiesceAndConverge w (mc_agents w)) (ret ()))"

subsection \<open>The rename pair (swap.go)\<close>

text \<open>The parts of \<open>settleSwap\<close>: what landed, the second rename with its guards, the first.\<close>

definition swap_landed :: "machine \<Rightarrow> swapRecord \<Rightarrow> unit prog" where
  "swap_landed w r = bnd (deploy_inspect w (la_canonical (lay w))) (\<lambda>g. if \<not> sameTree g (sw_Candidate r) then throw [ErrConflict] else ret ())"

definition swap_second :: "machine \<Rightarrow> swapRecord \<Rightarrow> unit prog" where
  "swap_second w r = bnd (fileExists (la_candidate (lay w))) (\<lambda>there.
     if there then
       andThen (attest w ((sw_Candidate r)\<lparr>ge_Path := la_candidate (lay w)\<rparr>)) (bnd (fileExists (la_canonical (lay w))) (\<lambda>occupied.
         if occupied then throw [ErrConflict] else andThen (durable_Rename w (la_candidate (lay w)) (la_canonical (lay w))) (swap_landed w r)))
     else swap_landed w r)"

definition swap_first :: "machine \<Rightarrow> swapRecord \<Rightarrow> Generation \<Rightarrow> unit prog" where
  "swap_first w r prior =
    andThen (attest w prior) (andThen (durable_RemoveTree w (la_prior (lay w)))
      (andThen (durable_Rename w (la_canonical (lay w)) (la_prior (lay w))) (swap_second w r)))"

definition settleSwap :: "machine \<Rightarrow> swapRecord \<Rightarrow> unit prog" where
  "settleSwap w r =
    bnd (fileExists (la_canonical (lay w))) (\<lambda>installed.
      if \<not> installed then swap_second w r
      else bnd (deploy_inspect w (la_canonical (lay w))) (\<lambda>occupant.
        if sameTree occupant (sw_Candidate r) then ret ()
        else (case sw_Prior r of
            None \<Rightarrow> throw [ErrConflict]
          | Some prior \<Rightarrow> if \<not> sameBytes occupant prior then throw [ErrConflict] else swap_first w r prior)))"

definition resumeDestroys :: "machine \<Rightarrow> swapRecord \<Rightarrow> bool prog" where
  "resumeDestroys w r =
    (if sw_Prior r = None then ret False
     else bnd (fileExists (la_prior (lay w))) (\<lambda>aside. bnd (fileExists (la_canonical (lay w))) (\<lambda>installed.
       if aside \<or> \<not> installed then ret True
       else bnd (deploy_inspect w (la_canonical (lay w))) (\<lambda>occupant. ret (\<not> sameTree occupant (sw_Candidate r))))))"

definition retireSwap :: "machine \<Rightarrow> swapRecord \<Rightarrow> unit prog" where
  "retireSwap w r =
    andThen (joined ([remove_activation w, remove_removal w] @ (if sw_Prior r = None then [] else [durable_RemoveTree w (la_prior (lay w))])))
      (remove_swap w)"

definition deploy_recover :: "machine \<Rightarrow> unit prog" where
  "deploy_recover w = bnd (readRecord w ms_swap swap_validate) (\<lambda>found.
    case found of
      None \<Rightarrow> ret ()
    | Some r \<Rightarrow>
        if sw_Target r \<noteq> la_canonical (lay w) then throw [ErrState]
        else bnd (resumeDestroys w r) (\<lambda>destroys.
          andThen (if destroys then andThen (quiesceAndConverge w []) (ret ()) else ret ())
            (andThen (settleSwap w r) (retireSwap w r))))"

definition stagingTrees :: "machine \<Rightarrow> string list prog" where
  "stagingTrees w = (\<lambda>s. (if mc_unlisted w (ms_tick s) then Fail [DeployOther] else Ret (staging s), tick s))"

definition discardCandidate :: "machine \<Rightarrow> unit prog" where
  "discardCandidate w = (\<lambda>s.
    case bundleExecutables (la_candidate (lay w)) (dp_slot (seen_by w s) (ms_tick s) (la_candidate (lay w))) of
      None \<Rightarrow> (Fail [DeployOther], tick s)
    | Some carried \<Rightarrow>
        (case Inventory (dp_boundary (mc_deployment w)) carried (ms_tick s + 1) of
           (None, t) \<Rightarrow> (Fail [DeployOther], at_tick t s)
         | (Some found, t) \<Rightarrow>
             if su_Live found \<noteq> [] then (Fail [ErrLive], at_tick t s)
             else durable_RemoveTree w (la_candidate (lay w)) (logged (SlotGate (la_candidate (lay w)) (ms_disk s)) (at_tick t s))))"

text \<open>\<open>MkdirTemp\<close> makes a directory under a new name; the kernel gives it an inode that no tree of the deployment has.\<close>

definition node_id :: "node option \<Rightarrow> (string \<times> string) option" where
  "node_id n = (case n of Some (Bundle tr) \<Rightarrow> Some (tr_id tr) | _ \<Rightarrow> None)"

definition inodes :: "machine \<Rightarrow> mstate \<Rightarrow> (string \<times> string) option list" where
  "inodes w s = map (\<lambda>p. node_id (ms_disk s p)) (generationSlots (lay w) (ms_stages s))"

definition empty_tree :: "string \<times> string \<Rightarrow> tree" where
  "empty_tree i = \<lparr> tr_version = [], tr_cdhash = [], tr_entitlements = [], tr_digest = [], tr_trusted = False, tr_id = i, tr_files = [] \<rparr>"

definition make_stage :: "machine \<Rightarrow> string prog" where
  "make_stage w = (\<lambda>s.
    case mc_temp w (ms_tick s) of
      None \<Rightarrow> (Fail [DeployOther], tick s)
    | Some (name, i) \<Rightarrow>
        (let p = Join [la_metadata (lay w), ''.staging-'' @ name @ ''.app''] in
         if ms_disk s p \<noteq> None \<or> Some i \<in> set (inodes w s) \<or> p \<in> set (layout_paths (lay w)) then (Fail [DeployOther], tick s)
         else bnd (change w (\<lambda>s. logged (Staged p) (s\<lparr>ms_disk := (ms_disk s)(p \<mapsto> Bundle (empty_tree i)), ms_stages := p # ms_stages s\<rparr>)))
           (\<lambda>_. ret p) s))"

text \<open>\<open>copyBundleTree\<close> and \<open>syncBundleTree\<close>: what was copied, under the inode of the stage, and whether both succeeded.\<close>

definition copy_tree :: "machine \<Rightarrow> string \<Rightarrow> string \<Rightarrow> unit prog" where
  "copy_tree w from to = (\<lambda>s.
    case (ms_disk s from, ms_disk s to) of
      (Some (Bundle src), Some (Bundle dst)) \<Rightarrow>
        (case mc_copy w (ms_tick s) src of (copied, ok) \<Rightarrow>
          (if mc_fault w (ms_tick s) = CrashBefore \<or> mc_fault w (ms_tick s) = CrashAfter then Halt
           else if ok then Ret () else Fail [DeployOther],
           (tick s)\<lparr>ms_disk := (ms_disk s)(to \<mapsto> Bundle (copied\<lparr>tr_id := tr_id dst\<rparr>))\<rparr>))
    | _ \<Rightarrow> (Fail [DeployOther], tick s))"

definition copyIntoStage :: "machine \<Rightarrow> Candidate \<Rightarrow> Generation \<Rightarrow> string \<Rightarrow> (string \<Rightarrow> string \<Rightarrow> unit prog) \<Rightarrow> Generation prog" where
  "copyIntoStage w candidate source stagePath publish =
    andThen (copy_tree w (ca_Source candidate) stagePath) (andThen (attest w source) (bnd (deploy_inspect w stagePath) (\<lambda>copied.
      if \<not> sameBytes copied source then throw [ErrConflict]
      else andThen (publish stagePath (la_candidate (lay w))) (bnd (deploy_inspect w (la_candidate (lay w))) (\<lambda>published.
        if \<not> sameBytes published source then throw [ErrConflict] else ret published)))))"

definition matched :: "Candidate \<Rightarrow> Generation \<Rightarrow> unit prog" where
  "matched c g = (case candidate_matches c g of None \<Rightarrow> ret () | Some e \<Rightarrow> throw e)"

definition discarding :: "unit prog \<Rightarrow> 'a prog \<Rightarrow> 'a prog" where
  "discarding cleanup m = bnd (tried m) (\<lambda>r.
    case r of Inr x \<Rightarrow> ret x | Inl e \<Rightarrow> bnd (joined [throw e, cleanup]) (\<lambda>_. throw e))"

definition stage_copy :: "machine \<Rightarrow> Candidate \<Rightarrow> (string \<Rightarrow> string \<Rightarrow> unit prog) \<Rightarrow> Generation prog" where
  "stage_copy w candidate publish =
    bnd (deploy_inspect w (ca_Source candidate)) (\<lambda>source. andThen (matched candidate source) (bnd (make_stage w) (\<lambda>stagePath.
      discarding (durable_RemoveTree w stagePath) (copyIntoStage w candidate source stagePath publish))))"

definition deploy_stage :: "machine \<Rightarrow> Candidate \<Rightarrow> Generation prog" where
  "deploy_stage w candidate =
    bnd (fileExists (la_candidate (lay w))) (\<lambda>there.
      if \<not> there then stage_copy w candidate (durable_Rename w)
      else bnd (deploy_inspect w (la_candidate (lay w))) (\<lambda>staged.
        if candidate_matches candidate staged = None then ret staged
        else andThen (discardCandidate w) (stage_copy w candidate (durable_Rename w))))"

definition discardGenerations :: "machine \<Rightarrow> unit prog" where
  "discardGenerations w = bnd (stagingTrees w) (\<lambda>stages.
    joined (map (durable_RemoveTree w) (filter (\<lambda>slot. slot \<noteq> la_canonical (lay w)) (generationSlots (lay w) stages))))"

subsection \<open>Supersede and install (deploy.go)\<close>

record deploy_incumbent =
  di_generation :: Generation
  di_build :: string
  di_labels :: "string list"

definition certify :: "deploy_incumbent \<Rightarrow> string \<Rightarrow> derr" where
  "certify i build = (if di_build i = [] then [] else if build = di_build i then [ErrRestored] else [ErrConflict])"

definition restoreGrace :: int where "restoreGrace = 30000000000"

definition restore_machine :: "machine \<Rightarrow> nat \<Rightarrow> machine" where
  "restore_machine w t =
    (let b = dp_boundary (mc_deployment w); v = bd_world b; stop = w_now v t + restoreGrace in
     w\<lparr>mc_deployment := (mc_deployment w)\<lparr>dp_boundary := with_ctx (v\<lparr>w_deadline := stop, w_ended := (\<lambda>u. stop \<le> w_now v u)\<rparr>) b\<rparr>,
       mc_canceled := (\<lambda>_. False)\<rparr>)"

text \<open>The readiness probe of a restore: what answered within its share, the build when it is ready.\<close>

definition probe_ready :: "machine \<Rightarrow> string option prog" where
  "probe_ready w = (\<lambda>s.
    let b = dp_boundary (mc_deployment w); v = bd_world b in
    case WaitReady (with_ctx (derive (w_now v (ms_tick s) + restoreGrace sdiv readinessReserve) v) b) (ms_tick s) of
      None \<Rightarrow> (Halt, s)
    | Some (Inl e, t) \<Rightarrow> (Ret None, at_tick t s)
    | Some (Inr h, t) \<Rightarrow> (Ret (if he_Phase h = PhaseReady then Some (he_Build h) else None), at_tick t s))"

definition apply_label :: "machine \<Rightarrow> string \<Rightarrow> unit prog" where
  "apply_label w label = (case find (\<lambda>a. ag_Label a = label) (mc_agents w) of None \<Rightarrow> throw [ErrConfig] | Some a \<Rightarrow> launchd_Apply w a)"

definition restore_incumbent :: "machine \<Rightarrow> deploy_incumbent \<Rightarrow> derr prog" where
  "restore_incumbent w i =
    bnd (deploy_inspect w (la_canonical (lay w))) (\<lambda>installed.
      if \<not> sameTree installed (di_generation i) then throw [ErrConflict]
      else bnd (appliedServices w) (\<lambda>remaining. bnd (probe_ready w) (\<lambda>ready.
        let removed = filter (\<lambda>l. l \<notin> set remaining) (di_labels i) in
        case ready of
          Some build \<Rightarrow>
            if removed = [] then ret (certify i build)
            else andThen (recordServices w (di_labels i)) (andThen (each (apply_label w) removed)
              (bnd (prove_ready w) (\<lambda>p. ret (certify i (ry_build p)))))
        | None \<Rightarrow>
            andThen (remove_activation w) (andThen (recordServices w (di_labels i)) (andThen (each (apply_label w) (di_labels i))
              (bnd (prove_ready w) (\<lambda>p. ret (certify i (ry_build p)))))))))"

definition deploy_restore :: "machine \<Rightarrow> deploy_incumbent \<Rightarrow> derr prog" where
  "deploy_restore w i = (\<lambda>s.
    if ms_swap s \<noteq> None then (Ret [], s)
    else bnd (tried (restore_incumbent (restore_machine w (ms_tick s)) i)) (\<lambda>r. ret (case r of Inl e \<Rightarrow> e | Inr v \<Rightarrow> v)) s)"

definition read_owner :: "machine \<Rightarrow> Owner option prog" where
  "read_owner w = (\<lambda>s. (case bd_owner (dp_boundary (mc_deployment w)) (ms_tick s) of Inl e \<Rightarrow> Fail (lift_root e) | Inr x \<Rightarrow> Ret x, tick s))"

definition commitSupersede :: "machine \<Rightarrow> swapRecord \<Rightarrow> Generation \<Rightarrow> unit prog" where
  "commitSupersede w r prior =
    bnd (appliedServices w) (\<lambda>applied. bnd (read_owner w) (\<lambda>owner.
      let i = \<lparr> di_generation = prior, di_build = (case owner of None \<Rightarrow> [] | Some own \<Rightarrow> own_Build own), di_labels = applied \<rparr> in
      bnd (tried (andThen (quiesceAndConverge w []) (andThen (require_empty w) (write_swap w r)))) (\<lambda>outcome.
        case outcome of Inr _ \<Rightarrow> ret () | Inl e \<Rightarrow> bnd (deploy_restore w i) (\<lambda>verdict. throw (e @ verdict)))))"

definition ensureMetadata :: "machine \<Rightarrow> unit prog" where
  "ensureMetadata w = (\<lambda>s. (case mc_metadata w (ms_tick s) of None \<Rightarrow> Ret () | Some e \<Rightarrow> Fail e, tick s))"

definition deploy_hold :: "machine \<Rightarrow> unit prog" where
  "deploy_hold w = andThen (ensureMetadata w) (\<lambda>s. (case mc_lock w (ms_tick s) of None \<Rightarrow> Ret () | Some e \<Rightarrow> Fail e, tick s))"

definition incumbent_of :: "machine \<Rightarrow> bool \<Rightarrow> Generation option prog" where
  "incumbent_of w supersede = bnd (fileExists (la_canonical (lay w))) (\<lambda>installed.
    if installed \<and> \<not> supersede then throw [ErrConflict]
    else if \<not> installed \<and> supersede then throw [ErrConflict]
    else if installed then bnd (deploy_inspect w (la_canonical (lay w))) (\<lambda>g. ret (Some g)) else ret None)"

definition swap_record :: "machine \<Rightarrow> Generation option \<Rightarrow> Generation \<Rightarrow> swapRecord" where
  "swap_record w prior staged = \<lparr> sw_Identity = swapIdentity, sw_Schema = deployRecordSchema, sw_Target = la_canonical (lay w), sw_Prior = prior,
     sw_Candidate = staged\<lparr>ge_Path := la_canonical (lay w)\<rparr> \<rparr>"

definition land :: "machine \<Rightarrow> Candidate \<Rightarrow> bool \<Rightarrow> Generation prog" where
  "land w candidate supersede =
    (if \<not> Candidate_validate candidate then throw [ErrConfig]
     else andThen (deploy_hold w) (andThen (deploy_recover w) (bnd (incumbent_of w supersede) (\<lambda>prior.
       bnd (deploy_stage w candidate) (\<lambda>staged.
         let r = swap_record w prior staged in
         if \<not> swap_validate r then throw [ErrState]
         else andThen (case prior of Some p \<Rightarrow> commitSupersede w r p | None \<Rightarrow> write_swap w r)
           (andThen (settleSwap w r) (andThen (retireSwap w r) (deploy_inspect w (la_canonical (lay w))))))))))"

definition Install :: "machine \<Rightarrow> Candidate \<Rightarrow> Generation prog" where
  "Install w candidate = land w candidate False"

definition Supersede :: "machine \<Rightarrow> Candidate \<Rightarrow> Generation prog" where
  "Supersede w candidate = land w candidate True"

subsection \<open>Activate, uninstall, reset\<close>

definition activation_record :: "Generation \<Rightarrow> ReadinessProof \<Rightarrow> activationRecord" where
  "activation_record g p = \<lparr> ac_Identity = activationIdentity, ac_Schema = deployRecordSchema, ac_Generation = g, ac_Readiness = stored_readiness p \<rparr>"

definition Activate :: "machine \<Rightarrow> (Generation \<times> ReadinessProof) prog" where
  "Activate w =
    andThen (deploy_hold w) (andThen (deploy_recover w) (bnd (deploy_inspect w (la_canonical (lay w))) (\<lambda>generation.
      andThen (convergeAgents w) (bnd (prove_ready w) (\<lambda>readiness.
        let r = activation_record generation readiness in
        bnd (readRecord w ms_activation activation_validate) (\<lambda>sealed.
          if sealed \<noteq> None \<and> sealed \<noteq> Some r then throw [ErrConflict]
          else andThen (joined [remove_removal w, write_activation w r]) (ret (generation, readiness))))))))"

definition removal_record :: "Generation \<Rightarrow> RuntimeProof \<Rightarrow> removalRecord" where
  "removal_record g p = \<lparr> re_Identity = removalIdentity, re_Schema = deployRecordSchema, re_Generation = g, re_Runtime = stored_runtime p \<rparr>"

definition tombstone :: "machine \<Rightarrow> RuntimeProof \<Rightarrow> removalRecord prog" where
  "tombstone w runtime = bnd (readRecord w ms_removal removal_validate) (\<lambda>found.
    case found of
      Some r \<Rightarrow> ret r
    | None \<Rightarrow> bnd (deploy_inspect w (la_canonical (lay w))) (\<lambda>generation.
        let r = removal_record generation runtime in andThen (joined [remove_activation w, write_removal w r]) (ret r)))"

definition Uninstall :: "machine \<Rightarrow> (Generation \<times> RuntimeProof) prog" where
  "Uninstall w =
    andThen (deploy_hold w) (andThen (deploy_recover w) (bnd (quiesceAndConverge w []) (\<lambda>runtime.
      bnd (tombstone w runtime) (\<lambda>r. andThen (require_empty w) (bnd (fileExists (la_canonical (lay w))) (\<lambda>installed.
        andThen (if \<not> installed then ret () else bnd (fileExists (la_removed (lay w))) (\<lambda>occupied.
            if occupied then throw [ErrConflict]
            else andThen (attest w (re_Generation r)) (durable_Rename w (la_canonical (lay w)) (la_removed (lay w)))))
          (andThen (discardGenerations w) (bnd (fileExists (la_canonical (lay w))) (\<lambda>returned.
            if returned then throw [ErrConflict] else ret (re_Generation r, runtime))))))))))"

definition Reset :: "machine \<Rightarrow> unit prog" where
  "Reset w =
    andThen (deploy_hold w) (andThen (deploy_recover w) (andThen (quiesceAndConverge w []) (andThen (require_empty w)
      (joined [remove_activation w, remove_removal w, remove_swap w, remove_services w, discardGenerations w]))))"

subsection \<open>A first install (fresh.go)\<close>

definition absent_path :: "machine \<Rightarrow> string \<Rightarrow> unit prog" where
  "absent_path w p = (\<lambda>s. (if mc_unread w (ms_tick s) \<or> ms_disk s p \<noteq> None then Fail [ErrNotFresh] else Ret (), tick s))"

definition absent_records :: "machine \<Rightarrow> unit prog" where
  "absent_records w = (\<lambda>s. (if mc_unread w (ms_tick s) \<or> ms_swap s \<noteq> None \<or> ms_activation s \<noteq> None \<or> ms_services s \<noteq> None \<or> ms_removal s \<noteq> None
     then Fail [ErrNotFresh] else Ret (), tick s))"

definition not_fresh :: "'a prog \<Rightarrow> 'a prog" where
  "not_fresh m = wrapped (\<lambda>e. ErrNotFresh # e) m"

definition bareMetadata :: "machine \<Rightarrow> unit prog" where
  "bareMetadata w = (\<lambda>s. (if mc_unlisted w (ms_tick s) \<or> mc_strangers w (ms_tick s) then Fail [ErrNotFresh] else Ret (), tick s))"

definition absent_owner :: "machine \<Rightarrow> unit prog" where
  "absent_owner w = (\<lambda>s. (if mc_record w (ms_tick s) then Fail [ErrNotFresh] else Ret (), tick s))"

definition freshOnDisk :: "machine \<Rightarrow> bool \<Rightarrow> unit prog" where
  "freshOnDisk w landed =
    andThen (if landed then ret () else absent_path w (la_canonical (lay w))) (bnd (not_fresh (stagingTrees w)) (\<lambda>stages.
      andThen (each (absent_path w) (filter (\<lambda>p. p \<noteq> la_canonical (lay w)) (generationSlots (lay w) stages)))
        (andThen (absent_records w) (andThen (bareMetadata w) (absent_owner w)))))"

definition daemonAbsent :: "machine \<Rightarrow> unit prog" where
  "daemonAbsent w = (\<lambda>s.
    case client_Health (dp_boundary (mc_deployment w)) (ms_tick s) of
      (Inl e, t) \<Rightarrow> (if Is e ErrAbsent then Ret () else Fail (ErrNotFresh # lift_root e), at_tick t s)
    | (Inr h, t) \<Rightarrow> (Fail [ErrNotFresh], at_tick t s))"

definition deploy_fresh :: "machine \<Rightarrow> bool \<Rightarrow> unit prog" where
  "deploy_fresh w landed =
    andThen (freshOnDisk w landed) (andThen (each (\<lambda>a. not_fresh (launchd_RequireAbsent w (ag_Label a))) (mc_agents w))
      (andThen (daemonAbsent w) (not_fresh (require_empty w))))"

definition stageFresh :: "machine \<Rightarrow> Candidate \<Rightarrow> Generation prog" where
  "stageFresh w candidate =
    bnd (not_fresh (stagingTrees w)) (\<lambda>stages. andThen (each (absent_path w) (la_candidate (lay w) # stages))
      (wrapped (\<lambda>e. if ErrExist \<in> set e then ErrNotFresh # e else e) (stage_copy w candidate (durable_RenameNew w))))"

definition landFresh :: "machine \<Rightarrow> Candidate \<Rightarrow> Generation prog" where
  "landFresh w candidate =
    bnd (stageFresh w candidate) (\<lambda>staged.
      let r = swap_record w None staged in
      if \<not> swap_validate r then throw [ErrState]
      else andThen (write_swap w r) (andThen (settleSwap w r) (andThen (retireSwap w r) (ret (sw_Candidate r)))))"

text \<open>\<open>bootstrapAgent\<close> wraps the runner to see which verbs of launchctl the call ran: these are the events it logged.\<close>

definition bootstrapAgent :: "machine \<Rightarrow> Agent \<Rightarrow> (bool \<times> derr option) prog" where
  "bootstrapAgent w a =
    bnd (read_state (\<lambda>s. length (ms_log s))) (\<lambda>n. bnd (tried (launchd_ApplyFresh w a)) (\<lambda>r. bnd (read_state (\<lambda>s. take (length (ms_log s) - n) (ms_log s)))
      (\<lambda>events.
        let mutated = list_ex (\<lambda>e. case e of Launchctl verb label ok \<Rightarrow> verb \<noteq> ''print'' | _ \<Rightarrow> False) events;
            bootstrapped = list_ex (\<lambda>e. case e of Launchctl verb label ok \<Rightarrow> verb = ''bootstrap'' \<and> ok | _ \<Rightarrow> False) events in
        ret (case r of
            Inr _ \<Rightarrow> (bootstrapped, None)
          | Inl e \<Rightarrow> (bootstrapped, Some (if ErrPresent \<in> set e \<or> \<not> mutated then ErrNotFresh # e else e))))))"

primrec bootstrap_each :: "machine \<Rightarrow> string list \<Rightarrow> Agent list \<Rightarrow> unit prog" where
  "bootstrap_each w done [] = ret ()"
| "bootstrap_each w done (a # as) =
    (let kept = remdups_adj (sort (done @ [ag_Label a])) in
     bnd (tried (recordServices w kept)) (\<lambda>r.
       case r of
         Inl e \<Rightarrow> joined [throw e, recordServices w done]
       | Inr _ \<Rightarrow> bnd (bootstrapAgent w a) (\<lambda>(bootstrapped, err).
           case err of
             None \<Rightarrow> bootstrap_each w kept as
           | Some e \<Rightarrow> if bootstrapped then throw e else joined [throw e, recordServices w done])))"

definition bootstrapAgents :: "machine \<Rightarrow> unit prog" where
  "bootstrapAgents w = bootstrap_each w [] (mc_agents w)"

definition InstallFresh :: "machine \<Rightarrow> Candidate \<Rightarrow> (Generation \<times> ReadinessProof) prog" where
  "InstallFresh w candidate =
    (if \<not> Candidate_validate candidate then throw [ErrConfig]
     else andThen (ensureMetadata w) (andThen (not_fresh (deploy_hold w)) (andThen (deploy_fresh w False) (bnd (landFresh w candidate) (\<lambda>landing.
       bnd (not_fresh (deploy_inspect w (la_canonical (lay w)))) (\<lambda>generation. andThen (not_fresh (matched candidate generation))
         (if \<not> sameTree generation landing then throw [ErrNotFresh]
          else andThen (deploy_fresh w True) (andThen (bootstrapAgents w) (bnd (prove_ready w) (\<lambda>readiness.
            andThen (write_activation w (activation_record generation readiness)) (ret (generation, readiness))))))))))))"

definition Fresh :: "machine \<Rightarrow> unit prog" where
  "Fresh w = deploy_fresh w False"

end
