(* ===== verification/DeploySafety.thy ===== *)
theory DeploySafety
  imports Deploy
begin

text \<open>
  What a crash can leave. The invariant of a deployment relates the disk to the swap record: while a record exists, the
  recorded prior is at the canonical path or aside, and the recorded candidate is staged or at the canonical path. Every verb
  keeps it at every point where it can fail or crash, and the next verb's recovery drives such a state to its end.
\<close>

subsection \<open>The disk and the swap record\<close>

definition gen_node :: "machine \<Rightarrow> string \<Rightarrow> node option \<Rightarrow> Generation \<Rightarrow> bool" where
  "gen_node w path n g \<longleftrightarrow> (\<exists>tr. n = Some (Bundle tr) \<and> tr_trusted tr \<and> validCDHash (tr_cdhash tr) \<and> g = generation_of w path tr)"

text \<open>A path holds a generation, wherever it was inspected.\<close>

definition slot_holds :: "machine \<Rightarrow> mstate \<Rightarrow> string \<Rightarrow> Generation \<Rightarrow> bool" where
  "slot_holds w s path g \<longleftrightarrow> gen_node w path (ms_disk s path) (g\<lparr>ge_Path := path\<rparr>)"

definition slot_paths :: "machine \<Rightarrow> mstate \<Rightarrow> string set" where
  "slot_paths w s = set (generationSlots (lay w) (ms_stages s))"

text \<open>No two trees of the deployment have one inode.\<close>

definition disk_ok :: "machine \<Rightarrow> mstate \<Rightarrow> bool" where
  "disk_ok w s \<longleftrightarrow> (\<forall>p\<in>slot_paths w s. \<forall>q\<in>slot_paths w s. \<forall>tr tr'.
     ms_disk s p = Some (Bundle tr) \<and> ms_disk s q = Some (Bundle tr') \<and> tr_id tr = tr_id tr' \<longrightarrow> p = q)"

text \<open>The states of a swap that replaces \<open>n0\<close>: before the first rename, between the two, after the second.\<close>

definition swap_state :: "machine \<Rightarrow> node option \<Rightarrow> swapRecord \<Rightarrow> mstate \<Rightarrow> bool" where
  "swap_state w n0 r s \<longleftrightarrow>
    (case n0 of None \<Rightarrow> sw_Prior r = None | Some _ \<Rightarrow> \<exists>p. sw_Prior r = Some p \<and> gen_node w (la_canonical (lay w)) n0 p)
    \<and> ((ms_disk s (la_canonical (lay w)) = n0 \<and> slot_holds w s (la_candidate (lay w)) (sw_Candidate r))
      \<or> (ms_disk s (la_canonical (lay w)) = None \<and> (n0 \<noteq> None \<longrightarrow> ms_disk s (la_prior (lay w)) = n0) \<and> slot_holds w s (la_candidate (lay w)) (sw_Candidate r))
      \<or> slot_holds w s (la_canonical (lay w)) (sw_Candidate r))"

definition swapping :: "machine \<Rightarrow> node option \<Rightarrow> swapRecord \<Rightarrow> mstate \<Rightarrow> bool" where
  "swapping w n0 r s \<longleftrightarrow> disk_ok w s \<and> ms_swap s = Some (Stored r) \<and> swap_validate r \<and> sw_Target r = la_canonical (lay w) \<and> swap_state w n0 r s"

definition deploy_inv :: "machine \<Rightarrow> mstate \<Rightarrow> bool" where
  "deploy_inv w s \<longleftrightarrow> disk_ok w s \<and> (ms_swap s = None \<or> (\<exists>n0 r. swapping w n0 r s))"

text \<open>The configuration: the layout of an application path that is accepted and is not one of the two dots.\<close>

definition configured :: "machine \<Rightarrow> bool" where
  "configured w \<longleftrightarrow> (\<exists>app. lay w = layoutFor app \<and> validAppPath app \<and> app_name app \<noteq> ''.'' \<and> app_name app \<noteq> ''..'')"

lemma configured_distinct:
  assumes "configured w"
  shows "distinct [la_canonical (lay w), la_prior (lay w), la_candidate (lay w), la_removed (lay w)]"
proof -
  obtain app where a: "lay w = layoutFor app" "validAppPath app" "app_name app \<noteq> ''.''" "app_name app \<noteq> ''..''"
    using assms by (auto simp: configured_def)
  have "distinct (layout_paths (lay w))" using layout_shape [OF a(2-4)] a(1) by simp
  then show ?thesis by (auto simp: layout_paths_def)
qed

lemma configured_slots:
  assumes "configured w"
  shows "la_canonical (lay w) \<noteq> la_prior (lay w)" "la_canonical (lay w) \<noteq> la_candidate (lay w)" "la_canonical (lay w) \<noteq> la_removed (lay w)"
    "la_prior (lay w) \<noteq> la_candidate (lay w)" "la_prior (lay w) \<noteq> la_removed (lay w)" "la_candidate (lay w) \<noteq> la_removed (lay w)"
  using configured_distinct [OF assms] by auto

lemma slot_members [simp]:
  "la_canonical (lay w) \<in> slot_paths w s" "la_prior (lay w) \<in> slot_paths w s" "la_candidate (lay w) \<in> slot_paths w s" "la_removed (lay w) \<in> slot_paths w s"
  by (simp_all add: slot_paths_def generationSlots_def)

text \<open>The clock, the log, and everything a gate or launchd changes do not matter to the disk.\<close>

definition same_disk :: "mstate \<Rightarrow> mstate \<Rightarrow> bool" where
  "same_disk s s' \<longleftrightarrow> ms_disk s' = ms_disk s \<and> ms_stages s' = ms_stages s \<and> ms_swap s' = ms_swap s"

lemma same_disk_cong:
  assumes "same_disk s s'"
  shows "slot_holds w s' = slot_holds w s" "disk_ok w s' = disk_ok w s" "swap_state w n0 r s' = swap_state w n0 r s" "swapping w n0 r s' = swapping w n0 r s"
    "deploy_inv w s' = deploy_inv w s"
proof -
  have sp: "slot_paths w s' = slot_paths w s" using assms by (simp add: slot_paths_def same_disk_def)
  show h: "slot_holds w s' = slot_holds w s" using assms by (auto simp: slot_holds_def fun_eq_iff same_disk_def)
  show d: "disk_ok w s' = disk_ok w s" using assms sp by (simp add: disk_ok_def same_disk_def)
  show st: "swap_state w n0 r s' = swap_state w n0 r s" for n0 r using assms h by (simp add: swap_state_def same_disk_def)
  show sw: "swapping w n0 r s' = swapping w n0 r s" for n0 r using assms d st by (simp add: swapping_def same_disk_def)
  show "deploy_inv w s' = deploy_inv w s" using assms d sw by (simp add: deploy_inv_def same_disk_def)
qed

lemma same_disk_simps [simp]: "same_disk s (tick s)" "same_disk s s" "same_disk s (logged e s)" "same_disk s (at_tick t s)" "same_disk s (gate_logged t s)"
  by (simp_all add: same_disk_def at_tick_def gate_logged_def)

lemmas tick_same [simp] = same_disk_cong [OF same_disk_simps(1)]

lemmas quiet_same = same_disk_cong [OF same_disk_simps(3)] same_disk_cong [OF same_disk_simps(4)] same_disk_cong [OF same_disk_simps(5)]

lemma gate_logged_simps [simp]:
  "ms_disk (gate_logged t s) = ms_disk s" "ms_stages (gate_logged t s) = ms_stages s" "ms_swap (gate_logged t s) = ms_swap s"
  "ms_disk (at_tick t s) = ms_disk s" "ms_stages (at_tick t s) = ms_stages s" "ms_swap (at_tick t s) = ms_swap s"
  "ms_log (at_tick t s) = ms_log s" "ms_log (gate_logged t s) = GatePassed (ms_tick s) t (ms_disk s) # ms_log s"
  by (simp_all add: gate_logged_def at_tick_def)

lemma same_disk_trans: "same_disk s s' \<Longrightarrow> same_disk s' s'' \<Longrightarrow> same_disk s s''"
  by (simp add: same_disk_def)

subsection \<open>Primitives\<close>

lemma wp_inspect:
  assumes "E (tick s)" "\<And>g. gen_node w p (ms_disk s p) g \<Longrightarrow> ge_Path g = p \<Longrightarrow> Q g (tick s)"
  shows "wp (deploy_inspect w p) Q E s"
  using assms by (auto simp: wp_def deploy_inspect_def gen_node_def generation_of_def split: option.splits node.splits)

lemma wp_attest:
  assumes "E (tick s)" "gen_node w (ge_Path g) (ms_disk s (ge_Path g)) g \<Longrightarrow> Q () (tick s)"
  shows "wp (attest w g) Q E s"
  unfolding attest_def wp_bnd by (rule wp_inspect) (use assms in \<open>auto simp: wp_throw wp_ret\<close>)

lemma wp_Rename:
  assumes "E (tick s)" "\<And>n. ms_disk s from = Some n \<Longrightarrow> ms_disk s to = None \<Longrightarrow>
      Q () (moved_to from to n (tick s)) \<and> E (moved_to from to n (tick s))"
  shows "wp (durable_Rename w from to) Q E s" "wp (durable_RenameNew w from to) Q E s"
  using assms by (auto simp: wp_def durable_Rename_def durable_RenameNew_def change_def split: option.splits fault.splits)

lemma leftover_id: "leftover w t n = None \<or> node_id (leftover w t n) = node_id (Some n)"
  by (auto simp: leftover_def node_id_def split: node.splits option.splits)

lemma wp_RemoveTree:
  assumes "ms_disk s p = None \<Longrightarrow> Q () (tick s)"
    and "\<And>n l. ms_disk s p = Some n \<Longrightarrow> l = None \<or> node_id l = node_id (Some n) \<Longrightarrow>
      (let s' = logged (Destroyed p n) ((tick s)\<lparr>ms_disk := (ms_disk s)(p := l)\<rparr>) in E s' \<and> (l = None \<longrightarrow> Q () s'))"
  shows "wp (durable_RemoveTree w p) Q E s"
proof (cases "ms_disk s p")
  case None
  then show ?thesis using assms(1) by (simp add: wp_def durable_RemoveTree_def)
next
  case (Some n)
  note a = assms(2) [OF Some, of None, simplified Let_def] assms(2) [OF Some leftover_id [of w "ms_tick s"], simplified Let_def]
  show ?thesis using Some a by (auto simp: wp_def durable_RemoveTree_def Let_def split: fault.splits)
qed

lemma node_id_Bundle: "node_id n = Some i \<longleftrightarrow> (\<exists>tr. n = Some (Bundle tr) \<and> tr_id tr = i)"
  by (auto simp: node_id_def split: option.splits node.splits)

lemma disk_ok_ids: "disk_ok w s \<longleftrightarrow> (\<forall>p\<in>slot_paths w s. \<forall>q\<in>slot_paths w s. \<forall>i.
    node_id (ms_disk s p) = Some i \<and> node_id (ms_disk s q) = Some i \<longrightarrow> p = q)"
  unfolding disk_ok_def node_id_Bundle by metis

lemma disk_okI:
  assumes "disk_ok w s" "ms_stages s' = ms_stages s"
    and src: "\<And>p i. node_id (ms_disk s' p) = Some i \<Longrightarrow> src p \<in> slot_paths w s \<union> {p} \<and> node_id (ms_disk s (src p)) = Some i"
    and inj: "\<And>p q. node_id (ms_disk s' p) \<noteq> None \<Longrightarrow> node_id (ms_disk s' q) \<noteq> None \<Longrightarrow> src p = src q \<Longrightarrow> p = q"
  shows "disk_ok w s'"
  unfolding disk_ok_ids
proof (intro ballI allI impI)
  fix p q i
  assume a: "p \<in> slot_paths w s'" "q \<in> slot_paths w s'" "node_id (ms_disk s' p) = Some i \<and> node_id (ms_disk s' q) = Some i"
  have sp: "slot_paths w s' = slot_paths w s" using assms(2) by (simp add: slot_paths_def)
  have "src p \<in> slot_paths w s" "src q \<in> slot_paths w s" "node_id (ms_disk s (src p)) = Some i" "node_id (ms_disk s (src q)) = Some i"
    using src [OF conjunct1 [OF a(3)]] src [OF conjunct2 [OF a(3)]] a(1,2) unfolding sp Un_iff by (elim conjE disjE, simp_all)+
  then have "src p = src q" using assms(1) unfolding disk_ok_ids by blast
  then show "p = q" using inj a(3) by auto
qed

lemma node_id_None [simp]: "node_id None = None"
  by (simp add: node_id_def)

lemma disk_ok_replace:
  assumes "disk_ok w s" "l = None \<or> node_id l = node_id (ms_disk s p)"
  shows "disk_ok w (logged e ((tick s)\<lparr>ms_disk := (ms_disk s)(p := l)\<rparr>))"
  by (rule disk_okI [OF assms(1), where src = id]) (use assms(2) in \<open>auto split: if_splits\<close>)

lemma disk_ok_move:
  assumes "disk_ok w s" "ms_disk s from = Some n" "ms_disk s to = None" "from \<in> slot_paths w s"
  shows "disk_ok w (moved_to from to n s)"
proof (cases "from = to")
  case False
  show ?thesis
    by (rule disk_okI [OF assms(1), where src = "\<lambda>x. if x = to then from else x"])
      (use assms False in \<open>auto simp: moved_to_def split: if_splits\<close>)
qed (use assms in simp)

lemma moved_simps [simp]:
  "ms_swap (moved_to from to n s) = ms_swap s" "ms_stages (moved_to from to n s) = ms_stages s"
  "ms_disk (moved_to from to n s) = (ms_disk s)(to \<mapsto> n, from := None)"
  by (simp_all add: moved_to_def)

lemma slot_holds_path: "slot_holds w s p g \<longleftrightarrow> gen_node w p (ms_disk s p) (g\<lparr>ge_Path := p\<rparr>)"
  by (simp add: slot_holds_def)

lemma gen_node_move: "gen_node w p n g \<Longrightarrow> gen_node w q n (g\<lparr>ge_Path := q\<rparr>)"
  by (auto simp: gen_node_def generation_of_def)

lemma gen_node_unique: "gen_node w p n g \<Longrightarrow> gen_node w p n g' \<Longrightarrow> g = g'"
  by (auto simp: gen_node_def)

lemma gen_node_path: "gen_node w p n g \<Longrightarrow> ge_Path g = p"
  by (auto simp: gen_node_def generation_of_def)

lemma sameTree_gen: "gen_node w p n g \<Longrightarrow> sameTree g c \<longleftrightarrow> g = c\<lparr>ge_Path := p\<rparr>"
  by (cases c) (auto simp: gen_node_def sameTree_def sameBytes_def generation_of_def)

subsection \<open>Settling a swap\<close>

lemma settle_second:
  assumes cfg: "configured w" and sw: "swapping w n0 r s" and no: "ms_disk s (la_canonical (lay w)) = None"
  shows "wp (durable_Rename w (la_candidate (lay w)) (la_canonical (lay w)))
    (\<lambda>_ s'. swapping w n0 r s' \<and> slot_holds w s' (la_canonical (lay w)) (sw_Candidate r)) (swapping w n0 r) s"
proof (rule wp_Rename)
  show "swapping w n0 r (tick s)" using sw by simp
  fix n
  assume n: "ms_disk s (la_candidate (lay w)) = Some n"
  let ?s = "moved_to (la_candidate (lay w)) (la_canonical (lay w)) n (tick s)"
  have st: "swap_state w n0 r s" "disk_ok w s" using sw by (auto simp: swapping_def)
  have "\<not> slot_holds w s (la_canonical (lay w)) (sw_Candidate r)" using no by (simp add: slot_holds_def gen_node_def)
  then have h: "slot_holds w s (la_candidate (lay w)) (sw_Candidate r)" using st(1) by (auto simp: swap_state_def)
  have "slot_holds w ?s (la_canonical (lay w)) (sw_Candidate r)"
    using h n configured_slots [OF cfg] gen_node_move [of w "la_candidate (lay w)" "Some n" "(sw_Candidate r)\<lparr>ge_Path := la_candidate (lay w)\<rparr>"
      "la_canonical (lay w)"]
    by (simp add: slot_holds_def)
  moreover have "disk_ok w ?s" using disk_ok_move [of w "tick s"] st(2) n no by simp
  ultimately show "(swapping w n0 r ?s \<and> slot_holds w ?s (la_canonical (lay w)) (sw_Candidate r)) \<and> swapping w n0 r ?s"
    using sw by (auto simp: swapping_def swap_state_def)
qed

lemma wp_fileExists_bnd: "wp (bnd (fileExists p) f) Q E s = wp (f (ms_disk s p \<noteq> None)) Q E s"
  by (simp add: wp_bnd wp_exists)

lemma swap_landed_wp:
  assumes "swapping w n0 r s"
  shows "wp (swap_landed w r) (\<lambda>_ s'. swapping w n0 r s' \<and> slot_holds w s' (la_canonical (lay w)) (sw_Candidate r)) (swapping w n0 r) s"
  unfolding swap_landed_def wp_bnd
  by (rule wp_inspect) (use assms in \<open>auto simp: wp_throw wp_ret slot_holds_def sameTree_gen\<close>)

lemma swap_second_wp:
  assumes cfg: "configured w" and sw: "swapping w n0 r s" and no: "ms_disk s (la_canonical (lay w)) = None"
  shows "wp (swap_second w r) (\<lambda>_ s'. swapping w n0 r s' \<and> slot_holds w s' (la_canonical (lay w)) (sw_Candidate r)) (swapping w n0 r) s"
    (is "wp _ ?Q ?E s")
proof -
  have ren: "wp (andThen (durable_Rename w (la_candidate (lay w)) (la_canonical (lay w))) (swap_landed w r)) ?Q ?E (tick s)"
    unfolding wp_andThen by (rule wp_weaken [OF settle_second [OF cfg]]) (use sw no in \<open>auto intro: swap_landed_wp\<close>)
  have at: "wp (attest w ((sw_Candidate r)\<lparr>ge_Path := la_candidate (lay w)\<rparr>))
      (\<lambda>_. wp (bnd (fileExists (la_canonical (lay w))) (\<lambda>occupied. if occupied then throw [ErrConflict]
          else andThen (durable_Rename w (la_candidate (lay w)) (la_canonical (lay w))) (swap_landed w r))) ?Q ?E) ?E s"
    by (rule wp_attest) (use sw no ren in \<open>auto simp: wp_fileExists_bnd\<close>)
  show ?thesis unfolding swap_second_def wp_fileExists_bnd [where p = "la_candidate (lay w)"]
    using at [folded wp_andThen] swap_landed_wp [OF sw] by simp
qed

lemma swapping_prior:
  assumes "configured w" "swapping w n0 r s" "ms_disk s (la_canonical (lay w)) = n0"
    "slot_holds w s (la_candidate (lay w)) (sw_Candidate r)" "l = None \<or> node_id l = node_id (ms_disk s (la_prior (lay w)))"
  shows "swapping w n0 r (logged e ((tick s)\<lparr>ms_disk := (ms_disk s)(la_prior (lay w) := l)\<rparr>))"
  using assms(2-4) configured_slots [OF assms(1)] disk_ok_replace [OF _ assms(5)]
  by (auto simp: swapping_def swap_state_def slot_holds_def)

lemma swapping_aside:
  assumes "configured w" "swapping w n0 r s" "ms_disk s (la_canonical (lay w)) = n0" "n0 = Some n"
    "slot_holds w s (la_candidate (lay w)) (sw_Candidate r)" "ms_disk s (la_prior (lay w)) = None"
  shows "swapping w n0 r (moved_to (la_canonical (lay w)) (la_prior (lay w)) n s)"
  using assms(2-6) configured_slots [OF assms(1)] disk_ok_move [of w s "la_canonical (lay w)" n "la_prior (lay w)"]
  by (auto simp: swapping_def swap_state_def slot_holds_def)

lemma swap_first_wp:
  assumes cfg: "configured w" and u: "swapping w n0 r s" "ms_disk s (la_canonical (lay w)) = n0" "n0 = Some n"
    "slot_holds w s (la_candidate (lay w)) (sw_Candidate r)"
  shows "wp (swap_first w r prior) (\<lambda>_ s'. swapping w n0 r s' \<and> slot_holds w s' (la_canonical (lay w)) (sw_Candidate r)) (swapping w n0 r) s"
    (is "wp _ ?Q ?E s")
proof -
  let ?c = "la_canonical (lay w)" and ?p = "la_prior (lay w)"
  have mv: "wp (durable_Rename w ?c ?p) (\<lambda>_. wp (swap_second w r) ?Q ?E) ?E v"
    if v: "swapping w n0 r v" "ms_disk v ?c = n0" "slot_holds w v (la_candidate (lay w)) (sw_Candidate r)" for v
  proof (rule wp_Rename)
    fix m
    assume m: "ms_disk v ?c = Some m" "ms_disk v ?p = None"
    have n: "n0 = Some m" using v(2) m by simp
    have x: "swapping w n0 r (moved_to ?c ?p m (tick v))"
      by (rule swapping_aside [OF cfg _ _ n]) (use v m in simp_all)
    have "wp (swap_second w r) ?Q ?E (moved_to ?c ?p m (tick v))" by (rule swap_second_wp [OF cfg x]) simp
    then show "wp (swap_second w r) ?Q ?E (moved_to ?c ?p m (tick v)) \<and> ?E (moved_to ?c ?p m (tick v))" using x by simp
  qed (use v in simp)
  have rm: "wp (durable_RemoveTree w ?p) (\<lambda>_. wp (durable_Rename w ?c ?p) (\<lambda>_. wp (swap_second w r) ?Q ?E) ?E) ?E v"
    if v: "swapping w n0 r v" "ms_disk v ?c = n0" "slot_holds w v (la_candidate (lay w)) (sw_Candidate r)" for v
  proof (rule wp_RemoveTree)
    show "wp (durable_Rename w ?c ?p) (\<lambda>_. wp (swap_second w r) ?Q ?E) ?E (tick v)" using mv [of "tick v"] v by simp
    fix m l
    assume m: "ms_disk v ?p = Some m" and l: "l = None \<or> node_id l = node_id (Some m)"
    let ?v = "logged (Destroyed ?p m) ((tick v)\<lparr>ms_disk := (ms_disk v)(?p := l)\<rparr>)"
    have x: "swapping w n0 r ?v" by (rule swapping_prior [OF cfg v]) (use m l in simp)
    have "ms_disk ?v ?c = n0" "slot_holds w ?v (la_candidate (lay w)) (sw_Candidate r)"
      using v configured_slots [OF cfg] by (auto simp: slot_holds_def)
    then have "wp (durable_Rename w ?c ?p) (\<lambda>_. wp (swap_second w r) ?Q ?E) ?E ?v" by (rule mv [OF x])
    then show "let s' = ?v in ?E s' \<and> (l = None \<longrightarrow> wp (durable_Rename w ?c ?p) (\<lambda>_. wp (swap_second w r) ?Q ?E) ?E s')"
      unfolding Let_def using x by (intro conjI impI)
  qed
  show ?thesis unfolding swap_first_def wp_andThen by (rule wp_attest) (use u rm [of "tick s"] in auto)
qed

lemma settleSwap_wp:
  assumes cfg: "configured w" and sw: "swapping w n0 r s"
  shows "wp (settleSwap w r) (\<lambda>_ s'. swapping w n0 r s' \<and> slot_holds w s' (la_canonical (lay w)) (sw_Candidate r)) (swapping w n0 r) s"
    (is "wp _ ?Q ?E s")
proof (cases "ms_disk s (la_canonical (lay w))")
  case None
  then show ?thesis using swap_second_wp [OF assms None] by (simp add: settleSwap_def wp_fileExists_bnd)
next
  case (Some n)
  let ?c = "la_canonical (lay w)"
  have "wp (if sameTree g (sw_Candidate r) then ret () else (case sw_Prior r of None \<Rightarrow> throw [ErrConflict]
           | Some prior \<Rightarrow> if \<not> sameBytes g prior then throw [ErrConflict] else swap_first w r prior)) ?Q ?E (tick s)"
    if g: "gen_node w ?c (ms_disk s ?c) g" for g
  proof (cases "sameTree g (sw_Candidate r)")
    case True
    then have "slot_holds w s ?c (sw_Candidate r)" using g sameTree_gen [OF g] by (simp add: slot_holds_def)
    then show ?thesis using True sw by (simp add: wp_ret)
  next
    case False
    then have "\<not> slot_holds w s ?c (sw_Candidate r)" using g sameTree_gen [OF g] by (auto simp: slot_holds_def dest: gen_node_unique)
    then have "ms_disk s ?c = n0" "slot_holds w s (la_candidate (lay w)) (sw_Candidate r)"
      using sw Some by (auto simp: swapping_def swap_state_def)
    then show ?thesis using False sw Some swap_first_wp [OF cfg, of n0 r "tick s"] by (auto simp: wp_throw split: option.split)
  qed
  then show ?thesis using Some sw unfolding settleSwap_def wp_fileExists_bnd by (auto simp: wp_bnd intro: wp_inspect)
qed

subsection \<open>What gates and services leave alone\<close>

text \<open>A gate that passed: from some instant of the call on, no process of the deployment as it was then stayed.\<close>

definition gate_true :: "machine \<Rightarrow> mstate \<Rightarrow> nat \<Rightarrow> bool" where
  "gate_true w s t \<longleftrightarrow> (\<exists>t2 \<ge> ms_tick s. gate_empty (seen_by w s) t2 t)"

lemma quiesce_gate:
  assumes "deploy_Quiesce False d t = Some (Inr p, es, t')"
  shows "\<exists>t2 \<ge> t. gate_empty d t2 t'"
proof -
  obtain stopped es1 t1 where st: "deploy_stop False d t = Some (Inr stopped, es1, t1)"
    using assms by (auto simp: deploy_Quiesce_def split: option.splits sum.splits)
  obtain es2 t2 where te: "terminateSurvivors False d t1 = Some (None, es2, t2)"
    using assms st by (auto simp: deploy_Quiesce_def split: option.splits if_splits)
  have "requireEmpty d t2 = (None, t')"
    using assms st te by (auto simp: deploy_Quiesce_def split: option.splits if_splits prod.splits)
  then show ?thesis using deploy_stop_proves [OF st] terminateSurvivors_time [OF te] requireEmpty_gate by (intro exI [of _ t2]) auto
qed

text \<open>
  The interface of a condition that does not look at the clock, launchd's jobs, property lists, or the records of services,
  activation and removal.
\<close>

locale quiet_condition =
  fixes I :: "mstate \<Rightarrow> bool"
  assumes at: "\<And>s t. I s \<Longrightarrow> I (at_tick t s)"
    and jobs: "\<And>s x. I s \<Longrightarrow> I (s\<lparr>ms_jobs := x\<rparr>)"
    and plists: "\<And>s x. I s \<Longrightarrow> I (s\<lparr>ms_plists := x\<rparr>)"
    and activation: "\<And>s x. I s \<Longrightarrow> I (s\<lparr>ms_activation := x\<rparr>)"
    and removal: "\<And>s x. I s \<Longrightarrow> I (s\<lparr>ms_removal := x\<rparr>)"
    and services: "\<And>s x. I s \<Longrightarrow> I (s\<lparr>ms_services := x\<rparr>)"
begin

lemma ticked: "I s \<Longrightarrow> I (tick s)"
  using at [of s "ms_tick s + 1"] by (simp add: at_tick_def tick_def)

lemma records:
  "keeps I (remove_activation w)" "keeps I (remove_removal w)" "keeps I (remove_services w)" "keeps I (write_activation w a)"
  "keeps I (write_removal w b)" "keeps I (recordServices w ls)"
proof -
  have c: "keeps I (change w (\<lambda>s. s\<lparr>ms_activation := f s\<rparr>))" "keeps I (change w (\<lambda>s. s\<lparr>ms_removal := g s\<rparr>))"
      "keeps I (change w (\<lambda>s. s\<lparr>ms_services := h s\<rparr>))" for f g h
    by (rule keeps_change; use ticked activation removal services in simp)+
  show "keeps I (remove_activation w)" "keeps I (remove_removal w)" and rs: "keeps I (remove_services w)"
    using c ticked by (auto simp: keeps_def remove_activation_def remove_removal_def remove_services_def)
  show "keeps I (recordServices w ls)" using c rs by (simp add: recordServices_def write_services_def)
  show "keeps I (write_activation w a)" "keeps I (write_removal w b)" using c by (simp_all add: write_activation_def write_removal_def)
qed

lemma plist_calls:
  "keeps I (write_plist w p body)" "keeps I (remove_plist w p)" "keeps I (archiveForeignPlist w p)" "keeps I (removePublished w p)"
  "keeps I (plist_path w l)" "keeps I (rendered a)"
proof -
  have c: "keeps I (change w (\<lambda>s. s\<lparr>ms_plists := f s\<rparr>))" for f by (rule keeps_change) (use ticked plists in simp_all)
  show "keeps I (write_plist w p body)" using c by (simp add: write_plist_def)
  show r: "keeps I (remove_plist w p)" for p using c ticked by (auto simp: keeps_def remove_plist_def)
  show "keeps I (archiveForeignPlist w p)" unfolding archiveForeignPlist_def by (intro keeps_intros keeps_pure c ticked)
  show "keeps I (removePublished w p)" unfolding removePublished_def by (intro keeps_intros c r)
  show "keeps I (plist_path w l)" by (simp add: plist_path_def keeps_intros split: option.split)
  show "keeps I (rendered a)" by (simp add: rendered_def keeps_intros split: option.split)
qed

lemma reads: "keeps I (readRecord w field valid)" "keeps I (appliedServices w)" "keeps I (deploy_inspect w p)" "keeps I (attest w g)"
  "keeps I (read_owner w)" "keeps I (stagingTrees w)" "keeps I (ensureMetadata w)" "keeps I (deploy_hold w)"
proof -
  show r: "keeps I (readRecord w field valid)" for field :: "mstate \<Rightarrow> 'x stored option" and valid by (rule keeps_readRecord) (rule ticked)
  show "keeps I (appliedServices w)" unfolding appliedServices_def by (intro keeps_intros r)
  show i: "keeps I (deploy_inspect w p)" for p using ticked by (simp add: keeps_def deploy_inspect_def)
  show "keeps I (attest w g)" unfolding attest_def by (intro keeps_intros i)
  show "keeps I (read_owner w)" "keeps I (stagingTrees w)" and e: "keeps I (ensureMetadata w)"
    using ticked by (simp_all add: keeps_def read_owner_def stagingTrees_def ensureMetadata_def)
  have "keeps I (\<lambda>s. (case mc_lock w (ms_tick s) of None \<Rightarrow> Ret () | Some e \<Rightarrow> Fail e, tick s))" using ticked by (simp add: keeps_def)
  then show "keeps I (deploy_hold w)" unfolding deploy_hold_def by (intro keeps_intros e)
qed

end

text \<open>
  A condition that does not look at the log of launchctl and of gates that passed on the machine \<open>m0\<close> either. Whatever the
  quiesce ladder, the convergence of services and a restore do, it is kept.
\<close>

locale disk_condition = quiet_condition +
  fixes m0 :: machine
  assumes launchctl_log: "\<And>s verb label ok. I s \<Longrightarrow> I (logged (Launchctl verb label ok) s)"
    and gate_log: "\<And>s t. I s \<Longrightarrow> gate_true m0 s t \<Longrightarrow> I (gate_logged t s)"
begin

lemma launchctl_calls: "keeps I (launchctl w verb label)"
  using ticked jobs launchctl_log by (auto simp: keeps_def launchctl_def Let_def split: prod.splits fault.splits)

lemma agent_calls: "keeps I (launchd_Apply w a)" "keeps I (launchd_Remove w l)" "keeps I (launchd_ApplyFresh w a)" "keeps I (launchd_RequireAbsent w l)"
proof -
  note calls = keeps_intros keeps_pure keeps_settle launchctl_calls plist_calls ticked
  have can: "keeps I (canonicalAgent w a)" for a unfolding canonicalAgent_def by (intro calls)
  have "keeps I (applier_apply w a)" for a
    unfolding applier_apply_def launchd_verify_def launchd_install_def kickstart_def reload_def loadOnce_def by (intro calls)
  then show "keeps I (launchd_Apply w a)" unfolding launchd_Apply_def by (intro calls can)
  show "keeps I (launchd_Remove w l)" unfolding launchd_Remove_def applier_remove_def by (intro calls)
  have ab: "keeps I (applier_requireAbsent w l)" for l unfolding applier_requireAbsent_def by (intro calls)
  then show "keeps I (launchd_RequireAbsent w l)" unfolding launchd_RequireAbsent_def by (intro calls)
  have j: "keeps I (joined [throw e, m])" if "keeps I m" for e m using that by (intro keeps_joined) (auto intro: keeps_throw)
  have "keeps I (applier_applyFresh w a)" for a
    unfolding applier_applyFresh_def installFresh_def publish_new_def bootstrapFresh_def kickstart_def by (intro calls ab j)
  then show "keeps I (launchd_ApplyFresh w a)" unfolding launchd_ApplyFresh_def by (intro calls can)
qed

lemma gates: "keeps I (quiesce_now m0)" "keeps I (require_empty m0)" "keeps I (prove_ready w)" "keeps I (probe_ready w)" "keeps I (daemonAbsent w)"
proof -
  show "keeps I (quiesce_now m0)" using at gate_log quiesce_gate
    by (fastforce simp: keeps_def quiesce_now_def gate_true_def split: option.splits sum.splits prod.splits)
  show "keeps I (require_empty m0)" using at gate_log requireEmpty_gate
    by (fastforce simp: keeps_def require_empty_def gate_true_def split: option.splits prod.splits)
  show "keeps I (prove_ready w)" "keeps I (probe_ready w)" "keeps I (daemonAbsent w)" using at
    by (auto simp: keeps_def prove_ready_def probe_ready_def daemonAbsent_def Let_def split: option.splits sum.splits prod.splits)
qed

lemma converging: "keeps I (deploy_converge w as)" "keeps I (quiesceAndConverge m0 as)" "keeps I (convergeAgents m0)"
proof -
  have l: "keeps I (retire_labels w desired ls kept)" for w desired ls kept
    by (induction ls arbitrary: kept) (auto simp: Let_def intro!: keeps_intros agent_calls records)
  show c: "keeps I (deploy_converge w as)" for w as
    unfolding deploy_converge_def Let_def by (intro keeps_intros reads records agent_calls l)
  show q: "keeps I (quiesceAndConverge m0 as)" for as unfolding quiesceAndConverge_def by (intro keeps_intros gates c)
  show "keeps I (convergeAgents m0)" unfolding convergeAgents_def retiresServices_def by (intro keeps_intros reads c q)
qed

lemma restoring: "keeps I (deploy_restore w i)"
proof -
  have a: "keeps I (apply_label w l)" for w l unfolding apply_label_def by (intro keeps_intros agent_calls)
  have "keeps I (restore_incumbent w i)" for w unfolding restore_incumbent_def Let_def
    by (intro keeps_intros reads gates records a)
  then have "keeps I (bnd (tried (restore_incumbent w i)) (\<lambda>r. ret (case r of Inl e \<Rightarrow> e | Inr v \<Rightarrow> v)))" for w by (intro keeps_intros)
  then show ?thesis by (auto simp: keeps_def deploy_restore_def)
qed

end

lemma same_disk_records: "same_disk s (s\<lparr>ms_activation := a\<rparr>)" "same_disk s (s\<lparr>ms_removal := b\<rparr>)" "same_disk s (s\<lparr>ms_services := c\<rparr>)"
  "same_disk s (s\<lparr>ms_plists := d\<rparr>)" "same_disk s (s\<lparr>ms_jobs := e\<rparr>)"
  by (simp_all add: same_disk_def)

lemmas records_same [simp] = same_disk_cong [OF same_disk_records(1)] same_disk_cong [OF same_disk_records(2)]
  same_disk_cong [OF same_disk_records(3)] same_disk_cong [OF same_disk_records(4)] same_disk_cong [OF same_disk_records(5)]

interpretation same: disk_condition "same_disk s0" m0 for m0 s0
  by unfold_locales (auto simp: same_disk_def at_tick_def)

subsection \<open>Retiring a swap, recovery\<close>

text \<open>With the candidate in place, nothing that retires the swap can undo it.\<close>

definition landed :: "machine \<Rightarrow> swapRecord \<Rightarrow> mstate \<Rightarrow> bool" where
  "landed w r s \<longleftrightarrow> disk_ok w s \<and> slot_holds w s (la_canonical (lay w)) (sw_Candidate r)"

lemma wp_const_change: "(\<And>s. I s \<Longrightarrow> I (tick s)) \<Longrightarrow> (\<And>s. I s \<Longrightarrow> I (f s)) \<Longrightarrow> I s \<Longrightarrow> wp (change w f) (\<lambda>_. I) I s"
  by (rule wp_change) auto

lemma retire_prior:
  assumes "configured w"
  shows "keeps (\<lambda>s. swapping w n0 r s \<and> slot_holds w s (la_canonical (lay w)) (sw_Candidate r)) (durable_RemoveTree w (la_prior (lay w)))"
    (is "keeps ?I _")
  unfolding keeps_wp
proof (intro allI impI wp_RemoveTree)
  fix s n l
  assume i: "?I s" and n: "ms_disk s (la_prior (lay w)) = Some n" and l: "l = None \<or> node_id l = node_id (Some n)"
  let ?s = "logged (Destroyed (la_prior (lay w)) n) ((tick s)\<lparr>ms_disk := (ms_disk s)(la_prior (lay w) := l)\<rparr>)"
  have "slot_holds w ?s (la_canonical (lay w)) (sw_Candidate r)" using i configured_slots [OF assms] by (simp add: slot_holds_def)
  moreover have "disk_ok w ?s" using i l n by (intro disk_ok_replace) (auto simp: swapping_def)
  ultimately have "?I ?s" using i by (auto simp: swapping_def swap_state_def)
  then show "let s' = ?s in ?I s' \<and> (l = None \<longrightarrow> ?I s')" unfolding Let_def by blast
qed simp

interpretation retired: disk_condition "\<lambda>s. swapping w n0 r s \<and> slot_holds w s (la_canonical (lay w)) (sw_Candidate r)" m0 for m0 w n0 r
  by unfold_locales (simp_all add: quiet_same)

lemma retireSwap_wp:
  assumes cfg: "configured w" and sw: "swapping w n0 r s" "slot_holds w s (la_canonical (lay w)) (sw_Candidate r)"
  shows "wp (retireSwap w r) (\<lambda>_ s'. landed w r s' \<and> ms_swap s' = None)
    (\<lambda>s'. landed w r s' \<and> (ms_swap s' = None \<or> swapping w n0 r s')) s"
proof -
  let ?I = "\<lambda>s. swapping w n0 r s \<and> slot_holds w s (la_canonical (lay w)) (sw_Candidate r)"
  have i: "?I s \<Longrightarrow> landed w r s" for s by (simp add: swapping_def landed_def)
  have k: "keeps ?I (joined ([remove_activation w, remove_removal w] @ (if sw_Prior r = None then [] else [durable_RemoveTree w (la_prior (lay w))])))"
    by (rule keeps_joined) (auto split: if_splits intro: retired.records retire_prior [OF cfg])
  have rm: "wp (remove_swap w) (\<lambda>_ s'. landed w r s' \<and> ms_swap s' = None) (\<lambda>s'. landed w r s' \<and> (ms_swap s' = None \<or> swapping w n0 r s')) u"
    if u: "?I u" for u
  proof -
    have l: "landed w r ((tick u)\<lparr>ms_swap := None\<rparr>)" using i [OF u] by (simp add: landed_def disk_ok_def slot_holds_def slot_paths_def)
    have "wp (change w (\<lambda>s. s\<lparr>ms_swap := None\<rparr>)) (\<lambda>_ s'. landed w r s' \<and> ms_swap s' = None) (\<lambda>s'. landed w r s' \<and> (ms_swap s' = None \<or> swapping w n0 r s')) u"
      by (rule wp_change) (use l u i [of "tick u"] in auto)
    moreover have eq: "remove_swap w u = change w (\<lambda>s. s\<lparr>ms_swap := None\<rparr>) u" using u by (simp add: remove_swap_def swapping_def)
    ultimately show ?thesis by (intro iffD2 [OF wp_cong [where m = "remove_swap w" and m' = "change w (\<lambda>s. s\<lparr>ms_swap := None\<rparr>)" and s = u and s' = u, OF eq]])
  qed
  show ?thesis unfolding retireSwap_def wp_andThen
    by (rule wp_weaken [OF keepsD [OF k]]) (use sw rm i in auto)
qed

lemma wp_readRecord:
  assumes "E (tick s)" "field s = None \<Longrightarrow> Q None (tick s)" "\<And>r. field s = Some (Stored r) \<Longrightarrow> valid r \<Longrightarrow> Q (Some r) (tick s)"
  shows "wp (readRecord w field valid) Q E s"
  using assms by (auto simp: wp_def readRecord_def split: option.splits stored.splits)

lemma recover_wp:
  assumes cfg: "configured w" and inv: "deploy_inv w s"
  shows "wp (deploy_recover w) (\<lambda>_ s'. disk_ok w s' \<and> ms_swap s' = None) (deploy_inv w) s"
  unfolding deploy_recover_def wp_bnd
proof (rule wp_readRecord)
  show "deploy_inv w (tick s)" using inv by simp
  assume "ms_swap s = None"
  then show "wp (case None of None \<Rightarrow> ret () | Some r \<Rightarrow> if sw_Target r \<noteq> la_canonical (lay w) then throw [ErrState]
      else bnd (resumeDestroys w r) (\<lambda>destroys. andThen (if destroys then andThen (quiesceAndConverge w []) (ret ()) else ret ())
        (andThen (settleSwap w r) (retireSwap w r)))) (\<lambda>_ s'. disk_ok w s' \<and> ms_swap s' = None) (deploy_inv w) (tick s)"
    using inv by (simp add: wp_ret deploy_inv_def)
next
  fix r
  assume r: "ms_swap s = Some (Stored r)"
  obtain n0 where sw: "swapping w n0 r s" using inv r by (auto simp: deploy_inv_def swapping_def)
  have e: "deploy_inv w u" if "swapping w n0 r u" for u using that by (auto simp: deploy_inv_def swapping_def)
  have k: "keeps (same_disk s) (andThen (if d then andThen (quiesceAndConverge w []) (ret ()) else ret ()) (ret ()))" for d
    by (intro keeps_intros same.converging)
  have d: "keeps (same_disk s) (resumeDestroys w r)" unfolding resumeDestroys_def by (intro keeps_intros same.reads)
  have settle: "wp (andThen (settleSwap w r) (retireSwap w r)) (\<lambda>_ s'. disk_ok w s' \<and> ms_swap s' = None) (deploy_inv w) u" if "swapping w n0 r u" for u
    unfolding wp_andThen
  proof (rule wp_weaken [OF settleSwap_wp [OF cfg that]])
    fix x v
    assume "swapping w n0 r v \<and> slot_holds w v (la_canonical (lay w)) (sw_Candidate r)"
    then show "wp (retireSwap w r) (\<lambda>_ s'. disk_ok w s' \<and> ms_swap s' = None) (deploy_inv w) v"
      by (intro wp_weaken [OF retireSwap_wp [OF cfg]]) (auto simp: landed_def deploy_inv_def)
  qed (rule e)
  have gate: "wp (if d then andThen (quiesceAndConverge w []) (ret ()) else ret ()) (\<lambda>_. swapping w n0 r) (deploy_inv w) u" if u: "same_disk s u" for u d
  proof -
    have "keeps (same_disk s) (if d then andThen (quiesceAndConverge w []) (ret ()) else ret ())" by (intro keeps_intros same.converging)
    from keepsD [OF this u] show ?thesis by (rule wp_weaken) (use sw e same_disk_cong(4) in auto)
  qed
  have "wp (resumeDestroys w r) (\<lambda>d. wp (andThen (if d then andThen (quiesceAndConverge w []) (ret ()) else ret ())
        (andThen (settleSwap w r) (retireSwap w r))) (\<lambda>_ s'. disk_ok w s' \<and> ms_swap s' = None) (deploy_inv w)) (deploy_inv w) (tick s)"
  proof (rule wp_weaken [OF keepsD [OF d]])
    fix x u
    assume u: "same_disk s u"
    show "wp (andThen (if x then andThen (quiesceAndConverge w []) (ret ()) else ret ()) (andThen (settleSwap w r) (retireSwap w r)))
        (\<lambda>_ s'. disk_ok w s' \<and> ms_swap s' = None) (deploy_inv w) u"
      unfolding wp_andThen [where n = "andThen (settleSwap w r) (retireSwap w r)"] by (rule wp_weaken [OF gate [OF u]]) (auto intro: settle)
  qed (use inv in \<open>simp_all add: same_disk_cong(5)\<close>)
  then show "wp (case Some r of None \<Rightarrow> ret () | Some r \<Rightarrow> if sw_Target r \<noteq> la_canonical (lay w) then throw [ErrState]
      else bnd (resumeDestroys w r) (\<lambda>destroys. andThen (if destroys then andThen (quiesceAndConverge w []) (ret ()) else ret ())
        (andThen (settleSwap w r) (retireSwap w r)))) (\<lambda>_ s'. disk_ok w s' \<and> ms_swap s' = None) (deploy_inv w) (tick s)"
    using sw inv by (simp add: wp_bnd wp_throw)
qed

subsection \<open>Staging\<close>

text \<open>Nothing is outstanding and the canonical path is as it was.\<close>

definition settled_at :: "machine \<Rightarrow> node option \<Rightarrow> mstate \<Rightarrow> bool" where
  "settled_at w n0 s \<longleftrightarrow> disk_ok w s \<and> ms_swap s = None \<and> ms_disk s (la_canonical (lay w)) = n0"

interpretation settled: disk_condition "settled_at w n0" m0 for m0 w n0
  by unfold_locales (simp_all add: settled_at_def quiet_same)

lemma settled_tick [simp]: "settled_at w n0 (tick s) = settled_at w n0 s"
  by (simp add: settled_at_def)

text \<open>A stage of this call: one of the stages, none of the paths of the layout.\<close>

definition own_stage :: "machine \<Rightarrow> string \<Rightarrow> mstate \<Rightarrow> bool" where
  "own_stage w p s \<longleftrightarrow> p \<in> set (ms_stages s) \<and> p \<notin> set (layout_paths (lay w))"

lemma own_stage_slots: "own_stage w p s \<Longrightarrow> p \<noteq> la_canonical (lay w) \<and> p \<noteq> la_candidate (lay w) \<and> p \<noteq> la_prior (lay w)"
  by (auto simp: own_stage_def layout_paths_def)

lemma own_stage_path: "own_stage w p s \<Longrightarrow> p \<in> slot_paths w s"
  by (simp add: own_stage_def slot_paths_def generationSlots_def)

lemma make_stage_wp:
  assumes "settled_at w n0 s"
  shows "wp (make_stage w) (\<lambda>p s'. settled_at w n0 s' \<and> own_stage w p s') (settled_at w n0) s"
proof (cases "mc_temp w (ms_tick s)")
  case None
  then show ?thesis using assms by (simp add: wp_def make_stage_def)
next
  case (Some x)
  obtain name i where x: "x = (name, i)" by (cases x)
  let ?p = "Join [la_metadata (lay w), ''.staging-'' @ name @ ''.app'']"
  show ?thesis
  proof (cases "ms_disk s ?p \<noteq> None \<or> Some i \<in> set (inodes w s) \<or> ?p \<in> set (layout_paths (lay w))")
    case True
    then show ?thesis using Some x assms by (simp add: wp_def make_stage_def Let_def)
  next
    case False
    let ?s = "logged (Staged ?p) ((tick s)\<lparr>ms_disk := (ms_disk s)(?p \<mapsto> Bundle (empty_tree i)), ms_stages := ?p # ms_stages s\<rparr>)"
    have "node_id (ms_disk s q) \<in> set (inodes w s)" if "q \<in> slot_paths w s" for q using that by (simp add: inodes_def slot_paths_def)
    then have ni: "node_id (ms_disk s q) \<noteq> Some i" if "q \<in> slot_paths w s" for q using False that by metis
    have sp: "slot_paths w ?s = insert ?p (slot_paths w s)" by (auto simp: slot_paths_def generationSlots_def)
    have "disk_ok w ?s" unfolding disk_ok_ids
    proof (intro ballI allI impI)
      fix q q' j
      assume q: "q \<in> slot_paths w ?s" "q' \<in> slot_paths w ?s" "node_id (ms_disk ?s q) = Some j \<and> node_id (ms_disk ?s q') = Some j"
      have new: "node_id (ms_disk ?s ?p) = Some i" by (simp add: node_id_def empty_tree_def)
      have old: "node_id (ms_disk ?s y) = node_id (ms_disk s y)" if "y \<noteq> ?p" for y using that by simp
      show "q = q'"
      proof (cases "q = ?p \<or> q' = ?p")
        case True
        then have j: "j = i" using q(3) new by (elim disjE) simp_all
        have "y = ?p" if y: "y \<in> slot_paths w ?s" "node_id (ms_disk ?s y) = Some j" for y
        proof (rule ccontr)
          assume ne: "y \<noteq> ?p"
          then have "y \<in> slot_paths w s" using y(1) unfolding sp by simp
          then show False using ni [of y] y(2) old [OF ne] j by simp
        qed
        then show ?thesis using q by blast
      next
        case False
        then have "q \<in> slot_paths w s" "q' \<in> slot_paths w s" "node_id (ms_disk s q) = Some j" "node_id (ms_disk s q') = Some j"
          using q old unfolding sp by auto
        then show ?thesis using assms by (auto simp: settled_at_def disk_ok_ids)
      qed
    qed
    moreover have "?p \<noteq> la_canonical (lay w)" using False by (auto simp: layout_paths_def)
    ultimately have st: "settled_at w n0 ?s" "own_stage w ?p ?s"
      using assms False by (auto simp: settled_at_def own_stage_def)
    have "wp (bnd (change w (\<lambda>s. logged (Staged ?p) (s\<lparr>ms_disk := (ms_disk s)(?p \<mapsto> Bundle (empty_tree i)), ms_stages := ?p # ms_stages s\<rparr>))) (\<lambda>_. ret ?p))
        (\<lambda>p s'. settled_at w n0 s' \<and> own_stage w p s') (settled_at w n0) s"
      unfolding wp_bnd wp_ret by (rule wp_change) (use st assms in simp_all)
    then show ?thesis using Some x False by (simp add: wp_def make_stage_def Let_def)
  qed
qed

definition staging_at :: "machine \<Rightarrow> node option \<Rightarrow> string \<Rightarrow> mstate \<Rightarrow> bool" where
  "staging_at w n0 p s \<longleftrightarrow> settled_at w n0 s \<and> own_stage w p s"

interpretation stage_at: disk_condition "staging_at w n0 p" m0 for m0 w n0 p
proof -
  have o: "own_stage w p s' = own_stage w p s" if "ms_stages s' = ms_stages s" for s s' using that by (simp add: own_stage_def)
  show "disk_condition (staging_at w n0 p) m0"
    by unfold_locales (simp_all add: staging_at_def settled.at settled.launchctl_log settled.gate_log settled.jobs settled.plists settled.activation
      settled.removal settled.services, simp_all add: own_stage_def at_tick_def)
qed

lemma staging_replace:
  assumes "staging_at w n0 p s" "l = None \<or> node_id l = node_id (ms_disk s p)"
  shows "staging_at w n0 p (logged e ((tick s)\<lparr>ms_disk := (ms_disk s)(p := l)\<rparr>))"
  using assms disk_ok_replace [OF _ assms(2), of w e] own_stage_slots [of w p s]
  by (auto simp: staging_at_def settled_at_def own_stage_def)

lemma staging_remove: "keeps (staging_at w n0 p) (durable_RemoveTree w p)"
  unfolding keeps_wp
proof (intro allI impI wp_RemoveTree)
  fix s n l
  assume i: "staging_at w n0 p s" and n: "ms_disk s p = Some n" and l: "l = None \<or> node_id l = node_id (Some n)"
  let ?s = "logged (Destroyed p n) ((tick s)\<lparr>ms_disk := (ms_disk s)(p := l)\<rparr>)"
  have "staging_at w n0 p ?s" by (rule staging_replace [OF i]) (use n l in simp)
  then show "let s' = ?s in staging_at w n0 p s' \<and> (l = None \<longrightarrow> staging_at w n0 p s')" unfolding Let_def by blast
qed (rule stage_at.ticked)

lemma staging_copy: "keeps (staging_at w n0 p) (copy_tree w from p)"
  unfolding keeps_def
proof (intro allI impI)
  fix s
  assume i: "staging_at w n0 p s"
  show "staging_at w n0 p (snd (copy_tree w from p s))"
  proof (cases "\<exists>src dst. ms_disk s from = Some (Bundle src) \<and> ms_disk s p = Some (Bundle dst)")
    case False
    then have "snd (copy_tree w from p s) = tick s" by (auto simp: copy_tree_def split: option.splits node.splits)
    then show ?thesis using stage_at.ticked [OF i] by simp
  next
    case True
    then obtain src dst where d: "ms_disk s from = Some (Bundle src)" "ms_disk s p = Some (Bundle dst)" by blast
    obtain copied ok where c: "mc_copy w (ms_tick s) src = (copied, ok)" by fastforce
    let ?l = "Some (Bundle (copied\<lparr>tr_id := tr_id dst\<rparr>))"
    have n: "node_id ?l = node_id (ms_disk s p)" using d by (simp add: node_id_def)
    have "snd (copy_tree w from p s) = (tick s)\<lparr>ms_disk := (ms_disk s)(p := ?l)\<rparr>" using d c by (simp add: copy_tree_def)
    moreover have "staging_at w n0 p ((tick s)\<lparr>ms_disk := (ms_disk s)(p := ?l)\<rparr>)"
      using staging_replace [OF i disjI2 [OF n], of undefined] by (simp add: staging_at_def settled_at_def own_stage_def disk_ok_def slot_paths_def)
    ultimately show ?thesis by simp
  qed
qed

lemma publish_wp:
  assumes "staging_at w n0 p s" and cfg: "configured w" and pub: "publish = durable_Rename w \<or> publish = durable_RenameNew w"
  shows "wp (publish p (la_candidate (lay w))) (\<lambda>_. staging_at w n0 p) (staging_at w n0 p) s"
proof -
  let ?c = "la_candidate (lay w)"
  have i: "disk_ok w s" "own_stage w p s" using assms by (auto simp: staging_at_def settled_at_def)
  have m: "staging_at w n0 p (moved_to p ?c n (tick s)) \<and> staging_at w n0 p (moved_to p ?c n (tick s))"
    if n: "ms_disk s p = Some n" "ms_disk s ?c = None" for n
  proof -
    have "disk_ok w (moved_to p ?c n (tick s))" by (rule disk_ok_move) (use i n own_stage_path in \<open>auto simp: slot_paths_def\<close>)
    then show ?thesis using assms(1) own_stage_slots [OF i(2)] configured_slots [OF cfg]
      by (auto simp: staging_at_def settled_at_def own_stage_def)
  qed
  show ?thesis using pub wp_Rename [where Q = "\<lambda>_. staging_at w n0 p" and E = "staging_at w n0 p", OF stage_at.ticked [OF assms(1)] m] by auto
qed

lemma copyIntoStage_wp:
  assumes "staging_at w n0 p s" and cfg: "configured w" and pub: "publish = durable_Rename w \<or> publish = durable_RenameNew w"
  shows "wp (copyIntoStage w c source p publish)
    (\<lambda>g s'. settled_at w n0 s' \<and> gen_node w (la_candidate (lay w)) (ms_disk s' (la_candidate (lay w))) g \<and> sameBytes g source) (staging_at w n0 p) s"
    (is "wp _ ?Q ?E s")
proof -
  let ?c = "la_candidate (lay w)"
  have fin: "wp (bnd (deploy_inspect w ?c) (\<lambda>g. if \<not> sameBytes g source then throw [ErrConflict] else ret g)) ?Q ?E u" if "?E u" for u
    unfolding wp_bnd by (rule wp_inspect) (use that stage_at.ticked [OF that] in \<open>auto simp: wp_throw wp_ret staging_at_def\<close>)
  have pubd: "wp (andThen (publish p ?c) (bnd (deploy_inspect w ?c) (\<lambda>g. if \<not> sameBytes g source then throw [ErrConflict] else ret g))) ?Q ?E u" if "?E u" for u
    unfolding wp_andThen by (rule wp_weaken [OF publish_wp [OF that cfg pub]]) (use fin in auto)
  have ins: "wp (bnd (deploy_inspect w p) (\<lambda>copied. if \<not> sameBytes copied source then throw [ErrConflict] else
      andThen (publish p ?c) (bnd (deploy_inspect w ?c) (\<lambda>g. if \<not> sameBytes g source then throw [ErrConflict] else ret g)))) ?Q ?E u" if "?E u" for u
    unfolding wp_bnd [where m = "deploy_inspect w p"] by (rule wp_inspect) (use stage_at.ticked [OF that] pubd in \<open>auto simp: wp_throw\<close>)
  have "wp (attest w source) (\<lambda>_. wp (bnd (deploy_inspect w p) (\<lambda>copied. if \<not> sameBytes copied source then throw [ErrConflict] else
      andThen (publish p ?c) (bnd (deploy_inspect w ?c) (\<lambda>g. if \<not> sameBytes g source then throw [ErrConflict] else ret g)))) ?Q ?E) ?E u" if "?E u" for u
    by (rule wp_weaken [OF keepsD [OF stage_at.reads(4) that]]) (use ins in auto)
  then show ?thesis unfolding copyIntoStage_def wp_andThen [where m = "copy_tree w q p" for q] wp_andThen [where m = "attest w source"]
    by (intro wp_weaken [OF keepsD [OF staging_copy assms(1)]]) auto
qed

lemma wp_discarding: "wp m Q E s \<Longrightarrow> keeps E cleanup \<Longrightarrow> wp (discarding cleanup m) Q E s"
proof -
  assume m: "wp m Q E s" and k: "keeps E cleanup"
  have j: "wp (joined [throw e, cleanup]) (\<lambda>_. E) E u" if "E u" for e u
    by (rule wp_joined) (use k that in \<open>auto simp: wp_throw keeps_wp\<close>)
  have "wp (tried m) (\<lambda>r. wp (case r of Inr x \<Rightarrow> ret x | Inl e \<Rightarrow> bnd (joined [throw e, cleanup]) (\<lambda>_. throw e)) Q E) E s"
  proof (rule wp_tried_rule, rule wp_weaken [OF m])
    fix u
    assume "E u"
    then show "(\<forall>e. wp (case Inl e of Inr x \<Rightarrow> ret x | Inl e \<Rightarrow> bnd (joined [throw e, cleanup]) (\<lambda>_. throw e)) Q E u) \<and> E u"
      using wp_weaken [OF j [OF \<open>E u\<close>]] by (simp add: wp_bnd wp_throw)
  qed (simp add: wp_ret)
  then show ?thesis by (simp add: discarding_def wp_bnd)
qed

lemma sameBytes_matches: "sameBytes g source \<Longrightarrow> candidate_matches c g = candidate_matches c source"
  by (cases g; cases source) (auto simp: sameBytes_def candidate_matches_def)

lemma stage_copy_wp:
  assumes "settled_at w n0 s" and cfg: "configured w" and pub: "publish = durable_Rename w \<or> publish = durable_RenameNew w"
  shows "wp (stage_copy w c publish) (\<lambda>g s'. settled_at w n0 s' \<and> gen_node w (la_candidate (lay w)) (ms_disk s' (la_candidate (lay w))) g
    \<and> candidate_matches c g = None) (settled_at w n0) s" (is "wp _ ?Q ?E s")
proof -
  have d: "wp (discarding (durable_RemoveTree w p) (copyIntoStage w c source p publish)) ?Q ?E u"
    if u: "settled_at w n0 u \<and> own_stage w p u" and m: "candidate_matches c source = None" for u p source
  proof -
    have "wp (discarding (durable_RemoveTree w p) (copyIntoStage w c source p publish))
      (\<lambda>g s'. settled_at w n0 s' \<and> gen_node w (la_candidate (lay w)) (ms_disk s' (la_candidate (lay w))) g \<and> sameBytes g source) (staging_at w n0 p) u"
      by (rule wp_discarding [OF copyIntoStage_wp [OF _ cfg pub] staging_remove]) (use u in \<open>simp add: staging_at_def\<close>)
    then show ?thesis by (rule wp_weaken) (use m sameBytes_matches in \<open>auto simp: staging_at_def\<close>)
  qed
  have mk: "wp (bnd (make_stage w) (\<lambda>p. discarding (durable_RemoveTree w p) (copyIntoStage w c source p publish))) ?Q ?E u"
    if "settled_at w n0 u" "candidate_matches c source = None" for u source
    unfolding wp_bnd by (rule wp_weaken [OF make_stage_wp [OF that(1)]]) (use d that(2) in auto)
  have "wp (andThen (matched c source) (bnd (make_stage w) (\<lambda>p. discarding (durable_RemoveTree w p) (copyIntoStage w c source p publish)))) ?Q ?E u"
    if "settled_at w n0 u" for u source
    using that mk by (auto simp: matched_def wp_andThen wp_throw wp_ret split: option.split)
  then show ?thesis unfolding stage_copy_def wp_bnd [where m = "deploy_inspect w p" for p]
    by (intro wp_weaken [OF keepsD [OF settled.reads(3) assms(1)]]) auto
qed

lemma discard_candidate: "configured w \<Longrightarrow> keeps (settled_at w n0) (discardCandidate w)"
proof -
  assume cfg: "configured w"
  have rm: "settled_at w n0 (snd (durable_RemoveTree w (la_candidate (lay w)) s))" if i: "settled_at w n0 s" for s
  proof -
    have "wp (durable_RemoveTree w (la_candidate (lay w))) (\<lambda>_. settled_at w n0) (settled_at w n0) s"
    proof (rule wp_RemoveTree)
      fix n l
      assume n: "ms_disk s (la_candidate (lay w)) = Some n" and l: "l = None \<or> node_id l = node_id (Some n)"
      let ?s = "logged (Destroyed (la_candidate (lay w)) n) ((tick s)\<lparr>ms_disk := (ms_disk s)(la_candidate (lay w) := l)\<rparr>)"
      have "settled_at w n0 ?s" using i disk_ok_replace [of w s l "la_candidate (lay w)"] l n configured_slots [OF cfg]
        by (auto simp: settled_at_def)
      then show "let s' = ?s in settled_at w n0 s' \<and> (l = None \<longrightarrow> settled_at w n0 s')" unfolding Let_def by blast
    qed (use i in simp)
    then show ?thesis by (auto simp: wp_def split: prod.splits res.splits)
  qed
  have lg: "settled_at w n0 (logged e (at_tick t s))" if "settled_at w n0 s" for e t s
    using that by (simp add: settled_at_def quiet_same)
  show ?thesis using settled.ticked settled.at rm lg
    by (auto simp: keeps_def discardCandidate_def split: option.splits prod.splits)
qed

lemma deploy_stage_wp:
  assumes "settled_at w n0 s" and cfg: "configured w"
  shows "wp (deploy_stage w c) (\<lambda>g s'. settled_at w n0 s' \<and> gen_node w (la_candidate (lay w)) (ms_disk s' (la_candidate (lay w))) g
    \<and> candidate_matches c g = None) (settled_at w n0) s" (is "wp _ ?Q ?E s")
proof -
  have cp: "wp (stage_copy w c (durable_Rename w)) ?Q ?E u" if "settled_at w n0 u" for u by (rule stage_copy_wp [OF that cfg]) simp
  have dc: "wp (andThen (discardCandidate w) (stage_copy w c (durable_Rename w))) ?Q ?E u" if "settled_at w n0 u" for u
    unfolding wp_andThen by (rule wp_weaken [OF keepsD [OF discard_candidate [OF cfg] that]]) (use cp in auto)
  have "wp (deploy_inspect w (la_candidate (lay w))) (\<lambda>g. wp (if candidate_matches c g = None then ret g
      else andThen (discardCandidate w) (stage_copy w c (durable_Rename w))) ?Q ?E) ?E s"
    by (rule wp_inspect) (use assms(1) dc in \<open>auto simp: wp_ret\<close>)
  then show ?thesis unfolding deploy_stage_def wp_fileExists_bnd using cp [OF assms(1)] by (simp add: wp_bnd)
qed

end
