(* ===== verification/DeployVerbs.thy ===== *)
theory DeployVerbs
  imports DeploySafety
begin

text \<open>
  The verbs of a deployment keep its invariant at every point where they can fail or crash, a supersede is atomic, an
  uninstall leaves nothing, and a generation is moved or destroyed only behind a gate that found no process of it.
\<close>

subsection \<open>Landing a candidate\<close>

text \<open>The candidate is staged, nothing is outstanding and the canonical path is as it was.\<close>

definition staged_at :: "machine \<Rightarrow> node option \<Rightarrow> Generation \<Rightarrow> mstate \<Rightarrow> bool" where
  "staged_at w n0 g s \<longleftrightarrow> settled_at w n0 s \<and> slot_holds w s (la_candidate (lay w)) g"

interpretation staged: disk_condition "staged_at w n0 g" m0 for m0 w n0 g
  by unfold_locales (simp_all add: staged_at_def settled.at settled.launchctl_log settled.gate_log settled.jobs settled.plists settled.activation
    settled.removal settled.services quiet_same)

text \<open>What a landing of \<open>c\<close> over \<open>n0\<close> can leave: nothing done, a swap under way, or the candidate in place.\<close>

definition land_state :: "machine \<Rightarrow> Candidate \<Rightarrow> node option \<Rightarrow> mstate \<Rightarrow> bool" where
  "land_state w c n0 s \<longleftrightarrow> settled_at w n0 s
    \<or> (\<exists>r. candidate_matches c (sw_Candidate r) = None \<and> (swapping w n0 r s \<or> (landed w r s \<and> ms_swap s = None)))"

lemma land_state_inv: "land_state w c n0 s \<Longrightarrow> deploy_inv w s"
  by (auto simp: land_state_def deploy_inv_def settled_at_def swapping_def landed_def)

text \<open>The prior that a record of this landing names.\<close>

definition prior_of :: "machine \<Rightarrow> node option \<Rightarrow> Generation option \<Rightarrow> bool" where
  "prior_of w n0 prior \<longleftrightarrow> (case n0 of None \<Rightarrow> prior = None | Some _ \<Rightarrow> \<exists>p. prior = Some p \<and> gen_node w (la_canonical (lay w)) n0 p)"

lemma matches_path [simp]: "candidate_matches c (g\<lparr>ge_Path := p\<rparr>) = candidate_matches c g"
  by (rule sameBytes_matches) (cases g, simp add: sameBytes_def)

lemma slot_holds_repath [simp]: "slot_holds w s p (g\<lparr>ge_Path := q\<rparr>) = slot_holds w s p g"
  by (simp add: slot_holds_def)

lemma swap_record_simps [simp]:
  "sw_Prior (swap_record w prior g) = prior" "sw_Target (swap_record w prior g) = la_canonical (lay w)"
  "sw_Candidate (swap_record w prior g) = g\<lparr>ge_Path := la_canonical (lay w)\<rparr>"
  by (simp_all add: swap_record_def)

lemma write_swap_wp:
  assumes "staged_at w n0 g s" "prior_of w n0 prior" "swap_validate (swap_record w prior g)"
  shows "wp (write_swap w (swap_record w prior g)) (\<lambda>_. swapping w n0 (swap_record w prior g))
    (\<lambda>s'. staged_at w n0 g s' \<or> swapping w n0 (swap_record w prior g) s') s"
proof -
  let ?s = "(tick s)\<lparr>ms_swap := Some (Stored (swap_record w prior g))\<rparr>"
  have "disk_ok w ?s" using assms(1) by (simp add: staged_at_def settled_at_def disk_ok_def slot_paths_def)
  moreover have "slot_holds w ?s (la_candidate (lay w)) g" using assms(1) by (simp add: staged_at_def slot_holds_def)
  moreover have "ms_disk ?s (la_canonical (lay w)) = n0" using assms(1) by (simp add: staged_at_def settled_at_def)
  ultimately have "swapping w n0 (swap_record w prior g) ?s"
    using assms(2,3) by (cases n0) (simp_all add: swapping_def swap_state_def prior_of_def)
  then show ?thesis unfolding write_swap_def by (intro wp_change) (use assms(1) in \<open>auto simp: staged.ticked\<close>)
qed

interpretation swap_or_staged: disk_condition "\<lambda>s. staged_at w n0 g s \<or> swapping w n0 r s" m0 for m0 w n0 g r
  by unfold_locales (simp_all add: staged_at_def settled_at_def quiet_same)

lemma commitSupersede_wp:
  assumes "staged_at w n0 g s" "prior_of w n0 prior" "swap_validate (swap_record w prior g)"
  shows "wp (commitSupersede w (swap_record w prior g) p) (\<lambda>_. swapping w n0 (swap_record w prior g))
    (\<lambda>s'. staged_at w n0 g s' \<or> swapping w n0 (swap_record w prior g) s') s" (is "wp _ ?Q ?E s")
proof -
  let ?r = "swap_record w prior g" and ?I = "staged_at w n0 g"
  have act: "wp (andThen (quiesceAndConverge w []) (andThen (require_empty w) (write_swap w ?r))) ?Q ?E u" if u: "?I u" for u
  proof -
    have "wp (andThen (require_empty w) (write_swap w ?r)) ?Q ?E v" if "?I v" for v
      unfolding wp_andThen by (rule wp_weaken [OF keepsD [OF staged.gates(2) that]]) (use write_swap_wp [OF _ assms(2,3)] in auto)
    then show ?thesis unfolding wp_andThen [where m = "quiesceAndConverge w []"]
      by (intro wp_weaken [OF keepsD [OF staged.converging(2) u]]) auto
  qed
  have rest: "wp (bnd (deploy_restore w i) (\<lambda>verdict. throw (e @ verdict))) ?Q ?E u" if "?E u" for i e u
    unfolding wp_bnd wp_throw by (rule wp_weaken [OF keepsD [OF swap_or_staged.restoring that]])
  have out: "wp (bnd (tried (andThen (quiesceAndConverge w []) (andThen (require_empty w) (write_swap w ?r)))) (\<lambda>outcome.
        case outcome of Inr _ \<Rightarrow> ret () | Inl e \<Rightarrow> bnd (deploy_restore w i) (\<lambda>verdict. throw (e @ verdict)))) ?Q ?E u" if "?I u" for i u
    unfolding wp_bnd [where m = "tried m" for m]
    by (rule wp_tried_rule, rule wp_weaken [OF act [OF that]]) (use rest in \<open>auto simp: wp_ret\<close>)
  have own: "wp (read_owner w) (\<lambda>owner. wp (bnd (tried (andThen (quiesceAndConverge w []) (andThen (require_empty w) (write_swap w ?r)))) (\<lambda>outcome.
        case outcome of Inr _ \<Rightarrow> ret () | Inl e \<Rightarrow> bnd (deploy_restore w (i owner)) (\<lambda>verdict. throw (e @ verdict)))) ?Q ?E) ?E u" if "?I u" for i u
    by (rule wp_weaken [OF keepsD [OF staged.reads(5) that]], erule out, erule disjI1)
  show ?thesis unfolding commitSupersede_def Let_def wp_bnd [where m = "appliedServices w"] wp_bnd [where m = "read_owner w"]
    by (rule wp_weaken [OF keepsD [OF staged.reads(2) assms(1)]], erule own, erule disjI1)
qed

text \<open>With a valid record on disk, the two renames and the retirement end with the candidate at the canonical path.\<close>

lemma settle_and_retire:
  assumes cfg: "configured w" and sw: "swapping w n0 r s" and m: "candidate_matches c (sw_Candidate r) = None"
  shows "wp (andThen (settleSwap w r) (retireSwap w r)) (\<lambda>_ s'. landed w r s' \<and> ms_swap s' = None) (land_state w c n0) s"
  unfolding wp_andThen
proof (rule wp_weaken [OF settleSwap_wp [OF cfg sw]])
  fix x v
  assume v: "swapping w n0 r v \<and> slot_holds w v (la_canonical (lay w)) (sw_Candidate r)"
  show "wp (retireSwap w r) (\<lambda>_ s'. landed w r s' \<and> ms_swap s' = None) (land_state w c n0) v"
    by (rule wp_weaken [OF retireSwap_wp [OF cfg]]) (use v m in \<open>auto simp: land_state_def\<close>)
qed (use m in \<open>auto simp: land_state_def\<close>)

definition landed_with :: "machine \<Rightarrow> Candidate \<Rightarrow> Generation \<Rightarrow> mstate \<Rightarrow> bool" where
  "landed_with w c g s \<longleftrightarrow> disk_ok w s \<and> ms_swap s = None \<and> candidate_matches c g = None
    \<and> gen_node w (la_canonical (lay w)) (ms_disk s (la_canonical (lay w))) g"

lemma landed_withI: "landed w r s \<Longrightarrow> ms_swap s = None \<Longrightarrow> candidate_matches c (sw_Candidate r) = None \<Longrightarrow>
    gen_node w (la_canonical (lay w)) (ms_disk s (la_canonical (lay w))) g \<Longrightarrow> landed_with w c g s"
  using gen_node_unique [of w "la_canonical (lay w)" "ms_disk s (la_canonical (lay w))" "(sw_Candidate r)\<lparr>ge_Path := la_canonical (lay w)\<rparr>" g]
  by (auto simp: landed_with_def landed_def slot_holds_def simp del: matches_path) (metis matches_path)

lemma landed_with_inv: "landed_with w c g s \<Longrightarrow> deploy_inv w s"
  by (simp add: landed_with_def deploy_inv_def)

definition land_staged :: "machine \<Rightarrow> Generation option \<Rightarrow> Generation \<Rightarrow> Generation prog" where
  "land_staged w prior staged =
    (let r = swap_record w prior staged in
     if \<not> swap_validate r then throw [ErrState]
     else andThen (case prior of Some p \<Rightarrow> commitSupersede w r p | None \<Rightarrow> write_swap w r)
       (andThen (settleSwap w r) (andThen (retireSwap w r) (deploy_inspect w (la_canonical (lay w))))))"

lemma land_staged_wp:
  assumes cfg: "configured w" and st: "staged_at w n0 g s" and pr: "prior_of w n0 prior" and m: "candidate_matches c g = None"
  shows "wp (land_staged w prior g) (landed_with w c) (land_state w c n0) s"
proof (cases "swap_validate (swap_record w prior g)")
  case False
  then show ?thesis using st by (simp add: land_staged_def wp_throw land_state_def staged_at_def)
next
  case True
  let ?r = "swap_record w prior g"
  have mr: "candidate_matches c (sw_Candidate ?r) = None" using m by simp
  have fin: "wp (andThen (settleSwap w ?r) (andThen (retireSwap w ?r) (deploy_inspect w (la_canonical (lay w))))) (landed_with w c) (land_state w c n0) u"
    if "swapping w n0 ?r u" for u
  proof -
    have "wp (andThen (andThen (settleSwap w ?r) (retireSwap w ?r)) (deploy_inspect w (la_canonical (lay w)))) (landed_with w c) (land_state w c n0) u"
      unfolding wp_andThen [where m = "andThen m n" for m n]
    proof (rule wp_weaken [OF settle_and_retire [OF cfg that mr]])
      fix x v
      assume v: "landed w ?r v \<and> ms_swap v = None"
      have t: "landed w ?r (tick v)" using v by (simp add: landed_def)
      then have "land_state w c n0 (tick v)" unfolding land_state_def using v mr by (intro disjI2 exI [of _ ?r]) simp
      then show "wp (deploy_inspect w (la_canonical (lay w))) (landed_with w c) (land_state w c n0) v"
        by (rule wp_inspect) (use v landed_withI [OF t _ mr] in auto)
    qed
    then show ?thesis by (simp add: andThen_def bnd_assoc)
  qed
  have com: "wp (case prior of Some p \<Rightarrow> commitSupersede w ?r p | None \<Rightarrow> write_swap w ?r) (\<lambda>_. swapping w n0 ?r) (land_state w c n0) s"
  proof -
    have e: "land_state w c n0 u" if "staged_at w n0 g u \<or> swapping w n0 ?r u" for u
      using that mr unfolding land_state_def staged_at_def by blast
    have "wp (write_swap w ?r) (\<lambda>_. swapping w n0 ?r) (land_state w c n0) s" "wp (commitSupersede w ?r p) (\<lambda>_. swapping w n0 ?r) (land_state w c n0) s" for p
      by (rule wp_weaken [OF write_swap_wp [OF st pr True]], assumption, erule e)
        (rule wp_weaken [OF commitSupersede_wp [OF st pr True]], assumption, erule e)
    then show ?thesis by (cases prior) simp_all
  qed
  show ?thesis unfolding land_staged_def Let_def wp_andThen [where m = "case prior of Some p \<Rightarrow> f p | None \<Rightarrow> g" for f g] using True
    by (simp add: wp_andThen [where m = "case prior of Some p \<Rightarrow> f p | None \<Rightarrow> g" for f g]) (rule wp_weaken [OF com], auto intro: fin)
qed

lemma incumbent_wp:
  assumes "settled_at w n0 s"
  shows "wp (incumbent_of w over) (\<lambda>prior s'. settled_at w n0 s' \<and> prior_of w n0 prior \<and> (over \<longleftrightarrow> n0 \<noteq> None)) (settled_at w n0) s"
proof -
  have n: "ms_disk s (la_canonical (lay w)) = n0" using assms by (simp add: settled_at_def)
  show ?thesis unfolding incumbent_of_def wp_fileExists_bnd n
    using assms n by (auto simp: wp_bnd wp_throw wp_ret prior_of_def intro!: wp_inspect)
qed

definition land_from :: "machine \<Rightarrow> Candidate \<Rightarrow> bool \<Rightarrow> Generation prog" where
  "land_from w c over = bnd (incumbent_of w over) (\<lambda>prior. bnd (deploy_stage w c) (land_staged w prior))"

lemma land_unfold: "land w c over = (if \<not> Candidate_validate c then throw [ErrConfig]
    else andThen (deploy_hold w) (andThen (deploy_recover w) (land_from w c over)))"
  by (simp add: land_def land_from_def land_staged_def [abs_def])

lemma land_from_wp:
  assumes cfg: "configured w" and st: "settled_at w n0 s"
  shows "wp (land_from w c over) (\<lambda>g s'. landed_with w c g s' \<and> (over \<longleftrightarrow> n0 \<noteq> None)) (land_state w c n0) s"
proof -
  have e: "land_state w c n0 u" if "settled_at w n0 u" for u using that by (simp add: land_state_def)
  have "wp (bnd (deploy_stage w c) (land_staged w prior)) (landed_with w c) (land_state w c n0) u"
    if u: "settled_at w n0 u" "prior_of w n0 prior" for u prior
    unfolding wp_bnd
  proof (rule wp_weaken [OF deploy_stage_wp [OF u(1) cfg]])
    fix g v
    assume v: "settled_at w n0 v \<and> gen_node w (la_candidate (lay w)) (ms_disk v (la_candidate (lay w))) g \<and> candidate_matches c g = None"
    then have "g\<lparr>ge_Path := la_candidate (lay w)\<rparr> = g" using gen_node_path [of w "la_candidate (lay w)" "ms_disk v (la_candidate (lay w))" g] by (cases g) auto
    then have "staged_at w n0 g v" using v by (simp add: staged_at_def slot_holds_def)
    then show "wp (land_staged w prior g) (landed_with w c) (land_state w c n0) v" by (rule land_staged_wp [OF cfg _ u(2)]) (use v in simp)
  qed (rule e)
  then show ?thesis unfolding land_from_def wp_bnd [where m = "incumbent_of w over"]
    by (intro wp_weaken [OF incumbent_wp [OF st]]) (auto intro: e wp_weaken)
qed

text \<open>Recovery with nothing to recover reads the record and leaves the state as it was.\<close>

lemma recover_none:
  assumes "settled_at w n0 s"
  shows "wp (deploy_recover w) (\<lambda>_. settled_at w n0) (settled_at w n0) s"
  unfolding deploy_recover_def wp_bnd by (rule wp_readRecord) (use assms in \<open>auto simp: wp_ret settled_at_def\<close>)

lemma inv_reads: "deploy_inv w s \<Longrightarrow> deploy_inv w (tick s)"
  by simp

interpretation kept: disk_condition "deploy_inv w" m0 for m0 w
  by unfold_locales (simp_all add: quiet_same)

text \<open>A verb holds the lock, recovers, and goes on from a state with nothing outstanding.\<close>

lemma verb_keeps:
  assumes cfg: "configured w" and rest: "\<And>s. disk_ok w s \<Longrightarrow> ms_swap s = None \<Longrightarrow> deploy_inv w (snd (m s))"
  shows "keeps (deploy_inv w) (andThen (deploy_hold w) (andThen (deploy_recover w) m))"
  unfolding keeps_wp wp_andThen
proof (intro allI impI)
  fix s
  assume "deploy_inv w s"
  then have "wp (deploy_hold w) (\<lambda>_. deploy_inv w) (deploy_inv w) s" by (rule keepsD [OF kept.reads(8)])
  moreover have "wp (deploy_recover w) (\<lambda>_. wp m (\<lambda>_. deploy_inv w) (deploy_inv w)) (deploy_inv w) u" if "deploy_inv w u" for u
    by (rule wp_weaken [OF recover_wp [OF cfg that]]) (use rest in \<open>auto simp: wp_def split: prod.splits res.splits\<close>, (metis snd_conv)+)
  ultimately show "wp (deploy_hold w) (\<lambda>_. wp (deploy_recover w) (\<lambda>_. wp m (\<lambda>_. deploy_inv w) (deploy_inv w)) (deploy_inv w)) (deploy_inv w) s"
    by (rule wp_weaken)
qed

lemma wp_outcome: "wp m Q E s \<Longrightarrow> (\<And>x s'. Q x s' \<Longrightarrow> I s') \<Longrightarrow> (\<And>s'. E s' \<Longrightarrow> I s') \<Longrightarrow> I (snd (m s))"
  by (auto simp: wp_def split: prod.splits res.splits)

lemma land_keeps:
  assumes "configured w"
  shows "keeps (deploy_inv w) (land w c over)"
proof -
  have "deploy_inv w (snd (land_from w c over s))" if "disk_ok w s" "ms_swap s = None" for s
    by (rule wp_outcome [OF land_from_wp [OF assms, of "ms_disk s (la_canonical (lay w))" s c over]])
      (use that in \<open>auto simp: settled_at_def intro: land_state_inv landed_with_inv\<close>)
  then show ?thesis unfolding land_unfold by (intro keeps_intros verb_keeps [OF assms])
qed

lemma land_wp:
  assumes cfg: "configured w" and st: "settled_at w n0 s"
  shows "wp (land w c over) (\<lambda>g s'. landed_with w c g s' \<and> (over \<longleftrightarrow> n0 \<noteq> None)) (land_state w c n0) s"
proof -
  have e: "land_state w c n0 u" if "settled_at w n0 u" for u using that by (simp add: land_state_def)
  have r: "wp (andThen (deploy_recover w) (land_from w c over)) (\<lambda>g s'. landed_with w c g s' \<and> (over \<longleftrightarrow> n0 \<noteq> None)) (land_state w c n0) u"
    if "settled_at w n0 u" for u
    unfolding wp_andThen by (rule wp_weaken [OF recover_none [OF that]], erule land_from_wp [OF cfg], erule e)
  have "wp (andThen (deploy_hold w) (andThen (deploy_recover w) (land_from w c over))) (\<lambda>g s'. landed_with w c g s' \<and> (over \<longleftrightarrow> n0 \<noteq> None))
      (land_state w c n0) s"
    unfolding wp_andThen [where m = "deploy_hold w"] by (rule wp_weaken [OF keepsD [OF settled.reads(8) st]], erule r, erule e)
  then show ?thesis using e [OF st] by (simp add: land_unfold wp_throw)
qed

subsection \<open>The other verbs\<close>

text \<open>Nothing is outstanding. Moving a slot and destroying any path keep it.\<close>

definition idle :: "machine \<Rightarrow> mstate \<Rightarrow> bool" where
  "idle w s \<longleftrightarrow> disk_ok w s \<and> ms_swap s = None"

lemma idle_inv: "idle w s \<Longrightarrow> deploy_inv w s"
  by (simp add: idle_def deploy_inv_def)

interpretation at_rest: disk_condition "idle w" m0 for m0 w
  by unfold_locales (simp_all add: idle_def quiet_same)

lemma idle_RemoveTree: "keeps (idle w) (durable_RemoveTree w p)"
  unfolding keeps_wp
proof (intro allI impI wp_RemoveTree)
  fix s n l
  assume i: "idle w s" and n: "ms_disk s p = Some n" and l: "l = None \<or> node_id l = node_id (Some n)"
  let ?s = "logged (Destroyed p n) ((tick s)\<lparr>ms_disk := (ms_disk s)(p := l)\<rparr>)"
  have "idle w ?s" using i disk_ok_replace [of w s l p] l n by (auto simp: idle_def)
  then show "let s' = ?s in idle w s' \<and> (l = None \<longrightarrow> idle w s')" unfolding Let_def by blast
qed (rule at_rest.ticked)

lemma idle_Rename: "keeps (idle w) (durable_Rename w (la_canonical (lay w)) to)"
  unfolding keeps_wp
proof (intro allI impI wp_Rename)
  fix s n
  assume i: "idle w s" and n: "ms_disk s (la_canonical (lay w)) = Some n" "ms_disk s to = None"
  then have "disk_ok w (moved_to (la_canonical (lay w)) to n (tick s))" by (intro disk_ok_move) (auto simp: idle_def)
  then show "idle w (moved_to (la_canonical (lay w)) to n (tick s)) \<and> idle w (moved_to (la_canonical (lay w)) to n (tick s))"
    using i by (simp add: idle_def)
qed (rule at_rest.ticked)

lemma idle_discard: "keeps (idle w) (discardGenerations w)"
  unfolding discardGenerations_def by (intro keeps_intros at_rest.reads) (auto intro: idle_RemoveTree)

lemma idle_remove_swap: "keeps (idle w) (remove_swap w)"
  using at_rest.ticked by (auto simp: keeps_def remove_swap_def idle_def change_def)

definition uninstall_from :: "machine \<Rightarrow> (Generation \<times> RuntimeProof) prog" where
  "uninstall_from w = bnd (quiesceAndConverge w []) (\<lambda>runtime.
      bnd (tombstone w runtime) (\<lambda>r. andThen (require_empty w) (bnd (fileExists (la_canonical (lay w))) (\<lambda>installed.
        andThen (if \<not> installed then ret () else bnd (fileExists (la_removed (lay w))) (\<lambda>occupied.
            if occupied then throw [ErrConflict]
            else andThen (attest w (re_Generation r)) (durable_Rename w (la_canonical (lay w)) (la_removed (lay w)))))
          (andThen (discardGenerations w) (bnd (fileExists (la_canonical (lay w))) (\<lambda>returned.
            if returned then throw [ErrConflict] else ret (re_Generation r, runtime))))))))"

lemma Uninstall_unfold: "Uninstall w = andThen (deploy_hold w) (andThen (deploy_recover w) (uninstall_from w))"
  by (simp add: Uninstall_def uninstall_from_def)

lemma joined_pair: "keeps I m \<Longrightarrow> keeps I n \<Longrightarrow> keeps I (joined [m, n])"
  by (rule keeps_joined) auto

lemma idle_tombstone: "keeps (idle w) (tombstone w runtime)"
  unfolding tombstone_def Let_def by (intro keeps_intros at_rest.reads joined_pair at_rest.records)

lemma idle_uninstall: "keeps (idle w) (uninstall_from w)"
  unfolding uninstall_from_def by (intro keeps_intros at_rest.reads at_rest.converging at_rest.gates idle_tombstone idle_Rename idle_discard)

lemma idle_activate:
  "keeps (idle w) (bnd (deploy_inspect w (la_canonical (lay w))) (\<lambda>generation. andThen (convergeAgents w) (bnd (prove_ready w) (\<lambda>readiness.
        let r = activation_record generation readiness in
        bnd (readRecord w ms_activation activation_validate) (\<lambda>sealed.
          if sealed \<noteq> None \<and> sealed \<noteq> Some r then throw [ErrConflict]
          else andThen (joined [remove_removal w, write_activation w r]) (ret (generation, readiness)))))))"
  unfolding Let_def by (intro keeps_intros at_rest.reads at_rest.converging at_rest.gates joined_pair at_rest.records)

lemma idle_reset:
  "keeps (idle w) (andThen (quiesceAndConverge w []) (andThen (require_empty w)
      (joined [remove_activation w, remove_removal w, remove_swap w, remove_services w, discardGenerations w])))"
proof -
  have "keeps (idle w) m" if "m \<in> set [remove_activation w, remove_removal w, remove_swap w, remove_services w, discardGenerations w]" for m
    using that at_rest.records idle_remove_swap idle_discard by auto
  then have "keeps (idle w) (joined [remove_activation w, remove_removal w, remove_swap w, remove_services w, discardGenerations w])"
    by (rule keeps_joined)
  then show ?thesis by (intro keeps_andThen at_rest.converging at_rest.gates)
qed

lemma verbs_keep:
  assumes cfg: "configured w"
  shows "keeps (deploy_inv w) (Install w c)" "keeps (deploy_inv w) (Supersede w c)" "keeps (deploy_inv w) (Activate w)"
    "keeps (deploy_inv w) (Uninstall w)" "keeps (deploy_inv w) (Reset w)"
proof -
  have v: "keeps (deploy_inv w) (andThen (deploy_hold w) (andThen (deploy_recover w) m))" if "keeps (idle w) m" for m :: "'b prog"
    by (rule verb_keeps [OF cfg], rule idle_inv) (use that in \<open>auto simp: keeps_def idle_def\<close>)
  show "keeps (deploy_inv w) (Install w c)" "keeps (deploy_inv w) (Supersede w c)"
    using land_keeps [OF cfg] by (simp_all add: Install_def Supersede_def)
  show "keeps (deploy_inv w) (Activate w)" unfolding Activate_def by (rule v) (rule idle_activate)
  show "keeps (deploy_inv w) (Uninstall w)" unfolding Uninstall_unfold by (rule v) (rule idle_uninstall)
  show "keeps (deploy_inv w) (Reset w)" unfolding Reset_def by (rule v) (rule idle_reset)
qed

subsection \<open>A first install\<close>

lemma keeps_absent: "(\<And>s. I s \<Longrightarrow> I (tick s)) \<Longrightarrow> keeps I (absent_path w p)" "(\<And>s. I s \<Longrightarrow> I (tick s)) \<Longrightarrow> keeps I (absent_records w)"
  "(\<And>s. I s \<Longrightarrow> I (tick s)) \<Longrightarrow> keeps I (bareMetadata w)" "(\<And>s. I s \<Longrightarrow> I (tick s)) \<Longrightarrow> keeps I (absent_owner w)"
  by (simp_all add: keeps_def absent_path_def absent_records_def bareMetadata_def absent_owner_def)

context disk_condition
begin

lemma fresh: "keeps I (deploy_fresh m0 l)"
  unfolding deploy_fresh_def freshOnDisk_def not_fresh_def by (intro keeps_intros keeps_absent ticked reads gates agent_calls)

lemma bootstrapping: "keeps I (bootstrapAgents w)"
proof -
  have b: "keeps I (bootstrapAgent w a)" for a unfolding bootstrapAgent_def Let_def by (intro keeps_intros agent_calls)
  have j: "keeps I (joined [throw e, recordServices w ls])" for e ls
    by (rule keeps_joined) (auto intro: keeps_throw records)
  have "keeps I (bootstrap_each w ls as)" for ls as
    by (induction as arbitrary: ls) (auto simp: Let_def intro!: keeps_intros b j records)
  then show ?thesis by (simp add: bootstrapAgents_def)
qed

end

text \<open>What the checks of a first install establish when they pass.\<close>

lemma fresh_ensures:
  assumes "disk_ok w s"
  shows "wp (deploy_fresh w False) (\<lambda>_. settled_at w None) (same_disk s) s"
proof -
  let ?I = "same_disk s" and ?Q = "\<lambda>(_ :: unit) s'. same_disk s s' \<and> ms_swap s = None \<and> ms_disk s (la_canonical (lay w)) = None"
  have rec: "wp (absent_records w) (\<lambda>_ s'. same_disk s s' \<and> ms_swap s = None) ?I u" if "?I u" for u
    using that by (auto simp: wp_def absent_records_def same_disk_def)
  have path: "wp (absent_path w (la_canonical (lay w))) (\<lambda>_ s'. same_disk s s' \<and> ms_disk s (la_canonical (lay w)) = None) ?I s"
    by (auto simp: wp_def absent_path_def same_disk_def)
  note k = keeps_intros keeps_absent same.ticked same.reads same.gates same.agent_calls
  have rest: "wp (andThen (absent_records w) (andThen (bareMetadata w) (absent_owner w))) (\<lambda>_ s'. same_disk s s' \<and> ms_swap s = None) ?I u" if "?I u" for u
  proof -
    have kk: "keeps ?I (andThen (bareMetadata w) (absent_owner w))" by (intro k)
    show ?thesis unfolding wp_andThen [where m = "absent_records w"]
      by (rule wp_weaken [OF rec [OF that]]) (use wp_weaken [OF keepsD [OF kk]] in auto)
  qed
  have scan: "wp (bnd (not_fresh (stagingTrees w)) (\<lambda>stages.
      andThen (each (absent_path w) (filter (\<lambda>p. p \<noteq> la_canonical (lay w)) (generationSlots (lay w) stages)))
        (andThen (absent_records w) (andThen (bareMetadata w) (absent_owner w))))) (\<lambda>_ s'. same_disk s s' \<and> ms_swap s = None) ?I u" if "?I u" for u
  proof -
    have a: "wp (andThen (each (absent_path w) ps) (andThen (absent_records w) (andThen (bareMetadata w) (absent_owner w))))
        (\<lambda>_ s'. same_disk s s' \<and> ms_swap s = None) ?I v" if "?I v" for v ps
    proof -
      have "keeps ?I (each (absent_path w) ps)" by (intro k)
      from keepsD [OF this that] show ?thesis unfolding wp_andThen [where m = "each f xs" for f xs] by (rule wp_weaken) (auto intro: rest)
    qed
    have "keeps ?I (not_fresh (stagingTrees w))" unfolding not_fresh_def by (intro k)
    from keepsD [OF this that] show ?thesis unfolding wp_bnd by (rule wp_weaken) (auto intro: a)
  qed
  have disk: "wp (freshOnDisk w False) ?Q ?I s" unfolding freshOnDisk_def wp_andThen [where m = "if b then m else n" for b m n]
    by (simp, intro wp_weaken [OF path]) (use scan in \<open>auto intro: wp_weaken\<close>)
  have k2: "keeps ?I (andThen (each (\<lambda>a. not_fresh (launchd_RequireAbsent w (ag_Label a))) (mc_agents w)) (andThen (daemonAbsent w) (not_fresh (require_empty w))))"
    unfolding not_fresh_def by (intro k)
  have fin: "settled_at w None u" if "same_disk s u" "ms_swap s = None" "ms_disk s (la_canonical (lay w)) = None" for u
    using assms that same_disk_cong(2) [OF that(1)] by (simp add: settled_at_def same_disk_def)
  show ?thesis unfolding deploy_fresh_def wp_andThen [where m = "freshOnDisk w False"]
    by (rule wp_weaken [OF disk]) (auto intro: wp_weaken [OF keepsD [OF k2]] fin)
qed

lemma stageFresh_wp:
  assumes cfg: "configured w" and st: "settled_at w n0 s"
  shows "wp (stageFresh w c) (\<lambda>g s'. staged_at w n0 g s' \<and> candidate_matches c g = None) (settled_at w n0) s"
proof -
  have cp: "wp (stage_copy w c (durable_RenameNew w)) (\<lambda>g s'. staged_at w n0 g s' \<and> candidate_matches c g = None) (settled_at w n0) u"
    if "settled_at w n0 u" for u
  proof (rule wp_weaken [OF stage_copy_wp [OF that cfg disjI2 [OF refl]]])
    fix g v
    assume v: "settled_at w n0 v \<and> gen_node w (la_candidate (lay w)) (ms_disk v (la_candidate (lay w))) g \<and> candidate_matches c g = None"
    then have "g\<lparr>ge_Path := la_candidate (lay w)\<rparr> = g" using gen_node_path [of w "la_candidate (lay w)" "ms_disk v (la_candidate (lay w))" g] by (cases g) auto
    then show "staged_at w n0 g v \<and> candidate_matches c g = None" using v by (simp add: staged_at_def slot_holds_def)
  qed
  have e: "wp (andThen (each (absent_path w) ps) (wrapped f (stage_copy w c (durable_RenameNew w))))
      (\<lambda>g s'. staged_at w n0 g s' \<and> candidate_matches c g = None) (settled_at w n0) u" if "settled_at w n0 u" for u ps f
  proof -
    have "keeps (settled_at w n0) (each (absent_path w) ps)" by (intro keeps_intros keeps_absent settled.ticked)
    from keepsD [OF this that] show ?thesis unfolding wp_andThen wp_wrapped by (rule wp_weaken) (auto intro: cp)
  qed
  have k: "keeps (settled_at w n0) (not_fresh (stagingTrees w))" unfolding not_fresh_def by (intro keeps_intros settled.reads)
  show ?thesis unfolding stageFresh_def wp_bnd by (rule wp_weaken [OF keepsD [OF k st]], erule e)
qed

lemma landFresh_wp:
  assumes cfg: "configured w" and st: "settled_at w None s"
  shows "wp (landFresh w c) (\<lambda>g s'. \<exists>r. landed w r s' \<and> ms_swap s' = None \<and> candidate_matches c (sw_Candidate r) = None \<and> sw_Candidate r = g)
    (land_state w c None) s" (is "wp _ ?Q _ s")
  unfolding landFresh_def wp_bnd
proof (rule wp_weaken [OF stageFresh_wp [OF cfg st]])
  fix g v
  assume v: "staged_at w None g v \<and> candidate_matches c g = None"
  let ?r = "swap_record w None g"
  have mr: "candidate_matches c (sw_Candidate ?r) = None" using v by simp
  have e: "land_state w c None u" if "staged_at w None g u \<or> swapping w None ?r u" for u
    using that mr unfolding land_state_def staged_at_def by blast
  have fin: "wp (andThen (andThen (settleSwap w ?r) (retireSwap w ?r)) (ret (sw_Candidate ?r))) ?Q (land_state w c None) u" if "swapping w None ?r u" for u
    unfolding wp_andThen [where n = "ret x" for x] wp_ret by (rule wp_weaken [OF settle_and_retire [OF cfg that mr]]) (use mr in auto)
  have "wp (andThen (write_swap w ?r) (andThen (settleSwap w ?r) (andThen (retireSwap w ?r) (ret (sw_Candidate ?r))))) ?Q (land_state w c None) v"
    if "swap_validate ?r"
  proof -
    have "wp (write_swap w ?r) (\<lambda>_. swapping w None ?r) (\<lambda>s'. staged_at w None g s' \<or> swapping w None ?r s') v"
      by (rule write_swap_wp) (use v that in \<open>auto simp: prior_of_def\<close>)
    then show ?thesis unfolding wp_andThen [where m = "write_swap w r" for r]
      by (rule wp_weaken) (use fin e in \<open>auto simp: andThen_def bnd_assoc\<close>)
  qed
  then show "wp (let r = ?r in if \<not> swap_validate r then throw [ErrState]
      else andThen (write_swap w r) (andThen (settleSwap w r) (andThen (retireSwap w r) (ret (sw_Candidate r))))) ?Q (land_state w c None) v"
    using e v unfolding Let_def by (simp add: wp_throw)
qed (simp add: land_state_def)

lemma installFresh_keeps:
  assumes cfg: "configured w"
  shows "keeps (deploy_inv w) (InstallFresh w c)"
proof -
  let ?tail = "\<lambda>landing. bnd (not_fresh (deploy_inspect w (la_canonical (lay w)))) (\<lambda>generation. andThen (not_fresh (matched c generation))
         (if \<not> sameTree generation landing then throw [ErrNotFresh]
          else andThen (deploy_fresh w True) (andThen (bootstrapAgents w) (bnd (prove_ready w) (\<lambda>readiness.
            andThen (write_activation w (activation_record generation readiness)) (ret (generation, readiness)))))))"
  have m: "keeps (idle w) (matched c g)" for g unfolding matched_def by (intro keeps_intros)
  have tail: "keeps (idle w) (?tail landing)" for landing
    unfolding not_fresh_def by (intro keeps_intros at_rest.reads at_rest.gates at_rest.records at_rest.fresh at_rest.bootstrapping m)
  have land: "wp (bnd (landFresh w c) ?tail) (\<lambda>_. deploy_inv w) (deploy_inv w) u" if "settled_at w None u" for u
    unfolding wp_bnd [where m = "landFresh w c"]
  proof (rule wp_weaken [OF landFresh_wp [OF cfg that]])
    fix g v
    assume "\<exists>r. landed w r v \<and> ms_swap v = None \<and> candidate_matches c (sw_Candidate r) = None \<and> sw_Candidate r = g"
    then have "idle w v" by (auto simp: idle_def landed_def)
    from keepsD [OF tail this] show "wp (?tail g) (\<lambda>_. deploy_inv w) (deploy_inv w) v" by (rule wp_weaken) (auto intro: idle_inv)
  qed (rule land_state_inv)
  have fr: "wp (andThen (deploy_fresh w False) (bnd (landFresh w c) ?tail)) (\<lambda>_. deploy_inv w) (deploy_inv w) u" if "deploy_inv w u" for u
    unfolding wp_andThen [where m = "deploy_fresh w False"]
    by (rule wp_weaken [OF fresh_ensures]) (use that land same_disk_cong(5) in \<open>auto simp: deploy_inv_def [of w u]\<close>)
  show ?thesis unfolding keeps_wp
  proof (intro allI impI)
    fix s
    assume i: "deploy_inv w s"
    have h: "keeps (deploy_inv w) (not_fresh (deploy_hold w))" unfolding not_fresh_def by (intro keeps_intros kept.reads)
    have 2: "wp (andThen (not_fresh (deploy_hold w)) (andThen (deploy_fresh w False) (bnd (landFresh w c) ?tail))) (\<lambda>_. deploy_inv w) (deploy_inv w) u"
      if "deploy_inv w u" for u
      unfolding wp_andThen [where m = "not_fresh m" for m] by (rule wp_weaken [OF keepsD [OF h that]], erule fr)
    have "wp (andThen (ensureMetadata w) (andThen (not_fresh (deploy_hold w)) (andThen (deploy_fresh w False) (bnd (landFresh w c) ?tail))))
        (\<lambda>_. deploy_inv w) (deploy_inv w) s"
      unfolding wp_andThen [where m = "ensureMetadata w"] by (rule wp_weaken [OF keepsD [OF kept.reads(7) i]], erule 2)
    then show "wp (InstallFresh w c) (\<lambda>_. deploy_inv w) (deploy_inv w) s" using i by (simp add: InstallFresh_def wp_throw)
  qed
qed

subsection \<open>The verbs as a whole\<close>

lemma keeps_end: "keeps I m \<Longrightarrow> I s \<Longrightarrow> I (snd (m s))"
  by (simp add: keeps_def)

text \<open>
  C29: no verb can lose an installation. Every verb that changes the deployment keeps, wherever it fails or the process
  crashes, this invariant: no two trees of the deployment have one inode, and while a swap record exists it is valid, the
  generation it replaces is whole at the canonical path or aside, and the candidate it installs is whole where it was staged or
  at the canonical path.
\<close>

theorem verbs_keep_invariant:
  assumes "configured w" "deploy_inv w s"
  shows "deploy_inv w (snd (Install w c s)) \<and> deploy_inv w (snd (InstallFresh w c s)) \<and> deploy_inv w (snd (Supersede w c s))
    \<and> deploy_inv w (snd (Activate w s)) \<and> deploy_inv w (snd (Uninstall w s)) \<and> deploy_inv w (snd (Reset w s))"
proof -
  note e = keeps_end [where I = "deploy_inv w", OF _ assms(2)] and v = verbs_keep [OF assms(1)]
  show ?thesis by (intro conjI e [OF v(1)] e [OF v(2)] e [OF v(3)] e [OF v(4)] e [OF v(5)] e [OF installFresh_keeps [OF assms(1)]])
qed

text \<open>
  C30: a supersede is atomic. It returns a generation only with that generation installed, matching the candidate, and nothing
  outstanding. In every other outcome, a crash at any change of the disk included, the installed application is the one that
  was there, or the whole candidate, or there is none for the moment between the two renames: then the old one is whole aside,
  the candidate whole where it was staged, and a valid record says so.
\<close>

theorem supersede_atomic:
  assumes "configured w" "disk_ok w s" "ms_swap s = None" "ms_disk s (la_canonical (lay w)) = Some n0" "Supersede w c s = (out, s')"
  shows "case out of
      Ret g \<Rightarrow> candidate_matches c g = None \<and> gen_node w (la_canonical (lay w)) (ms_disk s' (la_canonical (lay w))) g \<and> ms_swap s' = None
    | _ \<Rightarrow> ms_disk s' (la_canonical (lay w)) = Some n0
        \<or> (\<exists>g. candidate_matches c g = None \<and> slot_holds w s' (la_canonical (lay w)) g)
        \<or> (\<exists>r. candidate_matches c (sw_Candidate r) = None \<and> ms_swap s' = Some (Stored r) \<and> swap_validate r \<and> ms_disk s' (la_canonical (lay w)) = None
             \<and> ms_disk s' (la_prior (lay w)) = Some n0 \<and> slot_holds w s' (la_candidate (lay w)) (sw_Candidate r))"
proof -
  have "settled_at w (Some n0) s" using assms(2-4) by (simp add: settled_at_def)
  from land_wp [OF assms(1) this, of c True] have o: "case out of Ret g \<Rightarrow> landed_with w c g s' | _ \<Rightarrow> land_state w c (Some n0) s'"
    using assms(5) by (simp add: wp_def Supersede_def split: res.splits)
  have e: "ms_disk s' (la_canonical (lay w)) = Some n0 \<or> (\<exists>g. candidate_matches c g = None \<and> slot_holds w s' (la_canonical (lay w)) g)
        \<or> (\<exists>r. candidate_matches c (sw_Candidate r) = None \<and> ms_swap s' = Some (Stored r) \<and> swap_validate r \<and> ms_disk s' (la_canonical (lay w)) = None
             \<and> ms_disk s' (la_prior (lay w)) = Some n0 \<and> slot_holds w s' (la_candidate (lay w)) (sw_Candidate r))" if l: "land_state w c (Some n0) s'"
  proof (cases "settled_at w (Some n0) s'")
    case False
    then obtain r where r: "candidate_matches c (sw_Candidate r) = None" "swapping w (Some n0) r s' \<or> (landed w r s' \<and> ms_swap s' = None)"
      using l by (auto simp: land_state_def)
    then show ?thesis by (auto simp: swapping_def swap_state_def landed_def)
  qed (simp add: settled_at_def)
  show ?thesis using o e by (cases out) (auto simp: landed_with_def)
qed

subsection \<open>An installed application\<close>

definition sample_tree :: "string \<Rightarrow> tree" where
  "sample_tree v = \<lparr> tr_version = v, tr_cdhash = replicate 40 (CHR ''0''), tr_entitlements = replicate 64 (CHR ''0''), tr_digest = replicate 64 (CHR ''0''),
     tr_trusted = True, tr_id = (v, v), tr_files = [] \<rparr>"

definition installed_state :: mstate where
  "installed_state = bare_state\<lparr>ms_disk := [''/A/B.app'' \<mapsto> Bundle (sample_tree ''1'')]\<rparr>"

lemma calm_layout: "lay calm_machine = layoutFor ''/A/B.app''"
  by (simp add: calm_machine_def idle_deployment_def)

lemma calm_configured: "configured calm_machine"
proof -
  have "validAppPath ''/A/B.app''" "app_name ''/A/B.app'' \<noteq> ''.''" "app_name ''/A/B.app'' \<noteq> ''..''" by code_simp+
  then show ?thesis using calm_layout by (auto simp: configured_def)
qed

lemma installed_ok: "disk_ok calm_machine installed_state" "ms_swap installed_state = None" "ms_disk installed_state ''/A/B.app'' = Some (Bundle (sample_tree ''1''))"
  by (auto simp: disk_ok_def installed_state_def bare_state_def split: if_splits)

definition sample_candidate :: Candidate where
  "sample_candidate = \<lparr> ca_Source = ''/B/B.app'', ca_Version = ''2'', ca_Digest = replicate 64 (CHR ''0'') \<rparr>"

theorem verbs_keep_invariant_witness:
  "deploy_inv calm_machine (snd (Supersede calm_machine sample_candidate installed_state)) \<and> deploy_inv calm_machine (snd (Uninstall calm_machine installed_state))"
proof -
  have "deploy_inv calm_machine installed_state" using installed_ok by (simp add: deploy_inv_def)
  then show ?thesis using verbs_keep_invariant [OF calm_configured] by blast
qed

theorem supersede_atomic_witness:
  "\<exists>out s'. Supersede calm_machine sample_candidate installed_state = (out, s')
     \<and> (\<forall>g. out = Ret g \<longrightarrow> candidate_matches sample_candidate g = None \<and> ms_swap s' = None)"
proof -
  obtain out s' where o: "Supersede calm_machine sample_candidate installed_state = (out, s')" by fastforce
  have "ms_disk installed_state (la_canonical (lay calm_machine)) = Some (Bundle (sample_tree ''1''))"
    using installed_ok(3) calm_layout idle_paths(1) by simp
  from supersede_atomic [OF calm_configured installed_ok(1,2) this o] show ?thesis using o by (cases out) auto
qed

end
