(* ===== verification/DeployGate.thy ===== *)
theory DeployGate
  imports DeployVerbs
begin

text \<open>
  Nothing installed is moved or destroyed under a running process. The log of a verb shows every gate that passed, every agent
  it started, every tree it staged, moved or destroyed; a verb takes a generation away only behind a gate after which it
  started no agent and brought no tree in.
\<close>

subsection \<open>The discipline of the log\<close>

text \<open>Newest event first. Since the last gate nothing was started and no tree was brought in.\<close>

fun armed :: "devent list \<Rightarrow> bool" where
  "armed [] = False"
| "armed (GatePassed t u d # l) = True"
| "armed (Launchctl verb label ok # l) = (verb \<noteq> ''bootstrap'' \<and> verb \<noteq> ''kickstart'' \<and> armed l)"
| "armed (Staged p # l) = False"
| "armed (SlotGate p d # l) = armed l"
| "armed (RenamedTo from to n # l) = armed l"
| "armed (Destroyed p n # l) = armed l"

fun guarded :: "machine \<Rightarrow> devent \<Rightarrow> devent list \<Rightarrow> bool" where
  "guarded w (GatePassed t u d) l = (\<exists>s. ms_tick s = t \<and> ms_disk s = d \<and> gate_true w s u)"
| "guarded w (SlotGate p d) l = (\<exists>t t' paths found. bundleExecutables p (slot_of (d p)) = Some paths
     \<and> Inventory (dp_boundary (mc_deployment w)) paths t = (Some found, t') \<and> su_Live found = [])"
| "guarded w (RenamedTo from to n) l = (from = la_canonical (lay w) \<longrightarrow> armed l)"
| "guarded w (Destroyed p n) l = ((p \<in> {la_canonical (lay w), la_prior (lay w), la_removed (lay w)} \<longrightarrow> armed l)
     \<and> (p = la_candidate (lay w) \<longrightarrow> armed l \<or> (\<exists>d l'. l = SlotGate p d # l')))"
| "guarded w (Staged p) l = True"
| "guarded w (Launchctl verb label ok) l = True"

primrec gated :: "machine \<Rightarrow> devent list \<Rightarrow> bool" where
  "gated w [] = True"
| "gated w (e # l) = (guarded w e l \<and> gated w l)"

definition log_ok :: "machine \<Rightarrow> mstate \<Rightarrow> bool" where "log_ok w s \<longleftrightarrow> gated w (ms_log s)"

definition log_armed :: "machine \<Rightarrow> mstate \<Rightarrow> bool" where "log_armed w s \<longleftrightarrow> gated w (ms_log s) \<and> armed (ms_log s)"

lemma armed_ok: "log_armed w s \<Longrightarrow> log_ok w s"
  by (simp add: log_armed_def log_ok_def)

interpretation log_kept: disk_condition "log_ok w" w for w
  by unfold_locales (auto simp: log_ok_def)

interpretation arm_kept: quiet_condition "log_armed w" for w
  by unfold_locales (auto simp: log_armed_def)

lemma arm_remove: "keeps (log_armed w) (launchd_Remove w' label)"
proof -
  have b: "keeps (log_armed w) (launchctl w' ''bootout'' label)"
    by (auto simp: keeps_def log_armed_def launchctl_def Let_def split: prod.splits fault.splits)
  show ?thesis unfolding launchd_Remove_def applier_remove_def
    by (intro keeps_intros keeps_pure arm_kept.plist_calls arm_kept.ticked b)
qed

lemma arm_converge: "keeps (log_armed w) (deploy_converge w' [])"
proof -
  have l: "keeps (log_armed w) (retire_labels w' desired ls kept)" for desired ls kept
    by (induction ls arbitrary: kept) (auto simp: Let_def intro!: keeps_intros arm_remove arm_kept.records)
  show ?thesis unfolding deploy_converge_def Let_def by (intro keeps_intros arm_kept.reads arm_kept.records l) simp
qed

lemma gate_arms:
  assumes "log_ok w s"
  shows "wp (quiesce_now w) (\<lambda>_. log_armed w) (log_ok w) s" "wp (require_empty w) (\<lambda>_. log_armed w) (log_ok w) s"
proof -
  have k: "log_ok w (snd (quiesce_now w s))" "log_ok w (snd (require_empty w s))"
    using log_kept.gates assms unfolding keeps_def by blast+
  show "wp (quiesce_now w) (\<lambda>_. log_armed w) (log_ok w) s"
    using k(1) by (auto simp: wp_def quiesce_now_def log_armed_def log_ok_def split: option.splits sum.splits)
  show "wp (require_empty w) (\<lambda>_. log_armed w) (log_ok w) s"
    using k(2) by (auto simp: wp_def require_empty_def log_armed_def log_ok_def split: option.splits prod.splits)
qed

lemma quiesce_arms: "log_ok w s \<Longrightarrow> wp (quiesceAndConverge w []) (\<lambda>_. log_armed w) (log_ok w) s"
proof -
  assume i: "log_ok w s"
  have k: "keeps (log_armed w) (andThen (deploy_converge w []) (ret pf))" for pf by (intro keeps_intros arm_converge)
  have c: "wp (andThen (deploy_converge w []) (ret pf)) (\<lambda>_. log_armed w) (log_ok w) u" if "log_armed w u" for u pf
    by (rule wp_weaken [OF keepsD [OF k that]]) (auto intro: armed_ok)
  show ?thesis unfolding quiesceAndConverge_def wp_bnd by (rule wp_weaken [OF gate_arms(1) [OF i]], erule c)
qed

text \<open>Behind a gate the slots are free to move and to destroy.\<close>

lemma arm_files: "keeps (log_armed w) (durable_RemoveTree w' p)" "keeps (log_armed w) (durable_Rename w' from to)" "keeps (log_armed w) (remove_swap w')"
  "keeps (log_armed w) (write_swap w' r)"
  by (auto simp: keeps_def log_armed_def durable_RemoveTree_def durable_Rename_def remove_swap_def write_swap_def change_def moved_to_def Let_def
      split: option.splits fault.splits)

text \<open>Elsewhere a tree outside the layout may be destroyed, and one may be moved from another path than the canonical.\<close>

lemma log_files:
  "p \<notin> set (layout_paths (lay w)) \<Longrightarrow> keeps (log_ok w) (durable_RemoveTree w' p)"
  "from \<noteq> la_canonical (lay w) \<Longrightarrow> keeps (log_ok w) (durable_Rename w' from to)"
  "from \<noteq> la_canonical (lay w) \<Longrightarrow> keeps (log_ok w) (durable_RenameNew w' from to)"
  "keeps (log_ok w) (remove_swap w')" "keeps (log_ok w) (write_swap w' r)" "keeps (log_ok w) (copy_tree w' from to)"
  by (auto simp: keeps_def log_ok_def durable_RemoveTree_def durable_Rename_def durable_RenameNew_def remove_swap_def write_swap_def copy_tree_def change_def
      moved_to_def Let_def layout_paths_def split: option.splits fault.splits node.splits prod.splits)

subsection \<open>The verbs\<close>

lemma arm_settle: "keeps (log_armed w) (settleSwap w r)" "keeps (log_armed w) (retireSwap w r)"
proof -
  have l: "keeps (log_armed w) (swap_landed w r)" unfolding swap_landed_def by (intro keeps_intros arm_kept.reads)
  have s: "keeps (log_armed w) (swap_second w r)" unfolding swap_second_def by (intro keeps_intros arm_kept.reads arm_files l)
  have f: "keeps (log_armed w) (swap_first w r p)" for p unfolding swap_first_def by (intro keeps_intros arm_kept.reads arm_files s)
  show "keeps (log_armed w) (settleSwap w r)" unfolding settleSwap_def by (intro keeps_intros arm_kept.reads s f)
  have j: "keeps (log_armed w) (joined ([remove_activation w, remove_removal w] @ (if sw_Prior r = None then [] else [durable_RemoveTree w (la_prior (lay w))])))"
    by (rule keeps_joined) (auto split: if_splits intro: arm_kept.records arm_files)
  show "keeps (log_armed w) (retireSwap w r)" unfolding retireSwap_def by (rule keeps_andThen [OF j arm_files(3)])
qed

text \<open>A swap that replaces nothing takes nothing.\<close>

lemma fresh_settle:
  assumes "sw_Prior r = None" "configured w"
  shows "keeps (log_ok w) (settleSwap w r)" "keeps (log_ok w) (retireSwap w r)"
proof -
  have l: "keeps (log_ok w) (swap_landed w r)" unfolding swap_landed_def by (intro keeps_intros log_kept.reads)
  have s: "keeps (log_ok w) (swap_second w r)" unfolding swap_second_def
    by (intro keeps_intros log_kept.reads log_files l) (use configured_slots [OF assms(2)] in auto)
  show "keeps (log_ok w) (settleSwap w r)" unfolding settleSwap_def assms(1) option.case by (intro keeps_intros log_kept.reads s)
  have "keeps (log_ok w) (joined [remove_activation w, remove_removal w])" by (intro joined_pair log_kept.records)
  from keeps_andThen [OF this log_files(4)] show "keeps (log_ok w) (retireSwap w r)" by (simp add: retireSwap_def assms(1))
qed

text \<open>A swap that has landed with nothing set aside takes nothing either.\<close>

definition log_clear :: "machine \<Rightarrow> mstate \<Rightarrow> bool" where
  "log_clear w s \<longleftrightarrow> log_ok w s \<and> ms_disk s (la_prior (lay w)) = None"

interpretation clear_kept: quiet_condition "log_clear w" for w
  by unfold_locales (auto simp: log_clear_def log_ok_def)

lemma done_settle:
  assumes c: "log_clear w s" and g: "gen_node w (la_canonical (lay w)) (ms_disk s (la_canonical (lay w))) g" "sameTree g (sw_Candidate r)"
  shows "wp (andThen (settleSwap w r) (retireSwap w r)) (\<lambda>_. log_ok w) (log_ok w) s"
proof -
  have rm: "keeps (log_clear w) (durable_RemoveTree w (la_prior (lay w)))"
    using clear_kept.ticked by (auto simp: keeps_def durable_RemoveTree_def log_clear_def)
  have sw: "keeps (log_clear w) (remove_swap w)"
    by (auto simp: keeps_def remove_swap_def change_def log_clear_def log_ok_def split: fault.splits)
  have j: "keeps (log_clear w) (joined ([remove_activation w, remove_removal w] @ (if sw_Prior r = None then [] else [durable_RemoveTree w (la_prior (lay w))])))"
    by (rule keeps_joined) (auto split: if_splits intro: clear_kept.records rm)
  have ret: "keeps (log_clear w) (retireSwap w r)" unfolding retireSwap_def by (rule keeps_andThen [OF j sw])
  have there: "ms_disk s (la_canonical (lay w)) \<noteq> None" using g(1) by (auto simp: gen_node_def)
  have "wp (settleSwap w r) (\<lambda>_. log_clear w) (log_clear w) s"
    unfolding settleSwap_def wp_fileExists_bnd using there clear_kept.ticked [OF c] gen_node_unique [OF g(1)] g(2)
    by (auto simp: wp_bnd wp_ret intro!: wp_inspect)
  then have "wp (andThen (settleSwap w r) (retireSwap w r)) (\<lambda>_. log_clear w) (log_clear w) s"
    unfolding wp_andThen by (rule wp_weaken) (use keepsD [OF ret] in auto)
  then show ?thesis by (rule wp_weaken) (simp_all add: log_clear_def)
qed

lemma arm_through:
  assumes "log_ok w s"
  shows "wp (andThen (quiesceAndConverge w []) (andThen (settleSwap w r) (retireSwap w r))) (\<lambda>_. log_ok w) (log_ok w) s"
proof -
  have k: "keeps (log_armed w) (andThen (settleSwap w r) (retireSwap w r))" by (intro keeps_intros arm_settle)
  show ?thesis unfolding wp_andThen [where m = "quiesceAndConverge w []"]
    by (rule wp_weaken [OF quiesce_arms [OF assms]], rule wp_weaken [OF keepsD [OF k]]) (auto intro: armed_ok)
qed

lemma recover_gated:
  assumes cfg: "configured w"
  shows "keeps (log_ok w) (deploy_recover w)"
proof -
  let ?go = "\<lambda>r destroys. andThen (if destroys then andThen (quiesceAndConverge w []) (ret ()) else ret ()) (andThen (settleSwap w r) (retireSwap w r))"
  have yes: "wp (?go r True) (\<lambda>_. log_ok w) (log_ok w) u" if "log_ok w u" for r u
    using arm_through [OF that, of r] by (simp add: andThen_def bnd_assoc)
  have "wp (bnd (resumeDestroys w r) (?go r)) (\<lambda>_. log_ok w) (log_ok w) u" if i: "log_ok w u" for r u
  proof (cases "sw_Prior r")
    case None
    have "keeps (log_ok w) (andThen (settleSwap w r) (retireSwap w r))" by (intro keeps_intros fresh_settle [OF None cfg])
    then show ?thesis using keepsD i None by (simp add: resumeDestroys_def andThen_def)
  next
    case (Some p)
    have no: "wp (?go r (\<not> sameTree g (sw_Candidate r))) (\<lambda>_. log_ok w) (log_ok w) (tick u)"
      if "ms_disk u (la_prior (lay w)) = None" "gen_node w (la_canonical (lay w)) (ms_disk u (la_canonical (lay w))) g" for g
    proof (cases "sameTree g (sw_Candidate r)")
      case True
      then show ?thesis using done_settle [of w "tick u" g r] that i by (simp add: log_clear_def log_ok_def andThen_def)
    qed (use yes [of "tick u"] log_kept.ticked [OF i] in simp)
    show ?thesis unfolding resumeDestroys_def using Some yes [OF i] no log_kept.ticked [OF i]
      by (auto simp: bnd_assoc wp_fileExists_bnd wp_bnd [where m = "deploy_inspect w p" for p] intro!: wp_inspect)
  qed
  then have go: "keeps (log_ok w) (bnd (resumeDestroys w r) (?go r))" for r unfolding keeps_wp by blast
  show ?thesis unfolding deploy_recover_def by (intro keeps_bnd [OF log_kept.reads(1)] keeps_option keeps_ret keeps_if keeps_throw go)
qed

lemma make_stage_gated: "log_ok w s \<Longrightarrow> wp (make_stage w) (\<lambda>p s'. log_ok w s' \<and> p \<notin> set (layout_paths (lay w))) (log_ok w) s"
  by (auto simp: wp_def make_stage_def log_ok_def Let_def bnd_def ret_def change_def split: option.splits fault.splits)

lemma stage_copy_gated:
  assumes pub: "publish = durable_Rename w \<or> publish = durable_RenameNew w"
  shows "keeps (log_ok w) (stage_copy w c publish)"
proof -
  have m: "keeps (log_ok w) (matched c g)" for g unfolding matched_def by (intro keeps_intros)
  have cp: "keeps (log_ok w) (discarding (durable_RemoveTree w p) (copyIntoStage w c source p publish))" if p: "p \<notin> set (layout_paths (lay w))" for p source
  proof -
    have "p \<noteq> la_canonical (lay w)" using p by (auto simp: layout_paths_def)
    then have b: "keeps (log_ok w) (publish p to)" for to using pub log_files(2,3) by auto
    have k: "keeps (log_ok w) (copyIntoStage w c source p publish)" unfolding copyIntoStage_def by (intro keeps_intros log_kept.reads log_files b)
    show ?thesis unfolding keeps_wp using wp_discarding [OF keepsD [OF k] log_files(1) [OF p]] by blast
  qed
  have "keeps (log_ok w) (bnd (make_stage w) (\<lambda>p. discarding (durable_RemoveTree w p) (copyIntoStage w c source p publish)))" for source
    unfolding keeps_wp wp_bnd using wp_weaken [OF make_stage_gated] keepsD [OF cp] by (smt (verit))
  then show ?thesis unfolding stage_copy_def by (intro keeps_bnd [OF log_kept.reads(3)] keeps_andThen m)
qed

lemma discard_gated:
  assumes cfg: "configured w"
  shows "keeps (log_ok w) (discardCandidate w)"
proof -
  have slot: "dp_slot (seen_by w s) t p = (if mc_unscanned w t p then SlotFailed else slot_of (ms_disk s p))" for s t p
    by (simp add: seen_by_def)
  have "log_ok w (snd (durable_RemoveTree w (la_candidate (lay w)) (logged (SlotGate (la_candidate (lay w)) (ms_disk s)) (at_tick t s))))"
    if "log_ok w s" "bundleExecutables (la_candidate (lay w)) (dp_slot (seen_by w s) v (la_candidate (lay w))) = Some paths"
      "Inventory (dp_boundary (mc_deployment w)) paths u = (Some found, t)" "su_Live found = []" for s t u v paths found
  proof -
    have "bundleExecutables (la_candidate (lay w)) (slot_of (ms_disk s (la_candidate (lay w)))) = Some paths"
      using that(2) by (auto simp: slot bundleExecutables_def split: if_splits)
    then have g: "gated w (SlotGate (la_candidate (lay w)) (ms_disk s) # ms_log s)" using that by (auto simp: log_ok_def)
    then have "gated w (Destroyed (la_candidate (lay w)) n # SlotGate (la_candidate (lay w)) (ms_disk s) # ms_log s)" for n
      using configured_slots [OF cfg] by (simp only: gated.simps guarded.simps) auto
    then show ?thesis using g by (simp add: durable_RemoveTree_def log_ok_def Let_def del: gated.simps split: option.split fault.split)
  qed
  then show ?thesis using log_kept.ticked log_kept.at
    by (auto simp: keeps_def discardCandidate_def split: option.splits prod.splits)
qed

lemma commit_gated:
  assumes "log_ok w s"
  shows "wp (commitSupersede w r p) (\<lambda>_. log_armed w) (log_ok w) s"
proof -
  let ?act = "andThen (quiesceAndConverge w []) (andThen (require_empty w) (write_swap w r))"
  let ?go = "\<lambda>i. bnd (tried ?act) (\<lambda>outcome. case outcome of Inr _ \<Rightarrow> ret () | Inl e \<Rightarrow> bnd (deploy_restore w i) (\<lambda>verdict. throw (e @ verdict)))"
  have wr: "wp (write_swap w r) (\<lambda>_. log_armed w) (log_ok w) u" if "log_armed w u" for u
    by (rule wp_weaken [OF keepsD [OF arm_files(4) that]]) (auto intro: armed_ok)
  have re: "wp (andThen (require_empty w) (write_swap w r)) (\<lambda>_. log_armed w) (log_ok w) u" if "log_ok w u" for u
    unfolding wp_andThen by (rule wp_weaken [OF gate_arms(2) [OF that]], erule wr)
  have act: "wp ?act (\<lambda>_. log_armed w) (log_ok w) u" if "log_ok w u" for u
    unfolding wp_andThen [where m = "quiesceAndConverge w []"] by (rule wp_weaken [OF quiesce_arms [OF that]], rule re, erule armed_ok)
  have undo: "wp (bnd (deploy_restore w i) (\<lambda>verdict. throw (e @ verdict))) (\<lambda>_. log_armed w) (log_ok w) u" if "log_ok w u" for i e u
    unfolding wp_bnd wp_throw by (rule wp_weaken [OF keepsD [OF log_kept.restoring that]])
  have go: "wp (?go i) (\<lambda>_. log_armed w) (log_ok w) u" if "log_ok w u" for i u
    unfolding wp_bnd [where m = "tried m" for m] by (rule wp_tried_rule, rule wp_weaken [OF act [OF that]]) (use undo in \<open>auto simp: wp_ret\<close>)
  have who: "wp (read_owner w) (\<lambda>owner. wp (?go (i owner)) (\<lambda>_. log_armed w) (log_ok w)) (log_ok w) u" if "log_ok w u" for i u
    by (rule wp_weaken [OF keepsD [OF log_kept.reads(5) that]], erule go)
  show ?thesis unfolding commitSupersede_def Let_def wp_bnd [where m = "appliedServices w"] wp_bnd [where m = "read_owner w"]
    by (rule wp_weaken [OF keepsD [OF log_kept.reads(2) assms]], erule who)
qed

lemma land_gated:
  assumes cfg: "configured w"
  shows "keeps (log_ok w) (land w c over)"
proof -
  have cp: "keeps (log_ok w) (stage_copy w c (durable_Rename w))" by (rule stage_copy_gated) simp
  have st: "keeps (log_ok w) (deploy_stage w c)" unfolding deploy_stage_def
    by (intro keeps_bnd keeps_exists keeps_if keeps_ret keeps_andThen log_kept.reads discard_gated [OF cfg] cp)
  have some: "keeps (log_ok w) (andThen (commitSupersede w r p) (andThen (settleSwap w r) (andThen (retireSwap w r) (deploy_inspect w q))))" for r p q
  proof -
    have k: "keeps (log_armed w) (andThen (settleSwap w r) (andThen (retireSwap w r) (deploy_inspect w q)))" by (intro keeps_andThen arm_settle arm_kept.reads)
    show ?thesis unfolding keeps_wp wp_andThen [where m = "commitSupersede w r p"]
    proof (intro allI impI)
      fix s
      assume i: "log_ok w s"
      show "wp (commitSupersede w r p) (\<lambda>_. wp (andThen (settleSwap w r) (andThen (retireSwap w r) (deploy_inspect w q))) (\<lambda>_. log_ok w) (log_ok w)) (log_ok w) s"
        by (rule wp_weaken [OF commit_gated [OF i]], rule wp_weaken [OF keepsD [OF k]]) (auto intro: armed_ok)
    qed
  qed
  have none: "keeps (log_ok w) (andThen (write_swap w r) (andThen (settleSwap w r) (andThen (retireSwap w r) (deploy_inspect w q))))" if "sw_Prior r = None" for r q
    by (intro keeps_andThen log_files fresh_settle [OF that cfg] log_kept.reads)
  have ls: "keeps (log_ok w) (land_staged w prior g)" for prior g
    using some none by (cases prior) (auto simp: land_staged_def Let_def keeps_throw)
  have inc: "keeps (log_ok w) (incumbent_of w over)" unfolding incumbent_of_def by (intro keeps_intros log_kept.reads)
  show ?thesis unfolding land_unfold land_from_def
    by (intro keeps_if keeps_throw keeps_andThen keeps_bnd log_kept.reads recover_gated [OF cfg] inc st ls)
qed

lemma verbs_gated:
  assumes cfg: "configured w"
  shows "keeps (log_ok w) (Install w c)" "keeps (log_ok w) (Supersede w c)" "keeps (log_ok w) (Activate w)" "keeps (log_ok w) (Uninstall w)"
    "keeps (log_ok w) (Reset w)" "keeps (log_ok w) (InstallFresh w c)"
proof -
  show "keeps (log_ok w) (Install w c)" "keeps (log_ok w) (Supersede w c)" using land_gated [OF cfg] by (simp_all add: Install_def Supersede_def)
  show "keeps (log_ok w) (Activate w)" unfolding Activate_def Let_def
    by (intro keeps_bnd keeps_andThen keeps_if keeps_throw keeps_ret joined_pair log_kept.reads log_kept.converging log_kept.gates log_kept.records
      recover_gated [OF cfg])
  have dg: "keeps (log_armed w) (discardGenerations w)" unfolding discardGenerations_def
    by (intro keeps_bnd keeps_joined arm_kept.reads) (auto intro: arm_files)
  have after: "keeps (log_ok w) (bnd (quiesceAndConverge w []) (\<lambda>p. f p))"
    if "\<And>p u. log_armed w u \<Longrightarrow> wp (f p) (\<lambda>_. log_ok w) (log_ok w) u" for f :: "RuntimeProof \<Rightarrow> 'b prog"
    unfolding keeps_wp wp_bnd using wp_weaken [OF quiesce_arms, where Q' = "\<lambda>p. wp (f p) (\<lambda>_. log_ok w) (log_ok w)"] that by blast
  have again: "wp (andThen (require_empty w) m) (\<lambda>_. log_ok w) (log_ok w) u" if "keeps (log_armed w) m" "log_armed w u" for m :: "'b prog" and u
    unfolding wp_andThen
    by (rule wp_weaken [OF gate_arms(2) [OF armed_ok [OF that(2)]]], rule wp_weaken [OF keepsD [OF that(1)]]) (auto intro: armed_ok)
  have tomb: "keeps (log_armed w) (tombstone w p)" for p unfolding tombstone_def Let_def
    by (intro keeps_bnd keeps_option keeps_ret keeps_andThen joined_pair arm_kept.reads arm_kept.records)
  have "keeps (log_ok w) (uninstall_from w)" unfolding uninstall_from_def
  proof (rule after)
    fix p :: RuntimeProof and u
    assume u: "log_armed w u"
    let ?f = "\<lambda>r. bnd (fileExists (la_canonical (lay w))) (\<lambda>installed.
        andThen (if \<not> installed then ret () else bnd (fileExists (la_removed (lay w))) (\<lambda>occupied.
            if occupied then throw [ErrConflict]
            else andThen (attest w (re_Generation r)) (durable_Rename w (la_canonical (lay w)) (la_removed (lay w)))))
          (andThen (discardGenerations w) (bnd (fileExists (la_canonical (lay w))) (\<lambda>returned.
            if returned then throw [ErrConflict] else ret (re_Generation r, p)))))"
    have "keeps (log_armed w) (?f r)" for r
      by (intro keeps_bnd keeps_exists keeps_andThen keeps_if keeps_ret keeps_throw arm_kept.reads arm_files dg)
    then have "wp (andThen (require_empty w) (?f r)) (\<lambda>_. log_ok w) (log_ok w) v" if "log_armed w v" for r v using again that by blast
    then show "wp (bnd (tombstone w p) (\<lambda>r. andThen (require_empty w) (?f r))) (\<lambda>_. log_ok w) (log_ok w) u"
      unfolding wp_bnd [where m = "tombstone w p"] by (intro wp_weaken [OF keepsD [OF tomb u]]) (auto intro: armed_ok)
  qed
  then show "keeps (log_ok w) (Uninstall w)" unfolding Uninstall_unfold by (intro keeps_andThen log_kept.reads recover_gated [OF cfg])
  have "keeps (log_armed w) m" if "m \<in> set [remove_activation w, remove_removal w, remove_swap w, remove_services w, discardGenerations w]" for m
    using that arm_kept.records arm_files dg by auto
  then have "keeps (log_armed w) (joined [remove_activation w, remove_removal w, remove_swap w, remove_services w, discardGenerations w])" by (rule keeps_joined)
  then have "keeps (log_ok w) (andThen (quiesceAndConverge w []) (andThen (require_empty w)
      (joined [remove_activation w, remove_removal w, remove_swap w, remove_services w, discardGenerations w])))"
    unfolding andThen_def [of "quiesceAndConverge w []"] by (intro after again)
  then show "keeps (log_ok w) (Reset w)" unfolding Reset_def by (intro keeps_andThen [OF log_kept.reads(8)] keeps_andThen [OF recover_gated [OF cfg]])
  have m: "keeps (log_ok w) (matched c g)" for g unfolding matched_def by (intro keeps_intros)
  have fr: "keeps (log_ok w) (stageFresh w c)" unfolding stageFresh_def not_fresh_def
    by (intro keeps_bnd keeps_wrapped keeps_andThen keeps_each keeps_absent log_kept.ticked log_kept.reads stage_copy_gated) simp_all
  have "keeps (log_ok w) (landFresh w c)" unfolding landFresh_def Let_def
    by (intro keeps_bnd [OF fr] keeps_if keeps_throw keeps_andThen keeps_ret log_files fresh_settle cfg) simp_all
  then show "keeps (log_ok w) (InstallFresh w c)" unfolding InstallFresh_def not_fresh_def
    by (intro keeps_if keeps_throw keeps_ret keeps_andThen keeps_bnd keeps_wrapped log_kept.reads log_kept.fresh log_kept.bootstrapping log_kept.gates
      log_kept.records m)
qed



end
