(* ===== verification/DeployRecovery.thy ===== *)
theory DeployRecovery
  imports DeployVerbs
begin

text \<open>
  Recovery ends. Whatever state a crash left, on a machine where files can be read and changed and the quiesce ladder
  passes, the next verb's recovery completes the swap: the recorded candidate is installed, what it replaced is gone, the
  record is retired.
\<close>

definition calm :: "machine \<Rightarrow> bool" where
  "calm w \<longleftrightarrow> (\<forall>t. mc_fault w t = Calm \<and> mc_inspect w t = None \<and> \<not> mc_unread w t)"

lemma candidate_app:
  assumes "configured w"
  shows "validAppPath (la_canonical (lay w)) \<and> validAppPath (la_candidate (lay w))"
proof -
  obtain app where a: "lay w = layoutFor app" "validAppPath app" "app_name app \<noteq> ''.''" "app_name app \<noteq> ''..''"
    using assms by (auto simp: configured_def)
  obtain es where e: "list_all component es" "layout_paths (layoutFor app) = map (\<lambda>cs. rooted_path (es @ cs)) [[app_name app @ ''.app''], [metadataDir, app_name app],
       [metadataDir, app_name app, ''deployment.lock''], [metadataDir, app_name app, ''swap.json''],
       [metadataDir, app_name app, ''activation.json''], [metadataDir, app_name app, ''removal.json''],
       [metadataDir, app_name app, ''services.json''], [CHR ''.'' # app_name app @ ''.daemonkit-candidate.app''],
       [metadataDir, app_name app, ''prior.app''], [metadataDir, app_name app, ''removed.app'']]"
    and c: "component (CHR ''.'' # app_name app @ ''.daemonkit-candidate.app'')"
    using layout_components [OF a(2-4)] by blast
  let ?e = "CHR ''.'' # app_name app @ ''.daemonkit-candidate.app''"
  have p: "la_candidate (layoutFor app) = rooted_path (es @ [?e])" using e(2) by (simp add: layout_paths_def)
  have b: "Base (rooted_path (es @ [?e])) = ?e" by (rule Base_rooted [OF c])
  have "HasSuffix ?e ''.app''" by (simp add: HasSuffix_def)
  moreover have "Clean (rooted_path (es @ [?e])) = rooted_path (es @ [?e])" by (rule Clean_rooted_path) (use e(1) c in simp)
  ultimately have "validAppPath (rooted_path (es @ [?e]))" using b by (simp add: validAppPath_def rooted_path_def IsAbs_def)
  then show ?thesis using a p by (simp add: layoutFor_def Let_def)
qed

lemma inspect_calm:
  assumes "calm w" "validAppPath p" "gen_node w p (ms_disk s p) g" "Q g (tick s)"
  shows "wp (deploy_inspect w p) Q (\<lambda>_. False) s"
  using assms by (auto simp: wp_def deploy_inspect_def calm_def gen_node_def)

lemma attest_calm:
  assumes "calm w" "validAppPath (ge_Path g)" "gen_node w (ge_Path g) (ms_disk s (ge_Path g)) g" "Q () (tick s)"
  shows "wp (attest w g) Q (\<lambda>_. False) s"
  unfolding attest_def wp_bnd by (rule inspect_calm [OF assms(1-3)]) (simp add: wp_ret assms(4))

lemma change_calm: "calm w \<Longrightarrow> Q () (f (tick s)) \<Longrightarrow> wp (change w f) Q (\<lambda>_. False) s"
  by (simp add: wp_def change_def calm_def)

lemma Rename_calm:
  assumes "calm w" "ms_disk s from = Some n" "ms_disk s to = None" "Q () (moved_to from to n (tick s))"
  shows "wp (durable_Rename w from to) Q (\<lambda>_. False) s"
  using assms by (simp add: wp_def durable_Rename_def change_def calm_def)

lemma RemoveTree_calm:
  assumes "calm w"
  shows "wp (durable_RemoveTree w p) (\<lambda>_ s'. ms_disk s' = (ms_disk s)(p := None)) (\<lambda>_. False) s"
proof (cases "ms_disk s p")
  case None
  then show ?thesis by (auto simp: wp_def durable_RemoveTree_def fun_eq_iff)
qed (use assms in \<open>simp add: wp_def durable_RemoveTree_def calm_def Let_def\<close>)

lemma slot_gen: "slot_holds w s p g \<Longrightarrow> gen_node w p (ms_disk s p) (g\<lparr>ge_Path := p\<rparr>)"
  by (simp add: slot_holds_def)

subsection \<open>The renames complete\<close>

text \<open>Whenever the candidate is staged and the canonical path is free, the second rename lands it.\<close>

lemma second_returns:
  assumes cfg: "configured w" and calm: "calm w" and h: "slot_holds w s (la_candidate (lay w)) (sw_Candidate r)"
    and no: "ms_disk s (la_canonical (lay w)) = None"
  shows "wp (swap_second w r) (\<lambda>_ _. True) (\<lambda>_. False) s"
proof -
  let ?c = "la_candidate (lay w)" and ?k = "la_canonical (lay w)"
  obtain n where n: "ms_disk s ?c = Some n" using h by (auto simp: slot_holds_def gen_node_def)
  let ?u = "moved_to ?c ?k n (tick (tick s))"
  have g: "gen_node w ?k (Some n) ((sw_Candidate r)\<lparr>ge_Path := ?k\<rparr>)"
    using gen_node_move [OF slot_gen [OF h], of ?k] n by simp
  have l: "wp (swap_landed w r) (\<lambda>_ _. True) (\<lambda>_. False) ?u" unfolding swap_landed_def wp_bnd
    by (rule inspect_calm [OF calm _, where g = "(sw_Candidate r)\<lparr>ge_Path := ?k\<rparr>"])
      (use candidate_app [OF cfg] g configured_slots [OF cfg] sameTree_gen [OF g, of "sw_Candidate r"] in \<open>auto simp: wp_ret\<close>)
  have "wp (durable_Rename w ?c ?k) (\<lambda>_. wp (swap_landed w r) (\<lambda>_ _. True) (\<lambda>_. False)) (\<lambda>_. False) (tick s)"
    by (rule Rename_calm [OF calm]) (use n no l in auto)
  then have "wp (attest w ((sw_Candidate r)\<lparr>ge_Path := ?c\<rparr>)) (\<lambda>_. wp (bnd (fileExists ?k) (\<lambda>occupied. if occupied then throw [ErrConflict]
      else andThen (durable_Rename w ?c ?k) (swap_landed w r))) (\<lambda>_ _. True) (\<lambda>_. False)) (\<lambda>_. False) s"
    by (intro attest_calm [OF calm]) (use candidate_app [OF cfg] slot_gen [OF h] no in \<open>auto simp: wp_fileExists_bnd wp_andThen\<close>)
  then show ?thesis unfolding swap_second_def wp_fileExists_bnd [where p = ?c] using n by (simp add: wp_andThen)
qed

lemma first_returns:
  assumes cfg: "configured w" and calm: "calm w" and h: "slot_holds w s (la_candidate (lay w)) (sw_Candidate r)"
    and p: "gen_node w (la_canonical (lay w)) (ms_disk s (la_canonical (lay w))) p"
  shows "wp (swap_first w r p) (\<lambda>_ _. True) (\<lambda>_. False) s"
proof -
  let ?c = "la_candidate (lay w)" and ?k = "la_canonical (lay w)" and ?p = "la_prior (lay w)"
  obtain n where n: "ms_disk s ?k = Some n" using p by (auto simp: gen_node_def)
  have mv: "wp (andThen (durable_Rename w ?k ?p) (swap_second w r)) (\<lambda>_ _. True) (\<lambda>_. False) u" if u: "ms_disk u = (ms_disk s)(?p := None)" for u
  proof -
    have "slot_holds w (moved_to ?k ?p n (tick u)) ?c (sw_Candidate r)" using h u configured_slots [OF cfg] by (simp add: slot_holds_def)
    then have "wp (swap_second w r) (\<lambda>_ _. True) (\<lambda>_. False) (moved_to ?k ?p n (tick u))" by (rule second_returns [OF cfg calm]) simp
    then show ?thesis unfolding wp_andThen by (intro Rename_calm [OF calm]) (use u n configured_slots [OF cfg] in auto)
  qed
  have "wp (andThen (durable_RemoveTree w ?p) (andThen (durable_Rename w ?k ?p) (swap_second w r))) (\<lambda>_ _. True) (\<lambda>_. False) (tick s)"
    unfolding wp_andThen [where m = "durable_RemoveTree w ?p"] by (rule wp_weaken [OF RemoveTree_calm [OF calm]]) (use mv in auto)
  then show ?thesis unfolding swap_first_def wp_andThen [where m = "attest w p"]
    by (intro attest_calm [OF calm]) (use candidate_app [OF cfg] p gen_node_path [OF p] in auto)
qed

lemma settle_returns:
  assumes cfg: "configured w" and calm: "calm w" and sw: "swapping w n0 r s"
  shows "wp (settleSwap w r) (\<lambda>_ _. True) (\<lambda>_. False) s"
proof (cases "slot_holds w s (la_canonical (lay w)) (sw_Candidate r)")
  case True
  let ?g = "(sw_Candidate r)\<lparr>ge_Path := la_canonical (lay w)\<rparr>"
  have g: "gen_node w (la_canonical (lay w)) (ms_disk s (la_canonical (lay w))) ?g" using slot_gen [OF True] .
  then have "ms_disk s (la_canonical (lay w)) \<noteq> None" by (auto simp: gen_node_def)
  then show ?thesis unfolding settleSwap_def wp_fileExists_bnd using candidate_app [OF cfg] g sameTree_gen [OF g, of "sw_Candidate r"]
    by (auto simp: wp_bnd wp_ret intro!: inspect_calm [OF calm _ g])
next
  case False
  have h: "slot_holds w s (la_candidate (lay w)) (sw_Candidate r)" and st: "swap_state w n0 r s" using sw False by (auto simp: swapping_def swap_state_def)
  show ?thesis
  proof (cases "ms_disk s (la_canonical (lay w))")
    case None
    then show ?thesis using second_returns [OF cfg calm h None] by (simp add: settleSwap_def wp_fileExists_bnd)
  next
    case (Some n)
    then have "ms_disk s (la_canonical (lay w)) = n0" using st False by (auto simp: swap_state_def)
    then obtain p where p: "sw_Prior r = Some p" "gen_node w (la_canonical (lay w)) (ms_disk s (la_canonical (lay w))) p"
      using st Some by (auto simp: swap_state_def split: option.splits)
    have "\<not> sameTree p (sw_Candidate r)" using False sameTree_gen [OF p(2)] p(2) by (auto simp: slot_holds_def)
    moreover have "sameBytes p p" by (simp add: sameBytes_def)
    moreover have "wp (swap_first w r p) (\<lambda>_ _. True) (\<lambda>_. False) (tick s)" by (rule first_returns [OF cfg calm]) (use h p in simp_all)
    ultimately show ?thesis unfolding settleSwap_def wp_fileExists_bnd using Some p candidate_app [OF cfg]
      by (auto simp: wp_bnd intro!: inspect_calm [OF calm _ p(2)])
  qed
qed

subsection \<open>Retirement and recovery complete\<close>

lemma joined_calm:
  assumes "wp m (\<lambda>_. wp (joined ms) Q (\<lambda>_. False)) (\<lambda>_. False) s"
  shows "wp (joined (m # ms)) Q (\<lambda>_. False) s"
proof -
  obtain x s' where m: "m s = (Ret x, s')" using assms by (auto simp: wp_def split: prod.splits res.splits)
  then have "joined (m # ms) s = joined ms s'"
    by (auto simp: joined_def bnd_def tried_def ret_def split: prod.splits res.splits)
  then show ?thesis using assms m by (simp add: wp_def)
qed

lemma joined_nil: "joined [] = ret ()"
  by (simp add: joined_def)

lemma remove_calm:
  assumes "calm w"
  shows "wp (remove_activation w) (\<lambda>_ s'. ms_disk s' = ms_disk s) (\<lambda>_. False) s" "wp (remove_removal w) (\<lambda>_ s'. ms_disk s' = ms_disk s) (\<lambda>_. False) s"
    "wp (remove_swap w) (\<lambda>_ s'. ms_disk s' = ms_disk s) (\<lambda>_. False) s"
  using assms by (auto simp: wp_def remove_activation_def remove_removal_def remove_swap_def change_def calm_def)

lemma retire_returns:
  assumes "calm w"
  shows "wp (retireSwap w r) (\<lambda>_ s'. sw_Prior r \<noteq> None \<longrightarrow> ms_disk s' (la_prior (lay w)) = None) (\<lambda>_. False) s"
proof -
  let ?P = "\<lambda>_ s'. sw_Prior r \<noteq> None \<longrightarrow> ms_disk s' (la_prior (lay w)) = None"
  let ?l = "if sw_Prior r = None then [] else [durable_RemoveTree w (la_prior (lay w))]"
  have l: "wp (joined ?l) ?P (\<lambda>_. False) u" for u
    by (auto simp: joined_nil wp_ret intro!: joined_calm wp_weaken [OF RemoveTree_calm [OF assms]])
  have "wp (joined ([remove_activation w, remove_removal w] @ ?l)) ?P (\<lambda>_. False) s"
    unfolding append_Cons append_Nil
    by (rule joined_calm, rule wp_weaken [OF remove_calm(1) [OF assms]], rule joined_calm, rule wp_weaken [OF remove_calm(2) [OF assms]], rule l) simp_all
  then show ?thesis unfolding retireSwap_def wp_andThen
    by (rule wp_weaken) (auto intro: wp_weaken [OF remove_calm(3) [OF assms]])
qed

text \<open>Deciding whether a resume destroys anything reads only.\<close>

lemma resume_reads:
  assumes cfg: "configured w" and calm: "calm w" and sw: "swapping w n0 r s"
  shows "wp (resumeDestroys w r) (\<lambda>_ s'. \<exists>t. s' = at_tick t s) (\<lambda>_. False) s"
proof -
  have same: "s = at_tick (ms_tick s) s" "tick s = at_tick (ms_tick s + 1) s" by (simp_all add: at_tick_def tick_def)
  have "wp (bnd (deploy_inspect w (la_canonical (lay w))) (\<lambda>g. ret (\<not> sameTree g (sw_Candidate r)))) (\<lambda>_ s'. \<exists>t. s' = at_tick t s) (\<lambda>_. False) s"
    if "ms_disk s (la_canonical (lay w)) \<noteq> None"
  proof -
    have "\<exists>g. gen_node w (la_canonical (lay w)) (ms_disk s (la_canonical (lay w))) g"
      using sw that by (auto simp: swapping_def swap_state_def slot_holds_def split: option.splits)
    then obtain g where g: "gen_node w (la_canonical (lay w)) (ms_disk s (la_canonical (lay w))) g" by blast
    show ?thesis unfolding wp_bnd by (rule inspect_calm [OF calm _ g]) (use candidate_app [OF cfg] same(2) in \<open>auto simp: wp_ret\<close>)
  qed
  then show ?thesis unfolding resumeDestroys_def using same(1) by (auto simp: wp_ret wp_fileExists_bnd)
qed

lemma recover_returns:
  assumes cfg: "configured w" and calm: "calm w" and inv: "deploy_inv w s" and r: "ms_swap s = Some (Stored r)"
    and q: "\<And>t. \<exists>p u. quiesceAndConverge w [] (at_tick t s) = (Ret p, u)"
  shows "wp (deploy_recover w) (\<lambda>_ s'. landed w r s' \<and> ms_swap s' = None \<and> (sw_Prior r \<noteq> None \<longrightarrow> ms_disk s' (la_prior (lay w)) = None)) (\<lambda>_. False) s"
    (is "wp _ ?Q _ s")
proof -
  obtain n0 where sw: "swapping w n0 r s" using inv r by (auto simp: deploy_inv_def swapping_def)
  have fin: "wp (andThen (settleSwap w r) (retireSwap w r)) ?Q (\<lambda>_. False) u" if u: "swapping w n0 r u" for u
    unfolding wp_andThen
  proof (rule wp_weaken [OF wp_conj [OF settleSwap_wp [OF cfg u] settle_returns [OF cfg calm u]]])
    fix x v
    assume v: "(swapping w n0 r v \<and> slot_holds w v (la_canonical (lay w)) (sw_Candidate r)) \<and> True"
    show "wp (retireSwap w r) ?Q (\<lambda>_. False) v"
      by (rule wp_weaken [OF wp_conj [OF retireSwap_wp [OF cfg] retire_returns [OF calm]]]) (use v in auto)
  qed simp_all
  have gate: "wp (if d then andThen (quiesceAndConverge w []) (ret ()) else ret ()) (\<lambda>_. swapping w n0 r) (\<lambda>_. False) (at_tick t s)" for d t
  proof -
    obtain p u where o: "quiesceAndConverge w [] (at_tick t s) = (Ret p, u)" using q by blast
    have "same_disk s u" using keeps_outcome [OF same.converging(2) _ o, of s] by simp
    then show ?thesis using o sw same_disk_cong(4) [of s u] by (simp add: wp_def andThen_def bnd_def ret_def quiet_same)
  qed
  have res: "wp (bnd (resumeDestroys w r) (\<lambda>d. andThen (if d then andThen (quiesceAndConverge w []) (ret ()) else ret ())
        (andThen (settleSwap w r) (retireSwap w r)))) ?Q (\<lambda>_. False) (tick s)"
    unfolding wp_bnd
  proof (rule wp_weaken [OF resume_reads [OF cfg calm, of n0]])
    show "swapping w n0 r (tick s)" using sw by simp
    fix d v
    assume "\<exists>t. v = at_tick t (tick s)"
    then obtain t where v: "v = at_tick t s" by (auto simp: at_tick_def tick_def)
    show "wp (andThen (if d then andThen (quiesceAndConverge w []) (ret ()) else ret ()) (andThen (settleSwap w r) (retireSwap w r))) ?Q (\<lambda>_. False) v"
      unfolding v wp_andThen [where n = "andThen (settleSwap w r) (retireSwap w r)"] by (rule wp_weaken [OF gate], erule fin) simp
  qed simp
  have valid: "swap_validate r" "sw_Target r = la_canonical (lay w)" using sw by (auto simp: swapping_def)
  have "readRecord w ms_swap swap_validate s = (Ret (Some r), tick s)" using r valid calm by (simp add: readRecord_def calm_def)
  then show ?thesis unfolding deploy_recover_def wp_bnd [where m = "readRecord w f v" for f v] using res valid by (simp add: wp_def [of "readRecord w ms_swap swap_validate"])
qed

text \<open>
  C31: recovery ends with the candidate installed. From every state that a verb can leave with a swap on record, on a machine
  whose files can be read and changed and whose quiesce ladder passes, recovery returns: the recorded candidate is at the
  canonical path, the generation it replaced is gone, and the record is retired.
\<close>

theorem recovery_completes:
  assumes "configured w" "calm w" "deploy_inv w s" "ms_swap s = Some (Stored r)"
    and "\<And>t. \<exists>p u. quiesceAndConverge w [] (at_tick t s) = (Ret p, u)"
  shows "\<exists>s'. deploy_recover w s = (Ret (), s') \<and> slot_holds w s' (la_canonical (lay w)) (sw_Candidate r) \<and> ms_swap s' = None
    \<and> (sw_Prior r \<noteq> None \<longrightarrow> ms_disk s' (la_prior (lay w)) = None)"
proof -
  obtain out s' where o: "deploy_recover w s = (out, s')" by fastforce
  from recover_returns [OF assms] show ?thesis unfolding wp_def o by (cases out) (auto simp: landed_def)
qed

subsection \<open>A crash between the renames\<close>

text \<open>On the machine where nothing fails, with no daemon on record and nothing to execute in the trees, every gate passes.\<close>

definition bare_trees :: "mstate \<Rightarrow> bool" where
  "bare_trees s \<longleftrightarrow> ms_stages s = [] \<and> (\<forall>p n. ms_disk s p = Some n \<longrightarrow> (\<exists>v. n = Bundle (sample_tree v)))"

lemma bare_slot: "bare_trees s \<Longrightarrow> bundleExecutables p (slot_of (ms_disk s p)) = Some []"
  by (cases "ms_disk s p") (auto simp: bare_trees_def slot_of_def bundleExecutables_def sample_tree_def dest!: spec)

lemma calm_seen:
  assumes "bare_trees s"
  shows "ownedExecutables (seen_by calm_machine s) t = (Some [], t + 5)" "survivors (seen_by calm_machine s) [] t = (Some [], t + 1)"
    "survivors (seen_by calm_machine s) [''/d''] t = (Some [], t + 3)"
    "dp_agents (seen_by calm_machine s) = [(''a'', ''/d'')]" "dp_hosts (seen_by calm_machine s) = []"
proof -
  have d: "dp_stages (seen_by calm_machine s) t = Some []" "dp_slot (seen_by calm_machine s) t p = slot_of (ms_disk s p)" for t p
    using assms by (simp_all add: seen_by_def calm_machine_def bare_trees_def staging_def)
  show "ownedExecutables (seen_by calm_machine s) t = (Some [], t + 5)"
    using d by (simp add: ownedExecutables_def generationSlots_def bare_slot [OF assms])
  have b: "dp_boundary (seen_by calm_machine s) = dp_boundary idle_deployment" by (simp add: seen_by_def calm_machine_def)
  have r: "recordedIdentities (seen_by calm_machine s) t = (Some [], t + 1)" for t
    by (simp add: recordedIdentities_def b) (simp add: idle_deployment_def quiet_boundary_def)
  show "survivors (seen_by calm_machine s) [] t = (Some [], t + 1)" "survivors (seen_by calm_machine s) [''/d''] t = (Some [], t + 3)"
    by (simp_all add: survivors_def Inventory_def ExecutableIdentities_def executableMatcher_def b r attributed_def)
      (simp_all add: idle_deployment_def quiet_boundary_def r attributed_def)
  show "dp_agents (seen_by calm_machine s) = [(''a'', ''/d'')]" "dp_hosts (seen_by calm_machine s) = []"
    by (simp_all add: seen_by_def calm_machine_def plain_agent_def idle_deployment_def)
qed

lemma calm_gate:
  assumes "bare_trees s"
  shows "require_empty calm_machine s = (Ret (), gate_logged (ms_tick s + 8) s)"
    "\<exists>p. quiesce_now calm_machine s = (Ret p, gate_logged (ms_tick s + 17) s)"
proof -
  let ?d = "seen_by calm_machine s"
  have e: "requireEmpty ?d t = (None, t + 8)" for t using calm_seen [OF assms] by (simp add: requireEmpty_def executables_def)
  then show "require_empty calm_machine s = (Ret (), gate_logged (ms_tick s + 8) s)" by (simp add: require_empty_def)
  have "deploy_stop False ?d t = Some (Inr (zero_health, ReapAbsent), [], t + 3)" for t
    by (simp add: deploy_stop_def drain_def client_Health_def seen_by_def calm_machine_def idle_deployment_def quiet_boundary_def with_ctx_def recorded_def Is_def Let_def)
  moreover have "terminateSurvivors False ?d t = Some (None, [], t + 6)" for t
    using calm_seen [OF assms] by (simp add: terminateSurvivors_def)
  ultimately have "deploy_Quiesce False ?d t = Some (Inr (runtimeProof ?d (zero_health, ReapAbsent)), [], t + 17)" for t
    using e by (simp add: deploy_Quiesce_def absenceProof_def)
  then show "\<exists>p. quiesce_now calm_machine s = (Ret p, gate_logged (ms_tick s + 17) s)" by (simp add: quiesce_now_def)
qed

lemma calm_is_calm: "calm calm_machine"
  by (simp add: calm_def calm_machine_def)

text \<open>With no service on record a convergence to none changes nothing but the clock.\<close>

lemma calm_quiesce:
  assumes "bare_trees s" "ms_services s = None"
  shows "\<exists>p t. quiesceAndConverge calm_machine [] s = (Ret p, at_tick t (gate_logged (ms_tick s + 17) s))"
proof -
  obtain p where q: "quiesce_now calm_machine s = (Ret p, gate_logged (ms_tick s + 17) s)" using calm_gate(2) [OF assms(1)] by blast
  have "mc_unread calm_machine t = False" for t by (simp add: calm_machine_def)
  then have "deploy_converge calm_machine [] u = (Ret (), at_tick (ms_tick u + 3) u)" if "ms_services u = None" for u
    using that by (simp add: deploy_converge_def appliedServices_def readRecord_def recordServices_def remove_services_def bnd_def andThen_def ret_def Let_def
        at_tick_def tick_def)
  then show ?thesis using q assms(2) by (auto simp: quiesceAndConverge_def bnd_def andThen_def ret_def gate_logged_def at_tick_def)
qed

definition crashed_state :: mstate where
  "crashed_state = bare_state\<lparr>ms_disk := [''/A/.daemonkit-deploy/B/prior.app'' \<mapsto> Bundle (sample_tree ''1''), ''/A/.B.daemonkit-candidate.app'' \<mapsto> Bundle (sample_tree ''2'')],
     ms_swap := Some (Stored (swap_record calm_machine (Some (generation_of calm_machine ''/A/B.app'' (sample_tree ''1'')))
       (generation_of calm_machine ''/A/B.app'' (sample_tree ''2''))))\<rparr>"

lemma sample_lower: "map lower_char (replicate 40 (CHR ''0'')) = replicate 40 (CHR ''0'')" "validCDHash (replicate 40 (CHR ''0''))" "validDigest (replicate 64 (CHR ''0''))"
  by code_simp+

lemma sample_gen: "gen_node calm_machine p (Some (Bundle (sample_tree v))) (generation_of calm_machine p (sample_tree v))"
  using sample_lower by (simp add: gen_node_def sample_tree_def)

lemma crashed_inv: "deploy_inv calm_machine crashed_state"
proof -
  let ?r = "swap_record calm_machine (Some (generation_of calm_machine ''/A/B.app'' (sample_tree ''1''))) (generation_of calm_machine ''/A/B.app'' (sample_tree ''2''))"
  have app: "validAppPath ''/A/B.app''" by code_simp
  have lay: "la_canonical (lay calm_machine) = ''/A/B.app''" "la_prior (lay calm_machine) = ''/A/.daemonkit-deploy/B/prior.app''"
      "la_candidate (lay calm_machine) = ''/A/.B.daemonkit-candidate.app''" using calm_layout idle_paths by simp_all
  have g: "Generation_validate (generation_of calm_machine ''/A/B.app'' (sample_tree v))" if "v \<noteq> []" for v
    using that app sample_lower by (simp add: Generation_validate_def generation_of_def sample_tree_def) (simp add: calm_machine_def)
  have p: "ge_Path (generation_of calm_machine q x) = q" "(generation_of calm_machine q x)\<lparr>ge_Path := q\<rparr> = generation_of calm_machine q x" for q x
    by (simp_all add: generation_of_def)
  have v: "swap_validate ?r" using g [of "''1''"] g [of "''2''"] by (simp add: swap_validate_def swap_record_def lay p)
  have d: "disk_ok calm_machine crashed_state" by (auto simp: disk_ok_def crashed_state_def sample_tree_def bare_state_def split: if_splits)
  have h: "slot_holds calm_machine crashed_state ''/A/.B.daemonkit-candidate.app'' (sw_Candidate ?r)"
    using sample_gen [of "''/A/.B.daemonkit-candidate.app''" "''2''"] by (simp add: slot_holds_def crashed_state_def generation_of_def)
  have "swap_state calm_machine (Some (Bundle (sample_tree ''1''))) ?r crashed_state"
    using h sample_gen [of "''/A/B.app''" "''1''"] by (simp add: swap_state_def lay) (simp add: crashed_state_def bare_state_def)
  then have "swapping calm_machine (Some (Bundle (sample_tree ''1''))) ?r crashed_state" using v d by (simp add: swapping_def) (simp add: crashed_state_def)
  then show ?thesis using d unfolding deploy_inv_def by blast
qed

theorem recovery_completes_witness:
  "\<exists>s'. deploy_recover calm_machine crashed_state = (Ret (), s') \<and> ms_swap s' = None \<and> ms_disk s' ''/A/.daemonkit-deploy/B/prior.app'' = None"
proof -
  have "bare_trees (at_tick t crashed_state)" "ms_services (at_tick t crashed_state) = None" for t
    by (auto simp: bare_trees_def crashed_state_def bare_state_def at_tick_def split: if_splits)
  then have q: "\<exists>p u. quiesceAndConverge calm_machine [] (at_tick t crashed_state) = (Ret p, u)" for t using calm_quiesce by blast
  let ?r = "swap_record calm_machine (Some (generation_of calm_machine ''/A/B.app'' (sample_tree ''1''))) (generation_of calm_machine ''/A/B.app'' (sample_tree ''2''))"
  have "ms_swap crashed_state = Some (Stored ?r)" by (simp add: crashed_state_def)
  from recovery_completes [OF calm_configured calm_is_calm crashed_inv this q] show ?thesis using calm_layout idle_paths(2) by auto
qed

end
