(* ===== verification/DeployServices.thy ===== *)
theory DeployServices
  imports DeployRecovery
begin

text \<open>
  The record of services. Whatever a convergence of agents does and wherever it is cut off, a job of the deployment that
  launchd holds is one the record names, so the next verb can find it and take it down; when it returns, launchd holds
  exactly the agents asked for.
\<close>

subsection \<open>The files of labels\<close>

lemma elems_slash: "elems (p @ CHR ''/'' # q) = elems p @ elems q"
  by (induction p) (auto split: list.split)

lemma Clean_suffix:
  assumes "component e" "p \<noteq> []"
  shows "Clean (p @ CHR ''/'' # e) =
    (if IsAbs p then CHR ''/'' # join (rev (foldl (clean_elem True) [] (elems p)) @ [e])
     else join (rev (foldl (clean_elem False) [] (elems p)) @ [e]))"
proof -
  have e: "elems (p @ CHR ''/'' # e) = elems p @ [e]" using assms(1) by (simp add: elems_slash elems_noslash component_def)
  have a: "IsAbs (p @ CHR ''/'' # e) = IsAbs p" using assms(2) by (cases p) (simp_all add: IsAbs_def)
  have "join (xs @ [e]) \<noteq> []" for xs using assms(1) by (cases "xs = []") (auto simp: join_snoc component_def)
  then show ?thesis using e a assms by (simp add: Clean_def Let_def clean_elem_component)
qed

lemma plist_component: "label_Validate l \<Longrightarrow> component (l @ ''.plist'')"
  using label_component [of l] by (auto simp: component_def)

lemma plistPath_form: "\<exists>pre. \<forall>l. label_Validate l \<longrightarrow> plistPath (Some h) l = Some (pre @ l @ ''.plist'')"
proof -
  let ?p = "join (filter (\<lambda>e. e \<noteq> []) [h, ''Library'', ''LaunchAgents''])"
  have j: "join (filter (\<lambda>e. e \<noteq> []) [h, ''Library'', ''LaunchAgents'', x]) = ?p @ CHR ''/'' # x" if "x \<noteq> []" for x
    using that by simp
  have ne: "?p \<noteq> []" by (cases h) auto
  have J: "Join [h, ''Library'', ''LaunchAgents'', x] = Clean (?p @ CHR ''/'' # x)" if "x \<noteq> []" for x
    using that j [OF that] by (simp add: Join_def Let_def)
  let ?out = "rev (foldl (clean_elem (IsAbs ?p)) [] (elems ?p))"
  let ?pre = "(if IsAbs ?p then ''/'' else []) @ (if ?out = [] then [] else join ?out @ ''/'')"
  have "plistPath (Some h) l = Some (?pre @ l @ ''.plist'')" if "label_Validate l" for l
  proof -
    have jo: "join (xs @ [e]) = (if xs = [] then [] else join xs @ ''/'') @ e" for xs e by (simp add: join_snoc)
    show ?thesis using J [of "l @ ''.plist''"] Clean_suffix [OF plist_component [OF that] ne]
      by (simp add: plistPath_def jo del: join.simps filter.simps)
  qed
  then show ?thesis by blast
qed

definition path_of :: "machine \<Rightarrow> string \<Rightarrow> string" where
  "path_of w l = the (plistPath (mc_home w) l)"

lemma show_int_last: "show_int n \<noteq> [] \<and> last (show_int n) \<noteq> CHR ''t''"
proof -
  have "list_all is_digit (show_nat m) \<and> show_nat m \<noteq> []" for m using show_nat_digits by blast
  moreover have "\<not> is_digit (CHR ''t'')" by code_simp
  ultimately have "show_nat m \<noteq> [] \<and> last (show_nat m) \<noteq> CHR ''t''" for m
    using last_in_set [of "show_nat m"] unfolding list_all_iff by metis
  then show ?thesis by (simp add: show_int_def)
qed

lemma paths_apart:
  assumes "mc_home w = Some h" "label_Validate l" "label_Validate l'" "l \<noteq> l'"
  shows "path_of w l' \<noteq> path_of w l \<and> \<not> aside_of (path_of w l) (path_of w l')"
proof -
  obtain pre where pre: "\<And>k. label_Validate k \<Longrightarrow> plistPath (Some h) k = Some (pre @ k @ ''.plist'')" using plistPath_form by blast
  then have p: "path_of w l = pre @ l @ ''.plist''" "path_of w l' = pre @ l' @ ''.plist''" using assms by (simp_all add: path_of_def)
  have "last (path_of w l') = CHR ''t''" unfolding p by simp
  moreover have "last (path_of w l @ x @ show_int n) \<noteq> CHR ''t''" for x n using show_int_last [of n] by simp
  ultimately have "path_of w l' \<noteq> path_of w l @ x @ show_int n" for x n by metis
  then have "\<not> aside_of (path_of w l) (path_of w l')" unfolding aside_of_def by blast
  then show ?thesis using assms(4) p by simp
qed

subsection \<open>Loaded jobs are recorded\<close>

definition recorded_labels :: "mstate \<Rightarrow> string set" where
  "recorded_labels s = (case ms_services s of Some (Stored ls) \<Rightarrow> set ls | _ \<Rightarrow> {})"

text \<open>The labels in \<open>D\<close> are this deployment's alone: a job of one of them has its file, which is ours, and is recorded.\<close>

definition cover :: "machine \<Rightarrow> string set \<Rightarrow> mstate \<Rightarrow> bool" where
  "cover w D s \<longleftrightarrow> (\<forall>l\<in>D. backed l (path_of w l) s \<and> (l \<in> ms_jobs s \<longrightarrow> l \<in> recorded_labels s))"

definition fit :: "machine \<Rightarrow> string set \<Rightarrow> bool" where
  "fit w D \<longleftrightarrow> lawful_launchd w \<and> mc_home w \<noteq> None \<and> (\<forall>l\<in>D. label_Validate l)"

lemma keeps_conj: "keeps I m \<Longrightarrow> keeps J m \<Longrightarrow> keeps (\<lambda>s. I s \<and> J s) m"
  by (simp add: keeps_def)

lemma fit_path: "fit w D \<Longrightarrow> plistPath (mc_home w) l = Some (path_of w l)"
  by (auto simp: fit_def path_of_def plistPath_def)

text \<open>A call on one label that keeps it backed changes nothing for the others.\<close>

lemma one_label_cover:
  assumes "fit w D" "label_Validate l" "cover w D s" "only_agent l (path_of w l) s s'" "l \<in> D \<longrightarrow> backed l (path_of w l) s'"
    "l \<in> D \<and> l \<in> ms_jobs s' \<longrightarrow> l \<in> recorded_labels s"
  shows "cover w D s'"
  unfolding cover_def
proof
  fix k
  assume k: "k \<in> D"
  have r: "recorded_labels s' = recorded_labels s" using assms(4) by (simp add: only_agent_def recorded_labels_def)
  show "backed k (path_of w k) s' \<and> (k \<in> ms_jobs s' \<longrightarrow> k \<in> recorded_labels s')"
  proof (cases "k = l")
    case False
    have "label_Validate k" using assms(1) k by (simp add: fit_def)
    then have "ms_plists s' (path_of w k) = ms_plists s (path_of w k)"
      using paths_apart [of w _ l k] assms(1,2,4) False by (auto simp: only_agent_def fit_def)
    moreover have "k \<in> ms_jobs s' \<longleftrightarrow> k \<in> ms_jobs s" using assms(4) False by (auto simp: only_agent_def)
    ultimately show ?thesis using assms(3) k r by (auto simp: cover_def backed_def)
  qed (use assms k r in auto)
qed

lemma apply_unlabelled: "\<not> label_Validate (ag_Label a) \<Longrightarrow> keeps I (launchd_Apply w a)"
  by (simp add: launchd_Apply_def canonicalAgent_then rendered_def Plist_def keeps_throw)

text \<open>While the record is the list \<open>kept\<close>.\<close>

definition covered_by :: "machine \<Rightarrow> string set \<Rightarrow> string list \<Rightarrow> mstate \<Rightarrow> bool" where
  "covered_by w D kept s \<longleftrightarrow> cover w D s \<and> ms_services s = (if kept = [] then None else Some (Stored kept))"

lemma covered_labels: "covered_by w D kept s \<Longrightarrow> recorded_labels s = set kept"
  by (auto simp: covered_by_def recorded_labels_def)

lemma apply_covered:
  assumes "fit w D" "ag_Label a \<in> set kept"
  shows "keeps (covered_by w D kept) (launchd_Apply w a)"
proof (cases "label_Validate (ag_Label a)")
  case True
  let ?l = "ag_Label a" and ?p = "path_of w (ag_Label a)"
  have law: "lawful_launchd w" "plistPath (mc_home w) ?l = Some ?p" using assms(1) fit_path by (auto simp: fit_def)
  show ?thesis unfolding keeps_def
  proof (intro allI impI)
    fix s
    assume c: "covered_by w D kept s"
    let ?s = "snd (launchd_Apply w a s)"
    have o: "only_agent ?l ?p s ?s" using keeps_apply [OF law, of s] unfolding keeps_def by simp
    have b: "?l \<in> D \<longrightarrow> backed ?l ?p ?s" using apply_backed [OF law] c unfolding keeps_def covered_by_def cover_def by blast
    have r: "ms_services ?s = ms_services s" using o by (simp add: only_agent_def)
    have "cover w D ?s" by (rule one_label_cover [OF assms(1) True _ o b]) (use c covered_labels [OF c] assms(2) in \<open>auto simp: covered_by_def\<close>)
    then show "covered_by w D kept ?s" using c r by (simp add: covered_by_def)
  qed
qed (rule apply_unlabelled)

lemma apply_loads:
  assumes "fit w D" "ag_Label a \<in> set kept" "covered_by w D kept s" "A \<subseteq> ms_jobs s"
  shows "wp (launchd_Apply w a) (\<lambda>_ s'. covered_by w D kept s' \<and> insert (ag_Label a) A \<subseteq> ms_jobs s') (covered_by w D kept) s"
proof -
  have law: "lawful_launchd w" "plistPath (mc_home w) (ag_Label a) = Some (path_of w (ag_Label a))" using assms(1) fit_path by (auto simp: fit_def)
  obtain r s' where out: "launchd_Apply w a s = (r, s')" by fastforce
  have c: "covered_by w D kept s'" using keeps_outcome [OF apply_covered [OF assms(1,2)] assms(3) out] .
  have "insert (ag_Label a) A \<subseteq> ms_jobs s'" if "r = Ret ()"
    using apply_result [OF law out] that assms(4) by (auto simp: only_agent_def)
  then show ?thesis using c out by (cases r) (auto simp: wp_def)
qed

lemma apply_each:
  assumes "fit w D" "ag_Label ` set as \<subseteq> set kept" "covered_by w D kept s" "A \<subseteq> ms_jobs s"
  shows "wp (each (launchd_Apply w) as) (\<lambda>_ s'. covered_by w D kept s' \<and> A \<union> ag_Label ` set as \<subseteq> ms_jobs s') (covered_by w D kept) s"
  using assms(2-4)
proof (induction as arbitrary: s A)
  case (Cons a as)
  show ?case unfolding each.simps wp_andThen
  proof (rule wp_weaken [OF apply_loads [OF assms(1) _ Cons.prems(2,3)]])
    fix x s'
    assume s': "covered_by w D kept s' \<and> insert (ag_Label a) A \<subseteq> ms_jobs s'"
    have "wp (each (launchd_Apply w) as) (\<lambda>_ s'. covered_by w D kept s' \<and> insert (ag_Label a) A \<union> ag_Label ` set as \<subseteq> ms_jobs s') (covered_by w D kept) s'"
      by (rule Cons.IH) (use s' Cons.prems(1) in auto)
    then show "wp (each (launchd_Apply w) as) (\<lambda>_ s'. covered_by w D kept s' \<and> A \<union> ag_Label ` set (a # as) \<subseteq> ms_jobs s') (covered_by w D kept) s'"
      by (rule wp_weaken) auto
  qed (use Cons.prems(1) in auto)
qed (simp add: wp_ret)

lemma remove_covered:
  assumes "fit w D" "covered_by w D kept s" "A \<subseteq> ms_jobs s" "l \<notin> A"
  shows "wp (launchd_Remove w l) (\<lambda>_ s'. covered_by w D kept s' \<and> A \<subseteq> ms_jobs s' \<and> (l \<in> D \<longrightarrow> l \<notin> ms_jobs s')) (covered_by w D kept) s"
proof (cases "label_Validate l")
  case True
  let ?p = "path_of w l"
  have law: "lawful_launchd w" "plistPath (mc_home w) l = Some ?p" using assms(1) fit_path by (auto simp: fit_def)
  obtain r s' where out: "launchd_Remove w l s = (r, s')" by fastforce
  have o: "only_agent l ?p s s'" using keeps_outcome [OF keeps_remove [OF law] only_agent_refl out] .
  have b: "r = Ret () \<and> l \<notin> ms_jobs s' \<and> ms_plists s' ?p = None \<or> r \<noteq> Ret () \<and> backed l ?p s'" if "l \<in> D"
    using remove_backed [OF law, of s] assms(2) that out by (cases r) (auto simp: wp_def covered_by_def cover_def)
  have "l \<in> D \<longrightarrow> backed l ?p s'" using b by (auto simp: backed_def)
  moreover have "l \<in> D \<and> l \<in> ms_jobs s' \<longrightarrow> l \<in> recorded_labels s"
  proof (intro impI, elim conjE)
    assume "l \<in> D" "l \<in> ms_jobs s'"
    have "keeps (\<lambda>u. ms_jobs u \<subseteq> ms_jobs s) (launchd_Remove w l)"
    proof -
      have "keeps (\<lambda>u. ms_jobs u \<subseteq> ms_jobs s) (launchctl w ''bootout'' l)" unfolding keeps_wp
        by (intro allI impI, rule launchctl_wp [OF law(1)]) (auto simp: Let_def)
      moreover have "keeps (\<lambda>u. ms_jobs u \<subseteq> ms_jobs s) (remove_plist w q)" for q
        by (auto simp: keeps_def remove_plist_def change_def split: fault.splits)
      ultimately show ?thesis unfolding launchd_Remove_def applier_remove_def
        by (intro keeps_if keeps_throw keeps_plist_path keeps_bnd keeps_option keeps_ret keeps_prod keeps_pure) simp_all
    qed
    from keeps_outcome [OF this _ out] show "l \<in> recorded_labels s" using \<open>l \<in> ms_jobs s'\<close> \<open>l \<in> D\<close> assms(2) by (auto simp: covered_by_def cover_def)
  qed
  ultimately have "cover w D s'" using one_label_cover [OF assms(1) True _ o] assms(2) by (simp add: covered_by_def)
  then have c: "covered_by w D kept s'" using o assms(2) by (auto simp: covered_by_def only_agent_def)
  have "A \<subseteq> ms_jobs s'" using o assms(3,4) by (auto simp: only_agent_def)
  then show ?thesis using c b out by (cases r) (auto simp: wp_def)
qed (use assms in \<open>simp add: launchd_Remove_def wp_throw\<close>)

lemma cover_tick [simp]: "cover w D (tick s) = cover w D s" "covered_by w D ks (tick s) = covered_by w D ks s"
  by (simp_all add: cover_def recorded_labels_def covered_by_def)

lemma record_covered:
  assumes "cover w D s" "D \<inter> ms_jobs s \<subseteq> set ks" "A \<subseteq> ms_jobs s"
  shows "wp (recordServices w ks) (\<lambda>_ s'. covered_by w D ks s' \<and> A \<subseteq> ms_jobs s') (cover w D) s"
proof -
  have c: "cover w D ((tick s)\<lparr>ms_services := if ks = [] then None else Some (Stored ks)\<rparr>)"
    using assms(1,2) by (auto simp: cover_def recorded_labels_def backed_def)
  have w: "wp (change w (\<lambda>s. s\<lparr>ms_services := if ks = [] then None else Some (Stored ks)\<rparr>)) (\<lambda>_ s'. covered_by w D ks s' \<and> A \<subseteq> ms_jobs s') (cover w D) s"
    by (rule wp_change) (use c assms in \<open>auto simp: covered_by_def\<close>)
  have n: "wp (remove_services w) (\<lambda>_ s'. covered_by w D [] s' \<and> A \<subseteq> ms_jobs s') (cover w D) s" if "ks = []"
  proof (cases "ms_services s")
    case None
    then show ?thesis using assms by (simp add: wp_def remove_services_def covered_by_def)
  next
    case Some
    then have "remove_services w s = change w (\<lambda>s. s\<lparr>ms_services := None\<rparr>) s" by (simp add: remove_services_def)
    then show ?thesis using w that by (simp add: wp_def)
  qed
  show ?thesis using n w by (auto simp: recordServices_def write_services_def)
qed

lemma retire_covered:
  assumes "fit w D" "covered_by w D kept s" "A \<subseteq> ms_jobs s" "A \<subseteq> set desired"
  shows "wp (retire_labels w desired ls kept) (\<lambda>_ s'. cover w D s' \<and> A \<subseteq> ms_jobs s'
    \<and> recorded_labels s' = {l \<in> set kept. l \<in> set ls \<longrightarrow> l \<in> set desired}) (cover w D) s"
  using assms(2,3)
proof (induction ls arbitrary: kept s)
  case Nil
  then show ?case by (auto simp: wp_ret covered_labels) (simp add: covered_by_def)
next
  case (Cons l ls)
  show ?case
  proof (cases "l \<in> set desired")
    case True
    have "{k \<in> set kept. k \<in> set ls \<longrightarrow> k \<in> set desired} = {k \<in> set kept. k \<in> set (l # ls) \<longrightarrow> k \<in> set desired}" using True by auto
    then show ?thesis using True Cons.IH [OF Cons.prems] by simp
  next
    case False
    let ?ks = "filter (\<lambda>k. k \<noteq> l) kept"
    have eq: "{k \<in> set ?ks. k \<in> set ls \<longrightarrow> k \<in> set desired} = {k \<in> set kept. k \<in> set (l # ls) \<longrightarrow> k \<in> set desired}" using False by auto
    have rec: "wp (andThen (recordServices w ?ks) (retire_labels w desired ls ?ks)) (\<lambda>_ s'. cover w D s' \<and> A \<subseteq> ms_jobs s'
        \<and> recorded_labels s' = {l' \<in> set kept. l' \<in> set (l # ls) \<longrightarrow> l' \<in> set desired}) (cover w D) u"
      if u: "covered_by w D kept u \<and> A \<subseteq> ms_jobs u \<and> (l \<in> D \<longrightarrow> l \<notin> ms_jobs u)" for u
    proof -
      have "D \<inter> ms_jobs u \<subseteq> set ?ks" using u covered_labels [OF conjunct1 [OF u]] by (auto simp: covered_by_def cover_def)
      then have "wp (recordServices w ?ks) (\<lambda>_ s'. covered_by w D ?ks s' \<and> A \<subseteq> ms_jobs s') (cover w D) u"
        using u by (intro record_covered) (auto simp: covered_by_def)
      then show ?thesis unfolding wp_andThen by (rule wp_weaken) (use Cons.IH [of ?ks] eq in auto)
    qed
    have "l \<notin> A" using False assms(4) by auto
    from remove_covered [OF assms(1) Cons.prems this]
    have "wp (andThen (launchd_Remove w l) (andThen (recordServices w ?ks) (retire_labels w desired ls ?ks))) (\<lambda>_ s'. cover w D s' \<and> A \<subseteq> ms_jobs s'
        \<and> recorded_labels s' = {l' \<in> set kept. l' \<in> set (l # ls) \<longrightarrow> l' \<in> set desired}) (cover w D) s"
      unfolding wp_andThen [where m = "launchd_Remove w l"] by (rule wp_weaken, intro rec) (simp_all add: covered_by_def)
    then show ?thesis using False by (simp add: Let_def)
  qed
qed

lemma services_wp:
  assumes "cover w D s"
  shows "wp (appliedServices w) (\<lambda>ls s'. cover w D s' \<and> s' = tick s \<and> recorded_labels s = set ls) (cover w D) s"
  unfolding appliedServices_def wp_bnd wp_ret by (rule wp_readRecord) (use assms in \<open>auto simp: recorded_labels_def\<close>)

lemma converge_covered:
  assumes fit: "fit w D" and c: "cover w D s"
  shows "wp (deploy_converge w as) (\<lambda>_ s'. covered_by w D (remdups_adj (sort (map ag_Label as))) s' \<and> ag_Label ` set as \<subseteq> ms_jobs s') (cover w D) s"
proof -
  let ?d = "remdups_adj (sort (map ag_Label as))" and ?L = "ag_Label ` set as"
  let ?Q = "\<lambda>(_ :: unit) s'. covered_by w D ?d s' \<and> ?L \<subseteq> ms_jobs s'"
  have d: "set ?d = ?L" by simp
  have fin: "wp (recordServices w ?d) ?Q (cover w D) u" if "cover w D u" "?L \<subseteq> ms_jobs u" "recorded_labels u \<subseteq> ?L" for u
    by (rule record_covered) (use that in \<open>auto simp: cover_def\<close>)
  have ret: "wp (andThen (retire_labels w ?d prev kept) (recordServices w ?d)) ?Q (cover w D) u"
    if u: "covered_by w D kept u" "?L \<subseteq> ms_jobs u" "set kept = set prev \<union> ?L" for u prev kept
    unfolding wp_andThen
  proof (rule wp_weaken [OF retire_covered [OF fit u(1,2)]])
    fix x v
    assume v: "cover w D v \<and> ?L \<subseteq> ms_jobs v \<and> recorded_labels v = {l \<in> set kept. l \<in> set prev \<longrightarrow> l \<in> set ?d}"
    show "wp (recordServices w ?d) ?Q (cover w D) v" by (rule fin) (use v u(3) in auto)
  qed simp_all
  have app: "wp (andThen (each (launchd_Apply w) as) (andThen (retire_labels w ?d prev kept) (recordServices w ?d))) ?Q (cover w D) u"
    if u: "covered_by w D kept u" "set kept = set prev \<union> ?L" for u prev kept
  proof -
    have "wp (each (launchd_Apply w) as) (\<lambda>_ s'. covered_by w D kept s' \<and> {} \<union> ?L \<subseteq> ms_jobs s') (covered_by w D kept) u"
      by (rule apply_each [OF fit _ u(1)]) (use u(2) in auto)
    then show ?thesis unfolding wp_andThen [where m = "each f xs" for f xs] by (rule wp_weaken) (use ret u(2) in \<open>auto simp: covered_by_def\<close>)
  qed
  show ?thesis unfolding deploy_converge_def Let_def wp_bnd
  proof (rule wp_weaken [OF services_wp [OF c]])
    fix prev u
    assume u: "cover w D u \<and> u = tick s \<and> recorded_labels s = set prev"
    let ?k = "remdups_adj (sort (prev @ ?d))"
    have k: "set ?k = set prev \<union> ?L" by simp
    have r: "recorded_labels u = set prev" using u by (simp add: recorded_labels_def)
    have "wp (recordServices w ?k) (\<lambda>_ s'. covered_by w D ?k s' \<and> {} \<subseteq> ms_jobs s') (cover w D) u"
      by (rule record_covered) (use u r in \<open>auto simp: cover_def\<close>)
    then show "wp (andThen (recordServices w ?k) (andThen (each (launchd_Apply w) as) (andThen (retire_labels w ?d prev ?k) (recordServices w ?d)))) ?Q (cover w D) u"
      unfolding wp_andThen [where m = "recordServices w ?k"] by (rule wp_weaken) (use app [OF _ k] in auto)
  qed
qed

subsection \<open>What leaves agents alone\<close>

definition same_agents :: "mstate \<Rightarrow> mstate \<Rightarrow> bool" where
  "same_agents s s' \<longleftrightarrow> ms_jobs s' = ms_jobs s \<and> ms_plists s' = ms_plists s \<and> ms_services s' = ms_services s"

lemma cover_same: "same_agents s s' \<Longrightarrow> cover w D s' = cover w D s" "same_agents s s' \<Longrightarrow> covered_by w D ks s' = covered_by w D ks s"
  by (simp_all add: same_agents_def cover_def covered_by_def backed_def recorded_labels_def)

lemma same_agents_simps [simp]: "same_agents s0 (tick s) = same_agents s0 s" "same_agents s0 (logged e s) = same_agents s0 s"
  "same_agents s0 (at_tick t s) = same_agents s0 s" "same_agents s0 (gate_logged t s) = same_agents s0 s"
  "same_agents s0 (s\<lparr>ms_disk := d\<rparr>) = same_agents s0 s" "same_agents s0 (s\<lparr>ms_swap := x\<rparr>) = same_agents s0 s"
  "same_agents s0 (s\<lparr>ms_activation := y\<rparr>) = same_agents s0 s" "same_agents s0 (s\<lparr>ms_removal := z\<rparr>) = same_agents s0 s"
  "same_agents s0 s0"
  by (simp_all add: same_agents_def gate_logged_def at_tick_def)

lemma agents_reads: "keeps (same_agents s0) (deploy_inspect w p)" "keeps (same_agents s0) (attest w g)" "keeps (same_agents s0) (readRecord w field valid)"
  "keeps (same_agents s0) (quiesce_now w)" "keeps (same_agents s0) (require_empty w)" "keeps (same_agents s0) (deploy_hold w)" "keeps (same_agents s0) (stagingTrees w)"
proof -
  show i: "keeps (same_agents s0) (deploy_inspect w p)" for p by (simp add: keeps_def deploy_inspect_def)
  show "keeps (same_agents s0) (attest w g)" unfolding attest_def by (intro keeps_intros i)
  show "keeps (same_agents s0) (readRecord w field valid)" by (rule keeps_readRecord) simp
  show "keeps (same_agents s0) (quiesce_now w)" by (auto simp: keeps_def quiesce_now_def split: option.split sum.split)
  show "keeps (same_agents s0) (require_empty w)" by (auto simp: keeps_def require_empty_def split: option.split prod.split)
  show "keeps (same_agents s0) (deploy_hold w)" by (auto simp: keeps_def deploy_hold_def andThen_def bnd_def ensureMetadata_def split: option.split res.split prod.split)
  show "keeps (same_agents s0) (stagingTrees w)" by (simp add: keeps_def stagingTrees_def)
qed

lemma agents_files: "keeps (same_agents s0) (durable_Rename w from to)" "keeps (same_agents s0) (durable_RemoveTree w p)" "keeps (same_agents s0) (remove_swap w)"
  "keeps (same_agents s0) (remove_activation w)" "keeps (same_agents s0) (remove_removal w)" "keeps (same_agents s0) (write_removal w x)"
  by (auto simp: keeps_def durable_Rename_def durable_RemoveTree_def remove_swap_def remove_activation_def remove_removal_def write_removal_def change_def moved_to_def
      Let_def split: option.splits fault.splits)

lemma keeps_cover: "(\<And>s0. keeps (same_agents s0) m) \<Longrightarrow> keeps (cover w D) m" "(\<And>s0. keeps (same_agents s0) m) \<Longrightarrow> keeps (covered_by w D ks) m"
proof -
  assume k: "\<And>s0. keeps (same_agents s0) m"
  have "same_agents s (snd (m s))" for s using k [of s] unfolding keeps_def by simp
  then show "keeps (cover w D) m" "keeps (covered_by w D ks) m" using cover_same unfolding keeps_def by blast+
qed

lemma agents_settle: "keeps (same_agents s0) (settleSwap w r)" "keeps (same_agents s0) (retireSwap w r)" "keeps (same_agents s0) (resumeDestroys w r)"
  "keeps (same_agents s0) (discardGenerations w)" "keeps (same_agents s0) (tombstone w p)"
proof -
  have l: "keeps (same_agents s0) (swap_landed w r)" unfolding swap_landed_def by (intro keeps_intros agents_reads)
  have s: "keeps (same_agents s0) (swap_second w r)" unfolding swap_second_def by (intro keeps_intros agents_reads agents_files l)
  have f: "keeps (same_agents s0) (swap_first w r p)" for p unfolding swap_first_def by (intro keeps_intros agents_reads agents_files s)
  show "keeps (same_agents s0) (settleSwap w r)" unfolding settleSwap_def by (intro keeps_intros agents_reads s f)
  have j: "keeps (same_agents s0) (joined ([remove_activation w, remove_removal w] @ (if sw_Prior r = None then [] else [durable_RemoveTree w (la_prior (lay w))])))"
    by (rule keeps_joined) (auto split: if_splits intro: agents_files)
  show "keeps (same_agents s0) (retireSwap w r)" unfolding retireSwap_def by (rule keeps_andThen [OF j agents_files(3)])
  show "keeps (same_agents s0) (resumeDestroys w r)" unfolding resumeDestroys_def by (intro keeps_intros agents_reads)
  show "keeps (same_agents s0) (discardGenerations w)" unfolding discardGenerations_def
    by (intro keeps_bnd agents_reads keeps_joined) (auto intro: agents_files)
  show "keeps (same_agents s0) (tombstone w p)" unfolding tombstone_def Let_def
    by (intro keeps_bnd keeps_option keeps_ret keeps_andThen joined_pair agents_reads agents_files)
qed

lemma quiesce_covered:
  assumes fit: "fit w D" and c: "cover w D s"
  shows "wp (quiesceAndConverge w as) (\<lambda>_ s'. covered_by w D (remdups_adj (sort (map ag_Label as))) s' \<and> ag_Label ` set as \<subseteq> ms_jobs s') (cover w D) s"
proof -
  have "wp (andThen (deploy_converge w as) (ret p)) (\<lambda>_ s'. covered_by w D (remdups_adj (sort (map ag_Label as))) s' \<and> ag_Label ` set as \<subseteq> ms_jobs s') (cover w D) u"
    if "cover w D u" for u p
    unfolding wp_andThen wp_ret by (rule wp_weaken [OF converge_covered [OF fit that]])
  then show ?thesis unfolding quiesceAndConverge_def wp_bnd by (intro wp_weaken [OF keepsD [OF keeps_cover(1) [OF agents_reads(4)] c]])
qed

lemma recover_covered:
  assumes "fit w D"
  shows "keeps (cover w D) (deploy_recover w)"
proof -
  have q: "keeps (cover w D) (quiesceAndConverge w [])" unfolding keeps_wp
    by (intro allI impI, rule wp_weaken [OF quiesce_covered [OF assms]]) (auto simp: covered_by_def)
  show ?thesis unfolding deploy_recover_def
    by (intro keeps_bnd keeps_option keeps_ret keeps_if keeps_throw keeps_andThen q keeps_cover(1) [OF agents_reads(3)] keeps_cover(1) [OF agents_settle(1)]
      keeps_cover(1) [OF agents_settle(2)] keeps_cover(1) [OF agents_settle(3)])
qed

subsection \<open>An uninstall leaves nothing\<close>

lemma remove_run:
  assumes "\<forall>p\<in>N. ms_disk s p = None"
  shows "wp (run_all (map (durable_RemoveTree w) ps)) (\<lambda>es s'. (es = [] \<longrightarrow> (\<forall>p\<in>N \<union> set ps. ms_disk s' p = None)) \<and> ms_stages s' = ms_stages s)
    (\<lambda>_. True) s"
  using assms
proof (induction ps arbitrary: s N)
  case (Cons q ps)
  obtain r s' where out: "durable_RemoveTree w q s = (r, s')" by fastforce
  have st: "ms_stages s' = ms_stages s" "\<forall>p\<in>N. ms_disk s' p = None" "r = Ret () \<longrightarrow> ms_disk s' q = None"
    using out Cons.prems by (auto simp: durable_RemoveTree_def Let_def split: option.splits fault.splits if_splits)
  have "wp (run_all (map (durable_RemoveTree w) ps)) (\<lambda>es s''. (es = [] \<longrightarrow> (\<forall>p\<in>(if r = Ret () then insert q N else N) \<union> set ps. ms_disk s'' p = None))
      \<and> ms_stages s'' = ms_stages s') (\<lambda>_. True) s'"
    by (rule Cons.IH) (use st in auto)
  then show ?case using out st(1)
    by (cases r) (auto simp: wp_bnd wp_ret wp_tried elim!: wp_weaken)
qed (simp add: wp_ret)

lemma wp_stagingTrees: "wp (stagingTrees w) Q E s = (if mc_unlisted w (ms_tick s) then E (tick s) else Q (staging s) (tick s))"
  by (simp add: wp_def stagingTrees_def)

lemma discard_ensures:
  "wp (discardGenerations w) (\<lambda>_ s'. (\<forall>p\<in>slot_paths w s'. p \<noteq> la_canonical (lay w) \<longrightarrow> ms_disk s' p = None)) (\<lambda>_. True) s"
proof -
  let ?ps = "filter (\<lambda>slot. slot \<noteq> la_canonical (lay w)) (generationSlots (lay w) (staging s))"
  let ?N = "{p \<in> set (ms_stages s). ms_disk s p = None}"
  have "wp (run_all (map (durable_RemoveTree w) ?ps)) (\<lambda>es s'. (es = [] \<longrightarrow> (\<forall>p\<in>?N \<union> set ?ps. ms_disk s' p = None)) \<and> ms_stages s' = ms_stages (tick s)) (\<lambda>_. True) (tick s)"
    by (rule remove_run) simp
  then have "wp (joined (map (durable_RemoveTree w) ?ps)) (\<lambda>_ s'. (\<forall>p\<in>?N \<union> set ?ps. ms_disk s' p = None) \<and> ms_stages s' = ms_stages s) (\<lambda>_. True) (tick s)"
    unfolding joined_def wp_bnd by (rule wp_weaken) (auto simp: wp_ret wp_throw)
  then have "wp (joined (map (durable_RemoveTree w) ?ps)) (\<lambda>_ s'. (\<forall>p\<in>slot_paths w s'. p \<noteq> la_canonical (lay w) \<longrightarrow> ms_disk s' p = None)) (\<lambda>_. True) (tick s)"
  proof (rule wp_weaken)
    fix x and u :: mstate
    assume u: "(\<forall>p\<in>?N \<union> set ?ps. ms_disk u p = None) \<and> ms_stages u = ms_stages s"
    show "\<forall>p\<in>slot_paths w u. p \<noteq> la_canonical (lay w) \<longrightarrow> ms_disk u p = None"
    proof (intro ballI impI)
      fix p
      assume p: "p \<in> slot_paths w u" "p \<noteq> la_canonical (lay w)"
      then have "p \<in> ?N \<union> set ?ps" using u by (auto simp: slot_paths_def generationSlots_def staging_def)
      then show "ms_disk u p = None" using u by blast
    qed
  qed simp
  then show ?thesis unfolding discardGenerations_def wp_bnd by (simp add: wp_stagingTrees)
qed

lemma uninstall_ensures:
  assumes cfg: "configured w" and fit: "fit w D" and i: "idle w s" and c: "cover w D s"
  shows "wp (uninstall_from w) (\<lambda>_ s'. idle w s' \<and> covered_by w D [] s' \<and> (\<forall>p\<in>slot_paths w s'. ms_disk s' p = None)) (\<lambda>_. True) s"
proof -
  let ?I = "\<lambda>s. idle w s \<and> covered_by w D [] s"
  let ?Q = "\<lambda>_ s'. idle w s' \<and> covered_by w D [] s' \<and> (\<forall>p\<in>slot_paths w s'. ms_disk s' p = None)"
  note kc = keeps_conj [OF _ keeps_cover(2)]
  have dk: "keeps ?I (discardGenerations w)" by (rule kc [OF idle_discard agents_settle(4)])
  have fin: "wp (andThen (discardGenerations w) (bnd (fileExists (la_canonical (lay w))) (\<lambda>returned. if returned then throw [ErrConflict] else ret x))) ?Q (\<lambda>_. True) u"
    if "?I u" for u :: mstate and x :: "Generation \<times> RuntimeProof"
    unfolding wp_andThen
    by (rule wp_weaken [OF wp_conj [OF keepsD [OF dk that] discard_ensures]]) (auto simp: wp_fileExists_bnd wp_throw wp_ret)
  let ?move = "\<lambda>r installed. if \<not> installed then ret () else bnd (fileExists (la_removed (lay w))) (\<lambda>occupied.
            if occupied then throw [ErrConflict]
            else andThen (attest w (re_Generation r)) (durable_Rename w (la_canonical (lay w)) (la_removed (lay w))))"
  have mv: "keeps ?I (?move r b)" for r b
    by (intro keeps_intros kc [OF at_rest.reads(4) agents_reads(2)] kc [OF idle_Rename agents_files(1)])
  let ?fin = "\<lambda>r p. andThen (discardGenerations w) (bnd (fileExists (la_canonical (lay w))) (\<lambda>returned.
            if returned then throw [ErrConflict] else ret (re_Generation r, p :: RuntimeProof)))"
  have go: "wp (bnd (fileExists (la_canonical (lay w))) (\<lambda>installed. andThen (?move r installed) (?fin r p))) ?Q (\<lambda>_. True) u" if "?I u" for u r p
    unfolding wp_fileExists_bnd wp_andThen [where m = "?move r b" for b] by (rule wp_weaken [OF keepsD [OF mv that]], erule fin) simp
  have gate: "wp (andThen (require_empty w) (bnd (fileExists (la_canonical (lay w))) (\<lambda>installed. andThen (?move r installed) (?fin r p)))) ?Q (\<lambda>_. True) u"
    if "?I u" for u r p
    unfolding wp_andThen [where m = "require_empty w"]
    by (rule wp_weaken [OF keepsD [OF kc [OF at_rest.gates(2) agents_reads(5)] that]], erule go) simp
  have tomb: "wp (bnd (tombstone w p) (\<lambda>r. andThen (require_empty w) (bnd (fileExists (la_canonical (lay w))) (\<lambda>installed. andThen (?move r installed) (?fin r p)))))
      ?Q (\<lambda>_. True) u" if "?I u" for u p
    unfolding wp_bnd [where m = "tombstone w p"]
    by (rule wp_weaken [OF keepsD [OF kc [OF idle_tombstone agents_settle(5)] that]], erule gate) simp
  have q: "wp (quiesceAndConverge w []) (\<lambda>_. ?I) (\<lambda>_. True) s"
    by (rule wp_weaken [OF wp_conj [OF keepsD [OF at_rest.converging(2) i] quiesce_covered [OF fit c]]]) auto
  show ?thesis unfolding uninstall_from_def wp_bnd [where m = "quiesceAndConverge w []"]
    by (rule wp_weaken [OF q], erule tomb) simp
qed

lemma uninstall_wp:
  assumes cfg: "configured w" and fit: "fit w D" and i: "deploy_inv w s" and c: "cover w D s"
  shows "wp (Uninstall w) (\<lambda>_ s'. idle w s' \<and> covered_by w D [] s' \<and> (\<forall>p\<in>slot_paths w s'. ms_disk s' p = None)) (\<lambda>_. True) s"
proof -
  have r: "wp (deploy_recover w) (\<lambda>_ s'. idle w s' \<and> cover w D s') (\<lambda>_. True) u" if "deploy_inv w u \<and> cover w D u" for u
    by (rule wp_weaken [OF wp_conj [OF recover_wp [OF cfg] keepsD [OF recover_covered [OF fit]]]]) (use that in \<open>auto simp: idle_def\<close>)
  have h: "keeps (\<lambda>s. deploy_inv w s \<and> cover w D s) (deploy_hold w)" by (intro keeps_conj kept.reads keeps_cover agents_reads)
  have "wp (andThen (deploy_recover w) (uninstall_from w)) (\<lambda>_ s'. idle w s' \<and> covered_by w D [] s' \<and> (\<forall>p\<in>slot_paths w s'. ms_disk s' p = None)) (\<lambda>_. True) u"
    if "deploy_inv w u \<and> cover w D u" for u
    unfolding wp_andThen by (rule wp_weaken [OF r [OF that]], rule uninstall_ensures [OF cfg fit]) auto
  then show ?thesis unfolding Uninstall_unfold wp_andThen [where m = "deploy_hold w"]
    by (intro wp_weaken [OF keepsD [OF h]]) (use i c in auto)
qed

text \<open>
  C33: no loaded job is forgotten. Take any labels that only this deployment starts, all their loaded jobs on record with
  their files in place. Wherever a convergence of services fails or crashes, that is still so; and when it returns, launchd holds
  every agent asked for and of those labels no other, and the record is the sorted list of exactly the agents asked for.
\<close>

theorem converge_exact:
  assumes "fit w D" "cover w D s" "deploy_converge w as s = (out, s')"
  shows "cover w D s' \<and> (out = Ret () \<longrightarrow> ms_services s' = (if as = [] then None else Some (Stored (remdups_adj (sort (map ag_Label as)))))
    \<and> ag_Label ` set as \<subseteq> ms_jobs s' \<and> ms_jobs s' \<inter> D \<subseteq> ag_Label ` set as)"
proof -
  let ?d = "remdups_adj (sort (map ag_Label as))"
  have "set ?d = ag_Label ` set as" by simp
  then have d: "set ?d = ag_Label ` set as" "?d = [] \<longleftrightarrow> as = []" by (simp, metis image_is_empty set_empty)
  have o: "case out of Ret x \<Rightarrow> covered_by w D ?d s' \<and> ag_Label ` set as \<subseteq> ms_jobs s' | _ \<Rightarrow> cover w D s'"
    using converge_covered [OF assms(1,2), of as] assms(3) by (simp add: wp_def split: res.splits)
  have "ms_jobs s' \<inter> D \<subseteq> ag_Label ` set as" if c: "covered_by w D ?d s'"
  proof -
    have "ms_jobs s' \<inter> D \<subseteq> recorded_labels s'" using c by (auto simp: covered_by_def cover_def)
    then show ?thesis using covered_labels [OF c] d(1) by simp
  qed
  then show ?thesis using o d(2) by (cases out) (simp_all add: covered_by_def)
qed

text \<open>
  C34: an uninstall that returns leaves nothing behind. Every slot a generation can be in is empty, no swap is outstanding, no
  service is on record, and launchd holds no job of a label that was the deployment's.
\<close>

theorem uninstall_empties:
  assumes "configured w" "fit w D" "deploy_inv w s" "cover w D s" "Uninstall w s = (Ret x, s')"
  shows "(\<forall>p\<in>slot_paths w s'. ms_disk s' p = None) \<and> ms_swap s' = None \<and> ms_services s' = None \<and> ms_jobs s' \<inter> D = {}"
  using uninstall_wp [OF assms(1-4)] assms(5) covered_labels [of w D "[]" s']
  by (auto simp: wp_def idle_def covered_by_def cover_def)

subsection \<open>Concrete runs\<close>

lemma calm_fit: "fit calm_machine {''a''}"
proof -
  have "label_Validate ''a''" by code_simp
  then show ?thesis using calm_lawful by (simp add: fit_def calm_machine_def)
qed

lemma calm_apply_any:
  assumes "ms_plists s = Map.empty" "ms_jobs s = {}"
  shows "\<exists>s'. launchd_Apply calm_machine plain_agent s = (Ret (), s')"
proof -
  obtain body where b: "Plist plain_agent = Some body" using plain_plist by auto
  have p: "programPath plain_agent = Some ''/d''" by code_simp
  have c: "canonical_agent plain_agent = plain_agent" by (simp add: canonical_agent_def plain_agent_def)
  have m: "mc_fault calm_machine t = Calm" "mc_unread calm_machine t = False" "mc_program calm_machine t q = ProgramReady"
      "mc_launchctl calm_machine = calm_launchctl" for t q by (simp_all add: calm_machine_def)
  show ?thesis by (simp add: apply_eval b p c m assms calm_path numeral_eq_Suc Let_def)
qed

theorem converge_exact_witness:
  "\<exists>s'. deploy_converge calm_machine [plain_agent] bare_state = (Ret (), s') \<and> ms_services s' = Some (Stored [''a'']) \<and> ''a'' \<in> ms_jobs s'"
proof -
  have c: "cover calm_machine {''a''} bare_state" by (simp add: cover_def backed_def bare_state_def)
  let ?s = "(tick (tick bare_state))\<lparr>ms_services := Some (Stored [''a''])\<rparr>"
  obtain u where u: "launchd_Apply calm_machine plain_agent ?s = (Ret (), u)" using calm_apply_any [of ?s] by (auto simp: bare_state_def)
  have a: "appliedServices calm_machine bare_state = (Ret [], tick bare_state)"
    by (simp add: appliedServices_def readRecord_def bnd_def ret_def) (simp add: calm_machine_def bare_state_def)
  have r: "recordServices calm_machine [''a''] s = (Ret (), (tick s)\<lparr>ms_services := Some (Stored [''a''])\<rparr>)" for s
    by (simp add: recordServices_def write_services_def change_def) (simp add: calm_machine_def)
  have l: "ag_Label plain_agent = ''a''" by (simp add: plain_agent_def)
  have "\<exists>s'. deploy_converge calm_machine [plain_agent] bare_state = (Ret (), s')"
    using u by (simp add: deploy_converge_def Let_def bnd_def andThen_def a r l ret_def)
  then obtain s' where s': "deploy_converge calm_machine [plain_agent] bare_state = (Ret (), s')" by blast
  from converge_exact [OF calm_fit c this] s' show ?thesis by (auto simp: plain_agent_def)
qed

lemma uninstall_returns: "wp (Uninstall calm_machine) (\<lambda>_ _. True) (\<lambda>_. False) installed_state"
proof -
  let ?w = calm_machine and ?k = "''/A/B.app''" and ?g = "generation_of calm_machine ''/A/B.app'' (sample_tree ''1'')"
  let ?I = "\<lambda>s. ms_disk s = ms_disk installed_state \<and> ms_stages s = [] \<and> ms_services s = None \<and> ms_removal s = None"
  have lay: "la_canonical (lay ?w) = ?k" "la_removed (lay ?w) = ''/A/.daemonkit-deploy/B/removed.app''" using calm_layout idle_paths by simp_all
  have m: "mc_fault ?w t = Calm" "mc_unread ?w t = False" "mc_metadata ?w t = None" "mc_lock ?w t = None" "mc_unlisted ?w t = False" for t
    by (simp_all add: calm_machine_def)
  have app: "validAppPath ?k" by code_simp
  have b: "bare_trees s" if "ms_disk s = ms_disk installed_state" "ms_stages s = []" for s
    using that by (auto simp: bare_trees_def installed_state_def bare_state_def split: if_splits)
  have g: "gen_node ?w ?k (ms_disk s ?k) ?g" if "ms_disk s = ms_disk installed_state" for s
    using that sample_gen [of ?k "''1''"] by (simp add: installed_state_def)
  have gp: "ge_Path ?g = ?k" by (simp add: generation_of_def)
  have fin: "wp (andThen (discardGenerations ?w) (bnd (fileExists ?k) (\<lambda>returned. if returned then throw [ErrConflict] else ret x))) (\<lambda>_ _. True) (\<lambda>_. False) s"
    if "ms_disk s ?k = None" for s x
  proof -
    have j: "wp (joined (map (durable_RemoveTree ?w) ps)) (\<lambda>_ s'. ms_disk s' ?k = None) (\<lambda>_. False) u" if "ms_disk u ?k = None" for ps u
      using that
    proof (induction ps arbitrary: u)
      case (Cons p ps)
      show ?case unfolding list.map by (rule joined_calm, rule wp_weaken [OF RemoveTree_calm [OF calm_is_calm]]) (use Cons in auto)
    qed (simp add: joined_nil wp_ret)
    show ?thesis unfolding wp_andThen discardGenerations_def wp_bnd [where m = "stagingTrees ?w"] wp_stagingTrees
      using m that by (simp, intro wp_weaken [OF j]) (auto simp: wp_fileExists_bnd wp_ret)
  qed
  have mv: "wp (andThen (attest ?w ?g) (durable_Rename ?w ?k ''/A/.daemonkit-deploy/B/removed.app'')) (\<lambda>_ s'. ms_disk s' ?k = None) (\<lambda>_. False) s"
    if "ms_disk s = ms_disk installed_state" for s
    unfolding wp_andThen
    by (rule attest_calm [OF calm_is_calm], unfold gp, rule app, rule g [OF that], rule Rename_calm [OF calm_is_calm])
      (use that in \<open>auto simp: installed_state_def bare_state_def\<close>)
  have tomb: "wp (tombstone ?w p) (\<lambda>r s'. re_Generation r = ?g \<and> ms_disk s' = ms_disk installed_state \<and> ms_stages s' = []) (\<lambda>_. False) s" if "?I s" for s p
  proof -
    have j: "wp (joined [remove_activation ?w, write_removal ?w r]) (\<lambda>_ s'. ms_disk s' = ms_disk u \<and> ms_stages s' = ms_stages u) (\<lambda>_. False) u" for r u
      by (rule joined_calm) (auto simp: wp_def remove_activation_def write_removal_def change_def m joined_def bnd_def tried_def ret_def)
    have rd: "readRecord ?w ms_removal removal_validate s = (Ret None, tick s)" using that m by (simp add: readRecord_def)
    have "wp (deploy_inspect ?w ?k) (\<lambda>generation. wp (let r = removal_record generation p in andThen (joined [remove_activation ?w, write_removal ?w r]) (ret r))
        (\<lambda>r s'. re_Generation r = ?g \<and> ms_disk s' = ms_disk installed_state \<and> ms_stages s' = []) (\<lambda>_. False)) (\<lambda>_. False) (tick s)"
      by (rule inspect_calm [OF calm_is_calm app g])
        (use that in \<open>auto simp: Let_def wp_andThen wp_ret removal_record_def intro!: wp_weaken [OF j]\<close>)
    then show ?thesis unfolding tombstone_def wp_bnd [where m = "readRecord w f v" for w f v] lay
      by (simp add: wp_def [of "readRecord ?w ms_removal removal_validate"] rd wp_bnd)
  qed
  let ?rest = "\<lambda>r (p :: RuntimeProof). bnd (fileExists (la_canonical (lay ?w))) (\<lambda>installed.
        andThen (if \<not> installed then ret () else bnd (fileExists (la_removed (lay ?w))) (\<lambda>occupied.
            if occupied then throw [ErrConflict]
            else andThen (attest ?w (re_Generation r)) (durable_Rename ?w (la_canonical (lay ?w)) (la_removed (lay ?w)))))
          (andThen (discardGenerations ?w) (bnd (fileExists (la_canonical (lay ?w))) (\<lambda>returned.
            if returned then throw [ErrConflict] else ret (re_Generation r, p)))))"
  have rest: "wp (andThen (require_empty ?w) (?rest r p)) (\<lambda>_ _. True) (\<lambda>_. False) s"
    if s: "re_Generation r = ?g \<and> ms_disk s = ms_disk installed_state \<and> ms_stages s = []" for r p s
  proof -
    let ?u = "gate_logged (ms_tick s + 8) s"
    have d: "ms_disk ?u = ms_disk installed_state" using s by simp
    have there: "ms_disk ?u ?k \<noteq> None" "ms_disk ?u ''/A/.daemonkit-deploy/B/removed.app'' = None"
      unfolding d by (simp_all add: installed_state_def bare_state_def)
    have "wp (?rest r p) (\<lambda>_ _. True) (\<lambda>_. False) ?u"
      unfolding lay wp_fileExists_bnd wp_andThen [where m = "if b then m else n" for b m n] using there s
      by (simp only: wp_fileExists_bnd if_False if_True not_not simp_thms) (rule wp_weaken [OF mv [OF d]], erule fin, simp)
    then show ?thesis using calm_gate(1) [OF b] s by (simp add: wp_andThen wp_def [of "require_empty ?w"])
  qed
  have "wp (bnd (tombstone ?w p) (\<lambda>r. andThen (require_empty ?w) (?rest r p))) (\<lambda>_ _. True) (\<lambda>_. False) s" if "?I s" for s p
    unfolding wp_bnd [where m = "tombstone ?w p"] by (rule wp_weaken [OF tomb [OF that]], erule rest) simp
  then have "wp (uninstall_from ?w) (\<lambda>_ _. True) (\<lambda>_. False) s" if "?I s" for s
  proof -
    obtain p t where q: "quiesceAndConverge ?w [] s = (Ret p, at_tick t (gate_logged (ms_tick s + 17) s))" using calm_quiesce b \<open>?I s\<close> by blast
    have "?I (at_tick t (gate_logged (ms_tick s + 17) s))" using \<open>?I s\<close> by (simp add: at_tick_def gate_logged_def)
    then show ?thesis using \<open>\<And>s p. ?I s \<Longrightarrow> wp (bnd (tombstone ?w p) (\<lambda>r. andThen (require_empty ?w) (?rest r p))) (\<lambda>_ _. True) (\<lambda>_. False) s\<close> q
      unfolding uninstall_from_def wp_bnd [where m = "quiesceAndConverge ?w []"] by (simp add: wp_def [of "quiesceAndConverge ?w []"])
  qed
  moreover have "deploy_hold ?w s = (Ret (), tick (tick s))" for s
    using m by (simp add: deploy_hold_def andThen_def bnd_def ensureMetadata_def)
  moreover have "deploy_recover ?w s = (Ret (), tick s)" if "ms_swap s = None" for s
    using m that by (simp add: deploy_recover_def bnd_def readRecord_def ret_def)
  moreover have "?I (tick (tick (tick installed_state)))" "ms_swap (tick (tick installed_state)) = None" by (simp_all add: installed_state_def bare_state_def)
  ultimately show ?thesis unfolding Uninstall_unfold wp_andThen by (simp add: wp_def [of "deploy_hold ?w"] wp_def [of "deploy_recover ?w"])
qed

theorem uninstall_empties_witness:
  "\<exists>x s'. Uninstall calm_machine installed_state = (Ret x, s') \<and> ms_disk s' ''/A/B.app'' = None \<and> ''a'' \<notin> ms_jobs s'"
proof -
  obtain x s' where o: "Uninstall calm_machine installed_state = (Ret x, s')"
    using uninstall_returns by (auto simp: wp_def split: prod.splits res.splits)
  have "deploy_inv calm_machine installed_state" "cover calm_machine {''a''} installed_state"
    using installed_ok by (simp add: deploy_inv_def) (simp add: cover_def backed_def installed_state_def bare_state_def)
  from uninstall_empties [OF calm_configured calm_fit this o] have "ms_disk s' (la_canonical (lay calm_machine)) = None" "''a'' \<notin> ms_jobs s'" by auto
  then show ?thesis using o calm_layout idle_paths(1) by auto
qed

end
