(* ===== verification/Artifact.thy ===== *)
theory Artifact
  imports Names Version DeployRecord
begin

text \<open>
  Artifact descriptors and containment: \<^verbatim>\<open>artifact/descriptor.go\<close>, \<^verbatim>\<open>artifact/errors.go\<close>, and \<open>safeJoin\<close>, \<open>within\<close>, \<open>archiveBudget\<close>
  and \<open>decompressionBudget\<close> of \<^verbatim>\<open>artifact/archive.go\<close>, \<^verbatim>\<open>artifact/cache.go\<close> and \<^verbatim>\<open>artifact/releasebinary.go\<close>. A string type with
  named constants is a datatype with one more constructor for the other strings. A map read from a document is the list of
  its bindings in the order a range visits them. The document decoders are parameters.
\<close>

subsection \<open>Data\<close>

datatype Kind = ReleaseBinary | PythonTool | SignedApp | OtherKind string

datatype Format = Raw | TarGz | Zip | OtherFormat string

datatype ProviderType = GitHubRelease | OtherProvider string

record VersionSource =
  vs_Static :: string
  vs_Command :: "string list"
  vs_File :: string
  vs_PlistKey :: string
  vs_JSONField :: string

record Provider =
  pv_Type :: ProviderType
  pv_Repo :: string
  pv_Tag :: string
  pv_Name :: string

record PlatformEntry =
  pe_Size :: int
  pe_Hash :: string
  pe_Digest :: string
  pe_Format :: Format
  pe_Path :: string
  pe_Providers :: "Provider list"

record ToolSpec =
  ts_Dist :: string
  ts_Entrypoint :: string

record AppSpec =
  as_Dir :: string
  as_AppName :: string
  as_Exec :: string
  as_Cask :: string
  as_Formula :: string
  as_MinVersion :: string
  as_CopyExec :: bool

record Descriptor =
  de_Schema :: int
  de_Name :: string
  de_Kind :: Kind
  de_Version :: VersionSource
  de_Platforms :: "(string \<times> PlatformEntry) list"
  de_Tool :: "ToolSpec option"
  de_App :: "AppSpec option"

record ManualUpgradeError =
  mu_Name :: string
  mu_Cask :: string
  mu_Formula :: string
  mu_Want :: string
  mu_Got :: string
  mu_AtLeast :: bool

datatype aerr =
    ErrSchemaVersion | ErrInvalidDescriptor | ErrDynamicIntegrity | ErrUnsupportedPlatform | ErrDownload
  | ErrChecksumMismatch | ErrSizeMismatch | ErrUnsupportedFormat | ErrUnsafeArchive | ErrManualUpgrade ManualUpgradeError
  | ErrEntrypointChanged | ArtifactOther

definition upgradeCommand :: "ManualUpgradeError \<Rightarrow> string" where
  "upgradeCommand e = (if mu_Formula e \<noteq> [] then ''brew upgrade '' @ mu_Formula e else ''brew upgrade --cask '' @ mu_Cask e)"

subsection \<open>Descriptors (descriptor.go)\<close>

definition Dynamic :: "VersionSource \<Rightarrow> bool" where
  "Dynamic v \<longleftrightarrow> length (vs_Command v) > 0 \<or> vs_File v \<noteq> []"

definition CurrentPlatform :: "string \<Rightarrow> string \<Rightarrow> aerr + string" where
  "CurrentPlatform goos goarch =
    bindE (if goos = ''darwin'' then Inr ''macos'' else if goos = ''linux'' then Inr ''linux''
      else if goos = ''windows'' then Inr ''windows'' else Inl ErrUnsupportedPlatform) (\<lambda>name.
    if goarch = ''arm64'' then Inr (name @ ''-aarch64'') else if goarch = ''amd64'' then Inr (name @ ''-x86_64'')
    else Inl ErrUnsupportedPlatform)"

definition homeRelative :: "string \<Rightarrow> bool" where "homeRelative p \<longleftrightarrow> has_prefix ''~/'' p"

definition isLowerHex :: "string \<Rightarrow> bool" where
  "isLowerHex s \<longleftrightarrow> list_all (\<lambda>c. (CHR ''0'' \<le> c \<and> c \<le> CHR ''9'') \<or> (CHR ''a'' \<le> c \<and> c \<le> CHR ''f'')) s"

definition provider_validate :: "Provider \<Rightarrow> aerr option" where
  "provider_validate p =
    (if pv_Type p \<noteq> GitHubRelease then Some ErrInvalidDescriptor
     else if pv_Repo p = [] \<or> pv_Tag p = [] \<or> pv_Name p = [] then Some ErrInvalidDescriptor
     else None)"

text \<open>The first error a range over a list meets.\<close>

primrec first_error :: "('a \<Rightarrow> aerr option) \<Rightarrow> 'a list \<Rightarrow> aerr option" where
  "first_error f [] = None"
| "first_error f (x # xs) = (case f x of Some e \<Rightarrow> Some e | None \<Rightarrow> first_error f xs)"

definition entry_validate :: "bool \<Rightarrow> PlatformEntry \<Rightarrow> aerr option" where
  "entry_validate template e =
    (if pe_Providers e = [] then Some ErrInvalidDescriptor
     else case first_error provider_validate (pe_Providers e) of
       Some err \<Rightarrow> Some err
     | None \<Rightarrow>
         if pe_Path e = [] then Some ErrInvalidDescriptor
         else if template then None
         else if pe_Hash e \<noteq> ''sha256'' then Some ErrInvalidDescriptor
         else if length (pe_Digest e) \<noteq> 64 \<or> \<not> isLowerHex (pe_Digest e) then Some ErrInvalidDescriptor
         else if pe_Size e \<le> 0 then Some ErrInvalidDescriptor
         else None)"

definition version_validate :: "VersionSource \<Rightarrow> aerr option" where
  "version_validate v =
    (let sources = length (filter (\<lambda>set. set) [vs_Static v \<noteq> [], length (vs_Command v) > 0, vs_File v \<noteq> []]) in
     if sources = 0 then Some ErrInvalidDescriptor
     else if sources > 1 then Some ErrInvalidDescriptor
     else if length (vs_Command v) > 0 \<and> vs_JSONField v = [] then Some ErrInvalidDescriptor
     else if length (vs_Command v) > 0 \<and> vs_PlistKey v \<noteq> [] then Some ErrInvalidDescriptor
     else if vs_File v \<noteq> [] \<and> (vs_PlistKey v = []) = (vs_JSONField v = []) then Some ErrInvalidDescriptor
     else if vs_File v \<noteq> [] \<and> \<not> homeRelative (vs_File v) \<and> \<not> IsAbs (vs_File v) then Some ErrInvalidDescriptor
     else None)"

definition release_validate :: "Descriptor \<Rightarrow> aerr option" where
  "release_validate d =
    (if Dynamic (de_Version d) then Some ErrDynamicIntegrity
     else if length (de_Platforms d) = 0 then Some ErrInvalidDescriptor
     else first_error (\<lambda>(p, e). entry_validate False e) (de_Platforms d))"

definition is_release :: "Version \<Rightarrow> bool" where
  "is_release v \<longleftrightarrow> (case v of Release a b c \<Rightarrow> True | _ \<Rightarrow> False)"

definition signed_validate :: "Descriptor \<Rightarrow> aerr option" where
  "signed_validate d = (case de_App d of
      None \<Rightarrow> Some ErrInvalidDescriptor
    | Some a \<Rightarrow>
        if as_Dir a = [] \<or> as_AppName a = [] then Some ErrInvalidDescriptor
        else if (as_Cask a = []) = (as_Formula a = []) then Some ErrInvalidDescriptor
        else if as_MinVersion a \<noteq> [] \<and> \<not> Dynamic (de_Version d) then Some ErrInvalidDescriptor
        else if as_MinVersion a \<noteq> [] \<and> \<not> is_release (Parse (as_MinVersion a)) then Some ErrInvalidDescriptor
        else first_error (\<lambda>(p, e). entry_validate (Dynamic (de_Version d)) e) (de_Platforms d))"

definition descriptor_Validate :: "Descriptor \<Rightarrow> aerr option" where
  "descriptor_Validate d =
    (if de_Schema d \<noteq> 1 then Some ErrSchemaVersion
     else if de_Name d = [] then Some ErrInvalidDescriptor
     else case version_validate (de_Version d) of
       Some e \<Rightarrow> Some e
     | None \<Rightarrow>
         (case de_Kind d of
            ReleaseBinary \<Rightarrow> release_validate d
          | PythonTool \<Rightarrow> (case de_Tool d of None \<Rightarrow> Some ErrInvalidDescriptor
              | Some t \<Rightarrow> if ts_Dist t = [] then Some ErrInvalidDescriptor else None)
          | SignedApp \<Rightarrow> signed_validate d
          | OtherKind k \<Rightarrow> Some ErrInvalidDescriptor))"

definition shebang_stripped :: "string \<Rightarrow> string" where
  "shebang_stripped body = (if has_prefix ''#!'' body then drop 1 (dropWhile (\<lambda>c. c \<noteq> CHR 0x0A) body) else body)"

definition descriptor_Parse :: "(string \<Rightarrow> Descriptor option) \<Rightarrow> string \<Rightarrow> aerr + Descriptor" where
  "descriptor_Parse unmarshal body = (case unmarshal (shebang_stripped body) of
      None \<Rightarrow> Inl ErrInvalidDescriptor
    | Some d \<Rightarrow> (case descriptor_Validate d of Some e \<Rightarrow> Inl e | None \<Rightarrow> Inr d))"

subsection \<open>Versions from the host\<close>

definition expandHome :: "string option \<Rightarrow> string \<Rightarrow> aerr + string" where
  "expandHome home p =
    (if \<not> homeRelative p then Inr p
     else case home of None \<Rightarrow> Inl ArtifactOther | Some h \<Rightarrow> Inr (Join [h, drop 2 p]))"

text \<open>\<open>obj\<close> decodes an object to its members, \<open>str\<close> a member to a string.\<close>

definition versionFromJSON ::
    "('doc \<Rightarrow> (string \<rightharpoonup> 'raw) option) \<Rightarrow> ('raw \<Rightarrow> string option) \<Rightarrow> VersionSource \<Rightarrow> 'doc \<Rightarrow> aerr + string" where
  "versionFromJSON obj str v data = (case obj data of
      None \<Rightarrow> Inl ArtifactOther
    | Some m \<Rightarrow> (case m (vs_JSONField v) of
        None \<Rightarrow> Inl ArtifactOther
      | Some raw \<Rightarrow> (case str raw of
          None \<Rightarrow> Inl ArtifactOther
        | Some version \<Rightarrow> if version = [] then Inl ArtifactOther else Inr version)))"

text \<open>
  What the host answers: its home, a property list as its values, the strings among them as such, a file, a command that ran
  to its end within its time.
\<close>

record 'doc host =
  ho_home :: "string option"
  ho_plist :: "string \<Rightarrow> (string \<rightharpoonup> string option) option"
  ho_read :: "string \<Rightarrow> 'doc option"
  ho_run :: "string list \<Rightarrow> 'doc option"

definition StringValue :: "'doc host \<Rightarrow> string \<Rightarrow> string \<Rightarrow> aerr + string" where
  "StringValue h path key = (case ho_plist h path of
      None \<Rightarrow> Inl ArtifactOther
    | Some values \<Rightarrow> (case values key of
        None \<Rightarrow> Inl ArtifactOther
      | Some None \<Rightarrow> Inl ArtifactOther
      | Some (Some value) \<Rightarrow> if value = [] then Inl ArtifactOther else Inr value))"

definition ShortVersion :: "'doc host \<Rightarrow> string \<Rightarrow> aerr + string" where
  "ShortVersion h appPath = StringValue h (Join [appPath, ''Contents'', ''Info.plist'']) ''CFBundleShortVersionString''"

definition resolveFile ::
    "('doc \<Rightarrow> (string \<rightharpoonup> 'raw) option) \<Rightarrow> ('raw \<Rightarrow> string option) \<Rightarrow> 'doc host \<Rightarrow> VersionSource \<Rightarrow> aerr + string" where
  "resolveFile obj str h v = bindE (expandHome (ho_home h) (vs_File v)) (\<lambda>path.
    if vs_PlistKey v \<noteq> [] then StringValue h path (vs_PlistKey v)
    else (case ho_read h path of None \<Rightarrow> Inl ArtifactOther | Some data \<Rightarrow> versionFromJSON obj str v data))"

definition resolveCommand ::
    "('doc \<Rightarrow> (string \<rightharpoonup> 'raw) option) \<Rightarrow> ('raw \<Rightarrow> string option) \<Rightarrow> 'doc host \<Rightarrow> VersionSource \<Rightarrow> aerr + string" where
  "resolveCommand obj str h v = (case ho_run h (vs_Command v) of
      None \<Rightarrow> Inl ArtifactOther
    | Some out \<Rightarrow> versionFromJSON obj str v out)"

definition ResolveVersion ::
    "('doc \<Rightarrow> (string \<rightharpoonup> 'raw) option) \<Rightarrow> ('raw \<Rightarrow> string option) \<Rightarrow> 'doc host \<Rightarrow> Descriptor \<Rightarrow> aerr + string" where
  "ResolveVersion obj str h d = (let v = de_Version d in
     if vs_File v \<noteq> [] then resolveFile obj str h v
     else if length (vs_Command v) > 0 then resolveCommand obj str h v
     else Inr (vs_Static v))"

subsection \<open>Containment (archive.go, cache.go)\<close>

text \<open>
  \<open>filepath.Rel\<close> on clean paths, element by element: an error when one path is absolute and the other not, or when going up
  would pass a \<open>..\<close> of the base.
\<close>

definition path_elems :: "string \<Rightarrow> string list" where
  "path_elems p = (if p = ''/'' then [] else elems (if IsAbs p then tl p else p))"

fun strip_common :: "string list \<Rightarrow> string list \<Rightarrow> string list \<times> string list" where
  "strip_common (b # bs) (t # ts) = (if b = t then strip_common bs ts else (b # bs, t # ts))"
| "strip_common bs ts = (bs, ts)"

definition Rel :: "string \<Rightarrow> string \<Rightarrow> string option" where
  "Rel basepath targpath =
    (let bp = Clean basepath; targ = Clean targpath in
     if bp = targ then Some ''.''
     else if IsAbs bp \<noteq> IsAbs targ then None
     else case strip_common (if bp = ''.'' then [] else path_elems bp) (path_elems targ) of
       (bs, ts) \<Rightarrow>
         if bs \<noteq> [] \<and> ts \<noteq> [] \<and> hd bs = ''..'' then None
         else Some (join (map (\<lambda>_. ''..'') bs @ ts)))"

definition climbs :: "string \<Rightarrow> bool" where
  "climbs rel \<longleftrightarrow> rel = ''..'' \<or> has_prefix ''../'' rel"

definition safeJoin :: "string \<Rightarrow> string \<Rightarrow> aerr + string" where
  "safeJoin dest name =
    (let target = Join [dest, name] in
     case Rel dest target of
       None \<Rightarrow> Inl ErrUnsafeArchive
     | Some rel \<Rightarrow> if climbs rel then Inl ErrUnsafeArchive else Inr target)"

definition within_root :: "string \<Rightarrow> string \<Rightarrow> bool" where
  "within_root store dir \<longleftrightarrow> (case Rel store dir of None \<Rightarrow> False | Some rel \<Rightarrow> \<not> (rel = ''.'' \<or> climbs rel))"

subsection \<open>Budgets (archive.go, releasebinary.go)\<close>

text \<open>\<open>int64\<close> arithmetic wraps.\<close>

definition wrap64 :: "int \<Rightarrow> int" where "wrap64 n = signed_take_bit 63 n"

definition maxArchiveEntries :: nat where "maxArchiveEntries = 1024"

record archiveBudget =
  ab_remaining :: int
  ab_declared :: int
  ab_entries :: nat
  ab_maxBytes :: int

definition admit :: "archiveBudget \<Rightarrow> int \<Rightarrow> aerr + archiveBudget" where
  "admit b declaredSize =
    (let b = b\<lparr>ab_entries := ab_entries b + 1\<rparr> in
     if ab_entries b > maxArchiveEntries then Inl ErrUnsafeArchive
     else if declaredSize < 0 then Inl ErrUnsafeArchive
     else if declaredSize > ab_maxBytes b then Inl ErrUnsafeArchive
     else let b = b\<lparr>ab_declared := wrap64 (ab_declared b + declaredSize)\<rparr> in
       if ab_declared b > ab_maxBytes b then Inl ErrUnsafeArchive else Inr b)"

definition minDecompressionBudget :: int where "minDecompressionBudget = 67108864"

definition maxDecompressionBudget :: int where "maxDecompressionBudget = 4294967296"

definition decompressionBudget :: "int \<Rightarrow> int" where
  "decompressionBudget sz =
    (let budget = wrap64 (sz * 200) in
     if budget < minDecompressionBudget then minDecompressionBudget
     else if budget > maxDecompressionBudget then maxDecompressionBudget
     else budget)"

subsection \<open>Containment\<close>

lemma path_elems_rooted:
  assumes "list_all component es"
  shows "path_elems (rooted_path es) = es"
proof (cases "es = []")
  case True
  then show ?thesis by (simp add: path_elems_def rooted_path_def)
next
  case False
  have "list_all (\<lambda>e. CHR ''/'' \<notin> set e) es" using assms by (auto simp: list_all_iff component_def)
  moreover have "join es \<noteq> []" using False assms by (cases es rule: join.cases) (auto simp: component_def)
  ultimately show ?thesis using False elems_join [of es] by (simp add: path_elems_def rooted_path_def IsAbs_def)
qed

lemma strip_common_prefix: "strip_common bs ts = ([], us) \<Longrightarrow> ts = bs @ us"
  by (induction bs ts rule: strip_common.induct) (auto split: if_splits)

lemma strip_common_append: "strip_common bs (bs @ us) = ([], us)"
  by (induction bs) (cases us; simp)+

lemma strip_common_parts: "strip_common bs ts = (cs, us) \<Longrightarrow> set cs \<subseteq> set bs \<and> set us \<subseteq> set ts"
  by (induction bs ts rule: strip_common.induct) (auto split: if_splits)

lemma climbs_join: "climbs (join (''..'' # es))"
  by (cases es) (auto simp: climbs_def has_prefix_def)

lemma component_not_climbs:
  assumes "list_all component es"
  shows "\<not> climbs (join es)"
proof (cases es rule: join.cases)
  case 1
  then show ?thesis by (simp add: climbs_def has_prefix_def)
next
  case (2 e)
  have "CHR ''/'' \<in> set e" if "has_prefix ''../'' e" using that set_take_subset [of 3 e] by (auto simp: has_prefix_def numeral_3_eq_3)
  then show ?thesis using assms 2 by (auto simp: climbs_def component_def)
next
  case (3 e f fs)
  have e: "component e" using assms 3 by simp
  have "\<not> climbs (e @ CHR ''/'' # x)" for x
  proof
    assume "climbs (e @ CHR ''/'' # x)"
    then have "take 3 (e @ CHR ''/'' # x) = ''../'' \<or> e @ CHR ''/'' # x = ''..''" by (auto simp: climbs_def has_prefix_def numeral_3_eq_3)
    then show False using e by (cases e; cases "tl e"; cases "tl (tl e)") (auto simp: component_def)
  qed
  then show ?thesis using 3 by simp
qed

lemma Join_absolute:
  assumes "list_all component ds"
  obtains ts where "list_all component ts" "Join [rooted_path ds, name] = rooted_path ts"
proof -
  have ne: "rooted_path ds \<noteq> []" by (simp add: rooted_path_def)
  define p where "p = (if name = [] then rooted_path ds else rooted_path ds @ CHR ''/'' # name)"
  have "Join [rooted_path ds, name] = Clean p" using ne by (simp add: Join_def Let_def p_def)
  moreover have "IsAbs p" by (simp add: p_def IsAbs_def rooted_path_def)
  ultimately show thesis using Clean_absolute [of p] that by metis
qed

lemma Rel_rooted:
  assumes "list_all component ds" and "list_all component ts"
  shows "Rel (rooted_path ds) (rooted_path ts) =
    (if ds = ts then Some ''.'' else case strip_common ds ts of (bs, us) \<Rightarrow> Some (join (map (\<lambda>_. ''..'') bs @ us)))"
proof -
  have up: "hd bs \<noteq> ''..''" if "strip_common ds ts = (bs, us)" "bs \<noteq> []" for bs us
    using strip_common_parts [OF that(1)] that(2) assms(1) by (cases bs) (auto simp: list_all_iff component_def)
  have "rooted_path ds \<noteq> ''.''" "IsAbs (rooted_path ds)" "IsAbs (rooted_path ts)" by (simp_all add: rooted_path_def IsAbs_def)
  then show ?thesis
    using Clean_rooted_path [OF assms(1)] Clean_rooted_path [OF assms(2)] path_elems_rooted [OF assms(1)]
      path_elems_rooted [OF assms(2)] rooted_path_inj [OF assms] up
    by (auto simp: Rel_def Let_def split: prod.splits)
qed

text \<open>The relative path of a clean absolute path climbs exactly when the path is not below the base.\<close>

lemma Rel_below:
  assumes "list_all component ds" and "list_all component ts"
    and rel: "Rel (rooted_path ds) (rooted_path ts) = Some rel" and "\<not> climbs rel"
  obtains es where "ts = ds @ es"
proof (cases "ds = ts")
  case True
  then show thesis using that [of "[]"] by simp
next
  case False
  obtain bs us where su: "strip_common ds ts = (bs, us)" by (cases "strip_common ds ts") auto
  then have "rel = join (map (\<lambda>_. ''..'') bs @ us)" using rel False by (simp add: Rel_rooted [OF assms(1,2)])
  then have "bs = []" using assms(4) climbs_join by (cases bs) auto
  then show thesis using that strip_common_prefix su by blast
qed

lemma safeJoin_below:
  assumes "list_all component ds" and "safeJoin (rooted_path ds) name = Inr target"
  obtains es where "list_all component es" "target = rooted_path (ds @ es)"
proof -
  obtain ts where ts: "list_all component ts" "Join [rooted_path ds, name] = rooted_path ts" using Join_absolute [OF assms(1)] by blast
  have t: "target = rooted_path ts" using assms(2) ts(2) by (auto simp: safeJoin_def Let_def split: option.splits if_splits)
  obtain rel where "Rel (rooted_path ds) (rooted_path ts) = Some rel" "\<not> climbs rel"
    using assms(2) ts(2) by (auto simp: safeJoin_def Let_def split: option.splits if_splits)
  then obtain es where "ts = ds @ es" using Rel_below [OF assms(1) ts(1)] by blast
  then show thesis using that [of es] ts(1) t by simp
qed

lemma within_below:
  assumes "list_all component ds" and "list_all component ts" and "within_root (rooted_path ds) (rooted_path ts)"
  obtains e es where "ts = ds @ e # es"
proof -
  obtain rel where rel: "Rel (rooted_path ds) (rooted_path ts) = Some rel" "\<not> climbs rel" "rel \<noteq> ''.''"
    using assms(3) by (auto simp: within_root_def split: option.splits)
  then obtain es where es: "ts = ds @ es" using Rel_below [OF assms(1,2)] by blast
  moreover have "es \<noteq> []" using rel es Rel_rooted [OF assms(1,2)] by auto
  ultimately show thesis using that by (cases es) auto
qed

text \<open>Joining any name below a clean absolute directory: its elements are cleaned on top of the directory's.\<close>

lemma Join_rooted:
  assumes "list_all component ds"
  shows "Join [rooted_path ds, name] = rooted_path (rev (foldl (clean_elem True) (rev ds) (elems name)))"
proof (cases "name = []")
  case True
  have "rooted_path ds \<noteq> []" by (simp add: rooted_path_def)
  then show ?thesis using True Clean_rooted_path [OF assms] by (simp add: Join_def Let_def clean_elem_def)
next
  case False
  have ne: "rooted_path ds \<noteq> []" by (simp add: rooted_path_def)
  have "elems (rooted_path ds @ CHR ''/'' # name) = [] # (if ds = [] then [[]] else []) @ ds @ elems name"
  proof (cases "ds = []")
    case True
    then show ?thesis by (simp add: rooted_path_def)
  next
    case False
    have "elems (join ds @ CHR ''/'' # name) = ds @ elems name"
      using False assms by (induction ds rule: join.induct) (auto simp: elems_append component_def)
    then show ?thesis using False by (simp add: rooted_path_def)
  qed
  moreover have "foldl (clean_elem True) [] ([] # (if ds = [] then [[]] else []) @ ds @ elems name) = foldl (clean_elem True) (rev ds) (elems name)"
    using clean_components [OF assms, of True "[]"] by (simp add: clean_elem_def)
  ultimately have "Clean (rooted_path ds @ CHR ''/'' # name) = rooted_path (rev (foldl (clean_elem True) (rev ds) (elems name)))"
    by (simp add: Clean_def Let_def rooted_path_def IsAbs_def)
  then show ?thesis using ne False by (simp add: Join_def Let_def)
qed

lemma clean_siblings:
  assumes "a \<noteq> ''..''" "b \<noteq> ''..''"
  shows "(\<exists>ys. foldl (clean_elem True) (xs @ a # p) es = ys @ a # p \<and> foldl (clean_elem True) (xs @ b # p) es = ys @ b # p)
    \<or> foldl (clean_elem True) (xs @ a # p) es = foldl (clean_elem True) (xs @ b # p) es"
proof (induction es arbitrary: xs)
  case (Cons e es)
  show ?case
  proof (cases "e = ''..'' \<and> xs = []")
    case True
    then show ?thesis using assms by (simp add: clean_elem_def)
  next
    case False
    define ys where "ys = (if e = [] \<or> e = ''.'' then xs else if e = ''..'' then (if hd xs \<noteq> ''..'' then tl xs else xs) else e # xs)"
    have "clean_elem True (xs @ a # p) e = ys @ a # p" "clean_elem True (xs @ b # p) e = ys @ b # p"
      using False by (cases xs; simp add: clean_elem_def ys_def)+
    then show ?thesis using Cons.IH [of ys] by simp
  qed
qed simp

lemma safeJoin_Join: "safeJoin dest name = Inr t \<Longrightarrow> t = Join [dest, name]"
  by (auto simp: safeJoin_def Let_def split: option.splits if_splits)

text \<open>A name contained in two sibling directories names the same place below both.\<close>

lemma safeJoin_siblings:
  assumes a: "list_all component (p @ [a])" "safeJoin (rooted_path (p @ [a])) name = Inr (rooted_path (p @ [a] @ es))"
    and b: "list_all component (p @ [b])" "safeJoin (rooted_path (p @ [b])) name = Inr t" and "a \<noteq> b" "list_all component es"
  shows "t = rooted_path (p @ [b] @ es)"
proof -
  obtain fs where fs: "list_all component fs" "t = rooted_path ((p @ [b]) @ fs)" using safeJoin_below [OF b] by blast
  let ?f = "\<lambda>x. foldl (clean_elem True) (rev (p @ [x])) (elems name)"
  have ja: "rooted_path (p @ [a] @ es) = rooted_path (rev (?f a))" and jb: "t = rooted_path (rev (?f b))"
    using safeJoin_Join [OF a(2)] Join_rooted [OF a(1), of name] safeJoin_Join [OF b(2)] Join_rooted [OF b(1), of name] by (simp_all only:)
  have ns: "list_all (\<lambda>e. CHR ''/'' \<notin> set e) (elems name)" using elems_members by (auto simp: list_all_iff)
  have up: "list_all component (rev (?f x))" if "list_all component (p @ [x])" for x
    using clean_rooted [OF _ ns, of "rev (p @ [x])"] that unfolding list_all_rev by blast
  note ca = up [OF a(1)] and cb = up [OF b(1)]
  have fa: "rev (?f a) = p @ [a] @ es" using rooted_path_inj [OF _ ca ja] a(1) assms(6) by simp
  have fb: "rev (?f b) = p @ [b] @ fs" using rooted_path_inj [of "p @ [b] @ fs", OF _ cb] jb fs b(1) by simp
  have "a \<noteq> ''..''" "b \<noteq> ''..''" using a(1) b(1) by (auto simp: component_def)
  then have "(\<exists>ys. ?f a = ys @ a # rev p \<and> ?f b = ys @ b # rev p) \<or> ?f a = ?f b"
    using clean_siblings [of a b "[]" "rev p" "elems name"] by simp
  then have "\<exists>ys. ?f a = ys @ a # rev p \<and> ?f b = ys @ b # rev p" using fa fb assms(5) by auto
  then show ?thesis using fa fb fs(2) by auto
qed

subsection \<open>Budgets\<close>

lemma wrap64_id: "in_int64 n \<Longrightarrow> wrap64 n = n"
  by (simp add: wrap64_def in_int64_def signed_take_bit_int_eq_self)

lemma decompressionBudget_range: "67108864 \<le> decompressionBudget sz \<and> decompressionBudget sz \<le> 4294967296"
  by (auto simp: decompressionBudget_def minDecompressionBudget_def maxDecompressionBudget_def Let_def)

lemma admit_bounds:
  assumes "admit b n = Inr b'"
  shows "ab_entries b' = ab_entries b + 1" "ab_entries b' \<le> maxArchiveEntries" "ab_remaining b' = ab_remaining b"
    "ab_maxBytes b' = ab_maxBytes b"
  using assms by (auto simp: admit_def Let_def split: if_splits)

text \<open>The declared sizes never wrap under a budget of the store: what was admitted is their sum.\<close>

lemma admit_declared:
  assumes "admit b n = Inr b'" and "0 \<le> ab_declared b" "ab_declared b \<le> ab_maxBytes b" "ab_maxBytes b < 2 ^ 62"
  shows "ab_declared b' = ab_declared b + n \<and> ab_declared b' \<le> ab_maxBytes b' \<and> 0 \<le> n"
proof -
  have "0 \<le> n" "n \<le> ab_maxBytes b" using assms(1) by (auto simp: admit_def Let_def split: if_splits)
  then have "wrap64 (ab_declared b + n) = ab_declared b + n" using assms(2-4) by (intro wrap64_id) (simp add: in_int64_def)
  then show ?thesis using assms(1) by (auto simp: admit_def Let_def split: if_splits)
qed

end
