(* ===== verification/ArtifactStore.thy ===== *)
theory ArtifactStore
  imports Artifact
begin

text \<open>
  The artifact store: \<^verbatim>\<open>artifact/store.go\<close>, \<^verbatim>\<open>artifact/archive.go\<close>, \<^verbatim>\<open>artifact/releasebinary.go\<close>, \<^verbatim>\<open>artifact/pythontool.go\<close> and
  \<^verbatim>\<open>artifact/cache.go\<close>, as programs over a file system. A path is looked up by its elements; a symbolic link is followed only where
  the code does so itself (\<open>realEntrypoint\<close>), since none stands for a directory on the paths of the store. Every call that
  touches the disk may be refused or cut off by a crash, before, within or after its effect. What the network, the clock, the
  archive readers, the hash and \<^verbatim>\<open>uv\<close> answer is the record \<open>outside\<close>. Operations of several processes on one artifact are
  serialised by its lock and are run here one after the other.
\<close>

subsection \<open>State\<close>

datatype fnode = Folder | File bytes | Link string

type_synonym fs = "string list \<Rightarrow> fnode option"

text \<open>\<open>st_writes\<close> records each file an extraction opened, with the bytes it received.\<close>

record store_state =
  st_tick :: nat
  st_fs :: fs
  st_writes :: "(string list \<times> nat) list"

datatype tar_type = TypeDir | TypeReg | TypeSymlink | TypeLink | TypeOther

record tar_member =
  tm_Name :: string
  tm_Size :: int
  tm_Typeflag :: tar_type
  tm_data :: bytes
  tm_torn :: bool

record zip_member =
  zm_Name :: string
  zm_UncompressedSize64 :: nat
  zm_IsDir :: bool
  zm_Symlink :: bool
  zm_opens :: bool
  zm_data :: bytes
  zm_torn :: bool

datatype location = ReleaseURL string string string | AssetURL string

text \<open>A response: its status, the bytes of the body, and whether the body ended rather than failed.\<close>

datatype http_answer = BadRequest | NoResponse | Response nat bytes bool

record cacheMeta =
  cm_Name :: string
  cm_Tag :: string
  cm_Digest :: string
  cm_Source :: string
  cm_FetchedAt :: int

record fileIdentity =
  fi_Device :: string
  fi_Inode :: nat
  fi_Size :: int
  fi_ModTimeNS :: int
  fi_ChangeTimeNS :: int

record execCopyKeySource =
  ek_Name :: string
  ek_Version :: string
  ek_Source :: string
  ek_File :: fileIdentity

text \<open>An installed bundle; an open entrypoint: its identity before and after it is read, the bytes, and whether reading ended well.\<close>

datatype app_stat = AppMissing | AppUnreadable | AppPresent

record open_file =
  of_before :: "fileIdentity option"
  of_data :: bytes
  of_read :: bool
  of_after :: "fileIdentity option"

record outside =
  ow_fault :: "nat \<Rightarrow> (bool \<times> nat) option"
  ow_kept :: "nat \<Rightarrow> string list \<Rightarrow> bool"
  ow_temp :: "nat \<Rightarrow> nat list"
  ow_canceled :: "nat \<Rightarrow> bool"
  ow_parent :: "nat \<Rightarrow> bool"
  ow_lock :: "nat \<Rightarrow> bool"
  ow_get :: "nat \<Rightarrow> location \<Rightarrow> string \<Rightarrow> string \<Rightarrow> http_answer"
  ow_tagged :: "nat \<Rightarrow> string \<Rightarrow> string \<Rightarrow> (string \<times> string) list option"
  ow_token :: "nat \<Rightarrow> string"
  ow_now :: "nat \<Rightarrow> int"
  ow_sha :: "bytes \<Rightarrow> string"
  ow_meta :: "cacheMeta \<Rightarrow> bytes"
  ow_untar :: "bytes \<Rightarrow> (tar_member list \<times> bool) option"
  ow_unzip :: "bytes \<Rightarrow> zip_member list option"
  ow_platform :: "string \<times> string"
  ow_host :: "nat \<Rightarrow> bytes host"
  ow_object :: "bytes \<Rightarrow> (string \<rightharpoonup> bytes) option"
  ow_string :: "bytes \<Rightarrow> string option"
  ow_app :: "nat \<Rightarrow> string \<Rightarrow> app_stat"
  ow_entry :: "nat \<Rightarrow> string \<Rightarrow> fileIdentity option"
  ow_open :: "nat \<Rightarrow> string \<Rightarrow> open_file option"
  ow_key :: "execCopyKeySource \<Rightarrow> bytes"
  ow_unmeta :: "bytes \<Rightarrow> cacheMeta option"
  ow_list :: "nat \<Rightarrow> string \<Rightarrow> (string \<times> bool) list option option"
  ow_uv :: "nat \<Rightarrow> string \<Rightarrow> string \<Rightarrow> (string list \<times> fnode) list \<times> bool"

subsection \<open>Programs\<close>

datatype 'a store_outcome = Done 'a | Failed aerr | Crashed

type_synonym 'a sprog = "store_state \<Rightarrow> 'a store_outcome \<times> store_state"

definition s_ret :: "'a \<Rightarrow> 'a sprog" where "s_ret x = (\<lambda>s. (Done x, s))"

definition s_throw :: "aerr \<Rightarrow> 'a sprog" where "s_throw e = (\<lambda>s. (Failed e, s))"

definition s_bnd :: "'a sprog \<Rightarrow> ('a \<Rightarrow> 'b sprog) \<Rightarrow> 'b sprog" where
  "s_bnd m f = (\<lambda>s. case m s of (Done x, s') \<Rightarrow> f x s' | (Failed e, s') \<Rightarrow> (Failed e, s') | (Crashed, s') \<Rightarrow> (Crashed, s'))"

definition s_then :: "'a sprog \<Rightarrow> 'b sprog \<Rightarrow> 'b sprog" where "s_then m n = s_bnd m (\<lambda>_. n)"

definition s_lift :: "aerr + 'a \<Rightarrow> 'a sprog" where
  "s_lift r = (case r of Inl e \<Rightarrow> s_throw e | Inr x \<Rightarrow> s_ret x)"

definition s_tried :: "'a sprog \<Rightarrow> (aerr + 'a) sprog" where
  "s_tried m = (\<lambda>s. case m s of (Done x, s') \<Rightarrow> (Done (Inr x), s') | (Failed e, s') \<Rightarrow> (Done (Inl e), s') | (Crashed, s') \<Rightarrow> (Crashed, s'))"

text \<open>A deferred call: it runs when the body returned or failed, its own error is dropped, and a crash skips it.\<close>

definition on_failure :: "unit sprog \<Rightarrow> 'a sprog \<Rightarrow> 'a sprog" where
  "on_failure d m = s_bnd (s_tried m) (\<lambda>r. case r of Inr x \<Rightarrow> s_ret x | Inl e \<Rightarrow> s_then (s_tried d) (s_throw e))"

definition deferring :: "unit sprog \<Rightarrow> 'a sprog \<Rightarrow> 'a sprog" where
  "deferring d m = s_bnd (s_tried m) (\<lambda>r. s_then (s_tried d) (s_lift r))"

definition s_tick :: "store_state \<Rightarrow> store_state" where "s_tick s = s\<lparr>st_tick := st_tick s + 1\<rparr>"

definition s_ask :: "(nat \<Rightarrow> 'a) \<Rightarrow> 'a sprog" where "s_ask f = (\<lambda>s. (Done (f (st_tick s)), s_tick s))"

definition s_read :: "(fs \<Rightarrow> 'a) \<Rightarrow> 'a sprog" where "s_read f = (\<lambda>s. (Done (f (st_fs s)), s))"

text \<open>One effect on the disk: whole, or refused or cut off by a crash after a part \<open>k\<close> of it.\<close>

definition s_io :: "outside \<Rightarrow> (store_state \<Rightarrow> store_state) \<Rightarrow> (nat \<Rightarrow> store_state \<Rightarrow> store_state) \<Rightarrow> unit sprog" where
  "s_io w whole part = (\<lambda>s. case ow_fault w (st_tick s) of
      None \<Rightarrow> (Done (), whole (s_tick s))
    | Some (crash, k) \<Rightarrow> (if crash then Crashed else Failed ArtifactOther, part k (s_tick s)))"

definition on_fs :: "(fs \<Rightarrow> fs) \<Rightarrow> store_state \<Rightarrow> store_state" where "on_fs f s = s\<lparr>st_fs := f (st_fs s)\<rparr>"

definition s_atomic :: "outside \<Rightarrow> (fs \<Rightarrow> fs) \<Rightarrow> unit sprog" where
  "s_atomic w f = s_io w (on_fs f) (\<lambda>k. if k = 0 then (\<lambda>s. s) else on_fs f)"

subsection \<open>Files\<close>

definition below :: "string list \<Rightarrow> string list \<Rightarrow> bool" where "below d q \<longleftrightarrow> take (length d) q = d"

definition parent_ok :: "fs \<Rightarrow> string list \<Rightarrow> bool" where "parent_ok fs k \<longleftrightarrow> k \<noteq> [] \<and> fs (butlast k) = Some Folder"

definition regular :: "fs \<Rightarrow> string \<Rightarrow> bool" where
  "regular fs p \<longleftrightarrow> (case fs (path_elems p) of Some (File c) \<Rightarrow> True | _ \<Rightarrow> False)"

definition made :: "string list \<Rightarrow> nat \<Rightarrow> fs \<Rightarrow> fs" where
  "made k j fs = (\<lambda>q. if length q \<le> j \<and> below q k then Some Folder else fs q)"

definition os_MkdirAll :: "outside \<Rightarrow> string \<Rightarrow> unit sprog" where
  "os_MkdirAll w p = (\<lambda>s. let k = path_elems p in
     if list_ex (\<lambda>n. st_fs s (take n k) \<noteq> None \<and> st_fs s (take n k) \<noteq> Some Folder) [0..<Suc (length k)]
     then (Failed ArtifactOther, s_tick s)
     else s_io w (on_fs (made k (length k))) (\<lambda>j. on_fs (made k j)) s)"

text \<open>\<open>os.MkdirTemp\<close> and \<open>os.CreateTemp\<close>: the first of the names tried that is free, with nothing below it.\<close>

definition fresh :: "string list \<Rightarrow> fnode \<Rightarrow> fs \<Rightarrow> fs" where
  "fresh k n fs = (\<lambda>q. if q = k then Some n else if below k q then None else fs q)"

definition temp_named :: "outside \<Rightarrow> fnode \<Rightarrow> string \<Rightarrow> string \<Rightarrow> string sprog" where
  "temp_named w n dir pattern = (\<lambda>s. let d = path_elems dir in
     case find (\<lambda>r. st_fs s (d @ [pattern @ show_nat r]) = None) (ow_temp w (st_tick s)) of
       None \<Rightarrow> (Failed ArtifactOther, s_tick s)
     | Some r \<Rightarrow> (let name = pattern @ show_nat r in
         if st_fs s d \<noteq> Some Folder then (Failed ArtifactOther, s_tick s)
         else s_then (s_atomic w (fresh (d @ [name]) n)) (s_ret (Join [dir, name])) s))"

definition os_MkdirTemp :: "outside \<Rightarrow> string \<Rightarrow> string \<Rightarrow> string sprog" where "os_MkdirTemp w = temp_named w Folder"

definition os_CreateTemp :: "outside \<Rightarrow> string \<Rightarrow> string \<Rightarrow> string sprog" where "os_CreateTemp w = temp_named w (File [])"

text \<open>Removal of a tree, in whatever order; \<open>ow_kept\<close> says what a removal that did not finish left.\<close>

definition os_RemoveAll :: "outside \<Rightarrow> string \<Rightarrow> unit sprog" where
  "os_RemoveAll w p = (\<lambda>s. let k = path_elems p in
     s_io w (on_fs (\<lambda>fs q. if below k q then None else fs q))
       (\<lambda>_. on_fs (\<lambda>fs q. if below k q \<and> \<not> ow_kept w (st_tick s) q then None else fs q)) s)"

definition os_Remove :: "outside \<Rightarrow> string \<Rightarrow> unit sprog" where
  "os_Remove w p = (\<lambda>s. let k = path_elems p in
     case st_fs s k of
       Some (File c) \<Rightarrow> s_atomic w (\<lambda>fs. fs(k := None)) s
     | _ \<Rightarrow> (Failed ArtifactOther, s_tick s))"

text \<open>
  rename(2): a file replaces a file, and no directory moves below itself. It would replace an empty directory by a directory;
  both callers have removed the target by then.
\<close>

definition renamed_tree :: "string list \<Rightarrow> string list \<Rightarrow> fs \<Rightarrow> fs" where
  "renamed_tree a b fs = (\<lambda>q. if below b q then fs (a @ drop (length b) q) else if below a q then None else fs q)"

definition os_Rename :: "outside \<Rightarrow> string \<Rightarrow> string \<Rightarrow> unit sprog" where
  "os_Rename w from to = (\<lambda>s. let a = path_elems from; b = path_elems to in
     if \<not> parent_ok (st_fs s) b \<or> below a b then (Failed ArtifactOther, s_tick s)
     else case st_fs s a of
       None \<Rightarrow> (Failed ArtifactOther, s_tick s)
     | Some Folder \<Rightarrow>
         if st_fs s b \<noteq> None then (Failed ArtifactOther, s_tick s) else s_atomic w (renamed_tree a b) s
     | Some n \<Rightarrow>
         if st_fs s b = Some Folder then (Failed ArtifactOther, s_tick s) else s_atomic w (\<lambda>fs. fs(b \<mapsto> n, a := None)) s)"

definition durable_SyncDir :: "outside \<Rightarrow> string \<Rightarrow> unit sprog" where
  "durable_SyncDir w p = s_atomic w (\<lambda>fs. fs)"

text \<open>\<open>durable.WriteFile\<close>: a temporary file of the directory renamed over the name.\<close>

definition store_WriteFile :: "outside \<Rightarrow> string \<Rightarrow> bytes \<Rightarrow> unit sprog" where
  "store_WriteFile w p content = (\<lambda>s. let k = path_elems p in
     if \<not> parent_ok (st_fs s) k \<or> st_fs s k = Some Folder then (Failed ArtifactOther, s_tick s)
     else s_atomic w (\<lambda>fs. fs(k \<mapsto> File content)) s)"

definition durable_RemoveTree_at :: "outside \<Rightarrow> string \<Rightarrow> unit sprog" where
  "durable_RemoveTree_at w p = s_bnd (s_read (\<lambda>fs. fs (path_elems p) = None)) (\<lambda>absent.
     if absent then s_ret () else s_then (os_RemoveAll w p) (durable_SyncDir w (Dir p)))"

subsection \<open>Extraction (archive.go)\<close>

definition wrote :: "string list \<Rightarrow> bytes \<Rightarrow> store_state \<Rightarrow> store_state" where
  "wrote k content s = s\<lparr>st_fs := (st_fs s)(k \<mapsto> File content), st_writes := (k, length content) # st_writes s\<rparr>"

text \<open>Copy a member into its file. \<open>torn\<close>: reading it fails once \<open>content\<close> was read.\<close>

definition writeArchiveFile :: "outside \<Rightarrow> string \<Rightarrow> bytes \<Rightarrow> bool \<Rightarrow> int \<Rightarrow> int sprog" where
  "writeArchiveFile w target content torn remaining = (\<lambda>s. let k = path_elems target; limit = nat (wrap64 (remaining + 1)) in
     if \<not> parent_ok (st_fs s) k \<or> st_fs s k = Some Folder then (Failed ArtifactOther, s_tick s)
     else s_then (s_io w (wrote k (take limit content)) (\<lambda>j. wrote k (take j (take limit content))))
       (if torn \<and> length content < limit then s_throw ArtifactOther
        else if int (length (take limit content)) > remaining then s_throw ErrUnsafeArchive
        else s_then (durable_SyncDir w target) (s_ret (remaining - int (length (take limit content))))) s)"

primrec tar_loop :: "outside \<Rightarrow> string \<Rightarrow> bool \<Rightarrow> tar_member list \<Rightarrow> archiveBudget \<Rightarrow> unit sprog" where
  "tar_loop w dest eof [] b = s_bnd (s_ask (ow_canceled w)) (\<lambda>canceled.
     if canceled \<or> \<not> eof then s_throw ArtifactOther else s_ret ())"
| "tar_loop w dest eof (m # ms) b = s_bnd (s_ask (ow_canceled w)) (\<lambda>canceled.
     if canceled then s_throw ArtifactOther
     else s_bnd (s_lift (admit b (tm_Size m))) (\<lambda>b. s_bnd (s_lift (safeJoin dest (tm_Name m))) (\<lambda>target.
       case tm_Typeflag m of
         TypeDir \<Rightarrow> s_then (os_MkdirAll w target) (tar_loop w dest eof ms b)
       | TypeReg \<Rightarrow> s_then (os_MkdirAll w (Dir target))
           (s_bnd (writeArchiveFile w target (tm_data m) (tm_torn m) (ab_remaining b)) (\<lambda>remaining.
             tar_loop w dest eof ms (b\<lparr>ab_remaining := remaining\<rparr>)))
       | TypeSymlink \<Rightarrow> s_throw ErrUnsafeArchive
       | TypeLink \<Rightarrow> s_throw ErrUnsafeArchive
       | TypeOther \<Rightarrow> tar_loop w dest eof ms b)))"

definition new_budget :: "int \<Rightarrow> archiveBudget" where
  "new_budget maxBytes = \<lparr> ab_remaining = maxBytes, ab_declared = 0, ab_entries = 0, ab_maxBytes = maxBytes \<rparr>"

definition file_bytes :: "string \<Rightarrow> bytes sprog" where
  "file_bytes src = s_bnd (s_read (\<lambda>fs. fs (path_elems src))) (\<lambda>n. case n of Some (File c) \<Rightarrow> s_ret c | _ \<Rightarrow> s_throw ArtifactOther)"

definition extractTarGz :: "outside \<Rightarrow> string \<Rightarrow> string \<Rightarrow> int \<Rightarrow> unit sprog" where
  "extractTarGz w src dest maxBytes = s_bnd (file_bytes src) (\<lambda>c.
     case ow_untar w c of None \<Rightarrow> s_throw ArtifactOther | Some (ms, eof) \<Rightarrow> tar_loop w dest eof ms (new_budget maxBytes))"

primrec zip_loop :: "outside \<Rightarrow> string \<Rightarrow> zip_member list \<Rightarrow> archiveBudget \<Rightarrow> unit sprog" where
  "zip_loop w dest [] b = s_ret ()"
| "zip_loop w dest (m # ms) b = s_bnd (s_ask (ow_canceled w)) (\<lambda>canceled.
     if canceled then s_throw ArtifactOther
     else if zm_UncompressedSize64 m > 2 ^ 63 - 1 then s_throw ErrUnsafeArchive
     else s_bnd (s_lift (admit b (int (zm_UncompressedSize64 m)))) (\<lambda>b. s_bnd (s_lift (safeJoin dest (zm_Name m))) (\<lambda>target.
       if zm_IsDir m then s_then (os_MkdirAll w target) (zip_loop w dest ms b)
       else if zm_Symlink m then s_throw ErrUnsafeArchive
       else s_then (os_MkdirAll w (Dir target))
         (if \<not> zm_opens m then s_throw ArtifactOther
          else s_bnd (writeArchiveFile w target (zm_data m) (zm_torn m) (ab_remaining b)) (\<lambda>remaining.
            zip_loop w dest ms (b\<lparr>ab_remaining := remaining\<rparr>))))))"

definition extractZip :: "outside \<Rightarrow> string \<Rightarrow> string \<Rightarrow> int \<Rightarrow> unit sprog" where
  "extractZip w src dest maxBytes = s_bnd (file_bytes src) (\<lambda>c.
     case ow_unzip w c of None \<Rightarrow> s_throw ArtifactOther | Some ms \<Rightarrow> zip_loop w dest ms (new_budget maxBytes))"

definition archive_extract :: "outside \<Rightarrow> Format \<Rightarrow> string \<Rightarrow> string \<Rightarrow> int \<Rightarrow> unit sprog" where
  "archive_extract w format src dest maxBytes = (case format of
      TarGz \<Rightarrow> extractTarGz w src dest maxBytes
    | Zip \<Rightarrow> extractZip w src dest maxBytes
    | _ \<Rightarrow> s_throw ErrUnsupportedFormat)"

subsection \<open>Downloads (store.go)\<close>

text \<open>A download that failed: whether another attempt may be made.\<close>

type_synonym fetched = "bool + (string \<times> int)"

definition Provider_URL :: "Provider \<Rightarrow> aerr + location" where
  "Provider_URL p = (if pv_Type p \<noteq> GitHubRelease then Inl ErrInvalidDescriptor else Inr (ReleaseURL (pv_Repo p) (pv_Tag p) (pv_Name p)))"

definition streamed :: "outside \<Rightarrow> string list \<Rightarrow> bytes \<Rightarrow> unit sprog" where
  "streamed w k body = s_io w (on_fs (\<lambda>fs. fs(k \<mapsto> File body))) (\<lambda>j. on_fs (\<lambda>fs. fs(k \<mapsto> File (take j body))))"

definition download :: "outside \<Rightarrow> location \<Rightarrow> string \<Rightarrow> string \<Rightarrow> string \<Rightarrow> fetched sprog" where
  "download w url token accept path = s_bnd (s_ask (\<lambda>t. ow_get w t url token accept)) (\<lambda>r. case r of
      BadRequest \<Rightarrow> s_ret (Inl False)
    | NoResponse \<Rightarrow> s_ret (Inl True)
    | Response status body ended \<Rightarrow>
        if status \<noteq> 200 then s_ret (Inl (status \<ge> 500 \<or> status = 429))
        else s_bnd (s_read (\<lambda>fs. regular fs path)) (\<lambda>there.
          if \<not> there then s_ret (Inl False)
          else s_bnd (s_tried (streamed w (path_elems path) body)) (\<lambda>copied. s_bnd (s_tried (durable_SyncDir w path)) (\<lambda>synced.
            if copied \<noteq> Inr () \<or> \<not> ended then s_ret (Inl True)
            else if synced \<noteq> Inr () then s_ret (Inl False)
            else s_ret (Inr (ow_sha w body, int (length body)))))))"

definition downloadAttempts :: nat where "downloadAttempts = 3"

text \<open>\<open>left\<close> attempts remain after this one; a context that ends during the wait ends the loop.\<close>

primrec retry_from :: "outside \<Rightarrow> fetched sprog \<Rightarrow> nat \<Rightarrow> fetched sprog" where
  "retry_from w attempt 0 = s_bnd attempt (\<lambda>r. s_ret (case r of Inl _ \<Rightarrow> Inl False | Inr x \<Rightarrow> Inr x))"
| "retry_from w attempt (Suc left) = s_bnd attempt (\<lambda>r. case r of
      Inr x \<Rightarrow> s_ret (Inr x)
    | Inl again \<Rightarrow> s_bnd (s_ask (ow_canceled w)) (\<lambda>canceled.
        if \<not> again \<or> canceled then s_ret (Inl False)
        else s_bnd (s_ask (ow_canceled w)) (\<lambda>expired. if expired then s_ret (Inl False) else retry_from w attempt left)))"

definition retryDownload :: "outside \<Rightarrow> fetched sprog \<Rightarrow> fetched sprog" where
  "retryDownload w attempt = retry_from w attempt (downloadAttempts - 1)"

record options =
  op_githubToken :: string
  op_tokenSource :: bool
  op_uv :: string

definition apiToken :: "outside \<Rightarrow> options \<Rightarrow> string sprog" where
  "apiToken w opts = (if op_githubToken opts \<noteq> [] \<or> \<not> op_tokenSource opts then s_ret (op_githubToken opts) else s_ask (ow_token w))"

definition fetch_tagged :: "outside \<Rightarrow> Provider \<Rightarrow> string \<Rightarrow> string \<Rightarrow> fetched sprog" where
  "fetch_tagged w provider token path = s_bnd (s_ask (\<lambda>t. ow_tagged w t (pv_Repo provider) (pv_Tag provider))) (\<lambda>release. case release of
      None \<Rightarrow> s_ret (Inl True)
    | Some assets \<Rightarrow> (case find (\<lambda>a. fst a = pv_Name provider) assets of
        Some a \<Rightarrow> download w (AssetURL (snd a)) token ''application/octet-stream'' path
      | None \<Rightarrow> s_ret (Inl False)))"

definition fetchAsset :: "outside \<Rightarrow> Provider \<Rightarrow> options \<Rightarrow> string \<Rightarrow> (string \<times> int) sprog" where
  "fetchAsset w provider opts path = s_bnd (s_lift (Provider_URL provider)) (\<lambda>direct.
    s_bnd (retryDownload w (download w direct (op_githubToken opts) [] path)) (\<lambda>r. case r of
      Inr x \<Rightarrow> s_ret x
    | Inl _ \<Rightarrow> s_bnd (s_ask (ow_parent w)) (\<lambda>ended.
        if ended then s_throw ArtifactOther
        else s_bnd (apiToken w opts) (\<lambda>token. s_bnd (retryDownload w (fetch_tagged w provider token path)) (\<lambda>r.
          case r of Inr x \<Rightarrow> s_ret x | Inl _ \<Rightarrow> s_throw ErrDownload)))))"

subsection \<open>The store (store.go, releasebinary.go)\<close>

definition CacheDir :: "string \<Rightarrow> string" where "CacheDir r = Join [r, ''cache'']"

definition ToolsDir :: "string \<Rightarrow> string" where "ToolsDir r = Join [r, ''tools'']"

definition locksDir :: "string \<Rightarrow> string" where "locksDir r = Join [r, ''locks'']"

definition store_validate :: "string \<Rightarrow> aerr option" where
  "store_validate r = (if \<not> IsAbs r \<or> Clean r \<noteq> r then Some ArtifactOther else None)"

definition requiring :: "aerr option \<Rightarrow> 'a sprog \<Rightarrow> 'a sprog" where
  "requiring e m = (case e of Some e \<Rightarrow> s_throw e | None \<Rightarrow> m)"

text \<open>The lock file is made when it is missing, and stays.\<close>

definition withLock :: "outside \<Rightarrow> string \<Rightarrow> string \<Rightarrow> 'a sprog \<Rightarrow> 'a sprog" where
  "withLock w r key fn = s_then (os_MkdirAll w (locksDir r))
    (let k = path_elems (Join [locksDir r, take 32 (ow_sha w (bytes_of_string key)) @ ''.lock'']) in
     s_then (s_atomic w (\<lambda>fs. if fs k = None then fs(k \<mapsto> File []) else fs))
      (s_bnd (s_ask (ow_lock w)) (\<lambda>held. if held then fn else s_throw ArtifactOther)))"

definition writeCacheMeta :: "outside \<Rightarrow> string \<Rightarrow> cacheMeta \<Rightarrow> unit sprog" where
  "writeCacheMeta w dir m = s_bnd (s_ask (ow_now w)) (\<lambda>now.
     store_WriteFile w (Join [dir, ''meta.json'']) (ow_meta w (m\<lparr>cm_FetchedAt := now\<rparr>) @ bytes_of_string [CHR 0x0A]))"

definition digestDir :: "string \<Rightarrow> string \<Rightarrow> string" where
  "digestDir r digest = Join [CacheDir r, take 2 digest, digest]"

definition cacheHit :: "fs \<Rightarrow> string \<Rightarrow> string \<Rightarrow> bool" where
  "cacheHit fs dir target \<longleftrightarrow> regular fs target \<and> regular fs (Join [dir, ''meta.json''])"

definition placeArtifact :: "outside \<Rightarrow> PlatformEntry \<Rightarrow> string \<Rightarrow> string \<Rightarrow> string \<Rightarrow> unit sprog" where
  "placeArtifact w entry src stageDir dst = s_bnd (s_ask (ow_canceled w)) (\<lambda>canceled.
     if canceled then s_throw ArtifactOther
     else if pe_Format entry \<noteq> Raw then archive_extract w (pe_Format entry) src stageDir (decompressionBudget (pe_Size entry))
     else s_then (os_MkdirAll w (Dir dst)) (os_Rename w src dst))"

text \<open>Fetch, verify and lay out the artifact in the stage; the whole of it or an error.\<close>

definition stage_artifact :: "outside \<Rightarrow> Descriptor \<Rightarrow> PlatformEntry \<Rightarrow> options \<Rightarrow> string \<Rightarrow> string \<Rightarrow> unit sprog" where
  "stage_artifact w desc entry opts stage tmp =
    s_bnd (fetchAsset w (hd (pe_Providers entry)) opts tmp) (\<lambda>(digest, sz).
      if sz \<noteq> pe_Size entry then s_throw ErrSizeMismatch
      else if digest \<noteq> pe_Digest entry then s_throw ErrChecksumMismatch
      else s_bnd (s_lift (safeJoin stage (pe_Path entry))) (\<lambda>stageEntry.
        s_then (placeArtifact w entry tmp stage stageEntry)
          (s_bnd (s_read (\<lambda>fs. regular fs stageEntry)) (\<lambda>there.
            if \<not> there then s_throw ErrInvalidDescriptor
            else s_then (durable_SyncDir w stageEntry)
              (s_then (writeCacheMeta w stage \<lparr> cm_Name = de_Name desc, cm_Tag = pv_Tag (hd (pe_Providers entry)),
                 cm_Digest = pe_Digest entry, cm_Source = [], cm_FetchedAt = 0 \<rparr>)
                (durable_SyncDir w stage))))))"

definition publish_stage :: "outside \<Rightarrow> string \<Rightarrow> string \<Rightarrow> unit sprog" where
  "publish_stage w stage dir = s_then (os_RemoveAll w dir) (os_Rename w stage dir)"

definition materializeReleaseBinary :: "outside \<Rightarrow> Descriptor \<Rightarrow> PlatformEntry \<Rightarrow> string \<Rightarrow> options \<Rightarrow> unit sprog" where
  "materializeReleaseBinary w desc entry dir opts = (let shardDir = Dir dir in
     s_then (os_MkdirAll w shardDir) (s_bnd (os_MkdirTemp w shardDir ''.stage-'') (\<lambda>stage.
       s_bnd (on_failure (os_RemoveAll w stage) (s_bnd (os_CreateTemp w shardDir ''.download-'') (\<lambda>tmp.
         deferring (os_Remove w tmp)
           (s_then (stage_artifact w desc entry opts stage tmp)
             (s_then (publish_stage w stage dir) (s_tried (durable_SyncDir w shardDir)))))))
       s_lift)))"

definition resolveReleaseBinary :: "outside \<Rightarrow> string \<Rightarrow> Descriptor \<Rightarrow> options \<Rightarrow> string sprog" where
  "resolveReleaseBinary w r desc opts = s_bnd (s_lift (CurrentPlatform (fst (ow_platform w)) (snd (ow_platform w)))) (\<lambda>platform.
     case map_of (de_Platforms desc) platform of
       None \<Rightarrow> s_throw ErrUnsupportedPlatform
     | Some entry \<Rightarrow> (let dir = digestDir r (pe_Digest entry) in
         s_bnd (s_lift (safeJoin dir (pe_Path entry))) (\<lambda>target. s_bnd (s_read (\<lambda>fs. cacheHit fs dir target)) (\<lambda>hit.
           if hit then s_ret target
           else s_then (withLock w r (''release:'' @ pe_Digest entry) (s_bnd (s_read (\<lambda>fs. cacheHit fs dir target)) (\<lambda>hit.
               if hit then s_ret () else materializeReleaseBinary w desc entry dir opts)))
             (s_ret target)))))"

subsection \<open>Python tools (pythontool.go)\<close>

definition installedMarker :: string where "installedMarker = ''.installed''"

definition toolLockKey :: "string \<Rightarrow> string \<Rightarrow> string" where "toolLockKey pkg version = ''tool:'' @ pkg @ ''@'' @ version"

text \<open>\<open>filepath.EvalSymlinks\<close>: the path with every link resolved, or an error when more than \<open>n\<close> were met.\<close>

fun eval_links :: "nat \<Rightarrow> fs \<Rightarrow> string list \<Rightarrow> string list \<Rightarrow> string list option" where
  "eval_links n fs seen [] = Some seen"
| "eval_links n fs seen (e # rest) =
    (if e = [] \<or> e = ''.'' then eval_links n fs seen rest
     else if e = ''..'' then eval_links n fs (butlast seen) rest
     else case fs (seen @ [e]) of
       None \<Rightarrow> None
     | Some (Link t) \<Rightarrow> (case n of 0 \<Rightarrow> None | Suc left \<Rightarrow> eval_links left fs (if IsAbs t then [] else seen) (path_elems t @ rest))
     | Some _ \<Rightarrow> eval_links n fs (seen @ [e]) rest)"

definition realEntrypoint :: "string \<Rightarrow> string sprog" where
  "realEntrypoint link = (\<lambda>s. case st_fs s (path_elems link) of
      None \<Rightarrow> (Failed ArtifactOther, s)
    | Some (Link t) \<Rightarrow> (case eval_links 255 (st_fs s) [] (path_elems link) of
        None \<Rightarrow> (Failed ArtifactOther, s) | Some q \<Rightarrow> (Done (rooted_path q), s))
    | Some _ \<Rightarrow> (Done link, s))"

text \<open>What \<^verbatim>\<open>uv tool install\<close> leaves under its tool directory, in order.\<close>

definition laid :: "string list \<Rightarrow> (string list \<times> fnode) list \<Rightarrow> fs \<Rightarrow> fs" where
  "laid d files fs = foldl (\<lambda>fs (k, n). fs(d @ k \<mapsto> n)) fs files"

definition installTool :: "outside \<Rightarrow> string \<Rightarrow> string \<Rightarrow> string \<Rightarrow> string \<Rightarrow> unit sprog" where
  "installTool w pkg version toolDir binDir = s_then (os_MkdirAll w binDir)
    (s_bnd (s_ask (\<lambda>t. ow_uv w t pkg version)) (\<lambda>(files, ok).
      s_then (s_io w (on_fs (laid (path_elems toolDir) files)) (\<lambda>j. on_fs (laid (path_elems toolDir) (take j files))))
        (if ok then s_ret () else s_throw ArtifactOther)))"

definition installPythonTool :: "outside \<Rightarrow> string \<Rightarrow> string \<Rightarrow> string \<Rightarrow> string \<Rightarrow> string \<Rightarrow> string \<Rightarrow> unit sprog" where
  "installPythonTool w pkg version toolDir binDir link marker = s_then (os_RemoveAll w toolDir)
    (on_failure (os_RemoveAll w toolDir)
      (s_then (installTool w pkg version toolDir binDir)
        (s_then (realEntrypoint link) (s_then (durable_SyncDir w toolDir) (store_WriteFile w marker [])))))"

definition tool_dir :: "string \<Rightarrow> string \<Rightarrow> string \<Rightarrow> aerr + string" where
  "tool_dir r pkg version = safeJoin (ToolsDir r) (Join [pkg, version])"

definition resolvePythonTool :: "outside \<Rightarrow> string \<Rightarrow> Descriptor \<Rightarrow> ToolSpec \<Rightarrow> string \<Rightarrow> string sprog" where
  "resolvePythonTool w r desc tool version =
    (let entrypoint = if ts_Entrypoint tool = [] then de_Name desc else ts_Entrypoint tool in
     s_bnd (s_lift (tool_dir r (ts_Dist tool) version)) (\<lambda>toolDir.
       let binDir = Join [toolDir, ''bin'']; marker = Join [toolDir, installedMarker] in
       s_bnd (s_lift (safeJoin binDir entrypoint)) (\<lambda>link. s_bnd (s_read (\<lambda>fs. regular fs marker)) (\<lambda>whole.
         if whole then realEntrypoint link
         else s_then (withLock w r (toolLockKey (ts_Dist tool) version) (s_bnd (s_read (\<lambda>fs. regular fs marker)) (\<lambda>whole.
             if whole then s_ret () else installPythonTool w (ts_Dist tool) version toolDir binDir link marker)))
           (realEntrypoint link)))))"

subsection \<open>Garbage collection (cache.go)\<close>

record CacheEntry =
  ce_Name :: string
  ce_Tag :: string
  ce_Digest :: string
  ce_Dir :: string
  ce_Source :: string
  ce_FetchedAt :: int

record ToolEntry =
  te_Dist :: string
  te_Version :: string
  te_Dir :: string
  te_InstalledAt :: int

definition canonicalDigestName :: "string \<Rightarrow> string \<Rightarrow> bool" where
  "canonicalDigestName shard name \<longleftrightarrow> length name = 64 \<and> isLowerHex name \<and> take 2 name = shard"

definition removeCacheEntry :: "outside \<Rightarrow> string \<Rightarrow> CacheEntry \<Rightarrow> unit sprog" where
  "removeCacheEntry w r entry = requiring (store_validate r)
    (if \<not> within_root (CacheDir r) (ce_Dir entry) then s_throw ArtifactOther
     else withLock w r (''release:'' @ ce_Digest entry) (durable_RemoveTree_at w (ce_Dir entry)))"

definition RemoveToolEntry :: "outside \<Rightarrow> string \<Rightarrow> ToolEntry \<Rightarrow> unit sprog" where
  "RemoveToolEntry w r entry = requiring (store_validate r)
    (if \<not> within_root (ToolsDir r) (te_Dir entry) then s_throw ArtifactOther
     else withLock w r (toolLockKey (te_Dist entry) (te_Version entry)) (durable_RemoveTree_at w (te_Dir entry)))"

text \<open>\<open>os.ReadDir\<close> answers an error, that there is no such directory, or its entries and which are directories.\<close>

definition readCacheEntry :: "outside \<Rightarrow> fs \<Rightarrow> string \<Rightarrow> string \<Rightarrow> CacheEntry" where
  "readCacheEntry w fs dir digest =
    (let entry = \<lparr> ce_Name = [], ce_Tag = [], ce_Digest = digest, ce_Dir = dir, ce_Source = [], ce_FetchedAt = 0 \<rparr> in
     case fs (path_elems (Join [dir, ''meta.json''])) of
       Some (File c) \<Rightarrow> (case ow_unmeta w c of
           None \<Rightarrow> entry
         | Some m \<Rightarrow> entry\<lparr>ce_Name := cm_Name m, ce_Tag := cm_Tag m, ce_Source := cm_Source m, ce_FetchedAt := cm_FetchedAt m\<rparr>)
     | _ \<Rightarrow> entry)"

primrec list_shards :: "outside \<Rightarrow> string \<Rightarrow> (string \<times> bool) list \<Rightarrow> CacheEntry list \<Rightarrow> CacheEntry list sprog" where
  "list_shards w r [] entries = s_ret entries"
| "list_shards w r (x # xs) entries = (case x of (shard, isDir) \<Rightarrow>
     if \<not> isDir \<or> length shard \<noteq> 2 \<or> \<not> isLowerHex shard then list_shards w r xs entries
     else let shardDir = Join [CacheDir r, shard] in
       s_bnd (s_ask (\<lambda>t. ow_list w t shardDir)) (\<lambda>digests. case digests of
           Some (Some ds) \<Rightarrow> s_bnd (s_read (\<lambda>fs. map (\<lambda>(d, _). readCacheEntry w fs (Join [shardDir, d]) d)
               (filter (\<lambda>(d, dir). dir \<and> canonicalDigestName shard d) ds))) (\<lambda>es. list_shards w r xs (entries @ es))
         | _ \<Rightarrow> s_throw ArtifactOther))"

definition CacheEntries :: "outside \<Rightarrow> string \<Rightarrow> CacheEntry list sprog" where
  "CacheEntries w r = requiring (store_validate r) (s_bnd (s_ask (\<lambda>t. ow_list w t (CacheDir r))) (\<lambda>shards. case shards of
      None \<Rightarrow> s_throw ArtifactOther
    | Some None \<Rightarrow> s_ret []
    | Some (Some ss) \<Rightarrow> list_shards w r ss []))"

subsection \<open>Signed apps (signedapp.go)\<close>

definition execCopyRetention :: int where "execCopyRetention = 24 * 3600 * 1000000000"

definition installedVersion :: "outside \<Rightarrow> string \<Rightarrow> string sprog" where
  "installedVersion w appPath = s_bnd (s_ask (ow_host w)) (\<lambda>h. s_lift (ShortVersion h appPath))"

definition upgrade :: "Descriptor \<Rightarrow> AppSpec \<Rightarrow> string \<Rightarrow> string \<Rightarrow> bool \<Rightarrow> aerr" where
  "upgrade desc app want got minimum = ErrManualUpgrade \<lparr> mu_Name = de_Name desc, mu_Cask = as_Cask app, mu_Formula = as_Formula app,
     mu_Want = want, mu_Got = got, mu_AtLeast = minimum \<rparr>"

definition check_installed :: "outside \<Rightarrow> Descriptor \<Rightarrow> AppSpec \<Rightarrow> string \<Rightarrow> string \<Rightarrow> unit sprog" where
  "check_installed w desc app want appPath =
    (if want \<noteq> [] then s_bnd (installedVersion w appPath) (\<lambda>installed.
       if \<not> Equal installed want then s_throw (upgrade desc app want installed False) else s_ret ())
     else if as_MinVersion app \<noteq> [] then s_bnd (installedVersion w appPath) (\<lambda>installed.
       if Newer (as_MinVersion app) installed then s_throw (upgrade desc app (as_MinVersion app) installed True) else s_ret ())
     else s_ret ())"

definition attestSignedApp :: "outside \<Rightarrow> Descriptor \<Rightarrow> AppSpec \<Rightarrow> string \<Rightarrow> string \<Rightarrow> (string \<times> fileIdentity) sprog" where
  "attestSignedApp w desc app version exec = s_bnd (s_ask (\<lambda>t. ho_home (ow_host w t))) (\<lambda>home.
    s_bnd (s_lift (expandHome home (as_Dir app))) (\<lambda>dir. s_bnd (s_lift (safeJoin dir (as_AppName app @ ''.app''))) (\<lambda>appPath.
      let want = if \<not> Dynamic (de_Version desc) then version else [] in
      s_bnd (s_ask (\<lambda>t. ow_app w t appPath)) (\<lambda>a. case a of
        AppMissing \<Rightarrow> s_throw (upgrade desc app want [] False)
      | AppUnreadable \<Rightarrow> s_throw ArtifactOther
      | AppPresent \<Rightarrow> s_then (check_installed w desc app want appPath)
          (s_bnd (s_lift (safeJoin appPath exec)) (\<lambda>entrypoint. s_bnd (s_ask (\<lambda>t. ow_entry w t entrypoint)) (\<lambda>i. case i of
              None \<Rightarrow> s_throw ErrInvalidDescriptor
            | Some identity \<Rightarrow> s_ret (entrypoint, identity))))))))"

definition execCopyKey :: "outside \<Rightarrow> Descriptor \<Rightarrow> string \<Rightarrow> string \<Rightarrow> fileIdentity \<Rightarrow> string" where
  "execCopyKey w desc version source identity =
    ow_sha w (ow_key w \<lparr> ek_Name = de_Name desc, ek_Version = version, ek_Source = source, ek_File = identity \<rparr>)"

definition requireIdentity :: "fileIdentity option \<Rightarrow> fileIdentity \<Rightarrow> unit sprog" where
  "requireIdentity opened ident = (case opened of
      None \<Rightarrow> s_throw ArtifactOther
    | Some i \<Rightarrow> if i \<noteq> ident then s_throw ErrEntrypointChanged else s_ret ())"

text \<open>\<open>durable.Create\<close> writes beside the target and \<open>Commit\<close> renames over it: until then only its temporary file is there.\<close>

definition copyExecutable :: "outside \<Rightarrow> string \<Rightarrow> string \<Rightarrow> fileIdentity \<Rightarrow> string sprog" where
  "copyExecutable w source target ident = s_bnd (s_ask (\<lambda>t. ow_open w t source)) (\<lambda>opened. case opened of
      None \<Rightarrow> s_throw ArtifactOther
    | Some f \<Rightarrow> s_then (requireIdentity (of_before f) ident)
        (if \<not> of_read f then s_throw ArtifactOther
         else s_then (requireIdentity (of_after f) ident)
           (s_then (store_WriteFile w target (of_data f)) (s_ret (ow_sha w (of_data f))))))"

definition materializeExecCopy :: "outside \<Rightarrow> Descriptor \<Rightarrow> string \<Rightarrow> string \<Rightarrow> fileIdentity \<Rightarrow> string \<Rightarrow> string \<Rightarrow> unit sprog" where
  "materializeExecCopy w desc version source identity dir target = (let shardDir = Dir dir in
     s_then (os_MkdirAll w shardDir) (s_bnd (os_MkdirTemp w shardDir ''.stage-'') (\<lambda>stage.
       s_bnd (on_failure (os_RemoveAll w stage)
         (s_bnd (copyExecutable w source (Join [stage, Base target]) identity) (\<lambda>digest.
           s_then (writeCacheMeta w stage \<lparr> cm_Name = de_Name desc, cm_Tag = version, cm_Digest = digest, cm_Source = source, cm_FetchedAt = 0 \<rparr>)
             (s_then (durable_SyncDir w stage) (s_then (publish_stage w stage dir) (s_tried (durable_SyncDir w shardDir)))))))
       s_lift)))"

primrec prune_each :: "outside \<Rightarrow> string \<Rightarrow> string \<Rightarrow> string \<Rightarrow> int \<Rightarrow> CacheEntry list \<Rightarrow> unit sprog" where
  "prune_each w r source current cutoff [] = s_ret ()"
| "prune_each w r source current cutoff (e # es) =
    (if ce_Source e \<noteq> source \<or> ce_Dir e = current \<or> ce_FetchedAt e > cutoff then prune_each w r source current cutoff es
     else s_then (s_tried (removeCacheEntry w r e)) (prune_each w r source current cutoff es))"

definition pruneExecCopies :: "outside \<Rightarrow> string \<Rightarrow> string \<Rightarrow> string \<Rightarrow> unit sprog" where
  "pruneExecCopies w r source current = s_bnd (s_tried (CacheEntries w r)) (\<lambda>es. case es of
      Inl e \<Rightarrow> s_ret ()
    | Inr entries \<Rightarrow> s_bnd (s_ask (ow_now w)) (\<lambda>now. prune_each w r source current (now - execCopyRetention) entries))"

definition resolveExecCopy :: "outside \<Rightarrow> string \<Rightarrow> Descriptor \<Rightarrow> string \<Rightarrow> string \<Rightarrow> fileIdentity \<Rightarrow> string sprog" where
  "resolveExecCopy w r desc version source identity =
    (let key = execCopyKey w desc version source identity; dir = digestDir r key; target = Join [dir, Base source] in
     s_bnd (s_read (\<lambda>fs. cacheHit fs dir target)) (\<lambda>hit.
       if hit then s_ret target
       else s_bnd (withLock w r (''release:'' @ key) (s_bnd (s_read (\<lambda>fs. cacheHit fs dir target)) (\<lambda>hit.
           if hit then s_ret False else s_then (materializeExecCopy w desc version source identity dir target) (s_ret True))))
         (\<lambda>materialized. s_then (if materialized then pruneExecCopies w r source dir else s_ret ()) (s_ret target))))"

definition resolveSignedApp :: "outside \<Rightarrow> string \<Rightarrow> Descriptor \<Rightarrow> AppSpec \<Rightarrow> string \<Rightarrow> string sprog" where
  "resolveSignedApp w r desc app version =
    (let exec = if as_Exec app = [] then Join [''Contents'', ''MacOS'', as_AppName app] else as_Exec app in
     s_bnd (attestSignedApp w desc app version exec) (\<lambda>(entrypoint, identity).
       if \<not> as_CopyExec app then s_ret entrypoint else resolveExecCopy w r desc version entrypoint identity))"

subsection \<open>Resolution (store.go)\<close>

definition store_Resolve :: "outside \<Rightarrow> string \<Rightarrow> Descriptor \<Rightarrow> options \<Rightarrow> string sprog" where
  "store_Resolve w r desc opts = requiring (store_validate r) (requiring (descriptor_Validate desc)
    (s_bnd (s_ask (ow_host w)) (\<lambda>h. s_bnd (s_lift (ResolveVersion (ow_object w) (ow_string w) h desc)) (\<lambda>version.
      case de_Kind desc of
        ReleaseBinary \<Rightarrow> resolveReleaseBinary w r desc opts
      | PythonTool \<Rightarrow> resolvePythonTool w r desc (the (de_Tool desc)) version
      | SignedApp \<Rightarrow> resolveSignedApp w r desc (the (de_App desc)) version
      | OtherKind k \<Rightarrow> s_throw ErrInvalidDescriptor))))"

end
