(* ===== verification/ArtifactSafety.thy ===== *)
theory ArtifactSafety
  imports ArtifactStore
begin

text \<open>
  What an extraction may touch, and what the cache may hold. Partial correctness of the programs of \<open>ArtifactStore\<close> is a
  triple whose last condition also covers failures and crashes. The locale \<open>extracting\<close> states what a condition on the disk must
  bear for an extraction to keep it; it is interpreted for confinement and bounds, and for provenance.
\<close>

subsection \<open>Triples\<close>

definition triple :: "(store_state \<Rightarrow> bool) \<Rightarrow> (store_state \<Rightarrow> bool) \<Rightarrow> 'a sprog \<Rightarrow> ('a \<Rightarrow> store_state \<Rightarrow> bool) \<Rightarrow> bool" where
  "triple R P m Q \<longleftrightarrow> (\<forall>s. P s \<longrightarrow> (case m s of (Done x, s') \<Rightarrow> Q x s' | (Failed e, s') \<Rightarrow> R s' | (Crashed, s') \<Rightarrow> R s'))"

lemma tripleD:
  assumes "triple R P m Q" "P s" "m s = (r, s')"
  shows "(case r of Done x \<Rightarrow> Q x s' | _ \<Rightarrow> R s')"
  using assms by (fastforce simp: triple_def split: store_outcome.splits)

lemma triple_bnd [intro]:
  assumes "triple R P m Q" and "\<And>x. triple R (Q x) (f x) S"
  shows "triple R P (s_bnd m f) S"
  unfolding triple_def
proof (intro allI impI)
  fix s assume "P s"
  obtain r s' where m: "m s = (r, s')" by (cases "m s") auto
  show "case s_bnd m f s of (Done x, s') \<Rightarrow> S x s' | (Failed e, s') \<Rightarrow> R s' | (Crashed, s') \<Rightarrow> R s'"
    using tripleD [OF assms(1) \<open>P s\<close> m] assms(2) m by (cases r) (auto simp: s_bnd_def triple_def)
qed

lemma triple_then [intro]: "triple R P m (\<lambda>_. Q) \<Longrightarrow> triple R Q n S \<Longrightarrow> triple R P (s_then m n) S"
  unfolding s_then_def by (rule triple_bnd)

lemma triple_ret [intro]: "(\<And>s. P s \<Longrightarrow> Q x s) \<Longrightarrow> triple R P (s_ret x) Q"
  by (simp add: triple_def s_ret_def)

lemma triple_throw [intro]: "(\<And>s. P s \<Longrightarrow> R s) \<Longrightarrow> triple R P (s_throw e) Q"
  by (simp add: triple_def s_throw_def)

lemma triple_lift [intro]:
  assumes "\<And>s. P s \<Longrightarrow> R s"
  shows "triple R P (s_lift r) (\<lambda>x s. P s \<and> r = Inr x)"
  using assms by (cases r) (auto simp: s_lift_def s_ret_def s_throw_def triple_def)

lemma triple_pre: "triple R P m Q \<Longrightarrow> (\<And>s. P' s \<Longrightarrow> P s) \<Longrightarrow> triple R P' m Q"
  by (simp add: triple_def)

lemma triple_post:
  assumes "triple R P m Q" "\<And>x s. Q x s \<Longrightarrow> Q' x s"
  shows "triple R P m Q'"
  using assms by (fastforce simp: triple_def split: store_outcome.splits prod.splits)

lemma triple_fact: "(p \<Longrightarrow> triple R P m Q) \<Longrightarrow> triple R (\<lambda>s. P s \<and> p) m Q"
  by (simp add: triple_def)

lemma triple_tried:
  assumes "triple R P m Q"
  shows "triple R P (s_tried m) (\<lambda>r s. case r of Inl e \<Rightarrow> R s | Inr x \<Rightarrow> Q x s)"
  unfolding triple_def
proof (intro allI impI)
  fix s assume "P s"
  obtain r s' where m: "m s = (r, s')" by (cases "m s") auto
  show "case s_tried m s of (Done x, s') \<Rightarrow> (case x of Inl e \<Rightarrow> R s' | Inr x \<Rightarrow> Q x s') | (Failed e, s') \<Rightarrow> R s' | (Crashed, s') \<Rightarrow> R s'"
    using tripleD [OF assms \<open>P s\<close> m] m by (cases r) (auto simp: s_tried_def)
qed

lemma triple_io:
  assumes "\<And>s. P s \<Longrightarrow> Q () (whole (s_tick s))" and "\<And>j s. P s \<Longrightarrow> R (part j (s_tick s))"
  shows "triple R P (s_io w whole part) Q"
  using assms by (auto simp: triple_def s_io_def split: option.splits)

lemma triple_atomic:
  assumes "\<And>s. P s \<Longrightarrow> Q () (on_fs f (s_tick s))" and "\<And>s. P s \<Longrightarrow> R (s_tick s)" and "\<And>s. P s \<Longrightarrow> R (on_fs f (s_tick s))"
  shows "triple R P (s_atomic w f) Q"
  unfolding s_atomic_def using assms by (intro triple_io) auto

text \<open>Conditions on what is on the disk and what was written: the clock is not part of them.\<close>

definition disk :: "(fs \<Rightarrow> (string list \<times> nat) list \<Rightarrow> bool) \<Rightarrow> store_state \<Rightarrow> bool" where
  "disk J s = J (st_fs s) (st_writes s)"

lemma disk_tick [simp]: "disk J (s_tick s) = disk J s"
  by (simp add: disk_def s_tick_def)

lemma disk_on_fs [simp]: "disk J (on_fs f s) = J (f (st_fs s)) (st_writes s)" "st_fs (s_tick s) = st_fs s" "st_writes (s_tick s) = st_writes s"
  by (simp_all add: disk_def on_fs_def s_tick_def)

lemma triple_ask:
  assumes "\<And>fs ws. K fs ws \<Longrightarrow> J fs ws"
  shows "triple (disk J) (disk K) (s_ask f) (\<lambda>_. disk K)"
  by (simp add: triple_def s_ask_def)

lemma triple_sync:
  assumes "\<And>fs ws. K fs ws \<Longrightarrow> J fs ws"
  shows "triple (disk J) (disk K) (durable_SyncDir w p) (\<lambda>_. disk K)"
  unfolding durable_SyncDir_def using assms by (intro triple_atomic) (simp_all add: disk_def on_fs_def s_tick_def)

subsection \<open>Paths below a directory\<close>

lemma below_append [simp]: "below d (d @ q)"
  by (simp add: below_def)

lemma below_refl [simp]: "below d d"
  by (simp add: below_def)

lemma belowE: "below d q \<Longrightarrow> (\<And>es. q = d @ es \<Longrightarrow> P) \<Longrightarrow> P"
  by (metis append_take_drop_id below_def)

lemma below_iff: "below d q \<longleftrightarrow> (\<exists>es. q = d @ es)"
  by (metis belowE below_append)

lemma below_trans: "below a b \<Longrightarrow> below b c \<Longrightarrow> below a c"
  by (auto simp: below_iff)

definition open_way :: "fs \<Rightarrow> string list \<Rightarrow> bool" where
  "open_way fs k \<longleftrightarrow> (\<forall>n. fs (take n k) = None \<or> fs (take n k) = Some Folder)"

lemma MkdirAll_cases:
  "os_MkdirAll w p s =
    (if open_way (st_fs s) (path_elems p)
     then s_io w (on_fs (made (path_elems p) (length (path_elems p)))) (\<lambda>j. on_fs (made (path_elems p) j)) s
     else (Failed ArtifactOther, s_tick s))"
proof -
  let ?k = "path_elems p"
  have "open_way (st_fs s) ?k \<longleftrightarrow> (\<forall>n < Suc (length ?k). st_fs s (take n ?k) = None \<or> st_fs s (take n ?k) = Some Folder)"
  proof
    assume h: "\<forall>n < Suc (length ?k). st_fs s (take n ?k) = None \<or> st_fs s (take n ?k) = Some Folder"
    show "open_way (st_fs s) ?k" unfolding open_way_def
    proof
      fix n
      have "take n ?k = take (min n (length ?k)) ?k" by (simp add: min_def)
      then show "st_fs s (take n ?k) = None \<or> st_fs s (take n ?k) = Some Folder"
        using h [rule_format, of "min n (length ?k)"] by simp
    qed
  qed (simp add: open_way_def)
  then have "list_ex (\<lambda>n. st_fs s (take n ?k) \<noteq> None \<and> st_fs s (take n ?k) \<noteq> Some Folder) [0..<Suc (length ?k)] \<longleftrightarrow> \<not> open_way (st_fs s) ?k"
    unfolding list_ex_iff set_upt by (auto simp del: not_None_eq)
  then show ?thesis unfolding os_MkdirAll_def Let_def by simp
qed

lemma triple_MkdirAll:
  assumes "\<And>fs ws j. K fs ws \<Longrightarrow> open_way fs (path_elems p) \<Longrightarrow> K (made (path_elems p) j fs) ws"
    and "\<And>fs ws. K fs ws \<Longrightarrow> J fs ws"
  shows "triple (disk J) (disk K) (os_MkdirAll w p) (\<lambda>_. disk K)"
  unfolding triple_def
proof (intro allI impI)
  fix s assume K: "disk K s"
  show "case os_MkdirAll w p s of (Done x, s') \<Rightarrow> disk K s' | (Failed e, s') \<Rightarrow> disk J s' | (Crashed, s') \<Rightarrow> disk J s'"
  proof (cases "open_way (st_fs s) (path_elems p)")
    case False
    then show ?thesis using K assms(2) by (simp add: MkdirAll_cases disk_def)
  next
    case True
    have "disk K (on_fs (made (path_elems p) j) (s_tick s))" for j using K True assms(1) by (simp add: disk_def on_fs_def s_tick_def)
    moreover from this have "disk J (on_fs (made (path_elems p) j) (s_tick s))" for j using assms(2) by (simp add: disk_def)
    ultimately show ?thesis using True by (auto simp: MkdirAll_cases s_io_def split: option.splits)
  qed
qed

subsection \<open>Extraction\<close>

text \<open>
  What an extraction into \<open>ds\<close> preserves. \<open>K rem ent\<close> holds while members are written, \<open>rem\<close> bytes and \<open>ent\<close> members into the
  budget; \<open>J\<close> is what is left of it when the extraction stops anywhere. \<open>ok\<close> are the contents a whole member may have.
\<close>

locale extracting =
  fixes ds :: "string list"
    and J :: "fs \<Rightarrow> (string list \<times> nat) list \<Rightarrow> bool"
    and K :: "int \<Rightarrow> nat \<Rightarrow> fs \<Rightarrow> (string list \<times> nat) list \<Rightarrow> bool"
    and ok :: "bytes \<Rightarrow> bool"
  assumes clean: "K rem ent fs ws \<Longrightarrow> list_all component ds"
    and held: "K rem ent fs ws \<Longrightarrow> J fs ws"
    and room: "K rem ent fs ws \<Longrightarrow> 0 \<le> rem \<and> rem < 2 ^ 62"
    and skipped: "K rem ent fs ws \<Longrightarrow> K rem (Suc ent) fs ws"
    and folders: "K rem ent fs ws \<Longrightarrow> below ds k \<or> below k ds \<Longrightarrow> open_way fs k \<Longrightarrow> K rem ent (made k j fs) ws"
    and whole_member: "K rem ent fs ws \<Longrightarrow> below ds k \<Longrightarrow> fs k \<noteq> Some Folder \<Longrightarrow> ent < maxArchiveEntries \<Longrightarrow>
      ok c \<Longrightarrow> int (length c) \<le> rem \<Longrightarrow>
      K (rem - int (length c)) (Suc ent) (fs(k \<mapsto> File c)) ((k, length c) # ws)"
    and part_member: "K rem ent fs ws \<Longrightarrow> below ds k \<Longrightarrow> fs k \<noteq> Some Folder \<Longrightarrow> ent < maxArchiveEntries \<Longrightarrow>
      int (length c) \<le> rem + 1 \<Longrightarrow> J (fs(k \<mapsto> File c)) ((k, length c) # ws)"
begin

lemma target_elems:
  assumes clean: "list_all component ds" and join: "safeJoin (rooted_path ds) name = Inr target"
  shows "below ds (path_elems target)" "below ds (path_elems (Dir target)) \<or> below (path_elems (Dir target)) ds"
proof -
  obtain es where es: "list_all component es" "target = rooted_path (ds @ es)" using safeJoin_below [OF clean join] by blast
  have t: "path_elems target = ds @ es" using es clean path_elems_rooted [of "ds @ es"] by simp
  then show "below ds (path_elems target)" by simp
  show "below ds (path_elems (Dir target)) \<or> below (path_elems (Dir target)) ds"
  proof (cases "ds @ es" rule: rev_cases)
    case Nil
    then show ?thesis by (simp add: below_def)
  next
    case (snoc us u)
    have c: "component u" "list_all component us" using snoc es(1) clean by (metis list_all_append list.pred_inject(2))+
    then have "path_elems (Dir target) = us" using es(2) snoc Dir_rooted path_elems_rooted by simp
    moreover have "below ds us \<or> below us ds"
      using snoc by (cases es rule: rev_cases) (auto simp: below_iff)
    ultimately show ?thesis by simp
  qed
qed

lemma writes_member:
  assumes "below ds (path_elems target)" and "ok content" and "ent < maxArchiveEntries"
  shows "triple (disk J) (disk (K rem ent)) (writeArchiveFile w target content torn rem) (\<lambda>rem'. disk (K rem' (Suc ent)))"
  unfolding triple_def
proof (intro allI impI)
  fix s assume s: "disk (K rem ent) s"
  let ?k = "path_elems target" and ?c = "take (nat (rem + 1)) content"
  have rem: "0 \<le> rem" "rem < 2 ^ 62" using s room by (auto simp: disk_def)
  then have limit: "nat (wrap64 (rem + 1)) = nat (rem + 1)" by (simp add: wrap64_id in_int64_def)
  have tick: "disk (K rem ent) (s_tick s)" using s by simp
  note m = writeArchiveFile_def [of w target content torn rem] limit
  show "case writeArchiveFile w target content torn rem s of
      (Done x, s') \<Rightarrow> disk (K x (Suc ent)) s' | (Failed e, s') \<Rightarrow> disk J s' | (Crashed, s') \<Rightarrow> disk J s'"
  proof (cases "\<not> parent_ok (st_fs s) ?k \<or> st_fs s ?k = Some Folder")
    case True
    then show ?thesis using s held by (simp add: m Let_def disk_def)
  next
    case False
    have short: "int (length (take j ?c)) \<le> rem + 1" for j using rem by simp
    have part: "disk J (wrote ?k (take j ?c) (s_tick s))" for j
      using part_member [OF _ assms(1) _ assms(3) short, of "st_fs s" "st_writes s" j] s False
      by (simp add: disk_def wrote_def s_tick_def)
    have J: "triple (disk J) (\<lambda>s'. s' = s) (s_io w (wrote ?k ?c) (\<lambda>j. wrote ?k (take j ?c))) (\<lambda>_ s'. s' = wrote ?k ?c (s_tick s))"
      using part by (intro triple_io) auto
    have Jc: "disk J (wrote ?k ?c (s_tick s))" using part [of "nat (rem + 1)"] by simp
    have K: "disk (K (rem - int (length ?c)) (Suc ent)) (wrote ?k ?c (s_tick s))" if "\<not> int (length ?c) > rem"
    proof -
      have "length content \<le> nat rem" using that rem(1) by (auto simp: min_def split: if_splits)
      then have c: "?c = content" "int (length content) \<le> rem" using rem(1) by auto
      then show ?thesis
        using whole_member [OF _ assms(1) _ assms(3,2) c(2), of "st_fs s" "st_writes s"] s False
        by (simp add: disk_def wrote_def s_tick_def)
    qed
    have tail: "triple (disk J) (\<lambda>s'. s' = wrote ?k ?c (s_tick s))
        (if torn \<and> length content < nat (rem + 1) then s_throw ArtifactOther
         else if int (length ?c) > rem then s_throw ErrUnsafeArchive
         else s_then (durable_SyncDir w target) (s_ret (rem - int (length ?c)))) (\<lambda>x. disk (K x (Suc ent)))"
    proof (cases "torn \<and> length content < nat (rem + 1) \<or> int (length ?c) > rem")
      case True
      then show ?thesis using Jc by (auto intro!: triple_throw)
    next
      case ok: False
      have "triple (disk J) (disk (K (rem - int (length ?c)) (Suc ent)))
        (s_then (durable_SyncDir w target) (s_ret (rem - int (length ?c)))) (\<lambda>x. disk (K x (Suc ent)))"
        by (rule triple_then [OF triple_sync]) (use held in auto)
      then have "triple (disk J) (\<lambda>s'. s' = wrote ?k ?c (s_tick s))
        (s_then (durable_SyncDir w target) (s_ret (rem - int (length ?c)))) (\<lambda>x. disk (K x (Suc ent)))"
        by (rule triple_pre) (use K ok in auto)
      then show ?thesis using ok by (simp only: if_False de_Morgan_disj)
    qed
    show ?thesis using triple_then [OF J tail] False limit by (simp add: m Let_def triple_def)
  qed
qed

lemma admitted:
  assumes "\<And>b' target. admit b n = Inr b' \<Longrightarrow> safeJoin (rooted_path ds) name = Inr target \<Longrightarrow>
    triple (disk J) (disk (K (ab_remaining b) (ab_entries b))) (f b' target) Q"
  shows "triple (disk J) (disk (K (ab_remaining b) (ab_entries b)))
    (s_bnd (s_lift (admit b n)) (\<lambda>b. s_bnd (s_lift (safeJoin (rooted_path ds) name)) (f b))) Q"
proof (rule triple_bnd [OF triple_lift])
  fix b'
  show "triple (disk J) (\<lambda>s. disk (K (ab_remaining b) (ab_entries b)) s \<and> admit b n = Inr b')
    (s_bnd (s_lift (safeJoin (rooted_path ds) name)) (f b')) Q"
  proof (rule triple_fact)
    assume "admit b n = Inr b'"
    note f = assms [OF this]
    show "triple (disk J) (disk (K (ab_remaining b) (ab_entries b))) (s_bnd (s_lift (safeJoin (rooted_path ds) name)) (f b')) Q"
      using held by (intro triple_bnd [OF triple_lift] triple_fact f) (auto simp: disk_def)
  qed
qed (use held in \<open>auto simp: disk_def\<close>)

lemma folder_member:
  assumes "below ds (path_elems p) \<or> below (path_elems p) ds"
  shows "triple (disk J) (disk (K rem ent)) (os_MkdirAll w p) (\<lambda>_. disk (K rem ent))"
  using folders assms held by (intro triple_MkdirAll) auto

lemma next_member: "triple (disk J) (disk (K rem (Suc ent))) m Q \<Longrightarrow> triple (disk J) (disk (K rem ent)) m Q"
  using skipped by (elim triple_pre) (auto simp: disk_def)

lemma asked:
  assumes "\<And>c. triple (disk J) (disk (K rem ent)) (f c) Q"
  shows "triple (disk J) (disk (K rem ent)) (s_bnd (s_ask g) f) Q"
  by (rule triple_bnd [OF triple_ask]) (use held assms in auto)

lemma stopped [intro]: "triple (disk J) (disk (K rem ent)) (s_throw e) Q"
  using held by (intro triple_throw) (auto simp: disk_def)

lemma tar_keeps_clean:
  assumes "list_all component ds" and "\<forall>m \<in> set ms. ok (tm_data m)"
  shows "triple (disk J) (disk (K (ab_remaining b) (ab_entries b))) (tar_loop w (rooted_path ds) eof ms b) (\<lambda>_. disk (\<lambda>fs ws. \<exists>rem ent. K rem ent fs ws))"
  using assms(2)
proof (induction ms arbitrary: b)
  case Nil
  show ?case using held unfolding tar_loop.simps by (intro asked) (auto simp: disk_def triple_def s_ret_def s_throw_def)
next
  case (Cons m ms)
  note IH = Cons.IH
  have ok: "ok (tm_data m)" and rest: "\<forall>m \<in> set ms. ok (tm_data m)" using Cons.prems by auto
  have member: "triple (disk J) (disk (K (ab_remaining b) (ab_entries b)))
      (case tm_Typeflag m of
         TypeDir \<Rightarrow> s_then (os_MkdirAll w target) (tar_loop w (rooted_path ds) eof ms b')
       | TypeReg \<Rightarrow> s_then (os_MkdirAll w (Dir target))
           (s_bnd (writeArchiveFile w target (tm_data m) (tm_torn m) (ab_remaining b')) (\<lambda>remaining.
             tar_loop w (rooted_path ds) eof ms (b'\<lparr>ab_remaining := remaining\<rparr>)))
       | TypeSymlink \<Rightarrow> s_throw ErrUnsafeArchive
       | TypeLink \<Rightarrow> s_throw ErrUnsafeArchive
       | TypeOther \<Rightarrow> tar_loop w (rooted_path ds) eof ms b') (\<lambda>_. disk (\<lambda>fs ws. \<exists>rem ent. K rem ent fs ws))"
    if a: "admit b (tm_Size m) = Inr b'" and t: "safeJoin (rooted_path ds) (tm_Name m) = Inr target" for b' target
  proof -
    note adm = admit_bounds [OF a] and tgt = target_elems [OF assms(1) t]
    have on: "triple (disk J) (disk (K (ab_remaining b) (ab_entries b))) (tar_loop w (rooted_path ds) eof ms b') (\<lambda>_. disk (\<lambda>fs ws. \<exists>rem ent. K rem ent fs ws))"
      using next_member IH [OF rest, of b'] adm(1,3) by simp
    have wr: "triple (disk J) (disk (K (ab_remaining b) (ab_entries b)))
        (s_bnd (writeArchiveFile w target (tm_data m) (tm_torn m) (ab_remaining b')) (\<lambda>remaining.
           tar_loop w (rooted_path ds) eof ms (b'\<lparr>ab_remaining := remaining\<rparr>))) (\<lambda>_. disk (\<lambda>fs ws. \<exists>rem ent. K rem ent fs ws))"
    proof (rule triple_bnd)
      show "triple (disk J) (disk (K (ab_remaining b) (ab_entries b))) (writeArchiveFile w target (tm_data m) (tm_torn m) (ab_remaining b'))
        (\<lambda>rem. disk (K rem (Suc (ab_entries b))))"
        using writes_member [OF tgt(1) ok] adm(1-3) by simp
      show "triple (disk J) (disk (K rem (Suc (ab_entries b)))) (tar_loop w (rooted_path ds) eof ms (b'\<lparr>ab_remaining := rem\<rparr>))
        (\<lambda>_. disk (\<lambda>fs ws. \<exists>rem ent. K rem ent fs ws))" for rem
        using IH [OF rest, of "b'\<lparr>ab_remaining := rem\<rparr>"] adm(1) by simp
    qed
    show ?thesis
      using triple_then [OF folder_member on, of target] triple_then [OF folder_member [OF tgt(2)] wr] on tgt(1) stopped
      by (cases "tm_Typeflag m") auto
  qed
  show ?case unfolding tar_loop.simps
  proof (rule asked)
    fix c
    show "triple (disk J) (disk (K (ab_remaining b) (ab_entries b)))
      (if c then s_throw ArtifactOther else s_bnd (s_lift (admit b (tm_Size m))) (\<lambda>b. s_bnd (s_lift (safeJoin (rooted_path ds) (tm_Name m))) (\<lambda>target.
       case tm_Typeflag m of
         TypeDir \<Rightarrow> s_then (os_MkdirAll w target) (tar_loop w (rooted_path ds) eof ms b)
       | TypeReg \<Rightarrow> s_then (os_MkdirAll w (Dir target))
           (s_bnd (writeArchiveFile w target (tm_data m) (tm_torn m) (ab_remaining b)) (\<lambda>remaining.
             tar_loop w (rooted_path ds) eof ms (b\<lparr>ab_remaining := remaining\<rparr>)))
       | TypeSymlink \<Rightarrow> s_throw ErrUnsafeArchive
       | TypeLink \<Rightarrow> s_throw ErrUnsafeArchive
       | TypeOther \<Rightarrow> tar_loop w (rooted_path ds) eof ms b))) (\<lambda>_. disk (\<lambda>fs ws. \<exists>rem ent. K rem ent fs ws))"
      using admitted [of b "tm_Size m" "tm_Name m", OF member] stopped by auto
  qed
qed

lemma zip_keeps_clean:
  assumes "list_all component ds" and "\<forall>m \<in> set ms. ok (zm_data m)"
  shows "triple (disk J) (disk (K (ab_remaining b) (ab_entries b))) (zip_loop w (rooted_path ds) ms b)
    (\<lambda>_. disk (\<lambda>fs ws. \<exists>rem ent. K rem ent fs ws))"
  using assms(2)
proof (induction ms arbitrary: b)
  case Nil
  show ?case by (auto simp: disk_def triple_def s_ret_def)
next
  case (Cons m ms)
  let ?Q = "\<lambda>_. disk (\<lambda>fs ws. \<exists>rem ent. K rem ent fs ws)"
  note IH = Cons.IH
  have ok: "ok (zm_data m)" and rest: "\<forall>m \<in> set ms. ok (zm_data m)" using Cons.prems by auto
  have member: "triple (disk J) (disk (K (ab_remaining b) (ab_entries b)))
      (if zm_IsDir m then s_then (os_MkdirAll w target) (zip_loop w (rooted_path ds) ms b')
       else if zm_Symlink m then s_throw ErrUnsafeArchive
       else s_then (os_MkdirAll w (Dir target))
         (if \<not> zm_opens m then s_throw ArtifactOther
          else s_bnd (writeArchiveFile w target (zm_data m) (zm_torn m) (ab_remaining b')) (\<lambda>remaining.
            zip_loop w (rooted_path ds) ms (b'\<lparr>ab_remaining := remaining\<rparr>)))) ?Q"
    if a: "admit b (int (zm_UncompressedSize64 m)) = Inr b'" and t: "safeJoin (rooted_path ds) (zm_Name m) = Inr target" for b' target
  proof -
    note adm = admit_bounds [OF a] and tgt = target_elems [OF assms(1) t]
    have on: "triple (disk J) (disk (K (ab_remaining b) (ab_entries b))) (zip_loop w (rooted_path ds) ms b') ?Q"
      using next_member IH [OF rest, of b'] adm(1,3) by simp
    have wr: "triple (disk J) (disk (K (ab_remaining b) (ab_entries b)))
        (s_bnd (writeArchiveFile w target (zm_data m) (zm_torn m) (ab_remaining b')) (\<lambda>remaining.
           zip_loop w (rooted_path ds) ms (b'\<lparr>ab_remaining := remaining\<rparr>))) ?Q"
    proof (rule triple_bnd)
      show "triple (disk J) (disk (K (ab_remaining b) (ab_entries b))) (writeArchiveFile w target (zm_data m) (zm_torn m) (ab_remaining b'))
        (\<lambda>rem. disk (K rem (Suc (ab_entries b))))"
        using writes_member [OF tgt(1) ok] adm(1-3) by simp
      show "triple (disk J) (disk (K rem (Suc (ab_entries b)))) (zip_loop w (rooted_path ds) ms (b'\<lparr>ab_remaining := rem\<rparr>)) ?Q" for rem
        using IH [OF rest, of "b'\<lparr>ab_remaining := rem\<rparr>"] adm(1) by simp
    qed
    show ?thesis
      using triple_then [OF folder_member on, of target] triple_then [OF folder_member [OF tgt(2)] wr]
        triple_then [OF folder_member [OF tgt(2)] stopped] on tgt(1) stopped by auto
  qed
  show ?case unfolding zip_loop.simps
  proof (rule asked)
    fix c
    show "triple (disk J) (disk (K (ab_remaining b) (ab_entries b)))
      (if c then s_throw ArtifactOther else if zm_UncompressedSize64 m > 2 ^ 63 - 1 then s_throw ErrUnsafeArchive
       else s_bnd (s_lift (admit b (int (zm_UncompressedSize64 m)))) (\<lambda>b. s_bnd (s_lift (safeJoin (rooted_path ds) (zm_Name m))) (\<lambda>target.
       if zm_IsDir m then s_then (os_MkdirAll w target) (zip_loop w (rooted_path ds) ms b)
       else if zm_Symlink m then s_throw ErrUnsafeArchive
       else s_then (os_MkdirAll w (Dir target))
         (if \<not> zm_opens m then s_throw ArtifactOther
          else s_bnd (writeArchiveFile w target (zm_data m) (zm_torn m) (ab_remaining b)) (\<lambda>remaining.
            zip_loop w (rooted_path ds) ms (b\<lparr>ab_remaining := remaining\<rparr>)))))) ?Q"
      using admitted [of b "int (zm_UncompressedSize64 m)" "zm_Name m", OF member] stopped by auto
  qed
qed

lemma file_read:
  "triple (disk J) (disk (K rem ent)) (file_bytes src) (\<lambda>c s. disk (K rem ent) s \<and> st_fs s (path_elems src) = Some (File c))"
  using held by (auto simp: triple_def file_bytes_def s_bnd_def s_read_def s_ret_def s_throw_def disk_def split: option.splits fnode.splits)

text \<open>An extraction preserves the condition, whatever the archive holds, if the members of the file it reads are admissible.\<close>

lemma extract_keeps:
  assumes start: "\<And>fs ws. P fs ws \<Longrightarrow> K maxBytes 0 fs ws"
    and tar: "\<And>fs ws c ms eof m. P fs ws \<Longrightarrow> fs (path_elems src) = Some (File c) \<Longrightarrow> ow_untar w c = Some (ms, eof) \<Longrightarrow> m \<in> set ms \<Longrightarrow> ok (tm_data m)"
    and zip: "\<And>fs ws c ms m. P fs ws \<Longrightarrow> fs (path_elems src) = Some (File c) \<Longrightarrow> ow_unzip w c = Some ms \<Longrightarrow> m \<in> set ms \<Longrightarrow> ok (zm_data m)"
  shows "triple (disk J) (disk P) (archive_extract w format src (rooted_path ds) maxBytes) (\<lambda>_. disk (\<lambda>fs ws. \<exists>rem ent. K rem ent fs ws))"
  unfolding triple_def
proof (intro allI impI)
  fix s assume P: "disk P s"
  then have K: "disk (K maxBytes 0) s" using start by (simp add: disk_def)
  then have c: "list_all component ds" using clean by (auto simp: disk_def)
  have b: "ab_remaining (new_budget maxBytes) = maxBytes" "ab_entries (new_budget maxBytes) = 0" by (simp_all add: new_budget_def)
  show "case archive_extract w format src (rooted_path ds) maxBytes s of
      (Done x, s') \<Rightarrow> disk (\<lambda>fs ws. \<exists>rem ent. K rem ent fs ws) s' | (Failed e, s') \<Rightarrow> disk J s' | (Crashed, s') \<Rightarrow> disk J s'"
  proof (cases "\<exists>d. st_fs s (path_elems src) = Some (File d)")
    case False
    then have "file_bytes src s = (Failed ArtifactOther, s)"
      by (auto simp: file_bytes_def s_bnd_def s_read_def s_throw_def split: option.splits fnode.splits)
    then show ?thesis using K held
      by (auto simp: archive_extract_def extractTarGz_def extractZip_def s_bnd_def s_throw_def disk_def split: Format.splits)
  next
    case True
    then obtain d where d: "st_fs s (path_elems src) = Some (File d)" by blast
    then have f: "file_bytes src s = (Done d, s)" by (simp add: file_bytes_def s_bnd_def s_read_def s_ret_def)
    have t: "\<forall>m \<in> set ms. ok (tm_data m)" if "ow_untar w d = Some (ms, eof)" for ms eof using tar [of "st_fs s" "st_writes s"] d that P unfolding disk_def by blast
    have z: "\<forall>m \<in> set ms. ok (zm_data m)" if "ow_unzip w d = Some ms" for ms using zip [of "st_fs s" "st_writes s"] d that P unfolding disk_def by blast
    note ts = tar_keeps_clean [OF c t, of _ _ "new_budget maxBytes", unfolded b] and zs = zip_keeps_clean [OF c z, of _ "new_budget maxBytes", unfolded b]
    show ?thesis using ts zs K f held
      by (auto simp: archive_extract_def extractTarGz_def extractZip_def s_bnd_def s_throw_def triple_def disk_def split: Format.splits option.splits)
  qed
qed

end

subsection \<open>Confinement\<close>

definition framed :: "string list \<Rightarrow> fs \<Rightarrow> fs \<Rightarrow> bool" where
  "framed ds fs0 fs \<longleftrightarrow> (\<forall>n. fs0 (take n ds) = Some Folder) \<and> (\<forall>q. \<not> below ds q \<longrightarrow> fs q = fs0 q)
    \<and> (\<forall>q t. fs q = Some (Link t) \<longrightarrow> fs0 q = Some (Link t))"

definition budget_spent :: "string list \<Rightarrow> (string list \<times> nat) list \<Rightarrow> (string list \<times> nat) list \<Rightarrow> nat \<Rightarrow> int \<Rightarrow> bool" where
  "budget_spent ds ws0 ws members cap \<longleftrightarrow> (\<exists>new. ws = new @ ws0 \<and> length new \<le> members
    \<and> int (sum_list (map snd new)) \<le> cap \<and> (\<forall>(k, n) \<in> set new. below ds k))"

lemma spent_more: "budget_spent ds ws0 ws a x \<Longrightarrow> a \<le> b \<Longrightarrow> x \<le> y \<Longrightarrow> budget_spent ds ws0 ws b y"
  by (force simp: budget_spent_def)

lemma spent_write: "budget_spent ds ws0 ws a x \<Longrightarrow> below ds k \<Longrightarrow> budget_spent ds ws0 ((k, n) # ws) (Suc a) (x + int n)"
  unfolding budget_spent_def by (elim exE, rule_tac x = "(k, n) # new" in exI) auto

lemma framed_made:
  assumes "framed ds fs0 fs" and "below ds k \<or> below k ds"
  shows "framed ds fs0 (made k j fs)"
proof -
  have way: "fs0 q = Some Folder" if q: "below q k" "\<not> below ds q" for q
  proof -
    have "below q ds"
    proof (cases "below k ds")
      case True
      then show ?thesis using below_trans q(1) by blast
    next
      case False
      then obtain es us where "ds @ es = q @ us" using assms(2) q(1) unfolding below_iff by metis
      then show ?thesis using q(2) unfolding append_eq_append_conv2 below_iff by blast
    qed
    then have "q = take (length q) ds" by (simp add: below_def)
    moreover have "fs0 (take (length q) ds) = Some Folder" using assms(1) unfolding framed_def by blast
    ultimately show ?thesis by simp
  qed
  note f = assms(1) [unfolded framed_def]
  show ?thesis unfolding framed_def
  proof (intro conjI allI impI)
    show "fs0 (take n ds) = Some Folder" for n using f by blast
    show "made k j fs q = fs0 q" if n: "\<not> below ds q" for q
    proof -
      have "fs q = fs0 q" using f n by blast
      then show ?thesis using way [of q] n by (simp add: made_def)
    qed
    show "fs0 q = Some (Link t)" if "made k j fs q = Some (Link t)" for q t
    proof -
      have "fs q = Some (Link t)" using that by (simp add: made_def split: if_splits)
      then show ?thesis using f by blast
    qed
  qed
qed

lemma framed_write: "framed ds fs0 fs \<Longrightarrow> below ds k \<Longrightarrow> framed ds fs0 (fs(k \<mapsto> File c))"
  unfolding framed_def fun_upd_def by (intro conjI allI impI) (metis fnode.distinct(5) option.inject)+

definition confined :: "string list \<Rightarrow> fs \<Rightarrow> (string list \<times> nat) list \<Rightarrow> int \<Rightarrow> fs \<Rightarrow> (string list \<times> nat) list \<Rightarrow> bool" where
  "confined ds fs0 ws0 cap fs ws \<longleftrightarrow> framed ds fs0 fs \<and> budget_spent ds ws0 ws maxArchiveEntries (cap + 1)"

definition confining :: "string list \<Rightarrow> fs \<Rightarrow> (string list \<times> nat) list \<Rightarrow> int \<Rightarrow> int \<Rightarrow> nat \<Rightarrow> fs \<Rightarrow> (string list \<times> nat) list \<Rightarrow> bool" where
  "confining ds fs0 ws0 cap rem ent fs ws \<longleftrightarrow> list_all component ds \<and> framed ds fs0 fs \<and> 0 \<le> rem \<and> rem \<le> cap \<and> cap < 2 ^ 62
    \<and> budget_spent ds ws0 ws (min ent maxArchiveEntries) (cap - rem)"

interpretation extraction: extracting ds "confined ds fs0 ws0 cap" "confining ds fs0 ws0 cap" "\<lambda>_. True" for ds fs0 ws0 cap
proof
  fix rem ent and fs :: fs and ws k j
  assume K: "confining ds fs0 ws0 cap rem ent fs ws"
  then show "list_all component ds" "0 \<le> rem \<and> rem < 2 ^ 62" by (auto simp: confining_def)
  have s: "budget_spent ds ws0 ws (min ent maxArchiveEntries) (cap - rem)" using K by (simp add: confining_def)
  show "confined ds fs0 ws0 cap fs ws" using K spent_more [OF s, of maxArchiveEntries "cap + 1"] by (auto simp: confining_def confined_def)
  show "confining ds fs0 ws0 cap rem (Suc ent) fs ws"
    using K spent_more [OF s, of "min (Suc ent) maxArchiveEntries" "cap - rem"] by (auto simp: confining_def)
  show "confining ds fs0 ws0 cap rem ent (made k j fs) ws" if "below ds k \<or> below k ds" "open_way fs k"
    using K framed_made [OF _ that(1)] by (simp add: confining_def)
  fix c :: bytes
  assume k: "below ds k" "fs k \<noteq> Some Folder" "ent < maxArchiveEntries"
  have w: "budget_spent ds ws0 ((k, length c) # ws) (Suc ent) (cap - rem + int (length c))"
    using spent_write [OF s k(1), of "length c"] k(3) by simp
  show "confining ds fs0 ws0 cap (rem - int (length c)) (Suc ent) (fs(k \<mapsto> File c)) ((k, length c) # ws)" if "True" "int (length c) \<le> rem"
  proof -
    have "budget_spent ds ws0 ((k, length c) # ws) (min (Suc ent) maxArchiveEntries) (cap - (rem - int (length c)))"
      using spent_more [OF w, of "min (Suc ent) maxArchiveEntries" "cap - (rem - int (length c))"] k(3) by simp
    then show ?thesis using K that(2) k(1) framed_write [of ds fs0 fs k c] by (simp add: confining_def)
  qed
  show "confined ds fs0 ws0 cap (fs(k \<mapsto> File c)) ((k, length c) # ws)" if "int (length c) \<le> rem + 1"
    using K spent_more [OF w, of maxArchiveEntries "cap + 1"] that k framed_write [of ds fs0 fs k c] by (simp add: confining_def confined_def)
qed

text \<open>
  C36: An extraction is confined and bounded, whatever the archive holds, however its members lie about their names and sizes, and
  wherever it fails or crashes. Into an existing clean absolute directory, nothing outside that directory changes, no
  symbolic link comes to be, at most 1024 files are opened, all below the directory, and they receive in all at most one byte more
  than the budget; an extraction that returns stayed within the budget.
\<close>

theorem archive_confined:
  assumes dest: "IsAbs dest" "Clean dest = dest" and there: "\<forall>n. st_fs s (take n (path_elems dest)) = Some Folder"
    and budget: "0 \<le> maxBytes" "maxBytes < 2 ^ 62" and run: "archive_extract w format src dest maxBytes s = (r, s')"
  shows "(\<forall>q. \<not> below (path_elems dest) q \<longrightarrow> st_fs s' q = st_fs s q)
    \<and> (\<forall>q t. st_fs s' q = Some (Link t) \<longrightarrow> st_fs s q = Some (Link t))
    \<and> (\<exists>new. st_writes s' = new @ st_writes s \<and> length new \<le> 1024 \<and> (\<forall>(k, n) \<in> set new. below (path_elems dest) k)
        \<and> int (sum_list (map snd new)) \<le> (if r = Done () then maxBytes else maxBytes + 1))"
proof -
  obtain ds where ds: "list_all component ds" "dest = rooted_path ds" using Clean_absolute [OF dest(1)] dest(2) by metis
  have e: "path_elems dest = ds" using ds path_elems_rooted by simp
  let ?K = "confining ds (st_fs s) (st_writes s) maxBytes" and ?J = "confined ds (st_fs s) (st_writes s) maxBytes"
  have "?K maxBytes 0 (st_fs s) (st_writes s)" using ds(1) there budget by (auto simp: confining_def framed_def budget_spent_def e)
  then have start: "disk (?K maxBytes 0) s" by (simp add: disk_def)
  have t: "triple (disk ?J) (disk (?K maxBytes 0)) (archive_extract w format src (rooted_path ds) maxBytes) (\<lambda>_. disk (\<lambda>fs ws. \<exists>rem ent. ?K rem ent fs ws))"
    by (rule extraction.extract_keeps) auto
  have "framed ds (st_fs s) (st_fs s') \<and> budget_spent ds (st_writes s) (st_writes s') 1024 (if r = Done () then maxBytes else maxBytes + 1)"
    using tripleD [OF t start, of r s'] run ds(2)
    by (cases r) (auto simp: disk_def confined_def confining_def maxArchiveEntries_def intro: spent_more)
  then show ?thesis unfolding framed_def budget_spent_def e by blast
qed

subsection \<open>Sample stores\<close>

definition sample_digest :: string where "sample_digest = replicate 64 CHR ''a''"

definition quiet_host :: "bytes host" where
  "quiet_host = \<lparr> ho_home = Some ''/h'', ho_plist = (\<lambda>_. None), ho_read = (\<lambda>_. None), ho_run = (\<lambda>_. None) \<rparr>"

definition sample_members :: "tar_member list" where
  "sample_members = [\<lparr> tm_Name = ''bin/tool'', tm_Size = 2, tm_Typeflag = TypeReg, tm_data = [1, 2], tm_torn = False \<rparr>]"

text \<open>A world without faults whose downloads are three bytes, an archive of one member.\<close>

definition calm_outside :: outside where
  "calm_outside = \<lparr> ow_fault = (\<lambda>_. None), ow_kept = (\<lambda>_ _. False), ow_temp = (\<lambda>t. [t]), ow_canceled = (\<lambda>_. False), ow_parent = (\<lambda>_. False),
     ow_lock = (\<lambda>_. True), ow_get = (\<lambda>_ _ _ _. Response 200 [7, 8, 9] True), ow_tagged = (\<lambda>_ _ _. None), ow_token = (\<lambda>_. []),
     ow_now = (\<lambda>_. 0), ow_sha = (\<lambda>_. sample_digest), ow_meta = (\<lambda>_. []), ow_untar = (\<lambda>_. Some (sample_members, True)), ow_unzip = (\<lambda>_. None),
     ow_platform = (''linux'', ''amd64''), ow_host = (\<lambda>_. quiet_host), ow_object = (\<lambda>_. None), ow_string = (\<lambda>_. None),
     ow_app = (\<lambda>_ _. AppMissing), ow_entry = (\<lambda>_ _. None), ow_open = (\<lambda>_ _. None), ow_key = (\<lambda>_. []), ow_unmeta = (\<lambda>_. None),
     ow_list = (\<lambda>_ _. Some None), ow_uv = (\<lambda>_ _ _. ([([''bin'', ''ruff''], File [1])], True)) \<rparr>"

definition no_options :: options where "no_options = \<lparr> op_githubToken = [], op_tokenSource = False, op_uv = [] \<rparr>"

definition new_store :: store_state where
  "new_store = \<lparr> st_tick = 0, st_fs = (\<lambda>q. if length q \<le> 1 then Some Folder else None), st_writes = [] \<rparr>"

definition archive_store :: store_state where
  "archive_store = new_store\<lparr>st_fs := (st_fs new_store)([''src''] \<mapsto> File [7, 8, 9])\<rparr>"

lemma archive_sample:
  "fst (archive_extract calm_outside TarGz ''/src'' ''/h'' 100 archive_store) = Done ()"
  "st_writes (snd (archive_extract calm_outside TarGz ''/src'' ''/h'' 100 archive_store)) = [([''h'', ''bin'', ''tool''], 2)]"
  "IsAbs ''/h'' \<and> Clean ''/h'' = ''/h'' \<and> path_elems ''/h'' = [''h'']"
  by code_simp+

theorem archive_confined_witness:
  "fst (archive_extract calm_outside TarGz ''/src'' ''/h'' 100 archive_store) = Done ()
    \<and> st_fs (snd (archive_extract calm_outside TarGz ''/src'' ''/h'' 100 archive_store)) [''etc'', ''hosts''] = st_fs archive_store [''etc'', ''hosts'']
    \<and> st_writes (snd (archive_extract calm_outside TarGz ''/src'' ''/h'' 100 archive_store)) = [([''h'', ''bin'', ''tool''], 2)]"
proof -
  let ?x = "archive_extract calm_outside TarGz ''/src'' ''/h'' 100 archive_store"
  have way: "\<forall>n. st_fs archive_store (take n (path_elems ''/h'')) = Some Folder"
    using archive_sample(3) by (auto simp: archive_store_def new_store_def take_Cons')
  have run: "?x = (Done (), snd ?x)" using surjective_pairing [of ?x] unfolding archive_sample(1) .
  have b: "(0 :: int) \<le> 100" "(100 :: int) < 2 ^ 62" by simp_all
  note c = archive_confined [OF archive_sample(3) [THEN conjunct1] archive_sample(3) [THEN conjunct2, THEN conjunct1] way b run, THEN conjunct1]
  have "\<not> below (path_elems ''/h'') [''etc'', ''hosts'']" using archive_sample(3) by (simp add: below_def)
  then show ?thesis using c archive_sample by blast
qed

end
