(* ===== verification/ArtifactCache.thy ===== *)
theory ArtifactCache
  imports ArtifactSafety
begin

text \<open>
  Provenance of the cache: whatever sequence of resolutions and removals ran, and wherever each of them failed or crashed,
  a file of a digest directory came from bytes with that digest, or is the copy of an installed entrypoint whose key has that
  digest. \<^verbatim>\<open>meta.json\<close>, which the store writes itself, is the one exception.
\<close>

subsection \<open>Triples of the file operations\<close>

lemma triple_done [simp]: "triple R P (s_ret x) Q \<longleftrightarrow> (\<forall>s. P s \<longrightarrow> Q x s)" "triple R P (s_throw e) Q \<longleftrightarrow> (\<forall>s. P s \<longrightarrow> R s)"
  by (simp_all add: triple_def s_ret_def s_throw_def)

lemma triple_RemoveAll:
  assumes "\<And>fs ws g. K fs ws \<Longrightarrow> K (\<lambda>q. if below (path_elems p) q \<and> g q then None else fs q) ws" and "\<And>fs ws. K fs ws \<Longrightarrow> J fs ws"
  shows "triple (disk J) (disk K) (os_RemoveAll w p) (\<lambda>_. disk K)"
proof -
  have whole: "K (\<lambda>q. if below (path_elems p) q then None else fs q) ws" if "K fs ws" for fs ws
    using assms(1) [OF that, of "\<lambda>_. True"] by simp
  show ?thesis using assms(1) whole assms(2)
    by (auto simp: triple_def os_RemoveAll_def Let_def s_io_def disk_def on_fs_def s_tick_def split: option.splits)
qed

lemma triple_temp:
  assumes "\<And>fs ws r. K fs ws \<Longrightarrow> Q (Join [dir, pattern @ show_nat r]) (fresh (path_elems dir @ [pattern @ show_nat r]) n fs) ws"
    and "\<And>fs ws. K fs ws \<Longrightarrow> J fs ws" and "\<And>p fs ws. Q p fs ws \<Longrightarrow> J fs ws"
  shows "triple (disk J) (disk K) (temp_named w n dir pattern) (\<lambda>p. disk (Q p))"
  using assms
  by (fastforce simp: triple_def temp_named_def Let_def s_then_def s_bnd_def s_atomic_def s_io_def s_ret_def disk_def on_fs_def s_tick_def
      split: option.splits)

lemma triple_WriteFile:
  assumes "\<And>fs ws. K fs ws \<Longrightarrow> parent_ok fs (path_elems p) \<Longrightarrow> fs (path_elems p) \<noteq> Some Folder \<Longrightarrow> Q (fs(path_elems p \<mapsto> File c)) ws"
    and "\<And>fs ws. K fs ws \<Longrightarrow> J fs ws" and "\<And>fs ws. Q fs ws \<Longrightarrow> J fs ws"
  shows "triple (disk J) (disk K) (store_WriteFile w p c) (\<lambda>_. disk Q)"
  using assms
  by (auto simp: triple_def store_WriteFile_def Let_def s_atomic_def s_io_def disk_def on_fs_def s_tick_def split: option.splits)

lemma triple_Remove:
  assumes "\<And>fs ws. K fs ws \<Longrightarrow> K (fs(path_elems p := None)) ws" and "\<And>fs ws. K fs ws \<Longrightarrow> J fs ws"
  shows "triple (disk J) (disk K) (os_Remove w p) (\<lambda>_. disk K)"
  using assms
  by (auto simp: triple_def os_Remove_def Let_def s_atomic_def s_io_def disk_def on_fs_def s_tick_def split: option.splits fnode.splits)

lemma triple_Rename:
  assumes "\<And>fs ws. K fs ws \<Longrightarrow> fs (path_elems a) = Some Folder \<Longrightarrow> fs (path_elems b) = None \<Longrightarrow> Q (renamed_tree (path_elems a) (path_elems b) fs) ws"
    and "\<And>fs ws n. K fs ws \<Longrightarrow> fs (path_elems a) = Some n \<Longrightarrow> n \<noteq> Folder \<Longrightarrow> fs (path_elems b) \<noteq> Some Folder \<Longrightarrow> Q (fs(path_elems b \<mapsto> n, path_elems a := None)) ws"
    and "\<And>fs ws. K fs ws \<Longrightarrow> J fs ws" and "\<And>fs ws. Q fs ws \<Longrightarrow> J fs ws"
  shows "triple (disk J) (disk K) (os_Rename w a b) (\<lambda>_. disk Q)"
  using assms
  by (auto simp: triple_def os_Rename_def Let_def s_atomic_def s_io_def disk_def on_fs_def s_tick_def split: option.splits fnode.splits)

lemma triple_read: "triple (disk J) (disk K) (s_read f) (\<lambda>x s. disk K s \<and> x = f (st_fs s))"
  by (simp add: triple_def s_read_def)

lemma triple_tried_always:
  assumes "triple R R d (\<lambda>_. R)"
  shows "triple R R (s_tried d) (\<lambda>_. R)"
proof -
  have "(\<lambda>r s. case r of Inl e \<Rightarrow> R s | Inr x \<Rightarrow> R s) = (\<lambda>r :: aerr + 'a. R)" by (intro ext) (simp split: sum.splits)
  then show ?thesis using triple_tried [OF assms] by simp
qed

lemma triple_on_failure:
  assumes "triple R P m Q" and "triple R R d (\<lambda>_. R)"
  shows "triple R P (on_failure d m) Q"
  unfolding on_failure_def
proof (rule triple_bnd [OF triple_tried [OF assms(1)]])
  fix r
  show "triple R (\<lambda>s. case r of Inl e \<Rightarrow> R s | Inr x \<Rightarrow> Q x s) (case r of Inr x \<Rightarrow> s_ret x | Inl e \<Rightarrow> s_then (s_tried d) (s_throw e)) Q"
    using triple_then [OF triple_tried_always [OF assms(2)] triple_throw] by (cases r) auto
qed

lemma triple_crash: "triple R P m Q \<Longrightarrow> (\<And>s. R s \<Longrightarrow> R' s) \<Longrightarrow> triple R' P m Q"
  by (fastforce simp: triple_def split: store_outcome.splits prod.splits)

lemma triple_deferring:
  assumes "triple R P m Q" and "triple R R d (\<lambda>_. R)" and "\<And>x. triple (Q x) (Q x) d (\<lambda>_. Q x)" and "\<And>x s. Q x s \<Longrightarrow> R s"
  shows "triple R P (deferring d m) Q"
  unfolding deferring_def
proof (rule triple_bnd [OF triple_tried [OF assms(1)]])
  fix r
  show "triple R (\<lambda>s. case r of Inl e \<Rightarrow> R s | Inr x \<Rightarrow> Q x s) (s_then (s_tried d) (s_lift r)) Q"
  proof (cases r)
    case (Inl e)
    then show ?thesis using triple_then [OF triple_tried_always [OF assms(2)] triple_throw] by (auto simp: s_lift_def)
  next
    case (Inr x)
    have "triple R (Q x) (s_tried d) (\<lambda>_. Q x)" using triple_crash [OF triple_tried_always [OF assms(3)]] assms(4) by blast
    then show ?thesis using Inr by (auto simp: s_lift_def intro!: triple_then)
  qed
qed

subsection \<open>Provenance\<close>

definition derived :: "outside \<Rightarrow> bytes \<Rightarrow> bytes \<Rightarrow> bool" where
  "derived w data c \<longleftrightarrow> c = data \<or> (\<exists>ms eof. ow_untar w data = Some (ms, eof) \<and> c \<in> tm_data ` set ms)
    \<or> (\<exists>ms. ow_unzip w data = Some ms \<and> c \<in> zm_data ` set ms)"

definition traced :: "outside \<Rightarrow> string \<Rightarrow> bytes \<Rightarrow> bool" where
  "traced w digest c \<longleftrightarrow> (\<exists>data. ow_sha w data = digest \<and> (derived w data c \<or> data \<in> range (ow_key w)))"

definition sound_node :: "outside \<Rightarrow> string \<Rightarrow> string list \<Rightarrow> fnode option \<Rightarrow> bool" where
  "sound_node w digest rest n \<longleftrightarrow> (case n of Some (File c) \<Rightarrow> rest = [''meta.json''] \<or> traced w digest c | Some (Link t) \<Rightarrow> False | _ \<Rightarrow> True)"

definition verified :: "outside \<Rightarrow> string list \<Rightarrow> fs \<Rightarrow> bool" where
  "verified w cd fs \<longleftrightarrow> (\<forall>shard digest rest. canonicalDigestName shard digest \<longrightarrow> sound_node w digest rest (fs (cd @ shard # digest # rest)))"

definition stray :: "string list \<Rightarrow> string list \<Rightarrow> bool" where
  "stray cd k \<longleftrightarrow> (\<forall>shard digest rest. canonicalDigestName shard digest \<longrightarrow> k \<noteq> cd @ shard # digest # rest)"

lemma sound_plain [simp]: "sound_node w digest rest None" "sound_node w digest rest (Some Folder)"
  by (simp_all add: sound_node_def)

lemma verified_change:
  assumes "verified w cd fs" and "\<And>q. fs' q = fs q \<or> fs' q = None \<or> fs' q = Some Folder \<or> stray cd q"
  shows "verified w cd fs'"
  unfolding verified_def
proof (intro allI impI)
  fix shard digest rest
  assume c: "canonicalDigestName shard digest"
  then have "\<not> stray cd (cd @ shard # digest # rest)" by (auto simp: stray_def)
  then show "sound_node w digest rest (fs' (cd @ shard # digest # rest))"
    using assms(2) [of "cd @ shard # digest # rest"] assms(1) c unfolding verified_def by (auto simp del: not_None_eq)
qed

lemma stray_dot: "stray cd (cd @ shard # (CHR ''.'' # x) # es)"
  by (auto simp: stray_def canonicalDigestName_def isLowerHex_def)

lemma stray_outside: "\<not> below cd k \<Longrightarrow> stray cd k"
  by (auto simp: stray_def)

lemma verified_ops:
  assumes "verified w cd fs"
  shows "verified w cd (made k j fs)" "verified w cd (\<lambda>q. if below k q \<and> g q then None else fs q)" "verified w cd (fs(k := None))"
    "stray cd k \<Longrightarrow> verified w cd (fs(k := n))"
  using assms by (auto elim!: verified_change simp: made_def split: if_splits)

lemma verified_fresh_folder: "verified w cd fs \<Longrightarrow> verified w cd (fresh k Folder fs)"
  by (erule verified_change) (simp add: fresh_def)

lemma verified_fresh: "verified w cd fs \<Longrightarrow> stray cd k \<Longrightarrow> verified w cd (fresh k n fs)"
  by (erule verified_change) (simp add: fresh_def)

subsection \<open>Staging\<close>

text \<open>The files of a stage have admissible contents; those of \<open>E\<close> are there.\<close>

definition stage_sound :: "(bytes \<Rightarrow> bool) \<Rightarrow> string list \<Rightarrow> fs \<Rightarrow> bool" where
  "stage_sound ok st fs \<longleftrightarrow> (\<forall>rest. case fs (st @ rest) of Some (File c) \<Rightarrow> rest = [''meta.json''] \<or> ok c | Some (Link t) \<Rightarrow> False | _ \<Rightarrow> True)"

definition filed :: "string list set \<Rightarrow> string list \<Rightarrow> fs \<Rightarrow> bool" where
  "filed E d fs \<longleftrightarrow> (\<forall>es \<in> E. \<exists>c. fs (d @ es) = Some (File c))"

definition stage_path :: "string list \<Rightarrow> string list \<Rightarrow> bool" where
  "stage_path cd st \<longleftrightarrow> list_all component st \<and> (\<exists>shard x. st = cd @ [shard, CHR ''.'' # x])"

lemma stage_stray: "stage_path cd st \<Longrightarrow> below st k \<Longrightarrow> stray cd k"
  using stray_dot by (auto simp: stage_path_def below_iff)

lemma staged_change:
  assumes "stage_sound ok st fs" and "\<And>rest. fs' (st @ rest) = fs (st @ rest) \<or> fs' (st @ rest) = None \<or> fs' (st @ rest) = Some Folder
    \<or> (\<exists>c. fs' (st @ rest) = Some (File c) \<and> (ok c \<or> rest = [''meta.json'']))"
  shows "stage_sound ok st fs'"
  unfolding stage_sound_def
proof
  fix rest
  show "case fs' (st @ rest) of Some (File c) \<Rightarrow> rest = [''meta.json''] \<or> ok c | Some (Link t) \<Rightarrow> False | _ \<Rightarrow> True"
    using assms(2) [of rest] assms(1) [unfolded stage_sound_def, rule_format, of rest] by (auto split: option.splits fnode.splits)
qed

definition tracing :: "outside \<Rightarrow> string list \<Rightarrow> (bytes \<Rightarrow> bool) \<Rightarrow> string list \<Rightarrow> int \<Rightarrow> nat \<Rightarrow> fs \<Rightarrow> (string list \<times> nat) list \<Rightarrow> bool" where
  "tracing w cd ok st rem ent fs ws \<longleftrightarrow> stage_path cd st \<and> 0 \<le> rem \<and> rem < 2 ^ 62 \<and> verified w cd fs \<and> stage_sound ok st fs
    \<and> fs st = Some Folder"

interpretation provenance: extracting st "\<lambda>fs ws. verified w cd fs" "tracing w cd ok st" ok for w cd ok st
proof
  fix rem ent and fs :: fs and ws k j
  assume K: "tracing w cd ok st rem ent fs ws"
  then show "list_all component st" "verified w cd fs" "0 \<le> rem \<and> rem < 2 ^ 62" "tracing w cd ok st rem (Suc ent) fs ws"
    by (auto simp: tracing_def stage_path_def)
  have v: "stage_path cd st" "verified w cd fs" "stage_sound ok st fs" using K by (simp_all add: tracing_def)
  show "tracing w cd ok st rem ent (made k j fs) ws" if "below st k \<or> below k st" "open_way fs k"
    using K verified_ops(1) [OF v(2)] staged_change [OF v(3), of "made k j fs"] by (simp add: tracing_def made_def)
  fix c :: bytes
  assume k: "below st k" "fs k \<noteq> Some Folder"
  show "verified w cd (fs(k \<mapsto> File c))" using verified_ops(4) [OF v(2) stage_stray [OF v(1) k(1)]] .
  then show "tracing w cd ok st (rem - int (length c)) (Suc ent) (fs(k \<mapsto> File c)) ((k, length c) # ws)" if "ok c" "int (length c) \<le> rem"
    using K k(2) that staged_change [OF v(3), of "fs(k \<mapsto> File c)"] by (auto simp: tracing_def)
qed

text \<open>Publishing a stage over a digest directory: what was staged is what the directory then holds.\<close>

lemma moved_verified:
  assumes "verified w cd fs" "stage_sound ok (cd @ [shard, stage]) fs" "canonicalDigestName shard digest" "\<And>c. ok c \<Longrightarrow> traced w digest c"
  shows "verified w cd (renamed_tree (cd @ [shard, stage]) (cd @ [shard, digest]) fs)"
  unfolding verified_def
proof (intro allI impI)
  fix shard' digest' rest
  assume c: "canonicalDigestName shard' digest'"
  let ?q = "cd @ shard' # digest' # rest"
  show "sound_node w digest' rest (renamed_tree (cd @ [shard, stage]) (cd @ [shard, digest]) fs ?q)"
  proof (cases "below (cd @ [shard, digest]) ?q")
    case True
    then have same: "shard' = shard" "digest' = digest" by (auto simp: below_def)
    then have "renamed_tree (cd @ [shard, stage]) (cd @ [shard, digest]) fs ?q = fs ((cd @ [shard, stage]) @ rest)" by (simp add: renamed_tree_def below_def)
    then show ?thesis using assms(2) [unfolded stage_sound_def, rule_format, of rest] assms(4) same
      by (auto simp: sound_node_def split: option.splits fnode.splits)
  next
    case False
    then show ?thesis using assms(1) [unfolded verified_def, rule_format, OF c, of rest] by (simp add: renamed_tree_def)
  qed
qed

lemma publish_verified:
  assumes st: "path_elems stage = cd @ [shard, CHR ''.'' # x]" and dir: "path_elems dir = cd @ [shard, digest]"
    and canon: "canonicalDigestName shard digest" and ok: "\<And>c. ok c \<Longrightarrow> traced w digest c"
  shows "triple (disk (\<lambda>fs ws. verified w cd fs))
    (disk (\<lambda>fs ws. verified w cd fs \<and> stage_sound ok (path_elems stage) fs \<and> filed E (path_elems stage) fs \<and> fs (path_elems stage) = Some Folder)) (publish_stage w stage dir)
    (\<lambda>_. disk (\<lambda>fs ws. verified w cd fs \<and> filed E (path_elems dir) fs))"
proof -
  let ?st = "cd @ [shard, CHR ''.'' # x]"
  have apart: "\<not> below (cd @ [shard, digest]) (?st @ rest)" for rest
    using canon by (auto simp: below_def canonicalDigestName_def isLowerHex_def)
  let ?K = "\<lambda>fs ws. verified w cd fs \<and> stage_sound ok ?st fs \<and> filed E ?st fs \<and> fs ?st = Some Folder"
  have remove: "?K (\<lambda>q. if below (path_elems dir) q \<and> g q then None else fs q) ws" if "?K fs ws" for fs :: fs and ws :: "(string list \<times> nat) list" and g
    using that verified_ops(2) [of w cd fs] apart apart [of "[]"] by (auto simp: dir stage_sound_def filed_def simp del: append.assoc append_assoc)
  have move: "verified w cd (renamed_tree ?st (cd @ [shard, digest]) fs) \<and> filed E (cd @ [shard, digest]) (renamed_tree ?st (cd @ [shard, digest]) fs)"
    if "?K fs ws" for fs :: fs and ws :: "(string list \<times> nat) list"
    using that moved_verified [where fs = fs and ok = ok, OF _ _ canon ok] by (auto simp: filed_def renamed_tree_def below_def)
  show ?thesis unfolding publish_stage_def st
    by (rule triple_then [OF triple_RemoveAll [of ?K] triple_Rename]) (use remove move in \<open>auto simp: st dir\<close>)
qed

subsection \<open>Downloads\<close>

definition bare :: "string list \<Rightarrow> fs \<Rightarrow> bool" where
  "bare st fs \<longleftrightarrow> fs st = Some Folder \<and> (\<forall>rest. fs (st @ rest) = None \<or> fs (st @ rest) = Some Folder)"

definition ready :: "outside \<Rightarrow> string list \<Rightarrow> string list \<Rightarrow> fs \<Rightarrow> (string list \<times> nat) list \<Rightarrow> bool" where
  "ready w cd st fs ws \<longleftrightarrow> verified w cd fs \<and> bare st fs"

definition fetched_to :: "outside \<Rightarrow> string list \<Rightarrow> string list \<Rightarrow> string list \<Rightarrow> string \<times> int \<Rightarrow> fs \<Rightarrow> (string list \<times> nat) list \<Rightarrow> bool" where
  "fetched_to w cd st tk x fs ws \<longleftrightarrow> ready w cd st fs ws \<and> (\<exists>data. fs tk = Some (File data) \<and> fst x = ow_sha w data \<and> snd x = int (length data))"

lemma ready_verified: "ready w cd st fs ws \<Longrightarrow> verified w cd fs"
  by (simp add: ready_def)

lemma ready_write: "ready w cd st fs ws \<Longrightarrow> stray cd k \<Longrightarrow> \<not> below st k \<Longrightarrow> ready w cd st (fs(k \<mapsto> n)) ws"
  using verified_ops(4) by (auto simp: ready_def bare_def)

lemmas triple_asked = triple_bnd [OF triple_ask]

lemma triple_case_sum: "(\<And>a. r = Inl a \<Longrightarrow> triple R P (f a) Q) \<Longrightarrow> (\<And>b. r = Inr b \<Longrightarrow> triple R P (g b) Q) \<Longrightarrow>
    triple R P (case r of Inl a \<Rightarrow> f a | Inr b \<Rightarrow> g b) Q"
  by (cases r) auto

lemma download_lands:
  assumes tk: "stray cd (path_elems tmp)" "\<not> below st (path_elems tmp)"
  shows "triple (disk (\<lambda>fs ws. verified w cd fs)) (disk (ready w cd st)) (download w url token accept tmp)
    (\<lambda>r. case r of Inl _ \<Rightarrow> disk (ready w cd st) | Inr x \<Rightarrow> disk (fetched_to w cd st (path_elems tmp) x))"
  (is "triple ?V ?R _ ?Q")
proof -
  have copy: "triple ?V ?R (s_tried (streamed w (path_elems tmp) body))
      (\<lambda>c. disk (\<lambda>fs ws. ready w cd st fs ws \<and> (c = Inr () \<longrightarrow> fetched_to w cd st (path_elems tmp) (ow_sha w body, int (length body)) fs ws)))" for body
    using ready_write [OF _ tk] ready_write [OF _ tk, THEN ready_verified]
    by (auto simp: triple_def streamed_def s_tried_def s_io_def disk_def fetched_to_def on_fs_def s_tick_def split: option.splits)
  have tail: "triple ?V (disk (\<lambda>fs ws. ready w cd st fs ws \<and> (c = Inr () \<longrightarrow> fetched_to w cd st (path_elems tmp) (ow_sha w body, int (length body)) fs ws)))
      (s_bnd (s_tried (durable_SyncDir w tmp)) (\<lambda>synced.
            if c \<noteq> Inr () \<or> \<not> ended then s_ret (Inl True)
            else if synced \<noteq> Inr () then s_ret (Inl False)
            else s_ret (Inr (ow_sha w body, int (length body))))) ?Q" for body ended and c :: "aerr + unit"
    using ready_verified
    by (auto simp: triple_def durable_SyncDir_def s_bnd_def s_tried_def s_atomic_def s_io_def s_ret_def disk_def fetched_to_def on_fs_def s_tick_def split: option.splits)
  show ?thesis unfolding download_def
  proof (rule triple_asked)
    fix a
    show "triple ?V ?R (case a of
      BadRequest \<Rightarrow> s_ret (Inl False)
    | NoResponse \<Rightarrow> s_ret (Inl True)
    | Response status body ended \<Rightarrow>
        if status \<noteq> 200 then s_ret (Inl (status \<ge> 500 \<or> status = 429))
        else s_bnd (s_read (\<lambda>fs. regular fs tmp)) (\<lambda>there.
          if \<not> there then s_ret (Inl False)
          else s_bnd (s_tried (streamed w (path_elems tmp) body)) (\<lambda>copied. s_bnd (s_tried (durable_SyncDir w tmp)) (\<lambda>synced.
            if copied \<noteq> Inr () \<or> \<not> ended then s_ret (Inl True)
            else if synced \<noteq> Inr () then s_ret (Inl False)
            else s_ret (Inr (ow_sha w body, int (length body))))))) ?Q"
    proof (cases a)
      case (Response status body ended)
      have "triple ?V (\<lambda>s. ?R s \<and> there = regular (st_fs s) tmp)
        (if \<not> there then s_ret (Inl False)
          else s_bnd (s_tried (streamed w (path_elems tmp) body)) (\<lambda>copied. s_bnd (s_tried (durable_SyncDir w tmp)) (\<lambda>synced.
            if copied \<noteq> Inr () \<or> \<not> ended then s_ret (Inl True)
            else if synced \<noteq> Inr () then s_ret (Inl False)
            else s_ret (Inr (ow_sha w body, int (length body)))))) ?Q" for there
        using triple_bnd [OF copy [where body = body] tail [where body = body and ended = ended]] by (auto elim: triple_pre)
      then show ?thesis using Response by (auto intro!: triple_bnd [OF triple_read])
    qed auto
  qed (simp add: ready_verified)
qed

lemma retry_lands:
  assumes "triple (disk J) (disk K) attempt (\<lambda>r. case r of Inl _ \<Rightarrow> disk K | Inr x \<Rightarrow> disk (Q x))" and KJ: "\<And>fs ws. K fs ws \<Longrightarrow> J fs ws"
  shows "triple (disk J) (disk K) (retry_from w attempt n) (\<lambda>r. case r of Inl _ \<Rightarrow> disk K | Inr x \<Rightarrow> disk (Q x))"
proof (induction n)
  case 0
  show ?case unfolding retry_from.simps
    by (rule triple_bnd [OF assms(1)]) (auto split: sum.splits)
next
  case (Suc n)
  have "triple (disk J) (disk K) (s_bnd (s_ask (ow_canceled w)) (\<lambda>canceled.
        if \<not> again \<or> canceled then s_ret (Inl False)
        else s_bnd (s_ask (ow_canceled w)) (\<lambda>expired. if expired then s_ret (Inl False) else retry_from w attempt n)))
      (\<lambda>r. case r of Inl _ \<Rightarrow> disk K | Inr x \<Rightarrow> disk (Q x))" for again
    by (intro triple_asked conjI impI KJ) (use Suc.IH triple_asked KJ in \<open>auto intro!: triple_asked\<close>)
  then show ?case unfolding retry_from.simps
    by (intro triple_bnd [OF assms(1)]) (auto split: sum.splits)
qed

lemma fetchAsset_lands:
  assumes tk: "stray cd (path_elems tmp)" "\<not> below st (path_elems tmp)"
  shows "triple (disk (\<lambda>fs ws. verified w cd fs)) (disk (ready w cd st)) (fetchAsset w provider opts tmp)
    (\<lambda>x. disk (fetched_to w cd st (path_elems tmp) x))"
  (is "triple ?V ?R _ ?Q")
proof -
  let ?F = "\<lambda>r :: fetched. case r of Inl _ \<Rightarrow> ?R | Inr x \<Rightarrow> ?Q x"
  note dl = download_lands [OF tk, of w]
  have RV: "\<And>s. ?R s \<Longrightarrow> ?V s" by (simp add: disk_def ready_def)
  have tagged: "triple ?V ?R (fetch_tagged w provider token tmp) ?F" for token
    unfolding fetch_tagged_def using dl by (auto intro!: triple_asked ready_verified split: option.splits)
  have token: "triple ?V ?R (apiToken w opts) (\<lambda>_. ?R)"
    unfolding apiToken_def using triple_ask [of "ready w cd st" "\<lambda>fs ws. verified w cd fs" "ow_token w"] ready_verified by auto
  have api: "triple ?V ?R (retryDownload w (fetch_tagged w provider token tmp)) ?F" for token
    unfolding retryDownload_def by (rule retry_lands [OF tagged ready_verified])
  have direct: "triple ?V ?R (retryDownload w (download w u t [] tmp)) ?F" for u t
    unfolding retryDownload_def by (rule retry_lands [OF dl ready_verified])
  have second: "triple ?V ?R (s_bnd (s_ask (ow_parent w)) (\<lambda>ended.
        if ended then s_throw ArtifactOther
        else s_bnd (apiToken w opts) (\<lambda>token. s_bnd (retryDownload w (fetch_tagged w provider token tmp)) (\<lambda>r.
          case r of Inr x \<Rightarrow> s_ret x | Inl _ \<Rightarrow> s_throw ErrDownload)))) ?Q"
  proof (rule triple_asked)
    fix ended
    have "triple ?V ?R (s_bnd (apiToken w opts) (\<lambda>token. s_bnd (retryDownload w (fetch_tagged w provider token tmp)) (\<lambda>r.
          case r of Inr x \<Rightarrow> s_ret x | Inl _ \<Rightarrow> s_throw ErrDownload))) ?Q"
      by (intro triple_bnd [OF token] triple_bnd [OF api]) (use RV in \<open>auto split: sum.splits\<close>)
    then show "triple ?V ?R (if ended then s_throw ArtifactOther
        else s_bnd (apiToken w opts) (\<lambda>token. s_bnd (retryDownload w (fetch_tagged w provider token tmp)) (\<lambda>r.
          case r of Inr x \<Rightarrow> s_ret x | Inl _ \<Rightarrow> s_throw ErrDownload))) ?Q" using RV by auto
  qed (simp add: ready_verified)
  show ?thesis unfolding fetchAsset_def
  proof (rule triple_bnd [OF triple_lift])
    fix u
    show "triple ?V (\<lambda>s. ?R s \<and> Provider_URL provider = Inr u) (s_bnd (retryDownload w (download w u (op_githubToken opts) [] tmp)) (\<lambda>r. case r of
      Inr x \<Rightarrow> s_ret x
    | Inl _ \<Rightarrow> s_bnd (s_ask (ow_parent w)) (\<lambda>ended.
        if ended then s_throw ArtifactOther
        else s_bnd (apiToken w opts) (\<lambda>token. s_bnd (retryDownload w (fetch_tagged w provider token tmp)) (\<lambda>r.
          case r of Inr x \<Rightarrow> s_ret x | Inl _ \<Rightarrow> s_throw ErrDownload))))) ?Q"
      by (rule triple_fact, rule triple_bnd [OF direct]) (use second in \<open>auto split: sum.splits\<close>)
  qed (rule RV)
qed

subsection \<open>Laying out an artifact\<close>

lemma triple_some:
  assumes "\<And>d. triple R (P d) m Q"
  shows "triple R (\<lambda>s. \<exists>d. P d s) m Q"
  unfolding triple_def
proof (intro allI impI, elim exE)
  fix s d assume "P d s"
  then show "case m s of (Done x, s') \<Rightarrow> Q x s' | (Failed e, s') \<Rightarrow> R s' | (Crashed, s') \<Rightarrow> R s'"
    by (rule assms [of d, unfolded triple_def, rule_format])
qed

definition landed_as :: "outside \<Rightarrow> string list \<Rightarrow> string list \<Rightarrow> string list \<Rightarrow> bytes \<Rightarrow> fs \<Rightarrow> (string list \<times> nat) list \<Rightarrow> bool" where
  "landed_as w cd st tk data fs ws \<longleftrightarrow> ready w cd st fs ws \<and> fs tk = Some (File data)"

definition laid_out :: "outside \<Rightarrow> string list \<Rightarrow> string list \<Rightarrow> (bytes \<Rightarrow> bool) \<Rightarrow> string list set \<Rightarrow> fs \<Rightarrow> (string list \<times> nat) list \<Rightarrow> bool" where
  "laid_out w cd st ok E fs ws \<longleftrightarrow> verified w cd fs \<and> stage_sound ok st fs \<and> fs st = Some Folder \<and> filed E st fs"

lemma bare_staged: "bare st fs \<Longrightarrow> stage_sound ok st fs"
  unfolding bare_def stage_sound_def by (elim conjE, intro allI, erule_tac x = rest in allE) auto

lemma laid_out_verified: "laid_out w cd st ok E fs ws \<Longrightarrow> verified w cd fs" "landed_as w cd st tk data fs ws \<Longrightarrow> verified w cd fs"
  by (simp_all add: laid_out_def landed_as_def ready_def)

lemma landed_made:
  assumes "landed_as w cd st tk data fs ws" and "open_way fs k"
  shows "landed_as w cd st tk data (made k j fs) ws"
proof -
  have "\<not> below tk k"
  proof
    assume "below tk k"
    then have "fs (take (length tk) k) = Some (File data)" using assms(1) by (simp add: below_def landed_as_def)
    moreover have "fs (take (length tk) k) = None \<or> fs (take (length tk) k) = Some Folder" using assms(2) unfolding open_way_def by blast
    ultimately show False by simp
  qed
  then show ?thesis using assms(1) verified_ops(1) [of w cd fs k j]
    unfolding landed_as_def ready_def bare_def made_def by auto
qed

lemma landed_place:
  assumes "landed_as w cd st tk data fs ws" "stage_path cd st" "below st k" "fs k \<noteq> Some Folder" "\<not> below st tk" "stray cd tk"
  shows "laid_out w cd st (derived w data) {} (fs(k \<mapsto> File data, tk := None)) ws"
proof -
  have v: "verified w cd fs" and b: "bare st fs" using assms(1) by (auto simp: landed_as_def ready_def)
  have "verified w cd (fs(k \<mapsto> File data, tk := None))"
    using verified_ops(3) [OF verified_ops(4) [OF v stage_stray [OF assms(2,3)]]] .
  moreover have "stage_sound (derived w data) st (fs(k \<mapsto> File data, tk := None))"
    by (rule staged_change [OF bare_staged [OF b]]) (auto simp: derived_def)
  moreover have "tk \<noteq> st" using assms(5) by auto
  ultimately show ?thesis using b assms(4) by (auto simp: laid_out_def filed_def bare_def)
qed

lemma place_lays_out:
  assumes st: "stage_path cd st" and dst: "safeJoin (rooted_path st) path = Inr dst"
    and tk: "\<not> below st (path_elems tmp)" "stray cd (path_elems tmp)"
  shows "triple (disk (\<lambda>fs ws. verified w cd fs)) (disk (landed_as w cd st (path_elems tmp) data))
    (placeArtifact w entry tmp (rooted_path st) dst) (\<lambda>_. disk (laid_out w cd st (derived w data) {}))"
  (is "triple ?V ?L _ ?Q")
proof -
  have c: "list_all component st" using st by (simp add: stage_path_def)
  obtain es where es: "list_all component es" "dst = rooted_path (st @ es)" using safeJoin_below [OF c dst] by blast
  have k: "below st (path_elems dst)" using es c path_elems_rooted [of "st @ es"] by simp
  have raw: "triple ?V ?L (s_then (os_MkdirAll w (Dir dst)) (os_Rename w tmp dst)) ?Q"
  proof (rule triple_then)
    show "triple ?V ?L (os_MkdirAll w (Dir dst)) (\<lambda>_. ?L)" using landed_made laid_out_verified(2) by (intro triple_MkdirAll) auto
    show "triple ?V ?L (os_Rename w tmp dst) ?Q"
    proof (rule triple_Rename)
      fix fs :: fs and ws n
      assume L: "landed_as w cd st (path_elems tmp) data fs ws"
      then have f: "fs (path_elems tmp) = Some (File data)" by (simp add: landed_as_def)
      show "laid_out w cd st (derived w data) {} (renamed_tree (path_elems tmp) (path_elems dst) fs) ws" if "fs (path_elems tmp) = Some Folder"
        using that f by simp
      show "laid_out w cd st (derived w data) {} (fs(path_elems dst \<mapsto> n, path_elems tmp := None)) ws"
        if "fs (path_elems tmp) = Some n" "fs (path_elems dst) \<noteq> Some Folder"
        using landed_place [OF L st k that(2) tk] that(1) f by simp
    qed (use laid_out_verified in auto)
  qed
  have archive: "triple ?V ?L (archive_extract w format tmp (rooted_path st) (decompressionBudget sz)) ?Q" for format sz
  proof (rule triple_post [OF provenance.extract_keeps [where ok = "derived w data"]])
    fix fs :: fs and ws
    assume L: "landed_as w cd st (path_elems tmp) data fs ws"
    then show "tracing w cd (derived w data) st (decompressionBudget sz) 0 fs ws"
      using st decompressionBudget_range [of sz] bare_staged by (auto simp: tracing_def landed_as_def ready_def bare_def)
    show "derived w data (tm_data m)" if "fs (path_elems tmp) = Some (File c)" "ow_untar w c = Some (ms, eof)" "m \<in> set ms" for c ms eof m
      using L that by (auto simp: landed_as_def derived_def)
    show "derived w data (zm_data m)" if "fs (path_elems tmp) = Some (File c)" "ow_unzip w c = Some ms" "m \<in> set ms" for c ms m
      using L that by (auto simp: landed_as_def derived_def)
  qed (auto simp: disk_def tracing_def laid_out_def filed_def)
  show ?thesis unfolding placeArtifact_def
  proof (rule triple_asked)
    show "triple ?V ?L (if canceled then s_throw ArtifactOther
      else if pe_Format entry \<noteq> Raw then archive_extract w (pe_Format entry) tmp (rooted_path st) (decompressionBudget (pe_Size entry))
      else s_then (os_MkdirAll w (Dir dst)) (os_Rename w tmp dst)) ?Q" for canceled
      using raw archive laid_out_verified(2) by (simp add: disk_def)
  qed (rule laid_out_verified(2))
qed

lemma meta_lays_out:
  assumes st: "stage_path cd st"
  shows "triple (disk (\<lambda>fs ws. verified w cd fs)) (disk (laid_out w cd st ok E)) (writeCacheMeta w (rooted_path st) m)
    (\<lambda>_. disk (laid_out w cd st ok (insert [''meta.json''] E)))"
proof -
  have c: "list_all component st" using st by (simp add: stage_path_def)
  have m: "component ''meta.json''" by (simp add: component_def)
  have k: "path_elems (Join [rooted_path st, ''meta.json'']) = st @ [''meta.json'']"
    using Join_component [OF c m] path_elems_rooted [of "st @ [''meta.json'']"] c m by simp
  have put: "laid_out w cd st ok (insert [''meta.json''] E) (fs(st @ [''meta.json''] \<mapsto> File content)) ws" if L: "laid_out w cd st ok E fs ws" for fs ws content
  proof -
    have "stage_sound ok st (fs(st @ [''meta.json''] \<mapsto> File content))" (is "stage_sound ok st ?f")
    proof (rule staged_change)
      show "stage_sound ok st fs" using L by (simp add: laid_out_def)
      show "?f (st @ rest) = fs (st @ rest) \<or> ?f (st @ rest) = None \<or> ?f (st @ rest) = Some Folder
        \<or> (\<exists>c. ?f (st @ rest) = Some (File c) \<and> (ok c \<or> rest = [''meta.json'']))" for rest by simp
    qed
    moreover have "verified w cd (fs(st @ [''meta.json''] \<mapsto> File content))"
      using L stage_stray [OF st, of "st @ [''meta.json'']"] by (intro verified_ops(4)) (auto simp: laid_out_def)
    ultimately show ?thesis using L by (auto simp: laid_out_def filed_def)
  qed
  show ?thesis unfolding writeCacheMeta_def
    by (rule triple_asked, simp add: laid_out_verified, rule triple_WriteFile) (use put k laid_out_verified in auto)
qed

lemma stage_artifact_lays_out:
  assumes st: "stage_path cd st" and tk: "\<not> below st (path_elems tmp)" "stray cd (path_elems tmp)"
    and es: "\<And>t. safeJoin (rooted_path st) (pe_Path entry) = Inr t \<Longrightarrow> t = rooted_path (st @ es)" "list_all component es"
  shows "triple (disk (\<lambda>fs ws. verified w cd fs)) (disk (ready w cd st)) (stage_artifact w desc entry opts (rooted_path st) tmp)
    (\<lambda>_ s. \<exists>data. disk (laid_out w cd st (derived w data) {es, [''meta.json'']}) s \<and> ow_sha w data = pe_Digest entry)"
  (is "triple ?V _ _ ?Q")
proof -
  have c: "list_all component (st @ es)" using st es(2) by (simp add: stage_path_def)
  let ?meta = "\<lparr> cm_Name = de_Name desc, cm_Tag = pv_Tag (hd (pe_Providers entry)), cm_Digest = pe_Digest entry, cm_Source = [], cm_FetchedAt = 0 \<rparr>"
  have finish: "triple ?V (disk (laid_out w cd st (derived w data) {es})) (s_then (durable_SyncDir w stageEntry)
      (s_then (writeCacheMeta w (rooted_path st) ?meta) (durable_SyncDir w (rooted_path st)))) (\<lambda>_. disk (laid_out w cd st (derived w data) {es, [''meta.json'']}))"
    for data stageEntry
    unfolding insert_commute [of es]
    by (rule triple_then [OF triple_sync triple_then [OF meta_lays_out [OF st] triple_sync]]) (rule laid_out_verified, assumption)+
  have check: "triple ?V (disk (laid_out w cd st (derived w data) {})) (s_bnd (s_read (\<lambda>fs. regular fs (rooted_path (st @ es)))) (\<lambda>there.
            if \<not> there then s_throw ErrInvalidDescriptor
            else s_then (durable_SyncDir w (rooted_path (st @ es)))
              (s_then (writeCacheMeta w (rooted_path st) ?meta) (durable_SyncDir w (rooted_path st)))))
      (\<lambda>_. disk (laid_out w cd st (derived w data) {es, [''meta.json'']}))" for data
  proof (rule triple_bnd [OF triple_read])
    fix there
    show "triple ?V (\<lambda>s. disk (laid_out w cd st (derived w data) {}) s \<and> there = regular (st_fs s) (rooted_path (st @ es)))
      (if \<not> there then s_throw ErrInvalidDescriptor
            else s_then (durable_SyncDir w (rooted_path (st @ es)))
              (s_then (writeCacheMeta w (rooted_path st) ?meta) (durable_SyncDir w (rooted_path st))))
      (\<lambda>_. disk (laid_out w cd st (derived w data) {es, [''meta.json'']}))"
    proof (cases there)
      case True
      have ent: "disk (laid_out w cd st (derived w data) {es}) s"
        if "disk (laid_out w cd st (derived w data) {}) s" "there = regular (st_fs s) (rooted_path (st @ es))" for s
        using that True path_elems_rooted [OF c]
        by (auto simp: disk_def laid_out_def filed_def regular_def split: option.splits fnode.splits)
      have "triple ?V (\<lambda>s. disk (laid_out w cd st (derived w data) {}) s \<and> there = regular (st_fs s) (rooted_path (st @ es)))
        (s_then (durable_SyncDir w (rooted_path (st @ es))) (s_then (writeCacheMeta w (rooted_path st) ?meta) (durable_SyncDir w (rooted_path st))))
        (\<lambda>_. disk (laid_out w cd st (derived w data) {es, [''meta.json'']}))"
        by (rule triple_pre [OF finish], elim conjE) (rule ent)
      then show ?thesis using True by simp
    qed (auto simp: disk_def laid_out_def)
  qed
  have go: "triple ?V (disk (fetched_to w cd st (path_elems tmp) (digest, sz)))
     (if sz \<noteq> pe_Size entry then s_throw ErrSizeMismatch
      else if digest \<noteq> pe_Digest entry then s_throw ErrChecksumMismatch
      else s_bnd (s_lift (safeJoin (rooted_path st) (pe_Path entry))) (\<lambda>stageEntry.
        s_then (placeArtifact w entry tmp (rooted_path st) stageEntry)
          (s_bnd (s_read (\<lambda>fs. regular fs stageEntry)) (\<lambda>there.
            if \<not> there then s_throw ErrInvalidDescriptor
            else s_then (durable_SyncDir w stageEntry)
              (s_then (writeCacheMeta w (rooted_path st) ?meta) (durable_SyncDir w (rooted_path st))))))) ?Q" for digest sz
  proof (cases "sz = pe_Size entry \<and> digest = pe_Digest entry")
    case True
    have data: "triple ?V (\<lambda>s. disk (landed_as w cd st (path_elems tmp) data) s \<and> digest = ow_sha w data)
        (s_then (placeArtifact w entry tmp (rooted_path st) (rooted_path (st @ es)))
          (s_bnd (s_read (\<lambda>fs. regular fs (rooted_path (st @ es)))) (\<lambda>there.
            if \<not> there then s_throw ErrInvalidDescriptor
            else s_then (durable_SyncDir w (rooted_path (st @ es)))
              (s_then (writeCacheMeta w (rooted_path st) ?meta) (durable_SyncDir w (rooted_path st)))))) ?Q"
      if j: "safeJoin (rooted_path st) (pe_Path entry) = Inr (rooted_path (st @ es))" for data
      by (rule triple_fact, rule triple_post [OF triple_then [OF place_lays_out [OF st j tk] check]]) (use True in auto)
    have split: "disk (fetched_to w cd st (path_elems tmp) (digest, sz)) s \<Longrightarrow> \<exists>data. disk (landed_as w cd st (path_elems tmp) data) s \<and> digest = ow_sha w data" for s
      by (auto simp: disk_def fetched_to_def landed_as_def)
    have "triple ?V (\<lambda>s. disk (fetched_to w cd st (path_elems tmp) (digest, sz)) s \<and> safeJoin (rooted_path st) (pe_Path entry) = Inr t)
        (s_then (placeArtifact w entry tmp (rooted_path st) t)
          (s_bnd (s_read (\<lambda>fs. regular fs t)) (\<lambda>there.
            if \<not> there then s_throw ErrInvalidDescriptor
            else s_then (durable_SyncDir w t)
              (s_then (writeCacheMeta w (rooted_path st) ?meta) (durable_SyncDir w (rooted_path st)))))) ?Q" for t
    proof (rule triple_fact)
      assume j: "safeJoin (rooted_path st) (pe_Path entry) = Inr t"
      then have t: "t = rooted_path (st @ es)" by (rule es(1))
      show "triple ?V (disk (fetched_to w cd st (path_elems tmp) (digest, sz))) (s_then (placeArtifact w entry tmp (rooted_path st) t)
          (s_bnd (s_read (\<lambda>fs. regular fs t)) (\<lambda>there.
            if \<not> there then s_throw ErrInvalidDescriptor
            else s_then (durable_SyncDir w t)
              (s_then (writeCacheMeta w (rooted_path st) ?meta) (durable_SyncDir w (rooted_path st)))))) ?Q"
        unfolding t by (rule triple_pre [OF triple_some [OF data [OF j [unfolded t]]] split])
    qed
    then show ?thesis using True by (auto intro!: triple_bnd [OF triple_lift] simp: disk_def fetched_to_def ready_def)
  qed (auto simp: disk_def fetched_to_def ready_def)
  show ?thesis unfolding stage_artifact_def
    by (rule triple_bnd [OF fetchAsset_lands [OF tk(2,1)]]) (use go in \<open>auto split: prod.splits\<close>)
qed

end
