(* ===== verification/ArtifactCalm.thy ===== *)
theory ArtifactCalm
  imports ArtifactVerified
begin

text \<open>
  A resolution without faults: when no effect on the disk is refused, the release host delivers the bytes the descriptor pins
  and the lock is granted, a release binary resolves and the path returned holds exactly those bytes.
\<close>

subsection \<open>Runs that return\<close>

definition yields :: "(fs \<Rightarrow> bool) \<Rightarrow> 'a sprog \<Rightarrow> ('a \<Rightarrow> fs \<Rightarrow> bool) \<Rightarrow> bool" where
  "yields K m Q \<longleftrightarrow> (\<forall>s. K (st_fs s) \<longrightarrow> (\<exists>x s'. m s = (Done x, s') \<and> Q x (st_fs s')))"

definition calm_world :: "outside \<Rightarrow> bool" where
  "calm_world w \<longleftrightarrow> (\<forall>t. ow_fault w t = None \<and> \<not> ow_canceled w t \<and> ow_lock w t \<and> ow_temp w t \<noteq> [])"

lemma yields_bnd:
  assumes "yields K m Q" and "\<And>x. yields (Q x) (f x) S"
  shows "yields K (s_bnd m f) S"
  using assms unfolding yields_def s_bnd_def by (fastforce split: store_outcome.splits)

lemma yields_then: "yields K m (\<lambda>_. Q) \<Longrightarrow> yields Q n S \<Longrightarrow> yields K (s_then m n) S"
  unfolding s_then_def by (rule yields_bnd)

lemma yields_pre: "yields K m Q \<Longrightarrow> (\<And>fs. K' fs \<Longrightarrow> K fs) \<Longrightarrow> yields K' m Q"
  by (simp add: yields_def)

lemma yields_post: "yields K m Q \<Longrightarrow> (\<And>x fs. Q x fs \<Longrightarrow> Q' x fs) \<Longrightarrow> yields K m Q'"
  unfolding yields_def by blast

lemma yields_ret: "(\<And>fs. K fs \<Longrightarrow> Q x fs) \<Longrightarrow> yields K (s_ret x) Q"
  by (simp add: yields_def s_ret_def)

lemma yields_fact: "(p \<Longrightarrow> yields K m Q) \<Longrightarrow> yields (\<lambda>fs. K fs \<and> p) m Q"
  by (simp add: yields_def)

lemma yields_some: "(\<And>d. yields (K d) m Q) \<Longrightarrow> yields (\<lambda>fs. \<exists>d. K d fs) m Q"
  unfolding yields_def by blast

lemma yields_ask: "yields K (s_ask f) (\<lambda>x fs. K fs \<and> (\<exists>t. x = f t))"
  by (auto simp: yields_def s_ask_def)

lemma yields_read: "yields K (s_read f) (\<lambda>x fs. K fs \<and> x = f fs)"
  by (simp add: yields_def s_read_def)

lemma yields_tried: "yields K m Q \<Longrightarrow> yields K (s_tried m) (\<lambda>r fs. \<exists>x. r = Inr x \<and> Q x fs)"
  unfolding yields_def s_tried_def by fastforce

lemma yields_on_failure:
  assumes "yields K m Q"
  shows "yields K (on_failure d m) Q"
  unfolding on_failure_def by (rule yields_bnd [OF yields_tried [OF assms]]) (auto simp: yields_def s_ret_def)

lemma yields_io: "calm_world w \<Longrightarrow> (\<And>fs. K fs \<Longrightarrow> Q () (f fs)) \<Longrightarrow> yields K (s_io w (on_fs f) part) Q"
  by (simp add: yields_def s_io_def calm_world_def on_fs_def s_tick_def)

lemma yields_atomic: "calm_world w \<Longrightarrow> (\<And>fs. K fs \<Longrightarrow> Q () (f fs)) \<Longrightarrow> yields K (s_atomic w f) Q"
  unfolding s_atomic_def by (rule yields_io)

lemma yields_sync: "calm_world w \<Longrightarrow> yields K (durable_SyncDir w p) (\<lambda>_. K)"
  unfolding durable_SyncDir_def by (rule yields_atomic)

lemma yields_mkdir:
  assumes "calm_world w" "\<And>fs. K fs \<Longrightarrow> open_way fs (path_elems p)" "\<And>fs. K fs \<Longrightarrow> Q () (made (path_elems p) (length (path_elems p)) fs)"
  shows "yields K (os_MkdirAll w p) Q"
  using assms by (simp add: yields_def MkdirAll_cases s_io_def calm_world_def on_fs_def s_tick_def)

lemma yields_temp:
  assumes "calm_world w" "\<And>fs. K fs \<Longrightarrow> fs (path_elems dir) = Some Folder" "\<And>fs r. K fs \<Longrightarrow> fs (path_elems dir @ [pattern @ show_nat r]) = None"
    and "\<And>fs r. K fs \<Longrightarrow> Q (Join [dir, pattern @ show_nat r]) (fresh (path_elems dir @ [pattern @ show_nat r]) n fs)"
  shows "yields K (temp_named w n dir pattern) Q"
  unfolding yields_def
proof (intro allI impI)
  fix s :: store_state assume K: "K (st_fs s)"
  have "ow_temp w (st_tick s) \<noteq> []" using assms(1) by (simp add: calm_world_def)
  then obtain r rs where "ow_temp w (st_tick s) = r # rs" by (cases "ow_temp w (st_tick s)") auto
  then have "find (\<lambda>r. st_fs s (path_elems dir @ [pattern @ show_nat r]) = None) (ow_temp w (st_tick s)) = Some r" using assms(3) [OF K] by simp
  then show "\<exists>x s'. temp_named w n dir pattern s = (Done x, s') \<and> Q x (st_fs s')"
    using assms(2,4) [OF K] assms(1)
    by (simp add: temp_named_def Let_def s_then_def s_bnd_def s_atomic_def s_io_def s_ret_def calm_world_def on_fs_def s_tick_def)
qed

lemma yields_write:
  assumes "calm_world w" "\<And>fs. K fs \<Longrightarrow> parent_ok fs (path_elems p) \<and> fs (path_elems p) \<noteq> Some Folder" "\<And>fs. K fs \<Longrightarrow> Q () (fs(path_elems p \<mapsto> File c))"
  shows "yields K (store_WriteFile w p c) Q"
  using assms by (simp add: yields_def store_WriteFile_def Let_def s_atomic_def s_io_def calm_world_def on_fs_def s_tick_def)

lemma yields_remove_all:
  assumes "calm_world w" "\<And>fs. K fs \<Longrightarrow> Q () (\<lambda>q. if below (path_elems p) q then None else fs q)"
  shows "yields K (os_RemoveAll w p) Q"
  using assms by (simp add: yields_def os_RemoveAll_def Let_def s_io_def calm_world_def on_fs_def s_tick_def)

lemma yields_rename_file:
  assumes "calm_world w" "\<And>fs. K fs \<Longrightarrow> parent_ok fs (path_elems b) \<and> fs (path_elems a) = Some (File c) \<and> fs (path_elems b) \<noteq> Some Folder"
    and "\<not> below (path_elems a) (path_elems b)" "\<And>fs. K fs \<Longrightarrow> Q () (fs(path_elems b \<mapsto> File c, path_elems a := None))"
  shows "yields K (os_Rename w a b) Q"
  unfolding yields_def
proof (intro allI impI)
  fix s :: store_state assume K: "K (st_fs s)"
  show "\<exists>x s'. os_Rename w a b s = (Done x, s') \<and> Q x (st_fs s')"
    using assms(2) [OF K] assms(1,3) assms(4) [OF K] by (simp add: os_Rename_def Let_def s_atomic_def s_io_def calm_world_def on_fs_def s_tick_def)
qed

lemma yields_rename_dir:
  assumes "calm_world w" "\<And>fs. K fs \<Longrightarrow> parent_ok fs (path_elems b) \<and> fs (path_elems a) = Some Folder \<and> fs (path_elems b) = None"
    and "\<not> below (path_elems a) (path_elems b)" "\<And>fs. K fs \<Longrightarrow> Q () (renamed_tree (path_elems a) (path_elems b) fs)"
  shows "yields K (os_Rename w a b) Q"
  unfolding yields_def
proof (intro allI impI)
  fix s :: store_state assume K: "K (st_fs s)"
  show "\<exists>x s'. os_Rename w a b s = (Done x, s') \<and> Q x (st_fs s')"
    using assms(2) [OF K] assms(1,3) assms(4) [OF K] by (simp add: os_Rename_def Let_def s_atomic_def s_io_def calm_world_def on_fs_def s_tick_def)
qed

text \<open>A deferred removal of a file: its own outcome is dropped.\<close>

lemma yields_deferring_remove:
  assumes w: "calm_world w" and m: "yields K m Q" and Q: "\<And>x fs. Q x fs \<Longrightarrow> Q x (fs(path_elems p := None))"
  shows "yields K (deferring (os_Remove w p) (m :: 'a sprog)) Q"
proof -
  have "yields (Q x) (s_tried (os_Remove w p)) (\<lambda>_. Q x)" for x
    using w Q by (auto simp: yields_def s_tried_def os_Remove_def Let_def s_atomic_def s_io_def calm_world_def on_fs_def s_tick_def split: option.splits fnode.splits)
  then have "yields (Q x) (s_then (s_tried (os_Remove w p)) (s_ret x)) Q" for x
    by (rule yields_then) (simp add: yields_ret)
  then show ?thesis unfolding deferring_def
    by (intro yields_bnd [OF yields_tried [OF m]]) (auto simp: yields_def s_lift_def split: sum.splits)
qed

subsection \<open>The path of a delivery\<close>

lemma yields_lift: "r = Inr x \<Longrightarrow> yields K (s_lift r) (\<lambda>y fs. K fs \<and> y = x)"
  by (simp add: yields_def s_lift_def s_ret_def)

lemma s_bnd_lift: "s_bnd (s_lift (Inr x)) f = f x"
  by (simp add: s_bnd_def s_lift_def s_ret_def)

lemma safeJoin_component:
  assumes "list_all component ds" "component p"
  shows "safeJoin (rooted_path ds) p = Inr (rooted_path (ds @ [p]))"
proof -
  have j: "Join [rooted_path ds, p] = rooted_path (ds @ [p])" by (rule Join_component [OF assms])
  have "\<not> climbs (join [p])" using component_not_climbs [of "[p]"] assms(2) by simp
  then show ?thesis using assms by (simp add: safeJoin_def j Rel_rooted strip_common_append Let_def)
qed

text \<open>Every directory down to the shard is there.\<close>

definition walkable :: "string list \<Rightarrow> fs \<Rightarrow> bool" where
  "walkable k fs \<longleftrightarrow> (\<forall>n. fs (take n k) = Some Folder)"

lemma walkable_open: "walkable k fs \<Longrightarrow> open_way fs k"
  by (simp add: walkable_def open_way_def)

lemma walkable_made: "open_way fs k \<Longrightarrow> walkable k (made k (length k) fs)"
  by (simp add: walkable_def made_def below_def min_def)

lemma walkable_parent: "walkable k fs \<Longrightarrow> parent_ok fs (k @ [e])" "walkable k fs \<Longrightarrow> fs k = Some Folder"
  by (auto simp: parent_ok_def walkable_def dest: spec [of _ "length k"])

lemma walkable_change:
  assumes "walkable k fs" "\<And>n. fs' (take n k) = fs (take n k)"
  shows "walkable k fs'"
  using assms by (simp add: walkable_def)

lemma walkable_fresh:
  assumes "walkable d fs"
  shows "walkable d (fresh (d @ [x]) n fs)"
proof (rule walkable_change [OF assms])
  fix m
  have "\<not> below (d @ [x]) (take m d)"
  proof
    assume "below (d @ [x]) (take m d)"
    then obtain es where "take m d = d @ x # es" by (auto elim: belowE)
    then have "length (take m d) = length (d @ x # es)" by simp
    then show False by simp
  qed
  then show "fresh (d @ [x]) n fs (take m d) = fs (take m d)" by (auto simp: fresh_def)
qed

lemma walkable_put:
  assumes "walkable k fs" "length k < length q"
  shows "walkable k (fs(q := n))"
proof (rule walkable_change [OF assms(1)], rule fun_upd_other)
  fix m show "take m k \<noteq> q" using assms(2) by auto
qed

definition unstaged :: "string list \<Rightarrow> fs \<Rightarrow> bool" where
  "unstaged d fs \<longleftrightarrow> (\<forall>r. fs (d @ [''.stage-'' @ show_nat r]) = None \<and> fs (d @ [''.download-'' @ show_nat r]) = None)"

definition downloading :: "string list \<Rightarrow> string list \<Rightarrow> fs \<Rightarrow> bool" where
  "downloading d st fs \<longleftrightarrow> walkable d fs \<and> fs st = Some Folder \<and> (\<forall>q. q \<noteq> [] \<longrightarrow> fs (st @ q) = None)
    \<and> (\<forall>r. fs (d @ [''.download-'' @ show_nat r]) = None)"

definition holding :: "string list \<Rightarrow> string list \<Rightarrow> string list \<Rightarrow> (bytes \<Rightarrow> bool) \<Rightarrow> fs \<Rightarrow> bool" where
  "holding d st tk P fs \<longleftrightarrow> walkable d fs \<and> fs st = Some Folder \<and> (\<forall>q. q \<noteq> [] \<longrightarrow> fs (st @ q) = None) \<and> (\<exists>c. fs tk = Some (File c) \<and> P c)"

definition placed_at :: "string list \<Rightarrow> string list \<Rightarrow> string \<Rightarrow> bytes \<Rightarrow> fs \<Rightarrow> bool" where
  "placed_at d st p data fs \<longleftrightarrow> walkable d fs \<and> fs st = Some Folder \<and> fs (st @ [p]) = Some (File data) \<and> (p = ''meta.json'' \<or> fs (st @ [''meta.json'']) = None)"

lemma yields_download:
  assumes w: "calm_world w" and get: "\<And>t. ow_get w t url token accept = Response 200 data True"
    and tk: "path_elems tmp = tk" "\<And>q. st @ q \<noteq> tk" "length tk = Suc (length d)"
  shows "yields (holding d st tk (\<lambda>_. True)) (download w url token accept tmp)
    (\<lambda>x fs. holding d st tk (\<lambda>c. c = data) fs \<and> x = Inr (ow_sha w data, int (length data)))"
  (is "yields ?K _ ?Q")
proof -
  let ?H = "holding d st tk (\<lambda>c. c = data)"
  have put: "?H (fs(tk \<mapsto> File data))" if "?K fs" for fs
  proof -
    note h = that [unfolded holding_def]
    have "walkable d (fs(tk \<mapsto> File data))" using h tk(3) by (intro walkable_put) auto
    then show ?thesis unfolding holding_def using h tk(2) tk(2) [of "[]"] by auto
  qed
  have copy: "yields ?K (s_tried (streamed w tk data)) (\<lambda>r fs. ?H fs \<and> r = Inr ())"
    unfolding streamed_def
    by (rule yields_post [OF yields_tried [OF yields_io [OF w, of ?K "\<lambda>_. ?H", OF put]]]) auto
  have sync: "yields ?H (s_tried (durable_SyncDir w tmp)) (\<lambda>r fs. ?H fs \<and> r = Inr ())"
    by (rule yields_post [OF yields_tried [OF yields_sync [OF w]]]) auto
  have tail: "yields ?K (s_bnd (s_tried (streamed w tk data)) (\<lambda>copied. s_bnd (s_tried (durable_SyncDir w tmp)) (\<lambda>synced.
            if copied \<noteq> Inr () \<or> \<not> True then s_ret (Inl True)
            else if synced \<noteq> Inr () then s_ret (Inl False)
            else s_ret (Inr (ow_sha w data, int (length data)))))) ?Q"
    by (rule yields_bnd [OF copy], rule yields_fact, rule yields_bnd [OF sync], rule yields_fact) (simp add: yields_ret)
  have there: "?K fs \<Longrightarrow> regular fs tmp" for fs using tk(1) by (auto simp: holding_def regular_def)
  have "yields ?K (s_bnd (s_read (\<lambda>fs. regular fs tmp)) (\<lambda>there. if \<not> there then s_ret (Inl False)
          else s_bnd (s_tried (streamed w (path_elems tmp) data)) (\<lambda>copied. s_bnd (s_tried (durable_SyncDir w tmp)) (\<lambda>synced.
            if copied \<noteq> Inr () \<or> \<not> True then s_ret (Inl True)
            else if synced \<noteq> Inr () then s_ret (Inl False)
            else s_ret (Inr (ow_sha w data, int (length data))))))) ?Q"
  proof (rule yields_bnd [OF yields_read])
    fix x
    have "x" if "?K fs \<and> x = regular fs tmp" for fs using that there by blast
    then show "yields (\<lambda>fs. ?K fs \<and> x = regular fs tmp) (if \<not> x then s_ret (Inl False)
          else s_bnd (s_tried (streamed w (path_elems tmp) data)) (\<lambda>copied. s_bnd (s_tried (durable_SyncDir w tmp)) (\<lambda>synced.
            if copied \<noteq> Inr () \<or> \<not> True then s_ret (Inl True)
            else if synced \<noteq> Inr () then s_ret (Inl False)
            else s_ret (Inr (ow_sha w data, int (length data)))))) ?Q"
      using yields_pre [OF tail, of "\<lambda>fs. ?K fs \<and> x = regular fs tmp"] tk(1) by (cases x) (auto simp: yields_def)
  qed
  then show ?thesis unfolding download_def
    by (intro yields_bnd [OF yields_ask] yields_fact) (auto simp: get)
qed

lemma yields_fetch:
  assumes w: "calm_world w" and pv: "pv_Type pv = GitHubRelease"
    and get: "\<And>t. ow_get w t (ReleaseURL (pv_Repo pv) (pv_Tag pv) (pv_Name pv)) (op_githubToken opts) [] = Response 200 data True"
    and tk: "path_elems tmp = tk" "\<And>q. st @ q \<noteq> tk" "length tk = Suc (length d)"
  shows "yields (holding d st tk (\<lambda>_. True)) (fetchAsset w pv opts tmp)
    (\<lambda>x fs. holding d st tk (\<lambda>c. c = data) fs \<and> x = (ow_sha w data, int (length data)))"
proof -
  let ?url = "ReleaseURL (pv_Repo pv) (pv_Tag pv) (pv_Name pv)"
  let ?K = "holding d st tk (\<lambda>_. True)" and ?Q = "\<lambda>x fs. holding d st tk (\<lambda>c. c = data) fs \<and> x = Inr (ow_sha w data, int (length data))"
  have two: "downloadAttempts - 1 = Suc 1" by (simp add: downloadAttempts_def)
  have retry: "yields ?K (retryDownload w (download w ?url (op_githubToken opts) [] tmp)) ?Q"
    unfolding retryDownload_def two retry_from.simps
    by (rule yields_bnd [OF yields_download [OF w get tk]], rule yields_fact) (simp add: yields_ret)
  show ?thesis unfolding fetchAsset_def
    by (rule yields_bnd [OF yields_lift [of _ ?url]], simp add: Provider_URL_def pv, rule yields_fact, simp only:)
      (rule yields_bnd [OF retry], rule yields_fact, simp add: yields_ret)
qed

lemma yields_place:
  assumes w: "calm_world w" and raw: "pe_Format entry = Raw" and st: "list_all component st" "st = d @ [sn]" and p: "component p" "p \<noteq> ''meta.json''"
    and tk: "path_elems tmp = tk" "\<And>q. st @ q \<noteq> tk" "\<And>q. tk @ q \<noteq> st @ [p]" "length tk = Suc (length d)"
  shows "yields (holding d st tk (\<lambda>c. c = data)) (placeArtifact w entry tmp (rooted_path st) (rooted_path (st @ [p]))) (\<lambda>_. placed_at d st p data)"
proof -
  let ?H = "holding d st tk (\<lambda>c. c = data)"
  have dst: "path_elems (rooted_path (st @ [p])) = st @ [p]" using path_elems_rooted [of "st @ [p]"] st(1) p(1) by simp
  have dir: "Dir (rooted_path (st @ [p])) = rooted_path st" "path_elems (rooted_path st) = st" using Dir_rooted [OF p(1) st(1)] path_elems_rooted [OF st(1)] by auto
  have ws: "walkable st fs" if "?H fs" for fs
    unfolding walkable_def
  proof
    fix n
    have "take n st = take n d \<or> take n st = st" using st(2) by (cases "n \<le> length d") auto
    then show "fs (take n st) = Some Folder" using that unfolding holding_def walkable_def by metis
  qed
  have mk: "yields ?H (os_MkdirAll w (rooted_path st)) (\<lambda>_. ?H)"
  proof (rule yields_mkdir [OF w])
    fix fs assume H: "?H fs"
    show "open_way fs (path_elems (rooted_path st))" using walkable_open [OF ws [OF H]] dir(2) by simp
    have "made st (length st) fs = fs"
    proof
      fix q
      show "made st (length st) fs q = fs q"
        using ws [OF H] unfolding walkable_def made_def below_def by (cases "take (length q) st = q") metis+
    qed
    then show "?H (made (path_elems (rooted_path st)) (length (path_elems (rooted_path st))) fs)" using H dir(2) by simp
  qed
  have mv: "yields ?H (os_Rename w tmp (rooted_path (st @ [p]))) (\<lambda>_. placed_at d st p data)"
  proof (rule yields_rename_file [OF w, where c = data])
    show "\<not> below (path_elems tmp) (path_elems (rooted_path (st @ [p])))" using tk(1,3) dst by (metis belowE)
    fix fs assume H: "?H fs"
    note h = H [unfolded holding_def]
    have f: "fs tk = Some (File data)" "fs (st @ [p]) = None" "fs (st @ [''meta.json'']) = None" using h by auto
    show "parent_ok fs (path_elems (rooted_path (st @ [p]))) \<and> fs (path_elems tmp) = Some (File data) \<and> fs (path_elems (rooted_path (st @ [p]))) \<noteq> Some Folder"
      using walkable_parent(1) [OF ws [OF H]] f tk(1) dst by simp
    have "walkable d (fs(st @ [p] \<mapsto> File data, tk := None))" using h tk(4) st(2) by (intro walkable_put) auto
    then show "placed_at d st p data (fs(path_elems (rooted_path (st @ [p])) \<mapsto> File data, path_elems tmp := None))"
      unfolding placed_at_def tk(1) dst using h f p(2) tk(2) [of "[]"] tk(2) [of "[p]"] tk(2) [of "[''meta.json'']"] by auto
  qed
  have "\<not> ow_canceled w t" for t using w by (simp add: calm_world_def)
  then show ?thesis unfolding placeArtifact_def
    by (intro yields_bnd [OF yields_ask] yields_fact) (auto simp: raw dir intro!: yields_then [OF mk mv])
qed

definition staged_whole :: "string list \<Rightarrow> string list \<Rightarrow> string \<Rightarrow> bytes \<Rightarrow> fs \<Rightarrow> bool" where
  "staged_whole d st p data fs \<longleftrightarrow> walkable d fs \<and> fs st = Some Folder \<and> fs (st @ [p]) = Some (File data) \<and> (\<exists>c. fs (st @ [''meta.json'']) = Some (File c))"

lemma yields_meta:
  assumes w: "calm_world w" and st: "list_all component st" "st = d @ [sn]" and p: "p \<noteq> ''meta.json''"
  shows "yields (placed_at d st p data) (writeCacheMeta w (rooted_path st) m) (\<lambda>_. staged_whole d st p data)"
proof -
  have m: "component ''meta.json''" by (simp add: component_def)
  have k: "path_elems (Join [rooted_path st, ''meta.json'']) = st @ [''meta.json'']"
    using Join_component [OF st(1) m] path_elems_rooted [of "st @ [''meta.json'']"] st(1) m by simp
  show ?thesis unfolding writeCacheMeta_def
  proof (rule yields_bnd [OF yields_ask], rule yields_fact, rule yields_write [OF w])
    fix fs c assume "placed_at d st p data fs"
    note h = this [unfolded placed_at_def]
    show "parent_ok fs (path_elems (Join [rooted_path st, ''meta.json''])) \<and> fs (path_elems (Join [rooted_path st, ''meta.json''])) \<noteq> Some Folder"
      using h p by (simp add: k parent_ok_def)
    have "walkable d (fs(st @ [''meta.json''] \<mapsto> File c))" using h st(2) by (intro walkable_put) auto
    then show "staged_whole d st p data (fs(path_elems (Join [rooted_path st, ''meta.json'']) \<mapsto> File c))"
      unfolding k staged_whole_def using h p by auto
  qed
qed

lemma yields_stage:
  assumes w: "calm_world w" and raw: "pe_Format entry = Raw" and pvs: "pe_Providers entry = pv # pvs" "pv_Type pv = GitHubRelease"
    and get: "\<And>t. ow_get w t (ReleaseURL (pv_Repo pv) (pv_Tag pv) (pv_Name pv)) (op_githubToken opts) [] = Response 200 data True"
    and pin: "ow_sha w data = pe_Digest entry" "int (length data) = pe_Size entry"
    and st: "list_all component st" "st = d @ [sn]" and p: "component (pe_Path entry)" "pe_Path entry \<noteq> ''meta.json''"
    and tk: "path_elems tmp = tk" "\<And>q. st @ q \<noteq> tk" "\<And>q. tk @ q \<noteq> st @ [pe_Path entry]" "length tk = Suc (length d)"
  shows "yields (holding d st tk (\<lambda>_. True)) (stage_artifact w desc entry opts (rooted_path st) tmp) (\<lambda>_. staged_whole d st (pe_Path entry) data)"
proof -
  let ?p = "pe_Path entry" and ?meta = "\<lparr> cm_Name = de_Name desc, cm_Tag = pv_Tag (hd (pe_Providers entry)), cm_Digest = pe_Digest entry, cm_Source = [], cm_FetchedAt = 0 \<rparr>"
  have j: "safeJoin (rooted_path st) ?p = Inr (rooted_path (st @ [?p]))" by (rule safeJoin_component [OF st(1) p(1)])
  have e: "path_elems (rooted_path (st @ [?p])) = st @ [?p]" using path_elems_rooted [of "st @ [?p]"] st(1) p(1) by simp
  have there: "placed_at d st ?p data fs \<Longrightarrow> regular fs (rooted_path (st @ [?p]))" for fs by (simp add: placed_at_def regular_def e)
  have finish: "yields (placed_at d st ?p data) (s_then (durable_SyncDir w (rooted_path (st @ [?p])))
      (s_then (writeCacheMeta w (rooted_path st) ?meta) (durable_SyncDir w (rooted_path st)))) (\<lambda>_. staged_whole d st ?p data)"
    by (rule yields_then [OF yields_sync [OF w] yields_then [OF yields_meta [OF w st p(2)] yields_sync [OF w]]])
  have check: "yields (placed_at d st ?p data) (s_bnd (s_read (\<lambda>fs. regular fs (rooted_path (st @ [?p])))) (\<lambda>there.
            if \<not> there then s_throw ErrInvalidDescriptor
            else s_then (durable_SyncDir w (rooted_path (st @ [?p])))
              (s_then (writeCacheMeta w (rooted_path st) ?meta) (durable_SyncDir w (rooted_path st))))) (\<lambda>_. staged_whole d st ?p data)"
  proof (rule yields_bnd [OF yields_read])
    fix x
    have "yields (\<lambda>fs. placed_at d st ?p data fs \<and> x) (s_then (durable_SyncDir w (rooted_path (st @ [?p])))
      (s_then (writeCacheMeta w (rooted_path st) ?meta) (durable_SyncDir w (rooted_path st)))) (\<lambda>_. staged_whole d st ?p data)"
      by (rule yields_pre [OF finish]) simp
    then show "yields (\<lambda>fs. placed_at d st ?p data fs \<and> x = regular fs (rooted_path (st @ [?p]))) (if \<not> x then s_throw ErrInvalidDescriptor
            else s_then (durable_SyncDir w (rooted_path (st @ [?p])))
              (s_then (writeCacheMeta w (rooted_path st) ?meta) (durable_SyncDir w (rooted_path st)))) (\<lambda>_. staged_whole d st ?p data)"
      using there by (cases x) (auto simp: yields_def)
  qed
  have place: "yields (holding d st tk (\<lambda>c. c = data)) (s_bnd (s_lift (safeJoin (rooted_path st) ?p)) (\<lambda>stageEntry.
        s_then (placeArtifact w entry tmp (rooted_path st) stageEntry)
          (s_bnd (s_read (\<lambda>fs. regular fs stageEntry)) (\<lambda>there.
            if \<not> there then s_throw ErrInvalidDescriptor
            else s_then (durable_SyncDir w stageEntry)
              (s_then (writeCacheMeta w (rooted_path st) ?meta) (durable_SyncDir w (rooted_path st))))))) (\<lambda>_. staged_whole d st ?p data)"
    by (rule yields_bnd [OF yields_lift [OF j]], rule yields_fact, simp only:)
      (rule yields_then [OF yields_place [OF w raw st p tk] check])
  have f: "hd (pe_Providers entry) = pv" using pvs by simp
  show ?thesis unfolding stage_artifact_def f
    by (rule yields_bnd [OF yields_fetch [OF w pvs(2) get tk(1,2,4)]], rule yields_fact) (use place [unfolded f] pin in simp)
qed

definition delivered :: "string list \<Rightarrow> string \<Rightarrow> bytes \<Rightarrow> fs \<Rightarrow> bool" where
  "delivered dir p data fs \<longleftrightarrow> fs (dir @ [p]) = Some (File data) \<and> (\<exists>c. fs (dir @ [''meta.json'']) = Some (File c))"

lemma yields_publish:
  assumes w: "calm_world w" and c: "list_all component (d @ [sn])" "list_all component (d @ [dn])" and ne: "sn \<noteq> dn"
  shows "yields (staged_whole d (d @ [sn]) p data) (publish_stage w (rooted_path (d @ [sn])) (rooted_path (d @ [dn]))) (\<lambda>_. delivered (d @ [dn]) p data)"
proof -
  note e = path_elems_rooted [OF c(1)] path_elems_rooted [OF c(2)]
  have apart: "\<not> below (d @ [dn]) (d @ sn # q)" "\<not> below (d @ [sn]) (d @ [dn])" for q using ne by (auto simp: below_def)
  have gone: "staged_whole d (d @ [sn]) p data fs' \<and> fs' (d @ [dn]) = None"
    if "staged_whole d (d @ [sn]) p data fs" "fs' = (\<lambda>q. if below (d @ [dn]) q then None else fs q)" for fs fs'
  proof -
    have "\<not> below (d @ [dn]) (take n d)" for n
    proof
      assume "below (d @ [dn]) (take n d)"
      then obtain es where "take n d = d @ dn # es" by (auto elim: belowE)
      then have "length (take n d) = length (d @ dn # es)" by simp
      then show False by simp
    qed
    then have "walkable d fs'" using that by (auto simp: staged_whole_def intro!: walkable_change [of d fs])
    then show ?thesis using that apart by (auto simp: staged_whole_def)
  qed
  show ?thesis unfolding publish_stage_def
  proof (rule yields_then)
    show "yields (staged_whole d (d @ [sn]) p data) (os_RemoveAll w (rooted_path (d @ [dn]))) (\<lambda>_ fs. staged_whole d (d @ [sn]) p data fs \<and> fs (d @ [dn]) = None)"
      using gone by (intro yields_remove_all [OF w]) (simp add: e)
    show "yields (\<lambda>fs. staged_whole d (d @ [sn]) p data fs \<and> fs (d @ [dn]) = None) (os_Rename w (rooted_path (d @ [sn])) (rooted_path (d @ [dn])))
      (\<lambda>_. delivered (d @ [dn]) p data)"
      using apart(2) walkable_parent(1) by (intro yields_rename_dir [OF w]) (auto simp: e staged_whole_def renamed_tree_def below_def delivered_def)
  qed
qed

lemma yields_materialize:
  assumes w: "calm_world w" and raw: "pe_Format entry = Raw" and pvs: "pe_Providers entry = pv # pvs" "pv_Type pv = GitHubRelease"
    and get: "\<And>t. ow_get w t (ReleaseURL (pv_Repo pv) (pv_Tag pv) (pv_Name pv)) (op_githubToken opts) [] = Response 200 data True"
    and pin: "ow_sha w data = pe_Digest entry" "int (length data) = pe_Size entry"
    and d: "list_all component d" "component (pe_Digest entry)" "hd (pe_Digest entry) \<noteq> CHR ''.''"
    and p: "component (pe_Path entry)" "pe_Path entry \<noteq> ''meta.json''"
  shows "yields (\<lambda>fs. open_way fs d \<and> unstaged d fs) (materializeReleaseBinary w desc entry (rooted_path (d @ [pe_Digest entry])) opts)
    (\<lambda>_. delivered (d @ [pe_Digest entry]) (pe_Path entry) data)"
  (is "yields ?A _ (\<lambda>_. ?D)")
proof -
  let ?st = "\<lambda>r. d @ [''.stage-'' @ show_nat r]" and ?tk = "\<lambda>r. d @ [''.download-'' @ show_nat r]"
  have sc: "list_all component (?st r)" "list_all component (?tk r)" "list_all component (d @ [pe_Digest entry])" for r using d temp_component by auto
  have ne: "''.stage-'' @ show_nat r \<noteq> pe_Digest entry" "''.download-'' @ show_nat r \<noteq> pe_Digest entry" for r
    using d(3) by (cases "pe_Digest entry"; auto)+
  have e: "path_elems (rooted_path d) = d" "path_elems (rooted_path (?tk t)) = ?tk t" for t using path_elems_rooted d(1) sc by blast+
  have dir: "Dir (rooted_path (d @ [pe_Digest entry])) = rooted_path d" by (rule Dir_rooted [OF d(2,1)])
  have mk: "yields ?A (os_MkdirAll w (rooted_path d)) (\<lambda>_ fs. walkable d fs \<and> unstaged d fs)"
    using walkable_made by (intro yields_mkdir [OF w]) (auto simp: e unstaged_def made_def below_def)
  have temp: "yields (\<lambda>fs. walkable d fs \<and> unstaged d fs) (os_MkdirTemp w (rooted_path d) ''.stage-'')
      (\<lambda>x fs. \<exists>r. downloading d (?st r) fs \<and> x = rooted_path (?st r))"
    unfolding os_MkdirTemp_def
  proof (rule yields_temp [OF w])
    fix fs r assume h: "walkable d fs \<and> unstaged d fs"
    show "fs (path_elems (rooted_path d)) = Some Folder" using h walkable_parent(2) e(1) by auto
    show "fs (path_elems (rooted_path d) @ [''.stage-'' @ show_nat r]) = None" using h e(1) by (simp add: unstaged_def)
    have "downloading d (?st r) (fresh (?st r) Folder fs)" unfolding downloading_def
    proof (intro conjI)
      show "walkable d (fresh (?st r) Folder fs)" using walkable_fresh h by blast
    qed (use h in \<open>simp_all add: fresh_def below_def unstaged_def\<close>)
    then show "\<exists>r'. downloading d (?st r') (fresh (path_elems (rooted_path d) @ [''.stage-'' @ show_nat r]) Folder fs) \<and> Join [rooted_path d, ''.stage-'' @ show_nat r] = rooted_path (?st r')"
      using Join_component [OF d(1) temp_component(1)] e(1) by metis
  qed
  have tmp: "yields (downloading d (?st r)) (os_CreateTemp w (rooted_path d) ''.download-'')
      (\<lambda>x fs. \<exists>t. holding d (?st r) (?tk t) (\<lambda>_. True) fs \<and> x = rooted_path (?tk t))" for r
    unfolding os_CreateTemp_def
  proof (rule yields_temp [OF w])
    fix fs t assume h: "downloading d (?st r) fs"
    show "fs (path_elems (rooted_path d)) = Some Folder" using h walkable_parent(2) e(1) by (auto simp: downloading_def)
    show "fs (path_elems (rooted_path d) @ [''.download-'' @ show_nat t]) = None" using h e(1) by (simp add: downloading_def)
    have "holding d (?st r) (?tk t) (\<lambda>_. True) (fresh (?tk t) (File []) fs)" unfolding holding_def
    proof (intro conjI)
      show "walkable d (fresh (?tk t) (File []) fs)" using walkable_fresh h unfolding downloading_def by blast
    qed (use h in \<open>simp_all add: fresh_def below_def downloading_def\<close>)
    then show "\<exists>t'. holding d (?st r) (?tk t') (\<lambda>_. True) (fresh (path_elems (rooted_path d) @ [''.download-'' @ show_nat t]) (File []) fs)
        \<and> Join [rooted_path d, ''.download-'' @ show_nat t] = rooted_path (?tk t')"
      using Join_component [OF d(1) temp_component(2)] e(1) by metis
  qed
  have body: "yields (holding d (?st r) (?tk t) (\<lambda>_. True)) (deferring (os_Remove w (rooted_path (?tk t)))
      (s_then (stage_artifact w desc entry opts (rooted_path (?st r)) (rooted_path (?tk t)))
        (s_then (publish_stage w (rooted_path (?st r)) (rooted_path (d @ [pe_Digest entry]))) (s_tried (durable_SyncDir w (rooted_path d))))))
      (\<lambda>x fs. ?D fs \<and> x = Inr ())" for r t
  proof (rule yields_deferring_remove [OF w])
    have stage: "yields (holding d (?st r) (?tk t) (\<lambda>_. True)) (stage_artifact w desc entry opts (rooted_path (?st r)) (rooted_path (?tk t)))
      (\<lambda>_. staged_whole d (?st r) (pe_Path entry) data)"
      by (rule yields_stage [OF w raw pvs get pin sc(1) refl p e(2)]) auto
    have fin: "yields ?D (s_tried (durable_SyncDir w (rooted_path d))) (\<lambda>x fs. ?D fs \<and> x = Inr ())"
      by (rule yields_post [OF yields_tried [OF yields_sync [OF w]]]) auto
    show "yields (holding d (?st r) (?tk t) (\<lambda>_. True)) (s_then (stage_artifact w desc entry opts (rooted_path (?st r)) (rooted_path (?tk t)))
        (s_then (publish_stage w (rooted_path (?st r)) (rooted_path (d @ [pe_Digest entry]))) (s_tried (durable_SyncDir w (rooted_path d))))) (\<lambda>x fs. ?D fs \<and> x = Inr ())"
      by (rule yields_then [OF stage yields_then [OF yields_publish [OF w sc(1,3) ne(1)] fin]])
    show "?D (fs(path_elems (rooted_path (?tk t)) := None)) \<and> x = Inr ()"
      if "?D fs \<and> x = Inr ()" for x :: "aerr + unit" and fs using that unfolding e(2) delivered_def by simp
  qed
  show ?thesis unfolding materializeReleaseBinary_def Let_def dir
  proof (rule yields_then [OF mk], rule yields_bnd [OF temp], rule yields_some, rule yields_fact)
    fix x r
    assume x: "x = rooted_path (?st r)"
    have inner: "yields (downloading d (?st r)) (s_bnd (os_CreateTemp w (rooted_path d) ''.download-'') (\<lambda>tmp. deferring (os_Remove w tmp)
      (s_then (stage_artifact w desc entry opts (rooted_path (?st r)) tmp)
        (s_then (publish_stage w (rooted_path (?st r)) (rooted_path (d @ [pe_Digest entry]))) (s_tried (durable_SyncDir w (rooted_path d)))))))
      (\<lambda>x fs. ?D fs \<and> x = Inr ())"
      by (rule yields_bnd [OF tmp], rule yields_some, rule yields_fact, simp only:) (rule body)
    show "yields (downloading d (?st r)) (s_bnd (on_failure (os_RemoveAll w x) (s_bnd (os_CreateTemp w (rooted_path d) ''.download-'') (\<lambda>tmp.
         deferring (os_Remove w tmp)
           (s_then (stage_artifact w desc entry opts x tmp)
             (s_then (publish_stage w x (rooted_path (d @ [pe_Digest entry]))) (s_tried (durable_SyncDir w (rooted_path d)))))))) s_lift) (\<lambda>_. ?D)"
      unfolding x by (rule yields_bnd [OF yields_on_failure [OF inner]], rule yields_fact) (simp add: s_lift_def yields_ret)
  qed
qed

subsection \<open>Delivery\<close>

lemma yields_lock:
  assumes w: "calm_world w" and hex: "hex_digests w" and rs: "list_all component rs"
    and K: "\<And>fs. K fs \<Longrightarrow> open_way fs (rs @ [''locks''])"
    and touched: "\<And>fs n. K fs \<Longrightarrow> K' (\<lambda>q. if q = rs @ [''locks'', n] \<and> made (rs @ [''locks'']) (Suc (length rs)) fs q = None then Some (File []) else made (rs @ [''locks'']) (Suc (length rs)) fs q)"
    and fn: "yields K' fn Q"
  shows "yields K (withLock w (rooted_path rs) key fn) Q"
proof -
  let ?name = "take 32 (ow_sha w (bytes_of_string key)) @ ''.lock''"
  have c: "component ''locks''" by (simp add: component_def)
  have "isLowerHex (ow_sha w (bytes_of_string key))" "length (ow_sha w (bytes_of_string key)) = 64" using hex by (auto simp: hex_digests_def)
  then have "component (take 32 (ow_sha w (bytes_of_string key)))" by (intro hex_component isLowerHex_take) auto
  then have n: "component ?name" by (auto simp: component_def append_eq_Cons_conv)
  have l: "locksDir (rooted_path rs) = rooted_path (rs @ [''locks''])" unfolding locksDir_def by (rule Join_component [OF rs c])
  have le: "path_elems (rooted_path (rs @ [''locks''])) = rs @ [''locks'']" using path_elems_rooted [of "rs @ [''locks'']"] rs c by simp
  have k: "path_elems (Join [rooted_path (rs @ [''locks'']), ?name]) = rs @ [''locks'', ?name]"
    using Join_component [OF _ n, of "rs @ [''locks'']"] path_elems_rooted [of "rs @ [''locks'', ?name]"] rs c n by simp
  let ?M = "\<lambda>g. \<exists>fs. K fs \<and> g = made (rs @ [''locks'']) (Suc (length rs)) fs"
  have mk: "yields K (os_MkdirAll w (rooted_path (rs @ [''locks'']))) (\<lambda>_. ?M)"
    using K by (intro yields_mkdir [OF w]) (auto simp: le)
  have at: "yields ?M (s_atomic w (\<lambda>fs. if fs (rs @ [''locks'', ?name]) = None then fs(rs @ [''locks'', ?name] \<mapsto> File []) else fs)) (\<lambda>_. K')"
  proof (rule yields_atomic [OF w], elim exE conjE)
    fix g fs assume h: "K fs" and g: "g = made (rs @ [''locks'']) (Suc (length rs)) fs"
    have "(if g (rs @ [''locks'', ?name]) = None then g(rs @ [''locks'', ?name] \<mapsto> File []) else g)
      = (\<lambda>q. if q = rs @ [''locks'', ?name] \<and> g q = None then Some (File []) else g q)" by (rule ext) auto
    then show "K' (if g (rs @ [''locks'', ?name]) = None then g(rs @ [''locks'', ?name] \<mapsto> File []) else g)" using touched [OF h, folded g] by (simp only:)
  qed
  have "yields K' (if held then fn else s_throw ArtifactOther) Q" if held for held using fn that by simp
  then have lock: "yields K' (s_bnd (s_ask (ow_lock w)) (\<lambda>held. if held then fn else s_throw ArtifactOther)) Q"
    using w by (intro yields_bnd [OF yields_ask] yields_fact) (auto simp: calm_world_def)
  show ?thesis unfolding withLock_def Let_def l k by (rule yields_then [OF mk yields_then [OF at lock]])
qed

lemma pinned_delivery:
  assumes root: "store_validate r = None" and w: "calm_world w" and hex: "hex_digests w"
    and valid: "descriptor_Validate desc = None" and kind: "de_Kind desc = ReleaseBinary"
    and plat: "CurrentPlatform (fst (ow_platform w)) (snd (ow_platform w)) = Inr platform" "map_of (de_Platforms desc) platform = Some entry"
    and raw: "pe_Format entry = Raw" and path: "component (pe_Path entry)" "pe_Path entry \<noteq> ''meta.json''"
    and served: "\<forall>t. ow_get w t (ReleaseURL (pv_Repo (hd (pe_Providers entry))) (pv_Tag (hd (pe_Providers entry))) (pv_Name (hd (pe_Providers entry)))) (op_githubToken opts) []
      = Response 200 data True"
    and pin: "ow_sha w data = pe_Digest entry" "int (length data) = pe_Size entry"
    and way: "open_way (st_fs s) (path_elems (locksDir r))" "open_way (st_fs s) (path_elems (Dir (digestDir r (pe_Digest entry))))"
    and new: "unstaged (path_elems (Dir (digestDir r (pe_Digest entry)))) (st_fs s)" "st_fs s (path_elems (digestDir r (pe_Digest entry)) @ [pe_Path entry]) = None"
  shows "\<exists>s'. store_Resolve w r desc opts s = (Done (Join [digestDir r (pe_Digest entry), pe_Path entry]), s')
    \<and> delivered (path_elems (digestDir r (pe_Digest entry))) (pe_Path entry) data (st_fs s')"
proof -
  have a: "IsAbs r" "Clean r = r" using root by (auto simp: store_validate_def split: if_splits)
  obtain rs where rs: "list_all component rs" "r = rooted_path rs" using Clean_absolute [OF a(1)] a(2) by metis
  let ?dig = "pe_Digest entry" and ?p = "pe_Path entry"
  let ?d = "rs @ [''cache'', take 2 ?dig]"
  have canon: "canonicalDigestName (take 2 ?dig) ?dig" using validated_digest [OF valid kind plat(2)] by (auto intro: canonical_take)
  note parts = canonical_parts [OF canon]
  have dir: "digestDir r ?dig = rooted_path (?d @ [?dig])" using digestDir_rooted [OF rs(1) canon] rs(2) by simp
  have c: "list_all component ?d" "list_all component (?d @ [?dig])" using rs(1) parts by (auto simp: component_def)
  have e: "path_elems (digestDir r ?dig) = ?d @ [?dig]" "path_elems (Dir (digestDir r ?dig)) = ?d"
    using path_elems_rooted [OF c(2)] path_elems_rooted [OF c(1)] Dir_rooted [OF parts(2) c(1)] dir by simp_all
  have lk: "path_elems (locksDir r) = rs @ [''locks'']"
    using Join_component [OF rs(1), of "''locks''"] path_elems_rooted [of "rs @ [''locks'']"] rs by (simp add: locksDir_def component_def)
  have j: "safeJoin (rooted_path (?d @ [?dig])) ?p = Inr (rooted_path (?d @ [?dig, ?p]))" using safeJoin_component [OF c(2) path(1)] by simp
  have tgt: "Join [digestDir r ?dig, ?p] = rooted_path (?d @ [?dig, ?p])" using safeJoin_Join [OF j] dir by simp
  have te: "path_elems (rooted_path (?d @ [?dig, ?p])) = ?d @ [?dig, ?p]" using path_elems_rooted [of "?d @ [?dig, ?p]"] c(2) path(1) by simp
  have ev: "entry_validate False entry = None"
  proof -
    have "release_validate desc = None" using valid kind by (auto simp: descriptor_Validate_def split: if_splits option.splits)
    then show ?thesis using map_of_SomeD [OF plat(2)] by (auto simp: release_validate_def first_error_None split: if_splits)
  qed
  obtain pv pvs where pvs: "pe_Providers entry = pv # pvs" "pv_Type pv = GitHubRelease"
    using ev by (cases "pe_Providers entry") (auto simp: entry_validate_def provider_validate_def split: if_splits option.splits)
  have get: "ow_get w t (ReleaseURL (pv_Repo pv) (pv_Tag pv) (pv_Name pv)) (op_githubToken opts) [] = Response 200 data True" for t
    using served pvs(1) by simp
  have dot: "hd ?dig \<noteq> CHR ''.''" using canon by (cases ?dig) (auto simp: canonicalDigestName_def isLowerHex_def)
  let ?A = "\<lambda>fs. open_way fs ?d \<and> unstaged ?d fs \<and> fs (?d @ [?dig, ?p]) = None"
  let ?D = "delivered (?d @ [?dig]) ?p data"
  have miss: "\<not> cacheHit fs (rooted_path (?d @ [?dig])) (rooted_path (?d @ [?dig, ?p]))" if "?A fs" for fs
    using that te by (simp add: cacheHit_def regular_def)
  have mat: "yields ?A (materializeReleaseBinary w desc entry (rooted_path (?d @ [?dig])) opts) (\<lambda>_. ?D)"
    by (rule yields_pre [OF yields_materialize [OF w raw pvs get pin c(1) parts(2) dot path]]) blast
  have fn: "yields ?A (s_bnd (s_read (\<lambda>fs. cacheHit fs (rooted_path (?d @ [?dig])) (rooted_path (?d @ [?dig, ?p])))) (\<lambda>hit.
      if hit then s_ret () else materializeReleaseBinary w desc entry (rooted_path (?d @ [?dig])) opts)) (\<lambda>_. ?D)"
  proof (rule yields_bnd [OF yields_read])
    fix hit
    show "yields (\<lambda>fs. ?A fs \<and> hit = cacheHit fs (rooted_path (?d @ [?dig])) (rooted_path (?d @ [?dig, ?p])))
      (if hit then s_ret () else materializeReleaseBinary w desc entry (rooted_path (?d @ [?dig])) opts) (\<lambda>_. ?D)"
      using miss mat by (cases hit) (auto simp: yields_def)
  qed
  let ?L = "rs @ [''locks'']"
  let ?K = "\<lambda>fs. ?A fs \<and> open_way fs ?L"
  have lock: "yields ?K (withLock w (rooted_path rs) (''release:'' @ ?dig) (s_bnd (s_read (\<lambda>fs. cacheHit fs (rooted_path (?d @ [?dig])) (rooted_path (?d @ [?dig, ?p])))) (\<lambda>hit.
      if hit then s_ret () else materializeReleaseBinary w desc entry (rooted_path (?d @ [?dig])) opts))) (\<lambda>_. ?D)"
  proof (rule yields_lock [OF w hex rs(1) _ _ fn])
    fix fs n assume h: "?K fs"
    show "open_way fs ?L" using h by blast
    let ?g = "\<lambda>q. if q = rs @ [''locks'', n] \<and> made ?L (Suc (length rs)) fs q = None then Some (File []) else made ?L (Suc (length rs)) fs q"
    have keep: "?g (?d @ q) = fs (?d @ q)" for q by (simp add: made_def below_def)
    have "open_way ?g ?d" unfolding open_way_def
    proof
      fix m
      have "take m ?d \<noteq> rs @ [''locks'', n]"
      proof
        assume h: "take m ?d = rs @ [''locks'', n]"
        have "length (take m ?d) = length rs + 2" unfolding h by simp
        then have "take m ?d = ?d" by (intro take_all) simp
        then show False using h by simp
      qed
      then have "?g (take m ?d) = fs (take m ?d) \<or> ?g (take m ?d) = Some Folder" by (simp add: made_def)
      moreover have "fs (take m ?d) = None \<or> fs (take m ?d) = Some Folder" using h unfolding open_way_def by blast
      ultimately show "?g (take m ?d) = None \<or> ?g (take m ?d) = Some Folder" by metis
    qed
    moreover have "unstaged ?d ?g" unfolding unstaged_def keep using h [THEN conjunct1, THEN conjunct2, THEN conjunct1] unfolding unstaged_def .
    moreover have "?g (?d @ [?dig, ?p]) = None" unfolding keep using h by blast
    ultimately show "?A ?g" by blast
  qed
  have go: "yields ?K (s_bnd (s_read (\<lambda>fs. cacheHit fs (rooted_path (?d @ [?dig])) (rooted_path (?d @ [?dig, ?p])))) (\<lambda>hit.
           if hit then s_ret (rooted_path (?d @ [?dig, ?p]))
           else s_then (withLock w (rooted_path rs) (''release:'' @ ?dig) (s_bnd (s_read (\<lambda>fs. cacheHit fs (rooted_path (?d @ [?dig])) (rooted_path (?d @ [?dig, ?p])))) (\<lambda>hit.
               if hit then s_ret () else materializeReleaseBinary w desc entry (rooted_path (?d @ [?dig])) opts)))
             (s_ret (rooted_path (?d @ [?dig, ?p]))))) (\<lambda>x fs. x = rooted_path (?d @ [?dig, ?p]) \<and> ?D fs)"
  proof (rule yields_bnd [OF yields_read])
    fix hit
    have "yields ?K (s_then (withLock w (rooted_path rs) (''release:'' @ ?dig) (s_bnd (s_read (\<lambda>fs. cacheHit fs (rooted_path (?d @ [?dig])) (rooted_path (?d @ [?dig, ?p])))) (\<lambda>hit.
               if hit then s_ret () else materializeReleaseBinary w desc entry (rooted_path (?d @ [?dig])) opts))) (s_ret (rooted_path (?d @ [?dig, ?p]))))
        (\<lambda>x fs. x = rooted_path (?d @ [?dig, ?p]) \<and> ?D fs)"
      by (rule yields_then [OF lock]) (simp add: yields_ret)
    then show "yields (\<lambda>fs. ?K fs \<and> hit = cacheHit fs (rooted_path (?d @ [?dig])) (rooted_path (?d @ [?dig, ?p]))) (if hit then s_ret (rooted_path (?d @ [?dig, ?p]))
           else s_then (withLock w (rooted_path rs) (''release:'' @ ?dig) (s_bnd (s_read (\<lambda>fs. cacheHit fs (rooted_path (?d @ [?dig])) (rooted_path (?d @ [?dig, ?p])))) (\<lambda>hit.
               if hit then s_ret () else materializeReleaseBinary w desc entry (rooted_path (?d @ [?dig])) opts)))
             (s_ret (rooted_path (?d @ [?dig, ?p])))) (\<lambda>x fs. x = rooted_path (?d @ [?dig, ?p]) \<and> ?D fs)"
      using miss by (cases hit) (auto simp: yields_def)
  qed
  have rel: "yields ?K (resolveReleaseBinary w r desc opts) (\<lambda>x fs. x = rooted_path (?d @ [?dig, ?p]) \<and> ?D fs)"
    unfolding resolveReleaseBinary_def plat s_bnd_lift option.case Let_def dir j by (rule go [folded rs(2)])
  have "\<not> Dynamic (de_Version desc)" using valid kind by (auto simp: descriptor_Validate_def release_validate_def split: if_splits option.splits)
  then have v: "ResolveVersion (ow_object w) (ow_string w) h desc = Inr (vs_Static (de_Version desc))" for h
    by (auto simp: ResolveVersion_def Dynamic_def Let_def)
  have "yields ?K (store_Resolve w r desc opts) (\<lambda>x fs. x = rooted_path (?d @ [?dig, ?p]) \<and> ?D fs)"
    unfolding store_Resolve_def requiring_def root valid option.case v kind Kind.case
    by (rule yields_bnd [OF yields_ask], rule yields_fact, rule yields_bnd [OF yields_lift [OF refl]], rule yields_fact) (rule rel)
  moreover have "?K (st_fs s)" using way new unfolding e lk by simp
  ultimately show ?thesis unfolding yields_def e tgt by fastforce
qed

lemma cached_release:
  assumes root: "store_validate r = None" and valid: "descriptor_Validate desc = None" and kind: "de_Kind desc = ReleaseBinary"
    and plat: "CurrentPlatform (fst (ow_platform w)) (snd (ow_platform w)) = Inr platform" "map_of (de_Platforms desc) platform = Some entry"
    and path: "component (pe_Path entry)" and hit: "delivered (path_elems (digestDir r (pe_Digest entry))) (pe_Path entry) data (st_fs s)"
  shows "store_Resolve w r desc opts s = (Done (Join [digestDir r (pe_Digest entry), pe_Path entry]), s_tick s)"
proof -
  have a: "IsAbs r" "Clean r = r" using root by (auto simp: store_validate_def split: if_splits)
  obtain rs where rs: "list_all component rs" "r = rooted_path rs" using Clean_absolute [OF a(1)] a(2) by metis
  let ?dig = "pe_Digest entry" and ?p = "pe_Path entry"
  let ?dd = "rs @ [''cache'', take 2 ?dig, ?dig]"
  have canon: "canonicalDigestName (take 2 ?dig) ?dig" using validated_digest [OF valid kind plat(2)] by (auto intro: canonical_take)
  have dir: "digestDir r ?dig = rooted_path ?dd" using digestDir_rooted [OF rs(1) canon] rs(2) by simp
  have c: "list_all component ?dd" using rs(1) canonical_parts [OF canon] by (auto simp: component_def)
  have m: "component ''meta.json''" by (simp add: component_def)
  have j: "safeJoin (rooted_path ?dd) ?p = Inr (rooted_path (?dd @ [?p]))" by (rule safeJoin_component [OF c path])
  have f: "path_elems (rooted_path ?dd) = ?dd" "path_elems (rooted_path (?dd @ [?p])) = ?dd @ [?p]" "path_elems (Join [rooted_path ?dd, ''meta.json'']) = ?dd @ [''meta.json'']"
    using path_elems_rooted [OF c] path_elems_rooted [of "?dd @ [?p]"] path_elems_rooted [of "?dd @ [''meta.json'']"] Join_component [OF c m] c path m by simp_all
  have h: "cacheHit (st_fs s) (rooted_path ?dd) (rooted_path (?dd @ [?p]))"
    using hit unfolding dir f cacheHit_def regular_def delivered_def by auto
  have "\<not> Dynamic (de_Version desc)" using valid kind by (auto simp: descriptor_Validate_def release_validate_def split: if_splits option.splits)
  then have v: "ResolveVersion (ow_object w) (ow_string w) g desc = Inr (vs_Static (de_Version desc))" for g
    by (auto simp: ResolveVersion_def Dynamic_def Let_def)
  have "resolveReleaseBinary w r desc opts (s_tick s) = (Done (rooted_path (?dd @ [?p])), s_tick s)"
    unfolding resolveReleaseBinary_def plat s_bnd_lift option.case Let_def dir j using h by (simp add: s_bnd_def s_read_def s_ret_def)
  then show ?thesis using safeJoin_Join [OF j] unfolding store_Resolve_def requiring_def root valid option.case v s_bnd_lift kind Kind.case dir
    by (simp add: s_bnd_def s_ask_def)
qed


subsection \<open>A sample release\<close>

definition sample_release :: Descriptor where
  "sample_release = \<lparr> de_Schema = 1, de_Name = ''tool'', de_Kind = ReleaseBinary,
     de_Version = \<lparr> vs_Static = ''1.0.0'', vs_Command = [], vs_File = [], vs_PlistKey = [], vs_JSONField = [] \<rparr>,
     de_Platforms = [(''linux-x86_64'', \<lparr> pe_Size = 3, pe_Hash = ''sha256'', pe_Digest = sample_digest, pe_Format = Raw, pe_Path = ''tool'',
       pe_Providers = [\<lparr> pv_Type = GitHubRelease, pv_Repo = ''o/r'', pv_Tag = ''v1'', pv_Name = ''tool.tgz'' \<rparr>] \<rparr>)],
     de_Tool = None, de_App = None \<rparr>"

lemma sample_calm: "calm_world calm_outside" "hex_digests calm_outside"
  by (auto simp: calm_world_def calm_outside_def hex_digests_def sample_digest_def isLowerHex_def list_all_iff)

definition sample_entry :: PlatformEntry where "sample_entry = snd (hd (de_Platforms sample_release))"

lemma sample_paths:
  "store_validate ''/h'' = None" "descriptor_Validate sample_release = None" "path_elems (locksDir ''/h'') = [''h'', ''locks'']"
  "path_elems (digestDir ''/h'' sample_digest) = [''h'', ''cache'', ''aa'', sample_digest]"
  "path_elems (Dir (digestDir ''/h'' sample_digest)) = [''h'', ''cache'', ''aa'']"
  by code_simp+

lemma sample_platform: "CurrentPlatform (fst (ow_platform calm_outside)) (snd (ow_platform calm_outside)) = Inr ''linux-x86_64''"
  "map_of (de_Platforms sample_release) ''linux-x86_64'' = Some sample_entry" "de_Kind sample_release = ReleaseBinary"
  "pe_Format sample_entry = Raw" "component (pe_Path sample_entry)" "pe_Path sample_entry \<noteq> ''meta.json''" "pe_Digest sample_entry = sample_digest"
  by (simp_all add: calm_outside_def CurrentPlatform_def sample_release_def sample_entry_def component_def)

lemma new_store_free: "open_way (st_fs new_store) k" "unstaged [''h'', ''cache'', ''aa''] (st_fs new_store)"
  "st_fs new_store [''h'', ''cache'', ''aa'', sample_digest, p] = None"
  by (auto simp: new_store_def open_way_def unstaged_def)

lemma sample_served: "\<forall>t. ow_get calm_outside t url token accept = Response 200 [7, 8, 9] True" "ow_sha calm_outside [7, 8, 9] = sample_digest"
  "int (length ([7, 8, 9] :: bytes)) = pe_Size sample_entry"
  by (simp_all add: calm_outside_def sample_release_def sample_entry_def)

lemmas sample_facts = sample_calm sample_paths sample_platform new_store_free sample_served


end
