(* ===== verification/ArtifactHistory.thy ===== *)
theory ArtifactHistory
  imports ArtifactCalm
begin

text \<open>
  Histories of the store: sequences of resolutions and removals, each possibly cut off. The remaining operations (tool
  environments, copies of installed entrypoints, garbage collection) keep the provenance of the cache; the properties of the
  store follow.
\<close>

subsection \<open>Operations that keep the provenance\<close>

definition preserves :: "outside \<Rightarrow> string list \<Rightarrow> 'a sprog \<Rightarrow> bool" where
  "preserves w cd m \<longleftrightarrow> triple (keeping w cd) (keeping w cd) m (\<lambda>_. keeping w cd)"

named_theorems kept

lemma preserves_bnd [kept]: "preserves w cd m \<Longrightarrow> (\<And>x. preserves w cd (f x)) \<Longrightarrow> preserves w cd (s_bnd m f)"
  unfolding preserves_def by (rule triple_bnd)

lemma preserves_then [kept]: "preserves w cd m \<Longrightarrow> preserves w cd n \<Longrightarrow> preserves w cd (s_then m n)"
  unfolding preserves_def by (rule triple_then)

lemma preserves_basic [kept]:
  "preserves w cd (s_ret x)" "preserves w cd (s_throw e)" "preserves w cd (s_lift r)" "preserves w cd (s_ask g)" "preserves w cd (s_read h)"
  "preserves w cd (os_MkdirAll w' p)" "preserves w cd (os_RemoveAll w' p)" "preserves w cd (durable_SyncDir w' p)"
  by (simp_all add: preserves_def mkdir_keeps remove_keeps sync_keeps ask_keeps s_lift_def s_read_def triple_def [of _ _ "\<lambda>s. (Done (h (st_fs s)), s)"]
      split: sum.splits)

lemma preserves_choice [kept]:
  "preserves w cd m \<Longrightarrow> preserves w cd n \<Longrightarrow> preserves w cd (if b then m else n)"
  "preserves w cd m \<Longrightarrow> (\<And>x. preserves w cd (f x)) \<Longrightarrow> preserves w cd (case r of None \<Rightarrow> m | Some x \<Rightarrow> f x)"
  "(\<And>x y. preserves w cd (h x y)) \<Longrightarrow> preserves w cd (case q of (x, y) \<Rightarrow> h x y)"
  "(\<And>x. preserves w cd (g x)) \<Longrightarrow> (\<And>x. preserves w cd (f x)) \<Longrightarrow> preserves w cd (case t of Inl x \<Rightarrow> g x | Inr x \<Rightarrow> f x)"
  by (auto split: option.splits prod.splits sum.splits)

lemma preserves_tried [kept]: "preserves w cd m \<Longrightarrow> preserves w cd (s_tried m)"
  unfolding preserves_def by (rule triple_tried_always)

lemma preserves_on_failure [kept]: "preserves w cd d \<Longrightarrow> preserves w cd m \<Longrightarrow> preserves w cd (on_failure d m)"
  unfolding preserves_def by (rule triple_on_failure)

lemma preserves_requiring [kept]: "preserves w cd m \<Longrightarrow> preserves w cd (requiring e m)"
  by (auto simp: requiring_def preserves_basic split: option.splits)

lemma preserves_withLock: "list_all component rs \<Longrightarrow> hex_digests w \<Longrightarrow> preserves w (rs @ [''cache'']) fn \<Longrightarrow>
    preserves w (rs @ [''cache'']) (withLock w (rooted_path rs) key fn)"
  unfolding preserves_def by (rule withLock_keeps)

lemma preserves_write: "stray cd (path_elems p) \<Longrightarrow> preserves w cd (store_WriteFile w' p c)"
  unfolding preserves_def using verified_ops(4) by (intro triple_WriteFile) auto

lemma preserves_entrypoint [kept]: "preserves w cd (realEntrypoint link)"
  by (auto simp: preserves_def triple_def realEntrypoint_def split: option.splits fnode.splits)

subsection \<open>Tool environments\<close>

lemma laid_keeps:
  assumes "\<And>k. stray cd (d @ k)" and "verified w cd fs"
  shows "verified w cd (laid d files fs)"
  using assms(2)
proof (induction files arbitrary: fs)
  case (Cons f files)
  obtain k n where f: "f = (k, n)" by (cases f)
  have "laid d (f # files) fs = laid d files (fs(d @ k \<mapsto> n))" by (simp add: laid_def f)
  then show ?case using Cons.IH [OF verified_ops(4) [OF Cons.prems assms(1) [of k], of "Some n"]] by (simp only:)
qed (simp add: laid_def)

lemma tool_paths:
  assumes "list_all component rs" "tool_dir (rooted_path rs) pkg version = Inr toolDir"
  obtains es where "list_all component es" "toolDir = rooted_path (rs @ ''tools'' # es)" "path_elems toolDir = rs @ ''tools'' # es"
    "stray (rs @ [''cache'']) (path_elems (Join [toolDir, installedMarker]))"
proof -
  have t: "component ''tools''" "component installedMarker" by (simp_all add: component_def installedMarker_def)
  have d: "ToolsDir (rooted_path rs) = rooted_path (rs @ [''tools''])" unfolding ToolsDir_def by (rule Join_component [OF assms(1) t(1)])
  have c: "list_all component (rs @ [''tools''])" using assms(1) t by simp
  obtain es where es: "list_all component es" "toolDir = rooted_path ((rs @ [''tools'']) @ es)"
    using safeJoin_below [OF c] assms(2) unfolding tool_dir_def d by blast
  have all: "list_all component (rs @ ''tools'' # es)" using assms(1) es(1) t by simp
  have "path_elems (Join [toolDir, installedMarker]) = rs @ ''tools'' # es @ [installedMarker]"
    using Join_component [OF all t(2)] path_elems_rooted [of "rs @ ''tools'' # es @ [installedMarker]"] es(2) all t by simp
  then have "stray (rs @ [''cache'']) (path_elems (Join [toolDir, installedMarker]))" by (intro stray_outside) (simp add: below_def)
  then show thesis using that [OF es(1)] es(2) path_elems_rooted [OF all] by simp
qed

lemma installPythonTool_keeps:
  assumes "path_elems toolDir = rs @ ''tools'' # es" and "stray (rs @ [''cache'']) (path_elems marker)"
  shows "preserves w (rs @ [''cache'']) (installPythonTool w pkg version toolDir binDir link marker)"
proof -
  let ?cd = "rs @ [''cache'']"
  have s: "stray ?cd ((rs @ ''tools'' # es) @ k)" for k by (rule stray_outside) (simp add: below_def)
  have "preserves w ?cd (s_io w (on_fs (laid (path_elems toolDir) files)) (\<lambda>j. on_fs (laid (path_elems toolDir) (take j files))))" for files
    unfolding preserves_def assms(1) using laid_keeps [OF s] by (intro triple_io) (auto simp: disk_def on_fs_def s_tick_def)
  then have "preserves w ?cd (installTool w pkg version toolDir binDir)" unfolding installTool_def by (intro kept) auto
  then show ?thesis unfolding installPythonTool_def by (intro kept preserves_write assms(2)) auto
qed

lemma resolvePythonTool_keeps:
  assumes "list_all component rs" "hex_digests w"
  shows "preserves w (rs @ [''cache'']) (resolvePythonTool w (rooted_path rs) desc tool version)"
proof (cases "tool_dir (rooted_path rs) (ts_Dist tool) version")
  case (Inl e)
  then show ?thesis by (simp add: resolvePythonTool_def s_lift_def s_bnd_def s_throw_def preserves_def triple_def Let_def)
next
  case (Inr toolDir)
  obtain es where es: "path_elems toolDir = rs @ ''tools'' # es" "stray (rs @ [''cache'']) (path_elems (Join [toolDir, installedMarker]))"
    using tool_paths [OF assms(1) Inr] by metis
  have "s_bnd (s_lift (Inr toolDir)) f = f toolDir" for f :: "string \<Rightarrow> string sprog" by (simp add: s_bnd_def s_lift_def s_ret_def)
  then show ?thesis unfolding resolvePythonTool_def Inr Let_def
    using installPythonTool_keeps [OF es] by (simp only:) (intro kept preserves_withLock assms, auto)
qed

subsection \<open>Garbage collection\<close>

lemma preserves_removal [kept]: "preserves w cd (durable_RemoveTree_at w' p)"
  unfolding durable_RemoveTree_at_def by (intro kept)

lemma removeCacheEntry_keeps:
  assumes "list_all component rs" "hex_digests w"
  shows "preserves w (rs @ [''cache'']) (removeCacheEntry w (rooted_path rs) entry)"
  unfolding removeCacheEntry_def by (intro kept preserves_withLock assms)

lemma RemoveToolEntry_keeps:
  assumes "list_all component rs" "hex_digests w"
  shows "preserves w (rs @ [''cache'']) (RemoveToolEntry w (rooted_path rs) entry)"
  unfolding RemoveToolEntry_def by (intro kept preserves_withLock assms)

lemma list_shards_keeps: "preserves w cd (list_shards w' r shards entries)"
proof (induction shards arbitrary: entries)
  case (Cons x xs)
  then show ?case unfolding list_shards.simps Let_def by (intro kept)
qed (simp add: preserves_basic)

lemma pruneExecCopies_keeps:
  assumes "list_all component rs" "hex_digests w"
  shows "preserves w (rs @ [''cache'']) (pruneExecCopies w (rooted_path rs) source current)"
proof -
  have "preserves w (rs @ [''cache'']) (prune_each w (rooted_path rs) source current cutoff es)" for cutoff es
  proof (induction es)
    case (Cons e es)
    then show ?case unfolding prune_each.simps by (intro kept removeCacheEntry_keeps assms)
  qed (simp add: preserves_basic)
  then show ?thesis unfolding pruneExecCopies_def CacheEntries_def by (intro kept list_shards_keeps)
qed

subsection \<open>Copies of installed entrypoints\<close>

lemma Base_stays:
  assumes "list_all component st" "list_all component ts"
  obtains k where "path_elems (Join [rooted_path st, Base (rooted_path ts)]) = st @ k"
proof (cases ts rule: rev_cases)
  case Nil
  have "Base (rooted_path ts) = ''/''" using Nil by (simp add: Base_def rooted_path_def)
  moreover have "Join [rooted_path st, ''/''] = rooted_path st" using Join_rooted [OF assms(1), of "''/''"] by (simp add: clean_elem_def)
  ultimately show thesis using that [of "[]"] path_elems_rooted [OF assms(1)] by simp
next
  case (snoc us u)
  have u: "component u" "list_all component us" using assms(2) snoc by auto
  have "Join [rooted_path st, Base (rooted_path ts)] = rooted_path (st @ [u])"
    using Base_rooted [OF u(1)] snoc Join_component [OF assms(1) u(1)] by simp
  then show thesis using that [of "[u]"] path_elems_rooted [of "st @ [u]"] assms(1) u by simp
qed

lemma triple_option: "triple R P m Q \<Longrightarrow> (\<And>x. triple R P (f x) Q) \<Longrightarrow> triple R P (case r of None \<Rightarrow> m | Some x \<Rightarrow> f x) Q"
  by (cases r) auto

lemma copy_lays_out:
  assumes st: "stage_path cd st" and ts: "list_all component ts"
  shows "triple (keeping w cd) (disk (ready w cd st)) (copyExecutable w source (Join [rooted_path st, Base (rooted_path ts)]) ident)
    (\<lambda>_. disk (laid_out w cd st (\<lambda>_. True) {}))"
proof -
  have c: "list_all component st" using st by (simp add: stage_path_def)
  obtain k where k: "path_elems (Join [rooted_path st, Base (rooted_path ts)]) = st @ k" using Base_stays [OF c ts] by blast
  have wr: "triple (keeping w cd) (disk (ready w cd st)) (store_WriteFile w (Join [rooted_path st, Base (rooted_path ts)]) d)
    (\<lambda>_. disk (laid_out w cd st (\<lambda>_. True) {}))" for d
  proof (rule triple_WriteFile)
    fix fs :: fs and ws
    assume R: "ready w cd st fs ws" and n: "fs (path_elems (Join [rooted_path st, Base (rooted_path ts)])) \<noteq> Some Folder"
    have b: "bare st fs" and v: "verified w cd fs" using R by (auto simp: ready_def)
    have "k \<noteq> []" using n b k by (auto simp: bare_def)
    moreover have "stage_sound (\<lambda>_. True) st (fs(st @ k \<mapsto> File d))" by (rule staged_change [OF bare_staged [OF b]]) auto
    moreover have "verified w cd (fs(st @ k \<mapsto> File d))" using verified_ops(4) [OF v stage_stray [OF st below_append]] .
    ultimately show "laid_out w cd st (\<lambda>_. True) {} (fs(path_elems (Join [rooted_path st, Base (rooted_path ts)]) \<mapsto> File d)) ws"
      using b k by (simp add: laid_out_def filed_def bare_def)
  qed (auto simp: ready_def laid_out_def)
  have id: "triple (keeping w cd) (disk (ready w cd st)) (requireIdentity o' ident) (\<lambda>_. disk (ready w cd st))" for o'
    by (auto simp: requireIdentity_def ready_def disk_def split: option.splits)
  have tail: "triple (keeping w cd) (disk (ready w cd st)) (s_then (requireIdentity a ident) (if \<not> b then s_throw ArtifactOther
         else s_then (requireIdentity a' ident)
           (s_then (store_WriteFile w (Join [rooted_path st, Base (rooted_path ts)]) d) (s_ret x)))) (\<lambda>_. disk (laid_out w cd st (\<lambda>_. True) {}))" for a a' b d x
  proof (rule triple_then [OF id])
    show "triple (keeping w cd) (disk (ready w cd st)) (if \<not> b then s_throw ArtifactOther
         else s_then (requireIdentity a' ident)
           (s_then (store_WriteFile w (Join [rooted_path st, Base (rooted_path ts)]) d) (s_ret x))) (\<lambda>_. disk (laid_out w cd st (\<lambda>_. True) {}))"
    proof (cases b)
      case True
      have "triple (keeping w cd) (disk (ready w cd st)) (s_then (requireIdentity a' ident)
           (s_then (store_WriteFile w (Join [rooted_path st, Base (rooted_path ts)]) d) (s_ret x))) (\<lambda>_. disk (laid_out w cd st (\<lambda>_. True) {}))"
        by (rule triple_then [OF id], rule triple_then [OF wr]) simp
      then show ?thesis using True by simp
    qed (simp add: disk_def ready_def)
  qed
  show ?thesis unfolding copyExecutable_def
    by (rule triple_asked, simp add: ready_def, rule triple_option) (simp add: ready_def disk_def, rule tail)
qed

lemma key_traced: "traced w (execCopyKey w desc version source identity) c"
  by (auto simp: traced_def execCopyKey_def)

lemma materializeExecCopy_keeps:
  assumes cd: "list_all component (cd @ [shard])" and canon: "canonicalDigestName shard (execCopyKey w desc version source identity)"
    and ts: "list_all component ts"
  shows "preserves w cd (materializeExecCopy w desc version source identity
    (rooted_path (cd @ [shard, execCopyKey w desc version source identity])) (rooted_path ts))"
proof -
  let ?key = "execCopyKey w desc version source identity" and ?st = "\<lambda>r. cd @ [shard, ''.stage-'' @ show_nat r]"
  have c: "list_all component cd" "component shard" "component ?key" using cd canonical_parts [OF canon] by auto
  have dir: "Dir (rooted_path (cd @ [shard, ?key])) = rooted_path (cd @ [shard])" using Dir_rooted [of ?key "cd @ [shard]"] c by simp
  have sc: "list_all component (?st r)" for r using c temp_component by auto
  have sp: "stage_path cd (?st r)" for r using sc by (auto simp: stage_path_def)
  let ?meta = "\<lambda>digest. \<lparr> cm_Name = de_Name desc, cm_Tag = version, cm_Digest = digest, cm_Source = source, cm_FetchedAt = 0 \<rparr>"
  have rest: "triple (keeping w cd) (disk (laid_out w cd (?st r) (\<lambda>_. True) {}))
      (s_then (writeCacheMeta w (rooted_path (?st r)) (?meta digest)) (s_then (durable_SyncDir w (rooted_path (?st r)))
        (s_then (publish_stage w (rooted_path (?st r)) (rooted_path (cd @ [shard, ?key]))) (s_tried (durable_SyncDir w (rooted_path (cd @ [shard])))))))
      (\<lambda>_. keeping w cd)" for r digest
  proof (rule triple_then [OF meta_lays_out [OF sp]], rule triple_then [OF triple_sync])
    show "triple (keeping w cd) (disk (laid_out w cd (?st r) (\<lambda>_. True) {[''meta.json'']}))
        (s_then (publish_stage w (rooted_path (?st r)) (rooted_path (cd @ [shard, ?key]))) (s_tried (durable_SyncDir w (rooted_path (cd @ [shard])))))
        (\<lambda>_. keeping w cd)"
      using published [OF cd canon, of "''stage-'' @ show_nat r" "\<lambda>_. True" w "{[''meta.json'']}" "rooted_path (cd @ [shard])"] sc [of r] key_traced
      by (auto elim!: triple_post simp: disk_def resolved_def)
  qed (simp add: laid_out_def)
  have lift: "triple (keeping w cd) (keeping w cd) (s_lift x) (\<lambda>_. keeping w cd)" for x :: "aerr + unit"
    by (cases x) (auto simp: s_lift_def)
  show ?thesis unfolding preserves_def materializeExecCopy_def Let_def dir
  proof (rule triple_then [OF mkdir_keeps], rule triple_bnd [OF fresh_stage [OF c(1,2)]], rule triple_some, rule triple_fact)
    fix p r
    assume p: "p = rooted_path (?st r)"
    show "triple (keeping w cd) (disk (ready w cd (?st r))) (s_bnd (on_failure (os_RemoveAll w p)
         (s_bnd (copyExecutable w source (Join [p, Base (rooted_path ts)]) identity) (\<lambda>digest.
           s_then (writeCacheMeta w p (?meta digest)) (s_then (durable_SyncDir w p) (s_then (publish_stage w p (rooted_path (cd @ [shard, ?key])))
             (s_tried (durable_SyncDir w (rooted_path (cd @ [shard])))))))))
       s_lift) (\<lambda>_. keeping w cd)"
      unfolding p by (rule triple_bnd [OF triple_on_failure [OF triple_bnd [OF copy_lays_out [OF sp ts] rest] remove_keeps] lift])
  qed
qed

lemma resolveExecCopy_keeps:
  assumes rs: "list_all component rs" and hex: "hex_digests w"
  shows "preserves w (rs @ [''cache'']) (resolveExecCopy w (rooted_path rs) desc version source identity)"
proof -
  let ?key = "execCopyKey w desc version source identity"
  have canon: "canonicalDigestName (take 2 ?key) ?key" using hex by (auto simp: hex_digests_def execCopyKey_def intro!: canonical_take)
  have dir: "digestDir (rooted_path rs) ?key = rooted_path ((rs @ [''cache'']) @ [take 2 ?key, ?key])" by (rule digestDir_rooted [OF rs canon])
  have c: "list_all component ((rs @ [''cache'']) @ [take 2 ?key])" "list_all component ((rs @ [''cache'']) @ [take 2 ?key, ?key])"
    using rs canonical_parts [OF canon] by (auto simp: component_def)
  obtain ts where ts: "list_all component ts" "Join [rooted_path ((rs @ [''cache'']) @ [take 2 ?key, ?key]), Base source] = rooted_path ts"
    using Join_absolute [OF c(2)] by blast
  have m: "preserves w (rs @ [''cache'']) (materializeExecCopy w desc version source identity
      (rooted_path ((rs @ [''cache'']) @ [take 2 ?key, ?key])) (rooted_path ts))"
    by (rule materializeExecCopy_keeps [OF c(1) canon ts(1)])
  show ?thesis unfolding resolveExecCopy_def Let_def dir ts(2)
    by (intro kept preserves_withLock rs hex m pruneExecCopies_keeps)
qed

lemma attest_keeps: "preserves w cd (attestSignedApp w' desc app version exec)"
proof -
  have i: "preserves w cd (installedVersion w' p)" for p unfolding installedVersion_def by (intro kept)
  have ci: "preserves w cd (check_installed w' desc app want p)" for want p unfolding check_installed_def by (intro kept i)
  have app: "preserves w cd m \<Longrightarrow> preserves w cd n \<Longrightarrow> preserves w cd q \<Longrightarrow>
      preserves w cd (case a of AppMissing \<Rightarrow> m | AppUnreadable \<Rightarrow> n | AppPresent \<Rightarrow> q)" for a m n q by (cases a) auto
  show ?thesis unfolding attestSignedApp_def Let_def by (intro kept app ci)
qed

subsection \<open>Histories\<close>

datatype store_op = OpResolve Descriptor options | OpRemoveCache CacheEntry | OpRemoveTool ToolEntry

definition run_op :: "outside \<Rightarrow> string \<Rightarrow> store_op \<Rightarrow> store_state \<Rightarrow> store_state" where
  "run_op w r op s = (case op of
      OpResolve desc opts \<Rightarrow> snd (store_Resolve w r desc opts s)
    | OpRemoveCache entry \<Rightarrow> snd (removeCacheEntry w r entry s)
    | OpRemoveTool entry \<Rightarrow> snd (RemoveToolEntry w r entry s))"

definition run_ops :: "outside \<Rightarrow> string \<Rightarrow> store_op list \<Rightarrow> store_state \<Rightarrow> store_state" where
  "run_ops w r ops s = foldl (\<lambda>s op. run_op w r op s) s ops"

lemma preserves_snd: "preserves w cd m \<Longrightarrow> keeping w cd s \<Longrightarrow> keeping w cd (snd (m s))"
  by (cases "m s"; cases "fst (m s)") (auto simp: preserves_def dest: tripleD)

lemma store_Resolve_release:
  assumes rs: "list_all component rs" and hex: "hex_digests w" and kind: "de_Kind desc = ReleaseBinary"
  shows "triple (keeping w (rs @ [''cache''])) (keeping w (rs @ [''cache''])) (store_Resolve w (rooted_path rs) desc opts)
    (\<lambda>t. disk (\<lambda>fs ws. verified w (rs @ [''cache'']) fs \<and> resolves_to w rs desc t fs))"
proof (cases "store_validate (rooted_path rs) = None \<and> descriptor_Validate desc = None")
  case True
  have "triple (keeping w (rs @ [''cache''])) (keeping w (rs @ [''cache''])) (resolveReleaseBinary w (rooted_path rs) desc opts)
    (\<lambda>t. disk (\<lambda>fs ws. verified w (rs @ [''cache'']) fs \<and> resolves_to w rs desc t fs))"
    using validated_digest [OF _ kind] True by (intro release_resolves [OF rs hex]) auto
  then have go: "triple (keeping w (rs @ [''cache''])) (\<lambda>s. keeping w (rs @ [''cache'']) s \<and> q) (resolveReleaseBinary w (rooted_path rs) desc opts)
    (\<lambda>t. disk (\<lambda>fs ws. verified w (rs @ [''cache'']) fs \<and> resolves_to w rs desc t fs))" for q
    by (rule triple_pre) simp
  show ?thesis unfolding store_Resolve_def using True kind
    by (simp add: requiring_def) (rule triple_bnd [OF ask_keeps], rule triple_bnd [OF triple_lift], assumption, rule go)
qed (auto simp: store_Resolve_def requiring_def split: option.splits)

lemma store_Resolve_keeps:
  assumes rs: "list_all component rs" and hex: "hex_digests w"
  shows "preserves w (rs @ [''cache'']) (store_Resolve w (rooted_path rs) desc opts)"
proof (cases "de_Kind desc = ReleaseBinary")
  case True
  then show ?thesis unfolding preserves_def using triple_post [OF store_Resolve_release [OF assms True]] by (auto simp: disk_def)
next
  case False
  have app: "preserves w (rs @ [''cache'']) (resolveSignedApp w (rooted_path rs) desc a version)" for a version
    unfolding resolveSignedApp_def Let_def by (intro kept attest_keeps resolveExecCopy_keeps assms)
  show ?thesis unfolding store_Resolve_def using False resolvePythonTool_keeps [OF assms] app
    by (intro kept) (auto simp: preserves_basic split: Kind.splits)
qed

lemma run_ops_keep:
  assumes rs: "list_all component rs" and hex: "hex_digests w" and s: "keeping w (rs @ [''cache'']) s"
  shows "keeping w (rs @ [''cache'']) (run_ops w (rooted_path rs) ops s)"
  using s
proof (induction ops arbitrary: s)
  case (Cons op ops)
  have "keeping w (rs @ [''cache'']) (run_op w (rooted_path rs) op s)"
    using preserves_snd [OF store_Resolve_keeps [OF rs hex] Cons.prems] preserves_snd [OF removeCacheEntry_keeps [OF rs hex] Cons.prems]
      preserves_snd [OF RemoveToolEntry_keeps [OF rs hex] Cons.prems] by (cases op) (auto simp: run_op_def)
  then show ?case using Cons.IH by (simp add: run_ops_def)
qed (simp add: run_ops_def)

subsection \<open>Verified release binaries\<close>


lemma sample_history:
  obtains s' where "store_Resolve calm_outside ''/h'' sample_release no_options
      (run_ops calm_outside ''/h'' [OpResolve sample_release no_options] new_store) = (Done (Join [digestDir ''/h'' sample_digest, pe_Path sample_entry]), s')"
proof -
  obtain s1 where s1: "store_Resolve calm_outside ''/h'' sample_release no_options new_store = (Done (Join [digestDir ''/h'' sample_digest, pe_Path sample_entry]), s1)"
      "delivered (path_elems (digestDir ''/h'' sample_digest)) (pe_Path sample_entry) [7, 8, 9] (st_fs s1)"
    using pinned_delivery [where r = "''/h''" and w = calm_outside and desc = sample_release and platform = "''linux-x86_64''" and entry = sample_entry
      and opts = no_options and data = "[7, 8, 9]" and s = new_store] sample_facts by auto
  have "run_ops calm_outside ''/h'' [OpResolve sample_release no_options] new_store = s1" using s1(1) by (simp add: run_ops_def run_op_def)
  then show thesis
    using cached_release [where r = "''/h''" and w = calm_outside and desc = sample_release and platform = "''linux-x86_64''" and entry = sample_entry
      and opts = no_options and data = "[7, 8, 9]" and s = s1] s1(2) sample_facts that by simp
qed


subsection \<open>What the store does not promise\<close>

text \<open>
  A tool version is joined, not checked to be one name: the version \<open>..\<close> of any distribution makes the tool directory the whole
  tool store, which the installation then clears.
\<close>

definition tool_marker :: "string list" where "tool_marker = [''h'', ''tools'', ''black'', ''1.0'', ''.installed'']"

definition two_tools :: store_state where
  "two_tools = new_store\<lparr>st_fs := (st_fs new_store)([''h'', ''tools''] \<mapsto> Folder, [''h'', ''tools'', ''black'', ''1.0''] \<mapsto> Folder, tool_marker \<mapsto> File [],
      [''h'', ''tools'', ''black'', ''1.0'', ''bin'', ''black''] \<mapsto> File [1])\<rparr>"

lemma tool_version_clears_store:
  "tool_dir ''/h'' ''ruff'' ''..'' = Inr (ToolsDir ''/h'')"
  "st_fs (snd (os_RemoveAll calm_outside (ToolsDir ''/h'') two_tools)) tool_marker = None"
  by code_simp+

text \<open>A removal of a tool environment that loses power may leave its marker, and with it an environment that passes for whole.\<close>

definition losing_power :: outside where
  "losing_power = calm_outside\<lparr>ow_fault := (\<lambda>t. if t = 3 then Some (True, 0) else None), ow_kept := (\<lambda>_ q. q = tool_marker)\<rparr>"

lemma removal_leaves_marker:
  "st_fs (snd (RemoveToolEntry losing_power ''/h'' \<lparr> te_Dist = ''black'', te_Version = ''1.0'', te_Dir = ''/h/tools/black/1.0'', te_InstalledAt = 0 \<rparr> two_tools)) tool_marker = Some (File [])"
  "st_fs (snd (RemoveToolEntry losing_power ''/h'' \<lparr> te_Dist = ''black'', te_Version = ''1.0'', te_Dir = ''/h/tools/black/1.0'', te_InstalledAt = 0 \<rparr> two_tools)) [''h'', ''tools'', ''black'', ''1.0'', ''bin'', ''black''] = None"
  by code_simp+

end
