(* ===== verification/Spec2Isabelle.thy ===== *)
theory Spec2Isabelle
  imports Lifecycle Version Converge Supervise WireRace Business DeployGate DeployServices ArtifactHistory
begin

text \<open>
  A verification development for daemonkit, a Go library that runs one detached daemon per user: a
  multiplexed session protocol over a unix socket, a durable record of the processes it owns, and
  the ladder that ends them. The sources are under \<^verbatim>\<open>src/\<close>; every theory names the files it models.

  \<^bold>\<open>Parts and how they interact.\<close> A client dials the daemon's socket and completes a handshake
  (\<^verbatim>\<open>internal/wire/hello.go\<close>); the server admits the connection through its gates and slots
  (\<^verbatim>\<open>internal/wire/server.go\<close>) and serves a session (\<^verbatim>\<open>internal/wire/session.go\<close>); the client
  multiplexes calls on it (\<^verbatim>\<open>internal/wire/client.go\<close>). Both sides read and write frames through the
  codec (\<^verbatim>\<open>internal/wire/frame.go\<close>, \<^verbatim>\<open>internal/wire/codec.go\<close>). The daemon spawns children and
  records each in a state file (\<^verbatim>\<open>internal/state\<close>, \<^verbatim>\<open>internal/proc/store.go\<close>) before the child runs,
  and a later instance reclaims what it finds there with the reap ladder
  (\<^verbatim>\<open>internal/proc/reap.go\<close>). One process is the daemon (\<^verbatim>\<open>serve.go\<close>); while it serves, a scope owns its
  children (\<^verbatim>\<open>own.go\<close>, \<^verbatim>\<open>ownership_natural.go\<close>); when it stops, a ladder of stages shares what is left of its budget
  (\<^verbatim>\<open>budget.go\<close>). A launcher makes the wanted build serve or makes nothing serve (\<^verbatim>\<open>ensure.go\<close>, \<^verbatim>\<open>stop.go\<close>):
  it observes the socket and the owner record, evicts the incumbent it observed, proves it gone, and only then moves the
  service. Beside them a store materialises the artifacts descriptors pin (\<^verbatim>\<open>artifact/\<close>).

  \<^bold>\<open>Theories.\<close>
  \<^item> \<open>Prelude\<close>: word types, bytes and big-endian fields, error composition, association-list maps.
  \<^item> \<open>WireFrame\<close>: frames and the codec. A connection is the bytes that will still arrive, or the list
    of answers to its writes. The locale \<open>packet_format\<close> is the contract a packet reader has; its
    interpretation \<open>frames\<close> discharges it for the codec, and with it a stream of packets determines
    its frames. Encoding and decoding are inverse, the drain preamble cannot be a frame, a partial
    write cannot dispatch.
  \<^item> \<open>WireRuntime\<close>: error sentinels, phases, response codes, stream sequences, bounded streams.
  \<^item> \<open>WireSession\<close>: the server's side of one session as a labelled step relation \<open>sess_step\<close> whose
    steps are the frames of the read loop and the internal operations. Its invariant \<open>sess_inv\<close> gives
    the bounds, single admission of ids, ownership of passed descriptors; the dispatch gates are a
    function of session, phase and operation.
  \<^item> \<open>WireClient\<close>: the client's side as the step relation \<open>client_step\<close>, with a panic as a value, each operation composed of
    the critical sections of the source. A failure settles all, outcomes are truthful for every fate of the request frame,
    response streams arrive in order; and the interaction with \<open>WireSession\<close> that wedges a session.
  \<^item> \<open>WireRace\<close>: the same critical sections interleaved (\<open>race_step\<close>): opens, the read loop and the failure of the session
    race at the granularity of its locks. No channel is closed twice and a call settles exactly once.
  \<^item> \<open>WireServer\<close>: construction, gate walks and both ends of the handshake, from bytes to bytes. The
    locale \<open>slot_pool\<close> is the contract of a counted channel; the pending and the session slots
    interpret it.
  \<^item> \<open>StateFile\<close>: the frozen frame and the operations on the durable file.
  \<^item> \<open>ProcStore\<close>: identity, the record store with its one writer, the owner block, spawn, adoption.
  \<^item> \<open>ProcReap\<close>: the ladder against a process table that may change between any two calls. Its loops
    are partial functions; they are shown to return once the caller's context has ended.
  \<^item> \<open>Version\<close>: classification and order of builds on the bytes of their names (\<^verbatim>\<open>version/version.go\<close>).
  \<^item> \<open>Float64\<close>, \<open>Budget\<close>: the rounding of float64 as a function on rationals, and deadline budgets whose shares use it. The
    locale \<open>carving\<close> is what a share promises of its parent; \<open>Share\<close> and \<open>Reserve\<close> interpret it.
  \<^item> \<open>Lifecycle\<close>: the phase runtime of a serving daemon as a step relation \<open>rt_step\<close>, the stages of the shutdown ladder over
    budgets, and \<open>Serve\<close> as the trace of its effects: the order of lock, recovery, bind and start, and what a released lock
    proves.
  \<^item> \<open>Ownership\<close>: the scope of owned processes as a step relation \<open>own_step\<close> with its invariant, settlement, the natural
    drain with its proof, and the retirement of records whose whole scope was observed quiet.
  \<^item> \<open>Control\<close>: what a client observes and the verbs on one identity: the pinned session, drain, settle, terminate, the
    executable inventory, readiness. The record \<open>boundary\<close> holds the answers of everything outside at each instant.
  \<^item> \<open>Converge\<close>: the ladders \<open>Ensure\<close> and \<open>Stop\<close>, their effects in order. Evictions are addressed to what was observed, the
    service moves after a proven departure, results are true, both ladders return.
  \<^item> \<open>Business\<close>: the lanes of a client as a step relation \<open>lane_step\<close> and the classification of a call, composed with the session of
    \<open>WireClient\<close>: no session leaks, a closed lane refuses, an undispatched call proves it.
  \<^item> \<open>Names\<close>: lexical paths and labels. A valid label stays below the directory it is joined to.
  \<^item> \<open>Driver\<close>: the driver of a live child (\<^verbatim>\<open>internal/proc/driver.go\<close>, \<^verbatim>\<open>internal/proc/preserve.go\<close>) and the bounded capture of
    its output. What it publishes is a proof or leaves the record; SIGKILL waits out its share; it publishes.
  \<^item> \<open>Supervise\<close>: services and the supervisor of one label as a step relation \<open>sup_step\<close> (\<^verbatim>\<open>supervise/\<close>). The specification is the
    automaton \<open>promised\<close> on its events; a forward simulation shows that every run keeps it.
  \<^item> \<open>DeployRecord\<close>: the records, generations and paths of a deployed application (\<^verbatim>\<open>deploy/record.go\<close>, \<^verbatim>\<open>deploy/generation.go\<close>).
    The paths of a layout are pairwise different.
  \<^item> \<open>Quiesce\<close>: the ladder that proves a deployment quiet, its inventory gate and readiness (\<^verbatim>\<open>deploy/quiesce.go\<close>,
    \<^verbatim>\<open>deploy/inventory.go\<close>), over the verbs of \<open>Control\<close>. What a returned proof means.
  \<^item> \<open>Agent\<close>: LaunchAgents, the property list each renders to, plans, and the classifier of launchctl's answers (\<^verbatim>\<open>launchd/agent.go\<close>,
    \<^verbatim>\<open>launchd/calendar.go\<close>, \<^verbatim>\<open>launchd/policy.go\<close>, \<^verbatim>\<open>launchd/restart.go\<close>, \<^verbatim>\<open>launchd/plan.go\<close>, \<^verbatim>\<open>launchd/launchctl.go\<close>).
  \<^item> \<open>Machine\<close>: the disk, records, property lists and jobs that a deployment works on, as the state of a program that returns,
    fails or halts in a crash; the file primitives of \<^verbatim>\<open>durable/\<close>; weakest preconditions and what programs keep.
  \<^item> \<open>Launchd\<close>: \<^verbatim>\<open>launchd/apply.go\<close>. Apply is exact and touches one label, a first install takes nothing.
  \<^item> \<open>Deploy\<close>: the verbs of \<^verbatim>\<open>deploy/deploy.go\<close>, \<^verbatim>\<open>deploy/swap.go\<close>, \<^verbatim>\<open>deploy/fresh.go\<close> as programs over the machine.
  \<^item> \<open>DeploySafety\<close>, \<open>DeployVerbs\<close>: the invariant \<open>deploy_inv\<close> of the disk and the swap record, kept by every verb at every crash
    point; a supersede is atomic. The locales \<open>quiet_condition\<close> and \<open>disk_condition\<close> are the conditions that gates, launchd and
    the smaller records cannot disturb; each condition of the proofs interprets one.
  \<^item> \<open>DeployRecovery\<close>: recovery returns with the swap complete. \<open>DeployGate\<close>: the log of a verb shows a gate before everything taken.
    \<open>DeployServices\<close>: the record of services covers the loaded jobs; a converge is exact, an uninstall leaves nothing.
  \<^item> \<open>Artifact\<close>: descriptors, version sources, containment of joined paths and budgets (\<^verbatim>\<open>artifact/descriptor.go\<close>, \<^verbatim>\<open>bundle/plist.go\<close>).
    \<open>ArtifactStore\<close>: the artifact store as programs over a file system, from \<^verbatim>\<open>artifact/archive.go\<close>, \<^verbatim>\<open>artifact/store.go\<close>,
    \<^verbatim>\<open>artifact/releasebinary.go\<close>, \<^verbatim>\<open>artifact/pythontool.go\<close>, \<^verbatim>\<open>artifact/signedapp.go\<close> and \<^verbatim>\<open>artifact/cache.go\<close>.
  \<^item> \<open>ArtifactSafety\<close>: triples, and the locale \<open>extracting\<close>, what an extraction keeps; interpreted for confinement and bounds there
    and for provenance in \<open>ArtifactCache\<close>. \<open>ArtifactVerified\<close> and \<open>ArtifactHistory\<close>: every operation keeps the provenance of the
    cache, so what resolves was verified. \<open>ArtifactCalm\<close>: without faults a pinned release is delivered, once.

  \<^bold>\<open>Modelling choices.\<close> A Go error is the list of sentinels \<open>errors.Is\<close> finds in it. Goroutines are
  the steps of a relation: an operation is atomic where the code holds the lock that makes it so, and
  the gate walks take the server state at each point where the code takes the lock. Request ids,
  sequences, stamps and generations are words of their width, so they wrap as in the code. A closed
  channel is a flag. Time in \<open>ProcReap\<close>, \<open>Control\<close> and \<open>Converge\<close> is a count of calls to the outside, with the clock and
  the end of the context as functions of it. There is no fuel; the links \<open>eval_links\<close> may follow are counted as the library counts them.

  \<^bold>\<open>Parameters.\<close> The JSON encodings of the handshake payloads (record \<open>json\<close>) and of the state file
  (record \<open>codec\<close>) are arguments, and a property that needs a round trip names it as a hypothesis on
  the values involved. The kernel's side of a pidfd is the hypothesis \<open>persistent\<close>: a process present at
  two instants is present between them with the same start stamp. What launchctl does to the jobs of launchd is the
  hypothesis \<open>lawful_launchd\<close>, from its manual; a crash or refusal at any file operation, what codesign and the digest of a
  bundle say, and which part of a tree a cut-off removal leaves are answers of the record \<open>machine\<close>. While a verb holds the
  deployment lock nothing else changes the deployment's files. For the artifact store the network, the clock, sha256, the
  archive readers, \<^verbatim>\<open>uv\<close> and which effect is refused or cut off are answers of the record \<open>outside\<close>; that a sha256 is printed
  as 64 lower-case hexadecimal digits is the hypothesis \<open>hex_digests\<close>.

  \<^bold>\<open>Not modelled.\<close> The client side of the supervisor's socket, the walk that syncs a tool tree and the listing of tool
  environments, the client of the GitHub release API, \<open>deploy.Open\<close> with its checks
  of the configuration, and the JSON decoders. Not modelled because they are input and output only: the platform layer of
  \<^verbatim>\<open>internal/proc\<close>, descriptor passing, codesign and the walks over bundles, logging; the wire schema generator runs at
  build time.
\<close>

end
